(* ===== verification/Prelude.thy ===== *)
theory Prelude
  imports Main "HOL-Library.Word" "HOL-Library.Multiset"
begin

text \<open>
  Shared vocabulary of the development: the machine-integer types of the C++ code, the
  values of a run that may fault, the constants of \<^verbatim>\<open>sk_types.h\<close>, and the generic facts on
  lists, sorted insertion and words that several components use.
\<close>

section \<open>Machine integers and constants\<close>

type_synonym u16 = "16 word"
type_synonym u32 = "32 word"
type_synonym u64 = "64 word"

type_synonym node_id = u64
type_synonym stream_idx = u32
type_synonym event_id = u64

definition INVALID_TASK_ID :: u64 where
  "INVALID_TASK_ID = - 1"

definition SK_TOTAL_UB_SIZE :: u64 where
  "SK_TOTAL_UB_SIZE = 262144"

definition INVALID_SCOPE_ID :: u16 where
  "INVALID_SCOPE_ID = - 1"

definition INVALID_STREAM_ID :: u32 where
  "INVALID_STREAM_ID = - 1"

definition MAX_SCOPE_NUM :: nat where
  "MAX_SCOPE_NUM = 1024"

definition UINT64_MAX :: u64 where
  "UINT64_MAX = - 1"

definition UINT32_MAX :: u32 where
  "UINT32_MAX = - 1"

named_theorems sk_const \<open>definitions of the numeric constants of the code\<close>

lemmas sk_const_defs [sk_const] = INVALID_TASK_ID_def INVALID_SCOPE_ID_def
  INVALID_STREAM_ID_def MAX_SCOPE_NUM_def UINT64_MAX_def UINT32_MAX_def

section \<open>Runs that may fault\<close>

text \<open>
  A C++ call that dereferences a null pointer, reads the top of an empty queue or indexes a
  container out of range has no defined result, and a recursion of the model that has used up
  its fuel has none either. Such a run is \<open>Inl\<close> of the fault; every other run is \<open>Inr\<close> of
  the returned value together with the state it leaves.
\<close>

datatype fault = NullDeref | EmptyTop | OutOfRange | OutOfFuel

type_synonym 'a run = "fault + 'a"

definition bindR :: "'a run \<Rightarrow> ('a \<Rightarrow> 'b run) \<Rightarrow> 'b run" where
  "bindR m f = (case m of Inl e \<Rightarrow> Inl e | Inr x \<Rightarrow> f x)"

lemma bindR_simps [simp]:
  "bindR (Inl e) f = Inl e"
  "bindR (Inr x) f = f x"
  by (simp_all add: bindR_def)

lemma bindR_eq_Inr_iff: "bindR m f = Inr y \<longleftrightarrow> (\<exists>x. m = Inr x \<and> f x = Inr y)"
  by (cases m) auto

lemma bindR_eq_InrE [elim!]:
  assumes "bindR m f = Inr y"
  obtains x where "m = Inr x" and "f x = Inr y"
  using assms by (auto simp: bindR_eq_Inr_iff)

lemma bindR_cong [fundef_cong]:
  "m = n \<Longrightarrow> (\<And>x. n = Inr x \<Longrightarrow> f x = g x) \<Longrightarrow> bindR m f = bindR n g"
  by (cases n) auto

definition derefR :: "'a option \<Rightarrow> 'a run" where
  "derefR p = (case p of None \<Rightarrow> Inl NullDeref | Some x \<Rightarrow> Inr x)"

lemma derefR_simps [simp]:
  "derefR None = Inl NullDeref"
  "derefR (Some x) = Inr x"
  by (simp_all add: derefR_def)

lemma derefR_eq_Inr_iff [simp]: "derefR p = Inr x \<longleftrightarrow> p = Some x"
  by (cases p) auto

text \<open>Reading a vector by index.\<close>

definition atR :: "'a list \<Rightarrow> nat \<Rightarrow> 'a run" where
  "atR xs i = (if i < length xs then Inr (xs ! i) else Inl OutOfRange)"

lemma atR_eq_Inr [simp]: "atR xs i = Inr x \<longleftrightarrow> i < length xs \<and> xs ! i = x"
  by (auto simp: atR_def)

lemma atR_ok: "i < length xs \<Longrightarrow> atR xs i = Inr (xs ! i)"
  by simp

section \<open>Loops\<close>

text \<open>
  A range-based \<open>for\<close> whose body may fault, and one whose body may leave the enclosing
  function with \<open>false\<close>. Both thread the mutated state and come with an invariant rule.
\<close>

fun foldR :: "('a \<Rightarrow> 's \<Rightarrow> 's run) \<Rightarrow> 'a list \<Rightarrow> 's \<Rightarrow> 's run" where
  "foldR f [] s = Inr s"
| "foldR f (x # xs) s = bindR (f x s) (foldR f xs)"

lemma foldR_cong [fundef_cong]:
  assumes "xs = ys" and "s = t" and "\<And>x u. x \<in> set ys \<Longrightarrow> f x u = g x u"
  shows "foldR f xs s = foldR g ys t"
proof -
  have "foldR f ys u = foldR g ys u" for u
    using assms(3) by (induction ys arbitrary: u) (auto intro!: bindR_cong)
  then show ?thesis using assms(1,2) by simp
qed

lemma foldR_append: "foldR f (xs @ ys) s = bindR (foldR f xs s) (foldR f ys)"
proof (induction xs arbitrary: s)
  case (Cons x xs)
  then show ?case by (cases "f x s") auto
qed simp

lemma foldR_invariant:
  assumes "foldR f xs s = Inr t" and "P s"
    and "\<And>x u v. x \<in> set xs \<Longrightarrow> P u \<Longrightarrow> f x u = Inr v \<Longrightarrow> P v"
  shows "P t"
  using assms
proof (induction xs arbitrary: s)
  case (Cons x xs)
  from Cons.prems(1) obtain u where u: "f x s = Inr u" "foldR f xs u = Inr t" by auto
  from u(1) Cons.prems(2,3) have "P u" by auto
  from Cons.IH[OF u(2) this] Cons.prems(3) show ?case by auto
qed simp

lemma foldR_total:
  assumes "P s" and "\<And>x u. x \<in> set xs \<Longrightarrow> P u \<Longrightarrow> \<exists>v. f x u = Inr v \<and> P v"
  shows "\<exists>t. foldR f xs s = Inr t \<and> P t"
  using assms
proof (induction xs arbitrary: s)
  case (Cons x xs)
  from Cons.prems obtain u where u: "f x s = Inr u" "P u" by auto
  from Cons.IH[OF u(2)] Cons.prems(2) u(1) show ?case by auto
qed simp

fun all_ok :: "('a \<Rightarrow> 's \<Rightarrow> bool \<times> 's) \<Rightarrow> 'a list \<Rightarrow> 's \<Rightarrow> bool \<times> 's" where
  "all_ok f [] s = (True, s)"
| "all_ok f (x # xs) s = (let (ok, t) = f x s in if ok then all_ok f xs t else (False, t))"

lemma all_ok_Cons_cases:
  assumes "all_ok f (x # xs) s = (b, t)"
  obtains "f x s = (False, t)" and "\<not> b" | u where "f x s = (True, u)" and "all_ok f xs u = (b, t)"
  using assms by (cases "f x s") (auto split: if_splits)

lemma all_ok_invariant:
  assumes "all_ok f xs s = (b, t)" and "P s"
    and "\<And>x u c v. x \<in> set xs \<Longrightarrow> P u \<Longrightarrow> f x u = (c, v) \<Longrightarrow> P v"
  shows "P t"
  using assms
proof (induction xs arbitrary: s)
  case (Cons x xs)
  from Cons.prems(1) show ?case
  proof (cases rule: all_ok_Cons_cases)
    case 1
    then show ?thesis using Cons.prems(2,3) by auto
  next
    case (2 u)
    then show ?thesis using Cons.IH[OF 2(2)] Cons.prems(2,3) by auto
  qed
qed simp

lemma all_ok_keeps:
  assumes "all_ok f xs s = (True, t)" and "P s"
    and "\<And>x u v. x \<in> set xs \<Longrightarrow> P u \<Longrightarrow> f x u = (True, v) \<Longrightarrow> P v"
  shows "P t"
  using assms
proof (induction xs arbitrary: s)
  case (Cons x xs)
  from Cons.prems(1) show ?case
    by (cases rule: all_ok_Cons_cases) (use Cons in auto)
qed simp

lemma all_ok_each:
  assumes "all_ok f xs s = (True, t)"
    and "\<And>x u v. x \<in> set xs \<Longrightarrow> f x u = (True, v) \<Longrightarrow> Q x v"
    and "\<And>x y u v. y \<in> set xs \<Longrightarrow> x \<in> set xs \<Longrightarrow> Q x u \<Longrightarrow> f y u = (True, v) \<Longrightarrow> Q x v"
  shows "\<forall>x\<in>set xs. Q x t"
  using assms
proof (induction xs arbitrary: s)
  case (Cons a xs)
  from Cons.prems(1) obtain u where u: "f a s = (True, u)" "all_ok f xs u = (True, t)"
    by (cases rule: all_ok_Cons_cases) auto
  have "Q a u" using Cons.prems(2) u(1) by simp
  with u(2) have "Q a t"
    by (rule all_ok_keeps) (use Cons.prems(3) in auto)
  moreover have "\<forall>x\<in>set xs. Q x t"
  proof (rule Cons.IH[OF u(2)])
    show "Q x v" if "x \<in> set xs" "f x w = (True, v)" for x w v
      by (rule Cons.prems(2)[of x w]) (use that in simp_all)
    show "Q x v" if "y \<in> set xs" "x \<in> set xs" "Q x w" "f y w = (True, v)" for x y w v
      by (rule Cons.prems(3)[of y x w]) (use that in simp_all)
  qed
  ultimately show ?case by simp
qed simp

section \<open>Ordered containers\<close>

text \<open>
  A \<open>std::set\<close> ordered by its key is a strictly increasing list; \<open>insert\<close> leaves the set
  alone when the key is present, \<open>begin\<close> is the head. A \<open>std::priority_queue\<close> with
  \<open>std::greater\<close> is an increasing list with duplicates; \<open>top\<close> is the head.
\<close>

definition oset_insert :: "'a::linorder \<Rightarrow> 'a list \<Rightarrow> 'a list" where
  "oset_insert x xs = (if x \<in> set xs then xs else insort x xs)"

definition oset :: "'a::linorder list \<Rightarrow> bool" where
  "oset xs \<longleftrightarrow> sorted xs \<and> distinct xs"

lemma oset_Nil [simp]: "oset []"
  by (simp add: oset_def)

lemma set_oset_insert [simp]: "set (oset_insert x xs) = insert x (set xs)"
  by (auto simp: oset_insert_def set_insort_key)

lemma oset_oset_insert [intro]: "oset xs \<Longrightarrow> oset (oset_insert x xs)"
  by (auto simp: oset_def oset_insert_def sorted_insort distinct_insort)

lemma oset_remove1 [intro]: "oset xs \<Longrightarrow> oset (remove1 x xs)"
  by (auto simp: oset_def sorted_remove1)

lemma set_remove1_oset: "oset xs \<Longrightarrow> set (remove1 x xs) = set xs - {x}"
  by (simp add: oset_def)

lemma oset_hd_least: "oset xs \<Longrightarrow> xs \<noteq> [] \<Longrightarrow> x \<in> set xs \<Longrightarrow> hd xs \<le> x"
  by (cases xs) (auto simp: oset_def)

lemma oset_find_least:
  assumes "oset xs" and "List.find P xs = Some x"
  shows "x \<in> set xs \<and> P x \<and> (\<forall>y\<in>set xs. P y \<longrightarrow> x \<le> y)"
  using assms by (induction xs) (auto simp: oset_def split: if_splits)

lemma find_SomeD: "List.find P xs = Some x \<Longrightarrow> x \<in> set xs \<and> P x"
  by (induction xs) (auto split: if_splits)

lemma find_None_iff': "List.find P xs = None \<longleftrightarrow> (\<forall>x\<in>set xs. \<not> P x)"
  by (auto simp: find_None_iff)

section \<open>Lists\<close>

lemma filter_eq_Nil_iff: "filter P xs = [] \<longleftrightarrow> (\<forall>x\<in>set xs. \<not> P x)"
  by (simp add: filter_empty_conv)

lemma distinct_append_disjoint:
  "distinct (xs @ ys) \<Longrightarrow> x \<in> set xs \<Longrightarrow> x \<notin> set ys"
  by auto

section \<open>Words\<close>

lemma unat_max: "unat (max a b) = max (unat a) (unat (b :: 'a::len word))"
  by (auto simp: max_def word_le_nat_alt)

section \<open>Decimal text\<close>

text \<open>\<open>std::to_string\<close> of an unsigned word.\<close>

definition digit :: "nat \<Rightarrow> char" where
  "digit d = char_of (48 + d)"

fun dec :: "nat \<Rightarrow> string" where
  "dec n = (if n < 10 then [digit n] else dec (n div 10) @ [digit (n mod 10)])"

declare dec.simps [simp del]

definition word_str :: "'a::len word \<Rightarrow> string" where
  "word_str w = dec (unat w)"

text \<open>Reading the digits back shows that two words with the same text are equal.\<close>

definition undec :: "string \<Rightarrow> nat" where
  "undec = foldl (\<lambda>a c. 10 * a + (of_char c - 48)) 0"

lemma of_char_digit: "d < 10 \<Longrightarrow> of_char (digit d) = 48 + d"
  by (simp add: digit_def)

lemma undec_dec [simp]: "undec (dec n) = n"
proof (induction n rule: dec.induct)
  case (1 n)
  show ?case
  proof (cases "n < 10")
    case True
    then show ?thesis by (simp add: dec.simps[of n] undec_def of_char_digit)
  next
    case False
    then show ?thesis using 1 by (simp add: dec.simps[of n] undec_def of_char_digit)
  qed
qed

lemma dec_eq_iff [simp]: "dec m = dec n \<longleftrightarrow> m = n"
  by (metis undec_dec)

lemma word_str_eq_iff [simp]: "word_str v = word_str w \<longleftrightarrow> v = w"
  by (simp add: word_str_def word_unat_eq_iff)

lemma dec_digits: "c \<in> set (dec n) \<Longrightarrow> \<exists>d<10. c = digit d"
proof (induction n rule: dec.induct)
  case (1 n)
  show ?case
  proof (cases "n < 10")
    case True
    then show ?thesis using "1.prems" by (auto simp: dec.simps[of n])
  next
    case False
    then have "c \<in> set (dec (n div 10)) \<or> c = digit (n mod 10)"
      using "1.prems" by (auto simp: dec.simps[of n])
    moreover have "n mod 10 < 10" by simp
    ultimately show ?thesis using "1.IH"[OF False] by blast
  qed
qed

lemma not_in_dec: "of_char c < (48::nat) \<or> 58 \<le> (of_char c :: nat) \<Longrightarrow> c \<notin> set (dec n)"
  using dec_digits[of c n] by (auto simp: of_char_digit)

lemma dec_not_Nil [simp]: "dec n \<noteq> []"
  by (simp add: dec.simps[of n])

end
