(* ===== verification/Sk_Node.thy ===== *)
theory Sk_Node
  imports Prelude
begin

text \<open>
  The node of the SuperKernel graph (\<^verbatim>\<open>sk_node.h\<close>, the enumerations of \<^verbatim>\<open>sk_common.h\<close>,
  \<^verbatim>\<open>sk_scope_info.h\<close> and \<^verbatim>\<open>sk_lock_detector.h\<close> it mentions): its enumerations, the kernel and
  synchronisation records nested in it, the virtual accessors of its three classes, and the
  reason a node is not fused with its rendering as text (\<^verbatim>\<open>sk_node.cpp\<close>). Handles and pointers
  into the runtime are 64-bit values with 0 for \<open>nullptr\<close>; a node pointer is the id under which
  the graph stores the node.
\<close>

section \<open>Enumerations\<close>

datatype sk_node_type =
    NODE_KERNEL | NODE_NOTIFY | NODE_WAIT | NODE_RESET
  | NODE_MEMORY_WRITE | NODE_MEMORY_WAIT | NODE_DEFAULT

datatype sk_kernel_type =
    AIC_ONLY | AIV_ONLY | MIX_AIV_1_0 | MIX_AIC_1_0 | MIX_AIC_1_1 | MIX_AIC_1_2 | KT_DEFAULT

datatype bindmap_fail_reason =
    BF_NONE | BINDMAP_INIT_EMPTY | BINHDL_NULL | FUNCHDL_NULL | FUNC_NOT_FOUND
  | BIN_DEV_ADDR_GET_FAILED | FUNC_ADDR_GET_FAILED | BINDMAP_ENTRY_CONFLICT
  | BINDMAP_CAP_INCONSISTENT | BIN_HOST_ADDR_GET_FAILED

datatype fusion_fail_reason =
    CAN_FUSE | OP_UNSUPPORT | DYNAMIC_TASK_UNSUPPORT | NOT_IN_SCOPE | IN_UNFUSIBLE_SCOPE
  | EXCEED_CORE_MAX | RESET_TYPE_NODE | ISOLATED_EVENT | EXIST_DEADLOCK | SCOPE_FUSE_PART
  | EXTERNAL_DEPEND | UNSUPPORT_EVENT_TYPE | MEMORY_WAIT_NODE_ONLY | MEMORY_WRITE_NODE_ONLY
  | DEFAULT_NODE | SIMT_OP_UNSUPPORT | KERNEL_ATTR_GET_FAILED | EXCEED_SCOPE_MAX

datatype scope_process_status =
    SPS_INIT | SPS_SUCCESS | RESOURCE_INSUFFICIENT | NO_TARGET_NODE | UNRECOVERABLE_FAIL

datatype deadlock_fail_reason =
    NOT_FIND_DEADLOCK | KERNEL_INSUFFICIENT_CORES | NOTIFY_NOT_IN_GRAPH | NOTIFY_AFTER_SK_RANGE
  | NOTIFY_INVALID | NOTIFY_INSUFFICIENT_CORES | FIRST_WAIT | NO_SUPPORT_NODE

text \<open>The task types of the runtime that the nodes of the graph are made from.\<close>

datatype rt_node_type =
    RI_TASK_DEFAULT | RI_TASK_KERNEL | RI_TASK_EVENT_RECORD | RI_TASK_EVENT_WAIT
  | RI_TASK_EVENT_RESET | RI_TASK_VALUE_WRITE | RI_TASK_VALUE_WAIT

section \<open>Kernel, synchronisation and failure records\<close>

record kernel_cap_bits =
  cb_earlyStartWaitFlag :: bool
  cb_earlyStartSetFlag :: bool
  cb_disableDcci :: bool
  cb_disableScheMode :: bool

definition default_cap_bits :: kernel_cap_bits where
  "default_cap_bits = \<lparr> cb_earlyStartWaitFlag = False, cb_earlyStartSetFlag = False,
     cb_disableDcci = False, cb_disableScheMode = False \<rparr>"

text \<open>The two entries of each array are the AIC and the AIV function.\<close>

record resolved_function_info =
  rf_funcAddr :: "u64 \<times> u64"
  rf_prefetchCnt :: "u64 \<times> u64"
  rf_funcOffset :: "u64 \<times> u64"
  rf_symbolBind :: "string \<times> string"

definition default_resolved_func :: resolved_function_info where
  "default_resolved_func = \<lparr> rf_funcAddr = (0, 0), rf_prefetchCnt = (0, 0),
     rf_funcOffset = (0, 0), rf_symbolBind = ('''', '''') \<rparr>"

record kernel_infos =
  ki_kernelType :: sk_kernel_type
  ki_kernelTypeInt :: u32
  ki_taskRatio :: "u32 \<times> u32"
  ki_resolvedNum :: u32
  ki_cap :: u64
  ki_capBits :: kernel_cap_bits
  ki_numBlocks :: u32
  ki_vecNum :: u32
  ki_cubeNum :: u32
  ki_devArgs :: u64
  ki_opInfoPtr :: u64
  ki_opInfoSize :: u64
  ki_dynUbufSize :: u64
  ki_allocUbufSize :: u64
  ki_hasDynUbufSize :: bool
  ki_hasAllocUbufSize :: bool
  ki_funcName :: string
  ki_binHdl :: u64
  ki_funcHdl :: u64
  ki_launchKernelCfg :: u64
  ki_isScheModeOn :: bool
  ki_needMixKernelSplit :: bool
  ki_isSimtOp :: bool
  ki_resolvedFuncs :: "resolved_function_info list"
  ki_bindmapFailReason :: bindmap_fail_reason

definition default_kernel_infos :: kernel_infos where
  "default_kernel_infos = \<lparr> ki_kernelType = KT_DEFAULT, ki_kernelTypeInt = 0,
     ki_taskRatio = (0, 0), ki_resolvedNum = 0, ki_cap = 0, ki_capBits = default_cap_bits,
     ki_numBlocks = 0, ki_vecNum = 0, ki_cubeNum = 0, ki_devArgs = 0, ki_opInfoPtr = 0,
     ki_opInfoSize = 0, ki_dynUbufSize = 0, ki_allocUbufSize = 0, ki_hasDynUbufSize = False,
     ki_hasAllocUbufSize = False, ki_funcName = ''Unknown'', ki_binHdl = 0, ki_funcHdl = 0,
     ki_launchKernelCfg = 0, ki_isScheModeOn = False, ki_needMixKernelSplit = False,
     ki_isSimtOp = False, ki_resolvedFuncs = replicate 4 default_resolved_func,
     ki_bindmapFailReason = BF_NONE \<rparr>"

record sync_infos =
  sy_eventId :: u64
  sy_addrValue :: u64
  sy_correspondingNotifyNodeId :: u64
  sy_correspondingWaitNodeIds :: "u64 list"
  sy_correspondingResetNodeIds :: "u64 list"
  sy_memoryValue :: u64
  sy_memoryWaitFlag :: u32
  sy_eventFlag :: u32
  sy_eventTaskFlag :: u32

definition default_sync_infos :: sync_infos where
  "default_sync_infos = \<lparr> sy_eventId = INVALID_TASK_ID, sy_addrValue = 0,
     sy_correspondingNotifyNodeId = INVALID_TASK_ID, sy_correspondingWaitNodeIds = [],
     sy_correspondingResetNodeIds = [], sy_memoryValue = UINT64_MAX,
     sy_memoryWaitFlag = UINT32_MAX, sy_eventFlag = UINT32_MAX, sy_eventTaskFlag = UINT32_MAX \<rparr>"

record fusion_fail_info =
  ff_primary :: fusion_fail_reason
  ff_scopeProcessStatus :: scope_process_status
  ff_deadlockFailReason :: deadlock_fail_reason
  ff_bindmapFailReason :: bindmap_fail_reason

definition default_fail_info :: fusion_fail_info where
  "default_fail_info = \<lparr> ff_primary = CAN_FUSE, ff_scopeProcessStatus = SPS_INIT,
     ff_deadlockFailReason = NOT_FIND_DEADLOCK, ff_bindmapFailReason = BF_NONE \<rparr>"

section \<open>The node\<close>

text \<open>
  \<open>SuperKernelBaseNode\<close> and its derived classes in one record; \<open>nd_class\<close> is the dynamic type the
  virtual functions dispatch on, and the last four fields are those of the kernel class.
\<close>

datatype node_class = KernelNode | MemoryNode | DefaultNode

record sk_node =
  nd_class :: node_class
  nd_kernelInfos :: kernel_infos
  nd_syncInfos :: sync_infos
  nd_sendToNodeId :: "u64 set"
  nd_receiveNodeId :: "u64 set"
  nd_fusionFailReason :: fusion_fail_info
  nd_notifyExpandVecNum :: u32
  nd_notifyExpandCubeNum :: u32
  nd_streamIdxInGraph :: u32
  nd_streamId :: int
  nd_nodeIdxInStream :: u64
  nd_nodeId :: u64
  nd_preNodeId :: u64
  nd_nextNodeId :: u64
  nd_nodeType :: sk_node_type
  nd_rtNodeType :: rt_node_type
  nd_isVisited :: bool
  nd_isFusible :: bool
  nd_isScopeNode :: bool
  nd_isUpdate :: bool
  nd_isInvalidated :: bool
  nd_scopeStreamIds :: "u32 set"
  nd_scopeBitFlags :: "nat set"
  nd_isScopeBegin :: bool
  nd_isScopeEnd :: bool
  nd_isPlaceholder :: bool
  nd_scopeName :: string

text \<open>The constructor: \<open>inputStreamIdxInGraph\<close> is a 64-bit argument stored in a 32-bit field.\<close>

definition new_node :: "node_class \<Rightarrow> rt_node_type \<Rightarrow> u64 \<Rightarrow> u64 \<Rightarrow> int \<Rightarrow> u64 \<Rightarrow> sk_node" where
  "new_node cls rtType idxInStream streamIdx strId pre = \<lparr> nd_class = cls,
     nd_kernelInfos = default_kernel_infos, nd_syncInfos = default_sync_infos,
     nd_sendToNodeId = {}, nd_receiveNodeId = {}, nd_fusionFailReason = default_fail_info,
     nd_notifyExpandVecNum = 0, nd_notifyExpandCubeNum = 0,
     nd_streamIdxInGraph = ucast streamIdx, nd_streamId = strId, nd_nodeIdxInStream = idxInStream,
     nd_nodeId = INVALID_TASK_ID, nd_preNodeId = pre, nd_nextNodeId = INVALID_TASK_ID,
     nd_nodeType = NODE_DEFAULT, nd_rtNodeType = rtType, nd_isVisited = False,
     nd_isFusible = False, nd_isScopeNode = False, nd_isUpdate = False,
     nd_isInvalidated = False, nd_scopeStreamIds = {}, nd_scopeBitFlags = {},
     nd_isScopeBegin = False, nd_isScopeEnd = False, nd_isPlaceholder = False,
     nd_scopeName = '''' \<rparr>"

subsection \<open>Virtual accessors\<close>

definition GetNumBlocks :: "sk_node \<Rightarrow> u32" where
  "GetNumBlocks n = (case nd_class n of KernelNode \<Rightarrow> ki_numBlocks (nd_kernelInfos n) | _ \<Rightarrow> 0)"

definition GetKernelType :: "sk_node \<Rightarrow> sk_kernel_type" where
  "GetKernelType n =
     (case nd_class n of KernelNode \<Rightarrow> ki_kernelType (nd_kernelInfos n) | _ \<Rightarrow> KT_DEFAULT)"

definition GetVecNum :: "sk_node \<Rightarrow> u32" where
  "GetVecNum n = (case nd_class n of KernelNode \<Rightarrow> ki_vecNum (nd_kernelInfos n)
     | MemoryNode \<Rightarrow> nd_notifyExpandVecNum n | DefaultNode \<Rightarrow> 0)"

definition GetCubeNum :: "sk_node \<Rightarrow> u32" where
  "GetCubeNum n = (case nd_class n of KernelNode \<Rightarrow> ki_cubeNum (nd_kernelInfos n)
     | MemoryNode \<Rightarrow> nd_notifyExpandCubeNum n | DefaultNode \<Rightarrow> 0)"

definition IsScheModeOn :: "sk_node \<Rightarrow> bool" where
  "IsScheModeOn n =
     (case nd_class n of KernelNode \<Rightarrow> ki_isScheModeOn (nd_kernelInfos n) | _ \<Rightarrow> False)"

definition GetEventId :: "sk_node \<Rightarrow> u64" where
  "GetEventId n =
     (case nd_class n of MemoryNode \<Rightarrow> sy_eventId (nd_syncInfos n) | _ \<Rightarrow> INVALID_TASK_ID)"

definition GetCorrespondingWaitNodeIds :: "sk_node \<Rightarrow> u64 list" where
  "GetCorrespondingWaitNodeIds n =
     (case nd_class n of MemoryNode \<Rightarrow> sy_correspondingWaitNodeIds (nd_syncInfos n) | _ \<Rightarrow> [])"

definition GetCorrespondingNotifyNodeId :: "sk_node \<Rightarrow> u64" where
  "GetCorrespondingNotifyNodeId n =
     (case nd_class n of MemoryNode \<Rightarrow> sy_correspondingNotifyNodeId (nd_syncInfos n)
      | _ \<Rightarrow> INVALID_TASK_ID)"

definition SetCorrespondingWaitNodeIds :: "u64 list \<Rightarrow> sk_node \<Rightarrow> sk_node" where
  "SetCorrespondingWaitNodeIds ids n =
     (case nd_class n of MemoryNode \<Rightarrow>
        n\<lparr> nd_syncInfos := (nd_syncInfos n)\<lparr> sy_correspondingWaitNodeIds := ids \<rparr> \<rparr> | _ \<Rightarrow> n)"

definition SetCorrespondingNotifyNodeId :: "u64 \<Rightarrow> sk_node \<Rightarrow> sk_node" where
  "SetCorrespondingNotifyNodeId i n =
     (case nd_class n of MemoryNode \<Rightarrow>
        n\<lparr> nd_syncInfos := (nd_syncInfos n)\<lparr> sy_correspondingNotifyNodeId := i \<rparr> \<rparr> | _ \<Rightarrow> n)"

definition GetScopeName :: "sk_node \<Rightarrow> string" where
  "GetScopeName n = (case nd_class n of KernelNode \<Rightarrow> nd_scopeName n | _ \<Rightarrow> '''')"

definition IsScopeBegin :: "sk_node \<Rightarrow> bool" where
  "IsScopeBegin n = (case nd_class n of KernelNode \<Rightarrow> nd_isScopeBegin n | _ \<Rightarrow> False)"

definition IsScopeEnd :: "sk_node \<Rightarrow> bool" where
  "IsScopeEnd n = (case nd_class n of KernelNode \<Rightarrow> nd_isScopeEnd n | _ \<Rightarrow> False)"

definition IsScopePlaceholder :: "sk_node \<Rightarrow> bool" where
  "IsScopePlaceholder n = (case nd_class n of KernelNode \<Rightarrow> nd_isPlaceholder n | _ \<Rightarrow> False)"

lemmas node_getter_defs = GetNumBlocks_def GetKernelType_def GetVecNum_def GetCubeNum_def
  IsScheModeOn_def GetEventId_def GetCorrespondingWaitNodeIds_def
  GetCorrespondingNotifyNodeId_def GetScopeName_def IsScopeBegin_def IsScopeEnd_def
  IsScopePlaceholder_def

subsection \<open>The reason a node is not fused\<close>

definition SetFusionFailReason :: "fusion_fail_reason \<Rightarrow> sk_node \<Rightarrow> sk_node" where
  "SetFusionFailReason r n =
     n\<lparr> nd_fusionFailReason := (nd_fusionFailReason n)\<lparr> ff_primary := r \<rparr> \<rparr>"

definition SetFusionFailScope :: "scope_process_status \<Rightarrow> sk_node \<Rightarrow> sk_node" where
  "SetFusionFailScope s n = n\<lparr> nd_fusionFailReason :=
     (nd_fusionFailReason n)\<lparr> ff_primary := SCOPE_FUSE_PART, ff_scopeProcessStatus := s \<rparr> \<rparr>"

definition SetFusionFailDeadlock :: "deadlock_fail_reason \<Rightarrow> sk_node \<Rightarrow> sk_node" where
  "SetFusionFailDeadlock d n = n\<lparr> nd_fusionFailReason :=
     (nd_fusionFailReason n)\<lparr> ff_primary := EXIST_DEADLOCK, ff_deadlockFailReason := d \<rparr> \<rparr>"

definition SetFusionFailBindmap :: "bindmap_fail_reason \<Rightarrow> sk_node \<Rightarrow> sk_node" where
  "SetFusionFailBindmap b n = n\<lparr> nd_fusionFailReason :=
     (nd_fusionFailReason n)\<lparr> ff_primary := OP_UNSUPPORT, ff_bindmapFailReason := b \<rparr> \<rparr>"

definition GetFusionFailReason :: "sk_node \<Rightarrow> fusion_fail_reason" where
  "GetFusionFailReason n = ff_primary (nd_fusionFailReason n)"

lemmas fail_reason_defs = SetFusionFailReason_def SetFusionFailScope_def
  SetFusionFailDeadlock_def SetFusionFailBindmap_def GetFusionFailReason_def

definition fail_of_reason :: "fusion_fail_reason \<Rightarrow> fusion_fail_info" where
  "fail_of_reason r = default_fail_info\<lparr> ff_primary := r \<rparr>"

definition fail_of_scope :: "scope_process_status \<Rightarrow> fusion_fail_info" where
  "fail_of_scope s = default_fail_info\<lparr> ff_primary := SCOPE_FUSE_PART, ff_scopeProcessStatus := s \<rparr>"

definition fail_of_deadlock :: "deadlock_fail_reason \<Rightarrow> fusion_fail_info" where
  "fail_of_deadlock d =
     default_fail_info\<lparr> ff_primary := EXIST_DEADLOCK, ff_deadlockFailReason := d \<rparr>"

definition fail_of_bindmap :: "bindmap_fail_reason \<Rightarrow> fusion_fail_info" where
  "fail_of_bindmap b =
     default_fail_info\<lparr> ff_primary := OP_UNSUPPORT, ff_bindmapFailReason := b \<rparr>"

section \<open>Nodes for the witnesses\<close>

text \<open>A node of a kind and an id between two others of its stream; all else is as constructed.\<close>

definition sample_node ::
  "node_class \<Rightarrow> sk_node_type \<Rightarrow> node_id \<Rightarrow> node_id \<Rightarrow> node_id \<Rightarrow> sk_node" where
  "sample_node cls ty pre i nxt = (new_node cls RI_TASK_DEFAULT 0 0 0 pre)
     \<lparr> nd_nodeId := i, nd_nextNodeId := nxt, nd_nodeType := ty \<rparr>"

end
