(* ===== verification/Sk_Reason.thy ===== *)
theory Sk_Reason
  imports Sk_Node
begin

text \<open>
  The textual rendering of the enumerations and of the reason a node is not fused
  (\<^verbatim>\<open>to_string\<close> of \<^verbatim>\<open>sk_node.h\<close>, \<^verbatim>\<open>sk_common.h\<close>, \<^verbatim>\<open>sk_scope_info.h\<close>, \<^verbatim>\<open>sk_lock_detector.h\<close>;
  \<^verbatim>\<open>FusionFailReasonToStr\<close> and \<^verbatim>\<open>FusionFailReasonDetailToStr\<close> of \<^verbatim>\<open>sk_node.cpp\<close>), which
  ends up in the logs and in the dumped JSON. The lemmas show what a reader of the text can
  recover from it.
\<close>

section \<open>Names of the enumerators\<close>

fun node_type_str :: "sk_node_type \<Rightarrow> string" where
  "node_type_str NODE_KERNEL = ''KERNEL''"
| "node_type_str NODE_NOTIFY = ''NOTIFY''"
| "node_type_str NODE_WAIT = ''WAIT''"
| "node_type_str NODE_RESET = ''RESET''"
| "node_type_str NODE_MEMORY_WRITE = ''MEMORY_WRITE''"
| "node_type_str NODE_MEMORY_WAIT = ''MEMORY_WAIT''"
| "node_type_str NODE_DEFAULT = ''DEFAULT''"

fun kernel_type_str :: "sk_kernel_type \<Rightarrow> string" where
  "kernel_type_str AIC_ONLY = ''AIC_ONLY''"
| "kernel_type_str AIV_ONLY = ''AIV_ONLY''"
| "kernel_type_str MIX_AIV_1_0 = ''MIX_AIV_1_0''"
| "kernel_type_str MIX_AIC_1_0 = ''MIX_AIC_1_0''"
| "kernel_type_str MIX_AIC_1_1 = ''MIX_1_1''"
| "kernel_type_str MIX_AIC_1_2 = ''MIX_1_2''"
| "kernel_type_str KT_DEFAULT = ''DEFAULT''"

fun bindmap_reason_str :: "bindmap_fail_reason \<Rightarrow> string" where
  "bindmap_reason_str BF_NONE = ''NONE''"
| "bindmap_reason_str BINDMAP_INIT_EMPTY = ''BINDMAP_INIT_EMPTY''"
| "bindmap_reason_str BINHDL_NULL = ''BINHDL_NULL''"
| "bindmap_reason_str FUNCHDL_NULL = ''FUNCHDL_NULL''"
| "bindmap_reason_str FUNC_NOT_FOUND = ''FUNC_NOT_FOUND''"
| "bindmap_reason_str BIN_DEV_ADDR_GET_FAILED = ''BIN_DEV_ADDR_GET_FAILED''"
| "bindmap_reason_str FUNC_ADDR_GET_FAILED = ''FUNC_ADDR_GET_FAILED''"
| "bindmap_reason_str BINDMAP_ENTRY_CONFLICT = ''BINDMAP_ENTRY_CONFLICT''"
| "bindmap_reason_str BINDMAP_CAP_INCONSISTENT = ''BINDMAP_CAP_INCONSISTENT''"
| "bindmap_reason_str BIN_HOST_ADDR_GET_FAILED = ''BIN_HOST_ADDR_GET_FAILED''"

fun fusion_reason_str :: "fusion_fail_reason \<Rightarrow> string" where
  "fusion_reason_str CAN_FUSE = ''CAN_FUSE''"
| "fusion_reason_str OP_UNSUPPORT = ''OP_UNSUPPORT''"
| "fusion_reason_str DYNAMIC_TASK_UNSUPPORT = ''DYNAMIC_TASK_UNSUPPORT''"
| "fusion_reason_str NOT_IN_SCOPE = ''NOT_IN_SCOPE''"
| "fusion_reason_str IN_UNFUSIBLE_SCOPE = ''IN_UNFUSIBLE_SCOPE''"
| "fusion_reason_str EXCEED_CORE_MAX = ''EXCEED_CORE_MAX''"
| "fusion_reason_str RESET_TYPE_NODE = ''RESET_TYPE_NODE''"
| "fusion_reason_str ISOLATED_EVENT = ''ISOLATED_EVENT''"
| "fusion_reason_str EXIST_DEADLOCK = ''EXIST_DEADLOCK''"
| "fusion_reason_str SCOPE_FUSE_PART = ''SCOPE_FUSE_PART''"
| "fusion_reason_str EXTERNAL_DEPEND = ''EXTERNAL_DEPEND''"
| "fusion_reason_str UNSUPPORT_EVENT_TYPE = ''UNSUPPORT_EVENT_TYPE''"
| "fusion_reason_str MEMORY_WAIT_NODE_ONLY = ''MEMORY_WAIT_NODE_ONLY''"
| "fusion_reason_str MEMORY_WRITE_NODE_ONLY = ''MEMORY_WRITE_NODE_ONLY''"
| "fusion_reason_str DEFAULT_NODE = ''DEFAULT_NODE''"
| "fusion_reason_str SIMT_OP_UNSUPPORT = ''SIMT_OP_UNSUPPORT''"
| "fusion_reason_str KERNEL_ATTR_GET_FAILED = ''KERNEL_ATTR_GET_FAILED''"
| "fusion_reason_str EXCEED_SCOPE_MAX = ''EXCEED_SCOPE_MAX''"

fun scope_status_str :: "scope_process_status \<Rightarrow> string" where
  "scope_status_str SPS_INIT = ''INIT''"
| "scope_status_str SPS_SUCCESS = ''SUCCESS''"
| "scope_status_str RESOURCE_INSUFFICIENT = ''RESOURCE_INSUFFICIENT''"
| "scope_status_str NO_TARGET_NODE = ''NO_TARGET_NODE''"
| "scope_status_str UNRECOVERABLE_FAIL = ''UNRECOVERABLE_FAIL''"

fun deadlock_reason_str :: "deadlock_fail_reason \<Rightarrow> string" where
  "deadlock_reason_str NOT_FIND_DEADLOCK = ''NOT_FIND_DEADLOCK''"
| "deadlock_reason_str KERNEL_INSUFFICIENT_CORES = ''KERNEL_INSUFFICIENT_CORES''"
| "deadlock_reason_str NOTIFY_INSUFFICIENT_CORES = ''NOTIFY_INSUFFICIENT_CORES''"
| "deadlock_reason_str NOTIFY_NOT_IN_GRAPH = ''NOTIFY_NOT_IN_GRAPH''"
| "deadlock_reason_str NOTIFY_AFTER_SK_RANGE = ''NOTIFY_AFTER_SK_RANGE''"
| "deadlock_reason_str NOTIFY_INVALID = ''NOTIFY_INVALID''"
| "deadlock_reason_str FIRST_WAIT = ''FIRST_WAIT''"
| "deadlock_reason_str NO_SUPPORT_NODE = ''NO_SUPPORT_NODE''"

section \<open>Detail texts\<close>

fun FusionFailReasonDetail :: "fusion_fail_reason \<Rightarrow> string" where
  "FusionFailReasonDetail CAN_FUSE = ''node can fuse''"
| "FusionFailReasonDetail OP_UNSUPPORT =
     ''Failed to resolve SuperKernel bind map for the operator''"
| "FusionFailReasonDetail DYNAMIC_TASK_UNSUPPORT =
     ''The operator will refresh task information at runtime, but SK does not support fusing dynamically changing tasks''"
| "FusionFailReasonDetail NOT_IN_SCOPE =
     ''The user actively marked that this operator is not fused''"
| "FusionFailReasonDetail IN_UNFUSIBLE_SCOPE =
     ''This operator is not within the fusion range marked by the user''"
| "FusionFailReasonDetail EXCEED_CORE_MAX =
     ''The number of kernels required by the operator exceeds the maximum number of kernels that the device can provide''"
| "FusionFailReasonDetail RESET_TYPE_NODE = ''reset type node in end''"
| "FusionFailReasonDetail ISOLATED_EVENT =
     ''There is no kernel node on the stream where the current node is located, and this stream is within the scope''"
| "FusionFailReasonDetail EXIST_DEADLOCK = ''exist deadlock''"
| "FusionFailReasonDetail SCOPE_FUSE_PART = ''scope fuse failed''"
| "FusionFailReasonDetail EXTERNAL_DEPEND = ''event node has external dependency''"
| "FusionFailReasonDetail UNSUPPORT_EVENT_TYPE = ''unsupport event type''"
| "FusionFailReasonDetail MEMORY_WAIT_NODE_ONLY =
     ''No memory write exists, meaning the memory write is outside modelRI. Therefore change all waits to event semantics, but they cannot be fused.''"
| "FusionFailReasonDetail MEMORY_WRITE_NODE_ONLY =
     ''only exists memory write nodes, mask it as unfusible''"
| "FusionFailReasonDetail DEFAULT_NODE =
     ''default node uses aicpu resources, mask it as unfusible''"
| "FusionFailReasonDetail SIMT_OP_UNSUPPORT =
     ''SIMT operator is not supported for SuperKernel fusion''"
| "FusionFailReasonDetail KERNEL_ATTR_GET_FAILED =
     ''Failed to get kernel attribute for SuperKernel fusion''"
| "FusionFailReasonDetail EXCEED_SCOPE_MAX =
     ''Exceeded maximum scope number limit for SuperKernel fusion''"

fun ScopeProcessStatusDetail :: "scope_process_status \<Rightarrow> string" where
  "ScopeProcessStatusDetail SPS_INIT = ''Scope has not been processed''"
| "ScopeProcessStatusDetail SPS_SUCCESS = ''''"
| "ScopeProcessStatusDetail RESOURCE_INSUFFICIENT =
     ''Insufficient stream task slots or event memory resources''"
| "ScopeProcessStatusDetail NO_TARGET_NODE = ''No target node remains after filtering''"
| "ScopeProcessStatusDetail UNRECOVERABLE_FAIL = ''Unrecoverable failure that cannot be skipped''"

fun GetDeadlockDetail :: "deadlock_fail_reason \<Rightarrow> string" where
  "GetDeadlockDetail KERNEL_INSUFFICIENT_CORES =
     ''The wait node depends on a kernel node that requires more cores than available''"
| "GetDeadlockDetail NOTIFY_INSUFFICIENT_CORES =
     ''The wait node depends on a notify node which has fused in other SK that it requires more cores''"
| "GetDeadlockDetail NOTIFY_NOT_IN_GRAPH =
     ''The wait node depends on a notify node that it is not in graph''"
| "GetDeadlockDetail NOTIFY_AFTER_SK_RANGE =
     ''The wait node depends on a notify node that it is after SK range''"
| "GetDeadlockDetail NOTIFY_INVALID =
     ''In check deadlock of this wait node, get invalid notify node''"
| "GetDeadlockDetail FIRST_WAIT = ''The wait node is first node in scope''"
| "GetDeadlockDetail NO_SUPPORT_NODE = ''The wait node waiting for unsupport node type''"
| "GetDeadlockDetail NOT_FIND_DEADLOCK = ''''"

fun GetBindmapDetail :: "bindmap_fail_reason \<Rightarrow> string" where
  "GetBindmapDetail BINDMAP_INIT_EMPTY = ''bindmap init empty''"
| "GetBindmapDetail BINHDL_NULL = ''binHdl is null''"
| "GetBindmapDetail FUNCHDL_NULL = ''funcHdl is null''"
| "GetBindmapDetail FUNC_NOT_FOUND = ''function not found in bind map''"
| "GetBindmapDetail BIN_DEV_ADDR_GET_FAILED = ''failed to get binary device address''"
| "GetBindmapDetail FUNC_ADDR_GET_FAILED = ''failed to get function address''"
| "GetBindmapDetail BINDMAP_ENTRY_CONFLICT = ''bind map entry conflict''"
| "GetBindmapDetail BINDMAP_CAP_INCONSISTENT = ''bind map cap inconsistent''"
| "GetBindmapDetail BIN_HOST_ADDR_GET_FAILED = ''failed to get binary host address''"
| "GetBindmapDetail BF_NONE = ''''"

section \<open>Rendering\<close>

definition FusionFailReasonToStr :: "fusion_fail_info \<Rightarrow> string" where
  "FusionFailReasonToStr info =
    (let key = fusion_reason_str (ff_primary info) in
     if ff_primary info = SCOPE_FUSE_PART then
       (let s = ff_scopeProcessStatus info in
        if s \<noteq> SPS_INIT \<and> s \<noteq> SPS_SUCCESS then key @ '' ['' @ scope_status_str s @ '']'' else key)
     else if ff_primary info = EXIST_DEADLOCK then
       (let d = ff_deadlockFailReason info in
        if d \<noteq> NOT_FIND_DEADLOCK then key @ '' ['' @ deadlock_reason_str d @ '']'' else key)
     else if ff_primary info = OP_UNSUPPORT then
       (let b = ff_bindmapFailReason info in
        if b \<noteq> BF_NONE then key @ '' ['' @ bindmap_reason_str b @ '']'' else key)
     else key)"

definition FusionFailReasonDetailToStr :: "fusion_fail_info \<Rightarrow> string" where
  "FusionFailReasonDetailToStr info =
    (let detail = FusionFailReasonDetail (ff_primary info);
         extend = (\<lambda>t. if t \<noteq> '''' then detail @ '', '' @ t else detail) in
     if ff_primary info = SCOPE_FUSE_PART then
       (let s = ff_scopeProcessStatus info in
        if s \<noteq> SPS_INIT \<and> s \<noteq> SPS_SUCCESS then extend (ScopeProcessStatusDetail s) else detail)
     else if ff_primary info = EXIST_DEADLOCK then
       (let d = ff_deadlockFailReason info in
        if d \<noteq> NOT_FIND_DEADLOCK then extend (GetDeadlockDetail d) else detail)
     else if ff_primary info = OP_UNSUPPORT then
       (let b = ff_bindmapFailReason info in
        if b \<noteq> BF_NONE then extend (GetBindmapDetail b) else detail)
     else detail)"

section \<open>What the text determines\<close>

text \<open>The part of the failure record that the text is meant to show.\<close>

definition shown_reason ::
  "fusion_fail_info \<Rightarrow> fusion_fail_reason \<times> scope_process_status \<times> deadlock_fail_reason \<times> bindmap_fail_reason"
where
  "shown_reason info = (ff_primary info,
     (if ff_primary info = SCOPE_FUSE_PART \<and> ff_scopeProcessStatus info \<noteq> SPS_SUCCESS
      then ff_scopeProcessStatus info else SPS_INIT),
     (if ff_primary info = EXIST_DEADLOCK then ff_deadlockFailReason info else NOT_FIND_DEADLOCK),
     (if ff_primary info = OP_UNSUPPORT then ff_bindmapFailReason info else BF_NONE))"

lemma reason_str_no_space: "CHR '' '' \<notin> set (fusion_reason_str r)"
  by (cases r) simp_all

lemma key_of_reason_str:
  "takeWhile (\<lambda>c. c \<noteq> CHR '' '') (FusionFailReasonToStr info) = fusion_reason_str (ff_primary info)"
proof -
  have "takeWhile (\<lambda>c. c \<noteq> CHR '' '') (fusion_reason_str r) = fusion_reason_str r" for r
    using reason_str_no_space[of r] by (auto simp: takeWhile_eq_all_conv)
  moreover have "takeWhile (\<lambda>c. c \<noteq> CHR '' '') (fusion_reason_str r @ CHR '' '' # t)
      = fusion_reason_str r" for r t
    using reason_str_no_space[of r] by (subst takeWhile_append2) auto
  ultimately show ?thesis
    by (simp add: FusionFailReasonToStr_def Let_def)
qed

definition reason_of_str :: "string \<Rightarrow> fusion_fail_reason option" where
  "reason_of_str s = List.find (\<lambda>r. fusion_reason_str r = s)
     [CAN_FUSE, OP_UNSUPPORT, DYNAMIC_TASK_UNSUPPORT, NOT_IN_SCOPE, IN_UNFUSIBLE_SCOPE,
      EXCEED_CORE_MAX, RESET_TYPE_NODE, ISOLATED_EVENT, EXIST_DEADLOCK, SCOPE_FUSE_PART,
      EXTERNAL_DEPEND, UNSUPPORT_EVENT_TYPE, MEMORY_WAIT_NODE_ONLY, MEMORY_WRITE_NODE_ONLY,
      DEFAULT_NODE, SIMT_OP_UNSUPPORT, KERNEL_ATTR_GET_FAILED, EXCEED_SCOPE_MAX]"

lemma reason_of_fusion_reason_str: "reason_of_str (fusion_reason_str r) = Some r"
  by (cases r) (simp_all add: reason_of_str_def)

lemma fusion_reason_str_inj: "fusion_reason_str r = fusion_reason_str r' \<longleftrightarrow> r = r'"
  by (metis reason_of_fusion_reason_str option.inject)

lemma scope_status_str_inj: "scope_status_str r = scope_status_str r' \<longleftrightarrow> r = r'"
  by (cases r; cases r') simp_all

lemma deadlock_reason_str_inj: "deadlock_reason_str r = deadlock_reason_str r' \<longleftrightarrow> r = r'"
  by (cases r; cases r') simp_all

lemma bindmap_reason_str_inj: "bindmap_reason_str r = bindmap_reason_str r' \<longleftrightarrow> r = r'"
  by (cases r; cases r') simp_all

lemmas enum_str_inj = fusion_reason_str_inj scope_status_str_inj deadlock_reason_str_inj
  bindmap_reason_str_inj

lemma reason_str_same_primary:
  assumes "FusionFailReasonToStr i = FusionFailReasonToStr j"
  shows "ff_primary i = ff_primary j"
  using assms by (metis key_of_reason_str fusion_reason_str_inj)

text \<open>
  \<^bold>\<open>The logged reason is unambiguous.\<close> Two failure records have the same text exactly
  when they agree on the primary reason and on the detail the text shows for it.
\<close>

theorem FusionFailReasonToStr_inj:
  "FusionFailReasonToStr i = FusionFailReasonToStr j \<longleftrightarrow> shown_reason i = shown_reason j"
proof
  assume eq: "FusionFailReasonToStr i = FusionFailReasonToStr j"
  from reason_str_same_primary[OF eq] eq show "shown_reason i = shown_reason j"
    by (auto simp: FusionFailReasonToStr_def shown_reason_def Let_def enum_str_inj
        split: if_split_asm)
next
  assume "shown_reason i = shown_reason j"
  then show "FusionFailReasonToStr i = FusionFailReasonToStr j"
    by (auto simp: FusionFailReasonToStr_def shown_reason_def Let_def split: if_split_asm)
qed

end
