(* ===== verification/Sk_Graph.thy ===== *)
theory Sk_Graph
  imports Sk_Node "HOL-Library.AList"
begin

text \<open>
  \<^verbatim>\<open>SuperKernelGraph\<close> (\<^verbatim>\<open>sk_graph.h\<close>, \<^verbatim>\<open>sk_graph.cpp\<close>): the store of nodes, the association of
  events and memory words with the nodes that use them, and the passes that turn memory
  writes and waits into notify, wait and reset nodes and connect them.

  \<open>graphMap\<close> is a map from ids to nodes together with the list of its keys in the container's
  iteration order. The other unordered containers are association lists and lists, again in
  iteration order; an insertion goes to the end, and no lemma depends on that order.
\<close>

section \<open>State\<close>

record event_infos =
  ei_notifyNodeId :: node_id
  ei_resetNodeIdList :: "node_id list"
  ei_waitNodeIdList :: "node_id list"

definition default_event_infos :: event_infos where
  "default_event_infos =
     \<lparr> ei_notifyNodeId = INVALID_TASK_ID, ei_resetNodeIdList = [], ei_waitNodeIdList = [] \<rparr>"

record memory_infos =
  mi_writeNodeIdList :: "node_id list"
  mi_waitNodeIdList :: "node_id list"

definition default_memory_infos :: memory_infos where
  "default_memory_infos = \<lparr> mi_writeNodeIdList = [], mi_waitNodeIdList = [] \<rparr>"

record original_scope_info =
  os_scopeId :: u16
  os_scopeBitFlags :: "nat set"
  os_nodeIds :: "node_id list"

record sk_graph =
  sg_graphMap :: "node_id \<Rightarrow> sk_node option"
  sg_nodeIds :: "node_id list"
  sg_eventToNodes :: "(event_id \<times> event_infos) list"
  sg_memoryToNodes :: "(event_id \<times> memory_infos) list"
  sg_headNodes :: "node_id list"
  sg_nodeSizeInStream :: "u64 list"
  sg_streams :: "u64 list"
  sg_scopeNameToIdx :: "(string \<times> u32) list"
  sg_scopeIdxToName :: "(u32 \<times> string) list"
  sg_originalScopeInfos :: "original_scope_info list"
  sg_needUpdateNodes :: "node_id set"
  sg_needUpdate :: bool
  sg_valueBreakerBypass :: "u32 option"

text \<open>
  \<open>sg_needUpdateNodes\<close> is an unordered set in the code, and a set here. \<open>sg_valueBreakerBypass\<close> is the value of the aggressive-optimisation option, \<open>None\<close> when the
  graph was made without options or the option is not set.
\<close>

definition empty_graph :: sk_graph where
  "empty_graph = \<lparr> sg_graphMap = Map.empty, sg_nodeIds = [], sg_eventToNodes = [],
     sg_memoryToNodes = [], sg_headNodes = [], sg_nodeSizeInStream = [], sg_streams = [],
     sg_scopeNameToIdx = [], sg_scopeIdxToName = [], sg_originalScopeInfos = [],
     sg_needUpdateNodes = {}, sg_needUpdate = False, sg_valueBreakerBypass = None \<rparr>"

definition GetNodeById :: "sk_graph \<Rightarrow> node_id \<Rightarrow> sk_node option" where
  "GetNodeById g i = sg_graphMap g i"

text \<open>A mutation through a node pointer that is not null.\<close>

definition upd_node :: "node_id \<Rightarrow> (sk_node \<Rightarrow> sk_node) \<Rightarrow> sk_graph \<Rightarrow> sk_graph" where
  "upd_node i f g = (case sg_graphMap g i of None \<Rightarrow> g
     | Some n \<Rightarrow> g\<lparr> sg_graphMap := (sg_graphMap g)(i \<mapsto> f n) \<rparr>)"

definition graph_ok :: "sk_graph \<Rightarrow> bool" where
  "graph_ok g \<longleftrightarrow> distinct (sg_nodeIds g) \<and> set (sg_nodeIds g) = dom (sg_graphMap g) \<and>
     (\<forall>i n. sg_graphMap g i = Some n \<longrightarrow> nd_nodeId n = i)"

definition GetSortedNodeIds :: "sk_graph \<Rightarrow> node_id list" where
  "GetSortedNodeIds g = sort (sg_nodeIds g)"

lemma graphMap_upd_node:
  "sg_graphMap (upd_node i f g) =
     (\<lambda>j. if j = i then map_option f (sg_graphMap g i) else sg_graphMap g j)"
  by (auto simp: upd_node_def fun_eq_iff split: option.split)

lemma upd_node_simps [simp]:
  "sg_nodeIds (upd_node i f g) = sg_nodeIds g"
  "sg_eventToNodes (upd_node i f g) = sg_eventToNodes g"
  "sg_memoryToNodes (upd_node i f g) = sg_memoryToNodes g"
  "sg_headNodes (upd_node i f g) = sg_headNodes g"
  "sg_nodeSizeInStream (upd_node i f g) = sg_nodeSizeInStream g"
  "sg_streams (upd_node i f g) = sg_streams g"
  "sg_scopeNameToIdx (upd_node i f g) = sg_scopeNameToIdx g"
  "sg_scopeIdxToName (upd_node i f g) = sg_scopeIdxToName g"
  "sg_needUpdateNodes (upd_node i f g) = sg_needUpdateNodes g"
  "sg_valueBreakerBypass (upd_node i f g) = sg_valueBreakerBypass g"
  by (simp_all add: upd_node_def split: option.split)

lemma GetNodeById_upd_node [simp]:
  "GetNodeById (upd_node i f g) j =
     (if j = i then map_option f (GetNodeById g i) else GetNodeById g j)"
  by (simp add: GetNodeById_def graphMap_upd_node)

lemma dom_upd_node [simp]: "dom (sg_graphMap (upd_node i f g)) = dom (sg_graphMap g)"
  by (auto simp: graphMap_upd_node dom_def)

lemma graph_ok_upd_node [intro]:
  "graph_ok g \<Longrightarrow> (\<And>n. nd_nodeId (f n) = nd_nodeId n) \<Longrightarrow> graph_ok (upd_node i f g)"
  by (auto simp: graph_ok_def dom_def graphMap_upd_node)

section \<open>Values and flags of events\<close>

definition SK_DEFAULT_NOTIFY_VALUE :: u64 where "SK_DEFAULT_NOTIFY_VALUE = 1"
definition SK_DEFAULT_WAIT_VALUE :: u64 where "SK_DEFAULT_WAIT_VALUE = 1"
definition SK_DEFAULT_RESET_VALUE :: u64 where "SK_DEFAULT_RESET_VALUE = 0"
definition SK_DEFAULT_WRITE_FLAG :: u32 where "SK_DEFAULT_WRITE_FLAG = 0"

lemmas sk_default_defs [sk_const] = SK_DEFAULT_NOTIFY_VALUE_def SK_DEFAULT_WAIT_VALUE_def
  SK_DEFAULT_RESET_VALUE_def SK_DEFAULT_WRITE_FLAG_def

datatype memory_wait_flag = WF_GEQ | WF_EQ | WF_AND | WF_NOR

definition wait_flag_of :: "u32 \<Rightarrow> memory_wait_flag option" where
  "wait_flag_of v = (if v = 0 then Some WF_GEQ else if v = 1 then Some WF_EQ
     else if v = 2 then Some WF_AND else if v = 3 then Some WF_NOR else None)"

definition ResolveEventValue :: "sk_node \<Rightarrow> u64" where
  "ResolveEventValue n =
    (if sy_memoryValue (nd_syncInfos n) \<noteq> UINT64_MAX then sy_memoryValue (nd_syncInfos n)
     else case nd_nodeType n of
       NODE_NOTIFY \<Rightarrow> SK_DEFAULT_NOTIFY_VALUE
     | NODE_WAIT \<Rightarrow> SK_DEFAULT_WAIT_VALUE
     | NODE_RESET \<Rightarrow> SK_DEFAULT_RESET_VALUE
     | _ \<Rightarrow> 0)"

definition ResolveEventWaitFlag :: "sk_node \<Rightarrow> u32" where
  "ResolveEventWaitFlag n =
    (if nd_nodeType n \<noteq> NODE_WAIT then SK_DEFAULT_WRITE_FLAG
     else if sy_memoryWaitFlag (nd_syncInfos n) \<noteq> UINT32_MAX
       then sy_memoryWaitFlag (nd_syncInfos n)
     else 1)"

unbundle bit_operations_syntax

definition IsNotifyByMemoryWaitRule :: "u64 \<Rightarrow> u64 \<Rightarrow> u32 \<Rightarrow> bool" where
  "IsNotifyByMemoryWaitRule writeMemoryValue memoryWaitValue waitFlag =
    (case wait_flag_of waitFlag of
       Some WF_GEQ \<Rightarrow> writeMemoryValue \<ge> memoryWaitValue
     | Some WF_EQ \<Rightarrow> writeMemoryValue = memoryWaitValue
     | Some WF_AND \<Rightarrow> writeMemoryValue AND memoryWaitValue \<noteq> 0
     | Some WF_NOR \<Rightarrow> NOT (writeMemoryValue OR memoryWaitValue) \<noteq> 0
     | None \<Rightarrow> False)"

section \<open>Registering nodes with their events\<close>

definition event_info :: "sk_graph \<Rightarrow> event_id \<Rightarrow> event_infos" where
  "event_info g e = (case map_of (sg_eventToNodes g) e of None \<Rightarrow> default_event_infos | Some x \<Rightarrow> x)"

definition memory_info :: "sk_graph \<Rightarrow> event_id \<Rightarrow> memory_infos" where
  "memory_info g e =
     (case map_of (sg_memoryToNodes g) e of None \<Rightarrow> default_memory_infos | Some x \<Rightarrow> x)"

definition set_event_info :: "event_id \<Rightarrow> event_infos \<Rightarrow> sk_graph \<Rightarrow> sk_graph" where
  "set_event_info e x g = g\<lparr> sg_eventToNodes := AList.update e x (sg_eventToNodes g) \<rparr>"

definition set_memory_info :: "event_id \<Rightarrow> memory_infos \<Rightarrow> sk_graph \<Rightarrow> sk_graph" where
  "set_memory_info e x g = g\<lparr> sg_memoryToNodes := AList.update e x (sg_memoryToNodes g) \<rparr>"

lemma event_info_set [simp]:
  "event_info (set_event_info e x g) e' = (if e' = e then x else event_info g e')"
  by (simp add: event_info_def set_event_info_def update_conv')

lemma event_info_upd_node [simp]: "event_info (upd_node i f g) e = event_info g e"
  by (simp add: event_info_def)

lemma set_event_info_simps [simp]:
  "sg_graphMap (set_event_info e x g) = sg_graphMap g"
  "sg_nodeIds (set_event_info e x g) = sg_nodeIds g"
  "sg_memoryToNodes (set_event_info e x g) = sg_memoryToNodes g"
  "sg_valueBreakerBypass (set_event_info e x g) = sg_valueBreakerBypass g"
  "GetNodeById (set_event_info e x g) i = GetNodeById g i"
  by (simp_all add: set_event_info_def GetNodeById_def)

definition AddEventAssociateNotify :: "event_id \<Rightarrow> node_id \<Rightarrow> sk_graph \<Rightarrow> bool \<times> sk_graph" where
  "AddEventAssociateNotify e nodeId g =
    (let info = event_info g e in
     if ei_notifyNodeId info \<noteq> INVALID_TASK_ID then (False, set_event_info e info g)
     else (True, set_event_info e (info\<lparr> ei_notifyNodeId := nodeId \<rparr>) g))"

definition AddEventAssociateWait :: "event_id \<Rightarrow> node_id \<Rightarrow> sk_graph \<Rightarrow> bool \<times> sk_graph" where
  "AddEventAssociateWait e nodeId g =
    (let info = event_info g e in
     if nodeId \<in> set (ei_waitNodeIdList info) then (False, set_event_info e info g)
     else (True, set_event_info e
       (info\<lparr> ei_waitNodeIdList := ei_waitNodeIdList info @ [nodeId] \<rparr>) g))"

definition AddEventAssociateReset :: "event_id \<Rightarrow> node_id \<Rightarrow> sk_graph \<Rightarrow> bool \<times> sk_graph" where
  "AddEventAssociateReset e nodeId g =
    (let info = event_info g e in
     if nodeId \<in> set (ei_resetNodeIdList info) then (False, set_event_info e info g)
     else (True, set_event_info e
       (info\<lparr> ei_resetNodeIdList := ei_resetNodeIdList info @ [nodeId] \<rparr>) g))"

text \<open>
  The code compares the iterator found in the list of writes with the end of the list of waits
  (\<^verbatim>\<open>sk_graph.cpp\<close>, line 217), which the language leaves undefined. In the usual libraries the end of every
  unordered set is the same null pointer, so that the test is membership, as it is here.
\<close>

definition AddMemoryAssociateWrite :: "event_id \<Rightarrow> node_id \<Rightarrow> sk_graph \<Rightarrow> bool \<times> sk_graph" where
  "AddMemoryAssociateWrite e nodeId g =
    (let info = memory_info g e in
     if nodeId \<in> set (mi_writeNodeIdList info) then (False, set_memory_info e info g)
     else (True, set_memory_info e
       (info\<lparr> mi_writeNodeIdList := mi_writeNodeIdList info @ [nodeId] \<rparr>) g))"

definition AddMemoryAssociateWait :: "event_id \<Rightarrow> node_id \<Rightarrow> sk_graph \<Rightarrow> bool \<times> sk_graph" where
  "AddMemoryAssociateWait e nodeId g =
    (let info = memory_info g e in
     if nodeId \<in> set (mi_waitNodeIdList info) then (False, set_memory_info e info g)
     else (True, set_memory_info e
       (info\<lparr> mi_waitNodeIdList := mi_waitNodeIdList info @ [nodeId] \<rparr>) g))"

lemmas associate_defs = AddEventAssociateNotify_def AddEventAssociateWait_def
  AddEventAssociateReset_def AddMemoryAssociateWrite_def AddMemoryAssociateWait_def

text \<open>
  \<open>AddNode\<close> registers the node with its event first and refuses a duplicate id afterwards, so a
  refused node leaves its registration behind.
\<close>

definition AddNode :: "sk_node \<Rightarrow> sk_graph \<Rightarrow> bool \<times> sk_graph" where
  "AddNode n g =
    (let nodeId = nd_nodeId n; e = GetEventId n;
         (ok, g1) = (case nd_nodeType n of
            NODE_NOTIFY \<Rightarrow> AddEventAssociateNotify e nodeId g
          | NODE_WAIT \<Rightarrow> AddEventAssociateWait e nodeId g
          | NODE_RESET \<Rightarrow> AddEventAssociateReset e nodeId g
          | NODE_MEMORY_WRITE \<Rightarrow> AddMemoryAssociateWrite e nodeId g
          | NODE_MEMORY_WAIT \<Rightarrow> AddMemoryAssociateWait e nodeId g
          | _ \<Rightarrow> (True, g))
     in if \<not> ok then (False, g1)
        else if sg_graphMap g1 nodeId \<noteq> None then (False, g1)
        else (True, g1\<lparr> sg_graphMap := (sg_graphMap g1)(nodeId \<mapsto> n),
                         sg_nodeIds := sg_nodeIds g1 @ [nodeId] \<rparr>))"

section \<open>Graphs for the witnesses\<close>

definition sample_graph :: "sk_node list \<Rightarrow> sk_graph" where
  "sample_graph ns = empty_graph\<lparr> sg_graphMap := map_of (map (\<lambda>n. (nd_nodeId n, n)) ns),
     sg_nodeIds := map nd_nodeId ns \<rparr>"

lemma GetNodeById_sample_graph [simp]:
  "GetNodeById (sample_graph ns) i = map_of (map (\<lambda>n. (nd_nodeId n, n)) ns) i"
  by (simp add: GetNodeById_def sample_graph_def)

end
