(* ===== verification/Sk_Graph_Events.thy ===== *)
theory Sk_Graph_Events
  imports Sk_Graph
begin

text \<open>
  The passes of \<^verbatim>\<open>sk_graph.cpp\<close> over the registered events: the classification of memory nodes
  (\<^verbatim>\<open>ProcessMemoryWriteNodes\<close>, \<^verbatim>\<open>PostProcessMemoryNode\<close>), the links between notify, wait and
  reset nodes (\<^verbatim>\<open>BuildEventNodeAssociations\<close>) and the edges between the kernels around them
  (\<^verbatim>\<open>AddEventAssociate\<close>).
\<close>

section \<open>Memory nodes become event nodes\<close>

definition BYPASS_NONE :: u32 where "BYPASS_NONE = 0"
definition BYPASS_PAIRED_WAIT :: u32 where "BYPASS_PAIRED_WAIT = 1"
definition BYPASS_UNPAIRED_WAIT :: u32 where "BYPASS_UNPAIRED_WAIT = 2"

lemmas bypass_defs [sk_const] = BYPASS_NONE_def BYPASS_PAIRED_WAIT_def BYPASS_UNPAIRED_WAIT_def

definition GetValueBreakerBypass :: "sk_graph \<Rightarrow> u32" where
  "GetValueBreakerBypass g =
     (case sg_valueBreakerBypass g of None \<Rightarrow> BYPASS_NONE | Some v \<Rightarrow> v)"

text \<open>The loop body shared by the two places that turn a memory wait into a wait.\<close>

definition convert_wait :: "event_id \<Rightarrow> bool \<Rightarrow> node_id \<Rightarrow> sk_graph \<Rightarrow> bool \<times> sk_graph" where
  "convert_wait e fus w g =
    (case GetNodeById g w of None \<Rightarrow> (True, g)
     | Some n \<Rightarrow> if nd_nodeType n = NODE_MEMORY_WAIT
         then AddEventAssociateWait e w
           (upd_node w (\<lambda>n. n\<lparr> nd_nodeType := NODE_WAIT, nd_isFusible := fus \<rparr>) g)
         else (True, g))"

definition convert_reset :: "event_id \<Rightarrow> node_id \<Rightarrow> sk_graph \<Rightarrow> bool \<times> sk_graph" where
  "convert_reset e r g =
     AddEventAssociateReset e r (upd_node r (\<lambda>n. n\<lparr> nd_nodeType := NODE_RESET \<rparr>) g)"

definition is_memory_write :: "sk_graph \<Rightarrow> node_id \<Rightarrow> bool" where
  "is_memory_write g w =
     (case GetNodeById g w of None \<Rightarrow> False | Some n \<Rightarrow> nd_nodeType n = NODE_MEMORY_WRITE)"

definition is_memory_notify :: "sk_graph \<Rightarrow> u64 \<Rightarrow> u32 \<Rightarrow> node_id \<Rightarrow> bool" where
  "is_memory_notify g waitValue waitFlag w = (case GetNodeById g w of None \<Rightarrow> False
     | Some n \<Rightarrow> IsNotifyByMemoryWaitRule (sy_memoryValue (nd_syncInfos n)) waitValue waitFlag)"

definition ProcessMemoryWriteNodes ::
  "event_id \<Rightarrow> memory_infos \<Rightarrow> u64 \<Rightarrow> u32 \<Rightarrow> sk_graph \<Rightarrow> bool \<times> sk_graph" where
  "ProcessMemoryWriteNodes e info waitValue waitFlag g =
    (let bypass = GetValueBreakerBypass g;
         writes = filter (is_memory_write g) (mi_writeNodeIdList info);
         notifyIdVec = filter (is_memory_notify g waitValue waitFlag) writes;
         resetIdVec = filter (\<lambda>w. \<not> is_memory_notify g waitValue waitFlag w) writes;
         paired = (bypass AND BYPASS_PAIRED_WAIT \<noteq> 0);
         unpaired = (bypass AND BYPASS_UNPAIRED_WAIT \<noteq> 0);
         (ok, waitFusible, g1) = (case notifyIdVec of
             [] \<Rightarrow> (True, unpaired, g)
           | [w] \<Rightarrow> (let (ok, g') = AddEventAssociateNotify e w
                 (upd_node w (\<lambda>n. n\<lparr> nd_nodeType := NODE_NOTIFY, nd_isFusible := paired \<rparr>) g)
               in (ok, paired, g'))
           | _ \<Rightarrow> (False, False, g))
     in if \<not> ok then (False, g1)
        else let (ok2, g2) = all_ok (convert_wait e waitFusible) (mi_waitNodeIdList info) g1
             in if \<not> ok2 then (False, g2) else all_ok (convert_reset e) resetIdVec g2)"

text \<open>The loop body of the write-only branch.\<close>

definition convert_write :: "event_id \<Rightarrow> node_id \<Rightarrow> sk_graph \<Rightarrow> bool \<times> sk_graph" where
  "convert_write e w g =
    (case GetNodeById g w of None \<Rightarrow> (True, g)
     | Some n \<Rightarrow> if nd_nodeType n = NODE_MEMORY_WRITE then
         (let isReset = (ResolveEventValue n = SK_DEFAULT_RESET_VALUE);
              target = (if isReset then NODE_RESET else NODE_NOTIFY);
              g1 = upd_node w (\<lambda>n. n\<lparr> nd_nodeType := target, nd_isFusible := True \<rparr>) g
          in if isReset then AddEventAssociateReset e w g1 else AddEventAssociateNotify e w g1)
       else (True, g))"

text \<open>
  The wait parameters of an event: \<open>None\<close> when a listed wait is not a memory wait, when two of
  them disagree, or when there is none.
\<close>

fun wait_params :: "sk_graph \<Rightarrow> (u64 \<times> u32) option \<Rightarrow> node_id list \<Rightarrow> (u64 \<times> u32) option" where
  "wait_params g acc [] = acc"
| "wait_params g acc (w # ws) =
    (case GetNodeById g w of None \<Rightarrow> None
     | Some n \<Rightarrow> if nd_nodeType n \<noteq> NODE_MEMORY_WAIT then None
         else let p = (sy_memoryValue (nd_syncInfos n), sy_memoryWaitFlag (nd_syncInfos n)) in
           (case acc of None \<Rightarrow> wait_params g (Some p) ws
            | Some q \<Rightarrow> if p \<noteq> q then None else wait_params g acc ws))"

definition process_memory_event :: "event_id \<times> memory_infos \<Rightarrow> sk_graph \<Rightarrow> bool \<times> sk_graph" where
  "process_memory_event p g = (case p of (e, info) \<Rightarrow>
     if mi_writeNodeIdList info = [] \<and> mi_waitNodeIdList info \<noteq> [] then
       all_ok (convert_wait e (GetValueBreakerBypass g AND BYPASS_UNPAIRED_WAIT \<noteq> 0))
         (mi_waitNodeIdList info) g
     else if mi_writeNodeIdList info \<noteq> [] \<and> mi_waitNodeIdList info = [] then
       all_ok (convert_write e) (mi_writeNodeIdList info) g
     else (case wait_params g None (mi_waitNodeIdList info) of
         None \<Rightarrow> (False, g)
       | Some (v, f) \<Rightarrow> ProcessMemoryWriteNodes e info v f g))"

definition PostProcessMemoryNode :: "sk_graph \<Rightarrow> bool \<times> sk_graph" where
  "PostProcessMemoryNode g = all_ok process_memory_event (sg_memoryToNodes g) g"

section \<open>Links between the nodes of an event\<close>

definition link_wait :: "node_id \<Rightarrow> node_id \<Rightarrow> sk_graph \<Rightarrow> sk_graph" where
  "link_wait notifyId w g = (case GetNodeById g w of None \<Rightarrow> g
     | Some n \<Rightarrow> if nd_nodeType n = NODE_WAIT
         then upd_node w (SetCorrespondingNotifyNodeId notifyId) g else g)"

definition link_reset :: "node_id list \<Rightarrow> node_id \<Rightarrow> sk_graph \<Rightarrow> sk_graph" where
  "link_reset rs r g = (case GetNodeById g r of None \<Rightarrow> g
     | Some n \<Rightarrow> if nd_nodeType n = NODE_RESET
         then upd_node r (\<lambda>n. n\<lparr> nd_syncInfos :=
           (nd_syncInfos n)\<lparr> sy_correspondingResetNodeIds := rs \<rparr> \<rparr>) g else g)"

definition is_notify :: "sk_graph \<Rightarrow> node_id \<Rightarrow> bool" where
  "is_notify g i =
     (case GetNodeById g i of None \<Rightarrow> False | Some n \<Rightarrow> nd_nodeType n = NODE_NOTIFY)"

definition link_event :: "event_id \<times> event_infos \<Rightarrow> sk_graph \<Rightarrow> sk_graph" where
  "link_event p g = (case p of (e, info) \<Rightarrow>
     let N = ei_notifyNodeId info; ws = ei_waitNodeIdList info; rs = ei_resetNodeIdList info;
         g1 = (if N \<noteq> INVALID_TASK_ID \<and> ws \<noteq> [] \<and> is_notify g N then
                 fold (link_wait N) ws (upd_node N (SetCorrespondingWaitNodeIds ws) g)
               else if N \<noteq> INVALID_TASK_ID \<and> ws = [] \<and> is_notify g N then
                 upd_node N (SetCorrespondingWaitNodeIds []) g
               else g)
     in fold (link_reset rs) rs g1)"

definition BuildEventNodeAssociations :: "sk_graph \<Rightarrow> sk_graph" where
  "BuildEventNodeAssociations g = fold link_event (sg_eventToNodes g) g"

section \<open>Edges between kernels\<close>

text \<open>
  The two searches along a stream. An id that \<open>graphMap[id]\<close> does not have yet is default
  inserted as a null pointer and dereferenced. The fuel bounds the length of the walk.
\<close>

fun chase_kernel ::
  "(sk_node \<Rightarrow> node_id) \<Rightarrow> nat \<Rightarrow> sk_graph \<Rightarrow> node_id \<Rightarrow> node_id run" where
  "chase_kernel step 0 g i = Inl OutOfFuel"
| "chase_kernel step (Suc fuel) g i =
    (if i = INVALID_TASK_ID then Inr INVALID_TASK_ID
     else bindR (derefR (sg_graphMap g i)) (\<lambda>n.
       if nd_nodeType n = NODE_KERNEL then Inr i else chase_kernel step fuel g (step n)))"

definition find_send_kernel :: "nat \<Rightarrow> sk_graph \<Rightarrow> node_id \<Rightarrow> node_id run" where
  "find_send_kernel fuel g notifyId =
     bindR (derefR (sg_graphMap g notifyId)) (\<lambda>n. chase_kernel nd_preNodeId fuel g (nd_preNodeId n))"

definition find_recv_kernel :: "nat \<Rightarrow> sk_graph \<Rightarrow> node_id \<Rightarrow> node_id run" where
  "find_recv_kernel fuel g waitId = chase_kernel nd_nextNodeId fuel g waitId"

definition add_send_recv :: "node_id \<Rightarrow> node_id \<Rightarrow> sk_graph \<Rightarrow> sk_graph" where
  "add_send_recv s r g =
     upd_node s (\<lambda>n. n\<lparr> nd_sendToNodeId := insert r (nd_sendToNodeId n) \<rparr>)
       (upd_node r (\<lambda>n. n\<lparr> nd_receiveNodeId := insert s (nd_receiveNodeId n) \<rparr>) g)"

definition associate_event :: "nat \<Rightarrow> event_id \<times> event_infos \<Rightarrow> sk_graph \<Rightarrow> sk_graph run" where
  "associate_event fuel p g = (case p of (e, info) \<Rightarrow>
     if ei_notifyNodeId info = INVALID_TASK_ID then Inr g
     else bindR (find_send_kernel fuel g (ei_notifyNodeId info)) (\<lambda>s.
       if s = INVALID_TASK_ID then Inr g
       else foldR (\<lambda>w g. bindR (find_recv_kernel fuel g w) (\<lambda>r.
              Inr (if r = INVALID_TASK_ID then g else add_send_recv s r g)))
            (ei_waitNodeIdList info) g))"

definition AddEventAssociate :: "nat \<Rightarrow> sk_graph \<Rightarrow> sk_graph run" where
  "AddEventAssociate fuel g = foldR (associate_event fuel) (sg_eventToNodes g) g"

section \<open>Every memory node is converted\<close>

text \<open>
  No step of the pass makes a node a memory node, so a node once converted stays converted.
\<close>

definition not_type :: "sk_node_type \<Rightarrow> node_id \<Rightarrow> sk_graph \<Rightarrow> bool" where
  "not_type t i g \<longleftrightarrow> (\<forall>n. GetNodeById g i = Some n \<longrightarrow> nd_nodeType n \<noteq> t)"

lemma associate_GetNodeById [simp]:
  "GetNodeById (snd (AddEventAssociateNotify e i g)) j = GetNodeById g j"
  "GetNodeById (snd (AddEventAssociateWait e i g)) j = GetNodeById g j"
  "GetNodeById (snd (AddEventAssociateReset e i g)) j = GetNodeById g j"
  by (simp_all add: associate_defs Let_def)

lemma associate_result:
  "AddEventAssociateNotify e i g = (b, h) \<Longrightarrow> GetNodeById h = GetNodeById g"
  "AddEventAssociateWait e i g = (b, h) \<Longrightarrow> GetNodeById h = GetNodeById g"
  "AddEventAssociateReset e i g = (b, h) \<Longrightarrow> GetNodeById h = GetNodeById g"
  by (rule ext, metis associate_GetNodeById snd_conv)+

abbreviation memory_type :: "sk_node_type \<Rightarrow> bool" where
  "memory_type t \<equiv> t = NODE_MEMORY_WRITE \<or> t = NODE_MEMORY_WAIT"

lemma convert_wait_keeps:
  "memory_type t \<Longrightarrow> not_type t i g \<Longrightarrow> convert_wait e fus w g = (b, h) \<Longrightarrow> not_type t i h"
  by (auto simp: convert_wait_def not_type_def dest!: associate_result
      split: option.splits if_splits)

lemma convert_reset_keeps:
  "memory_type t \<Longrightarrow> not_type t i g \<Longrightarrow> convert_reset e w g = (b, h) \<Longrightarrow> not_type t i h"
  by (auto simp: convert_reset_def not_type_def dest!: associate_result split: if_splits)

lemma convert_write_keeps:
  "memory_type t \<Longrightarrow> not_type t i g \<Longrightarrow> convert_write e w g = (b, h) \<Longrightarrow> not_type t i h"
  by (auto simp: convert_write_def not_type_def Let_def dest!: associate_result
      split: option.splits if_splits)

lemma convert_wait_done: "convert_wait e fus w g = (b, h) \<Longrightarrow> not_type NODE_MEMORY_WAIT w h"
  by (auto simp: convert_wait_def not_type_def dest!: associate_result
      split: option.splits if_splits)

lemma convert_write_done: "convert_write e w g = (b, h) \<Longrightarrow> not_type NODE_MEMORY_WRITE w h"
  by (auto simp: convert_write_def not_type_def Let_def dest!: associate_result
      split: option.splits if_splits)

lemma convert_reset_done: "convert_reset e w g = (b, h) \<Longrightarrow> not_type NODE_MEMORY_WRITE w h"
  by (auto simp: convert_reset_def not_type_def dest!: associate_result)

lemma all_ok_convert_keeps:
  assumes "memory_type t" and "not_type t i g"
  shows all_ok_convert_wait_keeps: "all_ok (convert_wait e fus) ws g = (b, h) \<Longrightarrow> not_type t i h"
    and all_ok_convert_reset_keeps: "all_ok (convert_reset e) ws g = (b, h) \<Longrightarrow> not_type t i h"
    and all_ok_convert_write_keeps: "all_ok (convert_write e) ws g = (b, h) \<Longrightarrow> not_type t i h"
proof -
  show "not_type t i h" if "all_ok (convert_wait e fus) ws g = (b, h)"
    by (rule all_ok_invariant[where P = "not_type t i", OF that assms(2)], rule convert_wait_keeps[OF assms(1)])
  show "not_type t i h" if "all_ok (convert_reset e) ws g = (b, h)"
    by (rule all_ok_invariant[where P = "not_type t i", OF that assms(2)], rule convert_reset_keeps[OF assms(1)])
  show "not_type t i h" if "all_ok (convert_write e) ws g = (b, h)"
    by (rule all_ok_invariant[where P = "not_type t i", OF that assms(2)], rule convert_write_keeps[OF assms(1)])
qed

lemma all_ok_convert_wait_done:
  assumes "all_ok (convert_wait e fus) ws g = (True, h)" and "w \<in> set ws"
  shows "not_type NODE_MEMORY_WAIT w h"
proof -
  have "\<forall>w\<in>set ws. not_type NODE_MEMORY_WAIT w h"
    by (rule all_ok_each[OF assms(1)])
      (erule convert_wait_done, erule convert_wait_keeps[rotated 1], simp_all)
  then show ?thesis using assms(2) by simp
qed

lemma all_ok_convert_write_done:
  assumes "all_ok (convert_write e) ws g = (True, h)" and "w \<in> set ws"
  shows "not_type NODE_MEMORY_WRITE w h"
proof -
  have "\<forall>w\<in>set ws. not_type NODE_MEMORY_WRITE w h"
    by (rule all_ok_each[OF assms(1)])
      (erule convert_write_done, erule convert_write_keeps[rotated 1], simp_all)
  then show ?thesis using assms(2) by simp
qed

lemma all_ok_convert_reset_done:
  assumes "all_ok (convert_reset e) ws g = (True, h)" and "w \<in> set ws"
  shows "not_type NODE_MEMORY_WRITE w h"
proof -
  have "\<forall>w\<in>set ws. not_type NODE_MEMORY_WRITE w h"
    by (rule all_ok_each[OF assms(1)])
      (erule convert_reset_done, erule convert_reset_keeps[rotated 1], simp_all)
  then show ?thesis using assms(2) by simp
qed

text \<open>What is left of an event: its writes are no memory writes, its waits no memory waits.\<close>

definition event_converted :: "event_id \<times> memory_infos \<Rightarrow> sk_graph \<Rightarrow> bool" where
  "event_converted p g \<longleftrightarrow>
     (\<forall>w\<in>set (mi_writeNodeIdList (snd p)). not_type NODE_MEMORY_WRITE w g) \<and>
     (\<forall>w\<in>set (mi_waitNodeIdList (snd p)). not_type NODE_MEMORY_WAIT w g)"

text \<open>The three steps of \<open>ProcessMemoryWriteNodes\<close> when it succeeds.\<close>

lemma ProcessMemoryWriteNodes_cases:
  assumes "ProcessMemoryWriteNodes e info v f g = (True, h)"
  obtains fus g1 g2 where
    "filter (is_memory_notify g v f) (filter (is_memory_write g) (mi_writeNodeIdList info)) = []
       \<and> g1 = g
     \<or> (\<exists>w. filter (is_memory_notify g v f) (filter (is_memory_write g) (mi_writeNodeIdList info)) = [w]
       \<and> AddEventAssociateNotify e w
           (upd_node w (\<lambda>n. n\<lparr> nd_nodeType := NODE_NOTIFY, nd_isFusible := fus \<rparr>) g) = (True, g1))"
    and "all_ok (convert_wait e fus) (mi_waitNodeIdList info) g1 = (True, g2)"
    and "all_ok (convert_reset e) (filter (\<lambda>w. \<not> is_memory_notify g v f w)
           (filter (is_memory_write g) (mi_writeNodeIdList info))) g2 = (True, h)"
  using assms
  by (auto simp: ProcessMemoryWriteNodes_def Let_def split: prod.splits if_splits list.splits)

lemma notify_step_keeps:
  assumes "memory_type t" and "not_type t i g"
    and "AddEventAssociateNotify e w
           (upd_node w (\<lambda>n. n\<lparr> nd_nodeType := NODE_NOTIFY, nd_isFusible := fus \<rparr>) g) = (b, h)"
  shows "not_type t i h"
  using assms by (auto simp: not_type_def dest!: associate_result split: if_splits)

lemma notify_step_done:
  assumes "AddEventAssociateNotify e w
           (upd_node w (\<lambda>n. n\<lparr> nd_nodeType := NODE_NOTIFY, nd_isFusible := fus \<rparr>) g) = (b, h)"
  shows "not_type NODE_MEMORY_WRITE w h"
  using assms by (auto simp: not_type_def dest!: associate_result split: if_splits)

lemma ProcessMemoryWriteNodes_keeps:
  assumes t: "memory_type t" and g: "not_type t i g"
    and ok: "ProcessMemoryWriteNodes e info v f g = (True, h)"
  shows "not_type t i h"
  using ok
proof (cases rule: ProcessMemoryWriteNodes_cases)
  case (1 fus g1 g2)
  from 1(1) have "not_type t i g1"
    using g notify_step_keeps[OF t g] by auto
  then have "not_type t i g2" by (rule all_ok_convert_wait_keeps[OF t _ 1(2)])
  then show ?thesis by (rule all_ok_convert_reset_keeps[OF t _ 1(3)])
qed

lemma ProcessMemoryWriteNodes_converted:
  assumes "ProcessMemoryWriteNodes e info v f g = (True, h)"
  shows "event_converted (e, info) h"
  using assms
proof (cases rule: ProcessMemoryWriteNodes_cases)
  case (1 fus g1 g2)
  have waits: "not_type NODE_MEMORY_WAIT w h" if "w \<in> set (mi_waitNodeIdList info)" for w
    using all_ok_convert_reset_keeps[OF _ all_ok_convert_wait_done[OF 1(2) that] 1(3)] by simp
  have "not_type NODE_MEMORY_WRITE w h" if w: "w \<in> set (mi_writeNodeIdList info)" for w
  proof (cases "is_memory_write g w \<and> \<not> is_memory_notify g v f w")
    case True
    then show ?thesis using all_ok_convert_reset_done[OF 1(3)] w by simp
  next
    case False
    have "not_type NODE_MEMORY_WRITE w g1"
    proof (cases "is_memory_write g w")
      case True
      with False w have "w \<in> set (filter (is_memory_notify g v f)
        (filter (is_memory_write g) (mi_writeNodeIdList info)))" by simp
      with 1(1) obtain w' where "w \<in> set [w']" and step: "AddEventAssociateNotify e w'
          (upd_node w' (\<lambda>n. n\<lparr> nd_nodeType := NODE_NOTIFY, nd_isFusible := fus \<rparr>) g) = (True, g1)"
        by (metis emptyE list.set(1))
      then show ?thesis using notify_step_done[OF step] by simp
    next
      case False
      then have "not_type NODE_MEMORY_WRITE w g"
        by (auto simp: is_memory_write_def not_type_def split: option.splits)
      with 1(1) show ?thesis using notify_step_keeps[of NODE_MEMORY_WRITE] by blast
    qed
    then have "not_type NODE_MEMORY_WRITE w g2" 
      by (rule all_ok_convert_wait_keeps[OF disjI1[OF refl] _ 1(2)])
    then show ?thesis by (rule all_ok_convert_reset_keeps[OF disjI1[OF refl] _ 1(3)])
  qed
  with waits show ?thesis by (simp add: event_converted_def)
qed

lemma process_memory_event_keeps:
  assumes t: "memory_type t" and g: "not_type t i g" and ok: "process_memory_event p g = (True, h)"
  shows "not_type t i h"
  using ok all_ok_convert_wait_keeps[OF t g] all_ok_convert_write_keeps[OF t g]
    ProcessMemoryWriteNodes_keeps[OF t g]
  by (auto simp: process_memory_event_def split: prod.splits if_splits option.splits)

lemma process_memory_event_converted:
  assumes "process_memory_event p g = (True, h)"
  shows "event_converted p h"
  using assms all_ok_convert_wait_done all_ok_convert_write_done ProcessMemoryWriteNodes_converted
  by (fastforce simp: process_memory_event_def event_converted_def
      split: prod.splits if_splits option.splits)

lemma event_converted_keeps:
  assumes "event_converted p g" and "process_memory_event q g = (True, h)"
  shows "event_converted p h"
  using assms process_memory_event_keeps[OF _ _ assms(2)] by (auto simp: event_converted_def)

text \<open>
  \<^bold>\<open>Memory nodes are classified completely.\<close> When the pass succeeds, no node listed as a
  writer of some memory word is still a memory write and no node listed as a waiter is still a
  memory wait: each has become a notify, wait or reset node, whatever the order in which the
  container yields the words.
\<close>

theorem PostProcessMemoryNode_converts:
  assumes "PostProcessMemoryNode g = (True, h)" and "(e, info) \<in> set (sg_memoryToNodes g)"
  shows "(\<forall>w\<in>set (mi_writeNodeIdList info). \<forall>n. GetNodeById h w = Some n \<longrightarrow>
            nd_nodeType n \<noteq> NODE_MEMORY_WRITE) \<and>
         (\<forall>w\<in>set (mi_waitNodeIdList info). \<forall>n. GetNodeById h w = Some n \<longrightarrow>
            nd_nodeType n \<noteq> NODE_MEMORY_WAIT)"
proof -
  have "\<forall>p\<in>set (sg_memoryToNodes g). event_converted p h"
    by (rule all_ok_each[OF assms(1)[unfolded PostProcessMemoryNode_def]])
      (auto intro: process_memory_event_converted event_converted_keeps)
  then have "event_converted (e, info) h" using assms(2) by blast
  then show ?thesis by (auto simp: event_converted_def not_type_def)
qed

section \<open>The links are symmetric\<close>

lemma SetCorresponding_simps [simp]:
  "nd_nodeType (SetCorrespondingNotifyNodeId N n) = nd_nodeType n"
  "nd_nodeType (SetCorrespondingWaitNodeIds ws n) = nd_nodeType n"
  "nd_class (SetCorrespondingNotifyNodeId N n) = nd_class n"
  "nd_class (SetCorrespondingWaitNodeIds ws n) = nd_class n"
  "SetCorrespondingNotifyNodeId N (SetCorrespondingNotifyNodeId M n) = SetCorrespondingNotifyNodeId N n"
  "GetCorrespondingWaitNodeIds (SetCorrespondingNotifyNodeId N n) = GetCorrespondingWaitNodeIds n"
  "GetCorrespondingNotifyNodeId (SetCorrespondingWaitNodeIds ws n) = GetCorrespondingNotifyNodeId n"
  by (simp_all add: SetCorrespondingNotifyNodeId_def SetCorrespondingWaitNodeIds_def
      GetCorrespondingWaitNodeIds_def GetCorrespondingNotifyNodeId_def split: node_class.split)

lemma GetCorresponding_Set [simp]:
  "nd_class n = MemoryNode \<Longrightarrow> GetCorrespondingNotifyNodeId (SetCorrespondingNotifyNodeId N n) = N"
  "nd_class n = MemoryNode \<Longrightarrow> GetCorrespondingWaitNodeIds (SetCorrespondingWaitNodeIds ws n) = ws"
  by (simp_all add: SetCorrespondingNotifyNodeId_def SetCorrespondingWaitNodeIds_def
      GetCorrespondingWaitNodeIds_def GetCorrespondingNotifyNodeId_def)

lemma fold_link_wait:
  "GetNodeById (fold (link_wait N) ws g) i = map_option (\<lambda>n.
     if i \<in> set ws \<and> nd_nodeType n = NODE_WAIT then SetCorrespondingNotifyNodeId N n else n)
     (GetNodeById g i)"
  by (induction ws arbitrary: g)
    (auto simp: link_wait_def option.map_comp comp_def option.map_ident split: option.split)

definition set_resets :: "node_id list \<Rightarrow> sk_node \<Rightarrow> sk_node" where
  "set_resets rs n = n\<lparr> nd_syncInfos := (nd_syncInfos n)\<lparr> sy_correspondingResetNodeIds := rs \<rparr> \<rparr>"

lemma set_resets_simps [simp]:
  "nd_nodeType (set_resets rs n) = nd_nodeType n"
  "nd_class (set_resets rs n) = nd_class n"
  "set_resets rs (set_resets qs n) = set_resets rs n"
  "GetCorrespondingWaitNodeIds (set_resets rs n) = GetCorrespondingWaitNodeIds n"
  "GetCorrespondingNotifyNodeId (set_resets rs n) = GetCorrespondingNotifyNodeId n"
  by (simp_all add: set_resets_def GetCorrespondingWaitNodeIds_def
      GetCorrespondingNotifyNodeId_def split: node_class.split)

lemma fold_link_reset:
  "GetNodeById (fold (link_reset rs) qs g) i = map_option (\<lambda>n.
     if i \<in> set qs \<and> nd_nodeType n = NODE_RESET then set_resets rs n else n) (GetNodeById g i)"
  by (induction qs arbitrary: g)
    (auto simp: link_reset_def set_resets_def option.map_comp comp_def option.map_ident
      split: option.split)

text \<open>The nodes an event entry owns, and what the construction of the graph guarantees of them.\<close>

definition event_nodes :: "event_infos \<Rightarrow> node_id set" where
  "event_nodes info = (if ei_notifyNodeId info = INVALID_TASK_ID then {} else {ei_notifyNodeId info})
     \<union> set (ei_waitNodeIdList info) \<union> set (ei_resetNodeIdList info)"

definition event_node :: "sk_graph \<Rightarrow> sk_node_type \<Rightarrow> event_id \<Rightarrow> node_id \<Rightarrow> bool" where
  "event_node g t e i \<longleftrightarrow> (\<exists>n. GetNodeById g i = Some n \<and> nd_nodeType n = t \<and>
     nd_class n = MemoryNode \<and> GetEventId n = e)"

definition event_entry_ok :: "sk_graph \<Rightarrow> event_id \<times> event_infos \<Rightarrow> bool" where
  "event_entry_ok g p = (case p of (e, info) \<Rightarrow>
     (ei_notifyNodeId info \<noteq> INVALID_TASK_ID \<longrightarrow> event_node g NODE_NOTIFY e (ei_notifyNodeId info)) \<and>
     (\<forall>w\<in>set (ei_waitNodeIdList info). event_node g NODE_WAIT e w) \<and>
     (\<forall>r\<in>set (ei_resetNodeIdList info). event_node g NODE_RESET e r))"

definition events_ok :: "sk_graph \<Rightarrow> bool" where
  "events_ok g \<longleftrightarrow> distinct (map fst (sg_eventToNodes g)) \<and>
     (\<forall>p\<in>set (sg_eventToNodes g). event_entry_ok g p)"

lemma event_entry_okD:
  assumes "event_entry_ok g (e, info)"
  shows "ei_notifyNodeId info \<noteq> INVALID_TASK_ID \<Longrightarrow> event_node g NODE_NOTIFY e (ei_notifyNodeId info)"
    and "w \<in> set (ei_waitNodeIdList info) \<Longrightarrow> event_node g NODE_WAIT e w"
    and "r \<in> set (ei_resetNodeIdList info) \<Longrightarrow> event_node g NODE_RESET e r"
  using assms by (simp_all add: event_entry_ok_def)

lemma event_nodes_event:
  "event_entry_ok g (e, info) \<Longrightarrow> i \<in> event_nodes info \<Longrightarrow>
     \<exists>n. GetNodeById g i = Some n \<and> GetEventId n = e"
  by (auto simp: event_nodes_def event_entry_ok_def event_node_def split: if_splits)

lemma event_nodes_disjoint:
  assumes "event_entry_ok g (e, info)" and "event_entry_ok g (e', info')" and "e \<noteq> e'"
  shows "event_nodes info \<inter> event_nodes info' = {}"
  using event_nodes_event[OF assms(1)] event_nodes_event[OF assms(2)] assms(3) by fastforce

lemma link_event_other:
  "i \<notin> event_nodes info \<Longrightarrow> GetNodeById (link_event (e, info) g) i = GetNodeById g i"
  by (auto simp: link_event_def Let_def fold_link_wait fold_link_reset event_nodes_def is_notify_def
      option.map_ident cong: option.map_cong split: if_splits option.splits)

lemma fold_link_event_other:
  "(\<And>p. p \<in> set ps \<Longrightarrow> i \<notin> event_nodes (snd p)) \<Longrightarrow>
     GetNodeById (fold link_event ps g) i = GetNodeById g i"
proof (induction ps arbitrary: g)
  case (Cons p ps)
  then show ?case using link_event_other[of i "snd p" "fst p" g] by simp
qed simp

text \<open>What one entry says of its nodes once it has been linked.\<close>

definition entry_linked :: "sk_graph \<Rightarrow> event_id \<times> event_infos \<Rightarrow> bool" where
  "entry_linked g p = (case p of (e, info) \<Rightarrow> ei_notifyNodeId info \<noteq> INVALID_TASK_ID \<longrightarrow>
     (\<exists>n. GetNodeById g (ei_notifyNodeId info) = Some n \<and>
        GetCorrespondingWaitNodeIds n = ei_waitNodeIdList info) \<and>
     (\<forall>w\<in>set (ei_waitNodeIdList info). \<exists>n. GetNodeById g w = Some n \<and>
        GetCorrespondingNotifyNodeId n = ei_notifyNodeId info))"

lemma link_event_linked:
  assumes "event_entry_ok g (e, info)"
  shows "entry_linked (link_event (e, info) g) (e, info)"
  using event_entry_okD[OF assms]
  by (fastforce simp: entry_linked_def link_event_def Let_def fold_link_wait fold_link_reset
      event_node_def is_notify_def)

lemma entry_ok_link_other:
  assumes "event_entry_ok g (e, info)" and "event_entry_ok g (e', info')" and "e \<noteq> e'"
  shows "event_entry_ok (link_event (e', info') g) (e, info)"
proof -
  have "GetNodeById (link_event (e', info') g) i = GetNodeById g i" if "i \<in> event_nodes info" for i
    using event_nodes_disjoint[OF assms] that link_event_other by blast
  then show ?thesis using assms(1)
    by (auto simp: event_entry_ok_def event_node_def event_nodes_def)
qed

lemma fold_link_event_linked:
  assumes "distinct (map fst ps)" and "\<forall>p\<in>set ps. event_entry_ok g p" and "q \<in> set ps"
  shows "entry_linked (fold link_event ps g) q"
  using assms
proof (induction ps arbitrary: g)
  case (Cons p ps)
  obtain e info where p: "p = (e, info)" by (cases p)
  have ok: "event_entry_ok g (e, info)" using Cons.prems(2) p by simp
  have next_ok: "event_entry_ok (link_event p g) r" if "r \<in> set ps" for r
  proof -
    obtain e' info' where r: "r = (e', info')" by (cases r)
    have "e' \<noteq> e" using Cons.prems(1) that p r by force
    then show ?thesis
      using entry_ok_link_other[of g e' info' e info] Cons.prems(2) that p r by simp
  qed
  show ?case
  proof (cases "q = p")
    case False
    then show ?thesis using Cons.IH[of "link_event p g"] Cons.prems next_ok by simp
  next
    case True
    have "GetNodeById (fold link_event ps (link_event p g)) i = GetNodeById (link_event p g) i"
      if "i \<in> event_nodes info" for i
    proof (rule fold_link_event_other)
      fix r assume r: "r \<in> set ps"
      obtain e' info' where r': "r = (e', info')" by (cases r)
      have "e \<noteq> e'" using Cons.prems(1) r p r' by force
      then show "i \<notin> event_nodes (snd r)"
        using event_nodes_disjoint[OF ok] Cons.prems(2) r r' that by fastforce
    qed
    then show ?thesis using link_event_linked[OF ok] True p
      by (auto simp: entry_linked_def event_nodes_def)
  qed
qed simp

lemma BuildEventNodeAssociations_linked:
  "events_ok g \<Longrightarrow> p \<in> set (sg_eventToNodes g) \<Longrightarrow> entry_linked (BuildEventNodeAssociations g) p"
  using fold_link_event_linked[of "sg_eventToNodes g" g p]
  by (simp add: events_ok_def BuildEventNodeAssociations_def)

text \<open>
  C28 \<^bold>\<open>Notify and wait nodes point at each other.\<close> On a graph whose event table was built by
  \<open>AddNode\<close>, the pass leaves every notify node with exactly the waits registered for its event,
  and every one of those waits with that notify node as the one it waits for.
\<close>

theorem BuildEventNodeAssociations_symmetric:
  assumes "events_ok g" and "(e, info) \<in> set (sg_eventToNodes g)"
    and "ei_notifyNodeId info \<noteq> INVALID_TASK_ID"
  shows "(\<exists>n. GetNodeById (BuildEventNodeAssociations g) (ei_notifyNodeId info) = Some n \<and>
            GetCorrespondingWaitNodeIds n = ei_waitNodeIdList info) \<and>
         (\<forall>w\<in>set (ei_waitNodeIdList info). \<exists>n.
            GetNodeById (BuildEventNodeAssociations g) w = Some n \<and>
            GetCorrespondingNotifyNodeId n = ei_notifyNodeId info)"
  using BuildEventNodeAssociations_linked[OF assms(1,2)] assms(3) by (simp add: entry_linked_def)

subsection \<open>The event table is built correctly\<close>

definition node_class_ok :: "sk_node \<Rightarrow> bool" where
  "node_class_ok n \<longleftrightarrow> (nd_nodeType n \<in> {NODE_NOTIFY, NODE_WAIT, NODE_RESET, NODE_MEMORY_WRITE,
     NODE_MEMORY_WAIT} \<longleftrightarrow> nd_class n = MemoryNode) \<and> (nd_nodeType n = NODE_KERNEL \<longleftrightarrow> nd_class n = KernelNode)"

definition register_event :: "sk_node \<Rightarrow> event_infos \<Rightarrow> event_infos" where
  "register_event n info = (case nd_nodeType n of
       NODE_NOTIFY \<Rightarrow> info\<lparr> ei_notifyNodeId := nd_nodeId n \<rparr>
     | NODE_WAIT \<Rightarrow> info\<lparr> ei_waitNodeIdList := ei_waitNodeIdList info @ [nd_nodeId n] \<rparr>
     | NODE_RESET \<Rightarrow> info\<lparr> ei_resetNodeIdList := ei_resetNodeIdList info @ [nd_nodeId n] \<rparr>
     | _ \<Rightarrow> info)"

text \<open>A successful \<open>AddNode\<close> stores the node under a new id and registers it once.\<close>

lemma AddNode_success:
  assumes "AddNode n g = (True, h)"
  shows "GetNodeById g (nd_nodeId n) = None"
    and "sg_graphMap h = (sg_graphMap g)(nd_nodeId n \<mapsto> n)"
    and "sg_nodeIds h = sg_nodeIds g @ [nd_nodeId n]"
    and "sg_eventToNodes h = (if nd_nodeType n \<in> {NODE_NOTIFY, NODE_WAIT, NODE_RESET}
      then AList.update (GetEventId n) (register_event n (event_info g (GetEventId n))) (sg_eventToNodes g)
      else sg_eventToNodes g)"
  using assms
  by (auto simp: AddNode_def associate_defs register_event_def GetNodeById_def set_event_info_def
      set_memory_info_def Let_def split: sk_node_type.splits if_splits prod.splits)

lemma graph_ok_AddNode:
  assumes "graph_ok g" and "AddNode n g = (True, h)"
  shows "graph_ok h"
  using assms(1) AddNode_success[OF assms(2)]
  by (auto simp: graph_ok_def GetNodeById_def split: if_splits)

lemma event_info_lookup:
  assumes "distinct (map fst (sg_eventToNodes g))"
  shows "(e, info) \<in> set (sg_eventToNodes g) \<Longrightarrow> event_info g e = info"
  using assms by (simp add: event_info_def)

lemma event_node_AddNode:
  assumes "AddNode n g = (True, h)" and "event_node g t e i"
  shows "event_node h t e i"
  using assms AddNode_success[OF assms(1)]
  by (auto simp: event_node_def GetNodeById_def)

lemma event_info_entry:
  assumes "events_ok g"
  shows "event_entry_ok g (e, event_info g e)"
proof (cases "map_of (sg_eventToNodes g) e")
  case None
  then show ?thesis
    by (simp add: event_info_def event_entry_ok_def default_event_infos_def sk_const)
next
  case (Some info)
  then have "(e, info) \<in> set (sg_eventToNodes g)" by (rule map_of_SomeD)
  then show ?thesis using assms Some by (simp add: event_info_def events_ok_def)
qed

text \<open>
  Adding a node keeps every entry of the event table naming existing nodes of the right kind that
  carry the event of the entry, so the hypothesis of the linking pass holds for every graph the
  construction builds.
\<close>

lemma AddNode_events_ok:
  assumes "events_ok g" and "node_class_ok n" and "AddNode n g = (True, h)"
  shows "events_ok h"
proof -
  note new = AddNode_success[OF assms(3)]
  have old: "event_entry_ok h p" if "event_entry_ok g p" for p
    using that event_node_AddNode[OF assms(3)] by (simp add: event_entry_ok_def split: prod.splits)
  show ?thesis
  proof (cases "nd_nodeType n \<in> {NODE_NOTIFY, NODE_WAIT, NODE_RESET}")
    case False
    then show ?thesis using assms(1) new(4) old by (auto simp: events_ok_def)
  next
    case True
    let ?e = "GetEventId n" and ?x = "register_event n (event_info g (GetEventId n))"
    have self: "event_node h (nd_nodeType n) ?e (nd_nodeId n)"
      using new(2) assms(2) True by (auto simp: event_node_def GetNodeById_def node_class_ok_def)
    have "event_entry_ok h (?e, ?x)"
      using old[OF event_info_entry[OF assms(1), of ?e]] self True
      by (auto simp: event_entry_ok_def register_event_def)
    moreover have dist: "distinct (map fst (sg_eventToNodes h))"
      using assms(1) new(4) True by (auto simp: events_ok_def distinct_update)
    moreover have "p = (?e, ?x) \<or> p \<in> set (sg_eventToNodes g)" if "p \<in> set (sg_eventToNodes h)" for p
    proof (cases p)
      case (Pair e info)
      then have "map_of (sg_eventToNodes h) e = Some info" using that dist by simp
      then have "map_of (AList.update ?e ?x (sg_eventToNodes g)) e = Some info"
        using new(4) True by simp
      then show ?thesis using Pair map_of_SomeD[of "sg_eventToNodes g" e info]
        by (auto simp: update_conv' split: if_splits)
    qed
    ultimately show ?thesis
      using assms(1) old unfolding events_ok_def by metis
  qed
qed

subsection \<open>The classification of memory nodes keeps the event table consistent\<close>

definition sync_node :: "sk_graph \<Rightarrow> event_id \<Rightarrow> node_id \<Rightarrow> bool" where
  "sync_node g e i \<longleftrightarrow>
     (\<exists>n. GetNodeById g i = Some n \<and> nd_class n = MemoryNode \<and> GetEventId n = e)"

definition memory_entry_ok :: "sk_graph \<Rightarrow> event_id \<times> memory_infos \<Rightarrow> bool" where
  "memory_entry_ok g p \<longleftrightarrow> (\<forall>w\<in>set (mi_writeNodeIdList (snd p)) \<union> set (mi_waitNodeIdList (snd p)).
     sync_node g (fst p) w)"

definition memory_ok :: "sk_graph \<Rightarrow> bool" where
  "memory_ok g \<longleftrightarrow> (\<forall>p\<in>set (sg_memoryToNodes g). memory_entry_ok g p)"

text \<open>A node that is still a memory node gets an event type and joins its event's entry.\<close>

definition retype :: "sk_node_type \<Rightarrow> bool option \<Rightarrow> sk_node \<Rightarrow> sk_node" where
  "retype t fus n =
     n\<lparr> nd_nodeType := t, nd_isFusible := (case fus of None \<Rightarrow> nd_isFusible n | Some b \<Rightarrow> b) \<rparr>"

lemma retype_simps [simp]:
  "nd_nodeType (retype t fus n) = t"
  "nd_class (retype t fus n) = nd_class n"
  "GetEventId (retype t fus n) = GetEventId n"
  by (simp_all add: retype_def GetEventId_def split: node_class.split)

lemma events_ok_set:
  assumes "events_ok g" and "event_entry_ok g (e, x)"
  shows "events_ok (set_event_info e x g)"
proof -
  have dist: "distinct (map fst (AList.update e x (sg_eventToNodes g)))"
    using assms(1) by (auto simp: events_ok_def distinct_update)
  have "event_entry_ok g p" if "p \<in> set (AList.update e x (sg_eventToNodes g))" for p
  proof (cases p)
    case (Pair e' y)
    then have "map_of (AList.update e x (sg_eventToNodes g)) e' = Some y" using that dist by simp
    then show ?thesis using Pair assms map_of_SomeD[of "sg_eventToNodes g" e' y]
      by (auto simp: update_conv' events_ok_def split: if_splits)
  qed
  moreover have "event_entry_ok (set_event_info e x g) p = event_entry_ok g p" for p
    by (simp add: event_entry_ok_def event_node_def split: prod.split)
  ultimately show ?thesis using dist by (simp add: events_ok_def set_event_info_def)
qed

lemma events_ok_retype:
  assumes "events_ok g" and "GetNodeById g w = Some n"
    and "memory_type (nd_nodeType n) \<or> nd_nodeType n = t"
  shows "events_ok (upd_node w (retype t fus) g)"
proof -
  have "event_node (upd_node w (retype t fus) g) u e i"
    if "event_node g u e i" "\<not> memory_type u" for u e i
    using that assms(2,3) by (auto simp: event_node_def)
  then show ?thesis using assms(1) by (auto simp: events_ok_def event_entry_ok_def)
qed

lemma register_events_ok:
  assumes "events_ok g" and "event_node g t e w"
  shows "t = NODE_NOTIFY \<Longrightarrow> AddEventAssociateNotify e w g = (b, h) \<Longrightarrow> events_ok h"
    and "t = NODE_WAIT \<Longrightarrow> AddEventAssociateWait e w g = (b, h) \<Longrightarrow> events_ok h"
    and "t = NODE_RESET \<Longrightarrow> AddEventAssociateReset e w g = (b, h) \<Longrightarrow> events_ok h"
  using event_info_entry[OF assms(1), of e] assms
  by (auto simp: associate_defs Let_def event_entry_ok_def split: if_splits intro!: events_ok_set)

lemma retype_register:
  assumes "events_ok g" and "sync_node g e w" and "GetNodeById g w = Some n"
    and "memory_type (nd_nodeType n) \<or> nd_nodeType n = t"
  shows "events_ok (upd_node w (retype t fus) g)"
    and "event_node (upd_node w (retype t fus) g) t e w"
  using assms events_ok_retype[OF assms(1,3,4)] by (auto simp: sync_node_def event_node_def)

lemma convert_as_retype:
  "convert_reset e r g = AddEventAssociateReset e r (upd_node r (retype NODE_RESET None) g)"
  "convert_wait e fus w g = (case GetNodeById g w of None \<Rightarrow> (True, g)
     | Some n \<Rightarrow> if nd_nodeType n = NODE_MEMORY_WAIT
         then AddEventAssociateWait e w (upd_node w (retype NODE_WAIT (Some fus)) g) else (True, g))"
  "convert_write e w g = (case GetNodeById g w of None \<Rightarrow> (True, g)
     | Some n \<Rightarrow> if nd_nodeType n = NODE_MEMORY_WRITE then
         (if ResolveEventValue n = SK_DEFAULT_RESET_VALUE
          then AddEventAssociateReset e w (upd_node w (retype NODE_RESET (Some True)) g)
          else AddEventAssociateNotify e w (upd_node w (retype NODE_NOTIFY (Some True)) g))
       else (True, g))"
  unfolding convert_reset_def convert_wait_def convert_write_def retype_def Let_def
  by (simp_all split: option.split)

lemma retype_events_ok:
  assumes "events_ok g" and "sync_node g e w" and "GetNodeById g w = Some n"
    and "memory_type (nd_nodeType n) \<or> nd_nodeType n = t"
  shows "t = NODE_NOTIFY \<Longrightarrow> AddEventAssociateNotify e w (upd_node w (retype t fus) g) = (b, h) \<Longrightarrow> events_ok h"
    and "t = NODE_WAIT \<Longrightarrow> AddEventAssociateWait e w (upd_node w (retype t fus) g) = (b, h) \<Longrightarrow> events_ok h"
    and "t = NODE_RESET \<Longrightarrow> AddEventAssociateReset e w (upd_node w (retype t fus) g) = (b, h) \<Longrightarrow> events_ok h"
  by (rule register_events_ok[OF retype_register[OF assms]], assumption, assumption)+

lemma convert_wait_events_ok:
  assumes "events_ok g" and "sync_node g e w" and "convert_wait e fus w g = (b, h)"
  shows "events_ok h"
  using assms by (auto simp: convert_as_retype split: option.splits if_splits
      dest: retype_events_ok(2)[OF assms(1,2), where t = NODE_WAIT])

lemma convert_write_events_ok:
  assumes "events_ok g" and "sync_node g e w" and "convert_write e w g = (b, h)"
  shows "events_ok h"
  using assms by (auto simp: convert_as_retype split: option.splits if_splits
      dest: retype_events_ok(1)[OF assms(1,2), where t = NODE_NOTIFY]
        retype_events_ok(3)[OF assms(1,2), where t = NODE_RESET])

text \<open>A node the reset loop may still have to convert, or has converted.\<close>

definition reset_candidate :: "sk_graph \<Rightarrow> node_id \<Rightarrow> bool" where
  "reset_candidate g r \<longleftrightarrow> (\<exists>n. GetNodeById g r = Some n \<and>
     (nd_nodeType n = NODE_MEMORY_WRITE \<or> nd_nodeType n = NODE_RESET))"

lemma convert_reset_events_ok:
  assumes "events_ok g" and "sync_node g e r" and "reset_candidate g r"
    and "convert_reset e r g = (b, h)"
  shows "events_ok h"
  using assms by (auto simp: convert_as_retype reset_candidate_def
      dest: retype_events_ok(3)[OF assms(1,2), where t = NODE_RESET])

lemma associate_sync_node:
  "AddEventAssociateNotify e w g = (b, h) \<Longrightarrow> sync_node h = sync_node g"
  "AddEventAssociateWait e w g = (b, h) \<Longrightarrow> sync_node h = sync_node g"
  "AddEventAssociateReset e w g = (b, h) \<Longrightarrow> sync_node h = sync_node g"
  by (auto simp: sync_node_def fun_eq_iff dest!: associate_result)

lemma sync_node_retype [simp]: "sync_node (upd_node w (retype t fus) g) = sync_node g"
  by (auto simp: sync_node_def fun_eq_iff)

lemma convert_sync_node:
  "convert_wait e fus w g = (b, h) \<Longrightarrow> sync_node h = sync_node g"
  "convert_write e w g = (b, h) \<Longrightarrow> sync_node h = sync_node g"
  "convert_reset e w g = (b, h) \<Longrightarrow> sync_node h = sync_node g"
  by (auto simp: convert_as_retype dest!: associate_sync_node split: option.splits if_splits)

lemma convert_reset_candidate:
  "reset_candidate g r \<Longrightarrow> convert_wait e fus w g = (b, h) \<Longrightarrow> reset_candidate h r"
  "reset_candidate g r \<Longrightarrow> convert_reset e w g = (b, h) \<Longrightarrow> reset_candidate h r"
  by (auto simp: convert_as_retype reset_candidate_def dest!: associate_result
      split: option.splits if_splits)

lemma all_ok_convert_wait_events_ok:
  assumes "all_ok (convert_wait e fus) ws g = (b, h)" and "events_ok g"
    and "\<forall>w\<in>set ws. sync_node g e w" and "\<forall>r\<in>R. reset_candidate g r"
  shows "events_ok h \<and> sync_node h = sync_node g \<and> (\<forall>r\<in>R. reset_candidate h r)"
proof (rule all_ok_invariant[where P = "\<lambda>h. events_ok h \<and> sync_node h = sync_node g \<and>
        (\<forall>r\<in>R. reset_candidate h r)", OF assms(1)])
  fix x u c v
  assume "x \<in> set ws" and u: "events_ok u \<and> sync_node u = sync_node g \<and> (\<forall>r\<in>R. reset_candidate u r)"
    and step: "convert_wait e fus x u = (c, v)"
  then have "sync_node u e x" using assms(3) by simp
  from convert_wait_events_ok[OF _ this step] convert_sync_node(1)[OF step]
    convert_reset_candidate(1)[OF _ step] u
  show "events_ok v \<and> sync_node v = sync_node g \<and> (\<forall>r\<in>R. reset_candidate v r)" by simp
qed (use assms in simp)

lemma all_ok_convert_write_events_ok:
  assumes "all_ok (convert_write e) ws g = (b, h)" and "events_ok g"
    and "\<forall>w\<in>set ws. sync_node g e w"
  shows "events_ok h \<and> sync_node h = sync_node g"
proof (rule all_ok_invariant[where P = "\<lambda>h. events_ok h \<and> sync_node h = sync_node g", OF assms(1)])
  fix x u c v
  assume "x \<in> set ws" and u: "events_ok u \<and> sync_node u = sync_node g"
    and step: "convert_write e x u = (c, v)"
  then have "sync_node u e x" using assms(3) by simp
  from convert_write_events_ok[OF _ this step] convert_sync_node(2)[OF step] u
  show "events_ok v \<and> sync_node v = sync_node g" by simp
qed (use assms in simp)

lemma all_ok_convert_reset_events_ok:
  assumes "all_ok (convert_reset e) rs g = (b, h)" and "events_ok g"
    and "\<forall>w\<in>set rs. sync_node g e w" and "\<forall>r\<in>set rs. reset_candidate g r"
  shows "events_ok h \<and> sync_node h = sync_node g"
proof -
  have "events_ok h \<and> sync_node h = sync_node g \<and> (\<forall>r\<in>set rs. reset_candidate h r)"
  proof (rule all_ok_invariant[where P = "\<lambda>h. events_ok h \<and> sync_node h = sync_node g \<and>
          (\<forall>r\<in>set rs. reset_candidate h r)", OF assms(1)])
    fix x u c v
    assume x: "x \<in> set rs"
      and u: "events_ok u \<and> sync_node u = sync_node g \<and> (\<forall>r\<in>set rs. reset_candidate u r)"
      and step: "convert_reset e x u = (c, v)"
    then have "sync_node u e x" "reset_candidate u x" using assms(3) by simp_all
    from convert_reset_events_ok[OF _ this step] convert_sync_node(3)[OF step]
      convert_reset_candidate(2)[OF _ step] u
    show "events_ok v \<and> sync_node v = sync_node g \<and> (\<forall>r\<in>set rs. reset_candidate v r)" by simp
  qed (use assms in simp)
  then show ?thesis by simp
qed

lemma notify_step_ok:
  assumes "events_ok g" and "sync_node g e w" and "is_memory_write g w"
    and "AddEventAssociateNotify e w
           (upd_node w (\<lambda>n. n\<lparr> nd_nodeType := NODE_NOTIFY, nd_isFusible := fus \<rparr>) g) = (b, h)"
  shows "events_ok h \<and> sync_node h = sync_node g \<and>
    (\<forall>r. r \<noteq> w \<longrightarrow> reset_candidate g r \<longrightarrow> reset_candidate h r)"
proof -
  have step: "AddEventAssociateNotify e w (upd_node w (retype NODE_NOTIFY (Some fus)) g) = (b, h)"
    using assms(4) by (simp add: retype_def[abs_def])
  obtain n where n: "GetNodeById g w = Some n" "nd_nodeType n = NODE_MEMORY_WRITE"
    using assms(3) by (auto simp: is_memory_write_def split: option.splits)
  have "events_ok h"
    using retype_events_ok(1)[OF assms(1,2) n(1) _ refl step] n(2) by simp
  moreover have "sync_node h = sync_node g" using associate_sync_node(1)[OF step] by simp
  moreover have "reset_candidate h r" if "r \<noteq> w" "reset_candidate g r" for r
    using that associate_result(1)[OF step] by (auto simp: reset_candidate_def)
  ultimately show ?thesis by blast
qed

lemma ProcessMemoryWriteNodes_events_ok:
  assumes ok: "ProcessMemoryWriteNodes e info v f g = (True, h)" and g: "events_ok g"
    and sync: "memory_entry_ok g (e, info)"
  shows "events_ok h \<and> sync_node h = sync_node g"
  using ok
proof (cases rule: ProcessMemoryWriteNodes_cases)
  case (1 fus g1 g2)
  let ?writes = "filter (is_memory_write g) (mi_writeNodeIdList info)"
  let ?rs = "filter (\<lambda>w. \<not> is_memory_notify g v f w) ?writes"
  have writes: "sync_node g e w" "reset_candidate g w" "is_memory_write g w" if "w \<in> set ?writes" for w
    using that sync by (auto simp: memory_entry_ok_def reset_candidate_def is_memory_write_def
        split: option.splits)
  have g1: "events_ok g1 \<and> sync_node g1 = sync_node g \<and> (\<forall>r\<in>set ?rs. reset_candidate g1 r)"
    using 1(1)
  proof (elim disjE conjE exE)
    assume "g1 = g"
    moreover have "\<forall>r\<in>set ?rs. reset_candidate g r"
    proof
      fix r assume "r \<in> set ?rs"
      then have "r \<in> set ?writes" by (rule subsetD[OF filter_is_subset])
      then show "reset_candidate g r" by (rule writes(2))
    qed
    ultimately show ?thesis using g by blast
  next
    fix w assume w: "filter (is_memory_notify g v f) ?writes = [w]"
      and step: "AddEventAssociateNotify e w
        (upd_node w (\<lambda>n. n\<lparr> nd_nodeType := NODE_NOTIFY, nd_isFusible := fus \<rparr>) g) = (True, g1)"
    have "w \<in> set (filter (is_memory_notify g v f) ?writes)" unfolding w by simp
    then have mem: "w \<in> set ?writes" "is_memory_notify g v f w" by simp_all
    have "r \<noteq> w \<and> reset_candidate g r" if "r \<in> set ?rs" for r
    proof
      show "r \<noteq> w" using that mem(2) by (auto simp del: filter_filter)
      have "r \<in> set ?writes" using that by (rule subsetD[OF filter_is_subset])
      then show "reset_candidate g r" by (rule writes(2))
    qed
    then show ?thesis
      using notify_step_ok[OF g writes(1,3)[OF mem(1)] step] by blast
  qed
  have g2: "events_ok g2 \<and> sync_node g2 = sync_node g1 \<and> (\<forall>r\<in>set ?rs. reset_candidate g2 r)"
    by (rule all_ok_convert_wait_events_ok[OF 1(2)]) (use g1 sync in \<open>auto simp: memory_entry_ok_def\<close>)
  have "events_ok h \<and> sync_node h = sync_node g2"
  proof (rule all_ok_convert_reset_events_ok[OF 1(3)])
    show "events_ok g2" using g2 by blast
    show "\<forall>r\<in>set ?rs. reset_candidate g2 r" using g2 by blast
    have "sync_node g2 = sync_node g" using g1 g2 by simp
    then show "\<forall>w\<in>set ?rs. sync_node g2 e w"
      using writes(1) subsetD[OF filter_is_subset] by metis
  qed
  then show ?thesis using g1 g2 by simp
qed

lemma process_memory_event_events_ok:
  assumes "process_memory_event p g = (True, h)" and "events_ok g" and "memory_entry_ok g p"
  shows "events_ok h \<and> sync_node h = sync_node g"
proof -
  obtain e info where p: "p = (e, info)" by (cases p)
  have sync: "\<forall>w\<in>set (mi_waitNodeIdList info). sync_node g e w"
    "\<forall>w\<in>set (mi_writeNodeIdList info). sync_node g e w"
    using assms(3) p by (simp_all add: memory_entry_ok_def)
  consider (waits) fus where "all_ok (convert_wait e fus) (mi_waitNodeIdList info) g = (True, h)"
    | (writes) "all_ok (convert_write e) (mi_writeNodeIdList info) g = (True, h)"
    | (both) v f where "ProcessMemoryWriteNodes e info v f g = (True, h)"
    using assms(1) p by (auto simp: process_memory_event_def split: if_splits option.splits)
  then show ?thesis
  proof cases
    case waits
    then show ?thesis
      using all_ok_convert_wait_events_ok[OF waits assms(2) sync(1), of "{}"] by simp
  next
    case writes
    then show ?thesis using all_ok_convert_write_events_ok[OF writes assms(2) sync(2)] by simp
  next
    case both
    then show ?thesis using ProcessMemoryWriteNodes_events_ok[OF both assms(2)] assms(3) p by simp
  qed
qed

text \<open>
  Converting the memory nodes keeps the event table consistent, so the two passes compose: the
  links built afterwards are symmetric for the converted nodes too.
\<close>

lemma PostProcessMemoryNode_events_ok:
  assumes "events_ok g" and "memory_ok g" and "PostProcessMemoryNode g = (True, h)"
  shows "events_ok h"
proof -
  have "events_ok h \<and> sync_node h = sync_node g"
  proof (rule all_ok_keeps[where P = "\<lambda>h. events_ok h \<and> sync_node h = sync_node g",
          OF assms(3)[unfolded PostProcessMemoryNode_def]])
    fix p u v
    assume "p \<in> set (sg_memoryToNodes g)" and u: "events_ok u \<and> sync_node u = sync_node g"
      and step: "process_memory_event p u = (True, v)"
    then have "memory_entry_ok u p" using assms(2) by (simp add: memory_ok_def memory_entry_ok_def)
    from process_memory_event_events_ok[OF step _ this] u
    show "events_ok v \<and> sync_node v = sync_node g" by simp
  qed (use assms(1) in simp)
  then show ?thesis by simp
qed

section \<open>The searches along a stream end\<close>

text \<open>
  The shape of the streams: \<open>next\<close> and \<open>pre\<close> stay in the graph and in the stream, are inverse to
  each other and move the position in the stream by one.
\<close>

definition node_linked :: "sk_graph \<Rightarrow> node_id \<Rightarrow> sk_node \<Rightarrow> bool" where
  "node_linked g i n \<longleftrightarrow>
     (nd_nextNodeId n \<noteq> INVALID_TASK_ID \<longrightarrow> (\<exists>m. GetNodeById g (nd_nextNodeId n) = Some m \<and>
        nd_streamIdxInGraph m = nd_streamIdxInGraph n \<and> nd_preNodeId m = i \<and>
        unat (nd_nodeIdxInStream m) = Suc (unat (nd_nodeIdxInStream n)))) \<and>
     (nd_preNodeId n \<noteq> INVALID_TASK_ID \<longrightarrow> (\<exists>m. GetNodeById g (nd_preNodeId n) = Some m \<and>
        nd_streamIdxInGraph m = nd_streamIdxInGraph n \<and> nd_nextNodeId m = i \<and>
        unat (nd_nodeIdxInStream n) = Suc (unat (nd_nodeIdxInStream m))))"

definition streams_linked :: "sk_graph \<Rightarrow> bool" where
  "streams_linked g \<longleftrightarrow> (\<forall>i n. GetNodeById g i = Some n \<longrightarrow> node_linked g i n)"

definition pos :: "sk_graph \<Rightarrow> node_id \<Rightarrow> nat" where
  "pos g i = (case GetNodeById g i of None \<Rightarrow> 0 | Some n \<Rightarrow> unat (nd_nodeIdxInStream n))"

definition nodes_after :: "sk_graph \<Rightarrow> node_id \<Rightarrow> node_id set" where
  "nodes_after g i = {j \<in> set (sg_nodeIds g). pos g i < pos g j}"

definition nodes_before :: "sk_graph \<Rightarrow> node_id \<Rightarrow> node_id set" where
  "nodes_before g i = {j \<in> set (sg_nodeIds g). pos g j < pos g i}"

lemma nodes_after_less:
  assumes "i \<in> set (sg_nodeIds g)"
  shows "card (nodes_after g i) < length (sg_nodeIds g)"
    and "card (nodes_before g i) < length (sg_nodeIds g)"
proof -
  have "nodes_after g i \<subset> set (sg_nodeIds g)" "nodes_before g i \<subset> set (sg_nodeIds g)"
    using assms by (auto simp: nodes_after_def nodes_before_def)
  then have "card (nodes_after g i) < card (set (sg_nodeIds g))"
    "card (nodes_before g i) < card (set (sg_nodeIds g))" by (simp_all add: psubset_card_mono)
  then show "card (nodes_after g i) < length (sg_nodeIds g)"
    "card (nodes_before g i) < length (sg_nodeIds g)"
    using card_length[of "sg_nodeIds g"] by simp_all
qed

lemma nodes_after_mono:
  assumes "j \<in> set (sg_nodeIds g)" and "pos g i < pos g j"
  shows "card (nodes_after g j) < card (nodes_after g i)"
    and "i \<in> set (sg_nodeIds g) \<Longrightarrow> card (nodes_before g i) < card (nodes_before g j)"
proof -
  have "nodes_after g j \<subset> nodes_after g i"
    using assms by (auto simp: nodes_after_def)
  then show "card (nodes_after g j) < card (nodes_after g i)"
    by (intro psubset_card_mono) (simp_all add: nodes_after_def)
  show "card (nodes_before g i) < card (nodes_before g j)" if "i \<in> set (sg_nodeIds g)"
  proof -
    have "nodes_before g i \<subset> nodes_before g j"
      using assms that by (auto simp: nodes_before_def)
    then show ?thesis by (intro psubset_card_mono) (simp_all add: nodes_before_def)
  qed
qed

definition found_kernel :: "sk_graph \<Rightarrow> node_id \<Rightarrow> bool" where
  "found_kernel g r \<longleftrightarrow> (\<exists>n. GetNodeById g r = Some n \<and> nd_nodeType n = NODE_KERNEL)"

lemma chase_kernel_total:
  assumes "\<And>i n. sg_graphMap g i = Some n \<Longrightarrow>
      step n = INVALID_TASK_ID \<or> sg_graphMap g (step n) \<noteq> None \<and> \<mu> (step n) < (\<mu> i :: nat)"
    and "i = INVALID_TASK_ID \<or> sg_graphMap g i \<noteq> None \<and> \<mu> i + 2 \<le> fuel" and "0 < fuel"
  shows "\<exists>r. chase_kernel step fuel g i = Inr r \<and> (r = INVALID_TASK_ID \<or> found_kernel g r)"
  using assms(2,3)
proof (induction fuel arbitrary: i)
  case (Suc fuel)
  show ?case
  proof (cases "i = INVALID_TASK_ID")
    case False
    then obtain n where n: "sg_graphMap g i = Some n" and fuel: "\<mu> i + 2 \<le> Suc fuel"
      using Suc.prems by auto
    have "step n = INVALID_TASK_ID \<or> sg_graphMap g (step n) \<noteq> None \<and> \<mu> (step n) + 2 \<le> fuel"
      using assms(1)[OF n] fuel by auto
    then show ?thesis using Suc.IH[of "step n"] False n fuel
      by (auto simp: found_kernel_def GetNodeById_def)
  qed simp
qed simp

lemma find_recv_kernel_total:
  assumes "graph_ok g" and "streams_linked g" and "length (sg_nodeIds g) < fuel"
    and "sg_graphMap g w \<noteq> None"
  shows "\<exists>r. find_recv_kernel fuel g w = Inr r \<and> (r = INVALID_TASK_ID \<or> found_kernel g r)"
proof -
  have step_ok: "nd_nextNodeId n = INVALID_TASK_ID \<or> sg_graphMap g (nd_nextNodeId n) \<noteq> None \<and>
      card (nodes_after g (nd_nextNodeId n)) < card (nodes_after g i)" if n: "sg_graphMap g i = Some n" for i n
  proof (cases "nd_nextNodeId n = INVALID_TASK_ID")
    case False
    then obtain m where m: "GetNodeById g (nd_nextNodeId n) = Some m"
      "unat (nd_nodeIdxInStream m) = Suc (unat (nd_nodeIdxInStream n))"
      using assms(2) n by (fastforce simp: streams_linked_def node_linked_def GetNodeById_def)
    then have "pos g i < pos g (nd_nextNodeId n)" using n by (simp add: pos_def GetNodeById_def)
    moreover have "nd_nextNodeId n \<in> set (sg_nodeIds g)"
      using m(1) assms(1) by (auto simp: graph_ok_def GetNodeById_def)
    ultimately show ?thesis using nodes_after_mono(1) m(1) by (simp add: GetNodeById_def)
  qed simp
  have "card (nodes_after g w) < length (sg_nodeIds g)"
    using nodes_after_less(1) assms(1,4) by (auto simp: graph_ok_def)
  then show ?thesis unfolding find_recv_kernel_def
    using assms(3,4) chase_kernel_total[where \<mu> = "\<lambda>i. card (nodes_after g i)" and
        step = nd_nextNodeId and i = w and fuel = fuel and g = g] step_ok
    by auto
qed

lemma find_send_kernel_total:
  assumes "graph_ok g" and "streams_linked g" and "length (sg_nodeIds g) < fuel"
    and "sg_graphMap g w \<noteq> None"
  shows "\<exists>r. find_send_kernel fuel g w = Inr r \<and> (r = INVALID_TASK_ID \<or> found_kernel g r)"
proof -
  have step_ok: "nd_preNodeId n = INVALID_TASK_ID \<or> sg_graphMap g (nd_preNodeId n) \<noteq> None \<and>
      card (nodes_before g (nd_preNodeId n)) < card (nodes_before g i)" if n: "sg_graphMap g i = Some n" for i n
  proof (cases "nd_preNodeId n = INVALID_TASK_ID")
    case False
    then obtain m where m: "GetNodeById g (nd_preNodeId n) = Some m"
      "unat (nd_nodeIdxInStream n) = Suc (unat (nd_nodeIdxInStream m))"
      using assms(2) n by (fastforce simp: streams_linked_def node_linked_def GetNodeById_def)
    then have "pos g (nd_preNodeId n) < pos g i" using n by (simp add: pos_def GetNodeById_def)
    moreover have "nd_preNodeId n \<in> set (sg_nodeIds g)" "i \<in> set (sg_nodeIds g)"
      using m(1) n assms(1) by (auto simp: graph_ok_def GetNodeById_def)
    ultimately show ?thesis using nodes_after_mono(2) m(1) by (simp add: GetNodeById_def)
  qed simp
  obtain n where n: "sg_graphMap g w = Some n" using assms(4) by auto
  have "card (nodes_before g (nd_preNodeId n)) < length (sg_nodeIds g)"
    if "nd_preNodeId n \<noteq> INVALID_TASK_ID"
    using nodes_after_less(2) step_ok[OF n] that assms(1) by (auto simp: graph_ok_def)
  then have "nd_preNodeId n = INVALID_TASK_ID \<or> sg_graphMap g (nd_preNodeId n) \<noteq> None \<and>
      card (nodes_before g (nd_preNodeId n)) + 2 \<le> fuel"
    using step_ok[OF n] assms(3) by auto
  from chase_kernel_total[where \<mu> = "\<lambda>i. card (nodes_before g i)" and step = nd_preNodeId, OF _ this]
    step_ok assms(3) n show ?thesis by (auto simp: find_send_kernel_def)
qed

subsection \<open>The kernel edges\<close>

text \<open>\<open>sendToNodeId\<close> and \<open>receiveNodeId\<close> are converse relations between kernel nodes.\<close>

definition sends :: "sk_graph \<Rightarrow> node_id \<Rightarrow> node_id \<Rightarrow> bool" where
  "sends g s r \<longleftrightarrow> (\<exists>n. GetNodeById g s = Some n \<and> r \<in> nd_sendToNodeId n)"

definition receives :: "sk_graph \<Rightarrow> node_id \<Rightarrow> node_id \<Rightarrow> bool" where
  "receives g r s \<longleftrightarrow> (\<exists>n. GetNodeById g r = Some n \<and> s \<in> nd_receiveNodeId n)"

definition edges_ok :: "sk_graph \<Rightarrow> bool" where
  "edges_ok g \<longleftrightarrow> (\<forall>s r. sends g s r \<longleftrightarrow> receives g r s) \<and>
     (\<forall>s r. sends g s r \<longrightarrow> found_kernel g s \<and> found_kernel g r)"

text \<open>The part of a node the searches look at; the new edges leave it alone.\<close>

definition same_streams :: "sk_graph \<Rightarrow> sk_graph \<Rightarrow> bool" where
  "same_streams g h \<longleftrightarrow> sg_nodeIds h = sg_nodeIds g \<and>
     (\<forall>i. map_option (\<lambda>n. (nd_nodeId n, nd_nodeType n, nd_preNodeId n, nd_nextNodeId n,
          nd_streamIdxInGraph n, nd_nodeIdxInStream n)) (GetNodeById h i)
        = map_option (\<lambda>n. (nd_nodeId n, nd_nodeType n, nd_preNodeId n, nd_nextNodeId n,
          nd_streamIdxInGraph n, nd_nodeIdxInStream n)) (GetNodeById g i))"

lemma same_streams_refl [simp]: "same_streams g g"
  by (simp add: same_streams_def)

lemma same_streams_trans: "same_streams f g \<Longrightarrow> same_streams g h \<Longrightarrow> same_streams f h"
  by (simp add: same_streams_def)

lemma same_streamsD:
  assumes "same_streams g h" and "GetNodeById g i = Some n"
  shows "\<exists>m. GetNodeById h i = Some m \<and> nd_nodeId m = nd_nodeId n \<and> nd_nodeType m = nd_nodeType n \<and>
    nd_preNodeId m = nd_preNodeId n \<and> nd_nextNodeId m = nd_nextNodeId n \<and>
    nd_streamIdxInGraph m = nd_streamIdxInGraph n \<and> nd_nodeIdxInStream m = nd_nodeIdxInStream n"
  using assms by (auto simp: same_streams_def dest!: spec[of _ i])

lemma same_streams_sym: "same_streams g h \<Longrightarrow> same_streams h g"
  by (simp add: same_streams_def)

lemma same_streams_dom:
  assumes "same_streams g h"
  shows "dom (sg_graphMap h) = dom (sg_graphMap g)"
  using same_streamsD[OF assms] same_streamsD[OF same_streams_sym[OF assms]]
  by (fastforce simp: GetNodeById_def)

lemma same_streams_found [simp]: "same_streams g h \<Longrightarrow> found_kernel h i = found_kernel g i"
  using same_streamsD[of g h i] same_streamsD[OF same_streams_sym, of g h i]
  by (auto simp: found_kernel_def)

lemma same_streams_ok:
  assumes "same_streams g h" and "graph_ok g" and "streams_linked g"
  shows "graph_ok h" and "streams_linked h"
proof -
  have from_h: "\<exists>n. GetNodeById g i = Some n \<and> nd_nodeId n = nd_nodeId m" if "GetNodeById h i = Some m" for i m
    using same_streamsD[OF same_streams_sym[OF assms(1)] that] by auto
  show "graph_ok h"
    using assms(2) same_streams_dom[OF assms(1)] assms(1) from_h
    by (fastforce simp: graph_ok_def same_streams_def GetNodeById_def)
  show "streams_linked h"
    unfolding streams_linked_def
  proof (intro allI impI)
    fix i m assume m: "GetNodeById h i = Some m"
    then obtain n where n: "GetNodeById g i = Some n" "nd_preNodeId m = nd_preNodeId n"
      "nd_nextNodeId m = nd_nextNodeId n" "nd_streamIdxInGraph m = nd_streamIdxInGraph n"
      "nd_nodeIdxInStream m = nd_nodeIdxInStream n"
      using same_streamsD[OF same_streams_sym[OF assms(1)] m] by auto
    have linked: "node_linked g i n" using assms(3) n(1) by (simp add: streams_linked_def)
    have moved: "\<exists>k. GetNodeById h j = Some k \<and> nd_streamIdxInGraph k = nd_streamIdxInGraph l \<and>
        nd_preNodeId k = nd_preNodeId l \<and> nd_nextNodeId k = nd_nextNodeId l \<and>
        nd_nodeIdxInStream k = nd_nodeIdxInStream l" if "GetNodeById g j = Some l" for j l
      using same_streamsD[OF assms(1) that] by auto
    show "node_linked h i m"
      unfolding node_linked_def n(2-5)
    proof (intro conjI impI)
      assume "nd_nextNodeId n \<noteq> INVALID_TASK_ID"
      with linked obtain l where "GetNodeById g (nd_nextNodeId n) = Some l"
        "nd_streamIdxInGraph l = nd_streamIdxInGraph n" "nd_preNodeId l = i"
        "unat (nd_nodeIdxInStream l) = Suc (unat (nd_nodeIdxInStream n))"
        by (auto simp: node_linked_def)
      then show "\<exists>k. GetNodeById h (nd_nextNodeId n) = Some k \<and>
          nd_streamIdxInGraph k = nd_streamIdxInGraph n \<and> nd_preNodeId k = i \<and>
          unat (nd_nodeIdxInStream k) = Suc (unat (nd_nodeIdxInStream n))"
        using moved by fastforce
    next
      assume "nd_preNodeId n \<noteq> INVALID_TASK_ID"
      with linked obtain l where "GetNodeById g (nd_preNodeId n) = Some l"
        "nd_streamIdxInGraph l = nd_streamIdxInGraph n" "nd_nextNodeId l = i"
        "unat (nd_nodeIdxInStream n) = Suc (unat (nd_nodeIdxInStream l))"
        by (auto simp: node_linked_def)
      then show "\<exists>k. GetNodeById h (nd_preNodeId n) = Some k \<and>
          nd_streamIdxInGraph k = nd_streamIdxInGraph n \<and> nd_nextNodeId k = i \<and>
          unat (nd_nodeIdxInStream n) = Suc (unat (nd_nodeIdxInStream k))"
        using moved by fastforce
    qed
  qed
qed

lemma add_send_recv_same: "same_streams g (add_send_recv s r g)"
  by (auto simp: same_streams_def add_send_recv_def option.map_comp comp_def)

lemma add_send_recv_sends:
  assumes "found_kernel g s" and "found_kernel g r"
  shows "sends (add_send_recv s r g) x y \<longleftrightarrow> sends g x y \<or> x = s \<and> y = r"
    and "receives (add_send_recv s r g) y x \<longleftrightarrow> receives g y x \<or> x = s \<and> y = r"
  using assms by (auto simp: sends_def receives_def add_send_recv_def found_kernel_def)

lemma add_send_recv_edges:
  assumes "edges_ok g" and "found_kernel g s" and "found_kernel g r"
  shows "edges_ok (add_send_recv s r g)"
  using assms add_send_recv_sends[OF assms(2,3)] same_streams_found[OF add_send_recv_same]
  by (auto simp: edges_ok_def)

definition event_ids_known :: "sk_graph \<Rightarrow> event_id \<times> event_infos \<Rightarrow> bool" where
  "event_ids_known g p \<longleftrightarrow> event_nodes (snd p) \<subseteq> dom (sg_graphMap g)"

lemma associate_event_total:
  assumes g: "graph_ok g" "streams_linked g" "edges_ok g" and fuel: "length (sg_nodeIds g) < fuel"
    and p: "event_ids_known g p"
  shows "\<exists>h. associate_event fuel p g = Inr h \<and> edges_ok h \<and> same_streams g h"
proof -
  obtain e info where pe: "p = (e, info)" by (cases p)
  let ?N = "ei_notifyNodeId info"
  show ?thesis
  proof (cases "?N = INVALID_TASK_ID")
    case True
    then show ?thesis using g by (simp add: pe associate_event_def)
  next
    case False
    then have "sg_graphMap g ?N \<noteq> None" using p pe by (auto simp: event_ids_known_def event_nodes_def)
    then obtain s where s: "find_send_kernel fuel g ?N = Inr s" "s = INVALID_TASK_ID \<or> found_kernel g s"
      using find_send_kernel_total[OF g(1,2) fuel] by blast
    show ?thesis
    proof (cases "s = INVALID_TASK_ID")
      case True
      then show ?thesis using False s g by (simp add: pe associate_event_def)
    next
      case s': False
      then have fs: "found_kernel g s" using s(2) by simp
      have "\<exists>h. foldR (\<lambda>w g. bindR (find_recv_kernel fuel g w) (\<lambda>r.
                Inr (if r = INVALID_TASK_ID then g else add_send_recv s r g)))
              (ei_waitNodeIdList info) g = Inr h \<and> (edges_ok h \<and> same_streams g h)"
      proof (rule foldR_total)
        fix w u assume w: "w \<in> set (ei_waitNodeIdList info)" and u: "edges_ok u \<and> same_streams g u"
        then have "sg_graphMap u w \<noteq> None"
          using p pe same_streams_dom[of g u] by (auto simp: event_ids_known_def event_nodes_def)
        moreover have "length (sg_nodeIds u) < fuel" using fuel u by (simp add: same_streams_def)
        ultimately obtain r where r: "find_recv_kernel fuel u w = Inr r"
          "r = INVALID_TASK_ID \<or> found_kernel u r"
          using find_recv_kernel_total same_streams_ok[OF _ g(1,2)] u by blast
        have "found_kernel u s" using fs u same_streams_found[of g u s] by simp
        then show "\<exists>v. bindR (find_recv_kernel fuel u w) (\<lambda>r.
              Inr (if r = INVALID_TASK_ID then u else add_send_recv s r u)) = Inr v \<and>
            (edges_ok v \<and> same_streams g v)"
          using r u add_send_recv_edges[of u s r] same_streams_trans[OF _ add_send_recv_same, of g u s r]
          by auto
      qed (use g in simp)
      then show ?thesis using False s s' by (simp add: pe associate_event_def)
    qed
  qed
qed

lemma AddEventAssociate_total:
  assumes "graph_ok g" and "streams_linked g" and "edges_ok g"
    and "\<forall>p\<in>set (sg_eventToNodes g). event_ids_known g p"
    and "length (sg_nodeIds g) < fuel"
  shows "\<exists>h. AddEventAssociate fuel g = Inr h \<and> edges_ok h \<and> same_streams g h"
  unfolding AddEventAssociate_def
proof (rule foldR_total[where P = "\<lambda>h. edges_ok h \<and> same_streams g h"])
  fix p u assume p: "p \<in> set (sg_eventToNodes g)" and u: "edges_ok u \<and> same_streams g u"
  then have "event_ids_known u p" "length (sg_nodeIds u) < fuel"
    using assms(4,5) same_streams_dom[of g u] by (auto simp: event_ids_known_def same_streams_def)
  then obtain v where "associate_event fuel p u = Inr v \<and> edges_ok v \<and> same_streams u v"
    using associate_event_total[of u fuel p] same_streams_ok[OF _ assms(1,2)] u by blast
  then show "\<exists>v. associate_event fuel p u = Inr v \<and> (edges_ok v \<and> same_streams g v)"
    using u same_streams_trans by blast
qed (use assms in simp)

text \<open>
  C29 \<^bold>\<open>Kernel edges.\<close> On a graph with linked streams whose event table names existing nodes, the
  pass ends (fuel one above the number of nodes suffices for each search, and no null pointer
  is met), and afterwards the recorded senders and receivers are converse relations that hold
  between kernel nodes only.
\<close>

theorem AddEventAssociate_edges:
  assumes "graph_ok g" and "streams_linked g" and "edges_ok g"
    and "\<forall>p\<in>set (sg_eventToNodes g). event_ids_known g p"
    and "length (sg_nodeIds g) < fuel"
  shows "\<exists>h. AddEventAssociate fuel g = Inr h \<and> edges_ok h \<and> same_streams g h"
  by (rule AddEventAssociate_total[OF assms])

section \<open>The memory table is built correctly\<close>

definition register_memory :: "sk_node \<Rightarrow> memory_infos \<Rightarrow> memory_infos" where
  "register_memory n info = (case nd_nodeType n of
       NODE_MEMORY_WRITE \<Rightarrow> info\<lparr> mi_writeNodeIdList := mi_writeNodeIdList info @ [nd_nodeId n] \<rparr>
     | NODE_MEMORY_WAIT \<Rightarrow> info\<lparr> mi_waitNodeIdList := mi_waitNodeIdList info @ [nd_nodeId n] \<rparr>
     | _ \<Rightarrow> info)"

lemma AddNode_memory:
  assumes "AddNode n g = (True, h)"
  shows "sg_memoryToNodes h = (if memory_type (nd_nodeType n)
      then AList.update (GetEventId n) (register_memory n (memory_info g (GetEventId n)))
        (sg_memoryToNodes g)
      else sg_memoryToNodes g)"
  using assms
  by (auto simp: AddNode_def associate_defs register_memory_def set_event_info_def
      set_memory_info_def Let_def split: sk_node_type.splits if_splits prod.splits)

lemma AList_update_member:
  assumes "distinct (map fst xs)" and "p \<in> set (AList.update k v xs)"
  shows "p = (k, v) \<or> p \<in> set xs"
proof (cases p)
  case (Pair a b)
  have "distinct (map fst (AList.update k v xs))" using assms(1) by (rule distinct_update)
  then have "map_of (AList.update k v xs) a = Some b" using assms(2) Pair by simp
  then show ?thesis using Pair map_of_SomeD[of xs a b] by (auto simp: update_conv' split: if_splits)
qed

definition memory_table_ok :: "sk_graph \<Rightarrow> bool" where
  "memory_table_ok g \<longleftrightarrow> distinct (map fst (sg_memoryToNodes g)) \<and> memory_ok g"

lemma sync_node_AddNode:
  assumes "AddNode n g = (True, h)" and "sync_node g e i"
  shows "sync_node h e i"
  using assms AddNode_success[OF assms(1)] by (auto simp: sync_node_def GetNodeById_def)

lemma AddNode_memory_ok:
  assumes g: "memory_table_ok g" and n: "node_class_ok n" and ok: "AddNode n g = (True, h)"
  shows "memory_table_ok h"
proof -
  have old: "memory_entry_ok h p" if "memory_entry_ok g p" for p
    using that sync_node_AddNode[OF ok] by (simp add: memory_entry_ok_def)
  show ?thesis
  proof (cases "memory_type (nd_nodeType n)")
    case False
    then show ?thesis using g AddNode_memory[OF ok] old by (simp add: memory_table_ok_def memory_ok_def)
  next
    case True
    let ?e = "GetEventId n" and ?info = "memory_info g (GetEventId n)"
    have self: "sync_node h ?e (nd_nodeId n)"
      using AddNode_success(2)[OF ok] n True
      by (auto simp: sync_node_def GetNodeById_def node_class_ok_def)
    have "memory_entry_ok g (?e, ?info)"
    proof (cases "map_of (sg_memoryToNodes g) ?e")
      case None
      then show ?thesis by (simp add: memory_info_def memory_entry_ok_def default_memory_infos_def)
    next
      case (Some info)
      then show ?thesis using g map_of_SomeD[OF Some]
        by (simp add: memory_info_def memory_table_ok_def memory_ok_def)
    qed
    then have "memory_entry_ok h (?e, register_memory n ?info)"
      using old self True by (force simp: memory_entry_ok_def register_memory_def)
    then show ?thesis
      using g AddNode_memory[OF ok] True old AList_update_member[of "sg_memoryToNodes g"]
      by (fastforce simp: memory_table_ok_def memory_ok_def distinct_update)
  qed
qed

section \<open>Witnesses\<close>

text \<open>Two streams: a kernel and a notify node; a wait for it and a kernel.\<close>

definition sample_sync :: "u64 \<Rightarrow> sk_node \<Rightarrow> sk_node" where
  "sample_sync e n = n\<lparr> nd_syncInfos := (nd_syncInfos n)\<lparr> sy_eventId := e, sy_memoryValue := 1,
     sy_memoryWaitFlag := 0 \<rparr> \<rparr>"

definition sample_pair :: "sk_node_type \<Rightarrow> sk_node_type \<Rightarrow> sk_graph" where
  "sample_pair t u = sample_graph
     [sample_node KernelNode NODE_KERNEL INVALID_TASK_ID 1 2,
      sample_sync 7 (sample_node MemoryNode t 1 2 INVALID_TASK_ID)\<lparr> nd_nodeIdxInStream := 1 \<rparr>,
      sample_sync 7 (sample_node MemoryNode u INVALID_TASK_ID 3 4)\<lparr> nd_streamIdxInGraph := 1 \<rparr>,
      (sample_node KernelNode NODE_KERNEL 3 4 INVALID_TASK_ID)
        \<lparr> nd_streamIdxInGraph := 1, nd_nodeIdxInStream := 1 \<rparr>]"

definition sample_memory :: "sk_graph" where
  "sample_memory = (sample_pair NODE_MEMORY_WRITE NODE_MEMORY_WAIT)\<lparr> sg_memoryToNodes :=
     [(7, \<lparr> mi_writeNodeIdList = [2], mi_waitNodeIdList = [3] \<rparr>)] \<rparr>"

definition sample_event :: "sk_graph" where
  "sample_event = (sample_pair NODE_NOTIFY NODE_WAIT)\<lparr> sg_eventToNodes :=
     [(7, \<lparr> ei_notifyNodeId = 2, ei_resetNodeIdList = [], ei_waitNodeIdList = [3] \<rparr>)] \<rparr>"

lemmas sample_defs = sample_event_def sample_memory_def sample_pair_def sample_sync_def sample_node_def
  new_node_def default_sync_infos_def

lemma sample_get:
  "GetNodeById sample_memory = GetNodeById (sample_pair NODE_MEMORY_WRITE NODE_MEMORY_WAIT)"
  "GetNodeById sample_event = GetNodeById (sample_pair NODE_NOTIFY NODE_WAIT)"
  by (simp_all add: sample_event_def sample_memory_def GetNodeById_def fun_eq_iff)

lemma sample_event_events: "events_ok sample_event"
  by (simp add: events_ok_def event_entry_ok_def event_node_def sample_get)
    (simp add: sample_defs GetEventId_def)

lemma sample_event_graph: "graph_ok sample_event"
  by (auto simp: graph_ok_def sample_defs sample_graph_def split: if_splits)

lemma sample_event_linked: "streams_linked sample_event"
  unfolding streams_linked_def node_linked_def sample_get
  by (auto simp: sample_defs INVALID_TASK_ID_def split: if_splits)

lemma sample_event_edges: "edges_ok sample_event"
  unfolding edges_ok_def sends_def receives_def sample_get
  by (auto simp: sample_defs split: if_splits)

lemma PostProcessMemoryNode_converts_witness:
  "case PostProcessMemoryNode sample_memory of (ok, h) \<Rightarrow> ok \<and>
     (\<forall>n. GetNodeById h 2 = Some n \<longrightarrow> nd_nodeType n \<noteq> NODE_MEMORY_WRITE)"
proof -
  have "fst (PostProcessMemoryNode sample_memory)" by code_simp
  then obtain h where h: "PostProcessMemoryNode sample_memory = (True, h)"
    by (cases "PostProcessMemoryNode sample_memory") auto
  have "(7, \<lparr> mi_writeNodeIdList = [2], mi_waitNodeIdList = [3] \<rparr>) \<in> set (sg_memoryToNodes sample_memory)"
    by (simp add: sample_memory_def)
  from PostProcessMemoryNode_converts[OF h this] show ?thesis using h by simp
qed

lemma BuildEventNodeAssociations_symmetric_witness:
  "\<exists>n. GetNodeById (BuildEventNodeAssociations sample_event) 2 = Some n \<and>
     GetCorrespondingWaitNodeIds n = [3]"
proof -
  have "(7, \<lparr> ei_notifyNodeId = 2, ei_resetNodeIdList = [], ei_waitNodeIdList = [3] \<rparr>)
      \<in> set (sg_eventToNodes sample_event)"
    by (simp add: sample_event_def)
  from BuildEventNodeAssociations_symmetric[OF sample_event_events this] show ?thesis
    by (simp add: INVALID_TASK_ID_def)
qed

lemma AddEventAssociate_edges_witness:
  "\<exists>h. AddEventAssociate 5 sample_event = Inr h \<and> edges_ok h \<and> same_streams sample_event h"
proof (rule AddEventAssociate_edges[OF sample_event_graph sample_event_linked sample_event_edges])
  show "\<forall>p\<in>set (sg_eventToNodes sample_event). event_ids_known sample_event p"
    by (auto simp: sample_event_def sample_pair_def event_ids_known_def event_nodes_def sample_graph_def
        sample_sync_def sample_node_def)
  show "length (sg_nodeIds sample_event) < 5"
    by (simp add: sample_event_def sample_pair_def sample_graph_def)
qed

end
