(* ===== verification/Sk_Node_Init.thy ===== *)
theory Sk_Node_Init
  imports Sk_Graph
begin

text \<open>
  The initialisation of nodes from the runtime's tasks (\<^verbatim>\<open>sk_node.cpp\<close>): the bind map of a
  binary, the resolution of the split functions of a kernel, kernel types and core counts, the
  scope kernels, the SIMT check, and the three \<^verbatim>\<open>InitNode\<close> functions. What the code asks the
  ACL runtime and the options manager for is collected in \<open>kernel_env\<close> and \<open>task_params\<close>: a
  query is an option that is \<open>None\<close> when the call fails.
\<close>

section \<open>Capability bits, prefetch counts, kernel types\<close>

definition cap_bit :: "u64 \<Rightarrow> nat \<Rightarrow> bool" where
  "cap_bit cap offset \<longleftrightarrow> drop_bit offset cap AND 1 \<noteq> 0"

definition ParseKernelCapBits :: "u64 \<Rightarrow> kernel_cap_bits" where
  "ParseKernelCapBits cap = \<lparr> cb_earlyStartWaitFlag = cap_bit cap 0,
     cb_earlyStartSetFlag = cap_bit cap 1, cb_disableDcci = cap_bit cap 2,
     cb_disableScheMode = cap_bit cap 3 \<rparr>"

definition AlignUpAndClamp :: "u64 \<Rightarrow> nat \<Rightarrow> u64" where
  "AlignUpAndClamp v coreIdx =
    (let aicMax = 0x8000; aivMax = 0x4000; alignNum = 0x800;
         cnt = (v + alignNum - 1) AND NOT (alignNum - 1);
         cnt' = (if coreIdx = 0 \<and> cnt > aicMax then aicMax
                 else if coreIdx = 1 \<and> cnt > aivMax then aivMax else cnt)
     in cnt' div alignNum)"

text \<open>The kernel type codes of the runtime header.\<close>

definition ACL_KERNEL_TYPE_CUBE :: u32 where "ACL_KERNEL_TYPE_CUBE = 1"
definition ACL_KERNEL_TYPE_VECTOR :: u32 where "ACL_KERNEL_TYPE_VECTOR = 2"
definition ACL_KERNEL_TYPE_MIX :: u32 where "ACL_KERNEL_TYPE_MIX = 3"

lemmas acl_type_defs [sk_const] =
  ACL_KERNEL_TYPE_CUBE_def ACL_KERNEL_TYPE_VECTOR_def ACL_KERNEL_TYPE_MIX_def

definition NormalizeKernelType :: "u32 \<Rightarrow> u32 \<times> u32 \<Rightarrow> sk_kernel_type" where
  "NormalizeKernelType kt ratio =
    (if kt = ACL_KERNEL_TYPE_CUBE then AIC_ONLY
     else if kt = ACL_KERNEL_TYPE_VECTOR then AIV_ONLY
     else if kt = ACL_KERNEL_TYPE_MIX then
       (if snd ratio = 0 then AIC_ONLY
        else if snd ratio = 1 then MIX_AIC_1_1
        else if snd ratio = 2 then MIX_AIC_1_2
        else KT_DEFAULT)
     else KT_DEFAULT)"

definition IsMixKernelType :: "sk_kernel_type \<Rightarrow> bool" where
  "IsMixKernelType kt \<longleftrightarrow> kt = MIX_AIC_1_1 \<or> kt = MIX_AIC_1_2"

definition GetKernelTypeString :: "u32 \<Rightarrow> u32 \<times> u32 \<Rightarrow> string" where
  "GetKernelTypeString kt ratio = (case NormalizeKernelType kt ratio of
       AIC_ONLY \<Rightarrow> ''AIC_ONLY'' | AIV_ONLY \<Rightarrow> ''AIV_ONLY''
     | MIX_AIC_1_1 \<Rightarrow> ''MIX_AIC_1_1'' | MIX_AIC_1_2 \<Rightarrow> ''MIX_AIC_1_2'' | _ \<Rightarrow> ''DEFAULT'')"

text \<open>The scheduling mode asked of the function and of the task.\<close>

datatype sche_mode_state = SCHE_MODE_OFF | SCHE_MODE_ON | SCHE_MODE_NONE

definition ParseScheModeState :: "int \<Rightarrow> sche_mode_state" where
  "ParseScheModeState v =
     (if v = 0 then SCHE_MODE_OFF else if v = 1 then SCHE_MODE_ON else SCHE_MODE_NONE)"

definition sche_mode_query :: "int option \<Rightarrow> sche_mode_state" where
  "sche_mode_query q = (case q of None \<Rightarrow> SCHE_MODE_NONE | Some v \<Rightarrow> ParseScheModeState v)"

definition GetScheMode :: "int option \<Rightarrow> int option \<Rightarrow> bool" where
  "GetScheMode funcAttr launchAttr =
    (let f = sche_mode_query funcAttr; l = sche_mode_query launchAttr;
         final = (if l \<noteq> SCHE_MODE_NONE then l
                  else if f \<noteq> SCHE_MODE_NONE then f else SCHE_MODE_OFF)
     in final = SCHE_MODE_ON)"

section \<open>The bind map of a binary\<close>

record sk_bind_info =
  bi_cap :: u64
  bi_sknlFuncs :: "u64 list"

type_synonym sk_bind_map = "(u64 \<times> sk_bind_info) list"

definition INVALID_SK_BIND_VALUE :: u64 where "INVALID_SK_BIND_VALUE = -1"

definition mark_invalid :: "sk_bind_info \<Rightarrow> sk_bind_info" where
  "mark_invalid b = b\<lparr> bi_sknlFuncs := (bi_sknlFuncs b)[0 := INVALID_SK_BIND_VALUE] \<rparr>"

text \<open>The payloads are the meta records of the binary: a global function and its bind info.\<close>

definition add_bind :: "u64 \<times> sk_bind_info \<Rightarrow> sk_bind_map \<Rightarrow> sk_bind_map" where
  "add_bind p m = (case p of (globalFunc, b) \<Rightarrow>
     (case map_of m globalFunc of
        None \<Rightarrow> AList.update globalFunc b m
      | Some old \<Rightarrow>
          if bi_cap old \<noteq> bi_cap b \<or> bi_sknlFuncs old \<noteq> bi_sknlFuncs b
          then AList.update globalFunc (mark_invalid old) m
          else AList.update globalFunc b m))"

definition InitSuperKernelBindMap :: "(u64 \<times> sk_bind_info) list \<Rightarrow> sk_bind_map" where
  "InitSuperKernelBindMap payloads = fold add_bind payloads []"

definition HasInvalidSkBindValue :: "sk_bind_info \<Rightarrow> bool" where
  "HasInvalidSkBindValue b \<longleftrightarrow> bi_sknlFuncs b ! 0 = INVALID_SK_BIND_VALUE"

definition UpdateKernelCap :: "sk_bind_info \<Rightarrow> u64 option \<Rightarrow> bool \<times> u64 option" where
  "UpdateKernelCap b cap = (case cap of None \<Rightarrow> (True, Some (bi_cap b))
     | Some c \<Rightarrow> (c = bi_cap b, cap))"

section \<open>What the runtime answers for a kernel\<close>

datatype sk_node_core_type = CORE_AIC | CORE_AIV

record kernel_env =
  ke_kernelType :: "u64 option"
  ke_taskRatio :: "u64 option"
  ke_funcScheMode :: "int option"
  ke_taskScheMode :: "int option"
  ke_binHdl :: "u64 option"
  ke_funcName :: "string option"
  ke_scopeArgs :: "string option"
  ke_bindMap :: sk_bind_map
  ke_binDevAddr :: "u64 option"
  ke_funcAddr :: "(u64 \<times> u64) option"
  ke_hostBuffer :: "sk_node_core_type \<Rightarrow> nat \<Rightarrow> bool"
  ke_symbolInfo :: "u64 \<Rightarrow> (u64 \<times> string) option"
  ke_simtCheck :: "int option"
  ke_aivType :: "u32 option"
  ke_availDynUbuf :: "u64 option"
  ke_allocUbuf :: "u32 option"
  ke_ignoreMixSplit :: "(string \<Rightarrow> bool) option"

text \<open>
  \<open>ke_hostBuffer\<close> tells for each core type and split whether the call of \<^verbatim>\<open>rtGetBinBuffer\<close> for it succeeds.
  \<open>ke_symbolInfo\<close> is \<open>GetFuncSymbolInfo\<close>: size and binding of the symbol at an offset.
  \<open>ke_simtCheck\<close> is the value of the SIMT option, \<open>ke_ignoreMixSplit\<close> the predicate of the
  mix-split ignore option; both are \<open>None\<close> without options.
\<close>

section \<open>The split functions of a kernel\<close>

definition set_core :: "sk_node_core_type \<Rightarrow> 'a \<Rightarrow> 'a \<times> 'a \<Rightarrow> 'a \<times> 'a" where
  "set_core ct x p = (case ct of CORE_AIC \<Rightarrow> (x, snd p) | CORE_AIV \<Rightarrow> (fst p, x))"

text \<open>
  The result is the return value, the function record, the fail reason and the number of valid
  functions; the addresses are written before the call that can fail.
\<close>

definition InitSingleCoreFunc ::
  "sk_node_core_type \<Rightarrow> kernel_env \<Rightarrow> u64 \<Rightarrow> sk_bind_info \<Rightarrow> nat \<Rightarrow>
     resolved_function_info \<times> bindmap_fail_reason \<times> u32 \<Rightarrow>
     bool \<times> resolved_function_info \<times> bindmap_fail_reason \<times> u32" where
  "InitSingleCoreFunc ct env binDevAddr bind splitIdx st = (case st of (info, reason, validNum) \<Rightarrow>
     let off = bi_sknlFuncs bind ! splitIdx;
         info1 = info\<lparr> rf_funcAddr := set_core ct (off + binDevAddr) (rf_funcAddr info),
                       rf_funcOffset := set_core ct off (rf_funcOffset info) \<rparr>
     in if \<not> ke_hostBuffer env ct splitIdx then (False, info1, BIN_HOST_ADDR_GET_FAILED, validNum)
        else let info2 = (case ke_symbolInfo env off of
              Some (sz, bnd) \<Rightarrow> info1\<lparr>
                rf_prefetchCnt := set_core ct
                  (AlignUpAndClamp sz (if ct = CORE_AIC then 0 else 1)) (rf_prefetchCnt info1),
                rf_symbolBind := set_core ct bnd (rf_symbolBind info1) \<rparr>
            | None \<Rightarrow> info1\<lparr> rf_prefetchCnt :=
                set_core ct (if ct = CORE_AIC then 16 else 8) (rf_prefetchCnt info1) \<rparr>);
            validNum' = (if splitIdx > 0 \<and> bi_sknlFuncs bind ! splitIdx = bi_sknlFuncs bind ! 0
                         then validNum else validNum + 1)
          in (True, info2, reason, validNum'))"

definition InitSingleSplitFunc ::
  "kernel_env \<Rightarrow> u64 \<Rightarrow> sk_bind_info option \<Rightarrow> sk_bind_info option \<Rightarrow> nat \<Rightarrow> u32 \<Rightarrow>
     bool \<times> resolved_function_info \<times> bindmap_fail_reason \<times> u32" where
  "InitSingleSplitFunc env binDevAddr aic aiv splitIdx resolvedNum =
    (let st0 = (default_resolved_func, BF_NONE, 0);
         (res1, st1) = (case aic of None \<Rightarrow> (False, st0)
            | Some b \<Rightarrow> InitSingleCoreFunc CORE_AIC env binDevAddr b splitIdx st0);
         (res2, st2) = (case aiv of None \<Rightarrow> (res1, st1)
            | Some b \<Rightarrow> (let (r, st) = InitSingleCoreFunc CORE_AIV env binDevAddr b splitIdx st1
                        in (res1 \<or> r, st)));
         (info, reason, validNum) = st2
     in if \<not> res2 then (False, info, reason, resolvedNum)
        else (True, info, reason, if validNum > 0 then resolvedNum + 1 else resolvedNum))"

fun init_splits ::
  "kernel_env \<Rightarrow> u64 \<Rightarrow> sk_bind_info option \<Rightarrow> sk_bind_info option \<Rightarrow> nat list \<Rightarrow>
     kernel_infos \<Rightarrow> bool \<times> kernel_infos" where
  "init_splits env dev aic aiv [] ki = (True, ki)"
| "init_splits env dev aic aiv (i # is) ki =
    (let (ok, info, reason, num) = InitSingleSplitFunc env dev aic aiv i (ki_resolvedNum ki);
         ki1 = ki\<lparr> ki_resolvedNum := num \<rparr>
     in if \<not> ok then (False, ki1\<lparr> ki_bindmapFailReason := reason \<rparr>)
        else init_splits env dev aic aiv is
          (ki1\<lparr> ki_resolvedFuncs := (ki_resolvedFuncs ki1)[i := info] \<rparr>))"

definition cap_of_entries :: "sk_bind_info option \<Rightarrow> sk_bind_info option \<Rightarrow> bool \<times> u64 option" where
  "cap_of_entries aic aiv =
    (let (ok1, cap1) = (case aic of None \<Rightarrow> (True, None) | Some b \<Rightarrow> UpdateKernelCap b None)
     in if \<not> ok1 then (False, cap1)
        else (case aiv of None \<Rightarrow> (True, cap1) | Some b \<Rightarrow> UpdateKernelCap b cap1))"

definition bind_fail :: "bindmap_fail_reason \<Rightarrow> kernel_infos \<Rightarrow> bool \<times> kernel_infos" where
  "bind_fail r ki = (False, ki\<lparr> ki_bindmapFailReason := r \<rparr>)"

text \<open>The tail of \<open>InitKernelResolvedFuncs\<close> once the two entries of the bind map are known.\<close>

definition resolve_entries ::
  "kernel_env \<Rightarrow> u64 \<Rightarrow> sk_bind_info option \<Rightarrow> sk_bind_info option \<Rightarrow> kernel_infos \<Rightarrow>
     bool \<times> kernel_infos" where
  "resolve_entries env dev aic aiv ki =
    (if (case aic of None \<Rightarrow> False | Some b \<Rightarrow> HasInvalidSkBindValue b) then
       bind_fail BINDMAP_ENTRY_CONFLICT ki
     else if (case aiv of None \<Rightarrow> False | Some b \<Rightarrow> HasInvalidSkBindValue b) then
       bind_fail BINDMAP_ENTRY_CONFLICT ki
     else if aic = None \<and> aiv = None then bind_fail FUNC_NOT_FOUND ki
     else (let (ok, cap) = cap_of_entries aic aiv in
       if \<not> ok then bind_fail BINDMAP_CAP_INCONSISTENT ki
       else let c = (case cap of None \<Rightarrow> 0 | Some x \<Rightarrow> x);
                ki1 = ki\<lparr> ki_cap := c, ki_capBits := ParseKernelCapBits c \<rparr>;
                ki2 = (if cb_disableScheMode (ki_capBits ki1)
                       then ki1\<lparr> ki_isScheModeOn := False \<rparr> else ki1);
                (ok2, ki3) = init_splits env dev aic aiv [0, 1, 2, 3] (ki2\<lparr> ki_resolvedNum := 0 \<rparr>)
            in if \<not> ok2 then (False, ki3)
               else if ki_resolvedNum ki3 = 2 then
                 (True, ki3\<lparr> ki_resolvedFuncs := (ki_resolvedFuncs ki3)
                    [2 := ki_resolvedFuncs ki3 ! 0, 3 := ki_resolvedFuncs ki3 ! 1] \<rparr>)
               else (True, ki3)))"

definition InitKernelResolvedFuncs :: "kernel_env \<Rightarrow> kernel_infos \<Rightarrow> bool \<times> kernel_infos" where
  "InitKernelResolvedFuncs env ki =
    (if ki_binHdl ki = 0 then bind_fail BINHDL_NULL ki
     else if ki_funcHdl ki = 0 then bind_fail FUNCHDL_NULL ki
     else if ke_bindMap env = [] then bind_fail BINDMAP_INIT_EMPTY ki
     else case ke_binDevAddr env of None \<Rightarrow> bind_fail BIN_DEV_ADDR_GET_FAILED ki
     | Some dev \<Rightarrow> (case ke_funcAddr env of None \<Rightarrow> bind_fail FUNC_ADDR_GET_FAILED ki
       | Some (aicAddr, aivAddr) \<Rightarrow>
           resolve_entries env dev (map_of (ke_bindMap env) (aicAddr - dev))
             (map_of (ke_bindMap env) (aivAddr - dev)) ki))"

section \<open>Properties of the bit-level helpers\<close>

lemma cap_bit_iff: "cap_bit cap n \<longleftrightarrow> bit cap n"
  unfolding cap_bit_def by (simp add: bit_iff_odd_drop_bit and_one_eq odd_iff_mod_2_eq_one)

lemma align_down: "(x AND NOT 0x7FF) div 0x800 = x div (0x800 :: u64)"
proof -
  have "drop_bit 11 (x AND NOT (mask 11)) = drop_bit 11 x"
    by (rule bit_eqI) (auto simp: bit_simps dest: bit_imp_le_length)
  then show ?thesis by (simp add: drop_bit_eq_div mask_eq_exp_minus_1)
qed

lemma align_down_le: "x AND NOT 0x7FF \<le> (x :: u64)"
  by (simp add: word_and_le2)

lemma align_up_div:
  "unat ((v + 0x7FF AND NOT 0x7FF) div (0x800 :: u64)) = (unat v + 0x7FF) mod 2 ^ 64 div 0x800"
proof -
  have "unat (v + 0x7FF :: u64) = (unat v + 0x7FF) mod 2 ^ 64" by (simp add: unat_word_ariths)
  then show ?thesis unfolding align_down unat_div by simp
qed

lemma units_min:
  fixes n :: nat
  shows "(if n > 0x8000 then 16 else n div 0x800) = min 16 (n div 0x800)"
    and "(if n > 0x4000 then 8 else n div 0x800) = min 8 (n div 0x800)"
proof -
  have "16 \<le> n div 0x800" if "n > 0x8000" using that by (simp add: less_eq_div_iff_mult_less_eq)
  moreover have "n div 0x800 < 17" if "\<not> n > 0x8000" using that by (simp add: div_less_iff_less_mult)
  ultimately show "(if n > 0x8000 then 16 else n div 0x800) = min 16 (n div 0x800)"
    by (cases "n > 0x8000") (simp_all only: if_True if_False min_def, auto)
  have "8 \<le> n div 0x800" if "n > 0x4000" using that by (simp add: less_eq_div_iff_mult_less_eq)
  moreover have "n div 0x800 < 9" if "\<not> n > 0x4000" using that by (simp add: div_less_iff_less_mult)
  ultimately show "(if n > 0x4000 then 8 else n div 0x800) = min 8 (n div 0x800)"
    by (cases "n > 0x4000") (simp_all only: if_True if_False min_def, auto)
qed

text \<open>
  \<^bold>\<open>Prefetch counts.\<close> For every function size and core, the count is the number of 2 KiB
  units that cover the size, at most 16 on the cube core and at most 8 on the vector core; only
  a size within 2 KiB of the 64-bit limit wraps, to 0.
\<close>

theorem AlignUpAndClamp_spec:
  "unat (AlignUpAndClamp v coreIdx) =
     (let units = (unat v + 0x7FF) mod 2 ^ 64 div 0x800
      in if coreIdx = 0 then min 16 units else if coreIdx = 1 then min 8 units else units)"
proof -
  let ?c = "v + 0x7FF AND NOT (0x7FF :: u64)"
  have q: "unat (?c div 0x800) = (unat v + 0x7FF) mod 2 ^ 64 div 0x800" by (rule align_up_div)
  then have d: "unat ?c div 0x800 = (unat v + 0x7FF) mod 2 ^ 64 div 0x800" by (simp add: unat_div)
  have cmp: "?c > 0x8000 \<longleftrightarrow> unat ?c > 0x8000" "?c > 0x4000 \<longleftrightarrow> unat ?c > 0x4000"
    by (simp_all add: word_less_nat_alt)
  have div: "unat ((0x8000 :: u64) div 0x800) = 16" "unat ((0x4000 :: u64) div 0x800) = 8" by simp_all
  have add: "v + 0x800 - 1 = v + (0x7FF :: u64)" by (simp add: algebra_simps)
  consider "coreIdx = 0" | "coreIdx = 1" | "coreIdx \<noteq> 0" "coreIdx \<noteq> 1" by blast
  then show ?thesis
  proof cases
    case 1
    have "AlignUpAndClamp v coreIdx = (if ?c > 0x8000 then 0x8000 else ?c) div 0x800"
      using 1 by (simp add: AlignUpAndClamp_def Let_def add)
    then have "unat (AlignUpAndClamp v coreIdx) = (if unat ?c > 0x8000 then 16 else unat (?c div 0x800))"
      unfolding cmp(1)[symmetric] using div(1) by (simp only: if_distribR if_distrib split: if_split) simp
    also have "\<dots> = min 16 (unat ?c div 0x800)" using units_min(1) by (simp only: unat_div) simp
    finally show ?thesis using 1 d by (simp only: Let_def) simp
  next
    case 2
    have "AlignUpAndClamp v coreIdx = (if ?c > 0x4000 then 0x4000 else ?c) div 0x800"
      using 2 by (simp add: AlignUpAndClamp_def Let_def add)
    then have "unat (AlignUpAndClamp v coreIdx) = (if unat ?c > 0x4000 then 8 else unat (?c div 0x800))"
      unfolding cmp(2)[symmetric] using div(2) by (simp only: if_distribR if_distrib split: if_split) simp
    also have "\<dots> = min 8 (unat ?c div 0x800)" using units_min(2) by (simp only: unat_div) simp
    finally show ?thesis using 2 d by (simp only: Let_def) simp
  next
    case 3
    have "AlignUpAndClamp v coreIdx = ?c div 0x800"
      using 3 by (simp add: AlignUpAndClamp_def Let_def add)
    then show ?thesis using 3 q by simp
  qed
qed

section \<open>The bind map keeps consistent entries only\<close>

definition payload_ok :: "u64 \<times> sk_bind_info \<Rightarrow> bool" where
  "payload_ok p \<longleftrightarrow> bi_sknlFuncs (snd p) \<noteq> [] \<and> \<not> HasInvalidSkBindValue (snd p)"

lemma HasInvalid_mark: "bi_sknlFuncs b \<noteq> [] \<Longrightarrow> HasInvalidSkBindValue (mark_invalid b)"
  by (simp add: HasInvalidSkBindValue_def mark_invalid_def)

lemma mark_nonempty: "bi_sknlFuncs (mark_invalid b) = [] \<longleftrightarrow> bi_sknlFuncs b = []"
  by (simp add: mark_invalid_def)

text \<open>What the map says of a function after some payloads have been added.\<close>

definition bind_state :: "(u64 \<times> sk_bind_info) list \<Rightarrow> sk_bind_map \<Rightarrow> u64 \<Rightarrow> bool" where
  "bind_state ps m f = (case map_of m f of
     None \<Rightarrow> \<forall>b. (f, b) \<notin> set ps
   | Some b \<Rightarrow> bi_sknlFuncs b \<noteq> [] \<and> (\<exists>c. (f, c) \<in> set ps) \<and>
       (if HasInvalidSkBindValue b then \<exists>c d. (f, c) \<in> set ps \<and> (f, d) \<in> set ps \<and> c \<noteq> d
        else \<forall>c. (f, c) \<in> set ps \<longrightarrow> c = b))"

lemma add_bind_state:
  assumes "bind_state ps m f" and "payload_ok p"
  shows "bind_state (ps @ [p]) (add_bind p m) f"
proof -
  obtain g b where p: "p = (g, b)" by (cases p)
  have b: "bi_sknlFuncs b \<noteq> []" "\<not> HasInvalidSkBindValue b" using assms(2) p by (simp_all add: payload_ok_def)
  show ?thesis
  proof (cases "g = f")
    case False
    then show ?thesis using assms(1) p
      by (auto simp: bind_state_def add_bind_def update_conv' split: option.splits)
  next
    case True
    show ?thesis
    proof (cases "map_of m f")
      case None
      then show ?thesis using assms(1) b p True
        by (auto simp: bind_state_def add_bind_def update_conv' split: option.splits)
    next
      case (Some old)
      have old: "bi_sknlFuncs old \<noteq> []" "\<exists>c. (f, c) \<in> set ps"
        "if HasInvalidSkBindValue old then \<exists>c d. (f, c) \<in> set ps \<and> (f, d) \<in> set ps \<and> c \<noteq> d
         else \<forall>c. (f, c) \<in> set ps \<longrightarrow> c = old"
        using assms(1) unfolding bind_state_def Some option.case by blast+
      show ?thesis
      proof (cases "bi_cap old \<noteq> bi_cap b \<or> bi_sknlFuncs old \<noteq> bi_sknlFuncs b")
        case differ: True
        then have "map_of (add_bind p m) f = Some (mark_invalid old)"
          using Some p True by (auto simp: add_bind_def update_conv')
        moreover have "\<exists>c d. (f, c) \<in> set (ps @ [p]) \<and> (f, d) \<in> set (ps @ [p]) \<and> c \<noteq> d"
          using old(2,3) p True differ by (auto split: if_splits)
        ultimately show ?thesis using old(1,2) HasInvalid_mark mark_nonempty
          by (auto simp: bind_state_def)
      next
        case False
        then have "old = b" by simp
        then show ?thesis using Some p True old b
          by (auto simp: bind_state_def add_bind_def update_conv')
      qed
    qed
  qed
qed

lemma fold_add_bind_state:
  assumes "bind_state ps m f" and "\<forall>p\<in>set qs. payload_ok p"
  shows "bind_state (ps @ qs) (fold add_bind qs m) f"
  using assms
proof (induction qs arbitrary: ps m)
  case (Cons q qs)
  then show ?case using Cons.IH[of "ps @ [q]" "add_bind q m"] add_bind_state by simp
qed simp

text \<open>
  \<^bold>\<open>Conflicting bind records are rejected.\<close> Let no record of the binary have all ones as its first
  function offset, the value the code uses to mark an entry as invalid. Then looking a function up in the
  map built from the records finds nothing exactly when no record names it, finds an entry marked invalid
  exactly when two records for it disagree, and otherwise finds the record itself. Without this
  condition a single record that looks like the mark is taken for a conflict.
\<close>

theorem InitSuperKernelBindMap_spec:
  assumes "\<forall>p\<in>set payloads. payload_ok p"
  shows "case map_of (InitSuperKernelBindMap payloads) f of
      None \<Rightarrow> \<forall>b. (f, b) \<notin> set payloads
    | Some b \<Rightarrow> (HasInvalidSkBindValue b \<longleftrightarrow>
          (\<exists>c d. (f, c) \<in> set payloads \<and> (f, d) \<in> set payloads \<and> c \<noteq> d)) \<and>
        (\<not> HasInvalidSkBindValue b \<longrightarrow> (f, b) \<in> set payloads)"
proof -
  have "bind_state [] [] f" by (simp add: bind_state_def)
  from fold_add_bind_state[OF this assms] have "bind_state payloads (InitSuperKernelBindMap payloads) f"
    by (simp add: InitSuperKernelBindMap_def)
  then show ?thesis unfolding bind_state_def
    by (auto split: option.splits if_splits)
qed

section \<open>Every failure of the resolution has a reason\<close>

lemma InitSingleSplitFunc_fail:
  assumes "InitSingleSplitFunc env dev aic aiv i num = (False, info, reason, num')"
    and "aic \<noteq> None \<or> aiv \<noteq> None"
  shows "reason \<noteq> BF_NONE"
  using assms
  by (auto simp: InitSingleSplitFunc_def InitSingleCoreFunc_def Let_def
      split: option.splits prod.splits if_splits)

lemma init_splits_fail:
  assumes "init_splits env dev aic aiv is ki = (False, ki')" and "aic \<noteq> None \<or> aiv \<noteq> None"
  shows "ki_bindmapFailReason ki' \<noteq> BF_NONE"
  using assms(1)
proof (induction "is" arbitrary: ki)
  case (Cons i "is")
  obtain ok info reason num where st:
    "InitSingleSplitFunc env dev aic aiv i (ki_resolvedNum ki) = (ok, info, reason, num)"
    by (metis prod_cases4)
  then show ?case using Cons InitSingleSplitFunc_fail[OF _ assms(2)]
    by (cases ok) (auto simp: Let_def)
qed simp

lemma init_splits_ok:
  assumes "init_splits env dev aic aiv is ki = (True, ki')"
  shows "ki_bindmapFailReason ki' = ki_bindmapFailReason ki \<and> ki_cap ki' = ki_cap ki \<and>
    ki_capBits ki' = ki_capBits ki \<and> ki_isScheModeOn ki' = ki_isScheModeOn ki"
  using assms
proof (induction "is" arbitrary: ki)
  case (Cons i "is")
  obtain ok info reason num where st:
    "InitSingleSplitFunc env dev aic aiv i (ki_resolvedNum ki) = (ok, info, reason, num)"
    by (metis prod_cases4)
  then show ?case using Cons by (cases ok) (auto simp: Let_def)
qed simp

lemma cap_of_entries_ok:
  assumes "cap_of_entries aic aiv = (True, cap)" and "aic = Some b \<or> aiv = Some b"
  shows "cap = Some (bi_cap b)"
  using assms by (auto simp: cap_of_entries_def UpdateKernelCap_def split: option.splits if_splits)

definition entry_invalid :: "sk_bind_info option \<Rightarrow> bool" where
  "entry_invalid e \<longleftrightarrow> (case e of None \<Rightarrow> False | Some b \<Rightarrow> HasInvalidSkBindValue b)"

text \<open>The two ways the tail of the resolution ends, as one case rule.\<close>

lemma resolve_entries_cases:
  obtains (fail) r where "r \<noteq> BF_NONE" and "resolve_entries env dev aic aiv ki = bind_fail r ki"
  | (splits) b ki2 ok ki3 where "aic = Some b \<or> aiv = Some b"
      and "\<not> entry_invalid aic" and "\<not> entry_invalid aiv"
      and "cap_of_entries aic aiv = (True, Some (bi_cap b))"
      and "ki_bindmapFailReason ki2 = ki_bindmapFailReason ki" and "ki_cap ki2 = bi_cap b"
      and "ki_capBits ki2 = ParseKernelCapBits (bi_cap b)"
      and "cb_disableScheMode (ki_capBits ki2) \<longrightarrow> \<not> ki_isScheModeOn ki2"
      and "init_splits env dev aic aiv [0, 1, 2, 3] (ki2\<lparr> ki_resolvedNum := 0 \<rparr>) = (ok, ki3)"
      and "resolve_entries env dev aic aiv ki = (if \<not> ok then (False, ki3)
         else if ki_resolvedNum ki3 = 2 then
           (True, ki3\<lparr> ki_resolvedFuncs := (ki_resolvedFuncs ki3)
              [2 := ki_resolvedFuncs ki3 ! 0, 3 := ki_resolvedFuncs ki3 ! 1] \<rparr>)
         else (True, ki3))"
proof (cases "entry_invalid aic \<or> entry_invalid aiv \<or> aic = None \<and> aiv = None \<or>
    \<not> fst (cap_of_entries aic aiv)")
  case True
  then have "\<exists>r. r \<noteq> BF_NONE \<and> resolve_entries env dev aic aiv ki = bind_fail r ki"
    by (cases "cap_of_entries aic aiv") (auto simp: resolve_entries_def entry_invalid_def)
  then show ?thesis using fail by blast
next
  case False
  then have valid: "\<not> entry_invalid aic" "\<not> entry_invalid aiv" "aic \<noteq> None \<or> aiv \<noteq> None" by argo+
  from valid(3) obtain b where b: "aic = Some b \<or> aiv = Some b" by auto
  obtain cap where cap: "cap_of_entries aic aiv = (True, cap)"
    using False by (cases "cap_of_entries aic aiv") auto
  note cap = cap[unfolded cap_of_entries_ok[OF cap b]]
  define ki2 where "ki2 = (let ki1 = ki\<lparr> ki_cap := bi_cap b, ki_capBits := ParseKernelCapBits (bi_cap b) \<rparr>
    in if cb_disableScheMode (ki_capBits ki1) then ki1\<lparr> ki_isScheModeOn := False \<rparr> else ki1)"
  obtain ok ki3 where ki3: "init_splits env dev aic aiv [0, 1, 2, 3] (ki2\<lparr> ki_resolvedNum := 0 \<rparr>) = (ok, ki3)"
    by (cases "init_splits env dev aic aiv [0, 1, 2, 3] (ki2\<lparr> ki_resolvedNum := 0 \<rparr>)")
  show ?thesis
  proof (rule splits[OF b valid(1,2) cap _ _ _ _ ki3])
    show "resolve_entries env dev aic aiv ki = (if \<not> ok then (False, ki3)
       else if ki_resolvedNum ki3 = 2 then
         (True, ki3\<lparr> ki_resolvedFuncs := (ki_resolvedFuncs ki3)
            [2 := ki_resolvedFuncs ki3 ! 0, 3 := ki_resolvedFuncs ki3 ! 1] \<rparr>)
       else (True, ki3))"
      using valid cap ki3 b unfolding resolve_entries_def ki2_def Let_def entry_invalid_def by auto
  qed (simp_all add: ki2_def Let_def)
qed

lemma resolve_entries_fail:
  assumes "resolve_entries env dev aic aiv ki = (False, ki')"
  shows "ki_bindmapFailReason ki' \<noteq> BF_NONE"
proof (cases rule: resolve_entries_cases[of env dev aic aiv ki])
  case (fail r)
  then show ?thesis using assms by (auto simp: bind_fail_def)
next
  case (splits b ki2 ok ki3)
  then have "ok = False" "ki' = ki3" using assms by (auto split: if_splits)
  moreover have "aic \<noteq> None \<or> aiv \<noteq> None" using splits(1) by auto
  ultimately show ?thesis using init_splits_fail[of env dev aic aiv _ _ ki3] splits(9) by metis
qed

definition resolved :: "sk_bind_info option \<Rightarrow> sk_bind_info option \<Rightarrow> kernel_infos \<Rightarrow> kernel_infos \<Rightarrow> bool" where
  "resolved aic aiv ki ki' \<longleftrightarrow> ki_bindmapFailReason ki' = ki_bindmapFailReason ki \<and>
     (aic \<noteq> None \<or> aiv \<noteq> None) \<and>
     (\<forall>b. aic = Some b \<or> aiv = Some b \<longrightarrow> \<not> HasInvalidSkBindValue b \<and> ki_cap ki' = bi_cap b) \<and>
     ki_capBits ki' = ParseKernelCapBits (ki_cap ki') \<and>
     (cb_disableScheMode (ki_capBits ki') \<longrightarrow> \<not> ki_isScheModeOn ki')"

lemma resolve_entries_ok:
  assumes "resolve_entries env dev aic aiv ki = (True, ki')"
  shows "resolved aic aiv ki ki'"
proof (cases rule: resolve_entries_cases[of env dev aic aiv ki])
  case (fail r)
  then show ?thesis using assms by (simp add: bind_fail_def)
next
  case (splits c ki2 ok ki3)
  have ok: "ok" using assms splits(10) by (auto split: if_splits)
  note kept = init_splits_ok[OF splits(9)[unfolded eqTrueI[OF ok]]]
  have ki': "ki_bindmapFailReason ki' = ki_bindmapFailReason ki3 \<and> ki_cap ki' = ki_cap ki3 \<and>
      ki_capBits ki' = ki_capBits ki3 \<and> ki_isScheModeOn ki' = ki_isScheModeOn ki3"
    using assms splits(10) ok by (auto split: if_splits)
  have "bi_cap b = bi_cap c" if "aic = Some b \<or> aiv = Some b" for b
    using cap_of_entries_ok[OF splits(4) that] by simp
  moreover have "\<not> HasInvalidSkBindValue b" if "aic = Some b \<or> aiv = Some b" for b
    using that splits(2,3) by (auto simp: entry_invalid_def)
  moreover have "ki_bindmapFailReason ki3 = ki_bindmapFailReason ki" "ki_cap ki3 = bi_cap c"
    "ki_capBits ki3 = ParseKernelCapBits (bi_cap c)"
    "cb_disableScheMode (ki_capBits ki3) \<longrightarrow> \<not> ki_isScheModeOn ki3"
    using kept splits(5-8) by simp_all
  moreover have "aic \<noteq> None \<or> aiv \<noteq> None" using splits(1) by auto
  ultimately show ?thesis unfolding resolved_def using ki' by simp
qed

text \<open>The entries the two functions of a kernel are looked up under.\<close>

definition kernel_entries :: "kernel_env \<Rightarrow> (sk_bind_info option \<times> sk_bind_info option) option" where
  "kernel_entries env = (case (ke_binDevAddr env, ke_funcAddr env) of
     (Some dev, Some (a, v)) \<Rightarrow>
       Some (map_of (ke_bindMap env) (a - dev), map_of (ke_bindMap env) (v - dev))
   | _ \<Rightarrow> None)"

lemma InitKernelResolvedFuncs_cases:
  obtains (fail) r where "r \<noteq> BF_NONE" and "InitKernelResolvedFuncs env ki = bind_fail r ki"
  | (entries) dev aic aiv where "kernel_entries env = Some (aic, aiv)"
      and "InitKernelResolvedFuncs env ki = resolve_entries env dev aic aiv ki"
proof (cases "ki_binHdl ki = 0 \<or> ki_funcHdl ki = 0 \<or> ke_bindMap env = [] \<or>
    ke_binDevAddr env = None \<or> ke_funcAddr env = None")
  case True
  then have "\<exists>r. r \<noteq> BF_NONE \<and> InitKernelResolvedFuncs env ki = bind_fail r ki"
    by (auto simp: InitKernelResolvedFuncs_def split: option.splits)
  then show ?thesis using fail by blast
next
  case False
  then obtain dev a v where "ke_binDevAddr env = Some dev" "ke_funcAddr env = Some (a, v)" by auto
  with False show ?thesis
    by (intro entries) (auto simp: InitKernelResolvedFuncs_def kernel_entries_def)
qed

text \<open>
  C27 \<^bold>\<open>A kernel that cannot be resolved says why.\<close> When the resolution fails the kernel has a
  bind-map reason; when it succeeds the reason it had is untouched, at least one of its two
  functions has an entry in the bind map, every entry found is valid and carries the kernel's
  capability word, the capability bits are the low four bits of that word, and the scheduling mode
  is off whenever the word disables it.
\<close>

theorem InitKernelResolvedFuncs_spec:
  assumes "InitKernelResolvedFuncs env ki = (ok, ki')"
  shows "if ok then \<exists>aic aiv. kernel_entries env = Some (aic, aiv) \<and> resolved aic aiv ki ki'
         else ki_bindmapFailReason ki' \<noteq> BF_NONE"
proof (cases rule: InitKernelResolvedFuncs_cases[of env ki])
  case (fail r)
  then show ?thesis using assms by (auto simp: bind_fail_def)
next
  case (entries dev aic aiv)
  then show ?thesis using assms resolve_entries_ok resolve_entries_fail by (cases ok) auto
qed

definition sample_env :: "sk_bind_map \<Rightarrow> kernel_env" where
  "sample_env m = \<lparr> ke_kernelType = Some 3, ke_taskRatio = Some 0x10002, ke_funcScheMode = Some 1,
     ke_taskScheMode = None, ke_binHdl = Some 7, ke_funcName = Some ''add'', ke_scopeArgs = None,
     ke_bindMap = m, ke_binDevAddr = Some 0x1000, ke_funcAddr = Some (0x1010, 0x1020),
     ke_hostBuffer = (\<lambda>_ _. True), ke_symbolInfo = (\<lambda>_. None), ke_simtCheck = None, ke_aivType = None,
     ke_availDynUbuf = None, ke_allocUbuf = None, ke_ignoreMixSplit = None \<rparr>"

lemma InitKernelResolvedFuncs_spec_witness:
  "let b = \<lparr> bi_cap = 8, bi_sknlFuncs = [1, 2, 3, 4] \<rparr>;
       env = sample_env [(0x10, b), (0x20, b)];
       ki = default_kernel_infos\<lparr> ki_binHdl := 7, ki_funcHdl := 5, ki_isScheModeOn := True \<rparr>;
       (ok, ki') = InitKernelResolvedFuncs env ki
   in ok \<and> \<not> ki_isScheModeOn ki' \<and>
      (\<exists>aic aiv. kernel_entries env = Some (aic, aiv) \<and> resolved aic aiv ki ki')"
proof -
  let ?b = "\<lparr> bi_cap = 8, bi_sknlFuncs = [1, 2, 3, 4] \<rparr>"
  let ?env = "sample_env [(0x10, ?b), (0x20, ?b)]"
  let ?ki = "default_kernel_infos\<lparr> ki_binHdl := 7, ki_funcHdl := 5, ki_isScheModeOn := True \<rparr>"
  obtain ok ki' where eq: "InitKernelResolvedFuncs ?env ?ki = (ok, ki')" by fastforce
  have "fst (InitKernelResolvedFuncs ?env ?ki) \<and>
      \<not> ki_isScheModeOn (snd (InitKernelResolvedFuncs ?env ?ki))" by code_simp
  with InitKernelResolvedFuncs_spec[OF eq] show ?thesis by (simp add: eq Let_def)
qed

lemma InitSuperKernelBindMap_spec_witness:
  "let b = \<lparr> bi_cap = 8, bi_sknlFuncs = [1, 2, 3, 4] \<rparr>; c = \<lparr> bi_cap = 0, bi_sknlFuncs = [1, 2, 3, 4] \<rparr>;
       ps = [(5, b), (6, b), (5, c), (6, b)]
   in (\<forall>p\<in>set ps. payload_ok p) \<and>
      (case map_of (InitSuperKernelBindMap ps) 5 of None \<Rightarrow> False
       | Some x \<Rightarrow> HasInvalidSkBindValue x \<longleftrightarrow>
           (\<exists>c d. (5, c) \<in> set ps \<and> (5, d) \<in> set ps \<and> c \<noteq> d))"
proof -
  let ?b = "\<lparr> bi_cap = 8, bi_sknlFuncs = [1, 2, 3, 4] \<rparr>"
  let ?c = "\<lparr> bi_cap = 0, bi_sknlFuncs = [1, 2, 3, 4] \<rparr>"
  let ?ps = "[(5, ?b), (6, ?b), (5, ?c), (6, ?b)]"
  have ok: "\<forall>p\<in>set ?ps. payload_ok p"
    by (simp add: payload_ok_def HasInvalidSkBindValue_def INVALID_SK_BIND_VALUE_def)
  have "map_of (InitSuperKernelBindMap ?ps) 5 \<noteq> None" by code_simp
  with InitSuperKernelBindMap_spec[OF ok, of 5] ok show ?thesis by (auto split: option.splits)
qed

end
