(* ===== verification/Sk_Node_Kernel.thy ===== *)
theory Sk_Node_Kernel
  imports Sk_Node_Init
begin

text \<open>
  The three \<^verbatim>\<open>InitNode\<close> functions of \<^verbatim>\<open>sk_node.cpp\<close> with the helpers they call: the recognition
  of scope kernels by name, the SIMT check, the core counts of a kernel, and the classification
  of event and memory tasks.
\<close>

section \<open>Parameters of a task\<close>

record event_params =
  ep_event :: u64
  ep_eventFlag :: u32
  ep_taskFlag :: u32

record value_params =
  vp_devAddr :: u64
  vp_value :: u64
  vp_flag :: u32

record kernel_params =
  kp_funcHandle :: u64
  kp_args :: u64
  kp_numBlocks :: u32
  kp_cfg :: u64
  kp_opInfoPtr :: u64
  kp_opInfoSize :: u64
  kp_taskGrp :: u64

text \<open>What the runtime knows of one task; \<open>None\<close> where its query fails.\<close>

record task_params =
  tp_seqId :: "u32 option"
  tp_paramsOk :: bool
  tp_event :: event_params
  tp_value :: value_params
  tp_kernel :: kernel_params
  tp_env :: kernel_env

definition ACL_EVENT_RECORD_DEFAULT :: u32 where "ACL_EVENT_RECORD_DEFAULT = 0"
definition ACL_EVENT_WAIT_DEFAULT :: u32 where "ACL_EVENT_WAIT_DEFAULT = 0"
definition ACL_EVENT_EXTERNAL :: u32 where "ACL_EVENT_EXTERNAL = 0x20"

definition BaseInitNode :: "task_params \<Rightarrow> sk_node \<Rightarrow> bool \<times> sk_node" where
  "BaseInitNode tp n = (case tp_seqId tp of None \<Rightarrow> (False, n)
     | Some seqId \<Rightarrow> (True, n\<lparr> nd_nodeId := ucast seqId \<rparr>))"

section \<open>Scope kernels\<close>

record judge_task_kernel_info =
  jt_isBegin :: bool
  jt_isEnd :: bool
  jt_isPlaceholder :: bool
  jt_isFuseEnable :: bool
  jt_scopeName :: string

definition SK_ARCH_SUFFIXES :: "string list" where
  "SK_ARCH_SUFFIXES = [''dav_2201'', ''dav_3510'']"

definition IsScopeKernelNameWithSupportedArch :: "string \<Rightarrow> string \<Rightarrow> bool" where
  "IsScopeKernelNameWithSupportedArch kernelName baseName =
    (take (length baseName) kernelName = baseName \<and>
     length baseName < length kernelName \<and> kernelName ! length baseName = CHR ''_'' \<and>
     drop (length baseName + 1) kernelName \<in> set SK_ARCH_SUFFIXES)"

text \<open>The argument buffer of 256 bytes is closed with a null byte and read up to the first one.\<close>

definition c_string :: "string \<Rightarrow> string" where
  "c_string buf = takeWhile (\<lambda>c. c \<noteq> CHR 0x00) (take 255 buf)"

definition IsScopeKernel :: "kernel_env \<Rightarrow> judge_task_kernel_info option" where
  "IsScopeKernel env = (case ke_funcName env of None \<Rightarrow> None
   | Some kernelName \<Rightarrow>
      (let isB = IsScopeKernelNameWithSupportedArch kernelName ''sk_scope_kernel_begin'';
           isE = IsScopeKernelNameWithSupportedArch kernelName ''sk_scope_kernel_end'';
           isP = IsScopeKernelNameWithSupportedArch kernelName ''sk_placeholder_kernel''
       in if \<not> isB \<and> \<not> isE \<and> \<not> isP then None
          else (case ke_scopeArgs env of None \<Rightarrow> None
            | Some buf \<Rightarrow> Some \<lparr> jt_isBegin = isB, jt_isEnd = isE, jt_isPlaceholder = isP,
                jt_isFuseEnable = (c_string buf \<noteq> ''default_sk_scope_name''),
                jt_scopeName = c_string buf \<rparr>)))"

definition apply_scope_kernel :: "judge_task_kernel_info \<Rightarrow> sk_node \<Rightarrow> sk_node" where
  "apply_scope_kernel i n = n\<lparr> nd_isScopeNode := True, nd_isFusible := jt_isFuseEnable i,
     nd_isScopeBegin := jt_isBegin i, nd_isScopeEnd := jt_isEnd i,
     nd_isPlaceholder := jt_isPlaceholder i,
     nd_scopeName := (if jt_isFuseEnable i then jt_scopeName i else nd_scopeName n) \<rparr>"

section \<open>Core counts\<close>

definition set_core_nums :: "u32 \<Rightarrow> kernel_infos \<Rightarrow> kernel_infos" where
  "set_core_nums nb ki = (case ki_kernelType ki of
      AIC_ONLY \<Rightarrow> ki\<lparr> ki_cubeNum := nb, ki_vecNum := 0 \<rparr>
    | MIX_AIC_1_0 \<Rightarrow> ki\<lparr> ki_cubeNum := nb, ki_vecNum := 0 \<rparr>
    | AIV_ONLY \<Rightarrow> ki\<lparr> ki_cubeNum := 0, ki_vecNum := nb \<rparr>
    | MIX_AIV_1_0 \<Rightarrow> ki\<lparr> ki_cubeNum := 0, ki_vecNum := nb \<rparr>
    | MIX_AIC_1_1 \<Rightarrow> ki\<lparr> ki_cubeNum := nb, ki_vecNum := nb \<rparr>
    | MIX_AIC_1_2 \<Rightarrow> ki\<lparr> ki_cubeNum := nb, ki_vecNum := push_bit 1 nb \<rparr>
    | KT_DEFAULT \<Rightarrow> ki)"

section \<open>The SIMT check\<close>

definition AIV_TYPE_SIMT_VF_ONLY :: u32 where "AIV_TYPE_SIMT_VF_ONLY = 3"
definition AIV_TYPE_SIMD_SIMT_MIX_VF :: u32 where "AIV_TYPE_SIMD_SIMT_MIX_VF = 4"

definition upd_kernel :: "(kernel_infos \<Rightarrow> kernel_infos) \<Rightarrow> sk_node \<Rightarrow> sk_node" where
  "upd_kernel f n = n\<lparr> nd_kernelInfos := f (nd_kernelInfos n) \<rparr>"

definition IdentifyAndHandleSimtKernel :: "kernel_env \<Rightarrow> sk_node \<Rightarrow> sk_node" where
  "IdentifyAndHandleSimtKernel env n =
    (let n0 = upd_kernel (\<lambda>k. k\<lparr> ki_isSimtOp := False, ki_hasDynUbufSize := False,
           ki_hasAllocUbufSize := False, ki_dynUbufSize := 0, ki_allocUbufSize := 0 \<rparr>) n;
         kt = ki_kernelType (nd_kernelInfos n0);
         hasAiv = (kt = AIV_ONLY \<or> kt = MIX_AIV_1_0 \<or> kt = MIX_AIC_1_1 \<or> kt = MIX_AIC_1_2)
     in if ke_simtCheck env \<noteq> Some 1 then n0
        else if \<not> hasAiv then n0
        else (case ke_aivType env of None \<Rightarrow> n0
          | Some aivType \<Rightarrow>
             if aivType = AIV_TYPE_SIMT_VF_ONLY \<or> aivType = AIV_TYPE_SIMD_SIMT_MIX_VF then
               (let n1 = upd_kernel (\<lambda>k. k\<lparr> ki_isSimtOp := True \<rparr>)
                      (SetFusionFailReason SIMT_OP_UNSUPPORT (n0\<lparr> nd_isFusible := False \<rparr>));
                    failed = SetFusionFailReason KERNEL_ATTR_GET_FAILED (n1\<lparr> nd_isFusible := False \<rparr>)
                in (case ke_availDynUbuf env of None \<Rightarrow> failed
                    | Some dyn \<Rightarrow> (case ke_allocUbuf env of None \<Rightarrow> failed
                      | Some alloc \<Rightarrow> upd_kernel (\<lambda>k. k\<lparr> ki_dynUbufSize := dyn,
                          ki_allocUbufSize := ucast alloc, ki_hasDynUbufSize := True,
                          ki_hasAllocUbufSize := True \<rparr>) n1)))
             else n0))"

section \<open>Kernel nodes\<close>

definition task_ratio :: "u64 \<Rightarrow> u32 \<times> u32" where
  "task_ratio r = (scast (ucast (drop_bit 16 r) :: u16), scast (ucast r :: u16))"

text \<open>The steps of \<open>SuperKernelKernelNode::InitNode\<close> between the two attribute queries and the name.\<close>

definition fill_kernel_infos :: "task_params \<Rightarrow> u64 \<Rightarrow> u64 \<Rightarrow> kernel_infos \<Rightarrow> kernel_infos" where
  "fill_kernel_infos tp kt ratio ki =
    (let kp = tp_kernel tp; env = tp_env tp
     in ki\<lparr> ki_taskRatio := task_ratio ratio,
            ki_kernelType := NormalizeKernelType (ucast kt) (task_ratio ratio),
            ki_kernelTypeInt := ucast kt, ki_numBlocks := kp_numBlocks kp,
            ki_devArgs := kp_args kp, ki_opInfoPtr := kp_opInfoPtr kp,
            ki_opInfoSize := kp_opInfoSize kp, ki_launchKernelCfg := kp_cfg kp,
            ki_isScheModeOn := GetScheMode (ke_funcScheMode env) (ke_taskScheMode env) \<rparr>)"

definition name_kernel :: "kernel_env \<Rightarrow> string \<Rightarrow> kernel_infos \<Rightarrow> kernel_infos" where
  "name_kernel env fname ki =
    (let ki1 = ki\<lparr> ki_funcName := fname, ki_needMixKernelSplit := IsMixKernelType (ki_kernelType ki) \<rparr>
     in if ki_needMixKernelSplit ki1 \<and> fname \<noteq> '''' \<and>
           (case ke_ignoreMixSplit env of None \<Rightarrow> False | Some p \<Rightarrow> p fname)
        then ki1\<lparr> ki_needMixKernelSplit := False \<rparr> else ki1)"

definition resolve_kernel :: "kernel_env \<Rightarrow> sk_node \<Rightarrow> sk_node" where
  "resolve_kernel env n =
    (if \<not> nd_isScopeNode n \<and> ki_funcName (nd_kernelInfos n) \<noteq> '''' \<and> ki_binHdl (nd_kernelInfos n) \<noteq> 0
     then (let (ok, ki) = InitKernelResolvedFuncs env (nd_kernelInfos n);
               n1 = n\<lparr> nd_isFusible := ok, nd_kernelInfos := ki \<rparr>
           in if ok then n1 else SetFusionFailBindmap (ki_bindmapFailReason ki) n1)
     else n)"

definition KernelInitNode :: "task_params \<Rightarrow> sk_node \<Rightarrow> bool \<times> sk_node" where
  "KernelInitNode tp n =
    (let env = tp_env tp; (ok, n0) = BaseInitNode tp n in
     if \<not> ok then (False, n0)
     else let n1 = n0\<lparr> nd_nodeType := NODE_KERNEL \<rparr> in
     if \<not> tp_paramsOk tp then (False, n1)
     else let n2 = (case IsScopeKernel env of None \<Rightarrow> n1 | Some i \<Rightarrow> apply_scope_kernel i n1) in
     (case ke_kernelType env of None \<Rightarrow> (False, SetFusionFailReason KERNEL_ATTR_GET_FAILED n2)
      | Some kt \<Rightarrow>
     (case ke_taskRatio env of None \<Rightarrow> (False, SetFusionFailReason KERNEL_ATTR_GET_FAILED n2)
      | Some ratio \<Rightarrow>
        let n3 = upd_kernel (fill_kernel_infos tp kt ratio) n2 in
     (case ke_binHdl env of None \<Rightarrow> (False, n3)
      | Some binHdl \<Rightarrow>
        let n4 = upd_kernel (\<lambda>k. set_core_nums (kp_numBlocks (tp_kernel tp))
               (k\<lparr> ki_binHdl := binHdl, ki_funcHdl := kp_funcHandle (tp_kernel tp) \<rparr>)) n3 in
     (case ke_funcName env of None \<Rightarrow> (False, SetFusionFailReason KERNEL_ATTR_GET_FAILED n4)
      | Some fname \<Rightarrow>
        let n5 = upd_kernel (name_kernel env fname) n4;
            n6 = IdentifyAndHandleSimtKernel env (resolve_kernel env n5)
        in (True, if kp_taskGrp (tp_kernel tp) \<noteq> 0
                  then SetFusionFailReason DYNAMIC_TASK_UNSUPPORT (n6\<lparr> nd_isFusible := False \<rparr>)
                  else n6))))))"

section \<open>Memory and default nodes\<close>

definition upd_sync :: "(sync_infos \<Rightarrow> sync_infos) \<Rightarrow> sk_node \<Rightarrow> sk_node" where
  "upd_sync f n = n\<lparr> nd_syncInfos := f (nd_syncInfos n) \<rparr>"

definition fill_event :: "event_params \<Rightarrow> u64 \<Rightarrow> u32 \<Rightarrow> sync_infos \<Rightarrow> sync_infos" where
  "fill_event ep val wflag s = s\<lparr> sy_eventId := ep_event ep, sy_eventFlag := ep_eventFlag ep,
     sy_eventTaskFlag := ep_taskFlag ep, sy_memoryValue := val, sy_memoryWaitFlag := wflag \<rparr>"

definition check_external :: "sk_node \<Rightarrow> sk_node" where
  "check_external n =
    (if \<not> nd_isFusible n \<or> sy_eventFlag (nd_syncInfos n) AND ACL_EVENT_EXTERNAL \<noteq> 0
     then SetFusionFailReason EXTERNAL_DEPEND (n\<lparr> nd_isFusible := False \<rparr>) else n)"

definition MemoryInitNode :: "task_params \<Rightarrow> sk_node \<Rightarrow> bool \<times> sk_node" where
  "MemoryInitNode tp n =
    (let (ok, n0) = BaseInitNode tp n; ep = tp_event tp; vp = tp_value tp in
     if \<not> ok then (False, n0)
     else if \<not> tp_paramsOk tp then (False, n0)
     else (case nd_rtNodeType n0 of
       RI_TASK_EVENT_RECORD \<Rightarrow>
         (True, check_external (upd_sync (fill_event ep SK_DEFAULT_NOTIFY_VALUE SK_DEFAULT_WRITE_FLAG)
           (n0\<lparr> nd_nodeType := NODE_NOTIFY,
                nd_isFusible := (ep_taskFlag ep = ACL_EVENT_RECORD_DEFAULT) \<rparr>)))
     | RI_TASK_EVENT_WAIT \<Rightarrow>
         (True, check_external (upd_sync (fill_event ep SK_DEFAULT_WAIT_VALUE 1)
           (n0\<lparr> nd_nodeType := NODE_WAIT,
                nd_isFusible := (ep_taskFlag ep = ACL_EVENT_WAIT_DEFAULT) \<rparr>)))
     | RI_TASK_EVENT_RESET \<Rightarrow>
         (True, SetFusionFailReason RESET_TYPE_NODE
           (upd_sync (fill_event ep SK_DEFAULT_RESET_VALUE SK_DEFAULT_WRITE_FLAG)
             (n0\<lparr> nd_nodeType := NODE_RESET, nd_isFusible := False \<rparr>)))
     | RI_TASK_VALUE_WRITE \<Rightarrow>
         (vp_devAddr vp \<noteq> 0, upd_sync (\<lambda>s. s\<lparr> sy_eventId := vp_devAddr vp,
             sy_addrValue := vp_devAddr vp, sy_memoryValue := vp_value vp \<rparr>)
           (n0\<lparr> nd_nodeType := NODE_MEMORY_WRITE \<rparr>))
     | RI_TASK_VALUE_WAIT \<Rightarrow>
         (vp_devAddr vp \<noteq> 0, upd_sync (\<lambda>s. s\<lparr> sy_eventId := vp_devAddr vp,
             sy_addrValue := vp_devAddr vp, sy_memoryValue := vp_value vp,
             sy_memoryWaitFlag := vp_flag vp \<rparr>)
           (n0\<lparr> nd_nodeType := NODE_MEMORY_WAIT \<rparr>))
     | _ \<Rightarrow> (False, SetFusionFailReason UNSUPPORT_EVENT_TYPE (n0\<lparr> nd_isFusible := False \<rparr>))))"

definition DefaultInitNode :: "task_params \<Rightarrow> sk_node \<Rightarrow> bool \<times> sk_node" where
  "DefaultInitNode tp n = (let (ok, n0) = BaseInitNode tp n
     in if \<not> ok then (False, n0) else (True, n0\<lparr> nd_nodeType := NODE_DEFAULT \<rparr>))"

text \<open>The virtual call.\<close>

definition InitNode :: "task_params \<Rightarrow> sk_node \<Rightarrow> bool \<times> sk_node" where
  "InitNode tp n = (case nd_class n of KernelNode \<Rightarrow> KernelInitNode tp n
     | MemoryNode \<Rightarrow> MemoryInitNode tp n | DefaultNode \<Rightarrow> DefaultInitNode tp n)"

end
