(* ===== verification/Sk_Graph_Build.thy ===== *)
theory Sk_Graph_Build
  imports Sk_Graph_Events Sk_Node_Kernel
begin

text \<open>
  The construction of the graph from the runtime's streams (\<^verbatim>\<open>sk_graph.cpp\<close>): the node factory,
  the registration of scope names, the links between consecutive nodes, and the loops over tasks
  and streams. The lemmas show that the result satisfies what the later passes rely on.
\<close>

section \<open>Operations\<close>

definition CreateNode :: "rt_node_type \<Rightarrow> u64 \<Rightarrow> u64 \<Rightarrow> int \<Rightarrow> u64 \<Rightarrow> sk_node" where
  "CreateNode taskType nodeIdx streamIdx streamId pre = (case taskType of
      RI_TASK_KERNEL \<Rightarrow> new_node KernelNode taskType nodeIdx streamIdx streamId pre
    | RI_TASK_EVENT_RECORD \<Rightarrow> new_node MemoryNode taskType nodeIdx streamIdx streamId pre
    | RI_TASK_EVENT_WAIT \<Rightarrow> new_node MemoryNode taskType nodeIdx streamIdx streamId pre
    | RI_TASK_EVENT_RESET \<Rightarrow> new_node MemoryNode taskType nodeIdx streamIdx streamId pre
    | RI_TASK_VALUE_WRITE \<Rightarrow> new_node MemoryNode taskType nodeIdx streamIdx streamId pre
    | RI_TASK_VALUE_WAIT \<Rightarrow> new_node MemoryNode taskType nodeIdx streamIdx streamId pre
    | _ \<Rightarrow> new_node DefaultNode taskType nodeIdx streamIdx streamId pre)"

text \<open>
  The limit is tested before the name is looked up: once it is reached a node of a scope that is
  registered already is marked as well.
\<close>

definition RegisterFusibleScope :: "sk_node \<Rightarrow> sk_graph \<Rightarrow> sk_node \<times> sk_graph" where
  "RegisterFusibleScope n g =
    (if nd_nodeType n = NODE_KERNEL \<and> nd_isScopeNode n \<and> GetScopeName n \<noteq> '''' \<and> nd_isFusible n then
       (if length (sg_scopeNameToIdx g) \<ge> MAX_SCOPE_NUM then
          (SetFusionFailReason EXCEED_SCOPE_MAX (n\<lparr> nd_isFusible := False \<rparr>), g)
        else if map_of (sg_scopeNameToIdx g) (GetScopeName n) = None then
          (let idx = of_nat (length (sg_scopeNameToIdx g)) in
           (n, g\<lparr> sg_scopeNameToIdx := sg_scopeNameToIdx g @ [(GetScopeName n, idx)],
                  sg_scopeIdxToName := AList.update idx (GetScopeName n) (sg_scopeIdxToName g) \<rparr>))
        else (n, g))
     else (n, g))"

definition UpdateNodeRelations :: "node_id \<Rightarrow> nat \<Rightarrow> node_id \<Rightarrow> sk_graph \<Rightarrow> (node_id \<times> sk_graph) run" where
  "UpdateNodeRelations nodeId taskIdx pre g =
    (let g1 = (if taskIdx = 0 then g\<lparr> sg_headNodes := sg_headNodes g @ [nodeId] \<rparr> else g) in
     if pre \<noteq> INVALID_TASK_ID
     then bindR (derefR (sg_graphMap g1 pre)) (\<lambda>_.
            Inr (nodeId, upd_node pre (\<lambda>n. n\<lparr> nd_nextNodeId := nodeId \<rparr>) g1))
     else Inr (nodeId, g1))"

text \<open>A task as the runtime reports it; \<open>None\<close> where a query fails.\<close>

record rt_task =
  rt_type :: "rt_node_type option"
  rt_streamId :: "int option"
  rt_params :: task_params

definition ProcessSingleTask ::
  "rt_task \<Rightarrow> nat \<Rightarrow> nat \<Rightarrow> node_id \<Rightarrow> sk_graph \<Rightarrow> (bool \<times> node_id \<times> sk_graph) run" where
  "ProcessSingleTask task streamIdx taskIdx pre g =
    (case rt_type task of None \<Rightarrow> Inr (False, pre, g)
     | Some ty \<Rightarrow> (case rt_streamId task of None \<Rightarrow> Inr (False, pre, g)
     | Some sid \<Rightarrow>
        (let (ok, n) = InitNode (rt_params task)
               (CreateNode ty (of_nat taskIdx) (of_nat streamIdx) sid pre) in
         if \<not> ok then Inr (False, pre, g)
         else let (n1, g1) = RegisterFusibleScope n g; (added, g2) = AddNode n1 g1 in
         if \<not> added then Inr (False, pre, g2)
         else bindR (UpdateNodeRelations (nd_nodeId n1) taskIdx pre g2) (\<lambda>(pre', g3).
           Inr (True, pre', g3)))))"

fun process_tasks ::
  "rt_task list \<Rightarrow> nat \<Rightarrow> nat \<Rightarrow> node_id \<Rightarrow> sk_graph \<Rightarrow> (bool \<times> sk_graph) run" where
  "process_tasks [] streamIdx taskIdx pre g = Inr (True, g)"
| "process_tasks (t # ts) streamIdx taskIdx pre g =
    bindR (ProcessSingleTask t streamIdx taskIdx pre g) (\<lambda>(ok, pre', g').
      if ok then process_tasks ts streamIdx (Suc taskIdx) pre' g' else Inr (False, g'))"

text \<open>The streams' task lists; \<open>None\<close> where the query for the tasks of a stream fails.\<close>

fun process_streams :: "rt_task list option list \<Rightarrow> nat \<Rightarrow> sk_graph \<Rightarrow> (bool \<times> sk_graph) run" where
  "process_streams [] streamIdx g = Inr (True, g)"
| "process_streams (None # ss) streamIdx g = Inr (False, g)"
| "process_streams (Some ts # ss) streamIdx g =
    bindR (process_tasks ts streamIdx 0 INVALID_TASK_ID
        (g\<lparr> sg_nodeSizeInStream := sg_nodeSizeInStream g @ [of_nat (length ts)] \<rparr>)) (\<lambda>(ok, g').
      if ok then process_streams ss (Suc streamIdx) g' else Inr (False, g'))"

definition ProcessAllStreamsAndTasks :: "rt_task list option list \<Rightarrow> sk_graph \<Rightarrow> (bool \<times> sk_graph) run" where
  "ProcessAllStreamsAndTasks streams g = process_streams streams 0 g"

section \<open>Initialised nodes\<close>

text \<open>What \<open>InitNode\<close> leaves alone: the class and the position given by the factory.\<close>

definition same_place :: "sk_node \<Rightarrow> sk_node \<Rightarrow> bool" where
  "same_place n m \<longleftrightarrow> nd_class m = nd_class n \<and> nd_streamIdxInGraph m = nd_streamIdxInGraph n \<and>
     nd_nodeIdxInStream m = nd_nodeIdxInStream n \<and> nd_preNodeId m = nd_preNodeId n \<and>
     nd_nextNodeId m = nd_nextNodeId n \<and> nd_rtNodeType m = nd_rtNodeType n \<and>
     nd_streamId m = nd_streamId n \<and> nd_sendToNodeId m = nd_sendToNodeId n \<and>
     nd_receiveNodeId m = nd_receiveNodeId n"

definition same_kind :: "sk_node \<Rightarrow> sk_node \<Rightarrow> bool" where
  "same_kind n m \<longleftrightarrow> same_place n m \<and> nd_nodeId m = nd_nodeId n \<and> nd_nodeType m = nd_nodeType n"

lemma same_kind_trans: "same_kind a b \<Longrightarrow> same_kind b c \<Longrightarrow> same_kind a c"
  by (simp add: same_kind_def same_place_def)

lemma same_kind_refl [simp]: "same_kind n n"
  by (simp add: same_kind_def same_place_def)

lemma same_kind_kernel_steps:
  "same_kind n (upd_kernel f n)"
  "same_kind n (SetFusionFailReason r n)"
  "same_kind n (SetFusionFailBindmap b n)"
  "same_kind n (n\<lparr> nd_isFusible := x \<rparr>)"
  "same_kind n (apply_scope_kernel i n)"
  by (simp_all add: same_kind_def same_place_def upd_kernel_def fail_reason_defs
      apply_scope_kernel_def)

lemma same_kind_simt: "same_kind n (IdentifyAndHandleSimtKernel env n)"
  by (auto simp: IdentifyAndHandleSimtKernel_def Let_def same_kind_def same_place_def
      upd_kernel_def fail_reason_defs split: option.split)

lemma same_kind_resolve: "same_kind n (resolve_kernel env n)"
  by (auto simp: resolve_kernel_def Let_def same_kind_def same_place_def fail_reason_defs
      split: prod.split)

lemma BaseInitNode_ok:
  assumes "BaseInitNode tp n = (True, m)"
  shows "same_place n m" and "nd_nodeType m = nd_nodeType n" and "nd_nodeId m \<noteq> INVALID_TASK_ID"
proof -
  obtain s where s: "m = n\<lparr> nd_nodeId := ucast (s :: u32) \<rparr>"
    using assms by (auto simp: BaseInitNode_def split: option.splits)
  show "same_place n m" "nd_nodeType m = nd_nodeType n" unfolding s same_place_def by simp_all
  have "\<not> bit (ucast s :: u64) 63" by (auto simp: bit_simps dest: bit_imp_le_length)
  moreover have "bit INVALID_TASK_ID 63" by (simp add: INVALID_TASK_ID_def)
  ultimately show "nd_nodeId m \<noteq> INVALID_TASK_ID" unfolding s by auto
qed

text \<open>A successful initialisation of a kernel node passes through these stages.\<close>

definition kernel_named :: "task_params \<Rightarrow> u64 \<Rightarrow> u64 \<Rightarrow> u64 \<Rightarrow> string \<Rightarrow> sk_node \<Rightarrow> sk_node" where
  "kernel_named tp kt ratio binHdl fname n0 =
    (let n1 = n0\<lparr> nd_nodeType := NODE_KERNEL \<rparr>;
         n2 = (case IsScopeKernel (tp_env tp) of None \<Rightarrow> n1 | Some i \<Rightarrow> apply_scope_kernel i n1)
     in upd_kernel (name_kernel (tp_env tp) fname)
          (upd_kernel (\<lambda>k. set_core_nums (kp_numBlocks (tp_kernel tp))
               (k\<lparr> ki_binHdl := binHdl, ki_funcHdl := kp_funcHandle (tp_kernel tp) \<rparr>))
            (upd_kernel (fill_kernel_infos tp kt ratio) n2)))"

lemma KernelInitNode_cases:
  assumes "KernelInitNode tp n = (True, m)"
  obtains n0 kt ratio binHdl fname where
    "BaseInitNode tp n = (True, n0)" and "ke_kernelType (tp_env tp) = Some kt"
    and "m = (let n6 = IdentifyAndHandleSimtKernel (tp_env tp)
            (resolve_kernel (tp_env tp) (kernel_named tp kt ratio binHdl fname n0))
          in if kp_taskGrp (tp_kernel tp) \<noteq> 0
             then SetFusionFailReason DYNAMIC_TASK_UNSUPPORT (n6\<lparr> nd_isFusible := False \<rparr>) else n6)"
  using assms unfolding KernelInitNode_def kernel_named_def Let_def
  by (auto split: prod.splits if_splits option.splits)

lemma same_kind_named:
  "same_kind (n0\<lparr> nd_nodeType := NODE_KERNEL \<rparr>) (kernel_named tp kt ratio binHdl fname n0)"
  unfolding kernel_named_def Let_def
  by (auto intro!: same_kind_trans[OF _ same_kind_kernel_steps(1)]
      same_kind_kernel_steps split: option.split)

lemma KernelInitNode_ok:
  assumes "KernelInitNode tp n = (True, m)"
  shows "same_place n m \<and> nd_nodeType m = NODE_KERNEL \<and> nd_nodeId m \<noteq> INVALID_TASK_ID"
  using assms
proof (cases rule: KernelInitNode_cases)
  case (1 n0 kt ratio binHdl fname)
  define n6 where "n6 = IdentifyAndHandleSimtKernel (tp_env tp)
            (resolve_kernel (tp_env tp) (kernel_named tp kt ratio binHdl fname n0))"
  have "same_kind (n0\<lparr> nd_nodeType := NODE_KERNEL \<rparr>) n6"
    unfolding n6_def
    by (rule same_kind_trans[OF same_kind_trans[OF same_kind_named same_kind_resolve] same_kind_simt])
  moreover have "same_kind n6 m"
    unfolding 1(3) n6_def[symmetric] Let_def by (simp add: same_kind_def same_place_def fail_reason_defs)
  ultimately have "same_kind (n0\<lparr> nd_nodeType := NODE_KERNEL \<rparr>) m" by (rule same_kind_trans)
  then show ?thesis using BaseInitNode_ok[OF 1(1)] by (simp add: same_kind_def same_place_def)
qed

lemma MemoryInitNode_ok:
  assumes "MemoryInitNode tp n = (True, m)"
  shows "same_place n m \<and> nd_nodeId m \<noteq> INVALID_TASK_ID \<and> nd_nodeType m \<in>
    {NODE_NOTIFY, NODE_WAIT, NODE_RESET, NODE_MEMORY_WRITE, NODE_MEMORY_WAIT}"
proof -
  obtain n0 where n0: "BaseInitNode tp n = (True, n0)"
    using assms by (auto simp: MemoryInitNode_def Let_def split: prod.splits if_splits)
  show ?thesis using assms BaseInitNode_ok[OF n0] n0
    by (auto simp: MemoryInitNode_def Let_def same_place_def check_external_def upd_sync_def
        fail_reason_defs split: rt_node_type.splits if_splits)
qed

lemma DefaultInitNode_ok:
  assumes "DefaultInitNode tp n = (True, m)"
  shows "same_place n m \<and> nd_nodeId m \<noteq> INVALID_TASK_ID \<and> nd_nodeType m = NODE_DEFAULT"
proof -
  obtain n0 where n0: "BaseInitNode tp n = (True, n0)"
    using assms by (auto simp: DefaultInitNode_def Let_def split: prod.splits if_splits)
  show ?thesis using assms BaseInitNode_ok[OF n0] n0
    by (auto simp: DefaultInitNode_def same_place_def)
qed

text \<open>
  A node that \<open>InitNode\<close> accepts keeps the place the factory gave it, has a valid id, and has a
  type that fits its class.
\<close>

lemma InitNode_well_formed:
  assumes "InitNode tp (CreateNode ty idx sidx sid pre) = (True, n)"
  shows "nd_nodeId n \<noteq> INVALID_TASK_ID \<and> node_class_ok n \<and> nd_nodeIdxInStream n = idx \<and>
    nd_streamIdxInGraph n = ucast sidx \<and> nd_preNodeId n = pre \<and> nd_nextNodeId n = INVALID_TASK_ID \<and>
    nd_sendToNodeId n = {} \<and> nd_receiveNodeId n = {}"
proof -
  have place: "nd_nodeIdxInStream c = idx \<and> nd_streamIdxInGraph c = ucast sidx \<and>
      nd_preNodeId c = pre \<and> nd_nextNodeId c = INVALID_TASK_ID \<and>
      nd_sendToNodeId c = {} \<and> nd_receiveNodeId c = {}"
    if "c = CreateNode ty idx sidx sid pre" for c
    unfolding that by (simp add: CreateNode_def new_node_def split: rt_node_type.split)
  define c where "c = CreateNode ty idx sidx sid pre"
  show ?thesis
  proof (cases "nd_class c")
    case KernelNode
    then have "KernelInitNode tp c = (True, n)" using assms by (simp add: InitNode_def c_def)
    from KernelInitNode_ok[OF this] KernelNode place[OF c_def] show ?thesis
      by (simp add: same_place_def node_class_ok_def)
  next
    case MemoryNode
    then have "MemoryInitNode tp c = (True, n)" using assms by (simp add: InitNode_def c_def)
    from MemoryInitNode_ok[OF this] MemoryNode place[OF c_def] show ?thesis
      by (auto simp: same_place_def node_class_ok_def)
  next
    case DefaultNode
    then have "DefaultInitNode tp c = (True, n)" using assms by (simp add: InitNode_def c_def)
    from DefaultInitNode_ok[OF this] DefaultNode place[OF c_def] show ?thesis
      by (simp add: same_place_def node_class_ok_def)
  qed
qed

section \<open>The graph the loops build\<close>

definition build_ok :: "sk_graph \<Rightarrow> bool" where
  "build_ok g \<longleftrightarrow> graph_ok g \<and> streams_linked g \<and> events_ok g \<and> memory_table_ok g \<and> edges_ok g \<and>
     sg_graphMap g INVALID_TASK_ID = None"

text \<open>The last node of the stream under construction, after \<open>k\<close> tasks.\<close>

definition open_end :: "sk_graph \<Rightarrow> node_id \<Rightarrow> u32 \<Rightarrow> nat \<Rightarrow> bool" where
  "open_end g pre s k \<longleftrightarrow> (if k = 0 then pre = INVALID_TASK_ID else pre \<noteq> INVALID_TASK_ID \<and>
     (\<exists>n. GetNodeById g pre = Some n \<and> nd_nextNodeId n = INVALID_TASK_ID \<and>
        nd_streamIdxInGraph n = s \<and> Suc (unat (nd_nodeIdxInStream n)) = k))"

text \<open>The predicates look at four fields of the graph only.\<close>

lemma build_ok_cong:
  assumes "sg_graphMap h = sg_graphMap g" and "sg_nodeIds h = sg_nodeIds g"
    and "sg_eventToNodes h = sg_eventToNodes g" and "sg_memoryToNodes h = sg_memoryToNodes g"
  shows "build_ok h = build_ok g" and "open_end h pre s k = open_end g pre s k"
proof -
  have get: "GetNodeById h = GetNodeById g" using assms(1) by (auto simp: GetNodeById_def)
  show "open_end h pre s k = open_end g pre s k" using get by (simp add: open_end_def)
  have "streams_linked h = streams_linked g" "edges_ok h = edges_ok g"
    using get by (simp_all add: streams_linked_def node_linked_def edges_ok_def sends_def
        receives_def found_kernel_def)
  moreover have "events_ok h = events_ok g" "memory_table_ok h = memory_table_ok g"
    using get assms(3,4) by (simp_all add: events_ok_def event_entry_ok_def event_node_def
        memory_table_ok_def memory_ok_def memory_entry_ok_def sync_node_def)
  ultimately show "build_ok h = build_ok g"
    using assms(1,2) by (simp add: build_ok_def graph_ok_def)
qed

lemma RegisterFusibleScope_same:
  assumes "RegisterFusibleScope n g = (m, h)"
  shows "same_kind n m" and "GetEventId m = GetEventId n"
    and "sg_graphMap h = sg_graphMap g" and "sg_nodeIds h = sg_nodeIds g"
    and "sg_eventToNodes h = sg_eventToNodes g" and "sg_memoryToNodes h = sg_memoryToNodes g"
    and "sg_nodeSizeInStream h = sg_nodeSizeInStream g" and "sg_headNodes h = sg_headNodes g"
  using assms by (auto simp: RegisterFusibleScope_def Let_def same_kind_def same_place_def
      fail_reason_defs GetEventId_def split: if_splits node_class.splits)

text \<open>Linking the new node to the end of its stream.\<close>

definition node_added :: "sk_graph \<Rightarrow> sk_node \<Rightarrow> sk_graph \<Rightarrow> bool" where
  "node_added g n h \<longleftrightarrow> GetNodeById g (nd_nodeId n) = None \<and> nd_nodeId n \<noteq> INVALID_TASK_ID \<and>
     nd_nextNodeId n = INVALID_TASK_ID \<and> nd_sendToNodeId n = {} \<and> nd_receiveNodeId n = {} \<and>
     GetNodeById h = (GetNodeById g)(nd_nodeId n \<mapsto> n)"

lemma added_linked:
  assumes g: "streams_linked g" and add: "node_added g n h"
    and pre: "open_end g (nd_preNodeId n) (nd_streamIdxInGraph n) k"
    and k: "unat (nd_nodeIdxInStream n) = k" and inv: "GetNodeById g INVALID_TASK_ID = None"
  shows "streams_linked (upd_node (nd_preNodeId n) (\<lambda>m. m\<lparr> nd_nextNodeId := nd_nodeId n \<rparr>) h)"
proof -
  let ?i = "nd_nodeId n" and ?p = "nd_preNodeId n"
  let ?h' = "upd_node ?p (\<lambda>m. m\<lparr> nd_nextNodeId := ?i \<rparr>) h"
  have h: "GetNodeById h = (GetNodeById g)(?i \<mapsto> n)" and fresh: "GetNodeById g ?i = None"
    using add by (simp_all add: node_added_def)
  have pi: "?p \<noteq> ?i"
  proof (cases "k = 0")
    case True
    then show ?thesis using pre add by (auto simp: open_end_def node_added_def)
  next
    case False
    then show ?thesis using pre fresh by (auto simp: open_end_def)
  qed
  have upd: "GetNodeById ?h' j = (if j = ?i then Some n
      else if j = ?p then map_option (\<lambda>m. m\<lparr> nd_nextNodeId := ?i \<rparr>) (GetNodeById g j)
      else GetNodeById g j)" for j
    using h pi by simp
  show ?thesis unfolding streams_linked_def
  proof (intro allI impI)
    fix j m assume m: "GetNodeById ?h' j = Some m"
    have cases3: "(j = ?i \<and> m = n) \<or> (\<exists>l. j \<noteq> ?i \<and> j = ?p \<and> GetNodeById g ?p = Some l \<and>
        m = l\<lparr> nd_nextNodeId := ?i \<rparr>) \<or> (j \<noteq> ?i \<and> j \<noteq> ?p \<and> GetNodeById g j = Some m)"
      using m unfolding upd by (auto split: if_splits)
    have last_node: "k \<noteq> 0 \<and> nd_streamIdxInGraph l = nd_streamIdxInGraph n \<and>
          Suc (unat (nd_nodeIdxInStream l)) = k \<and> nd_nextNodeId l = INVALID_TASK_ID"
      if "GetNodeById g ?p = Some l" for l
      using pre that inv by (cases "k = 0") (auto simp: open_end_def)
    consider (new) "j = ?i" "m = n"
      | (last) l where "j \<noteq> ?i" "j = ?p" "GetNodeById g ?p = Some l" "m = l\<lparr> nd_nextNodeId := ?i \<rparr>"
      | (old) "j \<noteq> ?i" "j \<noteq> ?p" "GetNodeById g j = Some m"
      using cases3 by blast
    then show "node_linked ?h' j m"
    proof cases
      case new
      have "?p \<noteq> INVALID_TASK_ID \<Longrightarrow> k \<noteq> 0" using pre by (simp add: open_end_def split: if_splits)
      then show ?thesis using new add pre k pi unfolding node_linked_def upd
        by (auto simp: open_end_def node_added_def)
    next
      case (last l)
      note l = last_node[OF last(3)]
      have "node_linked g ?p l" using g last(3) by (simp add: streams_linked_def)
      moreover have "nd_preNodeId l \<noteq> ?p" if "nd_preNodeId l \<noteq> INVALID_TASK_ID"
        using \<open>node_linked g ?p l\<close> that last(3) l inv by (auto simp: node_linked_def)
      ultimately show ?thesis using last l k fresh pi unfolding node_linked_def upd by auto
    next
      case old
      have linked: "node_linked g j m" using g old(3) by (simp add: streams_linked_def)
      have "j \<noteq> INVALID_TASK_ID" using old(3) inv by auto
      then have "nd_preNodeId m \<noteq> ?p" if "nd_preNodeId m \<noteq> INVALID_TASK_ID"
        using linked that last_node by (auto simp: node_linked_def)
      then show ?thesis using linked old fresh unfolding node_linked_def upd by auto
    qed
  qed
qed

lemma upd_next_same:
  fixes h i p
  defines "h' \<equiv> upd_node p (\<lambda>m. m\<lparr> nd_nextNodeId := i \<rparr>) h"
  shows "events_ok h' = events_ok h" and "memory_table_ok h' = memory_table_ok h"
    and "edges_ok h' = edges_ok h" and "graph_ok h' = graph_ok h"
proof -
  have ev: "GetEventId (m\<lparr> nd_nextNodeId := i \<rparr>) = GetEventId m" for m
    by (simp add: GetEventId_def split: node_class.split)
  have "event_node h' = event_node h" "sync_node h' = sync_node h"
    by (auto simp: h'_def event_node_def sync_node_def fun_eq_iff ev)
  then show "events_ok h' = events_ok h" "memory_table_ok h' = memory_table_ok h"
    by (simp_all add: h'_def events_ok_def event_entry_ok_def memory_table_ok_def memory_ok_def
        memory_entry_ok_def)
  have "sends h' = sends h" "receives h' = receives h" "found_kernel h' = found_kernel h"
    by (auto simp: h'_def sends_def receives_def found_kernel_def fun_eq_iff)
  then show "edges_ok h' = edges_ok h" by (simp add: edges_ok_def)
  show "graph_ok h' = graph_ok h"
    unfolding h'_def graph_ok_def graphMap_upd_node by (auto simp: dom_def split: if_splits)
qed

lemma AddNode_edges:
  assumes "edges_ok g" and "node_added g n h"
  shows "edges_ok h"
proof -
  have "sends h s r = sends g s r" "receives h r s = receives g r s" for s r
    using assms(2) by (auto simp: node_added_def sends_def receives_def)
  moreover have "found_kernel h i" if "found_kernel g i" for i
    using that assms(2) by (auto simp: node_added_def found_kernel_def)
  ultimately show ?thesis using assms(1) by (auto simp: edges_ok_def)
qed

lemma link_new_node:
  assumes g: "build_ok g" and pre: "open_end g (nd_preNodeId n) (nd_streamIdxInGraph n) k"
    and n: "node_class_ok n" "unat (nd_nodeIdxInStream n) = k" "nd_nextNodeId n = INVALID_TASK_ID"
      "nd_sendToNodeId n = {}" "nd_receiveNodeId n = {}" "nd_nodeId n \<noteq> INVALID_TASK_ID"
    and add: "AddNode n g = (True, h)"
  shows "\<exists>h'. UpdateNodeRelations (nd_nodeId n) k (nd_preNodeId n) h = Inr (nd_nodeId n, h') \<and>
    build_ok h' \<and> open_end h' (nd_nodeId n) (nd_streamIdxInGraph n) (Suc k)"
proof -
  let ?p = "nd_preNodeId n" and ?i = "nd_nodeId n"
  note new = AddNode_success[OF add]
  have inv: "GetNodeById g INVALID_TASK_ID = None" using g by (simp add: build_ok_def GetNodeById_def)
  have added: "node_added g n h" using new n by (auto simp: node_added_def GetNodeById_def)
  define h1 where "h1 = (if k = 0 then h\<lparr> sg_headNodes := sg_headNodes h @ [?i] \<rparr> else h)"
  define h' where "h' = upd_node ?p (\<lambda>m. m\<lparr> nd_nextNodeId := ?i \<rparr>) h1"
  have h1: "sg_graphMap h1 = sg_graphMap h" "sg_nodeIds h1 = sg_nodeIds h"
    "sg_eventToNodes h1 = sg_eventToNodes h" "sg_memoryToNodes h1 = sg_memoryToNodes h"
    by (simp_all add: h1_def)
  have added1: "node_added g n h1" using added h1(1) by (simp add: node_added_def GetNodeById_def fun_eq_iff)
  have "build_ok h'"
    unfolding build_ok_def
  proof (intro conjI)
    have "graph_ok h" using graph_ok_AddNode[OF _ add] g by (simp add: build_ok_def)
    then have "graph_ok h1" using h1 by (simp add: graph_ok_def)
    then show "graph_ok h'" unfolding h'_def upd_next_same .
    show "streams_linked h'" unfolding h'_def
      using added_linked[OF _ added1 pre n(2) inv] g by (simp add: build_ok_def)
    have "events_ok h" using AddNode_events_ok[OF _ n(1) add] g by (simp add: build_ok_def)
    then have "events_ok h1" using h1
      by (simp add: events_ok_def event_entry_ok_def event_node_def GetNodeById_def)
    then show "events_ok h'" unfolding h'_def upd_next_same .
    have "memory_table_ok h" using AddNode_memory_ok[OF _ n(1) add] g by (simp add: build_ok_def)
    then have "memory_table_ok h1" using h1
      by (simp add: memory_table_ok_def memory_ok_def memory_entry_ok_def sync_node_def GetNodeById_def)
    then show "memory_table_ok h'" unfolding h'_def upd_next_same .
    show "edges_ok h'" unfolding h'_def upd_next_same
      using AddNode_edges[OF _ added1] g by (simp add: build_ok_def)
    show "sg_graphMap h' INVALID_TASK_ID = None"
      using added1 inv n(6) by (simp add: h'_def graphMap_upd_node node_added_def GetNodeById_def fun_eq_iff)
  qed
  moreover have get1: "GetNodeById h1 = (GetNodeById g)(?i \<mapsto> n)" using added1 by (simp add: node_added_def)
  have pi: "?p \<noteq> ?i"
    using pre n(6) added by (auto simp: open_end_def node_added_def split: if_splits)
  have "UpdateNodeRelations ?i k ?p h = Inr (?i, h')"
  proof (cases "?p = INVALID_TASK_ID")
    case True
    then have "h' = h1" unfolding h'_def upd_node_def using get1 inv n(6)
      by (simp add: GetNodeById_def fun_eq_iff)
    then show ?thesis using True by (simp add: UpdateNodeRelations_def h1_def)
  next
    case False
    then obtain l where "GetNodeById g ?p = Some l" using pre by (auto simp: open_end_def split: if_splits)
    then have "sg_graphMap h1 ?p = Some l" using get1 pi by (simp add: GetNodeById_def fun_eq_iff)
    then show ?thesis using False by (simp add: UpdateNodeRelations_def h1_def h'_def Let_def)
  qed
  moreover have "open_end h' ?i (nd_streamIdxInGraph n) (Suc k)"
    using get1 pi n by (simp add: open_end_def h'_def)
  ultimately show ?thesis by blast
qed

lemma ProcessSingleTask_ok:
  assumes g: "build_ok g" and pre: "open_end g pre (of_nat streamIdx) k" and k: "k < 2 ^ 32"
    and s: "streamIdx < 2 ^ 32"
  shows "\<exists>ok pre' h. ProcessSingleTask t streamIdx k pre g = Inr (ok, pre', h) \<and>
    (ok \<longrightarrow> build_ok h \<and> open_end h pre' (of_nat streamIdx) (Suc k))"
proof (cases "rt_type t = None \<or> rt_streamId t = None")
  case True
  then show ?thesis by (auto simp: ProcessSingleTask_def split: option.split)
next
  case False
  then obtain ty sid where t: "rt_type t = Some ty" "rt_streamId t = Some sid" by auto
  obtain ok n where init: "InitNode (rt_params t)
      (CreateNode ty (of_nat k) (of_nat streamIdx) sid pre) = (ok, n)" by fastforce
  obtain m g1 where reg: "RegisterFusibleScope n g = (m, g1)" by fastforce
  obtain added h where add: "AddNode m g1 = (added, h)" by fastforce
  show ?thesis
  proof (cases "ok \<and> added")
    case False
    then show ?thesis using t init reg add by (auto simp: ProcessSingleTask_def Let_def)
  next
    case True
    have n: "nd_nodeId n \<noteq> INVALID_TASK_ID \<and> node_class_ok n \<and> nd_nodeIdxInStream n = of_nat k \<and>
        nd_streamIdxInGraph n = ucast (of_nat streamIdx :: u64) \<and> nd_preNodeId n = pre \<and>
        nd_nextNodeId n = INVALID_TASK_ID \<and> nd_sendToNodeId n = {} \<and> nd_receiveNodeId n = {}"
      by (rule InitNode_well_formed[OF init[unfolded conjunct1[OF True, THEN eqTrueI]]])
    note m = RegisterFusibleScope_same[OF reg]
    have cast: "ucast (of_nat streamIdx :: u64) = (of_nat streamIdx :: u32)"
      using s by (simp add: unsigned_of_nat take_bit_nat_eq_self)
    have mk: "nd_nodeId m = nd_nodeId n" "nd_preNodeId m = pre" "nd_streamIdxInGraph m = of_nat streamIdx"
      "node_class_ok m" "nd_nextNodeId m = INVALID_TASK_ID" "nd_nodeIdxInStream m = of_nat k"
      "nd_sendToNodeId m = {}" "nd_receiveNodeId m = {}"
      using m(1) n cast by (auto simp: same_kind_def same_place_def node_class_ok_def)
    have g1: "build_ok g1" "open_end g1 pre (of_nat streamIdx) k"
      using g pre build_ok_cong[OF m(3-6)] by simp_all
    have "unat (of_nat k :: u64) = k" using k by (simp add: unat_of_nat)
    then have "\<exists>h'. UpdateNodeRelations (nd_nodeId m) k pre h = Inr (nd_nodeId m, h') \<and>
        build_ok h' \<and> open_end h' (nd_nodeId m) (of_nat streamIdx) (Suc k)"
      using link_new_node[of g1 m k h] g1 mk n add True by simp
    then show ?thesis using t init reg add True by (auto simp: ProcessSingleTask_def Let_def)
  qed
qed

lemma process_tasks_ok:
  assumes "build_ok g" and "open_end g pre (of_nat streamIdx) k" and "k + length ts \<le> 2 ^ 32"
    and "streamIdx < 2 ^ 32"
  shows "\<exists>ok h. process_tasks ts streamIdx k pre g = Inr (ok, h) \<and> (ok \<longrightarrow> build_ok h)"
  using assms(1-3)
proof (induction ts arbitrary: k pre g)
  case (Cons t ts)
  then obtain ok pre' h where h: "ProcessSingleTask t streamIdx k pre g = Inr (ok, pre', h)"
    "ok \<longrightarrow> build_ok h \<and> open_end h pre' (of_nat streamIdx) (Suc k)"
    using ProcessSingleTask_ok[OF Cons.prems(1,2) _ assms(4), of t] by auto
  show ?case
  proof (cases ok)
    case True
    then show ?thesis using Cons.IH[of h pre' "Suc k"] Cons.prems(3) h by simp
  next
    case False
    then show ?thesis using h(1) by (intro exI[of _ False]) simp
  qed
qed auto

lemma process_streams_ok:
  assumes "build_ok g" and "\<forall>ts. Some ts \<in> set ss \<longrightarrow> length ts \<le> 2 ^ 32"
    and "streamIdx + length ss \<le> 2 ^ 32"
  shows "\<exists>ok h. process_streams ss streamIdx g = Inr (ok, h) \<and> (ok \<longrightarrow> build_ok h)"
  using assms
proof (induction ss arbitrary: streamIdx g)
  case (Cons s ss)
  show ?case
  proof (cases s)
    case (Some ts)
    let ?g = "g\<lparr> sg_nodeSizeInStream := sg_nodeSizeInStream g @ [of_nat (length ts)] \<rparr>"
    have "build_ok ?g" using build_ok_cong(1)[of ?g g] Cons.prems(1) by simp
    then obtain ok h where "process_tasks ts streamIdx 0 INVALID_TASK_ID ?g = Inr (ok, h)"
      "ok \<longrightarrow> build_ok h"
      using process_tasks_ok[of ?g INVALID_TASK_ID streamIdx 0 ts] Cons.prems(2,3) Some
      by (auto simp: open_end_def)
    then show ?thesis using Cons.IH[of h "Suc streamIdx"] Cons.prems(2,3) Some
      by (cases ok) (simp, intro exI[of _ False], simp)
  next
    case None
    then show ?thesis by (intro exI[of _ False]) simp
  qed
qed auto

lemma build_ok_empty: "build_ok empty_graph"
  by (simp add: build_ok_def empty_graph_def graph_ok_def streams_linked_def events_ok_def
      memory_table_ok_def memory_ok_def edges_ok_def sends_def receives_def GetNodeById_def)

text \<open>
  \<^bold>\<open>Building the graph.\<close> Reading the streams of a model never dereferences a null pointer,
  and when it succeeds the graph is well formed: every node is stored under its own id, \<open>next\<close>
  and \<open>pre\<close> are inverse and step by one position inside a stream, the event and memory tables
  name existing nodes of the right kind, and no kernel edge exists yet.
\<close>

theorem ProcessAllStreamsAndTasks_builds:
  assumes "\<forall>ts. Some ts \<in> set streams \<longrightarrow> length ts \<le> 2 ^ 32" and "length streams \<le> 2 ^ 32"
  shows "\<exists>ok h. ProcessAllStreamsAndTasks streams empty_graph = Inr (ok, h) \<and>
    (ok \<longrightarrow> graph_ok h \<and> streams_linked h \<and> events_ok h \<and> memory_ok h \<and> edges_ok h)"
  using process_streams_ok[OF build_ok_empty assms(1), of 0] assms(2)
  by (auto simp: ProcessAllStreamsAndTasks_def build_ok_def memory_table_ok_def)

end
