(* ===== verification/Sk_Graph_Scope.thy ===== *)
theory Sk_Graph_Scope
  imports Sk_Graph_Build
begin

text \<open>
  The scopes of the graph (\<^verbatim>\<open>sk_graph.cpp\<close>): the stack of open scopes, the pass that gives every
  node the set of fusible scopes it lies in and marks the nodes that may not be fused
  (\<^verbatim>\<open>UpdateNodeScopeBitFlags\<close>), and the grouping of the nodes into the original scopes
  (\<^verbatim>\<open>ParseOriginalScopes\<close>). A bitset is the set of its set positions; setting a position past its
  size throws, which is the fault \<open>OutOfRange\<close>.
\<close>

section \<open>The stack of open scopes\<close>

record scope_entry =
  se_scopeIdx :: u32
  se_scopeName :: string
  se_isFusible :: bool
  se_failReason :: fusion_fail_info

definition MAX_SCOPE_IDX :: u32 where
  "MAX_SCOPE_IDX = 1024"

definition set_flag :: "u32 \<Rightarrow> nat set \<Rightarrow> nat set run" where
  "set_flag i flags = (if unat i < MAX_SCOPE_NUM then Inr (insert (unat i) flags) else Inl OutOfRange)"

text \<open>The stack is the vector of the code: the top is the last element.\<close>

definition ComputeScopeBitFlags :: "scope_entry list \<Rightarrow> nat set run" where
  "ComputeScopeBitFlags st =
     foldR (\<lambda>e flags. if se_isFusible e then set_flag (se_scopeIdx e) flags else Inr flags) st {}"

definition GetUnfusibleScopeFailReason :: "scope_entry list \<Rightarrow> fusion_fail_info" where
  "GetUnfusibleScopeFailReason st = (case List.find (\<lambda>e. \<not> se_isFusible e) (rev st) of
     None \<Rightarrow> default_fail_info | Some e \<Rightarrow> se_failReason e)"

definition GetScopeIdx :: "sk_node \<Rightarrow> (string \<times> u32) list \<Rightarrow> u32" where
  "GetScopeIdx n tab = (if nd_isFusible n then
     (case map_of tab (GetScopeName n) of None \<Rightarrow> MAX_SCOPE_IDX | Some i \<Rightarrow> i)
     else MAX_SCOPE_IDX)"

fun pop_from :: "nat \<Rightarrow> string \<Rightarrow> scope_entry list \<Rightarrow> bool \<times> scope_entry list" where
  "pop_from 0 name st = (False, st)"
| "pop_from (Suc i) name st = (if se_scopeName (st ! i) = name
     then (True, take i st @ drop (Suc i) st) else pop_from i name st)"

definition PopScopeByName :: "string \<Rightarrow> scope_entry list \<Rightarrow> bool \<times> scope_entry list" where
  "PopScopeByName name st = pop_from (length st) name st"

definition ProcessScopeBegin :: "sk_node \<Rightarrow> (string \<times> u32) list \<Rightarrow> scope_entry list \<Rightarrow> scope_entry list" where
  "ProcessScopeBegin n tab st =
    (let fus = nd_isFusible n;
         r = (if fus then default_fail_info else nd_fusionFailReason n);
         r' = (if \<not> fus \<and> ff_primary r = CAN_FUSE then fail_of_reason IN_UNFUSIBLE_SCOPE else r)
     in st @ [\<lparr> se_scopeIdx = GetScopeIdx n tab, se_scopeName = GetScopeName n,
                se_isFusible = fus, se_failReason = r' \<rparr>])"

definition ProcessScopeEnd :: "sk_node \<Rightarrow> scope_entry list \<Rightarrow> scope_entry list" where
  "ProcessScopeEnd n st = snd (PopScopeByName (GetScopeName n) st)"

section \<open>Scope flags of the nodes\<close>

text \<open>The marks a node that does not end a scope gets from the stack it sees.\<close>

definition mark_in_scope :: "bool \<Rightarrow> scope_entry list \<Rightarrow> nat set \<Rightarrow> sk_node \<Rightarrow> sk_node" where
  "mark_in_scope outFusible st flags n =
    (let n1 = n\<lparr> nd_scopeBitFlags := flags \<rparr>;
         n2 = (if \<not> outFusible \<and> st = []
               then SetFusionFailReason NOT_IN_SCOPE (n1\<lparr> nd_isFusible := False \<rparr>) else n1);
         r = GetUnfusibleScopeFailReason st
     in if \<not> nd_isScopeNode n2 \<and> ff_primary r \<noteq> CAN_FUSE
        then n2\<lparr> nd_isFusible := False, nd_fusionFailReason := r \<rparr> else n2)"

definition scope_fusible :: "sk_node \<Rightarrow> sk_node" where
  "scope_fusible n = (if nd_isScopeNode n then n\<lparr> nd_isFusible := True \<rparr> else n)"

text \<open>
  The stack a node leaves and the node it becomes. The code marks a node unless it ends a scope, so
  a node that did both begin and end one would be pushed and keep its flags.
\<close>

definition scope_step ::
  "bool \<Rightarrow> (string \<times> u32) list \<Rightarrow> sk_node \<Rightarrow> scope_entry list \<Rightarrow> (scope_entry list \<times> sk_node) run" where
  "scope_step outFusible tab n st =
    (if IsScopeBegin n then
       (let st1 = ProcessScopeBegin n tab st in
        if IsScopeEnd n then Inr (st1, scope_fusible n)
        else bindR (ComputeScopeBitFlags st1) (\<lambda>flags. Inr (st1, scope_fusible (mark_in_scope outFusible st1 flags n))))
     else if IsScopeEnd n then
       bindR (ComputeScopeBitFlags st) (\<lambda>flags.
         Inr (ProcessScopeEnd n st, scope_fusible (n\<lparr> nd_scopeBitFlags := flags \<rparr>)))
     else bindR (ComputeScopeBitFlags st) (\<lambda>flags.
         Inr (st, scope_fusible (mark_in_scope outFusible st flags n))))"

definition need_update :: "node_id \<Rightarrow> sk_graph \<Rightarrow> sk_graph" where
  "need_update i g = g\<lparr> sg_needUpdateNodes := insert i (sg_needUpdateNodes g) \<rparr>"

definition scope_node_step ::
  "bool \<Rightarrow> node_id \<Rightarrow> scope_entry list \<times> sk_graph \<Rightarrow> (scope_entry list \<times> sk_graph) run" where
  "scope_node_step outFusible i p = (case p of (st, g) \<Rightarrow>
    (case GetNodeById g i of None \<Rightarrow> Inr (st, g)
     | Some n \<Rightarrow> bindR (scope_step outFusible (sg_scopeNameToIdx g) n st) (\<lambda>(st', n').
         Inr (st', (if nd_isScopeNode n' then need_update i else id) (upd_node i (\<lambda>_. n') g)))))"

definition UpdateNodeScopeBitFlags :: "sk_graph \<Rightarrow> sk_graph run" where
  "UpdateNodeScopeBitFlags g =
     bindR (foldR (scope_node_step (sg_scopeNameToIdx g = [])) (GetSortedNodeIds g) ([], g))
       (\<lambda>(st, g'). Inr g')"

text \<open>\<open>bitset::to_string\<close> puts the highest position first.\<close>

definition bitset_to_string :: "nat set \<Rightarrow> string" where
  "bitset_to_string flags =
     map (\<lambda>i. if i \<in> flags then CHR ''1'' else CHR ''0'') (rev [0..<MAX_SCOPE_NUM])"

definition BitsetToString :: "sk_graph \<Rightarrow> nat set \<Rightarrow> string" where
  "BitsetToString g flags = (if length (sg_scopeNameToIdx g) = 0 then ''0''
     else take (length (sg_scopeNameToIdx g)) (rev (bitset_to_string flags)))"

section \<open>Original scopes\<close>

definition CheckScopeNodeTypes :: "node_id list \<Rightarrow> sk_graph \<Rightarrow> bool \<times> bool" where
  "CheckScopeNodeTypes ids g =
    (let begins = (\<lambda>P i. case GetNodeById g i of None \<Rightarrow> False
           | Some n \<Rightarrow> nd_isScopeNode n \<and> IsScopeBegin n \<and> P (GetScopeName n))
     in (list_ex (begins (\<lambda>s. s \<noteq> [])) ids, list_ex (begins (\<lambda>s. s = [])) ids))"

definition IsValidNodeForScope :: "sk_node option \<Rightarrow> bool" where
  "IsValidNodeForScope p = (case p of None \<Rightarrow> False
     | Some n \<Rightarrow> \<not> (IsScopeBegin n \<or> IsScopeEnd n \<or> IsScopePlaceholder n) \<and> nd_scopeBitFlags n \<noteq> {})"

text \<open>The groups, keyed by their flags, in the iteration order of the container.\<close>

definition add_to_group :: "nat set \<Rightarrow> node_id \<Rightarrow> (nat set \<times> node_id list) list \<Rightarrow> (nat set \<times> node_id list) list" where
  "add_to_group flags i groups = AList.update flags
     ((case map_of groups flags of None \<Rightarrow> [] | Some is \<Rightarrow> is) @ [i]) groups"

fun group_nodes :: "sk_graph \<Rightarrow> node_id list \<Rightarrow> (nat set \<times> node_id list) list \<Rightarrow> (nat set \<times> node_id list) list" where
  "group_nodes g [] groups = groups"
| "group_nodes g (i # ids) groups = (case GetNodeById g i of
     Some n \<Rightarrow> group_nodes g ids (if IsValidNodeForScope (Some n)
       then add_to_group (nd_scopeBitFlags n) i groups else groups)
   | None \<Rightarrow> group_nodes g ids groups)"

fun number_groups :: "(nat set \<times> node_id list) list \<Rightarrow> original_scope_info list \<Rightarrow> original_scope_info list" where
  "number_groups [] infos = infos"
| "number_groups ((flags, ids) # gs) infos = number_groups gs (infos @
     [\<lparr> os_scopeId = of_nat (length infos), os_scopeBitFlags = flags, os_nodeIds = ids \<rparr>])"

definition GroupNodesByScopeBitFlags :: "node_id list \<Rightarrow> sk_graph \<Rightarrow> original_scope_info list" where
  "GroupNodesByScopeBitFlags ids g = number_groups (group_nodes g ids []) []"

definition push_node :: "node_id \<Rightarrow> sk_node \<Rightarrow> original_scope_info \<Rightarrow> original_scope_info" where
  "push_node i n s = s\<lparr> os_nodeIds := os_nodeIds s @ [i], os_scopeBitFlags := nd_scopeBitFlags n \<rparr>"

definition new_original_scope :: original_scope_info where
  "new_original_scope = \<lparr> os_scopeId = 0, os_scopeBitFlags = {}, os_nodeIds = [] \<rparr>"

definition CreateSingleScopeFromAllNodes :: "node_id list \<Rightarrow> sk_graph \<Rightarrow> original_scope_info list" where
  "CreateSingleScopeFromAllNodes ids g =
    (let s = fold (\<lambda>i s. case GetNodeById g i of None \<Rightarrow> s | Some n \<Rightarrow> push_node i n s) ids new_original_scope
     in if os_nodeIds s \<noteq> [] then [s] else [])"

definition exclude_step ::
  "sk_graph \<Rightarrow> node_id \<Rightarrow> bool \<times> original_scope_info \<Rightarrow> bool \<times> original_scope_info" where
  "exclude_step g i p = (case p of (inside, s) \<Rightarrow>
    (case GetNodeById g i of None \<Rightarrow> (inside, s)
     | Some n \<Rightarrow>
         if IsScopeBegin n then (if GetScopeName n = '''' then True else inside, s)
         else if IsScopeEnd n then (False, s)
         else if IsScopePlaceholder n \<or> inside then (inside, s)
         else (inside, push_node i n s)))"

definition CreateScopesExcludingUnnamed :: "node_id list \<Rightarrow> sk_graph \<Rightarrow> original_scope_info list" where
  "CreateScopesExcludingUnnamed ids g =
    (let s = snd (fold (exclude_step g) ids (False, new_original_scope))
     in if os_nodeIds s \<noteq> [] then [s] else [])"

definition ParseOriginalScopes :: "sk_graph \<Rightarrow> sk_graph" where
  "ParseOriginalScopes g =
    (let ids = GetSortedNodeIds g; (named, unnamed) = CheckScopeNodeTypes ids g
     in g\<lparr> sg_originalScopeInfos :=
          (if named then GroupNodesByScopeBitFlags ids g
           else if \<not> unnamed then CreateSingleScopeFromAllNodes ids g
           else CreateScopesExcludingUnnamed ids g) \<rparr>)"

section \<open>The stack\<close>

lemma pop_from_append:
  "(\<exists>us e ys. xs = us @ e # ys \<and> se_scopeName e = name \<and> (\<forall>y\<in>set ys. se_scopeName y \<noteq> name) \<and>
      pop_from (length xs) name (xs @ zs) = (True, us @ ys @ zs)) \<or>
   (\<forall>e\<in>set xs. se_scopeName e \<noteq> name) \<and> pop_from (length xs) name (xs @ zs) = (False, xs @ zs)"
proof (induction xs arbitrary: zs rule: rev_induct)
  case (snoc x xs)
  show ?case
  proof (cases "se_scopeName x = name")
    case True
    then show ?thesis by (intro disjI1 exI[of _ xs] exI[of _ x] exI[of _ "[]"]) simp
  next
    case False
    from snoc.IH[of "x # zs"] show ?thesis
    proof (elim disjE exE conjE)
      fix us e ys
      assume "xs = us @ e # ys" "se_scopeName e = name" "\<forall>y\<in>set ys. se_scopeName y \<noteq> name"
        "pop_from (length xs) name (xs @ x # zs) = (True, us @ ys @ x # zs)"
      then show ?thesis using False
        by (intro disjI1 exI[of _ us] exI[of _ e] exI[of _ "ys @ [x]"]) (auto simp: nth_append)
    qed (use False in simp)
  qed
qed simp

text \<open>The pop takes the last entry of the name, wherever it is, or leaves the stack alone.\<close>

lemma PopScopeByName_cases:
  obtains (found) xs e ys where "st = xs @ e # ys" and "se_scopeName e = name"
      and "\<forall>y\<in>set ys. se_scopeName y \<noteq> name" and "PopScopeByName name st = (True, xs @ ys)"
    | (absent) "\<forall>e\<in>set st. se_scopeName e \<noteq> name" and "PopScopeByName name st = (False, st)"
  using pop_from_append[of st name "[]"] by (auto simp: PopScopeByName_def)

definition stack_count :: "string \<Rightarrow> scope_entry list \<Rightarrow> nat" where
  "stack_count s st = length (filter (\<lambda>e. se_scopeName e = s) st)"

lemma stack_count_pop:
  "stack_count s (snd (PopScopeByName name st)) =
     (if s = name then stack_count s st - 1 else stack_count s st)"
  by (cases rule: PopScopeByName_cases[of st name])
    (auto simp: stack_count_def filter_empty_conv)

lemma set_pop_subset: "set (snd (PopScopeByName name st)) \<subseteq> set st"
  by (cases rule: PopScopeByName_cases[of st name]) auto

definition flags_of :: "scope_entry list \<Rightarrow> nat set" where
  "flags_of st = {unat (se_scopeIdx e) | e. e \<in> set st \<and> se_isFusible e}"

definition flags_in_range :: "scope_entry list \<Rightarrow> bool" where
  "flags_in_range st \<longleftrightarrow> (\<forall>e\<in>set st. se_isFusible e \<longrightarrow> unat (se_scopeIdx e) < MAX_SCOPE_NUM)"

lemma compute_flags_from:
  "foldR (\<lambda>e flags. if se_isFusible e then set_flag (se_scopeIdx e) flags else Inr flags) st acc =
     (if flags_in_range st then Inr (acc \<union> flags_of st) else Inl OutOfRange)"
proof (induction st arbitrary: acc)
  case (Cons e st)
  then show ?case by (auto simp: set_flag_def flags_in_range_def flags_of_def)
qed (simp add: flags_in_range_def flags_of_def)

lemma ComputeScopeBitFlags_eq:
  "ComputeScopeBitFlags st = (if flags_in_range st then Inr (flags_of st) else Inl OutOfRange)"
  by (simp add: ComputeScopeBitFlags_def compute_flags_from)

section \<open>What the pass computes\<close>

text \<open>The stack a sequence of nodes leaves, and the number of open scopes of a name it leaves.\<close>

definition stack_step :: "(string \<times> u32) list \<Rightarrow> sk_node \<Rightarrow> scope_entry list \<Rightarrow> scope_entry list" where
  "stack_step tab n st = (if IsScopeBegin n then ProcessScopeBegin n tab st
     else if IsScopeEnd n then ProcessScopeEnd n st else st)"

definition open_depth :: "string \<Rightarrow> sk_node list \<Rightarrow> nat" where
  "open_depth s ns = fold (\<lambda>n d. if GetScopeName n \<noteq> s then d
     else if IsScopeBegin n then Suc d else if IsScopeEnd n then d - 1 else d) ns 0"

lemma stack_count_step:
  "stack_count s (stack_step tab n st) = (if GetScopeName n \<noteq> s then stack_count s st
     else if IsScopeBegin n then Suc (stack_count s st)
     else if IsScopeEnd n then stack_count s st - 1 else stack_count s st)"
  by (simp add: stack_step_def ProcessScopeEnd_def stack_count_pop)
    (simp add: ProcessScopeBegin_def stack_count_def Let_def)

lemma stack_count_fold: "stack_count s (fold (stack_step tab) ns []) = open_depth s ns"
proof -
  have "stack_count s (fold (stack_step tab) ns st) = fold (\<lambda>n d. if GetScopeName n \<noteq> s then d
     else if IsScopeBegin n then Suc d else if IsScopeEnd n then d - 1 else d) ns (stack_count s st)" for st
    by (induction ns arbitrary: st) (simp_all add: stack_count_step)
  from this[of "[]"] show ?thesis by (simp add: open_depth_def stack_count_def)
qed

text \<open>Where an entry of the stack comes from.\<close>

definition entry_from :: "(string \<times> u32) list \<Rightarrow> sk_node \<Rightarrow> scope_entry \<Rightarrow> bool" where
  "entry_from tab n e \<longleftrightarrow> IsScopeBegin n \<and> se_scopeName e = GetScopeName n \<and>
     se_isFusible e = nd_isFusible n \<and> se_scopeIdx e = GetScopeIdx n tab \<and>
     (ff_primary (se_failReason e) = CAN_FUSE \<longleftrightarrow> nd_isFusible n)"

lemma stack_step_set:
  "set (stack_step tab n st) \<subseteq> set st \<union> {e. entry_from tab n e}"
  using set_pop_subset[of "GetScopeName n" st]
  by (auto simp: stack_step_def ProcessScopeEnd_def ProcessScopeBegin_def Let_def entry_from_def
      default_fail_info_def fail_of_reason_def)

lemma stack_origin:
  "e \<in> set (fold (stack_step tab) ns []) \<Longrightarrow> \<exists>n\<in>set ns. entry_from tab n e"
proof (induction ns rule: rev_induct)
  case (snoc n ns)
  then show ?case using stack_step_set[of tab n "fold (stack_step tab) ns []"] by auto
qed simp

text \<open>What a node sees: the stack after the push for a begin, the stack before it otherwise.\<close>

definition seen_stack :: "(string \<times> u32) list \<Rightarrow> sk_node \<Rightarrow> scope_entry list \<Rightarrow> scope_entry list" where
  "seen_stack tab n st = (if IsScopeBegin n then ProcessScopeBegin n tab st else st)"

definition both_ends :: "sk_node \<Rightarrow> bool" where
  "both_ends n \<longleftrightarrow> IsScopeBegin n \<and> IsScopeEnd n"

definition marked :: "bool \<Rightarrow> sk_node \<Rightarrow> scope_entry list \<Rightarrow> sk_node" where
  "marked outFusible n st = scope_fusible (if both_ends n then n else if IsScopeEnd n
     then n\<lparr> nd_scopeBitFlags := flags_of st \<rparr> else mark_in_scope outFusible st (flags_of st) n)"

definition fits :: "sk_node \<Rightarrow> scope_entry list \<Rightarrow> bool" where
  "fits n st \<longleftrightarrow> both_ends n \<or> flags_in_range st"

lemma scope_step_eq:
  "scope_step outFusible tab n st = (if fits n (seen_stack tab n st)
     then Inr (stack_step tab n st, marked outFusible n (seen_stack tab n st)) else Inl OutOfRange)"
  by (simp add: scope_step_def seen_stack_def stack_step_def marked_def ComputeScopeBitFlags_eq Let_def
      fits_def both_ends_def)

lemma marked_keeps [simp]:
  "nd_nodeId (marked b n st) = nd_nodeId n" "nd_nodeType (marked b n st) = nd_nodeType n"
  "nd_class (marked b n st) = nd_class n" "nd_syncInfos (marked b n st) = nd_syncInfos n"
  "nd_preNodeId (marked b n st) = nd_preNodeId n" "nd_nextNodeId (marked b n st) = nd_nextNodeId n"
  "nd_streamIdxInGraph (marked b n st) = nd_streamIdxInGraph n"
  "nd_nodeIdxInStream (marked b n st) = nd_nodeIdxInStream n"
  "nd_sendToNodeId (marked b n st) = nd_sendToNodeId n"
  "nd_receiveNodeId (marked b n st) = nd_receiveNodeId n"
  "nd_isScopeNode (marked b n st) = nd_isScopeNode n"
  "\<not> both_ends n \<Longrightarrow> nd_scopeBitFlags (marked b n st) = flags_of st"
  by (simp_all add: marked_def scope_fusible_def mark_in_scope_def Let_def fail_reason_defs)

lemma no_unfusible_entry:
  assumes "\<forall>e\<in>set st. ff_primary (se_failReason e) = CAN_FUSE \<longleftrightarrow> se_isFusible e"
  shows "ff_primary (GetUnfusibleScopeFailReason st) = CAN_FUSE \<longleftrightarrow> (\<forall>e\<in>set st. se_isFusible e)"
proof (cases "List.find (\<lambda>e. \<not> se_isFusible e) (rev st)")
  case None
  then have "\<forall>e\<in>set st. se_isFusible e" by (auto simp: find_None_iff)
  then show ?thesis by (simp add: GetUnfusibleScopeFailReason_def None default_fail_info_def)
next
  case (Some e)
  then have "e \<in> set st \<and> \<not> se_isFusible e"
    by (metis find_Some_iff nth_mem set_rev)
  then show ?thesis using Some assms by (auto simp: GetUnfusibleScopeFailReason_def)
qed

lemma marked_fusible:
  assumes "\<forall>e\<in>set st. ff_primary (se_failReason e) = CAN_FUSE \<longleftrightarrow> se_isFusible e"
    and "IsScopeBegin n \<or> IsScopeEnd n \<longrightarrow> nd_isScopeNode n" and "\<not> both_ends n"
  shows "nd_isFusible (marked b n st) \<longleftrightarrow> nd_isScopeNode n \<or>
    nd_isFusible n \<and> (b \<or> st \<noteq> []) \<and> (\<forall>e\<in>set st. se_isFusible e)"
  using assms no_unfusible_entry[OF assms(1)]
  by (auto simp: marked_def scope_fusible_def mark_in_scope_def Let_def fail_reason_defs)

definition nodes_of :: "sk_graph \<Rightarrow> node_id list \<Rightarrow> sk_node list" where
  "nodes_of g ids = List.map_filter (GetNodeById g) ids"

definition stack_after :: "sk_graph \<Rightarrow> node_id list \<Rightarrow> scope_entry list" where
  "stack_after g ids = fold (stack_step (sg_scopeNameToIdx g)) (nodes_of g ids) []"

text \<open>The stack the node with id \<open>i\<close> sees when the ids are processed in the given order.\<close>

definition stack_at :: "sk_graph \<Rightarrow> node_id list \<Rightarrow> node_id \<Rightarrow> sk_node \<Rightarrow> scope_entry list" where
  "stack_at g ids i n = seen_stack (sg_scopeNameToIdx g) n (stack_after g (takeWhile (\<lambda>j. j \<noteq> i) ids))"

lemma nodes_of_snoc: "nodes_of g (ids @ [i]) = nodes_of g ids @
    (case GetNodeById g i of None \<Rightarrow> [] | Some n \<Rightarrow> [n])"
  by (simp add: nodes_of_def map_filter_def split: option.split)

lemma stack_after_snoc: "stack_after g (ids @ [i]) = (case GetNodeById g i of
    None \<Rightarrow> stack_after g ids | Some n \<Rightarrow> stack_step (sg_scopeNameToIdx g) n (stack_after g ids))"
  by (simp add: stack_after_def nodes_of_snoc split: option.split)

lemma stack_at_snoc:
  "i \<in> set ids \<Longrightarrow> stack_at g (ids @ [x]) i n = stack_at g ids i n"
  "x \<notin> set ids \<Longrightarrow> stack_at g (ids @ [x]) x n = seen_stack (sg_scopeNameToIdx g) n (stack_after g ids)"
proof -
  show "i \<in> set ids \<Longrightarrow> stack_at g (ids @ [x]) i n = stack_at g ids i n"
    by (simp add: stack_at_def takeWhile_append1[of i])
  assume "x \<notin> set ids"
  then have "takeWhile (\<lambda>j. j \<noteq> x) (ids @ [x]) = ids" by (subst takeWhile_append2) auto
  then show "stack_at g (ids @ [x]) x n = seen_stack (sg_scopeNameToIdx g) n (stack_after g ids)"
    by (simp add: stack_at_def)
qed

text \<open>The graph after the ids have been processed: their nodes are marked, all else is kept.\<close>

definition scoped :: "sk_graph \<Rightarrow> node_id list \<Rightarrow> sk_graph \<Rightarrow> bool" where
  "scoped g ids h \<longleftrightarrow>
     (\<forall>i. GetNodeById h i = (if i \<in> set ids
        then map_option (\<lambda>n. marked (sg_scopeNameToIdx g = []) n (stack_at g ids i n)) (GetNodeById g i)
        else GetNodeById g i)) \<and>
     sg_nodeIds h = sg_nodeIds g \<and> sg_eventToNodes h = sg_eventToNodes g \<and>
     sg_memoryToNodes h = sg_memoryToNodes g \<and> sg_headNodes h = sg_headNodes g \<and>
     sg_nodeSizeInStream h = sg_nodeSizeInStream g \<and> sg_streams h = sg_streams g \<and>
     sg_scopeNameToIdx h = sg_scopeNameToIdx g \<and> sg_scopeIdxToName h = sg_scopeIdxToName g"

definition flags_fit :: "sk_graph \<Rightarrow> node_id list \<Rightarrow> bool" where
  "flags_fit g ids \<longleftrightarrow>
     (\<forall>i\<in>set ids. \<forall>n. GetNodeById g i = Some n \<longrightarrow> fits n (stack_at g ids i n))"

lemma need_update_simps [simp]:
  "GetNodeById (need_update i g) = GetNodeById g" "sg_nodeIds (need_update i g) = sg_nodeIds g"
  "sg_eventToNodes (need_update i g) = sg_eventToNodes g"
  "sg_memoryToNodes (need_update i g) = sg_memoryToNodes g"
  "sg_headNodes (need_update i g) = sg_headNodes g"
  "sg_nodeSizeInStream (need_update i g) = sg_nodeSizeInStream g"
  "sg_streams (need_update i g) = sg_streams g"
  "sg_scopeNameToIdx (need_update i g) = sg_scopeNameToIdx g"
  "sg_scopeIdxToName (need_update i g) = sg_scopeIdxToName g"
  by (simp_all add: need_update_def GetNodeById_def fun_eq_iff)

lemma flags_fit_snoc:
  assumes "x \<notin> set ids"
  shows "flags_fit g (ids @ [x]) \<longleftrightarrow> flags_fit g ids \<and> (\<forall>n. GetNodeById g x = Some n \<longrightarrow>
    fits n (seen_stack (sg_scopeNameToIdx g) n (stack_after g ids)))"
  using assms by (auto simp: flags_fit_def stack_at_snoc)

lemma scope_node_step_eq:
  "GetNodeById h i = None \<Longrightarrow> scope_node_step b i (st, h) = Inr (st, h)"
  "GetNodeById h i = Some n \<Longrightarrow> scope_node_step b i (st, h) =
     (let see = seen_stack (sg_scopeNameToIdx h) n st in if fits n see
      then Inr (stack_step (sg_scopeNameToIdx h) n st,
        (if nd_isScopeNode n then need_update i else id) (upd_node i (\<lambda>_. marked b n see) h))
      else Inl OutOfRange)"
  by (simp_all add: scope_node_step_def scope_step_eq Let_def)

lemma scope_loop:
  assumes "distinct ids"
  shows "if flags_fit g ids then \<exists>h. foldR (scope_node_step (sg_scopeNameToIdx g = [])) ids ([], g) =
             Inr (stack_after g ids, h) \<and> scoped g ids h
         else foldR (scope_node_step (sg_scopeNameToIdx g = [])) ids ([], g) = Inl OutOfRange"
  using assms
proof (induction ids rule: rev_induct)
  case Nil
  then show ?case by (simp add: flags_fit_def stack_after_def nodes_of_def scoped_def map_filter_def)
next
  case (snoc x ids)
  then have new: "x \<notin> set ids" and d: "distinct ids" by auto
  show ?case
  proof (cases "flags_fit g ids")
    case False
    then show ?thesis using snoc.IH[OF d] flags_fit_snoc[OF new] by (simp add: foldR_append)
  next
    case True
    with snoc.IH[OF d] obtain h where h: "foldR (scope_node_step (sg_scopeNameToIdx g = [])) ids ([], g) =
        Inr (stack_after g ids, h)" "scoped g ids h" by auto
    then have same: "GetNodeById h x = GetNodeById g x" "sg_scopeNameToIdx h = sg_scopeNameToIdx g"
      using new by (simp_all add: scoped_def)
    show ?thesis
    proof (cases "GetNodeById g x")
      case None
      then have "scoped g (ids @ [x]) h"
        using h(2) new by (auto simp: scoped_def stack_at_snoc)
      then show ?thesis using None h(1) same True flags_fit_snoc[OF new, of g]
        by (simp add: foldR_append scope_node_step_eq stack_after_snoc)
    next
      case (Some n)
      let ?st = "seen_stack (sg_scopeNameToIdx g) n (stack_after g ids)"
      let ?h = "(if nd_isScopeNode n then need_update x else id)
        (upd_node x (\<lambda>_. marked (sg_scopeNameToIdx g = []) n ?st) h)"
      have "scoped g (ids @ [x]) ?h"
        using h(2) new Some same(1) by (auto simp: scoped_def stack_at_snoc)
      then show ?thesis using Some h(1) same True flags_fit_snoc[OF new, of g]
        by (simp add: foldR_append scope_node_step_eq(2)[of h x n] stack_after_snoc Let_def)
    qed
  qed
qed

section \<open>Scope flags are open scopes\<close>

text \<open>
  The nodes that decide the scopes of node \<open>i\<close>: those before it in the order of the ids, and the
  node itself when it begins a scope. A scope is open when the counter of its name is positive;
  the counter knows nothing of the other names, so interleaved scopes do not disturb each other.
\<close>

definition scope_prefix :: "sk_graph \<Rightarrow> node_id \<Rightarrow> sk_node \<Rightarrow> sk_node list" where
  "scope_prefix g i n = nodes_of g (takeWhile (\<lambda>j. j \<noteq> i) (GetSortedNodeIds g)) @
     (if IsScopeBegin n then [n] else [])"

definition in_scope :: "sk_graph \<Rightarrow> node_id \<Rightarrow> sk_node \<Rightarrow> string \<Rightarrow> bool" where
  "in_scope g i n s \<longleftrightarrow> 0 < open_depth s (scope_prefix g i n)"

definition scope_table_ok :: "(string \<times> u32) list \<Rightarrow> bool" where
  "scope_table_ok tab \<longleftrightarrow> distinct (map fst tab) \<and> (\<forall>k\<in>snd ` set tab. unat k < MAX_SCOPE_NUM)"

text \<open>A begin node is fusible exactly when its scope is registered; scope kernels are scope nodes.\<close>

definition begins_registered :: "sk_graph \<Rightarrow> bool" where
  "begins_registered g \<longleftrightarrow> (\<forall>i n. GetNodeById g i = Some n \<longrightarrow>
     (IsScopeBegin n \<longrightarrow> (nd_isFusible n \<longleftrightarrow> GetScopeName n \<in> fst ` set (sg_scopeNameToIdx g))) \<and>
     (IsScopeBegin n \<or> IsScopeEnd n \<longrightarrow> nd_isScopeNode n) \<and> \<not> both_ends n)"

lemma stack_at_prefix:
  "stack_at g (GetSortedNodeIds g) i n = fold (stack_step (sg_scopeNameToIdx g)) (scope_prefix g i n) []"
  by (simp add: stack_at_def seen_stack_def scope_prefix_def stack_after_def stack_step_def)

lemma scope_prefix_nodes:
  assumes "m \<in> set (scope_prefix g i n)" and "GetNodeById g i = Some n"
  shows "\<exists>j. GetNodeById g j = Some m"
  using assms by (auto simp: scope_prefix_def nodes_of_def map_filter_def split: if_splits)

lemma open_scope_entry:
  "in_scope g i n s \<longleftrightarrow> (\<exists>e\<in>set (stack_at g (GetSortedNodeIds g) i n). se_scopeName e = s)"
  unfolding in_scope_def stack_at_prefix stack_count_fold[where tab = "sg_scopeNameToIdx g", symmetric]
  by (auto simp: stack_count_def filter_empty_conv)

text \<open>Every entry a node sees belongs to a begin node of the graph.\<close>

lemma stack_entry_from:
  assumes "GetNodeById g i = Some n" and "e \<in> set (stack_at g (GetSortedNodeIds g) i n)"
  obtains j m where "GetNodeById g j = Some m" and "entry_from (sg_scopeNameToIdx g) m e"
  using stack_origin[OF assms(2)[unfolded stack_at_prefix]] scope_prefix_nodes[OF _ assms(1)] by blast

lemma registered_entry:
  assumes "begins_registered g" and "GetNodeById g j = Some m"
    and "entry_from (sg_scopeNameToIdx g) m e"
  shows "se_isFusible e \<longleftrightarrow> se_scopeName e \<in> fst ` set (sg_scopeNameToIdx g)"
    and "se_isFusible e \<Longrightarrow> map_of (sg_scopeNameToIdx g) (se_scopeName e) = Some (se_scopeIdx e)"
proof -
  have fus: "se_isFusible e = nd_isFusible m" "se_scopeName e = GetScopeName m"
    "nd_isFusible m \<longleftrightarrow> GetScopeName m \<in> fst ` set (sg_scopeNameToIdx g)"
    using assms by (auto simp: entry_from_def begins_registered_def)
  then show "se_isFusible e \<longleftrightarrow> se_scopeName e \<in> fst ` set (sg_scopeNameToIdx g)" by simp
  assume "se_isFusible e"
  with fus obtain k where "map_of (sg_scopeNameToIdx g) (GetScopeName m) = Some k"
    by (metis map_of_eq_None_iff not_Some_eq)
  then show "map_of (sg_scopeNameToIdx g) (se_scopeName e) = Some (se_scopeIdx e)"
    using assms(3) fus \<open>se_isFusible e\<close> by (simp add: entry_from_def GetScopeIdx_def)
qed

lemma flags_of_open:
  assumes g: "begins_registered g" "scope_table_ok (sg_scopeNameToIdx g)" and i: "GetNodeById g i = Some n"
  shows "flags_of (stack_at g (GetSortedNodeIds g) i n) =
    {unat k | s k. (s, k) \<in> set (sg_scopeNameToIdx g) \<and> in_scope g i n s}" (is "_ = ?open")
proof (intro set_eqI iffI)
  fix f assume "f \<in> flags_of (stack_at g (GetSortedNodeIds g) i n)"
  then obtain e where e: "e \<in> set (stack_at g (GetSortedNodeIds g) i n)" "se_isFusible e"
    "f = unat (se_scopeIdx e)" by (auto simp: flags_of_def)
  from stack_entry_from[OF i e(1)] obtain j m where
    m: "GetNodeById g j = Some m" "entry_from (sg_scopeNameToIdx g) m e" .
  have "(se_scopeName e, se_scopeIdx e) \<in> set (sg_scopeNameToIdx g)"
    using registered_entry(2)[OF g(1) m e(2)] by (rule map_of_SomeD)
  moreover have "in_scope g i n (se_scopeName e)" using e(1) by (auto simp: open_scope_entry)
  ultimately show "f \<in> ?open" using e(3) by blast
next
  fix f assume "f \<in> ?open"
  then obtain s k where s: "f = unat k" "(s, k) \<in> set (sg_scopeNameToIdx g)" "in_scope g i n s" by blast
  then obtain e where e: "e \<in> set (stack_at g (GetSortedNodeIds g) i n)" "se_scopeName e = s"
    by (auto simp: open_scope_entry)
  from stack_entry_from[OF i e(1)] obtain j m where
    m: "GetNodeById g j = Some m" "entry_from (sg_scopeNameToIdx g) m e" .
  have "se_isFusible e" using registered_entry(1)[OF g(1) m] s(2) e(2) by force
  moreover have "se_scopeIdx e = k"
    using registered_entry(2)[OF g(1) m \<open>se_isFusible e\<close>] e(2) s(2) g(2) by (simp add: scope_table_ok_def)
  ultimately show "f \<in> flags_of (stack_at g (GetSortedNodeIds g) i n)"
    using e(1) s(1) by (auto simp: flags_of_def)
qed

lemma registered_fits:
  assumes g: "begins_registered g" "scope_table_ok (sg_scopeNameToIdx g)"
  shows "flags_fit g (GetSortedNodeIds g)"
  unfolding flags_fit_def fits_def flags_in_range_def
proof (intro ballI allI impI disjI2)
  fix i n e
  assume i: "GetNodeById g i = Some n" and e: "e \<in> set (stack_at g (GetSortedNodeIds g) i n)" "se_isFusible e"
  from stack_entry_from[OF i e(1)] obtain j m where
    m: "GetNodeById g j = Some m" "entry_from (sg_scopeNameToIdx g) m e" .
  from registered_entry(2)[OF g(1) m e(2)] show "unat (se_scopeIdx e) < MAX_SCOPE_NUM"
    using g(2) map_of_SomeD by (force simp: scope_table_ok_def)
qed

lemma UpdateNodeScopeBitFlags_cases:
  assumes "distinct (sg_nodeIds g)"
  shows "if flags_fit g (GetSortedNodeIds g)
    then \<exists>h. UpdateNodeScopeBitFlags g = Inr h \<and> scoped g (GetSortedNodeIds g) h
    else UpdateNodeScopeBitFlags g = Inl OutOfRange"
  using scope_loop[of "GetSortedNodeIds g" g] assms
  by (auto simp: UpdateNodeScopeBitFlags_def GetSortedNodeIds_def split: if_splits)

text \<open>
  C25 \<^bold>\<open>Scope flags.\<close> When the fusible scope begins of the graph are exactly those with a
  registered name, the pass does not throw, and afterwards every node has the flags of exactly the
  registered scopes that are open at it, however the scopes nest or interleave; a scope node is
  fusible, and any other node that was fusible stays so exactly when it lies in some scope (or no
  scope is registered) and in no unfusible one.
\<close>

theorem UpdateNodeScopeBitFlags_spec:
  assumes "graph_ok g" and "begins_registered g" and "scope_table_ok (sg_scopeNameToIdx g)"
    and "GetNodeById g i = Some n"
  shows "\<exists>h m. UpdateNodeScopeBitFlags g = Inr h \<and> GetNodeById h i = Some m \<and>
    nd_scopeBitFlags m = {unat k | s k. (s, k) \<in> set (sg_scopeNameToIdx g) \<and> in_scope g i n s} \<and>
    (nd_isFusible m \<longleftrightarrow> nd_isScopeNode n \<or> nd_isFusible n \<and>
       (sg_scopeNameToIdx g = [] \<or> (\<exists>s. in_scope g i n s)) \<and>
       (\<forall>s. in_scope g i n s \<longrightarrow> s \<in> fst ` set (sg_scopeNameToIdx g)))"
proof -
  let ?st = "stack_at g (GetSortedNodeIds g) i n" and ?tab = "sg_scopeNameToIdx g"
  from UpdateNodeScopeBitFlags_cases[of g] obtain h where
    h: "UpdateNodeScopeBitFlags g = Inr h" "scoped g (GetSortedNodeIds g) h"
    using assms(1) registered_fits[OF assms(2,3)] by (auto simp: graph_ok_def)
  have i: "i \<in> set (GetSortedNodeIds g)"
    using assms(1,4) by (auto simp: graph_ok_def GetSortedNodeIds_def GetNodeById_def)
  then have m: "GetNodeById h i = Some (marked (?tab = []) n ?st)" using h(2) assms(4) by (simp add: scoped_def)
  have origin: "\<exists>j m. GetNodeById g j = Some m \<and> entry_from ?tab m e" if "e \<in> set ?st" for e
    using stack_entry_from[OF assms(4) that] by blast
  have reasons: "\<forall>e\<in>set ?st. ff_primary (se_failReason e) = CAN_FUSE \<longleftrightarrow> se_isFusible e"
    using origin by (auto simp: entry_from_def)
  have registered: "(\<forall>e\<in>set ?st. se_isFusible e) \<longleftrightarrow> (\<forall>s. in_scope g i n s \<longrightarrow> s \<in> fst ` set ?tab)"
    using origin registered_entry(1)[OF assms(2)] unfolding open_scope_entry by metis
  have "?st \<noteq> [] \<longleftrightarrow> (\<exists>s. in_scope g i n s)"
    unfolding open_scope_entry using ex_in_conv[of "set ?st"] by auto
  then show ?thesis
    using h(1) m flags_of_open[OF assms(2-4)] registered marked_fusible[OF reasons, of n "?tab = []"]
      marked_keeps(12)[of n "?tab = []" ?st] assms(2,4) by (auto simp: begins_registered_def)
qed

text \<open>
  \<^bold>\<open>An unregistered fusible scope throws.\<close> A fusible scope begin whose name is not in the
  table gets the index one past the last bit of the bitset, and setting that bit is out of range.
\<close>

theorem UpdateNodeScopeBitFlags_unregistered:
  assumes "graph_ok g" and "GetNodeById g i = Some n" and "IsScopeBegin n" and "nd_isFusible n"
    and "\<not> IsScopeEnd n" and "GetScopeName n \<notin> fst ` set (sg_scopeNameToIdx g)"
  shows "UpdateNodeScopeBitFlags g = Inl OutOfRange"
proof -
  have i: "i \<in> set (GetSortedNodeIds g)"
    using assms(1,2) by (auto simp: graph_ok_def GetSortedNodeIds_def GetNodeById_def)
  have "GetScopeIdx n (sg_scopeNameToIdx g) = MAX_SCOPE_IDX"
    using assms(6) by (auto simp: GetScopeIdx_def map_of_eq_None_iff[symmetric] simp del: map_of_eq_None_iff)
  then have "\<not> fits n (stack_at g (GetSortedNodeIds g) i n)"
    using assms(3-5) by (auto simp: fits_def both_ends_def stack_at_def seen_stack_def flags_in_range_def ProcessScopeBegin_def
        Let_def MAX_SCOPE_IDX_def MAX_SCOPE_NUM_def)
  then have "\<not> flags_fit g (GetSortedNodeIds g)" using i assms(2) by (auto simp: flags_fit_def)
  then show ?thesis using UpdateNodeScopeBitFlags_cases[of g] assms(1) by (auto simp: graph_ok_def)
qed

section \<open>Original scopes partition the nodes\<close>

definition valid_with :: "sk_graph \<Rightarrow> nat set \<Rightarrow> node_id \<Rightarrow> bool" where
  "valid_with g flags i \<longleftrightarrow> IsValidNodeForScope (GetNodeById g i) \<and>
     map_option nd_scopeBitFlags (GetNodeById g i) = Some flags"

definition extend_group :: "node_id list option \<Rightarrow> node_id list \<Rightarrow> node_id list option" where
  "extend_group old new = (if new = [] then old
     else Some ((case old of None \<Rightarrow> [] | Some is \<Rightarrow> is) @ new))"

lemma map_of_group_nodes:
  "map_of (group_nodes g ids groups) flags = extend_group (map_of groups flags) (filter (valid_with g flags) ids)"
proof (induction ids arbitrary: groups)
  case (Cons i ids)
  show ?case
  proof (cases "GetNodeById g i")
    case None
    then show ?thesis using Cons by (simp add: valid_with_def)
  next
    case (Some n)
    then show ?thesis using Cons
      by (cases "IsValidNodeForScope (Some n) \<and> nd_scopeBitFlags n = flags")
        (auto simp: valid_with_def add_to_group_def update_conv' extend_group_def split: option.split)
  qed
qed (simp add: extend_group_def)

lemma distinct_group_nodes:
  "distinct (map fst groups) \<Longrightarrow> distinct (map fst (group_nodes g ids groups))"
  by (induction ids arbitrary: groups) (auto simp: add_to_group_def distinct_update split: option.split)

lemma number_groups_eq:
  "number_groups gs infos = infos @ map (\<lambda>(k, flags, ids).
     \<lparr> os_scopeId = of_nat k, os_scopeBitFlags = flags, os_nodeIds = ids \<rparr>)
     (zip [length infos..<length infos + length gs] gs)"
proof (induction gs arbitrary: infos)
  case (Cons x gs)
  have "[length infos..<length infos + length (x # gs)] =
      length infos # [Suc (length infos)..<Suc (length infos) + length gs]"
    by (simp add: upt_conv_Cons del: upt_Suc)
  then show ?case using Cons.IH by (cases x) (simp del: upt_Suc)
qed simp

text \<open>
  C31 \<^bold>\<open>Original scopes.\<close> In a graph with a named scope the recorded scopes are numbered in
  order, their flags differ pairwise, and the nodes of a scope are exactly the nodes with its flags
  that lie in a fusible scope and are not scope kernels, in increasing order of the ids; every such
  node is in one.
\<close>

theorem ParseOriginalScopes_groups:
  assumes "fst (CheckScopeNodeTypes (GetSortedNodeIds g) g)"
  shows "\<exists>infos. sg_originalScopeInfos (ParseOriginalScopes g) = infos \<and>
    (\<forall>k<length infos. os_scopeId (infos ! k) = of_nat k \<and> os_nodeIds (infos ! k) \<noteq> [] \<and>
       os_nodeIds (infos ! k) = filter (valid_with g (os_scopeBitFlags (infos ! k))) (GetSortedNodeIds g)) \<and>
    distinct (map os_scopeBitFlags infos) \<and>
    (\<forall>i\<in>set (sg_nodeIds g). IsValidNodeForScope (GetNodeById g i) \<longrightarrow> (\<exists>s\<in>set infos. i \<in> set (os_nodeIds s)))"
proof -
  let ?ids = "GetSortedNodeIds g"
  define gs where "gs = group_nodes g ?ids []"
  define infos where "infos = number_groups gs []"
  have d: "distinct (map fst gs)" unfolding gs_def by (rule distinct_group_nodes) simp
  have look: "map_of gs flags = (if filter (valid_with g flags) ?ids = [] then None
      else Some (filter (valid_with g flags) ?ids))" for flags
    by (simp add: gs_def map_of_group_nodes extend_group_def)
  have len: "length infos = length gs" by (simp add: infos_def number_groups_eq)
  have nth: "infos ! k = \<lparr> os_scopeId = of_nat k, os_scopeBitFlags = fst (gs ! k), os_nodeIds = snd (gs ! k) \<rparr>"
    if "k < length gs" for k
    using that by (simp add: infos_def number_groups_eq split: prod.split)
  have group: "snd (gs ! k) = filter (valid_with g (fst (gs ! k))) ?ids \<and> snd (gs ! k) \<noteq> []"
    if "k < length gs" for k
  proof -
    have "map_of gs (fst (gs ! k)) = Some (snd (gs ! k))" using d nth_mem[OF that] by simp
    then show ?thesis using look[of "fst (gs ! k)"] by (simp split: if_splits)
  qed
  have flags: "map os_scopeBitFlags infos = map fst gs"
    by (rule nth_equalityI) (simp_all add: len nth)
  have covered: "\<exists>s\<in>set infos. i \<in> set (os_nodeIds s)"
    if i: "i \<in> set (sg_nodeIds g)" "IsValidNodeForScope (GetNodeById g i)" for i
  proof -
    obtain n where n: "GetNodeById g i = Some n" using i(2) by (cases "GetNodeById g i") (auto simp: IsValidNodeForScope_def)
    let ?fl = "filter (valid_with g (nd_scopeBitFlags n)) ?ids"
    have "i \<in> set ?fl" using i n by (simp add: GetSortedNodeIds_def valid_with_def)
    then have "?fl \<noteq> []" by (metis empty_iff list.set(1))
    then have "map_of gs (nd_scopeBitFlags n) = Some ?fl" unfolding look by simp
    then have "(nd_scopeBitFlags n, ?fl) \<in> set gs" by (rule map_of_SomeD)
    then obtain k where k: "k < length gs" "gs ! k = (nd_scopeBitFlags n, ?fl)" by (metis in_set_conv_nth)
    have "infos ! k \<in> set infos" by (rule nth_mem) (simp add: len k(1))
    moreover have "os_nodeIds (infos ! k) = ?fl" using nth[OF k(1)] k(2) by simp
    ultimately show ?thesis using \<open>i \<in> set ?fl\<close> by metis
  qed
  have "sg_originalScopeInfos (ParseOriginalScopes g) = infos"
    using assms by (simp add: ParseOriginalScopes_def GroupNodesByScopeBitFlags_def infos_def gs_def
        Let_def split_beta)
  moreover have "\<forall>k<length infos. os_scopeId (infos ! k) = of_nat k \<and> os_nodeIds (infos ! k) \<noteq> [] \<and>
       os_nodeIds (infos ! k) = filter (valid_with g (os_scopeBitFlags (infos ! k))) ?ids"
  proof (intro allI impI)
    fix k assume "k < length infos"
    then have k: "k < length gs" by (simp add: len)
    show "os_scopeId (infos ! k) = of_nat k \<and> os_nodeIds (infos ! k) \<noteq> [] \<and>
        os_nodeIds (infos ! k) = filter (valid_with g (os_scopeBitFlags (infos ! k))) ?ids"
      unfolding nth[OF k] original_scope_info.simps using group[OF k] by blast
  qed
  moreover have "distinct (map os_scopeBitFlags infos)" using d flags by simp
  ultimately show ?thesis using covered by blast
qed

section \<open>Witnesses\<close>

text \<open>A registered scope around one kernel, and a kernel outside of it.\<close>

definition sample_scope_kernel :: "bool \<Rightarrow> string \<Rightarrow> node_id \<Rightarrow> sk_node" where
  "sample_scope_kernel isBegin name i = (sample_node KernelNode NODE_KERNEL INVALID_TASK_ID i INVALID_TASK_ID)
     \<lparr> nd_isScopeNode := True, nd_isFusible := True, nd_isScopeBegin := isBegin,
       nd_isScopeEnd := \<not> isBegin, nd_scopeName := name \<rparr>"

definition sample_scopes :: "string \<Rightarrow> sk_graph" where
  "sample_scopes name = (sample_graph [sample_scope_kernel True name 1,
      (sample_node KernelNode NODE_KERNEL INVALID_TASK_ID 2 INVALID_TASK_ID)\<lparr> nd_isFusible := True \<rparr>,
      sample_scope_kernel False name 3,
      (sample_node KernelNode NODE_KERNEL INVALID_TASK_ID 4 INVALID_TASK_ID)\<lparr> nd_isFusible := True \<rparr>])
     \<lparr> sg_scopeNameToIdx := [(''A'', 0)] \<rparr>"

lemma sample_scopes_get: "GetNodeById (sample_scopes name) i =
   (if i = 1 then Some (sample_scope_kernel True name 1)
    else if i = 2 then Some ((sample_node KernelNode NODE_KERNEL INVALID_TASK_ID 2 INVALID_TASK_ID)\<lparr> nd_isFusible := True \<rparr>)
    else if i = 3 then Some (sample_scope_kernel False name 3)
    else if i = 4 then Some ((sample_node KernelNode NODE_KERNEL INVALID_TASK_ID 4 INVALID_TASK_ID)\<lparr> nd_isFusible := True \<rparr>)
    else None)"
  by (simp add: GetNodeById_def sample_scopes_def sample_graph_def sample_scope_kernel_def sample_node_def)

lemma sample_scopes_ok:
  "graph_ok (sample_scopes name)" "begins_registered (sample_scopes ''A'')"
  "scope_table_ok (sg_scopeNameToIdx (sample_scopes name))"
proof -
  show "graph_ok (sample_scopes name)"
    by (auto simp: graph_ok_def sample_scopes_def sample_graph_def sample_scope_kernel_def sample_node_def
        split: if_splits)
  show "begins_registered (sample_scopes ''A'')"
    unfolding begins_registered_def sample_scopes_get
    by (auto simp: both_ends_def sample_scopes_def sample_scope_kernel_def sample_node_def new_node_def
        node_getter_defs split: if_splits)
  show "scope_table_ok (sg_scopeNameToIdx (sample_scopes name))"
    by (simp add: scope_table_ok_def sample_scopes_def MAX_SCOPE_NUM_def)
qed

lemma UpdateNodeScopeBitFlags_spec_witness:
  "let g = sample_scopes ''A''; n = the (GetNodeById g 2) in
   \<exists>h m. UpdateNodeScopeBitFlags g = Inr h \<and> GetNodeById h 2 = Some m \<and>
    nd_scopeBitFlags m = {unat k | s k. (s, k) \<in> set (sg_scopeNameToIdx g) \<and> in_scope g 2 n s}"
proof -
  have "GetNodeById (sample_scopes ''A'') 2 = Some (the (GetNodeById (sample_scopes ''A'') 2))"
    by (simp add: sample_scopes_get)
  from UpdateNodeScopeBitFlags_spec[OF sample_scopes_ok(1,2,3) this] show ?thesis
    unfolding Let_def by blast
qed

lemma UpdateNodeScopeBitFlags_unregistered_witness:
  "UpdateNodeScopeBitFlags (sample_scopes '''') = Inl OutOfRange"
proof (rule UpdateNodeScopeBitFlags_unregistered[OF sample_scopes_ok(1)])
  show "GetNodeById (sample_scopes '''') 1 = Some (sample_scope_kernel True '''' 1)"
    by (simp add: sample_scopes_get)
qed (simp_all add: sample_scope_kernel_def sample_node_def new_node_def node_getter_defs sample_scopes_def)

lemma ParseOriginalScopes_groups_witness:
  "let g = upd_node 2 (\<lambda>n. n\<lparr> nd_scopeBitFlags := {0} \<rparr>) (sample_scopes ''A'') in
   \<exists>infos. sg_originalScopeInfos (ParseOriginalScopes g) = infos \<and> length infos = 1 \<and>
    distinct (map os_scopeBitFlags infos)"
proof -
  let ?g = "upd_node 2 (\<lambda>n. n\<lparr> nd_scopeBitFlags := {0} \<rparr>) (sample_scopes ''A'')"
  have "fst (CheckScopeNodeTypes (GetSortedNodeIds ?g) ?g)" by code_simp
  from ParseOriginalScopes_groups[OF this] have "\<exists>infos. sg_originalScopeInfos (ParseOriginalScopes ?g) = infos \<and>
    distinct (map os_scopeBitFlags infos)" by blast
  moreover have "length (sg_originalScopeInfos (ParseOriginalScopes ?g)) = 1" by code_simp
  ultimately show ?thesis unfolding Let_def by blast
qed

end
