(* ===== verification/Sk_Graph_Init.thy ===== *)
theory Sk_Graph_Init
  imports Sk_Graph_Scope
begin

text \<open>
  The initialisation of the graph (\<^verbatim>\<open>InitSKGraph\<close> of \<^verbatim>\<open>sk_graph.cpp\<close>) as the composition of its
  passes: building from the streams, scope flags, original scopes, classification of memory nodes,
  links of events and kernel edges. The lemmas carry the invariants of one pass to the next.
\<close>

section \<open>The composed operation\<close>

text \<open>
  \<open>InitStreamsFromModelRI\<close> asks the runtime for the streams of the model, \<open>None\<close> if one of its two calls
  fails. The model id and label that \<^verbatim>\<open>CaptureCurrentModelContext\<close> copies into the graph are read by
  dumps and by the event recorder only and are not part of the state here.
\<close>

definition InitFromModelRI :: "rt_task list option list option \<Rightarrow> sk_graph \<Rightarrow> (bool \<times> sk_graph) run" where
  "InitFromModelRI model g = (case model of None \<Rightarrow> Inr (False, g)
     | Some streams \<Rightarrow> ProcessAllStreamsAndTasks streams g)"

text \<open>The fuel is the bound the kernel searches need: one more than the number of nodes.\<close>

definition InitSKGraph :: "rt_task list option list option \<Rightarrow> sk_graph \<Rightarrow> (bool \<times> sk_graph) run" where
  "InitSKGraph model g0 =
    bindR (InitFromModelRI model g0) (\<lambda>(ok, g1).
      if \<not> ok then Inr (False, g1)
      else bindR (UpdateNodeScopeBitFlags g1) (\<lambda>g2.
        let g3 = ParseOriginalScopes g2; (ok2, g4) = PostProcessMemoryNode g3
        in if \<not> ok2 then Inr (False, g4)
           else let g5 = BuildEventNodeAssociations g4
                in bindR (AddEventAssociate (Suc (length (sg_nodeIds g5))) g5) (\<lambda>g6. Inr (True, g6))))"

section \<open>The scope table the builder makes\<close>

definition scope_names_ok :: "sk_graph \<Rightarrow> bool" where
  "scope_names_ok g \<longleftrightarrow> distinct (map fst (sg_scopeNameToIdx g)) \<and>
     '''' \<notin> fst ` set (sg_scopeNameToIdx g) \<and>
     map snd (sg_scopeNameToIdx g) = map of_nat [0..<length (sg_scopeNameToIdx g)] \<and>
     length (sg_scopeNameToIdx g) \<le> MAX_SCOPE_NUM \<and>
     (\<forall>k s. map_of (sg_scopeIdxToName g) k = Some s \<longleftrightarrow> (s, k) \<in> set (sg_scopeNameToIdx g))"

definition begin_ok :: "(string \<times> u32) list \<Rightarrow> sk_node \<Rightarrow> bool" where
  "begin_ok tab n \<longleftrightarrow> (IsScopeBegin n \<or> IsScopeEnd n \<longrightarrow> nd_isScopeNode n) \<and> \<not> both_ends n \<and>
     (IsScopeBegin n \<and> nd_isFusible n \<and> GetScopeName n \<noteq> '''' \<longrightarrow> GetScopeName n \<in> fst ` set tab)"

definition no_edges :: "sk_node \<Rightarrow> bool" where
  "no_edges n \<longleftrightarrow> nd_sendToNodeId n = {} \<and> nd_receiveNodeId n = {}"

definition scopes_ok :: "sk_graph \<Rightarrow> bool" where
  "scopes_ok g \<longleftrightarrow> scope_names_ok g \<and>
     (\<forall>i n. GetNodeById g i = Some n \<longrightarrow> begin_ok (sg_scopeNameToIdx g) n \<and> no_edges n)"

lemma scope_indices:
  assumes "scope_names_ok g" and "(s, k) \<in> set (sg_scopeNameToIdx g)"
  shows "unat k < length (sg_scopeNameToIdx g)"
proof -
  have len: "length (sg_scopeNameToIdx g) \<le> 1024" using assms(1) by (simp add: scope_names_ok_def MAX_SCOPE_NUM_def)
  have "k \<in> set (map snd (sg_scopeNameToIdx g))" using assms(2) by force
  moreover have "map snd (sg_scopeNameToIdx g) = map of_nat [0..<length (sg_scopeNameToIdx g)]"
    using assms(1) by (simp add: scope_names_ok_def)
  ultimately have "k \<in> of_nat ` {0..<length (sg_scopeNameToIdx g)}" by (metis set_map set_upt)
  then obtain j where "k = of_nat j" "j < length (sg_scopeNameToIdx g)" by auto
  then show ?thesis using len by (simp add: unat_of_nat)
qed

lemma fresh_index:
  assumes "scope_names_ok g" and "length (sg_scopeNameToIdx g) < MAX_SCOPE_NUM"
  shows "(s, of_nat (length (sg_scopeNameToIdx g))) \<notin> set (sg_scopeNameToIdx g)"
  using scope_indices[OF assms(1), of s "of_nat (length (sg_scopeNameToIdx g))"] assms(2)
  by (auto simp: unat_of_nat MAX_SCOPE_NUM_def)

lemma RegisterFusibleScope_names:
  assumes "scope_names_ok g" and "RegisterFusibleScope n g = (m, h)"
  shows "scope_names_ok h" and "set (sg_scopeNameToIdx g) \<subseteq> set (sg_scopeNameToIdx h)"
proof -
  show "set (sg_scopeNameToIdx g) \<subseteq> set (sg_scopeNameToIdx h)"
    using assms(2) by (auto simp: RegisterFusibleScope_def Let_def split: if_splits)
  let ?l = "length (sg_scopeNameToIdx g)"
  have "h = g \<or> ?l < MAX_SCOPE_NUM \<and> GetScopeName n \<noteq> '''' \<and>
      GetScopeName n \<notin> fst ` set (sg_scopeNameToIdx g) \<and>
      h = g\<lparr> sg_scopeNameToIdx := sg_scopeNameToIdx g @ [(GetScopeName n, of_nat ?l)],
            sg_scopeIdxToName := AList.update (of_nat ?l) (GetScopeName n) (sg_scopeIdxToName g) \<rparr>"
    using assms(2) by (auto simp: RegisterFusibleScope_def Let_def map_of_eq_None_iff not_le split: if_splits)
  then show "scope_names_ok h"
    using assms(1) fresh_index[OF assms(1)]
    by (elim disjE conjE) (auto simp: scope_names_ok_def update_conv' split: if_splits)
qed

text \<open>What a node says about scopes; every later stage of the initialisation keeps it.\<close>

definition same_scope :: "sk_node \<Rightarrow> sk_node \<Rightarrow> bool" where
  "same_scope n m \<longleftrightarrow> nd_class m = nd_class n \<and> nd_isScopeNode m = nd_isScopeNode n \<and>
     nd_isScopeBegin m = nd_isScopeBegin n \<and> nd_isScopeEnd m = nd_isScopeEnd n \<and>
     nd_scopeName m = nd_scopeName n"

lemma same_scope_stages:
  "same_scope n (upd_kernel f n)"
  "same_scope n (resolve_kernel env n)"
  "same_scope n (IdentifyAndHandleSimtKernel env n)"
  "same_scope n (SetFusionFailReason r (n\<lparr> nd_isFusible := b \<rparr>))"
  by (auto simp: same_scope_def upd_kernel_def resolve_kernel_def fail_reason_defs Let_def
      IdentifyAndHandleSimtKernel_def split: prod.split option.split)

lemma same_scope_trans: "same_scope a b \<Longrightarrow> same_scope b c \<Longrightarrow> same_scope a c"
  by (simp add: same_scope_def)

definition flags_need_node :: "sk_node \<Rightarrow> bool" where
  "flags_need_node n \<longleftrightarrow> (nd_isScopeBegin n \<or> nd_isScopeEnd n \<longrightarrow> nd_isScopeNode n) \<and>
     \<not> (nd_isScopeBegin n \<and> nd_isScopeEnd n)"

text \<open>No kernel name is both that of a begin and that of an end.\<close>

lemma scope_kernel_name:
  assumes "IsScopeKernel env = Some i"
  shows "\<not> (jt_isBegin i \<and> jt_isEnd i)"
proof
  assume "jt_isBegin i \<and> jt_isEnd i"
  then obtain name where
    "IsScopeKernelNameWithSupportedArch name ''sk_scope_kernel_begin''"
    "IsScopeKernelNameWithSupportedArch name ''sk_scope_kernel_end''"
    using assms by (auto simp: IsScopeKernel_def Let_def split: option.splits if_splits)
  then have b: "take (length ''sk_scope_kernel_begin'') name = ''sk_scope_kernel_begin''"
    and e: "take (length ''sk_scope_kernel_end'') name = ''sk_scope_kernel_end''"
    unfolding IsScopeKernelNameWithSupportedArch_def by blast+
  have "min (length ''sk_scope_kernel_end'') (length ''sk_scope_kernel_begin'') = length ''sk_scope_kernel_end''"
    by simp
  then have "take (length ''sk_scope_kernel_end'') (take (length ''sk_scope_kernel_begin'') name) =
      take (length ''sk_scope_kernel_end'') name"
    by (simp only: take_take)
  then have "take (length ''sk_scope_kernel_end'') ''sk_scope_kernel_begin'' = ''sk_scope_kernel_end''"
    by (simp only: b e)
  then show False by simp
qed

lemma same_scope_flags: "same_scope n m \<Longrightarrow> flags_need_node m \<longleftrightarrow> flags_need_node n"
  by (simp add: same_scope_def flags_need_node_def)

lemma InitNode_flags:
  assumes "InitNode tp c = (True, n)" and "flags_need_node c"
  shows "flags_need_node n"
proof (cases "nd_class c")
  case KernelNode
  then have "KernelInitNode tp c = (True, n)" using assms(1) by (simp add: InitNode_def)
  then show ?thesis
  proof (cases rule: KernelInitNode_cases)
    case (1 n0 kt ratio binHdl fname)
    have "flags_need_node n0"
      using 1(1) assms(2) by (auto simp: BaseInitNode_def flags_need_node_def split: option.splits)
    then have "flags_need_node (case IsScopeKernel (tp_env tp) of None \<Rightarrow> n0\<lparr> nd_nodeType := NODE_KERNEL \<rparr>
        | Some i \<Rightarrow> apply_scope_kernel i (n0\<lparr> nd_nodeType := NODE_KERNEL \<rparr>))"
      using scope_kernel_name by (auto simp: flags_need_node_def apply_scope_kernel_def split: option.split)
    then have "flags_need_node (kernel_named tp kt ratio binHdl fname n0)"
      by (simp add: kernel_named_def Let_def flags_need_node_def upd_kernel_def)
    then have "flags_need_node (IdentifyAndHandleSimtKernel (tp_env tp)
        (resolve_kernel (tp_env tp) (kernel_named tp kt ratio binHdl fname n0)))"
      using same_scope_flags[OF same_scope_trans[OF same_scope_stages(2,3)]] by blast
    then show ?thesis unfolding 1(3) Let_def
      using same_scope_flags[OF same_scope_stages(4)] by auto
  qed
next
  case MemoryNode
  then show ?thesis using assms
    by (auto simp: InitNode_def MemoryInitNode_def BaseInitNode_def Let_def check_external_def
        upd_sync_def fail_reason_defs flags_need_node_def
        split: option.splits if_splits rt_node_type.splits)
next
  case DefaultNode
  then show ?thesis using assms
    by (auto simp: InitNode_def DefaultInitNode_def BaseInitNode_def Let_def flags_need_node_def
        split: option.splits)
qed

lemma CreateNode_flags: "flags_need_node (CreateNode ty idx sidx sid pre)"
  by (simp add: CreateNode_def new_node_def flags_need_node_def split: rt_node_type.split)

lemma RegisterFusibleScope_begin_ok:
  assumes "RegisterFusibleScope n g = (m, h)" and "flags_need_node n" and "node_class_ok n"
  shows "begin_ok (sg_scopeNameToIdx h) m"
  using assms
  by (auto simp: RegisterFusibleScope_def Let_def begin_ok_def both_ends_def flags_need_node_def node_class_ok_def
      node_getter_defs fail_reason_defs map_of_eq_None_iff split: if_splits node_class.splits)

lemma begin_ok_next: "begin_ok tab (n\<lparr> nd_nextNodeId := x \<rparr>) = begin_ok tab n"
  by (cases "nd_class n") (simp_all add: begin_ok_def both_ends_def node_getter_defs)

lemma begin_ok_mono:
  "begin_ok tab n \<Longrightarrow> set tab \<subseteq> set tab' \<Longrightarrow> begin_ok tab' n"
  by (auto simp: begin_ok_def)

lemma ProcessSingleTask_scopes:
  assumes g: "scopes_ok g" and ok: "ProcessSingleTask t streamIdx k pre g = Inr (True, pre', h)"
  shows "scopes_ok h"
proof -
  obtain ty sid n m g1 g2 where init: "InitNode (rt_params t)
      (CreateNode ty (of_nat k) (of_nat streamIdx) sid pre) = (True, n)"
    and reg: "RegisterFusibleScope n g = (m, g1)" and add: "AddNode m g1 = (True, g2)"
    and link: "UpdateNodeRelations (nd_nodeId m) k pre g2 = Inr (pre', h)"
    using ok by (auto simp: ProcessSingleTask_def Let_def split: option.splits prod.splits if_splits)
  have m: "begin_ok (sg_scopeNameToIdx g1) m"
    using RegisterFusibleScope_begin_ok[OF reg InitNode_flags[OF init CreateNode_flags]]
      InitNode_well_formed[OF init] by blast
  have m': "no_edges m"
    using RegisterFusibleScope_same(1)[OF reg] InitNode_well_formed[OF init]
    by (simp add: no_edges_def same_kind_def same_place_def)
  note names = RegisterFusibleScope_names[OF _ reg]
  have g1: "scope_names_ok g1" "GetNodeById g1 = GetNodeById g"
    using names(1) g RegisterFusibleScope_same(3)[OF reg] by (auto simp: scopes_ok_def GetNodeById_def)
  have g2: "sg_scopeNameToIdx g2 = sg_scopeNameToIdx g1" "sg_scopeIdxToName g2 = sg_scopeIdxToName g1"
    "GetNodeById g2 = (GetNodeById g1)(nd_nodeId m \<mapsto> m)"
    using add by (auto simp: AddNode_def Let_def associate_defs set_event_info_def set_memory_info_def
        GetNodeById_def split: if_splits sk_node_type.splits)
  have "begin_ok (sg_scopeNameToIdx g2) n' \<and> no_edges n'" if "GetNodeById g2 i = Some n'" for i n'
    using that g2 g1(2) m m' g names(2) begin_ok_mono by (fastforce simp: scopes_ok_def split: if_splits)
  then have "scopes_ok g2" using g1(1) g2(1,2) by (simp add: scopes_ok_def scope_names_ok_def)
  moreover have "sg_scopeNameToIdx h = sg_scopeNameToIdx g2" "sg_scopeIdxToName h = sg_scopeIdxToName g2"
    using link by (auto simp: UpdateNodeRelations_def Let_def split: if_splits)
  moreover have "\<exists>n''. GetNodeById g2 i = Some n'' \<and> (\<forall>tab. begin_ok tab n' = begin_ok tab n'') \<and>
      no_edges n' = no_edges n''"
    if "GetNodeById h i = Some n'" for i n'
    using link that by (auto simp: UpdateNodeRelations_def Let_def begin_ok_next GetNodeById_def no_edges_def
        graphMap_upd_node split: if_splits)
  ultimately show ?thesis unfolding scopes_ok_def scope_names_ok_def by metis
qed

text \<open>The loops over tasks and streams: an invariant of the single step that ignores counters.\<close>

lemma process_streams_scopes:
  "process_tasks ts streamIdx k pre g = Inr (True, h) \<Longrightarrow> scopes_ok g \<Longrightarrow> scopes_ok h"
  "process_streams ss streamIdx g = Inr (True, h) \<Longrightarrow> scopes_ok g \<Longrightarrow> scopes_ok h"
proof -
  show tasks: "process_tasks ts streamIdx k pre g = Inr (True, h) \<Longrightarrow> scopes_ok g \<Longrightarrow> scopes_ok h"
    for ts streamIdx k pre g h
    by (induction ts arbitrary: k pre g) (auto split: if_splits dest: ProcessSingleTask_scopes)
  show "process_streams ss streamIdx g = Inr (True, h) \<Longrightarrow> scopes_ok g \<Longrightarrow> scopes_ok h"
  proof (induction ss arbitrary: streamIdx g)
    case (Cons s ss)
    then obtain ts g' where s: "s = Some ts" "process_tasks ts streamIdx 0 INVALID_TASK_ID
        (g\<lparr> sg_nodeSizeInStream := sg_nodeSizeInStream g @ [of_nat (length ts)] \<rparr>) = Inr (True, g')"
      "process_streams ss (Suc streamIdx) g' = Inr (True, h)"
      by (cases s) (auto split: if_splits)
    have "scopes_ok (g\<lparr> sg_nodeSizeInStream := sg_nodeSizeInStream g @ [of_nat (length ts)] \<rparr>)"
      using Cons.prems(2) by (simp add: scopes_ok_def scope_names_ok_def GetNodeById_def)
    from tasks[OF s(2) this] Cons.IH[OF s(3)] show ?case by simp
  qed simp
qed

lemma scopes_ok_empty: "scopes_ok empty_graph"
  by (simp add: scopes_ok_def scope_names_ok_def empty_graph_def GetNodeById_def)

text \<open>
  C30 \<^bold>\<open>Scope indices.\<close> A graph that was built successfully numbers its scopes: the names are
  distinct and not empty, the indices are the positions 0, 1, 2, ... below the size of the bitset,
  the reverse table is the converse of the table, and every fusible scope begin that has a name is
  registered.
\<close>

theorem ProcessAllStreamsAndTasks_scopes:
  assumes "ProcessAllStreamsAndTasks streams empty_graph = Inr (True, h)"
  shows "scopes_ok h"
  using process_streams_scopes(2)[OF assms[unfolded ProcessAllStreamsAndTasks_def] scopes_ok_empty] .

section \<open>What the passes keep\<close>

text \<open>The part of a node no pass after the building touches before the kernel edges are added.\<close>

definition shape :: "sk_node \<Rightarrow> node_id \<times> node_id \<times> node_id \<times> u32 \<times> u64 \<times> bool" where
  "shape n = (nd_nodeId n, nd_preNodeId n, nd_nextNodeId n, nd_streamIdxInGraph n,
     nd_nodeIdxInStream n, no_edges n)"

definition same_shape :: "sk_graph \<Rightarrow> sk_graph \<Rightarrow> bool" where
  "same_shape g h \<longleftrightarrow> sg_nodeIds h = sg_nodeIds g \<and>
     (\<forall>i. map_option shape (GetNodeById h i) = map_option shape (GetNodeById g i))"

lemma same_shape_refl [simp]: "same_shape g g"
  by (simp add: same_shape_def)

lemma same_shape_trans [trans]: "same_shape f g \<Longrightarrow> same_shape g h \<Longrightarrow> same_shape f h"
  by (simp add: same_shape_def)

lemma same_shape_upd: "(\<And>n. shape (f n) = shape n) \<Longrightarrow> same_shape g (upd_node i f g)"
  by (auto simp: same_shape_def option.map_comp o_def cong: map_option_cong)

lemma same_shape_event [simp]: "same_shape g (set_event_info e x h) = same_shape g h"
  by (simp add: same_shape_def)

lemma same_shape_associate [simp]:
  "same_shape g (snd (AddEventAssociateNotify e i h)) = same_shape g h"
  "same_shape g (snd (AddEventAssociateWait e i h)) = same_shape g h"
  "same_shape g (snd (AddEventAssociateReset e i h)) = same_shape g h"
  by (simp_all add: associate_defs Let_def)

lemma same_shapeD:
  assumes "same_shape g h" and "GetNodeById h i = Some m"
  obtains n where "GetNodeById g i = Some n" and "shape m = shape n"
proof -
  from assms have "map_option shape (GetNodeById g i) = Some (shape m)" by (metis option.map(2) same_shape_def)
  then show thesis using that by (auto simp: map_option_case split: option.splits)
qed

lemma same_shape_sym: "same_shape g h \<Longrightarrow> same_shape h g"
  by (simp add: same_shape_def)

lemma same_shape_graph_ok:
  assumes "same_shape g h" and "graph_ok g"
  shows "graph_ok h"
proof -
  have "dom (sg_graphMap h) = dom (sg_graphMap g)"
    using assms(1) by (auto simp: same_shape_def GetNodeById_def dom_def) (metis map_option_is_None not_None_eq)+
  moreover have "nd_nodeId m = i" if m: "sg_graphMap h i = Some m" for i m
  proof (rule same_shapeD[OF assms(1), of i m])
    show "GetNodeById h i = Some m" using m by (simp add: GetNodeById_def)
    fix n assume "GetNodeById g i = Some n" "shape m = shape n"
    then show "nd_nodeId m = i" using assms(2) by (simp add: graph_ok_def GetNodeById_def shape_def)
  qed
  ultimately show ?thesis using assms by (auto simp: graph_ok_def same_shape_def)
qed

lemma same_shape_linked:
  assumes "same_shape g h" and "streams_linked g"
  shows "streams_linked h"
  unfolding streams_linked_def
proof (intro allI impI)
  fix i m assume "GetNodeById h i = Some m"
  then obtain n where n: "GetNodeById g i = Some n" "shape m = shape n"
    by (rule same_shapeD[OF assms(1)])
  have transfer: "\<exists>m'. GetNodeById h j = Some m' \<and> shape m' = shape n'" if "GetNodeById g j = Some n'" for j n'
    using same_shapeD[OF same_shape_sym[OF assms(1)] that] by metis
  have "node_linked g i n" using assms(2) n(1) by (simp add: streams_linked_def)
  then show "node_linked h i m"
    using n(2) transfer by (fastforce simp: node_linked_def shape_def)
qed

lemma no_edges_ok:
  assumes "same_shape g h" and "\<And>i n. GetNodeById g i = Some n \<Longrightarrow> no_edges n"
  shows "edges_ok h"
proof -
  have "no_edges n" if "GetNodeById h i = Some n" for i n
    by (rule same_shapeD[OF assms(1) that]) (use assms(2) in \<open>auto simp: shape_def\<close>)
  then show ?thesis by (fastforce simp: edges_ok_def sends_def receives_def no_edges_def)
qed

subsection \<open>Classification and links keep the shape\<close>

lemma shape_convert:
  "shape (n\<lparr> nd_nodeType := t \<rparr>) = shape n" "shape (n\<lparr> nd_nodeType := t, nd_isFusible := b \<rparr>) = shape n"
  "shape (SetCorrespondingWaitNodeIds ws n) = shape n" "shape (SetCorrespondingNotifyNodeId N n) = shape n"
  "shape (n\<lparr> nd_syncInfos := s \<rparr>) = shape n"
  by (simp_all add: shape_def no_edges_def SetCorrespondingWaitNodeIds_def SetCorrespondingNotifyNodeId_def
      split: node_class.split)

lemma same_shape_step:
  "same_shape g h \<Longrightarrow> (\<And>n. shape (f n) = shape n) \<Longrightarrow> same_shape g (upd_node i f h)"
  by (rule same_shape_trans[OF _ same_shape_upd])

lemma same_shape_convert:
  assumes "same_shape g h"
  shows "convert_wait e fus w h = (b, h') \<Longrightarrow> same_shape g h'"
    and "convert_reset e w h = (b, h') \<Longrightarrow> same_shape g h'"
    and "convert_write e w h = (b, h') \<Longrightarrow> same_shape g h'"
proof -
  have "same_shape g (snd (convert_wait e fus w h))" "same_shape g (snd (convert_reset e w h))"
    "same_shape g (snd (convert_write e w h))"
    using assms by (auto simp: convert_wait_def convert_reset_def convert_write_def Let_def shape_convert
        intro!: same_shape_step split: option.split)
  then show "convert_wait e fus w h = (b, h') \<Longrightarrow> same_shape g h'"
    "convert_reset e w h = (b, h') \<Longrightarrow> same_shape g h'"
    "convert_write e w h = (b, h') \<Longrightarrow> same_shape g h'" by simp_all
qed

lemma same_shape_all_convert:
  assumes "same_shape g h"
  shows "all_ok (convert_wait e fus) ws h = (b, h') \<Longrightarrow> same_shape g h'"
    and "all_ok (convert_reset e) ws h = (b, h') \<Longrightarrow> same_shape g h'"
    and "all_ok (convert_write e) ws h = (b, h') \<Longrightarrow> same_shape g h'"
  by (erule all_ok_invariant[where P = "same_shape g"], rule assms, erule same_shape_convert, assumption)+

lemma same_shape_process_event:
  assumes "same_shape g h" and "process_memory_event p h = (True, h')"
  shows "same_shape g h'"
proof -
  have writes: "same_shape g h'" if "ProcessMemoryWriteNodes e info v f h = (True, h')" for e info v f
    using that
  proof (cases rule: ProcessMemoryWriteNodes_cases)
    case (1 fus g1 g2)
    have "same_shape g (snd (AddEventAssociateNotify e w
        (upd_node w (\<lambda>n. n\<lparr> nd_nodeType := NODE_NOTIFY, nd_isFusible := fus \<rparr>) h)))" for w
      using assms(1) by (auto simp: shape_convert intro!: same_shape_step)
    then have "same_shape g g1" using 1(1) assms(1) by (metis snd_conv)
    then have "same_shape g g2" using 1(2) by (rule same_shape_all_convert)
    then show ?thesis using 1(3) by (rule same_shape_all_convert)
  qed
  show ?thesis
    using assms(2) writes same_shape_all_convert[OF assms(1)]
    by (auto simp: process_memory_event_def split: prod.splits if_splits option.splits)
qed

lemma same_shape_PostProcess:
  assumes "PostProcessMemoryNode g = (True, h)"
  shows "same_shape g h"
  by (rule all_ok_keeps[OF assms[unfolded PostProcessMemoryNode_def], where P = "same_shape g"])
    (auto intro: same_shape_process_event)

lemma fold_same_shape:
  "(\<And>x h. same_shape h (f x h)) \<Longrightarrow> same_shape g (fold f xs g)"
proof (induction xs arbitrary: g)
  case (Cons x xs)
  then show ?case using same_shape_trans by fastforce
qed simp

lemma same_shape_links: "same_shape g (BuildEventNodeAssociations g)"
proof -
  have "same_shape h (link_wait N w h)" "same_shape h (link_reset rs r h)" for N w rs r h
    by (auto simp: link_wait_def link_reset_def shape_convert intro!: same_shape_step split: option.split)
  then have "same_shape h (link_event p h)" for p h
    by (auto simp: link_event_def Let_def shape_convert split: prod.split
        intro!: same_shape_trans[OF _ fold_same_shape] fold_same_shape same_shape_step)
  then show ?thesis unfolding BuildEventNodeAssociations_def by (rule fold_same_shape)
qed

lemma BuildEventNodeAssociations_events [simp]:
  "sg_eventToNodes (BuildEventNodeAssociations g) = sg_eventToNodes g"
proof -
  have wait: "sg_eventToNodes (fold (link_wait N) ws h) = sg_eventToNodes h" for N ws h
    by (induction ws arbitrary: h) (auto simp: link_wait_def split: option.split)
  have reset: "sg_eventToNodes (fold (link_reset rs) xs h) = sg_eventToNodes h" for rs xs h
    by (induction xs arbitrary: h) (auto simp: link_reset_def split: option.split)
  have "sg_eventToNodes (link_event p h) = sg_eventToNodes h" for p h
    by (simp add: link_event_def Let_def wait reset split: prod.split)
  then have "sg_eventToNodes (fold link_event ps h) = sg_eventToNodes h" for ps h
    by (induction ps arbitrary: h) simp_all
  then show ?thesis by (simp add: BuildEventNodeAssociations_def)
qed

subsection \<open>The kernel edges keep the links\<close>

definition same_sync :: "sk_graph \<Rightarrow> sk_graph \<Rightarrow> bool" where
  "same_sync g h \<longleftrightarrow> sg_eventToNodes h = sg_eventToNodes g \<and>
     (\<forall>i. map_option (\<lambda>n. (nd_class n, nd_syncInfos n)) (GetNodeById h i) =
          map_option (\<lambda>n. (nd_class n, nd_syncInfos n)) (GetNodeById g i))"

lemma add_send_recv_sync: "same_sync g h \<Longrightarrow> same_sync g (add_send_recv s r h)"
  by (auto simp: same_sync_def add_send_recv_def option.map_comp o_def cong: map_option_cong)

lemma AddEventAssociate_sync:
  assumes "AddEventAssociate fuel g = Inr h"
  shows "same_sync g h"
proof (rule foldR_invariant[OF assms[unfolded AddEventAssociate_def], where P = "same_sync g"])
  fix p u v assume "same_sync g u" "associate_event fuel p u = Inr v"
  then show "same_sync g v"
    by (auto simp: associate_event_def add_send_recv_sync split: prod.splits if_splits
        elim!: foldR_invariant[where P = "same_sync g"])
qed (simp add: same_sync_def)

lemma entry_linked_sync:
  assumes "same_sync g h" and "entry_linked g p"
  shows "entry_linked h p"
proof -
  have "\<exists>m. GetNodeById h i = Some m \<and> GetCorrespondingWaitNodeIds m = GetCorrespondingWaitNodeIds n \<and>
      GetCorrespondingNotifyNodeId m = GetCorrespondingNotifyNodeId n" if "GetNodeById g i = Some n" for i n
  proof -
    have "map_option (\<lambda>n. (nd_class n, nd_syncInfos n)) (GetNodeById h i) = Some (nd_class n, nd_syncInfos n)"
      using assms(1) that by (simp add: same_sync_def)
    then show ?thesis
      by (auto simp: GetCorrespondingWaitNodeIds_def GetCorrespondingNotifyNodeId_def split: node_class.split)
  qed
  then show ?thesis using assms(2) unfolding entry_linked_def by (fastforce split: prod.splits)
qed

section \<open>The passes composed\<close>

lemma scoped_shape:
  assumes "scoped g ids h"
  shows "same_shape g h"
proof -
  have "shape (marked b n st) = shape n" for b n st by (simp add: shape_def no_edges_def)
  then show ?thesis using assms
    by (auto simp: scoped_def same_shape_def option.map_comp o_def cong: map_option_cong)
qed

lemma scoped_events:
  assumes "scoped g ids h"
  shows "events_ok g \<Longrightarrow> events_ok h" and "memory_ok g \<Longrightarrow> memory_ok h"
proof -
  have keep: "\<exists>m. GetNodeById h i = Some m \<and> nd_nodeType m = nd_nodeType n \<and> nd_class m = nd_class n \<and>
      GetEventId m = GetEventId n" if "GetNodeById g i = Some n" for i n
    using assms that by (cases "i \<in> set ids") (auto simp: scoped_def GetEventId_def split: node_class.split)
  have same: "sg_eventToNodes h = sg_eventToNodes g" "sg_memoryToNodes h = sg_memoryToNodes g"
    using assms by (simp_all add: scoped_def)
  have "event_node h t e i" if "event_node g t e i" for t e i
    using that keep unfolding event_node_def by metis
  then show "events_ok g \<Longrightarrow> events_ok h"
    using same by (auto simp: events_ok_def event_entry_ok_def)
  have "sync_node h e i" if "sync_node g e i" for e i
    using that keep unfolding sync_node_def by metis
  then show "memory_ok g \<Longrightarrow> memory_ok h"
    using same by (auto simp: memory_ok_def memory_entry_ok_def)
qed

lemma ParseOriginalScopes_simps [simp]:
  "GetNodeById (ParseOriginalScopes g) = GetNodeById g"
  "sg_nodeIds (ParseOriginalScopes g) = sg_nodeIds g"
  "sg_eventToNodes (ParseOriginalScopes g) = sg_eventToNodes g"
  "sg_memoryToNodes (ParseOriginalScopes g) = sg_memoryToNodes g"
  by (simp_all add: ParseOriginalScopes_def Let_def GetNodeById_def fun_eq_iff split: prod.split)

definition unnamed_fusible_begin :: "sk_graph \<Rightarrow> bool" where
  "unnamed_fusible_begin g \<longleftrightarrow>
     (\<exists>i n. GetNodeById g i = Some n \<and> IsScopeBegin n \<and> nd_isFusible n \<and> GetScopeName n = '''')"

lemma scopes_fit:
  assumes "scopes_ok g" and "graph_ok g"
  shows "flags_fit g (GetSortedNodeIds g) \<longleftrightarrow> \<not> unnamed_fusible_begin g"
proof
  assume fit: "flags_fit g (GetSortedNodeIds g)"
  show "\<not> unnamed_fusible_begin g"
  proof
    assume "unnamed_fusible_begin g"
    then obtain i n where n: "GetNodeById g i = Some n" "IsScopeBegin n" "nd_isFusible n" "GetScopeName n = ''''"
      by (auto simp: unnamed_fusible_begin_def)
    then have "i \<in> set (GetSortedNodeIds g)"
      using assms(2) by (auto simp: graph_ok_def GetSortedNodeIds_def GetNodeById_def)
    moreover have "\<not> both_ends n" using n(1) assms(1) by (simp add: scopes_ok_def begin_ok_def)
    ultimately have "flags_in_range (stack_at g (GetSortedNodeIds g) i n)"
      using fit n(1) by (auto simp: flags_fit_def fits_def)
    moreover have "GetScopeIdx n (sg_scopeNameToIdx g) = MAX_SCOPE_IDX"
      using n assms(1) by (auto simp: GetScopeIdx_def scopes_ok_def scope_names_ok_def
          map_of_eq_None_iff[symmetric] simp del: map_of_eq_None_iff)
    ultimately show False
      using n by (auto simp: stack_at_def seen_stack_def flags_in_range_def ProcessScopeBegin_def Let_def
          MAX_SCOPE_IDX_def MAX_SCOPE_NUM_def)
  qed
next
  assume named: "\<not> unnamed_fusible_begin g"
  show "flags_fit g (GetSortedNodeIds g)"
    unfolding flags_fit_def fits_def flags_in_range_def
  proof (intro ballI allI impI disjI2)
    fix i n e
    assume i: "GetNodeById g i = Some n" and e: "e \<in> set (stack_at g (GetSortedNodeIds g) i n)" "se_isFusible e"
    from stack_entry_from[OF i e(1)] obtain j m where
      m: "GetNodeById g j = Some m" "entry_from (sg_scopeNameToIdx g) m e" .
    then have "GetScopeName m \<in> fst ` set (sg_scopeNameToIdx g)"
      using named e(2) assms(1) by (auto simp: entry_from_def scopes_ok_def begin_ok_def unnamed_fusible_begin_def)
    then obtain k where k: "map_of (sg_scopeNameToIdx g) (GetScopeName m) = Some k"
      by (metis map_of_eq_None_iff not_None_eq)
    then have "se_scopeIdx e = k" using m(2) e(2) by (simp add: entry_from_def GetScopeIdx_def)
    then show "unat (se_scopeIdx e) < MAX_SCOPE_NUM"
      using scope_indices[of g "GetScopeName m" k] map_of_SomeD[OF k] assms(1)
      by (auto simp: scopes_ok_def scope_names_ok_def)
  qed
qed

lemma events_ids_known:
  assumes "events_ok g" and "same_shape g h" and "p \<in> set (sg_eventToNodes g)"
  shows "event_ids_known h p"
proof -
  obtain e info where p: "p = (e, info)" by (cases p)
  have "event_entry_ok g (e, info)" using assms(1,3) p by (simp add: events_ok_def)
  then have "\<exists>n. GetNodeById g i = Some n" if "i \<in> event_nodes info" for i
    using that by (auto simp: event_entry_ok_def event_nodes_def event_node_def split: if_splits)
  then have "\<exists>m. GetNodeById h i = Some m" if "i \<in> event_nodes info" for i
    using that same_shapeD[OF same_shape_sym[OF assms(2)]] by metis
  then show ?thesis using p by (auto simp: event_ids_known_def GetNodeById_def)
qed

lemma built:
  assumes "ProcessAllStreamsAndTasks streams empty_graph = Inr (True, g)"
    and "\<forall>ts. Some ts \<in> set streams \<longrightarrow> length ts \<le> 2 ^ 32" and "length streams \<le> 2 ^ 32"
  shows "build_ok g" and "scopes_ok g"
proof -
  show "build_ok g"
    using process_streams_ok[OF build_ok_empty assms(2), of 0] assms(1,3)
    by (auto simp: ProcessAllStreamsAndTasks_def)
  show "scopes_ok g"
    using process_streams_scopes(2) assms(1) scopes_ok_empty by (auto simp: ProcessAllStreamsAndTasks_def)
qed

text \<open>From a built graph whose scope flags fit, the rest of the initialisation does not fault.\<close>

lemma InitSKGraph_rest:
  assumes g: "build_ok g1" "scopes_ok g1" and sc: "scoped g1 ids g2"
    and post: "PostProcessMemoryNode (ParseOriginalScopes g2) = (True, g4)"
  shows "\<exists>h. AddEventAssociate (Suc (length (sg_nodeIds (BuildEventNodeAssociations g4))))
      (BuildEventNodeAssociations g4) = Inr h \<and>
    graph_ok h \<and> streams_linked h \<and> edges_ok h \<and> (\<forall>p\<in>set (sg_eventToNodes h). entry_linked h p)"
proof -
  let ?g5 = "BuildEventNodeAssociations g4"
  have ev: "events_ok (ParseOriginalScopes g2)" "memory_ok (ParseOriginalScopes g2)"
    using scoped_events[OF sc] g(1)
    by (simp_all add: build_ok_def memory_table_ok_def events_ok_def event_entry_ok_def event_node_def
        memory_ok_def memory_entry_ok_def sync_node_def)
  note ev4 = PostProcessMemoryNode_events_ok[OF ev post]
  have "same_shape g2 (ParseOriginalScopes g2)" by (simp add: same_shape_def)
  with same_shape_PostProcess[OF post] scoped_shape[OF sc] have s4: "same_shape g1 g4"
    using same_shape_trans by blast
  then have s5: "same_shape g1 ?g5" using same_shape_links same_shape_trans by blast
  have g5: "graph_ok ?g5" "streams_linked ?g5"
    using same_shape_graph_ok[OF s5] same_shape_linked[OF s5] g(1) by (simp_all add: build_ok_def)
  have e5: "edges_ok ?g5" using no_edges_ok[OF s5] g(2) by (auto simp: scopes_ok_def)
  have "\<forall>p\<in>set (sg_eventToNodes ?g5). event_ids_known ?g5 p"
    using events_ids_known[OF ev4 same_shape_links] by simp
  from AddEventAssociate_total[OF g5 e5 this lessI] obtain h where
    h: "AddEventAssociate (Suc (length (sg_nodeIds ?g5))) ?g5 = Inr h" "edges_ok h" "same_streams ?g5 h" by blast
  note sync = AddEventAssociate_sync[OF h(1)]
  have "entry_linked h p" if "p \<in> set (sg_eventToNodes h)" for p
    using entry_linked_sync[OF sync] BuildEventNodeAssociations_linked[OF ev4] that sync
    by (simp add: same_sync_def)
  then show ?thesis using h same_streams_ok[OF h(3) g5] by blast
qed

lemma InitSKGraph_after_build:
  assumes g: "ProcessAllStreamsAndTasks streams empty_graph = Inr (True, g1)" "build_ok g1" "scopes_ok g1"
  shows "if unnamed_fusible_begin g1 then InitSKGraph (Some streams) empty_graph = Inl OutOfRange
    else \<exists>ok h. InitSKGraph (Some streams) empty_graph = Inr (ok, h) \<and> (ok \<longrightarrow>
      graph_ok h \<and> streams_linked h \<and> edges_ok h \<and> (\<forall>p\<in>set (sg_eventToNodes h). entry_linked h p))"
proof (cases "unnamed_fusible_begin g1")
  case True
  then have "UpdateNodeScopeBitFlags g1 = Inl OutOfRange"
    using UpdateNodeScopeBitFlags_cases[of g1] scopes_fit[OF g(3)] g(2) by (simp add: build_ok_def graph_ok_def)
  then show ?thesis using True g(1) by (simp add: InitSKGraph_def InitFromModelRI_def)
next
  case False
  have "graph_ok g1" using g(2) by (simp add: build_ok_def)
  then obtain g2 where g2: "UpdateNodeScopeBitFlags g1 = Inr g2" "scoped g1 (GetSortedNodeIds g1) g2"
    using UpdateNodeScopeBitFlags_cases[of g1] scopes_fit[OF g(3)] False by (auto simp: graph_ok_def)
  obtain ok g4 where post: "PostProcessMemoryNode (ParseOriginalScopes g2) = (ok, g4)" by fastforce
  show ?thesis
  proof (cases ok)
    case True
    from InitSKGraph_rest[OF g(2,3) g2(2) post[unfolded eqTrueI[OF True]]] show ?thesis
      using g(1) g2(1) post True False by (auto simp: InitSKGraph_def InitFromModelRI_def Let_def)
  next
    case no: False
    then show ?thesis using False g(1) g2(1) post by (auto simp: InitSKGraph_def InitFromModelRI_def Let_def)
  qed
qed

text \<open>
  C1 \<^bold>\<open>Initialisation.\<close> Whatever streams the runtime reports, or if it reports none, the initialisation of the graph
  either returns or throws for a scope index out of range: no null pointer is dereferenced and
  no search runs on. When it returns success, nodes lie under their ids, the streams are doubly
  linked, the notify node of every event lists exactly the waits of the event and each of these
  names it as its notify node, and the recorded senders and receivers are converse relations
  between kernel nodes.
\<close>

theorem InitSKGraph_sound:
  assumes "\<forall>streams. model = Some streams \<longrightarrow>
    (\<forall>ts. Some ts \<in> set streams \<longrightarrow> length ts \<le> 2 ^ 32) \<and> length streams \<le> 2 ^ 32"
  shows "InitSKGraph model empty_graph = Inl OutOfRange \<or>
    (\<exists>ok h. InitSKGraph model empty_graph = Inr (ok, h) \<and> (ok \<longrightarrow>
       graph_ok h \<and> streams_linked h \<and> edges_ok h \<and> (\<forall>p\<in>set (sg_eventToNodes h). entry_linked h p)))"
proof (cases model)
  case None
  then have "InitSKGraph model empty_graph = Inr (False, empty_graph)" by (simp add: InitSKGraph_def InitFromModelRI_def)
  then show ?thesis by blast
next
  case (Some streams)
  have short: "\<forall>ts. Some ts \<in> set streams \<longrightarrow> length ts \<le> 2 ^ 32" "length streams \<le> 2 ^ 32"
    using assms Some by simp_all
  obtain ok g1 where g1: "ProcessAllStreamsAndTasks streams empty_graph = Inr (ok, g1)"
    using process_streams_ok[OF build_ok_empty short(1), of 0] short(2)
    by (auto simp: ProcessAllStreamsAndTasks_def)
  show ?thesis
  proof (cases ok)
    case True
    note b = built[OF g1[unfolded eqTrueI[OF True]] short]
    from InitSKGraph_after_build[OF g1[unfolded eqTrueI[OF True]] b] show ?thesis
      using Some by (auto split: if_splits)
  next
    case False
    then show ?thesis using g1 Some by (auto simp: InitSKGraph_def InitFromModelRI_def)
  qed
qed

text \<open>
  C2 \<^bold>\<open>The empty scope name.\<close> The initialisation throws exactly when the model contains a fusible
  scope begin whose name is the empty string: such a name is never registered, so its scope gets the
  index one past the bitset. The calls that open a scope reject the empty name, see \<open>Sk_Scope_Launch\<close>.
\<close>

theorem InitSKGraph_throws_iff:
  assumes "\<forall>ts. Some ts \<in> set streams \<longrightarrow> length ts \<le> 2 ^ 32" and "length streams \<le> 2 ^ 32"
    and "ProcessAllStreamsAndTasks streams empty_graph = Inr (True, g)"
  shows "InitSKGraph (Some streams) empty_graph = Inl OutOfRange \<longleftrightarrow>
    (\<exists>i n. GetNodeById g i = Some n \<and> IsScopeBegin n \<and> nd_isFusible n \<and> GetScopeName n = '''')"
  using InitSKGraph_after_build[OF assms(3) built[OF assms(3,1,2)]]
  by (auto simp: unnamed_fusible_begin_def split: if_splits)

section \<open>Witnesses\<close>

text \<open>
  A model of two streams. The first opens scope A, runs a kernel, records event 7, writes 1 to a
  memory word and closes the scope; the second waits for the event and for the word and runs
  a kernel.
\<close>

definition sample_params :: "rt_node_type \<Rightarrow> u32 \<Rightarrow> string \<Rightarrow> string \<Rightarrow> task_params" where
  "sample_params ty i fname scope = \<lparr> tp_seqId = Some i, tp_paramsOk = True,
     tp_event = \<lparr> ep_event = 7, ep_eventFlag = 0, ep_taskFlag = 0 \<rparr>,
     tp_value = \<lparr> vp_devAddr = 0x100, vp_value = 1, vp_flag = 0 \<rparr>,
     tp_kernel = \<lparr> kp_funcHandle = 5, kp_args = 0x200, kp_numBlocks = 4, kp_cfg = 0,
       kp_opInfoPtr = 0, kp_opInfoSize = 0, kp_taskGrp = 0 \<rparr>,
     tp_env = (sample_env [(0x10, \<lparr> bi_cap = 0, bi_sknlFuncs = [1, 2, 3, 4] \<rparr>)])
       \<lparr> ke_funcName := Some fname, ke_scopeArgs := Some scope \<rparr> \<rparr>"

definition sample_task :: "rt_node_type \<Rightarrow> u32 \<Rightarrow> string \<Rightarrow> string \<Rightarrow> rt_task" where
  "sample_task ty i fname scope =
     \<lparr> rt_type = Some ty, rt_streamId = Some 0, rt_params = sample_params ty i fname scope \<rparr>"

definition sample_streams :: "string \<Rightarrow> rt_task list option list" where
  "sample_streams scope =
    [Some [sample_task RI_TASK_KERNEL 1 ''sk_scope_kernel_begin_dav_2201'' scope,
           sample_task RI_TASK_KERNEL 2 ''add'' '''',
           sample_task RI_TASK_EVENT_RECORD 3 '''' '''',
           sample_task RI_TASK_VALUE_WRITE 4 '''' '''',
           sample_task RI_TASK_KERNEL 5 ''sk_scope_kernel_end_dav_2201'' scope],
     Some [sample_task RI_TASK_EVENT_WAIT 6 '''' '''',
           sample_task RI_TASK_VALUE_WAIT 7 '''' '''',
           sample_task RI_TASK_KERNEL 8 ''mul'' '''']]"

lemma sample_streams_short:
  "\<forall>ts. Some ts \<in> set (sample_streams s) \<longrightarrow> length ts \<le> 2 ^ 32" "length (sample_streams s) \<le> 2 ^ 32"
  by (auto simp: sample_streams_def)

definition built_sample :: "string \<Rightarrow> sk_graph" where
  "built_sample s = (case ProcessAllStreamsAndTasks (sample_streams s) empty_graph of
     Inr (True, g) \<Rightarrow> g | _ \<Rightarrow> empty_graph)"

lemma built_sample_ok:
  "ProcessAllStreamsAndTasks (sample_streams ''A'') empty_graph = Inr (True, built_sample ''A'')"
proof -
  have "case ProcessAllStreamsAndTasks (sample_streams ''A'') empty_graph of
      Inl e \<Rightarrow> False | Inr (ok, g) \<Rightarrow> ok"
    by code_simp
  then show ?thesis by (auto simp: built_sample_def split: sum.splits prod.splits bool.splits)
qed

lemma ProcessAllStreamsAndTasks_builds_witness:
  "\<exists>ok h. ProcessAllStreamsAndTasks (sample_streams ''A'') empty_graph = Inr (ok, h) \<and>
    (ok \<longrightarrow> graph_ok h \<and> streams_linked h \<and> events_ok h \<and> memory_ok h \<and> edges_ok h)"
  by (rule ProcessAllStreamsAndTasks_builds[OF sample_streams_short])

lemma ProcessAllStreamsAndTasks_scopes_witness: "scopes_ok (built_sample ''A'')"
  by (rule ProcessAllStreamsAndTasks_scopes[OF built_sample_ok])

lemma InitSKGraph_sound_witness:
  "\<exists>h. InitSKGraph (Some (sample_streams ''A'')) empty_graph = Inr (True, h) \<and>
     length (sg_eventToNodes h) = 2 \<and> graph_ok h \<and> streams_linked h \<and> edges_ok h \<and>
     (\<forall>p\<in>set (sg_eventToNodes h). entry_linked h p)"
proof -
  have "case InitSKGraph (Some (sample_streams ''A'')) empty_graph of
      Inl e \<Rightarrow> False | Inr (ok, g) \<Rightarrow> ok \<and> length (sg_eventToNodes g) = 2"
    by code_simp
  then show ?thesis using InitSKGraph_sound[of "Some (sample_streams ''A'')"] sample_streams_short
    by (auto split: sum.splits prod.splits)
qed

lemma InitSKGraph_throws_iff_witness:
  "InitSKGraph (Some (sample_streams '''')) empty_graph = Inl OutOfRange"
proof -
  have ok: "case ProcessAllStreamsAndTasks (sample_streams '''') empty_graph of
      Inl e \<Rightarrow> False | Inr (ok, g) \<Rightarrow> ok \<and> (case GetNodeById g 1 of None \<Rightarrow> False
        | Some n \<Rightarrow> IsScopeBegin n \<and> nd_isFusible n \<and> GetScopeName n = '''')"
    by code_simp
  obtain g where g: "ProcessAllStreamsAndTasks (sample_streams '''') empty_graph = Inr (True, g)"
    using ok by (auto split: sum.splits prod.splits)
  then obtain n where "GetNodeById g 1 = Some n" "IsScopeBegin n" "nd_isFusible n" "GetScopeName n = ''''"
    using ok by (auto split: option.splits)
  then show ?thesis using InitSKGraph_throws_iff[OF sample_streams_short g] by blast
qed

end
