(* ===== verification/Sk_Runtime.thy ===== *)
theory Sk_Runtime
  imports Prelude
begin

text \<open>
  The runtime the optimiser calls (\<^verbatim>\<open>acl\<close>, \<^verbatim>\<open>rt\<close>), which is not part of the sources. A call is an
  entry in a history, newest first, with what it returned; an \<open>acl\<close> record holds for each call a
  function from the history to the answer, so a statement about every such record is one about every
  behaviour of the runtime. Only \<open>ACL_SUCCESS\<close> and the two errors the code itself returns are named.
\<close>

section \<open>Error codes and tasks\<close>

datatype acl_error = ACL_SUCCESS | ACL_ERROR_INVALID_PARAM | ACL_ERROR_FAILURE | ACL_OTHER int

text \<open>An attribute of a kernel launch; only the size of the dynamic buffer is looked at.\<close>

datatype launch_attr = DynUBufSize u32 | OtherAttr u32 u64

record launch_task =
  lt_funcHandle :: u64
  lt_args :: u64
  lt_argsSize :: u64
  lt_isHostArgs :: bool
  lt_numBlocks :: u32
  lt_opInfoPtr :: u64
  lt_opInfoSize :: u64
  lt_cfg :: "launch_attr list option"

text \<open>
  \<open>aclmdlRITaskParams\<close> as the optimiser fills it: the default type with the number 0, a write to or a
  wait on a word of device memory, or the launch of a kernel.
\<close>

datatype task_value =
    NoTask
  | ValueWrite u64 u64
  | ValueWait u64 u64 u32
  | KernelTask launch_task

text \<open>The address the code reads as \<open>valueWriteTaskParams.devAddr\<close>; waits have it at the same place.\<close>

fun tv_devAddr :: "task_value \<Rightarrow> u64" where
  "tv_devAddr (ValueWrite a v) = a"
| "tv_devAddr (ValueWait a v f) = a"
| "tv_devAddr _ = 0"

section \<open>Calls\<close>

datatype acl_call =
    CallMalloc u64 acl_error u64
  | CallMemset u64 u64 acl_error
  | CallFree u64 acl_error
  | CallRegisterDestroy u64 acl_error
  | CallGetModelId u64 "u32 option"
  | CallSetParams node_id task_value acl_error
  | CallDisable node_id acl_error
  | CallModelUpdate acl_error

record acl =
  rt_malloc :: "acl_call list \<Rightarrow> u64 \<Rightarrow> acl_error \<times> u64"
  rt_memset :: "acl_call list \<Rightarrow> u64 \<Rightarrow> u64 \<Rightarrow> acl_error"
  rt_free :: "acl_call list \<Rightarrow> u64 \<Rightarrow> acl_error"
  rt_registerDestroy :: "acl_call list \<Rightarrow> u64 \<Rightarrow> acl_error"
  rt_getModelId :: "acl_call list \<Rightarrow> u64 \<Rightarrow> u32 option"
  rt_setParams :: "acl_call list \<Rightarrow> node_id \<Rightarrow> task_value \<Rightarrow> acl_error"
  rt_disable :: "acl_call list \<Rightarrow> node_id \<Rightarrow> acl_error"
  rt_modelUpdate :: "acl_call list \<Rightarrow> acl_error"
  rt_allocUbuf :: "u64 \<Rightarrow> u32 option"
  rt_launchAttrs :: "u64 \<Rightarrow> launch_attr list option"

text \<open>
  The last two read what the runtime holds: the buffer a function allocates, and the attributes behind
  the configuration pointer of a task, \<open>None\<close> where the pointer or its list is null.
\<close>

section \<open>A runtime for the witnesses\<close>

text \<open>Everything succeeds; the n-th allocation gets the address \<open>4096 + 64 n\<close>.\<close>

definition mallocs :: "acl_call list \<Rightarrow> nat" where
  "mallocs h = length (filter (\<lambda>c. case c of CallMalloc b r a \<Rightarrow> True | _ \<Rightarrow> False) h)"

definition sample_acl :: acl where
  "sample_acl = \<lparr> rt_malloc = (\<lambda>h b. (ACL_SUCCESS, 4096 + 64 * of_nat (mallocs h))),
     rt_memset = (\<lambda>h a b. ACL_SUCCESS), rt_free = (\<lambda>h a. ACL_SUCCESS),
     rt_registerDestroy = (\<lambda>h m. ACL_SUCCESS), rt_getModelId = (\<lambda>h m. Some (ucast m)),
     rt_setParams = (\<lambda>h i t. ACL_SUCCESS), rt_disable = (\<lambda>h i. ACL_SUCCESS),
     rt_modelUpdate = (\<lambda>h. ACL_SUCCESS), rt_allocUbuf = (\<lambda>f. Some 0), rt_launchAttrs = (\<lambda>p. None) \<rparr>"

end
