(* ===== verification/Sk_Scope_Launch.thy ===== *)
theory Sk_Scope_Launch
  imports Sk_Graph_Init Sk_Runtime
begin

text \<open>
  The calls with which a program marks a scope (\<^verbatim>\<open>aclskScopeBegin\<close>, \<^verbatim>\<open>aclskScopeEnd\<close> in
  \<^verbatim>\<open>super_kernel.cpp\<close>, \<^verbatim>\<open>sk_scope_launch.cpp\<close>, \<^verbatim>\<open>kernel/sk_scope_kernel.asc\<close>): they launch empty kernels
  whose name says what they mark and whose argument block holds the name of the scope. Node
  initialisation reads both back. The round trip is shown, and with it that a model recorded
  through these calls never makes graph initialisation throw.
\<close>

section \<open>The architecture\<close>

datatype sk_kernel_arch = ARCH_UNKNOWN | DAV_2201 | DAV_3510

record sk_runtime_config =
  rc_kernelArch :: sk_kernel_arch
  rc_eventCoreNum :: u32
  rc_tickUsMultiplier :: u32

definition default_runtime_config :: sk_runtime_config where
  "default_runtime_config = \<lparr> rc_kernelArch = DAV_2201, rc_eventCoreNum = 75, rc_tickUsMultiplier = 50 \<rparr>"

fun strstr :: "string \<Rightarrow> string \<Rightarrow> bool" where
  "strstr [] pat = (pat = [])"
| "strstr (c # s) pat = (take (length pat) (c # s) = pat \<or> strstr s pat)"

text \<open>The name of the chip is the runtime's answer, \<open>None\<close> for a null pointer.\<close>

definition BuildSkRuntimeConfig :: "string option \<Rightarrow> sk_runtime_config" where
  "BuildSkRuntimeConfig socName = (case socName of None \<Rightarrow> default_runtime_config
     | Some s \<Rightarrow> if strstr s ''Ascend950''
         then \<lparr> rc_kernelArch = DAV_3510, rc_eventCoreNum = 108, rc_tickUsMultiplier = 1000 \<rparr>
         else default_runtime_config)"

definition GetSkKernelArchSymbolSuffix :: "sk_kernel_arch \<Rightarrow> string" where
  "GetSkKernelArchSymbolSuffix a = (case a of DAV_2201 \<Rightarrow> ''dav_2201'' | DAV_3510 \<Rightarrow> ''dav_3510''
     | ARCH_UNKNOWN \<Rightarrow> ''unknown'')"

section \<open>Launching\<close>

datatype scope_kernel_kind = SK_Begin | SK_End | SK_Placeholder

text \<open>The kernel a launch function starts, with the suffix of the architecture it is compiled for.\<close>

definition scope_kernel_base :: "scope_kernel_kind \<Rightarrow> string" where
  "scope_kernel_base k = (case k of SK_Begin \<Rightarrow> ''sk_scope_kernel_begin''
     | SK_End \<Rightarrow> ''sk_scope_kernel_end'' | SK_Placeholder \<Rightarrow> ''sk_placeholder_kernel'')"

definition scope_kernel_name_of :: "sk_kernel_arch \<Rightarrow> scope_kernel_kind \<Rightarrow> string" where
  "scope_kernel_name_of a k = scope_kernel_base k @ ''_'' @ GetSkKernelArchSymbolSuffix a"

text \<open>\<open>GetScopeKernelImpls\<close>: any other architecture gets the kernels of \<open>DAV_2201\<close>.\<close>

definition GetScopeKernelImpls :: "sk_kernel_arch \<Rightarrow> scope_kernel_kind \<Rightarrow> string" where
  "GetScopeKernelImpls a = (case a of DAV_3510 \<Rightarrow> scope_kernel_name_of DAV_3510
     | _ \<Rightarrow> scope_kernel_name_of DAV_2201)"

definition MAX_SCOPE_NAME_LEN :: nat where "MAX_SCOPE_NAME_LEN = 256"

definition DEFAULT_SCOPE_NAME :: string where "DEFAULT_SCOPE_NAME = ''default_sk_scope_name''"

text \<open>
  A launch is the name of the kernel and its argument block. A C string has no null character; its
  length is that of the list. The block starts as zeros, the name is copied in and closed.
\<close>

type_synonym launch = "string \<times> string"

definition scope_args :: "string \<Rightarrow> string" where
  "scope_args name = name @ replicate (MAX_SCOPE_NAME_LEN - length name) (CHR 0x00)"

definition LaunchScopeKernelImpl :: "string option \<Rightarrow> string \<Rightarrow> launch list \<Rightarrow> acl_error \<times> launch list" where
  "LaunchScopeKernelImpl scopeName impl stream =
    (let name = (case scopeName of None \<Rightarrow> DEFAULT_SCOPE_NAME | Some s \<Rightarrow> s)
     in if length name > MAX_SCOPE_NAME_LEN - 1 then (ACL_ERROR_INVALID_PARAM, stream)
        else (ACL_SUCCESS, stream @ [(impl, scope_args name)]))"

fun launch_all :: "string option \<Rightarrow> string list \<Rightarrow> launch list \<Rightarrow> acl_error \<times> launch list" where
  "launch_all scopeName [] stream = (ACL_SUCCESS, stream)"
| "launch_all scopeName (k # ks) stream =
    (let (ret, stream1) = LaunchScopeKernelImpl scopeName k stream
     in if ret \<noteq> ACL_SUCCESS then (ret, stream1) else launch_all scopeName ks stream1)"

definition LaunchScopeKernel ::
  "sk_kernel_arch \<Rightarrow> string option \<Rightarrow> bool \<Rightarrow> launch list \<Rightarrow> acl_error \<times> launch list" where
  "LaunchScopeKernel a scopeName isBegin stream = (let impl = GetScopeKernelImpls a in
     if isBegin then launch_all scopeName [impl SK_Begin, impl SK_Placeholder, impl SK_Placeholder] stream
     else launch_all scopeName [impl SK_Placeholder, impl SK_Placeholder, impl SK_End] stream)"

definition aclskScopeBegin :: "sk_kernel_arch \<Rightarrow> string option \<Rightarrow> launch list \<Rightarrow> acl_error \<times> launch list" where
  "aclskScopeBegin a scopeName stream = (if scopeName = Some '''' then (ACL_ERROR_INVALID_PARAM, stream)
     else LaunchScopeKernel a scopeName True stream)"

definition aclskScopeEnd :: "sk_kernel_arch \<Rightarrow> string option \<Rightarrow> launch list \<Rightarrow> acl_error \<times> launch list" where
  "aclskScopeEnd a scopeName stream = (if scopeName = Some '''' then (ACL_ERROR_INVALID_PARAM, stream)
     else LaunchScopeKernel a scopeName False stream)"

section \<open>Reading it back\<close>

text \<open>A task of the launch: the runtime reports the kernel's name and copies its argument block.\<close>

definition reports :: "kernel_env \<Rightarrow> launch \<Rightarrow> bool" where
  "reports env l \<longleftrightarrow> ke_funcName env = Some (fst l) \<and> ke_scopeArgs env = Some (snd l)"

definition given_name :: "string option \<Rightarrow> string" where
  "given_name scopeName = (case scopeName of None \<Rightarrow> DEFAULT_SCOPE_NAME | Some s \<Rightarrow> s)"

definition marked_as :: "scope_kernel_kind \<Rightarrow> string \<Rightarrow> judge_task_kernel_info" where
  "marked_as k name = \<lparr> jt_isBegin = (k = SK_Begin), jt_isEnd = (k = SK_End),
     jt_isPlaceholder = (k = SK_Placeholder), jt_isFuseEnable = (name \<noteq> DEFAULT_SCOPE_NAME),
     jt_scopeName = name \<rparr>"

lemma c_string_args:
  assumes "length name < MAX_SCOPE_NAME_LEN" and "CHR 0x00 \<notin> set name"
  shows "c_string (scope_args name) = name"
proof -
  have "takeWhile (\<lambda>c. c \<noteq> CHR 0x00) name = name" using assms(2) by (auto simp: takeWhile_eq_all_conv)
  then have "takeWhile (\<lambda>c. c \<noteq> CHR 0x00) (take 255 (scope_args name)) = name"
    using assms by (auto simp: scope_args_def MAX_SCOPE_NAME_LEN_def takeWhile_append)
  then show ?thesis by (simp add: c_string_def)
qed

lemma scope_impl_name:
  obtains x where "x \<in> set SK_ARCH_SUFFIXES" and "GetScopeKernelImpls a k = scope_kernel_base k @ ''_'' @ x"
  using that[of "''dav_2201''"] that[of "''dav_3510''"]
  by (cases a) (simp_all add: GetScopeKernelImpls_def scope_kernel_name_of_def
      GetSkKernelArchSymbolSuffix_def SK_ARCH_SUFFIXES_def)

lemma kernel_name_read:
  assumes "GetScopeKernelImpls a k = kernelName"
  shows "IsScopeKernelNameWithSupportedArch kernelName (scope_kernel_base k') \<longleftrightarrow> k' = k"
proof -
  obtain x where x: "x \<in> set SK_ARCH_SUFFIXES" "kernelName = scope_kernel_base k @ ''_'' @ x"
    using scope_impl_name[of a k] assms by metis
  have "take (length (scope_kernel_base k')) kernelName \<noteq> scope_kernel_base k'" if "k' \<noteq> k"
    using that by (cases k; cases k') (simp_all add: x(2) scope_kernel_base_def)
  moreover have "IsScopeKernelNameWithSupportedArch kernelName (scope_kernel_base k)"
    using x(1) by (simp add: IsScopeKernelNameWithSupportedArch_def x(2))
  ultimately show ?thesis unfolding IsScopeKernelNameWithSupportedArch_def by metis
qed

lemmas kernel_names_read = kernel_name_read[OF refl, where k' = SK_Begin]
  kernel_name_read[OF refl, where k' = SK_End] kernel_name_read[OF refl, where k' = SK_Placeholder]

lemma launch_read:
  assumes "reports env (GetScopeKernelImpls a k, scope_args name)"
    and "length name < MAX_SCOPE_NAME_LEN" and "CHR 0x00 \<notin> set name"
  shows "IsScopeKernel env = Some (marked_as k name)"
  using assms kernel_names_read[of a k, unfolded scope_kernel_base_def scope_kernel_kind.case]
  by (cases k) (simp_all add: reports_def IsScopeKernel_def marked_as_def c_string_args DEFAULT_SCOPE_NAME_def)

lemma launch_all_cases:
  assumes "launch_all s ks stream = (ret, out)"
  shows "if length (given_name s) < MAX_SCOPE_NAME_LEN
    then ret = ACL_SUCCESS \<and> out = stream @ map (\<lambda>k. (k, scope_args (given_name s))) ks
    else ks \<noteq> [] \<longrightarrow> ret = ACL_ERROR_INVALID_PARAM \<and> out = stream"
  using assms
proof (induction ks arbitrary: stream)
  case (Cons k ks)
  show ?case
  proof (cases "length (given_name s) < MAX_SCOPE_NAME_LEN")
    case True
    then have "LaunchScopeKernelImpl s k stream = (ACL_SUCCESS, stream @ [(k, scope_args (given_name s))])"
      by (simp add: LaunchScopeKernelImpl_def given_name_def Let_def MAX_SCOPE_NAME_LEN_def)
    with True Cons.prems have "launch_all s ks (stream @ [(k, scope_args (given_name s))]) = (ret, out)" by simp
    from Cons.IH[OF this] True show ?thesis by simp
  next
    case False
    then have "LaunchScopeKernelImpl s k stream = (ACL_ERROR_INVALID_PARAM, stream)"
      by (simp add: LaunchScopeKernelImpl_def given_name_def Let_def MAX_SCOPE_NAME_LEN_def)
    with False Cons.prems(1) show ?thesis by auto
  qed
qed simp

text \<open>The kernels of a call, in the order of their launch.\<close>

definition scope_call_kinds :: "bool \<Rightarrow> scope_kernel_kind list" where
  "scope_call_kinds isBegin = (if isBegin then [SK_Begin, SK_Placeholder, SK_Placeholder]
     else [SK_Placeholder, SK_Placeholder, SK_End])"

definition scope_call :: "bool \<Rightarrow> sk_kernel_arch \<Rightarrow> string option \<Rightarrow> launch list \<Rightarrow> acl_error \<times> launch list" where
  "scope_call isBegin = (if isBegin then aclskScopeBegin else aclskScopeEnd)"

lemma scope_call_cases:
  assumes "scope_call isBegin a s stream = (ret, out)"
  shows "if given_name s \<noteq> '''' \<and> length (given_name s) < MAX_SCOPE_NAME_LEN
    then ret = ACL_SUCCESS \<and> out = stream @
      map (\<lambda>k. (GetScopeKernelImpls a k, scope_args (given_name s))) (scope_call_kinds isBegin)
    else ret = ACL_ERROR_INVALID_PARAM \<and> out = stream"
proof (cases "s = Some ''''")
  case True
  then show ?thesis using assms
    by (auto simp: scope_call_def aclskScopeBegin_def aclskScopeEnd_def given_name_def split: if_splits)
next
  case False
  then have "given_name s \<noteq> ''''"
    by (auto simp: given_name_def DEFAULT_SCOPE_NAME_def split: option.split)
  moreover have "launch_all s (map (GetScopeKernelImpls a) (scope_call_kinds isBegin)) stream = (ret, out)"
    using assms False
    by (simp add: scope_call_def aclskScopeBegin_def aclskScopeEnd_def LaunchScopeKernel_def Let_def
        scope_call_kinds_def split: if_splits)
  moreover have "map (GetScopeKernelImpls a) (scope_call_kinds isBegin) \<noteq> []"
    by (simp add: scope_call_kinds_def)
  ultimately show ?thesis using launch_all_cases by (fastforce simp: o_def split: if_splits)
qed

text \<open>
  C20 \<^bold>\<open>Scope marks are read back as they were given.\<close> A call with a name that is empty or longer than
  255 characters fails and launches nothing. Every other call launches three kernels, and a task that
  reports such a launch is recognised as exactly the begin, end or placeholder it is, with the
  name the caller gave; it can be fused unless the name is the default one.
\<close>

theorem scope_launch_roundtrip:
  assumes "scope_call isBegin a s stream = (ret, out)" and "CHR 0x00 \<notin> set (given_name s)"
  shows "(ret = ACL_SUCCESS \<longleftrightarrow> 0 < length (given_name s) \<and> length (given_name s) \<le> 255) \<and>
    (ret \<noteq> ACL_SUCCESS \<longrightarrow> out = stream) \<and>
    (ret = ACL_SUCCESS \<longrightarrow> (\<exists>ls. out = stream @ ls \<and> length ls = 3 \<and>
      (\<forall>j<3. \<forall>env. reports env (ls ! j) \<longrightarrow>
         IsScopeKernel env = Some (marked_as (scope_call_kinds isBegin ! j) (given_name s)))))"
proof (cases "given_name s \<noteq> '''' \<and> length (given_name s) < MAX_SCOPE_NAME_LEN")
  case True
  let ?ls = "map (\<lambda>k. (GetScopeKernelImpls a k, scope_args (given_name s))) (scope_call_kinds isBegin)"
  have out: "ret = ACL_SUCCESS" "out = stream @ ?ls" using scope_call_cases[OF assms(1)] True by simp_all
  have len: "length (scope_call_kinds isBegin) = 3" by (simp add: scope_call_kinds_def)
  have "IsScopeKernel env = Some (marked_as (scope_call_kinds isBegin ! j) (given_name s))"
    if "j < 3" "reports env (?ls ! j)" for j env
    using launch_read[of env a "scope_call_kinds isBegin ! j" "given_name s"] that True assms(2) len by simp
  then show ?thesis using True out len by (auto simp: MAX_SCOPE_NAME_LEN_def)
next
  case False
  then have "ret = ACL_ERROR_INVALID_PARAM" "out = stream" using scope_call_cases[OF assms(1)] by auto
  then show ?thesis using False by (auto simp: MAX_SCOPE_NAME_LEN_def)
qed

lemma scope_launch_roundtrip_witness:
  "\<exists>ls. scope_call True DAV_3510 (Some ''blk'') [] = (ACL_SUCCESS, ls) \<and> length ls = 3 \<and>
     (\<forall>env. reports env (hd ls) \<longrightarrow> IsScopeKernel env = Some (marked_as SK_Begin ''blk''))"
proof -
  obtain ret out where run: "scope_call True DAV_3510 (Some ''blk'') [] = (ret, out)" by fastforce
  have "CHR 0x00 \<notin> set (given_name (Some ''blk''))" by (simp add: given_name_def)
  from scope_launch_roundtrip[OF run this] obtain ls where ls: "ret = ACL_SUCCESS" "out = ls" "length ls = 3"
    "\<forall>j<3. \<forall>env. reports env (ls ! j) \<longrightarrow> IsScopeKernel env =
       Some (marked_as (scope_call_kinds True ! j) (given_name (Some ''blk'')))"
    by (auto simp: given_name_def)
  have "hd ls = ls ! 0" using ls(3) by (cases ls) auto
  then have "\<forall>env. reports env (hd ls) \<longrightarrow> IsScopeKernel env = Some (marked_as SK_Begin ''blk'')"
    using ls(4)[rule_format, of 0] by (simp add: scope_call_kinds_def given_name_def)
  then show ?thesis using run ls by blast
qed

section \<open>Models recorded through the calls\<close>

text \<open>
  Every kernel that the recognition takes for a mark was launched by one of the calls. Then a begin
  that can be fused has a name, and initialisation does not throw.
\<close>

definition marks_by_api :: "rt_task \<Rightarrow> bool" where
  "marks_by_api t \<longleftrightarrow> (\<forall>info. IsScopeKernel (tp_env (rt_params t)) = Some info \<longrightarrow>
     (\<exists>isBegin a s stream out l. scope_call isBegin a s stream = (ACL_SUCCESS, stream @ out) \<and>
        CHR 0x00 \<notin> set (given_name s) \<and> l \<in> set out \<and> reports (tp_env (rt_params t)) l))"

definition begin_named :: "sk_node \<Rightarrow> bool" where
  "begin_named n \<longleftrightarrow> (nd_isScopeBegin n \<longrightarrow> nd_isScopeNode n) \<and>
     (nd_isScopeBegin n \<and> nd_isFusible n \<longrightarrow> nd_scopeName n \<noteq> '''')"

lemma marks_by_api_named:
  assumes "marks_by_api t" and "IsScopeKernel (tp_env (rt_params t)) = Some info"
  shows "jt_scopeName info \<noteq> ''''"
proof -
  obtain isBegin a s stream out l where call: "scope_call isBegin a s stream = (ACL_SUCCESS, stream @ out)"
    and nul: "CHR 0x00 \<notin> set (given_name s)" and l: "l \<in> set out" "reports (tp_env (rt_params t)) l"
    using assms unfolding marks_by_api_def by blast
  have name: "given_name s \<noteq> ''''" "length (given_name s) < MAX_SCOPE_NAME_LEN"
    using scope_call_cases[OF call] by (auto split: if_splits)
  then obtain k where "l = (GetScopeKernelImpls a k, scope_args (given_name s))"
    using scope_call_cases[OF call] l(1) by auto
  then have "IsScopeKernel (tp_env (rt_params t)) = Some (marked_as k (given_name s))"
    using launch_read l(2) name nul by blast
  then show ?thesis using assms(2) name by (simp add: marked_as_def)
qed

lemma begin_named_cong: "same_scope n m \<Longrightarrow> nd_isFusible m = nd_isFusible n \<Longrightarrow> begin_named m \<longleftrightarrow> begin_named n"
  by (simp add: same_scope_def begin_named_def)

lemma begin_named_weaken:
  "same_scope n m \<Longrightarrow> (nd_isFusible m \<longrightarrow> nd_isFusible n) \<Longrightarrow> begin_named n \<Longrightarrow> begin_named m"
  by (auto simp: same_scope_def begin_named_def)

lemma simt_weaker: "nd_isFusible (IdentifyAndHandleSimtKernel env n) \<Longrightarrow> nd_isFusible n"
  by (auto simp: IdentifyAndHandleSimtKernel_def Let_def upd_kernel_def fail_reason_defs
      split: if_splits option.splits)

lemma resolve_begin_named: "begin_named n \<Longrightarrow> begin_named (resolve_kernel env n)"
  by (auto simp: resolve_kernel_def begin_named_def Let_def fail_reason_defs split: prod.split)

lemma InitNode_begin_named:
  assumes "InitNode (rt_params t) c = (True, n)" and "marks_by_api t" and "\<not> nd_isScopeBegin c"
  shows "begin_named n"
proof (cases "nd_class c")
  case KernelNode
  then have "KernelInitNode (rt_params t) c = (True, n)" using assms(1) by (simp add: InitNode_def)
  then show ?thesis
  proof (cases rule: KernelInitNode_cases)
    case (1 n0 kt ratio binHdl fname)
    let ?env = "tp_env (rt_params t)"
    have n0: "\<not> nd_isScopeBegin n0"
      using 1(1) assms(3) by (auto simp: BaseInitNode_def split: option.splits)
    have "begin_named (case IsScopeKernel ?env of None \<Rightarrow> n0\<lparr> nd_nodeType := NODE_KERNEL \<rparr>
        | Some i \<Rightarrow> apply_scope_kernel i (n0\<lparr> nd_nodeType := NODE_KERNEL \<rparr>))"
      using n0 marks_by_api_named[OF assms(2)]
      by (auto simp: begin_named_def apply_scope_kernel_def split: option.split)
    then have "begin_named (kernel_named (rt_params t) kt ratio binHdl fname n0)"
      by (simp add: kernel_named_def Let_def begin_named_def upd_kernel_def)
    then have "begin_named (IdentifyAndHandleSimtKernel ?env
        (resolve_kernel ?env (kernel_named (rt_params t) kt ratio binHdl fname n0)))"
      using begin_named_weaken[OF same_scope_stages(3)] resolve_begin_named simt_weaker by blast
    then show ?thesis unfolding 1(3) Let_def
      using begin_named_weaken[OF same_scope_stages(4)] by (auto simp: fail_reason_defs)
  qed
next
  case MemoryNode
  then show ?thesis using assms
    by (auto simp: InitNode_def MemoryInitNode_def BaseInitNode_def Let_def check_external_def
        upd_sync_def fail_reason_defs begin_named_def
        split: option.splits if_splits rt_node_type.splits)
next
  case DefaultNode
  then show ?thesis using assms
    by (auto simp: InitNode_def DefaultInitNode_def BaseInitNode_def Let_def begin_named_def
        split: option.splits)
qed

definition all_begins_named :: "sk_graph \<Rightarrow> bool" where
  "all_begins_named g \<longleftrightarrow> (\<forall>i n. GetNodeById g i = Some n \<longrightarrow> begin_named n)"

lemma ProcessSingleTask_named:
  assumes "all_begins_named g" and "marks_by_api t"
    and "ProcessSingleTask t streamIdx k pre g = Inr (True, pre', h)"
  shows "all_begins_named h"
proof -
  obtain ty sid n m g1 g2 where init: "InitNode (rt_params t)
      (CreateNode ty (of_nat k) (of_nat streamIdx) sid pre) = (True, n)"
    and reg: "RegisterFusibleScope n g = (m, g1)" and add: "AddNode m g1 = (True, g2)"
    and link: "UpdateNodeRelations (nd_nodeId m) k pre g2 = Inr (pre', h)"
    using assms(3) by (auto simp: ProcessSingleTask_def Let_def split: option.splits prod.splits if_splits)
  have "begin_named n"
    using InitNode_begin_named[OF init assms(2)] by (simp add: CreateNode_def new_node_def split: rt_node_type.split)
  then have m: "begin_named m" and g1: "GetNodeById g1 = GetNodeById g"
    using reg by (auto simp: RegisterFusibleScope_def Let_def fail_reason_defs begin_named_def
        GetNodeById_def split: if_splits)
  have "GetNodeById g2 = (GetNodeById g1)(nd_nodeId m \<mapsto> m)"
    using add by (auto simp: AddNode_def Let_def associate_defs set_event_info_def set_memory_info_def
        GetNodeById_def split: if_splits sk_node_type.splits)
  then have "all_begins_named g2" using assms(1) m g1 by (simp add: all_begins_named_def)
  then show ?thesis using link
    by (auto simp: UpdateNodeRelations_def Let_def all_begins_named_def GetNodeById_def graphMap_upd_node
        begin_named_def split: if_splits)
qed

lemma process_tasks_named:
  "process_tasks ts streamIdx k pre g = Inr (True, h) \<Longrightarrow> all_begins_named g \<Longrightarrow> \<forall>t\<in>set ts. marks_by_api t \<Longrightarrow>
   all_begins_named h"
  by (induction ts arbitrary: k pre g) (auto split: if_splits dest: ProcessSingleTask_named)

lemma process_streams_named:
  "process_streams ss streamIdx g = Inr (True, h) \<Longrightarrow> all_begins_named g \<Longrightarrow>
   \<forall>ts. Some ts \<in> set ss \<longrightarrow> (\<forall>t\<in>set ts. marks_by_api t) \<Longrightarrow> all_begins_named h"
proof (induction ss arbitrary: streamIdx g)
  case (Cons s ss)
  then obtain ts g' where s: "s = Some ts" "process_tasks ts streamIdx 0 INVALID_TASK_ID
      (g\<lparr> sg_nodeSizeInStream := sg_nodeSizeInStream g @ [of_nat (length ts)] \<rparr>) = Inr (True, g')"
    "process_streams ss (Suc streamIdx) g' = Inr (True, h)"
    by (cases s) (auto split: if_splits)
  have "all_begins_named g'"
    using process_tasks_named[OF s(2)] Cons.prems(2,3) s(1) by (simp add: all_begins_named_def GetNodeById_def)
  then show ?case using Cons.IH[OF s(3)] Cons.prems(3) by simp
qed simp

text \<open>
  C21 \<^bold>\<open>Recorded models never throw.\<close> If every scope mark of a model was launched by \<open>aclskScopeBegin\<close> or
  \<open>aclskScopeEnd\<close>, the initialisation of its graph returns; it neither throws nor dereferences null.
\<close>

theorem InitSKGraph_recorded:
  assumes "\<forall>ts. Some ts \<in> set streams \<longrightarrow> length ts \<le> 2 ^ 32" and "length streams \<le> 2 ^ 32"
    and "\<forall>ts. Some ts \<in> set streams \<longrightarrow> (\<forall>t\<in>set ts. marks_by_api t)"
  shows "\<exists>ok h. InitSKGraph (Some streams) empty_graph = Inr (ok, h)"
proof -
  obtain ok g1 where g1: "ProcessAllStreamsAndTasks streams empty_graph = Inr (ok, g1)"
    using process_streams_ok[OF build_ok_empty assms(1), of 0] assms(2)
    by (auto simp: ProcessAllStreamsAndTasks_def)
  show ?thesis
  proof (cases ok)
    case True
    note g1' = g1[unfolded eqTrueI[OF True]]
    have "all_begins_named g1"
      using process_streams_named[OF g1'[unfolded ProcessAllStreamsAndTasks_def] _ assms(3)]
      by (simp add: all_begins_named_def empty_graph_def GetNodeById_def)
    then have "\<not> unnamed_fusible_begin g1"
      by (auto simp: unnamed_fusible_begin_def all_begins_named_def begin_named_def IsScopeBegin_def
          GetScopeName_def split: node_class.splits)
    then show ?thesis using InitSKGraph_after_build[OF g1' built[OF g1' assms(1,2)]] by auto
  next
    case False
    then show ?thesis using g1 by (auto simp: InitSKGraph_def InitFromModelRI_def)
  qed
qed

text \<open>A kernel, a scope opened and closed through the calls: the six launches and the kernel between.\<close>

definition recorded_streams :: "rt_task list option list" where
  "recorded_streams = (let ls = snd (aclskScopeBegin DAV_2201 (Some ''A'') []);
       es = snd (aclskScopeEnd DAV_2201 (Some ''A'') []);
       task = (\<lambda>i l. sample_task RI_TASK_KERNEL (of_nat i) (fst l) (snd l))
     in [Some (map2 task [1..<4] ls @ [sample_task RI_TASK_KERNEL 4 ''add'' ''''] @ map2 task [5..<8] es)])"

lemma sample_task_marks:
  assumes "scope_call b DAV_2201 (Some ''A'') [] = (ret, ls)" and "l \<in> set ls"
  shows "marks_by_api (sample_task RI_TASK_KERNEL i (fst l) (snd l))"
proof -
  have "ret = ACL_SUCCESS"
    using scope_call_cases[OF assms(1)] by (simp add: given_name_def MAX_SCOPE_NAME_LEN_def)
  then have "scope_call b DAV_2201 (Some ''A'') [] = (ACL_SUCCESS, [] @ ls)" using assms(1) by simp
  moreover have "CHR 0x00 \<notin> set (given_name (Some ''A''))" by (simp add: given_name_def)
  moreover have "reports (tp_env (rt_params (sample_task RI_TASK_KERNEL i (fst l) (snd l)))) l"
    by (simp add: reports_def sample_task_def sample_params_def)
  ultimately show ?thesis using assms(2) unfolding marks_by_api_def by blast
qed

lemma recorded_streams_marks:
  assumes "Some ts \<in> set recorded_streams" and "t \<in> set ts"
  shows "marks_by_api t"
proof -
  obtain ls es r1 r2 where calls: "scope_call True DAV_2201 (Some ''A'') [] = (r1, ls)"
    "scope_call False DAV_2201 (Some ''A'') [] = (r2, es)" by (metis surj_pair)
  then have "aclskScopeBegin DAV_2201 (Some ''A'') [] = (r1, ls)" "aclskScopeEnd DAV_2201 (Some ''A'') [] = (r2, es)"
    by (simp_all add: scope_call_def)
  then consider "t = sample_task RI_TASK_KERNEL 4 ''add'' ''''"
    | i l where "l \<in> set ls" "t = sample_task RI_TASK_KERNEL i (fst l) (snd l)"
    | i l where "l \<in> set es" "t = sample_task RI_TASK_KERNEL i (fst l) (snd l)"
    using assms by (auto simp: recorded_streams_def Let_def dest!: set_zip_rightD)
  then show ?thesis
  proof cases
    case 1
    have "IsScopeKernel (tp_env (rt_params (sample_task RI_TASK_KERNEL 4 ''add'' ''''))) = None" by code_simp
    then show ?thesis by (simp add: 1 marks_by_api_def)
  qed (use sample_task_marks calls in blast)+
qed

lemma InitSKGraph_recorded_witness:
  "(\<exists>ok h. InitSKGraph (Some recorded_streams) empty_graph = Inr (ok, h)) \<and> length recorded_streams = 1"
  using InitSKGraph_recorded[of recorded_streams] recorded_streams_marks
  by (auto simp: recorded_streams_def Let_def)

end
