(* ===== verification/Sk_Elf.thy ===== *)
theory Sk_Elf
  imports Prelude "HOL-Library.AList"
begin

text \<open>
  The lookup of a function in the symbol table of a kernel binary (\<^verbatim>\<open>GetFuncSymbolInfo\<close> in
  \<^verbatim>\<open>sk_common.cpp\<close>). The binary is a list of bytes and every read of the code is a read at an offset,
  which faults outside the list; sizes and offsets taken from the file are words, and the range check
  of the code is done in 64-bit arithmetic as it is written. A binary whose sections do not wrap
  around is read inside its bounds; a section whose offset and size wrap passes the check and sends
  the reader out of the file.
\<close>

section \<open>Reading bytes\<close>

type_synonym byte = "8 word"

fun le_value :: "byte list \<Rightarrow> nat" where
  "le_value [] = 0"
| "le_value (b # bs) = unat b + 256 * le_value bs"

definition rd :: "nat \<Rightarrow> byte list \<Rightarrow> nat \<Rightarrow> 'a::len word run" where
  "rd k bin off = (if off + k \<le> length bin then Inr (of_nat (le_value (take k (drop off bin))))
     else Inl OutOfRange)"

definition rd_u8 :: "byte list \<Rightarrow> nat \<Rightarrow> 8 word run" where "rd_u8 = rd 1"
definition rd_u16 :: "byte list \<Rightarrow> nat \<Rightarrow> u16 run" where "rd_u16 = rd 2"
definition rd_u32 :: "byte list \<Rightarrow> nat \<Rightarrow> u32 run" where "rd_u32 = rd 4"
definition rd_u64 :: "byte list \<Rightarrow> nat \<Rightarrow> u64 run" where "rd_u64 = rd 8"

lemmas rd_defs = rd_u8_def rd_u16_def rd_u32_def rd_u64_def

text \<open>A C string at an offset; reading on past the end of the file is out of range.\<close>

definition rd_cstr :: "byte list \<Rightarrow> nat \<Rightarrow> byte list run" where
  "rd_cstr bin off = (if 0 \<in> set (drop off bin) then Inr (takeWhile (\<lambda>b. b \<noteq> 0) (drop off bin))
     else Inl OutOfRange)"

text \<open>\<open>strncmp\<close> of a literal with the string at an offset is 0; it stops at the first difference.\<close>

primrec strncmp_is :: "byte list \<Rightarrow> byte list \<Rightarrow> nat \<Rightarrow> nat \<Rightarrow> bool run" where
  "strncmp_is bin [] off n = (if n = 0 then Inr True else bindR (rd_u8 bin off) (\<lambda>b. Inr (b = 0)))"
| "strncmp_is bin (c # cs) off n = (if n = 0 then Inr True
     else bindR (rd_u8 bin off) (\<lambda>b. if b \<noteq> c then Inr False else strncmp_is bin cs (off + 1) (n - 1)))"

definition ascii :: "string \<Rightarrow> byte list" where
  "ascii s = map of_char s"

section \<open>Sections\<close>

text \<open>Sizes and field offsets of \<^verbatim>\<open>elf.h\<close>.\<close>

definition ELF64_EHDR_SIZE :: nat where "ELF64_EHDR_SIZE = 64"
definition ELF64_SHDR_SIZE :: nat where "ELF64_SHDR_SIZE = 64"
definition ELF64_SYM_SIZE :: nat where "ELF64_SYM_SIZE = 24"
definition SHT_NULL :: u32 where "SHT_NULL = 0"
definition SHT_NOBITS :: u32 where "SHT_NOBITS = 8"

lemmas elf_const = ELF64_EHDR_SIZE_def ELF64_SHDR_SIZE_def ELF64_SYM_SIZE_def SHT_NULL_def SHT_NOBITS_def

record elf_ehdr =
  eh_shoff :: u64
  eh_shnum :: u16
  eh_shstrndx :: u16

record elf_shdr =
  sh_name :: u32
  sh_type :: u32
  sh_offset :: u64
  sh_size :: u64

definition rd_ehdr :: "byte list \<Rightarrow> elf_ehdr run" where
  "rd_ehdr bin = bindR (rd_u64 bin 40) (\<lambda>shoff. bindR (rd_u16 bin 60) (\<lambda>shnum.
     bindR (rd_u16 bin 62) (\<lambda>shstrndx.
     Inr \<lparr> eh_shoff = shoff, eh_shnum = shnum, eh_shstrndx = shstrndx \<rparr>)))"

definition rd_shdr :: "byte list \<Rightarrow> nat \<Rightarrow> elf_shdr run" where
  "rd_shdr bin off = bindR (rd_u32 bin off) (\<lambda>name. bindR (rd_u32 bin (off + 4)) (\<lambda>type.
     bindR (rd_u64 bin (off + 24)) (\<lambda>offset. bindR (rd_u64 bin (off + 32)) (\<lambda>size.
     Inr \<lparr> sh_name = name, sh_type = type, sh_offset = offset, sh_size = size \<rparr>))))"

definition ValidateElfSectionRange :: "u64 \<Rightarrow> u64 \<Rightarrow> u64 \<Rightarrow> bool" where
  "ValidateElfSectionRange binSize offset len \<longleftrightarrow> offset \<le> binSize \<and> offset + len \<le> binSize"

text \<open>The tables found: where the table starts and its size, if it has been seen.\<close>

record elf_symbol_tables =
  et_sym :: "(nat \<times> u64) option"
  et_str :: "(nat \<times> u64) option"

definition note_section ::
  "byte list \<Rightarrow> u64 \<Rightarrow> nat \<Rightarrow> u64 \<Rightarrow> elf_shdr \<Rightarrow> elf_symbol_tables \<Rightarrow> elf_symbol_tables run" where
  "note_section bin binSize shStrTbl shStrTblSize sh t =
    (if sh_type sh = SHT_NULL \<or> sh_type sh = SHT_NOBITS then Inr t
     else if ucast (sh_name sh) \<ge> shStrTblSize then Inr t
     else let secName = shStrTbl + unat (sh_name sh); maxLen = unat (shStrTblSize - ucast (sh_name sh)) in
       if \<not> ValidateElfSectionRange binSize (sh_offset sh) (sh_size sh) then Inr t
       else bindR (strncmp_is bin (ascii ''.symtab'') secName maxLen) (\<lambda>isSym.
         if isSym then Inr (t\<lparr> et_sym := Some (unat (sh_offset sh), sh_size sh) \<rparr>)
         else bindR (strncmp_is bin (ascii ''.strtab'') secName maxLen) (\<lambda>isStr.
           Inr (if isStr then t\<lparr> et_str := Some (unat (sh_offset sh), sh_size sh) \<rparr> else t))))"

text \<open>\<open>None\<close> is the result \<open>false\<close>.\<close>

definition FindElfSymbolTables :: "byte list \<Rightarrow> ((nat \<times> u64) \<times> (nat \<times> u64)) option run" where
  "FindElfSymbolTables bin = (let binSize = of_nat (length bin) in
    if binSize < of_nat ELF64_EHDR_SIZE then Inr None
    else bindR (rd_ehdr bin) (\<lambda>eh.
      if eh_shoff eh > binSize \<or> eh_shoff eh + ucast (eh_shnum eh) * of_nat ELF64_SHDR_SIZE > binSize
      then Inr None
      else if eh_shstrndx eh \<ge> eh_shnum eh then Inr None
      else let shdr = (\<lambda>i. rd_shdr bin (unat (eh_shoff eh) + i * ELF64_SHDR_SIZE)) in
        bindR (shdr (unat (eh_shstrndx eh))) (\<lambda>strHdr.
          if \<not> ValidateElfSectionRange binSize (sh_offset strHdr) (sh_size strHdr) then Inr None
          else bindR (foldR (\<lambda>i t. bindR (shdr i) (\<lambda>sh.
                 note_section bin binSize (unat (sh_offset strHdr)) (sh_size strHdr) sh t))
               [0..<unat (eh_shnum eh)] \<lparr> et_sym = None, et_str = None \<rparr>) (\<lambda>t.
            Inr (case (et_sym t, et_str t) of (Some a, Some b) \<Rightarrow> Some (a, b) | _ \<Rightarrow> None)))))"

section \<open>Symbols\<close>

datatype sym_bind_type = BIND_LOCAL | BIND_GLOBAL | BIND_WEAK

definition SymBindTypeToStr :: "sym_bind_type \<Rightarrow> string" where
  "SymBindTypeToStr b = (case b of BIND_LOCAL \<Rightarrow> ''LOCAL'' | BIND_GLOBAL \<Rightarrow> ''GLOBAL'' | BIND_WEAK \<Rightarrow> ''WEAK'')"

record func_symbol_info =
  fs_name :: "byte list"
  fs_size :: u64
  fs_bindType :: sym_bind_type

record elf_sym =
  st_name :: u32
  st_info :: byte
  st_value :: u64
  st_size :: u64

definition rd_sym :: "byte list \<Rightarrow> nat \<Rightarrow> elf_sym run" where
  "rd_sym bin off = bindR (rd_u32 bin off) (\<lambda>name. bindR (rd_u8 bin (off + 4)) (\<lambda>info.
     bindR (rd_u64 bin (off + 8)) (\<lambda>val. bindR (rd_u64 bin (off + 16)) (\<lambda>size.
     Inr \<lparr> st_name = name, st_info = info, st_value = val, st_size = size \<rparr>))))"

unbundle bit_operations_syntax

definition bind_type_of :: "byte \<Rightarrow> sym_bind_type" where
  "bind_type_of info = (if drop_bit 4 info = 2 then BIND_WEAK
     else if drop_bit 4 info = 1 then BIND_GLOBAL else BIND_LOCAL)"

text \<open>What one symbol contributes: nothing unless it is a function with a size and a name.\<close>

definition symbol_entry :: "byte list \<Rightarrow> nat \<times> u64 \<Rightarrow> elf_sym \<Rightarrow> (u64 \<times> func_symbol_info) option run" where
  "symbol_entry bin str s =
    (if st_info s AND 0xf \<noteq> 2 \<or> st_size s = 0 then Inr None
     else if ucast (st_name s) \<ge> snd str then Inr None
     else let name = fst str + unat (st_name s) in
       bindR (rd_u8 bin name) (\<lambda>c. if c = 0 then Inr None
         else bindR (rd_cstr bin name) (\<lambda>txt.
           Inr (Some (st_value s, \<lparr> fs_name = txt, fs_size = st_size s,
             fs_bindType = bind_type_of (st_info s) \<rparr>)))))"

definition add_symbol ::
  "byte list \<Rightarrow> nat \<times> u64 \<Rightarrow> nat \<times> u64 \<Rightarrow> nat \<Rightarrow> (u64 \<times> func_symbol_info) list \<Rightarrow>
    (u64 \<times> func_symbol_info) list run" where
  "add_symbol bin syt str i tab = bindR (rd_sym bin (fst syt + i * ELF64_SYM_SIZE)) (\<lambda>s.
     bindR (symbol_entry bin str s) (\<lambda>e. Inr (case e of None \<Rightarrow> tab | Some (v, x) \<Rightarrow> AList.update v x tab)))"

definition ExtractFunctionSymbols ::
  "byte list \<Rightarrow> nat \<times> u64 \<Rightarrow> nat \<times> u64 \<Rightarrow> (u64 \<times> func_symbol_info) list run" where
  "ExtractFunctionSymbols bin syt str =
     foldR (add_symbol bin syt str) [0..<unat (snd syt) div ELF64_SYM_SIZE] []"

definition BuildFuncSymbolTable :: "byte list option \<Rightarrow> (u64 \<times> func_symbol_info) list run" where
  "BuildFuncSymbolTable bin = (case bin of None \<Rightarrow> Inr [] | Some b \<Rightarrow>
     if b = [] then Inr []
     else bindR (FindElfSymbolTables b) (\<lambda>t. case t of None \<Rightarrow> Inr []
       | Some (syt, str) \<Rightarrow> ExtractFunctionSymbols b syt str))"

text \<open>
  The lookup with its cache, which is kept per binary handle. The result is the name, the size and the
  binding of the symbol; \<open>None\<close> is \<open>false\<close>.
\<close>

type_synonym symbol_cache = "(u64 \<times> (u64 \<times> func_symbol_info) list) list"

definition GetFuncSymbolInfo ::
  "u64 \<Rightarrow> byte list option \<Rightarrow> u64 \<Rightarrow> symbol_cache \<Rightarrow> ((byte list \<times> u64 \<times> string) option \<times> symbol_cache) run" where
  "GetFuncSymbolInfo binHdl bin funcAddr cache =
    (if bin = None \<or> bin = Some [] then Inr (None, cache)
     else bindR (case map_of cache binHdl of Some tab \<Rightarrow> Inr (tab, cache)
           | None \<Rightarrow> bindR (BuildFuncSymbolTable bin) (\<lambda>tab. Inr (tab, AList.update binHdl tab cache)))
         (\<lambda>(tab, cache1). Inr (map_option (\<lambda>x. (fs_name x, fs_size x, SymBindTypeToStr (fs_bindType x)))
            (map_of tab funcAddr), cache1)))"

section \<open>Reads stay inside\<close>

lemma unat_ucast_wider:
  "unat (ucast (x :: u16) :: u64) = unat x" "unat (ucast (y :: u32) :: u64) = unat y"
proof -
  have "unat x < 2 ^ 64" using unsigned_less[of x, where 'a = nat] by simp
  then show "unat (ucast x :: u64) = unat x" by (simp add: unsigned_ucast_eq take_bit_nat_eq_self)
  have "unat y < 2 ^ 64" using unsigned_less[of y, where 'a = nat] by simp
  then show "unat (ucast y :: u64) = unat y" by (simp add: unsigned_ucast_eq take_bit_nat_eq_self)
qed

lemma rd_inside: "off + k \<le> length bin \<Longrightarrow> \<exists>v. rd k bin off = Inr v"
  by (simp add: rd_def)

lemma rd_inside_sized:
  "off + 1 \<le> length bin \<Longrightarrow> \<exists>v. rd_u8 bin off = Inr v"
  "off + 2 \<le> length bin \<Longrightarrow> \<exists>v. rd_u16 bin off = Inr v"
  "off + 4 \<le> length bin \<Longrightarrow> \<exists>v. rd_u32 bin off = Inr v"
  "off + 8 \<le> length bin \<Longrightarrow> \<exists>v. rd_u64 bin off = Inr v"
  unfolding rd_defs by (rule rd_inside; assumption)+

lemma bindR_inside: "\<exists>v. m = Inr v \<Longrightarrow> (\<And>v. m = Inr v \<Longrightarrow> \<exists>w. f v = Inr w) \<Longrightarrow> \<exists>w. bindR m f = Inr w"
  by auto

lemma rd_ehdr_inside: "64 \<le> length bin \<Longrightarrow> \<exists>h. rd_ehdr bin = Inr h"
  unfolding rd_ehdr_def by (intro bindR_inside rd_inside_sized) auto

lemma rd_shdr_inside: "off + 64 \<le> length bin \<Longrightarrow> \<exists>h. rd_shdr bin off = Inr h"
  unfolding rd_shdr_def by (intro bindR_inside rd_inside_sized) auto

lemma rd_sym_inside: "off + 24 \<le> length bin \<Longrightarrow> \<exists>s. rd_sym bin off = Inr s"
  unfolding rd_sym_def by (intro bindR_inside rd_inside_sized) auto

lemma strncmp_inside: "off + n \<le> length bin \<Longrightarrow> \<exists>b. strncmp_is bin pat off n = Inr b"
proof (induction pat arbitrary: off n)
  case Nil
  then show ?case using rd_inside_sized(1)[of off bin] by (cases "n = 0") auto
next
  case (Cons c cs)
  show ?case
  proof (cases "n = 0")
    case False
    then obtain b where "rd_u8 bin off = Inr b" using rd_inside_sized(1)[of off bin] Cons.prems by auto
    moreover have "\<exists>r. strncmp_is bin cs (off + 1) (n - 1) = Inr r" using False Cons by simp
    ultimately show ?thesis using False by auto
  qed auto
qed

lemma validated_range:
  assumes "ValidateElfSectionRange (of_nat L) offset len" and "unat offset + unat len < 2 ^ 64" and "L < 2 ^ 64"
  shows "unat offset + unat len \<le> L"
proof -
  have "unat (offset + len) = unat offset + unat len" using assms(2) by (simp add: unat_word_ariths)
  moreover have "unat (of_nat L :: u64) = L" using assms(3) by (simp add: unat_of_nat)
  ultimately show ?thesis using assms(1) by (simp add: ValidateElfSectionRange_def word_le_nat_alt)
qed

text \<open>No section of the file wraps around, and the string table is closed by a null byte.\<close>

definition section_fits :: "elf_shdr \<Rightarrow> bool" where
  "section_fits sh \<longleftrightarrow> unat (sh_offset sh) + unat (sh_size sh) < 2 ^ 64"

definition sections_fit :: "byte list \<Rightarrow> bool" where
  "sections_fit bin \<longleftrightarrow> (case rd_ehdr bin of Inl e \<Rightarrow> True | Inr eh \<Rightarrow>
     (\<forall>i<unat (eh_shnum eh). case rd_shdr bin (unat (eh_shoff eh) + i * ELF64_SHDR_SIZE) of
        Inl e \<Rightarrow> True | Inr sh \<Rightarrow> section_fits sh))"

definition inside :: "byte list \<Rightarrow> nat \<times> u64 \<Rightarrow> bool" where
  "inside bin t \<longleftrightarrow> fst t + unat (snd t) \<le> length bin"

definition closed_strings :: "byte list \<Rightarrow> nat \<times> u64 \<Rightarrow> bool" where
  "closed_strings bin str \<longleftrightarrow> (0 < snd str \<longrightarrow> bin ! (fst str + unat (snd str) - 1) = 0)"

definition tables_inside :: "byte list \<Rightarrow> elf_symbol_tables \<Rightarrow> bool" where
  "tables_inside bin t \<longleftrightarrow> (\<forall>a. et_sym t = Some a \<longrightarrow> inside bin a) \<and> (\<forall>a. et_str t = Some a \<longrightarrow> inside bin a)"

lemma note_section_inside:
  assumes "length bin < 2 ^ 63" and "shStrTbl + unat shStrTblSize \<le> length bin" and "section_fits sh"
    and "tables_inside bin t"
  shows "\<exists>t'. note_section bin (of_nat (length bin)) shStrTbl shStrTblSize sh t = Inr t' \<and> tables_inside bin t'"
proof (cases "sh_type sh = SHT_NULL \<or> sh_type sh = SHT_NOBITS \<or> ucast (sh_name sh) \<ge> shStrTblSize \<or>
    \<not> ValidateElfSectionRange (of_nat (length bin)) (sh_offset sh) (sh_size sh)")
  case True
  then show ?thesis using assms(4) by (auto simp: note_section_def Let_def)
next
  case False
  let ?sec = "shStrTbl + unat (sh_name sh)" and ?max = "unat (shStrTblSize - ucast (sh_name sh))"
  have "ucast (sh_name sh) \<le> shStrTblSize" using False by auto
  then have "?max = unat shStrTblSize - unat (sh_name sh)"
    by (simp add: unat_sub unat_ucast_wider)
  moreover have "unat (sh_name sh) < unat shStrTblSize"
    using False by (simp add: word_less_nat_alt not_le unat_ucast_wider)
  ultimately have "?sec + ?max \<le> length bin" using assms(2) by simp
  then obtain b1 b2 where b: "strncmp_is bin (ascii ''.symtab'') ?sec ?max = Inr b1"
    "strncmp_is bin (ascii ''.strtab'') ?sec ?max = Inr b2"
    using strncmp_inside by meson
  have "inside bin (unat (sh_offset sh), sh_size sh)"
    using validated_range[of "length bin" "sh_offset sh" "sh_size sh"] False assms(1,3)
    by (simp add: inside_def section_fits_def)
  then show ?thesis using False b assms(4) by (auto simp: note_section_def Let_def tables_inside_def)
qed

text \<open>The headers of a file that passes the first checks lie inside it.\<close>

lemma header_inside:
  assumes "length bin < 2 ^ 63"
    and "\<not> (shoff > of_nat (length bin) \<or> shoff + ucast (n :: u16) * of_nat ELF64_SHDR_SIZE > of_nat (length bin))"
    and "i < unat n"
  shows "unat (shoff :: u64) + i * ELF64_SHDR_SIZE + 64 \<le> length bin"
proof -
  have len: "unat (of_nat (length bin) :: u64) = length bin" using assms(1) by (simp add: unat_of_nat)
  have n: "unat n < 2 ^ 16" using unsigned_less[of n, where 'a = nat] by simp
  have "unat shoff \<le> length bin" using assms(2) len by (simp add: word_le_nat_alt not_less)
  moreover have "unat (ucast n * 64 :: u64) = unat n * 64"
    using n by (subst unat_word_ariths) (simp add: unat_ucast_wider)
  ultimately have "unat (shoff + ucast n * 64) = unat shoff + unat n * 64"
    using n assms(1) by (subst unat_word_ariths) simp
  then have "unat shoff + unat n * 64 \<le> length bin"
    using assms(2) len by (simp add: word_le_nat_alt not_less ELF64_SHDR_SIZE_def)
  moreover have "(i + 1) * 64 \<le> unat n * 64" using assms(3) by (intro mult_le_mono1) simp
  ultimately show ?thesis by (simp add: ELF64_SHDR_SIZE_def)
qed

lemma FindElfSymbolTables_inside:
  assumes len: "length bin < 2 ^ 63" and fit: "sections_fit bin"
  shows "\<exists>r. FindElfSymbolTables bin = Inr r \<and>
    (\<forall>a b. r = Some (a, b) \<longrightarrow> inside bin a \<and> inside bin b)"
proof -
  let ?L = "of_nat (length bin) :: u64"
  have L: "unat ?L = length bin" using len by (simp add: unat_of_nat)
  show ?thesis
  proof (cases "?L < of_nat ELF64_EHDR_SIZE")
    case True
    then show ?thesis by (simp add: FindElfSymbolTables_def)
  next
    case big: False
    then have "64 \<le> length bin" using L by (simp add: word_less_nat_alt ELF64_EHDR_SIZE_def)
    then obtain eh where eh: "rd_ehdr bin = Inr eh" using rd_ehdr_inside by blast
    let ?shdr = "\<lambda>i. rd_shdr bin (unat (eh_shoff eh) + i * ELF64_SHDR_SIZE)"
    let ?bad = "eh_shoff eh > ?L \<or> eh_shoff eh + ucast (eh_shnum eh) * of_nat ELF64_SHDR_SIZE > ?L"
    show ?thesis
    proof (cases "?bad \<or> eh_shstrndx eh \<ge> eh_shnum eh")
      case True
      then have "FindElfSymbolTables bin = Inr None"
        unfolding FindElfSymbolTables_def Let_def by (auto simp: big eh)
      then show ?thesis by simp
    next
      case False
      have hdr: "\<exists>sh. ?shdr i = Inr sh \<and> section_fits sh" if i: "i < unat (eh_shnum eh)" for i
      proof -
        have "\<not> ?bad" using False by blast
        from header_inside[OF len this i] obtain sh where sh: "?shdr i = Inr sh"
          using rd_shdr_inside by blast
        moreover have "section_fits sh" using fit i sh by (auto simp: sections_fit_def eh)
        ultimately show ?thesis by blast
      qed
      have "unat (eh_shstrndx eh) < unat (eh_shnum eh)" using False by (simp add: word_le_nat_alt)
      then obtain st where st: "?shdr (unat (eh_shstrndx eh)) = Inr st" "section_fits st" using hdr by blast
      show ?thesis
      proof (cases "ValidateElfSectionRange ?L (sh_offset st) (sh_size st)")
        case invalid: False
        then show ?thesis using False by (simp add: FindElfSymbolTables_def big eh st)
      next
        case valid: True
        then have str: "unat (sh_offset st) + unat (sh_size st) \<le> length bin"
          using validated_range[of "length bin"] st(2) len by (simp add: section_fits_def)
        let ?note = "\<lambda>i t. bindR (?shdr i) (\<lambda>sh. note_section bin ?L (unat (sh_offset st)) (sh_size st) sh t)"
        have "\<exists>t. foldR ?note [0..<unat (eh_shnum eh)] \<lparr> et_sym = None, et_str = None \<rparr> = Inr t \<and>
            tables_inside bin t"
        proof (rule foldR_total)
          show "tables_inside bin \<lparr> et_sym = None, et_str = None \<rparr>" by (simp add: tables_inside_def)
          show "\<exists>t'. ?note i t = Inr t' \<and> tables_inside bin t'"
            if "i \<in> set [0..<unat (eh_shnum eh)]" "tables_inside bin t" for i t
            using that hdr[of i] note_section_inside[OF len str] by auto
        qed
        then obtain t where t: "foldR ?note [0..<unat (eh_shnum eh)] \<lparr> et_sym = None, et_str = None \<rparr> = Inr t"
          "tables_inside bin t" by blast
        have "FindElfSymbolTables bin = Inr (case (et_sym t, et_str t) of (Some a, Some b) \<Rightarrow> Some (a, b) | _ \<Rightarrow> None)"
          using False valid t(1) by (simp add: FindElfSymbolTables_def big eh st Let_def)
        then show ?thesis using t(2) by (auto simp: tables_inside_def split: option.split)
      qed
    qed
  qed
qed

section \<open>The symbol table\<close>

text \<open>What the i-th symbol contributes.\<close>

definition symbol_at :: "byte list \<Rightarrow> nat \<times> u64 \<Rightarrow> nat \<times> u64 \<Rightarrow> nat \<Rightarrow> (u64 \<times> func_symbol_info) option run" where
  "symbol_at bin syt str i =
     bindR (rd_sym bin (fst syt + i * ELF64_SYM_SIZE)) (symbol_entry bin str)"

definition symbol_count :: "nat \<times> u64 \<Rightarrow> nat" where
  "symbol_count syt = unat (snd syt) div ELF64_SYM_SIZE"

text \<open>The last symbol among the first \<open>n\<close> that has an address.\<close>

definition last_symbol :: "(nat \<Rightarrow> (u64 \<times> func_symbol_info) option run) \<Rightarrow> nat \<Rightarrow> u64 \<Rightarrow> func_symbol_info \<Rightarrow> bool" where
  "last_symbol f n a x \<longleftrightarrow> (\<exists>i<n. f i = Inr (Some (a, x)) \<and> (\<forall>j<n. i < j \<longrightarrow> (\<forall>y. f j \<noteq> Inr (Some (a, y)))))"

lemma add_symbol_at:
  "add_symbol bin syt str i tab = bindR (symbol_at bin syt str i)
     (\<lambda>e. Inr (case e of None \<Rightarrow> tab | Some (v, x) \<Rightarrow> AList.update v x tab))"
  by (cases "rd_sym bin (fst syt + i * ELF64_SYM_SIZE)") (simp_all add: add_symbol_def symbol_at_def)

lemma last_symbol_Suc:
  "last_symbol f (Suc n) a x \<longleftrightarrow> f n = Inr (Some (a, x)) \<or> (\<forall>y. f n \<noteq> Inr (Some (a, y))) \<and> last_symbol f n a x"
  unfolding last_symbol_def by (auto simp: less_Suc_eq)

lemma symbols_collected:
  assumes "\<And>i. i < n \<Longrightarrow> \<exists>e. f i = Inr e"
  shows "\<exists>tab. foldR (\<lambda>i tab. bindR (f i) (\<lambda>e. Inr (case e of None \<Rightarrow> tab
      | Some (v, x) \<Rightarrow> AList.update v x tab))) [0..<n] [] = Inr tab \<and>
    (\<forall>a x. map_of tab a = Some x \<longleftrightarrow> last_symbol f n a x)"
  using assms
proof (induction n)
  case 0
  then show ?case by (simp add: last_symbol_def)
next
  case (Suc n)
  let ?add = "\<lambda>i tab. bindR (f i) (\<lambda>e. Inr (case e of None \<Rightarrow> tab | Some (v, x) \<Rightarrow> AList.update v x tab))"
  obtain tab where tab: "foldR ?add [0..<n] [] = Inr tab" "\<forall>a x. map_of tab a = Some x \<longleftrightarrow> last_symbol f n a x"
    using Suc.IH Suc.prems by auto
  obtain e where e: "f n = Inr e" using Suc.prems by blast
  let ?tab = "case e of None \<Rightarrow> tab | Some (v, x) \<Rightarrow> AList.update v x tab"
  have "foldR ?add [0..<Suc n] [] = Inr ?tab" by (simp add: foldR_append tab(1) e)
  moreover have "map_of ?tab a = Some x \<longleftrightarrow> last_symbol f (Suc n) a x" for a x
    using tab(2) by (auto simp: last_symbol_Suc e update_conv' split: option.split)
  ultimately show ?case by blast
qed

lemma symbol_at_inside:
  assumes "inside bin syt" and "inside bin str" and "closed_strings bin str" and "i < symbol_count syt"
  shows "\<exists>e. symbol_at bin syt str i = Inr e"
proof -
  have "(i + 1) * 24 \<le> symbol_count syt * 24" using assms(4) by (intro mult_le_mono1) simp
  also have "\<dots> \<le> unat (snd syt)" by (simp add: symbol_count_def ELF64_SYM_SIZE_def)
  finally have "fst syt + i * ELF64_SYM_SIZE + 24 \<le> length bin"
    using assms(1) by (simp add: inside_def ELF64_SYM_SIZE_def)
  then obtain s where s: "rd_sym bin (fst syt + i * ELF64_SYM_SIZE) = Inr s" using rd_sym_inside by blast
  show ?thesis
  proof (cases "st_info s AND 0xf \<noteq> 2 \<or> st_size s = 0 \<or> ucast (st_name s) \<ge> snd str")
    case True
    then show ?thesis by (auto simp: symbol_at_def s symbol_entry_def)
  next
    case False
    let ?name = "fst str + unat (st_name s)" and ?last = "fst str + unat (snd str) - 1"
    have lt: "unat (st_name s) < unat (snd str)"
      using False by (simp add: word_less_nat_alt not_le unat_ucast_wider)
    then have range: "?name \<le> ?last" "?last < length bin" using assms(2) by (auto simp: inside_def)
    then obtain c where c: "rd_u8 bin ?name = Inr c" using rd_inside_sized(1)[of ?name bin] by auto
    have "0 < snd str" using lt by (simp add: word_less_nat_alt)
    then have "bin ! ?last = 0" using assms(3) by (simp add: closed_strings_def)
    moreover have "?name + (?last - ?name) = ?last" using range(1) by (rule le_add_diff_inverse)
    ultimately have "drop ?name bin ! (?last - ?name) = 0" "?last - ?name < length (drop ?name bin)"
      using range by (simp_all add: nth_drop less_diff_iff del: diff_diff_left)
    then have "0 \<in> set (drop ?name bin)" by (metis nth_mem)
    then show ?thesis using False c by (auto simp: symbol_at_def s symbol_entry_def Let_def rd_cstr_def)
  qed
qed

text \<open>
  C22 \<^bold>\<open>Symbol lookup reads inside the binary.\<close> For a binary whose sections do not wrap around 64 bits and
  whose string table ends with a null byte, looking up a function never reads outside the file,
  whatever else the bytes are. A binary seen for the first time is entered in the cache, and the
  table holds for each address exactly the last named function symbol of the file at that address.
\<close>

theorem GetFuncSymbolInfo_reads:
  assumes "0 < length bin" and "length bin < 2 ^ 63" and "sections_fit bin"
    and "\<forall>syt str. FindElfSymbolTables bin = Inr (Some (syt, str)) \<longrightarrow> closed_strings bin str"
    and "map_of cache h = None"
  shows "\<exists>tab. GetFuncSymbolInfo h (Some bin) a cache = Inr (map_option (\<lambda>x. (fs_name x, fs_size x,
      SymBindTypeToStr (fs_bindType x))) (map_of tab a), AList.update h tab cache) \<and>
    (\<forall>syt str. FindElfSymbolTables bin = Inr (Some (syt, str)) \<longrightarrow>
      (\<forall>a x. map_of tab a = Some x \<longleftrightarrow> last_symbol (symbol_at bin syt str) (symbol_count syt) a x)) \<and>
    (FindElfSymbolTables bin = Inr None \<longrightarrow> tab = [])"
proof -
  obtain r where r: "FindElfSymbolTables bin = Inr r" "\<forall>a b. r = Some (a, b) \<longrightarrow> inside bin a \<and> inside bin b"
    using FindElfSymbolTables_inside[OF assms(2,3)] by blast
  have bin: "bin \<noteq> []" using assms(1) by auto
  show ?thesis
  proof (cases r)
    case None
    then show ?thesis using r bin assms(5)
      by (auto simp: GetFuncSymbolInfo_def BuildFuncSymbolTable_def)
  next
    case (Some p)
    obtain syt str where p: "p = (syt, str)" by (cases p)
    have "\<exists>e. symbol_at bin syt str i = Inr e" if "i < symbol_count syt" for i
      using symbol_at_inside[of bin syt str i] that r(2) assms(4) r(1) by (simp add: Some p)
    then obtain tab where
      tab: "ExtractFunctionSymbols bin syt str = Inr tab"
        "\<forall>a x. map_of tab a = Some x \<longleftrightarrow> last_symbol (symbol_at bin syt str) (symbol_count syt) a x"
      using symbols_collected[of "symbol_count syt" "symbol_at bin syt str"]
      unfolding ExtractFunctionSymbols_def add_symbol_at[abs_def] symbol_count_def by blast
    then have "GetFuncSymbolInfo h (Some bin) a cache = Inr (map_option (\<lambda>x. (fs_name x, fs_size x,
        SymBindTypeToStr (fs_bindType x))) (map_of tab a), AList.update h tab cache)"
      using bin assms(5) by (simp add: GetFuncSymbolInfo_def BuildFuncSymbolTable_def r(1) Some p)
    then show ?thesis using tab(2) r(1) by (auto simp: Some p)
  qed
qed

section \<open>Two binaries\<close>

text \<open>
  A file with a symbol table of one function, \<open>f\<close> at address 16 with 32 bytes, and one string table that
  serves as the table of section names as well. The arguments are the bytes of the name of the first
  section and of the recorded length of the string table.
\<close>

definition sample_elf :: "byte list \<Rightarrow> byte list \<Rightarrow> byte list" where
  "sample_elf name strLen = replicate 40 0 @ [64, 0, 0, 0, 0, 0, 0, 0] @ replicate 12 0 @ [2, 0, 1, 0] @
     name @ [1, 0, 0, 0] @ replicate 16 0 @ [192, 0, 0, 0, 0, 0, 0, 0] @ [24, 0, 0, 0, 0, 0, 0, 0] @ replicate 24 0 @
     [9, 0, 0, 0] @ [1, 0, 0, 0] @ replicate 16 0 @ [216, 0, 0, 0, 0, 0, 0, 0] @ strLen @ replicate 24 0 @
     [17, 0, 0, 0, 0x12, 0, 0, 0] @ [16, 0, 0, 0, 0, 0, 0, 0] @ [32, 0, 0, 0, 0, 0, 0, 0] @
     [0] @ ascii ''.symtab'' @ [0] @ ascii ''.strtab'' @ [0] @ ascii ''f'' @ [0]"

definition good_elf :: "byte list" where
  "good_elf = sample_elf [1, 0, 0, 0] [19, 0, 0, 0, 0, 0, 0, 0]"

definition wrapping_elf :: "byte list" where
  "wrapping_elf = sample_elf [0xA0, 0x0F, 0, 0] [0x9C, 0xFF, 0xFF, 0xFF, 0xFF, 0xFF, 0xFF, 0xFF]"

lemma zero_bytes:
  "replicate 12 (0 :: byte) = [0, 0, 0, 0, 0, 0, 0, 0, 0, 0, 0, 0]"
  "replicate 16 (0 :: byte) = [0, 0, 0, 0, 0, 0, 0, 0, 0, 0, 0, 0, 0, 0, 0, 0]"
  "replicate 24 (0 :: byte) =
     [0, 0, 0, 0, 0, 0, 0, 0, 0, 0, 0, 0, 0, 0, 0, 0, 0, 0, 0, 0, 0, 0, 0, 0]"
  "replicate 40 (0 :: byte) =
     [0, 0, 0, 0, 0, 0, 0, 0, 0, 0, 0, 0, 0, 0, 0, 0, 0, 0, 0, 0,
      0, 0, 0, 0, 0, 0, 0, 0, 0, 0, 0, 0, 0, 0, 0, 0, 0, 0, 0, 0]"
  by (simp_all add: numeral_eq_Suc)

lemmas read_bytes = good_elf_def wrapping_elf_def sample_elf_def zero_bytes rd_defs rd_def ascii_def

lemma good_elf_headers:
  "length good_elf = 235" "good_elf ! 234 = 0"
  "rd_ehdr good_elf = Inr \<lparr> eh_shoff = 64, eh_shnum = 2, eh_shstrndx = 1 \<rparr>"
  "rd_shdr good_elf 64 = Inr \<lparr> sh_name = 1, sh_type = 1, sh_offset = 192, sh_size = 24 \<rparr>"
  "rd_shdr good_elf 128 = Inr \<lparr> sh_name = 9, sh_type = 1, sh_offset = 216, sh_size = 19 \<rparr>"
  by (simp_all add: rd_ehdr_def rd_shdr_def read_bytes)

lemma good_elf_found: "FindElfSymbolTables good_elf = Inr (Some ((192, 24), (216, 19)))"
proof -
  let ?t = "\<lparr> et_sym = Some (192, 24), et_str = None \<rparr>"
  have names: "strncmp_is good_elf (ascii ''.symtab'') 217 18 = Inr True"
    "strncmp_is good_elf (ascii ''.symtab'') 225 10 = Inr False"
    "strncmp_is good_elf (ascii ''.strtab'') 225 10 = Inr True"
    by (simp_all add: read_bytes)
  have "note_section good_elf 235 216 19 \<lparr> sh_name = 1, sh_type = 1, sh_offset = 192, sh_size = 24 \<rparr>
      \<lparr> et_sym = None, et_str = None \<rparr> = Inr ?t"
    "note_section good_elf 235 216 19 \<lparr> sh_name = 9, sh_type = 1, sh_offset = 216, sh_size = 19 \<rparr> ?t =
      Inr (?t\<lparr> et_str := Some (216, 19) \<rparr>)"
    using names by (simp_all add: note_section_def elf_const ValidateElfSectionRange_def word_le_nat_alt)
  then show ?thesis
    by (simp add: FindElfSymbolTables_def elf_const good_elf_headers ValidateElfSectionRange_def upt_rec
        word_le_nat_alt word_less_nat_alt)
qed

lemma good_elf_symbol:
  "symbol_at good_elf (192, 24) (216, 19) 0 =
     Inr (Some (16, \<lparr> fs_name = ascii ''f'', fs_size = 32, fs_bindType = BIND_GLOBAL \<rparr>))"
proof -
  have "rd_sym good_elf 192 = Inr \<lparr> st_name = 17, st_info = 0x12, st_value = 16, st_size = 32 \<rparr>"
    by (simp add: rd_sym_def read_bytes)
  moreover have "rd_u8 good_elf 233 = Inr 102" "rd_cstr good_elf 233 = Inr (ascii ''f'')"
    by (simp_all add: rd_cstr_def read_bytes)
  ultimately show ?thesis
    by (simp add: symbol_at_def symbol_entry_def bind_type_of_def)
qed

lemma GetFuncSymbolInfo_reads_witness:
  "\<exists>cache. GetFuncSymbolInfo 7 (Some good_elf) 16 [] = Inr (Some (ascii ''f'', 32, ''GLOBAL''), cache)"
proof -
  have fit: "sections_fit good_elf"
    by (auto simp: sections_fit_def good_elf_headers elf_const section_fits_def less_2_cases_iff)
  have closed: "\<forall>syt str. FindElfSymbolTables good_elf = Inr (Some (syt, str)) \<longrightarrow> closed_strings good_elf str"
    by (simp add: good_elf_found closed_strings_def good_elf_headers)
  obtain tab where tab: "GetFuncSymbolInfo 7 (Some good_elf) 16 [] = Inr (map_option (\<lambda>x. (fs_name x, fs_size x,
        SymBindTypeToStr (fs_bindType x))) (map_of tab 16), AList.update 7 tab [])"
    "\<forall>a x. map_of tab a = Some x \<longleftrightarrow>
       last_symbol (symbol_at good_elf (192, 24) (216, 19)) (symbol_count (192, 24)) a x"
    using GetFuncSymbolInfo_reads[of good_elf "[]" 7 16] fit closed good_elf_found good_elf_headers(1) by auto
  have "last_symbol (symbol_at good_elf (192, 24) (216, 19)) (symbol_count (192, 24)) 16
      \<lparr> fs_name = ascii ''f'', fs_size = 32, fs_bindType = BIND_GLOBAL \<rparr>"
    by (auto simp: last_symbol_def symbol_count_def ELF64_SYM_SIZE_def good_elf_symbol)
  then have "map_of tab 16 = Some \<lparr> fs_name = ascii ''f'', fs_size = 32, fs_bindType = BIND_GLOBAL \<rparr>"
    using tab(2) by blast
  then show ?thesis using tab(1) by (simp add: SymBindTypeToStr_def)
qed

text \<open>
  \<^bold>\<open>A section that wraps around is read.\<close> With a recorded length of 2^64 - 100 the end of the string
  table, offset 216 plus this length, is 116 in 64 bits: the range check accepts it. The name of the
  first section, at offset 4000 of that table, is then read outside the file of 235 bytes.
\<close>

theorem FindElfSymbolTables_wraps:
  "length wrapping_elf = 235 \<and>
   rd_shdr wrapping_elf 128 = Inr \<lparr> sh_name = 9, sh_type = 1, sh_offset = 216, sh_size = - 100 \<rparr> \<and>
   ValidateElfSectionRange 235 216 (- 100) \<and>
   FindElfSymbolTables wrapping_elf = Inl OutOfRange"
proof -
  have h: "length wrapping_elf = 235"
    "rd_ehdr wrapping_elf = Inr \<lparr> eh_shoff = 64, eh_shnum = 2, eh_shstrndx = 1 \<rparr>"
    "rd_shdr wrapping_elf 64 = Inr \<lparr> sh_name = 4000, sh_type = 1, sh_offset = 192, sh_size = 24 \<rparr>"
    "rd_shdr wrapping_elf 128 = Inr \<lparr> sh_name = 9, sh_type = 1, sh_offset = 216, sh_size = - 100 \<rparr>"
    by (simp_all add: rd_ehdr_def rd_shdr_def read_bytes)
  have v: "ValidateElfSectionRange 235 216 (- 100)" "ValidateElfSectionRange 235 192 24"
    by (simp_all add: ValidateElfSectionRange_def)
  have "strncmp_is wrapping_elf (ascii ''.symtab'') 4216 n = Inl OutOfRange" if "n \<noteq> 0" for n
    using that by (simp add: rd_defs rd_def h(1) ascii_def)
  then have "note_section wrapping_elf 235 216 (- 100)
      \<lparr> sh_name = 4000, sh_type = 1, sh_offset = 192, sh_size = 24 \<rparr> t = Inl OutOfRange" for t
    by (simp add: note_section_def elf_const v)
  then have "FindElfSymbolTables wrapping_elf = Inl OutOfRange"
    by (simp add: FindElfSymbolTables_def elf_const h v upt_rec word_le_nat_alt)
  then show ?thesis using h v by blast
qed

end
