(* ===== verification/Sk_Scope.thy ===== *)
theory Sk_Scope
  imports Sk_Graph Sk_Runtime
begin

text \<open>
  The scope of the split (\<^verbatim>\<open>sk_scope_info.h\<close>) and the helpers every pass shares
  (\<^verbatim>\<open>ScopeSplitPass\<close> in \<^verbatim>\<open>sk_scope_split.cpp\<close>): the stream entries of a scope, its kernels, the
  break records and the chain of parents the report follows. A scope lists its nodes by id; an id
  the graph does not store is a null pointer.
\<close>

section \<open>Data\<close>

record stream_info =
  ss_streamIdx :: u32
  ss_headNodeIdx :: node_id
  ss_tailNodeIdx :: node_id
  ss_nodeSize :: u64

datatype scope_break_reason =
    BR_NONE | UNFUSIBLE_NODE | DEADLOCK_DETECTED | SYNCALL_OP_DROP | DEBUG_PER_OP_MAX_CORE

definition break_reason_str :: "scope_break_reason \<Rightarrow> string" where
  "break_reason_str r = (case r of BR_NONE \<Rightarrow> ''NONE'' | UNFUSIBLE_NODE \<Rightarrow> ''UNFUSIBLE_NODE''
     | DEADLOCK_DETECTED \<Rightarrow> ''DEADLOCK_DETECTED'' | SYNCALL_OP_DROP \<Rightarrow> ''SYNCALL_OP_DROP''
     | DEBUG_PER_OP_MAX_CORE \<Rightarrow> ''DEBUG_PER_OP_MAX_CORE'')"

record break_info =
  bk_reason :: scope_break_reason
  bk_triggerNodeId :: node_id
  bk_triggerStreamIdx :: u32
  bk_parentScopeId :: u16
  bk_syncAllNodeIds :: "node_id list"
  bk_detail :: string

definition default_break_info :: break_info where
  "default_break_info = \<lparr> bk_reason = BR_NONE, bk_triggerNodeId = INVALID_TASK_ID,
     bk_triggerStreamIdx = 0, bk_parentScopeId = INVALID_SCOPE_ID, bk_syncAllNodeIds = [],
     bk_detail = '''' \<rparr>"

record scope_ext =
  ex_customParamsList :: "task_value list list"
  ex_filteredNodes :: "node_id list"
  ex_eventNodes :: "sk_node list"
  ex_skMainNodeId :: node_id
  ex_scopeName :: string
  ex_processStatus :: scope_process_status

definition default_ext :: scope_ext where
  "default_ext = \<lparr> ex_customParamsList = [], ex_filteredNodes = [], ex_eventNodes = [],
     ex_skMainNodeId = INVALID_TASK_ID, ex_scopeName = '''', ex_processStatus = SPS_INIT \<rparr>"

record sk_scope =
  sc_scopeId :: u16
  sc_streamInfos :: "stream_info list"
  sc_nodes :: "node_id list"
  sc_bitFlags :: "nat set"
  sc_breakInfo :: break_info
  sc_ext :: scope_ext

text \<open>
  \<open>ScopeIdGenerator::NextId\<close>: the counter is a 16-bit word and wraps. Constructing a scope draws
  an id.
\<close>

definition NextId :: "u16 \<Rightarrow> u16 \<times> u16" where
  "NextId c = (c, c + 1)"

definition new_scope :: "u16 \<Rightarrow> sk_scope \<times> u16" where
  "new_scope c = (let (i, c') = NextId c in
     (\<lparr> sc_scopeId = i, sc_streamInfos = [], sc_nodes = [], sc_bitFlags = {},
        sc_breakInfo = default_break_info, sc_ext = default_ext \<rparr>, c'))"

section \<open>Text\<close>

fun commas :: "string \<Rightarrow> string list \<Rightarrow> string" where
  "commas sep [] = ''''"
| "commas sep [x] = x"
| "commas sep (x # y # ys) = x @ sep @ commas sep (y # ys)"

definition FormatBreakInfo :: "break_info \<Rightarrow> string" where
  "FormatBreakInfo b =
    (if bk_reason b \<noteq> BR_NONE then ''breakReason='' @ break_reason_str (bk_reason b) else '''') @
    (if bk_triggerNodeId b \<noteq> INVALID_TASK_ID then '', triggerNode='' @ word_str (bk_triggerNodeId b)
     else '''') @
    (if bk_triggerStreamIdx b \<noteq> 0 \<or> bk_triggerNodeId b \<noteq> INVALID_TASK_ID
     then '', triggerStream='' @ word_str (bk_triggerStreamIdx b) else '''') @
    (if bk_parentScopeId b \<noteq> INVALID_SCOPE_ID then '', parentScope='' @ word_str (bk_parentScopeId b)
     else '''') @
    (if bk_syncAllNodeIds b \<noteq> []
     then '', syncAllNodes=['' @ commas '','' (map word_str (bk_syncAllNodeIds b)) @ '']'' else '''') @
    (if bk_detail b \<noteq> '''' then '', detail='' @ [CHR 0x22] @ bk_detail b @ [CHR 0x22] else '''')"

definition GetScopeNameByIdx :: "u32 \<Rightarrow> sk_graph \<Rightarrow> string option" where
  "GetScopeNameByIdx i g = map_of (sg_scopeIdxToName g) i"

definition append_scope_name :: "nat set \<Rightarrow> sk_graph \<Rightarrow> nat \<Rightarrow> string \<Rightarrow> string" where
  "append_scope_name flags g k acc = (if k \<in> flags then
     (case GetScopeNameByIdx (of_nat k) g of None \<Rightarrow> acc
      | Some name \<Rightarrow> (if acc \<noteq> '''' then acc @ ''_'' else acc) @ name) else acc)"

definition GetScopeNamesFromBitFlags :: "nat set \<Rightarrow> sk_graph \<Rightarrow> string" where
  "GetScopeNamesFromBitFlags flags g =
    (let names = fold (append_scope_name flags g) [0..<MAX_SCOPE_NUM] ''''
     in if names = '''' then ''none'' else names)"

section \<open>Stream entries and kernels of a scope\<close>

fun note_node :: "u32 \<Rightarrow> node_id \<Rightarrow> stream_info list \<Rightarrow> stream_info list" where
  "note_node s i [] =
     [\<lparr> ss_streamIdx = s, ss_headNodeIdx = i, ss_tailNodeIdx = i, ss_nodeSize = 1 \<rparr>]"
| "note_node s i (x # xs) = (if ss_streamIdx x = s
     then x\<lparr> ss_tailNodeIdx := i, ss_nodeSize := ss_nodeSize x + 1 \<rparr> # xs
     else x # note_node s i xs)"

definition RebuildStreamInfos :: "sk_graph \<Rightarrow> sk_scope \<Rightarrow> sk_scope run" where
  "RebuildStreamInfos g sc =
     bindR (foldR (\<lambda>i infos. bindR (derefR (GetNodeById g i)) (\<lambda>n.
         Inr (note_node (nd_streamIdxInGraph n) (nd_nodeId n) infos))) (sc_nodes sc) [])
       (\<lambda>infos. Inr (sc\<lparr> sc_streamInfos := infos \<rparr>))"

text \<open>\<open>AddStreamInfoToScope\<close> copies the entries, changes the copy and stores it back.\<close>

definition AddStreamInfoToScope :: "sk_node \<Rightarrow> sk_scope \<Rightarrow> sk_scope" where
  "AddStreamInfoToScope n sc =
     sc\<lparr> sc_streamInfos := note_node (nd_streamIdxInGraph n) (nd_nodeId n) (sc_streamInfos sc) \<rparr>"

definition is_plain_kernel :: "sk_node option \<Rightarrow> bool" where
  "is_plain_kernel p = (case p of None \<Rightarrow> False
     | Some n \<Rightarrow> nd_nodeType n = NODE_KERNEL \<and> \<not> nd_isScopeNode n)"

definition GetKernelNodeIds :: "sk_graph \<Rightarrow> sk_scope \<Rightarrow> node_id list" where
  "GetKernelNodeIds g sc = sort (filter (\<lambda>i. is_plain_kernel (GetNodeById g i)) (sc_nodes sc))"

definition HasSameKernelNodes :: "sk_graph \<Rightarrow> sk_scope \<Rightarrow> sk_scope \<Rightarrow> bool" where
  "HasSameKernelNodes g a b \<longleftrightarrow> sort (GetKernelNodeIds g a) = sort (GetKernelNodeIds g b)"

section \<open>The chain of parents\<close>

definition BuildScopeIdIndexMap :: "sk_scope list \<Rightarrow> (u16 \<times> nat) list" where
  "BuildScopeIdIndexMap scopes =
     fold (\<lambda>i m. AList.update (sc_scopeId (scopes ! i)) i m) [0..<length scopes] []"

fun find_root :: "nat \<Rightarrow> sk_scope list \<Rightarrow> (u16 \<times> nat) list \<Rightarrow> sk_scope \<Rightarrow> break_info run" where
  "find_root 0 scopes m cur = Inl OutOfFuel"
| "find_root (Suc fuel) scopes m cur =
    (if bk_parentScopeId (sc_breakInfo cur) = INVALID_SCOPE_ID then Inr (sc_breakInfo cur)
     else case map_of m (bk_parentScopeId (sc_breakInfo cur)) of
       None \<Rightarrow> Inr (sc_breakInfo cur)
     | Some k \<Rightarrow> find_root fuel scopes m (scopes ! k))"

definition FindRootBreakInfo :: "sk_scope list \<Rightarrow> sk_scope \<Rightarrow> break_info run" where
  "FindRootBreakInfo scopes sc =
     find_root (Suc (length scopes)) scopes (BuildScopeIdIndexMap scopes) sc"

definition CountRootBreakReasons :: "sk_scope list \<Rightarrow> (scope_break_reason \<times> nat) list run" where
  "CountRootBreakReasons scopes = foldR (\<lambda>sc counts.
     bindR (FindRootBreakInfo scopes sc) (\<lambda>b.
       Inr (AList.update (bk_reason b)
         (Suc (case map_of counts (bk_reason b) of None \<Rightarrow> 0 | Some k \<Rightarrow> k)) counts))) scopes []"

section \<open>Stream entries describe the nodes\<close>

text \<open>The nodes of a scope on a stream, and the streams in the order in which they appear.\<close>

definition on_stream :: "sk_graph \<Rightarrow> u32 \<Rightarrow> node_id list \<Rightarrow> node_id list" where
  "on_stream g s ids = filter (\<lambda>i. map_option nd_streamIdxInGraph (GetNodeById g i) = Some s) ids"

definition streams_of :: "sk_graph \<Rightarrow> node_id list \<Rightarrow> u32 list" where
  "streams_of g ids = rev (remdups (rev (map (\<lambda>i. nd_streamIdxInGraph (the (GetNodeById g i))) ids)))"

definition stream_entry :: "sk_graph \<Rightarrow> node_id list \<Rightarrow> u32 \<Rightarrow> stream_info" where
  "stream_entry g ids s = \<lparr> ss_streamIdx = s, ss_headNodeIdx = hd (on_stream g s ids),
     ss_tailNodeIdx = last (on_stream g s ids), ss_nodeSize = of_nat (length (on_stream g s ids)) \<rparr>"

lemma stream_entry_streamIdx [simp]:
  "ss_streamIdx (stream_entry g ids s) = s" "ss_streamIdx \<circ> stream_entry g ids = id"
  by (simp_all add: stream_entry_def fun_eq_iff)

definition known :: "sk_graph \<Rightarrow> node_id list \<Rightarrow> bool" where
  "known g ids \<longleftrightarrow> set ids \<subseteq> dom (sg_graphMap g)"

lemma note_node_absent:
  "s \<notin> ss_streamIdx ` set xs \<Longrightarrow> note_node s i xs = xs @
     [\<lparr> ss_streamIdx = s, ss_headNodeIdx = i, ss_tailNodeIdx = i, ss_nodeSize = 1 \<rparr>]"
  by (induction xs) auto

lemma note_node_present:
  "s \<in> ss_streamIdx ` set xs \<Longrightarrow> distinct (map ss_streamIdx xs) \<Longrightarrow>
   note_node s i xs = map (\<lambda>x. if ss_streamIdx x = s
     then x\<lparr> ss_tailNodeIdx := i, ss_nodeSize := ss_nodeSize x + 1 \<rparr> else x) xs"
proof (induction xs)
  case (Cons x xs)
  show ?case
  proof (cases "ss_streamIdx x = s")
    case True
    then have "s \<notin> ss_streamIdx ` set xs" using Cons.prems(2) by auto
    then have "\<forall>y\<in>set xs. ss_streamIdx y \<noteq> s" by blast
    then have "map (\<lambda>y. if ss_streamIdx y = s then y\<lparr> ss_tailNodeIdx := i, ss_nodeSize := ss_nodeSize y + 1 \<rparr>
        else y) xs = xs"
      by (induction xs) auto
    with True show ?thesis by simp
  next
    case False
    with Cons show ?thesis by auto
  qed
qed simp

lemma streams_of_snoc:
  assumes "GetNodeById g i = Some n"
  shows "streams_of g (ids @ [i]) = (if nd_streamIdxInGraph n \<in> set (streams_of g ids)
    then streams_of g ids else streams_of g ids @ [nd_streamIdxInGraph n])"
  using assms by (simp add: streams_of_def)

lemma on_stream_snoc:
  assumes "GetNodeById g i = Some n"
  shows "on_stream g s (ids @ [i]) = (if nd_streamIdxInGraph n = s then on_stream g s ids @ [i]
    else on_stream g s ids)"
  using assms by (simp add: on_stream_def)

lemma streams_of_nonempty:
  assumes "known g ids" and "s \<in> set (streams_of g ids)"
  shows "on_stream g s ids \<noteq> []"
  using assms by (force simp: streams_of_def on_stream_def filter_empty_conv known_def GetNodeById_def)

lemma distinct_streams_of [simp]: "distinct (streams_of g ids)"
  by (simp add: streams_of_def)

lemma on_stream_absent:
  assumes "known g ids" and "s \<notin> set (streams_of g ids)"
  shows "on_stream g s ids = []"
  using assms by (force simp: streams_of_def on_stream_def filter_empty_conv known_def GetNodeById_def)

lemma entries_snoc:
  assumes g: "graph_ok g" and k: "known g ids" and n: "GetNodeById g i = Some n"
  shows "note_node (nd_streamIdxInGraph n) (nd_nodeId n) (map (stream_entry g ids) (streams_of g ids)) =
    map (stream_entry g (ids @ [i])) (streams_of g (ids @ [i]))"
proof -
  let ?s = "nd_streamIdxInGraph n" and ?e = "map (stream_entry g ids) (streams_of g ids)"
  have i: "nd_nodeId n = i" using g n by (simp add: graph_ok_def GetNodeById_def)
  have idx: "map ss_streamIdx ?e = streams_of g ids" by (simp add: stream_entry_def o_def)
  have other: "stream_entry g (ids @ [i]) s = stream_entry g ids s" if "s \<noteq> ?s" for s
    using that by (simp add: stream_entry_def on_stream_snoc[OF n])
  show ?thesis
  proof (cases "?s \<in> set (streams_of g ids)")
    case True
    have "stream_entry g (ids @ [i]) ?s = (stream_entry g ids ?s)
        \<lparr> ss_tailNodeIdx := i, ss_nodeSize := ss_nodeSize (stream_entry g ids ?s) + 1 \<rparr>"
      using streams_of_nonempty[OF k True] by (simp add: stream_entry_def on_stream_snoc[OF n])
    moreover have "?s \<in> ss_streamIdx ` set ?e" using True idx by (metis set_map)
    ultimately show ?thesis using True other idx
      by (subst note_node_present) (auto simp: streams_of_snoc[OF n] i stream_entry_def)
  next
    case False
    have "stream_entry g (ids @ [i]) ?s =
        \<lparr> ss_streamIdx = ?s, ss_headNodeIdx = i, ss_tailNodeIdx = i, ss_nodeSize = 1 \<rparr>"
      using on_stream_absent[OF k False] by (simp add: stream_entry_def on_stream_snoc[OF n])
    moreover have "?s \<notin> ss_streamIdx ` set ?e" using False idx by (metis set_map)
    ultimately show ?thesis using False other
      by (subst note_node_absent) (auto simp: streams_of_snoc[OF n] i intro!: other[symmetric])
  qed
qed

lemma foldR_entries:
  assumes g: "graph_ok g" and k: "known g ids"
  shows "foldR (\<lambda>i infos. bindR (derefR (GetNodeById g i)) (\<lambda>n.
         Inr (note_node (nd_streamIdxInGraph n) (nd_nodeId n) infos))) ids [] =
    Inr (map (stream_entry g ids) (streams_of g ids))"
  using k
proof (induction ids rule: rev_induct)
  case Nil
  then show ?case by (simp add: streams_of_def)
next
  case (snoc i ids)
  then have k: "known g ids" by (simp add: known_def)
  obtain n where n: "GetNodeById g i = Some n" using snoc.prems by (auto simp: known_def GetNodeById_def)
  then show ?case using snoc.IH[OF k] entries_snoc[OF g k n] by (simp add: foldR_append)
qed

lemma RebuildStreamInfos_eq:
  assumes "graph_ok g" and "known g (sc_nodes sc)"
  shows "RebuildStreamInfos g sc =
    Inr (sc\<lparr> sc_streamInfos := map (stream_entry g (sc_nodes sc)) (streams_of g (sc_nodes sc)) \<rparr>)"
  by (simp add: RebuildStreamInfos_def foldR_entries[OF assms])

text \<open>
  \<^bold>\<open>Stream entries.\<close> Rebuilding the stream entries of a scope gives one entry for every
  stream that has a node in the scope, in the order of first appearance, with the first and the
  last node of the scope on that stream and the number of them (modulo the width of the counter).
\<close>

theorem RebuildStreamInfos_spec:
  assumes "graph_ok g" and "known g (sc_nodes sc)"
  shows "\<exists>sc'. RebuildStreamInfos g sc = Inr sc' \<and> sc_nodes sc' = sc_nodes sc \<and>
    map ss_streamIdx (sc_streamInfos sc') = streams_of g (sc_nodes sc) \<and>
    (\<forall>x\<in>set (sc_streamInfos sc'). let ids = on_stream g (ss_streamIdx x) (sc_nodes sc) in
       ids \<noteq> [] \<and> ss_headNodeIdx x = hd ids \<and> ss_tailNodeIdx x = last ids \<and>
       ss_nodeSize x = of_nat (length ids))"
  using streams_of_nonempty[OF assms(2)]
  by (auto simp: RebuildStreamInfos_eq[OF assms] stream_entry_def Let_def)

text \<open>Building the entries node by node, as the initial split does, gives the same result.\<close>

lemma AddStreamInfoToScope_eq:
  assumes "graph_ok g" and "known g (sc_nodes sc)" and "GetNodeById g i = Some n"
    and "sc_streamInfos sc = map (stream_entry g (sc_nodes sc)) (streams_of g (sc_nodes sc))"
  shows "AddStreamInfoToScope n (sc\<lparr> sc_nodes := sc_nodes sc @ [i] \<rparr>) =
    sc\<lparr> sc_nodes := sc_nodes sc @ [i], sc_streamInfos :=
      map (stream_entry g (sc_nodes sc @ [i])) (streams_of g (sc_nodes sc @ [i])) \<rparr>"
  using entries_snoc[OF assms(1-3)] assms(4) by (simp add: AddStreamInfoToScope_def)


lemma RebuildStreamInfos_spec_witness:
  "\<exists>sc'. RebuildStreamInfos (sample_graph [sample_node KernelNode NODE_KERNEL 0 1 2,
       sample_node KernelNode NODE_KERNEL 1 2 0]) (fst (new_scope 0)\<lparr> sc_nodes := [1, 2] \<rparr>) = Inr sc' \<and>
     sc_nodes sc' = [1, 2]"
proof -
  let ?g = "sample_graph [sample_node KernelNode NODE_KERNEL 0 1 2, sample_node KernelNode NODE_KERNEL 1 2 0]"
  have "graph_ok ?g" by (auto simp: graph_ok_def sample_graph_def sample_node_def split: if_splits)
  moreover have "known ?g [1, 2]" by (auto simp: known_def sample_graph_def sample_node_def)
  ultimately show ?thesis
    using RebuildStreamInfos_spec[of ?g "fst (new_scope 0)\<lparr> sc_nodes := [1, 2] \<rparr>"] by simp blast
qed

end
