(* ===== verification/Sk_Heap.thy ===== *)
theory Sk_Heap
  imports Sk_Graph
begin

text \<open>
  The pool of candidate nodes of the scope split (\<^verbatim>\<open>sk_candidate_heap.h\<close>,
  \<^verbatim>\<open>sk_candidate_heap.cpp\<close>). In the priority-queue mode it is a queue of ids ordered by the id;
  in the other modes it keeps three sets ordered by the id and picks by kind of node and, between
  kernels, by the kind and the stream of the previous kernel. The contract of a pool is a locale,
  interpreted for both modes; its client lemma is that draining a pool returns every node once.
\<close>

section \<open>State and operations\<close>

datatype sk_heap_type = PRIORITY_QUEUE | CUSTOMIZE_QUEUE | DEFAULT_QUEUE

datatype kernel_type_class = KC_MIX | KC_VEC | KC_CUBE | KC_OTHER

record sk_heap =
  hp_mode :: sk_heap_type
  hp_defaultNodes :: "node_id list"
  hp_kernelNodes :: "node_id list"
  hp_nonKernelNodes :: "node_id list"
  hp_nodeHeap :: "node_id list"
  hp_prevKernelTypeClass :: kernel_type_class
  hp_prevKernelStreamIdx :: u32
  hp_prevStreamIdx :: u32
  hp_isFirstSelection :: bool

definition new_heap :: "sk_heap_type \<Rightarrow> sk_heap" where
  "new_heap m = \<lparr> hp_mode = m, hp_defaultNodes = [], hp_kernelNodes = [], hp_nonKernelNodes = [],
     hp_nodeHeap = [], hp_prevKernelTypeClass = KC_OTHER, hp_prevKernelStreamIdx = 0,
     hp_prevStreamIdx = 0, hp_isFirstSelection = True \<rparr>"

text \<open>The three sets hold node pointers compared by the id of the node.\<close>

definition heap_push :: "sk_graph \<Rightarrow> node_id \<Rightarrow> sk_heap \<Rightarrow> sk_heap" where
  "heap_push g i h =
    (if hp_mode h = PRIORITY_QUEUE then h\<lparr> hp_nodeHeap := insort i (hp_nodeHeap h) \<rparr>
     else case GetNodeById g i of None \<Rightarrow> h
     | Some n \<Rightarrow> (case nd_nodeType n of
         NODE_DEFAULT \<Rightarrow> h\<lparr> hp_defaultNodes := oset_insert i (hp_defaultNodes h) \<rparr>
       | NODE_KERNEL \<Rightarrow>
           (if nd_isScopeNode n then h\<lparr> hp_nonKernelNodes := oset_insert i (hp_nonKernelNodes h) \<rparr>
            else h\<lparr> hp_kernelNodes := oset_insert i (hp_kernelNodes h) \<rparr>)
       | NODE_NOTIFY \<Rightarrow> h\<lparr> hp_nonKernelNodes := oset_insert i (hp_nonKernelNodes h) \<rparr>
       | NODE_WAIT \<Rightarrow> h\<lparr> hp_nonKernelNodes := oset_insert i (hp_nonKernelNodes h) \<rparr>
       | NODE_RESET \<Rightarrow> h\<lparr> hp_nonKernelNodes := oset_insert i (hp_nonKernelNodes h) \<rparr>
       | _ \<Rightarrow> h))"

definition heap_empty :: "sk_heap \<Rightarrow> bool" where
  "heap_empty h = (if hp_mode h = PRIORITY_QUEUE then hp_nodeHeap h = []
     else hp_defaultNodes h = [] \<and> hp_kernelNodes h = [] \<and> hp_nonKernelNodes h = [])"

definition heap_size :: "sk_heap \<Rightarrow> nat" where
  "heap_size h = (if hp_mode h = PRIORITY_QUEUE then length (hp_nodeHeap h)
     else length (hp_defaultNodes h) + length (hp_kernelNodes h) + length (hp_nonKernelNodes h))"

definition HasKernelNodes :: "sk_heap \<Rightarrow> bool" where
  "HasKernelNodes h \<longleftrightarrow> hp_kernelNodes h \<noteq> []"

definition ResetSelectionState :: "sk_heap \<Rightarrow> sk_heap" where
  "ResetSelectionState h = h\<lparr> hp_prevKernelTypeClass := KC_OTHER, hp_prevKernelStreamIdx := 0,
     hp_prevStreamIdx := 0, hp_isFirstSelection := True \<rparr>"

definition heap_clear :: "sk_heap \<Rightarrow> sk_heap" where
  "heap_clear h = ResetSelectionState (h\<lparr> hp_nodeHeap := [], hp_defaultNodes := [],
     hp_kernelNodes := [], hp_nonKernelNodes := [] \<rparr>)"

subsection \<open>Classification of kernels\<close>

definition IsMixType :: "sk_kernel_type \<Rightarrow> bool" where
  "IsMixType t \<longleftrightarrow> t = MIX_AIC_1_1 \<or> t = MIX_AIC_1_2"

definition IsVecType :: "sk_kernel_type \<Rightarrow> bool" where
  "IsVecType t \<longleftrightarrow> t = AIV_ONLY \<or> t = MIX_AIV_1_0"

definition IsCubeType :: "sk_kernel_type \<Rightarrow> bool" where
  "IsCubeType t \<longleftrightarrow> t = AIC_ONLY \<or> t = MIX_AIC_1_0"

definition GetKernelTypeClass :: "sk_kernel_type \<Rightarrow> kernel_type_class" where
  "GetKernelTypeClass t = (if IsMixType t then KC_MIX else if IsVecType t then KC_VEC
     else if IsCubeType t then KC_CUBE else KC_OTHER)"

text \<open>The fields read through a node pointer held by one of the sets.\<close>

definition kernel_type_of :: "sk_graph \<Rightarrow> node_id \<Rightarrow> sk_kernel_type" where
  "kernel_type_of g i = (case GetNodeById g i of None \<Rightarrow> KT_DEFAULT | Some n \<Rightarrow> GetKernelType n)"

definition stream_of :: "sk_graph \<Rightarrow> node_id \<Rightarrow> u32" where
  "stream_of g i = (case GetNodeById g i of None \<Rightarrow> 0 | Some n \<Rightarrow> nd_streamIdxInGraph n)"

subsection \<open>Selection\<close>

definition SelectNextKernelNode :: "sk_graph \<Rightarrow> sk_heap \<Rightarrow> node_id option" where
  "SelectNextKernelNode g h =
    (let ks = hp_kernelNodes h;
         other = (\<lambda>i. stream_of g i \<noteq> hp_prevKernelStreamIdx h)
     in if ks = [] then None
        else if hp_isFirstSelection h then
          (case List.find (\<lambda>i. IsMixType (kernel_type_of g i)) ks of
             Some i \<Rightarrow> Some i | None \<Rightarrow> Some (hd ks))
        else
          (let byRule = (case hp_prevKernelTypeClass h of
               KC_MIX \<Rightarrow> List.find (\<lambda>i. IsMixType (kernel_type_of g i) \<and> other i) ks
             | KC_VEC \<Rightarrow> List.find (\<lambda>i. IsCubeType (kernel_type_of g i) \<and> other i) ks
             | KC_CUBE \<Rightarrow> List.find (\<lambda>i. IsVecType (kernel_type_of g i) \<and> other i) ks
             | KC_OTHER \<Rightarrow> None)
           in case byRule of Some i \<Rightarrow> Some i
              | None \<Rightarrow> (case List.find other ks of Some i \<Rightarrow> Some i | None \<Rightarrow> Some (hd ks))))"

definition SelectNextNonKernelNode :: "sk_heap \<Rightarrow> node_id option" where
  "SelectNextNonKernelNode h =
     (case hp_nonKernelNodes h of [] \<Rightarrow> None | i # _ \<Rightarrow> Some i)"

text \<open>
  \<open>pop\<close> on an empty priority queue reads the top of an empty \<open>std::priority_queue\<close>; in the other
  modes an empty pool yields id 0.
\<close>

definition heap_pop :: "sk_graph \<Rightarrow> sk_heap \<Rightarrow> (node_id \<times> sk_heap) run" where
  "heap_pop g h =
    (if hp_mode h = PRIORITY_QUEUE then
       (case hp_nodeHeap h of [] \<Rightarrow> Inl EmptyTop
        | i # is \<Rightarrow> Inr (i, h\<lparr> hp_nodeHeap := is \<rparr>))
     else if heap_empty h then Inr (0, h)
     else case hp_defaultNodes h of
       i # is \<Rightarrow> Inr (i, h\<lparr> hp_defaultNodes := remove1 i (hp_defaultNodes h) \<rparr>)
     | [] \<Rightarrow> (case SelectNextNonKernelNode h of
         Some i \<Rightarrow> Inr (i, h\<lparr> hp_nonKernelNodes := remove1 i (hp_nonKernelNodes h),
                             hp_prevStreamIdx := stream_of g i \<rparr>)
       | None \<Rightarrow> (case SelectNextKernelNode g h of
           Some i \<Rightarrow> Inr (i, h\<lparr> hp_kernelNodes := remove1 i (hp_kernelNodes h),
                        hp_prevKernelTypeClass := GetKernelTypeClass (kernel_type_of g i),
                        hp_prevKernelStreamIdx := stream_of g i,
                        hp_prevStreamIdx := stream_of g i,
                        hp_isFirstSelection := False \<rparr>)
         | None \<Rightarrow> Inr (0, h))))"

section \<open>The invariant and the content of a pool\<close>

definition heap_ok :: "sk_heap \<Rightarrow> bool" where
  "heap_ok h \<longleftrightarrow> sorted (hp_nodeHeap h) \<and> oset (hp_defaultNodes h) \<and> oset (hp_kernelNodes h) \<and>
     oset (hp_nonKernelNodes h)"

definition heap_content :: "sk_heap \<Rightarrow> node_id multiset" where
  "heap_content h = (if hp_mode h = PRIORITY_QUEUE then mset (hp_nodeHeap h)
     else mset (hp_defaultNodes h) + mset (hp_kernelNodes h) + mset (hp_nonKernelNodes h))"

lemma heap_ok_new [simp]: "heap_ok (new_heap m)"
  by (simp add: heap_ok_def new_heap_def)

lemma heap_ok_clear [simp]: "heap_ok (heap_clear h)"
  by (simp add: heap_ok_def heap_clear_def ResetSelectionState_def)

lemma heap_clear_empty [simp]: "heap_empty (heap_clear h)"
  by (simp add: heap_empty_def heap_clear_def ResetSelectionState_def)

lemma heap_ok_push:
  assumes "heap_ok h"
  shows "heap_ok (heap_push g i h)"
  using assms
  by (auto simp: heap_ok_def heap_push_def sorted_insort oset_oset_insert
      split: option.split sk_node_type.split)

lemma heap_mode_push [simp]: "hp_mode (heap_push g i h) = hp_mode h"
  by (simp add: heap_push_def split: option.split sk_node_type.split)

lemma heap_empty_content: "heap_empty h \<longleftrightarrow> heap_content h = {#}"
  by (auto simp: heap_empty_def heap_content_def)

lemma heap_size_content: "heap_size h = size (heap_content h)"
  by (simp add: heap_size_def heap_content_def)

lemma SelectNextKernelNode_in:
  "SelectNextKernelNode g h = Some i \<Longrightarrow> i \<in> set (hp_kernelNodes h)"
  by (auto simp: SelectNextKernelNode_def Let_def dest!: find_SomeD
      split: if_splits option.splits kernel_type_class.splits)

lemma SelectNextKernelNode_None:
  "SelectNextKernelNode g h = None \<longleftrightarrow> hp_kernelNodes h = []"
  by (auto simp: SelectNextKernelNode_def Let_def
      split: option.split kernel_type_class.split)

lemma heap_pop_content:
  assumes "heap_ok h" and "\<not> heap_empty h"
  shows "\<exists>i h'. heap_pop g h = Inr (i, h') \<and> heap_content h = add_mset i (heap_content h') \<and>
    heap_ok h' \<and> hp_mode h' = hp_mode h"
proof (cases "hp_mode h = PRIORITY_QUEUE")
  case True
  then show ?thesis using assms
    by (cases "hp_nodeHeap h") (auto simp: heap_pop_def heap_empty_def heap_content_def heap_ok_def)
next
  case custom: False
  show ?thesis
  proof (cases "hp_defaultNodes h")
    case (Cons i "is")
    then show ?thesis using custom assms
      by (auto simp: heap_pop_def heap_content_def heap_ok_def oset_def)
  next
    case nodefault: Nil
    show ?thesis
    proof (cases "hp_nonKernelNodes h")
      case (Cons i "is")
      then show ?thesis using custom assms nodefault
        by (auto simp: heap_pop_def heap_content_def heap_ok_def oset_def SelectNextNonKernelNode_def)
    next
      case Nil
      then have "hp_kernelNodes h \<noteq> []" using assms(2) custom nodefault by (simp add: heap_empty_def)
      then obtain i where i: "SelectNextKernelNode g h = Some i"
        using SelectNextKernelNode_None[of g h] by (cases "SelectNextKernelNode g h") auto
      then have "i \<in># mset (hp_kernelNodes h)" using SelectNextKernelNode_in by auto
      then have "mset (hp_kernelNodes h) = add_mset i (mset (remove1 i (hp_kernelNodes h)))" by simp
      then show ?thesis using custom assms nodefault Nil i oset_remove1[of "hp_kernelNodes h" i]
        by (simp add: heap_pop_def heap_content_def heap_ok_def SelectNextNonKernelNode_def)
    qed
  qed
qed

section \<open>The contract of a pool\<close>

text \<open>
  What the scope split relies on: a push adds the node or finds it there (or ignores it), a pop
  on a pool that is not empty removes one node and returns it, and emptiness is what it says.
\<close>

locale node_pool =
  fixes push :: "'i \<Rightarrow> 'p \<Rightarrow> 'p"
    and pop :: "'p \<Rightarrow> ('i \<times> 'p) run"
    and is_empty :: "'p \<Rightarrow> bool"
    and content :: "'p \<Rightarrow> 'i multiset"
    and ok :: "'p \<Rightarrow> bool"
  assumes push_ok: "ok p \<Longrightarrow> ok (push i p)"
    and push_content: "ok p \<Longrightarrow> content (push i p) = content p \<or> content (push i p) = add_mset i (content p)"
    and pop_content: "ok p \<Longrightarrow> \<not> is_empty p \<Longrightarrow>
      \<exists>i p'. pop p = Inr (i, p') \<and> content p = add_mset i (content p') \<and> ok p'"
    and empty_content: "is_empty p \<longleftrightarrow> content p = {#}"
begin

text \<open>Popping until the pool is empty.\<close>

fun drain :: "nat \<Rightarrow> 'p \<Rightarrow> ('i list \<times> 'p) run" where
  "drain 0 p = (if is_empty p then Inr ([], p) else Inl OutOfFuel)"
| "drain (Suc fuel) p = (if is_empty p then Inr ([], p)
     else bindR (pop p) (\<lambda>(i, p'). bindR (drain fuel p') (\<lambda>(is, q). Inr (i # is, q))))"

lemma drain_all:
  "ok p \<Longrightarrow> size (content p) \<le> fuel \<Longrightarrow>
     \<exists>is q. drain fuel p = Inr (is, q) \<and> mset is = content p \<and> is_empty q \<and> ok q"
proof (induction fuel arbitrary: p)
  case 0
  then show ?case using empty_content[of p] by simp
next
  case (Suc fuel)
  show ?case
  proof (cases "is_empty p")
    case True
    then show ?thesis using Suc.prems(1) empty_content[of p] by simp
  next
    case False
    then obtain i p' where p': "pop p = Inr (i, p')" "content p = add_mset i (content p')" "ok p'"
      using pop_content Suc.prems(1) by blast
    then obtain "is" q where "drain fuel p' = Inr (is, q)" "mset is = content p'" "is_empty q" "ok q"
      using Suc.IH[of p'] Suc.prems(2) by auto
    then show ?thesis using False p' by simp
  qed
qed

lemma pop_not_stuck: "ok p \<Longrightarrow> \<not> is_empty p \<Longrightarrow> \<exists>i p'. pop p = Inr (i, p') \<and> i \<in># content p"
  using pop_content[of p] by fastforce

lemma pushes_ok: "ok p \<Longrightarrow> ok (fold push is p)"
  by (induction "is" arbitrary: p) (auto intro: push_ok)

lemma pushes_content: "ok p \<Longrightarrow> set_mset (content (fold push is p)) \<subseteq> set_mset (content p) \<union> set is"
proof (induction "is" arbitrary: p)
  case (Cons i "is")
  then show ?case using Cons.IH[of "push i p"] push_ok push_content[of p i] by fastforce
qed simp

end

lemma heap_push_content:
  assumes "heap_ok h"
  shows "heap_content (heap_push g i h) = heap_content h \<or>
    heap_content (heap_push g i h) = add_mset i (heap_content h)"
  by (auto simp: heap_content_def heap_push_def oset_insert_def
      split: option.split sk_node_type.split)

interpretation pool: node_pool "heap_push g" "heap_pop g" heap_empty heap_content heap_ok for g
proof
  show "heap_ok (heap_push g i p)" if "heap_ok p" for i p using that by (rule heap_ok_push)
  show "heap_content (heap_push g i p) = heap_content p \<or>
      heap_content (heap_push g i p) = add_mset i (heap_content p)" if "heap_ok p" for i p
    using that by (rule heap_push_content)
  show "\<exists>i p'. heap_pop g p = Inr (i, p') \<and> heap_content p = add_mset i (heap_content p') \<and> heap_ok p'"
    if "heap_ok p" "\<not> heap_empty p" for p
    using heap_pop_content[OF that, of g] by blast
  show "heap_empty p \<longleftrightarrow> heap_content p = {#}" for p by (rule heap_empty_content)
qed

section \<open>Properties\<close>

text \<open>
  C35 \<^bold>\<open>No candidate is lost or invented.\<close> From a well-formed pool in any mode, popping until it
  is empty takes as many steps as the pool has nodes and yields each of them exactly once.
\<close>

theorem heap_drain:
  assumes "heap_ok h" and "heap_size h \<le> fuel"
  shows "\<exists>is q. pool.drain g fuel h = Inr (is, q) \<and> mset is = heap_content h \<and> heap_empty q"
  using pool.drain_all[OF assms(1), of fuel g] assms(2) by (auto simp: heap_size_content)

lemma heap_empty_queue: "hp_mode h = PRIORITY_QUEUE \<Longrightarrow> heap_empty h \<longleftrightarrow> hp_nodeHeap h = []"
  by (simp add: heap_empty_def)

lemma heap_pop_queue:
  "hp_mode h = PRIORITY_QUEUE \<Longrightarrow> hp_nodeHeap h = i # is \<Longrightarrow>
     heap_pop g h = Inr (i, h\<lparr> hp_nodeHeap := is \<rparr>)"
  by (simp add: heap_pop_def)

lemma drain_sorted:
  assumes "hp_mode h = PRIORITY_QUEUE" and "sorted (hp_nodeHeap h)"
    and "pool.drain g fuel h = Inr (is, q)"
  shows "is = hp_nodeHeap h"
  using assms
proof (induction fuel arbitrary: h "is" q)
  case 0
  then show ?case by (simp add: heap_empty_queue split: if_splits)
next
  case (Suc fuel)
  show ?case
  proof (cases "hp_nodeHeap h")
    case Nil
    then show ?thesis using Suc.prems by (simp add: heap_empty_queue)
  next
    case (Cons i is')
    then show ?thesis using Suc.prems Suc.IH[of "h\<lparr> hp_nodeHeap := is' \<rparr>"]
      by (auto simp: heap_empty_queue heap_pop_queue)
  qed
qed

text \<open>
  \<^bold>\<open>The priority queue sorts.\<close> In the priority-queue mode, pushing any list of ids into a new
  pool and draining it returns the list in increasing order.
\<close>

theorem priority_heap_sorts:
  "\<exists>q. pool.drain g (length ids) (fold (heap_push g) ids (new_heap PRIORITY_QUEUE)) = Inr (sort ids, q)"
proof -
  let ?h = "fold (heap_push g) ids (new_heap PRIORITY_QUEUE)"
  have ok: "heap_ok ?h" by (rule pool.pushes_ok) simp
  have mode: "hp_mode (fold (heap_push g) ids k) = hp_mode k" for k by (induction ids arbitrary: k) simp_all
  have queue: "mset (hp_nodeHeap (fold (heap_push g) ids k)) = mset ids + mset (hp_nodeHeap k)"
    if "hp_mode k = PRIORITY_QUEUE" for k
    using that
  proof (induction ids arbitrary: k)
    case (Cons i "is")
    have "mset (hp_nodeHeap (heap_push g i k)) = add_mset i (mset (hp_nodeHeap k))"
      using Cons.prems by (simp add: heap_push_def)
    then show ?case using Cons.IH[of "heap_push g i k"] Cons.prems by simp
  qed simp
  have m: "hp_mode ?h = PRIORITY_QUEUE" "mset (hp_nodeHeap ?h) = mset ids"
    using mode queue[of "new_heap PRIORITY_QUEUE"] by (simp_all add: new_heap_def)
  then have "size (heap_content ?h) = length ids"
    by (metis heap_content_def size_mset)
  then obtain "is" q where r: "pool.drain g (length ids) ?h = Inr (is, q)"
    using pool.drain_all[OF ok, of "length ids" g] by auto
  have sorted: "sorted (hp_nodeHeap ?h)" using ok by (simp add: heap_ok_def)
  from drain_sorted[OF m(1) sorted r] have "is = sort ids"
    using m(2) sorted by (metis properties_for_sort)
  with r show ?thesis by blast
qed

text \<open>The kernels the rule for the next kernel looks for first, and those it falls back to.\<close>

definition preferred_kernel :: "sk_graph \<Rightarrow> sk_heap \<Rightarrow> node_id \<Rightarrow> bool" where
  "preferred_kernel g h i =
    (if hp_isFirstSelection h then IsMixType (kernel_type_of g i)
     else stream_of g i \<noteq> hp_prevKernelStreamIdx h \<and>
       (case hp_prevKernelTypeClass h of
          KC_MIX \<Rightarrow> IsMixType (kernel_type_of g i)
        | KC_VEC \<Rightarrow> IsCubeType (kernel_type_of g i)
        | KC_CUBE \<Rightarrow> IsVecType (kernel_type_of g i)
        | KC_OTHER \<Rightarrow> False))"

definition fallback_kernel :: "sk_graph \<Rightarrow> sk_heap \<Rightarrow> node_id \<Rightarrow> bool" where
  "fallback_kernel g h i \<longleftrightarrow> \<not> hp_isFirstSelection h \<and> stream_of g i \<noteq> hp_prevKernelStreamIdx h"

definition best_kernels :: "sk_graph \<Rightarrow> sk_heap \<Rightarrow> node_id set" where
  "best_kernels g h = (let K = set (hp_kernelNodes h) in
     if \<exists>i\<in>K. preferred_kernel g h i then {i \<in> K. preferred_kernel g h i}
     else if \<exists>i\<in>K. fallback_kernel g h i then {i \<in> K. fallback_kernel g h i}
     else K)"

lemma find_conj_swap: "List.find (\<lambda>i. P i \<and> Q i) xs = List.find (\<lambda>i. Q i \<and> P i) xs"
  by (induction xs) auto

lemma find_False [simp]: "List.find (\<lambda>i. False) xs = None"
  by (induction xs) auto

lemma SelectNextKernelNode_eq:
  assumes "hp_kernelNodes h \<noteq> []"
  shows "SelectNextKernelNode g h =
    (case List.find (preferred_kernel g h) (hp_kernelNodes h) of Some i \<Rightarrow> Some i
     | None \<Rightarrow> (case List.find (fallback_kernel g h) (hp_kernelNodes h) of Some i \<Rightarrow> Some i
       | None \<Rightarrow> Some (hd (hp_kernelNodes h))))"
proof (cases "hp_isFirstSelection h")
  case True
  then show ?thesis using assms
    by (simp add: SelectNextKernelNode_def Let_def preferred_kernel_def[abs_def]
        fallback_kernel_def[abs_def] split: option.split)
next
  case False
  then show ?thesis using assms
    by (cases "hp_prevKernelTypeClass h")
      (simp_all add: SelectNextKernelNode_def preferred_kernel_def[abs_def] Let_def
        fallback_kernel_def[abs_def] find_conj_swap[of _ "\<lambda>i. stream_of g i \<noteq> hp_prevKernelStreamIdx h"]
        split: option.split)
qed

lemma SelectNextKernelNode_best:
  assumes "oset (hp_kernelNodes h)" and "hp_kernelNodes h \<noteq> []"
  shows "\<exists>i. SelectNextKernelNode g h = Some i \<and> i \<in> best_kernels g h \<and>
    (\<forall>j\<in>best_kernels g h. i \<le> j)"
proof -
  let ?ks = "hp_kernelNodes h"
  show ?thesis
  proof (cases "List.find (preferred_kernel g h) ?ks")
    case (Some i)
    then have "SelectNextKernelNode g h = Some i" by (simp add: SelectNextKernelNode_eq[OF assms(2)])
    then show ?thesis using oset_find_least[OF assms(1) Some] by (auto simp: best_kernels_def Let_def)
  next
    case pref: None
    show ?thesis
    proof (cases "List.find (fallback_kernel g h) ?ks")
      case (Some i)
      with pref have "SelectNextKernelNode g h = Some i"
        by (simp add: SelectNextKernelNode_eq[OF assms(2)])
      then show ?thesis using pref[unfolded find_None_iff'] oset_find_least[OF assms(1) Some]
        by (auto simp: best_kernels_def Let_def)
    next
      case None
      with pref have "SelectNextKernelNode g h = Some (hd ?ks)"
        by (simp add: SelectNextKernelNode_eq[OF assms(2)])
      then show ?thesis using pref[unfolded find_None_iff'] None[unfolded find_None_iff'] assms(2)
          oset_hd_least[OF assms] by (auto simp: best_kernels_def Let_def)
    qed
  qed
qed

text \<open>
  C26 \<^bold>\<open>Selection order.\<close> In the customised modes a pop returns the least default node if there
  is one, else the least node that is not a kernel (scope kernels included), else the least of
  the best kernels: on the first selection the mixed kernels, after a mixed, vector or cube
  kernel the mixed, cube or vector kernels of another stream, then any kernel of another stream,
  then any kernel; and the pool forgets exactly the node it returned.
\<close>

theorem custom_heap_pop_order:
  assumes "heap_ok h" and "hp_mode h \<noteq> PRIORITY_QUEUE" and "\<not> heap_empty h"
  shows "\<exists>i h'. heap_pop g h = Inr (i, h') \<and> heap_content h = add_mset i (heap_content h') \<and>
    (let cands = (if hp_defaultNodes h \<noteq> [] then set (hp_defaultNodes h)
        else if hp_nonKernelNodes h \<noteq> [] then set (hp_nonKernelNodes h)
        else best_kernels g h)
     in i \<in> cands \<and> (\<forall>j\<in>cands. i \<le> j))"
proof -
  obtain i h' where pop: "heap_pop g h = Inr (i, h')" "heap_content h = add_mset i (heap_content h')"
    using heap_pop_content[OF assms(1,3)] by blast
  have osets: "oset (hp_defaultNodes h)" "oset (hp_nonKernelNodes h)" "oset (hp_kernelNodes h)"
    using assms(1) by (simp_all add: heap_ok_def)
  consider (default) "hp_defaultNodes h \<noteq> []"
    | (other) "hp_defaultNodes h = []" "hp_nonKernelNodes h \<noteq> []"
    | (kernel) "hp_defaultNodes h = []" "hp_nonKernelNodes h = []" "hp_kernelNodes h \<noteq> []"
    using assms(2,3) by (auto simp: heap_empty_def)
  then show ?thesis
  proof cases
    case default
    then have "i = hd (hp_defaultNodes h)" using pop(1) assms(2,3)
      by (auto simp: heap_pop_def split: list.splits)
    then show ?thesis using pop default oset_hd_least[OF osets(1) default] by simp
  next
    case other
    then have "i = hd (hp_nonKernelNodes h)" using pop(1) assms(2,3)
      by (auto simp: heap_pop_def SelectNextNonKernelNode_def split: list.splits)
    then show ?thesis using pop other oset_hd_least[OF osets(2) other(2)] by simp
  next
    case kernel
    obtain k where k: "SelectNextKernelNode g h = Some k" "k \<in> best_kernels g h"
      "\<forall>j\<in>best_kernels g h. k \<le> j"
      using SelectNextKernelNode_best[OF osets(3) kernel(3)] by blast
    then have "i = k" using pop(1) assms(2,3) kernel
      by (simp add: heap_pop_def SelectNextNonKernelNode_def)
    then show ?thesis using pop kernel k by simp
  qed
qed

section \<open>Witnesses\<close>

definition sample_kernel_node :: "node_id \<Rightarrow> u32 \<Rightarrow> sk_kernel_type \<Rightarrow> sk_node" where
  "sample_kernel_node i s kt = (sample_node KernelNode NODE_KERNEL INVALID_TASK_ID i INVALID_TASK_ID)
     \<lparr> nd_streamIdxInGraph := s, nd_kernelInfos := default_kernel_infos\<lparr> ki_kernelType := kt \<rparr> \<rparr>"

definition sample_pool :: "sk_heap" where
  "sample_pool = (new_heap CUSTOMIZE_QUEUE)\<lparr> hp_kernelNodes := [1, 2, 3],
     hp_prevKernelTypeClass := KC_VEC, hp_prevKernelStreamIdx := 0, hp_isFirstSelection := False \<rparr>"

definition sample_pool_graph :: "sk_graph" where
  "sample_pool_graph = sample_graph [sample_kernel_node 1 0 AIC_ONLY, sample_kernel_node 2 1 AIV_ONLY,
     sample_kernel_node 3 1 AIC_ONLY]"

lemma sample_pool_ok: "heap_ok sample_pool" "hp_mode sample_pool \<noteq> PRIORITY_QUEUE" "\<not> heap_empty sample_pool"
  by (simp_all add: sample_pool_def new_heap_def heap_ok_def oset_def heap_empty_def)

lemma heap_drain_witness:
  "\<exists>is q. pool.drain sample_pool_graph 3 sample_pool = Inr (is, q) \<and> mset is = heap_content sample_pool \<and>
     heap_empty q"
  by (rule heap_drain[OF sample_pool_ok(1)]) (simp add: sample_pool_def new_heap_def heap_size_def)

text \<open>After a vector kernel of stream 0 the cube kernel 3 of stream 1 is taken before 1 and 2.\<close>

lemma custom_heap_pop_order_witness:
  "\<exists>h'. heap_pop sample_pool_graph sample_pool = Inr (3, h') \<and>
     heap_content sample_pool = add_mset 3 (heap_content h')"
proof -
  have "case heap_pop sample_pool_graph sample_pool of Inl e \<Rightarrow> False | Inr (i, h) \<Rightarrow> i = 3"
    by code_simp
  then show ?thesis using custom_heap_pop_order[OF sample_pool_ok, of sample_pool_graph]
    by (auto split: sum.splits prod.splits)
qed

end
