(* ===== verification/Sk_Initial_Split.thy ===== *)
theory Sk_Initial_Split
  imports Sk_Scope Sk_Heap
begin

text \<open>
  The first pass of the scope split (\<^verbatim>\<open>InitialScopeSplitPass\<close> in \<^verbatim>\<open>sk_scope_split.cpp\<close>): it walks
  all streams at once, skips what cannot be fused, and gathers the nodes that carry the same scope
  flags, suspending a stream at a wait until the notify node it waits for has been passed. The
  unordered map from streams to their state is a list of pairs in the order in which it is iterated,
  which is an argument of the pass. The break records that the pass only clears are left out.
\<close>

section \<open>State\<close>

record stream_state =
  st_currentNodeId :: node_id
  st_isSuspended :: bool
  st_waitingForNotify :: event_id
  st_isTerminated :: bool

definition new_stream :: stream_state where
  "new_stream = \<lparr> st_currentNodeId = INVALID_TASK_ID, st_isSuspended = False,
     st_waitingForNotify = INVALID_TASK_ID, st_isTerminated = False \<rparr>"

record split_state =
  sp_streams :: "(u32 \<times> stream_state) list"
  sp_visitedNotifies :: "node_id set"
  sp_processed :: "node_id set"
  sp_heap :: sk_heap
  sp_flags :: "nat set"
  sp_scope :: "sk_scope option"

definition new_split :: "sk_heap_type \<Rightarrow> split_state" where
  "new_split m = \<lparr> sp_streams = [], sp_visitedNotifies = {}, sp_processed = {}, sp_heap = new_heap m,
     sp_flags = {}, sp_scope = None \<rparr>"

text \<open>
  \<open>streamStates_[s]\<close>: a missing key reads as a default state. (The code inserts it; it then stands
  at no node and is never looked at again.)
\<close>

definition stream_at :: "split_state \<Rightarrow> u32 \<Rightarrow> stream_state" where
  "stream_at st s = (case map_of (sp_streams st) s of None \<Rightarrow> new_stream | Some x \<Rightarrow> x)"

definition upd_stream :: "u32 \<Rightarrow> (stream_state \<Rightarrow> stream_state) \<Rightarrow> split_state \<Rightarrow> split_state" where
  "upd_stream s f st = st\<lparr> sp_streams := AList.update s (f (stream_at st s)) (sp_streams st) \<rparr>"

definition GetEventInfo :: "event_id \<Rightarrow> sk_graph \<Rightarrow> event_infos option" where
  "GetEventInfo e g = map_of (sg_eventToNodes g) e"

text \<open>
  The head nodes are indexed by the stream index, though only streams with nodes have one.
\<close>

definition InitStreamStates :: "u32 list \<Rightarrow> sk_graph \<Rightarrow> split_state \<Rightarrow> split_state run" where
  "InitStreamStates order g st = foldR (\<lambda>s st.
     if unat s < length (sg_headNodes g)
     then Inr (st\<lparr> sp_streams := sp_streams st @
       [(s, new_stream\<lparr> st_currentNodeId := sg_headNodes g ! unat s \<rparr>)] \<rparr>)
     else Inl OutOfRange) order (st\<lparr> sp_streams := [] \<rparr>)"

section \<open>Skipping nodes that cannot be fused\<close>

definition ProcessUnfusibleWaitNode :: "sk_graph \<Rightarrow> u32 \<Rightarrow> sk_node \<Rightarrow> split_state \<Rightarrow> bool \<times> split_state" where
  "ProcessUnfusibleWaitNode g s wn st =
    (let notifyId = GetCorrespondingNotifyNodeId wn in
     if notifyId = INVALID_TASK_ID then (True, st)
     else case GetNodeById g notifyId of
       None \<Rightarrow> (True, st)
     | Some nn \<Rightarrow>
         if notifyId \<in> sp_visitedNotifies st
         then (True, st\<lparr> sp_processed := insert (nd_nodeId wn) (sp_processed st) \<rparr>)
         else (False, upd_stream s (\<lambda>x. x\<lparr> st_isSuspended := True,
                st_waitingForNotify := GetEventId nn \<rparr>) st))"

type_synonym skip = "u32 \<Rightarrow> split_state \<Rightarrow> (bool \<times> split_state) run"

text \<open>The waits of a visited notify node; \<open>skip\<close> is \<open>SkipUnfusibleNodesForStream\<close>.\<close>

fun ResumeSuspendedWaitStreams ::
  "skip \<Rightarrow> sk_graph \<Rightarrow> event_id \<Rightarrow> node_id list \<Rightarrow> split_state \<Rightarrow> (bool \<times> split_state) run" where
  "ResumeSuspendedWaitStreams skip g e [] st = Inr (True, st)"
| "ResumeSuspendedWaitStreams skip g e (w # ws) st = (case GetNodeById g w of
     None \<Rightarrow> Inr (False, st)
   | Some wn \<Rightarrow> (let s = nd_streamIdxInGraph wn; x = stream_at st s in
       if st_isSuspended x \<and> st_waitingForNotify x = e then
         bindR (skip s (upd_stream s (\<lambda>x. x\<lparr> st_isSuspended := False,
             st_waitingForNotify := INVALID_TASK_ID \<rparr>) st)) (\<lambda>(ok, st1).
           if \<not> ok then Inr (False, st1) else ResumeSuspendedWaitStreams skip g e ws st1)
       else ResumeSuspendedWaitStreams skip g e ws st))"

definition HandleUnfusibleNotifyNode ::
  "skip \<Rightarrow> sk_graph \<Rightarrow> sk_node \<Rightarrow> split_state \<Rightarrow> (bool \<times> split_state) run" where
  "HandleUnfusibleNotifyNode skip g nn st =
     ResumeSuspendedWaitStreams skip g (GetEventId nn) (GetCorrespondingWaitNodeIds nn)
       (st\<lparr> sp_visitedNotifies := insert (nd_nodeId nn) (sp_visitedNotifies st),
            sp_processed := insert (nd_nodeId nn) (sp_processed st) \<rparr>)"

definition ProcessUnfusibleNodeForSkip ::
  "skip \<Rightarrow> sk_graph \<Rightarrow> u32 \<Rightarrow> sk_node \<Rightarrow> split_state \<Rightarrow> (bool \<times> split_state) run" where
  "ProcessUnfusibleNodeForSkip skip g s n st =
    (if nd_nodeType n = NODE_WAIT then Inr (ProcessUnfusibleWaitNode g s n st)
     else if nd_nodeType n = NODE_NOTIFY then HandleUnfusibleNotifyNode skip g n st
     else Inr (True, st\<lparr> sp_processed := insert (nd_nodeId n) (sp_processed st) \<rparr>))"

primrec skip_stream :: "nat \<Rightarrow> sk_graph \<Rightarrow> skip" where
  "skip_stream 0 g = (\<lambda>s st. Inl OutOfFuel)"
| "skip_stream (Suc fuel) g = (\<lambda>s st.
    let c = st_currentNodeId (stream_at st s) in
    if c = INVALID_TASK_ID then Inr (True, st)
    else case GetNodeById g c of
      None \<Rightarrow> Inr (False, st)
    | Some n \<Rightarrow>
        if nd_isFusible n then Inr (True, st)
        else bindR (ProcessUnfusibleNodeForSkip (skip_stream fuel g) g s n st) (\<lambda>(go, st1).
          if \<not> go then Inr (nd_nodeType n = NODE_WAIT, st1)
          else skip_stream fuel g s (upd_stream s (\<lambda>x. x\<lparr> st_currentNodeId := nd_nextNodeId n \<rparr>) st1)))"

definition skip_fuel :: "sk_graph \<Rightarrow> split_state \<Rightarrow> nat" where
  "skip_fuel g st = Suc (length (sg_nodeIds g) + length (sp_streams st))"

definition SkipUnfusibleNodesForStream :: "sk_graph \<Rightarrow> u32 \<Rightarrow> split_state \<Rightarrow> (bool \<times> split_state) run" where
  "SkipUnfusibleNodesForStream g s st = skip_stream (skip_fuel g st) g s st"

fun skip_all :: "sk_graph \<Rightarrow> u32 list \<Rightarrow> split_state \<Rightarrow> (bool \<times> split_state) run" where
  "skip_all g [] st = Inr (True, st)"
| "skip_all g (s # ss) st = bindR (SkipUnfusibleNodesForStream g s st) (\<lambda>(ok, st1).
     if \<not> ok then Inr (False, st1) else skip_all g ss st1)"

definition SkipUnfusibleNodes :: "sk_graph \<Rightarrow> split_state \<Rightarrow> (bool \<times> split_state) run" where
  "SkipUnfusibleNodes g st = skip_all g (map fst (sp_streams st)) st"

definition ResetStreamStates :: "sk_graph \<Rightarrow> split_state \<Rightarrow> (bool \<times> split_state) run" where
  "ResetStreamStates g st = SkipUnfusibleNodes g (st\<lparr> sp_streams := map (\<lambda>(s, x).
     (s, x\<lparr> st_isTerminated := False, st_isSuspended := False,
            st_waitingForNotify := INVALID_TASK_ID \<rparr>)) (sp_streams st) \<rparr>)"

section \<open>The nodes that may come next\<close>

definition min_node :: "sk_graph \<Rightarrow> u32 \<times> stream_state \<Rightarrow> node_id \<times> sk_node option \<Rightarrow> node_id \<times> sk_node option" where
  "min_node g p acc = (case p of (_, x) \<Rightarrow> case acc of (minIdx, minNode) \<Rightarrow>
    let c = st_currentNodeId x in
    if \<not> st_isTerminated x \<and> \<not> st_isSuspended x \<and> c \<noteq> INVALID_TASK_ID \<and> c < minIdx then
      (case GetNodeById g c of None \<Rightarrow> acc
       | Some n \<Rightarrow> if nd_isFusible n then (c, Some n) else acc)
    else acc)"

definition DetermineCurrentScopeBitFlags :: "sk_graph \<Rightarrow> split_state \<Rightarrow> bool \<times> split_state" where
  "DetermineCurrentScopeBitFlags g st =
    (case snd (fold (min_node g) (sp_streams st) (UINT64_MAX, None)) of
       None \<Rightarrow> (False, st)
     | Some n \<Rightarrow> (True, st\<lparr> sp_flags := nd_scopeBitFlags n \<rparr>))"

definition push_node :: "sk_graph \<Rightarrow> node_id \<Rightarrow> split_state \<Rightarrow> split_state" where
  "push_node g i st = st\<lparr> sp_heap := heap_push g i (sp_heap st) \<rparr>"

definition HandleWaitNode :: "sk_graph \<Rightarrow> sk_node \<Rightarrow> u32 \<Rightarrow> split_state \<Rightarrow> split_state" where
  "HandleWaitNode g wn s st =
    (let notifyId = GetCorrespondingNotifyNodeId wn; c = st_currentNodeId (stream_at st s) in
     if notifyId = INVALID_TASK_ID then push_node g c st
     else case GetNodeById g notifyId of
       None \<Rightarrow> st
     | Some nn \<Rightarrow>
         if notifyId \<in> sp_visitedNotifies st then push_node g c st
         else upd_stream s (\<lambda>x. x\<lparr> st_isSuspended := True,
                st_waitingForNotify := GetEventId nn \<rparr>) st)"

definition unfusible_break :: "sk_node \<Rightarrow> u32 \<Rightarrow> sk_scope \<Rightarrow> sk_scope" where
  "unfusible_break n s sc = sc\<lparr> sc_breakInfo := (sc_breakInfo sc)\<lparr> bk_reason := UNFUSIBLE_NODE,
     bk_triggerNodeId := nd_nodeId n, bk_triggerStreamIdx := s,
     bk_detail := ''unfused node causes scope break'' \<rparr> \<rparr>"

text \<open>
  The node after one that has been processed is tried at once. The scope under construction is
  dereferenced without a test; there is none while the heap is initialised.
\<close>

primrec try_add :: "nat \<Rightarrow> sk_graph \<Rightarrow> u32 \<Rightarrow> split_state \<Rightarrow> split_state run" where
  "try_add 0 g = (\<lambda>s st. Inl OutOfFuel)"
| "try_add (Suc fuel) g = (\<lambda>s st.
    let x = stream_at st s; c = st_currentNodeId x in
    if st_isTerminated x \<or> st_isSuspended x \<or> c = INVALID_TASK_ID then Inr st
    else case GetNodeById g c of
      None \<Rightarrow> Inr (upd_stream s (\<lambda>x. x\<lparr> st_currentNodeId := INVALID_TASK_ID \<rparr>) st)
    | Some n \<Rightarrow>
        if c \<in> sp_processed st
        then try_add fuel g s (upd_stream s (\<lambda>x. x\<lparr> st_currentNodeId := nd_nextNodeId n \<rparr>) st)
        else if \<not> nd_isFusible n then
          (let st1 = upd_stream s (\<lambda>x. x\<lparr> st_isTerminated := True \<rparr>) st in
           bindR (derefR (sp_scope st1)) (\<lambda>sc. Inr (st1\<lparr> sp_scope := Some (unfusible_break n s sc) \<rparr>)))
        else if nd_scopeBitFlags n \<noteq> sp_flags st
        then Inr (upd_stream s (\<lambda>x. x\<lparr> st_isTerminated := True \<rparr>) st)
        else if nd_nodeType n = NODE_WAIT then Inr (HandleWaitNode g n s st)
        else Inr (push_node g c st))"

definition TryAddNodeToHeap :: "sk_graph \<Rightarrow> u32 \<Rightarrow> split_state \<Rightarrow> split_state run" where
  "TryAddNodeToHeap g s st = try_add (Suc (length (sg_nodeIds g))) g s st"

definition InitNodeHeap :: "sk_graph \<Rightarrow> split_state \<Rightarrow> split_state run" where
  "InitNodeHeap g st =
     foldR (TryAddNodeToHeap g) (map fst (sp_streams st)) (st\<lparr> sp_heap := heap_clear (sp_heap st) \<rparr>)"

section \<open>Building a scope\<close>

definition resume_wait :: "sk_graph \<Rightarrow> event_id \<Rightarrow> node_id \<Rightarrow> split_state \<Rightarrow> split_state run" where
  "resume_wait g e w st = (case GetNodeById g w of None \<Rightarrow> Inr st
   | Some wn \<Rightarrow> (let s = nd_streamIdxInGraph wn; x = stream_at st s in
       if st_isSuspended x \<and> st_waitingForNotify x = e
       then TryAddNodeToHeap g s (upd_stream s (\<lambda>x. x\<lparr> st_isSuspended := False,
              st_waitingForNotify := INVALID_TASK_ID \<rparr>) st)
       else Inr st))"

definition ProcessNotifyNode :: "sk_graph \<Rightarrow> sk_node \<Rightarrow> split_state \<Rightarrow> split_state run" where
  "ProcessNotifyNode g nn st = (case GetEventInfo (GetEventId nn) g of
     None \<Rightarrow> Inr st
   | Some info \<Rightarrow> foldR (resume_wait g (GetEventId nn)) (ei_waitNodeIdList info)
       (st\<lparr> sp_visitedNotifies := insert (nd_nodeId nn) (sp_visitedNotifies st) \<rparr>))"

definition suspend_wait :: "sk_graph \<Rightarrow> event_id \<Rightarrow> node_id \<Rightarrow> split_state \<Rightarrow> split_state" where
  "suspend_wait g e w st = (case GetNodeById g w of None \<Rightarrow> st
   | Some wn \<Rightarrow> (let s = nd_streamIdxInGraph wn in
       if st_waitingForNotify (stream_at st s) = e
       then upd_stream s (\<lambda>x. x\<lparr> st_waitingForNotify := INVALID_TASK_ID, st_isSuspended := True \<rparr>) st
       else st))"

definition ProcessResetNode :: "sk_graph \<Rightarrow> sk_node \<Rightarrow> split_state \<Rightarrow> split_state" where
  "ProcessResetNode g rn st = (case GetEventInfo (GetEventId rn) g of
     None \<Rightarrow> st
   | Some info \<Rightarrow> fold (suspend_wait g (GetEventId rn)) (ei_waitNodeIdList info)
       (if ei_notifyNodeId info \<noteq> INVALID_TASK_ID
        then st\<lparr> sp_visitedNotifies := sp_visitedNotifies st - {ei_notifyNodeId info} \<rparr> else st))"

definition add_node :: "node_id \<Rightarrow> sk_node \<Rightarrow> sk_scope \<Rightarrow> sk_scope" where
  "add_node i n sc = AddStreamInfoToScope n (sc\<lparr> sc_nodes := sc_nodes sc @ [i] \<rparr>)"

text \<open>One turn of the loop on a node taken from the heap.\<close>

definition take_node :: "sk_graph \<Rightarrow> node_id \<Rightarrow> sk_node \<Rightarrow> split_state \<Rightarrow> split_state run" where
  "take_node g i n st =
    (let s = nd_streamIdxInGraph n;
         st1 = upd_stream s (\<lambda>x. x\<lparr> st_currentNodeId := nd_nextNodeId n \<rparr>)
           (st\<lparr> sp_scope := map_option (add_node i n) (sp_scope st),
                sp_processed := insert i (sp_processed st) \<rparr>)
     in bindR (if nd_nodeType n = NODE_NOTIFY then ProcessNotifyNode g n st1
               else if nd_nodeType n = NODE_RESET then Inr (ProcessResetNode g n st1)
               else Inr st1) (TryAddNodeToHeap g s))"

primrec build_scope :: "nat \<Rightarrow> sk_graph \<Rightarrow> split_state \<Rightarrow> (bool \<times> split_state) run" where
  "build_scope 0 g = (\<lambda>st. Inl OutOfFuel)"
| "build_scope (Suc fuel) g = (\<lambda>st.
    if heap_empty (sp_heap st) then Inr (True, st)
    else bindR (heap_pop g (sp_heap st)) (\<lambda>(i, h).
      let st1 = st\<lparr> sp_heap := h \<rparr> in
      case GetNodeById g i of
        None \<Rightarrow> Inr (False, st1)
      | Some n \<Rightarrow> if i \<in> sp_processed st then build_scope fuel g st1
          else bindR (take_node g i n st1) (build_scope fuel g)))"

definition build_fuel :: "sk_graph \<Rightarrow> split_state \<Rightarrow> nat" where
  "build_fuel g st =
     Suc ((2 + length (sp_streams st)) * length (sg_nodeIds g) + length (sp_streams st) +
       heap_size (sp_heap st))"

text \<open>\<open>BuildCurrentScope\<close> on a fresh scope; the pointer to it is cleared at the end.\<close>

definition BuildCurrentScope :: "sk_graph \<Rightarrow> sk_scope \<Rightarrow> split_state \<Rightarrow> (bool \<times> sk_scope \<times> split_state) run" where
  "BuildCurrentScope g sc st =
    (let st1 = st\<lparr> sp_scope := Some (sc\<lparr> sc_bitFlags := sp_flags st \<rparr>) \<rparr> in
     bindR (build_scope (build_fuel g st1) g st1) (\<lambda>(ok, st2).
       bindR (derefR (sp_scope st2)) (\<lambda>sc2. Inr (ok, sc2, st2\<lparr> sp_scope := None \<rparr>))))"

section \<open>The pass\<close>

primrec initial_loop ::
  "nat \<Rightarrow> sk_graph \<Rightarrow> u16 \<Rightarrow> sk_scope list \<Rightarrow> split_state \<Rightarrow> (bool \<times> sk_scope list \<times> u16) run" where
  "initial_loop 0 g = (\<lambda>c scopes st. Inl OutOfFuel)"
| "initial_loop (Suc fuel) g = (\<lambda>c scopes st.
    let (found, st1) = DetermineCurrentScopeBitFlags g st in
    if \<not> found then Inr (True, scopes, c)
    else bindR (InitNodeHeap g st1) (\<lambda>st2.
      if heap_empty (sp_heap st2) then Inr (True, scopes, c)
      else let (sc, c') = new_scope c in
        bindR (BuildCurrentScope g sc st2) (\<lambda>(ok, sc1, st3).
          if \<not> ok then Inr (False, scopes, c')
          else let scopes' = (if sc_nodes sc1 \<noteq> [] then scopes @ [sc1] else scopes) in
            bindR (ResetStreamStates g st3) (\<lambda>(ok2, st4).
              if \<not> ok2 then Inr (False, scopes', c') else initial_loop fuel g c' scopes' st4))))"

definition InitialSplitRun ::
  "u32 list \<Rightarrow> sk_heap_type \<Rightarrow> sk_graph \<Rightarrow> u16 \<Rightarrow> (bool \<times> sk_scope list \<times> u16) run" where
  "InitialSplitRun order m g c =
    bindR (InitStreamStates order g (new_split m)) (\<lambda>st.
      bindR (SkipUnfusibleNodes g st) (\<lambda>(ok, st1).
        if \<not> ok then Inr (False, [], c)
        else initial_loop (Suc (length (sg_nodeIds g))) g c [] st1))"

end
