(* ===== verification/Sk_Lock_Detector.thy ===== *)
theory Sk_Lock_Detector
  imports Sk_Scope Sk_Graph_Events
begin

text \<open>
  The deadlock detector (\<^verbatim>\<open>sk_lock_detector.h\<close>, \<^verbatim>\<open>sk_lock_detector.cpp\<close>): it decides node by
  node whether a node may join the super kernel under construction, searching backwards through
  the streams for operators that must run before it and counting the cores both sides need. The
  detector marks nodes of the graph as visited, so its functions thread the graph with its state.
  The numbers of device cores are 64-bit signed integers in the code and mathematical integers
  here; the cores still available are narrowed to 32 bits as in the code.
\<close>

section \<open>State\<close>

record lock_state =
  lk_nodes :: "node_id list"
  lk_temp :: "node_id list"
  lk_depCube :: u32
  lk_depVec :: u32
  lk_skCube :: u32
  lk_skVec :: u32
  lk_streams :: "u32 set"
  lk_nodeNum :: u32
  lk_kernelNodeNum :: u32
  lk_range :: "(u32 \<times> u64 \<times> u64) list"
  lk_reason :: deadlock_fail_reason
  lk_devCube :: int
  lk_devVec :: int
  lk_bypass :: "u32 option"

text \<open>
  \<open>Init\<close> with the device's core numbers, which are cached in static members and queried while
  both are 0. A query of the runtime that fails yields 0; a result that is not positive stays in
  the cache. \<open>lk_bypass\<close> is the option the detector was made with.
\<close>

definition GetDeviceCoreNums :: "int \<Rightarrow> int \<Rightarrow> int \<times> int \<Rightarrow> int \<times> int" where
  "GetDeviceCoreNums cubeNum vecNum cached =
     (if cubeNum \<le> 0 then (cubeNum, snd cached) else (cubeNum, vecNum))"

definition GetDeviceCores :: "int \<Rightarrow> int \<Rightarrow> int \<times> int \<Rightarrow> int \<times> int" where
  "GetDeviceCores cubeNum vecNum cached =
     (if fst cached \<noteq> 0 \<and> snd cached \<noteq> 0 then cached else GetDeviceCoreNums cubeNum vecNum cached)"

definition LockInit :: "int \<Rightarrow> int \<Rightarrow> int \<times> int \<Rightarrow> u32 option \<Rightarrow> lock_state" where
  "LockInit cubeNum vecNum cached bypass =
    (let dev = (if fst cached = 0 \<and> snd cached = 0 then GetDeviceCores cubeNum vecNum cached else cached)
     in \<lparr> lk_nodes = [], lk_temp = [], lk_depCube = 0, lk_depVec = 0, lk_skCube = 0, lk_skVec = 0,
          lk_streams = {}, lk_nodeNum = 0, lk_kernelNodeNum = 0, lk_range = [],
          lk_reason = NOT_FIND_DEADLOCK, lk_devCube = fst dev, lk_devVec = snd dev,
          lk_bypass = bypass \<rparr>)"

type_synonym lock_st = "lock_state \<times> sk_graph"

definition fail_with :: "deadlock_fail_reason \<Rightarrow> lock_state \<Rightarrow> lock_state" where
  "fail_with r L = L\<lparr> lk_reason := r \<rparr>"

definition set_visited :: "bool \<Rightarrow> node_id \<Rightarrow> sk_graph \<Rightarrow> sk_graph" where
  "set_visited b i = upd_node i (\<lambda>n. n\<lparr> nd_isVisited := b \<rparr>)"

definition RollbackVisitedState :: "node_id list \<Rightarrow> sk_graph \<Rightarrow> sk_graph" where
  "RollbackVisitedState ids g = fold (set_visited False) ids g"

definition LockReset :: "lock_st \<Rightarrow> lock_st" where
  "LockReset p = (case p of (L, g) \<Rightarrow>
     (L\<lparr> lk_depCube := 0, lk_depVec := 0, lk_skCube := 0, lk_skVec := 0, lk_nodeNum := 0,
         lk_kernelNodeNum := 0, lk_reason := NOT_FIND_DEADLOCK, lk_nodes := [], lk_temp := [],
         lk_streams := {}, lk_range := [] \<rparr>,
      RollbackVisitedState (lk_temp L) (RollbackVisitedState (lk_nodes L) g)))"

section \<open>Streams, ranges and cores\<close>

definition IsInSKStream :: "lock_state \<Rightarrow> sk_node \<Rightarrow> bool" where
  "IsInSKStream L n \<longleftrightarrow> nd_streamIdxInGraph n \<in> lk_streams L"

definition UpdateSKRangeInStream :: "sk_node \<Rightarrow> lock_state \<Rightarrow> lock_state" where
  "UpdateSKRangeInStream n L =
    (let i = nd_nodeIdxInStream n; s = nd_streamIdxInGraph n
     in case map_of (lk_range L) s of
          None \<Rightarrow> L\<lparr> lk_range := AList.update s (i, i) (lk_range L) \<rparr>
        | Some (lo, hi) \<Rightarrow> L\<lparr> lk_range := AList.update s (min lo i, max hi i) (lk_range L) \<rparr>)"

definition IsBeforeSKRange :: "lock_state \<Rightarrow> sk_node \<Rightarrow> bool" where
  "IsBeforeSKRange L n = (case map_of (lk_range L) (nd_streamIdxInGraph n) of
     None \<Rightarrow> False | Some (lo, hi) \<Rightarrow> nd_nodeIdxInStream n < lo)"

definition IsAfterSKRange :: "lock_state \<Rightarrow> sk_node \<Rightarrow> bool" where
  "IsAfterSKRange L n = (case map_of (lk_range L) (nd_streamIdxInGraph n) of
     None \<Rightarrow> False | Some (lo, hi) \<Rightarrow> nd_nodeIdxInStream n > hi)"

definition HasIntersection :: "u32 set \<Rightarrow> u32 set \<Rightarrow> bool" where
  "HasIntersection a b \<longleftrightarrow> a \<inter> b \<noteq> {}"

text \<open>The pair of 64-bit differences is stored in a pair of 32-bit integers by the only caller.\<close>

definition GetAvailableCores :: "bool \<Rightarrow> lock_state \<Rightarrow> u32 \<times> u32" where
  "GetAvailableCores isSK L =
    (if isSK then (word_of_int (lk_devCube L - uint (lk_depCube L)),
                   word_of_int (lk_devVec L - uint (lk_depVec L)))
     else (word_of_int (lk_devCube L - uint (lk_skCube L)),
           word_of_int (lk_devVec L - uint (lk_skVec L))))"

definition HasEnoughCores :: "sk_node \<Rightarrow> bool \<Rightarrow> lock_state \<Rightarrow> bool \<times> lock_state" where
  "HasEnoughCores n isSK L =
    (let c = GetCubeNum n; v = GetVecNum n; (ac, av) = GetAvailableCores isSK L in
     if isSK then
       (if c \<le> lk_skCube L \<and> v \<le> lk_skVec L then (True, L)
        else if c \<le> ac \<and> v \<le> av
          then (True, L\<lparr> lk_skCube := max (lk_skCube L) c, lk_skVec := max (lk_skVec L) v \<rparr>)
        else (False, L))
     else
       (if c \<le> lk_depCube L \<and> v \<le> lk_depVec L then (True, L)
        else if c \<le> ac \<and> v \<le> av
          then (True, L\<lparr> lk_depCube := max (lk_depCube L) c, lk_depVec := max (lk_depVec L) v \<rparr>)
        else (False, L)))"

section \<open>The backward search\<close>

text \<open>
  The three checks call the search, which calls them; each takes the search as a parameter and
  the search supplies itself with less fuel.
\<close>

type_synonym search = "node_id \<Rightarrow> lock_st \<Rightarrow> (bool \<times> lock_st) run"

definition CheckKernelNodeDeadlock :: "search \<Rightarrow> node_id \<Rightarrow> sk_node \<Rightarrow> lock_st \<Rightarrow> (bool \<times> lock_st) run" where
  "CheckKernelNodeDeadlock search p pn st = (case st of (L, g) \<Rightarrow>
    (let (ok, L1) = HasEnoughCores pn False L in
     if \<not> ok then Inr (True, fail_with KERNEL_INSUFFICIENT_CORES L1, g)
     else search p (L1, g)))"

definition CheckWaitNodeDeadlock :: "search \<Rightarrow> node_id \<Rightarrow> sk_node \<Rightarrow> lock_st \<Rightarrow> (bool \<times> lock_st) run" where
  "CheckWaitNodeDeadlock search p pn st = (case st of (L, g) \<Rightarrow>
    (let notifyId = GetCorrespondingNotifyNodeId pn in
     if notifyId = INVALID_TASK_ID then Inr (True, fail_with NOTIFY_NOT_IN_GRAPH L, g)
     else case GetNodeById g notifyId of
       None \<Rightarrow> Inr (True, fail_with NOTIFY_INVALID L, g)
     | Some nn \<Rightarrow>
         if IsAfterSKRange L nn then Inr (True, fail_with NOTIFY_AFTER_SK_RANGE L, g)
         else bindR (search p (L, g)) (\<lambda>(dead, L1, g1).
           if dead then Inr (True, L1, g1)
           else if nd_streamIdxInGraph nn \<noteq> nd_streamIdxInGraph pn \<and> \<not> IsInSKStream L1 nn
             then search notifyId (L1, g1)
           else Inr (False, L1, g1))))"

text \<open>A wait before the range ends the loop; a wait id the graph does not have is dereferenced.\<close>

fun check_waits :: "search \<Rightarrow> node_id \<Rightarrow> node_id list \<Rightarrow> lock_st \<Rightarrow> (bool \<times> lock_st) run" where
  "check_waits search p [] st = Inr (False, st)"
| "check_waits search p (w # ws) st =
    bindR (derefR (GetNodeById (snd st) w)) (\<lambda>wn.
      if IsBeforeSKRange (fst st) wn then Inr (False, st)
      else bindR (search p st) (\<lambda>(dead, st1).
        if dead then Inr (True, st1) else check_waits search p ws st1))"

definition CheckNotifyNodeDeadlock :: "search \<Rightarrow> node_id \<Rightarrow> sk_node \<Rightarrow> lock_st \<Rightarrow> (bool \<times> lock_st) run" where
  "CheckNotifyNodeDeadlock search p pn st = (case st of (L, g) \<Rightarrow>
    (let (ok, L1) = (if GetCubeNum pn > 0 \<or> GetVecNum pn > 0 then HasEnoughCores pn False L else (True, L)) in
     if \<not> ok then Inr (True, fail_with NOTIFY_INSUFFICIENT_CORES L1, g)
     else check_waits search p (GetCorrespondingWaitNodeIds pn) (L1, g)))"

primrec HasDeadlock :: "nat \<Rightarrow> search" where
  "HasDeadlock 0 = (\<lambda>cur st. Inl OutOfFuel)"
| "HasDeadlock (Suc fuel) = (\<lambda>cur st. case st of (L, g) \<Rightarrow>
    bindR (derefR (GetNodeById g cur)) (\<lambda>cn.
      let g1 = set_visited True cur g; L1 = L\<lparr> lk_temp := lk_temp L @ [nd_nodeId cn] \<rparr>;
          p = nd_preNodeId cn
      in if p = INVALID_TASK_ID then Inr (False, L1, g1)
         else case GetNodeById g1 p of
           None \<Rightarrow> Inr (False, L1, g1)
         | Some pn \<Rightarrow>
             if nd_isVisited pn then Inr (False, L1, g1)
             else if HasIntersection (nd_scopeStreamIds pn) (lk_streams L1) then Inr (False, L1, g1)
             else (case nd_nodeType pn of
               NODE_KERNEL \<Rightarrow> CheckKernelNodeDeadlock (HasDeadlock fuel) p pn (L1, g1)
             | NODE_WAIT \<Rightarrow> CheckWaitNodeDeadlock (HasDeadlock fuel) p pn (L1, g1)
             | NODE_NOTIFY \<Rightarrow> CheckNotifyNodeDeadlock (HasDeadlock fuel) p pn (L1, g1)
             | NODE_DEFAULT \<Rightarrow> HasDeadlock fuel p (L1, g1)
             | NODE_RESET \<Rightarrow> HasDeadlock fuel p (L1, g1)
             | _ \<Rightarrow> Inr (True, fail_with NO_SUPPORT_NODE L1, g1))))"

section \<open>May a node join the super kernel?\<close>

definition CheckNotifyInSKStream :: "sk_node \<Rightarrow> lock_state \<Rightarrow> bool \<times> lock_state" where
  "CheckNotifyInSKStream nn L =
     (if IsAfterSKRange L nn then (False, fail_with NOTIFY_AFTER_SK_RANGE L) else (True, L))"

definition GetWaitNodeFusibleStatus :: "search \<Rightarrow> sk_node \<Rightarrow> lock_st \<Rightarrow> (bool \<times> lock_st) run" where
  "GetWaitNodeFusibleStatus search cn st = (case st of (L, g) \<Rightarrow>
    (let notifyId = GetCorrespondingNotifyNodeId cn in
     if notifyId = INVALID_TASK_ID then Inr (False, fail_with NOTIFY_NOT_IN_GRAPH L, g)
     else case GetNodeById g notifyId of
       None \<Rightarrow> Inr (False, fail_with NOTIFY_INVALID L, g)
     | Some nn \<Rightarrow>
         if lk_nodeNum L = 0 then Inr (False, fail_with FIRST_WAIT L, g)
         else if IsInSKStream L nn then
           (let (ok, L1) = CheckNotifyInSKStream nn L in Inr (ok, L1, g))
         else if HasIntersection (lk_streams L) (nd_scopeStreamIds nn) then Inr (True, L, g)
         else if GetCubeNum nn > 0 \<or> GetVecNum nn > 0 then
           (let (ok, L1) = HasEnoughCores nn False L in
            if \<not> ok then Inr (False, fail_with NOTIFY_INSUFFICIENT_CORES L1, g)
            else bindR (search notifyId (L1\<lparr> lk_temp := lk_temp L1 @ [nd_nodeId nn] \<rparr>, g))
              (\<lambda>(dead, st1). Inr (\<not> dead, st1)))
         else bindR (search notifyId (L, g)) (\<lambda>(dead, st1). Inr (\<not> dead, st1))))"

unbundle bit_operations_syntax

definition ShouldBypassValueWaitDeadlock :: "sk_node \<Rightarrow> lock_state \<Rightarrow> bool" where
  "ShouldBypassValueWaitDeadlock n L =
    (if nd_nodeType n \<noteq> NODE_WAIT then False
     else sy_addrValue (nd_syncInfos n) \<noteq> 0 \<and> GetCorrespondingNotifyNodeId n = INVALID_TASK_ID \<and>
       (case lk_bypass L of None \<Rightarrow> BYPASS_NONE | Some v \<Rightarrow> v) AND BYPASS_UNPAIRED_WAIT \<noteq> 0)"

definition GetFusibleStatus :: "search \<Rightarrow> sk_node \<Rightarrow> lock_st \<Rightarrow> (bool \<times> lock_st) run" where
  "GetFusibleStatus search cn st = (case st of (L, g) \<Rightarrow>
    (case nd_nodeType cn of
       NODE_NOTIFY \<Rightarrow> (if GetCubeNum cn = 0 \<and> GetVecNum cn = 0 then Inr (True, L, g)
         else Inr (False, fail_with NOTIFY_INVALID L, g))
     | NODE_WAIT \<Rightarrow>
         (if ShouldBypassValueWaitDeadlock cn L then Inr (True, L, g)
          else bindR (GetWaitNodeFusibleStatus search cn (L\<lparr> lk_temp := [] \<rparr>, g)) (\<lambda>(ok, L1, g1).
            if ok then Inr (True, L1\<lparr> lk_nodes := lk_nodes L1 @ lk_temp L1 \<rparr>, g1)
            else Inr (False, L1\<lparr> lk_temp := [] \<rparr>, RollbackVisitedState (lk_temp L1) g1)))
     | NODE_KERNEL \<Rightarrow> (let (ok, L1) = HasEnoughCores cn True L in Inr (ok, L1, g))
     | NODE_RESET \<Rightarrow> Inr (True, L, g)
     | NODE_DEFAULT \<Rightarrow> Inr (True, L, g)
     | _ \<Rightarrow> Inr (False, fail_with NO_SUPPORT_NODE L, g)))"

text \<open>The search is started with one more unit of fuel than the graph has nodes.\<close>

definition IsFusible :: "node_id \<Rightarrow> lock_st \<Rightarrow> (bool \<times> lock_st) run" where
  "IsFusible cur st = (case st of (L, g) \<Rightarrow>
    bindR (derefR (GetNodeById g cur)) (\<lambda>cn.
      if nd_isVisited cn then Inr (True, L, g)
      else bindR (GetFusibleStatus (HasDeadlock (Suc (length (sg_nodeIds g)))) cn
          (fail_with NOT_FIND_DEADLOCK L, g)) (\<lambda>(ok, L1, g1).
        if ok then
          (let L2 = UpdateSKRangeInStream cn
                 (L1\<lparr> lk_streams := insert (nd_streamIdxInGraph cn) (lk_streams L1) \<rparr>);
               L3 = L2\<lparr> lk_nodeNum := lk_nodeNum L2 + 1, lk_nodes := lk_nodes L2 @ [nd_nodeId cn],
                    lk_kernelNodeNum := (if nd_nodeType cn = NODE_KERNEL then lk_kernelNodeNum L2 + 1
                      else lk_kernelNodeNum L2) \<rparr>
           in Inr (True, L3, set_visited True cur g1))
        else Inr (False, L1, if lk_reason L1 \<noteq> NOT_FIND_DEADLOCK
               then upd_node cur (SetFusionFailDeadlock (lk_reason L1)) g1 else g1))))"

section \<open>Core requirements of the notify nodes of a scope\<close>

definition max_cores :: "sk_graph \<Rightarrow> node_id list \<Rightarrow> u32 \<times> u32" where
  "max_cores g ids = fold (\<lambda>i (v, c). case GetNodeById g i of None \<Rightarrow> (v, c)
     | Some n \<Rightarrow> if nd_nodeType n = NODE_KERNEL then (max v (GetVecNum n), max c (GetCubeNum n))
         else (v, c)) ids (0, 0)"

definition scope_streams :: "sk_graph \<Rightarrow> node_id list \<Rightarrow> u32 set" where
  "scope_streams g ids = set (List.map_filter (\<lambda>i. map_option nd_streamIdxInGraph (GetNodeById g i)) ids)"

definition set_expand :: "u32 \<Rightarrow> u32 \<Rightarrow> node_id \<Rightarrow> sk_graph \<Rightarrow> sk_graph" where
  "set_expand v c i g = (case GetNodeById g i of None \<Rightarrow> g
     | Some n \<Rightarrow> if nd_nodeType n = NODE_NOTIFY
         then upd_node i (\<lambda>n. n\<lparr> nd_notifyExpandVecNum := v, nd_notifyExpandCubeNum := c \<rparr>) g else g)"

text \<open>The last loop does not test for null pointers, the first two do.\<close>

definition SetNotifyNodesExpandNumForScope :: "sk_scope \<Rightarrow> sk_graph \<Rightarrow> sk_graph run" where
  "SetNotifyNodesExpandNumForScope sc g =
    (let ids = sc_nodes sc; (v, c) = max_cores g ids; ss = scope_streams g ids;
         g1 = fold (set_expand v c) ids g
     in foldR (\<lambda>i g. bindR (derefR (GetNodeById g i)) (\<lambda>_.
          Inr (upd_node i (\<lambda>n. n\<lparr> nd_scopeStreamIds := ss \<rparr>) g))) ids g1)"

definition ResetNotifyExpandNumForScope :: "sk_scope \<Rightarrow> sk_graph \<Rightarrow> sk_graph" where
  "ResetNotifyExpandNumForScope sc g = fold (\<lambda>i g. case GetNodeById g i of None \<Rightarrow> g
     | Some n \<Rightarrow> upd_node i (\<lambda>n. n\<lparr> nd_scopeStreamIds := {} \<rparr>) (set_expand 0 0 i g)) (sc_nodes sc) g"

section \<open>What a search changes\<close>

definition visited :: "sk_graph \<Rightarrow> node_id set" where
  "visited g = {i. \<exists>n. GetNodeById g i = Some n \<and> nd_isVisited n}"

definition unvisit :: "sk_node \<Rightarrow> sk_node" where
  "unvisit n = n\<lparr> nd_isVisited := False \<rparr>"

text \<open>Only the visited marks of the graph and the detector's counts for the other operators.\<close>

definition same_but_visited :: "sk_graph \<Rightarrow> sk_graph \<Rightarrow> bool" where
  "same_but_visited g h \<longleftrightarrow> sg_nodeIds h = sg_nodeIds g \<and> sg_headNodes h = sg_headNodes g \<and>
     (\<forall>i. map_option unvisit (GetNodeById h i) = map_option unvisit (GetNodeById g i))"

definition same_sk :: "lock_state \<Rightarrow> lock_state \<Rightarrow> bool" where
  "same_sk L M \<longleftrightarrow> lk_nodes M = lk_nodes L \<and> lk_skCube M = lk_skCube L \<and> lk_skVec M = lk_skVec L \<and>
     lk_streams M = lk_streams L \<and> lk_nodeNum M = lk_nodeNum L \<and>
     lk_kernelNodeNum M = lk_kernelNodeNum L \<and> lk_range M = lk_range L \<and>
     lk_devCube M = lk_devCube L \<and> lk_devVec M = lk_devVec L \<and> lk_bypass M = lk_bypass L"

text \<open>
  The super kernel and the other operators together never need more cores than the device has.
\<close>

definition cores_ok :: "lock_state \<Rightarrow> bool" where
  "cores_ok L \<longleftrightarrow> uint (lk_skCube L) + uint (lk_depCube L) \<le> lk_devCube L \<and> lk_devCube L < 2 ^ 32 \<and>
     uint (lk_skVec L) + uint (lk_depVec L) \<le> lk_devVec L \<and> lk_devVec L < 2 ^ 32"

definition search_step :: "lock_st \<Rightarrow> lock_st \<Rightarrow> bool" where
  "search_step s t \<longleftrightarrow> same_sk (fst s) (fst t) \<and> lk_depCube (fst s) \<le> lk_depCube (fst t) \<and>
     lk_depVec (fst s) \<le> lk_depVec (fst t) \<and> same_but_visited (snd s) (snd t) \<and>
     visited (snd s) \<subseteq> visited (snd t) \<and>
     set (lk_temp (fst s)) \<subseteq> set (lk_temp (fst t)) \<and>
     visited (snd t) \<subseteq> visited (snd s) \<union> set (lk_temp (fst t)) \<and>
     (cores_ok (fst s) \<longrightarrow> cores_ok (fst t))"

lemma same_but_visited_refl [simp]: "same_but_visited g g"
  by (simp add: same_but_visited_def)

lemma search_step_refl [simp]: "search_step s s"
  by (simp add: search_step_def same_sk_def)

lemma search_step_trans [trans]:
  assumes "search_step a b" and "search_step b c"
  shows "search_step a c"
  using assms by (fastforce simp: search_step_def same_sk_def same_but_visited_def)

lemma same_but_visited_upd:
  "(\<And>n. unvisit (f n) = unvisit n) \<Longrightarrow> same_but_visited g (upd_node i f g)"
  by (auto simp: same_but_visited_def option.map_comp o_def cong: map_option_cong)

lemma same_but_visited_set [simp]: "same_but_visited g (set_visited b i g)"
  by (simp add: set_visited_def same_but_visited_upd unvisit_def)

lemma same_but_visitedD:
  assumes "same_but_visited g h" and "GetNodeById g i = Some n"
  shows "\<exists>m. GetNodeById h i = Some m \<and> unvisit m = unvisit n"
proof -
  have "map_option unvisit (GetNodeById h i) = Some (unvisit n)"
    using assms by (simp add: same_but_visited_def)
  then show ?thesis by auto
qed

lemma unvisit_eqD:
  assumes "unvisit m = unvisit n"
  shows "nd_nodeId m = nd_nodeId n" "nd_preNodeId m = nd_preNodeId n" "nd_nodeType m = nd_nodeType n"
    "nd_streamIdxInGraph m = nd_streamIdxInGraph n" "nd_nodeIdxInStream m = nd_nodeIdxInStream n"
    "nd_scopeStreamIds m = nd_scopeStreamIds n" "GetCubeNum m = GetCubeNum n" "GetVecNum m = GetVecNum n"
    "GetCorrespondingNotifyNodeId m = GetCorrespondingNotifyNodeId n"
    "GetCorrespondingWaitNodeIds m = GetCorrespondingWaitNodeIds n"
proof -
  have "m = n\<lparr> nd_isVisited := nd_isVisited m \<rparr>"
    using assms by (cases m; cases n) (simp add: unvisit_def)
  then obtain b where m: "m = n\<lparr> nd_isVisited := b \<rparr>" by blast
  show "nd_nodeId m = nd_nodeId n" "nd_preNodeId m = nd_preNodeId n" "nd_nodeType m = nd_nodeType n"
    "nd_streamIdxInGraph m = nd_streamIdxInGraph n" "nd_nodeIdxInStream m = nd_nodeIdxInStream n"
    "nd_scopeStreamIds m = nd_scopeStreamIds n" "GetCubeNum m = GetCubeNum n" "GetVecNum m = GetVecNum n"
    "GetCorrespondingNotifyNodeId m = GetCorrespondingNotifyNodeId n"
    "GetCorrespondingWaitNodeIds m = GetCorrespondingWaitNodeIds n"
    unfolding m by (simp_all add: node_getter_defs split: node_class.split)
qed

lemma same_but_visited_graph_ok:
  assumes "same_but_visited g h" and "graph_ok g"
  shows "graph_ok h"
proof -
  have dom: "dom (sg_graphMap h) = dom (sg_graphMap g)"
    using assms(1) by (auto simp: same_but_visited_def GetNodeById_def dom_def) (metis map_option_is_None not_None_eq)+
  have "nd_nodeId n = i" if "sg_graphMap h i = Some n" for i n
  proof -
    have "map_option unvisit (GetNodeById g i) = map_option unvisit (GetNodeById h i)"
      using assms(1) by (simp add: same_but_visited_def)
    also have "\<dots> = Some (unvisit n)" using that by (simp add: GetNodeById_def)
    finally obtain m where m: "GetNodeById g i = Some m" "unvisit m = unvisit n" by auto
    then show ?thesis using assms(2) unvisit_eqD(1)[OF m(2)] by (simp add: graph_ok_def GetNodeById_def)
  qed
  then show ?thesis using assms dom by (auto simp: graph_ok_def same_but_visited_def)
qed

lemma visited_set_visited:
  "visited (set_visited b i g) =
     (if GetNodeById g i = None then visited g else if b then insert i (visited g) else visited g - {i})"
  by (auto simp: visited_def set_visited_def split: if_splits)

section \<open>Cores\<close>

lemma max_core:
  fixes a b :: u32
  assumes "uint a \<le> d" and "uint b \<le> d"
  shows "uint (max a b) \<le> d"
  using assms by (auto simp: max_def)

lemma available_core:
  fixes used c :: u32
  assumes "uint used \<le> d" and "d < 2 ^ 32" and "c \<le> word_of_int (d - uint used)"
  shows "uint c + uint used \<le> d"
proof -
  have "uint (word_of_int (d - uint used) :: u32) = d - uint used"
  proof -
    have "0 \<le> d - uint used" "d - uint used < 2 ^ 32" using assms(1,2) uint_ge_0[of used] by linarith+
    then show ?thesis unfolding uint_word_of_int by simp
  qed
  then show ?thesis using assms(3) by (simp add: word_le_def)
qed

lemma HasEnoughCores_ok:
  assumes "cores_ok L" and "HasEnoughCores n isSK L = (b, M)"
  shows "cores_ok M"
proof -
  have used: "uint (lk_skCube L) \<le> lk_devCube L" "uint (lk_depCube L) \<le> lk_devCube L"
    "uint (lk_skVec L) \<le> lk_devVec L" "uint (lk_depVec L) \<le> lk_devVec L"
    and dev: "lk_devCube L < 2 ^ 32" "lk_devVec L < 2 ^ 32"
    using assms(1) uint_ge_0[of "lk_skCube L"] uint_ge_0[of "lk_depCube L"] uint_ge_0[of "lk_skVec L"]
      uint_ge_0[of "lk_depVec L"] unfolding cores_ok_def by linarith+
  show ?thesis
  proof (cases isSK)
    case True
    have "uint c + uint (lk_depCube L) \<le> lk_devCube L"
      if "c \<le> word_of_int (lk_devCube L - uint (lk_depCube L))" for c :: u32
      using available_core[OF used(2) dev(1) that] .
    moreover have "uint c + uint (lk_depVec L) \<le> lk_devVec L"
      if "c \<le> word_of_int (lk_devVec L - uint (lk_depVec L))" for c :: u32
      using available_core[OF used(4) dev(2) that] .
    ultimately show ?thesis using True assms
      by (auto simp: HasEnoughCores_def GetAvailableCores_def Let_def cores_ok_def max_def split: if_splits)
  next
    case False
    have "uint (lk_skCube L) + uint c \<le> lk_devCube L"
      if "c \<le> word_of_int (lk_devCube L - uint (lk_skCube L))" for c :: u32
      using available_core[OF used(1) dev(1) that] by simp
    moreover have "uint (lk_skVec L) + uint c \<le> lk_devVec L"
      if "c \<le> word_of_int (lk_devVec L - uint (lk_skVec L))" for c :: u32
      using available_core[OF used(3) dev(2) that] by simp
    ultimately show ?thesis using False assms
      by (auto simp: HasEnoughCores_def GetAvailableCores_def Let_def cores_ok_def max_def split: if_splits)
  qed
qed

lemma HasEnoughCores_step:
  assumes "HasEnoughCores n False L = (b, M)"
  shows "search_step (L, g) (M, g)" and "b \<Longrightarrow> GetCubeNum n \<le> lk_depCube M \<and> GetVecNum n \<le> lk_depVec M"
proof -
  show "search_step (L, g) (M, g)"
    using assms HasEnoughCores_ok[OF _ assms]
    by (auto simp: search_step_def HasEnoughCores_def Let_def same_sk_def split: if_splits prod.splits)
  show "b \<Longrightarrow> GetCubeNum n \<le> lk_depCube M \<and> GetVecNum n \<le> lk_depVec M"
    using assms by (auto simp: HasEnoughCores_def Let_def split: if_splits prod.splits)
qed

lemma fail_with_step [simp]: "search_step s (fail_with r L, g) = search_step s (L, g)"
  by (simp add: search_step_def fail_with_def same_sk_def cores_ok_def)

section \<open>What a search that finds no deadlock certifies\<close>

text \<open>
  The node before \<open>v\<close> needs no further look: there is none, it has been visited, it belongs to
  a super kernel on a stream of this one, or it is a notify node whose first wait lies before the
  super kernel (or that nothing waits for).
\<close>

definition notify_done :: "lock_st \<Rightarrow> sk_node \<Rightarrow> bool" where
  "notify_done s pn \<longleftrightarrow> nd_nodeType pn = NODE_NOTIFY \<and>
     (case GetCorrespondingWaitNodeIds pn of [] \<Rightarrow> True
      | w # ws \<Rightarrow> (\<exists>wn. GetNodeById (snd s) w = Some wn \<and> IsBeforeSKRange (fst s) wn))"

definition pre_closed :: "lock_st \<Rightarrow> node_id \<Rightarrow> bool" where
  "pre_closed s v \<longleftrightarrow> (\<forall>n. GetNodeById (snd s) v = Some n \<longrightarrow> nd_preNodeId n = INVALID_TASK_ID \<or>
     nd_preNodeId n \<in> visited (snd s) \<or>
     (\<forall>pn. GetNodeById (snd s) (nd_preNodeId n) = Some pn \<longrightarrow>
        HasIntersection (nd_scopeStreamIds pn) (lk_streams (fst s)) \<or> notify_done s pn))"

text \<open>
  A visited operator fits beside the super kernel, and a visited wait waits for a notify node that
  is not behind the super kernel and has been looked at unless a stream orders it.
\<close>

definition node_cert :: "lock_st \<Rightarrow> node_id \<Rightarrow> bool" where
  "node_cert s v \<longleftrightarrow> (\<forall>n. GetNodeById (snd s) v = Some n \<longrightarrow> (case nd_nodeType n of
     NODE_KERNEL \<Rightarrow> GetCubeNum n \<le> lk_depCube (fst s) \<and> GetVecNum n \<le> lk_depVec (fst s)
   | NODE_WAIT \<Rightarrow> (\<exists>nn. GetNodeById (snd s) (GetCorrespondingNotifyNodeId n) = Some nn \<and>
       \<not> IsAfterSKRange (fst s) nn \<and>
       (nd_streamIdxInGraph nn = nd_streamIdxInGraph n \<or> IsInSKStream (fst s) nn \<or>
        GetCorrespondingNotifyNodeId n \<in> visited (snd s)))
   | NODE_NOTIFY \<Rightarrow> True | NODE_DEFAULT \<Rightarrow> True | NODE_RESET \<Rightarrow> True | _ \<Rightarrow> False))"

definition new_certified :: "lock_st \<Rightarrow> lock_st \<Rightarrow> node_id set \<Rightarrow> bool" where
  "new_certified s t X \<longleftrightarrow> (\<forall>v\<in>visited (snd t) - visited (snd s).
     pre_closed t v \<and> (v \<in> X \<or> node_cert t v))"

definition graph_typed :: "sk_graph \<Rightarrow> bool" where
  "graph_typed g \<longleftrightarrow> graph_ok g \<and> (\<forall>w n nn. GetNodeById g w = Some n \<longrightarrow> nd_nodeType n = NODE_WAIT \<longrightarrow>
     GetNodeById g (GetCorrespondingNotifyNodeId n) = Some nn \<longrightarrow> nd_nodeType nn = NODE_NOTIFY)"

lemma search_stepD:
  assumes "search_step s t"
  shows "lk_streams (fst t) = lk_streams (fst s)" "lk_range (fst t) = lk_range (fst s)"
    "lk_depCube (fst s) \<le> lk_depCube (fst t)" "lk_depVec (fst s) \<le> lk_depVec (fst t)"
    "same_but_visited (snd s) (snd t)" "visited (snd s) \<subseteq> visited (snd t)"
  using assms by (simp_all add: search_step_def same_sk_def)

lemma same_but_visited_sym: "same_but_visited g h \<Longrightarrow> same_but_visited h g"
  by (simp add: same_but_visited_def)

lemma search_step_range:
  assumes "search_step s t" and "unvisit m = unvisit n"
  shows "IsBeforeSKRange (fst t) m = IsBeforeSKRange (fst s) n"
    and "IsAfterSKRange (fst t) m = IsAfterSKRange (fst s) n"
    and "IsInSKStream (fst t) m = IsInSKStream (fst s) n"
  using search_stepD(1,2)[OF assms(1)] unvisit_eqD(4,5)[OF assms(2)]
  by (simp_all add: IsBeforeSKRange_def IsAfterSKRange_def IsInSKStream_def split: option.split)

lemma graph_typed_step:
  assumes "same_but_visited g h" and "graph_typed g"
  shows "graph_typed h"
  unfolding graph_typed_def
proof (intro conjI allI impI)
  show "graph_ok h" using same_but_visited_graph_ok[OF assms(1)] assms(2) by (simp add: graph_typed_def)
  fix w n nn
  assume n: "GetNodeById h w = Some n" "nd_nodeType n = NODE_WAIT"
    and nn: "GetNodeById h (GetCorrespondingNotifyNodeId n) = Some nn"
  note orig = same_but_visitedD[OF same_but_visited_sym[OF assms(1)]]
  from orig[OF n(1)] obtain m where m: "GetNodeById g w = Some m" "unvisit m = unvisit n" by blast
  from orig[OF nn] obtain mm where mm: "GetNodeById g (GetCorrespondingNotifyNodeId n) = Some mm"
    "unvisit mm = unvisit nn" by blast
  have "nd_nodeType mm = NODE_NOTIFY"
    using assms(2) m mm(1) n(2) unvisit_eqD(3,9)[OF m(2)] unfolding graph_typed_def by metis
  then show "nd_nodeType nn = NODE_NOTIFY" using unvisit_eqD(3)[OF mm(2)] by simp
qed

lemma notify_done_step:
  assumes st: "search_step s t" and "notify_done s pn" and "unvisit qn = unvisit pn"
  shows "notify_done t qn"
proof -
  have "\<exists>wn. GetNodeById (snd t) w = Some wn \<and> IsBeforeSKRange (fst t) wn"
    if "GetNodeById (snd s) w = Some wn" "IsBeforeSKRange (fst s) wn" for w wn
    using same_but_visitedD[OF search_stepD(5)[OF st] that(1)] search_step_range(1)[OF st] that(2) by blast
  then show ?thesis using assms(2) unvisit_eqD(3,10)[OF assms(3)]
    by (auto simp: notify_done_def split: list.splits)
qed

lemma pre_closed_step:
  assumes st: "search_step s t" and "pre_closed s v"
  shows "pre_closed t v"
  unfolding pre_closed_def
proof (intro allI impI)
  fix m assume m: "GetNodeById (snd t) v = Some m"
  note orig = same_but_visitedD[OF same_but_visited_sym[OF search_stepD(5)[OF st]]]
  from orig[OF m] obtain n where n: "GetNodeById (snd s) v = Some n" "unvisit n = unvisit m" by blast
  have p: "nd_preNodeId m = nd_preNodeId n" using unvisit_eqD(2)[OF n(2)] by simp
  have "HasIntersection (nd_scopeStreamIds qn) (lk_streams (fst t)) \<or> notify_done t qn"
    if q: "GetNodeById (snd t) (nd_preNodeId n) = Some qn"
      and all: "\<forall>pn. GetNodeById (snd s) (nd_preNodeId n) = Some pn \<longrightarrow>
        HasIntersection (nd_scopeStreamIds pn) (lk_streams (fst s)) \<or> notify_done s pn" for qn
  proof -
    from orig[OF q] obtain pn where pn: "GetNodeById (snd s) (nd_preNodeId n) = Some pn"
      "unvisit pn = unvisit qn" by blast
    then show ?thesis
      using all notify_done_step[OF st _ pn(2)[symmetric]] unvisit_eqD(6)[OF pn(2)] search_stepD(1)[OF st]
      by auto
  qed
  then show "nd_preNodeId m = INVALID_TASK_ID \<or> nd_preNodeId m \<in> visited (snd t) \<or>
      (\<forall>pn. GetNodeById (snd t) (nd_preNodeId m) = Some pn \<longrightarrow>
        HasIntersection (nd_scopeStreamIds pn) (lk_streams (fst t)) \<or> notify_done t pn)"
    using assms(2) n(1) p search_stepD(6)[OF st] unfolding pre_closed_def by (metis subsetD)
qed

lemma node_cert_step:
  assumes st: "search_step s t" and "node_cert s v"
  shows "node_cert t v"
  unfolding node_cert_def
proof (intro allI impI)
  fix m assume m: "GetNodeById (snd t) v = Some m"
  from same_but_visitedD[OF same_but_visited_sym[OF search_stepD(5)[OF st]] m]
  obtain n where n: "GetNodeById (snd s) v = Some n" "unvisit n = unvisit m" by blast
  note eq = unvisit_eqD(3,4,7,8,9)[OF n(2)]
  note cert = assms(2)[unfolded node_cert_def, rule_format, OF n(1)]
  have wait: "\<exists>nn. GetNodeById (snd t) (GetCorrespondingNotifyNodeId m) = Some nn \<and>
       \<not> IsAfterSKRange (fst t) nn \<and>
       (nd_streamIdxInGraph nn = nd_streamIdxInGraph m \<or> IsInSKStream (fst t) nn \<or>
        GetCorrespondingNotifyNodeId m \<in> visited (snd t))"
    if nn: "GetNodeById (snd s) (GetCorrespondingNotifyNodeId n) = Some nn"
       "\<not> IsAfterSKRange (fst s) nn"
       "nd_streamIdxInGraph nn = nd_streamIdxInGraph n \<or> IsInSKStream (fst s) nn \<or>
        GetCorrespondingNotifyNodeId n \<in> visited (snd s)" for nn
  proof -
    from same_but_visitedD[OF search_stepD(5)[OF st] nn(1)] obtain mm where
      mm: "GetNodeById (snd t) (GetCorrespondingNotifyNodeId m) = Some mm" "unvisit mm = unvisit nn"
      using eq by auto
    then show ?thesis
      using nn search_step_range[OF st mm(2)] unvisit_eqD(4)[OF mm(2)] eq search_stepD(6)[OF st] by auto
  qed
  show "case nd_nodeType m of
     NODE_KERNEL \<Rightarrow> GetCubeNum m \<le> lk_depCube (fst t) \<and> GetVecNum m \<le> lk_depVec (fst t)
   | NODE_WAIT \<Rightarrow> (\<exists>nn. GetNodeById (snd t) (GetCorrespondingNotifyNodeId m) = Some nn \<and>
       \<not> IsAfterSKRange (fst t) nn \<and>
       (nd_streamIdxInGraph nn = nd_streamIdxInGraph m \<or> IsInSKStream (fst t) nn \<or>
        GetCorrespondingNotifyNodeId m \<in> visited (snd t)))
   | NODE_NOTIFY \<Rightarrow> True | NODE_DEFAULT \<Rightarrow> True | NODE_RESET \<Rightarrow> True | _ \<Rightarrow> False"
    using cert wait eq search_stepD(3,4)[OF st]
    by (cases "nd_nodeType n") (auto intro: order_trans)
qed

lemma new_certified_trans:
  assumes "search_step t u" and "new_certified s t X" and "new_certified t u Y"
  shows "new_certified s u (X \<union> Y)"
  using assms pre_closed_step[OF assms(1)] node_cert_step[OF assms(1)]
  unfolding new_certified_def by blast

lemma new_certified_refl [simp]: "new_certified s s X"
  by (simp add: new_certified_def)

lemma new_certified_same: "visited (snd s) = visited (snd s') \<Longrightarrow> new_certified s t X = new_certified s' t X"
  by (simp add: new_certified_def)

section \<open>The search and its checks\<close>

text \<open>
  The contract of a search: it changes no more than \<open>search_step\<close> allows, marks the node it starts
  from, and when it finds no deadlock it has certified every node it marked.
\<close>

locale backward_search =
  fixes search :: search
  assumes step: "search cur s = Inr (b, t) \<Longrightarrow> graph_ok (snd s) \<Longrightarrow> search_step s t \<and>
      (GetNodeById (snd s) cur \<noteq> None \<longrightarrow> cur \<in> visited (snd t))"
    and cert: "search cur s = Inr (False, t) \<Longrightarrow> graph_typed (snd s) \<Longrightarrow>
      new_certified s t {cur} \<and> pre_closed t cur"
begin

lemma kernel_step:
  assumes "CheckKernelNodeDeadlock search p pn s = Inr (b, t)" and "graph_ok (snd s)"
    and "GetNodeById (snd s) p = Some pn"
  shows "search_step s t" and "\<not> b \<Longrightarrow> p \<in> visited (snd t)"
proof -
  obtain L g where s: "s = (L, g)" by (cases s)
  obtain ok L1 where c: "HasEnoughCores pn False L = (ok, L1)" by fastforce
  note s1 = HasEnoughCores_step(1)[OF c, of g]
  have "search_step s t \<and> (\<not> b \<longrightarrow> p \<in> visited (snd t))"
  proof (cases ok)
    case True
    then have "search p (L1, g) = Inr (b, t)" using assms(1) c s by (simp add: CheckKernelNodeDeadlock_def)
    from step[OF this] show ?thesis using assms(2,3) s s1 search_step_trans by auto
  next
    case False
    then show ?thesis using assms(1) c s s1 by (auto simp: CheckKernelNodeDeadlock_def)
  qed
  then show "search_step s t" "\<not> b \<Longrightarrow> p \<in> visited (snd t)" by blast+
qed

lemma drop_start:
  assumes "new_certified s t {p}" and "node_cert t p"
  shows "new_certified s t {}"
  using assms by (auto simp: new_certified_def)

lemma kernel_cert:
  assumes "CheckKernelNodeDeadlock search p pn s = Inr (False, t)" and "graph_typed (snd s)"
    and "GetNodeById (snd s) p = Some pn" and "nd_nodeType pn = NODE_KERNEL"
  shows "new_certified s t {}"
proof -
  obtain L g where s: "s = (L, g)" by (cases s)
  obtain ok L1 where c: "HasEnoughCores pn False L = (ok, L1)" by fastforce
  with assms(1) s have ok: ok and search: "search p (L1, g) = Inr (False, t)"
    by (auto simp: CheckKernelNodeDeadlock_def split: if_splits)
  have st: "search_step (L1, g) t" using step[OF search] assms(2) s by (simp add: graph_typed_def)
  from same_but_visitedD[OF search_stepD(5)[OF st], of p pn] assms(3) s obtain m where
    m: "GetNodeById (snd t) p = Some m" "unvisit m = unvisit pn" by auto
  have "node_cert t p"
    using HasEnoughCores_step(2)[OF c ok] search_stepD(3,4)[OF st] m(1) unvisit_eqD(3,7,8)[OF m(2)] assms(4)
    by (auto simp: node_cert_def)
  moreover have "new_certified s t {p}"
    using cert[OF search] assms(2) s new_certified_same[of s "(L1, g)" t "{p}"] by simp
  ultimately show ?thesis using drop_start by blast
qed

lemma wait_cases:
  assumes "CheckWaitNodeDeadlock search p pn s = Inr (b, t)" and "graph_ok (snd s)"
    and "GetNodeById (snd s) p = Some pn"
  obtains (fail) "b" and "search_step s t"
  | (one) nn where "GetNodeById (snd s) (GetCorrespondingNotifyNodeId pn) = Some nn"
      and "\<not> IsAfterSKRange (fst s) nn" and "search p s = Inr (False, t)" and "\<not> b"
      and "nd_streamIdxInGraph nn = nd_streamIdxInGraph pn \<or> IsInSKStream (fst t) nn"
  | (two) nn u where "GetNodeById (snd s) (GetCorrespondingNotifyNodeId pn) = Some nn"
      and "\<not> IsAfterSKRange (fst s) nn" and "search p s = Inr (False, u)"
      and "search (GetCorrespondingNotifyNodeId pn) u = Inr (b, t)"
proof -
  obtain L g where s: "s = (L, g)" by (cases s)
  show thesis
  proof (cases "GetCorrespondingNotifyNodeId pn = INVALID_TASK_ID \<or>
      GetNodeById g (GetCorrespondingNotifyNodeId pn) = None")
    case True
    then show thesis using assms(1) s
      by (intro fail) (auto simp: CheckWaitNodeDeadlock_def Let_def split: if_splits option.splits)
  next
    case False
    then obtain nn where nn: "GetNodeById g (GetCorrespondingNotifyNodeId pn) = Some nn" by auto
    show thesis
    proof (cases "IsAfterSKRange L nn")
      case True
      then show thesis using assms(1) s nn False by (intro fail) (auto simp: CheckWaitNodeDeadlock_def Let_def)
    next
      case range: False
      with assms(1) s nn False obtain dead u where u: "search p s = Inr (dead, u)"
        by (auto simp: CheckWaitNodeDeadlock_def Let_def)
      show thesis
      proof (cases dead)
        case True
        with assms(1) s nn False range u show thesis using step[OF u assms(2)]
          by (intro fail) (auto simp: CheckWaitNodeDeadlock_def Let_def)
      next
        case alive: False
        show thesis
        proof (cases "nd_streamIdxInGraph nn \<noteq> nd_streamIdxInGraph pn \<and> \<not> IsInSKStream (fst u) nn")
          case True
          with assms(1) s nn False range u alive show thesis
            by (intro two[of nn u]) (auto simp: CheckWaitNodeDeadlock_def Let_def split: prod.splits)
        next
          case nodir: False
          with assms(1) s nn False range u alive show thesis
            by (intro one[of nn]) (auto simp: CheckWaitNodeDeadlock_def Let_def split: prod.splits)
        qed
      qed
    qed
  qed
qed

lemma wait_step:
  assumes "CheckWaitNodeDeadlock search p pn s = Inr (b, t)" and "graph_ok (snd s)"
    and "GetNodeById (snd s) p = Some pn"
  shows "search_step s t" and "\<not> b \<Longrightarrow> p \<in> visited (snd t)"
proof -
  from assms have "search_step s t \<and> (\<not> b \<longrightarrow> p \<in> visited (snd t))"
  proof (cases rule: wait_cases)
    case (one nn)
    then show ?thesis using step[OF one(3) assms(2)] assms(3) by simp
  next
    case (two nn u)
    note su = step[OF two(3) assms(2)]
    have "graph_ok (snd u)" using same_but_visited_graph_ok[OF search_stepD(5) assms(2)] su by blast
    from step[OF two(4) this] show ?thesis
      using su assms(3) search_step_trans search_stepD(6) by blast
  qed simp
  then show "search_step s t" "\<not> b \<Longrightarrow> p \<in> visited (snd t)" by blast+
qed

lemma wait_node_cert:
  assumes st: "search_step s t" and "GetNodeById (snd s) p = Some pn" and "nd_nodeType pn = NODE_WAIT"
    and "GetNodeById (snd s) (GetCorrespondingNotifyNodeId pn) = Some nn" and "\<not> IsAfterSKRange (fst s) nn"
    and "nd_streamIdxInGraph nn = nd_streamIdxInGraph pn \<or> IsInSKStream (fst t) nn \<or>
      GetCorrespondingNotifyNodeId pn \<in> visited (snd t)"
  shows "node_cert t p"
proof -
  from same_but_visitedD[OF search_stepD(5)[OF st] assms(2)] obtain m where
    m: "GetNodeById (snd t) p = Some m" "unvisit m = unvisit pn" by blast
  from same_but_visitedD[OF search_stepD(5)[OF st] assms(4)] obtain mm where
    mm: "GetNodeById (snd t) (GetCorrespondingNotifyNodeId pn) = Some mm" "unvisit mm = unvisit nn" by blast
  have "nd_streamIdxInGraph mm = nd_streamIdxInGraph pn \<or> IsInSKStream (fst t) mm \<or>
      GetCorrespondingNotifyNodeId pn \<in> visited (snd t)"
    using assms(6) unvisit_eqD(4)[OF mm(2)] by (auto simp: IsInSKStream_def)
  then show ?thesis
    using m(1) mm(1) unvisit_eqD(3,4,9)[OF m(2)] assms(3,5) search_step_range(2)[OF st mm(2)]
    by (simp add: node_cert_def)
qed

lemma wait_cert:
  assumes "CheckWaitNodeDeadlock search p pn s = Inr (False, t)" and "graph_typed (snd s)"
    and "GetNodeById (snd s) p = Some pn" and "nd_nodeType pn = NODE_WAIT"
  shows "new_certified s t {}"
proof -
  have g: "graph_ok (snd s)" using assms(2) by (simp add: graph_typed_def)
  note st = wait_step(1)[OF assms(1) g assms(3)]
  from assms(1) g assms(3) show ?thesis
  proof (cases rule: wait_cases)
    case (one nn)
    have "node_cert t p" using wait_node_cert[OF st assms(3,4) one(1,2)] one(5) by blast
    then show ?thesis using drop_start cert[OF one(3) assms(2)] by blast
  next
    case (two nn u)
    let ?N = "GetCorrespondingNotifyNodeId pn"
    note su = step[OF two(3) g]
    have typed: "graph_typed (snd u)" using graph_typed_step[OF search_stepD(5) assms(2)] su by blast
    then have gu: "graph_ok (snd u)" by (simp add: graph_typed_def)
    from same_but_visitedD[OF search_stepD(5) two(1)] su obtain nu where
      nu: "GetNodeById (snd u) ?N = Some nu" by blast
    note sN = step[OF two(4) gu]
    have N: "?N \<in> visited (snd t)" using sN nu by simp
    have "nd_nodeType nn = NODE_NOTIFY" using assms(2-4) two(1) unfolding graph_typed_def by blast
    moreover from same_but_visitedD[OF search_stepD(5)[OF st] two(1)] obtain m where
      m: "GetNodeById (snd t) ?N = Some m" "unvisit m = unvisit nn" by blast
    ultimately have "node_cert t ?N" using unvisit_eqD(3)[OF m(2)] by (simp add: node_cert_def)
    moreover have "node_cert t p" using wait_node_cert[OF st assms(3,4) two(1,2)] N by blast
    moreover have "new_certified s t ({p} \<union> {?N})"
      using new_certified_trans cert[OF two(3) assms(2)] cert[OF two(4) typed] sN by blast
    ultimately show ?thesis unfolding new_certified_def
      by (metis Un_iff singletonD)
  qed simp
qed

text \<open>The loop over the waits of a notify node.\<close>

lemma check_waits_step:
  assumes "check_waits search p ws s = Inr (b, t)" and "graph_ok (snd s)" and "GetNodeById (snd s) p \<noteq> None"
  shows "search_step s t"
  using assms
proof (induction ws arbitrary: s)
  case (Cons w ws)
  then obtain wn where wn: "GetNodeById (snd s) w = Some wn" by auto
  show ?case
  proof (cases "IsBeforeSKRange (fst s) wn")
    case True
    then show ?thesis using Cons.prems(1) wn by simp
  next
    case False
    then obtain dead u where u: "search p s = Inr (dead, u)"
      "if dead then b \<and> t = u else check_waits search p ws u = Inr (b, t)"
      using Cons.prems(1) wn by (auto split: if_splits)
    note su = step[OF u(1) Cons.prems(2)]
    have "graph_ok (snd u)" "GetNodeById (snd u) p \<noteq> None"
      using same_but_visited_graph_ok[OF search_stepD(5)] same_but_visitedD[OF search_stepD(5)] su Cons.prems(2,3)
      by fast+
    then show ?thesis using Cons.IH[of u] u(2) su search_step_trans by (auto split: if_splits)
  qed
qed simp

lemma check_waits_cert:
  assumes "check_waits search p ws s = Inr (False, t)" and "graph_typed (snd s)"
    and "GetNodeById (snd s) p \<noteq> None"
  shows "new_certified s t {p}"
  using assms
proof (induction ws arbitrary: s)
  case (Cons w ws)
  then obtain wn where wn: "GetNodeById (snd s) w = Some wn" by auto
  show ?case
  proof (cases "IsBeforeSKRange (fst s) wn")
    case True
    then show ?thesis using Cons.prems(1) wn by simp
  next
    case False
    then obtain u where u: "search p s = Inr (False, u)" "check_waits search p ws u = Inr (False, t)"
      using Cons.prems(1) wn by (auto split: if_splits)
    have g: "graph_ok (snd s)" using Cons.prems(2) by (simp add: graph_typed_def)
    note su = step[OF u(1) g]
    have typed: "graph_typed (snd u)" using graph_typed_step[OF search_stepD(5) Cons.prems(2)] su by blast
    have p: "GetNodeById (snd u) p \<noteq> None"
      using same_but_visitedD[OF search_stepD(5)] su Cons.prems(3) by fast
    have "search_step u t" using check_waits_step[OF u(2) _ p] typed by (simp add: graph_typed_def)
    from new_certified_trans[OF this] show ?thesis
      using cert[OF u(1) Cons.prems(2)] Cons.IH[OF u(2) typed p] by fastforce
  qed
qed simp

text \<open>Without a deadlock the loop either never searched or has marked the notify node.\<close>

lemma check_waits_done:
  assumes "check_waits search p ws s = Inr (False, t)" and "graph_ok (snd s)"
    and "GetNodeById (snd s) p \<noteq> None"
  shows "p \<in> visited (snd t) \<or> s = t \<and> (case ws of [] \<Rightarrow> True
    | w # _ \<Rightarrow> (\<exists>wn. GetNodeById (snd s) w = Some wn \<and> IsBeforeSKRange (fst s) wn))"
proof (cases ws)
  case Nil
  then show ?thesis using assms(1) by simp
next
  case (Cons w ws')
  with assms(1) obtain wn where wn: "GetNodeById (snd s) w = Some wn" by auto
  show ?thesis
  proof (cases "IsBeforeSKRange (fst s) wn")
    case True
    then show ?thesis using assms(1) Cons wn by simp
  next
    case False
    then obtain u where u: "search p s = Inr (False, u)" "check_waits search p ws' u = Inr (False, t)"
      using assms(1) Cons wn by (auto split: if_splits)
    note su = step[OF u(1) assms(2)]
    have "graph_ok (snd u)" "GetNodeById (snd u) p \<noteq> None"
      using same_but_visited_graph_ok[OF search_stepD(5)] same_but_visitedD[OF search_stepD(5)] su assms(2,3)
      by fast+
    from check_waits_step[OF u(2) this] have "visited (snd u) \<subseteq> visited (snd t)" by (rule search_stepD(6))
    then show ?thesis using su assms(3) by blast
  qed
qed

lemma plain_node_cert:
  assumes "search_step s t" and "GetNodeById (snd s) p = Some pn"
    and "nd_nodeType pn \<in> {NODE_NOTIFY, NODE_DEFAULT, NODE_RESET}"
  shows "node_cert t p"
proof -
  from same_but_visitedD[OF search_stepD(5)[OF assms(1)] assms(2)] obtain m where
    m: "GetNodeById (snd t) p = Some m" "unvisit m = unvisit pn" by blast
  have "nd_nodeType m \<in> {NODE_NOTIFY, NODE_DEFAULT, NODE_RESET}"
    using unvisit_eqD(3)[OF m(2)] assms(3) by simp
  then show ?thesis using m(1) unfolding node_cert_def by fastforce
qed

lemma notify_step:
  assumes "CheckNotifyNodeDeadlock search p pn s = Inr (b, t)" and "graph_ok (snd s)"
    and "GetNodeById (snd s) p = Some pn"
  obtains (fail) "b" and "search_step s t"
  | (go) u where "search_step s u" and "search_step u t" and "snd u = snd s" and
      "check_waits search p (GetCorrespondingWaitNodeIds pn) u = Inr (b, t)"
proof -
  obtain L g where s: "s = (L, g)" by (cases s)
  obtain ok L1 where c: "(if GetCubeNum pn > 0 \<or> GetVecNum pn > 0 then HasEnoughCores pn False L
      else (True, L)) = (ok, L1)" by fastforce
  have s1: "search_step s (L1, g)"
    using c HasEnoughCores_step(1) s by (auto split: if_splits)
  show thesis
  proof (cases ok)
    case True
    with assms(1) c s have w: "check_waits search p (GetCorrespondingWaitNodeIds pn) (L1, g) = Inr (b, t)"
      by (simp add: CheckNotifyNodeDeadlock_def)
    from check_waits_step[OF this] s1 s w go[of "(L1, g)"] assms(2,3) show thesis by simp
  next
    case False
    with assms(1) c s s1 fail show thesis by (auto simp: CheckNotifyNodeDeadlock_def)
  qed
qed

lemma notify_cert:
  assumes "CheckNotifyNodeDeadlock search p pn s = Inr (False, t)" and "graph_typed (snd s)"
    and "GetNodeById (snd s) p = Some pn" and "nd_nodeType pn = NODE_NOTIFY"
  shows "new_certified s t {}" and "p \<in> visited (snd t) \<or> notify_done t pn"
proof -
  have g: "graph_ok (snd s)" using assms(2) by (simp add: graph_typed_def)
  from assms(1) g assms(3) have "new_certified s t {} \<and> (p \<in> visited (snd t) \<or> notify_done t pn)"
  proof (cases rule: notify_step)
    case (go u)
    have su: "search_step s t" using go(1,2) by (rule search_step_trans)
    have "new_certified s t {p}"
      using check_waits_cert[OF go(4)] assms(2,3) go(3) new_certified_same[of s u t "{p}"] by simp
    moreover have "node_cert t p" using plain_node_cert[OF su assms(3)] assms(4) by simp
    moreover have "p \<in> visited (snd t) \<or> notify_done t pn"
      using check_waits_done[OF go(4)] g go(3) assms(3,4) by (auto simp: notify_done_def split: list.splits)
    ultimately show ?thesis using drop_start by blast
  qed simp
  then show "new_certified s t {}" "p \<in> visited (snd t) \<or> notify_done t pn" by blast+
qed

lemma plain_cert:
  assumes "search p s = Inr (False, t)" and "graph_typed (snd s)"
    and "GetNodeById (snd s) p = Some pn" and "nd_nodeType pn \<in> {NODE_DEFAULT, NODE_RESET}"
  shows "new_certified s t {}"
proof -
  have "search_step s t" using step[OF assms(1)] assms(2) by (simp add: graph_typed_def)
  from plain_node_cert[OF this assms(3)] assms(4) have "node_cert t p" by blast
  then show ?thesis using cert[OF assms(1,2)] drop_start by blast
qed

end

section \<open>The search meets the contract\<close>

text \<open>The dispatch on the node before the current one, and the mark the search starts with.\<close>

definition before_node :: "search \<Rightarrow> node_id \<Rightarrow> sk_node \<Rightarrow> lock_st \<Rightarrow> (bool \<times> lock_st) run" where
  "before_node search p pn st = (case nd_nodeType pn of
     NODE_KERNEL \<Rightarrow> CheckKernelNodeDeadlock search p pn st
   | NODE_WAIT \<Rightarrow> CheckWaitNodeDeadlock search p pn st
   | NODE_NOTIFY \<Rightarrow> CheckNotifyNodeDeadlock search p pn st
   | NODE_DEFAULT \<Rightarrow> search p st
   | NODE_RESET \<Rightarrow> search p st
   | _ \<Rightarrow> Inr (True, fail_with NO_SUPPORT_NODE (fst st), snd st))"

definition start_at :: "sk_node \<Rightarrow> node_id \<Rightarrow> lock_st \<Rightarrow> lock_st" where
  "start_at cn cur st = ((fst st)\<lparr> lk_temp := lk_temp (fst st) @ [nd_nodeId cn] \<rparr>,
     set_visited True cur (snd st))"

lemma HasDeadlock_Suc: "HasDeadlock (Suc fuel) cur st =
    bindR (derefR (GetNodeById (snd st) cur)) (\<lambda>cn.
      if nd_preNodeId cn = INVALID_TASK_ID then Inr (False, start_at cn cur st)
      else case GetNodeById (snd (start_at cn cur st)) (nd_preNodeId cn) of
        None \<Rightarrow> Inr (False, start_at cn cur st)
      | Some pn \<Rightarrow>
          if nd_isVisited pn \<or> HasIntersection (nd_scopeStreamIds pn) (lk_streams (fst st))
          then Inr (False, start_at cn cur st)
          else before_node (HasDeadlock fuel) (nd_preNodeId cn) pn (start_at cn cur st))"
  by (cases st) (auto simp: before_node_def start_at_def Let_def intro!: bindR_cong split: option.split sk_node_type.split)

declare HasDeadlock.simps(2) [simp del]

lemma start_at_step:
  assumes "graph_ok (snd s)" and "GetNodeById (snd s) cur = Some cn"
  shows "search_step s (start_at cn cur s)" and "visited (snd (start_at cn cur s)) = insert cur (visited (snd s))"
proof -
  have "nd_nodeId cn = cur" using assms by (auto simp: graph_ok_def GetNodeById_def)
  then show "search_step s (start_at cn cur s)"
    using assms(2) by (auto simp: search_step_def start_at_def same_sk_def visited_set_visited cores_ok_def)
  show "visited (snd (start_at cn cur s)) = insert cur (visited (snd s))"
    using assms(2) by (simp add: start_at_def visited_set_visited)
qed

lemma before_node_step:
  assumes "backward_search search" and "before_node search p pn s = Inr (b, t)" and "graph_ok (snd s)"
    and "GetNodeById (snd s) p = Some pn"
  shows "search_step s t"
  using assms(2) backward_search.kernel_step(1)[OF assms(1) _ assms(3,4)]
    backward_search.wait_step(1)[OF assms(1) _ assms(3,4)] backward_search.step[OF assms(1) _ assms(3)]
  by (cases "nd_nodeType pn") (auto simp: before_node_def
      elim!: backward_search.notify_step[OF assms(1) _ assms(3,4)] intro: search_step_trans)

lemma before_node_cert:
  assumes "backward_search search" and "before_node search p pn s = Inr (False, t)" and "graph_typed (snd s)"
    and "GetNodeById (snd s) p = Some pn"
  shows "new_certified s t {} \<and> (p \<in> visited (snd t) \<or> notify_done t pn)"
proof -
  have g: "graph_ok (snd s)" using assms(3) by (simp add: graph_typed_def)
  show ?thesis
    using assms(2) backward_search.kernel_cert[OF assms(1) _ assms(3,4)]
      backward_search.kernel_step(2)[OF assms(1) _ g assms(4)]
      backward_search.wait_cert[OF assms(1) _ assms(3,4)]
      backward_search.wait_step(2)[OF assms(1) _ g assms(4)]
      backward_search.notify_cert[OF assms(1) _ assms(3,4)]
      backward_search.plain_cert[OF assms(1) _ assms(3,4)] backward_search.step[OF assms(1) _ g, of p False t] assms(4)
    by (cases "nd_nodeType pn") (auto simp: before_node_def)
qed


text \<open>What the search does with the node before: nothing, or a dispatch.\<close>

lemma HasDeadlock_SucE:
  assumes "HasDeadlock (Suc fuel) cur s = Inr (b, t)"
  obtains (stop) cn where "GetNodeById (snd s) cur = Some cn" "\<not> b" "t = start_at cn cur s"
      "nd_preNodeId cn = INVALID_TASK_ID \<or> (\<forall>pn. GetNodeById (snd t) (nd_preNodeId cn) = Some pn \<longrightarrow>
         nd_isVisited pn \<or> HasIntersection (nd_scopeStreamIds pn) (lk_streams (fst t)))"
  | (go) cn pn where "GetNodeById (snd s) cur = Some cn"
      "GetNodeById (snd (start_at cn cur s)) (nd_preNodeId cn) = Some pn" "\<not> nd_isVisited pn"
      "before_node (HasDeadlock fuel) (nd_preNodeId cn) pn (start_at cn cur s) = Inr (b, t)"
proof -
  from assms obtain cn where cn: "GetNodeById (snd s) cur = Some cn" by (auto simp: HasDeadlock_Suc)
  have str: "lk_streams (fst (start_at cn cur s)) = lk_streams (fst s)" by (simp add: start_at_def)
  show thesis
  proof (cases "GetNodeById (snd (start_at cn cur s)) (nd_preNodeId cn)")
    case None
    with assms cn show thesis by (intro stop[OF cn]) (auto simp: HasDeadlock_Suc split: if_splits)
  next
    case (Some pn)
    show thesis
    proof (cases "nd_preNodeId cn = INVALID_TASK_ID \<or> nd_isVisited pn \<or>
        HasIntersection (nd_scopeStreamIds pn) (lk_streams (fst s))")
      case True
      with assms cn Some str show thesis by (intro stop[OF cn]) (auto simp: HasDeadlock_Suc split: if_splits)
    next
      case False
      with assms cn Some show thesis by (intro go[OF cn Some]) (auto simp: HasDeadlock_Suc split: if_splits)
    qed
  qed
qed

lemma HasDeadlock_step:
  assumes "backward_search (HasDeadlock fuel)" and "HasDeadlock (Suc fuel) cur s = Inr (b, t)"
    and "graph_ok (snd s)"
  shows "search_step s t \<and> cur \<in> visited (snd t)"
  using assms(2)
proof (cases rule: HasDeadlock_SucE)
  case (stop cn)
  then show ?thesis using start_at_step[OF assms(3) stop(1)] by simp
next
  case (go cn pn)
  note st = start_at_step[OF assms(3) go(1)]
  have "graph_ok (snd (start_at cn cur s))"
    using same_but_visited_graph_ok[OF search_stepD(5)[OF st(1)] assms(3)] .
  from before_node_step[OF assms(1) go(4) this go(2)] show ?thesis
    using st search_step_trans search_stepD(6) by blast
qed

lemma HasDeadlock_certifies:
  assumes "backward_search (HasDeadlock fuel)" and "HasDeadlock (Suc fuel) cur s = Inr (False, t)"
    and "graph_typed (snd s)"
  shows "new_certified s t {cur} \<and> pre_closed t cur"
proof -
  have g: "graph_ok (snd s)" using assms(3) by (simp add: graph_typed_def)
  have step: "search_step s t" using HasDeadlock_step[OF assms(1,2) g] by simp
  have closed: "pre_closed t cur \<and> new_certified (start_at (the (GetNodeById (snd s) cur)) cur s) t {}"
    using assms(2)
  proof (cases rule: HasDeadlock_SucE)
    case (stop cn)
    from same_but_visitedD[OF search_stepD(5)[OF step] stop(1)] obtain m where
      m: "GetNodeById (snd t) cur = Some m" "unvisit m = unvisit cn" by blast
    show ?thesis using stop m(1) unvisit_eqD(2)[OF m(2)]
      by (auto simp: pre_closed_def visited_def)
  next
    case (go cn pn)
    note st = start_at_step[OF g go(1)]
    have typed: "graph_typed (snd (start_at cn cur s))"
      using graph_typed_step[OF search_stepD(5)[OF st(1)] assms(3)] .
    then have "graph_ok (snd (start_at cn cur s))" by (simp add: graph_typed_def)
    note ut = before_node_step[OF assms(1) go(4) this go(2)]
    note cert = before_node_cert[OF assms(1) go(4) typed go(2)]
    from same_but_visitedD[OF search_stepD(5)[OF step] go(1)] obtain m where
      m: "GetNodeById (snd t) cur = Some m" "unvisit m = unvisit cn" by blast
    from same_but_visitedD[OF search_stepD(5)[OF ut] go(2)] obtain q where
      q: "GetNodeById (snd t) (nd_preNodeId cn) = Some q" "unvisit q = unvisit pn" by blast
    have "notify_done t q" if "notify_done t pn"
      using notify_done_step[OF search_step_refl that q(2)] .
    then show ?thesis using cert go(1) m(1) unvisit_eqD(2)[OF m(2)] q(1)
      by (auto simp: pre_closed_def)
  qed
  from assms(2) obtain cn where cn: "GetNodeById (snd s) cur = Some cn" by (auto simp: HasDeadlock_Suc)
  note st = start_at_step[OF g cn]
  have "new_certified (start_at cn cur s) t {}" using closed cn by simp
  then have "\<forall>v\<in>visited (snd t) - insert cur (visited (snd s)). pre_closed t v \<and> node_cert t v"
    using st(2) by (simp add: new_certified_def)
  then show ?thesis using closed by (auto simp: new_certified_def)
qed

lemma HasDeadlock_contract: "backward_search (HasDeadlock fuel)"
proof (induction fuel)
  case 0
  show ?case by unfold_locales simp_all
next
  case (Suc fuel)
  show ?case
  proof unfold_locales
    fix cur b and s t :: lock_st
    show "HasDeadlock (Suc fuel) cur s = Inr (b, t) \<Longrightarrow> graph_ok (snd s) \<Longrightarrow> search_step s t \<and>
        (GetNodeById (snd s) cur \<noteq> None \<longrightarrow> cur \<in> visited (snd t))"
      using HasDeadlock_step[OF Suc] by simp
    show "HasDeadlock (Suc fuel) cur s = Inr (False, t) \<Longrightarrow> graph_typed (snd s) \<Longrightarrow>
        new_certified s t {cur} \<and> pre_closed t cur"
      by (rule HasDeadlock_certifies[OF Suc])
  qed
qed

interpretation hd: backward_search "HasDeadlock fuel" for fuel
  by (rule HasDeadlock_contract)


section \<open>Termination of the search\<close>

text \<open>
  Fuel is measured by the nodes not yet visited, with one unit more when the search starts from a
  visited node; the search from a node never raises this potential of the node.
\<close>

definition waits_ok :: "sk_graph \<Rightarrow> bool" where
  "waits_ok g \<longleftrightarrow> (\<forall>i n w. GetNodeById g i = Some n \<longrightarrow> nd_nodeType n = NODE_NOTIFY \<longrightarrow>
     w \<in> set (GetCorrespondingWaitNodeIds n) \<longrightarrow> GetNodeById g w \<noteq> None)"

definition unseen :: "sk_graph \<Rightarrow> node_id set" where
  "unseen g = set (sg_nodeIds g) - visited g"

definition potential :: "node_id \<Rightarrow> lock_st \<Rightarrow> nat" where
  "potential i s = card (unseen (snd s)) + (if i \<in> visited (snd s) then 1 else 0)"

definition searchable :: "node_id \<Rightarrow> lock_st \<Rightarrow> bool" where
  "searchable i s \<longleftrightarrow> graph_ok (snd s) \<and> waits_ok (snd s) \<and> GetNodeById (snd s) i \<noteq> None"

lemma graph_ok_ids: "graph_ok g \<Longrightarrow> GetNodeById g i \<noteq> None \<longleftrightarrow> i \<in> set (sg_nodeIds g)"
  by (auto simp: graph_ok_def GetNodeById_def dom_def)

lemma searchable_step:
  assumes "search_step s t"
  shows "searchable i t \<longleftrightarrow> searchable i s"
proof -
  have "searchable i h" if sym: "same_but_visited (snd g) (snd h)" and g: "searchable i g" for g h :: lock_st
  proof -
    have "waits_ok (snd h)"
      unfolding waits_ok_def
    proof (intro allI impI)
      fix j n w assume n: "GetNodeById (snd h) j = Some n" "nd_nodeType n = NODE_NOTIFY"
        "w \<in> set (GetCorrespondingWaitNodeIds n)"
      from same_but_visitedD[OF same_but_visited_sym[OF sym] n(1)] obtain m where
        m: "GetNodeById (snd g) j = Some m" "unvisit m = unvisit n" by blast
      from g have "waits_ok (snd g)" by (simp add: searchable_def)
      then have "GetNodeById (snd g) w \<noteq> None"
        using m(1) n(2,3) unvisit_eqD(3,10)[OF m(2)] unfolding waits_ok_def by metis
      then show "GetNodeById (snd h) w \<noteq> None" using same_but_visitedD[OF sym] by fastforce
    qed
    moreover have "GetNodeById (snd h) i \<noteq> None"
      using g same_but_visitedD[OF sym] by (fastforce simp: searchable_def)
    ultimately show ?thesis using g same_but_visited_graph_ok[OF sym] by (simp add: searchable_def)
  qed
  from this[OF search_stepD(5)[OF assms]] this[OF same_but_visited_sym[OF search_stepD(5)[OF assms]]]
  show ?thesis by blast
qed

lemma unseen_step:
  assumes "search_step s t"
  shows "unseen (snd t) \<subseteq> unseen (snd s)" and "finite (unseen (snd s))"
  using search_stepD(5,6)[OF assms] by (auto simp: unseen_def same_but_visited_def)

lemma potential_step:
  assumes st: "search_step s t" and "searchable p s" and "p \<in> visited (snd t)"
  shows "potential i t \<le> potential p s"
proof (cases "p \<in> visited (snd s)")
  case True
  have "card (unseen (snd t)) \<le> card (unseen (snd s))"
    using unseen_step[OF st] by (simp add: card_mono)
  then show ?thesis using True by (simp add: potential_def)
next
  case False
  have "p \<in> unseen (snd s)" using False assms(2) graph_ok_ids by (auto simp: searchable_def unseen_def)
  moreover have "p \<notin> unseen (snd t)" using assms(3) by (simp add: unseen_def)
  ultimately have "card (unseen (snd t)) < card (unseen (snd s))"
    using unseen_step[OF st] by (intro psubset_card_mono) auto
  then show ?thesis using False by (simp add: potential_def)
qed

definition ends_within :: "nat \<Rightarrow> search \<Rightarrow> bool" where
  "ends_within fuel search \<longleftrightarrow> (\<forall>i s. searchable i s \<longrightarrow> potential i s \<le> fuel \<longrightarrow> (\<exists>r. search i s = Inr r))"

context backward_search
begin

lemma search_potential:
  assumes "search i s = Inr (b, t)" and "searchable i s"
  shows "search_step s t" and "searchable j t \<longleftrightarrow> searchable j s" and "potential j t \<le> potential i s"
proof -
  have "graph_ok (snd s)" using assms(2) by (simp add: searchable_def)
  from step[OF assms(1) this] have st: "search_step s t" and v: "i \<in> visited (snd t)"
    using assms(2) by (simp_all add: searchable_def)
  show "search_step s t" by (rule st)
  show "searchable j t \<longleftrightarrow> searchable j s" by (rule searchable_step[OF st])
  show "potential j t \<le> potential i s" by (rule potential_step[OF st assms(2) v])
qed

lemma check_waits_ends:
  assumes "ends_within fuel search" and "searchable p s" and "potential p s \<le> fuel"
    and "\<forall>w\<in>set ws. GetNodeById (snd s) w \<noteq> None"
  shows "\<exists>r. check_waits search p ws s = Inr r"
  using assms(2-4)
proof (induction ws arbitrary: s)
  case (Cons w ws)
  then obtain wn where wn: "GetNodeById (snd s) w = Some wn" by auto
  obtain dead u where u: "search p s = Inr (dead, u)"
    using assms(1) Cons.prems(1,2) unfolding ends_within_def by (metis surj_pair)
  note up = search_potential[OF u Cons.prems(1)]
  have "\<forall>w\<in>set ws. GetNodeById (snd u) w \<noteq> None"
    using Cons.prems(3) same_but_visitedD[OF search_stepD(5)[OF up(1)]] by fastforce
  then have "\<exists>r. check_waits search p ws u = Inr r"
    using Cons.IH[of u] up(2)[of p] up(3)[of p] Cons.prems(1,2) by simp
  then show ?case using wn u by auto
qed auto

lemma before_node_ends:
  assumes "ends_within fuel search" and "searchable p s" and "potential p s \<le> fuel"
    and "GetNodeById (snd s) p = Some pn"
  shows "\<exists>r. before_node search p pn s = Inr r"
proof -
  obtain L g where s: "s = (L, g)" by (cases s)
  have cores: "\<exists>ok M. HasEnoughCores pn False L = (ok, M) \<and> searchable p (M, g) \<and> potential p (M, g) \<le> fuel"
    using assms(2,3) s by (cases "HasEnoughCores pn False L") (simp add: searchable_def potential_def)
  have search: "\<exists>r. search i t = Inr r" if "searchable i t" "potential i t \<le> fuel" for i t
    using assms(1) that unfolding ends_within_def by blast
  have kernel: "\<exists>r. CheckKernelNodeDeadlock search p pn s = Inr r"
    using cores search s by (auto simp: CheckKernelNodeDeadlock_def)
  have notify: "\<exists>r. CheckNotifyNodeDeadlock search p pn s = Inr r" if "nd_nodeType pn = NODE_NOTIFY"
  proof -
    have "\<forall>w\<in>set (GetCorrespondingWaitNodeIds pn). GetNodeById g w \<noteq> None"
      using assms(2,4) that s by (auto simp: searchable_def waits_ok_def)
    then show ?thesis using cores check_waits_ends[OF assms(1)] assms(2,3) s
      by (auto simp: CheckNotifyNodeDeadlock_def)
  qed
  have wait: "\<exists>r. CheckWaitNodeDeadlock search p pn s = Inr r"
  proof -
    obtain dead u where u: "search p s = Inr (dead, u)" using search[OF assms(2,3)] by auto
    note up = search_potential[OF u assms(2)]
    have "\<exists>r. search i u = Inr r" if "GetNodeById g i \<noteq> None" for i
    proof -
      have "searchable i s" using that assms(2) s by (simp add: searchable_def)
      then show ?thesis using search up(2,3)[of i] assms(3) by simp
    qed
    then show ?thesis using u s by (auto simp: CheckWaitNodeDeadlock_def Let_def split: option.split prod.splits)
  qed
  show ?thesis using kernel notify wait search[OF assms(2,3)]
    by (cases "nd_nodeType pn") (auto simp: before_node_def)
qed

end

lemma HasDeadlock_ends: "ends_within fuel (HasDeadlock fuel)"
proof (induction fuel)
  case 0
  have "False" if "searchable i s" "potential i s \<le> 0" for i s
    using that graph_ok_ids[of "snd s" i] by (auto simp: searchable_def potential_def unseen_def split: if_splits)
  then show ?case unfolding ends_within_def by blast
next
  case (Suc fuel)
  have "\<exists>r. HasDeadlock (Suc fuel) i s = Inr r" if sr: "searchable i s" and pot: "potential i s \<le> Suc fuel" for i s
  proof -
    from sr obtain cn where cn: "GetNodeById (snd s) i = Some cn" and g: "graph_ok (snd s)"
      by (auto simp: searchable_def)
    let ?u = "start_at cn i s"
    note st = start_at_step[OF g cn]
    have diff: "unseen (snd ?u) = unseen (snd s) - {i}"
      using st(2) search_stepD(5)[OF st(1)] by (auto simp: unseen_def same_but_visited_def)
    have seen: "i \<in> visited (snd s) \<or> i \<in> unseen (snd s)"
      using cn g graph_ok_ids[of "snd s" i] by (auto simp: unseen_def)
    have card: "card (unseen (snd ?u)) \<le> fuel"
    proof (cases "i \<in> visited (snd s)")
      case True
      then have "i \<notin> unseen (snd s)" by (simp add: unseen_def)
      then show ?thesis using True pot diff by (simp add: potential_def)
    next
      case False
      then have "i \<in> unseen (snd s)" using seen by simp
      then show ?thesis
        using False pot unseen_step(2)[OF st(1)] diff
        by (simp add: potential_def card_Diff_singleton)
    qed
    have "\<exists>r. before_node (HasDeadlock fuel) (nd_preNodeId cn) pn ?u = Inr r"
      if pn: "GetNodeById (snd ?u) (nd_preNodeId cn) = Some pn" "\<not> nd_isVisited pn" for pn
    proof -
      have "searchable (nd_preNodeId cn) ?u"
        using searchable_step[OF st(1)] sr pn(1) by (auto simp: searchable_def)
      moreover have "potential (nd_preNodeId cn) ?u \<le> fuel"
        using card pn by (simp add: potential_def visited_def)
      ultimately show ?thesis using hd.before_node_ends[OF Suc.IH _ _ pn(1)] by blast
    qed
    then show ?thesis using cn by (auto simp: HasDeadlock_Suc split: option.split)
  qed
  then show ?case unfolding ends_within_def by blast
qed


section \<open>The detector's answers keep its books\<close>

text \<open>
  Besides the cores: every visited node is listed, so that a reset finds it, and the streams of
  the super kernel are exactly those with a range.
\<close>

definition books :: "lock_st \<Rightarrow> bool" where
  "books s \<longleftrightarrow> graph_ok (snd s) \<and> cores_ok (fst s) \<and> visited (snd s) \<subseteq> set (lk_nodes (fst s)) \<and>
     dom (map_of (lk_range (fst s))) = lk_streams (fst s)"

lemma visited_rollback:
  "visited (RollbackVisitedState ids g) = visited g - set ids"
proof -
  have "visited (set_visited False i h) = visited h - {i}" for i h
  proof (cases "GetNodeById h i")
    case None
    then have "i \<notin> visited h" by (simp add: visited_def)
    then show ?thesis using None by (simp add: visited_set_visited)
  qed (simp add: visited_set_visited)
  then show ?thesis unfolding RollbackVisitedState_def
    by (induction ids arbitrary: g) auto
qed

lemma rollback_same: "same_but_visited g (RollbackVisitedState ids g)"
proof (induction ids arbitrary: g)
  case (Cons i ids)
  then show ?case using Cons[of "set_visited False i g"] same_but_visited_set[of g False i]
    by (simp add: RollbackVisitedState_def same_but_visited_def)
qed (simp add: RollbackVisitedState_def)

lemma wait_status_step:
  assumes "GetWaitNodeFusibleStatus (HasDeadlock fuel) cn s = Inr (b, t)" and "graph_ok (snd s)"
  shows "search_step s t"
proof -
  obtain L g where s: "s = (L, g)" by (cases s)
  obtain nn where nn: "search_step s t \<or> GetNodeById g (GetCorrespondingNotifyNodeId cn) = Some nn"
    using assms(1) s by (cases "GetNodeById g (GetCorrespondingNotifyNodeId cn)")
      (auto simp: GetWaitNodeFusibleStatus_def Let_def split: if_splits)
  obtain ok M where c: "HasEnoughCores nn False L = (ok, M)" by fastforce
  have sM: "search_step s (M, g)" using HasEnoughCores_step(1)[OF c] s by simp
  have temp: "search_step s (M\<lparr> lk_temp := lk_temp M @ [nd_nodeId nn] \<rparr>, g)"
    using sM s by (auto simp: search_step_def same_sk_def cores_ok_def)
  have go: "search_step s t" if "HasDeadlock fuel i (K, g) = Inr (dead, t)" "search_step s (K, g)" for i K dead
    using hd.step[OF that(1)] that(2) assms(2) s search_step_trans by auto
  show ?thesis
  proof (rule disjE[OF nn])
    assume n: "GetNodeById g (GetCorrespondingNotifyNodeId cn) = Some nn"
    show ?thesis using assms(1) s n c sM go[OF _ temp] go[of _ L]
      by (auto simp: GetWaitNodeFusibleStatus_def CheckNotifyInSKStream_def Let_def split: if_splits)
  qed
qed

lemma fusible_status_step:
  assumes "GetFusibleStatus (HasDeadlock fuel) cn s = Inr (b, t)" and "graph_ok (snd s)"
    and "cores_ok (fst s)"
  shows "same_but_visited (snd s) (snd t)" and "cores_ok (fst t)"
    and "set (lk_nodes (fst s)) \<subseteq> set (lk_nodes (fst t))"
    and "visited (snd t) \<subseteq> visited (snd s) \<union> set (lk_nodes (fst t))"
    and "lk_range (fst t) = lk_range (fst s)" and "lk_streams (fst t) = lk_streams (fst s)"
    and "b \<Longrightarrow> nd_nodeType cn = NODE_KERNEL \<Longrightarrow>
      GetCubeNum cn \<le> lk_skCube (fst t) \<and> GetVecNum cn \<le> lk_skVec (fst t)"
proof -
  obtain L g where s: "s = (L, g)" by (cases s)
  define P where "P \<longleftrightarrow> same_but_visited (snd s) (snd t) \<and> cores_ok (fst t) \<and>
      set (lk_nodes (fst s)) \<subseteq> set (lk_nodes (fst t)) \<and>
      visited (snd t) \<subseteq> visited (snd s) \<union> set (lk_nodes (fst t)) \<and>
      lk_range (fst t) = lk_range (fst s) \<and> lk_streams (fst t) = lk_streams (fst s) \<and>
      (b \<longrightarrow> nd_nodeType cn = NODE_KERNEL \<longrightarrow>
        GetCubeNum cn \<le> lk_skCube (fst t) \<and> GetVecNum cn \<le> lk_skVec (fst t))"
  have wait: P if "nd_nodeType cn = NODE_WAIT" "\<not> ShouldBypassValueWaitDeadlock cn L"
  proof -
    from that assms(1) s obtain ok L1 g1 where
      w: "GetWaitNodeFusibleStatus (HasDeadlock fuel) cn (L\<lparr> lk_temp := [] \<rparr>, g) = Inr (ok, L1, g1)"
      and t: "t = (if ok then (L1\<lparr> lk_nodes := lk_nodes L1 @ lk_temp L1 \<rparr>, g1)
        else (L1\<lparr> lk_temp := [] \<rparr>, RollbackVisitedState (lk_temp L1) g1))"
      by (auto simp: GetFusibleStatus_def split: if_splits prod.splits)
    have "cores_ok (L\<lparr> lk_temp := [] \<rparr>)" using assms(3) s by (simp add: cores_ok_def)
    then show ?thesis
      using wait_status_step[OF w] assms(2) s t rollback_same[of g1 "lk_temp L1"] visited_rollback[of "lk_temp L1" g1] that(1)
      by (auto simp: P_def search_step_def same_sk_def cores_ok_def same_but_visited_def)
  qed
  have kernel: P if "nd_nodeType cn = NODE_KERNEL"
  proof -
    obtain ok M where c: "HasEnoughCores cn True L = (ok, M)" by fastforce
    have "lk_range M = lk_range L \<and> lk_streams M = lk_streams L \<and> lk_nodes M = lk_nodes L \<and>
        (ok \<longrightarrow> GetCubeNum cn \<le> lk_skCube M \<and> GetVecNum cn \<le> lk_skVec M)"
      using c by (auto simp: HasEnoughCores_def Let_def split: if_splits prod.splits)
    moreover have "b = ok" "t = (M, g)"
      using assms(1) that c unfolding s by (simp_all add: GetFusibleStatus_def)
    moreover have "cores_ok M" using HasEnoughCores_ok[OF _ c] assms(3) unfolding s by simp
    ultimately show ?thesis unfolding P_def s by simp
  qed
  have same: P if "t = (L, g)" "nd_nodeType cn \<noteq> NODE_KERNEL"
    unfolding P_def s that(1) using that(2) assms(3) s by simp
  have failed: P if "t = (fail_with r L, g)" "nd_nodeType cn \<noteq> NODE_KERNEL" for r
    unfolding P_def s that(1) using that(2) assms(3) s by (simp add: cores_ok_def fail_with_def)
  have P
  proof (cases "nd_nodeType cn = NODE_KERNEL \<or> nd_nodeType cn = NODE_WAIT \<and> \<not> ShouldBypassValueWaitDeadlock cn L")
    case True
    then show P using wait kernel by blast
  next
    case False
    then have "t = (L, g) \<or> t = (fail_with NOTIFY_INVALID L, g) \<or> t = (fail_with NO_SUPPORT_NODE L, g)"
      using assms(1) unfolding s
      by (cases "nd_nodeType cn") (simp_all add: GetFusibleStatus_def split: if_splits)
    then show P using same failed False by blast
  qed
  then show "same_but_visited (snd s) (snd t)" "cores_ok (fst t)"
    "set (lk_nodes (fst s)) \<subseteq> set (lk_nodes (fst t))"
    "visited (snd t) \<subseteq> visited (snd s) \<union> set (lk_nodes (fst t))"
    "lk_range (fst t) = lk_range (fst s)" "lk_streams (fst t) = lk_streams (fst s)"
    "b \<Longrightarrow> nd_nodeType cn = NODE_KERNEL \<Longrightarrow>
      GetCubeNum cn \<le> lk_skCube (fst t) \<and> GetVecNum cn \<le> lk_skVec (fst t)"
    unfolding P_def by blast+
qed


lemma IsFusible_cases:
  assumes "IsFusible i s = Inr (b, t)" and "books s" and "GetNodeById (snd s) i = Some n"
  obtains (seen) "nd_isVisited n" "b" "t = s"
  | (tested) L g where "\<not> nd_isVisited n"
      "GetFusibleStatus (HasDeadlock (Suc (length (sg_nodeIds (snd s))))) n
         (fail_with NOT_FIND_DEADLOCK (fst s), snd s) = Inr (b, L, g)"
      "t = (if b then (let L2 = UpdateSKRangeInStream n
                 (L\<lparr> lk_streams := insert (nd_streamIdxInGraph n) (lk_streams L) \<rparr>)
               in L2\<lparr> lk_nodeNum := lk_nodeNum L2 + 1, lk_nodes := lk_nodes L2 @ [i],
                    lk_kernelNodeNum := (if nd_nodeType n = NODE_KERNEL then lk_kernelNodeNum L2 + 1
                      else lk_kernelNodeNum L2) \<rparr>, set_visited True i g)
            else (L, if lk_reason L \<noteq> NOT_FIND_DEADLOCK
               then upd_node i (SetFusionFailDeadlock (lk_reason L)) g else g))"
proof -
  have "nd_nodeId n = i" using assms(2,3) by (auto simp: books_def graph_ok_def GetNodeById_def)
  then show thesis
    using assms(1,3) seen tested by (cases s) (auto simp: IsFusible_def Let_def split: if_splits)
qed

lemma fail_with_books [simp]: "books (fail_with r L, g) = books (L, g)"
  by (simp add: books_def fail_with_def cores_ok_def)

lemma update_range [simp]:
  "map_of (lk_range (UpdateSKRangeInStream n L)) = (map_of (lk_range L))(nd_streamIdxInGraph n \<mapsto>
     (case map_of (lk_range L) (nd_streamIdxInGraph n) of
        None \<Rightarrow> (nd_nodeIdxInStream n, nd_nodeIdxInStream n)
      | Some (lo, hi) \<Rightarrow> (min lo (nd_nodeIdxInStream n), max hi (nd_nodeIdxInStream n))))"
  "lk_streams (UpdateSKRangeInStream n L) = lk_streams L"
  "lk_nodes (UpdateSKRangeInStream n L) = lk_nodes L"
  "lk_skCube (UpdateSKRangeInStream n L) = lk_skCube L" "lk_skVec (UpdateSKRangeInStream n L) = lk_skVec L"
  "lk_depCube (UpdateSKRangeInStream n L) = lk_depCube L" "lk_depVec (UpdateSKRangeInStream n L) = lk_depVec L"
  "lk_devCube (UpdateSKRangeInStream n L) = lk_devCube L" "lk_devVec (UpdateSKRangeInStream n L) = lk_devVec L"
  by (simp_all add: UpdateSKRangeInStream_def Let_def update_conv' split: option.split prod.split)

lemma visited_upd_fail [simp]:
  "visited (upd_node i (SetFusionFailDeadlock r) g) = visited g"
  by (auto simp: visited_def SetFusionFailDeadlock_def split: if_splits)

lemma graph_ok_upd_fail: "graph_ok g \<Longrightarrow> graph_ok (upd_node i (SetFusionFailDeadlock r) g)"
  by (rule graph_ok_upd_node) (simp_all add: SetFusionFailDeadlock_def)

lemma IsFusible_books:
  assumes "IsFusible i s = Inr (b, t)" and "books s" and "GetNodeById (snd s) i = Some n"
  shows "books t"
  using assms
proof (cases rule: IsFusible_cases)
  case (tested L g)
  have "graph_ok (snd s)" "cores_ok (fst s)" using assms(2) by (simp_all add: books_def)
  then have pre: "graph_ok (snd (fail_with NOT_FIND_DEADLOCK (fst s), snd s))"
    "cores_ok (fst (fail_with NOT_FIND_DEADLOCK (fst s), snd s))"
    by (simp_all add: cores_ok_def fail_with_def)
  note st = fusible_status_step(1-6)[OF tested(2) pre]
  have g: "graph_ok g" using same_but_visited_graph_ok[OF st(1) pre(1)] by simp
  have vis: "visited g \<subseteq> set (lk_nodes L)"
    using st(3,4) assms(2) by (auto simp: books_def fail_with_def)
  have range: "dom (map_of (lk_range L)) = lk_streams L"
    using st(5,6) assms(2) by (simp add: books_def fail_with_def)
  show ?thesis
  proof (cases b)
    case True
    have "graph_ok (set_visited True i g)" using same_but_visited_graph_ok[OF same_but_visited_set g] .
    then show ?thesis using tested(3) True vis range st(2)
      by (auto simp: books_def Let_def visited_set_visited cores_ok_def)
  next
    case False
    then show ?thesis using tested(3) vis range st(2) g graph_ok_upd_fail by (simp add: books_def)
  qed
qed (simp add: assms(2))

lemma LockReset_books:
  assumes "books s"
  shows "books (LockReset s)" and "visited (snd (LockReset s)) = {}"
proof -
  obtain L g where s: "s = (L, g)" by (cases s)
  have same: "same_but_visited g (snd (LockReset s))"
    using rollback_same[of g "lk_nodes L"] rollback_same[of "RollbackVisitedState (lk_nodes L) g" "lk_temp L"]
    unfolding s by (simp add: LockReset_def same_but_visited_def)
  show none: "visited (snd (LockReset s)) = {}"
    using assms unfolding s by (auto simp: LockReset_def visited_rollback books_def)
  have "cores_ok L" "graph_ok g" using assms s by (simp_all add: books_def)
  then have "0 \<le> lk_devCube L" "0 \<le> lk_devVec L"
    using uint_ge_0[of "lk_skCube L"] uint_ge_0[of "lk_depCube L"] uint_ge_0[of "lk_skVec L"]
      uint_ge_0[of "lk_depVec L"] unfolding cores_ok_def by linarith+
  then have "cores_ok (fst (LockReset s))"
    using \<open>cores_ok L\<close> unfolding s cores_ok_def LockReset_def by simp
  moreover have "lk_range (fst (LockReset s)) = [] \<and> lk_streams (fst (LockReset s)) = {}"
    unfolding s LockReset_def by simp
  ultimately show "books (LockReset s)"
    using none same_but_visited_graph_ok[OF same \<open>graph_ok g\<close>] by (simp add: books_def)
qed


lemma bindR_ends:
  "\<exists>x. m = Inr x \<Longrightarrow> (\<And>x. \<exists>y. f x = Inr y) \<Longrightarrow> \<exists>y. bindR m f = Inr y"
  by (auto simp: bindR_eq_Inr_iff)

lemma if_ends: "(c \<Longrightarrow> \<exists>r. x = Inr r) \<Longrightarrow> (\<not> c \<Longrightarrow> \<exists>r. y = Inr r) \<Longrightarrow> \<exists>r. (if c then x else y) = Inr r"
  by simp

lemma wait_status_ends:
  assumes "\<forall>j M. GetNodeById g j \<noteq> None \<longrightarrow> (\<exists>r. search j (M, g) = Inr r)"
  shows "\<exists>r. GetWaitNodeFusibleStatus search n (M, g) = Inr r"
proof (cases "GetNodeById g (GetCorrespondingNotifyNodeId n)")
  case (Some nn)
  then have N: "GetNodeById g (GetCorrespondingNotifyNodeId n) \<noteq> None" by simp
  obtain ok L1 where c: "HasEnoughCores nn False M = (ok, L1)" by fastforce
  obtain ok2 L2 where d: "CheckNotifyInSKStream nn M = (ok2, L2)" by fastforce
  have dead: "\<exists>r. bindR (search (GetCorrespondingNotifyNodeId n) (K, g))
      (\<lambda>(dead, st1). Inr (\<not> dead, st1)) = Inr r" for K
    by (rule bindR_ends[OF assms[rule_format, OF N]]) (simp split: prod.split)
  show ?thesis
    unfolding GetWaitNodeFusibleStatus_def Let_def prod.case Some option.case c d
    by (intro if_ends dead exI) (rule refl)+
qed (auto simp: GetWaitNodeFusibleStatus_def Let_def)

lemma fusible_status_ends:
  assumes "\<forall>j M. GetNodeById g j \<noteq> None \<longrightarrow> (\<exists>r. search j (M, g) = Inr r)"
  shows "\<exists>r. GetFusibleStatus search n (M, g) = Inr r"
proof (cases "nd_nodeType n")
  case NODE_WAIT
  show ?thesis
    unfolding GetFusibleStatus_def prod.case NODE_WAIT sk_node_type.case
    by (rule if_ends) (auto intro!: bindR_ends[OF wait_status_ends[OF assms]] simp del: split_paired_Ex
        split: prod.split)
qed (auto simp: GetFusibleStatus_def split: prod.split)

section \<open>Runs of the detector\<close>

text \<open>What the split passes do with a detector: they ask about nodes of the graph and reset it.\<close>

inductive lock_run :: "lock_st \<Rightarrow> lock_st \<Rightarrow> bool" where
  start: "lock_run s s"
| query: "lock_run s t \<Longrightarrow> GetNodeById (snd t) i \<noteq> None \<Longrightarrow> IsFusible i t = Inr (b, u) \<Longrightarrow> lock_run s u"
| reset: "lock_run s t \<Longrightarrow> lock_run s (LockReset t)"

lemma lock_run_keeps_books: "lock_run s t \<Longrightarrow> books s \<Longrightarrow> books t"
  by (induction rule: lock_run.induct) (auto intro: IsFusible_books LockReset_books(1))

lemma books_start:
  assumes "graph_ok g" and "visited g = {}" and "0 \<le> lk_devCube L" "lk_devCube L < 2 ^ 32"
    and "0 \<le> lk_devVec L" "lk_devVec L < 2 ^ 32" and "lk_skCube L = 0" "lk_depCube L = 0"
    and "lk_skVec L = 0" "lk_depVec L = 0" and "lk_range L = []" "lk_streams L = {}"
  shows "books (L, g)"
  using assms by (simp add: books_def cores_ok_def)

lemma IsFusible_ends:
  assumes "graph_ok g" and "waits_ok g" and "GetNodeById g i = Some n"
  shows "\<exists>b t. IsFusible i (L, g) = Inr (b, t)"
proof -
  let ?fuel = "Suc (length (sg_nodeIds g))"
  have search: "\<forall>j M. GetNodeById g j \<noteq> None \<longrightarrow> (\<exists>r. HasDeadlock ?fuel j (M, g) = Inr r)"
  proof (intro allI impI)
    fix j M assume j: "GetNodeById g j \<noteq> None"
    have "card (unseen g) \<le> card (set (sg_nodeIds g))"
      by (rule card_mono) (auto simp: unseen_def)
    also have "\<dots> \<le> length (sg_nodeIds g)" by (rule card_length)
    finally have pot: "potential j (M, g) \<le> ?fuel" by (simp add: potential_def)
    have "searchable j (M, g)" using j assms(1,2) by (simp add: searchable_def)
    from HasDeadlock_ends[unfolded ends_within_def, rule_format, OF this pot]
    show "\<exists>r. HasDeadlock ?fuel j (M, g) = Inr r" .
  qed
  have "\<exists>r. IsFusible i (L, g) = Inr r"
    unfolding IsFusible_def prod.case assms(3) derefR_simps bindR_simps
    by (rule if_ends) (auto intro!: bindR_ends[OF fusible_status_ends[OF search]] simp: Let_def
        simp del: split_paired_Ex split: prod.split)
  then show ?thesis by auto
qed

section \<open>Properties\<close>

text \<open>The operator fits the device beside the operators of the super kernel.\<close>

definition fits_beside :: "lock_state \<Rightarrow> sk_node \<Rightarrow> bool" where
  "fits_beside L n \<longleftrightarrow> uint (GetCubeNum n) + uint (lk_skCube L) \<le> lk_devCube L \<and>
     uint (GetVecNum n) + uint (lk_skVec L) \<le> lk_devVec L"

text \<open>
  C32 \<^bold>\<open>What a search that finds no deadlock has certified.\<close> Every node it newly marked has a closed
  predecessor: there is none, it is marked as well, it belongs to a super kernel sharing a stream,
  or it is a notify node whose first wait lies before the super kernel. And every newly marked
  node but the first is in order: an operator needs no more cores than the detector has set aside for
  the operators outside of the super kernel, and a wait waits for a notify node that is not behind the
  super kernel and is itself marked unless a stream orders it. If the cores set aside for both sides
  were within the device before the search, each of these operators fits the device beside the super
  kernel.
\<close>

theorem HasDeadlock_sound:
  assumes "HasDeadlock fuel cur s = Inr (False, t)" and "graph_typed (snd s)"
  shows "cur \<in> visited (snd t) \<and> visited (snd s) \<subseteq> visited (snd t) \<and>
    (\<forall>v\<in>visited (snd t) - visited (snd s). pre_closed t v \<and> (v = cur \<or> node_cert t v \<and>
      (\<forall>n. cores_ok (fst s) \<longrightarrow> GetNodeById (snd t) v = Some n \<longrightarrow> nd_nodeType n = NODE_KERNEL \<longrightarrow>
        fits_beside (fst s) n)))"
proof -
  have g: "graph_ok (snd s)" using assms(2) by (simp add: graph_typed_def)
  have "GetNodeById (snd s) cur \<noteq> None" using assms(1) by (cases fuel) (auto simp: HasDeadlock_Suc)
  then have st: "search_step s t" "cur \<in> visited (snd t)" using hd.step[OF assms(1) g] by blast+
  have "fits_beside (fst s) n"
    if "node_cert t v" "cores_ok (fst s)" "GetNodeById (snd t) v = Some n" "nd_nodeType n = NODE_KERNEL" for v n
  proof -
    have "GetCubeNum n \<le> lk_depCube (fst t)" "GetVecNum n \<le> lk_depVec (fst t)"
      using that(1,3,4) by (auto simp: node_cert_def)
    moreover have "cores_ok (fst t)" "same_sk (fst s) (fst t)" using st(1) that(2) by (simp_all add: search_step_def)
    ultimately show ?thesis by (auto simp: fits_beside_def cores_ok_def same_sk_def word_le_def)
  qed
  then show ?thesis using hd.cert[OF assms] st search_stepD(6) by (auto simp: new_certified_def)
qed

text \<open>
  C33 \<^bold>\<open>The detector always answers.\<close> On a graph whose notify nodes list waits that are in the graph,
  asking about a node of the graph never dereferences a null pointer, and the fuel of one more than
  the number of nodes is always enough for the search to end.
\<close>

theorem IsFusible_returns:
  assumes "graph_ok g" and "waits_ok g" and "GetNodeById g i = Some n"
  shows "\<exists>b t. IsFusible i (L, g) = Inr (b, t)"
  by (rule IsFusible_ends[OF assms])

text \<open>
  C34 \<^bold>\<open>The detector's books.\<close> Through any sequence of questions and resets the graph stays well formed,
  the super kernel and the operators before it never need more cores than the device has, the
  streams of the super kernel are those with a range, every marked node is listed, and a reset
  leaves no node marked.
\<close>

theorem lock_run_books:
  assumes "lock_run s t" and "books s"
  shows "books t \<and> visited (snd (LockReset t)) = {}"
  using lock_run_keeps_books[OF assms] LockReset_books(2) by blast

text \<open>
  \<^bold>\<open>An accepted node.\<close> A node that is accepted is marked and lies in the range of its stream,
  and an accepted operator fits the device together with the operators before the super kernel.
\<close>

theorem IsFusible_accepts:
  assumes "books s" and "IsFusible i s = Inr (True, t)" and "GetNodeById (snd s) i = Some n"
    and "\<not> nd_isVisited n"
  shows "i \<in> visited (snd t) \<and> IsInSKStream (fst t) n \<and> \<not> IsBeforeSKRange (fst t) n \<and>
    \<not> IsAfterSKRange (fst t) n \<and>
    (nd_nodeType n = NODE_KERNEL \<longrightarrow>
       uint (GetCubeNum n) + uint (lk_depCube (fst t)) \<le> lk_devCube (fst t) \<and>
       uint (GetVecNum n) + uint (lk_depVec (fst t)) \<le> lk_devVec (fst t))"
  using assms(2,1,3)
proof (cases rule: IsFusible_cases)
  case (tested L g)
  have "graph_ok (snd s)" "cores_ok (fst s)" using assms(1) by (simp_all add: books_def)
  then have pre: "graph_ok (snd (fail_with NOT_FIND_DEADLOCK (fst s), snd s))"
    "cores_ok (fst (fail_with NOT_FIND_DEADLOCK (fst s), snd s))"
    by (simp_all add: cores_ok_def fail_with_def)
  note st = fusible_status_step[OF tested(2) pre]
  have "i \<in> visited (set_visited True i g)"
    using same_but_visitedD[OF st(1)] assms(3) by (fastforce simp: visited_set_visited)
  moreover have "nd_nodeType n = NODE_KERNEL \<Longrightarrow>
      uint (GetCubeNum n) + uint (lk_depCube L) \<le> lk_devCube L \<and>
      uint (GetVecNum n) + uint (lk_depVec L) \<le> lk_devVec L"
    using st(2) st(7) by (auto simp: cores_ok_def word_le_def)
  ultimately show ?thesis using tested(3)
    by (auto simp: Let_def IsInSKStream_def IsBeforeSKRange_def IsAfterSKRange_def split: option.split)
qed (use assms(4) in simp)


section \<open>The properties at concrete inputs\<close>

text \<open>
  An operator of the super kernel, and after it a wait for a notify node of another stream that
  has an operator before it.
\<close>

definition sample_on :: "u32 \<Rightarrow> u64 \<Rightarrow> sk_node \<Rightarrow> sk_node" where
  "sample_on s i n = n\<lparr> nd_streamIdxInGraph := s, nd_nodeIdxInStream := i \<rparr>"

definition sample_cores :: "u32 \<Rightarrow> sk_node \<Rightarrow> sk_node" where
  "sample_cores c n = n\<lparr> nd_kernelInfos := (nd_kernelInfos n)\<lparr> ki_cubeNum := c \<rparr> \<rparr>"

definition sample_wait :: "sk_graph" where
  "sample_wait = sample_graph
     [sample_on 0 0 (sample_cores 4 (sample_node KernelNode NODE_KERNEL INVALID_TASK_ID 1 2)),
      sample_on 0 1 (SetCorrespondingWaitNodeIds [4] (sample_node MemoryNode NODE_NOTIFY 1 2 INVALID_TASK_ID)),
      sample_on 1 0 (sample_cores 6 (sample_node KernelNode NODE_KERNEL INVALID_TASK_ID 3 4)),
      sample_on 1 1 (SetCorrespondingNotifyNodeId 2 (sample_node MemoryNode NODE_WAIT 3 4 INVALID_TASK_ID))]"

definition sample_lock :: lock_state where
  "sample_lock = LockInit 24 48 (0, 0) None"

lemmas sample_wait_defs = sample_wait_def sample_graph_def sample_on_def sample_cores_def sample_node_def
  SetCorrespondingWaitNodeIds_def SetCorrespondingNotifyNodeId_def new_node_def default_sync_infos_def

lemma sample_wait_ok: "graph_ok sample_wait" "visited sample_wait = {}"
  by (auto simp: graph_ok_def visited_def GetNodeById_def sample_wait_defs split: if_splits)

lemma sample_wait_links: "waits_ok sample_wait" "graph_typed sample_wait"
  using sample_wait_ok(1)
  by (auto simp: waits_ok_def graph_typed_def GetNodeById_def GetCorrespondingWaitNodeIds_def
      GetCorrespondingNotifyNodeId_def sample_wait_defs split: if_splits)

lemma sample_lock_books: "books (sample_lock, sample_wait)"
  by (rule books_start[OF sample_wait_ok])
    (simp_all add: sample_lock_def LockInit_def GetDeviceCores_def GetDeviceCoreNums_def Let_def)

lemma HasDeadlock_sound_witness:
  "\<exists>t. HasDeadlock 3 2 (sample_lock, sample_wait) = Inr (False, t) \<and> 2 \<in> visited (snd t) \<and>
     (\<forall>v\<in>visited (snd t) - visited sample_wait. pre_closed t v \<and> (v = 2 \<or> node_cert t v \<and>
       (\<forall>n. GetNodeById (snd t) v = Some n \<longrightarrow> nd_nodeType n = NODE_KERNEL \<longrightarrow> fits_beside sample_lock n)))"
proof -
  have "case HasDeadlock 3 2 (sample_lock, sample_wait) of Inr (b, t) \<Rightarrow> \<not> b | Inl e \<Rightarrow> False" by code_simp
  then obtain t where t: "HasDeadlock 3 2 (sample_lock, sample_wait) = Inr (False, t)"
    by (auto split: sum.splits)
  have "cores_ok sample_lock" using sample_lock_books by (simp add: books_def)
  with HasDeadlock_sound[OF t] sample_wait_links(2) t show ?thesis by auto
qed

lemma IsFusible_returns_witness: "\<exists>b t. IsFusible 4 (sample_lock, sample_wait) = Inr (b, t)"
  by (rule IsFusible_returns[OF sample_wait_ok(1) sample_wait_links(1)])
    (simp add: GetNodeById_def sample_wait_defs)

lemma sample_wait_run:
  "\<exists>t u. IsFusible 3 (sample_lock, sample_wait) = Inr (True, t) \<and> IsFusible 4 t = Inr (True, u)"
proof -
  have "case bindR (IsFusible 3 (sample_lock, sample_wait)) (\<lambda>(b, t). bindR (IsFusible 4 t)
      (\<lambda>(c, u). Inr (b \<and> c))) of Inr b \<Rightarrow> b | Inl e \<Rightarrow> False" by code_simp
  then show ?thesis by (auto simp: bindR_def split: sum.splits)
qed

lemma lock_run_books_witness:
  "\<exists>u. lock_run (sample_lock, sample_wait) u \<and> books u \<and> visited (snd (LockReset u)) = {}"
proof -
  from sample_wait_run obtain t u where tu: "IsFusible 3 (sample_lock, sample_wait) = Inr (True, t)"
    "IsFusible 4 t = Inr (True, u)" by blast
  have "GetNodeById sample_wait 3 \<noteq> None" by (simp add: GetNodeById_def sample_wait_defs)
  from lock_run.query[OF lock_run.start _ tu(1)] this
  have t: "lock_run (sample_lock, sample_wait) t" by simp
  have "GetNodeById (snd t) 4 \<noteq> None" using tu(2) by (cases t) (auto simp: IsFusible_def)
  from lock_run.query[OF t this tu(2)] lock_run_books[OF _ sample_lock_books] show ?thesis by blast
qed

lemma IsFusible_accepts_witness:
  "\<exists>t n. IsFusible 3 (sample_lock, sample_wait) = Inr (True, t) \<and> GetNodeById sample_wait 3 = Some n \<and>
     uint (GetCubeNum n) + uint (lk_depCube (fst t)) \<le> lk_devCube (fst t)"
proof -
  from sample_wait_run obtain t where t: "IsFusible 3 (sample_lock, sample_wait) = Inr (True, t)" by blast
  obtain n where n: "GetNodeById (snd (sample_lock, sample_wait)) 3 = Some n" "\<not> nd_isVisited n"
    "nd_nodeType n = NODE_KERNEL" by (simp add: GetNodeById_def sample_wait_defs)
  from IsFusible_accepts[OF sample_lock_books t n(1,2)] n t show ?thesis by auto
qed

end
