(* ===== verification/Sk_Initial_Skip.thy ===== *)
theory Sk_Initial_Skip
  imports Sk_Initial_Split Sk_Lock_Detector
begin

text \<open>
  The facts about single streams that the proofs about the initial split share, and the walk over
  nodes that cannot be fused: it always ends, leaves every stream at a node that can be fused,
  suspended or at its end, and never moves a stream back.
\<close>

section \<open>Streams and what lies ahead of them\<close>

definition walkable :: "sk_graph \<Rightarrow> bool" where
  "walkable g \<longleftrightarrow> graph_ok g \<and> streams_linked g \<and> GetNodeById g INVALID_TASK_ID = None \<and> waits_ok g"

definition keys :: "split_state \<Rightarrow> u32 list" where
  "keys st = map fst (sp_streams st)"

definition cur :: "split_state \<Rightarrow> u32 \<Rightarrow> node_id" where
  "cur st s = st_currentNodeId (stream_at st s)"

definition susp :: "split_state \<Rightarrow> u32 set" where
  "susp st = {s \<in> set (keys st). st_isSuspended (stream_at st s)}"

definition covers :: "sk_graph \<Rightarrow> split_state \<Rightarrow> bool" where
  "covers g st \<longleftrightarrow> (\<forall>i n. GetNodeById g i = Some n \<longrightarrow> nd_streamIdxInGraph n \<in> set (keys st))"

text \<open>Every stream stands at one of its own nodes or at its end.\<close>

definition stream_ok :: "sk_graph \<Rightarrow> split_state \<Rightarrow> bool" where
  "stream_ok g st \<longleftrightarrow> (\<forall>s. cur st s \<noteq> INVALID_TASK_ID \<longrightarrow>
     (\<exists>n. GetNodeById g (cur st s) = Some n \<and> nd_streamIdxInGraph n = s))"

definition ahead :: "sk_graph \<Rightarrow> split_state \<Rightarrow> node_id set" where
  "ahead g st = {i. \<exists>n. GetNodeById g i = Some n \<and> cur st (nd_streamIdxInGraph n) \<noteq> INVALID_TASK_ID \<and>
     pos g (cur st (nd_streamIdxInGraph n)) \<le> pos g i}"

definition unfusible :: "sk_graph \<Rightarrow> node_id set" where
  "unfusible g = {i. \<forall>n. GetNodeById g i = Some n \<longrightarrow> \<not> nd_isFusible n}"

definition settled :: "sk_graph \<Rightarrow> split_state \<Rightarrow> u32 \<Rightarrow> bool" where
  "settled g st s \<longleftrightarrow> cur st s = INVALID_TASK_ID \<or> st_isSuspended (stream_at st s) \<or>
     cur st s \<notin> unfusible g"

definition advance :: "u32 \<Rightarrow> node_id \<Rightarrow> split_state \<Rightarrow> split_state" where
  "advance s j = upd_stream s (\<lambda>x. x\<lparr> st_currentNodeId := j \<rparr>)"

lemma stream_at_upd [simp]:
  "stream_at (upd_stream s f st) s' = (if s' = s then f (stream_at st s) else stream_at st s')"
  by (simp add: stream_at_def upd_stream_def update_conv')

lemma upd_stream_other [simp]:
  "sp_visitedNotifies (upd_stream s f st) = sp_visitedNotifies st"
  "sp_processed (upd_stream s f st) = sp_processed st"
  "sp_heap (upd_stream s f st) = sp_heap st" "sp_flags (upd_stream s f st) = sp_flags st"
  "sp_scope (upd_stream s f st) = sp_scope st"
  by (simp_all add: upd_stream_def)

lemma keys_upd [simp]: "s \<in> set (keys st) \<Longrightarrow> keys (upd_stream s f st) = keys st"
  by (auto simp: keys_def upd_stream_def update_keys)

lemma stream_at_cong: "sp_streams t = sp_streams st \<Longrightarrow> stream_at t s = stream_at st s"
  by (simp add: stream_at_def)

lemma streams_cong:
  assumes "sp_streams t = sp_streams st"
  shows "keys t = keys st" "cur t = cur st" "susp t = susp st" "covers g t = covers g st"
    "stream_ok g t = stream_ok g st" "ahead g t = ahead g st" "settled g t s = settled g st s"
  using stream_at_cong[OF assms]
  by (simp_all add: keys_def cur_def[abs_def] susp_def covers_def stream_ok_def ahead_def settled_def assms)

lemma cur_upd:
  "cur (upd_stream s f st) s' = (if s' = s then st_currentNodeId (f (stream_at st s)) else cur st s')"
  by (simp add: cur_def)

lemma finite_ahead: "graph_ok g \<Longrightarrow> finite (ahead g st)"
  by (rule finite_subset[of _ "set (sg_nodeIds g)"])
    (use graph_ok_ids in \<open>fastforce simp: ahead_def\<close>)+

lemma card_ahead: "graph_ok g \<Longrightarrow> card (ahead g st) \<le> length (sg_nodeIds g)"
proof -
  assume g: "graph_ok g"
  have "card (ahead g st) \<le> card (set (sg_nodeIds g))"
    by (rule card_mono) (use graph_ok_ids[OF g] in \<open>fastforce simp: ahead_def\<close>)+
  also have "\<dots> \<le> length (sg_nodeIds g)" by (rule card_length)
  finally show ?thesis .
qed

lemma finite_susp [simp]: "finite (susp st)"
  by (simp add: susp_def)

lemma card_susp: "card (susp st) \<le> length (sp_streams st)"
proof -
  have "card (susp st) \<le> card (set (keys st))" by (rule card_mono) (auto simp: susp_def)
  also have "\<dots> \<le> length (keys st)" by (rule card_length)
  finally show ?thesis by (simp add: keys_def)
qed

text \<open>An update that leaves the current node alone, and one that moves on by one node.\<close>

lemma upd_same_cur:
  assumes "\<And>x. st_currentNodeId (f x) = st_currentNodeId x"
  shows "cur (upd_stream s f st) = cur st" "stream_ok g (upd_stream s f st) = stream_ok g st"
    "ahead g (upd_stream s f st) = ahead g st"
proof -
  show "cur (upd_stream s f st) = cur st" by (auto simp: fun_eq_iff cur_upd cur_def assms)
  then show "stream_ok g (upd_stream s f st) = stream_ok g st"
    "ahead g (upd_stream s f st) = ahead g st"
    by (simp_all add: stream_ok_def ahead_def)
qed

lemma cur_ahead:
  assumes "stream_ok g st" and "cur st s \<noteq> INVALID_TASK_ID"
  shows "cur st s \<in> ahead g st"
  using assms by (fastforce simp: stream_ok_def ahead_def)

lemma advance_ok:
  assumes w: "walkable g" and ok: "stream_ok g st" and c: "GetNodeById g (cur st s) = Some n"
  shows "stream_ok g (advance s (nd_nextNodeId n) st)"
    and "ahead g (advance s (nd_nextNodeId n) st) \<subseteq> ahead g st - {cur st s}"
proof -
  let ?t = "advance s (nd_nextNodeId n) st"
  have cur: "cur ?t s' = (if s' = s then nd_nextNodeId n else cur st s')" for s'
    by (simp add: advance_def cur_upd)
  have ne: "cur st s \<noteq> INVALID_TASK_ID" using w c by (auto simp: walkable_def)
  have s: "nd_streamIdxInGraph n = s" using ok c ne by (fastforce simp: stream_ok_def)
  have linked: "node_linked g (cur st s) n" using w c by (simp add: walkable_def streams_linked_def)
  show "stream_ok g ?t"
    unfolding stream_ok_def
  proof (intro allI impI)
    fix s' assume "cur ?t s' \<noteq> INVALID_TASK_ID"
    then show "\<exists>n. GetNodeById g (cur ?t s') = Some n \<and> nd_streamIdxInGraph n = s'"
      using ok linked s cur[of s'] by (fastforce simp: stream_ok_def node_linked_def split: if_splits)
  qed
  have next_pos: "pos g (nd_nextNodeId n) = Suc (pos g (cur st s))" if "nd_nextNodeId n \<noteq> INVALID_TASK_ID"
    using linked that c by (auto simp: node_linked_def pos_def)
  show "ahead g ?t \<subseteq> ahead g st - {cur st s}"
  proof
    fix i assume "i \<in> ahead g ?t"
    then obtain m where m: "GetNodeById g i = Some m" "cur ?t (nd_streamIdxInGraph m) \<noteq> INVALID_TASK_ID"
      "pos g (cur ?t (nd_streamIdxInGraph m)) \<le> pos g i" by (auto simp: ahead_def)
    show "i \<in> ahead g st - {cur st s}"
    proof (cases "nd_streamIdxInGraph m = s")
      case True
      then have "pos g (cur st s) < pos g i" using m(2,3) cur[of s] next_pos by simp
      then show ?thesis using True m(1) ne by (auto simp: ahead_def)
    next
      case False
      then have "i \<noteq> cur st s" using m(1) c s by auto
      then show ?thesis using False m cur by (auto simp: ahead_def)
    qed
  qed
qed


section \<open>What a walk over unfusible nodes changes\<close>

text \<open>
  Only the streams in \<open>X\<close> and suspended ones move, and only forward; what is newly processed or
  visited cannot be fused and lies behind.
\<close>

definition skip_rel :: "sk_graph \<Rightarrow> u32 set \<Rightarrow> split_state \<Rightarrow> split_state \<Rightarrow> bool" where
  "skip_rel g X st t \<longleftrightarrow> stream_ok g t \<and> ahead g t \<subseteq> ahead g st \<and> keys t = keys st \<and>
     susp t \<subseteq> X \<union> susp st \<and> (\<forall>s. s \<notin> X \<union> susp st \<longrightarrow> stream_at t s = stream_at st s) \<and>
     (\<forall>s. s \<notin> X \<longrightarrow> settled g st s \<longrightarrow> settled g t s) \<and>
     sp_heap t = sp_heap st \<and> sp_flags t = sp_flags st \<and> sp_scope t = sp_scope st \<and>
     sp_processed st \<subseteq> sp_processed t \<and> sp_visitedNotifies st \<subseteq> sp_visitedNotifies t \<and>
     sp_processed t - sp_processed st \<subseteq> - ahead g t \<and>
     sp_visitedNotifies t - sp_visitedNotifies st \<subseteq> unfusible g"

lemma skip_rel_refl: "stream_ok g st \<Longrightarrow> skip_rel g X st st"
  by (auto simp: skip_rel_def)

lemma skip_relD:
  assumes "skip_rel g X st t"
  shows "stream_ok g t" "ahead g t \<subseteq> ahead g st" "keys t = keys st" "susp t \<subseteq> X \<union> susp st"
    "\<And>s. s \<notin> X \<Longrightarrow> s \<notin> susp st \<Longrightarrow> stream_at t s = stream_at st s"
    "\<And>s. s \<notin> X \<Longrightarrow> settled g st s \<Longrightarrow> settled g t s"
    "sp_heap t = sp_heap st" "sp_flags t = sp_flags st" "sp_scope t = sp_scope st"
    "sp_processed st \<subseteq> sp_processed t" "sp_visitedNotifies st \<subseteq> sp_visitedNotifies t"
    "sp_processed t - sp_processed st \<subseteq> - ahead g t"
    "sp_visitedNotifies t - sp_visitedNotifies st \<subseteq> unfusible g"
  using assms unfolding skip_rel_def by blast+

lemma skip_rel_trans:
  assumes "skip_rel g X st t" and "skip_rel g Y t u"
  shows "skip_rel g (X \<union> Y) st u"
proof -
  note st = skip_relD[OF assms(1)] and tu = skip_relD[OF assms(2)]
  have "stream_at u s = stream_at st s" if s: "s \<notin> (X \<union> Y) \<union> susp st" for s
    using st(4) st(5)[of s] tu(5)[of s] s by auto
  moreover have "settled g u s" if "s \<notin> X \<union> Y" "settled g st s" for s
    using st(6)[of s] tu(6)[of s] that by blast
  moreover have "sp_processed u - sp_processed st \<subseteq> - ahead g u"
    using st(12) tu(2,12) by blast
  moreover have "susp u \<subseteq> (X \<union> Y) \<union> susp st" using st(4) tu(4) by blast
  moreover have "sp_visitedNotifies u - sp_visitedNotifies st \<subseteq> unfusible g"
    using st(13) tu(13) by blast
  moreover have "ahead g u \<subseteq> ahead g st" using st(2) tu(2) by blast
  moreover have "sp_processed st \<subseteq> sp_processed u" "sp_visitedNotifies st \<subseteq> sp_visitedNotifies u"
    using st(10,11) tu(10,11) by blast+
  ultimately show ?thesis
    unfolding skip_rel_def using st(3,7-9) tu(1,3,7-9) by presburger
qed

lemma skip_rel_keeps:
  assumes "skip_rel g X st t"
  shows "stream_ok g t" "keys t = keys st" "covers g t = covers g st"
    "walkable g \<Longrightarrow> card (ahead g t) \<le> card (ahead g st)"
  using assms finite_ahead[of g st] by (auto simp: skip_rel_def covers_def walkable_def intro: card_mono)

lemma suspended_settled: "s \<in> susp st \<Longrightarrow> settled g st s"
  by (simp add: susp_def settled_def)

text \<open>Resuming a suspended stream and walking it.\<close>

definition resume :: "u32 \<Rightarrow> split_state \<Rightarrow> split_state" where
  "resume s = upd_stream s (\<lambda>x. x\<lparr> st_isSuspended := False, st_waitingForNotify := INVALID_TASK_ID \<rparr>)"

lemma resume_simps:
  assumes "s \<in> set (keys st)"
  shows "keys (resume s st) = keys st" "cur (resume s st) = cur st" "susp (resume s st) = susp st - {s}"
    "stream_ok g (resume s st) = stream_ok g st" "ahead g (resume s st) = ahead g st"
    "covers g (resume s st) = covers g st"
  using assms by (auto simp: resume_def upd_same_cur susp_def covers_def)

lemma resume_skip:
  assumes "s \<in> susp st" and "skip_rel g {s} (resume s st) t" and "settled g t s"
  shows "skip_rel g {} st t"
proof -
  have s: "s \<in> set (keys st)" using assms(1) by (simp add: susp_def)
  have "settled g (resume s st) s' = settled g st s'" if "s' \<noteq> s" for s'
    using that by (simp add: settled_def resume_def cur_upd)
  moreover have "stream_at (resume s st) s' = stream_at st s'" if "s' \<noteq> s" for s'
    using that by (simp add: resume_def)
  moreover note rel = skip_relD[OF assms(2)]
  ultimately have "\<forall>s'. s' \<notin> {} \<union> susp st \<longrightarrow> stream_at t s' = stream_at st s'"
    "\<forall>s'. s' \<notin> {} \<longrightarrow> settled g st s' \<longrightarrow> settled g t s'"
    using assms(1,3) resume_simps(3)[OF s] by (metis DiffD1 Un_iff singletonD empty_iff)+
  moreover have "susp t \<subseteq> {} \<union> susp st" using rel(4) assms(1) resume_simps(3)[OF s] by auto
  ultimately show ?thesis
    using rel(1-3,7-13) resume_simps(1,2)[OF s] resume_simps(5)[OF s, of g] unfolding skip_rel_def
    by (simp add: resume_def)
qed

text \<open>One node passed: it is marked, its waits are resumed, and the stream moves on.\<close>

lemma skip_one:
  assumes w: "walkable g" and ok: "stream_ok g st" and n: "GetNodeById g (cur st s) = Some n"
    and s: "s \<in> set (keys st)" "s \<notin> susp st" and unf: "cur st s \<in> unfusible g"
    and streams: "sp_streams st1 = sp_streams st"
    and same: "sp_heap st1 = sp_heap st" "sp_flags st1 = sp_flags st" "sp_scope st1 = sp_scope st"
    and proc: "sp_processed st \<subseteq> sp_processed st1" "sp_processed st1 \<subseteq> insert (cur st s) (sp_processed st)"
    and vis: "sp_visitedNotifies st \<subseteq> sp_visitedNotifies st1"
      "sp_visitedNotifies st1 \<subseteq> insert (cur st s) (sp_visitedNotifies st)"
    and rel: "skip_rel g {} st1 t"
  shows "skip_rel g {s} st (advance s (nd_nextNodeId n) t)"
    and "card (ahead g (advance s (nd_nextNodeId n) t)) < card (ahead g st)"
    and "s \<notin> susp (advance s (nd_nextNodeId n) t)"
    and "susp (advance s (nd_nextNodeId n) t) \<subseteq> susp st"
proof -
  note eq = streams_cong[OF streams] and r = skip_relD[OF rel]
  let ?u = "advance s (nd_nextNodeId n) t"
  have at: "stream_at t s = stream_at st s"
    using r(5)[of s] s(2) eq(3) stream_at_cong[OF streams] by simp
  then have cur: "cur t s = cur st s" by (simp add: cur_def)
  have kt: "keys t = keys st" using skip_rel_keeps(2)[OF rel] eq by simp
  have okt: "stream_ok g t" by (rule skip_rel_keeps(1)[OF rel])
  have adv: "stream_ok g ?u" "ahead g ?u \<subseteq> ahead g t - {cur st s}"
    using advance_ok[OF w okt, of s n] n unfolding cur by simp_all
  have susp: "susp ?u = susp t"
    using s(1) kt by (auto simp: susp_def advance_def)
  have st: "susp t \<subseteq> susp st" "ahead g t \<subseteq> ahead g st" using r(2,4) eq(3) eq(6)[of g] by simp_all
  have ne: "cur st s \<noteq> INVALID_TASK_ID" using w n by (auto simp: walkable_def)
  have "cur st s \<in> ahead g st" by (rule cur_ahead[OF ok ne])
  then have "ahead g ?u \<subset> ahead g st" using adv st by blast
  then show "card (ahead g ?u) < card (ahead g st)"
    using finite_ahead w by (intro psubset_card_mono) (auto simp: walkable_def)
  show "s \<notin> susp ?u" "susp ?u \<subseteq> susp st" using susp st s(2) by auto
  have "\<forall>s'. s' \<notin> {s} \<longrightarrow> settled g st s' \<longrightarrow> settled g ?u s'"
  proof (intro allI impI)
    fix s' assume s': "s' \<notin> {s}" "settled g st s'"
    then have "settled g t s'" using r(6)[of s'] eq(7)[of g s'] by simp
    then show "settled g ?u s'" using s' by (simp add: settled_def advance_def cur_upd)
  qed
  moreover have "\<forall>s'. s' \<notin> {s} \<union> susp st \<longrightarrow> stream_at ?u s' = stream_at st s'"
    using r(5) eq(3) stream_at_cong[OF streams] by (simp add: advance_def)
  moreover have "sp_processed t - sp_processed st \<subseteq> - ahead g ?u"
    using r(12) adv(2) proc by blast
  moreover have "sp_visitedNotifies t - sp_visitedNotifies st \<subseteq> unfusible g"
    using r(13) vis unf by blast
  moreover have "keys ?u = keys st" using kt s(1) by (simp add: advance_def)
  moreover have "sp_processed st \<subseteq> sp_processed t" "sp_visitedNotifies st \<subseteq> sp_visitedNotifies t"
    using r(10,11) proc vis by blast+
  moreover have "sp_processed ?u = sp_processed t" "sp_visitedNotifies ?u = sp_visitedNotifies t"
    "sp_heap ?u = sp_heap st" "sp_flags ?u = sp_flags st" "sp_scope ?u = sp_scope st"
    using r(7-9) same by (simp_all add: advance_def)
  moreover have "susp ?u \<subseteq> {s} \<union> susp st" "ahead g ?u \<subseteq> ahead g st" using susp st adv by auto
  ultimately show "skip_rel g {s} st ?u"
    unfolding skip_rel_def using adv(1) by simp
qed


section \<open>The walk ends and settles its stream\<close>

definition skips_within :: "nat \<Rightarrow> sk_graph \<Rightarrow> skip \<Rightarrow> bool" where
  "skips_within fuel g skip \<longleftrightarrow> (\<forall>s st. covers g st \<longrightarrow> stream_ok g st \<longrightarrow> s \<in> set (keys st) \<longrightarrow>
     s \<notin> susp st \<longrightarrow> card (ahead g st) + card (susp st) < fuel \<longrightarrow>
     (\<exists>t. skip s st = Inr (True, t) \<and> skip_rel g {s} st t \<and> settled g t s))"

lemma skips_withinD:
  assumes "skips_within fuel g skip" and "covers g st" and "stream_ok g st" and "s \<in> set (keys st)"
    and "s \<notin> susp st" and "card (ahead g st) + card (susp st) < fuel"
  obtains t where "skip s st = Inr (True, t)" and "skip_rel g {s} st t" and "settled g t s"
  using assms unfolding skips_within_def by blast

lemma resume_all:
  assumes skip: "skips_within fuel g skip" and w: "walkable g"
    and "\<forall>w\<in>set ws. GetNodeById g w \<noteq> None" and "covers g st" and "stream_ok g st"
    and "card (ahead g st) + card (susp st) \<le> fuel"
  shows "\<exists>t. ResumeSuspendedWaitStreams skip g e ws st = Inr (True, t) \<and> skip_rel g {} st t"
  using assms(3-6)
proof (induction ws arbitrary: st)
  case Nil
  then show ?case using skip_rel_refl by simp
next
  case (Cons w ws)
  then obtain wn where wn: "GetNodeById g w = Some wn" by auto
  let ?s = "nd_streamIdxInGraph wn"
  show ?case
  proof (cases "st_isSuspended (stream_at st ?s) \<and> st_waitingForNotify (stream_at st ?s) = e")
    case False
    then show ?thesis using Cons wn by (auto simp: Let_def)
  next
    case True
    have key: "?s \<in> set (keys st)" using Cons.prems(2) wn unfolding covers_def by blast
    then have s: "?s \<in> susp st" using True by (simp add: susp_def)
    note r = resume_simps[OF key]
    have "card (susp (resume ?s st)) < card (susp st)"
      unfolding r(3) by (rule card_Diff1_less[OF finite_susp s])
    then have "card (ahead g (resume ?s st)) + card (susp (resume ?s st)) < fuel"
      using Cons.prems(4) r(5) by simp
    then obtain t where t: "skip ?s (resume ?s st) = Inr (True, t)" "skip_rel g {?s} (resume ?s st) t"
      "settled g t ?s"
      using skips_withinD[OF skip, of "resume ?s st" ?s] Cons.prems(2,3) r key by auto
    have st: "skip_rel g {} st t" by (rule resume_skip[OF s t(2,3)])
    note k = skip_rel_keeps[OF st]
    have "card (susp t) \<le> card (susp st)" using skip_relD(4)[OF st] by (simp add: card_mono)
    then obtain u where "ResumeSuspendedWaitStreams skip g e ws t = Inr (True, u)" "skip_rel g {} t u"
      using Cons.IH[of t] Cons.prems k w by auto
    then show ?thesis using wn True t(1) skip_rel_trans[OF st] by (auto simp: resume_def Let_def)
  qed
qed

lemma unfusibleI: "GetNodeById g i = Some n \<Longrightarrow> \<not> nd_isFusible n \<Longrightarrow> i \<in> unfusible g"
  by (simp add: unfusible_def)

lemma skip_step:
  assumes IH: "skips_within fuel g (skip_stream fuel g)" and w: "walkable g"
    and "covers g st" "stream_ok g st" "s \<in> set (keys st)" "s \<notin> susp st"
    and fuel: "card (ahead g st) + card (susp st) \<le> fuel"
    and n: "GetNodeById g (cur st s) = Some n" and unf: "\<not> nd_isFusible n"
  shows "(\<exists>t. ProcessUnfusibleNodeForSkip (skip_stream fuel g) g s n st = Inr (False, t) \<and>
      nd_nodeType n = NODE_WAIT \<and> skip_rel g {s} st t \<and> settled g t s) \<or>
    (\<exists>t. ProcessUnfusibleNodeForSkip (skip_stream fuel g) g s n st = Inr (True, t) \<and>
      skip_rel g {s} st (advance s (nd_nextNodeId n) t) \<and>
      card (ahead g (advance s (nd_nextNodeId n) t)) < card (ahead g st) \<and>
      s \<notin> susp (advance s (nd_nextNodeId n) t) \<and> susp (advance s (nd_nextNodeId n) t) \<subseteq> susp st)"
proof -
  have id: "nd_nodeId n = cur st s" using w n by (auto simp: walkable_def graph_ok_def GetNodeById_def)
  have u: "cur st s \<in> unfusible g" by (rule unfusibleI[OF n unf])
  let ?p = "st\<lparr> sp_processed := insert (cur st s) (sp_processed st) \<rparr>"
  let ?v = "st\<lparr> sp_visitedNotifies := insert (cur st s) (sp_visitedNotifies st),
    sp_processed := insert (cur st s) (sp_processed st) \<rparr>"
  have refl: "skip_rel g {} st st" "skip_rel g {} ?p ?p"
    using assms(4) streams_cong(5)[of ?p st g] by (auto intro: skip_rel_refl)
  note one = skip_one[OF w assms(4) n assms(5,6) u]
  show ?thesis
  proof (cases "nd_nodeType n = NODE_WAIT")
    case True
    let ?e = "\<lambda>nn. upd_stream s (\<lambda>x. x\<lparr> st_isSuspended := True, st_waitingForNotify := GetEventId nn \<rparr>) st"
    have e: "skip_rel g {s} st (?e nn) \<and> settled g (?e nn) s" for nn
      using assms(4,5) by (auto simp: skip_rel_def upd_same_cur susp_def settled_def cur_upd)
    have "ProcessUnfusibleWaitNode g s n st \<in> {(True, st), (True, ?p)} \<or>
        (\<exists>nn. ProcessUnfusibleWaitNode g s n st = (False, ?e nn))"
      by (auto simp: ProcessUnfusibleWaitNode_def Let_def id split: option.split)
    then consider "ProcessUnfusibleWaitNode g s n st = (True, st)"
      | "ProcessUnfusibleWaitNode g s n st = (True, ?p)"
      | nn where "ProcessUnfusibleWaitNode g s n st = (False, ?e nn)" by auto
    then show ?thesis
    proof cases
      case 1
      then show ?thesis using one[of st st] refl(1) True by (auto simp: ProcessUnfusibleNodeForSkip_def)
    next
      case 2
      then show ?thesis using one[of ?p ?p] refl(2) True by (auto simp: ProcessUnfusibleNodeForSkip_def)
    next
      case 3
      then show ?thesis using e True by (auto simp: ProcessUnfusibleNodeForSkip_def)
    qed
  next
    case False
    show ?thesis
    proof (cases "nd_nodeType n = NODE_NOTIFY")
      case True
      have "\<forall>w\<in>set (GetCorrespondingWaitNodeIds n). GetNodeById g w \<noteq> None"
        using w n True unfolding walkable_def waits_ok_def by blast
      moreover have v: "sp_streams ?v = sp_streams st" by simp
      ultimately obtain t where
        "ResumeSuspendedWaitStreams (skip_stream fuel g) g (GetEventId n) (GetCorrespondingWaitNodeIds n) ?v =
          Inr (True, t)" "skip_rel g {} ?v t"
        using resume_all[OF IH w, of "GetCorrespondingWaitNodeIds n" ?v "GetEventId n"] assms(3,4) fuel
          streams_cong(3)[OF v] streams_cong(4-6)[OF v, of g] by auto
      then show ?thesis using one[of ?v t] True
        by (auto simp: ProcessUnfusibleNodeForSkip_def HandleUnfusibleNotifyNode_def id)
    next
      case other: False
      then show ?thesis using one[of ?p ?p] refl(2) False id by (auto simp: ProcessUnfusibleNodeForSkip_def)
    qed
  qed
qed

lemma skip_stream_settles:
  assumes w: "walkable g"
  shows "skips_within fuel g (skip_stream fuel g)"
proof (induction fuel)
  case 0
  show ?case by (simp add: skips_within_def)
next
  case (Suc fuel)
  show ?case
    unfolding skips_within_def
  proof (intro allI impI)
    fix s st
    assume st: "covers g st" "stream_ok g st" "s \<in> set (keys st)" "s \<notin> susp st"
      and fuel: "card (ahead g st) + card (susp st) < Suc fuel"
    have refl: "skip_rel g {s} st st" by (rule skip_rel_refl[OF st(2)])
    let ?c = "cur st s"
    show "\<exists>t. skip_stream (Suc fuel) g s st = Inr (True, t) \<and> skip_rel g {s} st t \<and> settled g t s"
    proof (cases "?c = INVALID_TASK_ID")
      case True
      then show ?thesis using refl by (simp add: cur_def settled_def)
    next
      case c: False
      then obtain n where n: "GetNodeById g ?c = Some n" using st(2) unfolding stream_ok_def by blast
      show ?thesis
      proof (cases "nd_isFusible n")
        case True
        then have "settled g st s" using n by (auto simp: settled_def unfusible_def)
        then show ?thesis using refl True n c by (simp add: cur_def Let_def)
      next
        case False
        have step: "skip_stream (Suc fuel) g s st =
            bindR (ProcessUnfusibleNodeForSkip (skip_stream fuel g) g s n st) (\<lambda>(go, st1).
              if \<not> go then Inr (nd_nodeType n = NODE_WAIT, st1)
              else skip_stream fuel g s (advance s (nd_nextNodeId n) st1))"
          using n c False unfolding advance_def by (simp add: cur_def Let_def)
        from skip_step[OF Suc.IH w st _ n False] fuel
        consider (stop) t where "ProcessUnfusibleNodeForSkip (skip_stream fuel g) g s n st = Inr (False, t)"
            "nd_nodeType n = NODE_WAIT" "skip_rel g {s} st t" "settled g t s"
          | (go) t where "ProcessUnfusibleNodeForSkip (skip_stream fuel g) g s n st = Inr (True, t)"
            "skip_rel g {s} st (advance s (nd_nextNodeId n) t)"
            "card (ahead g (advance s (nd_nextNodeId n) t)) < card (ahead g st)"
            "s \<notin> susp (advance s (nd_nextNodeId n) t)" "susp (advance s (nd_nextNodeId n) t) \<subseteq> susp st"
          by auto
        then show ?thesis
        proof cases
          case stop
          then show ?thesis using step by simp
        next
          case go
          let ?t = "advance s (nd_nextNodeId n) t"
          note k = skip_rel_keeps[OF go(2)]
          have "card (susp ?t) \<le> card (susp st)" using go(5) by (simp add: card_mono)
          then have "card (ahead g ?t) + card (susp ?t) < fuel" using go(3) fuel by linarith
          with Suc.IH obtain u where "skip_stream fuel g s ?t = Inr (True, u)" "skip_rel g {s} ?t u"
            "settled g u s"
            using skips_withinD[of fuel g "skip_stream fuel g" ?t s] k st go(4) by metis
          then show ?thesis using step go(1) skip_rel_trans[OF go(2), of "{s}" u] by simp
        qed
      qed
    qed
  qed
qed

end
