(* ===== verification/Sk_Initial_Sound.thy ===== *)
theory Sk_Initial_Sound
  imports Sk_Initial_Skip
begin

text \<open>
  The initial split is sound: on every graph that is well formed it ends without a fault, its scopes
  take each node at most once and only nodes that can be fused with the flags of the scope, keep
  the order of every stream, and take a wait only behind the notify node it waits for.
\<close>

section \<open>The invariant of the construction\<close>

definition ready :: "sk_graph \<Rightarrow> node_id list \<Rightarrow> sk_node \<Rightarrow> bool" where
  "ready g out n \<longleftrightarrow> (nd_nodeType n = NODE_WAIT \<longrightarrow> GetCorrespondingNotifyNodeId n = INVALID_TASK_ID \<or>
     GetCorrespondingNotifyNodeId n \<in> set out \<union> unfusible g)"

definition candidate :: "sk_graph \<Rightarrow> node_id list \<Rightarrow> split_state \<Rightarrow> node_id \<Rightarrow> bool" where
  "candidate g out st i \<longleftrightarrow> (\<exists>n. GetNodeById g i = Some n \<and> cur st (nd_streamIdxInGraph n) = i \<and>
     nd_isFusible n \<and> nd_scopeBitFlags n = sp_flags st \<and> ready g out n)"

definition heap_nodes :: "split_state \<Rightarrow> node_id multiset" where
  "heap_nodes st = heap_content (sp_heap st)"

text \<open>\<open>out\<close> lists the nodes put into scopes so far.\<close>

definition build_ok :: "sk_graph \<Rightarrow> node_id list \<Rightarrow> split_state \<Rightarrow> bool" where
  "build_ok g out st \<longleftrightarrow> stream_ok g st \<and> covers g st \<and> sp_processed st \<inter> ahead g st = {} \<and>
     heap_ok (sp_heap st) \<and> set out \<subseteq> sp_processed st \<and>
     sp_visitedNotifies st \<subseteq> set out \<union> unfusible g \<and>
     (\<forall>i\<in>#heap_nodes st. GetNodeById g i \<noteq> None \<and> (i \<in> sp_processed st \<or> candidate g out st i))"

text \<open>What trying a node changes: suspensions, the pool, and the break record of the scope.\<close>

definition same_scope :: "sk_scope option \<Rightarrow> sk_scope option \<Rightarrow> bool" where
  "same_scope p q \<longleftrightarrow> map_option (\<lambda>sc. (sc_nodes sc, sc_streamInfos sc, sc_bitFlags sc)) q =
     map_option (\<lambda>sc. (sc_nodes sc, sc_streamInfos sc, sc_bitFlags sc)) p"

definition tried :: "split_state \<Rightarrow> split_state \<Rightarrow> bool" where
  "tried st t \<longleftrightarrow> keys t = keys st \<and> cur t = cur st \<and> sp_processed t = sp_processed st \<and>
     sp_flags t = sp_flags st \<and> same_scope (sp_scope st) (sp_scope t) \<and>
     heap_nodes st \<subseteq># heap_nodes t"

definition load :: "split_state \<Rightarrow> nat" where
  "load st = size (heap_nodes st) + card (susp st)"

lemma tried_refl [simp]: "tried st st"
  by (simp add: tried_def same_scope_def)

lemma tried_trans: "tried st t \<Longrightarrow> tried t u \<Longrightarrow> tried st u"
  by (auto simp: tried_def same_scope_def intro: subset_mset.order_trans)

lemma tried_ahead: "tried st t \<Longrightarrow> ahead g t = ahead g st"
  by (simp add: tried_def ahead_def)

lemma tried_scope: "tried st t \<Longrightarrow> sp_scope t = None \<longleftrightarrow> sp_scope st = None"
  by (cases "sp_scope st"; cases "sp_scope t") (auto simp: tried_def same_scope_def)

lemma build_okI:
  assumes "build_ok g out st" and "keys t = keys st" "cur t = cur st" "sp_processed t = sp_processed st"
    and "sp_flags t = sp_flags st" and "heap_ok (sp_heap t)" and "set out \<subseteq> set out'" "set out' \<subseteq> sp_processed t"
    and "sp_visitedNotifies t \<subseteq> set out' \<union> unfusible g"
    and "\<forall>i\<in>#heap_nodes t. i \<in># heap_nodes st \<or> candidate g out' t i"
  shows "build_ok g out' t"
proof -
  have cand: "candidate g out' t i" if "candidate g out st i" for i
    using that assms(3,5,7) by (auto simp: candidate_def ready_def)
  have "GetNodeById g i \<noteq> None \<and> (i \<in> sp_processed t \<or> candidate g out' t i)" if "i \<in># heap_nodes t" for i
  proof (cases "i \<in># heap_nodes st")
    case True
    then show ?thesis using assms(1,4) cand by (auto simp: build_ok_def)
  next
    case False
    then show ?thesis using assms(10) that by (auto simp: candidate_def)
  qed
  moreover have "ahead g t = ahead g st" "stream_ok g t = stream_ok g st" "covers g t = covers g st"
    using assms(2,3) by (simp_all add: ahead_def stream_ok_def covers_def)
  ultimately show ?thesis using assms by (simp add: build_ok_def)
qed

section \<open>Trying the next node of a stream\<close>

lemma card_susp_insert: "susp t \<subseteq> insert s (susp st) \<Longrightarrow> card (susp t) \<le> Suc (card (susp st))"
  by (rule order_trans[OF card_mono card_insert_le_m1]) (auto simp: card_insert_if)

lemma upd_tried:
  assumes "build_ok g out st" and "s \<in> set (keys st)"
    and "\<And>x. st_currentNodeId (f x) = st_currentNodeId x"
  shows "build_ok g out (upd_stream s f st)" and "tried st (upd_stream s f st)"
    and "susp (upd_stream s f st) \<subseteq> insert s (susp st)"
proof -
  show "build_ok g out (upd_stream s f st)"
    by (rule build_okI[OF assms(1)])
      (use assms in \<open>auto simp: build_ok_def heap_nodes_def upd_same_cur\<close>)
  show "tried st (upd_stream s f st)"
    using assms(2,3) by (simp add: tried_def same_scope_def upd_same_cur heap_nodes_def)
  show "susp (upd_stream s f st) \<subseteq> insert s (susp st)"
    using assms(2) by (auto simp: susp_def split: if_splits)
qed

lemma push_tried:
  assumes "build_ok g out st" and "candidate g out st i"
  shows "build_ok g out (push_node g i st)" and "tried st (push_node g i st)"
    and "load (push_node g i st) \<le> Suc (load st)"
    and "\<forall>j\<in>#heap_nodes (push_node g i st). j \<in># heap_nodes st \<or> candidate g out (push_node g i st) j"
proof -
  let ?t = "push_node g i st"
  have s: "sp_streams ?t = sp_streams st" by (simp add: push_node_def)
  note eq = streams_cong[OF s]
  have content: "heap_nodes ?t = heap_nodes st \<or> heap_nodes ?t = add_mset i (heap_nodes st)"
    using heap_push_content[of "sp_heap st" g i] assms(1) by (simp add: push_node_def heap_nodes_def build_ok_def)
  have "candidate g out ?t i" using assms(2) eq(2) by (simp add: candidate_def push_node_def)
  then show "\<forall>j\<in>#heap_nodes ?t. j \<in># heap_nodes st \<or> candidate g out ?t j" using content by auto
  then show "build_ok g out ?t"
    using content assms(1) heap_ok_push eq
    by (intro build_okI[OF assms(1)]) (auto simp: push_node_def build_ok_def)
  show "tried st ?t" using content eq by (auto simp: tried_def same_scope_def push_node_def)
  show "load ?t \<le> Suc (load st)" using content eq by (auto simp: load_def)
qed

lemma load_upd:
  assumes "susp (upd_stream s f st) \<subseteq> insert s (susp st)"
  shows "load (upd_stream s f st) \<le> Suc (load st)"
  using card_susp_insert[OF assms] by (simp add: load_def heap_nodes_def)

lemma try_add_ok:
  assumes w: "walkable g" and ok: "build_ok g out st" and s: "s \<in> set (keys st)"
    and scope: "sp_scope st \<noteq> None \<or> settled g st s"
  shows "\<exists>t. TryAddNodeToHeap g s st = Inr t \<and> build_ok g out t \<and> tried st t \<and> load t \<le> Suc (load st) \<and>
    susp st \<subseteq> susp t \<and> sp_visitedNotifies t = sp_visitedNotifies st \<and>
    (\<forall>i\<in>#heap_nodes t. i \<in># heap_nodes st \<or> candidate g out t i)"
proof -
  let ?x = "stream_at st s" and ?c = "cur st s"
  have str: "stream_ok g st" using ok by (simp add: build_ok_def)
  show ?thesis
  proof (cases "st_isTerminated ?x \<or> st_isSuspended ?x \<or> ?c = INVALID_TASK_ID")
    case True
    then show ?thesis using ok by (auto simp: TryAddNodeToHeap_def cur_def Let_def)
  next
    case run: False
    then obtain n where n: "GetNodeById g ?c = Some n" "nd_streamIdxInGraph n = s"
      using str unfolding stream_ok_def by blast
    have "?c \<in> ahead g st" using cur_ahead[OF str] run by blast
    then have np: "?c \<notin> sp_processed st" using ok unfolding build_ok_def by blast
    have sub: "susp st \<subseteq> susp (upd_stream s f st)" if "\<And>x. st_isSuspended x \<Longrightarrow> st_isSuspended (f x)" for f
      using s that by (auto simp: susp_def)
    let ?tm = "upd_stream s (\<lambda>x. x\<lparr> st_isTerminated := True \<rparr>) st"
    note tm = upd_tried[OF ok s, of "\<lambda>x. x\<lparr> st_isTerminated := True \<rparr>"]
    show ?thesis
    proof (cases "nd_isFusible n")
      case False
      then have "\<not> settled g st s" using run n by (auto simp: settled_def unfusible_def)
      then obtain sc where sc: "sp_scope st = Some sc" using scope by auto
      let ?t = "?tm\<lparr> sp_scope := Some (unfusible_break n s sc) \<rparr>"
      have t: "TryAddNodeToHeap g s st = Inr ?t"
        using run n(1) np False sc by (simp add: TryAddNodeToHeap_def cur_def Let_def)
      note eq = streams_cong[of ?t ?tm]
      have "build_ok g out ?t"
        by (rule build_okI[OF tm(1)]) (use tm(1) eq in \<open>auto simp: build_ok_def heap_nodes_def\<close>)
      moreover have "tried st ?t"
        using tm(2) eq sc by (simp add: tried_def same_scope_def unfusible_break_def heap_nodes_def)
      moreover have "load ?t \<le> Suc (load st)"
        using load_upd[OF tm(3)] eq by (simp add: load_def heap_nodes_def)
      moreover have "susp st \<subseteq> susp ?t" using sub eq by simp
      moreover have "heap_nodes ?t = heap_nodes st" by (simp add: heap_nodes_def)
      ultimately show ?thesis using t by auto
    next
      case fus: True
      show ?thesis
      proof (cases "nd_scopeBitFlags n = sp_flags st")
        case False
        then have "TryAddNodeToHeap g s st = Inr ?tm"
          using run n(1) np fus by (simp add: TryAddNodeToHeap_def cur_def Let_def)
        moreover have "heap_nodes ?tm = heap_nodes st" by (simp add: heap_nodes_def)
        ultimately show ?thesis using tm load_upd[OF tm(3)] sub by auto
      next
        case fl: True
        have cand: "candidate g out st ?c" if "ready g out n" using n fus fl that by (simp add: candidate_def)
        show ?thesis
        proof (cases "nd_nodeType n = NODE_WAIT")
          case False
          then have "TryAddNodeToHeap g s st = Inr (push_node g ?c st)"
            using run n(1) np fus fl by (simp add: TryAddNodeToHeap_def cur_def Let_def)
          moreover have "ready g out n" using False by (simp add: ready_def)
          ultimately show ?thesis using push_tried[OF ok cand] streams_cong[of "push_node g ?c st" st]
            by (auto simp: push_node_def)
        next
          case wait: True
          have t: "TryAddNodeToHeap g s st = Inr (HandleWaitNode g n s st)"
            using run n(1) np fus fl wait by (simp add: TryAddNodeToHeap_def cur_def Let_def)
          let ?N = "GetCorrespondingNotifyNodeId n"
          let ?e = "\<lambda>nn. upd_stream s (\<lambda>x. x\<lparr> st_isSuspended := True, st_waitingForNotify := GetEventId nn \<rparr>) st"
          consider (none) "HandleWaitNode g n s st = st"
            | (push) "HandleWaitNode g n s st = push_node g ?c st"
                "?N = INVALID_TASK_ID \<or> ?N \<in> sp_visitedNotifies st"
            | (susp) nn where "HandleWaitNode g n s st = ?e nn"
            by (cases "?N = INVALID_TASK_ID"; cases "GetNodeById g ?N"; cases "?N \<in> sp_visitedNotifies st")
              (auto simp: HandleWaitNode_def Let_def cur_def)
          then show ?thesis
          proof cases
            case none
            then show ?thesis using t ok by simp
          next
            case push
            have "ready g out n" using push(2) ok by (auto simp: ready_def build_ok_def)
            then show ?thesis using t push(1) push_tried[OF ok cand] streams_cong[of "push_node g ?c st" st]
              by (auto simp: push_node_def)
          next
            case susp
            note e = upd_tried[OF ok s, of "\<lambda>x. x\<lparr> st_isSuspended := True, st_waitingForNotify := GetEventId nn \<rparr>"]
            have "heap_nodes (?e nn) = heap_nodes st" by (simp add: heap_nodes_def)
            then show ?thesis using t susp e load_upd[OF e(3)] sub by auto
          qed
        qed
      qed
    qed
  qed
qed


section \<open>Taking a node\<close>

lemma resume_wait_ok:
  assumes w: "walkable g" and ok: "build_ok g out st" and sc: "sp_scope st \<noteq> None"
  shows "\<exists>t. resume_wait g e i st = Inr t \<and> build_ok g out t \<and> tried st t \<and> load t \<le> load st"
proof (cases "GetNodeById g i")
  case None
  then show ?thesis using ok by (simp add: resume_wait_def)
next
  case (Some wn)
  let ?s = "nd_streamIdxInGraph wn"
  have key: "?s \<in> set (keys st)" using ok Some unfolding build_ok_def covers_def by blast
  show ?thesis
  proof (cases "st_isSuspended (stream_at st ?s) \<and> st_waitingForNotify (stream_at st ?s) = e")
    case False
    then show ?thesis using Some ok by (auto simp: resume_wait_def Let_def)
  next
    case True
    then have susp: "?s \<in> susp st" using key by (simp add: susp_def)
    note r = resume_simps[OF key]
    have up: "build_ok g out (resume ?s st)" "tried st (resume ?s st)"
      unfolding resume_def using upd_tried[OF ok key] by simp_all
    have "card (susp st) = Suc (card (susp (resume ?s st)))"
      unfolding r(3) by (rule card_Suc_Diff1[symmetric, OF finite_susp susp])
    then have load: "Suc (load (resume ?s st)) = load st"
      by (simp add: load_def heap_nodes_def resume_def)
    have "sp_scope (resume ?s st) \<noteq> None" using sc by (simp add: resume_def)
    then obtain t where t: "TryAddNodeToHeap g ?s (resume ?s st) = Inr t" "build_ok g out t"
      "tried (resume ?s st) t" "load t \<le> Suc (load (resume ?s st))"
      using try_add_ok[OF w up(1), of ?s] key r(1) by auto
    then show ?thesis using Some True load tried_trans[OF up(2) t(3)]
      by (simp add: resume_wait_def Let_def resume_def)
  qed
qed

lemma visit_ok:
  assumes "build_ok g out st" and "V \<subseteq> set out \<union> unfusible g"
  shows "build_ok g out (st\<lparr> sp_visitedNotifies := V \<rparr>)" and "tried st (st\<lparr> sp_visitedNotifies := V \<rparr>)"
    and "load (st\<lparr> sp_visitedNotifies := V \<rparr>) = load st"
proof -
  have s: "sp_streams (st\<lparr> sp_visitedNotifies := V \<rparr>) = sp_streams st" by simp
  note eq = streams_cong[OF s]
  show "build_ok g out (st\<lparr> sp_visitedNotifies := V \<rparr>)"
    by (rule build_okI[OF assms(1)]) (use assms eq in \<open>auto simp: build_ok_def heap_nodes_def\<close>)
  show "tried st (st\<lparr> sp_visitedNotifies := V \<rparr>)" "load (st\<lparr> sp_visitedNotifies := V \<rparr>) = load st"
    using eq by (simp_all add: tried_def same_scope_def load_def heap_nodes_def)
qed

lemma ProcessNotifyNode_ok:
  assumes w: "walkable g" and ok: "build_ok g out st" and sc: "sp_scope st \<noteq> None"
    and "nd_nodeId n \<in> set out"
  shows "\<exists>t. ProcessNotifyNode g n st = Inr t \<and> build_ok g out t \<and> tried st t \<and> load t \<le> load st"
proof (cases "GetEventInfo (GetEventId n) g")
  case None
  then show ?thesis using ok by (simp add: ProcessNotifyNode_def)
next
  case (Some info)
  let ?v = "st\<lparr> sp_visitedNotifies := insert (nd_nodeId n) (sp_visitedNotifies st) \<rparr>"
  have "insert (nd_nodeId n) (sp_visitedNotifies st) \<subseteq> set out \<union> unfusible g"
    using ok assms(4) by (auto simp: build_ok_def)
  note v = visit_ok[OF ok this]
  have "\<exists>t. foldR (resume_wait g (GetEventId n)) (ei_waitNodeIdList info) ?v = Inr t \<and>
      (build_ok g out t \<and> tried st t \<and> load t \<le> load st)"
  proof (rule foldR_total[where P = "\<lambda>t. build_ok g out t \<and> tried st t \<and> load t \<le> load st"])
    show "build_ok g out ?v \<and> tried st ?v \<and> load ?v \<le> load st" using v by simp
  next
    fix i u assume "build_ok g out u \<and> tried st u \<and> load u \<le> load st"
    then show "\<exists>t. resume_wait g (GetEventId n) i u = Inr t \<and>
        (build_ok g out t \<and> tried st t \<and> load t \<le> load st)"
      using resume_wait_ok[OF w, of out u "GetEventId n" i] sc tried_scope[of st u] tried_trans[of st u] by force
  qed
  then show ?thesis using Some by (simp add: ProcessNotifyNode_def)
qed

lemma ProcessResetNode_ok:
  assumes ok: "build_ok g out st"
  shows "build_ok g out (ProcessResetNode g n st) \<and> tried st (ProcessResetNode g n st) \<and>
    load (ProcessResetNode g n st) \<le> load st + length (keys st)"
proof -
  let ?P = "\<lambda>t. build_ok g out t \<and> tried st t \<and> heap_nodes t = heap_nodes st"
  have step: "?P (suspend_wait g e i t)" if t: "?P t" for e i t
  proof (cases "GetNodeById g i")
    case (Some wn)
    have "nd_streamIdxInGraph wn \<in> set (keys t)" using t Some unfolding build_ok_def covers_def by blast
    from upd_tried[OF conjunct1[OF t] this] t tried_trans[of st t] Some show ?thesis
      by (auto simp: suspend_wait_def Let_def heap_nodes_def)
  qed (use t in \<open>simp add: suspend_wait_def\<close>)
  have P: "?P (ProcessResetNode g n st)"
  proof (cases "GetEventInfo (GetEventId n) g")
    case (Some info)
    let ?v = "if ei_notifyNodeId info \<noteq> INVALID_TASK_ID
        then st\<lparr> sp_visitedNotifies := sp_visitedNotifies st - {ei_notifyNodeId info} \<rparr> else st"
    have "sp_visitedNotifies st - {ei_notifyNodeId info} \<subseteq> set out \<union> unfusible g"
      using ok by (auto simp: build_ok_def)
    then have "?P ?v" using visit_ok[OF ok] ok by (auto simp: heap_nodes_def)
    then have "?P (fold (suspend_wait g (GetEventId n)) (ei_waitNodeIdList info) ?v)"
      by (rule fold_invariant[where Q = "\<lambda>_. True", rotated]) (use step in simp_all)
    then show ?thesis using Some by (simp add: ProcessResetNode_def)
  qed (use ok in \<open>simp add: ProcessResetNode_def\<close>)
  have "card (susp (ProcessResetNode g n st)) \<le> length (keys (ProcessResetNode g n st))"
    using card_susp[of "ProcessResetNode g n st"] by (simp add: keys_def)
  then show ?thesis using P by (simp add: load_def tried_def)
qed


text \<open>Two nodes of one stream are taken in the order of the stream.\<close>

definition in_order :: "sk_graph \<Rightarrow> node_id \<Rightarrow> node_id \<Rightarrow> bool" where
  "in_order g i j \<longleftrightarrow> (\<forall>n m. GetNodeById g i = Some n \<longrightarrow> GetNodeById g j = Some m \<longrightarrow>
     nd_streamIdxInGraph n = nd_streamIdxInGraph m \<longrightarrow> pos g i < pos g j)"

definition waits_in_order :: "sk_graph \<Rightarrow> node_id list \<Rightarrow> bool" where
  "waits_in_order g out \<longleftrightarrow> (\<forall>xs i ys n. out = xs @ i # ys \<longrightarrow> GetNodeById g i = Some n \<longrightarrow> ready g xs n)"

definition out_ok :: "sk_graph \<Rightarrow> node_id list \<Rightarrow> bool" where
  "out_ok g out \<longleftrightarrow> distinct out \<and> set out \<inter> unfusible g = {} \<and> sorted_wrt (in_order g) out \<and>
     waits_in_order g out"

lemma waits_in_order_snoc:
  assumes "waits_in_order g out" and "\<And>n. GetNodeById g i = Some n \<Longrightarrow> ready g out n"
  shows "waits_in_order g (out @ [i])"
  unfolding waits_in_order_def
proof (intro allI impI)
  fix xs j ys n
  assume split: "out @ [i] = xs @ j # ys" and n: "GetNodeById g j = Some n"
  show "ready g xs n"
  proof (cases ys rule: rev_cases)
    case Nil
    then show ?thesis using split n assms(2) by auto
  next
    case (snoc zs z)
    then have "out = xs @ j # zs" using split by simp
    then show ?thesis using assms(1) n unfolding waits_in_order_def by blast
  qed
qed

lemma out_ok_snoc:
  assumes ok: "build_ok g out st" and out: "out_ok g out" and np: "i \<notin> sp_processed st"
    and n: "GetNodeById g i = Some n" and cand: "candidate g out st i" and ne: "i \<noteq> INVALID_TASK_ID"
  shows "out_ok g (out @ [i])"
proof -
  have "in_order g j i" if j: "j \<in> set out" for j
    unfolding in_order_def
  proof (intro allI impI)
    fix m n' assume m: "GetNodeById g j = Some m" and n': "GetNodeById g i = Some n'"
      and same: "nd_streamIdxInGraph m = nd_streamIdxInGraph n'"
    have "j \<notin> ahead g st" using ok j unfolding build_ok_def by blast
    moreover have "cur st (nd_streamIdxInGraph m) = i" using cand n' same by (auto simp: candidate_def)
    ultimately show "pos g j < pos g i" using m ne by (auto simp: ahead_def)
  qed
  moreover have "i \<notin> set out" using ok np unfolding build_ok_def by blast
  moreover have "i \<notin> unfusible g" using cand by (auto simp: candidate_def unfusible_def)
  moreover have "ready g out n'" if "GetNodeById g i = Some n'" for n'
    using cand that by (auto simp: candidate_def)
  ultimately show ?thesis
    using out waits_in_order_snoc[of g out i] by (auto simp: out_ok_def sorted_wrt_append)
qed

definition scope_ok :: "sk_graph \<Rightarrow> nat set \<Rightarrow> sk_scope \<Rightarrow> bool" where
  "scope_ok g fl sc \<longleftrightarrow> sc_bitFlags sc = fl \<and> known g (sc_nodes sc) \<and>
     (\<forall>i\<in>set (sc_nodes sc). \<exists>n. GetNodeById g i = Some n \<and> nd_isFusible n \<and> nd_scopeBitFlags n = fl) \<and>
     sc_streamInfos sc = map (stream_entry g (sc_nodes sc)) (streams_of g (sc_nodes sc))"

lemma scope_ok_add:
  assumes "graph_ok g" and "scope_ok g fl sc" and n: "GetNodeById g i = Some n"
    and "nd_isFusible n" and "nd_scopeBitFlags n = fl"
  shows "scope_ok g fl (add_node i n sc)" and "sc_nodes (add_node i n sc) = sc_nodes sc @ [i]"
proof -
  have k: "known g (sc_nodes sc)" using assms(2) by (simp add: scope_ok_def)
  have "add_node i n sc = sc\<lparr> sc_nodes := sc_nodes sc @ [i], sc_streamInfos :=
      map (stream_entry g (sc_nodes sc @ [i])) (streams_of g (sc_nodes sc @ [i])) \<rparr>"
    unfolding add_node_def by (rule AddStreamInfoToScope_eq[OF assms(1) k n])
      (use assms(2) in \<open>simp add: scope_ok_def\<close>)
  then show "scope_ok g fl (add_node i n sc)" "sc_nodes (add_node i n sc) = sc_nodes sc @ [i]"
    using assms by (auto simp: scope_ok_def known_def GetNodeById_def)
qed

lemma scope_ok_same:
  assumes "same_scope (Some sc) q" and "scope_ok g fl sc"
  obtains sc' where "q = Some sc'" and "scope_ok g fl sc'" and "sc_nodes sc' = sc_nodes sc"
  using assms by (cases q) (auto simp: same_scope_def scope_ok_def)

lemma susp_advance: "s \<in> set (keys st) \<Longrightarrow> susp (advance s j st) = susp st"
  by (auto simp: susp_def advance_def)

lemma take_node_ok:
  assumes w: "walkable g" and ok: "build_ok g out st" and np: "i \<notin> sp_processed st"
    and n: "GetNodeById g i = Some n" and cand: "candidate g out st i" and sc: "sp_scope st = Some sc"
  shows "\<exists>t. take_node g i n st = Inr t \<and> build_ok g (out @ [i]) t \<and> keys t = keys st \<and>
    ahead g t \<subseteq> ahead g st - {i} \<and> sp_processed t = insert i (sp_processed st) \<and>
    sp_flags t = sp_flags st \<and> same_scope (Some (add_node i n sc)) (sp_scope t) \<and>
    heap_nodes st \<subseteq># heap_nodes t \<and> load t \<le> Suc (load st + length (keys st))"
proof -
  let ?s = "nd_streamIdxInGraph n"
  have g: "graph_ok g" using w by (simp add: walkable_def)
  have id: "nd_nodeId n = i" using g n by (auto simp: graph_ok_def GetNodeById_def)
  have key: "?s \<in> set (keys st)" using ok n unfolding build_ok_def covers_def by blast
  have cur: "cur st ?s = i" using cand n by (auto simp: candidate_def)
  let ?st0 = "st\<lparr> sp_scope := Some (add_node i n sc), sp_processed := insert i (sp_processed st) \<rparr>"
  have str0: "sp_streams ?st0 = sp_streams st" by simp
  note eq = streams_cong[OF str0]
  let ?u = "advance ?s (nd_nextNodeId n) ?st0"
  have "stream_ok g ?st0" "GetNodeById g (cur ?st0 ?s) = Some n" using ok eq cur n by (simp_all add: build_ok_def)
  note adv = advance_ok[OF w this]
  have ku: "keys ?u = keys st" using key eq by (simp add: advance_def)
  have hu: "heap_nodes ?u = heap_nodes st" "sp_processed ?u = insert i (sp_processed st)"
    "sp_flags ?u = sp_flags st" "sp_scope ?u = Some (add_node i n sc)"
    "sp_visitedNotifies ?u = sp_visitedNotifies st" "sp_heap ?u = sp_heap st"
    by (simp_all add: advance_def heap_nodes_def)
  have "susp ?u = susp st" using susp_advance[of ?s ?st0] key eq(1,3) by simp
  then have lu: "load ?u = load st" using hu by (simp add: load_def)
  have "j \<in> insert i (sp_processed st) \<or> candidate g (out @ [i]) ?u j" if j: "j \<in># heap_nodes st" for j
  proof (cases "j \<in> sp_processed st \<or> j = i")
    case False
    then obtain m where m: "GetNodeById g j = Some m" "cur st (nd_streamIdxInGraph m) = j"
      "nd_isFusible m" "nd_scopeBitFlags m = sp_flags st" "ready g out m"
      using ok j unfolding build_ok_def candidate_def by blast
    then have "nd_streamIdxInGraph m \<noteq> ?s" using cur False by auto
    then have "cur ?u (nd_streamIdxInGraph m) = j" using m(2) eq(2) by (simp add: advance_def cur_upd)
    then show ?thesis using m hu by (auto simp: candidate_def ready_def)
  qed auto
  moreover have "ahead g ?u \<subseteq> ahead g st - {i}" using adv(2) cur eq(2) eq(6)[of g] by simp
  then have "insert i (sp_processed st) \<inter> ahead g ?u = {}" using ok unfolding build_ok_def by blast
  moreover have "covers g ?u" using ok ku by (simp add: build_ok_def covers_def)
  moreover have "set (out @ [i]) \<subseteq> insert i (sp_processed st)"
    "sp_visitedNotifies st \<subseteq> set (out @ [i]) \<union> unfusible g"
    "heap_ok (sp_heap st)" "\<forall>j\<in>#heap_nodes st. GetNodeById g j \<noteq> None"
    using ok unfolding build_ok_def by auto
  ultimately have build_u: "build_ok g (out @ [i]) ?u"
    using adv(1) hu unfolding build_ok_def by simp
  have "\<exists>v. (if nd_nodeType n = NODE_NOTIFY then ProcessNotifyNode g n ?u
        else if nd_nodeType n = NODE_RESET then Inr (ProcessResetNode g n ?u) else Inr ?u) = Inr v \<and>
      build_ok g (out @ [i]) v \<and> tried ?u v \<and> load v \<le> load st + length (keys st)"
  proof -
    have "sp_scope ?u \<noteq> None" "nd_nodeId n \<in> set (out @ [i])" using hu id by simp_all
    from ProcessNotifyNode_ok[OF w build_u this] ProcessResetNode_ok[OF build_u, of n] show ?thesis
      using build_u lu ku by (auto intro: order_trans)
  qed
  then obtain v where v: "(if nd_nodeType n = NODE_NOTIFY then ProcessNotifyNode g n ?u
        else if nd_nodeType n = NODE_RESET then Inr (ProcessResetNode g n ?u) else Inr ?u) = Inr v"
    "build_ok g (out @ [i]) v" "tried ?u v" "load v \<le> load st + length (keys st)" by blast
  have "sp_scope v \<noteq> None" using tried_scope[OF v(3)] hu by simp
  moreover have "?s \<in> set (keys v)" using v(3) key ku by (simp add: tried_def)
  ultimately obtain t where t: "TryAddNodeToHeap g ?s v = Inr t" "build_ok g (out @ [i]) t" "tried v t"
    "load t \<le> Suc (load v)" using try_add_ok[OF w v(2)] by blast
  have take: "take_node g i n st = Inr t"
    unfolding take_node_def Let_def sc option.map advance_def[symmetric] v(1) bindR_simps t(1) ..
  have ut: "tried ?u t" by (rule tried_trans[OF v(3) t(3)])
  have "ahead g t \<subseteq> ahead g st - {i}" using adv(2) tried_ahead[OF ut] eq(6) cur eq(2) by simp
  then show ?thesis using take t(2,4) v(4) ut hu ku by (auto simp: tried_def)
qed


section \<open>Building a scope\<close>

lemma candidate_fields:
  assumes "candidate g out st i" and "GetNodeById g i = Some n"
  shows "nd_isFusible n" "nd_scopeBitFlags n = sp_flags st"
  using assms by (auto simp: candidate_def)

lemma build_scope_ok:
  assumes w: "walkable g"
  shows "build_ok g (prev @ sc_nodes sc) st \<Longrightarrow> sp_scope st = Some sc \<Longrightarrow>
    scope_ok g (sp_flags st) sc \<Longrightarrow> out_ok g (prev @ sc_nodes sc) \<Longrightarrow>
    (2 + length (keys st)) * card (ahead g st) + load st < fuel \<Longrightarrow>
    \<exists>t sc'. build_scope fuel g st = Inr (True, t) \<and> sp_scope t = Some sc' \<and>
      build_ok g (prev @ sc_nodes sc') t \<and> scope_ok g (sp_flags st) sc' \<and>
      out_ok g (prev @ sc_nodes sc') \<and> keys t = keys st \<and> ahead g t \<subseteq> ahead g st \<and>
      set_mset (heap_nodes st) \<subseteq> sp_processed t \<and> sp_processed st \<subseteq> sp_processed t \<and>
      heap_nodes t = {#}"
proof (induction fuel arbitrary: sc st)
  case 0
  then show ?case by simp
next
  case (Suc fuel)
  show ?case
  proof (cases "heap_empty (sp_heap st)")
    case True
    then show ?thesis using Suc.prems by (simp add: heap_nodes_def heap_empty_content)
  next
    case False
    have "heap_ok (sp_heap st)" using Suc.prems(1) by (simp add: build_ok_def)
    from heap_pop_content[OF this False, of g] obtain i h where
      pop: "heap_pop g (sp_heap st) = Inr (i, h)" "heap_content (sp_heap st) = add_mset i (heap_content h)"
        "heap_ok h" by blast
    let ?st1 = "st\<lparr> sp_heap := h \<rparr>"
    have str: "sp_streams ?st1 = sp_streams st" by simp
    note eq = streams_cong[OF str]
    have h1: "heap_nodes st = add_mset i (heap_nodes ?st1)" using pop(2) by (simp add: heap_nodes_def)
    have ok1: "build_ok g (prev @ sc_nodes sc) ?st1"
      by (rule build_okI[OF Suc.prems(1)])
        (use Suc.prems(1) pop(3) eq h1 in \<open>auto simp: build_ok_def\<close>)
    have load: "load st = Suc (load ?st1)" using h1 eq(3) by (simp add: load_def)
    from Suc.prems(1) h1 obtain n where n: "GetNodeById g i = Some n"
      and ic: "i \<in> sp_processed st \<or> candidate g (prev @ sc_nodes sc) st i"
      unfolding build_ok_def by fastforce
    show ?thesis
    proof (cases "i \<in> sp_processed st")
      case True
      have "(2 + length (keys ?st1)) * card (ahead g ?st1) + load ?st1 < fuel"
        using Suc.prems(5) load eq by simp
      from Suc.IH[OF ok1 _ _ Suc.prems(4) this] Suc.prems(2,3) obtain t sc' where
        "build_scope fuel g ?st1 = Inr (True, t)" "sp_scope t = Some sc'"
        "build_ok g (prev @ sc_nodes sc') t" "scope_ok g (sp_flags st) sc'"
        "out_ok g (prev @ sc_nodes sc')" "keys t = keys st" "ahead g t \<subseteq> ahead g st"
        "set_mset (heap_nodes ?st1) \<subseteq> sp_processed t" "sp_processed st \<subseteq> sp_processed t"
        "heap_nodes t = {#}" using eq by auto
      then show ?thesis using pop(1) n True False h1 by auto
    next
      case np: False
      then have cand: "candidate g (prev @ sc_nodes sc) ?st1 i" using ic eq by (simp add: candidate_def)
      have np1: "i \<notin> sp_processed ?st1" using np by simp
      have sc1: "sp_scope ?st1 = Some sc" using Suc.prems(2) by simp
      from take_node_ok[OF w ok1 np1 n cand sc1] obtain t where
        t: "take_node g i n ?st1 = Inr t" "build_ok g ((prev @ sc_nodes sc) @ [i]) t" "keys t = keys st"
          "ahead g t \<subseteq> ahead g st - {i}" "sp_processed t = insert i (sp_processed st)"
          "sp_flags t = sp_flags st" "same_scope (Some (add_node i n sc)) (sp_scope t)"
          "heap_nodes ?st1 \<subseteq># heap_nodes t" "load t \<le> Suc (load ?st1 + length (keys st))"
        using eq by auto
      have g: "graph_ok g" using w by (simp add: walkable_def)
      have fl: "nd_isFusible n" "nd_scopeBitFlags n = sp_flags st"
        using candidate_fields[OF cand n] by simp_all
      note add = scope_ok_add[OF g Suc.prems(3) n fl]
      obtain sc2 where sc2: "sp_scope t = Some sc2" "scope_ok g (sp_flags t) sc2"
        "sc_nodes sc2 = sc_nodes sc @ [i]"
        using scope_ok_same[OF t(7) add(1)] add(2) t(6) by metis
      have ne: "i \<noteq> INVALID_TASK_ID" using w n by (auto simp: walkable_def)
      have "i \<in> ahead g st"
        using Suc.prems(1) cand n cur_ahead[of g st "nd_streamIdxInGraph n"] ne eq(2)
        by (auto simp: build_ok_def candidate_def)
      then have "card (ahead g t) < card (ahead g st)"
        using t(4) finite_ahead[OF g] by (intro psubset_card_mono) auto
      then have "Suc (card (ahead g t)) \<le> card (ahead g st)" by simp
      then have "(2 + length (keys st)) * Suc (card (ahead g t)) \<le> (2 + length (keys st)) * card (ahead g st)"
        by (rule mult_le_mono2)
      then have fuel: "(2 + length (keys t)) * card (ahead g t) + load t < fuel"
        using t(3,9) load Suc.prems(5) by simp
      have "build_ok g (prev @ sc_nodes sc2) t" "out_ok g (prev @ sc_nodes sc2)"
        using t(2) sc2(3) out_ok_snoc[OF ok1 Suc.prems(4) np1 n cand ne] by simp_all
      from Suc.IH[OF this(1) sc2(1,2) this(2) fuel] obtain u sc' where
        u: "build_scope fuel g t = Inr (True, u)" "sp_scope u = Some sc'"
        "build_ok g (prev @ sc_nodes sc') u" "scope_ok g (sp_flags t) sc'"
        "out_ok g (prev @ sc_nodes sc')" "keys u = keys t" "ahead g u \<subseteq> ahead g t"
        "set_mset (heap_nodes t) \<subseteq> sp_processed u" "sp_processed t \<subseteq> sp_processed u"
        "heap_nodes u = {#}" by blast
      have "set_mset (heap_nodes st) \<subseteq> sp_processed u"
        using h1 t(5,8) u(8,9) set_mset_mono[OF t(8)] by auto
      moreover have "build_scope (Suc fuel) g st = Inr (True, u)"
        using pop(1) n np False t(1) u(1) by simp
      moreover have "ahead g u \<subseteq> ahead g st" "sp_processed st \<subseteq> sp_processed u"
        using t(4,5) u(7,9) by auto
      ultimately show ?thesis using u t(3,6) by auto
    qed
  qed
qed


lemma BuildCurrentScope_ok:
  assumes w: "walkable g" and ok: "build_ok g prev st" and out: "out_ok g prev"
    and sc: "sc_nodes sc = []" "sc_streamInfos sc = []"
  shows "\<exists>t sc'. BuildCurrentScope g sc st = Inr (True, sc', t) \<and> sp_scope t = None \<and>
    build_ok g (prev @ sc_nodes sc') t \<and> scope_ok g (sp_flags st) sc' \<and>
    out_ok g (prev @ sc_nodes sc') \<and> keys t = keys st \<and> ahead g t \<subseteq> ahead g st \<and>
    set_mset (heap_nodes st) \<subseteq> sp_processed t \<and> heap_nodes t = {#}"
proof -
  let ?sc = "sc\<lparr> sc_bitFlags := sp_flags st \<rparr>"
  let ?st = "st\<lparr> sp_scope := Some ?sc \<rparr>"
  have str: "sp_streams ?st = sp_streams st" by simp
  note eq = streams_cong[OF str]
  have "build_ok g (prev @ sc_nodes ?sc) ?st"
    by (rule build_okI[OF ok]) (use ok eq sc in \<open>auto simp: build_ok_def heap_nodes_def\<close>)
  moreover have "scope_ok g (sp_flags ?st) ?sc"
    using sc by (simp add: scope_ok_def known_def streams_of_def)
  moreover have "out_ok g (prev @ sc_nodes ?sc)" using out sc by simp
  moreover have "(2 + length (keys ?st)) * card (ahead g ?st) + load ?st < build_fuel g ?st"
  proof -
    have "card (ahead g ?st) \<le> length (sg_nodeIds g)" using card_ahead w by (simp add: walkable_def)
    then have "(2 + length (keys ?st)) * card (ahead g ?st) \<le> (2 + length (keys ?st)) * length (sg_nodeIds g)"
      by (rule mult_le_mono2)
    then show ?thesis using card_susp[of ?st]
      by (simp add: build_fuel_def load_def heap_size_content heap_nodes_def keys_def)
  qed
  moreover have "sp_scope ?st = Some ?sc" by simp
  ultimately obtain t sc' where t: "build_scope (build_fuel g ?st) g ?st = Inr (True, t)"
    "sp_scope t = Some sc'" "build_ok g (prev @ sc_nodes sc') t" "scope_ok g (sp_flags ?st) sc'"
    "out_ok g (prev @ sc_nodes sc')" "keys t = keys ?st" "ahead g t \<subseteq> ahead g ?st"
    "set_mset (heap_nodes ?st) \<subseteq> sp_processed t" "heap_nodes t = {#}"
    using build_scope_ok[OF w, of prev ?sc ?st "build_fuel g ?st"] by blast
  let ?t = "t\<lparr> sp_scope := None \<rparr>"
  have str': "sp_streams ?t = sp_streams t" by simp
  note eq' = streams_cong[OF str']
  have "build_ok g (prev @ sc_nodes sc') ?t"
    by (rule build_okI[OF t(3)]) (use t(3) eq' in \<open>auto simp: build_ok_def heap_nodes_def\<close>)
  moreover have "BuildCurrentScope g sc st = Inr (True, sc', ?t)"
    using t(1,2) by (simp add: BuildCurrentScope_def Let_def)
  ultimately show ?thesis using t eq eq' by (auto simp: heap_nodes_def)
qed

section \<open>Filling the heap and resetting the streams\<close>

lemma settled_tried:
  assumes "tried st t" and "susp st \<subseteq> susp t" and "settled g st s" and "s \<in> set (keys st)"
  shows "settled g t s"
  using assms by (auto simp: settled_def tried_def susp_def)

lemma InitNodeHeap_ok:
  assumes w: "walkable g" and ok: "build_ok g out st" and settled: "\<forall>s\<in>set (keys st). settled g st s"
  shows "\<exists>t. InitNodeHeap g st = Inr t \<and> build_ok g out t \<and> keys t = keys st \<and> cur t = cur st \<and>
    (\<forall>i\<in>#heap_nodes t. candidate g out t i)"
proof -
  let ?st = "st\<lparr> sp_heap := heap_clear (sp_heap st) \<rparr>"
  have str: "sp_streams ?st = sp_streams st" by simp
  note eq = streams_cong[OF str]
  have h0: "heap_nodes ?st = {#}"
    using heap_empty_content[of "heap_clear (sp_heap st)"] by (simp add: heap_nodes_def)
  have ok0: "build_ok g out ?st"
    by (rule build_okI[OF ok]) (use ok eq h0 in \<open>auto simp: build_ok_def\<close>)
  let ?P = "\<lambda>t. build_ok g out t \<and> tried ?st t \<and> susp ?st \<subseteq> susp t \<and> (\<forall>i\<in>#heap_nodes t. candidate g out t i)"
  have "\<exists>t. foldR (TryAddNodeToHeap g) (map fst (sp_streams st)) ?st = Inr t \<and> ?P t"
  proof (rule foldR_total[where P = ?P])
    show "?P ?st" using ok0 h0 by simp
  next
    fix s u assume s: "s \<in> set (map fst (sp_streams st))" and u: "?P u"
    have key: "s \<in> set (keys st)" using s by (simp add: keys_def)
    have "settled g ?st s" using settled key eq(7) by simp
    then have su: "settled g u s" using settled_tried[of ?st u g s] u key eq(1) by simp
    have "s \<in> set (keys u)" using u key eq(1) by (simp add: tried_def)
    from try_add_ok[OF w conjunct1[OF u] this disjI2[OF su]] obtain t where
      t: "TryAddNodeToHeap g s u = Inr t" "build_ok g out t" "tried u t" "susp u \<subseteq> susp t"
        "\<forall>i\<in>#heap_nodes t. i \<in># heap_nodes u \<or> candidate g out t i" by blast
    have "candidate g out t i" if "candidate g out u i" for i
      using that t(3) by (auto simp: candidate_def tried_def)
    then show "\<exists>t. TryAddNodeToHeap g s u = Inr t \<and> ?P t" using t u tried_trans[of ?st u t] by blast
  qed
  then obtain t where "InitNodeHeap g st = Inr t" "?P t" by (auto simp: InitNodeHeap_def)
  then show ?thesis using eq by (auto simp: tried_def)
qed

lemma skip_all_ok:
  assumes w: "walkable g"
  shows "covers g st \<Longrightarrow> stream_ok g st \<Longrightarrow> distinct ss \<Longrightarrow> set ss \<subseteq> set (keys st) \<Longrightarrow>
    set ss \<inter> susp st = {} \<Longrightarrow>
    \<exists>t. skip_all g ss st = Inr (True, t) \<and> skip_rel g (set ss) st t \<and> (\<forall>s\<in>set ss. settled g t s)"
proof (induction ss arbitrary: st)
  case Nil
  then show ?case using skip_rel_refl by simp
next
  case (Cons s ss)
  have g: "graph_ok g" using w by (simp add: walkable_def)
  have "card (ahead g st) + card (susp st) < skip_fuel g st"
    using card_ahead[OF g, of st] card_susp[of st] by (simp add: skip_fuel_def)
  then obtain t where t: "SkipUnfusibleNodesForStream g s st = Inr (True, t)" "skip_rel g {s} st t"
    "settled g t s"
    using skips_withinD[OF skip_stream_settles[OF w], of st s "skip_fuel g st"] Cons.prems
    unfolding SkipUnfusibleNodesForStream_def by auto
  note k = skip_rel_keeps(1-3)[OF t(2)]
  have "set ss \<inter> susp t = {}" using skip_relD(4)[OF t(2)] Cons.prems(3,5) by auto
  then obtain u where u: "skip_all g ss t = Inr (True, u)" "skip_rel g (set ss) t u"
    "\<forall>s\<in>set ss. settled g u s"
    using Cons.IH[of t] k Cons.prems(1,3,4) by auto
  have "settled g u s" using skip_relD(6)[OF u(2)] t(3) Cons.prems(3) by simp
  then show ?case using t(1) u skip_rel_trans[OF t(2) u(2)] by simp
qed

lemma build_ok_skip:
  assumes ok: "build_ok g out st" and rel: "skip_rel g X st t" and h: "heap_nodes st = {#}"
  shows "build_ok g out t"
proof -
  note r = skip_relD[OF rel]
  have "sp_processed t \<inter> ahead g t = {}" using ok r(2,12) unfolding build_ok_def by blast
  moreover have "sp_visitedNotifies t \<subseteq> set out \<union> unfusible g" using ok r(13) unfolding build_ok_def by blast
  moreover have "set out \<subseteq> sp_processed t" using ok r(10) unfolding build_ok_def by blast
  moreover have "heap_nodes t = {#}" using h r(7) by (simp add: heap_nodes_def)
  ultimately show ?thesis using ok r(1,3,7) by (simp add: build_ok_def covers_def)
qed

lemma map_of_reset:
  "map_of (map (\<lambda>(s, x). (s, f x)) xs) s = map_option f (map_of xs s)"
  by (induction xs) auto

lemma ResetStreamStates_ok:
  assumes w: "walkable g" and ok: "build_ok g out st" and d: "distinct (keys st)" and h: "heap_nodes st = {#}"
  shows "\<exists>t. ResetStreamStates g st = Inr (True, t) \<and> build_ok g out t \<and> keys t = keys st \<and>
    (\<forall>s\<in>set (keys t). settled g t s) \<and> heap_nodes t = {#} \<and> sp_scope t = sp_scope st \<and>
    ahead g t \<subseteq> ahead g st"
proof -
  let ?f = "\<lambda>x. x\<lparr> st_isTerminated := False, st_isSuspended := False, st_waitingForNotify := INVALID_TASK_ID \<rparr>"
  let ?st = "st\<lparr> sp_streams := map (\<lambda>(s, x). (s, ?f x)) (sp_streams st) \<rparr>"
  have at: "stream_at ?st s = ?f (stream_at st s)" for s
    by (simp add: stream_at_def map_of_reset new_stream_def split: option.split)
  have k: "keys ?st = keys st" by (simp add: keys_def case_prod_unfold)
  have c: "cur ?st = cur st" by (simp add: cur_def[abs_def] at)
  have susp: "susp ?st = {}" by (simp add: susp_def at)
  have ok0: "build_ok g out ?st"
    by (rule build_okI[OF ok]) (use ok k c h in \<open>auto simp: build_ok_def heap_nodes_def\<close>)
  obtain t where t: "SkipUnfusibleNodes g ?st = Inr (True, t)" "skip_rel g (set (keys st)) ?st t"
    "\<forall>s\<in>set (keys st). settled g t s"
    using skip_all_ok[OF w, of ?st "keys ?st"] ok0 d k susp
    unfolding SkipUnfusibleNodes_def build_ok_def keys_def[symmetric] by auto
  have h0: "heap_nodes ?st = {#}" using h by (simp add: heap_nodes_def)
  note r = skip_relD[OF t(2)]
  have "ahead g ?st = ahead g st" using c by (simp add: ahead_def)
  then show ?thesis
    using t build_ok_skip[OF ok0 t(2) h0] r(2,3,7,9) k h by (auto simp: ResetStreamStates_def heap_nodes_def)
qed


section \<open>The pass\<close>

definition scopes_sound :: "sk_graph \<Rightarrow> sk_scope list \<Rightarrow> bool" where
  "scopes_sound g scopes \<longleftrightarrow> out_ok g (concat (map sc_nodes scopes)) \<and>
     (\<forall>sc\<in>set scopes. sc_nodes sc \<noteq> [] \<and> scope_ok g (sc_bitFlags sc) sc)"

lemma scopes_sound_snoc:
  assumes "scopes_sound g scopes" and "out_ok g (concat (map sc_nodes scopes) @ sc_nodes sc)"
    and "scope_ok g fl sc"
  shows "scopes_sound g (if sc_nodes sc \<noteq> [] then scopes @ [sc] else scopes)"
proof -
  have "sc_bitFlags sc = fl" using assms(3) by (simp add: scope_ok_def)
  then show ?thesis using assms by (auto simp: scopes_sound_def)
qed

lemma DetermineCurrentScopeBitFlags_ok:
  assumes "DetermineCurrentScopeBitFlags g st = (b, t)" and "build_ok g out st" and "heap_nodes st = {#}"
  shows "build_ok g out t \<and> keys t = keys st \<and> cur t = cur st \<and> (\<forall>s. settled g t s = settled g st s) \<and>
    heap_nodes t = {#} \<and> ahead g t = ahead g st"
proof -
  obtain fl where t: "t = st \<or> t = st\<lparr> sp_flags := fl \<rparr>"
    using assms(1) by (auto simp: DetermineCurrentScopeBitFlags_def split: option.splits)
  have str: "sp_streams (st\<lparr> sp_flags := fl \<rparr>) = sp_streams st" by simp
  show ?thesis
    using t assms(2,3) streams_cong[OF str] by (auto simp: build_ok_def heap_nodes_def)
qed

lemma new_scope_empty:
  "new_scope c = (sc, c') \<Longrightarrow> sc_nodes sc = [] \<and> sc_streamInfos sc = []"
  by (auto simp: new_scope_def NextId_def)

lemma initial_loop_ok:
  assumes w: "walkable g"
  shows "build_ok g (concat (map sc_nodes scopes)) st \<Longrightarrow> scopes_sound g scopes \<Longrightarrow>
    \<forall>s\<in>set (keys st). settled g st s \<Longrightarrow> distinct (keys st) \<Longrightarrow> heap_nodes st = {#} \<Longrightarrow>
    card (ahead g st) < fuel \<Longrightarrow>
    \<exists>scopes' c'. initial_loop fuel g c scopes st = Inr (True, scopes', c') \<and> scopes_sound g scopes'"
proof (induction fuel arbitrary: c scopes st)
  case 0
  then show ?case by simp
next
  case (Suc fuel)
  obtain found st1 where f: "DetermineCurrentScopeBitFlags g st = (found, st1)" by fastforce
  note d = DetermineCurrentScopeBitFlags_ok[OF f Suc.prems(1,5)]
  let ?out = "concat (map sc_nodes scopes)"
  show ?case
  proof (cases found)
    case False
    then show ?thesis using f Suc.prems(2) by simp
  next
    case found: True
    have "\<forall>s\<in>set (keys st1). settled g st1 s" using d Suc.prems(3) by simp
    then obtain st2 where st2: "InitNodeHeap g st1 = Inr st2" "build_ok g ?out st2" "keys st2 = keys st1"
      "cur st2 = cur st1" "\<forall>i\<in>#heap_nodes st2. candidate g ?out st2 i"
      using InitNodeHeap_ok[OF w, of ?out st1] d by blast
    show ?thesis
    proof (cases "heap_empty (sp_heap st2)")
      case True
      then show ?thesis using f found st2(1) Suc.prems(2) by simp
    next
      case ne: False
      then obtain i where i: "i \<in># heap_nodes st2"
        by (auto simp: heap_empty_content heap_nodes_def multiset_nonemptyE)
      then obtain n where n: "GetNodeById g i = Some n" "cur st2 (nd_streamIdxInGraph n) = i"
        using st2(5) unfolding candidate_def by blast
      have "i \<noteq> INVALID_TASK_ID" using n(1) w by (auto simp: walkable_def)
      then have ahead: "i \<in> ahead g st2"
        using cur_ahead[of g st2 "nd_streamIdxInGraph n"] n(2) st2(2) by (simp add: build_ok_def)
      obtain sc c1 where sc: "new_scope c = (sc, c1)" by fastforce
      from BuildCurrentScope_ok[OF w st2(2), of sc] new_scope_empty[OF sc] Suc.prems(2)
      obtain st3 sc1 where b: "BuildCurrentScope g sc st2 = Inr (True, sc1, st3)" "sp_scope st3 = None"
        "build_ok g (?out @ sc_nodes sc1) st3" "scope_ok g (sp_flags st2) sc1"
        "out_ok g (?out @ sc_nodes sc1)" "keys st3 = keys st2" "ahead g st3 \<subseteq> ahead g st2"
        "set_mset (heap_nodes st2) \<subseteq> sp_processed st3" "heap_nodes st3 = {#}"
        by (auto simp: scopes_sound_def)
      let ?scopes = "if sc_nodes sc1 \<noteq> [] then scopes @ [sc1] else scopes"
      have out': "concat (map sc_nodes ?scopes) = ?out @ sc_nodes sc1" by simp
      have "distinct (keys st3)" using b(6) st2(3) d Suc.prems(4) by simp
      from ResetStreamStates_ok[OF w b(3) this b(9)] obtain st4 where
        r: "ResetStreamStates g st3 = Inr (True, st4)" "build_ok g (?out @ sc_nodes sc1) st4"
          "keys st4 = keys st3" "\<forall>s\<in>set (keys st4). settled g st4 s" "heap_nodes st4 = {#}"
          "ahead g st4 \<subseteq> ahead g st3" by blast
      have "i \<notin> ahead g st3" using b(3,8) i unfolding build_ok_def by blast
      moreover have "ahead g st2 = ahead g st" using st2(4) d by (simp add: ahead_def)
      ultimately have "ahead g st4 \<subset> ahead g st" using r(6) b(7) ahead by blast
      then have "card (ahead g st4) < card (ahead g st)"
        using finite_ahead w by (intro psubset_card_mono) (auto simp: walkable_def)
      then have fuel: "card (ahead g st4) < fuel" using Suc.prems(6) by simp
      have step: "initial_loop (Suc fuel) g c scopes st = initial_loop fuel g c1 ?scopes st4"
        using f found st2(1) ne sc b(1) r(1) by (simp add: Let_def)
      show ?thesis unfolding step
      proof (rule Suc.IH)
        show "build_ok g (concat (map sc_nodes ?scopes)) st4" using r(2) out' by simp
        show "scopes_sound g ?scopes" by (rule scopes_sound_snoc[OF Suc.prems(2) b(5,4)])
        show "distinct (keys st4)" using r(3) b(6) st2(3) d Suc.prems(4) by simp
      qed (use r fuel in auto)
    qed
  qed
qed

text \<open>Every stream that is walked has a head node of its own, and every node is on one of them.\<close>

definition heads_ok :: "u32 list \<Rightarrow> sk_graph \<Rightarrow> bool" where
  "heads_ok order g \<longleftrightarrow> distinct order \<and>
     (\<forall>i n. GetNodeById g i = Some n \<longrightarrow> nd_streamIdxInGraph n \<in> set order) \<and>
     (\<forall>s\<in>set order. unat s < length (sg_headNodes g) \<and>
        (\<exists>n. GetNodeById g (sg_headNodes g ! unat s) = Some n \<and> nd_streamIdxInGraph n = s))"

lemma InitStreamStates_eq:
  assumes "\<forall>s\<in>set order. unat s < length (sg_headNodes g)"
  shows "InitStreamStates order g st = Inr (st\<lparr> sp_streams := map (\<lambda>s.
    (s, new_stream\<lparr> st_currentNodeId := sg_headNodes g ! unat s \<rparr>)) order \<rparr>)"
proof -
  let ?entry = "\<lambda>s. (s, new_stream\<lparr> st_currentNodeId := sg_headNodes g ! unat s \<rparr>)"
  have "foldR (\<lambda>s st. if unat s < length (sg_headNodes g)
      then Inr (st\<lparr> sp_streams := sp_streams st @ [?entry s] \<rparr>) else Inl OutOfRange) order st =
    Inr (st\<lparr> sp_streams := sp_streams st @ map ?entry order \<rparr>)" for st
    using assms by (induction order arbitrary: st) auto
  from this[of "st\<lparr> sp_streams := [] \<rparr>"] show ?thesis by (simp add: InitStreamStates_def)
qed

lemma map_of_pairs: "map_of (map (\<lambda>s. (s, f s)) xs) s = (if s \<in> set xs then Some (f s) else None)"
  by (induction xs) auto

lemma InitialSplitRun_ok:
  assumes w: "walkable g" and heads: "heads_ok order g"
  shows "\<exists>scopes c'. InitialSplitRun order m g c = Inr (True, scopes, c') \<and> scopes_sound g scopes"
proof -
  let ?st = "(new_split m)\<lparr> sp_streams := map (\<lambda>s.
    (s, new_stream\<lparr> st_currentNodeId := sg_headNodes g ! unat s \<rparr>)) order \<rparr>"
  have init: "InitStreamStates order g (new_split m) = Inr ?st"
    by (rule InitStreamStates_eq) (use heads in \<open>simp add: heads_ok_def\<close>)
  have k: "keys ?st = order" by (simp add: keys_def o_def)
  have at: "stream_at ?st s = (if s \<in> set order then new_stream\<lparr> st_currentNodeId := sg_headNodes g ! unat s \<rparr>
      else new_stream)" for s
    by (simp add: stream_at_def map_of_pairs)
  have new: "\<not> st_isSuspended new_stream" "st_currentNodeId new_stream = INVALID_TASK_ID"
    by (simp_all add: new_stream_def)
  have susp: "susp ?st = {}" unfolding susp_def at by (simp add: new)
  have ok: "stream_ok g ?st" unfolding stream_ok_def cur_def at using heads by (simp add: new heads_ok_def)
  have cov: "covers g ?st" using heads by (simp add: covers_def k heads_ok_def)
  have h: "heap_nodes ?st = {#}"
    by (simp add: heap_nodes_def heap_content_def new_split_def new_heap_def)
  have b: "build_ok g [] ?st"
    using ok cov h by (simp add: build_ok_def new_split_def)
  have skip: "SkipUnfusibleNodes g ?st = skip_all g order ?st"
    by (simp add: SkipUnfusibleNodes_def o_def)
  have "distinct order" using heads by (simp add: heads_ok_def)
  then obtain t where t: "SkipUnfusibleNodes g ?st = Inr (True, t)" "skip_rel g (set order) ?st t"
    "\<forall>s\<in>set order. settled g t s"
    using skip_all_ok[OF w cov ok, of order] k susp unfolding skip by auto
  note r = skip_relD[OF t(2)]
  have ht: "heap_nodes t = {#}" using h r(7) by (simp add: heap_nodes_def)
  have "card (ahead g t) < Suc (length (sg_nodeIds g))"
    using card_ahead[of g t] w by (simp add: walkable_def)
  moreover have "scopes_sound g []"
    by (simp add: scopes_sound_def out_ok_def waits_in_order_def)
  ultimately show ?thesis
    using initial_loop_ok[OF w, of "[]" t "Suc (length (sg_nodeIds g))" c] build_ok_skip[OF b t(2) h]
      t(1,3) r(3) k ht init heads by (simp add: InitialSplitRun_def heads_ok_def)
qed


section \<open>Properties\<close>

text \<open>
  C7 \<^bold>\<open>The initial split.\<close> On every well-formed graph in which each stream has its head node, in
  whatever order the streams are visited and whatever the queue, the pass ends without a fault and
  succeeds; no node is in two scopes or twice in one, no scope is empty, and every node of a scope can
  be fused and carries exactly the flags of the scope.
\<close>

theorem InitialSplitRun_sound:
  assumes "walkable g" and "heads_ok order g"
  shows "\<exists>scopes c'. InitialSplitRun order m g c = Inr (True, scopes, c') \<and>
    distinct (concat (map sc_nodes scopes)) \<and>
    (\<forall>sc\<in>set scopes. sc_nodes sc \<noteq> [] \<and> (\<forall>i\<in>set (sc_nodes sc). \<exists>n. GetNodeById g i = Some n \<and>
       nd_isFusible n \<and> nd_scopeBitFlags n = sc_bitFlags sc))"
  using InitialSplitRun_ok[OF assms, of m c] by (auto simp: scopes_sound_def out_ok_def scope_ok_def)

text \<open>
  C8 \<^bold>\<open>Order.\<close> Read one after the other, the scopes keep the order of every stream, and a wait comes
  after the notify node it waits for, unless that has left the graph or cannot be fused.
\<close>

theorem InitialSplitRun_order:
  assumes "walkable g" and "heads_ok order g" and "InitialSplitRun order m g c = Inr (ok, scopes, c')"
    and "concat (map sc_nodes scopes) = xs @ i # ys" and "GetNodeById g i = Some n"
  shows "(\<forall>j\<in>set xs. \<forall>k. GetNodeById g j = Some k \<longrightarrow> nd_streamIdxInGraph k = nd_streamIdxInGraph n \<longrightarrow>
      nd_nodeIdxInStream k < nd_nodeIdxInStream n) \<and>
    (nd_nodeType n = NODE_WAIT \<longrightarrow> GetCorrespondingNotifyNodeId n = INVALID_TASK_ID \<or>
      GetCorrespondingNotifyNodeId n \<in> set xs \<or>
      (\<forall>k. GetNodeById g (GetCorrespondingNotifyNodeId n) = Some k \<longrightarrow> \<not> nd_isFusible k))"
proof -
  have out: "out_ok g (xs @ i # ys)"
    using InitialSplitRun_ok[OF assms(1,2), of m c] assms(3,4) by (auto simp: scopes_sound_def)
  then have "ready g xs n" using assms(5) by (auto simp: out_ok_def waits_in_order_def)
  moreover have "in_order g j i" if "j \<in> set xs" for j
    using out that by (auto simp: out_ok_def sorted_wrt_append)
  ultimately show ?thesis
    using assms(5) by (auto simp: in_order_def pos_def ready_def unfusible_def word_less_nat_alt)
qed

text \<open>
  C36 \<^bold>\<open>Incremental stream entries.\<close> The stream entries the pass keeps up to date node by node are those
  that the other passes compute from the nodes: rebuilding them changes nothing.
\<close>

theorem InitialSplitRun_stream_infos:
  assumes "walkable g" and "heads_ok order g" and "InitialSplitRun order m g c = Inr (ok, scopes, c')"
  shows "\<forall>sc\<in>set scopes. RebuildStreamInfos g sc = Inr sc"
proof
  fix sc assume "sc \<in> set scopes"
  then have "scope_ok g (sc_bitFlags sc) sc"
    using InitialSplitRun_ok[OF assms(1,2), of m c] assms(3) by (auto simp: scopes_sound_def)
  moreover have "graph_ok g" using assms(1) by (simp add: walkable_def)
  ultimately show "RebuildStreamInfos g sc = Inr sc"
    by (auto simp: scope_ok_def intro!: RebuildStreamInfos_eq[THEN trans])
qed

section \<open>The properties at concrete inputs\<close>

text \<open>
  A wait and an operator on stream 0, and on stream 1 an operator and the notify node the wait
  waits for; the second stream's nodes carry the flags \<open>fl\<close>.
\<close>

definition sample_fused :: "nat set \<Rightarrow> sk_node \<Rightarrow> sk_node" where
  "sample_fused fl n = n\<lparr> nd_scopeBitFlags := fl, nd_isFusible := True \<rparr>"

definition sample_split :: "nat set \<Rightarrow> sk_graph" where
  "sample_split fl = (sample_graph
     [sample_fused {0} (sample_on 0 0 (sample_sync 7 (SetCorrespondingNotifyNodeId 4
        (sample_node MemoryNode NODE_WAIT INVALID_TASK_ID 1 2)))),
      sample_fused {0} (sample_on 0 1 (sample_node KernelNode NODE_KERNEL 1 2 INVALID_TASK_ID)),
      sample_fused fl (sample_on 1 0 (sample_node KernelNode NODE_KERNEL INVALID_TASK_ID 3 4)),
      sample_fused fl (sample_on 1 1 (sample_sync 7 (SetCorrespondingWaitNodeIds [1]
        (sample_node MemoryNode NODE_NOTIFY 3 4 INVALID_TASK_ID))))])
     \<lparr> sg_headNodes := [1, 3], sg_streams := [0, 1], sg_eventToNodes := [(7,
        \<lparr> ei_notifyNodeId = 4, ei_resetNodeIdList = [], ei_waitNodeIdList = [1] \<rparr>)] \<rparr>"

lemmas sample_split_defs = sample_split_def sample_fused_def sample_on_def sample_sync_def sample_graph_def
  sample_node_def SetCorrespondingWaitNodeIds_def SetCorrespondingNotifyNodeId_def new_node_def
  default_sync_infos_def

lemma sample_split_walkable: "walkable (sample_split fl)"
proof -
  have "graph_ok (sample_split fl)"
    by (auto simp: graph_ok_def sample_split_defs split: if_splits)
  moreover have "streams_linked (sample_split fl)"
    by (auto simp: streams_linked_def node_linked_def GetNodeById_def sample_split_defs sk_const
        split: if_splits)
  moreover have "waits_ok (sample_split fl)"
    by (auto simp: waits_ok_def GetNodeById_def GetCorrespondingWaitNodeIds_def sample_split_defs split: if_splits)
  moreover have "GetNodeById (sample_split fl) INVALID_TASK_ID = None"
    by (simp add: GetNodeById_def sample_split_defs sk_const)
  ultimately show ?thesis by (simp add: walkable_def)
qed

lemma sample_split_heads: "heads_ok [0, 1] (sample_split fl)"
  by (auto simp: heads_ok_def GetNodeById_def sample_split_defs split: if_splits)

lemma sample_split_run:
  "\<exists>c' sc. InitialSplitRun [0, 1] PRIORITY_QUEUE (sample_split {0}) 0 = Inr (True, [sc], c') \<and>
     sc_nodes sc = [3, 4, 1, 2]"
proof -
  have "case InitialSplitRun [0, 1] PRIORITY_QUEUE (sample_split {0}) 0 of Inl e \<Rightarrow> False
    | Inr (b, scs, c) \<Rightarrow> b \<and> map sc_nodes scs = [[3, 4, 1, 2]]" by code_simp
  then show ?thesis by (auto split: sum.splits)
qed

lemma InitialSplitRun_sound_witness:
  "\<exists>scopes c'. InitialSplitRun [1, 0] CUSTOMIZE_QUEUE (sample_split {0}) 9 = Inr (True, scopes, c') \<and>
     distinct (concat (map sc_nodes scopes))"
proof -
  have "heads_ok [1, 0] (sample_split {0})" using sample_split_heads[of "{0}"] by (auto simp: heads_ok_def)
  from InitialSplitRun_sound[OF sample_split_walkable this] show ?thesis by blast
qed

lemma InitialSplitRun_order_witness:
  "\<exists>n. GetNodeById (sample_split {0}) 1 = Some n \<and> nd_nodeType n = NODE_WAIT \<and>
     GetCorrespondingNotifyNodeId n = 4 \<and> GetCorrespondingNotifyNodeId n \<in> set [3, 4]"
proof -
  from sample_split_run obtain c' sc where
    run: "InitialSplitRun [0, 1] PRIORITY_QUEUE (sample_split {0}) 0 = Inr (True, [sc], c')"
      "sc_nodes sc = [3, 4, 1, 2]" by blast
  obtain n where n: "GetNodeById (sample_split {0}) 1 = Some n" "nd_nodeType n = NODE_WAIT"
    "GetCorrespondingNotifyNodeId n = 4"
    by (simp add: GetNodeById_def sample_split_defs GetCorrespondingNotifyNodeId_def)
  have "concat (map sc_nodes [sc]) = [3, 4] @ 1 # [2]" using run(2) by simp
  from InitialSplitRun_order[OF sample_split_walkable sample_split_heads run(1) this n(1)] n
  show ?thesis by auto
qed

lemma InitialSplitRun_stream_infos_witness:
  "\<exists>scopes c'. InitialSplitRun [0, 1] PRIORITY_QUEUE (sample_split {0}) 0 = Inr (True, scopes, c') \<and>
     scopes \<noteq> [] \<and> (\<forall>sc\<in>set scopes. RebuildStreamInfos (sample_split {0}) sc = Inr sc)"
proof -
  from sample_split_run obtain c' sc where
    run: "InitialSplitRun [0, 1] PRIORITY_QUEUE (sample_split {0}) 0 = Inr (True, [sc], c')" by blast
  from InitialSplitRun_stream_infos[OF sample_split_walkable sample_split_heads run] run show ?thesis by auto
qed

text \<open>
  \<^bold>\<open>The split gives up too early.\<close> When the least node is a wait whose notify node lies on a stream
  with other flags, the flags of the wait are chosen, its stream is suspended and the other stream
  is shut out, the heap stays empty and the pass succeeds without a scope, although every node can
  be fused; with equal flags all four nodes are fused.
\<close>

theorem InitialSplitRun_gives_up:
  "InitialSplitRun [0, 1] PRIORITY_QUEUE (sample_split {1}) 0 = Inr (True, [], 0)"
proof -
  have "case InitialSplitRun [0, 1] PRIORITY_QUEUE (sample_split {1}) 0 of Inl e \<Rightarrow> False
    | Inr (b, scs, c) \<Rightarrow> b \<and> scs = [] \<and> c = 0" by code_simp
  then show ?thesis by (auto split: sum.splits)
qed

end
