(* ===== verification/Sk_Passes.thy ===== *)
theory Sk_Passes
  imports Sk_Scope Sk_Lock_Detector
begin

text \<open>
  The passes that refine the scopes of the initial split (\<^verbatim>\<open>sk_scope_split.cpp\<close>): splitting where
  the core needs of synchronising kernels change, splitting at a wait before a deadlock, and taking
  out default nodes and streams of events only. A pass works on the graph, the detectors and
  the counter for scope ids, and may ask for the whole split to be repeated.
\<close>

section \<open>What the passes share\<close>

text \<open>Each deadlock pass owns a detector; \<open>cx_locks k\<close> is that of the \<open>k\<close>-th.\<close>

record split_ctx =
  cx_graph :: sk_graph
  cx_locks :: "nat \<Rightarrow> lock_state"
  cx_nextId :: u16
  cx_resplit :: bool

type_synonym pass = "split_ctx \<Rightarrow> sk_scope list \<Rightarrow> (bool \<times> split_ctx \<times> sk_scope list) run"

definition RequestResplit :: "split_ctx \<Rightarrow> split_ctx" where
  "RequestResplit cx = cx\<lparr> cx_resplit := True \<rparr>"

definition make_scope :: "split_ctx \<Rightarrow> sk_scope \<times> split_ctx" where
  "make_scope cx = (let (sc, c) = new_scope (cx_nextId cx) in (sc, cx\<lparr> cx_nextId := c \<rparr>))"

definition SetupScopeAfterBreakInfo :: "break_info \<Rightarrow> u16 \<Rightarrow> bool \<Rightarrow> sk_scope \<Rightarrow> sk_scope" where
  "SetupScopeAfterBreakInfo orig origId same sc = sc\<lparr> sc_breakInfo :=
     orig\<lparr> bk_parentScopeId := (if same then origId else INVALID_SCOPE_ID) \<rparr> \<rparr>"

section \<open>Kernels that synchronise all cores\<close>

datatype sche_break = SB_NONE | CORE_DROP | CORE_RISE

text \<open>The cores of a kernel, with a missing number derived from the other in the synchronising mode.\<close>

definition sche_cores :: "sk_node \<Rightarrow> u32 \<times> u32" where
  "sche_cores n = (let c = GetCubeNum n; v = GetVecNum n in
     if IsScheModeOn n then
       (let v' = (if v = 0 then c * 2 else v); c' = (if c = 0 then (v' + 1) div 2 else c) in (c', v'))
     else (c, v))"

definition smaller :: "u32 \<Rightarrow> u32 \<Rightarrow> bool" where
  "smaller cur merged \<longleftrightarrow> cur \<noteq> 0 \<and> cur < merged"

definition bigger :: "u32 \<Rightarrow> u32 \<Rightarrow> bool" where
  "bigger cur merged \<longleftrightarrow> cur \<noteq> 0 \<and> cur > merged"

definition sche_break_type :: "u32 \<times> u32 \<times> bool \<Rightarrow> sk_node \<Rightarrow> sche_break" where
  "sche_break_type m n = (case m of (mc, mv, mode) \<Rightarrow> (case sche_cores n of (c, v) \<Rightarrow>
     if IsScheModeOn n \<and> (smaller c mc \<or> smaller v mv) then CORE_DROP
     else if mode \<and> (bigger c mc \<or> bigger v mv) then CORE_RISE else SB_NONE))"

definition sche_merge :: "u32 \<times> u32 \<times> bool \<Rightarrow> sk_node \<Rightarrow> u32 \<times> u32 \<times> bool" where
  "sche_merge m n = (case m of (mc, mv, mode) \<Rightarrow> (case sche_cores n of (c, v) \<Rightarrow>
     (max mc c, max mv v, mode \<or> IsScheModeOn n)))"

text \<open>The first node at which the scope must be split, with the break and the merged cores.\<close>

fun sche_scan :: "sk_graph \<Rightarrow> node_id list \<Rightarrow> (u32 \<times> u32 \<times> bool) option \<Rightarrow>
    (node_id \<times> sk_node \<times> sche_break \<times> u32 \<times> u32) option" where
  "sche_scan g [] m = None"
| "sche_scan g (i # is) m = (case GetNodeById g i of
     None \<Rightarrow> sche_scan g is m
   | Some n \<Rightarrow>
       if nd_nodeType n \<noteq> NODE_KERNEL then sche_scan g is m
       else (case m of
         None \<Rightarrow> (case sche_cores n of (c, v) \<Rightarrow> sche_scan g is (Some (c, v, IsScheModeOn n)))
       | Some (mc, mv, mode) \<Rightarrow>
           if sche_break_type (mc, mv, mode) n \<noteq> SB_NONE
           then Some (i, n, sche_break_type (mc, mv, mode) n, mc, mv)
           else sche_scan g is (Some (sche_merge (mc, mv, mode) n))))"

text \<open>The scope up to the split node and from it on; nodes are compared by pointer.\<close>

definition SplitScopeAtNode ::
  "sk_graph \<Rightarrow> sk_scope \<Rightarrow> node_id \<Rightarrow> sk_scope \<Rightarrow> sk_scope \<Rightarrow> (sk_scope \<times> sk_scope) run" where
  "SplitScopeAtNode g sc i before after =
    bindR (RebuildStreamInfos g (before\<lparr> sc_bitFlags := sc_bitFlags sc,
        sc_nodes := takeWhile (\<lambda>j. j \<noteq> i) (sc_nodes sc) \<rparr>)) (\<lambda>b.
      bindR (RebuildStreamInfos g (after\<lparr> sc_bitFlags := sc_bitFlags sc,
        sc_nodes := dropWhile (\<lambda>j. j \<noteq> i) (sc_nodes sc) \<rparr>)) (\<lambda>a. Inr (b, a)))"

definition is_sche_kernel :: "sk_node option \<Rightarrow> bool" where
  "is_sche_kernel p = (case p of None \<Rightarrow> False | Some n \<Rightarrow> nd_nodeType n = NODE_KERNEL \<and> IsScheModeOn n)"

definition sche_detail :: "sche_break \<Rightarrow> sk_node \<Rightarrow> u32 \<Rightarrow> u32 \<Rightarrow> string" where
  "sche_detail b n mc mv = (case sche_cores n of (c, v) \<Rightarrow>
     ''ScheMode core '' @ (if b = CORE_DROP then ''drop'' else ''rise'') @ '' at node '' @
     word_str (nd_nodeId n) @ '': merged('' @ word_str mc @ '','' @ word_str mv @ '')'' @
     '' -> cur('' @ word_str c @ '','' @ word_str v @ '')'')"

definition SetupScheModeScopeBeforeBreakInfo ::
  "sk_graph \<Rightarrow> break_info \<Rightarrow> u16 \<Rightarrow> sk_node \<Rightarrow> sche_break \<Rightarrow> u32 \<Rightarrow> u32 \<Rightarrow> bool \<Rightarrow> sk_scope \<Rightarrow> sk_scope" where
  "SetupScheModeScopeBeforeBreakInfo g orig origId n b mc mv same before =
    (if same then before\<lparr> sc_breakInfo := orig\<lparr> bk_parentScopeId := origId \<rparr> \<rparr>
     else
       (let ids = (if b = CORE_DROP then
             (if nd_nodeType n = NODE_KERNEL \<and> IsScheModeOn n then [nd_nodeId n] else [])
           else if b = CORE_RISE then filter (\<lambda>i. is_sche_kernel (GetNodeById g i)) (sc_nodes before)
           else [])
        in before\<lparr> sc_breakInfo := (sc_breakInfo before)\<lparr> bk_reason := SYNCALL_OP_DROP,
             bk_triggerNodeId := nd_nodeId n, bk_triggerStreamIdx := nd_streamIdxInGraph n,
             bk_syncAllNodeIds := ids, bk_detail := sche_detail b n mc mv \<rparr> \<rparr>))"

text \<open>\<open>ProcessSingleScope\<close>: the scopes finished, the rest still to be processed, and the context.\<close>

definition ScheModeProcessSingleScope ::
  "sk_scope \<Rightarrow> sk_scope list \<Rightarrow> split_ctx \<Rightarrow> (sk_scope list \<times> sk_scope option \<times> split_ctx) run" where
  "ScheModeProcessSingleScope sc out cx =
    (if sc_nodes sc = [] then Inr (out, None, cx)
     else case sche_scan (cx_graph cx) (sc_nodes sc) None of
       None \<Rightarrow> Inr (out @ [sc], None, cx)
     | Some (i, n, b, mc, mv) \<Rightarrow>
         (let g = cx_graph cx; (before0, cx1) = make_scope cx; (after0, cx2) = make_scope cx1 in
          bindR (SplitScopeAtNode g sc i before0 after0) (\<lambda>(before, after).
            let before1 = SetupScheModeScopeBeforeBreakInfo g (sc_breakInfo sc) (sc_scopeId sc) n b mc mv
                  (HasSameKernelNodes g sc before) before;
                after1 = SetupScopeAfterBreakInfo (sc_breakInfo sc) (sc_scopeId sc)
                  (HasSameKernelNodes g sc after) after
            in Inr (if sc_nodes before1 \<noteq> [] then out @ [before1] else out,
                 if sc_nodes after1 \<noteq> [] then Some after1 else None, cx2))))"

primrec sche_loop ::
  "nat \<Rightarrow> sk_scope \<Rightarrow> sk_scope list \<Rightarrow> split_ctx \<Rightarrow> (sk_scope list \<times> split_ctx) run" where
  "sche_loop 0 = (\<lambda>sc out cx. Inl OutOfFuel)"
| "sche_loop (Suc fuel) = (\<lambda>sc out cx.
    bindR (ScheModeProcessSingleScope sc out cx) (\<lambda>(out1, pending, cx1). case pending of
      None \<Rightarrow> Inr (out1, cx1) | Some sc1 \<Rightarrow> sche_loop fuel sc1 out1 cx1))"

definition ScheModeRun :: pass where
  "ScheModeRun cx scopes =
    bindR (foldR (\<lambda>sc (out, cx). sche_loop (Suc (length (sc_nodes sc))) sc out cx) scopes ([], cx))
      (\<lambda>(out, cx1). Inr (True, cx1, out))"

section \<open>Deadlocks\<close>

datatype scope_result = NO_DEADLOCK | DEADLOCK_RESOLVED | DEADLOCK_UNRESOLVED

text \<open>The node that may not join, if any, with the last wait up to and including it.\<close>

fun find_deadlock ::
  "node_id list \<Rightarrow> node_id option \<Rightarrow> lock_st \<Rightarrow> ((node_id \<times> node_id option) option \<times> lock_st) run" where
  "find_deadlock [] w st = Inr (None, st)"
| "find_deadlock (i # is) w st = bindR (derefR (GetNodeById (snd st) i)) (\<lambda>n.
    let w' = (if nd_nodeType n = NODE_WAIT then Some i else w) in
    bindR (IsFusible i st) (\<lambda>(ok, st1).
      if \<not> ok then Inr (Some (i, w'), st1) else find_deadlock is w' st1))"

definition FindDeadlockInScope ::
  "sk_scope \<Rightarrow> lock_st \<Rightarrow> ((node_id \<times> node_id option) option \<times> lock_st) run" where
  "FindDeadlockInScope sc st = find_deadlock (sc_nodes sc) None (LockReset st)"

text \<open>The wait itself goes into neither part.\<close>

definition SplitScopeAtWaitNode ::
  "sk_graph \<Rightarrow> sk_scope \<Rightarrow> node_id \<Rightarrow> sk_scope \<Rightarrow> sk_scope \<Rightarrow> (sk_scope \<times> sk_scope) run" where
  "SplitScopeAtWaitNode g sc w before after =
    bindR (RebuildStreamInfos g (before\<lparr> sc_bitFlags := sc_bitFlags sc,
        sc_nodes := takeWhile (\<lambda>j. j \<noteq> w) (sc_nodes sc) \<rparr>)) (\<lambda>b.
      bindR (RebuildStreamInfos g (after\<lparr> sc_bitFlags := sc_bitFlags sc,
        sc_nodes := filter (\<lambda>j. j \<noteq> w) (dropWhile (\<lambda>j. j \<noteq> w) (sc_nodes sc)) \<rparr>)) (\<lambda>a. Inr (b, a)))"

definition SetupScopeBeforeBreakInfo ::
  "break_info \<Rightarrow> u16 \<Rightarrow> sk_node \<Rightarrow> sk_node \<Rightarrow> bool \<Rightarrow> sk_scope \<Rightarrow> sk_scope" where
  "SetupScopeBeforeBreakInfo orig origId dn wn same before =
    (if same then before\<lparr> sc_breakInfo := orig\<lparr> bk_parentScopeId := origId \<rparr> \<rparr>
     else before\<lparr> sc_breakInfo := (sc_breakInfo before)\<lparr> bk_reason := DEADLOCK_DETECTED,
        bk_triggerNodeId := nd_nodeId dn, bk_triggerStreamIdx := nd_streamIdxInGraph dn,
        bk_detail := ''Deadlock at node '' @ word_str (nd_nodeId dn) @ '', split at Wait node '' @
          word_str (nd_nodeId wn) \<rparr> \<rparr>)"

definition HandleDeadlockSplit ::
  "sk_scope \<Rightarrow> node_id \<Rightarrow> node_id \<Rightarrow> sk_scope list \<Rightarrow> split_ctx \<Rightarrow>
    (scope_result \<times> sk_scope list \<times> sk_scope option \<times> split_ctx) run" where
  "HandleDeadlockSplit sc d w out cx =
    (let (before0, cx1) = make_scope cx; (after0, cx2) = make_scope cx1 in
     bindR (SplitScopeAtWaitNode (cx_graph cx) sc w before0 after0) (\<lambda>(before, after).
     bindR (derefR (GetNodeById (cx_graph cx) d)) (\<lambda>dn.
     bindR (derefR (GetNodeById (cx_graph cx) w)) (\<lambda>wn.
       let g = upd_node d (SetFusionFailReason EXIST_DEADLOCK) (cx_graph cx);
           before1 = SetupScopeBeforeBreakInfo (sc_breakInfo sc) (sc_scopeId sc) dn wn
             (HasSameKernelNodes g sc before) before;
           after1 = SetupScopeAfterBreakInfo (sc_breakInfo sc) (sc_scopeId sc)
             (HasSameKernelNodes g sc after) after;
           pending = (if sc_nodes after1 \<noteq> [] then Some after1 else None)
       in if sc_nodes before1 \<noteq> []
          then bindR (SetNotifyNodesExpandNumForScope before1 g) (\<lambda>g1.
            Inr (DEADLOCK_RESOLVED, out @ [before1], pending, cx2\<lparr> cx_graph := g1 \<rparr>))
          else Inr (DEADLOCK_RESOLVED, out, pending, cx2\<lparr> cx_graph := g \<rparr>)))))"

definition put_lock :: "nat \<Rightarrow> lock_st \<Rightarrow> split_ctx \<Rightarrow> split_ctx" where
  "put_lock k st cx = cx\<lparr> cx_locks := (cx_locks cx)(k := fst st), cx_graph := snd st \<rparr>"

definition DeadlockProcessSingleScope ::
  "nat \<Rightarrow> sk_scope \<Rightarrow> sk_scope list \<Rightarrow> split_ctx \<Rightarrow>
    (scope_result \<times> sk_scope list \<times> sk_scope option \<times> split_ctx) run" where
  "DeadlockProcessSingleScope k sc out cx =
    (if sc_nodes sc = [] then Inr (NO_DEADLOCK, out, None, cx)
     else bindR (FindDeadlockInScope sc (cx_locks cx k, cx_graph cx)) (\<lambda>(found, st).
       let cx1 = put_lock k st cx in
       case found of
         None \<Rightarrow> bindR (SetNotifyNodesExpandNumForScope sc (cx_graph cx1)) (\<lambda>g.
           Inr (NO_DEADLOCK, out @ [sc], None, cx1\<lparr> cx_graph := g \<rparr>))
       | Some (d, None) \<Rightarrow> Inr (DEADLOCK_UNRESOLVED, out, None, cx1)
       | Some (d, Some w) \<Rightarrow> HandleDeadlockSplit sc d w out cx1))"

primrec deadlock_loop ::
  "nat \<Rightarrow> nat \<Rightarrow> sk_scope \<Rightarrow> sk_scope list \<Rightarrow> split_ctx \<Rightarrow> (bool \<times> sk_scope list \<times> split_ctx) run" where
  "deadlock_loop 0 k = (\<lambda>sc out cx. Inl OutOfFuel)"
| "deadlock_loop (Suc fuel) k = (\<lambda>sc out cx.
    bindR (DeadlockProcessSingleScope k sc out cx) (\<lambda>(res, out1, pending, cx1).
      if res = DEADLOCK_UNRESOLVED then Inr (False, out1, cx1)
      else case pending of None \<Rightarrow> Inr (True, out1, cx1)
        | Some sc1 \<Rightarrow> deadlock_loop fuel k sc1 out1 cx1))"

fun deadlock_scopes ::
  "nat \<Rightarrow> sk_scope list \<Rightarrow> sk_scope list \<Rightarrow> split_ctx \<Rightarrow> (bool \<times> sk_scope list \<times> split_ctx) run" where
  "deadlock_scopes k [] out cx = Inr (True, out, cx)"
| "deadlock_scopes k (sc # scs) out cx =
    bindR (deadlock_loop (Suc (length (sc_nodes sc))) k sc out cx) (\<lambda>(ok, out1, cx1).
      if \<not> ok then Inr (False, out1, cx1) else deadlock_scopes k scs out1 cx1)"

definition DeadlockRefineRun :: "nat \<Rightarrow> pass" where
  "DeadlockRefineRun k cx scopes =
    bindR (deadlock_scopes k scopes [] cx) (\<lambda>(ok, out, cx1).
      if \<not> ok then Inr (False, cx1, [])
      else let g = fold ResetNotifyExpandNumForScope out (cx_graph cx1)
        in Inr (True, put_lock k (LockReset (cx_locks cx1 k, g)) cx1, out))"

end
