(* ===== verification/Sk_Node_Passes.thy ===== *)
theory Sk_Node_Passes
  imports Sk_Passes
begin

text \<open>
  The passes that look at the kinds of nodes on the streams of a scope (\<^verbatim>\<open>sk_scope_split.cpp\<close>):
  streams of events only, default nodes, and the debug split into one scope per kernel. The
  unordered maps from streams are lists in the order in which the streams appear in the scope; the
  result does not depend on it.
\<close>

section \<open>Streams of events only\<close>

definition IsEventNode :: "sk_node option \<Rightarrow> bool" where
  "IsEventNode p = (case p of None \<Rightarrow> False
     | Some n \<Rightarrow> nd_nodeType n \<in> {NODE_NOTIFY, NODE_WAIT, NODE_RESET, NODE_MEMORY_WRITE, NODE_MEMORY_WAIT})"

definition collect_node :: "sk_graph \<Rightarrow> node_id \<Rightarrow> (u32 \<times> node_id list) list \<Rightarrow> (u32 \<times> node_id list) list" where
  "collect_node g i m = (case GetNodeById g i of None \<Rightarrow> m
     | Some n \<Rightarrow> (let s = nd_streamIdxInGraph n in
         AList.update s ((case map_of m s of None \<Rightarrow> [] | Some xs \<Rightarrow> xs) @ [i]) m))"

definition CollectNodesPerStream :: "sk_graph \<Rightarrow> sk_scope \<Rightarrow> (u32 \<times> node_id list) list" where
  "CollectNodesPerStream g sc = fold (collect_node g) (sc_nodes sc) []"

definition IsStreamAllEventNodes :: "sk_graph \<Rightarrow> node_id list \<Rightarrow> bool" where
  "IsStreamAllEventNodes g ids \<longleftrightarrow> ids \<noteq> [] \<and>
     (\<forall>i\<in>set ids. GetNodeById g i = None \<or> IsEventNode (GetNodeById g i))"

definition mark_event :: "node_id \<Rightarrow> sk_graph \<times> u32 \<Rightarrow> sk_graph \<times> u32" where
  "mark_event i p = (case p of (g, marked) \<Rightarrow> (case GetNodeById g i of None \<Rightarrow> (g, marked)
     | Some n \<Rightarrow> if nd_isFusible n
         then (upd_node i (\<lambda>n. SetFusionFailReason ISOLATED_EVENT (n\<lparr> nd_isFusible := False \<rparr>)) g, marked + 1)
         else (g, marked)))"

definition EventOnlyProcessScope :: "sk_scope \<Rightarrow> sk_graph \<times> u32 \<Rightarrow> sk_graph \<times> u32" where
  "EventOnlyProcessScope sc p = (case p of (g, marked) \<Rightarrow>
     fold (\<lambda>(s, ids) (g, marked). if IsStreamAllEventNodes g ids then fold mark_event ids (g, marked)
       else (g, marked)) (CollectNodesPerStream g sc) (g, marked))"

definition EventOnlyRun :: pass where
  "EventOnlyRun cx scopes =
    (let (g, marked) = fold EventOnlyProcessScope scopes (cx_graph cx, 0); cx1 = cx\<lparr> cx_graph := g \<rparr>
     in if marked > 0 then Inr (True, RequestResplit cx1, []) else Inr (True, cx1, scopes))"

section \<open>Default nodes\<close>

record stream_default_info =
  sd_hasKernel :: bool
  sd_defaults :: "node_id list"

definition collect_default ::
  "sk_graph \<Rightarrow> node_id \<Rightarrow> (u32 \<times> stream_default_info) list \<Rightarrow> (u32 \<times> stream_default_info) list run" where
  "collect_default g i m = bindR (derefR (GetNodeById g i)) (\<lambda>n.
     let s = nd_streamIdxInGraph n;
         x = (case map_of m s of None \<Rightarrow> \<lparr> sd_hasKernel = False, sd_defaults = [] \<rparr> | Some x \<Rightarrow> x)
     in Inr (if nd_nodeType n = NODE_KERNEL then AList.update s (x\<lparr> sd_hasKernel := True \<rparr>) m
             else if nd_nodeType n = NODE_DEFAULT
               then AList.update s (x\<lparr> sd_defaults := sd_defaults x @ [i] \<rparr>) m
             else m))"

definition CollectStreamInfo :: "sk_graph \<Rightarrow> sk_scope \<Rightarrow> (u32 \<times> stream_default_info) list run" where
  "CollectStreamInfo g sc = foldR (collect_default g) (sc_nodes sc) []"

definition MarkDefaultsUnfusible :: "node_id list \<Rightarrow> sk_graph \<Rightarrow> sk_graph" where
  "MarkDefaultsUnfusible ids g =
     fold (\<lambda>i. upd_node i (\<lambda>n. SetFusionFailReason DEFAULT_NODE (n\<lparr> nd_isFusible := False \<rparr>))) ids g"

definition has_type :: "sk_graph \<Rightarrow> sk_node_type \<Rightarrow> node_id \<Rightarrow> bool" where
  "has_type g t i = (case GetNodeById g i of None \<Rightarrow> False | Some n \<Rightarrow> nd_nodeType n = t)"

definition RemoveStreamFromScope :: "sk_graph \<Rightarrow> u32 \<Rightarrow> sk_scope \<Rightarrow> sk_scope" where
  "RemoveStreamFromScope g s sc = sc\<lparr> sc_nodes :=
     filter (\<lambda>i. map_option nd_streamIdxInGraph (GetNodeById g i) \<noteq> Some s) (sc_nodes sc) \<rparr>"

text \<open>Every default node of the scope goes, whichever stream it is on.\<close>

definition RemoveDefaultsAndStreams :: "sk_graph \<Rightarrow> u32 list \<Rightarrow> sk_scope \<Rightarrow> sk_scope run" where
  "RemoveDefaultsAndStreams g streams sc = RebuildStreamInfos g (fold (RemoveStreamFromScope g) streams
     (sc\<lparr> sc_nodes := filter (\<lambda>i. \<not> has_type g NODE_DEFAULT i) (sc_nodes sc) \<rparr>))"

definition DefaultProcessSingleScope ::
  "sk_graph \<Rightarrow> sk_scope \<Rightarrow> (u32 \<times> sk_graph \<times> sk_scope) run" where
  "DefaultProcessSingleScope g sc = bindR (CollectStreamInfo g sc) (\<lambda>m.
     let used = filter (\<lambda>(s, x). sd_defaults x \<noteq> []) m;
         mark = concat (map (\<lambda>(s, x). sd_defaults x) (filter (\<lambda>(s, x). sd_hasKernel x) used));
         drop = filter (\<lambda>(s, x). \<not> sd_hasKernel x) used
     in if mark = [] \<and> drop = [] then Inr (0, g, sc)
        else if mark \<noteq> [] then Inr (of_nat (length mark), MarkDefaultsUnfusible mark g, sc)
        else bindR (RemoveDefaultsAndStreams g (map fst drop) sc) (\<lambda>sc1. Inr (0, g, sc1)))"

definition DefaultNodeRun :: pass where
  "DefaultNodeRun cx scopes =
    bindR (foldR (\<lambda>sc (total, g, out). bindR (DefaultProcessSingleScope g sc) (\<lambda>(m, g1, sc1).
        Inr (total + m, g1, out @ [sc1]))) scopes (0 :: u32, cx_graph cx, []))
      (\<lambda>(total, g, out). let cx1 = cx\<lparr> cx_graph := g \<rparr> in
        if total > 0 then Inr (True, RequestResplit cx1, [])
        else Inr (True, cx1, filter (\<lambda>sc. sc_nodes sc \<noteq> []) out))"

section \<open>One scope per kernel\<close>

primrec per_op_stream ::
  "nat \<Rightarrow> node_id \<Rightarrow> split_ctx \<times> sk_scope list \<Rightarrow> (split_ctx \<times> sk_scope list) run" where
  "per_op_stream 0 = (\<lambda>i p. Inl OutOfFuel)"
| "per_op_stream (Suc fuel) = (\<lambda>i p. case p of (cx, out) \<Rightarrow>
    if i = INVALID_TASK_ID then Inr (cx, out)
    else case GetNodeById (cx_graph cx) i of
      None \<Rightarrow> Inr (cx, out)
    | Some n \<Rightarrow>
        bindR (if nd_nodeType n = NODE_KERNEL \<and> nd_isFusible n then
            (let (sc, cx1) = make_scope cx in
             bindR (RebuildStreamInfos (cx_graph cx1) (sc\<lparr> sc_nodes := sc_nodes sc @ [i] \<rparr>)) (\<lambda>sc1.
               Inr (cx1, out @ [sc1])))
          else Inr (cx, out)) (per_op_stream fuel (nd_nextNodeId n)))"

definition PerOpMaxCoreRun :: pass where
  "PerOpMaxCoreRun cx scopes =
    bindR (foldR (per_op_stream (Suc (length (sg_nodeIds (cx_graph cx))))) (sg_headNodes (cx_graph cx)) (cx, []))
      (\<lambda>(cx1, out). Inr (True, cx1, out))"

end
