(* ===== verification/Sk_Splitter.thy ===== *)
theory Sk_Splitter
  imports Sk_Node_Passes Sk_Initial_Split
begin

text \<open>
  The pipeline of the passes (\<^verbatim>\<open>SuperKernelScopeSplitter\<close> in \<^verbatim>\<open>sk_scope_split.cpp\<close>): which passes
  run in which order, and their repetition while a pass asks for a new split.
\<close>

text \<open>
  The options that decide on the passes: the value of the queue option, if it is set, and whether
  one scope per kernel and the bypass of task breakers are on. The integer option is cast to the
  8-bit enumeration of queues; a value that is none of its constants acts like the last one.
\<close>

record split_options =
  op_autoOpParallel :: "int option"
  op_perOpMaxCore :: bool
  op_taskBreakerBypass :: bool

definition heap_type_of :: "int option \<Rightarrow> sk_heap_type" where
  "heap_type_of v = (case v of None \<Rightarrow> PRIORITY_QUEUE
     | Some k \<Rightarrow> let b = k mod 256 in
         if b = 0 then PRIORITY_QUEUE else if b = 1 then CUSTOMIZE_QUEUE else DEFAULT_QUEUE)"

definition InitialRun :: "u32 list \<Rightarrow> sk_heap_type \<Rightarrow> pass" where
  "InitialRun order m cx scopes =
    bindR (InitialSplitRun order m (cx_graph cx) (cx_nextId cx)) (\<lambda>(ok, out, c).
      Inr (ok, cx\<lparr> cx_nextId := c \<rparr>, out))"

definition splitter_passes :: "u32 list \<Rightarrow> split_options \<Rightarrow> pass list" where
  "splitter_passes order opts =
    (if op_perOpMaxCore opts then [PerOpMaxCoreRun]
     else [InitialRun order (heap_type_of (op_autoOpParallel opts)), ScheModeRun, DeadlockRefineRun 0] @
       (if op_taskBreakerBypass opts then [DefaultNodeRun, DeadlockRefineRun 1] else []) @ [EventOnlyRun])"

primrec default_stream :: "nat \<Rightarrow> node_id \<Rightarrow> sk_graph \<Rightarrow> sk_graph run" where
  "default_stream 0 = (\<lambda>i g. Inl OutOfFuel)"
| "default_stream (Suc fuel) = (\<lambda>i g.
    if i = INVALID_TASK_ID then Inr g
    else case GetNodeById g i of
      None \<Rightarrow> Inr g
    | Some n \<Rightarrow> default_stream fuel (nd_nextNodeId n)
        (if nd_nodeType n = NODE_DEFAULT then upd_node i (\<lambda>n. n\<lparr> nd_isFusible := True \<rparr>) g else g))"

definition InitDefaultNodeFusibility :: "split_options \<Rightarrow> sk_graph \<Rightarrow> sk_graph run" where
  "InitDefaultNodeFusibility opts g =
    (if \<not> op_taskBreakerBypass opts then Inr g
     else foldR (default_stream (Suc (length (sg_nodeIds g)))) (sg_headNodes g) g)"

text \<open>The passes of one round, up to the one that fails or asks for a new split.\<close>

fun run_passes :: "pass list \<Rightarrow> pass" where
  "run_passes [] cx scopes = Inr (True, cx, scopes)"
| "run_passes (p # ps) cx scopes = bindR (p cx scopes) (\<lambda>(ok, cx1, scopes1).
     if \<not> ok then Inr (False, cx1, scopes1)
     else if cx_resplit cx1 then Inr (True, cx1, scopes1)
     else run_passes ps cx1 scopes1)"

text \<open>At most \<open>k\<close> further rounds; after the last one the split counts as complete.\<close>

fun rounds :: "nat \<Rightarrow> pass list \<Rightarrow> split_ctx \<Rightarrow> (bool \<times> split_ctx \<times> sk_scope list) run" where
  "rounds 0 ps cx = Inr (True, cx, [])"
| "rounds (Suc k) ps cx = bindR (run_passes ps (cx\<lparr> cx_resplit := False \<rparr>) []) (\<lambda>(ok, cx1, scopes).
     if \<not> ok then Inr (False, cx1, scopes)
     else if k = 0 \<or> \<not> cx_resplit cx1 then Inr (True, cx1, scopes)
     else rounds k ps cx1)"

definition SplitGraph :: "u32 list \<Rightarrow> split_options \<Rightarrow> split_ctx \<Rightarrow> (bool \<times> split_ctx \<times> sk_scope list) run" where
  "SplitGraph order opts cx =
    bindR (InitDefaultNodeFusibility opts (cx_graph cx)) (\<lambda>g.
      rounds 10 (splitter_passes order opts) (cx\<lparr> cx_graph := g \<rparr>))"

end
