(* ===== verification/Sk_Frame.thy ===== *)
theory Sk_Frame
  imports Sk_Initial_Sound Sk_Splitter "HOL-Library.Sublist"
begin

text \<open>
  What the passes of the scope split leave alone and what they keep: the frame of the graph, and the
  soundness of a list of scopes. The contract of a pass is stated as a locale, which each pass
  interprets in its own theory.
\<close>

section \<open>The frame of the graph\<close>

text \<open>The part of a node that no pass writes.\<close>

definition node_frame :: "sk_node \<Rightarrow> sk_node" where
  "node_frame n = n\<lparr> nd_isVisited := False, nd_isFusible := False, nd_fusionFailReason := default_fail_info,
     nd_notifyExpandVecNum := 0, nd_notifyExpandCubeNum := 0, nd_scopeStreamIds := {} \<rparr>"

definition same_frame :: "sk_graph \<Rightarrow> sk_graph \<Rightarrow> bool" where
  "same_frame g h \<longleftrightarrow> sg_nodeIds h = sg_nodeIds g \<and> sg_headNodes h = sg_headNodes g \<and>
     (\<forall>i. map_option node_frame (GetNodeById h i) = map_option node_frame (GetNodeById g i))"

text \<open>A quiet change leaves alone which nodes can be fused as well.\<close>

definition calm :: "sk_graph \<Rightarrow> sk_graph \<Rightarrow> bool" where
  "calm g h \<longleftrightarrow> same_frame g h \<and>
     (\<forall>i. map_option nd_isFusible (GetNodeById h i) = map_option nd_isFusible (GetNodeById g i))"

lemma same_frame_refl [simp]: "same_frame g g"
  by (simp add: same_frame_def)

lemma same_frame_sym: "same_frame g h \<Longrightarrow> same_frame h g"
  by (simp add: same_frame_def)

lemma same_frame_trans [trans]: "same_frame g h \<Longrightarrow> same_frame h k \<Longrightarrow> same_frame g k"
  by (simp add: same_frame_def)

lemma calm_refl [simp]: "calm g g"
  by (simp add: calm_def)

lemma calm_sym: "calm g h \<Longrightarrow> calm h g"
  by (simp add: calm_def same_frame_sym)

lemma calm_trans [trans]: "calm g h \<Longrightarrow> calm h k \<Longrightarrow> calm g k"
  by (auto simp: calm_def intro: same_frame_trans)

lemma calm_frame: "calm g h \<Longrightarrow> same_frame g h"
  by (simp add: calm_def)

lemma frame_upd: "(\<And>n. node_frame (f n) = node_frame n) \<Longrightarrow> same_frame g (upd_node i f g)"
  by (auto simp: same_frame_def option.map_comp o_def cong: map_option_cong)

lemma calm_upd:
  "(\<And>n. node_frame (f n) = node_frame n) \<Longrightarrow> (\<And>n. nd_isFusible (f n) = nd_isFusible n) \<Longrightarrow>
   calm g (upd_node i f g)"
  by (auto simp: calm_def frame_upd option.map_comp o_def cong: map_option_cong)

lemma node_frame_eqD:
  assumes "node_frame n = node_frame m"
  shows "nd_class n = nd_class m" "nd_kernelInfos n = nd_kernelInfos m" "nd_syncInfos n = nd_syncInfos m"
    "nd_streamIdxInGraph n = nd_streamIdxInGraph m" "nd_nodeIdxInStream n = nd_nodeIdxInStream m"
    "nd_nodeId n = nd_nodeId m" "nd_preNodeId n = nd_preNodeId m" "nd_nextNodeId n = nd_nextNodeId m"
    "nd_nodeType n = nd_nodeType m" "nd_isScopeNode n = nd_isScopeNode m"
    "nd_scopeBitFlags n = nd_scopeBitFlags m"
    "GetCorrespondingWaitNodeIds n = GetCorrespondingWaitNodeIds m"
    "GetCorrespondingNotifyNodeId n = GetCorrespondingNotifyNodeId m" "IsScheModeOn n = IsScheModeOn m"
proof -
  note c = assms[THEN arg_cong]
  show fields: "nd_class n = nd_class m" "nd_kernelInfos n = nd_kernelInfos m" "nd_syncInfos n = nd_syncInfos m"
    "nd_streamIdxInGraph n = nd_streamIdxInGraph m" "nd_nodeIdxInStream n = nd_nodeIdxInStream m"
    "nd_nodeId n = nd_nodeId m" "nd_preNodeId n = nd_preNodeId m" "nd_nextNodeId n = nd_nextNodeId m"
    "nd_nodeType n = nd_nodeType m" "nd_isScopeNode n = nd_isScopeNode m"
    "nd_scopeBitFlags n = nd_scopeBitFlags m"
    using c[of nd_class] c[of nd_kernelInfos] c[of nd_syncInfos] c[of nd_streamIdxInGraph]
      c[of nd_nodeIdxInStream] c[of nd_nodeId] c[of nd_preNodeId] c[of nd_nextNodeId] c[of nd_nodeType]
      c[of nd_isScopeNode] c[of nd_scopeBitFlags]
    by (simp_all add: node_frame_def)
  then show "GetCorrespondingWaitNodeIds n = GetCorrespondingWaitNodeIds m"
    "GetCorrespondingNotifyNodeId n = GetCorrespondingNotifyNodeId m" "IsScheModeOn n = IsScheModeOn m"
    by (simp_all add: node_getter_defs split: node_class.split)
qed

lemma same_frameD:
  assumes "same_frame g h" and "GetNodeById h i = Some n"
  obtains m where "GetNodeById g i = Some m" and "node_frame m = node_frame n"
proof -
  have "map_option node_frame (GetNodeById h i) = map_option node_frame (GetNodeById g i)"
    using assms(1) unfolding same_frame_def by blast
  then have "map_option node_frame (GetNodeById g i) = Some (node_frame n)" using assms(2) by simp
  then show thesis using that by auto
qed

lemma calmD:
  assumes "calm g h" and "GetNodeById h i = Some n"
  obtains m where "GetNodeById g i = Some m" and "node_frame m = node_frame n" and
    "nd_isFusible m = nd_isFusible n"
proof -
  obtain m where m: "GetNodeById g i = Some m" "node_frame m = node_frame n"
    using same_frameD[OF calm_frame[OF assms(1)] assms(2)] .
  have "map_option nd_isFusible (GetNodeById h i) = map_option nd_isFusible (GetNodeById g i)"
    using assms(1) unfolding calm_def by blast
  then show thesis using that m assms(2) by simp
qed

lemma same_frame_None: "same_frame g h \<Longrightarrow> GetNodeById h i = None \<longleftrightarrow> GetNodeById g i = None"
  unfolding same_frame_def by (metis map_option_is_None)

lemma same_frame_graph_ok:
  assumes "same_frame g h" and "graph_ok g"
  shows "graph_ok h"
proof -
  have "dom (sg_graphMap h) = dom (sg_graphMap g)"
    using same_frame_None[OF assms(1)] by (auto simp: GetNodeById_def dom_def)
  moreover have "nd_nodeId n = i" if n: "GetNodeById h i = Some n" for i n
  proof -
    obtain m where m: "GetNodeById g i = Some m" "node_frame m = node_frame n" using same_frameD[OF assms(1) n] .
    then show ?thesis using assms(2) node_frame_eqD(6)[OF m(2)] by (auto simp: graph_ok_def GetNodeById_def)
  qed
  ultimately show ?thesis using assms by (auto simp: graph_ok_def same_frame_def GetNodeById_def)
qed

lemma same_frame_node_linked:
  assumes "same_frame g h" and "node_frame m = node_frame n" and "node_linked g i m"
  shows "node_linked h i n"
proof -
  note eq = node_frame_eqD[OF assms(2)]
  have mate: "\<exists>k. GetNodeById h j = Some k \<and> nd_streamIdxInGraph k = nd_streamIdxInGraph k' \<and>
      nd_nodeIdxInStream k = nd_nodeIdxInStream k' \<and> nd_preNodeId k = nd_preNodeId k' \<and>
      nd_nextNodeId k = nd_nextNodeId k'" if k': "GetNodeById g j = Some k'" for j k'
  proof -
    obtain k where k: "GetNodeById h j = Some k" "node_frame k = node_frame k'"
      using same_frameD[OF same_frame_sym[OF assms(1)] k'] .
    show ?thesis using k(1) node_frame_eqD[OF k(2)] by simp
  qed
  show ?thesis
    unfolding node_linked_def
  proof (intro conjI impI)
    assume "nd_nextNodeId n \<noteq> INVALID_TASK_ID"
    then obtain k' where "GetNodeById g (nd_nextNodeId n) = Some k'" "nd_streamIdxInGraph k' = nd_streamIdxInGraph n"
      "nd_preNodeId k' = i" "unat (nd_nodeIdxInStream k') = Suc (unat (nd_nodeIdxInStream n))"
      using assms(3) eq by (auto simp: node_linked_def)
    then show "\<exists>m. GetNodeById h (nd_nextNodeId n) = Some m \<and> nd_streamIdxInGraph m = nd_streamIdxInGraph n \<and>
        nd_preNodeId m = i \<and> unat (nd_nodeIdxInStream m) = Suc (unat (nd_nodeIdxInStream n))"
      using mate[of "nd_nextNodeId n" k'] by auto
  next
    assume "nd_preNodeId n \<noteq> INVALID_TASK_ID"
    then obtain k' where "GetNodeById g (nd_preNodeId n) = Some k'" "nd_streamIdxInGraph k' = nd_streamIdxInGraph n"
      "nd_nextNodeId k' = i" "unat (nd_nodeIdxInStream n) = Suc (unat (nd_nodeIdxInStream k'))"
      using assms(3) eq by (auto simp: node_linked_def)
    then show "\<exists>m. GetNodeById h (nd_preNodeId n) = Some m \<and> nd_streamIdxInGraph m = nd_streamIdxInGraph n \<and>
        nd_nextNodeId m = i \<and> unat (nd_nodeIdxInStream n) = Suc (unat (nd_nodeIdxInStream m))"
      using mate[of "nd_preNodeId n" k'] by auto
  qed
qed

lemma same_frame_waits_ok:
  assumes "same_frame g h" and "waits_ok g"
  shows "waits_ok h"
  unfolding waits_ok_def
proof (intro allI impI)
  fix i n w assume n: "GetNodeById h i = Some n" "nd_nodeType n = NODE_NOTIFY" "w \<in> set (GetCorrespondingWaitNodeIds n)"
  obtain m where m: "GetNodeById g i = Some m" "node_frame m = node_frame n" using same_frameD[OF assms(1) n(1)] .
  have "GetNodeById g w \<noteq> None"
    using assms(2) m(1) n(2,3) node_frame_eqD(9,12)[OF m(2)] unfolding waits_ok_def by metis
  then show "GetNodeById h w \<noteq> None" using same_frame_None[OF assms(1)] by simp
qed

lemma same_frame_walkable:
  assumes "same_frame g h" and "walkable g"
  shows "walkable h"
proof -
  have "streams_linked h"
    unfolding streams_linked_def
  proof (intro allI impI)
    fix i n assume n: "GetNodeById h i = Some n"
    obtain m where m: "GetNodeById g i = Some m" "node_frame m = node_frame n" using same_frameD[OF assms(1) n] .
    then show "node_linked h i n"
      using assms(2) by (intro same_frame_node_linked[OF assms(1) m(2)]) (simp add: walkable_def streams_linked_def)
  qed
  then show ?thesis
    using assms same_frame_graph_ok same_frame_waits_ok same_frame_None by (simp add: walkable_def)
qed

lemma same_frame_heads_ok:
  assumes "same_frame g h" and "heads_ok order g"
  shows "heads_ok order h"
proof -
  have "nd_streamIdxInGraph n \<in> set order" if n: "GetNodeById h i = Some n" for i n
  proof -
    obtain m where "GetNodeById g i = Some m" "node_frame m = node_frame n" using same_frameD[OF assms(1) n] .
    then show ?thesis using assms(2) node_frame_eqD(4) unfolding heads_ok_def by metis
  qed
  moreover have "\<exists>n. GetNodeById h (sg_headNodes h ! unat s) = Some n \<and> nd_streamIdxInGraph n = s"
    if s: "s \<in> set order" for s
  proof -
    obtain m where m: "GetNodeById g (sg_headNodes g ! unat s) = Some m" "nd_streamIdxInGraph m = s"
      using assms(2) s unfolding heads_ok_def by blast
    obtain n where "GetNodeById h (sg_headNodes g ! unat s) = Some n" "node_frame n = node_frame m"
      using same_frameD[OF same_frame_sym[OF assms(1)] m(1)] .
    then show ?thesis using m(2) node_frame_eqD(4) assms(1) unfolding same_frame_def by metis
  qed
  moreover have "distinct order" "\<forall>s\<in>set order. unat s < length (sg_headNodes h)"
    using assms by (auto simp: heads_ok_def same_frame_def)
  ultimately show ?thesis unfolding heads_ok_def by blast
qed

lemma same_frame_stream:
  assumes "same_frame g h"
  shows "map_option nd_streamIdxInGraph (GetNodeById h i) = map_option nd_streamIdxInGraph (GetNodeById g i)"
    and "pos h i = pos g i"
proof -
  show "map_option nd_streamIdxInGraph (GetNodeById h i) = map_option nd_streamIdxInGraph (GetNodeById g i)"
  proof (cases "GetNodeById h i")
    case (Some n)
    obtain m where m: "GetNodeById g i = Some m" "node_frame m = node_frame n" using same_frameD[OF assms Some] .
    show ?thesis using Some m(1) node_frame_eqD(4)[OF m(2)] by simp
  qed (use same_frame_None[OF assms] in simp)
  show "pos h i = pos g i"
  proof (cases "GetNodeById h i")
    case (Some n)
    obtain m where m: "GetNodeById g i = Some m" "node_frame m = node_frame n" using same_frameD[OF assms Some] .
    show ?thesis using Some m(1) node_frame_eqD(5)[OF m(2)] by (simp add: pos_def)
  qed (use same_frame_None[OF assms, of i] in \<open>simp add: pos_def\<close>)
qed

lemma has_type_frame: "same_frame g h \<Longrightarrow> has_type h t i \<longleftrightarrow> has_type g t i"
proof (cases "GetNodeById h i")
  case (Some n)
  assume f: "same_frame g h"
  obtain m where m: "GetNodeById g i = Some m" "node_frame m = node_frame n" using same_frameD[OF f Some] .
  then show ?thesis using Some node_frame_eqD(9)[OF m(2)] by (simp add: has_type_def)
next
  case None
  assume "same_frame g h"
  then show ?thesis using None same_frame_None[of g h i] by (simp add: has_type_def)
qed

lemma same_frame_known: "same_frame g h \<Longrightarrow> known h ids \<longleftrightarrow> known g ids"
  using same_frame_None by (auto simp: known_def GetNodeById_def dom_def subset_iff)

lemma same_frame_entries:
  assumes "same_frame g h" and "known g ids"
  shows "map (stream_entry h ids) (streams_of h ids) = map (stream_entry g ids) (streams_of g ids)"
proof -
  have on: "on_stream h s ids = on_stream g s ids" for s
    using same_frame_stream(1)[OF assms(1)] by (simp add: on_stream_def)
  have "streams_of h ids = streams_of g ids"
    unfolding streams_of_def
  proof (intro arg_cong[of _ _ "\<lambda>xs. rev (remdups (rev xs))"] map_cong[OF refl])
    fix i assume "i \<in> set ids"
    then obtain m where m: "GetNodeById g i = Some m" using assms(2) by (auto simp: known_def GetNodeById_def)
    then show "nd_streamIdxInGraph (the (GetNodeById h i)) = nd_streamIdxInGraph (the (GetNodeById g i))"
      using same_frame_stream(1)[OF assms(1), of i] by (auto simp: m)
  qed
  moreover have "stream_entry h ids = stream_entry g ids" by (simp add: fun_eq_iff stream_entry_def on)
  ultimately show ?thesis by simp
qed

lemma same_frame_in_order: "same_frame g h \<Longrightarrow> in_order h i j \<longleftrightarrow> in_order g i j"
proof -
  have "in_order h i j" if f: "same_frame g h" and "in_order g i j" for g h
    unfolding in_order_def
  proof (intro allI impI)
    fix n m assume n: "GetNodeById h i = Some n" and m: "GetNodeById h j = Some m"
      and s: "nd_streamIdxInGraph n = nd_streamIdxInGraph m"
    obtain n' where n': "GetNodeById g i = Some n'" "node_frame n' = node_frame n" using same_frameD[OF f n] .
    obtain m' where m': "GetNodeById g j = Some m'" "node_frame m' = node_frame m" using same_frameD[OF f m] .
    have "pos g i < pos g j"
      using that(2) n' m' s node_frame_eqD(4) unfolding in_order_def by metis
    then show "pos h i < pos h j" using same_frame_stream(2)[OF f] by simp
  qed
  then show "same_frame g h \<Longrightarrow> ?thesis" using same_frame_sym by blast
qed

section \<open>Sound lists of scopes\<close>

definition sound :: "sk_graph \<Rightarrow> sk_scope list \<Rightarrow> bool" where
  "sound g scopes \<longleftrightarrow> distinct (concat (map sc_nodes scopes)) \<and>
     sorted_wrt (in_order g) (concat (map sc_nodes scopes)) \<and>
     (\<forall>sc\<in>set scopes. sc_nodes sc \<noteq> [] \<and> scope_ok g (sc_bitFlags sc) sc)"

lemma sound_Nil [simp]: "sound g []"
  by (simp add: sound_def)

lemma scopes_sound_sound: "scopes_sound g scopes \<Longrightarrow> sound g scopes"
  by (simp add: scopes_sound_def out_ok_def sound_def)

lemma sound_known: "sound g scopes \<Longrightarrow> sc \<in> set scopes \<Longrightarrow> known g (sc_nodes sc)"
  by (simp add: sound_def scope_ok_def)

lemma calm_scope_ok:
  assumes "calm g h" and "scope_ok g fl sc"
  shows "scope_ok h fl sc"
proof -
  note f = calm_frame[OF assms(1)]
  have k: "known g (sc_nodes sc)" using assms(2) by (simp add: scope_ok_def)
  have "\<exists>n. GetNodeById h i = Some n \<and> nd_isFusible n \<and> nd_scopeBitFlags n = fl" if i: "i \<in> set (sc_nodes sc)" for i
  proof -
    obtain m where m: "GetNodeById g i = Some m" "nd_isFusible m" "nd_scopeBitFlags m = fl"
      using assms(2) i unfolding scope_ok_def by blast
    obtain n where n: "GetNodeById h i = Some n" "node_frame n = node_frame m" "nd_isFusible n = nd_isFusible m"
      using calmD[OF calm_sym[OF assms(1)] m(1)] .
    then show ?thesis using m(2,3) node_frame_eqD(11)[OF n(2)] by simp
  qed
  moreover have "sc_bitFlags sc = fl"
    "sc_streamInfos sc = map (stream_entry g (sc_nodes sc)) (streams_of g (sc_nodes sc))"
    using assms(2) by (simp_all add: scope_ok_def)
  ultimately show ?thesis
    unfolding scope_ok_def using same_frame_known[OF f] k same_frame_entries[OF f k] by metis
qed

lemma calm_sound:
  assumes "calm g h" and "sound g scopes"
  shows "sound h scopes"
proof -
  have "in_order h = in_order g" using same_frame_in_order[OF calm_frame[OF assms(1)]] by blast
  then show ?thesis using assms(2) calm_scope_ok[OF assms(1)] by (simp add: sound_def)
qed

text \<open>A scope that keeps some nodes of another, with its flags and with rebuilt stream entries.\<close>

lemma scope_ok_part:
  assumes g: "graph_ok g" and sc: "scope_ok g fl sc" and sub: "set ids \<subseteq> set (sc_nodes sc)"
    and part: "sc_nodes part = ids" "sc_bitFlags part = fl"
  obtains out where "RebuildStreamInfos g part = Inr out" and "scope_ok g fl out" and "sc_nodes out = ids"
    and "sc_bitFlags out = fl" and "sc_scopeId out = sc_scopeId part" and "sc_breakInfo out = sc_breakInfo part"
proof -
  have k: "known g ids" using sc sub by (auto simp: scope_ok_def known_def)
  let ?out = "part\<lparr> sc_streamInfos := map (stream_entry g ids) (streams_of g ids) \<rparr>"
  have "RebuildStreamInfos g part = Inr ?out"
    using RebuildStreamInfos_eq[OF g, of part] k part by simp
  moreover have "scope_ok g fl ?out" using sc sub k part by (auto simp: scope_ok_def)
  ultimately show thesis by (rule that) (use part in simp_all)
qed

lemma scope_ok_break [simp]: "scope_ok g fl (sc\<lparr> sc_breakInfo := b \<rparr>) = scope_ok g fl sc"
  by (simp add: scope_ok_def)

lemma subseq_set: "subseq xs ys \<Longrightarrow> set xs \<subseteq> set ys"
  by (induction rule: list_emb.induct) auto

lemma subseq_sorted_wrt: "subseq xs ys \<Longrightarrow> sorted_wrt P ys \<Longrightarrow> sorted_wrt P xs"
  by (induction rule: list_emb.induct) (auto dest: subseq_set)

lemma subseq_distinct: "subseq xs ys \<Longrightarrow> distinct ys \<Longrightarrow> distinct xs"
  by (induction rule: list_emb.induct) (auto dest: subseq_set)

lemma sound_subseq:
  assumes "sound g scopes" and "subseq (concat (map sc_nodes out)) (concat (map sc_nodes scopes))"
    and "\<forall>sc\<in>set out. sc_nodes sc \<noteq> [] \<and> scope_ok g (sc_bitFlags sc) sc"
  shows "sound g out"
  using assms subseq_sorted_wrt subseq_distinct unfolding sound_def by blast

section \<open>New scopes and cuts\<close>

definition only_ids :: "split_ctx \<Rightarrow> split_ctx \<Rightarrow> bool" where
  "only_ids cx cx' \<longleftrightarrow> (\<exists>c. cx' = cx\<lparr> cx_nextId := c \<rparr>)"

lemma only_ids_refl [simp]: "only_ids cx cx"
  unfolding only_ids_def by (rule exI[of _ "cx_nextId cx"]) simp

lemma only_ids_trans: "only_ids a b \<Longrightarrow> only_ids b c \<Longrightarrow> only_ids a c"
  by (auto simp: only_ids_def)

lemma only_ids_eq:
  assumes "only_ids cx cx'"
  shows "cx_graph cx' = cx_graph cx" "cx_locks cx' = cx_locks cx" "cx_resplit cx' = cx_resplit cx"
  using assms by (auto simp: only_ids_def)

lemma make_scope_only_ids: "make_scope cx = (sc, cx1) \<Longrightarrow> only_ids cx cx1"
  by (auto simp: make_scope_def only_ids_def split: prod.splits)

lemma takeWhile_split:
  assumes "distinct (xs @ i # ys)"
  shows "takeWhile (\<lambda>j. j \<noteq> i) (xs @ i # ys) = xs" "dropWhile (\<lambda>j. j \<noteq> i) (xs @ i # ys) = i # ys"
proof -
  have "\<And>j. j \<in> set xs \<Longrightarrow> j \<noteq> i" using assms by auto
  then show "takeWhile (\<lambda>j. j \<noteq> i) (xs @ i # ys) = xs" "dropWhile (\<lambda>j. j \<noteq> i) (xs @ i # ys) = i # ys"
    by (simp_all add: takeWhile_append2 dropWhile_append2)
qed

section \<open>The contract of a pass\<close>

text \<open>A detector no node of the graph is marked for.\<close>

definition lock_idle :: "lock_state \<Rightarrow> bool" where
  "lock_idle L \<longleftrightarrow> cores_ok L \<and> dom (map_of (lk_range L)) = lk_streams L"

definition ready_ctx :: "u32 list \<Rightarrow> split_ctx \<Rightarrow> bool" where
  "ready_ctx order cx \<longleftrightarrow> walkable (cx_graph cx) \<and> heads_ok order (cx_graph cx) \<and>
     visited (cx_graph cx) = {} \<and> (\<forall>k. lock_idle (cx_locks cx k)) \<and>
     length (sg_nodeIds (cx_graph cx)) < 2 ^ 32"

lemma ready_ctx_books: "ready_ctx order cx \<Longrightarrow> books (cx_locks cx k, cx_graph cx)"
  by (simp add: ready_ctx_def books_def lock_idle_def walkable_def)

lemma books_idle: "books s \<Longrightarrow> lock_idle (fst s)"
  by (simp add: books_def lock_idle_def)

lemma ready_ctx_frame:
  assumes "ready_ctx order cx" and "same_frame (cx_graph cx) (cx_graph cx')" and "visited (cx_graph cx') = {}"
    and "\<forall>k. lock_idle (cx_locks cx' k)"
  shows "ready_ctx order cx'"
  using assms same_frame_walkable[OF assms(2)] same_frame_heads_ok[OF assms(2)]
  by (simp add: ready_ctx_def same_frame_def)

text \<open>
  From a ready context and sound scopes a pass ends without a fault; if it reports success, the
  context is ready again, only the frame of the graph is sure to be the same, and the scopes are
  sound in the graph as it is then.
\<close>

locale scope_pass =
  fixes order :: "u32 list" and run :: pass
  assumes contract: "ready_ctx order cx \<Longrightarrow> sound (cx_graph cx) scopes \<Longrightarrow>
    \<exists>ok cx' out. run cx scopes = Inr (ok, cx', out) \<and> same_frame (cx_graph cx) (cx_graph cx') \<and>
      (ok \<longrightarrow> ready_ctx order cx' \<and> sound (cx_graph cx') out)"

section \<open>A context for the witnesses\<close>

definition sample_ctx :: "sk_graph \<Rightarrow> split_ctx" where
  "sample_ctx g = \<lparr> cx_graph = g, cx_locks = (\<lambda>k. sample_lock), cx_nextId = 0, cx_resplit = False \<rparr>"

lemma sample_ctx_simps [simp]:
  "cx_graph (sample_ctx g) = g" "cx_locks (sample_ctx g) k = sample_lock" "cx_resplit (sample_ctx g) = False"
  by (simp_all add: sample_ctx_def)

lemma sample_lock_idle: "lock_idle sample_lock"
  using books_idle[OF sample_lock_books] by simp

lemma sample_ready: "ready_ctx [0, 1] (sample_ctx (sample_split fl))"
proof -
  have "visited (sample_split fl) = {}"
    by (auto simp: visited_def GetNodeById_def sample_split_defs split: if_splits)
  then show ?thesis
    using sample_split_walkable sample_split_heads sample_lock_idle
    by (simp add: ready_ctx_def) (simp add: sample_split_defs)
qed

lemma sample_sound:
  obtains sc where "sc_nodes sc = [3, 4, 1, 2]" and "sound (sample_split {0}) [sc]"
proof -
  obtain c' sc where run: "InitialSplitRun [0, 1] PRIORITY_QUEUE (sample_split {0}) 0 = Inr (True, [sc], c')"
    "sc_nodes sc = [3, 4, 1, 2]" using sample_split_run by blast
  have "scopes_sound (sample_split {0}) [sc]"
    using InitialSplitRun_ok[OF sample_split_walkable[of "{0}"] sample_split_heads, of PRIORITY_QUEUE 0] run(1) by auto
  then show thesis using that run(2) scopes_sound_sound by blast
qed

end
