(* ===== verification/Sk_Sche_Sound.thy ===== *)
theory Sk_Sche_Sound
  imports Sk_Frame
begin

text \<open>
  Splitting at kernels that synchronise all cores: what it means that a kernel joins the kernels
  before it, and that the pass cuts every scope exactly where a kernel does not join.
\<close>

section \<open>Kernels that run together\<close>

definition kernels_of :: "sk_graph \<Rightarrow> node_id list \<Rightarrow> sk_node list" where
  "kernels_of g ids = filter (\<lambda>n. nd_nodeType n = NODE_KERNEL) (List.map_filter (GetNodeById g) ids)"

text \<open>
  A synchronising kernel needs at least the cores of every kernel before it, and after a
  synchronising kernel no kernel needs more than all before it; a number 0 puts no condition.
\<close>

definition cube_of :: "sk_node \<Rightarrow> u32" where
  "cube_of n = fst (sche_cores n)"

definition vec_of :: "sk_node \<Rightarrow> u32" where
  "vec_of n = snd (sche_cores n)"

definition joins :: "sk_node list \<Rightarrow> sk_node \<Rightarrow> bool" where
  "joins ks n \<longleftrightarrow> ks = [] \<or>
     (IsScheModeOn n \<longrightarrow> (cube_of n = 0 \<or> (\<forall>k\<in>set ks. cube_of k \<le> cube_of n)) \<and>
        (vec_of n = 0 \<or> (\<forall>k\<in>set ks. vec_of k \<le> vec_of n))) \<and>
     ((\<exists>k\<in>set ks. IsScheModeOn k) \<longrightarrow> (cube_of n = 0 \<or> (\<exists>k\<in>set ks. cube_of n \<le> cube_of k)) \<and>
        (vec_of n = 0 \<or> (\<exists>k\<in>set ks. vec_of n \<le> vec_of k)))"

definition join_after :: "sk_node list \<Rightarrow> sk_node list \<Rightarrow> bool" where
  "join_after js ks \<longleftrightarrow> (\<forall>xs n ys. ks = xs @ n # ys \<longrightarrow> joins (js @ xs) n)"

definition compatible :: "sk_node list \<Rightarrow> bool" where
  "compatible ks \<longleftrightarrow> (\<forall>xs n ys. ks = xs @ n # ys \<longrightarrow> joins xs n)"

lemma join_after_Nil [simp]: "join_after js []" "join_after [] ks = compatible ks"
  by (simp_all add: join_after_def compatible_def)

lemma join_after_Cons: "join_after js (k # ks) \<longleftrightarrow> joins js k \<and> join_after (js @ [k]) ks"
proof
  assume l: "join_after js (k # ks)"
  have "joins (js @ [] ) k" by (rule l[unfolded join_after_def, rule_format, of "[]"]) simp
  moreover have "joins ((js @ [k]) @ xs) n" if "ks = xs @ n # ys" for xs n ys
    using l[unfolded join_after_def, rule_format, of "k # xs" n ys] that by simp
  ultimately show "joins js k \<and> join_after (js @ [k]) ks" by (simp add: join_after_def)
next
  assume r: "joins js k \<and> join_after (js @ [k]) ks"
  show "join_after js (k # ks)"
    unfolding join_after_def
  proof (intro allI impI)
    fix xs n ys assume eq: "k # ks = xs @ n # ys"
    show "joins (js @ xs) n"
      using eq r by (cases xs) (auto simp: join_after_def)
  qed
qed

lemma kernels_of_Cons:
  "kernels_of g (i # ids) = (case GetNodeById g i of None \<Rightarrow> kernels_of g ids
     | Some n \<Rightarrow> if nd_nodeType n = NODE_KERNEL then n # kernels_of g ids else kernels_of g ids)"
  by (simp add: kernels_of_def split: option.split)

lemma kernels_of_Nil [simp]: "kernels_of g [] = []"
  by (simp add: kernels_of_def)

section \<open>The scan\<close>

text \<open>The merged cores are the largest so far.\<close>

fun merged :: "sk_node list \<Rightarrow> (u32 \<times> u32 \<times> bool) option \<Rightarrow> bool" where
  "merged ks None = (ks = [])"
| "merged ks (Some (c, v, m)) = (c \<in> cube_of ` set ks \<and> (\<forall>k\<in>set ks. cube_of k \<le> c) \<and>
     v \<in> vec_of ` set ks \<and> (\<forall>k\<in>set ks. vec_of k \<le> v) \<and> m = (\<exists>k\<in>set ks. IsScheModeOn k))"

lemma merged_joins:
  assumes "merged ks (Some m)"
  shows "sche_break_type m n = SB_NONE \<longleftrightarrow> joins ks n"
proof -
  obtain c v b where m: "m = (c, v, b)" by (cases m)
  have ne: "ks \<noteq> []" using assms m by auto
  have "(\<forall>k\<in>set ks. cube_of k \<le> x) \<longleftrightarrow> c \<le> x" "(\<forall>k\<in>set ks. vec_of k \<le> x) \<longleftrightarrow> v \<le> x"
    "(\<exists>k\<in>set ks. x \<le> cube_of k) \<longleftrightarrow> x \<le> c" "(\<exists>k\<in>set ks. x \<le> vec_of k) \<longleftrightarrow> x \<le> v" for x
    using assms m by (auto intro: order_trans)
  moreover have "(\<exists>k\<in>set ks. IsScheModeOn k) = b" using assms m by simp
  ultimately show ?thesis
    unfolding joins_def m sche_break_type_def smaller_def bigger_def
    using ne by (auto simp: cube_of_def vec_of_def not_less split: prod.split)
qed

lemma merged_step:
  assumes "merged ks (Some m)"
  shows "merged (ks @ [n]) (Some (sche_merge m n))"
proof -
  obtain c v b where m: "m = (c, v, b)" by (cases m)
  have "sche_merge m n = (max c (cube_of n), max v (vec_of n), b \<or> IsScheModeOn n)"
    unfolding m sche_merge_def by (simp add: cube_of_def vec_of_def split: prod.split)
  moreover have "max c (cube_of n) \<in> cube_of ` set (ks @ [n])" "max v (vec_of n) \<in> vec_of ` set (ks @ [n])"
    using assms m by (auto simp: max_def)
  moreover have "\<forall>k\<in>set (ks @ [n]). cube_of k \<le> max c (cube_of n)"
    "\<forall>k\<in>set (ks @ [n]). vec_of k \<le> max v (vec_of n)"
    using assms m by (auto simp: le_max_iff_disj)
  ultimately show ?thesis using assms m by auto
qed

lemma merged_first: "merged [n] (Some (case sche_cores n of (c, v) \<Rightarrow> (c, v, IsScheModeOn n)))"
  by (simp add: cube_of_def vec_of_def split: prod.split)

fun cut_at :: "sk_graph \<Rightarrow> sk_node list \<Rightarrow> node_id list \<Rightarrow>
    (node_id \<times> sk_node \<times> sche_break \<times> u32 \<times> u32) option \<Rightarrow> bool" where
  "cut_at g ks ids None = join_after ks (kernels_of g ids)"
| "cut_at g ks ids (Some (i, n, _)) = (\<exists>xs ys. ids = xs @ i # ys \<and> GetNodeById g i = Some n \<and>
     nd_nodeType n = NODE_KERNEL \<and> join_after ks (kernels_of g xs) \<and> \<not> joins (ks @ kernels_of g xs) n)"

lemma kernels_of_Cons_append: "kernels_of g (i # ids) = kernels_of g [i] @ kernels_of g ids"
  by (simp add: kernels_of_Cons split: option.split)

lemma kernels_of_append: "kernels_of g (xs @ ys) = kernels_of g xs @ kernels_of g ys"
proof (induction xs)
  case (Cons i xs)
  then show ?case using kernels_of_Cons_append[of g i "xs @ ys"] kernels_of_Cons_append[of g i xs] by simp
qed simp

lemma join_after_append_one:
  assumes "\<And>n. n \<in> set (kernels_of g [i]) \<Longrightarrow> joins ks n"
  shows "join_after ks (kernels_of g (i # ids)) \<longleftrightarrow> join_after (ks @ kernels_of g [i]) (kernels_of g ids)"
proof -
  have "length (kernels_of g [i]) \<le> 1" by (simp add: kernels_of_Cons split: option.split)
  then consider "kernels_of g [i] = []" | n where "kernels_of g [i] = [n]"
    by (cases "kernels_of g [i]") (auto simp: le_Suc_eq)
  then show ?thesis
    by cases (use assms kernels_of_Cons_append[of g i ids] in \<open>auto simp: join_after_Cons\<close>)
qed

lemma cut_at_Cons:
  assumes "cut_at g (ks @ kernels_of g [i]) ids r" and one: "\<And>n. n \<in> set (kernels_of g [i]) \<Longrightarrow> joins ks n"
  shows "cut_at g ks (i # ids) r"
proof (cases r)
  case None
  then show ?thesis using assms(1) join_after_append_one[of g i ks ids] one by simp
next
  case (Some p)
  obtain j n q where p: "p = (j, n, q)" by (cases p) auto
  from assms(1) Some p obtain xs ys where xs: "ids = xs @ j # ys" "GetNodeById g j = Some n"
    "nd_nodeType n = NODE_KERNEL" "join_after (ks @ kernels_of g [i]) (kernels_of g xs)"
    "\<not> joins ((ks @ kernels_of g [i]) @ kernels_of g xs) n" by auto
  have "join_after ks (kernels_of g (i # xs))" using join_after_append_one[of g i ks xs] one xs(4) by simp
  moreover have "\<not> joins (ks @ kernels_of g (i # xs)) n"
    using xs(5) kernels_of_Cons_append[of g i xs] by simp
  moreover have "i # ids = (i # xs) @ j # ys" using xs(1) by simp
  ultimately show ?thesis using xs(2,3) unfolding Some p cut_at.simps by blast
qed

lemma sche_scan_cut: "merged ks m \<Longrightarrow> cut_at g ks ids (sche_scan g ids m)"
proof (induction ids arbitrary: ks m)
  case (Cons i ids)
  show ?case
  proof (cases "kernels_of g [i]")
    case Nil
    then have "sche_scan g (i # ids) m = sche_scan g ids m"
      by (auto simp: kernels_of_Cons split: option.splits if_splits)
    then show ?thesis using cut_at_Cons[of g ks i ids] Cons Nil by simp
  next
    case (Cons n ns)
    then have n: "GetNodeById g i = Some n" "nd_nodeType n = NODE_KERNEL" "ns = []"
      by (auto simp: kernels_of_Cons split: option.splits if_splits)
    show ?thesis
    proof (cases m)
      case None
      let ?m = "Some (case sche_cores n of (c, v) \<Rightarrow> (c, v, IsScheModeOn n))"
      have ks: "ks = []" using Cons.prems None by simp
      have "sche_scan g (i # ids) m = sche_scan g ids ?m" using n None by (simp split: prod.split)
      moreover have "cut_at g (ks @ kernels_of g [i]) ids (sche_scan g ids ?m)"
        by (rule Cons.IH) (use merged_first[of n] ks Cons n(3) in simp)
      ultimately show ?thesis using cut_at_Cons[of g ks i ids] ks by (simp add: joins_def)
    next
      case (Some p)
      show ?thesis
      proof (cases "sche_break_type p n = SB_NONE")
        case True
        then have "sche_scan g (i # ids) m = sche_scan g ids (Some (sche_merge p n))"
          using n Some by (cases p) simp
        moreover have "cut_at g (ks @ kernels_of g [i]) ids (sche_scan g ids (Some (sche_merge p n)))"
          by (rule Cons.IH) (use merged_step[of ks p n] Cons.prems Some Cons n(3) in simp)
        moreover have "joins ks n" using merged_joins[of ks p n] Cons.prems Some True by simp
        ultimately show ?thesis using cut_at_Cons[of g ks i ids] Cons n(3) by simp
      next
        case False
        then have "\<not> joins ks n" using merged_joins[of ks p n] Cons.prems Some by simp
        moreover have "\<exists>q. sche_scan g (i # ids) m = Some (i, n, q)" using n Some False by (cases p) simp
        ultimately show ?thesis using n by fastforce
      qed
    qed
  qed
qed simp

section \<open>The pass\<close>

text \<open>The pieces of a scope: each is compatible, and none could have taken the first node of the next.\<close>

definition cut_before :: "sk_graph \<Rightarrow> sk_scope \<Rightarrow> sk_scope \<Rightarrow> bool" where
  "cut_before g a b \<longleftrightarrow> (\<exists>i rest n. sc_nodes b = i # rest \<and> GetNodeById g i = Some n \<and>
     nd_nodeType n = NODE_KERNEL \<and> \<not> joins (kernels_of g (sc_nodes a)) n)"

definition pieces :: "sk_graph \<Rightarrow> sk_scope \<Rightarrow> sk_scope list \<Rightarrow> bool" where
  "pieces g sc ps \<longleftrightarrow> concat (map sc_nodes ps) = sc_nodes sc \<and>
     (\<forall>p\<in>set ps. sc_nodes p \<noteq> [] \<and> scope_ok g (sc_bitFlags sc) p \<and> compatible (kernels_of g (sc_nodes p))) \<and>
     successively (cut_before g) ps"

lemma sche_single:
  assumes g: "graph_ok (cx_graph cx)" and sc: "scope_ok (cx_graph cx) fl sc" "sc_nodes sc \<noteq> []"
    and d: "distinct (sc_nodes sc)"
  obtains (whole) "ScheModeProcessSingleScope sc out cx = Inr (out @ [sc], None, cx)"
      "compatible (kernels_of (cx_graph cx) (sc_nodes sc))"
  | (cut) before after cx' where
      "ScheModeProcessSingleScope sc out cx = Inr (out @ [before], Some after, cx')" "only_ids cx cx'"
      "sc_nodes sc = sc_nodes before @ sc_nodes after" "sc_nodes before \<noteq> []" "sc_nodes after \<noteq> []"
      "scope_ok (cx_graph cx) fl before" "scope_ok (cx_graph cx) fl after"
      "compatible (kernels_of (cx_graph cx) (sc_nodes before))" "cut_before (cx_graph cx) before after"
proof -
  let ?g = "cx_graph cx"
  have scan: "cut_at ?g [] (sc_nodes sc) (sche_scan ?g (sc_nodes sc) None)" by (rule sche_scan_cut) simp
  show thesis
  proof (cases "sche_scan ?g (sc_nodes sc) None")
    case None
    then show thesis using whole scan sc(2) by (simp add: ScheModeProcessSingleScope_def)
  next
    case (Some p)
    obtain i n b mc mv where p: "p = (i, n, b, mc, mv)" by (cases p) auto
    from scan Some p obtain xs ys where xs: "sc_nodes sc = xs @ i # ys" "GetNodeById ?g i = Some n"
      "nd_nodeType n = NODE_KERNEL" "compatible (kernels_of ?g xs)" "\<not> joins (kernels_of ?g xs) n" by auto
    have "xs \<noteq> []" using xs(5) by (auto simp: joins_def)
    note tw = takeWhile_split[OF d[unfolded xs(1)], folded xs(1)]
    obtain b0 cx1 where b0: "make_scope cx = (b0, cx1)" by fastforce
    obtain a0 cx2 where a0: "make_scope cx1 = (a0, cx2)" by fastforce
    have ids: "only_ids cx cx2" using make_scope_only_ids[OF b0] make_scope_only_ids[OF a0] only_ids_trans by blast
    have fl: "sc_bitFlags sc = fl" using sc(1) by (simp add: scope_ok_def)
    obtain before where before: "RebuildStreamInfos ?g (b0\<lparr> sc_bitFlags := fl, sc_nodes := xs \<rparr>) = Inr before"
      "scope_ok ?g fl before" "sc_nodes before = xs"
      by (rule scope_ok_part[OF g sc(1), of xs "b0\<lparr> sc_bitFlags := fl, sc_nodes := xs \<rparr>"]) (use xs(1) in auto)
    obtain after where after: "RebuildStreamInfos ?g (a0\<lparr> sc_bitFlags := fl, sc_nodes := i # ys \<rparr>) = Inr after"
      "scope_ok ?g fl after" "sc_nodes after = i # ys"
      by (rule scope_ok_part[OF g sc(1), of "i # ys" "a0\<lparr> sc_bitFlags := fl, sc_nodes := i # ys \<rparr>"]) (use xs(1) in auto)
    let ?b = "SetupScheModeScopeBeforeBreakInfo ?g (sc_breakInfo sc) (sc_scopeId sc) n b mc mv
      (HasSameKernelNodes ?g sc before) before"
    let ?a = "SetupScopeAfterBreakInfo (sc_breakInfo sc) (sc_scopeId sc) (HasSameKernelNodes ?g sc after) after"
    have b: "sc_nodes ?b = xs" "scope_ok ?g fl ?b" and a: "sc_nodes ?a = i # ys" "scope_ok ?g fl ?a"
      using before after by (auto simp: SetupScheModeScopeBeforeBreakInfo_def SetupScopeAfterBreakInfo_def Let_def)
    have "ScheModeProcessSingleScope sc out cx = Inr (out @ [?b], Some ?a, cx2)"
      using Some p b0 a0 before after b a \<open>xs \<noteq> []\<close> tw xs(1) fl
      by (simp add: ScheModeProcessSingleScope_def SplitScopeAtNode_def Let_def)
    then show thesis
      by (rule cut) (use ids xs b a \<open>xs \<noteq> []\<close> in \<open>auto simp: cut_before_def\<close>)
  qed
qed

lemma pieces_Cons:
  assumes "sc_nodes sc = sc_nodes p @ sc_nodes rest" "sc_nodes p \<noteq> []" "sc_nodes rest \<noteq> []"
    and "scope_ok g (sc_bitFlags sc) p" "compatible (kernels_of g (sc_nodes p))"
    and "cut_before g p rest" and "pieces g rest ps" and "sc_bitFlags rest = sc_bitFlags sc"
  shows "pieces g sc (p # ps)"
proof -
  obtain q qs where ps: "ps = q # qs" using assms(3,7) by (cases ps) (auto simp: pieces_def)
  then have "cut_before g p q"
    using assms(6,7) by (cases "sc_nodes q") (auto simp: pieces_def cut_before_def)
  then show ?thesis using assms ps by (simp add: pieces_def)
qed

lemma sche_loop_pieces:
  assumes "length (sc_nodes sc) < fuel" and "graph_ok (cx_graph cx)"
    and "scope_ok (cx_graph cx) (sc_bitFlags sc) sc" and "sc_nodes sc \<noteq> []" and "distinct (sc_nodes sc)"
  shows "\<exists>ps cx'. sche_loop fuel sc out cx = Inr (out @ ps, cx') \<and> only_ids cx cx' \<and> pieces (cx_graph cx) sc ps"
  using assms
proof (induction fuel arbitrary: sc out cx)
  case (Suc fuel)
  show ?case
  proof (rule sche_single[OF Suc.prems(2,3,4,5), of out])
    assume "ScheModeProcessSingleScope sc out cx = Inr (out @ [sc], None, cx)"
      "compatible (kernels_of (cx_graph cx) (sc_nodes sc))"
    then show ?thesis using Suc.prems by (intro exI[of _ "[sc]"] exI[of _ cx]) (simp add: pieces_def)
  next
    fix before after cx'
    assume s: "ScheModeProcessSingleScope sc out cx = Inr (out @ [before], Some after, cx')" "only_ids cx cx'"
      "sc_nodes sc = sc_nodes before @ sc_nodes after" "sc_nodes before \<noteq> []" "sc_nodes after \<noteq> []"
      "scope_ok (cx_graph cx) (sc_bitFlags sc) before" "scope_ok (cx_graph cx) (sc_bitFlags sc) after"
      "compatible (kernels_of (cx_graph cx) (sc_nodes before))" "cut_before (cx_graph cx) before after"
    have fl: "sc_bitFlags after = sc_bitFlags sc" using s(7) by (simp add: scope_ok_def)
    have "length (sc_nodes after) < fuel" "distinct (sc_nodes after)"
      using Suc.prems(1,5) s(3,4) by (cases "sc_nodes before"; simp)+
    then obtain ps cx2 where ps: "sche_loop fuel after (out @ [before]) cx' = Inr ((out @ [before]) @ ps, cx2)"
      "only_ids cx' cx2" "pieces (cx_graph cx) after ps"
      using Suc.IH[of after cx' "out @ [before]"] s Suc.prems(2) fl only_ids_eq[OF s(2)] by auto
    have "pieces (cx_graph cx) sc (before # ps)" by (rule pieces_Cons[OF s(3-6,8,9) ps(3) fl])
    then show ?thesis using s(1) ps(1) only_ids_trans[OF s(2) ps(2)] by auto
  qed
qed simp

lemma ScheModeRun_pieces:
  assumes "graph_ok (cx_graph cx)" and "sound (cx_graph cx) scopes"
  shows "\<exists>groups cx'. ScheModeRun cx scopes = Inr (True, cx', concat groups) \<and> only_ids cx cx' \<and>
    list_all2 (pieces (cx_graph cx)) scopes groups"
proof -
  let ?loop = "\<lambda>sc (out, cx). sche_loop (Suc (length (sc_nodes sc))) sc out cx"
  have "\<exists>groups cx'. foldR ?loop scopes (out, cx) = Inr (out @ concat groups, cx') \<and> only_ids cx cx' \<and>
      list_all2 (pieces (cx_graph cx)) scopes groups" for out
    using assms
  proof (induction scopes arbitrary: out cx)
    case (Cons sc scopes)
    have sc: "scope_ok (cx_graph cx) (sc_bitFlags sc) sc" "sc_nodes sc \<noteq> []" "distinct (sc_nodes sc)"
      and rest: "sound (cx_graph cx) scopes"
      using Cons.prems(2) by (auto simp: sound_def sorted_wrt_append)
    obtain ps cx1 where ps: "sche_loop (Suc (length (sc_nodes sc))) sc out cx = Inr (out @ ps, cx1)"
      "only_ids cx cx1" "pieces (cx_graph cx) sc ps"
      using sche_loop_pieces[OF lessI Cons.prems(1) sc] by blast
    obtain groups cx2 where groups: "foldR ?loop scopes (out @ ps, cx1) = Inr ((out @ ps) @ concat groups, cx2)"
      "only_ids cx1 cx2" "list_all2 (pieces (cx_graph cx)) scopes groups"
      using Cons.IH[of cx1 "out @ ps"] Cons.prems(1) rest only_ids_eq[OF ps(2)] by auto
    have "list_all2 (pieces (cx_graph cx)) (sc # scopes) (ps # groups)" using ps(3) groups(3) by simp
    moreover have "foldR ?loop (sc # scopes) (out, cx) = Inr (out @ concat (ps # groups), cx2)"
      using ps(1) groups(1) by simp
    ultimately show ?case using only_ids_trans[OF ps(2) groups(2)] by blast
  qed (auto intro: exI[of _ "[]"])
  from this[of "[]"] show ?thesis by (auto simp: ScheModeRun_def)
qed

lemma pieces_concat:
  "list_all2 (pieces g) scopes groups \<Longrightarrow>
   concat (map sc_nodes (concat groups)) = concat (map sc_nodes scopes)"
  by (induction rule: list_all2_induct) (auto simp: pieces_def)

lemma pieces_sound:
  assumes "sound g scopes" and "list_all2 (pieces g) scopes groups"
  shows "sound g (concat groups)"
proof -
  have "\<forall>p\<in>set (concat groups). sc_nodes p \<noteq> [] \<and> scope_ok g (sc_bitFlags p) p"
    using assms(2) by (induction rule: list_all2_induct) (auto simp: pieces_def scope_ok_def)
  then show ?thesis using assms(1) pieces_concat[OF assms(2)] by (simp add: sound_def)
qed

interpretation sche: scope_pass order ScheModeRun for order
proof
  fix cx scopes assume r: "ready_ctx order cx" and s: "sound (cx_graph cx) scopes"
  then obtain groups cx' where g: "ScheModeRun cx scopes = Inr (True, cx', concat groups)" "only_ids cx cx'"
    "list_all2 (pieces (cx_graph cx)) scopes groups"
    using ScheModeRun_pieces[of cx scopes] by (auto simp: ready_ctx_def walkable_def)
  then show "\<exists>ok cx' out. ScheModeRun cx scopes = Inr (ok, cx', out) \<and> same_frame (cx_graph cx) (cx_graph cx') \<and>
      (ok \<longrightarrow> ready_ctx order cx' \<and> sound (cx_graph cx') out)"
    using r pieces_sound[OF s] only_ids_eq[OF g(2)] by (auto simp: ready_ctx_def)
qed

section \<open>Properties\<close>

text \<open>
  C6 \<^bold>\<open>Synchronising kernels.\<close> From sound scopes the pass ends and succeeds and changes nothing but
  the counter of scope ids. It cuts each scope into consecutive non-empty pieces with its flags and
  rebuilt stream entries; in each piece every synchronising kernel needs at least the cores of the
  kernels before it, and after one no kernel needs more than all before it; and no piece could have
  been continued: the next one starts with a kernel that does not join it.
\<close>

theorem ScheModeRun_spec:
  assumes "graph_ok (cx_graph cx)" and "sound (cx_graph cx) scopes"
  shows "\<exists>groups c. ScheModeRun cx scopes = Inr (True, cx\<lparr> cx_nextId := c \<rparr>, concat groups) \<and>
    list_all2 (pieces (cx_graph cx)) scopes groups"
  using ScheModeRun_pieces[OF assms] by (auto simp: only_ids_def)

text \<open>
  Three operators with 4, 2 and 4 cores of which the second synchronises: the needs drop at the
  second and rise at the third.
\<close>

definition sample_sync_mode :: "sk_node \<Rightarrow> sk_node" where
  "sample_sync_mode n = n\<lparr> nd_kernelInfos := (nd_kernelInfos n)\<lparr> ki_isScheModeOn := True \<rparr> \<rparr>"

definition sample_sche :: sk_graph where
  "sample_sche = sample_graph
     [sample_fused {0} (sample_on 0 0 (sample_cores 4 (sample_node KernelNode NODE_KERNEL INVALID_TASK_ID 1 2))),
      sample_fused {0} (sample_on 0 1 (sample_sync_mode (sample_cores 2 (sample_node KernelNode NODE_KERNEL 1 2 3)))),
      sample_fused {0} (sample_on 0 2 (sample_cores 4 (sample_node KernelNode NODE_KERNEL 2 3 INVALID_TASK_ID)))]"

definition sample_sche_scope :: sk_scope where
  "sample_sche_scope = (fst (new_scope 0))\<lparr> sc_nodes := [1, 2, 3], sc_bitFlags := {0},
     sc_streamInfos := map (stream_entry sample_sche [1, 2, 3]) (streams_of sample_sche [1, 2, 3]) \<rparr>"

lemmas sample_sche_defs = sample_sche_def sample_sync_mode_def sample_graph_def sample_fused_def sample_on_def
  sample_cores_def sample_node_def new_node_def

lemma sample_sche_ok: "graph_ok sample_sche" "sound sample_sche [sample_sche_scope]"
proof -
  show "graph_ok sample_sche" by (auto simp: graph_ok_def sample_sche_defs split: if_splits)
  have "scope_ok sample_sche {0} sample_sche_scope"
    by (auto simp: scope_ok_def sample_sche_scope_def new_scope_def NextId_def known_def GetNodeById_def
        sample_sche_defs)
  then show "sound sample_sche [sample_sche_scope]"
    by (simp add: sound_def sample_sche_scope_def new_scope_def NextId_def in_order_def pos_def GetNodeById_def
        sample_sche_defs)
qed

lemma ScheModeRun_spec_witness:
  "\<exists>groups c. ScheModeRun (sample_ctx sample_sche) [sample_sche_scope] =
      Inr (True, (sample_ctx sample_sche)\<lparr> cx_nextId := c \<rparr>, concat groups) \<and>
    list_all2 (pieces sample_sche) [sample_sche_scope] groups \<and>
    map sc_nodes (concat groups) = [[1], [2], [3]]"
proof -
  have "case ScheModeRun (sample_ctx sample_sche) [sample_sche_scope] of Inl e \<Rightarrow> False
    | Inr (b, cx, out) \<Rightarrow> map sc_nodes out = [[1], [2], [3]]" by code_simp
  then show ?thesis
    using ScheModeRun_spec[of "sample_ctx sample_sche" "[sample_sche_scope]"] sample_sche_ok by auto
qed

end
