(* ===== verification/Sk_Deadlock_Sound.thy ===== *)
theory Sk_Deadlock_Sound
  imports Sk_Frame
begin

text \<open>
  Splitting at waits before deadlocks: what the detector leaves of the graph, and that the pass keeps
  only scopes the detector has admitted, at the price of some waits.
\<close>

section \<open>What the detector leaves of the graph\<close>

text \<open>A gentle change is quiet and keeps the visited marks.\<close>

definition gentle :: "sk_graph \<Rightarrow> sk_graph \<Rightarrow> bool" where
  "gentle g h \<longleftrightarrow> calm g h \<and> visited h = visited g"

lemma gentle_refl [simp]: "gentle g g"
  by (simp add: gentle_def)

lemma gentle_trans [trans]: "gentle g h \<Longrightarrow> gentle h k \<Longrightarrow> gentle g k"
  by (auto simp: gentle_def intro: calm_trans)

lemma gentle_upd:
  assumes "\<And>n. node_frame (f n) = node_frame n" "\<And>n. nd_isFusible (f n) = nd_isFusible n"
    "\<And>n. nd_isVisited (f n) = nd_isVisited n"
  shows "gentle g (upd_node i f g)"
proof -
  have "visited (upd_node i f g) = visited g" using assms(3) by (auto simp: visited_def split: if_splits)
  then show ?thesis using calm_upd[OF assms(1,2)] by (simp add: gentle_def)
qed

lemma same_but_visited_calm:
  assumes "same_but_visited g h"
  shows "calm g h"
proof -
  have f: "node_frame n = node_frame (unvisit n)" "nd_isFusible n = nd_isFusible (unvisit n)" for n
    by (simp_all add: node_frame_def unvisit_def)
  have "map_option node_frame (GetNodeById h i) = map_option node_frame (GetNodeById g i)"
    "map_option nd_isFusible (GetNodeById h i) = map_option nd_isFusible (GetNodeById g i)" for i
  proof -
    have u: "map_option unvisit (GetNodeById h i) = map_option unvisit (GetNodeById g i)"
      using assms by (simp add: same_but_visited_def)
    show "map_option node_frame (GetNodeById h i) = map_option node_frame (GetNodeById g i)"
      using arg_cong[OF u, of "map_option node_frame"] f(1) by (simp add: option.map_comp o_def)
    show "map_option nd_isFusible (GetNodeById h i) = map_option nd_isFusible (GetNodeById g i)"
      using arg_cong[OF u, of "map_option nd_isFusible"] f(2) by (simp add: option.map_comp o_def)
  qed
  then show ?thesis using assms by (simp add: calm_def same_frame_def same_but_visited_def)
qed

text \<open>The cores and the streams noted at a node, which the detector reads off it.\<close>

definition noted_at :: "sk_node \<Rightarrow> (u32 \<times> u32) \<times> u32 set" where
  "noted_at n = ((nd_notifyExpandVecNum n, nd_notifyExpandCubeNum n), nd_scopeStreamIds n)"

definition needs :: "sk_graph \<Rightarrow> node_id \<Rightarrow> ((u32 \<times> u32) \<times> u32 set) option" where
  "needs g i = map_option noted_at (GetNodeById g i)"

text \<open>Graphs that agree in all but visited marks and reasons not to fuse.\<close>

definition alike :: "sk_graph \<Rightarrow> sk_graph \<Rightarrow> bool" where
  "alike g h \<longleftrightarrow> calm g h \<and> needs h = needs g"

lemma alike_refl [simp]: "alike g g"
  by (simp add: alike_def)

lemma alike_sym: "alike g h \<Longrightarrow> alike h g"
  by (simp add: alike_def calm_sym)

lemma alike_trans [trans]: "alike g h \<Longrightarrow> alike h k \<Longrightarrow> alike g k"
  by (auto simp: alike_def intro: calm_trans)

lemma alike_calm: "alike g h \<Longrightarrow> calm g h"
  by (simp add: alike_def)

lemma needs_upd: "(\<And>n. noted_at (f n) = noted_at n) \<Longrightarrow> needs (upd_node i f g) = needs g"
  by (rule ext) (auto simp: needs_def option.map_comp o_def cong: map_option_cong)

lemma same_but_visited_needs:
  assumes "same_but_visited g h"
  shows "needs h = needs g"
proof
  fix i
  have f: "noted_at n = noted_at (unvisit n)" for n by (simp add: noted_at_def unvisit_def)
  have "map_option unvisit (GetNodeById h i) = map_option unvisit (GetNodeById g i)"
    using assms by (simp add: same_but_visited_def)
  from arg_cong[OF this, of "map_option noted_at"] show "needs h i = needs g i"
    by (simp add: needs_def option.map_comp o_def f[symmetric])
qed

lemma same_but_visited_alike: "same_but_visited g h \<Longrightarrow> alike g h"
  by (simp add: alike_def same_but_visited_calm same_but_visited_needs)

lemma fail_alike [simp]:
  "alike g (upd_node i (SetFusionFailDeadlock r) g)" "alike g (upd_node i (SetFusionFailReason q) g)"
proof -
  have "calm g (upd_node i (SetFusionFailDeadlock r) g)" "calm g (upd_node i (SetFusionFailReason q) g)"
    by (rule calm_upd; simp add: SetFusionFailDeadlock_def SetFusionFailReason_def node_frame_def)+
  moreover have "needs (upd_node i (SetFusionFailDeadlock r) g) = needs g"
    "needs (upd_node i (SetFusionFailReason q) g) = needs g"
    by (rule needs_upd; simp add: SetFusionFailDeadlock_def SetFusionFailReason_def noted_at_def)+
  ultimately show "alike g (upd_node i (SetFusionFailDeadlock r) g)" "alike g (upd_node i (SetFusionFailReason q) g)"
    by (simp_all add: alike_def)
qed

text \<open>The device and the option of a detector, which never change.\<close>

definition core_device :: "lock_state \<Rightarrow> (int \<times> int) \<times> u32 option" where
  "core_device L = ((lk_devCube L, lk_devVec L), lk_bypass L)"

lemma search_step_device: "search_step s t \<Longrightarrow> core_device (fst t) = core_device (fst s)"
  by (simp add: search_step_def same_sk_def core_device_def)

lemma fusible_status_device:
  assumes "GetFusibleStatus (HasDeadlock fuel) cn (L, g) = Inr (b, t)" and "graph_ok g"
  shows "core_device (fst t) = core_device L"
proof -
  have wait: "core_device (fst u) = core_device L"
    if "GetWaitNodeFusibleStatus (HasDeadlock fuel) cn (L\<lparr> lk_temp := [] \<rparr>, g) = Inr (ok, u)" for ok u
    using search_step_device[OF wait_status_step[OF that]] assms(2) by (simp add: core_device_def)
  have cores: "core_device M = core_device L" if "HasEnoughCores cn True L = (ok, M)" for ok M
    using that by (auto simp: HasEnoughCores_def Let_def core_device_def split: if_splits prod.splits)
  show ?thesis
    using assms(1) wait cores
    by (cases "nd_nodeType cn")
      (auto simp: GetFusibleStatus_def core_device_def fail_with_def split: if_splits prod.splits)
qed

lemma IsFusible_alike:
  assumes "IsFusible i s = Inr (b, t)" and "books s" and "GetNodeById (snd s) i = Some n"
  shows "alike (snd s) (snd t)" and "core_device (fst t) = core_device (fst s)"
proof -
  have "alike (snd s) (snd t) \<and> core_device (fst t) = core_device (fst s)"
    using assms
  proof (cases rule: IsFusible_cases)
    case (tested L g)
    have pre: "graph_ok (snd (fail_with NOT_FIND_DEADLOCK (fst s), snd s))"
      "cores_ok (fst (fail_with NOT_FIND_DEADLOCK (fst s), snd s))"
      using assms(2) by (simp_all add: books_def cores_ok_def fail_with_def)
    have g: "alike (snd s) g"
      using same_but_visited_alike[OF fusible_status_step(1)[OF tested(2) pre]] by simp
    have d: "core_device L = core_device (fst s)"
      using fusible_status_device[OF tested(2)] assms(2) by (simp add: books_def core_device_def fail_with_def)
    show ?thesis
      using tested(3) d g alike_trans[OF g same_but_visited_alike[OF same_but_visited_set]] alike_trans[OF g fail_alike(1)]
      by (auto simp: Let_def core_device_def UpdateSKRangeInStream_def split: option.split)
  qed simp
  then show "alike (snd s) (snd t)" "core_device (fst t) = core_device (fst s)" by blast+
qed

lemma LockReset_same: "same_but_visited (snd s) (snd (LockReset s))"
proof -
  obtain L g where s: "s = (L, g)" by (cases s)
  show ?thesis
    using rollback_same[of g "lk_nodes L"] rollback_same[of "RollbackVisitedState (lk_nodes L) g" "lk_temp L"]
    unfolding s by (simp add: LockReset_def same_but_visited_def)
qed

text \<open>The detector as its constructor makes it for the same device and with the same option.\<close>

definition new_detector :: "lock_state \<Rightarrow> lock_state" where
  "new_detector L = LockInit 0 0 (lk_devCube L, lk_devVec L) (lk_bypass L)"

lemma LockReset_new: "fst (LockReset s) = new_detector (fst s)"
  by (cases s) (simp add: LockReset_def new_detector_def LockInit_def GetDeviceCores_def
      GetDeviceCoreNums_def)

lemma new_detector_device: "core_device L = core_device M \<Longrightarrow> new_detector L = new_detector M"
  by (simp add: core_device_def new_detector_def)

text \<open>The nodes are accepted one after the other.\<close>

fun admitted :: "node_id list \<Rightarrow> lock_st \<Rightarrow> lock_st \<Rightarrow> bool" where
  "admitted [] s t = (t = s)"
| "admitted (i # is) s t = (\<exists>u. IsFusible i s = Inr (True, u) \<and> admitted is u t)"

lemma admitted_append: "admitted (xs @ ys) s t \<longleftrightarrow> (\<exists>u. admitted xs s u \<and> admitted ys u t)"
  by (induction xs arbitrary: s) auto

section \<open>Searching a scope\<close>

definition wait_step :: "sk_graph \<Rightarrow> node_id \<Rightarrow> node_id option \<Rightarrow> node_id option" where
  "wait_step g i w = (if has_type g NODE_WAIT i then Some i else w)"

lemma wait_step_eq:
  "has_type g NODE_WAIT i \<Longrightarrow> wait_step g i w = Some i" "\<not> has_type g NODE_WAIT i \<Longrightarrow> wait_step g i w = w"
  by (simp_all add: wait_step_def)

lemma last_wait_split:
  assumes "fold (wait_step g) ids None = Some w"
  obtains xs ys where "ids = xs @ w # ys" and "has_type g NODE_WAIT w" and "\<forall>i\<in>set ys. \<not> has_type g NODE_WAIT i"
  using assms
proof (induction ids arbitrary: thesis rule: rev_induct)
  case (snoc i ids)
  show ?case
  proof (cases "has_type g NODE_WAIT i")
    case True
    then show ?thesis using snoc.prems(1)[of ids "[]"] snoc.prems(2) by (auto simp: wait_step_eq)
  next
    case False
    then have "fold (wait_step g) ids None = Some w" using snoc.prems(2) by (simp add: wait_step_eq)
    from snoc.IH[OF _ this] obtain xs ys where "ids = xs @ w # ys" "has_type g NODE_WAIT w"
      "\<forall>i\<in>set ys. \<not> has_type g NODE_WAIT i" by blast
    then show ?thesis using snoc.prems(1)[of xs "ys @ [i]"] False by auto
  qed
qed simp

lemma no_last_wait: "fold (wait_step g) ids None = None \<Longrightarrow> \<forall>i\<in>set ids. \<not> has_type g NODE_WAIT i"
  by (induction ids rule: rev_induct) (auto simp: wait_step_def split: if_splits)

fun found_at :: "sk_graph \<Rightarrow> node_id list \<Rightarrow> node_id option \<Rightarrow> lock_st \<Rightarrow> lock_st \<Rightarrow>
    (node_id \<times> node_id option) option \<Rightarrow> bool" where
  "found_at g ids w s t None = admitted ids s t"
| "found_at g ids w s t (Some (i, w')) = (\<exists>xs ys u. ids = xs @ i # ys \<and> admitted xs s u \<and>
     IsFusible i u = Inr (False, t) \<and> w' = fold (wait_step g) (xs @ [i]) w)"

lemma find_deadlock_ok:
  assumes "books s" and "waits_ok (snd s)" and "known (snd s) ids" and "same_frame g (snd s)"
  shows "\<exists>r t. find_deadlock ids w s = Inr (r, t) \<and> books t \<and> alike (snd s) (snd t) \<and> core_device (fst t) = core_device (fst s) \<and> found_at g ids w s t r"
  using assms
proof (induction ids arbitrary: w s)
  case (Cons i ids)
  obtain n where n: "GetNodeById (snd s) i = Some n" using Cons.prems(3) by (auto simp: known_def GetNodeById_def)
  let ?w = "if nd_nodeType n = NODE_WAIT then Some i else w"
  have w: "?w = wait_step g i w"
    using n has_type_frame[OF Cons.prems(4), of NODE_WAIT i] by (simp add: wait_step_def has_type_def)
  obtain b t where t: "IsFusible i s = Inr (b, t)"
    using IsFusible_ends[of "snd s" i n "fst s"] Cons.prems(1,2) n by (auto simp: books_def)
  have bt: "books t" by (rule IsFusible_books[OF t Cons.prems(1) n])
  note ct = IsFusible_alike[OF t Cons.prems(1) n]
  note ft = calm_frame[OF alike_calm[OF ct(1)]]
  show ?case
  proof (cases b)
    case False
    have "i # ids = [] @ i # ids \<and> admitted [] s s \<and> IsFusible i s = Inr (False, t) \<and>
        ?w = fold (wait_step g) ([] @ [i]) w"
      using t False w by simp
    then have "found_at g (i # ids) w s t (Some (i, ?w))" unfolding found_at.simps by blast
    moreover have "find_deadlock (i # ids) w s = Inr (Some (i, ?w), t)" using n t False by (simp add: Let_def)
    ultimately show ?thesis using bt ct by blast
  next
    case True
    have "waits_ok (snd t)" "known (snd t) ids" "same_frame g (snd t)"
      using same_frame_waits_ok[OF ft Cons.prems(2)] same_frame_known[OF ft] Cons.prems(3)
        same_frame_trans[OF Cons.prems(4) ft] by (auto simp: known_def)
    from Cons.IH[OF bt this, of ?w] obtain r u where
      u: "find_deadlock ids ?w t = Inr (r, u)" "books u" "alike (snd t) (snd u)" "core_device (fst u) = core_device (fst t)"
      "found_at g ids ?w t u r" by blast
    have "found_at g (i # ids) w s u r"
    proof (cases r)
      case None
      then show ?thesis using u(5) t True by auto
    next
      case (Some p)
      obtain j w' where p: "p = (j, w')" by (cases p)
      from u(5) Some p obtain xs ys v where "ids = xs @ j # ys" "admitted xs t v" "IsFusible j v = Inr (False, u)"
        "w' = fold (wait_step g) (xs @ [j]) ?w" by auto
      then have "i # ids = (i # xs) @ j # ys \<and> admitted (i # xs) s v \<and> IsFusible j v = Inr (False, u) \<and>
          w' = fold (wait_step g) ((i # xs) @ [j]) w"
        using t True w by auto
      then show ?thesis unfolding Some p found_at.simps by blast
    qed
    moreover have "find_deadlock (i # ids) w s = Inr (r, u)" using n t True u(1) by (simp add: Let_def)
    ultimately show ?thesis using u(2,4) alike_trans[OF ct(1) u(3)] ct(2) by auto
  qed
qed simp

section \<open>Core requirements\<close>

lemma get_fold_upd:
  assumes "\<And>n. f (f n) = f n"
  shows "GetNodeById (fold (\<lambda>i. upd_node i f) ids g) j =
    (if j \<in> set ids then map_option f (GetNodeById g j) else GetNodeById g j)"
  by (induction ids arbitrary: g) (auto simp: option.map_comp o_def assms)

lemma fold_upd_ids: "sg_nodeIds (fold (\<lambda>i. upd_node i f) ids g) = sg_nodeIds g"
  "sg_headNodes (fold (\<lambda>i. upd_node i f) ids g) = sg_headNodes g"
  by (induction ids arbitrary: g) simp_all

text \<open>The largest number of cores an operator among the nodes needs, and the streams of the nodes.\<close>

definition largest :: "sk_graph \<Rightarrow> (sk_node \<Rightarrow> u32) \<Rightarrow> node_id list \<Rightarrow> u32" where
  "largest g num ids = fold max (map num (filter (\<lambda>n. nd_nodeType n = NODE_KERNEL) (List.map_filter (GetNodeById g) ids))) 0"

definition streams_on :: "sk_graph \<Rightarrow> node_id list \<Rightarrow> u32 set" where
  "streams_on g ids = nd_streamIdxInGraph ` set (List.map_filter (GetNodeById g) ids)"

definition mark_noted :: "u32 \<Rightarrow> u32 \<Rightarrow> u32 set \<Rightarrow> sk_node \<Rightarrow> sk_node" where
  "mark_noted v c ss n = (if nd_nodeType n = NODE_NOTIFY
     then n\<lparr> nd_notifyExpandVecNum := v, nd_notifyExpandCubeNum := c \<rparr> else n)\<lparr> nd_scopeStreamIds := ss \<rparr>"

text \<open>
  A scope is noted at its nodes: at its notify nodes the most cores an operator of the scope needs, at
  all of its nodes the streams of the scope. The scopes noted one after the other:
\<close>

definition note_scope :: "sk_scope \<Rightarrow> sk_graph \<Rightarrow> sk_graph" where
  "note_scope sc g = g\<lparr> sg_graphMap := (\<lambda>i. if i \<in> set (sc_nodes sc)
     then map_option (mark_noted (largest g GetVecNum (sc_nodes sc)) (largest g GetCubeNum (sc_nodes sc))
       (streams_on g (sc_nodes sc))) (sg_graphMap g i)
     else sg_graphMap g i) \<rparr>"

definition noted :: "sk_graph \<Rightarrow> sk_scope list \<Rightarrow> sk_graph" where
  "noted g ps = fold note_scope ps g"

lemma noted_simps [simp]: "noted g [] = g" "noted g (ps @ qs) = noted (noted g ps) qs" "noted g [p] = note_scope p g"
  "noted g (p # ps) = noted (note_scope p g) ps"
  by (simp_all add: noted_def)

lemma get_note_scope: "GetNodeById (note_scope sc g) i = (if i \<in> set (sc_nodes sc)
     then map_option (mark_noted (largest g GetVecNum (sc_nodes sc)) (largest g GetCubeNum (sc_nodes sc))
       (streams_on g (sc_nodes sc))) (GetNodeById g i) else GetNodeById g i)"
  by (simp add: note_scope_def GetNodeById_def)

lemma mark_noted_keeps:
  "node_frame (mark_noted v c ss n) = node_frame n" "nd_isFusible (mark_noted v c ss n) = nd_isFusible n"
  "nd_isVisited (mark_noted v c ss n) = nd_isVisited n"
  "noted_at (mark_noted v c ss n) = (if nd_nodeType n = NODE_NOTIFY then (v, c) else fst (noted_at n), ss)"
  by (simp_all add: mark_noted_def node_frame_def noted_at_def)

lemma note_scope_calm: "calm g (note_scope sc g)"
proof -
  have "map_option node_frame (GetNodeById (note_scope sc g) i) = map_option node_frame (GetNodeById g i)"
    "map_option nd_isFusible (GetNodeById (note_scope sc g) i) = map_option nd_isFusible (GetNodeById g i)" for i
    by (simp_all add: get_note_scope option.map_comp o_def mark_noted_keeps)
  then show ?thesis by (simp add: calm_def same_frame_def note_scope_def)
qed

lemma noted_calm: "calm g (noted g ps)"
proof (induction ps arbitrary: g)
  case (Cons p ps)
  from calm_trans[OF note_scope_calm Cons] show ?case by simp
qed simp

text \<open>Noting does the same to graphs that are alike.\<close>

lemma alikeD:
  assumes "alike g h" and "GetNodeById h i = Some n"
  obtains m where "GetNodeById g i = Some m" and "node_frame m = node_frame n" and "nd_isFusible m = nd_isFusible n"
    and "noted_at m = noted_at n"
proof -
  obtain m where m: "GetNodeById g i = Some m" "node_frame m = node_frame n" "nd_isFusible m = nd_isFusible n"
    using calmD[OF alike_calm[OF assms(1)] assms(2)] .
  have "needs h i = needs g i" using assms(1) by (simp add: alike_def)
  then have "noted_at m = noted_at n" using m(1) assms(2) by (simp add: needs_def)
  then show thesis using that m by blast
qed

lemma largest_cong:
  assumes "\<And>i. i \<in> set ids \<Longrightarrow> map_option (\<lambda>n. (num n, nd_nodeType n)) (GetNodeById h i) =
      map_option (\<lambda>n. (num n, nd_nodeType n)) (GetNodeById g i)"
  shows "largest h num ids = largest g num ids"
proof -
  have "map num (filter (\<lambda>n. nd_nodeType n = NODE_KERNEL) (List.map_filter (GetNodeById h) ids)) =
      map num (filter (\<lambda>n. nd_nodeType n = NODE_KERNEL) (List.map_filter (GetNodeById g) ids))"
    using assms
  proof (induction ids)
    case (Cons i ids)
    have "map_option (\<lambda>n. (num n, nd_nodeType n)) (GetNodeById h i) =
      map_option (\<lambda>n. (num n, nd_nodeType n)) (GetNodeById g i)" using Cons.prems by simp
    then show ?case using Cons
      by (cases "GetNodeById h i"; cases "GetNodeById g i") (simp_all add: List.map_filter_simps)
  qed simp
  then show ?thesis by (simp add: largest_def)
qed

lemma alike_field:
  assumes "alike g h" and "\<And>m n. node_frame m = node_frame n \<Longrightarrow> noted_at m = noted_at n \<Longrightarrow> f m = f n"
  shows "map_option f (GetNodeById h i) = map_option f (GetNodeById g i)"
proof (cases "GetNodeById h i")
  case (Some n)
  obtain m where m: "GetNodeById g i = Some m" "node_frame m = node_frame n" "noted_at m = noted_at n"
    using alikeD[OF assms(1) Some] .
  show ?thesis using Some m(1) assms(2)[OF m(2,3)] by simp
qed (use same_frame_None[OF calm_frame[OF alike_calm[OF assms(1)]]] in simp)

lemma alike_cores:
  assumes "alike g h"
  shows "largest h GetVecNum ids = largest g GetVecNum ids" "largest h GetCubeNum ids = largest g GetCubeNum ids"
proof -
  have node: "GetVecNum m = GetVecNum n \<and> GetCubeNum m = GetCubeNum n \<and> nd_nodeType m = nd_nodeType n"
    if "node_frame m = node_frame n" "noted_at m = noted_at n" for m n
    using node_frame_eqD(1,2,9)[OF that(1)] that(2)
    by (simp_all add: GetVecNum_def GetCubeNum_def noted_at_def split: node_class.split)
  have "map_option (\<lambda>n. (GetVecNum n, nd_nodeType n)) (GetNodeById h i) =
      map_option (\<lambda>n. (GetVecNum n, nd_nodeType n)) (GetNodeById g i)"
    "map_option (\<lambda>n. (GetCubeNum n, nd_nodeType n)) (GetNodeById h i) =
      map_option (\<lambda>n. (GetCubeNum n, nd_nodeType n)) (GetNodeById g i)" for i
    by (rule alike_field[OF assms]; drule (1) node; simp)+
  then show "largest h GetVecNum ids = largest g GetVecNum ids" "largest h GetCubeNum ids = largest g GetCubeNum ids"
    by (auto intro: largest_cong)
qed

lemma alike_streams:
  assumes "alike g h"
  shows "streams_on h ids = streams_on g ids"
proof -
  have s: "map_option nd_streamIdxInGraph (GetNodeById h i) = map_option nd_streamIdxInGraph (GetNodeById g i)" for i
    by (rule same_frame_stream(1)[OF calm_frame[OF alike_calm[OF assms]]])
  show ?thesis
  proof (induction ids)
    case (Cons i ids)
    from s[of i] Cons.IH show ?case
      by (cases "GetNodeById h i"; cases "GetNodeById g i") (simp_all add: streams_on_def List.map_filter_simps)
  qed (simp add: streams_on_def)
qed

lemma alike_note_scope:
  assumes "alike g h"
  shows "alike (note_scope sc g) (note_scope sc h)"
proof -
  have "map_option (\<lambda>n. noted_at (mark_noted v c ss n)) (GetNodeById h i) =
      map_option (\<lambda>n. noted_at (mark_noted v c ss n)) (GetNodeById g i)"
    "map_option noted_at (GetNodeById h i) = map_option noted_at (GetNodeById g i)" for v c ss i
    by (rule alike_field[OF assms]; drule node_frame_eqD(9); simp add: mark_noted_keeps)+
  then have "needs (note_scope sc h) = needs (note_scope sc g)"
    by (simp add: fun_eq_iff needs_def get_note_scope option.map_comp o_def alike_cores[OF assms] alike_streams[OF assms])
  moreover have "calm (note_scope sc g) (note_scope sc h)"
    by (rule calm_trans[OF calm_sym[OF note_scope_calm] calm_trans[OF alike_calm[OF assms] note_scope_calm]])
  ultimately show ?thesis by (simp add: alike_def)
qed

lemma alike_noted: "alike g h \<Longrightarrow> alike (noted g ps) (noted h ps)"
  by (induction ps arbitrary: g h) (simp_all add: alike_note_scope)

text \<open>The code's loops note a scope.\<close>

lemma max_cores_eq:
  "max_cores g ids = (largest g GetVecNum ids, largest g GetCubeNum ids)"
proof -
  let ?k = "\<lambda>ids. filter (\<lambda>n. nd_nodeType n = NODE_KERNEL) (List.map_filter (GetNodeById g) ids)"
  have "fold (\<lambda>i (v, c). case GetNodeById g i of None \<Rightarrow> (v, c)
       | Some n \<Rightarrow> if nd_nodeType n = NODE_KERNEL then (max v (GetVecNum n), max c (GetCubeNum n)) else (v, c)) ids (a, b) =
     (fold max (map GetVecNum (?k ids)) a, fold max (map GetCubeNum (?k ids)) b)" for a b
    by (induction ids arbitrary: a b) (auto simp: List.map_filter_simps max.commute split: option.split)
  then show ?thesis by (simp add: max_cores_def largest_def)
qed

lemma scope_streams_eq: "scope_streams g ids = streams_on g ids"
  by (induction ids) (auto simp: scope_streams_def streams_on_def List.map_filter_simps split: option.split)

lemma set_expand_upd: "set_expand v c = (\<lambda>i. upd_node i
    (\<lambda>n. if nd_nodeType n = NODE_NOTIFY then n\<lparr> nd_notifyExpandVecNum := v, nd_notifyExpandCubeNum := c \<rparr> else n))"
proof (intro ext)
  fix i g
  show "set_expand v c i g = upd_node i
    (\<lambda>n. if nd_nodeType n = NODE_NOTIFY then n\<lparr> nd_notifyExpandVecNum := v, nd_notifyExpandCubeNum := c \<rparr> else n) g"
    by (cases "sg_graphMap g i") (auto simp: set_expand_def GetNodeById_def upd_node_def fun_upd_idem)
qed

lemma mark_streams_loop:
  assumes "known g ids"
  shows "foldR (\<lambda>i g. bindR (derefR (GetNodeById g i)) (\<lambda>_. Inr (upd_node i f g))) ids g =
    Inr (fold (\<lambda>i. upd_node i f) ids g)"
  using assms
proof (induction ids arbitrary: g)
  case (Cons i ids)
  then obtain n where "GetNodeById g i = Some n" by (auto simp: known_def GetNodeById_def)
  moreover have "known (upd_node i f g) ids" using Cons.prems by (simp add: known_def)
  ultimately show ?case using Cons.IH by simp
qed simp

lemma get_visited: "(\<And>i. map_option nd_isVisited (GetNodeById h i) = map_option nd_isVisited (GetNodeById g i)) \<Longrightarrow>
    visited h = visited g"
  unfolding visited_def by (rule Collect_cong) (metis (no_types, lifting) map_option_eq_Some)

lemma SetNotifyNodesExpandNumForScope_ok:
  assumes "known g (sc_nodes sc)"
  obtains h where "SetNotifyNodesExpandNumForScope sc g = Inr h" and "alike (note_scope sc g) h"
    and "visited h = visited g"
proof -
  let ?ids = "sc_nodes sc" and ?v = "largest g GetVecNum (sc_nodes sc)" and ?c = "largest g GetCubeNum (sc_nodes sc)"
  let ?ss = "streams_on g (sc_nodes sc)"
  let ?e = "\<lambda>n. if nd_nodeType n = NODE_NOTIFY then n\<lparr> nd_notifyExpandVecNum := ?v, nd_notifyExpandCubeNum := ?c \<rparr> else n"
  let ?f = "\<lambda>n. n\<lparr> nd_scopeStreamIds := ?ss \<rparr>"
  let ?g = "fold (\<lambda>i. upd_node i ?e) ?ids g"
  let ?h = "fold (\<lambda>i. upd_node i ?f) ?ids ?g"
  have e: "GetNodeById ?g j = (if j \<in> set ?ids then map_option ?e (GetNodeById g j) else GetNodeById g j)" for j
    by (rule get_fold_upd) simp
  have "known ?g ?ids" using assms e by (auto simp: known_def GetNodeById_def dom_def subset_iff)
  from mark_streams_loop[OF this, of ?f] have "SetNotifyNodesExpandNumForScope sc g = Inr ?h"
    by (simp add: SetNotifyNodesExpandNumForScope_def Let_def max_cores_eq scope_streams_eq set_expand_upd)
  moreover have get: "GetNodeById ?h j = GetNodeById (note_scope sc g) j" for j
  proof -
    have "GetNodeById ?h j = (if j \<in> set ?ids then map_option ?f (GetNodeById ?g j) else GetNodeById ?g j)"
      by (rule get_fold_upd) simp
    then show ?thesis by (auto simp: e get_note_scope option.map_comp o_def mark_noted_def cong: map_option_cong)
  qed
  moreover have "alike (note_scope sc g) ?h"
    by (simp add: alike_def calm_def same_frame_def get needs_def fun_eq_iff fold_upd_ids note_scope_def)
  moreover have "visited ?h = visited g"
    by (rule get_visited) (simp add: get get_note_scope option.map_comp o_def mark_noted_keeps)
  ultimately show thesis using that by blast
qed

text \<open>No core requirement and no stream of a scope is noted at the node.\<close>

definition plain_node :: "sk_graph \<Rightarrow> node_id \<Rightarrow> bool" where
  "plain_node g i \<longleftrightarrow> (\<forall>n. GetNodeById g i = Some n \<longrightarrow> nd_scopeStreamIds n = {} \<and>
     (nd_nodeType n = NODE_NOTIFY \<longrightarrow> nd_notifyExpandVecNum n = 0 \<and> nd_notifyExpandCubeNum n = 0))"

definition plain :: "sk_node \<Rightarrow> sk_node" where
  "plain n = mark_noted 0 0 {} n"

lemma reset_scopes_get:
  "GetNodeById (fold ResetNotifyExpandNumForScope scopes g) j =
    (if j \<in> set (concat (map sc_nodes scopes)) then map_option plain (GetNodeById g j) else GetNodeById g j)"
  "sg_nodeIds (fold ResetNotifyExpandNumForScope scopes g) = sg_nodeIds g"
  "sg_headNodes (fold ResetNotifyExpandNumForScope scopes g) = sg_headNodes g"
proof -
  have one: "(case GetNodeById g i of None \<Rightarrow> g
     | Some n \<Rightarrow> upd_node i (\<lambda>n. n\<lparr> nd_scopeStreamIds := {} \<rparr>) (set_expand 0 0 i g)) = upd_node i plain g" for i g
    by (cases "sg_graphMap g i") (simp_all add: set_expand_def GetNodeById_def upd_node_def plain_def mark_noted_def)
  have "ResetNotifyExpandNumForScope sc g = fold (\<lambda>i. upd_node i plain) (sc_nodes sc) g" for sc g
    by (simp add: ResetNotifyExpandNumForScope_def one)
  then have eq: "fold ResetNotifyExpandNumForScope scopes g = fold (\<lambda>i. upd_node i plain) (concat (map sc_nodes scopes)) g"
    by (induction scopes arbitrary: g) simp_all
  show "GetNodeById (fold ResetNotifyExpandNumForScope scopes g) j =
    (if j \<in> set (concat (map sc_nodes scopes)) then map_option plain (GetNodeById g j) else GetNodeById g j)"
    unfolding eq by (rule get_fold_upd) (simp add: plain_def mark_noted_def)
  show "sg_nodeIds (fold ResetNotifyExpandNumForScope scopes g) = sg_nodeIds g"
    "sg_headNodes (fold ResetNotifyExpandNumForScope scopes g) = sg_headNodes g"
    unfolding eq by (rule fold_upd_ids)+
qed

lemma reset_scopes:
  fixes scopes g
  defines "h \<equiv> fold ResetNotifyExpandNumForScope scopes g"
  shows "calm g h" and "visited h = visited g" and "i \<in> set (concat (map sc_nodes scopes)) \<Longrightarrow> plain_node h i"
proof -
  note get = reset_scopes_get[of scopes g, folded h_def]
  have "map_option node_frame (GetNodeById h i) = map_option node_frame (GetNodeById g i)"
    "map_option nd_isFusible (GetNodeById h i) = map_option nd_isFusible (GetNodeById g i)" for i
    by (simp_all add: get(1) option.map_comp o_def mark_noted_keeps plain_def)
  then show "calm g h" using get(2,3) by (simp add: calm_def same_frame_def)
  show "visited h = visited g"
    by (rule get_visited) (simp add: get(1) option.map_comp o_def mark_noted_keeps plain_def)
  show "i \<in> set (concat (map sc_nodes scopes)) \<Longrightarrow> plain_node h i"
    by (auto simp: plain_node_def get(1) plain_def mark_noted_def)
qed

text \<open>Resetting the scopes that have been noted leads back to where nothing was noted.\<close>

lemma noted_outside: "i \<notin> set (concat (map sc_nodes ps)) \<Longrightarrow> needs (noted g ps) i = needs g i"
  by (induction ps arbitrary: g) (auto simp: needs_def get_note_scope)

lemma noted_fst: "\<not> has_type g NODE_NOTIFY i \<Longrightarrow> map_option fst (needs (noted g ps) i) = map_option fst (needs g i)"
proof (induction ps arbitrary: g)
  case (Cons p ps)
  have t: "\<not> has_type (note_scope p g) NODE_NOTIFY i"
    using Cons.prems has_type_frame[OF calm_frame[OF note_scope_calm]] by simp
  have "map_option fst (needs (note_scope p g) i) = map_option fst (needs g i)"
    using Cons.prems by (cases "GetNodeById g i")
      (simp_all add: needs_def get_note_scope mark_noted_keeps has_type_def option.map_comp o_def)
  then show ?case using Cons.IH[OF t] by simp
qed simp

lemma reset_noted:
  assumes "alike (noted g ps) k" and "\<forall>i. plain_node g i"
  shows "needs (fold ResetNotifyExpandNumForScope ps k) = needs g"
proof
  fix i
  let ?h = "fold ResetNotifyExpandNumForScope ps k"
  have ki: "needs k i = needs (noted g ps) i" using assms(1) by (simp add: alike_def)
  show "needs ?h i = needs g i"
  proof (cases "i \<in> set (concat (map sc_nodes ps))")
    case False
    then have "needs ?h i = needs k i" by (simp add: needs_def reset_scopes_get(1))
    then show ?thesis using ki noted_outside[OF False, of g] by simp
  next
    case True
    then have h: "needs ?h i = map_option (noted_at \<circ> plain) (GetNodeById k i)"
      by (simp add: needs_def reset_scopes_get(1) option.map_comp)
    show ?thesis
    proof (cases "GetNodeById k i")
      case (Some n)
      have "calm g k" using calm_trans[OF noted_calm alike_calm[OF assms(1)]] .
      then obtain m where m: "GetNodeById g i = Some m" "node_frame m = node_frame n" using calmD[OF _ Some] by metis
      have p: "nd_scopeStreamIds m = {}" "nd_nodeType m = NODE_NOTIFY \<Longrightarrow> fst (noted_at m) = (0, 0)"
        using assms(2) m(1) by (auto simp: plain_node_def noted_at_def)
      have "nd_nodeType m \<noteq> NODE_NOTIFY \<Longrightarrow> fst (noted_at n) = fst (noted_at m)"
        using noted_fst[of g i ps] ki Some m(1) by (auto simp: needs_def has_type_def)
      moreover have "needs g i = Some (fst (noted_at m), {})" using m(1) p(1) by (simp add: needs_def noted_at_def)
      ultimately show ?thesis using h Some p(2) node_frame_eqD(9)[OF m(2)]
        by (auto simp: plain_def mark_noted_keeps)
    next
      case None
      have "same_frame g k" using calm_frame[OF calm_trans[OF noted_calm alike_calm[OF assms(1)]]] .
      then show ?thesis using None h same_frame_None[of g k i] by (simp add: needs_def)
    qed
  qed
qed

lemma plain_same_but_visited:
  assumes "same_but_visited g h" and "plain_node g i"
  shows "plain_node h i"
  unfolding plain_node_def
proof (intro allI impI)
  fix n assume n: "GetNodeById h i = Some n"
  obtain m where m: "GetNodeById g i = Some m" "unvisit m = unvisit n"
    using same_but_visitedD[OF same_but_visited_sym[OF assms(1)] n] by blast
  note c = m(2)[THEN arg_cong]
  show "nd_scopeStreamIds n = {} \<and> (nd_nodeType n = NODE_NOTIFY \<longrightarrow>
      nd_notifyExpandVecNum n = 0 \<and> nd_notifyExpandCubeNum n = 0)"
    using assms(2) m(1) c[of nd_scopeStreamIds] c[of nd_nodeType] c[of nd_notifyExpandVecNum]
      c[of nd_notifyExpandCubeNum] by (simp add: plain_node_def unvisit_def)
qed

section \<open>One scope\<close>

text \<open>
  The detector, as its constructor makes it, admits the nodes one after the other on the graph. Only
  the reasons not to fuse, which the detector writes and never reads, may differ from those of the
  graph; no node is marked.
\<close>

definition admits :: "lock_state \<Rightarrow> sk_graph \<Rightarrow> node_id list \<Rightarrow> bool" where
  "admits L g ids \<longleftrightarrow> (\<exists>h t. alike g h \<and> visited h = {} \<and> admitted ids (new_detector L, h) t)"

text \<open>A node is rejected and there is no wait before it to split at.\<close>

definition stuck :: "lock_state \<Rightarrow> sk_graph \<Rightarrow> node_id list \<Rightarrow> bool" where
  "stuck L g ids \<longleftrightarrow> (\<exists>h xs d ys t u. alike g h \<and> visited h = {} \<and>
     ids = xs @ d # ys \<and> admitted xs (new_detector L, h) t \<and> IsFusible d t = Inr (False, u) \<and>
     (\<forall>i\<in>set (xs @ [d]). \<not> has_type g NODE_WAIT i))"

lemma admitsI: "alike g h \<Longrightarrow> visited h = {} \<Longrightarrow> admitted ids (new_detector L, h) t \<Longrightarrow> admits L g ids"
  unfolding admits_def by blast

text \<open>One scope after the other, each with the scopes before it noted.\<close>

fun admits_all :: "lock_state \<Rightarrow> sk_graph \<Rightarrow> sk_scope list \<Rightarrow> bool" where
  "admits_all L g [] = True"
| "admits_all L g (p # ps) = (admits L g (sc_nodes p) \<and> admits_all L (note_scope p g) ps)"

lemma admits_all_append: "admits_all L g (ps @ qs) \<longleftrightarrow> admits_all L g ps \<and> admits_all L (noted g ps) qs"
  by (induction ps arbitrary: g) auto

lemma admits_all_alike: "alike g h \<Longrightarrow> admits_all L g ps \<Longrightarrow> admits_all L h ps"
proof (induction ps arbitrary: g h)
  case (Cons p ps)
  have "admits L h (sc_nodes p)" using Cons.prems alike_trans[OF alike_sym[OF Cons.prems(1)]] by (auto simp: admits_def)
  then show ?case using Cons.IH[OF alike_note_scope[OF Cons.prems(1)]] Cons.prems(2) by simp
qed simp

definition pass_inv :: "sk_graph \<Rightarrow> nat \<Rightarrow> split_ctx \<Rightarrow> sk_scope list \<Rightarrow> split_ctx \<Rightarrow> bool" where
  "pass_inv g k cx0 ps cx \<longleftrightarrow> books (cx_locks cx k, cx_graph cx) \<and> (\<forall>j. lock_idle (cx_locks cx j)) \<and>
     alike (noted g ps) (cx_graph cx) \<and> cx_resplit cx = cx_resplit cx0 \<and>
     (\<forall>j. core_device (cx_locks cx j) = core_device (cx_locks cx0 j))"

lemma pass_inv_calm: "pass_inv g k cx0 ps cx \<Longrightarrow> calm g (cx_graph cx)"
  using calm_trans[OF noted_calm alike_calm] by (auto simp: pass_inv_def)

lemma books_calm: "calm g h \<Longrightarrow> visited h = visited g \<Longrightarrow> books (L, g) \<Longrightarrow> books (L, h)"
  by (auto simp: calm_def books_def intro: same_frame_graph_ok)

lemma pass_inv_graph:
  assumes "pass_inv g k cx0 ps cx" and "calm (cx_graph cx) h" and "visited h = visited (cx_graph cx)"
    and "alike (noted g qs) h"
    and "cx_graph cx' = h" "cx_locks cx' = cx_locks cx" "cx_resplit cx' = cx_resplit cx"
  shows "pass_inv g k cx0 qs cx'"
  using assms books_calm[OF assms(2,3)] by (simp add: pass_inv_def)

lemma FindDeadlockInScope_ok:
  assumes "waits_ok g" and inv: "pass_inv g k cx0 ps cx" and "known g (sc_nodes sc)"
  shows "\<exists>r s h. FindDeadlockInScope sc (cx_locks cx k, cx_graph cx) = Inr (r, s) \<and>
    pass_inv g k cx0 ps (put_lock k s cx) \<and> alike (noted g ps) h \<and> visited h = {} \<and>
    found_at g (sc_nodes sc) None (new_detector (cx_locks cx0 k), h) s r"
proof -
  let ?s = "LockReset (cx_locks cx k, cx_graph cx)"
  have b: "books (cx_locks cx k, cx_graph cx)" and c: "alike (noted g ps) (cx_graph cx)"
    and i: "\<forall>j. lock_idle (cx_locks cx j)" and d: "\<forall>j. core_device (cx_locks cx j) = core_device (cx_locks cx0 j)"
    using inv by (simp_all add: pass_inv_def)
  note r = LockReset_books[OF b]
  have new: "fst ?s = new_detector (cx_locks cx0 k)"
    using LockReset_new[of "(cx_locks cx k, cx_graph cx)"] new_detector_device[of "cx_locks cx k" "cx_locks cx0 k"] d
    by (simp only: fst_conv)
  have cs: "alike (noted g ps) (snd ?s)"
    using alike_trans[OF c same_but_visited_alike] LockReset_same[of "(cx_locks cx k, cx_graph cx)"] by simp
  have f: "same_frame g (snd ?s)" using calm_frame[OF calm_trans[OF noted_calm alike_calm[OF cs]]] .
  have "waits_ok (snd ?s)" "known (snd ?s) (sc_nodes sc)"
    using same_frame_waits_ok[OF f assms(1)] same_frame_known[OF f] assms(3) by simp_all
  from find_deadlock_ok[OF r(1) this f, of None] obtain q t where
    t: "find_deadlock (sc_nodes sc) None ?s = Inr (q, t)" "books t" "alike (snd ?s) (snd t)"
      "core_device (fst t) = core_device (fst ?s)" "found_at g (sc_nodes sc) None ?s t q" by blast
  have "core_device (fst t) = core_device (cx_locks cx0 k)"
    using t(4) new by (simp add: new_detector_def core_device_def LockInit_def GetDeviceCores_def GetDeviceCoreNums_def Let_def)
  then have "pass_inv g k cx0 ps (put_lock k t cx)"
    using t(2) books_idle[OF t(2)] i d alike_trans[OF cs t(3)] inv
    by (simp add: pass_inv_def put_lock_def)
  moreover have "found_at g (sc_nodes sc) None (new_detector (cx_locks cx0 k), snd ?s) t q"
    using t(5) new by (metis prod.collapse)
  moreover have "FindDeadlockInScope sc (cx_locks cx k, cx_graph cx) = Inr (q, t)"
    using t(1) by (simp add: FindDeadlockInScope_def)
  ultimately show ?thesis using cs r(2) by blast
qed

text \<open>The scopes kept of a scope.\<close>

definition kept :: "sk_graph \<Rightarrow> sk_scope \<Rightarrow> sk_scope \<Rightarrow> bool" where
  "kept g sc p \<longleftrightarrow> sc_nodes p \<noteq> [] \<and> scope_ok g (sc_bitFlags sc) p"

lemma calm_scope_ok_iff: "calm g h \<Longrightarrow> scope_ok h fl sc = scope_ok g fl sc"
  using calm_scope_ok calm_sym by blast

lemma filter_ne_notin: "w \<notin> set xs \<Longrightarrow> filter (\<lambda>j. j \<noteq> w) xs = xs"
  by (induction xs) auto

lemma deadlock_single:
  assumes g: "graph_ok g" "waits_ok g" and inv: "pass_inv g k cx0 out cx"
    and sc: "scope_ok g fl sc" "sc_nodes sc \<noteq> []" "distinct (sc_nodes sc)"
  obtains (whole) cx' where "DeadlockProcessSingleScope k sc out cx = Inr (NO_DEADLOCK, out @ [sc], None, cx')"
      "pass_inv g k cx0 (out @ [sc]) cx'" "admits (cx_locks cx0 k) (noted g out) (sc_nodes sc)"
  | (stop) cx' where "DeadlockProcessSingleScope k sc out cx = Inr (DEADLOCK_UNRESOLVED, out, None, cx')"
      "pass_inv g k cx0 out cx'" "stuck (cx_locks cx0 k) (noted g out) (sc_nodes sc)"
  | (cut) before w after cx' where "DeadlockProcessSingleScope k sc out cx = Inr (DEADLOCK_RESOLVED,
        (if sc_nodes before \<noteq> [] then out @ [before] else out), (if sc_nodes after \<noteq> [] then Some after else None), cx')"
      "pass_inv g k cx0 (if sc_nodes before \<noteq> [] then out @ [before] else out) cx'"
      "sc_nodes sc = sc_nodes before @ w # sc_nodes after" "has_type g NODE_WAIT w"
      "scope_ok g fl before" "scope_ok g fl after" "admits (cx_locks cx0 k) (noted g out) (sc_nodes before)"
proof -
  have k: "known g (sc_nodes sc)" using sc(1) by (simp add: scope_ok_def)
  let ?L = "new_detector (cx_locks cx0 k)"
  obtain r s h where r: "FindDeadlockInScope sc (cx_locks cx k, cx_graph cx) = Inr (r, s)"
    "pass_inv g k cx0 out (put_lock k s cx)" "alike (noted g out) h" "visited h = {}"
    "found_at g (sc_nodes sc) None (?L, h) s r"
    using FindDeadlockInScope_ok[OF g(2) inv k] by blast
  let ?cx = "put_lock k s cx" and ?g = "cx_graph (put_lock k s cx)"
  have al: "alike (noted g out) ?g" using r(2) by (simp add: pass_inv_def)
  note c = pass_inv_calm[OF r(2)]
  note f = calm_frame[OF c]
  show thesis
  proof (cases r)
    case None
    have "known ?g (sc_nodes sc)" using same_frame_known[OF f] k by simp
    then obtain h' where h': "SetNotifyNodesExpandNumForScope sc ?g = Inr h'" "alike (note_scope sc ?g) h'"
      "visited h' = visited ?g" by (rule SetNotifyNodesExpandNumForScope_ok)
    have "calm ?g h'" using calm_trans[OF note_scope_calm alike_calm[OF h'(2)]] .
    moreover have "alike (noted g (out @ [sc])) h'" using alike_trans[OF alike_note_scope[OF al] h'(2)] by simp
    ultimately have "pass_inv g k cx0 (out @ [sc]) (?cx\<lparr> cx_graph := h' \<rparr>)"
      using pass_inv_graph[OF r(2) _ h'(3)] by simp
    moreover have "admits (cx_locks cx0 k) (noted g out) (sc_nodes sc)"
      by (rule admitsI[OF r(3,4)]) (use r(5) None in simp)
    moreover have "DeadlockProcessSingleScope k sc out cx = Inr (NO_DEADLOCK, out @ [sc], None, ?cx\<lparr> cx_graph := h' \<rparr>)"
      using sc(2) r(1) None h'(1) by (simp add: DeadlockProcessSingleScope_def Let_def)
    ultimately show thesis using whole by blast
  next
    case (Some p)
    obtain d w where p: "p = (d, w)" by (cases p)
    obtain xs ys u where at: "sc_nodes sc = xs @ d # ys" "admitted xs (?L, h) u" "IsFusible d u = Inr (False, s)"
      "w = fold (wait_step g) (xs @ [d]) None" using r(5) Some p by auto
    show thesis
    proof (cases w)
      case None
      have "\<forall>i\<in>set (xs @ [d]). \<not> has_type g NODE_WAIT i" using no_last_wait at(4) None by metis
      then have "\<forall>i\<in>set (xs @ [d]). \<not> has_type (noted g out) NODE_WAIT i"
        using has_type_frame[OF calm_frame[OF noted_calm]] by blast
      then have "stuck (cx_locks cx0 k) (noted g out) (sc_nodes sc)" unfolding stuck_def using r(3,4) at(1-3) by blast
      moreover have "DeadlockProcessSingleScope k sc out cx = Inr (DEADLOCK_UNRESOLVED, out, None, ?cx)"
        using sc(2) r(1) Some p None by (simp add: DeadlockProcessSingleScope_def Let_def)
      ultimately show thesis using stop r(2) by blast
    next
      case wait: (Some w')
      obtain as bs where as: "xs @ [d] = as @ w' # bs" "has_type g NODE_WAIT w'"
        using last_wait_split[of g "xs @ [d]" w'] at(4) wait by metis
      let ?cs = "bs @ ys"
      have nodes: "sc_nodes sc = as @ w' # ?cs" using at(1) as(1)
        by (metis append.assoc append_Cons append_Nil)
      obtain zs where "xs = as @ zs" using as(1) by (cases bs rule: rev_cases) auto
      then obtain v where "admitted as (?L, h) v" using at(2) by (auto simp: admitted_append)
      then have adm: "admits (cx_locks cx0 k) (noted g out) as" by (rule admitsI[OF r(3,4)])
      have d: "distinct (as @ w' # ?cs)" using sc(3) nodes by simp
      note tw = takeWhile_split[OF d]
      have drop: "filter (\<lambda>j. j \<noteq> w') (w' # ?cs) = ?cs" using d filter_ne_notin[of w' ?cs] by simp
      have scg: "scope_ok ?g fl sc" "graph_ok ?g"
        using calm_scope_ok[OF c sc(1)] same_frame_graph_ok[OF f g(1)] .
      have fl: "sc_bitFlags sc = fl" using sc(1) by (simp add: scope_ok_def)
      obtain b0 cx1 where b0: "make_scope ?cx = (b0, cx1)" by fastforce
      obtain a0 cx2 where a0: "make_scope cx1 = (a0, cx2)" by fastforce
      have ids: "only_ids ?cx cx2" using make_scope_only_ids[OF b0] make_scope_only_ids[OF a0] only_ids_trans by blast
      note eq = only_ids_eq[OF ids]
      obtain before where before: "RebuildStreamInfos ?g (b0\<lparr> sc_bitFlags := fl, sc_nodes := as \<rparr>) = Inr before"
        "scope_ok ?g fl before" "sc_nodes before = as"
        by (rule scope_ok_part[OF scg(2,1), of as "b0\<lparr> sc_bitFlags := fl, sc_nodes := as \<rparr>"]) (use nodes in auto)
      obtain after where after: "RebuildStreamInfos ?g (a0\<lparr> sc_bitFlags := fl, sc_nodes := ?cs \<rparr>) = Inr after"
        "scope_ok ?g fl after" "sc_nodes after = ?cs"
        by (rule scope_ok_part[OF scg(2,1), of ?cs "a0\<lparr> sc_bitFlags := fl, sc_nodes := ?cs \<rparr>"]) (use nodes in auto)
      have "d \<in> set (sc_nodes sc)" unfolding at(1) by simp
      moreover have "w' \<in> set (sc_nodes sc)" unfolding nodes by simp
      ultimately obtain dn wn where dn: "GetNodeById ?g d = Some dn" and wn: "GetNodeById ?g w' = Some wn"
        using scg(1) unfolding scope_ok_def by blast
      let ?h = "upd_node d (SetFusionFailReason EXIST_DEADLOCK) ?g"
      have gh: "alike ?g ?h" by simp
      have vh: "visited ?h = visited ?g"
        by (rule get_visited) (simp add: SetFusionFailReason_def option.map_comp o_def)
      let ?b = "SetupScopeBeforeBreakInfo (sc_breakInfo sc) (sc_scopeId sc) dn wn (HasSameKernelNodes ?h sc before) before"
      let ?a = "SetupScopeAfterBreakInfo (sc_breakInfo sc) (sc_scopeId sc) (HasSameKernelNodes ?h sc after) after"
      have b: "sc_nodes ?b = as" "scope_ok ?g fl ?b" and a: "sc_nodes ?a = ?cs" "scope_ok ?g fl ?a"
        using before after by (auto simp: SetupScopeBeforeBreakInfo_def SetupScopeAfterBreakInfo_def)
      have "known ?h (sc_nodes ?b)" using same_frame_known[OF calm_frame[OF alike_calm[OF gh]]] b(2) by (simp add: scope_ok_def)
      then obtain h' where h': "SetNotifyNodesExpandNumForScope ?b ?h = Inr h'" "alike (note_scope ?b ?h) h'"
        "visited h' = visited ?h" by (rule SetNotifyNodesExpandNumForScope_ok)
      let ?k = "if as \<noteq> [] then h' else ?h" and ?out = "if as \<noteq> [] then out @ [?b] else out"
      have gk: "calm ?g ?k"
        using calm_trans[OF alike_calm[OF gh] calm_trans[OF note_scope_calm alike_calm[OF h'(2)]]] alike_calm[OF gh] by simp
      have vk: "visited ?k = visited ?g" using h'(3) vh by simp
      have ak: "alike (noted g ?out) ?k"
        using alike_trans[OF alike_note_scope[OF alike_trans[OF al gh]] h'(2)] alike_trans[OF al gh] by simp
      have split: "SplitScopeAtWaitNode ?g sc w' b0 a0 = Inr (before, after)"
        using before(1) after(1) tw drop nodes fl by (simp add: SplitScopeAtWaitNode_def)
      have "HandleDeadlockSplit sc d w' out ?cx = Inr (DEADLOCK_RESOLVED, (if sc_nodes ?b \<noteq> [] then out @ [?b] else out),
          (if sc_nodes ?a \<noteq> [] then Some ?a else None), cx2\<lparr> cx_graph := ?k \<rparr>)"
        using b0 a0 split dn wn h'(1) b(1) by (simp add: HandleDeadlockSplit_def Let_def)
      then have "DeadlockProcessSingleScope k sc out cx = Inr (DEADLOCK_RESOLVED,
          (if sc_nodes ?b \<noteq> [] then out @ [?b] else out),
          (if sc_nodes ?a \<noteq> [] then Some ?a else None), cx2\<lparr> cx_graph := ?k \<rparr>)"
        using sc(2) r(1) Some p wait by (simp add: DeadlockProcessSingleScope_def Let_def)
      moreover have "pass_inv g k cx0 (if sc_nodes ?b \<noteq> [] then out @ [?b] else out) (cx2\<lparr> cx_graph := ?k \<rparr>)"
        by (rule pass_inv_graph[OF r(2) gk vk]) (use ak b(1) in \<open>simp_all add: eq\<close>)
      ultimately show thesis
        by (rule cut[where w = w']) (use nodes b a adm as(2) calm_scope_ok_iff[OF c] in simp_all)
    qed
  qed
qed

section \<open>The pass\<close>

text \<open>Nodes but for some waits.\<close>

definition without_waits :: "sk_graph \<Rightarrow> node_id list \<Rightarrow> node_id list \<Rightarrow> bool" where
  "without_waits g ids ids' \<longleftrightarrow> (\<exists>W. (\<forall>w\<in>W. has_type g NODE_WAIT w) \<and> W \<subseteq> set ids \<and>
     ids' = filter (\<lambda>i. i \<notin> W) ids)"

lemma without_waits_refl: "without_waits g ids ids"
  unfolding without_waits_def by (rule exI[of _ "{}"]) simp

lemma without_waits_Nil: "without_waits g [] []"
  by (rule without_waits_refl)

lemma without_waits_append:
  assumes "without_waits g xs xs'" and "without_waits g ys ys'" and "set xs \<inter> set ys = {}"
  shows "without_waits g (xs @ ys) (xs' @ ys')"
proof -
  obtain V where V: "\<forall>w\<in>V. has_type g NODE_WAIT w" "V \<subseteq> set xs" "xs' = filter (\<lambda>i. i \<notin> V) xs"
    using assms(1) unfolding without_waits_def by blast
  obtain W where W: "\<forall>w\<in>W. has_type g NODE_WAIT w" "W \<subseteq> set ys" "ys' = filter (\<lambda>i. i \<notin> W) ys"
    using assms(2) unfolding without_waits_def by blast
  have "filter (\<lambda>i. i \<notin> V \<union> W) xs = xs'" "filter (\<lambda>i. i \<notin> V \<union> W) ys = ys'"
    unfolding V(3) W(3) by (rule filter_cong; use V(2) W(2) assms(3) in auto)+
  then have "filter (\<lambda>i. i \<notin> V \<union> W) (xs @ ys) = xs' @ ys'" by (simp only: filter_append)
  then show ?thesis
    using V(1,2) W(1,2) unfolding without_waits_def by (intro exI[of _ "V \<union> W"]) auto
qed

lemma without_waits_drop: "has_type g NODE_WAIT w \<Longrightarrow> without_waits g [w] []"
  unfolding without_waits_def by (rule exI[of _ "{w}"]) simp

definition refined :: "sk_graph \<Rightarrow> sk_scope \<Rightarrow> sk_scope list \<Rightarrow> bool" where
  "refined g sc ps \<longleftrightarrow> without_waits g (sc_nodes sc) (concat (map sc_nodes ps)) \<and> (\<forall>p\<in>set ps. kept g sc p)"

text \<open>
  A scope no wait can rescue: parts of it have been kept, as they should, and the end that is left is
  stuck with these parts noted.
\<close>

definition stuck_end :: "lock_state \<Rightarrow> sk_graph \<Rightarrow> sk_scope \<Rightarrow> bool" where
  "stuck_end L g sc \<longleftrightarrow> (\<exists>xs ys ps. sc_nodes sc = xs @ ys \<and> without_waits g xs (concat (map sc_nodes ps)) \<and>
     (\<forall>p\<in>set ps. kept g sc p) \<and> admits_all L g ps \<and> stuck L (noted g ps) ys)"

lemma without_waits_calm: "calm g h \<Longrightarrow> without_waits h xs ys = without_waits g xs ys"
  using has_type_frame[OF calm_frame, of g h NODE_WAIT] by (simp add: without_waits_def)

lemma kept_calm: "calm g h \<Longrightarrow> kept h = kept g"
  using calm_scope_ok_iff by (fastforce simp: kept_def)

lemma deadlock_loop_refined:
  assumes g: "graph_ok g" "waits_ok g"
  shows "length (sc_nodes sc) < fuel \<Longrightarrow> pass_inv g k cx0 out cx \<Longrightarrow> scope_ok g (sc_bitFlags sc) sc \<Longrightarrow>
    sc_nodes sc \<noteq> [] \<Longrightarrow> distinct (sc_nodes sc) \<Longrightarrow>
    \<exists>ok ps cx'. deadlock_loop fuel k sc out cx = Inr (ok, out @ ps, cx') \<and> pass_inv g k cx0 (out @ ps) cx' \<and>
      (if ok then refined g sc ps \<and> admits_all (cx_locks cx0 k) (noted g out) ps
       else stuck_end (cx_locks cx0 k) (noted g out) sc)"
proof (induction fuel arbitrary: sc out cx)
  case (Suc fuel)
  let ?L = "cx_locks cx0 k"
  note c = noted_calm[of g]
  show ?case
  proof (rule deadlock_single[OF g Suc.prems(2-5)])
    fix cx' assume s: "DeadlockProcessSingleScope k sc out cx = Inr (NO_DEADLOCK, out @ [sc], None, cx')"
      "pass_inv g k cx0 (out @ [sc]) cx'" "admits ?L (noted g out) (sc_nodes sc)"
    have "refined g sc [sc]" using Suc.prems(3,4) without_waits_refl by (simp add: refined_def kept_def)
    then show ?thesis using s by (intro exI[of _ True] exI[of _ "[sc]"] exI[of _ cx']) simp
  next
    fix cx' assume s: "DeadlockProcessSingleScope k sc out cx = Inr (DEADLOCK_UNRESOLVED, out, None, cx')"
      "pass_inv g k cx0 out cx'" "stuck ?L (noted g out) (sc_nodes sc)"
    have "stuck_end ?L (noted g out) sc"
      unfolding stuck_end_def
      by (rule exI[of _ "[]"], rule exI[of _ "sc_nodes sc"], rule exI[of _ "[]"]) (use s(3) without_waits_Nil in simp)
    then show ?thesis using s(1,2) by (intro exI[of _ False] exI[of _ "[]"] exI[of _ cx']) simp
  next
    fix before w after cx'
    assume s: "DeadlockProcessSingleScope k sc out cx = Inr (DEADLOCK_RESOLVED,
        (if sc_nodes before \<noteq> [] then out @ [before] else out), (if sc_nodes after \<noteq> [] then Some after else None), cx')"
      "pass_inv g k cx0 (if sc_nodes before \<noteq> [] then out @ [before] else out) cx'"
      "sc_nodes sc = sc_nodes before @ w # sc_nodes after" "has_type g NODE_WAIT w"
      "scope_ok g (sc_bitFlags sc) before" "scope_ok g (sc_bitFlags sc) after" "admits ?L (noted g out) (sc_nodes before)"
    let ?bs = "if sc_nodes before \<noteq> [] then [before] else []"
    have out: "(if sc_nodes before \<noteq> [] then out @ [before] else out) = out @ ?bs" by simp
    have bs: "concat (map sc_nodes ?bs) = sc_nodes before" "\<forall>p\<in>set ?bs. kept g sc p" "admits_all ?L (noted g out) ?bs"
      using s(5,7) by (auto simp: kept_def)
    have d: "set (sc_nodes before) \<inter> set (w # sc_nodes after) = {}" "set [w] \<inter> set (sc_nodes after) = {}"
      using Suc.prems(5) s(3) by auto
    have cut: "without_waits g (sc_nodes before @ w # xs) (concat (map sc_nodes (?bs @ ps)))"
      if "without_waits g xs (concat (map sc_nodes ps))" "set xs \<subseteq> set (sc_nodes after)" for xs ps
    proof -
      have "set [w] \<inter> set xs = {}" "set (sc_nodes before) \<inter> set (w # xs) = {}" using d that(2) by auto
      from without_waits_append[OF without_waits_refl[of g "sc_nodes before"]
          without_waits_append[OF without_waits_drop[OF s(4)] that(1) this(1)]] this(2)
      show ?thesis using bs(1) by simp
    qed
    show ?thesis
    proof (cases "sc_nodes after = []")
      case True
      then have "refined g sc ?bs" using cut[of "[]" "[]"] without_waits_Nil s(3) bs(2) by (simp add: refined_def)
      then show ?thesis using s(1,2) True bs(3) unfolding out
        by (intro exI[of _ True] exI[of _ ?bs] exI[of _ cx']) simp
    next
      case False
      have fl: "sc_bitFlags after = sc_bitFlags sc" using s(6) by (simp add: scope_ok_def)
      have "length (sc_nodes after) < fuel" "distinct (sc_nodes after)" using Suc.prems(1,5) s(3) by simp_all
      then obtain ok ps cx2 where ps: "deadlock_loop fuel k after (out @ ?bs) cx' = Inr (ok, (out @ ?bs) @ ps, cx2)"
        "pass_inv g k cx0 ((out @ ?bs) @ ps) cx2"
        "if ok then refined g after ps \<and> admits_all ?L (noted g (out @ ?bs)) ps else stuck_end ?L (noted g (out @ ?bs)) after"
        using Suc.IH[of after "out @ ?bs" cx'] s(2,6) False fl unfolding out by metis
      have run: "deadlock_loop (Suc fuel) k sc out cx = Inr (ok, out @ (?bs @ ps), cx2)"
        using s(1) ps(1) False by (cases "sc_nodes before = []") simp_all
      have "if ok then refined g sc (?bs @ ps) \<and> admits_all ?L (noted g out) (?bs @ ps)
        else stuck_end ?L (noted g out) sc"
      proof (cases ok)
        case True
        then have r: "refined g after ps" "admits_all ?L (noted g (out @ ?bs)) ps" using ps(3) by simp_all
        then have "\<forall>p\<in>set ps. kept g sc p" "without_waits g (sc_nodes after) (concat (map sc_nodes ps))"
          using fl by (auto simp: refined_def kept_def)
        then have "refined g sc (?bs @ ps)" using cut[of "sc_nodes after" ps] s(3) bs(2) by (auto simp: refined_def)
        then show ?thesis using True r(2) bs(3) by (simp only: admits_all_append noted_simps) simp
      next
        case F: False
        then have "stuck_end ?L (noted g (out @ ?bs)) after" using ps(3) by simp
        then obtain xs ys qs where q: "sc_nodes after = xs @ ys"
          "without_waits (noted g (out @ ?bs)) xs (concat (map sc_nodes qs))" "\<forall>p\<in>set qs. kept (noted g (out @ ?bs)) after p"
          "admits_all ?L (noted g (out @ ?bs)) qs" "stuck ?L (noted (noted g (out @ ?bs)) qs) ys"
          unfolding stuck_end_def by blast
        have w: "without_waits (noted g out) (sc_nodes before @ w # xs) (concat (map sc_nodes (?bs @ qs)))"
          using cut[of xs qs] q(1,2) unfolding without_waits_calm[OF c] by simp
        have k: "\<forall>p\<in>set (?bs @ qs). kept (noted g out) sc p"
          using bs(2) q(3) fl unfolding kept_calm[OF c] by (auto simp: kept_def)
        have "admits_all ?L (noted g out) (?bs @ qs)" "stuck ?L (noted (noted g out) (?bs @ qs)) ys"
          using bs(3) q(4,5) by (simp_all only: admits_all_append noted_simps)
        then have "stuck_end ?L (noted g out) sc"
          unfolding stuck_end_def using w k s(3) q(1)
          by - (rule exI[of _ "sc_nodes before @ w # xs"], rule exI[of _ ys], rule exI[of _ "?bs @ qs"], simp)
        then show ?thesis using F by simp
      qed
      moreover have "pass_inv g k cx0 (out @ (?bs @ ps)) cx2" using ps(2) by (simp only: append_assoc)
      ultimately show ?thesis using run by blast
    qed
  qed
qed simp

text \<open>The scopes before have been refined, and at one no wait can rescue the pass gives up.\<close>

definition gives_up :: "lock_state \<Rightarrow> sk_graph \<Rightarrow> sk_scope list \<Rightarrow> bool" where
  "gives_up L g scopes \<longleftrightarrow> (\<exists>before sc rest groups. scopes = before @ sc # rest \<and> list_all2 (refined g) before groups \<and>
     admits_all L g (concat groups) \<and> stuck_end L (noted g (concat groups)) sc)"

lemma refined_calm: "calm g h \<Longrightarrow> refined h = refined g"
  by (simp add: refined_def[abs_def] without_waits_calm kept_calm)

lemma deadlock_scopes_refined:
  assumes g: "graph_ok g" "waits_ok g"
  shows "pass_inv g k cx0 out cx \<Longrightarrow> sound g scopes \<Longrightarrow>
    \<exists>ok groups cx'. deadlock_scopes k scopes out cx = Inr (ok, out @ concat groups, cx') \<and>
      pass_inv g k cx0 (out @ concat groups) cx' \<and>
      (if ok then list_all2 (refined g) scopes groups \<and> admits_all (cx_locks cx0 k) (noted g out) (concat groups)
       else gives_up (cx_locks cx0 k) (noted g out) scopes)"
proof (induction scopes arbitrary: out cx)
  case Nil
  then show ?case by (intro exI[of _ True] exI[of _ "[]"] exI[of _ cx]) simp
next
  case (Cons sc scopes)
  let ?L = "cx_locks cx0 k"
  note c = refined_calm[OF noted_calm, of g]
  have sc: "scope_ok g (sc_bitFlags sc) sc" "sc_nodes sc \<noteq> []" "distinct (sc_nodes sc)" and rest: "sound g scopes"
    using Cons.prems(2) by (auto simp: sound_def sorted_wrt_append)
  obtain ok ps cx1 where ps: "deadlock_loop (Suc (length (sc_nodes sc))) k sc out cx = Inr (ok, out @ ps, cx1)"
    "pass_inv g k cx0 (out @ ps) cx1"
    "if ok then refined g sc ps \<and> admits_all ?L (noted g out) ps else stuck_end ?L (noted g out) sc"
    using deadlock_loop_refined[OF g lessI Cons.prems(1) sc] by blast
  show ?case
  proof (cases ok)
    case False
    then have "gives_up ?L (noted g out) (sc # scopes)"
      unfolding gives_up_def using ps(3)
      by - (rule exI[of _ "[]"], rule exI[of _ sc], rule exI[of _ scopes], rule exI[of _ "[]"], simp)
    then show ?thesis using False ps by (intro exI[of _ False] exI[of _ "[ps]"] exI[of _ cx1]) simp
  next
    case True
    then have r: "refined g sc ps" "admits_all ?L (noted g out) ps" using ps(3) by simp_all
    obtain ok2 groups cx2 where groups: "deadlock_scopes k scopes (out @ ps) cx1 = Inr (ok2, (out @ ps) @ concat groups, cx2)"
      "pass_inv g k cx0 ((out @ ps) @ concat groups) cx2"
      "if ok2 then list_all2 (refined g) scopes groups \<and> admits_all ?L (noted g (out @ ps)) (concat groups)
       else gives_up ?L (noted g (out @ ps)) scopes"
      using Cons.IH[OF ps(2) rest] by blast
    have run: "deadlock_scopes k (sc # scopes) out cx = Inr (ok2, out @ concat (ps # groups), cx2)"
      "pass_inv g k cx0 (out @ concat (ps # groups)) cx2"
      using ps(1) groups(1,2) True by simp_all
    show ?thesis
    proof (cases ok2)
      case True
      then have "list_all2 (refined g) (sc # scopes) (ps # groups) \<and> admits_all ?L (noted g out) (concat (ps # groups))"
        using groups(3) r by (simp add: admits_all_append)
      then show ?thesis using run True by (intro exI[of _ True] exI[of _ "ps # groups"] exI[of _ cx2]) simp
    next
      case F: False
      then obtain before st rest' gs where s: "scopes = before @ st # rest'"
        "list_all2 (refined (noted g (out @ ps))) before gs" "admits_all ?L (noted g (out @ ps)) (concat gs)"
        "stuck_end ?L (noted (noted g (out @ ps)) (concat gs)) st"
        using groups(3) unfolding gives_up_def by auto
      have "gives_up ?L (noted g out) (sc # scopes)"
        unfolding gives_up_def using s r c[of "out @ ps"] c[of out]
        by - (rule exI[of _ "sc # before"], rule exI[of _ st], rule exI[of _ rest'], rule exI[of _ "ps # gs"],
            simp add: admits_all_append)
      then show ?thesis using run F by (intro exI[of _ False] exI[of _ "ps # groups"] exI[of _ cx2]) simp
    qed
  qed
qed

lemma refined_concat:
  assumes "list_all2 (refined g) scopes groups" and "distinct (concat (map sc_nodes scopes))"
  shows "without_waits g (concat (map sc_nodes scopes)) (concat (map sc_nodes (concat groups)))"
  using assms
proof (induction rule: list_all2_induct)
  case (Cons sc scopes ps groups)
  then show ?case
    using without_waits_append[of g "sc_nodes sc" "concat (map sc_nodes ps)" "concat (map sc_nodes scopes)"
        "concat (map sc_nodes (concat groups))"] by (simp add: refined_def)
qed (simp add: without_waits_refl)

lemma refined_sound:
  assumes "sound g scopes" and "list_all2 (refined g) scopes groups"
  shows "sound g (concat groups)"
proof -
  have "\<forall>p\<in>set (concat groups). sc_nodes p \<noteq> [] \<and> scope_ok g (sc_bitFlags p) p"
    using assms(2) by (induction rule: list_all2_induct) (auto simp: refined_def kept_def scope_ok_def)
  moreover have "without_waits g (concat (map sc_nodes scopes)) (concat (map sc_nodes (concat groups)))"
    using refined_concat[OF assms(2)] assms(1) by (simp add: sound_def)
  moreover have "subseq (filter P xs) xs" for P and xs :: "node_id list" by simp
  ultimately show ?thesis using sound_subseq[OF assms(1)] unfolding without_waits_def by metis
qed

lemma DeadlockRefineRun_ok:
  assumes r: "ready_ctx order cx" and s: "sound (cx_graph cx) scopes"
  shows "\<exists>ok cx' groups. DeadlockRefineRun k cx scopes = Inr (ok, cx', if ok then concat groups else []) \<and>
    calm (cx_graph cx) (cx_graph cx') \<and> cx_resplit cx' = cx_resplit cx \<and>
    (\<forall>j. core_device (cx_locks cx' j) = core_device (cx_locks cx j)) \<and>
    (if ok then ready_ctx order cx' \<and> list_all2 (refined (cx_graph cx)) scopes groups \<and>
       admits_all (cx_locks cx k) (cx_graph cx) (concat groups) \<and>
       (\<forall>p\<in>set (concat groups). \<forall>i\<in>set (sc_nodes p). plain_node (cx_graph cx') i) \<and>
       ((\<forall>i. plain_node (cx_graph cx) i) \<longrightarrow> needs (cx_graph cx') = needs (cx_graph cx))
     else gives_up (cx_locks cx k) (cx_graph cx) scopes)"
proof -
  let ?g = "cx_graph cx"
  have g: "graph_ok ?g" "waits_ok ?g" using r by (simp_all add: ready_ctx_def walkable_def)
  have inv: "pass_inv ?g k cx [] cx" using r ready_ctx_books[OF r] by (simp add: pass_inv_def ready_ctx_def)
  obtain ok groups cx1 where run: "deadlock_scopes k scopes [] cx = Inr (ok, concat groups, cx1)"
    "pass_inv ?g k cx (concat groups) cx1"
    "if ok then list_all2 (refined ?g) scopes groups \<and> admits_all (cx_locks cx k) ?g (concat groups)
     else gives_up (cx_locks cx k) ?g scopes"
    using deadlock_scopes_refined[OF g inv s] unfolding append_Nil noted_simps by blast
  note c0 = pass_inv_calm[OF run(2)]
  have c1: "alike (noted ?g (concat groups)) (cx_graph cx1)" "cx_resplit cx1 = cx_resplit cx"
    "\<forall>j. lock_idle (cx_locks cx1 j)" "books (cx_locks cx1 k, cx_graph cx1)"
    "\<forall>j. core_device (cx_locks cx1 j) = core_device (cx_locks cx j)" using run(2) by (simp_all add: pass_inv_def)
  show ?thesis
  proof (cases ok)
    case False
    then show ?thesis using run c0 c1
      by (intro exI[of _ False] exI[of _ cx1] exI[of _ groups]) (simp add: DeadlockRefineRun_def)
  next
    case True
    let ?h = "fold ResetNotifyExpandNumForScope (concat groups) (cx_graph cx1)"
    let ?s = "LockReset (cx_locks cx1 k, ?h)" let ?cx = "put_lock k ?s cx1"
    note h = reset_scopes[where g = "cx_graph cx1" and scopes = "concat groups"]
    note R = LockReset_books[OF books_calm[OF h(1,2) c1(4)]]
    have same: "same_but_visited ?h (snd ?s)" using LockReset_same[of "(cx_locks cx1 k, ?h)"] by simp
    have c: "calm ?g (cx_graph ?cx)"
      using calm_trans[OF calm_trans[OF c0 h(1)] same_but_visited_calm[OF same]] by (simp add: put_lock_def)
    have vis: "visited (cx_graph ?cx) = {}" using R(2) by (simp add: put_lock_def)
    have idle: "\<forall>j. lock_idle (cx_locks ?cx j)" using c1(3) books_idle[OF R(1)] by (simp add: put_lock_def)
    have dev: "\<forall>j. core_device (cx_locks ?cx j) = core_device (cx_locks cx j)"
      using c1(5) LockReset_new[of "(cx_locks cx1 k, ?h)"]
      by (simp add: put_lock_def new_detector_def core_device_def LockInit_def GetDeviceCores_def GetDeviceCoreNums_def Let_def)
    have ready: "ready_ctx order ?cx" by (rule ready_ctx_frame[OF r calm_frame[OF c] vis idle])
    have "plain_node (cx_graph ?cx) i" if "p \<in> set (concat groups)" "i \<in> set (sc_nodes p)" for p i
      using plain_same_but_visited[OF same] h(3)[of i] that by (auto simp: put_lock_def)
    moreover have "needs (cx_graph ?cx) = needs ?g" if "\<forall>i. plain_node ?g i"
      using reset_noted[OF c1(1) that] same_but_visited_needs[OF same] by (simp add: put_lock_def)
    moreover have "DeadlockRefineRun k cx scopes = Inr (True, ?cx, concat groups)"
      using run(1) True by (simp add: DeadlockRefineRun_def Let_def)
    moreover have "cx_resplit ?cx = cx_resplit cx" using c1(2) by (simp add: put_lock_def)
    ultimately show ?thesis using run(3) True ready c dev
      by (intro exI[of _ True] exI[of _ ?cx] exI[of _ groups]) simp
  qed
qed

interpretation deadlock: scope_pass order "DeadlockRefineRun k" for order k
proof
  fix cx scopes assume r: "ready_ctx order cx" and s: "sound (cx_graph cx) scopes"
  obtain ok cx' groups where run: "DeadlockRefineRun k cx scopes = Inr (ok, cx', if ok then concat groups else [])"
    "calm (cx_graph cx) (cx_graph cx')"
    "ok \<longrightarrow> ready_ctx order cx' \<and> list_all2 (refined (cx_graph cx)) scopes groups"
    using DeadlockRefineRun_ok[OF r s, of k] by (elim exE) (rule that, blast, blast, clarsimp)
  moreover have "sound (cx_graph cx') (concat groups)" if ok
    using run(3) that calm_sound[OF run(2)] refined_sound[OF s] by simp
  ultimately show "\<exists>ok cx' out. DeadlockRefineRun k cx scopes = Inr (ok, cx', out) \<and>
      same_frame (cx_graph cx) (cx_graph cx') \<and> (ok \<longrightarrow> ready_ctx order cx' \<and> sound (cx_graph cx') out)"
    using run calm_frame[OF run(2)]
    by (intro exI[of _ ok] exI[of _ cx'] exI[of _ "if ok then concat groups else []"]) auto
qed

section \<open>Properties\<close>

text \<open>
  C5 \<^bold>\<open>Scopes without deadlock.\<close> From a ready context and sound scopes a deadlock pass always ends. If
  it succeeds, every scope has been split into parts with the flags of the scope and rebuilt stream
  entries, which together have all nodes of the scope in their order but for some waits; and the
  pass's own detector, for the cores of its device and with its option, newly made and on a graph
  without visited marks, admits every part node by node, where the parts before it have been noted at
  their nodes: the most cores of their operators at their notify nodes, and their streams. No visited
  mark is left, and neither is a core requirement or a set of streams at any node of the parts. It
  fails only if after scopes that are split like this, in some scope and after parts of it that are
  admitted like this, what is left of the scope is stuck: the detector rejects a node and there is
  no wait up to it.
\<close>

theorem DeadlockRefineRun_spec:
  assumes "ready_ctx order cx" and "sound (cx_graph cx) scopes"
  shows "\<exists>ok cx' groups. DeadlockRefineRun k cx scopes = Inr (ok, cx', if ok then concat groups else []) \<and>
    calm (cx_graph cx) (cx_graph cx') \<and>
    (if ok then list_all2 (refined (cx_graph cx)) scopes groups \<and>
       admits_all (cx_locks cx k) (cx_graph cx) (concat groups) \<and> visited (cx_graph cx') = {} \<and>
       (\<forall>p\<in>set (concat groups). \<forall>i\<in>set (sc_nodes p). plain_node (cx_graph cx') i)
     else gives_up (cx_locks cx k) (cx_graph cx) scopes)"
  using DeadlockRefineRun_ok[OF assms, of k] unfolding ready_ctx_def by (auto split: if_splits)

lemma DeadlockRefineRun_spec_witness:
  "\<exists>sc cx' groups. sc_nodes sc = [3, 4, 1, 2] \<and>
    DeadlockRefineRun 0 (sample_ctx (sample_split {0})) [sc] = Inr (True, cx', concat groups) \<and>
    list_all2 (refined (sample_split {0})) [sc] groups \<and> admits_all sample_lock (sample_split {0}) (concat groups)"
proof -
  obtain c' sc where run: "InitialSplitRun [0, 1] PRIORITY_QUEUE (sample_split {0}) 0 = Inr (True, [sc], c')"
    "sc_nodes sc = [3, 4, 1, 2]" using sample_split_run by blast
  have "scopes_sound (sample_split {0}) [sc]"
    using InitialSplitRun_ok[OF sample_split_walkable[of "{0}"] sample_split_heads, of PRIORITY_QUEUE 0] run(1) by auto
  then have s: "sound (cx_graph (sample_ctx (sample_split {0}))) [sc]" by (simp add: scopes_sound_sound)
  obtain ok cx' groups where r:
    "DeadlockRefineRun 0 (sample_ctx (sample_split {0})) [sc] = Inr (ok, cx', if ok then concat groups else [])"
    "ok \<longrightarrow> list_all2 (refined (sample_split {0})) [sc] groups \<and> admits_all sample_lock (sample_split {0}) (concat groups)"
    using DeadlockRefineRun_spec[OF sample_ready s, of 0] by (elim exE) (rule that, blast, clarsimp)
  have "case bindR (InitialSplitRun [0, 1] PRIORITY_QUEUE (sample_split {0}) 0) (\<lambda>(b, scs, c).
      bindR (DeadlockRefineRun 0 (sample_ctx (sample_split {0})) scs) (\<lambda>(ok, cx, out). Inr ok)) of
    Inl e \<Rightarrow> False | Inr ok \<Rightarrow> ok" by code_simp
  then have ok using run(1) r(1) by simp
  then show ?thesis using run(2) r by auto
qed

end
