(* ===== verification/Sk_Event_Sound.thy ===== *)
theory Sk_Event_Sound
  imports Sk_Frame
begin

text \<open>
  Marking nodes unfusible: how the passes that ask for a new split change the graph, and the pass
  that takes out the streams of events only.
\<close>

section \<open>Marking nodes\<close>

definition fusibles :: "sk_graph \<Rightarrow> node_id set" where
  "fusibles g = {i. \<exists>n. GetNodeById g i = Some n \<and> nd_isFusible n}"

lemma fusibles_ids: "graph_ok g \<Longrightarrow> fusibles g \<subseteq> set (sg_nodeIds g)"
  using graph_ok_ids by (fastforce simp: fusibles_def)

lemma finite_fusibles: "graph_ok g \<Longrightarrow> finite (fusibles g)"
  using fusibles_ids finite_subset by blast

text \<open>A count grows by the number of nodes that cannot be fused any more; without one nothing changes.\<close>

definition marking :: "sk_graph \<times> u32 \<Rightarrow> sk_graph \<times> u32 \<Rightarrow> bool" where
  "marking p q \<longleftrightarrow> same_frame (fst p) (fst q) \<and> visited (fst q) = visited (fst p) \<and>
     fusibles (fst q) \<subseteq> fusibles (fst p) \<and>
     snd q = snd p + of_nat (card (fusibles (fst p) - fusibles (fst q))) \<and>
     (fusibles (fst q) = fusibles (fst p) \<longrightarrow> q = p)"

lemma marking_refl [simp]: "marking p p"
  by (simp add: marking_def)

lemma marking_graph_ok: "marking p q \<Longrightarrow> graph_ok (fst p) \<Longrightarrow> graph_ok (fst q)"
  unfolding marking_def using same_frame_graph_ok by blast

lemma marking_trans:
  assumes "marking p q" and "marking q r" and "graph_ok (fst p)"
  shows "marking p r"
proof -
  let ?P = "fusibles (fst p)" and ?Q = "fusibles (fst q)" and ?R = "fusibles (fst r)"
  have sub: "?Q \<subseteq> ?P" "?R \<subseteq> ?Q" using assms(1,2) by (simp_all add: marking_def)
  have "finite ?P" "finite ?Q" using finite_fusibles assms(3) marking_graph_ok[OF assms(1,3)] by blast+
  moreover have "?P - ?R = (?P - ?Q) \<union> (?Q - ?R)" "(?P - ?Q) \<inter> (?Q - ?R) = {}" using sub by auto
  ultimately have card: "card (?P - ?R) = card (?P - ?Q) + card (?Q - ?R)" by (simp add: card_Un_disjoint)
  have "same_frame (fst p) (fst r)"
    using assms(1,2) same_frame_trans unfolding marking_def by blast
  moreover have "snd r = snd p + of_nat (card (?P - ?R))"
    using assms(1,2) card by (simp add: marking_def)
  moreover have "r = p" if "?R = ?P"
  proof -
    have "?Q = ?P" "?R = ?Q" using that sub by auto
    then show ?thesis using assms(1,2) unfolding marking_def by blast
  qed
  moreover have "visited (fst r) = visited (fst p)" using assms(1,2) by (simp add: marking_def)
  ultimately show ?thesis using sub unfolding marking_def by blast
qed

lemma fold_marking:
  assumes "\<And>x p. graph_ok (fst p) \<Longrightarrow> marking p (f x p)" and "graph_ok (fst p)"
  shows "marking p (fold f xs p)"
  using assms(2)
proof (induction xs arbitrary: p)
  case (Cons x xs)
  have x: "marking p (f x p)" by (rule assms(1)[OF Cons.prems])
  show ?case using marking_trans[OF x Cons.IH[OF marking_graph_ok[OF x Cons.prems]] Cons.prems] by simp
qed simp

text \<open>If a whole run marks nothing, no step of it does.\<close>

lemma fold_unmarked:
  assumes "\<And>x p. graph_ok (fst p) \<Longrightarrow> marking p (f x p)" and "graph_ok (fst p)" and "fold f xs p = p"
  shows "\<forall>x\<in>set xs. f x p = p"
  using assms(2,3)
proof (induction xs)
  case (Cons x xs)
  have x: "marking p (f x p)" by (rule assms(1)[OF Cons.prems(1)])
  have "marking (f x p) (fold f xs (f x p))"
    by (rule fold_marking[OF assms(1)]) (simp_all add: marking_graph_ok[OF x Cons.prems(1)])
  then have "marking (f x p) p" using Cons.prems(2) by simp
  then have "fusibles (fst (f x p)) = fusibles (fst p)" using x unfolding marking_def by blast
  then have "f x p = p" using x by (simp add: marking_def)
  then show ?case using Cons by simp
qed simp

lemma upd_unfusible_marks:
  assumes "GetNodeById g i = Some n" and "nd_isFusible n"
    and f: "\<And>n. node_frame (f n) = node_frame n" "\<And>n. nd_isVisited (f n) = nd_isVisited n"
      "\<And>n. \<not> nd_isFusible (f n)"
  shows "marking (g, c) (upd_node i f g, c + 1)" and "fusibles (upd_node i f g) = fusibles g - {i}"
proof -
  have "visited (upd_node i f g) = visited g" using f(2) by (auto simp: visited_def split: if_splits)
  moreover show F: "fusibles (upd_node i f g) = fusibles g - {i}"
    using f(3) by (auto simp: fusibles_def)
  moreover have i: "i \<in> fusibles g" using assms(1,2) by (auto simp: fusibles_def)
  moreover from i have "fusibles g - (fusibles g - {i}) = {i}" by auto
  ultimately show "marking (g, c) (upd_node i f g, c + 1)"
    using frame_upd[of f g i] f(1) by (auto simp: marking_def)
qed

section \<open>Streams of events only\<close>

lemma mark_event_marking: "marking p (mark_event i p)"
proof -
  obtain g c where p: "p = (g, c)" by (cases p)
  have "marking (g, c) (upd_node i (\<lambda>n. SetFusionFailReason ISOLATED_EVENT (n\<lparr> nd_isFusible := False \<rparr>)) g, c + 1)"
    if "GetNodeById g i = Some n" "nd_isFusible n" for n
    by (rule upd_unfusible_marks(1)[OF that]) (simp_all add: SetFusionFailReason_def node_frame_def)
  then show ?thesis unfolding p mark_event_def by (simp split: option.split)
qed

definition event_stream :: "u32 \<times> node_id list \<Rightarrow> sk_graph \<times> u32 \<Rightarrow> sk_graph \<times> u32" where
  "event_stream x p = (if IsStreamAllEventNodes (fst p) (snd x) then fold mark_event (snd x) p else p)"

lemma EventOnlyProcessScope_eq:
  "EventOnlyProcessScope sc p = fold event_stream (CollectNodesPerStream (fst p) sc) p"
proof -
  have "(\<lambda>(s, ids) (g, marked). if IsStreamAllEventNodes g ids then fold mark_event ids (g, marked)
      else (g, marked)) = event_stream" by (auto simp: fun_eq_iff event_stream_def)
  then show ?thesis by (cases p) (simp add: EventOnlyProcessScope_def)
qed

lemma event_stream_marking: "graph_ok (fst p) \<Longrightarrow> marking p (event_stream x p)"
  unfolding event_stream_def using fold_marking[of mark_event p "snd x"] mark_event_marking by simp

lemma EventOnlyProcessScope_marking: "graph_ok (fst p) \<Longrightarrow> marking p (EventOnlyProcessScope sc p)"
  unfolding EventOnlyProcessScope_eq by (rule fold_marking[OF event_stream_marking])

lemma CollectNodesPerStream_eq:
  "map_of (CollectNodesPerStream g sc) s =
     (if on_stream g s (sc_nodes sc) = [] then None else Some (on_stream g s (sc_nodes sc)))"
proof -
  have "map_of (fold (collect_node g) ids []) s =
      (if on_stream g s ids = [] then None else Some (on_stream g s ids))" for ids
  proof (induction ids rule: rev_induct)
    case (snoc i ids)
    then show ?case
      by (cases "GetNodeById g i") (auto simp: collect_node_def on_stream_def Let_def update_conv')
  qed (simp add: on_stream_def)
  then show ?thesis by (simp add: CollectNodesPerStream_def)
qed

lemma unmarked_stream:
  assumes "graph_ok g" and "EventOnlyProcessScope sc (g, c) = (g, c)" and "i \<in> set (sc_nodes sc)"
    and "GetNodeById g i = Some n" and "nd_isFusible n"
  shows "\<exists>j\<in>set (sc_nodes sc). \<exists>m. GetNodeById g j = Some m \<and> nd_streamIdxInGraph m = nd_streamIdxInGraph n \<and>
    \<not> IsEventNode (Some m)"
proof (rule ccontr)
  assume none: "\<not> ?thesis"
  let ?ids = "on_stream g (nd_streamIdxInGraph n) (sc_nodes sc)"
  have i: "i \<in> set ?ids" using assms(3,4) by (simp add: on_stream_def)
  then have "map_of (CollectNodesPerStream g sc) (nd_streamIdxInGraph n) = Some ?ids"
    by (auto simp: CollectNodesPerStream_eq)
  then have "(nd_streamIdxInGraph n, ?ids) \<in> set (CollectNodesPerStream g sc)" by (rule map_of_SomeD)
  moreover have "\<forall>x\<in>set (CollectNodesPerStream g sc). event_stream x (g, c) = (g, c)"
    using fold_unmarked[of event_stream "(g, c)" "CollectNodesPerStream g sc"] assms(1,2) event_stream_marking
    by (simp add: EventOnlyProcessScope_eq)
  ultimately have "event_stream (nd_streamIdxInGraph n, ?ids) (g, c) = (g, c)" by blast
  moreover have "IsStreamAllEventNodes g ?ids"
    unfolding IsStreamAllEventNodes_def
  proof
    show "?ids \<noteq> []" using i by (cases ?ids) auto
  qed (use none in \<open>auto simp: on_stream_def\<close>)
  ultimately have "fold mark_event ?ids (g, c) = (g, c)" by (simp add: event_stream_def)
  then have "mark_event i (g, c) = (g, c)"
    using fold_unmarked[of mark_event "(g, c)" ?ids] assms(1) mark_event_marking i by simp
  then show False using assms(4,5) by (simp add: mark_event_def)
qed

text \<open>The pass: it keeps the scopes if nothing is marked and asks for a new split otherwise.\<close>

lemma EventOnlyRun_ok:
  assumes g: "graph_ok (cx_graph cx)" and bound: "length (sg_nodeIds (cx_graph cx)) < 2 ^ 32"
  obtains (kept) "EventOnlyRun cx scopes = Inr (True, cx, scopes)"
      "\<forall>sc\<in>set scopes. EventOnlyProcessScope sc (cx_graph cx, 0) = (cx_graph cx, 0)"
  | (again) h where "EventOnlyRun cx scopes = Inr (True, RequestResplit (cx\<lparr> cx_graph := h \<rparr>), [])"
      "same_frame (cx_graph cx) h" "visited h = visited (cx_graph cx)" "fusibles h \<subset> fusibles (cx_graph cx)"
proof -
  let ?g = "cx_graph cx"
  obtain h c where r: "fold EventOnlyProcessScope scopes (?g, 0) = (h, c)" by fastforce
  have m: "marking (?g, 0) (h, c)"
    unfolding r[symmetric] by (rule fold_marking[OF EventOnlyProcessScope_marking]) (simp_all add: g)
  have "card (fusibles ?g - fusibles h) \<le> card (set (sg_nodeIds ?g))"
    using fusibles_ids[OF g] by (intro card_mono) auto
  also have "\<dots> \<le> length (sg_nodeIds ?g)" by (rule card_length)
  finally have k: "card (fusibles ?g - fusibles h) < 2 ^ 32" using bound by linarith
  show thesis
  proof (cases "fusibles h = fusibles ?g")
    case True
    then have same: "(h, c) = (?g, 0)" using m unfolding marking_def by simp
    have "\<forall>sc\<in>set scopes. EventOnlyProcessScope sc (?g, 0) = (?g, 0)"
      by (rule fold_unmarked[OF EventOnlyProcessScope_marking]) (use r same g in simp_all)
    moreover have "EventOnlyRun cx scopes = Inr (True, cx, scopes)"
      using r same by (simp add: EventOnlyRun_def)
    ultimately show thesis using kept by blast
  next
    case False
    then have sub: "fusibles h \<subset> fusibles ?g" using m by (auto simp: marking_def)
    have "finite (fusibles ?g - fusibles h)" using finite_fusibles[OF g] by simp
    then have "0 < card (fusibles ?g - fusibles h)" using sub by (auto simp: card_gt_0_iff)
    then have "c \<noteq> 0" using m k by (auto simp: marking_def of_nat_eq_0_iff word_of_nat_eq_0_iff dest!: nat_dvd_not_less)
    then have "EventOnlyRun cx scopes = Inr (True, RequestResplit (cx\<lparr> cx_graph := h \<rparr>), [])"
      using r by (simp add: EventOnlyRun_def word_gt_0)
    then show thesis using again m sub by (simp add: marking_def)
  qed
qed

end
