(* ===== verification/Sk_Default_Sound.thy ===== *)
theory Sk_Default_Sound
  imports Sk_Event_Sound
begin

text \<open>
  The pass that takes out default nodes: it marks those that share a stream of their scope with a
  kernel and asks for a new split; without such a node it drops every stream with a default node.
\<close>

section \<open>Default nodes of a scope\<close>

definition same_stream :: "sk_graph \<Rightarrow> node_id \<Rightarrow> node_id \<Rightarrow> bool" where
  "same_stream g i j \<longleftrightarrow> map_option nd_streamIdxInGraph (GetNodeById g i) = map_option nd_streamIdxInGraph (GetNodeById g j)"

definition mixed :: "sk_graph \<Rightarrow> node_id list \<Rightarrow> node_id set" where
  "mixed g ids = {i \<in> set ids. has_type g NODE_DEFAULT i \<and>
     (\<exists>j\<in>set ids. same_stream g i j \<and> has_type g NODE_KERNEL j)}"

definition no_default :: "sk_graph \<Rightarrow> node_id list \<Rightarrow> node_id list" where
  "no_default g ids = filter (\<lambda>i. \<forall>j\<in>set ids. same_stream g i j \<longrightarrow> \<not> has_type g NODE_DEFAULT j) ids"

lemma mixed_frame: "same_frame g h \<Longrightarrow> mixed h ids = mixed g ids"
  using has_type_frame same_frame_stream(1) by (simp add: mixed_def same_stream_def)

lemma finite_mixed [simp]: "finite (mixed g ids)"
  by (simp add: mixed_def)

lemma card_mixed: "card (mixed g ids) \<le> length ids"
  using card_mono[of "set ids" "mixed g ids"] card_length[of ids] by (auto simp: mixed_def)

definition default_info :: "sk_graph \<Rightarrow> node_id list \<Rightarrow> stream_default_info option" where
  "default_info g xs = (if \<exists>i\<in>set xs. has_type g NODE_KERNEL i \<or> has_type g NODE_DEFAULT i
     then Some \<lparr> sd_hasKernel = (\<exists>i\<in>set xs. has_type g NODE_KERNEL i),
       sd_defaults = filter (has_type g NODE_DEFAULT) xs \<rparr> else None)"

lemma CollectStreamInfo_ok:
  assumes "known g (sc_nodes sc)"
  obtains m where "CollectStreamInfo g sc = Inr m" and "distinct (map fst m)"
    and "\<And>s. map_of m s = default_info g (on_stream g s (sc_nodes sc))"
proof -
  have "\<exists>m. foldR (collect_default g) ids [] = Inr m \<and> distinct (map fst m) \<and>
      (\<forall>s. map_of m s = default_info g (on_stream g s ids))" if "known g ids" for ids
    using that
  proof (induction ids rule: rev_induct)
    case Nil
    then show ?case by (simp add: default_info_def on_stream_def)
  next
    case (snoc i ids)
    obtain n where n: "GetNodeById g i = Some n" using snoc.prems by (auto simp: known_def GetNodeById_def)
    obtain m where m: "foldR (collect_default g) ids [] = Inr m" "distinct (map fst m)"
      "\<forall>s. map_of m s = default_info g (on_stream g s ids)" using snoc by (auto simp: known_def)
    have t: "has_type g t i \<longleftrightarrow> nd_nodeType n = t" for t using n by (simp add: has_type_def)
    obtain m' where m': "collect_default g i m = Inr m'" using n by (auto simp: collect_default_def Let_def)
    have "distinct (map fst m')"
      using m' m(2) n by (auto simp: collect_default_def Let_def distinct_update split: if_splits)
    moreover have "map_of m' s = default_info g (on_stream g s (ids @ [i]))" for s
      using m'[symmetric] m(3) n t
      by (auto simp: collect_default_def Let_def update_conv' default_info_def on_stream_snoc[OF n]
          split: if_splits)
    ultimately show ?case using m(1) m' by (simp add: foldR_append)
  qed
  then show thesis using that assms by (auto simp: CollectStreamInfo_def)
qed

section \<open>One scope\<close>

lemma MarkDefaultsUnfusible_ok:
  assumes "set ids \<subseteq> dom (sg_graphMap g)"
  shows "same_frame g (MarkDefaultsUnfusible ids g)" "visited (MarkDefaultsUnfusible ids g) = visited g"
    "fusibles (MarkDefaultsUnfusible ids g) = fusibles g - set ids"
proof -
  let ?f = "\<lambda>n. SetFusionFailReason DEFAULT_NODE (n\<lparr> nd_isFusible := False \<rparr>)"
  have one: "same_frame h (upd_node i ?f h)" "visited (upd_node i ?f h) = visited h"
    "fusibles (upd_node i ?f h) = fusibles h - {i}" for i h
    by (auto intro!: frame_upd simp: SetFusionFailReason_def node_frame_def visited_def fusibles_def split: if_splits)
  have "same_frame g (fold (\<lambda>i. upd_node i ?f) ids g) \<and> visited (fold (\<lambda>i. upd_node i ?f) ids g) = visited g \<and>
      fusibles (fold (\<lambda>i. upd_node i ?f) ids g) = fusibles g - set ids"
  proof (induction ids arbitrary: g)
    case (Cons i ids)
    then show ?case using one[where i = i and h = g] same_frame_trans by fastforce
  qed simp
  then show "same_frame g (MarkDefaultsUnfusible ids g)" "visited (MarkDefaultsUnfusible ids g) = visited g"
    "fusibles (MarkDefaultsUnfusible ids g) = fusibles g - set ids"
    by (simp_all add: MarkDefaultsUnfusible_def)
qed

lemma RemoveStreamFromScope_fold:
  "sc_nodes (fold (RemoveStreamFromScope g) ss sc) =
     filter (\<lambda>i. \<forall>s\<in>set ss. map_option nd_streamIdxInGraph (GetNodeById g i) \<noteq> Some s) (sc_nodes sc)"
  "sc_bitFlags (fold (RemoveStreamFromScope g) ss sc) = sc_bitFlags sc"
  by (induction ss arbitrary: sc) (auto simp: RemoveStreamFromScope_def intro!: filter_cong)

lemma on_streamI: "GetNodeById g i = Some n \<Longrightarrow> i \<in> set ids \<Longrightarrow> i \<in> set (on_stream g (nd_streamIdxInGraph n) ids)"
  by (simp add: on_stream_def)

lemma has_type_known: "has_type g t i \<Longrightarrow> \<exists>n. GetNodeById g i = Some n"
  by (auto simp: has_type_def split: option.splits)

text \<open>What the pass collects: the default nodes on streams with a kernel, and the streams without one.\<close>

definition used_infos :: "(u32 \<times> stream_default_info) list \<Rightarrow> (u32 \<times> stream_default_info) list" where
  "used_infos m = filter (\<lambda>(s, x). sd_defaults x \<noteq> []) m"

definition to_mark :: "(u32 \<times> stream_default_info) list \<Rightarrow> node_id list" where
  "to_mark m = concat (map (\<lambda>(s, x). sd_defaults x) (filter (\<lambda>(s, x). sd_hasKernel x) (used_infos m)))"

definition to_drop :: "(u32 \<times> stream_default_info) list \<Rightarrow> (u32 \<times> stream_default_info) list" where
  "to_drop m = filter (\<lambda>(s, x). \<not> sd_hasKernel x) (used_infos m)"

definition collected :: "sk_graph \<Rightarrow> node_id list \<Rightarrow> (u32 \<times> stream_default_info) list \<Rightarrow> bool" where
  "collected g ids m \<longleftrightarrow> distinct (map fst m) \<and> (\<forall>s. map_of m s = default_info g (on_stream g s ids))"

lemma on_stream_iff: "i \<in> set (on_stream g s ids) \<longleftrightarrow>
    i \<in> set ids \<and> map_option nd_streamIdxInGraph (GetNodeById g i) = Some s"
  by (simp add: on_stream_def)

lemma collected_iff: "collected g ids m \<Longrightarrow> (s, x) \<in> set m \<longleftrightarrow> default_info g (on_stream g s ids) = Some x"
  unfolding collected_def by (metis map_of_eq_Some_iff)

lemma collectedD:
  assumes "collected g ids m" and "(s, x) \<in> set m"
  shows "sd_hasKernel x = (\<exists>i\<in>set (on_stream g s ids). has_type g NODE_KERNEL i)"
    and "sd_defaults x = filter (has_type g NODE_DEFAULT) (on_stream g s ids)"
  using assms(2) unfolding collected_iff[OF assms(1)] default_info_def by (auto split: if_splits)

lemma collected_default:
  assumes "collected g ids m" and "i \<in> set (on_stream g s ids)" and "has_type g NODE_DEFAULT i"
  obtains x where "(s, x) \<in> set (used_infos m)" and "i \<in> set (sd_defaults x)"
proof -
  have "\<exists>x. default_info g (on_stream g s ids) = Some x" using assms(2,3) by (auto simp: default_info_def)
  then obtain x where x: "(s, x) \<in> set m" unfolding collected_iff[OF assms(1)] by blast
  then have "i \<in> set (sd_defaults x)" using collectedD(2)[OF assms(1) x] assms(2,3) by simp
  then show thesis using that x by (force simp: used_infos_def)
qed

lemma used_infosD: "(s, x) \<in> set (used_infos m) \<Longrightarrow> (s, x) \<in> set m \<and> sd_defaults x \<noteq> []"
  by (simp add: used_infos_def)

lemma mixedI:
  assumes "i \<in> set (on_stream g s ids)" "j \<in> set (on_stream g s ids)"
    and "has_type g NODE_DEFAULT i" "has_type g NODE_KERNEL j"
  shows "i \<in> mixed g ids"
proof -
  have "i \<in> set ids" "j \<in> set ids" "same_stream g i j"
    using assms(1,2) by (auto simp: on_stream_iff same_stream_def)
  then show ?thesis using assms(3,4) by (auto simp: mixed_def)
qed

lemma set_to_mark:
  assumes "collected g ids m"
  shows "set (to_mark m) = mixed g ids"
proof (intro set_eqI iffI)
  fix i assume "i \<in> set (to_mark m)"
  then obtain s x where x: "(s, x) \<in> set m" "sd_hasKernel x" "i \<in> set (sd_defaults x)"
    by (auto simp: to_mark_def used_infos_def)
  note d = collectedD[OF assms x(1)]
  obtain j where "j \<in> set (on_stream g s ids)" "has_type g NODE_KERNEL j" using d(1) x(2) by auto
  moreover have "i \<in> set (on_stream g s ids)" "has_type g NODE_DEFAULT i" using x(3) d(2) by auto
  ultimately show "i \<in> mixed g ids" using mixedI by blast
next
  fix i assume "i \<in> mixed g ids"
  then obtain j where i: "i \<in> set ids" "has_type g NODE_DEFAULT i"
    and j: "j \<in> set ids" "same_stream g i j" "has_type g NODE_KERNEL j" by (auto simp: mixed_def)
  obtain n where n: "GetNodeById g i = Some n" using has_type_known[OF i(2)] by blast
  let ?s = "nd_streamIdxInGraph n"
  have on: "i \<in> set (on_stream g ?s ids)" "j \<in> set (on_stream g ?s ids)"
    using i j n by (auto simp: on_stream_iff same_stream_def)
  obtain x where x: "(?s, x) \<in> set (used_infos m)" "i \<in> set (sd_defaults x)"
    using collected_default[OF assms on(1) i(2)] .
  then have "sd_hasKernel x" using collectedD(1)[OF assms, of ?s x] used_infosD[OF x(1)] on(2) j(3) by auto
  then show "i \<in> set (to_mark m)" using x by (force simp: to_mark_def)
qed

lemma distinct_to_mark:
  assumes c: "collected g ids m" and d: "distinct ids"
  shows "distinct (to_mark m)"
proof -
  let ?xs = "filter (\<lambda>(s, x). sd_hasKernel x) (used_infos m)"
  have own: "\<exists>s. ys = filter (has_type g NODE_DEFAULT) (on_stream g s ids)"
    if "ys \<in> set (map (\<lambda>(s, x). sd_defaults x) ?xs)" for ys
    using that collectedD(2)[OF c] by (auto simp: used_infos_def)
  have "inj_on (\<lambda>(s, x). sd_defaults x) (set ?xs)"
  proof (rule inj_onI, clarify)
    fix s x s' x' assume a: "(s, x) \<in> set ?xs" "(s', x') \<in> set ?xs" "sd_defaults x = sd_defaults x'"
    then have m: "(s, x) \<in> set m" "(s', x') \<in> set m" by (auto simp: used_infos_def)
    obtain i where i: "i \<in> set (sd_defaults x)" using a(1) by (cases "sd_defaults x") (auto simp: used_infos_def)
    have "i \<in> set (on_stream g s ids)" using i collectedD(2)[OF c m(1)] by simp
    moreover have "i \<in> set (on_stream g s' ids)" using i a(3) collectedD(2)[OF c m(2)] by simp
    ultimately have "s = s'" by (auto simp: on_stream_iff)
    then show "s = s' \<and> x = x'" using m c by (auto simp: collected_def dest: eq_key_imp_eq_value)
  qed
  moreover have "distinct ?xs" using c by (simp add: collected_def used_infos_def distinct_map)
  ultimately have "distinct (map (\<lambda>(s, x). sd_defaults x) ?xs)" by (simp add: distinct_map)
  then show ?thesis
    unfolding to_mark_def
  proof (rule distinct_concat)
    fix ys assume "ys \<in> set (map (\<lambda>(s, x). sd_defaults x) ?xs)"
    from own[OF this] show "distinct ys" using d by (auto simp: on_stream_def)
  next
    fix ys zs assume ys: "ys \<in> set (map (\<lambda>(s, x). sd_defaults x) ?xs)"
      and zs: "zs \<in> set (map (\<lambda>(s, x). sd_defaults x) ?xs)" and ne: "ys \<noteq> zs"
    from own[OF ys] own[OF zs] show "set ys \<inter> set zs = {}" using ne by (auto simp: on_stream_iff)
  qed
qed

lemma set_to_drop:
  assumes c: "collected g ids m" and none: "mixed g ids = {}"
  shows "s \<in> set (map fst (to_drop m)) \<longleftrightarrow> (\<exists>i\<in>set (on_stream g s ids). has_type g NODE_DEFAULT i)"
proof
  assume "s \<in> set (map fst (to_drop m))"
  then obtain x where x: "(s, x) \<in> set m" "sd_defaults x \<noteq> []" by (auto simp: to_drop_def used_infos_def)
  then show "\<exists>i\<in>set (on_stream g s ids). has_type g NODE_DEFAULT i"
    using collectedD(2)[OF c x(1)] by (auto simp: filter_empty_conv)
next
  assume "\<exists>i\<in>set (on_stream g s ids). has_type g NODE_DEFAULT i"
  then obtain i where i: "i \<in> set (on_stream g s ids)" "has_type g NODE_DEFAULT i" by blast
  obtain x where x: "(s, x) \<in> set (used_infos m)" using collected_default[OF c i] .
  have "\<not> sd_hasKernel x"
  proof
    assume "sd_hasKernel x"
    then obtain j where "j \<in> set (on_stream g s ids)" "has_type g NODE_KERNEL j"
      using collectedD(1)[OF c, of s x] used_infosD[OF x] by auto
    then have "i \<in> mixed g ids" using i mixedI by blast
    then show False using none by simp
  qed
  then show "s \<in> set (map fst (to_drop m))" using x by (force simp: to_drop_def)
qed

lemma DefaultProcessSingleScope_ok:
  assumes g: "graph_ok g" and k: "known g (sc_nodes sc)" and d: "distinct (sc_nodes sc)"
  shows "\<exists>h sc'. DefaultProcessSingleScope g sc = Inr (of_nat (card (mixed g (sc_nodes sc))), h, sc') \<and>
    same_frame g h \<and> visited h = visited g \<and> fusibles h = fusibles g - mixed g (sc_nodes sc) \<and>
    (mixed g (sc_nodes sc) = {} \<longrightarrow> h = g \<and> sc_nodes sc' = no_default g (sc_nodes sc) \<and>
       (scope_ok g (sc_bitFlags sc) sc \<longrightarrow> scope_ok g (sc_bitFlags sc) sc'))"
proof -
  let ?ids = "sc_nodes sc"
  obtain m where m: "CollectStreamInfo g sc = Inr m" "collected g ?ids m"
    using CollectStreamInfo_ok[OF k] by (metis collected_def)
  note mark = set_to_mark[OF m(2)] distinct_to_mark[OF m(2) d]
  have card: "length (to_mark m) = card (mixed g ?ids)" using distinct_card[OF mark(2)] mark(1) by simp
  have run: "DefaultProcessSingleScope g sc =
      (if to_mark m = [] \<and> to_drop m = [] then Inr (0, g, sc)
       else if to_mark m \<noteq> [] then Inr (of_nat (length (to_mark m)), MarkDefaultsUnfusible (to_mark m) g, sc)
       else bindR (RemoveDefaultsAndStreams g (map fst (to_drop m)) sc) (\<lambda>sc1. Inr (0, g, sc1)))"
    unfolding DefaultProcessSingleScope_def m(1) bindR_simps Let_def to_mark_def to_drop_def used_infos_def
    by (rule refl)
  show ?thesis
  proof (cases "mixed g ?ids = {}")
    case False
    then have "to_mark m \<noteq> []" using mark(1) by auto
    moreover have "set (to_mark m) \<subseteq> dom (sg_graphMap g)" using mark(1) k by (auto simp: mixed_def known_def)
    ultimately show ?thesis using run card False MarkDefaultsUnfusible_ok mark(1) by simp
  next
    case none: True
    then have mk: "to_mark m = []" using mark(1) by simp
    note drop = set_to_drop[OF m(2) none]
    have on: "(\<exists>i\<in>set (on_stream g s ?ids). has_type g NODE_DEFAULT i) \<longleftrightarrow>
        (\<exists>j\<in>set ?ids. map_option nd_streamIdxInGraph (GetNodeById g j) = Some s \<and> has_type g NODE_DEFAULT j)" for s
      unfolding on_stream_iff Bex_def by blast
    have keep: "(\<not> has_type g NODE_DEFAULT i \<and>
        (\<forall>s\<in>set (map fst (to_drop m)). map_option nd_streamIdxInGraph (GetNodeById g i) \<noteq> Some s)) \<longleftrightarrow>
      (\<forall>j\<in>set ?ids. same_stream g i j \<longrightarrow> \<not> has_type g NODE_DEFAULT j)" if i: "i \<in> set ?ids" for i
    proof -
      obtain n where n: "GetNodeById g i = Some n" using i k by (auto simp: known_def GetNodeById_def)
      have ss: "same_stream g i j \<longleftrightarrow> map_option nd_streamIdxInGraph (GetNodeById g j) = Some (nd_streamIdxInGraph n)"
        for j unfolding same_stream_def n option.map(2) by (rule eq_commute)
      have st: "map_option nd_streamIdxInGraph (GetNodeById g i) \<noteq> Some s \<longleftrightarrow> s \<noteq> nd_streamIdxInGraph n" for s
        using n by auto
      show ?thesis unfolding Ball_def drop on ss st using i st by blast
    qed
    show ?thesis
    proof (cases "to_drop m = []")
      case True
      then have "no_default g ?ids = ?ids"
        using keep has_type_known drop on_streamI unfolding no_default_def
        by (intro filter_True) (metis empty_iff list.set(1) list.map_disc_iff)
      then show ?thesis using run mk True none by simp
    next
      case False
      let ?sc = "fold (RemoveStreamFromScope g) (map fst (to_drop m))
        (sc\<lparr> sc_nodes := filter (\<lambda>i. \<not> has_type g NODE_DEFAULT i) ?ids \<rparr>)"
      have nodes: "sc_nodes ?sc = no_default g ?ids" "sc_bitFlags ?sc = sc_bitFlags sc"
        using keep by (simp_all add: RemoveStreamFromScope_fold no_default_def conj_commute cong: filter_cong)
      have "known g (no_default g ?ids)" using k by (auto simp: known_def no_default_def)
      then have "RebuildStreamInfos g ?sc = Inr (?sc\<lparr> sc_streamInfos :=
          map (stream_entry g (no_default g ?ids)) (streams_of g (no_default g ?ids)) \<rparr>)"
        using RebuildStreamInfos_eq[OF g, of ?sc] nodes by simp
      then show ?thesis using run mk False none nodes \<open>known g (no_default g ?ids)\<close>
        by (auto simp: RemoveDefaultsAndStreams_def scope_ok_def no_default_def)
    qed
  qed
qed

section \<open>The pass\<close>

definition mixed_all :: "sk_graph \<Rightarrow> sk_scope list \<Rightarrow> node_id set" where
  "mixed_all g scopes = (\<Union>sc\<in>set scopes. mixed g (sc_nodes sc))"

definition default_step :: "sk_scope \<Rightarrow> u32 \<times> sk_graph \<times> sk_scope list \<Rightarrow> (u32 \<times> sk_graph \<times> sk_scope list) run" where
  "default_step sc = (\<lambda>(total, g, out). bindR (DefaultProcessSingleScope g sc) (\<lambda>(m, g1, sc1).
     Inr (total + m, g1, out @ [sc1])))"

definition stripped :: "sk_graph \<Rightarrow> sk_scope \<Rightarrow> sk_scope \<Rightarrow> bool" where
  "stripped g sc sc' \<longleftrightarrow> sc_nodes sc' = no_default g (sc_nodes sc) \<and>
     (scope_ok g (sc_bitFlags sc) sc \<longrightarrow> scope_ok g (sc_bitFlags sc) sc')"

lemma default_steps:
  assumes "graph_ok g" and "\<forall>sc\<in>set scopes. known g (sc_nodes sc) \<and> distinct (sc_nodes sc)"
  shows "\<exists>h outs. foldR default_step scopes (t0, g, out) =
      Inr (t0 + of_nat (sum_list (map (\<lambda>sc. card (mixed g (sc_nodes sc))) scopes)), h, out @ outs) \<and>
    same_frame g h \<and> visited h = visited g \<and> fusibles h = fusibles g - mixed_all g scopes \<and>
    (mixed_all g scopes = {} \<longrightarrow> h = g \<and> list_all2 (stripped g) scopes outs)"
  using assms
proof (induction scopes arbitrary: t0 g out)
  case Nil
  then show ?case by (intro exI[of _ g] exI[of _ "[]"]) (simp add: mixed_all_def)
next
  case (Cons sc scopes)
  let ?m = "mixed g (sc_nodes sc)"
  obtain h sc' where one: "DefaultProcessSingleScope g sc = Inr (of_nat (card ?m), h, sc')"
    "same_frame g h" "visited h = visited g" "fusibles h = fusibles g - ?m"
    "?m = {} \<longrightarrow> h = g \<and> stripped g sc sc'"
    using DefaultProcessSingleScope_ok[of g sc] Cons.prems by (auto simp: stripped_def)
  have frame: "graph_ok h" "\<forall>sc\<in>set scopes. known h (sc_nodes sc) \<and> distinct (sc_nodes sc)"
    "mixed h ids = mixed g ids" "mixed_all h scopes = mixed_all g scopes" for ids
    using same_frame_graph_ok[OF one(2)] same_frame_known[OF one(2)] mixed_frame[OF one(2)] Cons.prems
    by (simp_all add: mixed_all_def)
  obtain k outs where rest: "foldR default_step scopes (t0 + of_nat (card ?m), h, out @ [sc']) =
      Inr (t0 + of_nat (card ?m) + of_nat (sum_list (map (\<lambda>sc. card (mixed g (sc_nodes sc))) scopes)), k,
        (out @ [sc']) @ outs)" "same_frame h k" "visited k = visited h" "fusibles k = fusibles h - mixed_all g scopes"
    "mixed_all g scopes = {} \<longrightarrow> k = h \<and> list_all2 (stripped h) scopes outs"
    using Cons.IH[OF frame(1,2), of "t0 + of_nat (card ?m)" "out @ [sc']"] unfolding frame(3,4) by blast
  have all: "mixed_all g (sc # scopes) = ?m \<union> mixed_all g scopes" by (simp add: mixed_all_def)
  have "foldR default_step (sc # scopes) (t0, g, out) =
      Inr (t0 + of_nat (sum_list (map (\<lambda>sc. card (mixed g (sc_nodes sc))) (sc # scopes))), k, out @ (sc' # outs))"
    using one(1) rest(1) by (simp add: default_step_def add.assoc)
  moreover have "mixed_all g (sc # scopes) = {} \<longrightarrow> k = g \<and> list_all2 (stripped g) (sc # scopes) (sc' # outs)"
    using one(5) rest(5) unfolding all by auto
  moreover have "fusibles k = fusibles g - mixed_all g (sc # scopes)" using one(4) rest(4) all by auto
  ultimately show ?case using same_frame_trans[OF one(2) rest(2)] one(3) rest(3) by metis
qed

lemma sound_length:
  assumes "graph_ok g" and "sound g scopes"
  shows "length (concat (map sc_nodes scopes)) \<le> length (sg_nodeIds g)"
proof -
  let ?ids = "concat (map sc_nodes scopes)"
  have "set ?ids \<subseteq> set (sg_nodeIds g)"
    using assms by (auto simp: sound_def scope_ok_def known_def graph_ok_def)
  then have "card (set ?ids) \<le> card (set (sg_nodeIds g))" by (simp add: card_mono)
  also have "\<dots> \<le> length (sg_nodeIds g)" by (rule card_length)
  finally have card: "card (set ?ids) \<le> length (sg_nodeIds g)" .
  have "distinct ?ids" using assms(2) by (simp add: sound_def)
  then show ?thesis using card distinct_card[of ?ids] by linarith
qed

lemma sum_card_mixed:
  "sum_list (map (\<lambda>sc. card (mixed g (sc_nodes sc))) scopes) \<le> length (concat (map sc_nodes scopes))"
  "sum_list (map (\<lambda>sc. card (mixed g (sc_nodes sc))) scopes) = 0 \<longleftrightarrow> mixed_all g scopes = {}"
proof -
  show "sum_list (map (\<lambda>sc. card (mixed g (sc_nodes sc))) scopes) \<le> length (concat (map sc_nodes scopes))"
    by (induction scopes) (auto intro: add_mono card_mixed)
  show "sum_list (map (\<lambda>sc. card (mixed g (sc_nodes sc))) scopes) = 0 \<longleftrightarrow> mixed_all g scopes = {}"
    by (induction scopes) (auto simp: mixed_all_def)
qed

lemma of_nat_u32_pos: "0 < k \<Longrightarrow> k < 2 ^ 32 \<Longrightarrow> 0 < (of_nat k :: u32)"
  by (auto simp: word_gt_0 word_of_nat_eq_0_iff dest!: nat_dvd_not_less)

lemma DefaultNodeRun_ok:
  assumes g: "graph_ok (cx_graph cx)" and bound: "length (sg_nodeIds (cx_graph cx)) < 2 ^ 32"
    and s: "sound (cx_graph cx) scopes"
  obtains (again) h where "mixed_all (cx_graph cx) scopes \<noteq> {}"
      "DefaultNodeRun cx scopes = Inr (True, RequestResplit (cx\<lparr> cx_graph := h \<rparr>), [])"
      "same_frame (cx_graph cx) h" "visited h = visited (cx_graph cx)"
      "fusibles h = fusibles (cx_graph cx) - mixed_all (cx_graph cx) scopes"
  | (strip) outs where "mixed_all (cx_graph cx) scopes = {}"
      "DefaultNodeRun cx scopes = Inr (True, cx, filter (\<lambda>sc. sc_nodes sc \<noteq> []) outs)"
      "list_all2 (stripped (cx_graph cx)) scopes outs"
proof -
  let ?g = "cx_graph cx" let ?n = "sum_list (map (\<lambda>sc. card (mixed ?g (sc_nodes sc))) scopes)"
  have "distinct (sc_nodes sc)" if "sc \<in> set scopes" for sc
    using s that by (auto simp: sound_def distinct_concat_iff)
  then have "\<forall>sc\<in>set scopes. known ?g (sc_nodes sc) \<and> distinct (sc_nodes sc)" using sound_known[OF s] by blast
  from default_steps[OF g this, of 0 "[]"] obtain h outs where
    run: "foldR default_step scopes (0, ?g, []) = Inr (of_nat ?n, h, outs)" and
    h: "same_frame ?g h" "visited h = visited ?g" "fusibles h = fusibles ?g - mixed_all ?g scopes"
      "mixed_all ?g scopes = {} \<longrightarrow> h = ?g \<and> list_all2 (stripped ?g) scopes outs" by auto
  have pass: "DefaultNodeRun cx scopes = (if 0 < (of_nat ?n :: u32)
      then Inr (True, RequestResplit (cx\<lparr> cx_graph := h \<rparr>), [])
      else Inr (True, cx\<lparr> cx_graph := h \<rparr>, filter (\<lambda>sc. sc_nodes sc \<noteq> []) outs))"
    using run unfolding default_step_def by (simp add: DefaultNodeRun_def Let_def)
  have "?n < 2 ^ 32" using sum_card_mixed(1) sound_length[OF g s] bound by (meson le_less_trans order_trans)
  show thesis
  proof (cases "mixed_all ?g scopes = {}")
    case True
    then have n: "?n = 0" using sum_card_mixed(2) by blast
    have "DefaultNodeRun cx scopes = Inr (True, cx, filter (\<lambda>sc. sc_nodes sc \<noteq> []) outs)"
      unfolding pass n using h(4) True by simp
    then show thesis using strip True h(4) by blast
  next
    case False
    then have "0 < ?n" using sum_card_mixed(2)[of ?g scopes] by linarith
    then show thesis using again False pass h of_nat_u32_pos \<open>?n < 2 ^ 32\<close> by simp
  qed
qed

lemma stripped_ok:
  assumes "stripped g sc sc'" and "scope_ok g (sc_bitFlags sc) sc"
  shows "scope_ok g (sc_bitFlags sc') sc'"
proof -
  have ok: "scope_ok g (sc_bitFlags sc) sc'" using assms by (simp add: stripped_def)
  then have "sc_bitFlags sc' = sc_bitFlags sc" by (simp add: scope_ok_def)
  then show ?thesis using ok by simp
qed

lemma stripped_sound:
  assumes "sound g scopes" and "list_all2 (stripped g) scopes outs"
  shows "sound g (filter (\<lambda>sc. sc_nodes sc \<noteq> []) outs)"
proof (rule sound_subseq[OF assms(1)])
  have "subseq (concat (map sc_nodes (filter (\<lambda>sc. sc_nodes sc \<noteq> []) outs))) (concat (map sc_nodes scopes))"
    using assms(2)
  proof (induction rule: list_all2_induct)
    case (Cons sc scopes sc' outs)
    have "subseq (sc_nodes sc') (sc_nodes sc)" using Cons(1) by (simp add: stripped_def no_default_def)
    then show ?case using list_emb_append_mono Cons(3) by (auto simp: subseq_drop_many)
  qed simp
  then show "subseq (concat (map sc_nodes (filter (\<lambda>sc. sc_nodes sc \<noteq> []) outs))) (concat (map sc_nodes scopes))" .
  have "\<forall>sc\<in>set scopes. scope_ok g (sc_bitFlags sc) sc" using assms(1) by (simp add: sound_def)
  with assms(2) have "\<forall>sc\<in>set outs. scope_ok g (sc_bitFlags sc) sc"
    by (induction rule: list_all2_induct) (auto dest: stripped_ok)
  then show "\<forall>sc\<in>set (filter (\<lambda>sc. sc_nodes sc \<noteq> []) outs). sc_nodes sc \<noteq> [] \<and> scope_ok g (sc_bitFlags sc) sc"
    by simp
qed

interpretation default: scope_pass order DefaultNodeRun for order
proof
  fix cx scopes assume r: "ready_ctx order cx" and s: "sound (cx_graph cx) scopes"
  have g: "graph_ok (cx_graph cx)" "length (sg_nodeIds (cx_graph cx)) < 2 ^ 32"
    using r by (simp_all add: ready_ctx_def walkable_def)
  show "\<exists>ok cx' out. DefaultNodeRun cx scopes = Inr (ok, cx', out) \<and> same_frame (cx_graph cx) (cx_graph cx') \<and>
      (ok \<longrightarrow> ready_ctx order cx' \<and> sound (cx_graph cx') out)"
  proof (rule DefaultNodeRun_ok[OF g s])
    fix h assume h: "DefaultNodeRun cx scopes = Inr (True, RequestResplit (cx\<lparr> cx_graph := h \<rparr>), [])"
      "same_frame (cx_graph cx) h" "visited h = visited (cx_graph cx)"
    have "ready_ctx order (RequestResplit (cx\<lparr> cx_graph := h \<rparr>))"
      by (rule ready_ctx_frame[OF r]) (use h r in \<open>simp_all add: RequestResplit_def ready_ctx_def\<close>)
    then show ?thesis using h by (auto simp: RequestResplit_def)
  next
    fix outs assume "DefaultNodeRun cx scopes = Inr (True, cx, filter (\<lambda>sc. sc_nodes sc \<noteq> []) outs)"
      "list_all2 (stripped (cx_graph cx)) scopes outs"
    then show ?thesis using r stripped_sound[OF s] by auto
  qed
qed

interpretation event: scope_pass order EventOnlyRun for order
proof
  fix cx scopes assume r: "ready_ctx order cx" and s: "sound (cx_graph cx) scopes"
  have g: "graph_ok (cx_graph cx)" "length (sg_nodeIds (cx_graph cx)) < 2 ^ 32"
    using r by (simp_all add: ready_ctx_def walkable_def)
  show "\<exists>ok cx' out. EventOnlyRun cx scopes = Inr (ok, cx', out) \<and> same_frame (cx_graph cx) (cx_graph cx') \<and>
      (ok \<longrightarrow> ready_ctx order cx' \<and> sound (cx_graph cx') out)"
  proof (rule EventOnlyRun_ok[OF g])
    assume "EventOnlyRun cx scopes = Inr (True, cx, scopes)"
    then show ?thesis using r s by auto
  next
    fix h assume h: "EventOnlyRun cx scopes = Inr (True, RequestResplit (cx\<lparr> cx_graph := h \<rparr>), [])"
      "same_frame (cx_graph cx) h" "visited h = visited (cx_graph cx)"
    have "ready_ctx order (RequestResplit (cx\<lparr> cx_graph := h \<rparr>))"
      by (rule ready_ctx_frame[OF r]) (use h r in \<open>simp_all add: RequestResplit_def ready_ctx_def\<close>)
    then show ?thesis using h by (auto simp: RequestResplit_def)
  qed
qed

section \<open>Properties\<close>

text \<open>
  C38 \<^bold>\<open>Default nodes.\<close> If a scope has a default node on a stream on which it has a kernel too, all
  such default nodes become unfusible, all scopes are discarded and a new split is asked for;
  otherwise nothing changes in the graph, and of every scope the nodes on streams without a default
  node remain, in their order, scopes without any being dropped.
\<close>

theorem DefaultNodeRun_spec:
  assumes "ready_ctx order cx" and "sound (cx_graph cx) scopes"
  shows "if mixed_all (cx_graph cx) scopes \<noteq> {}
    then \<exists>h. DefaultNodeRun cx scopes = Inr (True, RequestResplit (cx\<lparr> cx_graph := h \<rparr>), []) \<and>
      same_frame (cx_graph cx) h \<and> fusibles h = fusibles (cx_graph cx) - mixed_all (cx_graph cx) scopes
    else \<exists>outs. DefaultNodeRun cx scopes = Inr (True, cx, filter (\<lambda>sc. sc_nodes sc \<noteq> []) outs) \<and>
      map sc_nodes outs = map (\<lambda>sc. no_default (cx_graph cx) (sc_nodes sc)) scopes"
proof -
  have g: "graph_ok (cx_graph cx)" "length (sg_nodeIds (cx_graph cx)) < 2 ^ 32"
    using assms(1) by (simp_all add: ready_ctx_def walkable_def)
  show ?thesis
  proof (rule DefaultNodeRun_ok[OF g assms(2)])
    fix outs assume o: "mixed_all (cx_graph cx) scopes = {}"
      "DefaultNodeRun cx scopes = Inr (True, cx, filter (\<lambda>sc. sc_nodes sc \<noteq> []) outs)"
      "list_all2 (stripped (cx_graph cx)) scopes outs"
    from o(3) have "map sc_nodes outs = map (\<lambda>sc. no_default (cx_graph cx) (sc_nodes sc)) scopes"
      by (induction rule: list_all2_induct) (auto simp: stripped_def)
    then show ?thesis using o(1,2) by auto
  next
    fix h assume "mixed_all (cx_graph cx) scopes \<noteq> {}"
      "DefaultNodeRun cx scopes = Inr (True, RequestResplit (cx\<lparr> cx_graph := h \<rparr>), [])"
      "same_frame (cx_graph cx) h" "fusibles h = fusibles (cx_graph cx) - mixed_all (cx_graph cx) scopes"
    then show ?thesis by (auto intro!: exI[of _ h])
  qed
qed

text \<open>A scope with a stream of events only.\<close>

definition lonely :: "sk_graph \<Rightarrow> sk_scope \<Rightarrow> bool" where
  "lonely g sc \<longleftrightarrow> (\<exists>i\<in>set (sc_nodes sc). \<forall>j\<in>set (sc_nodes sc).
     same_stream g i j \<longrightarrow> IsEventNode (GetNodeById g j))"

lemma CollectNodesPerStream_distinct: "distinct (map fst (CollectNodesPerStream g sc))"
proof -
  have "distinct (map fst (fold (collect_node g) ids m))" if "distinct (map fst m)" for ids m
    using that
    by (induction ids arbitrary: m) (auto simp: collect_node_def Let_def distinct_update split: option.split)
  then show ?thesis by (simp add: CollectNodesPerStream_def)
qed

lemma not_lonely_unmarked:
  assumes k: "known g (sc_nodes sc)" and "\<not> lonely g sc"
  shows "EventOnlyProcessScope sc (g, c) = (g, c)"
proof -
  have "event_stream x (g, c) = (g, c)" if x: "x \<in> set (CollectNodesPerStream g sc)" for x
  proof -
    obtain s ids where p: "x = (s, ids)" by (cases x)
    have "map_of (CollectNodesPerStream g sc) s = Some ids"
      using CollectNodesPerStream_distinct x p by (simp add: map_of_eq_Some_iff)
    then have ids: "ids = on_stream g s (sc_nodes sc)" "ids \<noteq> []"
      by (auto simp: CollectNodesPerStream_eq split: if_splits)
    then have i: "hd ids \<in> set ids" by simp
    then have "hd ids \<in> set (sc_nodes sc)" using ids(1) by (simp add: on_stream_def)
    then obtain j where j: "j \<in> set (sc_nodes sc)" "same_stream g (hd ids) j" "\<not> IsEventNode (GetNodeById g j)"
      using assms(2) unfolding lonely_def by blast
    have "map_option nd_streamIdxInGraph (GetNodeById g (hd ids)) = Some s" using i ids(1) by (simp add: on_stream_def)
    then have "map_option nd_streamIdxInGraph (GetNodeById g j) = Some s"
      using j(2) unfolding same_stream_def by (rule subst[rotated])
    then have "j \<in> set ids" using j(1) unfolding ids(1) on_stream_iff by blast
    moreover have "GetNodeById g j \<noteq> None" using k j(1) by (auto simp: known_def GetNodeById_def)
    ultimately have "\<not> IsStreamAllEventNodes g ids" using j(3) by (auto simp: IsStreamAllEventNodes_def)
    then show ?thesis by (simp add: event_stream_def p)
  qed
  then have "fold event_stream xs (g, c) = (g, c)" if "set xs \<subseteq> set (CollectNodesPerStream g sc)" for xs
    using that by (induction xs) auto
  then show ?thesis by (simp add: EventOnlyProcessScope_eq)
qed

lemma unmarked_not_lonely:
  assumes "graph_ok g" and "scope_ok g fl sc" and "EventOnlyProcessScope sc (g, c) = (g, c)"
  shows "\<not> lonely g sc"
proof
  assume "lonely g sc"
  then obtain i where i: "i \<in> set (sc_nodes sc)"
    "\<forall>j\<in>set (sc_nodes sc). same_stream g i j \<longrightarrow> IsEventNode (GetNodeById g j)" unfolding lonely_def by blast
  obtain n where n: "GetNodeById g i = Some n" "nd_isFusible n" using assms(2) i(1) by (auto simp: scope_ok_def)
  obtain j m where j: "j \<in> set (sc_nodes sc)" "GetNodeById g j = Some m"
    "nd_streamIdxInGraph m = nd_streamIdxInGraph n" "\<not> IsEventNode (Some m)"
    using unmarked_stream[OF assms(1,3) i(1) n] by blast
  have "same_stream g i j" using n j by (simp add: same_stream_def)
  then show False using i(2) j by force
qed

lemma EventOnlyRun_cases:
  assumes "ready_ctx order cx" and "sound (cx_graph cx) scopes"
  obtains (kept) "\<forall>sc\<in>set scopes. \<not> lonely (cx_graph cx) sc" "EventOnlyRun cx scopes = Inr (True, cx, scopes)"
  | (again) h where "\<exists>sc\<in>set scopes. lonely (cx_graph cx) sc"
      "EventOnlyRun cx scopes = Inr (True, RequestResplit (cx\<lparr> cx_graph := h \<rparr>), [])"
      "same_frame (cx_graph cx) h" "fusibles h \<subset> fusibles (cx_graph cx)"
proof -
  have g: "graph_ok (cx_graph cx)" "length (sg_nodeIds (cx_graph cx)) < 2 ^ 32"
    using assms(1) by (simp_all add: ready_ctx_def walkable_def)
  have ok: "scope_ok (cx_graph cx) (sc_bitFlags sc) sc" if "sc \<in> set scopes" for sc
    using assms(2) that by (simp add: sound_def)
  show thesis
  proof (rule EventOnlyRun_ok[OF g])
    assume "EventOnlyRun cx scopes = Inr (True, cx, scopes)"
      "\<forall>sc\<in>set scopes. EventOnlyProcessScope sc (cx_graph cx, 0) = (cx_graph cx, 0)"
    then show thesis using kept unmarked_not_lonely[OF g(1) ok] by blast
  next
    fix h assume h: "EventOnlyRun cx scopes = Inr (True, RequestResplit (cx\<lparr> cx_graph := h \<rparr>), [])"
      "same_frame (cx_graph cx) h" "fusibles h \<subset> fusibles (cx_graph cx)"
    have "\<exists>sc\<in>set scopes. lonely (cx_graph cx) sc"
    proof (rule ccontr)
      assume none: "\<not> ?thesis"
      have "fold EventOnlyProcessScope xs (cx_graph cx, 0) = (cx_graph cx, 0)" if "set xs \<subseteq> set scopes" for xs
        using that
      proof (induction xs)
        case (Cons sc xs)
        then have "EventOnlyProcessScope sc (cx_graph cx, 0) = (cx_graph cx, 0)"
          using not_lonely_unmarked[of "cx_graph cx" sc] none ok[of sc] by (auto simp: scope_ok_def)
        then show ?case using Cons by simp
      qed simp
      then have "EventOnlyRun cx scopes = Inr (True, cx, scopes)" by (simp add: EventOnlyRun_def)
      then have eq: "RequestResplit (cx\<lparr> cx_graph := h \<rparr>) = cx" using h(1) by simp
      have "h = cx_graph cx" using arg_cong[OF eq, of cx_graph] by (simp add: RequestResplit_def)
      then show False using h(3) by simp
    qed
    then show thesis using again h by blast
  qed
qed

text \<open>
  C39 \<^bold>\<open>Streams of events only.\<close> If a scope has a stream on which all of its nodes are events, some
  nodes become unfusible, all scopes are discarded and a new split is asked for; otherwise the pass
  changes nothing at all.
\<close>

theorem EventOnlyRun_spec:
  assumes "ready_ctx order cx" and "sound (cx_graph cx) scopes"
  shows "if \<exists>sc\<in>set scopes. lonely (cx_graph cx) sc
    then \<exists>h. EventOnlyRun cx scopes = Inr (True, RequestResplit (cx\<lparr> cx_graph := h \<rparr>), []) \<and>
      same_frame (cx_graph cx) h \<and> fusibles h \<subset> fusibles (cx_graph cx)
    else EventOnlyRun cx scopes = Inr (True, cx, scopes)"
  by (rule EventOnlyRun_cases[OF assms]) auto

lemma DefaultNodeRun_spec_witness:
  "\<exists>sc outs. sc_nodes sc = [3, 4, 1, 2] \<and>
    DefaultNodeRun (sample_ctx (sample_split {0})) [sc] = Inr (True, sample_ctx (sample_split {0}), outs) \<and>
    map sc_nodes outs = [[3, 4, 1, 2]]"
proof (rule sample_sound)
  fix sc assume sc: "sc_nodes sc = [3, 4, 1, 2]" "sound (sample_split {0}) [sc]"
  have "mixed_all (sample_split {0}) [sc] = {}" "no_default (sample_split {0}) [3, 4, 1, 2] = [3, 4, 1, 2]"
    using sc(1) by (auto simp: mixed_all_def mixed_def no_default_def has_type_def GetNodeById_def sample_split_defs)
  then have "\<exists>outs. DefaultNodeRun (sample_ctx (sample_split {0})) [sc] =
      Inr (True, sample_ctx (sample_split {0}), filter (\<lambda>sc. sc_nodes sc \<noteq> []) outs) \<and>
      map sc_nodes outs = [[3, 4, 1, 2]]"
    using DefaultNodeRun_spec[OF sample_ready, of "{0}" "[sc]"] sc by simp
  then show ?thesis
  proof (elim exE conjE)
    fix outs assume o: "DefaultNodeRun (sample_ctx (sample_split {0})) [sc] =
        Inr (True, sample_ctx (sample_split {0}), filter (\<lambda>sc. sc_nodes sc \<noteq> []) outs)"
      "map sc_nodes outs = [[3, 4, 1, 2]]"
    have "filter (\<lambda>sc. sc_nodes sc \<noteq> []) outs = outs" using o(2) by (cases outs) auto
    then show ?thesis using o sc(1) by (intro exI[of _ sc] exI[of _ outs]) simp
  qed
qed

lemma EventOnlyRun_spec_witness:
  "\<exists>sc. sc_nodes sc = [3, 4, 1, 2] \<and>
    EventOnlyRun (sample_ctx (sample_split {0})) [sc] = Inr (True, sample_ctx (sample_split {0}), [sc])"
proof (rule sample_sound)
  fix sc assume sc: "sc_nodes sc = [3, 4, 1, 2]" "sound (sample_split {0}) [sc]"
  have "\<not> lonely (sample_split {0}) sc"
    using sc(1) by (auto simp: lonely_def same_stream_def IsEventNode_def GetNodeById_def sample_split_defs)
  then show ?thesis using EventOnlyRun_spec[OF sample_ready, of "{0}" "[sc]"] sc by auto
qed

end
