(* ===== verification/Sk_Splitter_Sound.thy ===== *)
theory Sk_Splitter_Sound
  imports Sk_Sche_Sound Sk_Deadlock_Sound Sk_Default_Sound
begin

text \<open>
  The pipeline of the scope split as a whole: every pass keeps the contract, so their composition
  and its repetition do, and the repetition makes progress.
\<close>

section \<open>Walking a stream\<close>

text \<open>A walk along a stream with more fuel than nodes ends.\<close>

lemma walkable_next:
  assumes w: "walkable g" and n: "GetNodeById g i = Some n" and "nd_nextNodeId n \<noteq> INVALID_TASK_ID"
  shows "GetNodeById g (nd_nextNodeId n) \<noteq> None" and "card (nodes_after g (nd_nextNodeId n)) < card (nodes_after g i)"
proof -
  obtain m where m: "GetNodeById g (nd_nextNodeId n) = Some m"
    "unat (nd_nodeIdxInStream m) = Suc (unat (nd_nodeIdxInStream n))"
    using w n assms(3) by (fastforce simp: walkable_def streams_linked_def node_linked_def)
  then show "GetNodeById g (nd_nextNodeId n) \<noteq> None" by simp
  have "nd_nextNodeId n \<in> set (sg_nodeIds g)" using m(1) w graph_ok_ids by (fastforce simp: walkable_def)
  moreover have "pos g i < pos g (nd_nextNodeId n)" using n m by (simp add: pos_def)
  ultimately show "card (nodes_after g (nd_nextNodeId n)) < card (nodes_after g i)" by (rule nodes_after_mono(1))
qed

lemma same_frame_nodes_after: "same_frame g h \<Longrightarrow> nodes_after h i = nodes_after g i"
  using same_frame_stream(2)[of g h] unfolding nodes_after_def by (simp add: same_frame_def)

section \<open>Default nodes become candidates\<close>

definition opened :: "sk_graph \<Rightarrow> sk_graph \<Rightarrow> bool" where
  "opened g h \<longleftrightarrow> same_frame g h \<and> visited h = visited g \<and>
     fusibles h \<subseteq> fusibles g \<union> {i. has_type g NODE_DEFAULT i}"

lemma opened_refl [simp]: "opened g g"
  by (simp add: opened_def)

lemma opened_trans: "opened g h \<Longrightarrow> opened h k \<Longrightarrow> opened g k"
  using has_type_frame[of g h] by (auto simp: opened_def intro: same_frame_trans)

lemma opened_upd:
  assumes "GetNodeById g i = Some n" and "nd_nodeType n = NODE_DEFAULT"
  shows "opened g (upd_node i (\<lambda>n. n\<lparr> nd_isFusible := True \<rparr>) g)"
proof -
  have "same_frame g (upd_node i (\<lambda>n. n\<lparr> nd_isFusible := True \<rparr>) g)"
    by (rule frame_upd) (simp add: node_frame_def)
  then show ?thesis
    using assms by (auto simp: opened_def visited_def fusibles_def has_type_def split: if_splits)
qed

definition enough :: "sk_graph \<Rightarrow> node_id \<Rightarrow> nat \<Rightarrow> bool" where
  "enough g i fuel \<longleftrightarrow> 0 < fuel \<and> (i \<noteq> INVALID_TASK_ID \<longrightarrow> GetNodeById g i \<noteq> None \<longrightarrow> card (nodes_after g i) + 2 \<le> fuel)"

lemma enough_next:
  assumes "walkable g" and "enough g i (Suc fuel)" and "GetNodeById g i = Some n"
  shows "enough g (nd_nextNodeId n) fuel"
proof -
  have "i \<noteq> INVALID_TASK_ID" using assms(1,3) by (auto simp: walkable_def)
  then have "card (nodes_after g i) + 2 \<le> Suc fuel" using assms(2,3) by (simp add: enough_def)
  then show ?thesis using walkable_next(2)[OF assms(1,3)] by (fastforce simp: enough_def)
qed

lemma enough_head: "walkable g \<Longrightarrow> enough g i (Suc (length (sg_nodeIds g)))"
  using nodes_after_less(1)[of i g] graph_ok_ids[of g i] by (auto simp: enough_def walkable_def)

lemma enough_frame: "same_frame g h \<Longrightarrow> enough h i fuel = enough g i fuel"
  using same_frame_None[of g h i] same_frame_nodes_after[of g h i] by (simp add: enough_def)

lemma default_stream_ok:
  assumes "walkable g" and "enough g i fuel"
  shows "\<exists>h. default_stream fuel i g = Inr h \<and> opened g h"
  using assms
proof (induction fuel arbitrary: i g)
  case 0
  then show ?case by (simp add: enough_def)
next
  case (Suc fuel)
  show ?case
  proof (cases "i = INVALID_TASK_ID \<or> GetNodeById g i = None")
    case False
    then obtain n where n: "GetNodeById g i = Some n" by auto
    let ?h = "if nd_nodeType n = NODE_DEFAULT then upd_node i (\<lambda>n. n\<lparr> nd_isFusible := True \<rparr>) g else g"
    have h: "opened g ?h" using opened_upd[OF n] by simp
    then have f: "same_frame g ?h" by (simp add: opened_def)
    have "enough ?h (nd_nextNodeId n) fuel"
      using enough_next[OF Suc.prems n] enough_frame[OF f] by simp
    then obtain k where "default_stream fuel (nd_nextNodeId n) ?h = Inr k" "opened ?h k"
      using Suc.IH[OF same_frame_walkable[OF f Suc.prems(1)]] by blast
    then show ?thesis using n False opened_trans[OF h] by auto
  qed auto
qed

lemma InitDefaultNodeFusibility_ok:
  assumes w: "walkable g"
  shows "\<exists>h. InitDefaultNodeFusibility opts g = Inr h \<and> opened g h"
proof (cases "op_taskBreakerBypass opts")
  case True
  have "\<exists>h. foldR (default_stream (Suc (length (sg_nodeIds g)))) (sg_headNodes g) g = Inr h \<and> opened g h"
  proof (rule foldR_total)
    fix i h assume h: "opened g h"
    then have f: "same_frame g h" by (simp add: opened_def)
    have "enough h i (Suc (length (sg_nodeIds g)))" using enough_head[OF w] enough_frame[OF f] by simp
    then show "\<exists>k. default_stream (Suc (length (sg_nodeIds g))) i h = Inr k \<and> opened g k"
      using default_stream_ok[OF same_frame_walkable[OF f w]] opened_trans[OF h] by blast
  qed simp
  then show ?thesis using True by (simp add: InitDefaultNodeFusibility_def)
qed (simp add: InitDefaultNodeFusibility_def)

section \<open>The passes make progress\<close>

interpretation initial: scope_pass order "InitialRun order m" for order m
proof
  fix cx scopes assume r: "ready_ctx order cx" and "sound (cx_graph cx) scopes"
  then obtain out c where "InitialSplitRun order m (cx_graph cx) (cx_nextId cx) = Inr (True, out, c)"
    "scopes_sound (cx_graph cx) out"
    using InitialSplitRun_ok[of "cx_graph cx" order m "cx_nextId cx"] by (auto simp: ready_ctx_def)
  then show "\<exists>ok cx' out. InitialRun order m cx scopes = Inr (ok, cx', out) \<and>
      same_frame (cx_graph cx) (cx_graph cx') \<and> (ok \<longrightarrow> ready_ctx order cx' \<and> sound (cx_graph cx') out)"
    using r scopes_sound_sound by (auto simp: InitialRun_def ready_ctx_def)
qed

text \<open>
  A pass that asks for a new split returns no scope and leaves fewer nodes that can be fused; the
  others leave the nodes that can be fused alone.
\<close>

definition progress :: "split_ctx \<Rightarrow> split_ctx \<Rightarrow> sk_scope list \<Rightarrow> bool" where
  "progress cx cx' out \<longleftrightarrow> (if cx_resplit cx' then out = [] \<and> fusibles (cx_graph cx') \<subset> fusibles (cx_graph cx)
     else fusibles (cx_graph cx') = fusibles (cx_graph cx))"

locale fair_pass = scope_pass +
  assumes fair: "ready_ctx order cx \<Longrightarrow> sound (cx_graph cx) scopes \<Longrightarrow> \<not> cx_resplit cx \<Longrightarrow>
    run cx scopes = Inr (ok, cx', out) \<Longrightarrow> progress cx cx' out"

lemma calm_fusibles: "calm g h \<Longrightarrow> fusibles h = fusibles g"
proof -
  have "fusibles h \<subseteq> fusibles g" if c: "calm g h" for g h
  proof
    fix i assume "i \<in> fusibles h"
    then obtain n where n: "GetNodeById h i = Some n" "nd_isFusible n" by (auto simp: fusibles_def)
    obtain m where "GetNodeById g i = Some m" "nd_isFusible m = nd_isFusible n" using calmD[OF c n(1)] .
    then show "i \<in> fusibles g" using n(2) by (simp add: fusibles_def)
  qed
  then show "calm g h \<Longrightarrow> ?thesis" using calm_sym by blast
qed

lemma quiet_progress: "\<not> cx_resplit cx' \<Longrightarrow> calm (cx_graph cx) (cx_graph cx') \<Longrightarrow> progress cx cx' out"
  by (simp add: progress_def calm_fusibles)

interpretation initial: fair_pass order "InitialRun order m" for order m
proof
  fix cx scopes ok cx' out
  assume "\<not> cx_resplit cx" and "InitialRun order m cx scopes = Inr (ok, cx', out)"
  then show "progress cx cx' out" by (auto simp: InitialRun_def intro!: quiet_progress)
qed

interpretation sche: fair_pass order ScheModeRun for order
proof
  fix cx scopes ok cx' out
  assume a: "ready_ctx order cx" "sound (cx_graph cx) scopes" "\<not> cx_resplit cx" "ScheModeRun cx scopes = Inr (ok, cx', out)"
  have "graph_ok (cx_graph cx)" using a(1) by (simp add: ready_ctx_def walkable_def)
  then have "only_ids cx cx'" using ScheModeRun_pieces[OF _ a(2)] a(4) by auto
  then show "progress cx cx' out" using a(3) only_ids_eq[of cx cx'] by (intro quiet_progress) simp_all
qed

interpretation deadlock: fair_pass order "DeadlockRefineRun k" for order k
proof
  fix cx scopes ok cx' out
  assume a: "ready_ctx order cx" "sound (cx_graph cx) scopes" "\<not> cx_resplit cx" "DeadlockRefineRun k cx scopes = Inr (ok, cx', out)"
  have "calm (cx_graph cx) (cx_graph cx') \<and> cx_resplit cx' = cx_resplit cx"
    using DeadlockRefineRun_ok[OF a(1,2), of k] a(4) by auto
  then show "progress cx cx' out" using a(3) by (intro quiet_progress) simp_all
qed

interpretation default: fair_pass order DefaultNodeRun for order
proof
  fix cx scopes ok cx' out
  assume a: "ready_ctx order cx" "sound (cx_graph cx) scopes" "\<not> cx_resplit cx" "DefaultNodeRun cx scopes = Inr (ok, cx', out)"
  have g: "graph_ok (cx_graph cx)" "length (sg_nodeIds (cx_graph cx)) < 2 ^ 32"
    using a(1) by (simp_all add: ready_ctx_def walkable_def)
  have fus: "mixed_all (cx_graph cx) scopes \<subseteq> fusibles (cx_graph cx)"
    using a(2) unfolding mixed_all_def mixed_def sound_def scope_ok_def fusibles_def by blast
  show "progress cx cx' out"
    by (rule DefaultNodeRun_ok[OF g a(2)]) (use a(3,4) fus in \<open>auto simp: progress_def RequestResplit_def\<close>)
qed

interpretation event: fair_pass order EventOnlyRun for order
proof
  fix cx scopes ok cx' out
  assume a: "ready_ctx order cx" "sound (cx_graph cx) scopes" "\<not> cx_resplit cx" "EventOnlyRun cx scopes = Inr (ok, cx', out)"
  show "progress cx cx' out"
    by (rule EventOnlyRun_cases[OF a(1,2)]) (use a(3,4) in \<open>auto simp: progress_def RequestResplit_def\<close>)
qed

section \<open>What the passes leave of the core requirements\<close>

text \<open>
  The detectors stay the ones of their device and option, and if nothing is noted at a node before a
  pass that succeeds, nothing is noted after it.
\<close>

definition at_rest :: "split_ctx \<Rightarrow> split_ctx \<Rightarrow> bool" where
  "at_rest cx cx' \<longleftrightarrow> (\<forall>j. core_device (cx_locks cx' j) = core_device (cx_locks cx j)) \<and>
     ((\<forall>i. plain_node (cx_graph cx) i) \<longrightarrow> needs (cx_graph cx') = needs (cx_graph cx))"

lemma at_rest_refl [simp]: "at_rest cx cx"
  by (simp add: at_rest_def)

lemma plain_frame:
  assumes "same_frame g h" and "needs h = needs g" and "\<forall>i. plain_node g i"
  shows "\<forall>i. plain_node h i"
  unfolding plain_node_def
proof (intro allI impI)
  fix i n assume n: "GetNodeById h i = Some n"
  obtain m where m: "GetNodeById g i = Some m" "node_frame m = node_frame n" using same_frameD[OF assms(1) n] .
  have "noted_at n = noted_at m" using fun_cong[OF assms(2), of i] n m(1) by (simp add: needs_def)
  then show "nd_scopeStreamIds n = {} \<and> (nd_nodeType n = NODE_NOTIFY \<longrightarrow>
      nd_notifyExpandVecNum n = 0 \<and> nd_notifyExpandCubeNum n = 0)"
    using assms(3) m(1) node_frame_eqD(9)[OF m(2)] by (simp add: plain_node_def noted_at_def)
qed

lemma at_rest_trans:
  assumes "same_frame (cx_graph cx) (cx_graph cx1)" and "at_rest cx cx1" and "at_rest cx1 cx2"
  shows "at_rest cx cx2"
  using assms(2,3) plain_frame[OF assms(1)] unfolding at_rest_def by metis

locale steady_pass = fair_pass +
  assumes steady: "ready_ctx order cx \<Longrightarrow> sound (cx_graph cx) scopes \<Longrightarrow>
    run cx scopes = Inr (True, cx', out) \<Longrightarrow> at_rest cx cx'"

lemma at_rest_graph: "needs h = needs (cx_graph cx) \<Longrightarrow> at_rest cx (cx\<lparr> cx_graph := h \<rparr>)"
  by (simp add: at_rest_def)

lemma at_rest_resplit [simp]: "at_rest cx (RequestResplit cx') = at_rest cx cx'"
  by (simp add: at_rest_def RequestResplit_def)

interpretation initial: steady_pass order "InitialRun order m" for order m
proof
  fix cx scopes cx' out
  assume "InitialRun order m cx scopes = Inr (True, cx', out)"
  then show "at_rest cx cx'" by (auto simp: InitialRun_def at_rest_def)
qed

interpretation sche: steady_pass order ScheModeRun for order
proof
  fix cx scopes cx' out
  assume a: "ready_ctx order cx" "sound (cx_graph cx) scopes" "ScheModeRun cx scopes = Inr (True, cx', out)"
  have "graph_ok (cx_graph cx)" using a(1) by (simp add: ready_ctx_def walkable_def)
  then have "only_ids cx cx'" using ScheModeRun_pieces[OF _ a(2)] a(3) by auto
  then show "at_rest cx cx'" using only_ids_eq[of cx cx'] by (simp add: at_rest_def)
qed

interpretation deadlock: steady_pass order "DeadlockRefineRun k" for order k
proof
  fix cx scopes cx' out
  assume a: "ready_ctx order cx" "sound (cx_graph cx) scopes" "DeadlockRefineRun k cx scopes = Inr (True, cx', out)"
  show "at_rest cx cx'" using DeadlockRefineRun_ok[OF a(1,2), of k] a(3) by (auto simp: at_rest_def)
qed

interpretation default: steady_pass order DefaultNodeRun for order
proof
  fix cx scopes cx' out
  assume run: "DefaultNodeRun cx scopes = Inr (True, cx', out)"
  have mark: "needs (MarkDefaultsUnfusible ids g) = needs g" for ids g
    unfolding MarkDefaultsUnfusible_def
    by (induction ids arbitrary: g) (simp_all add: needs_upd noted_at_def SetFusionFailReason_def)
  have step: "needs h = needs g" if "DefaultProcessSingleScope g sc = Inr (m, h, sc1)" for g h sc m sc1
    using that by (auto simp: DefaultProcessSingleScope_def Let_def mark split: if_splits)
  let ?f = "\<lambda>sc (total, g, out). bindR (DefaultProcessSingleScope g sc) (\<lambda>(m, g1, sc1). Inr (total + m, g1, out @ [sc1]))"
  obtain t h outs where f: "foldR ?f scopes (0 :: u32, cx_graph cx, []) = Inr (t, h, outs)"
    and cx': "cx' = cx\<lparr> cx_graph := h \<rparr> \<or> cx' = RequestResplit (cx\<lparr> cx_graph := h \<rparr>)"
    using run by (auto simp: DefaultNodeRun_def Let_def split: if_splits)
  have "needs h = needs (cx_graph cx)"
    using foldR_invariant[OF f, of "\<lambda>(t, h, outs). needs h = needs (cx_graph cx)"] step by fastforce
  then show "at_rest cx cx'" using cx' at_rest_graph by auto
qed

interpretation event: steady_pass order EventOnlyRun for order
proof
  fix cx scopes cx' out
  assume run: "EventOnlyRun cx scopes = Inr (True, cx', out)"
  have mark: "needs (fst (mark_event i p)) = needs (fst p)" for i p
    by (cases p) (simp add: mark_event_def needs_upd noted_at_def SetFusionFailReason_def split: option.split)
  have marks: "needs (fst (fold mark_event ids p)) = needs (fst p)" for ids p
    by (induction ids arbitrary: p) (simp_all add: mark)
  have step: "needs (fst (EventOnlyProcessScope sc p)) = needs (fst p)" for sc p
  proof -
    have "needs (fst (fold (\<lambda>(s, ids) (g, marked). if IsStreamAllEventNodes g ids then fold mark_event ids (g, marked)
       else (g, marked)) m q)) = needs (fst q)" for m :: "(u32 \<times> node_id list) list" and q
      by (induction m arbitrary: q) (simp_all add: marks split: prod.split)
    then show ?thesis by (cases p) (simp add: EventOnlyProcessScope_def)
  qed
  have all: "needs (fst (fold EventOnlyProcessScope scs p)) = needs (fst p)" for scs p
    by (induction scs arbitrary: p) (simp_all add: step)
  obtain h c where f: "fold EventOnlyProcessScope scopes (cx_graph cx, 0) = (h, c)" by fastforce
  then have "needs h = needs (cx_graph cx)" using all[of scopes "(cx_graph cx, 0)"] by simp
  then show "at_rest cx cx'" using run f at_rest_graph[of h cx]
    by (auto simp: EventOnlyRun_def Let_def split: if_splits)
qed

section \<open>One round\<close>

lemma progress_trans:
  assumes "progress cx cx1 s1" and "\<not> cx_resplit cx1" and "progress cx1 cx2 s2"
  shows "progress cx cx2 s2"
proof -
  have "fusibles (cx_graph cx1) = fusibles (cx_graph cx)" using assms(1,2) by (simp add: progress_def)
  then show ?thesis using assms(3) unfolding progress_def by metis
qed

text \<open>A list of fair passes is a fair pass.\<close>

lemma run_passes_fair:
  assumes "\<forall>p\<in>set ps. steady_pass order p" and "ready_ctx order cx" and "sound (cx_graph cx) scopes"
    and "\<not> cx_resplit cx"
  shows "\<exists>ok cx' out. run_passes ps cx scopes = Inr (ok, cx', out) \<and> same_frame (cx_graph cx) (cx_graph cx') \<and>
    progress cx cx' out \<and> (ok \<longrightarrow> ready_ctx order cx' \<and> sound (cx_graph cx') out \<and> at_rest cx cx')"
  using assms
proof (induction ps arbitrary: cx scopes)
  case Nil
  then show ?case by (auto simp: progress_def)
next
  case (Cons p ps)
  then have st: "steady_pass order p" by simp
  note p = steady_pass.axioms(1)[OF st]
  obtain ok cx1 s1 where run: "p cx scopes = Inr (ok, cx1, s1)" "same_frame (cx_graph cx) (cx_graph cx1)"
    "ok \<longrightarrow> ready_ctx order cx1 \<and> sound (cx_graph cx1) s1"
    using scope_pass.contract[OF fair_pass.axioms(1)[OF p] Cons.prems(2,3)] by blast
  have prog: "progress cx cx1 s1" by (rule fair_pass.fair[OF p Cons.prems(2-4) run(1)])
  have set: "ok \<longrightarrow> at_rest cx cx1" using steady_pass.steady[OF st Cons.prems(2,3), of cx1 s1] run(1) by auto
  show ?case
  proof (cases "ok \<and> \<not> cx_resplit cx1")
    case True
    then have r: "ready_ctx order cx1" "sound (cx_graph cx1) s1" "\<not> cx_resplit cx1" using run(3) by simp_all
    have fair: "\<forall>p\<in>set ps. steady_pass order p" using Cons.prems(1) by simp
    obtain ok2 cx2 s2 where rest: "run_passes ps cx1 s1 = Inr (ok2, cx2, s2)"
      "same_frame (cx_graph cx1) (cx_graph cx2)" "progress cx1 cx2 s2"
      "ok2 \<longrightarrow> ready_ctx order cx2 \<and> sound (cx_graph cx2) s2 \<and> at_rest cx1 cx2"
      using Cons.IH[OF fair r] by blast
    have "run_passes (p # ps) cx scopes = Inr (ok2, cx2, s2)" using run(1) rest(1) True by simp
    then show ?thesis
      using rest(4) same_frame_trans[OF run(2) rest(2)] progress_trans[OF prog r(3) rest(3)]
        at_rest_trans[OF run(2)] set True by blast
  next
    case False
    then have "run_passes (p # ps) cx scopes = Inr (ok, cx1, s1)" using run(1) by auto
    then show ?thesis using run(2,3) prog set by blast
  qed
qed

lemma run_passes_snoc:
  assumes "run_passes (ps @ [p]) cx scopes = Inr (True, cx', out)" and "\<not> cx_resplit cx'"
  obtains cx1 s1 where "run_passes ps cx scopes = Inr (True, cx1, s1)" and "ps = [] \<or> \<not> cx_resplit cx1"
    and "p cx1 s1 = Inr (True, cx', out)"
  using assms
proof (induction ps arbitrary: cx scopes thesis)
  case Nil
  then show ?case by (auto split: if_splits)
next
  case (Cons q qs)
  then obtain ok cx1 s1 where q: "q cx scopes = Inr (ok, cx1, s1)" by auto
  then have q2: "ok" "\<not> cx_resplit cx1" "run_passes (qs @ [p]) cx1 s1 = Inr (True, cx', out)"
    using Cons.prems(2,3) by (auto split: if_splits)
  from Cons.IH[OF _ q2(3) Cons.prems(3)] obtain cx2 s2 where
    "run_passes qs cx1 s1 = Inr (True, cx2, s2)" "qs = [] \<or> \<not> cx_resplit cx2" "p cx2 s2 = Inr (True, cx', out)" by blast
  moreover from this(1,2) q2(2) have "\<not> cx_resplit cx2" by auto
  ultimately show ?case using Cons.prems(1) q q2 by simp
qed

section \<open>The rounds\<close>

lemma ready_resplit: "ready_ctx order (cx\<lparr> cx_resplit := b \<rparr>) = ready_ctx order cx"
  by (simp add: ready_ctx_def)

lemma card_fusibles_less:
  "graph_ok g \<Longrightarrow> fusibles h \<subset> fusibles g \<Longrightarrow> card (fusibles h) < card (fusibles g)"
  using finite_fusibles psubset_card_mono by blast

lemma rounds_fair:
  assumes "\<forall>p\<in>set ps. steady_pass order p" and "ready_ctx order cx"
  shows "\<exists>ok cx' out. rounds k ps cx = Inr (ok, cx', out) \<and> same_frame (cx_graph cx) (cx_graph cx') \<and>
    (ok \<longrightarrow> ready_ctx order cx' \<and> sound (cx_graph cx') out \<and> at_rest cx cx') \<and>
    (0 < k \<longrightarrow> ok \<longrightarrow> (if cx_resplit cx' then out = [] \<and> k \<le> card (fusibles (cx_graph cx))
       else \<exists>cx0. ready_ctx order cx0 \<and> \<not> cx_resplit cx0 \<and> at_rest cx cx0 \<and>
         same_frame (cx_graph cx) (cx_graph cx0) \<and> run_passes ps cx0 [] = Inr (True, cx', out)))"
  using assms(2)
proof (induction k arbitrary: cx)
  case (Suc k)
  let ?cx = "cx\<lparr> cx_resplit := False \<rparr>"
  have r: "ready_ctx order ?cx" "\<not> cx_resplit ?cx" "sound (cx_graph ?cx) []"
    using Suc.prems ready_resplit[where order = order and cx = cx and b = False] by simp_all
  obtain ok cx1 s1 where run: "run_passes ps ?cx [] = Inr (ok, cx1, s1)" "same_frame (cx_graph cx) (cx_graph cx1)"
    "progress ?cx cx1 s1" "ok \<longrightarrow> ready_ctx order cx1 \<and> sound (cx_graph cx1) s1 \<and> at_rest cx cx1"
    using run_passes_fair[OF assms(1) r(1,3,2)] by (auto simp: at_rest_def)
  have g: "graph_ok (cx_graph cx)" using Suc.prems by (simp add: ready_ctx_def walkable_def)
  have less: "out = [] \<and> Suc n \<le> card (fusibles (cx_graph cx))"
    if "cx_resplit cx1" "out = s1" "n \<le> card (fusibles (cx_graph cx1))" for n out
    using run(3) that card_fusibles_less[OF g, of "cx_graph cx1"] by (simp add: progress_def)
  show ?case
  proof (cases "ok \<and> k \<noteq> 0 \<and> cx_resplit cx1")
    case False
    then have res: "rounds (Suc k) ps cx = Inr (ok, cx1, s1)" using run(1) by auto
    have "if cx_resplit cx1 then s1 = [] \<and> Suc k \<le> card (fusibles (cx_graph cx))
        else \<exists>cx0. ready_ctx order cx0 \<and> \<not> cx_resplit cx0 \<and> at_rest cx cx0 \<and>
         same_frame (cx_graph cx) (cx_graph cx0) \<and> run_passes ps cx0 [] = Inr (True, cx1, s1)" if ok
    proof (cases "cx_resplit cx1")
      case True
      then show ?thesis using False that less[of s1 k] by auto
    next
      case no: False
      have "at_rest cx ?cx" "same_frame (cx_graph cx) (cx_graph ?cx)" by (simp_all add: at_rest_def)
      then show ?thesis using no that run(1) r by auto
    qed
    then show ?thesis using res run(2,4) by blast
  next
    case True
    then have res: "rounds (Suc k) ps cx = rounds k ps cx1" "ready_ctx order cx1" using run(1,4) by auto
    obtain ok2 cx2 s2 where rest: "rounds k ps cx1 = Inr (ok2, cx2, s2)" "same_frame (cx_graph cx1) (cx_graph cx2)"
      "ok2 \<longrightarrow> ready_ctx order cx2 \<and> sound (cx_graph cx2) s2 \<and> at_rest cx1 cx2"
      "0 < k \<longrightarrow> ok2 \<longrightarrow> (if cx_resplit cx2 then s2 = [] \<and> k \<le> card (fusibles (cx_graph cx1))
       else \<exists>cx0. ready_ctx order cx0 \<and> \<not> cx_resplit cx0 \<and> at_rest cx1 cx0 \<and>
         same_frame (cx_graph cx1) (cx_graph cx0) \<and> run_passes ps cx0 [] = Inr (True, cx2, s2))"
      using Suc.IH[OF res(2)] by blast
    have s1: "at_rest cx cx1" using run(4) True by simp
    have on: "at_rest cx cx'" "same_frame (cx_graph cx) (cx_graph cx')"
      if "at_rest cx1 cx'" "same_frame (cx_graph cx1) (cx_graph cx')" for cx'
      using at_rest_trans[OF run(2) s1 that(1)] same_frame_trans[OF run(2) that(2)] .
    have "if cx_resplit cx2 then s2 = [] \<and> Suc k \<le> card (fusibles (cx_graph cx))
        else \<exists>cx0. ready_ctx order cx0 \<and> \<not> cx_resplit cx0 \<and> at_rest cx cx0 \<and>
         same_frame (cx_graph cx) (cx_graph cx0) \<and> run_passes ps cx0 [] = Inr (True, cx2, s2)" if o2: ok2
    proof (cases "cx_resplit cx2")
      case True': True
      then have "s2 = []" "k \<le> card (fusibles (cx_graph cx1))" using rest(4) True o2 by auto
      then show ?thesis using True' True less[of s1 k] by auto
    next
      case no: False
      then obtain cx0 where "ready_ctx order cx0" "\<not> cx_resplit cx0" "at_rest cx1 cx0"
        "same_frame (cx_graph cx1) (cx_graph cx0)" "run_passes ps cx0 [] = Inr (True, cx2, s2)"
        using rest(4) True o2 no by auto
      then show ?thesis using no on by auto
    qed
    then show ?thesis using res(1) rest(1,3) on[OF _ rest(2)] same_frame_trans[OF run(2) rest(2)] by auto
  qed
qed auto

section \<open>The splitter\<close>

lemma splitter_passes_fair:
  assumes "\<not> op_perOpMaxCore opts"
  shows "\<forall>p\<in>set (splitter_passes order opts). steady_pass order p"
  using assms initial.steady_pass_axioms sche.steady_pass_axioms deadlock.steady_pass_axioms
    default.steady_pass_axioms event.steady_pass_axioms
  by (auto simp: splitter_passes_def)

definition candidates :: "sk_graph \<Rightarrow> node_id set" where
  "candidates g = {i. \<exists>n. GetNodeById g i = Some n \<and> (nd_isFusible n \<or> nd_nodeType n = NODE_DEFAULT)}"

lemma InitDefaultNodeFusibility_needs:
  assumes "InitDefaultNodeFusibility opts g = Inr h"
  shows "needs h = needs g"
proof -
  have stream: "needs h = needs g" if "default_stream fuel i g = Inr h" for fuel i g h
    using that
  proof (induction fuel arbitrary: i g)
    case (Suc fuel)
    have same: "needs (upd_node i (\<lambda>n. n\<lparr> nd_isFusible := True \<rparr>) g) = needs g"
      by (simp add: needs_upd noted_at_def)
    show ?case
    proof (cases "i = INVALID_TASK_ID \<or> GetNodeById g i = None")
      case False
      then obtain n where n: "GetNodeById g i = Some n" by auto
      let ?g = "if nd_nodeType n = NODE_DEFAULT then upd_node i (\<lambda>n. n\<lparr> nd_isFusible := True \<rparr>) g else g"
      have "default_stream fuel (nd_nextNodeId n) ?g = Inr h" using Suc.prems n False by simp
      from Suc.IH[OF this] show ?thesis using same by simp
    qed (use Suc.prems in \<open>auto split: if_splits\<close>)
  qed simp
  show ?thesis
  proof (cases "op_taskBreakerBypass opts")
    case True
    then have "foldR (default_stream (Suc (length (sg_nodeIds g)))) (sg_headNodes g) g = Inr h"
      using assms by (simp add: InitDefaultNodeFusibility_def)
    then show ?thesis
      by (rule foldR_invariant[where P = "\<lambda>k. needs k = needs g"]) (use stream in \<open>simp_all del: default_stream.simps\<close>)
  qed (use assms in \<open>simp add: InitDefaultNodeFusibility_def\<close>)
qed

lemma SplitGraph_ok:
  assumes r: "ready_ctx order cx" and p: "\<not> op_perOpMaxCore opts"
  shows "\<exists>ok cx' out. SplitGraph order opts cx = Inr (ok, cx', out) \<and> same_frame (cx_graph cx) (cx_graph cx') \<and>
    (ok \<longrightarrow> ready_ctx order cx' \<and> sound (cx_graph cx') out \<and> at_rest cx cx' \<and>
      (if cx_resplit cx' then out = [] \<and> 10 \<le> card (candidates (cx_graph cx))
       else \<exists>cx0. ready_ctx order cx0 \<and> \<not> cx_resplit cx0 \<and> at_rest cx cx0 \<and> same_frame (cx_graph cx) (cx_graph cx0) \<and>
         run_passes (splitter_passes order opts) cx0 [] = Inr (True, cx', out)))"
proof -
  let ?g = "cx_graph cx"
  have w: "walkable ?g" using r by (simp add: ready_ctx_def)
  obtain h where h: "InitDefaultNodeFusibility opts ?g = Inr h" "opened ?g h"
    using InitDefaultNodeFusibility_ok[OF w] by blast
  let ?cx = "cx\<lparr> cx_graph := h \<rparr>"
  have ready: "ready_ctx order ?cx"
    by (rule ready_ctx_frame[OF r]) (use h(2) r in \<open>simp_all add: opened_def ready_ctx_def\<close>)
  have set: "at_rest cx ?cx"
    using at_rest_graph[OF InitDefaultNodeFusibility_needs[OF h(1)]] .
  have "fusibles h \<subseteq> candidates ?g"
    using h(2) by (auto simp: opened_def candidates_def fusibles_def has_type_def split: option.splits)
  moreover have "finite (candidates ?g)"
    by (rule finite_subset[of _ "set (sg_nodeIds ?g)"])
      (use w graph_ok_ids in \<open>fastforce simp: candidates_def walkable_def\<close>)+
  ultimately have card: "card (fusibles h) \<le> card (candidates ?g)" by (simp add: card_mono)
  obtain ok cx' out where run: "rounds 10 (splitter_passes order opts) ?cx = Inr (ok, cx', out)"
    "same_frame (cx_graph ?cx) (cx_graph cx')" "ok \<longrightarrow> ready_ctx order cx' \<and> sound (cx_graph cx') out \<and> at_rest ?cx cx'"
    "ok \<longrightarrow> (if cx_resplit cx' then out = [] \<and> 10 \<le> card (fusibles (cx_graph ?cx))
       else \<exists>cx0. ready_ctx order cx0 \<and> \<not> cx_resplit cx0 \<and> at_rest ?cx cx0 \<and> same_frame (cx_graph ?cx) (cx_graph cx0) \<and>
         run_passes (splitter_passes order opts) cx0 [] = Inr (True, cx', out))"
    using rounds_fair[OF splitter_passes_fair[OF p] ready, of 10] by auto
  have f: "same_frame ?g (cx_graph ?cx)" using h(2) by (simp add: opened_def)
  have on: "at_rest cx c" "same_frame ?g (cx_graph c)" if "at_rest ?cx c" "same_frame (cx_graph ?cx) (cx_graph c)" for c
    using at_rest_trans[OF f set that(1)] same_frame_trans[OF f that(2)] .
  have "if cx_resplit cx' then out = [] \<and> 10 \<le> card (candidates ?g)
     else \<exists>cx0. ready_ctx order cx0 \<and> \<not> cx_resplit cx0 \<and> at_rest cx cx0 \<and> same_frame ?g (cx_graph cx0) \<and>
         run_passes (splitter_passes order opts) cx0 [] = Inr (True, cx', out)" if ok
    using run(4) that on card by (cases "cx_resplit cx'") auto
  moreover have "ready_ctx order cx' \<and> sound (cx_graph cx') out \<and> at_rest cx cx'" if ok
    using run(2,3) that on(1) by blast
  moreover have "SplitGraph order opts cx = Inr (ok, cx', out)" using h(1) run(1) by (simp add: SplitGraph_def)
  ultimately show ?thesis using same_frame_trans[OF f run(2)] by blast
qed

section \<open>Properties\<close>

text \<open>
  C3 \<^bold>\<open>The scope split.\<close> From a ready context and with the split per operator off, splitting a graph
  never faults and always ends. If it succeeds, no node is in two scopes or twice in one, read one
  after the other the scopes keep the order of every stream, and every scope has a node and only
  nodes that can be fused in the graph as it is then and carry exactly its flags; the graph has kept
  everything but marks and core requirements.
\<close>

theorem SplitGraph_sound:
  assumes "ready_ctx order cx" and "\<not> op_perOpMaxCore opts"
  shows "\<exists>ok cx' out. SplitGraph order opts cx = Inr (ok, cx', out) \<and> same_frame (cx_graph cx) (cx_graph cx') \<and>
    (ok \<longrightarrow> distinct (concat (map sc_nodes out)) \<and>
       sorted_wrt (in_order (cx_graph cx')) (concat (map sc_nodes out)) \<and>
       (\<forall>sc\<in>set out. sc_nodes sc \<noteq> [] \<and> (\<forall>i\<in>set (sc_nodes sc). \<exists>n. GetNodeById (cx_graph cx') i = Some n \<and>
          nd_isFusible n \<and> nd_scopeBitFlags n = sc_bitFlags sc)))"
  using SplitGraph_ok[OF assms] unfolding sound_def scope_ok_def by blast

text \<open>
  C37 \<^bold>\<open>The end of the rounds.\<close> A split that succeeds while a pass still asks for another one has used
  up its ten rounds: it returns no scope at all, and the graph had at least ten nodes that could be
  fused or are default nodes. With fewer such nodes the split is complete.
\<close>

theorem SplitGraph_rounds:
  assumes "ready_ctx order cx" and "\<not> op_perOpMaxCore opts" and "SplitGraph order opts cx = Inr (True, cx', out)"
  shows "cx_resplit cx' \<longrightarrow> out = [] \<and> 10 \<le> card (candidates (cx_graph cx))"
  using SplitGraph_ok[OF assms(1,2)] assms(3) by auto

text \<open>The last two passes of a complete round.\<close>

definition last_detector :: "split_options \<Rightarrow> nat" where
  "last_detector opts = (if op_taskBreakerBypass opts then 1 else 0)"

lemma splitter_passes_last:
  assumes "\<not> op_perOpMaxCore opts"
  obtains ps where "splitter_passes order opts = (ps @ [DeadlockRefineRun (last_detector opts)]) @ [EventOnlyRun]"
    and "ps \<noteq> []"
proof (cases "op_taskBreakerBypass opts")
  case True
  let ?qs = "[InitialRun order (heap_type_of (op_autoOpParallel opts)), ScheModeRun, DeadlockRefineRun 0]"
  show thesis
    by (rule that[of "?qs @ [DefaultNodeRun]"]) (use assms True in \<open>auto simp: splitter_passes_def last_detector_def\<close>)
next
  case False
  let ?qs = "[InitialRun order (heap_type_of (op_autoOpParallel opts)), ScheModeRun]"
  show thesis by (rule that[of ?qs]) (use assms False in \<open>auto simp: splitter_passes_def last_detector_def\<close>)
qed

lemma admits_all_device: "core_device L = core_device M \<Longrightarrow> admits_all L g ps = admits_all M g ps"
  using new_detector_device[of L M] by (induction ps arbitrary: g) (simp_all add: admits_def)

lemma complete_round:
  assumes r: "ready_ctx order cx0" "\<not> cx_resplit cx0" and p: "\<not> op_perOpMaxCore opts"
    and run: "run_passes (splitter_passes order opts) cx0 [] = Inr (True, cx', out)" and "\<not> cx_resplit cx'"
    and plain: "\<forall>i. plain_node (cx_graph cx0) i"
  shows "admits_all (cx_locks cx0 (last_detector opts)) (cx_graph cx') out \<and> (\<forall>sc\<in>set out. \<not> lonely (cx_graph cx') sc)"
proof -
  let ?k = "last_detector opts"
  obtain ps where ps: "splitter_passes order opts = (ps @ [DeadlockRefineRun ?k]) @ [EventOnlyRun]" "ps \<noteq> []"
    using splitter_passes_last[OF p, of order] by metis
  obtain cx1 s1 where e: "run_passes (ps @ [DeadlockRefineRun ?k]) cx0 [] = Inr (True, cx1, s1)" "\<not> cx_resplit cx1"
    "EventOnlyRun cx1 s1 = Inr (True, cx', out)"
    using run_passes_snoc[OF run[unfolded ps(1)] assms(5)] by auto
  obtain cx2 s2 where d: "run_passes ps cx0 [] = Inr (True, cx2, s2)" "\<not> cx_resplit cx2"
    "DeadlockRefineRun ?k cx2 s2 = Inr (True, cx1, s1)"
    using run_passes_snoc[OF e(1,2)] ps(2) by auto
  have fair: "\<forall>p\<in>set (ps @ [DeadlockRefineRun ?k]). steady_pass order p" "\<forall>p\<in>set ps. steady_pass order p"
    using splitter_passes_fair[OF p, of order] unfolding ps(1) by simp_all
  have r1: "ready_ctx order cx1 \<and> sound (cx_graph cx1) s1"
    using run_passes_fair[OF fair(1) r(1) sound_Nil r(2)] e(1) by auto
  have r2: "ready_ctx order cx2 \<and> sound (cx_graph cx2) s2 \<and> at_rest cx0 cx2 \<and> same_frame (cx_graph cx0) (cx_graph cx2)"
    using run_passes_fair[OF fair(2) r(1) sound_Nil r(2)] d(1) by auto
  have plain2: "\<forall>i. plain_node (cx_graph cx2) i" using plain_frame[OF _ _ plain] r2 plain by (simp add: at_rest_def)
  have run2: "admits_all (cx_locks cx2 ?k) (cx_graph cx2) s1" "alike (cx_graph cx2) (cx_graph cx1)"
    using DeadlockRefineRun_ok[OF conjunct1[OF r2], of s2 ?k] r2 d(3) plain2 by (auto simp: alike_def)
  have "core_device (cx_locks cx2 ?k) = core_device (cx_locks cx0 ?k)" using r2 by (simp add: at_rest_def)
  then have adm: "admits_all (cx_locks cx0 ?k) (cx_graph cx1) s1"
    using admits_all_alike[OF run2(2,1)] admits_all_device by blast
  show ?thesis
  proof (rule EventOnlyRun_cases[OF conjunct1[OF r1] conjunct2[OF r1]])
    assume "\<forall>sc\<in>set s1. \<not> lonely (cx_graph cx1) sc" "EventOnlyRun cx1 s1 = Inr (True, cx1, s1)"
    then show ?thesis using e(3) adm by auto
  next
    fix h assume "EventOnlyRun cx1 s1 = Inr (True, RequestResplit (cx1\<lparr> cx_graph := h \<rparr>), [])"
    then show ?thesis using e(3) assms(5) by (auto simp: RequestResplit_def)
  qed
qed

text \<open>
  C4 \<^bold>\<open>Every returned scope may run.\<close> Let no core requirement and no stream of a scope be noted at any
  node at the start. When the split succeeds and no pass asks for another round, none is noted at the
  end, and the detector of the last deadlock pass, for the cores of its device and with its option,
  newly made and on the final graph without visited marks, admits every returned scope node by node,
  where the scopes before it have been noted at their nodes; and on every stream of a scope there is
  a node that is not an event.
\<close>

theorem SplitGraph_admitted:
  assumes "ready_ctx order cx" and "\<not> op_perOpMaxCore opts" and "SplitGraph order opts cx = Inr (True, cx', out)"
    and "\<not> cx_resplit cx'" and "\<forall>i. plain_node (cx_graph cx) i"
  shows "admits_all (cx_locks cx (last_detector opts)) (cx_graph cx') out \<and> needs (cx_graph cx') = needs (cx_graph cx) \<and>
    (\<forall>sc\<in>set out. \<not> lonely (cx_graph cx') sc)"
proof -
  obtain cx0 where cx0: "ready_ctx order cx0" "\<not> cx_resplit cx0" "at_rest cx cx0" "same_frame (cx_graph cx) (cx_graph cx0)"
    "run_passes (splitter_passes order opts) cx0 [] = Inr (True, cx', out)" "at_rest cx cx'"
    using SplitGraph_ok[OF assms(1,2)] assms(3,4) by auto
  have "\<forall>i. plain_node (cx_graph cx0) i" using plain_frame[OF cx0(4) _ assms(5)] cx0(3) assms(5) by (simp add: at_rest_def)
  from complete_round[OF cx0(1,2) assms(2) cx0(5) assms(4) this] show ?thesis
    using admits_all_device[of "cx_locks cx0 (last_detector opts)" "cx_locks cx (last_detector opts)"] cx0(3,6) assms(5)
    by (simp add: at_rest_def)
qed

text \<open>Both options for the task breakers on the sample graph.\<close>

definition sample_options :: "bool \<Rightarrow> split_options" where
  "sample_options b = \<lparr> op_autoOpParallel = None, op_perOpMaxCore = False, op_taskBreakerBypass = b \<rparr>"

lemma sample_splitter_run:
  obtains cx' out where
    "SplitGraph [0, 1] (sample_options True) (sample_ctx (sample_split {0})) = Inr (True, cx', out)"
    and "\<not> cx_resplit cx'" and "map sc_nodes out = [[3, 4, 1, 2]]"
proof -
  have run: "case SplitGraph [0, 1] (sample_options True) (sample_ctx (sample_split {0})) of Inl e \<Rightarrow> False
    | Inr (ok, cx, out) \<Rightarrow> ok \<and> \<not> cx_resplit cx \<and> map sc_nodes out = [[3, 4, 1, 2]]" by code_simp
  show thesis
  proof (cases "SplitGraph [0, 1] (sample_options True) (sample_ctx (sample_split {0}))")
    case (Inr r)
    then show ?thesis using run by (cases r) (auto intro: that)
  qed (use run in simp)
qed

lemma SplitGraph_sound_witness:
  "\<exists>ok cx' out. SplitGraph [0, 1] (sample_options False) (sample_ctx (sample_split {0})) = Inr (ok, cx', out) \<and>
     (ok \<longrightarrow> distinct (concat (map sc_nodes out)))"
proof -
  have "\<not> op_perOpMaxCore (sample_options False)" by (simp add: sample_options_def)
  from SplitGraph_sound[OF sample_ready[of "{0}"] this] show ?thesis by blast
qed

lemma SplitGraph_rounds_witness:
  "\<exists>cx' out. SplitGraph [0, 1] (sample_options True) (sample_ctx (sample_split {0})) = Inr (True, cx', out) \<and>
     (cx_resplit cx' \<longrightarrow> out = [])"
proof -
  have p: "\<not> op_perOpMaxCore (sample_options True)" by (simp add: sample_options_def)
  obtain cx' out where run: "SplitGraph [0, 1] (sample_options True) (sample_ctx (sample_split {0})) = Inr (True, cx', out)"
    by (rule sample_splitter_run)
  from SplitGraph_rounds[OF sample_ready p run] run show ?thesis by blast
qed

lemma SplitGraph_admitted_witness:
  "\<exists>cx' out. SplitGraph [0, 1] (sample_options True) (sample_ctx (sample_split {0})) = Inr (True, cx', out) \<and>
     out \<noteq> [] \<and> admits_all sample_lock (cx_graph cx') out"
proof -
  have p: "\<not> op_perOpMaxCore (sample_options True)" by (simp add: sample_options_def)
  obtain cx' out where run: "SplitGraph [0, 1] (sample_options True) (sample_ctx (sample_split {0})) = Inr (True, cx', out)"
    "\<not> cx_resplit cx'" "map sc_nodes out = [[3, 4, 1, 2]]"
    by (rule sample_splitter_run)
  have "plain_node (cx_graph (sample_ctx (sample_split {0}))) i" for i
    by (auto simp: plain_node_def GetNodeById_def sample_split_defs split: if_splits)
  then have plain: "\<forall>i. plain_node (cx_graph (sample_ctx (sample_split {0}))) i" by blast
  from SplitGraph_admitted[OF sample_ready p run(1,2) plain] run show ?thesis by auto
qed

end
