(* ===== verification/Sk_Resource.thy ===== *)
theory Sk_Resource
  imports Sk_Runtime "HOL-Library.AList"
begin

text \<open>
  Device memory and model identity (\<^verbatim>\<open>sk_resource_manager.cpp\<close>, \<^verbatim>\<open>sk_model_context.cpp\<close>): the names
  under which an optimised model is known, the blocks of device memory allocated for it, and their
  release when the runtime destroys the model. The shown property is the ledger: whatever the
  runtime answers and in whatever order the operations run, every block that is allocated and not yet handed
  back is recorded for exactly one model, and that model has its destroy callback registered.
\<close>

section \<open>State\<close>

datatype resource_kind = DeviceMemory

record resource_record =
  rr_kind :: resource_kind
  rr_addr :: u64
  rr_bytes :: u64

record model_resource_context =
  mr_model :: u64
  mr_modelId :: string
  mr_modelLabel :: string
  mr_resources :: "resource_record list"

text \<open>
  The active \<open>SkModelContext\<close> is the address of the object with its id and label. Model handles are
  64-bit values with 0 for \<open>nullptr\<close>.
\<close>

record res_state =
  rs_log :: "acl_call list"
  rs_modelContexts :: "(u64 \<times> model_resource_context) list"
  rs_currentModel :: u64
  rs_callCounter :: "(u32 \<times> u64) list"
  rs_currentContext :: "(u64 \<times> string \<times> string) option"

definition empty_res :: res_state where
  "empty_res = \<lparr> rs_log = [], rs_modelContexts = [], rs_currentModel = 0, rs_callCounter = [],
     rs_currentContext = None \<rparr>"

definition log_call :: "acl_call \<Rightarrow> res_state \<Rightarrow> res_state" where
  "log_call c st = st\<lparr> rs_log := c # rs_log st \<rparr>"

lemma log_call_simps [simp]:
  "rs_log (log_call c st) = c # rs_log st"
  "rs_modelContexts (log_call c st) = rs_modelContexts st"
  "rs_currentModel (log_call c st) = rs_currentModel st"
  "rs_callCounter (log_call c st) = rs_callCounter st"
  "rs_currentContext (log_call c st) = rs_currentContext st"
  by (simp_all add: log_call_def)

section \<open>Calls of the runtime\<close>

definition aclrtMalloc :: "acl \<Rightarrow> u64 \<Rightarrow> res_state \<Rightarrow> acl_error \<times> u64 \<times> res_state" where
  "aclrtMalloc A bytes st = (let (ret, addr) = rt_malloc A (rs_log st) bytes
     in (ret, addr, log_call (CallMalloc bytes ret addr) st))"

definition aclrtMemset :: "acl \<Rightarrow> u64 \<Rightarrow> u64 \<Rightarrow> res_state \<Rightarrow> acl_error \<times> res_state" where
  "aclrtMemset A addr bytes st = (let ret = rt_memset A (rs_log st) addr bytes
     in (ret, log_call (CallMemset addr bytes ret) st))"

definition aclrtFree :: "acl \<Rightarrow> u64 \<Rightarrow> res_state \<Rightarrow> acl_error \<times> res_state" where
  "aclrtFree A addr st = (let ret = rt_free A (rs_log st) addr
     in (ret, log_call (CallFree addr ret) st))"

lemmas runtime_call_defs = aclrtMalloc_def aclrtMemset_def aclrtFree_def

section \<open>The identity of a model\<close>

definition MODEL_LABEL_PREFIX :: string where "MODEL_LABEL_PREFIX = ''model_''"
definition DEFAULT_MODEL_ID :: string where "DEFAULT_MODEL_ID = ''unknown''"

definition GetRtsModelId :: "acl \<Rightarrow> u64 \<Rightarrow> res_state \<Rightarrow> u32 option \<times> res_state" where
  "GetRtsModelId A model st = (if model = 0 then (None, st)
     else let r = rt_getModelId A (rs_log st) model in (r, log_call (CallGetModelId model r) st))"

definition default_identity :: "string \<times> string" where
  "default_identity = (DEFAULT_MODEL_ID, MODEL_LABEL_PREFIX @ DEFAULT_MODEL_ID)"

definition identity_of :: "u32 \<Rightarrow> u64 \<Rightarrow> string \<times> string" where
  "identity_of rtsId callCount = (let i = word_str rtsId @ ''_'' @ word_str callCount
     in (i, MODEL_LABEL_PREFIX @ i))"

definition call_count :: "u32 \<Rightarrow> res_state \<Rightarrow> u64" where
  "call_count k st = (case map_of (rs_callCounter st) k of None \<Rightarrow> 0 | Some c \<Rightarrow> c)"

definition BuildModelIdentity :: "acl \<Rightarrow> u64 \<Rightarrow> bool \<Rightarrow> res_state \<Rightarrow> (string \<times> string) \<times> res_state" where
  "BuildModelIdentity A model bump st =
    (if model = 0 then (default_identity, st)
     else case GetRtsModelId A model st of
       (None, st1) \<Rightarrow> (default_identity, st1)
     | (Some rtsId, st1) \<Rightarrow>
         if bump then let c = call_count rtsId st1 + 1
           in (identity_of rtsId c, st1\<lparr> rs_callCounter := AList.update rtsId c (rs_callCounter st1) \<rparr>)
         else (identity_of rtsId 0, st1))"

definition GetCurrentModelId :: "res_state \<Rightarrow> string" where
  "GetCurrentModelId st = (case rs_currentContext st of None \<Rightarrow> DEFAULT_MODEL_ID | Some (p, i, l) \<Rightarrow> i)"

definition GetCurrentModelLabel :: "res_state \<Rightarrow> string" where
  "GetCurrentModelLabel st = (case rs_currentContext st of
     None \<Rightarrow> MODEL_LABEL_PREFIX @ DEFAULT_MODEL_ID | Some (p, i, l) \<Rightarrow> l)"

text \<open>Constructor and destructor of \<open>SkModelContext\<close>; a nested context overwrites the current one.\<close>

definition NewModelContext :: "acl \<Rightarrow> u64 \<Rightarrow> u64 \<Rightarrow> res_state \<Rightarrow> (string \<times> string) \<times> res_state" where
  "NewModelContext A this model st = (let (ident, st1) = BuildModelIdentity A model True st
     in (ident, st1\<lparr> rs_currentContext := Some (this, ident) \<rparr>))"

definition DropModelContext :: "u64 \<Rightarrow> res_state \<Rightarrow> res_state" where
  "DropModelContext this st = (case rs_currentContext st of
     None \<Rightarrow> st
   | Some (p, ident) \<Rightarrow> if p \<noteq> this then st else st\<lparr> rs_currentContext := None \<rparr>)"

section \<open>Allocation and release\<close>

definition SetCurrentModel :: "u64 \<Rightarrow> res_state \<Rightarrow> res_state" where
  "SetCurrentModel model st = st\<lparr> rs_currentModel := model \<rparr>"

definition CallbackRegister :: "acl \<Rightarrow> u64 \<Rightarrow> res_state \<Rightarrow> acl_error \<times> res_state" where
  "CallbackRegister A model st =
    (if model = 0 then (ACL_ERROR_INVALID_PARAM, st)
     else if GetCurrentModelId st = '''' \<or> GetCurrentModelLabel st = '''' then (ACL_ERROR_FAILURE, st)
     else if map_of (rs_modelContexts st) model \<noteq> None then (ACL_ERROR_FAILURE, st)
     else let ret = rt_registerDestroy A (rs_log st) model;
              st1 = log_call (CallRegisterDestroy model ret) st
          in if ret \<noteq> ACL_SUCCESS then (ret, st1)
             else (ACL_SUCCESS, st1\<lparr> rs_modelContexts := rs_modelContexts st1 @
               [(model, \<lparr> mr_model = model, mr_modelId = GetCurrentModelId st,
                  mr_modelLabel = GetCurrentModelLabel st, mr_resources = [] \<rparr>)] \<rparr>))"

definition add_resource :: "resource_record \<Rightarrow> model_resource_context \<Rightarrow> model_resource_context" where
  "add_resource r c = c\<lparr> mr_resources := mr_resources c @ [r] \<rparr>"

text \<open>The out parameter: \<open>None\<close> is a null pointer, \<open>Some\<close> the word it points to.\<close>

definition AllocForModel ::
  "acl \<Rightarrow> u64 \<Rightarrow> u64 option \<Rightarrow> u64 \<Rightarrow> res_state \<Rightarrow> acl_error \<times> u64 option \<times> res_state" where
  "AllocForModel A model out bytes st =
    (if out = None \<or> bytes = 0 \<or> model = 0 then (ACL_ERROR_INVALID_PARAM, out, st)
     else let (ret, addr, st1) = aclrtMalloc A bytes st in
       if ret \<noteq> ACL_SUCCESS then (ret, Some addr, st1)
       else let (ret2, st2) = aclrtMemset A addr bytes st1 in
         if ret2 \<noteq> ACL_SUCCESS then (ret2, Some 0, snd (aclrtFree A addr st2))
         else (case map_of (rs_modelContexts st2) model of
             None \<Rightarrow> (ACL_ERROR_FAILURE, Some 0, snd (aclrtFree A addr st2))
           | Some c \<Rightarrow> (ACL_SUCCESS, Some addr, st2\<lparr> rs_modelContexts := AList.update model
               (add_resource \<lparr> rr_kind = DeviceMemory, rr_addr = addr, rr_bytes = bytes \<rparr> c)
               (rs_modelContexts st2) \<rparr>)))"

definition kDefaultValueMemoryBytes :: u64 where "kDefaultValueMemoryBytes = 8"

definition ValueMemory :: "acl \<Rightarrow> u64 option \<Rightarrow> res_state \<Rightarrow> acl_error \<times> u64 option \<times> res_state" where
  "ValueMemory A out st = AllocForModel A (rs_currentModel st) out kDefaultValueMemoryBytes st"

definition ReleaseRecord :: "acl \<Rightarrow> resource_record \<Rightarrow> res_state \<Rightarrow> acl_error \<times> res_state" where
  "ReleaseRecord A r st = (if rr_addr r = 0 then (ACL_SUCCESS, st)
     else case rr_kind r of DeviceMemory \<Rightarrow> aclrtFree A (rr_addr r) st)"

definition ReleaseModelResources ::
  "acl \<Rightarrow> resource_record list \<Rightarrow> res_state \<Rightarrow> bool \<times> res_state" where
  "ReleaseModelResources A rs st = fold (\<lambda>r (ok, st).
     let (ret, st1) = ReleaseRecord A r st in (ok \<and> ret = ACL_SUCCESS, st1)) rs (True, st)"

definition OnModelDestroy :: "acl \<Rightarrow> u64 \<Rightarrow> res_state \<Rightarrow> res_state" where
  "OnModelDestroy A model st =
    (if model = 0 then st
     else case map_of (rs_modelContexts st) model of
       None \<Rightarrow> st
     | Some c \<Rightarrow> snd (ReleaseModelResources A (mr_resources c)
         (st\<lparr> rs_modelContexts := AList.delete model (rs_modelContexts st) \<rparr>)))"

section \<open>The ledger\<close>

text \<open>
  The blocks a history has allocated and not yet handed to \<^verbatim>\<open>aclrtFree\<close>; \<open>None\<close> once it hands over a block
  it does not hold. Recorded are the blocks in the contexts of the models.
\<close>

fun ledger :: "acl_call list \<Rightarrow> u64 multiset option" where
  "ledger [] = Some {#}"
| "ledger (CallMalloc b r a # h) =
     map_option (\<lambda>M. if r = ACL_SUCCESS \<and> a \<noteq> 0 then add_mset a M else M) (ledger h)"
| "ledger (CallFree a r # h) = (case ledger h of None \<Rightarrow> None
     | Some M \<Rightarrow> if a = 0 then Some M else if a \<in># M then Some (M - {#a#}) else None)"
| "ledger (_ # h) = ledger h"

text \<open>
  What the device holds: \<^verbatim>\<open>aclrtFree\<close> gives a block back only if it succeeds, otherwise the block is lost,
  since the code drops its record of the block either way.
\<close>

fun allocated :: "acl_call list \<Rightarrow> u64 multiset" where
  "allocated [] = {#}"
| "allocated (CallMalloc b r a # h) =
     (if r = ACL_SUCCESS \<and> a \<noteq> 0 then add_mset a (allocated h) else allocated h)"
| "allocated (CallFree a r # h) = (if r = ACL_SUCCESS \<and> a \<noteq> 0 then allocated h - {#a#} else allocated h)"
| "allocated (_ # h) = allocated h"

fun lost :: "acl_call list \<Rightarrow> u64 multiset" where
  "lost [] = {#}"
| "lost (CallFree a r # h) = (if r \<noteq> ACL_SUCCESS \<and> a \<noteq> 0 then add_mset a (lost h) else lost h)"
| "lost (_ # h) = lost h"

lemma ledger_allocated: "ledger h = Some M \<Longrightarrow> allocated h = M + lost h"
  by (induction h arbitrary: M rule: ledger.induct) (auto split: option.splits if_splits)

definition blocks :: "model_resource_context \<Rightarrow> u64 multiset" where
  "blocks c = mset (filter (\<lambda>a. a \<noteq> 0) (map rr_addr (mr_resources c)))"

definition recorded :: "res_state \<Rightarrow> u64 multiset" where
  "recorded st = sum_list (map (blocks \<circ> snd) (rs_modelContexts st))"

definition owned :: "acl_call list \<Rightarrow> u64 \<times> model_resource_context \<Rightarrow> bool" where
  "owned h p \<longleftrightarrow> fst p \<noteq> 0 \<and> mr_model (snd p) = fst p \<and>
     CallRegisterDestroy (fst p) ACL_SUCCESS \<in> set h"

lemma owned_mono: "owned h p \<Longrightarrow> set h \<subseteq> set h' \<Longrightarrow> owned h' p"
  by (auto simp: owned_def)

definition books_kept :: "res_state \<Rightarrow> bool" where
  "books_kept st \<longleftrightarrow> ledger (rs_log st) = Some (recorded st) \<and>
     distinct (map fst (rs_modelContexts st)) \<and>
     (\<forall>p\<in>set (rs_modelContexts st). owned (rs_log st) p)"

lemma ledger_neutral [simp]:
  "ledger (CallMemset a b r # h) = ledger h"
  "ledger (CallRegisterDestroy m r # h) = ledger h"
  "ledger (CallGetModelId m r' # h) = ledger h"
  by simp_all

lemma map_of_split:
  assumes "map_of xs k = Some v" and "distinct (map fst xs)"
  obtains us zs where "xs = us @ (k, v) # zs" and "k \<notin> fst ` set us" and "k \<notin> fst ` set zs"
proof -
  have "(k, v) \<in> set xs" using assms(1) by (rule map_of_SomeD)
  then obtain us zs where "xs = us @ (k, v) # zs" by (auto simp: in_set_conv_decomp)
  with assms(2) that show thesis by (auto simp: rev_image_eqI)
qed

lemma update_split:
  "k \<notin> fst ` set us \<Longrightarrow> AList.update k w (us @ (k, v) # zs) = us @ (k, w) # zs"
  by (induction us) auto

lemma delete_absent: "k \<notin> fst ` set xs \<Longrightarrow> AList.delete k xs = xs"
  by (induction xs) auto

lemma delete_split:
  assumes "k \<notin> fst ` set us" and "k \<notin> fst ` set zs"
  shows "AList.delete k (us @ (k, v) # zs) = us @ zs"
proof -
  show ?thesis using assms by (simp add: AList.delete_eq delete_absent[unfolded AList.delete_eq])
qed

lemma recorded_split:
  "rs_modelContexts st = us @ (k, c) # zs \<Longrightarrow>
   recorded st = sum_list (map (blocks \<circ> snd) (us @ zs)) + blocks c"
  by (simp add: recorded_def add_ac)

lemma ReleaseModelResources_ledger:
  assumes "ReleaseModelResources A rs st = (ok, st')"
    and "ledger (rs_log st) = Some (N + mset (filter (\<lambda>a. a \<noteq> 0) (map rr_addr rs)))"
  shows "ledger (rs_log st') = Some N \<and> rs_modelContexts st' = rs_modelContexts st \<and>
    set (rs_log st) \<subseteq> set (rs_log st')"
proof -
  define step where "step = (\<lambda>r (ok, st). let (ret, st1) = ReleaseRecord A r st in (ok \<and> ret = ACL_SUCCESS, st1))"
  have "ledger (rs_log (snd (fold step rs (b, s)))) = Some N \<and>
      rs_modelContexts (snd (fold step rs (b, s))) = rs_modelContexts s \<and>
      set (rs_log s) \<subseteq> set (rs_log (snd (fold step rs (b, s))))"
    if "ledger (rs_log s) = Some (N + mset (filter (\<lambda>a. a \<noteq> 0) (map rr_addr rs)))" for b s
    using that
  proof (induction rs arbitrary: b s)
    case (Cons r rs)
    obtain b1 s1 where s1: "step r (b, s) = (b1, s1)" by fastforce
    have kind: "rr_kind r = DeviceMemory" by (cases "rr_kind r") simp
    have "ledger (rs_log s1) = Some (N + mset (filter (\<lambda>a. a \<noteq> 0) (map rr_addr rs))) \<and>
        rs_modelContexts s1 = rs_modelContexts s \<and> set (rs_log s) \<subseteq> set (rs_log s1)"
      using s1 Cons.prems
      by (auto simp: step_def ReleaseRecord_def kind runtime_call_defs Let_def split: if_splits)
    with Cons.IH[of s1 b1] show ?case by (auto simp: s1)
  qed simp
  from this[OF assms(2), of True] assms(1) show ?thesis
    by (simp add: ReleaseModelResources_def step_def)
qed

lemma OnModelDestroy_books:
  assumes "books_kept st"
  shows "books_kept (OnModelDestroy A model st) \<and>
    rs_modelContexts (OnModelDestroy A model st) = AList.delete model (rs_modelContexts st)"
proof (cases "map_of (rs_modelContexts st) model")
  case None
  then have "model \<notin> fst ` set (rs_modelContexts st)" by (simp add: map_of_eq_None_iff)
  then have "AList.delete model (rs_modelContexts st) = rs_modelContexts st" by (rule delete_absent)
  moreover have "OnModelDestroy A model st = st" using None by (simp add: OnModelDestroy_def)
  ultimately show ?thesis using assms by simp
next
  case (Some c)
  obtain us zs where ctx: "rs_modelContexts st = us @ (model, c) # zs" "model \<notin> fst ` set us"
      "model \<notin> fst ` set zs"
    using map_of_split[OF Some] assms by (auto simp: books_kept_def)
  let ?st = "st\<lparr> rs_modelContexts := us @ zs \<rparr>"
  obtain ok st' where rel: "ReleaseModelResources A (mr_resources c) ?st = (ok, st')" by fastforce
  have "ledger (rs_log ?st) = Some (sum_list (map (blocks \<circ> snd) (us @ zs)) +
      mset (filter (\<lambda>a. a \<noteq> 0) (map rr_addr (mr_resources c))))"
    using assms recorded_split[OF ctx(1)] by (simp add: books_kept_def blocks_def)
  from ReleaseModelResources_ledger[OF rel this]
  have led: "ledger (rs_log st') = Some (sum_list (map (blocks \<circ> snd) (us @ zs)))"
    "rs_modelContexts st' = us @ zs" "set (rs_log st) \<subseteq> set (rs_log st')"
    by simp_all
  have del: "AList.delete model (rs_modelContexts st) = us @ zs"
    using delete_split[OF ctx(2,3)] by (simp add: ctx(1))
  have "model \<noteq> 0" using assms ctx(1) by (auto simp: books_kept_def owned_def)
  then have "OnModelDestroy A model st = st'"
    by (simp add: OnModelDestroy_def Some del rel)
  moreover have "books_kept st'"
    using led assms ctx(1) by (auto simp: books_kept_def recorded_def intro: owned_mono)
  ultimately show ?thesis by (simp add: del led(2))
qed

lemma update_recorded:
  assumes "map_of xs m = Some c" and "distinct (map fst xs)"
  shows "sum_list (map (blocks \<circ> snd) (AList.update m (add_resource r c) xs)) =
      (if rr_addr r = 0 then {#} else {#rr_addr r#}) + sum_list (map (blocks \<circ> snd) xs) \<and>
    distinct (map fst (AList.update m (add_resource r c) xs)) \<and>
    (\<forall>p\<in>set (AList.update m (add_resource r c) xs). p \<in> set xs \<or> p = (m, add_resource r c)) \<and>
    (m, c) \<in> set xs"
proof -
  obtain us zs where xs: "xs = us @ (m, c) # zs" "m \<notin> fst ` set us" "m \<notin> fst ` set zs"
    using map_of_split[OF assms] .
  have "blocks (add_resource r c) = (if rr_addr r = 0 then {#} else {#rr_addr r#}) + blocks c"
    by (simp add: blocks_def add_resource_def)
  then show ?thesis using assms(2) update_split[OF xs(2)] by (auto simp: xs(1) add_ac)
qed

text \<open>
  The four ways an allocation can go: a wrong argument, no memory, a block given back at once, and a
  block recorded for the model.
\<close>

lemma AllocForModel_cases:
  assumes "AllocForModel A model out bytes st = (ret, out', st')"
  obtains (arg) "ret = ACL_ERROR_INVALID_PARAM" and "out' = out" and "st' = st"
    | (fails) addr where "ret \<noteq> ACL_SUCCESS" and "out' = Some addr" and
        "st' = st\<lparr> rs_log := CallMalloc bytes ret addr # rs_log st \<rparr>"
    | (undo) addr r2 r3 where "ret \<noteq> ACL_SUCCESS" and "out' = Some 0" and
        "st' = st\<lparr> rs_log := CallFree addr r3 # CallMemset addr bytes r2 #
           CallMalloc bytes ACL_SUCCESS addr # rs_log st \<rparr>"
    | (kept) addr r2 c where "ret = ACL_SUCCESS" and "out' = Some addr" and
        "map_of (rs_modelContexts st) model = Some c" and
        "st' = st\<lparr> rs_log := CallMemset addr bytes r2 # CallMalloc bytes ACL_SUCCESS addr # rs_log st,
           rs_modelContexts := AList.update model
             (add_resource \<lparr> rr_kind = DeviceMemory, rr_addr = addr, rr_bytes = bytes \<rparr> c)
             (rs_modelContexts st) \<rparr>"
proof (cases "out = None \<or> bytes = 0 \<or> model = 0")
  case True
  then have "ret = ACL_ERROR_INVALID_PARAM" "out' = out" "st' = st"
    using assms by (auto simp: AllocForModel_def)
  then show thesis by (rule arg)
next
  case valid: False
  obtain r1 addr where m: "rt_malloc A (rs_log st) bytes = (r1, addr)" by fastforce
  let ?h1 = "CallMalloc bytes r1 addr # rs_log st"
  let ?r2 = "rt_memset A ?h1 addr bytes"
  show thesis
  proof (cases "r1 = ACL_SUCCESS")
    case False
    have "ret = r1" "out' = Some addr" "st' = log_call (CallMalloc bytes r1 addr) st"
      using assms valid False by (auto simp: AllocForModel_def aclrtMalloc_def m)
    then show thesis using fails[of addr] False by (simp add: log_call_def)
  next
    case r1: True
    show thesis
    proof (cases "?r2 = ACL_SUCCESS")
      case False
      then show thesis
        using assms valid r1 undo[where addr = addr and ?r2.0 = ?r2]
        by (auto simp: AllocForModel_def runtime_call_defs m Let_def log_call_def)
    next
      case r2: True
      show thesis
      proof (cases "map_of (rs_modelContexts st) model")
        case None
        then show thesis
          using assms valid r1 r2 undo[where addr = addr and ?r2.0 = ?r2]
          by (auto simp: AllocForModel_def runtime_call_defs m Let_def log_call_def)
      next
        case (Some c)
        then show thesis
          using assms valid r1 r2 kept[where addr = addr and c = c and ?r2.0 = ?r2]
          by (auto simp: AllocForModel_def runtime_call_defs m Let_def log_call_def)
      qed
    qed
  qed
qed

lemma books_log:
  assumes "books_kept st" and "ledger h = ledger (rs_log st)" and "set (rs_log st) \<subseteq> set h"
  shows "books_kept (st\<lparr> rs_log := h \<rparr>)"
  using assms by (auto simp: books_kept_def recorded_def intro: owned_mono)

lemma AllocForModel_books:
  assumes "books_kept st" and "AllocForModel A model out bytes st = (ret, out', st')"
  shows "books_kept st'"
  using assms(2)
proof (cases rule: AllocForModel_cases)
  case arg
  then show ?thesis using assms(1) by simp
next
  case (fails addr)
  then have "ledger (CallMalloc bytes ret addr # rs_log st) = ledger (rs_log st)"
    using assms(1) by (simp add: books_kept_def)
  then show ?thesis unfolding fails(3) by (rule books_log[OF assms(1)]) auto
next
  case (undo addr r2 r3)
  then have "ledger (CallFree addr r3 # CallMemset addr bytes r2 # CallMalloc bytes ACL_SUCCESS addr #
      rs_log st) = ledger (rs_log st)"
    using assms(1) by (simp add: books_kept_def)
  then show ?thesis unfolding undo(3) by (rule books_log[OF assms(1)]) auto
next
  case (kept addr r2 c)
  let ?h = "CallMemset addr bytes r2 # CallMalloc bytes ACL_SUCCESS addr # rs_log st"
  have dist: "distinct (map fst (rs_modelContexts st))" using assms(1) by (simp add: books_kept_def)
  note upd = update_recorded[OF kept(3) dist,
      of "\<lparr> rr_kind = DeviceMemory, rr_addr = addr, rr_bytes = bytes \<rparr>"]
  have own: "owned ?h q" if "q \<in> set (rs_modelContexts st)" for q
    using that assms(1) by (auto simp: books_kept_def intro: owned_mono)
  have "ledger ?h = Some ((if addr = 0 then {#} else {#addr#}) + recorded st)"
    using assms(1) by (simp add: books_kept_def)
  moreover have "owned ?h p" if p: "p \<in> set (rs_modelContexts st')" for p
  proof -
    have "p \<in> set (rs_modelContexts st) \<or>
        p = (model, add_resource \<lparr> rr_kind = DeviceMemory, rr_addr = addr, rr_bytes = bytes \<rparr> c)"
      using p upd by (simp add: kept(4))
    moreover have "owned ?h (model, add_resource r c)" for r
      using own[of "(model, c)"] upd by (simp add: owned_def add_resource_def)
    ultimately show ?thesis using own[of p] by metis
  qed
  moreover have "recorded st' = (if addr = 0 then {#} else {#addr#}) + recorded st"
    using upd by (simp add: recorded_def kept(4))
  ultimately show ?thesis using upd by (simp add: books_kept_def kept(4) del: ledger.simps)
qed

lemma CallbackRegister_books:
  assumes "books_kept st" and "CallbackRegister A model st = (ret, st')"
  shows "books_kept st'"
proof (cases "ret = ACL_SUCCESS")
  case True
  define c where "c = \<lparr> mr_model = model, mr_modelId = GetCurrentModelId st,
     mr_modelLabel = GetCurrentModelLabel st, mr_resources = [] \<rparr>"
  have *: "model \<noteq> 0" "map_of (rs_modelContexts st) model = None"
    "st' = st\<lparr> rs_log := CallRegisterDestroy model ACL_SUCCESS # rs_log st,
       rs_modelContexts := rs_modelContexts st @ [(model, c)] \<rparr>"
    using True assms(2) by (auto simp: CallbackRegister_def Let_def log_call_def c_def split: if_splits)
  have "model \<notin> fst ` set (rs_modelContexts st)" using *(2) by (simp add: map_of_eq_None_iff)
  moreover have "owned (CallRegisterDestroy model ACL_SUCCESS # rs_log st) q"
    if "q \<in> set (rs_modelContexts st)" for q
    using that assms(1) by (auto simp: books_kept_def intro: owned_mono)
  ultimately show ?thesis
    using assms(1) by (auto simp: books_kept_def recorded_def *(1,3) owned_def blocks_def c_def)
next
  case False
  then have "st' = st \<or> st' = st\<lparr> rs_log := CallRegisterDestroy model ret # rs_log st \<rparr>"
    using assms(2) by (auto simp: CallbackRegister_def Let_def log_call_def split: if_splits)
  then show ?thesis
    using assms(1) books_log[OF assms(1), of "CallRegisterDestroy model ret # rs_log st"] by auto
qed

section \<open>Every run keeps the ledger\<close>

text \<open>
  One step of the program or of the runtime towards it: an operation of the resource manager or of the
  model context, or the destruction of a model. Other calls only grow the history.
\<close>

inductive res_step :: "acl \<Rightarrow> res_state \<Rightarrow> res_state \<Rightarrow> bool" for A where
  set_model: "res_step A st (SetCurrentModel m st)"
| register: "CallbackRegister A m st = (ret, st') \<Longrightarrow> res_step A st st'"
| allocate: "ValueMemory A out st = (ret, out', st') \<Longrightarrow> res_step A st st'"
| destroy: "res_step A st (OnModelDestroy A m st)"
| enter: "NewModelContext A this m st = (ident, st') \<Longrightarrow> res_step A st st'"
| leave: "res_step A st (DropModelContext this st)"

inductive_cases res_stepE: "res_step A st st'"

lemma books_kept_cong:
  "rs_log st' = rs_log st \<Longrightarrow> rs_modelContexts st' = rs_modelContexts st \<Longrightarrow>
   books_kept st' \<longleftrightarrow> books_kept st"
  by (simp add: books_kept_def recorded_def)

lemma BuildModelIdentity_frame:
  assumes "BuildModelIdentity A m b st = (ident, st')"
  shows "rs_modelContexts st' = rs_modelContexts st \<and>
    (rs_log st' = rs_log st \<or> (\<exists>r. rs_log st' = CallGetModelId m r # rs_log st))"
  using assms
  by (auto simp: BuildModelIdentity_def GetRtsModelId_def Let_def split: if_splits option.splits)

lemma res_step_books:
  assumes "res_step A st st'" and "books_kept st"
  shows "books_kept st'"
  using assms
proof cases
  case (set_model m)
  then show ?thesis using assms(2) books_kept_cong[of st' st] by (simp add: SetCurrentModel_def)
next
  case (register m ret)
  then show ?thesis using CallbackRegister_books[OF assms(2)] by blast
next
  case (allocate out ret out')
  then show ?thesis using AllocForModel_books[OF assms(2)] unfolding ValueMemory_def by blast
next
  case (destroy m)
  then show ?thesis using OnModelDestroy_books[OF assms(2)] by blast
next
  case (enter this m ident)
  obtain st1 where b: "BuildModelIdentity A m True st = (ident, st1)" and
    st': "st' = st1\<lparr> rs_currentContext := Some (this, ident) \<rparr>"
    using enter by (auto simp: NewModelContext_def split: prod.splits)
  have "books_kept (st\<lparr> rs_log := rs_log st1 \<rparr>)"
    using BuildModelIdentity_frame[OF b] by (intro books_log[OF assms(2)]) auto
  then show ?thesis
    using BuildModelIdentity_frame[OF b] by (subst books_kept_cong[of _ "st\<lparr> rs_log := rs_log st1 \<rparr>"]) (auto simp: st')
next
  case (leave this)
  then show ?thesis
    using assms(2) books_kept_cong[of st' st] by (auto simp: DropModelContext_def split: option.splits)
qed

lemma res_steps_books:
  assumes "(res_step A)\<^sup>*\<^sup>* st st'" and "books_kept st"
  shows "books_kept st'"
  using assms by (induction rule: rtranclp_induct) (auto intro: res_step_books)

lemma books_kept_empty: "books_kept empty_res"
  by (simp add: books_kept_def empty_res_def recorded_def)

lemma destroy_all:
  assumes "books_kept st" and "fst ` set (rs_modelContexts st) \<subseteq> set ms"
  shows "rs_modelContexts (fold (OnModelDestroy A) ms st) = [] \<and>
    ledger (rs_log (fold (OnModelDestroy A) ms st)) = Some {#}"
  using assms
proof (induction ms arbitrary: st)
  case Nil
  then show ?case by (simp add: books_kept_def recorded_def)
next
  case (Cons m ms)
  have "fst ` set (rs_modelContexts (OnModelDestroy A m st)) \<subseteq> set ms"
    using OnModelDestroy_books[OF Cons.prems(1)] Cons.prems(2) by (auto simp: AList.delete_eq)
  with Cons.IH[of "OnModelDestroy A m st"] OnModelDestroy_books[OF Cons.prems(1)] show ?case by simp
qed

text \<open>
  C19 \<^bold>\<open>Which blocks are held, and which are lost.\<close> Whatever the runtime answers, after any run no block has
  been handed to \<^verbatim>\<open>aclrtFree\<close> twice, the device holds exactly the blocks recorded for the models and those
  whose free has failed, and each recorded model has its destroy callback registered. Once the runtime
  has destroyed those models, it still holds exactly the blocks whose free has failed, so nothing if every
  free succeeds.
\<close>

theorem resources_ledger:
  assumes "(res_step A)\<^sup>*\<^sup>* empty_res st"
  shows "ledger (rs_log st) = Some (recorded st) \<and> allocated (rs_log st) = recorded st + lost (rs_log st) \<and>
    distinct (map fst (rs_modelContexts st)) \<and>
    (\<forall>m\<in>set (map fst (rs_modelContexts st)). CallRegisterDestroy m ACL_SUCCESS \<in> set (rs_log st)) \<and>
    (let h = rs_log (fold (OnModelDestroy A) (map fst (rs_modelContexts st)) st)
     in ledger h = Some {#} \<and> allocated h = lost h)"
proof -
  have "books_kept st" using res_steps_books[OF assms books_kept_empty] .
  moreover have "ledger (rs_log (fold (OnModelDestroy A) (map fst (rs_modelContexts st)) st)) = Some {#}"
    using destroy_all[of st "map fst (rs_modelContexts st)" A] calculation by simp
  ultimately show ?thesis using ledger_allocated by (fastforce simp: Let_def books_kept_def owned_def)
qed

text \<open>A model is registered and gets two blocks.\<close>

definition sample_run :: res_state where
  "sample_run = (let st1 = snd (NewModelContext sample_acl 1 7 empty_res);
     st2 = snd (CallbackRegister sample_acl 7 (SetCurrentModel 7 st1));
     st3 = snd (snd (ValueMemory sample_acl (Some 0) st2))
   in snd (snd (ValueMemory sample_acl (Some 0) st3)))"

lemma sample_run_steps: "(res_step sample_acl)\<^sup>*\<^sup>* empty_res sample_run"
proof -
  let ?st1 = "snd (NewModelContext sample_acl 1 7 empty_res)"
  let ?st2 = "snd (CallbackRegister sample_acl 7 (SetCurrentModel 7 ?st1))"
  let ?st3 = "snd (snd (ValueMemory sample_acl (Some 0) ?st2))"
  have "res_step sample_acl empty_res ?st1" by (rule res_step.enter) (rule prod.collapse[symmetric])
  moreover have "res_step sample_acl ?st1 (SetCurrentModel 7 ?st1)" by (rule res_step.set_model)
  moreover have "res_step sample_acl (SetCurrentModel 7 ?st1) ?st2"
    by (rule res_step.register) (rule prod.collapse[symmetric])
  moreover have "res_step sample_acl s (snd (snd (ValueMemory sample_acl (Some 0) s)))" for s
    by (rule res_step.allocate[where out = "Some 0" and ret = "fst (ValueMemory sample_acl (Some 0) s)" and
        out' = "fst (snd (ValueMemory sample_acl (Some 0) s))"]) simp
  ultimately show ?thesis
    unfolding sample_run_def Let_def by (meson converse_rtranclp_into_rtranclp rtranclp.rtrancl_refl)
qed

lemma resources_ledger_witness:
  "allocated (rs_log sample_run) = {#4096, 4160#} \<and> recorded sample_run = {#4096, 4160#} \<and>
   allocated (rs_log (OnModelDestroy sample_acl 7 sample_run)) = {#} \<and>
   allocated (rs_log (OnModelDestroy (sample_acl\<lparr> rt_free := \<lambda>h a. ACL_ERROR_FAILURE \<rparr>) 7 sample_run)) = {#4096, 4160#}"
proof -
  have ctx: "map fst (rs_modelContexts sample_run) = [7]" "recorded sample_run = {#4096, 4160#}"
    "lost (rs_log sample_run) = {#}" "lost (rs_log (OnModelDestroy sample_acl 7 sample_run)) = {#}"
    "allocated (rs_log (OnModelDestroy (sample_acl\<lparr> rt_free := \<lambda>h a. ACL_ERROR_FAILURE \<rparr>) 7 sample_run)) = {#4096, 4160#}"
    by code_simp+
  then show ?thesis
    using resources_ledger[OF sample_run_steps] by (simp add: ctx Let_def)
qed

end
