(* ===== verification/Sk_Post.thy ===== *)
theory Sk_Post
  imports Sk_Scope Sk_Resource Sk_Graph_Scope
begin

text \<open>
  Postprocessing of a scope (\<^verbatim>\<open>sk_scope_postprocess.cpp\<close>). Of the nodes of the scope those stay that have
  to run: events between nodes of the scope are cancelled. One stream becomes the main stream, whose
  kernel launches the fused kernel; the other streams are stopped before it and released after it by
  writes and waits on words of device memory, which take the places of their first nodes.

  Indices of streams are the numbers of 32-bit words; a scope has fewer streams than that. A list that
  is indexed out of range faults.
\<close>

section \<open>Data\<close>

record stream_plan =
  pl_needFrontWait :: bool
  pl_needBackBlock :: bool
  pl_candidateNodeId :: node_id

definition default_plan :: stream_plan where
  "default_plan = \<lparr> pl_needFrontWait = False, pl_needBackBlock = False, pl_candidateNodeId = INVALID_TASK_ID \<rparr>"

section \<open>Searching a stream\<close>

text \<open>The node \<open>stepCount\<close> steps after the first, if the tail is not passed.\<close>

fun AdvanceNodeWithinScope :: "sk_graph \<Rightarrow> sk_node option \<Rightarrow> node_id \<Rightarrow> nat \<Rightarrow> sk_node option" where
  "AdvanceNodeWithinScope g None tail k = None"
| "AdvanceNodeWithinScope g (Some n) tail 0 = Some n"
| "AdvanceNodeWithinScope g (Some n) tail (Suc k) =
     (if nd_nodeId n = tail \<or> nd_nextNodeId n = INVALID_TASK_ID then None
      else AdvanceNodeWithinScope g (GetNodeById g (nd_nextNodeId n)) tail k)"

text \<open>The first kernel from a node to the tail, the tail included.\<close>

primrec find_kernel :: "nat \<Rightarrow> sk_graph \<Rightarrow> node_id \<Rightarrow> sk_node option \<Rightarrow> node_id run" where
  "find_kernel 0 g tail p = Inl OutOfFuel"
| "find_kernel (Suc fuel) g tail p = (case p of None \<Rightarrow> Inr INVALID_TASK_ID
     | Some n \<Rightarrow> if nd_nodeType n = NODE_KERNEL then Inr (nd_nodeId n)
         else if nd_nodeId n = tail \<or> nd_nextNodeId n = INVALID_TASK_ID then Inr INVALID_TASK_ID
         else find_kernel fuel g tail (GetNodeById g (nd_nextNodeId n)))"

definition walk_fuel :: "sk_graph \<Rightarrow> nat" where
  "walk_fuel g = Suc (Suc (length (sg_nodeIds g)))"

definition FindKernelNodeWithFrontReserve :: "sk_graph \<Rightarrow> sk_node option \<Rightarrow> node_id \<Rightarrow> nat \<Rightarrow> node_id run" where
  "FindKernelNodeWithFrontReserve g headNode tail reserve =
     find_kernel (walk_fuel g) g tail (AdvanceNodeWithinScope g headNode tail reserve)"

section \<open>Cancelled events\<close>

definition HasAddrValue :: "sk_node \<Rightarrow> bool" where
  "HasAddrValue n \<longleftrightarrow> nd_nodeType n \<in> {NODE_NOTIFY, NODE_WAIT, NODE_RESET} \<and>
     sy_addrValue (nd_syncInfos n) \<noteq> 0"

definition ShouldCancelNotify :: "sk_node \<Rightarrow> bool" where
  "ShouldCancelNotify n \<longleftrightarrow> \<not> HasAddrValue n \<or> GetCorrespondingWaitNodeIds n \<noteq> []"

text \<open>
  \<open>eventCounts\<close>: the waits the notify node of an event expects less those seen, as a signed 64-bit
  number. Reading an absent key enters it with 0.
\<close>

type_synonym event_counts = "(event_id \<times> u64) list"

definition event_count :: "event_counts \<Rightarrow> event_id \<Rightarrow> u64" where
  "event_count ec e = (case map_of ec e of None \<Rightarrow> 0 | Some c \<Rightarrow> c)"

definition count_event :: "sk_node \<Rightarrow> event_counts \<Rightarrow> event_counts" where
  "count_event n ec =
    (if nd_nodeType n = NODE_NOTIFY then AList.update (GetEventId n) (event_count ec (GetEventId n) +
         of_nat (length (sy_correspondingWaitNodeIds (nd_syncInfos n)))) ec
     else if nd_nodeType n = NODE_WAIT then AList.update (GetEventId n) (event_count ec (GetEventId n) - 1) ec
     else ec)"

definition is_cancelled :: "event_counts \<Rightarrow> sk_node \<Rightarrow> bool" where
  "is_cancelled ec n = (let e = GetEventId n in
     if nd_nodeType n = NODE_NOTIFY \<and> event_count ec e = 0 then ShouldCancelNotify n
     else if nd_nodeType n = NODE_RESET \<and> map_of ec e \<noteq> None \<and> event_count ec e = 0 then True
     else nd_nodeType n = NODE_WAIT \<and> 0 \<le>s event_count ec e)"

definition FilterCancelledNodes :: "sk_graph \<Rightarrow> node_id list \<Rightarrow> node_id list run" where
  "FilterCancelledNodes g nodes =
    bindR (foldR (\<lambda>i ec. bindR (derefR (GetNodeById g i)) (\<lambda>n. Inr (count_event n ec))) nodes []) (\<lambda>ec.
      foldR (\<lambda>i out. bindR (derefR (GetNodeById g i)) (\<lambda>n.
        Inr (if is_cancelled ec n \<or> nd_isScopeNode n then out else out @ [i]))) nodes [])"

definition GetKernelNodeCount :: "sk_graph \<Rightarrow> node_id list \<Rightarrow> nat run" where
  "GetKernelNodeCount g nodes = foldR (\<lambda>i c. bindR (derefR (GetNodeById g i)) (\<lambda>n.
     Inr (if nd_nodeType n = NODE_KERNEL then c + 1 else c))) nodes 0"

section \<open>Checks and plans\<close>

primrec validate_stream :: "nat \<Rightarrow> sk_graph \<Rightarrow> node_id \<Rightarrow> node_id \<Rightarrow> bool run" where
  "validate_stream 0 g tail i = Inl OutOfFuel"
| "validate_stream (Suc fuel) g tail i =
    (if i = INVALID_TASK_ID then Inr True
     else case GetNodeById g i of None \<Rightarrow> Inr False
       | Some n \<Rightarrow> if \<not> nd_isFusible n then Inr False
           else if i = tail then Inr True else validate_stream fuel g tail (nd_nextNodeId n))"

fun ValidateScopeStreamNodes :: "sk_graph \<Rightarrow> stream_info list \<Rightarrow> bool run" where
  "ValidateScopeStreamNodes g [] = Inr True"
| "ValidateScopeStreamNodes g (x # xs) =
     bindR (validate_stream (walk_fuel g) g (ss_tailNodeIdx x) (ss_headNodeIdx x)) (\<lambda>ok.
       if \<not> ok then Inr False else ValidateScopeStreamNodes g xs)"

text \<open>The plans of the streams and the number of those that wait in front; \<open>None\<close> is \<open>false\<close>.\<close>

definition boundary_plan :: "sk_graph \<Rightarrow> stream_info \<Rightarrow> stream_plan option" where
  "boundary_plan g x = (case (GetNodeById g (ss_headNodeIdx x), GetNodeById g (ss_tailNodeIdx x)) of
     (Some h, Some t) \<Rightarrow> Some (default_plan\<lparr> pl_needFrontWait := nd_preNodeId h \<noteq> INVALID_TASK_ID,
        pl_needBackBlock := nd_nextNodeId t \<noteq> INVALID_TASK_ID \<rparr>)
   | _ \<Rightarrow> None)"

fun CollectStreamBoundaryPlans :: "sk_graph \<Rightarrow> stream_info list \<Rightarrow> u32 \<Rightarrow> (stream_plan list \<times> u32) option" where
  "CollectStreamBoundaryPlans g [] cnt = Some ([], cnt)"
| "CollectStreamBoundaryPlans g (x # xs) cnt = (case boundary_plan g x of None \<Rightarrow> None
     | Some p \<Rightarrow> (case CollectStreamBoundaryPlans g xs (if pl_needFrontWait p then cnt + 1 else cnt) of
         None \<Rightarrow> None | Some (ps, cnt') \<Rightarrow> Some (p # ps, cnt')))"

section \<open>The main stream\<close>

record stream_candidates =
  cs_mainStream :: "nat list"
  cs_subStream :: "nat list"
  cs_subStreamEntry :: "nat list"

definition front_count :: "stream_plan \<Rightarrow> u32" where
  "front_count p = (if pl_needFrontWait p then 1 else 0)"

definition back_count :: "stream_plan \<Rightarrow> u32" where
  "back_count p = (if pl_needBackBlock p then 1 else 0)"

definition main_reserve :: "u32 \<Rightarrow> stream_plan \<Rightarrow> nat" where
  "main_reserve needFrontWaitCount p =
    (let other = (if needFrontWaitCount \<ge> front_count p then needFrontWaitCount - front_count p else 0)
     in if other > 0 then 1 else 0)"

definition sub_need :: "stream_plan \<Rightarrow> u32" where
  "sub_need p = 2 * front_count p + 2 * back_count p"

text \<open>One stream: its plan with the main candidate, and the candidates with it; \<open>None\<close> is \<open>false\<close>.\<close>

definition stream_candidate :: "sk_graph \<Rightarrow> u32 \<Rightarrow> nat \<Rightarrow> stream_info \<Rightarrow> stream_plan \<Rightarrow> stream_candidates \<Rightarrow>
    (stream_plan \<times> stream_candidates) option run" where
  "stream_candidate g needFrontWaitCount i x p c =
    bindR (FindKernelNodeWithFrontReserve g (GetNodeById g (ss_headNodeIdx x)) (ss_tailNodeIdx x)
        (main_reserve needFrontWaitCount p)) (\<lambda>k.
      let isMain = (k \<noteq> INVALID_TASK_ID);
          isSub = (ucast (sub_need p) \<le> ss_nodeSize x);
          isEntry = (ucast (sub_need p - front_count p) \<le> ss_nodeSize x);
          c1 = (if isMain then c\<lparr> cs_mainStream := cs_mainStream c @ [i] \<rparr> else c);
          c2 = (if isSub then c1\<lparr> cs_subStream := cs_subStream c1 @ [i] \<rparr> else c1);
          c3 = (if isEntry then c2\<lparr> cs_subStreamEntry := cs_subStreamEntry c2 @ [i] \<rparr> else c2)
      in Inr (if \<not> isMain \<and> \<not> isSub \<and> \<not> isEntry then None
              else Some (if isMain then p\<lparr> pl_candidateNodeId := k \<rparr> else p, c3)))"

fun CollectStreamCandidates :: "sk_graph \<Rightarrow> u32 \<Rightarrow> nat \<Rightarrow> stream_info list \<Rightarrow> stream_plan list \<Rightarrow>
    stream_candidates \<Rightarrow> (stream_plan list \<times> stream_candidates) option run" where
  "CollectStreamCandidates g cnt i (x # xs) (p # ps) c =
     bindR (stream_candidate g cnt i x p c) (\<lambda>r. case r of None \<Rightarrow> Inr None
       | Some (p', c') \<Rightarrow> bindR (CollectStreamCandidates g cnt (Suc i) xs ps c') (\<lambda>r'.
           Inr (map_option (\<lambda>(ps', c''). (p' # ps', c'')) r')))"
| "CollectStreamCandidates g cnt i [] ps c = Inr (Some (ps, c))"
| "CollectStreamCandidates g cnt i (x # xs) [] c = Inl OutOfRange"

definition pair_fits :: "stream_candidates \<Rightarrow> nat \<Rightarrow> nat \<times> nat \<Rightarrow> bool" where
  "pair_fits c streamCount = (\<lambda>(m, e). e \<noteq> m \<and>
     length (cs_subStream c) + (if m \<in> set (cs_subStream c) then 0 else 1) +
       (if e \<in> set (cs_subStream c) then 0 else 1) = streamCount)"

text \<open>The first pair in the order of the nested loops.\<close>

definition SelectMainAndEntryStream :: "stream_candidates \<Rightarrow> nat \<Rightarrow> (nat \<times> nat) option" where
  "SelectMainAndEntryStream c streamCount =
     List.find (pair_fits c streamCount) (List.product (cs_mainStream c) (cs_subStreamEntry c))"

definition BuildSubStreamOrder :: "stream_candidates \<Rightarrow> nat \<Rightarrow> nat \<Rightarrow> nat list" where
  "BuildSubStreamOrder c m e = filter (\<lambda>i. i \<noteq> m \<and> i \<noteq> e) (cs_subStream c) @ [e]"

text \<open>
  The main stream, the order of the others and the plans; with one stream the index of the main stream
  keeps its initial value and is not used. \<open>Inl\<close> of a status is \<open>false\<close>.
\<close>

type_synonym 'a checked = "scope_process_status + 'a"

definition GetMainAndSubStreamOrder :: "sk_graph \<Rightarrow> stream_plan list \<Rightarrow> stream_info list \<Rightarrow> u32 \<Rightarrow>
    (node_id \<times> nat \<times> nat list \<times> stream_plan list) checked run" where
  "GetMainAndSubStreamOrder g plans infos cnt =
    bindR (CollectStreamCandidates g cnt 0 infos plans
        \<lparr> cs_mainStream = [], cs_subStream = [], cs_subStreamEntry = [] \<rparr>) (\<lambda>r.
      case r of None \<Rightarrow> Inr (Inl RESOURCE_INSUFFICIENT)
      | Some (plans1, c) \<Rightarrow>
          if length infos = 1 then
            bindR (atR plans1 0) (\<lambda>p. Inr (if pl_candidateNodeId p \<noteq> INVALID_TASK_ID
              then Inr (pl_candidateNodeId p, unat INVALID_STREAM_ID, [], plans1) else Inl NO_TARGET_NODE))
          else (case SelectMainAndEntryStream c (length infos) of
              None \<Rightarrow> Inr (Inl NO_TARGET_NODE)
            | Some (m, e) \<Rightarrow> bindR (atR plans1 m) (\<lambda>p.
                Inr (Inr (pl_candidateNodeId p, m, BuildSubStreamOrder c m e, plans1)))))"

section \<open>Waits and writes between the streams\<close>

text \<open>What the loop over the other streams changes; \<open>wk_prev\<close> is the stream that waits for the next one.\<close>

record sync_work =
  wk_params :: "task_value list list"
  wk_eventNodes :: "sk_node list"
  wk_needFrontWaitCount :: u32
  wk_prev :: nat
  wk_res :: res_state

definition WAIT_FLAG_EQ :: u32 where "WAIT_FLAG_EQ = 1"

text \<open>A fresh word of device memory, if the allocation succeeds with an address that is not null.\<close>

definition value_word :: "acl \<Rightarrow> res_state \<Rightarrow> u64 option \<times> res_state" where
  "value_word A st = (let (ret, out, st') = ValueMemory A (Some 0) st in
     (if ret \<noteq> ACL_SUCCESS \<or> out = Some 0 then None else out, st'))"

text \<open>The node made for an event that no task stands for.\<close>

definition event_node :: "rt_node_type \<Rightarrow> sk_node_type \<Rightarrow> u32 \<Rightarrow> node_id \<Rightarrow> u64 \<Rightarrow> sk_node" where
  "event_node rt ty streamIdx lastNodeId addr =
     (let n = CreateNode rt INVALID_TASK_ID (ucast streamIdx) (sint INVALID_STREAM_ID) lastNodeId
      in n\<lparr> nd_nodeType := ty,
            nd_syncInfos := (nd_syncInfos n)\<lparr> sy_eventId := addr, sy_addrValue := addr \<rparr> \<rparr>)"

definition EnsureStreamCapacity :: "stream_info \<Rightarrow> task_value list \<Rightarrow> bool" where
  "EnsureStreamCapacity x ps \<longleftrightarrow> length ps \<le> unat (ss_nodeSize x)"

definition ProcessFrontWaitForStream ::
  "acl \<Rightarrow> stream_info list \<Rightarrow> nat \<Rightarrow> node_id \<Rightarrow> sync_work \<Rightarrow> (bool \<times> sync_work) run" where
  "ProcessFrontWaitForStream A infos cur lastNodeId w = bindR (atR infos cur) (\<lambda>x.
     let (word, rs) = value_word A (wk_res w);
         w1 = w\<lparr> wk_needFrontWaitCount := wk_needFrontWaitCount w - 1, wk_res := rs \<rparr>
     in case word of None \<Rightarrow> Inr (False, w1)
     | Some addr \<Rightarrow>
         let w2 = w1\<lparr> wk_eventNodes := wk_eventNodes w1 @
               [event_node RI_TASK_EVENT_RESET NODE_RESET (ss_streamIdx x) lastNodeId addr] \<rparr>
         in bindR (atR (wk_params w2) cur) (\<lambda>ps.
            let l1 = (wk_params w2)[cur := ps @ [ValueWrite addr SK_DEFAULT_NOTIFY_VALUE]]
            in bindR (atR l1 (wk_prev w2)) (\<lambda>qs.
               let l2 = l1[wk_prev w2 := ValueWait addr SK_DEFAULT_WAIT_VALUE WAIT_FLAG_EQ # qs];
                   w3 = w2\<lparr> wk_params := l2 \<rparr>
               in bindR (atR infos (wk_prev w2)) (\<lambda>y.
                  if \<not> EnsureStreamCapacity x (l2 ! cur) \<or> \<not> EnsureStreamCapacity y (l2 ! wk_prev w2)
                  then Inr (False, w3) else Inr (True, w3\<lparr> wk_prev := cur \<rparr>)))))"

definition ProcessBackBlockForStream ::
  "acl \<Rightarrow> stream_info list \<Rightarrow> nat \<Rightarrow> node_id \<Rightarrow> sync_work \<Rightarrow> (bool \<times> sync_work) run" where
  "ProcessBackBlockForStream A infos cur lastNodeId w = bindR (atR infos cur) (\<lambda>x.
     let (word, rs) = value_word A (wk_res w);
         w1 = w\<lparr> wk_res := rs \<rparr>
     in case word of None \<Rightarrow> Inr (False, w1)
     | Some addr \<Rightarrow>
         let w2 = w1\<lparr> wk_eventNodes := wk_eventNodes w1 @
               [event_node RI_TASK_EVENT_RECORD NODE_NOTIFY (ss_streamIdx x) lastNodeId addr] \<rparr>
         in bindR (atR (wk_params w2) cur) (\<lambda>ps.
            let l1 = (wk_params w2)[cur := ps @ [ValueWait addr SK_DEFAULT_WAIT_VALUE WAIT_FLAG_EQ,
                  ValueWrite addr SK_DEFAULT_RESET_VALUE]]
            in Inr (EnsureStreamCapacity x (l1 ! cur), w2\<lparr> wk_params := l1 \<rparr>)))"

definition sync_stream ::
  "acl \<Rightarrow> stream_info list \<Rightarrow> stream_plan list \<Rightarrow> node_id \<Rightarrow> nat \<Rightarrow> sync_work \<Rightarrow> (bool \<times> sync_work) run" where
  "sync_stream A infos plans lastNodeId cur w = bindR (atR plans cur) (\<lambda>p.
     bindR (if pl_needFrontWait p then ProcessFrontWaitForStream A infos cur lastNodeId w else Inr (True, w))
       (\<lambda>(ok, w1). if \<not> ok then Inr (False, w1)
          else if pl_needBackBlock p then ProcessBackBlockForStream A infos cur lastNodeId w1
          else Inr (True, w1)))"

fun ProcessSubStreamSyncEvents ::
  "acl \<Rightarrow> stream_info list \<Rightarrow> stream_plan list \<Rightarrow> node_id \<Rightarrow> nat list \<Rightarrow> sync_work \<Rightarrow> (bool \<times> sync_work) run" where
  "ProcessSubStreamSyncEvents A infos plans lastNodeId [] w = Inr (True, w)"
| "ProcessSubStreamSyncEvents A infos plans lastNodeId (cur # order) w =
     bindR (sync_stream A infos plans lastNodeId cur w) (\<lambda>(ok, w1).
       if ok then ProcessSubStreamSyncEvents A infos plans lastNodeId order w1 else Inr (False, w1))"

section \<open>Memory for the events that stay\<close>

text \<open>The entry of the event of a node, if it is complete.\<close>

definition ValidateEventInfo :: "sk_graph \<Rightarrow> sk_node \<Rightarrow> event_infos option" where
  "ValidateEventInfo g n = (case map_of (sg_eventToNodes g) (GetEventId n) of None \<Rightarrow> None
     | Some e \<Rightarrow> if ei_notifyNodeId e = INVALID_TASK_ID \<or> ei_waitNodeIdList e = [] \<or> ei_resetNodeIdList e = []
         then None else Some e)"

definition AllocateEventMemory :: "acl \<Rightarrow> u64 \<Rightarrow> res_state \<Rightarrow> u64 option \<times> res_state" where
  "AllocateEventMemory A addr st = (if addr \<noteq> 0 then (Some addr, st) else value_word A st)"

text \<open>The state is the graph with the list of nodes that need an update.\<close>

definition set_addrValue :: "u64 \<Rightarrow> sk_node \<Rightarrow> sk_node" where
  "set_addrValue addr n = n\<lparr> nd_syncInfos := (nd_syncInfos n)\<lparr> sy_addrValue := addr \<rparr> \<rparr>"

definition UpdateEventNodeAddr :: "u64 \<Rightarrow> node_id \<Rightarrow> sk_graph \<times> node_id list \<Rightarrow> bool \<times> sk_graph \<times> node_id list" where
  "UpdateEventNodeAddr addr i = (\<lambda>(g, need). case GetNodeById g i of None \<Rightarrow> (False, g, need)
     | Some n \<Rightarrow> (True, upd_node i (set_addrValue addr) g, need @ [i]))"

definition ApplyEventMemoryResource :: "acl \<Rightarrow> sk_node \<Rightarrow> (sk_graph \<times> node_id list) \<times> res_state \<Rightarrow>
    bool \<times> (sk_graph \<times> node_id list) \<times> res_state" where
  "ApplyEventMemoryResource A n = (\<lambda>((g, need), rs). case ValidateEventInfo g n of
     None \<Rightarrow> (False, (g, need), rs)
   | Some e \<Rightarrow> (case AllocateEventMemory A (sy_addrValue (nd_syncInfos n)) rs of
       (None, rs1) \<Rightarrow> (False, (g, need), rs1)
     | (Some addr, rs1) \<Rightarrow>
         let (ok, s) = all_ok (UpdateEventNodeAddr addr)
           (ei_notifyNodeId e # ei_waitNodeIdList e @ ei_resetNodeIdList e) (g, need)
         in (ok \<and> addr \<noteq> 0, s, rs1)))"

fun ApplyEventMemoryForFilteredNodes :: "acl \<Rightarrow> node_id list \<Rightarrow> (sk_graph \<times> node_id list) \<times> res_state \<Rightarrow>
    (bool \<times> (sk_graph \<times> node_id list) \<times> res_state) run" where
  "ApplyEventMemoryForFilteredNodes A [] s = Inr (True, s)"
| "ApplyEventMemoryForFilteredNodes A (i # is) s = bindR (derefR (GetNodeById (fst (fst s)) i)) (\<lambda>n.
     if nd_nodeType n \<in> {NODE_NOTIFY, NODE_WAIT, NODE_RESET} \<and> \<not> HasAddrValue n
     then let (ok, s1) = ApplyEventMemoryResource A n s
       in if ok then ApplyEventMemoryForFilteredNodes A is s1 else Inr (False, s1)
     else ApplyEventMemoryForFilteredNodes A is s)"

section \<open>The whole\<close>

definition ExpandUpdateNodes :: "node_id list \<Rightarrow> sk_graph \<Rightarrow> sk_graph" where
  "ExpandUpdateNodes need g = fold need_update need g"

definition set_status :: "scope_process_status \<Rightarrow> sk_scope \<Rightarrow> sk_scope" where
  "set_status s sc = sc\<lparr> sc_ext := (sc_ext sc)\<lparr> ex_processStatus := s \<rparr> \<rparr>"

text \<open>
  \<open>FinalizePostProcess\<close>. The name of the scope in the new record is empty, its status before the last
  assignment is that of a fresh record.
\<close>

definition FinalizePostProcess :: "scope_ext \<Rightarrow> node_id list \<Rightarrow> sk_scope \<Rightarrow> sk_graph \<Rightarrow> sk_scope \<times> sk_graph" where
  "FinalizePostProcess ext need sc g =
     (set_status SPS_SUCCESS (sc\<lparr> sc_ext := ext \<rparr>), ExpandUpdateNodes need g)"

text \<open>A run that is cut off with \<open>false\<close> sets the status and leaves the rest of the fresh record.\<close>

definition PostProcess :: "acl \<Rightarrow> sk_scope \<Rightarrow> sk_graph \<Rightarrow> res_state \<Rightarrow>
    (bool \<times> sk_scope \<times> sk_graph \<times> res_state) run" where
  "PostProcess A sc0 g rs =
    (let sc = sc0\<lparr> sc_ext := default_ext \<rparr>; infos = sc_streamInfos sc in
     bindR (ValidateScopeStreamNodes g infos) (\<lambda>valid.
     if \<not> valid then Inr (False, set_status UNRECOVERABLE_FAIL sc, g, rs) else
     bindR (FilterCancelledNodes g (sc_nodes sc)) (\<lambda>filtered.
     if filtered = [] then Inr (False, set_status NO_TARGET_NODE sc, g, rs) else
     bindR (GetKernelNodeCount g filtered) (\<lambda>kernels.
     if kernels = 0 then Inr (False, set_status NO_TARGET_NODE sc, g, rs) else
     (case CollectStreamBoundaryPlans g infos 0 of
        None \<Rightarrow> Inr (False, set_status UNRECOVERABLE_FAIL sc, g, rs)
      | Some (plans, cnt) \<Rightarrow>
     bindR (GetMainAndSubStreamOrder g plans infos cnt) (\<lambda>chosen.
     (case chosen of Inl status \<Rightarrow> Inr (False, set_status status sc, g, rs)
      | Inr (mainNode, m, order, plans1) \<Rightarrow>
     bindR (derefR (GetNodeById g (last filtered))) (\<lambda>lastNode.
     bindR (ProcessSubStreamSyncEvents A infos plans1 (nd_nodeId lastNode) order
         \<lparr> wk_params = replicate (length infos) [], wk_eventNodes = [], wk_needFrontWaitCount = cnt,
           wk_prev = m, wk_res = rs \<rparr>) (\<lambda>(ok, w).
     if \<not> ok then Inr (False, set_status RESOURCE_INSUFFICIENT sc, g, wk_res w) else
     bindR (ApplyEventMemoryForFilteredNodes A filtered ((g, []), wk_res w)) (\<lambda>(ok, ((g1, need), rs1)).
     if \<not> ok then Inr (False, set_status UNRECOVERABLE_FAIL sc, g1, rs1) else
     let (sc', g2) = FinalizePostProcess
       (default_ext\<lparr> ex_customParamsList := wk_params w, ex_filteredNodes := filtered,
          ex_eventNodes := wk_eventNodes w, ex_skMainNodeId := mainNode \<rparr>) need sc g1
     in Inr (True, sc', g2, rs1)))))))))))"

end
