(* ===== verification/Sk_Update.thy ===== *)
theory Sk_Update
  imports Sk_Post
begin

text \<open>
  Writing the result back into the model: the \<open>Update\<close> of the three classes of nodes (\<^verbatim>\<open>sk_node.cpp\<close>), of a
  scope (\<^verbatim>\<open>sk_optimizer.cpp\<close>) and of the graph (\<^verbatim>\<open>sk_graph.cpp\<close>). A task of the runtime is named by the id
  of its node; what is done to the tasks is read off the history of calls. The parameters a node keeps of
  its own task are needed only for their launch configuration, which is that of the kernel record.
\<close>

section \<open>Calls\<close>

definition aclmdlRITaskSetParams :: "acl \<Rightarrow> node_id \<Rightarrow> task_value \<Rightarrow> res_state \<Rightarrow> acl_error \<times> res_state" where
  "aclmdlRITaskSetParams A i t st =
     (let r = rt_setParams A (rs_log st) i t in (r, log_call (CallSetParams i t r) st))"

definition aclmdlRITaskDisable :: "acl \<Rightarrow> node_id \<Rightarrow> res_state \<Rightarrow> acl_error \<times> res_state" where
  "aclmdlRITaskDisable A i st = (let r = rt_disable A (rs_log st) i in (r, log_call (CallDisable i r) st))"

definition aclmdlRIUpdate :: "acl \<Rightarrow> res_state \<Rightarrow> acl_error \<times> res_state" where
  "aclmdlRIUpdate A st = (let r = rt_modelUpdate A (rs_log st) in (r, log_call (CallModelUpdate r) st))"

section \<open>The context of an update\<close>

text \<open>What of the launch data an update reads; \<open>li_devArgs\<close> is the pointer and the size behind it.\<close>

record launch_info =
  li_skEntryFunc :: u64
  li_numBlocks :: u32
  li_devArgs :: "(u64 \<times> u64) option"
  li_cacheInfo :: u64
  li_cacheopInfoSize :: u64
  li_minAvailableUbufSize :: u64
  li_hasMinAvailableUbufSize :: bool

record update_context =
  uc_launchInfo :: "launch_info option"
  uc_customParams :: "task_value option"

definition no_context :: update_context where
  "no_context = \<lparr> uc_launchInfo = None, uc_customParams = None \<rparr>"

section \<open>Nodes\<close>

text \<open>The flag is set even where the update fails afterwards.\<close>

definition BaseUpdate :: "sk_node \<Rightarrow> bool \<times> sk_node" where
  "BaseUpdate n = (if nd_isUpdate n then (False, n) else (True, n\<lparr> nd_isUpdate := True \<rparr>))"

definition InValidateNode :: "acl \<Rightarrow> sk_node \<Rightarrow> res_state \<Rightarrow> acl_error \<times> sk_node \<times> res_state" where
  "InValidateNode A n st =
    (if nd_class n = DefaultNode then (ACL_ERROR_FAILURE, n, st)
     else let (r, st1) = aclmdlRITaskDisable A (nd_nodeId n) st in
       (r, if r = ACL_SUCCESS then n\<lparr> nd_isInvalidated := True \<rparr> else n, st1))"

text \<open>Values to write or to wait for need an address; other tasks are passed on.\<close>

definition custom_ok :: "task_value \<Rightarrow> bool" where
  "custom_ok t = (case t of ValueWrite a v \<Rightarrow> a \<noteq> 0 | ValueWait a v f \<Rightarrow> a \<noteq> 0 | _ \<Rightarrow> True)"

definition is_dyn_ubuf :: "launch_attr \<Rightarrow> bool" where
  "is_dyn_ubuf a = (case a of DynUBufSize s \<Rightarrow> True | _ \<Rightarrow> False)"

text \<open>The attributes of the launch; \<open>None\<close> is \<open>false\<close>. The test against the range of 32 bits is the code's.\<close>

definition SetupLaunchKernelCfgWithDynUbuf :: "acl \<Rightarrow> u64 \<Rightarrow> u64 \<Rightarrow> u64 \<Rightarrow> launch_attr list option" where
  "SetupLaunchKernelCfgWithDynUbuf A cfg funcHandle minAvailable =
    (let origin = (case rt_launchAttrs A cfg of None \<Rightarrow> [] | Some as \<Rightarrow> filter (\<lambda>a. \<not> is_dyn_ubuf a) as)
     in case rt_allocUbuf A funcHandle of None \<Rightarrow> None
     | Some alloc \<Rightarrow>
         if minAvailable > SK_TOTAL_UB_SIZE \<or> ucast alloc > SK_TOTAL_UB_SIZE - minAvailable then None
         else let final = SK_TOTAL_UB_SIZE - minAvailable - ucast alloc
           in if final > ucast UINT32_MAX then None else Some (origin @ [DynUBufSize (ucast final)]))"

definition launch_cfg :: "acl \<Rightarrow> sk_node \<Rightarrow> launch_info \<Rightarrow> launch_attr list option option" where
  "launch_cfg A n li = (let cfg = ki_launchKernelCfg (nd_kernelInfos n) in
     if li_hasMinAvailableUbufSize li
     then map_option Some (SetupLaunchKernelCfgWithDynUbuf A cfg (li_skEntryFunc li) (li_minAvailableUbufSize li))
     else Some (rt_launchAttrs A cfg))"

definition launch_of :: "launch_info \<Rightarrow> u64 \<times> u64 \<Rightarrow> launch_attr list option \<Rightarrow> launch_task" where
  "launch_of li args cfg = \<lparr> lt_funcHandle = li_skEntryFunc li, lt_args = fst args, lt_argsSize = snd args,
     lt_isHostArgs = True, lt_numBlocks = li_numBlocks li, lt_opInfoPtr = li_cacheInfo li,
     lt_opInfoSize = li_cacheopInfoSize li, lt_cfg = cfg \<rparr>"

definition invalidate :: "acl \<Rightarrow> sk_node \<Rightarrow> res_state \<Rightarrow> bool \<times> sk_node \<times> res_state" where
  "invalidate A n st = (let (r, n1, st1) = InValidateNode A n st in (r = ACL_SUCCESS, n1, st1))"

definition set_params :: "acl \<Rightarrow> sk_node \<Rightarrow> task_value \<Rightarrow> res_state \<Rightarrow> bool \<times> sk_node \<times> res_state" where
  "set_params A n t st = (let (r, st1) = aclmdlRITaskSetParams A (nd_nodeId n) t st in (r = ACL_SUCCESS, n, st1))"

definition custom_update :: "acl \<Rightarrow> sk_node \<Rightarrow> task_value \<Rightarrow> res_state \<Rightarrow> bool \<times> sk_node \<times> res_state" where
  "custom_update A n t st = (if custom_ok t then set_params A n t st else (False, n, st))"

definition has_custom :: "update_context \<Rightarrow> bool" where
  "has_custom ctx \<longleftrightarrow> uc_customParams ctx \<noteq> None \<and> uc_customParams ctx \<noteq> Some NoTask"

definition KernelUpdate :: "acl \<Rightarrow> update_context \<Rightarrow> sk_node \<Rightarrow> res_state \<Rightarrow> (bool \<times> sk_node \<times> res_state) run" where
  "KernelUpdate A ctx n0 st = (let (ok, n) = BaseUpdate n0 in
     if \<not> ok then Inr (False, n, st)
     else if has_custom ctx then Inr (custom_update A n (the (uc_customParams ctx)) st)
     else (case uc_launchInfo ctx of
         Some li \<Rightarrow> if li_skEntryFunc li = 0 then Inr (invalidate A n st)
           else bindR (derefR (li_devArgs li)) (\<lambda>args.
             case launch_cfg A n li of None \<Rightarrow> Inr (False, n, st)
             | Some cfg \<Rightarrow> Inr (set_params A n (KernelTask (launch_of li args cfg)) st))
       | None \<Rightarrow> Inr (invalidate A n st)))"

definition MemoryUpdate :: "acl \<Rightarrow> update_context \<Rightarrow> sk_node \<Rightarrow> res_state \<Rightarrow> bool \<times> sk_node \<times> res_state" where
  "MemoryUpdate A ctx n0 st = (let (ok, n) = BaseUpdate n0 in
     if \<not> ok then (False, n, st)
     else if has_custom ctx then custom_update A n (the (uc_customParams ctx)) st
     else invalidate A n st)"

text \<open>The class of default nodes has no \<open>Update\<close> of its own.\<close>

definition NodeUpdate :: "acl \<Rightarrow> update_context \<Rightarrow> sk_node \<Rightarrow> res_state \<Rightarrow> (bool \<times> sk_node \<times> res_state) run" where
  "NodeUpdate A ctx n st = (case nd_class n of
     KernelNode \<Rightarrow> KernelUpdate A ctx n st
   | MemoryNode \<Rightarrow> Inr (MemoryUpdate A ctx n st)
   | DefaultNode \<Rightarrow> (let (ok, n1) = BaseUpdate n in Inr (ok, n1, st)))"

section \<open>A scope\<close>

text \<open>The state of the loop: whether the launch is placed, the graph, the runtime.\<close>

type_synonym update_state = "bool \<times> sk_graph \<times> res_state"

definition node_context :: "task_value list \<Rightarrow> node_id \<Rightarrow> launch_info \<Rightarrow> bool \<Rightarrow> node_id \<Rightarrow> update_context \<times> bool" where
  "node_context params mainNode li updated i = (case params of
     p # _ \<Rightarrow> (no_context\<lparr> uc_customParams := Some p \<rparr>, updated)
   | [] \<Rightarrow> if i = mainNode \<and> \<not> updated then (no_context\<lparr> uc_launchInfo := Some li \<rparr>, True)
          else (no_context, updated))"

primrec update_stream :: "nat \<Rightarrow> acl \<Rightarrow> node_id \<Rightarrow> launch_info \<Rightarrow> node_id \<Rightarrow> task_value list \<Rightarrow> node_id \<Rightarrow>
    update_state \<Rightarrow> (bool \<times> update_state) run" where
  "update_stream 0 A mainNode li tail params i s = Inl OutOfFuel"
| "update_stream (Suc fuel) A mainNode li tail params i s = (let (updated, g, st) = s in
     if i = INVALID_TASK_ID then Inr (True, s)
     else case GetNodeById g i of None \<Rightarrow> Inr (False, s)
     | Some n \<Rightarrow> (let (ctx, updated1) = node_context params mainNode li updated i in
         bindR (NodeUpdate A ctx n st) (\<lambda>(ok, n1, st1).
           let s1 = (updated1, upd_node i (\<lambda>_. n1) g, st1) in
           if \<not> ok then Inr (False, s1)
           else if i = tail then Inr (True, s1)
           else update_stream fuel A mainNode li tail (List.tl params) (nd_nextNodeId n) s1)))"

fun update_streams :: "acl \<Rightarrow> scope_ext \<Rightarrow> launch_info \<Rightarrow> nat \<Rightarrow> stream_info list \<Rightarrow> update_state \<Rightarrow> (bool \<times> update_state) run" where
  "update_streams A ext li k [] s = Inr (True, s)"
| "update_streams A ext li k (x # xs) s = bindR (atR (ex_customParamsList ext) k) (\<lambda>params.
     if unat (ss_nodeSize x) < length params then Inr (False, s)
     else bindR (update_stream (walk_fuel (fst (snd s))) A (ex_skMainNodeId ext) li (ss_tailNodeIdx x) params
         (ss_headNodeIdx x) s) (\<lambda>(ok, s1).
       if ok then update_streams A ext li (Suc k) xs s1 else Inr (False, s1)))"

definition OptimizerUpdate :: "acl \<Rightarrow> sk_scope \<Rightarrow> sk_graph \<Rightarrow> launch_info \<Rightarrow> res_state \<Rightarrow> (bool \<times> sk_graph \<times> res_state) run" where
  "OptimizerUpdate A sc g li st =
     bindR (update_streams A (sc_ext sc) li 0 (sc_streamInfos sc) (False, g, st)) (\<lambda>(ok, updated, g1, st1).
       if \<not> ok \<or> \<not> updated then Inr (False, g1, st1) else Inr (True, g1\<lparr> sg_needUpdate := True \<rparr>, st1))"

section \<open>The graph\<close>

text \<open>The task an event node gets, \<open>None\<close> for the types that are not supported.\<close>

definition event_task :: "sk_node \<Rightarrow> task_value option" where
  "event_task n = (let addr = sy_addrValue (nd_syncInfos n) in case nd_nodeType n of
     NODE_NOTIFY \<Rightarrow> Some (ValueWrite addr (ResolveEventValue n))
   | NODE_WAIT \<Rightarrow> Some (ValueWait addr (ResolveEventValue n) (ResolveEventWaitFlag n))
   | NODE_RESET \<Rightarrow> Some (ValueWrite addr (ResolveEventValue n))
   | NODE_KERNEL \<Rightarrow> Some NoTask
   | _ \<Rightarrow> None)"

fun update_events :: "acl \<Rightarrow> node_id list \<Rightarrow> sk_graph \<times> res_state \<Rightarrow> (bool \<times> sk_graph \<times> res_state) run" where
  "update_events A [] s = Inr (True, s)"
| "update_events A (i # is) (g, st) = (case GetNodeById g i of None \<Rightarrow> Inr (False, g, st)
     | Some n \<Rightarrow> if nd_isUpdate n then update_events A is (g, st)
         else (case event_task n of None \<Rightarrow> Inr (False, g, st)
         | Some t \<Rightarrow> bindR (NodeUpdate A (no_context\<lparr> uc_customParams := Some t \<rparr>) n st) (\<lambda>(ok, n1, st1).
             if ok then update_events A is (upd_node i (\<lambda>_. n1) g, st1) else Inr (False, upd_node i (\<lambda>_. n1) g, st1))))"

text \<open>
  The code loops over an unordered set: \<open>order\<close> is the order in which the set yields its nodes, which
  nothing in the code determines.
\<close>

definition GraphUpdate :: "acl \<Rightarrow> node_id list \<Rightarrow> sk_graph \<Rightarrow> res_state \<Rightarrow> (acl_error \<times> sk_graph \<times> res_state) run" where
  "GraphUpdate A order g st =
    (if \<not> sg_needUpdate g \<and> sg_needUpdateNodes g = {} then Inr (ACL_SUCCESS, g, st)
     else bindR (update_events A order (g, st)) (\<lambda>(ok, g1, st1).
       if \<not> ok then Inr (ACL_ERROR_FAILURE, g1, st1)
       else let (r, st2) = aclmdlRIUpdate A st1 in Inr (r, g1, st2)))"

end
