(* ===== verification/Sk_Post_Sound.thy ===== *)
theory Sk_Post_Sound
  imports Sk_Post
begin

text \<open>
  What postprocessing establishes: which nodes it cancels, that the choice of the main stream fails only
  where no choice exists, and that the waits and writes it puts on the streams make the fused kernel
  start after every stream has arrived, let no stream leave before it ends, never block for ever and
  leave the words of memory as they found them.
\<close>

section \<open>The candidates\<close>

definition sub_ok :: "stream_info \<Rightarrow> stream_plan \<Rightarrow> bool" where
  "sub_ok x p \<longleftrightarrow> ucast (sub_need p) \<le> ss_nodeSize x"

definition entry_ok :: "stream_info \<Rightarrow> stream_plan \<Rightarrow> bool" where
  "entry_ok x p \<longleftrightarrow> ucast (sub_need p - front_count p) \<le> ss_nodeSize x"

definition plan_with :: "node_id \<Rightarrow> stream_plan \<Rightarrow> stream_plan" where
  "plan_with k p = (if k \<noteq> INVALID_TASK_ID then p\<lparr> pl_candidateNodeId := k \<rparr> else p)"

lemma plan_with_simps [simp]:
  "pl_needFrontWait (plan_with k p) = pl_needFrontWait p"
  "pl_needBackBlock (plan_with k p) = pl_needBackBlock p"
  "front_count (plan_with k p) = front_count p" "sub_need (plan_with k p) = sub_need p"
  by (simp_all add: plan_with_def front_count_def sub_need_def back_count_def)

lemma sub_ok_iff: "sub_ok x p \<longleftrightarrow>
    (if pl_needFrontWait p then 2 else 0) + (if pl_needBackBlock p then 2 else 0) \<le> unat (ss_nodeSize x)"
  by (cases "pl_needFrontWait p"; cases "pl_needBackBlock p")
    (simp_all add: sub_ok_def sub_need_def front_count_def back_count_def word_le_nat_alt, arith+)

lemma entry_ok_iff: "entry_ok x p \<longleftrightarrow>
    (if pl_needFrontWait p then 1 else 0) + (if pl_needBackBlock p then 2 else 0) \<le> unat (ss_nodeSize x)"
  by (cases "pl_needFrontWait p"; cases "pl_needBackBlock p")
    (simp_all add: entry_ok_def sub_need_def front_count_def back_count_def word_le_nat_alt, arith+)

lemma sub_ok_entry_ok: "sub_ok x p \<Longrightarrow> entry_ok x p"
  by (auto simp: sub_ok_iff entry_ok_iff split: if_splits)

definition main_node :: "sk_graph \<Rightarrow> u32 \<Rightarrow> stream_info \<Rightarrow> stream_plan \<Rightarrow> node_id run" where
  "main_node g cnt x p = FindKernelNodeWithFrontReserve g (GetNodeById g (ss_headNodeIdx x)) (ss_tailNodeIdx x)
     (main_reserve cnt p)"

lemma stream_candidate_Some:
  assumes "stream_candidate g cnt i x p c = Inr (Some (p', c'))"
  obtains k where "main_node g cnt x p = Inr k" and "p' = plan_with k p"
    and "cs_mainStream c' = cs_mainStream c @ (if k \<noteq> INVALID_TASK_ID then [i] else [])"
    and "cs_subStream c' = cs_subStream c @ (if sub_ok x p then [i] else [])"
    and "cs_subStreamEntry c' = cs_subStreamEntry c @ (if entry_ok x p then [i] else [])"
proof -
  from assms obtain k where k: "main_node g cnt x p = Inr k"
    unfolding stream_candidate_def main_node_def by (elim bindR_eq_InrE)
  show ?thesis
    by (rule that[OF k]) (use assms k in \<open>auto simp: stream_candidate_def main_node_def[symmetric]
      sub_ok_def entry_ok_def plan_with_def Let_def split: if_splits\<close>)
qed

lemma stream_candidate_None:
  assumes "stream_candidate g cnt i x p c = Inr None"
  shows "main_node g cnt x p = Inr INVALID_TASK_ID \<and> \<not> sub_ok x p \<and> \<not> entry_ok x p"
  using assms by (auto simp: stream_candidate_def main_node_def sub_ok_def entry_ok_def Let_def split: if_splits)

definition from_index :: "nat \<Rightarrow> ('a \<Rightarrow> 'b \<Rightarrow> bool) \<Rightarrow> 'a list \<Rightarrow> 'b list \<Rightarrow> nat list" where
  "from_index i P xs ys = filter (\<lambda>j. P (xs ! (j - i)) (ys ! (j - i))) [i..<i + length xs]"

lemma from_index_Nil [simp]: "from_index i P [] ys = []"
  by (simp add: from_index_def)

lemma from_index_Cons [simp]:
  "from_index i P (x # xs) (y # ys) = (if P x y then [i] else []) @ from_index (Suc i) P xs ys"
proof -
  have "[i..<i + length (x # xs)] = i # [Suc i..<Suc i + length xs]"
    by (simp add: upt_rec)
  moreover have "filter (\<lambda>j. P ((x # xs) ! (j - i)) ((y # ys) ! (j - i))) [Suc i..<Suc i + length xs] =
      filter (\<lambda>j. P (xs ! (j - Suc i)) (ys ! (j - Suc i))) [Suc i..<Suc i + length xs]"
    by (rule filter_cong) (auto simp: nth_Cons' Suc_diff_le)
  ultimately show ?thesis by (simp add: from_index_def)
qed

lemma set_from_index [simp]: "set (from_index 0 P xs ys) = {j. j < length xs \<and> P (xs ! j) (ys ! j)}"
  by (auto simp: from_index_def)

lemma distinct_from_index [simp]: "distinct (from_index i P xs ys)"
  by (simp add: from_index_def)

definition is_main :: "stream_info \<Rightarrow> stream_plan \<Rightarrow> bool" where
  "is_main x p \<longleftrightarrow> pl_candidateNodeId p \<noteq> INVALID_TASK_ID"

lemma CollectStreamCandidates_Some:
  assumes "CollectStreamCandidates g cnt i infos plans c = Inr (Some (plans', c'))"
    and "length plans = length infos" and "\<forall>p\<in>set plans. pl_candidateNodeId p = INVALID_TASK_ID"
  shows "length plans' = length infos \<and>
    (\<forall>j<length infos. \<exists>k. main_node g cnt (infos ! j) (plans ! j) = Inr k \<and> plans' ! j = plan_with k (plans ! j)) \<and>
    cs_mainStream c' = cs_mainStream c @ from_index i is_main infos plans' \<and>
    cs_subStream c' = cs_subStream c @ from_index i sub_ok infos plans' \<and>
    cs_subStreamEntry c' = cs_subStreamEntry c @ from_index i entry_ok infos plans'"
  using assms
proof (induction infos arbitrary: i plans plans' c)
  case (Cons x xs)
  from Cons.prems(2) obtain p ps where plans: "plans = p # ps" by (cases plans) auto
  from Cons.prems(1) obtain p' c1 ps' where one: "stream_candidate g cnt i x p c = Inr (Some (p', c1))"
    and ps': "CollectStreamCandidates g cnt (Suc i) xs ps c1 = Inr (Some (ps', c'))" and plans': "plans' = p' # ps'"
    unfolding plans by (auto split: option.splits prod.splits)
  have len': "length ps = length xs" and inv': "\<forall>p\<in>set ps. pl_candidateNodeId p = INVALID_TASK_ID"
    and p: "pl_candidateNodeId p = INVALID_TASK_ID"
    using Cons.prems by (simp_all add: plans)
  note IH = Cons.IH[OF ps' len' inv']
  from one show ?case
  proof (cases rule: stream_candidate_Some)
    case (1 k)
    have m: "is_main x p' \<longleftrightarrow> k \<noteq> INVALID_TASK_ID" "sub_ok x p' \<longleftrightarrow> sub_ok x p" "entry_ok x p' \<longleftrightarrow> entry_ok x p"
      using 1(2) p by (simp_all add: is_main_def plan_with_def sub_ok_def entry_ok_def sub_need_def
          front_count_def back_count_def)
    show ?thesis
      using IH 1 m by (auto simp: plans plans' nth_Cons split: nat.split)
  qed
qed simp

section \<open>The choice of the main stream\<close>

text \<open>A main stream and a last stream for the chain of waits that leave enough nodes for the others.\<close>

definition good_choice :: "stream_info list \<Rightarrow> stream_plan list \<Rightarrow> nat \<Rightarrow> nat \<Rightarrow> bool" where
  "good_choice infos plans m e \<longleftrightarrow> m < length infos \<and> e < length infos \<and> e \<noteq> m \<and>
     is_main (infos ! m) (plans ! m) \<and> entry_ok (infos ! e) (plans ! e) \<and>
     (\<forall>i<length infos. i \<noteq> m \<longrightarrow> i \<noteq> e \<longrightarrow> sub_ok (infos ! i) (plans ! i))"

definition candidates_of :: "stream_info list \<Rightarrow> stream_plan list \<Rightarrow> stream_candidates" where
  "candidates_of infos plans = \<lparr> cs_mainStream = from_index 0 is_main infos plans,
     cs_subStream = from_index 0 sub_ok infos plans, cs_subStreamEntry = from_index 0 entry_ok infos plans \<rparr>"

lemma card_cover: "T \<subseteq> {..<n} \<Longrightarrow> card T = n \<longleftrightarrow> T = {..<n}"
  using card_subset_eq[of "{..<n}" T] by auto

lemma pair_fits_iff:
  assumes "m \<in> set (cs_mainStream (candidates_of infos plans))" "e \<in> set (cs_subStreamEntry (candidates_of infos plans))"
  shows "pair_fits (candidates_of infos plans) (length infos) (m, e) \<longleftrightarrow> good_choice infos plans m e"
proof -
  let ?S = "{j. j < length infos \<and> sub_ok (infos ! j) (plans ! j)}" and ?n = "length infos"
  have len: "length (from_index 0 sub_ok infos plans) = card ?S"
    by (metis distinct_card distinct_from_index set_from_index)
  have fin: "finite ?S" by simp
  have m: "m < ?n" "is_main (infos ! m) (plans ! m)" and e: "e < ?n" "entry_ok (infos ! e) (plans ! e)"
    using assms by (auto simp: candidates_of_def)
  show ?thesis
  proof (cases "e = m")
    case True
    then show ?thesis by (simp add: pair_fits_def good_choice_def)
  next
    case False
    let ?T = "insert e (insert m ?S)"
    have "?T \<subseteq> {..<?n}" using m e by auto
    then have "card ?T = ?n \<longleftrightarrow> ?T = {..<?n}"
      by (rule card_cover)
    also have "\<dots> \<longleftrightarrow> (\<forall>i<?n. i \<noteq> m \<longrightarrow> i \<noteq> e \<longrightarrow> sub_ok (infos ! i) (plans ! i))"
      using m(1) e(1) by auto
    also have "card ?T = card ?S + (if m \<in> ?S then 0 else 1) + (if e \<in> ?S then 0 else 1)"
      using False fin by (simp add: card_insert_if)
    finally show ?thesis
      using False m e by (simp add: pair_fits_def good_choice_def candidates_of_def len)
  qed
qed

lemma SelectMainAndEntryStream_Some:
  assumes "SelectMainAndEntryStream (candidates_of infos plans) (length infos) = Some (m, e)"
  shows "good_choice infos plans m e"
  using find_SomeD[OF assms[unfolded SelectMainAndEntryStream_def]] pair_fits_iff by auto

lemma SelectMainAndEntryStream_None:
  assumes "SelectMainAndEntryStream (candidates_of infos plans) (length infos) = None"
  shows "\<not> good_choice infos plans m e"
proof
  assume *: "good_choice infos plans m e"
  then have "m \<in> set (cs_mainStream (candidates_of infos plans))" "e \<in> set (cs_subStreamEntry (candidates_of infos plans))"
    by (auto simp: candidates_of_def good_choice_def)
  with * assms show False
    by (auto simp: SelectMainAndEntryStream_def find_None_iff pair_fits_iff)
qed

lemma BuildSubStreamOrder_others:
  assumes "good_choice infos plans m e"
  defines "order \<equiv> BuildSubStreamOrder (candidates_of infos plans) m e"
  shows "distinct order \<and> set order = {..<length infos} - {m} \<and> last order = e \<and> order \<noteq> []"
  using assms by (auto simp: BuildSubStreamOrder_def candidates_of_def good_choice_def)

lemma GetMainAndSubStreamOrder_cases:
  assumes "GetMainAndSubStreamOrder g plans infos cnt = Inr r"
    and "length plans = length infos" and "\<forall>p\<in>set plans. pl_candidateNodeId p = INVALID_TASK_ID"
  obtains (none) "r = Inl RESOURCE_INSUFFICIENT"
  | (single) plans' k where "length infos = 1" and "main_node g cnt (infos ! 0) (plans ! 0) = Inr k"
      and "k \<noteq> INVALID_TASK_ID" and "plans' = [plan_with k (plans ! 0)]"
      and "r = Inr (k, unat INVALID_STREAM_ID, [], plans')"
  | (no_single) "length infos = 1" and "main_node g cnt (infos ! 0) (plans ! 0) = Inr INVALID_TASK_ID" and "r = Inl NO_TARGET_NODE"
  | (chosen) plans' m e where "length infos \<noteq> 1" and "length plans' = length infos"
      and "\<forall>j<length infos. \<exists>k. main_node g cnt (infos ! j) (plans ! j) = Inr k \<and> plans' ! j = plan_with k (plans ! j)"
      and "good_choice infos plans' m e"
      and "r = Inr (pl_candidateNodeId (plans' ! m), m, BuildSubStreamOrder (candidates_of infos plans') m e, plans')"
  | (no_choice) plans' where "length infos \<noteq> 1" and "length plans' = length infos"
      and "\<forall>j<length infos. \<exists>k. main_node g cnt (infos ! j) (plans ! j) = Inr k \<and> plans' ! j = plan_with k (plans ! j)"
      and "\<forall>m e. \<not> good_choice infos plans' m e" and "r = Inl NO_TARGET_NODE"
proof -
  let ?c = "\<lparr> cs_mainStream = [], cs_subStream = [], cs_subStreamEntry = [] \<rparr>"
  from assms(1) obtain res where res: "CollectStreamCandidates g cnt 0 infos plans ?c = Inr res"
    unfolding GetMainAndSubStreamOrder_def by (elim bindR_eq_InrE)
  show thesis
  proof (cases res)
    case None
    then show ?thesis using assms(1) res none by (simp add: GetMainAndSubStreamOrder_def)
  next
    case (Some pc)
    obtain plans' c where pc: "pc = (plans', c)" by (cases pc)
    note * = CollectStreamCandidates_Some[OF res[unfolded Some pc] assms(2,3)]
    have c: "c = candidates_of infos plans'"
      using * by (cases c) (simp add: candidates_of_def)
    show ?thesis
    proof (cases "length infos = 1")
      case True
      then have 0: "0 < length infos" by simp
      with * obtain k where k: "main_node g cnt (infos ! 0) (plans ! 0) = Inr k" "plans' ! 0 = plan_with k (plans ! 0)"
        by blast
      have p: "plans' = [plan_with k (plans ! 0)]" using * True k(2) by (cases plans') auto
      have inv: "pl_candidateNodeId (plans ! 0) = INVALID_TASK_ID" using assms(2,3) 0 by simp
      show ?thesis
      proof (cases "k = INVALID_TASK_ID")
        case True
        show ?thesis
          by (rule no_single) (use \<open>length infos = 1\<close> k True p inv assms(1) res Some pc in
            \<open>auto simp: GetMainAndSubStreamOrder_def plan_with_def atR_def\<close>)
      next
        case False
        show ?thesis
          by (rule single[OF \<open>length infos = 1\<close> k(1) False p]) (use \<open>length infos = 1\<close> k False p assms(1) res Some pc in
            \<open>auto simp: GetMainAndSubStreamOrder_def plan_with_def atR_def\<close>)
      qed
    next
      case False
      show ?thesis
      proof (cases "SelectMainAndEntryStream (candidates_of infos plans') (length infos)")
        case None
        have *: "length plans' = length infos"
          "\<forall>j<length infos. \<exists>k. main_node g cnt (infos ! j) (plans ! j) = Inr k \<and> plans' ! j = plan_with k (plans ! j)"
          using * by auto
        show ?thesis
          by (rule no_choice[OF False *]) (use SelectMainAndEntryStream_None[OF None] None False assms(1) res Some pc c in
            \<open>auto simp: GetMainAndSubStreamOrder_def\<close>)
      next
        case (Some me)
        obtain m e where me: "me = (m, e)" by (cases me)
        have g: "good_choice infos plans' m e" using SelectMainAndEntryStream_Some Some me by simp
        have *: "length plans' = length infos"
          "\<forall>j<length infos. \<exists>k. main_node g cnt (infos ! j) (plans ! j) = Inr k \<and> plans' ! j = plan_with k (plans ! j)"
          using * by auto
        show ?thesis
          by (rule chosen[OF False * g]) (use g *(1) Some me False assms(1) res \<open>res = Some pc\<close> pc c in
            \<open>auto simp: GetMainAndSubStreamOrder_def atR_def good_choice_def\<close>)
      qed
    qed
  qed
qed

section \<open>The waits and writes in closed form\<close>

text \<open>
  \<open>fronts\<close> are the streams of an order that wait in front. The main stream waits for the first of them
  and each of them for the next one: \<open>next_of\<close>. \<open>a\<close> and \<open>b\<close> name the words of memory.
\<close>

definition fronts :: "stream_plan list \<Rightarrow> nat list \<Rightarrow> nat list" where
  "fronts plans D = filter (\<lambda>i. pl_needFrontWait (plans ! i)) D"

definition next_of :: "nat list \<Rightarrow> nat \<Rightarrow> nat option" where
  "next_of xs = map_of (zip xs (tl xs))"

definition wait_for :: "u64 \<Rightarrow> task_value" where
  "wait_for addr = ValueWait addr SK_DEFAULT_WAIT_VALUE WAIT_FLAG_EQ"

definition await_part :: "stream_plan list \<Rightarrow> nat \<Rightarrow> nat list \<Rightarrow> (nat \<Rightarrow> u64) \<Rightarrow> nat \<Rightarrow> task_value list" where
  "await_part plans m D a i = (case next_of (m # fronts plans D) i of None \<Rightarrow> [] | Some j \<Rightarrow> [wait_for (a j)])"

definition arrive_part :: "stream_plan list \<Rightarrow> nat list \<Rightarrow> (nat \<Rightarrow> u64) \<Rightarrow> nat \<Rightarrow> task_value list" where
  "arrive_part plans D a i = (if i \<in> set (fronts plans D) then [ValueWrite (a i) SK_DEFAULT_NOTIFY_VALUE] else [])"

definition leave_part :: "stream_plan list \<Rightarrow> nat list \<Rightarrow> (nat \<Rightarrow> u64) \<Rightarrow> nat \<Rightarrow> task_value list" where
  "leave_part plans D b i = (if i \<in> set D \<and> pl_needBackBlock (plans ! i)
     then [wait_for (b i), ValueWrite (b i) SK_DEFAULT_RESET_VALUE] else [])"

definition handshake :: "stream_plan list \<Rightarrow> nat \<Rightarrow> nat list \<Rightarrow> (nat \<Rightarrow> u64) \<Rightarrow> (nat \<Rightarrow> u64) \<Rightarrow> nat \<Rightarrow> task_value list" where
  "handshake plans m D a b i = await_part plans m D a i @ arrive_part plans D a i @ leave_part plans D b i"

definition stream_events :: "stream_info list \<Rightarrow> stream_plan list \<Rightarrow> node_id \<Rightarrow> (nat \<Rightarrow> u64) \<Rightarrow> (nat \<Rightarrow> u64) \<Rightarrow> nat \<Rightarrow> sk_node list" where
  "stream_events infos plans L a b i =
     (if pl_needFrontWait (plans ! i) then [event_node RI_TASK_EVENT_RESET NODE_RESET (ss_streamIdx (infos ! i)) L (a i)] else []) @
     (if pl_needBackBlock (plans ! i) then [event_node RI_TASK_EVENT_RECORD NODE_NOTIFY (ss_streamIdx (infos ! i)) L (b i)] else [])"

lemma fronts_snoc: "fronts plans (D @ [c]) = fronts plans D @ (if pl_needFrontWait (plans ! c) then [c] else [])"
  by (simp add: fronts_def)

lemma set_fronts: "set (fronts plans D) = {i \<in> set D. pl_needFrontWait (plans ! i)}"
  by (auto simp: fronts_def)

lemma next_of_snoc:
  assumes "xs \<noteq> []" and "distinct (xs @ [c])"
  shows "next_of (xs @ [c]) = (next_of xs)(last xs \<mapsto> c)"
proof -
  have "zip (xs @ [c]) (tl (xs @ [c])) = zip xs (tl xs) @ [(last xs, c)]"
    using assms(1)
  proof (induction xs)
    case (Cons x xs)
    then show ?case by (cases xs) auto
  qed simp
  moreover have "last xs \<notin> fst ` set (zip xs (tl xs))"
    using assms
  proof (induction xs)
    case (Cons x xs)
    then show ?case
    proof (cases xs)
      case (Cons y ys)
      have "last ys \<in> set ys \<or> ys = []" by (cases ys) simp_all
      then show ?thesis using Cons.IH Cons.prems Cons local.Cons by auto
    qed simp
  qed simp
  then have n: "map_of (zip xs (tl xs)) (last xs) = None" by (simp add: map_of_eq_None_iff)
  ultimately show ?thesis
    using n by (simp add: next_of_def fun_eq_iff map_add_def split: option.split)
qed

lemma next_of_range: "next_of xs i = Some j \<Longrightarrow> i \<in> set xs \<and> j \<in> set (tl xs)"
  unfolding next_of_def by (metis in_set_zipE map_of_SomeD)

lemma next_of_absent: "i \<notin> set xs \<Longrightarrow> next_of xs i = None"
  using next_of_range by (cases "next_of xs i") auto

lemma next_of_last: "distinct xs \<Longrightarrow> xs \<noteq> [] \<Longrightarrow> next_of xs (last xs) = None"
proof (induction xs rule: rev_induct)
  case (snoc c xs)
  show ?case
  proof (cases "xs = []")
    case False
    have "next_of xs c = None" using snoc.prems by (intro next_of_absent) auto
    moreover have "last xs \<noteq> c" using False snoc.prems by auto
    ultimately show ?thesis using next_of_snoc[OF False] snoc.prems by simp
  qed (simp add: next_of_def)
qed simp

definition sync_inv :: "stream_info list \<Rightarrow> stream_plan list \<Rightarrow> node_id \<Rightarrow> nat \<Rightarrow> nat list \<Rightarrow> (nat \<Rightarrow> u64) \<Rightarrow>
    (nat \<Rightarrow> u64) \<Rightarrow> sync_work \<Rightarrow> bool" where
  "sync_inv infos plans L m D a b w \<longleftrightarrow>
     wk_params w = map (handshake plans m D a b) [0..<length infos] \<and>
     wk_prev w = last (m # fronts plans D) \<and>
     wk_eventNodes w = concat (map (stream_events infos plans L a b) D)"

lemma part_cong:
  assumes "\<forall>i\<in>set D. a i = a' i"
  shows "await_part plans m D a = await_part plans m D a'" "arrive_part plans D a = arrive_part plans D a'"
    "leave_part plans D a = leave_part plans D a'"
  using assms next_of_range[of "m # fronts plans D"]
  by (auto simp: await_part_def arrive_part_def leave_part_def set_fronts fun_eq_iff split: option.split)

lemma handshake_cong:
  assumes "\<forall>i\<in>set D. a i = a' i" and "\<forall>i\<in>set D. b i = b' i"
  shows "handshake plans m D a b = handshake plans m D a' b'"
  using part_cong(1,2)[OF assms(1)] part_cong(3)[OF assms(2)] by (simp add: handshake_def fun_eq_iff)

lemma events_cong:
  assumes "\<forall>i\<in>set D. a i = a' i" and "\<forall>i\<in>set D. b i = b' i"
  shows "map (stream_events infos plans L a b) D = map (stream_events infos plans L a' b') D"
  using assms by (simp add: stream_events_def)

lemma handshake_untouched:
  "i \<noteq> m \<Longrightarrow> i \<notin> set D \<Longrightarrow> handshake plans m D a b i = []"
  by (auto simp: handshake_def await_part_def arrive_part_def leave_part_def set_fronts next_of_absent)

text \<open>One stream. Between its two steps the words to leave are those of the streams before it.\<close>

definition mid_inv :: "stream_info list \<Rightarrow> stream_plan list \<Rightarrow> node_id \<Rightarrow> nat \<Rightarrow> nat list \<Rightarrow> nat \<Rightarrow> (nat \<Rightarrow> u64) \<Rightarrow>
    (nat \<Rightarrow> u64) \<Rightarrow> sync_work \<Rightarrow> bool" where
  "mid_inv infos plans L m D c a b w \<longleftrightarrow>
     wk_params w = map (\<lambda>i. await_part plans m (D @ [c]) a i @ arrive_part plans (D @ [c]) a i @ leave_part plans D b i)
       [0..<length infos] \<and>
     wk_prev w = last (m # fronts plans (D @ [c])) \<and>
     wk_eventNodes w = concat (map (stream_events infos plans L a b) D) @
       (if pl_needFrontWait (plans ! c) then [event_node RI_TASK_EVENT_RESET NODE_RESET (ss_streamIdx (infos ! c)) L (a c)] else [])"

lemma await_part_snoc:
  assumes d: "distinct (m # D @ [c])" and nf: "pl_needFrontWait (plans ! c)"
  shows "await_part plans m (D @ [c]) a i =
    (if i = last (m # fronts plans D) then [wait_for (a c)] else await_part plans m D a i)"
    "await_part plans m D a (last (m # fronts plans D)) = []"
proof -
  have "distinct ((m # fronts plans D) @ [c])" using d by (auto simp: fronts_def)
  from next_of_snoc[OF _ this] show "await_part plans m (D @ [c]) a i =
    (if i = last (m # fronts plans D) then [wait_for (a c)] else await_part plans m D a i)"
    using nf by (simp add: await_part_def fronts_snoc del: last.simps)
  have "distinct (m # fronts plans D)" using d by (auto simp: fronts_def)
  from next_of_last[OF this] show "await_part plans m D a (last (m # fronts plans D)) = []"
    by (simp add: await_part_def del: last.simps)
qed

lemma last_front_in: "last (m # fronts plans D) \<in> insert m (set D)"
proof -
  have "last (m # fronts plans D) \<in> set (m # fronts plans D)" by (rule last_in_set) simp
  then show ?thesis by (auto simp: fronts_def)
qed

lemma ProcessFrontWaitForStream_run:
  assumes inv: "sync_inv infos plans L m D a b w"
    and d: "distinct (m # D @ [c])" and lt: "\<forall>i\<in>set (m # D @ [c]). i < length infos"
    and nf: "pl_needFrontWait (plans ! c)" and w: "value_word A (wk_res w) = (word, rs)"
  obtains "word = None" and "\<exists>w'. ProcessFrontWaitForStream A infos c L w = Inr (False, w')"
  | addr w' where "word = Some addr" and "mid_inv infos plans L m D c (a(c := addr)) b w'" and "wk_res w' = rs"
      and "ProcessFrontWaitForStream A infos c L w = Inr (True, w') \<or>
        (\<exists>i<length infos. \<not> EnsureStreamCapacity (infos ! i) (wk_params w' ! i)) \<and>
        ProcessFrontWaitForStream A infos c L w = Inr (False, w'\<lparr> wk_prev := wk_prev w \<rparr>)"
proof (cases word)
  case None
  show thesis
    by (rule that(1)[OF None]) (use lt w None in \<open>simp add: ProcessFrontWaitForStream_def atR_def\<close>)
next
  case (Some addr)
  let ?p = "last (m # fronts plans D)" and ?a = "a(c := addr)"
  have c: "c < length infos" "c \<notin> set D" "c \<noteq> m" using lt d by auto
  have p: "?p < length infos" "?p \<noteq> c" using last_front_in[of m plans D] lt d by auto
  have par: "wk_params w = map (handshake plans m D a b) [0..<length infos]" and pr: "wk_prev w = ?p"
    using inv by (simp_all add: sync_inv_def)
  have hc: "handshake plans m D a b c = []" by (rule handshake_untouched) (use c in auto)
  define l where "l = (wk_params w)[c := [ValueWrite addr SK_DEFAULT_NOTIFY_VALUE],
    ?p := wait_for addr # handshake plans m D a b ?p]"
  define w' where "w' = w\<lparr> wk_needFrontWaitCount := wk_needFrontWaitCount w - 1, wk_res := rs,
    wk_eventNodes := wk_eventNodes w @ [event_node RI_TASK_EVENT_RESET NODE_RESET (ss_streamIdx (infos ! c)) L addr],
    wk_params := l, wk_prev := c \<rparr>"
  have run: "ProcessFrontWaitForStream A infos c L w =
    (if \<not> EnsureStreamCapacity (infos ! c) (l ! c) \<or> \<not> EnsureStreamCapacity (infos ! ?p) (l ! ?p)
     then Inr (False, w'\<lparr> wk_prev := wk_prev w \<rparr>) else Inr (True, w'))"
    using w Some c p by (simp add: ProcessFrontWaitForStream_def atR_def par pr hc l_def w'_def wait_for_def
        del: last.simps)
  have hs: "await_part plans m D ?a i = await_part plans m D a i" "arrive_part plans D ?a i = arrive_part plans D a i" for i
    using part_cong[of D a ?a] c(2) by (metis fun_upd_other)+
  have "l ! i = await_part plans m (D @ [c]) ?a i @ arrive_part plans (D @ [c]) ?a i @ leave_part plans D b i"
    if "i < length infos" for i
  proof -
    have "arrive_part plans (D @ [c]) ?a i = (if i = c then [ValueWrite addr SK_DEFAULT_NOTIFY_VALUE] else arrive_part plans D ?a i)"
      using nf by (auto simp: arrive_part_def set_fronts)
    moreover have "await_part plans m D a c = []" "arrive_part plans D a c = []" "leave_part plans D b c = []"
      using hc by (auto simp: handshake_def)
    ultimately show ?thesis
      using that c p await_part_snoc(1)[OF d nf, of ?a i] await_part_snoc(2)[OF d nf, of a]
      by (auto simp: l_def par hs handshake_def nth_list_update simp del: last.simps)
  qed
  moreover have "length l = length infos" by (simp add: l_def par)
  ultimately have lmap: "l = map (\<lambda>i. await_part plans m (D @ [c]) ?a i @ arrive_part plans (D @ [c]) ?a i @ leave_part plans D b i)
      [0..<length infos]"
    by (intro nth_equalityI) simp_all
  have "mid_inv infos plans L m D c ?a b w'"
    using lmap inv nf events_cong[of D a ?a b b] c(2)
    by (auto simp: mid_inv_def w'_def fronts_snoc sync_inv_def fun_upd_apply intro!: arg_cong[where f = concat])
  then show thesis
    by (rule that(2)[OF Some]) (use run c p in \<open>auto simp: w'_def simp del: last.simps\<close>)
qed

lemma mid_inv_no_front:
  assumes "sync_inv infos plans L m D a b w" and "\<not> pl_needFrontWait (plans ! c)"
  shows "mid_inv infos plans L m D c a b w"
proof -
  have f: "fronts plans (D @ [c]) = fronts plans D" using assms(2) by (simp add: fronts_def)
  show ?thesis
    using assms by (auto simp: mid_inv_def sync_inv_def handshake_def await_part_def arrive_part_def f)
qed

definition event_addr :: "sk_node \<Rightarrow> u64" where
  "event_addr n = sy_addrValue (nd_syncInfos n)"

lemma event_addr_event_node [simp]: "event_addr (event_node rt ty s L addr) = addr"
  by (simp add: event_addr_def event_node_def Let_def)

lemma ProcessBackBlockForStream_run:
  assumes inv: "mid_inv infos plans L m D c a b w"
    and d: "distinct (m # D @ [c])" and lt: "c < length infos"
    and nb: "pl_needBackBlock (plans ! c)" and w: "value_word A (wk_res w) = (word, rs)"
  obtains "word = None" and "\<exists>w'. ProcessBackBlockForStream A infos c L w = Inr (False, w')"
  | addr w' where "word = Some addr" and "sync_inv infos plans L m (D @ [c]) a (b(c := addr)) w'" and "wk_res w' = rs"
      and "wk_eventNodes w' = wk_eventNodes w @ [event_node RI_TASK_EVENT_RECORD NODE_NOTIFY (ss_streamIdx (infos ! c)) L addr]"
      and "ProcessBackBlockForStream A infos c L w =
        Inr (EnsureStreamCapacity (infos ! c) (handshake plans m (D @ [c]) a (b(c := addr)) c), w')"
proof (cases word)
  case None
  show thesis
    by (rule that(1)[OF None]) (use lt w None in \<open>simp add: ProcessBackBlockForStream_def atR_def\<close>)
next
  case (Some addr)
  let ?b = "b(c := addr)"
  let ?mid = "\<lambda>i. await_part plans m (D @ [c]) a i @ arrive_part plans (D @ [c]) a i @ leave_part plans D b i"
  have c: "c \<notin> set D" using d by auto
  have par: "wk_params w = map ?mid [0..<length infos]"
    using inv by (simp add: mid_inv_def)
  have lD: "leave_part plans D ?b = leave_part plans D b" by (rule part_cong(3)) (use c in auto)
  define l where "l = (wk_params w)[c := ?mid c @ [wait_for addr, ValueWrite addr SK_DEFAULT_RESET_VALUE]]"
  define w' where "w' = w\<lparr> wk_res := rs, wk_eventNodes := wk_eventNodes w @
    [event_node RI_TASK_EVENT_RECORD NODE_NOTIFY (ss_streamIdx (infos ! c)) L addr], wk_params := l \<rparr>"
  have lc: "leave_part plans (D @ [c]) ?b i = (if i = c then [wait_for addr, ValueWrite addr SK_DEFAULT_RESET_VALUE]
      else leave_part plans D b i)" "leave_part plans D b c = []" for i
    using nb c by (auto simp: leave_part_def)
  have lmap: "l = map (handshake plans m (D @ [c]) a ?b) [0..<length infos]"
    by (rule nth_equalityI) (use lt in \<open>auto simp: l_def par handshake_def nth_list_update lc simp del: append_assoc\<close>)
  have run: "ProcessBackBlockForStream A infos c L w =
      Inr (EnsureStreamCapacity (infos ! c) (handshake plans m (D @ [c]) a ?b c), w')"
    using w Some lt
    by (simp add: ProcessBackBlockForStream_def atR_def par w'_def wait_for_def[symmetric] l_def handshake_def lc)
  have "sync_inv infos plans L m (D @ [c]) a ?b w'"
    using lmap inv nb events_cong[of D a a b ?b] c
    by (auto simp: mid_inv_def sync_inv_def w'_def stream_events_def intro!: arg_cong[where f = concat])
  from that(2)[OF Some this _ _ run] show thesis by (simp add: w'_def)
qed

lemma handshake_length:
  "length (handshake plans m D a b i) = (if next_of (m # fronts plans D) i = None then 0 else 1) +
     (if i \<in> set D \<and> pl_needFrontWait (plans ! i) then 1 else 0) +
     (if i \<in> set D \<and> pl_needBackBlock (plans ! i) then 2 else 0)"
  by (auto simp: handshake_def await_part_def arrive_part_def leave_part_def set_fronts split: option.split)

definition fits :: "stream_info list \<Rightarrow> stream_plan list \<Rightarrow> nat \<Rightarrow> nat list \<Rightarrow> bool" where
  "fits infos plans m D \<longleftrightarrow> (\<forall>i<length infos. \<forall>a b. EnsureStreamCapacity (infos ! i) (handshake plans m D a b i))"

text \<open>A property of the resources and the words allocated that an allocation keeps.\<close>

definition alloc_keeps :: "acl \<Rightarrow> (res_state \<Rightarrow> u64 list \<Rightarrow> bool) \<Rightarrow> bool" where
  "alloc_keeps A P \<longleftrightarrow> (\<forall>st as addr st'. P st as \<longrightarrow> value_word A st = (Some addr, st') \<longrightarrow> P st' (as @ [addr]))"

lemma alloc_keepsD: "alloc_keeps A P \<Longrightarrow> P st as \<Longrightarrow> value_word A st = (Some addr, st') \<Longrightarrow> P st' (as @ [addr])"
  unfolding alloc_keeps_def by blast

lemma sync_stream_run:
  assumes inv: "sync_inv infos plans L m D a b w"
    and d: "distinct (m # D @ [c])" and lt: "\<forall>i\<in>set (m # D @ [c]). i < length infos" and len: "length plans = length infos"
    and P: "alloc_keeps A P"
    and P0: "P (wk_res w) (map event_addr (wk_eventNodes w))"
  obtains (fail) w' where "sync_stream A infos plans L c w = Inr (False, w')"
      and "(\<exists>st as. P st as \<and> fst (value_word A st) = None) \<or> \<not> fits infos plans m (D @ [c])"
  | (ok) a' b' w' where "sync_stream A infos plans L c w = Inr (True, w')"
      and "sync_inv infos plans L m (D @ [c]) a' b' w'" and "P (wk_res w') (map event_addr (wk_eventNodes w'))"
proof -
  have c: "c < length infos" "atR plans c = Inr (plans ! c)" using lt len by (auto simp: atR_def)
  have after: thesis if mid: "mid_inv infos plans L m D c a' b w1" and P1: "P (wk_res w1) (map event_addr (wk_eventNodes w1))"
    and run: "sync_stream A infos plans L c w = (if pl_needBackBlock (plans ! c)
      then ProcessBackBlockForStream A infos c L w1 else Inr (True, w1))" for a' w1
  proof (cases "pl_needBackBlock (plans ! c)")
    case True
    obtain word rs where word: "value_word A (wk_res w1) = (word, rs)" by fastforce
    show thesis
    proof (rule ProcessBackBlockForStream_run[OF mid d c(1) True word])
      assume "word = None" "\<exists>w'. ProcessBackBlockForStream A infos c L w1 = Inr (False, w')"
      moreover from this have "\<exists>st as. P st as \<and> fst (value_word A st) = None" using P1 word by (metis fst_conv)
      ultimately show thesis using fail run True by auto
    next
      fix addr w'
      assume *: "word = Some addr" "sync_inv infos plans L m (D @ [c]) a' (b(c := addr)) w'" "wk_res w' = rs"
        "wk_eventNodes w' = wk_eventNodes w1 @ [event_node RI_TASK_EVENT_RECORD NODE_NOTIFY (ss_streamIdx (infos ! c)) L addr]"
        "ProcessBackBlockForStream A infos c L w1 =
          Inr (EnsureStreamCapacity (infos ! c) (handshake plans m (D @ [c]) a' (b(c := addr)) c), w')"
      have "P (wk_res w') (map event_addr (wk_eventNodes w'))"
        using alloc_keepsD[OF P P1] word * by simp
      then show thesis
        using ok[OF _ *(2)] fail run True *(5) c(1) by (auto simp: fits_def)
    qed
  next
    case False
    have "sync_inv infos plans L m (D @ [c]) a' b w1"
      using mid False by (auto simp: mid_inv_def sync_inv_def handshake_def leave_part_def stream_events_def
          split: if_splits intro!: map_cong)
    then show thesis using ok run False P1 by auto
  qed
  show thesis
  proof (cases "pl_needFrontWait (plans ! c)")
    case True
    obtain word rs where word: "value_word A (wk_res w) = (word, rs)" by fastforce
    show thesis
    proof (rule ProcessFrontWaitForStream_run[OF inv d lt True word])
      assume "word = None" "\<exists>w'. ProcessFrontWaitForStream A infos c L w = Inr (False, w')"
      moreover from this have "\<exists>st as. P st as \<and> fst (value_word A st) = None" using P0 word by (metis fst_conv)
      ultimately show thesis using fail True c by (auto simp: sync_stream_def)
    next
      fix addr w'
      assume *: "word = Some addr" "mid_inv infos plans L m D c (a(c := addr)) b w'" "wk_res w' = rs"
        "ProcessFrontWaitForStream A infos c L w = Inr (True, w') \<or>
          (\<exists>i<length infos. \<not> EnsureStreamCapacity (infos ! i) (wk_params w' ! i)) \<and>
          ProcessFrontWaitForStream A infos c L w = Inr (False, w'\<lparr> wk_prev := wk_prev w \<rparr>)"
      have ev: "map (stream_events infos plans L (a(c := addr)) b) D = map (stream_events infos plans L a b) D"
        by (rule events_cong) (use d in auto)
      have "wk_eventNodes w' = wk_eventNodes w @ [event_node RI_TASK_EVENT_RESET NODE_RESET (ss_streamIdx (infos ! c)) L addr]"
        using *(2) inv ev True by (simp add: mid_inv_def sync_inv_def)
      then have P1: "P (wk_res w') (map event_addr (wk_eventNodes w'))" using alloc_keepsD[OF P P0] word * by simp
      from *(4) show thesis
      proof
        assume "ProcessFrontWaitForStream A infos c L w = Inr (True, w')"
        with after[OF *(2) P1] show thesis using c True by (simp add: sync_stream_def)
      next
        assume bad: "(\<exists>i<length infos. \<not> EnsureStreamCapacity (infos ! i) (wk_params w' ! i)) \<and>
          ProcessFrontWaitForStream A infos c L w = Inr (False, w'\<lparr> wk_prev := wk_prev w \<rparr>)"
        then obtain i where i: "i < length infos" "\<not> EnsureStreamCapacity (infos ! i) (wk_params w' ! i)" by blast
        have "length (wk_params w' ! i) \<le> length (handshake plans m (D @ [c]) (a(c := addr)) b i)"
          using *(2) i(1) by (auto simp: mid_inv_def handshake_def leave_part_def)
        with i have "\<not> fits infos plans m (D @ [c])"
          unfolding fits_def EnsureStreamCapacity_def by (metis order_trans)
        then show thesis using fail bad c True by (auto simp: sync_stream_def)
      qed
    qed
  next
    case False
    show thesis
      using after[OF mid_inv_no_front[OF inv False] P0] c False by (simp add: sync_stream_def)
  qed
qed

lemma ProcessSubStreamSyncEvents_run:
  assumes "sync_inv infos plans L m D a b w"
    and "distinct (m # D @ order)" and "\<forall>i\<in>set (m # D @ order). i < length infos" and "length plans = length infos"
    and P: "alloc_keeps A P"
    and "P (wk_res w) (map event_addr (wk_eventNodes w))"
  shows "\<exists>ok w'. ProcessSubStreamSyncEvents A infos plans L order w = Inr (ok, w') \<and>
    (if ok then \<exists>a b. sync_inv infos plans L m (D @ order) a b w' \<and> P (wk_res w') (map event_addr (wk_eventNodes w'))
     else (\<exists>st as. P st as \<and> fst (value_word A st) = None) \<or>
       (\<exists>D' D''. order = D' @ D'' \<and> D' \<noteq> [] \<and> \<not> fits infos plans m (D @ D')))"
  using assms(1-4,6)
proof (induction order arbitrary: D a b w)
  case (Cons c order)
  have d: "distinct (m # D @ [c])" and lt: "\<forall>i\<in>set (m # D @ [c]). i < length infos"
    using Cons.prems(2,3) by auto
  show ?case
  proof (rule sync_stream_run[where P = P and A = A, OF Cons.prems(1) d lt Cons.prems(4) P Cons.prems(5)])
    fix w'
    assume *: "sync_stream A infos plans L c w = Inr (False, w')"
      "(\<exists>st as. P st as \<and> fst (value_word A st) = None) \<or> \<not> fits infos plans m (D @ [c])"
    have "c # order = [c] @ order \<and> [c] \<noteq> []" by simp
    with *(2) have "(\<exists>st as. P st as \<and> fst (value_word A st) = None) \<or>
       (\<exists>D' D''. c # order = D' @ D'' \<and> D' \<noteq> [] \<and> \<not> fits infos plans m (D @ D'))" by blast
    then show ?thesis
      by (intro exI[of _ False] exI[of _ w']) (simp add: *(1))
  next
    fix a' b' w'
    assume run: "sync_stream A infos plans L c w = Inr (True, w')"
      and inv: "sync_inv infos plans L m (D @ [c]) a' b' w'" and P': "P (wk_res w') (map event_addr (wk_eventNodes w'))"
    have d': "distinct (m # (D @ [c]) @ order)" and lt': "\<forall>i\<in>set (m # (D @ [c]) @ order). i < length infos"
      using Cons.prems(2,3) by auto
    from Cons.IH[OF inv d' lt' Cons.prems(4) P'] obtain ok w'' where
      rest: "ProcessSubStreamSyncEvents A infos plans L order w' = Inr (ok, w'')"
      and res: "if ok then \<exists>a b. sync_inv infos plans L m ((D @ [c]) @ order) a b w'' \<and> P (wk_res w'') (map event_addr (wk_eventNodes w''))
        else (\<exists>st as. P st as \<and> fst (value_word A st) = None) \<or>
          (\<exists>D' D''. order = D' @ D'' \<and> D' \<noteq> [] \<and> \<not> fits infos plans m ((D @ [c]) @ D'))" by blast
    have "\<exists>E' E''. c # order = E' @ E'' \<and> E' \<noteq> [] \<and> \<not> fits infos plans m (D @ E')"
      if "order = D' @ D''" "\<not> fits infos plans m ((D @ [c]) @ D')" for D' D''
      using that by (intro exI[of _ "c # D'"] exI[of _ D'']) simp
    with res have "if ok then \<exists>a b. sync_inv infos plans L m (D @ c # order) a b w'' \<and> P (wk_res w'') (map event_addr (wk_eventNodes w''))
      else (\<exists>st as. P st as \<and> fst (value_word A st) = None) \<or>
       (\<exists>D' D''. c # order = D' @ D'' \<and> D' \<noteq> [] \<and> \<not> fits infos plans m (D @ D'))"
      by (cases ok) (simp, simp only: if_False, blast)
    then show ?thesis
      by (intro exI[of _ ok] exI[of _ w'']) (simp add: run rest)
  qed
qed auto

lemma good_choice_fits:
  assumes g: "good_choice infos plans m e" and order: "D' @ D'' = BuildSubStreamOrder (candidates_of infos plans) m e"
    and size: "\<forall>x\<in>set infos. ss_nodeSize x \<noteq> 0"
  shows "fits infos plans m D'"
  unfolding fits_def EnsureStreamCapacity_def
proof (intro allI impI)
  fix i a b assume i: "i < length infos"
  note o = BuildSubStreamOrder_others[OF g, folded order]
  have m: "m \<notin> set D'" and dist: "distinct (m # fronts plans D')" using o by (auto simp: fronts_def)
  show "length (handshake plans m D' a b i) \<le> unat (ss_nodeSize (infos ! i))"
  proof (cases "i \<in> set D'")
    case False
    have "ss_nodeSize (infos ! i) \<noteq> 0" using size i by simp
    then have "0 < unat (ss_nodeSize (infos ! i))" using unat_gt_0 by blast
    moreover have "length (handshake plans m D' a b i) \<le> 1" using False by (simp add: handshake_length)
    ultimately show ?thesis by linarith
  next
    case True
    have next_front: "pl_needFrontWait (plans ! i)" if "next_of (m # fronts plans D') i \<noteq> None"
      using that next_of_range[of "m # fronts plans D'" i] True m by (auto simp: set_fronts)
    show ?thesis
    proof (cases "i = e")
      case False
      then have "sub_ok (infos ! i) (plans ! i)" using g i True o by (auto simp: good_choice_def)
      then show ?thesis using next_front by (auto simp: handshake_length sub_ok_iff split: if_splits)
    next
      case e: True
      then have D'': "D'' = []" using o True by (cases D'' rule: rev_cases) auto
      have last: "next_of (m # fronts plans D') e = None"
      proof (cases "pl_needFrontWait (plans ! e)")
        case True
        obtain E where "D' = E @ [e]" using o D'' by (cases D' rule: rev_cases) auto
        then have "last (m # fronts plans D') = e" using True by (simp add: fronts_def)
        then show ?thesis using next_of_last[OF dist] by simp
      next
        case False
        then have "e \<notin> set (m # fronts plans D')" using g by (auto simp: good_choice_def set_fronts)
        then show ?thesis by (rule next_of_absent)
      qed
      have "entry_ok (infos ! e) (plans ! e)" using g by (simp add: good_choice_def)
      then show ?thesis using last e True by (auto simp: handshake_length entry_ok_iff split: if_splits)
    qed
  qed
qed

lemma ProcessSubStreamSyncEvents_ok:
  assumes "sync_inv infos plans L m D a b w"
    and "distinct (m # D @ order)" and "\<forall>i\<in>set (m # D @ order). i < length infos" and "length plans = length infos"
    and run: "ProcessSubStreamSyncEvents A infos plans L order w = Inr (True, w')"
    and P: "alloc_keeps A P"
    and "P (wk_res w) (map event_addr (wk_eventNodes w))"
  shows "\<exists>a b. sync_inv infos plans L m (D @ order) a b w' \<and> P (wk_res w') (map event_addr (wk_eventNodes w'))"
  using ProcessSubStreamSyncEvents_run[where P = P and A = A, OF assms(1-4) P assms(7)] run by auto

section \<open>The choice is complete\<close>

lemma CollectStreamCandidates_None:
  assumes "CollectStreamCandidates g cnt i infos plans c = Inr None" and "length plans = length infos"
  shows "\<exists>j<length infos. main_node g cnt (infos ! j) (plans ! j) = Inr INVALID_TASK_ID \<and>
    \<not> sub_ok (infos ! j) (plans ! j) \<and> \<not> entry_ok (infos ! j) (plans ! j)"
  using assms
proof (induction infos arbitrary: i plans c)
  case (Cons x xs)
  from Cons.prems(2) obtain p ps where plans: "plans = p # ps" by (cases plans) auto
  from Cons.prems(1) consider "stream_candidate g cnt i x p c = Inr None"
    | c1 where "CollectStreamCandidates g cnt (Suc i) xs ps c1 = Inr None"
    unfolding plans by (auto split: option.splits)
  then show ?case
  proof cases
    case 1
    then show ?thesis using stream_candidate_None[OF 1] by (intro exI[of _ 0]) (simp add: plans)
  next
    case 2
    from Cons.IH[OF this(1)] Cons.prems(2) obtain j where "j < length xs"
      "main_node g cnt (xs ! j) (ps ! j) = Inr INVALID_TASK_ID \<and> \<not> sub_ok (xs ! j) (ps ! j) \<and> \<not> entry_ok (xs ! j) (ps ! j)"
      by (auto simp: plans)
    then show ?thesis by (intro exI[of _ "Suc j"]) (simp add: plans)
  qed
qed simp

text \<open>
  Streams that can take the roles: a kernel behind the reserved places on the main stream \<open>m\<close>, room for
  all but the wait in front on \<open>e\<close>, room for all on the others.
\<close>

definition stream_roles :: "sk_graph \<Rightarrow> u32 \<Rightarrow> stream_info list \<Rightarrow> stream_plan list \<Rightarrow> nat \<Rightarrow> nat \<Rightarrow> bool" where
  "stream_roles g cnt infos plans m e \<longleftrightarrow> m < length infos \<and> e < length infos \<and> e \<noteq> m \<and>
     (\<exists>k. main_node g cnt (infos ! m) (plans ! m) = Inr k \<and> k \<noteq> INVALID_TASK_ID) \<and> entry_ok (infos ! e) (plans ! e) \<and>
     (\<forall>i<length infos. i \<noteq> m \<longrightarrow> i \<noteq> e \<longrightarrow> sub_ok (infos ! i) (plans ! i))"

lemma stream_roles_good_choice:
  assumes "length plans = length infos" and "\<forall>p\<in>set plans. pl_candidateNodeId p = INVALID_TASK_ID"
    and "\<forall>j<length infos. \<exists>k. main_node g cnt (infos ! j) (plans ! j) = Inr k \<and> plans' ! j = plan_with k (plans ! j)"
  shows "good_choice infos plans' m e \<longleftrightarrow> stream_roles g cnt infos plans m e"
proof -
  have p: "sub_ok (infos ! j) (plans' ! j) = sub_ok (infos ! j) (plans ! j) \<and>
     entry_ok (infos ! j) (plans' ! j) = entry_ok (infos ! j) (plans ! j) \<and>
     is_main (infos ! j) (plans' ! j) = (\<exists>k. main_node g cnt (infos ! j) (plans ! j) = Inr k \<and> k \<noteq> INVALID_TASK_ID)"
    if j: "j < length infos" for j
  proof -
    obtain k where "main_node g cnt (infos ! j) (plans ! j) = Inr k" "plans' ! j = plan_with k (plans ! j)"
      using assms(3) j by blast
    moreover have "pl_candidateNodeId (plans ! j) = INVALID_TASK_ID" using assms(1,2) j by simp
    ultimately show ?thesis by (simp add: sub_ok_def entry_ok_def is_main_def plan_with_def sub_need_def
        front_count_def back_count_def)
  qed
  show ?thesis using p by (auto simp: good_choice_def stream_roles_def)
qed

lemma GetMainAndSubStreamOrder_choice:
  assumes run: "GetMainAndSubStreamOrder g plans infos cnt = Inr r" and n: "length infos \<noteq> 1"
    and len: "length plans = length infos" and inv: "\<forall>p\<in>set plans. pl_candidateNodeId p = INVALID_TASK_ID"
  shows "(\<exists>x. r = Inr x) \<longleftrightarrow> (\<exists>m e. stream_roles g cnt infos plans m e)"
  using run len inv
proof (cases rule: GetMainAndSubStreamOrder_cases)
  case none
  let ?c = "\<lparr> cs_mainStream = [], cs_subStream = [], cs_subStreamEntry = [] \<rparr>"
  have "CollectStreamCandidates g cnt 0 infos plans ?c = Inr None"
    using run n none by (auto simp: GetMainAndSubStreamOrder_def split: option.splits prod.splits if_splits)
  from CollectStreamCandidates_None[OF this len] obtain j where j: "j < length infos"
    "main_node g cnt (infos ! j) (plans ! j) = Inr INVALID_TASK_ID" "\<not> sub_ok (infos ! j) (plans ! j)"
    "\<not> entry_ok (infos ! j) (plans ! j)" by blast
  have "\<not> stream_roles g cnt infos plans m e" for m e
    using j by (cases "j = m"; cases "j = e") (auto simp: stream_roles_def)
  then show ?thesis using none by simp
next
  case (chosen plans' m e)
  then show ?thesis using stream_roles_good_choice[OF len inv chosen(3)] by blast
next
  case (no_choice plans')
  then show ?thesis using stream_roles_good_choice[OF len inv no_choice(3)] by simp
qed (use n in simp_all)

section \<open>With memory to allocate, the loop over the streams succeeds\<close>

definition working_acl :: "acl \<Rightarrow> bool" where
  "working_acl A \<longleftrightarrow> (\<forall>h b. fst (rt_malloc A h b) = ACL_SUCCESS \<and> snd (rt_malloc A h b) \<noteq> 0) \<and>
     (\<forall>h a b. rt_memset A h a b = ACL_SUCCESS)"

definition model_ready :: "res_state \<Rightarrow> bool" where
  "model_ready st \<longleftrightarrow> rs_currentModel st \<noteq> 0 \<and> rs_currentModel st \<in> fst ` set (rs_modelContexts st)"

lemma working_value_word:
  assumes "working_acl A" and "model_ready st"
  shows "\<exists>addr st'. value_word A st = (Some addr, st') \<and> model_ready st'"
proof -
  obtain addr where m: "rt_malloc A (rs_log st) kDefaultValueMemoryBytes = (ACL_SUCCESS, addr)" "addr \<noteq> 0"
    using assms(1) by (metis working_acl_def prod.collapse)
  obtain c where c: "map_of (rs_modelContexts st) (rs_currentModel st) = Some c"
    using assms(2) by (metis model_ready_def map_of_eq_None_iff not_None_eq)
  show ?thesis
    using assms m c by (auto simp: value_word_def ValueMemory_def AllocForModel_def runtime_call_defs Let_def
        working_acl_def model_ready_def kDefaultValueMemoryBytes_def dom_update)
qed

lemma sync_inv_start:
  "sync_inv infos plans L m [] a b \<lparr> wk_params = replicate (length infos) [], wk_eventNodes = [],
     wk_needFrontWaitCount = cnt, wk_prev = m, wk_res = rs \<rparr>"
  unfolding sync_inv_def by (intro conjI nth_equalityI)
    (auto simp: fronts_def handshake_def await_part_def arrive_part_def leave_part_def next_of_def)

lemma good_choice_syncs:
  assumes good: "good_choice infos plans m e" and len: "length plans = length infos"
    and size: "\<forall>x\<in>set infos. ss_nodeSize x \<noteq> 0" and A: "working_acl A" and rs: "model_ready rs"
  shows "\<exists>w. ProcessSubStreamSyncEvents A infos plans L (BuildSubStreamOrder (candidates_of infos plans) m e)
    \<lparr> wk_params = replicate (length infos) [], wk_eventNodes = [], wk_needFrontWaitCount = cnt, wk_prev = m,
      wk_res = rs \<rparr> = Inr (True, w)"
proof -
  let ?order = "BuildSubStreamOrder (candidates_of infos plans) m e"
  let ?w = "\<lparr> wk_params = replicate (length infos) [], wk_eventNodes = [], wk_needFrontWaitCount = cnt,
    wk_prev = m, wk_res = rs \<rparr>"
  let ?P = "\<lambda>st (as :: u64 list). model_ready st"
  note o = BuildSubStreamOrder_others[OF good]
  have pre: "distinct (m # [] @ ?order)" "\<forall>i\<in>set (m # [] @ ?order). i < length infos"
    using o good by (auto simp: good_choice_def)
  have P: "alloc_keeps A ?P" using working_value_word[OF A] by (fastforce simp: alloc_keeps_def)
  have never: "\<not> (\<exists>st as. ?P st as \<and> fst (value_word A st) = None)" using working_value_word[OF A] by fastforce
  have "\<not> (\<exists>D' D''. ?order = D' @ D'' \<and> D' \<noteq> [] \<and> \<not> fits infos plans m ([] @ D'))"
    using good_choice_fits[OF good _ size] by (metis append_Nil)
  then show ?thesis
    using ProcessSubStreamSyncEvents_run[where P = ?P and A = A, OF
        sync_inv_start[where L = L and a = "\<lambda>_. 0" and b = "\<lambda>_. 0" and cnt = cnt and rs = rs] pre len P]
      never rs by (auto split: if_splits)
qed

lemma CollectStreamBoundaryPlans_Some:
  assumes "CollectStreamBoundaryPlans g infos cnt = Some (plans, cnt')"
  shows "length plans = length infos \<and> (\<forall>p\<in>set plans. pl_candidateNodeId p = INVALID_TASK_ID) \<and>
    (\<forall>j<length infos. boundary_plan g (infos ! j) = Some (plans ! j)) \<and>
    cnt' = cnt + of_nat (length (filter pl_needFrontWait plans))"
  using assms
proof (induction infos arbitrary: cnt plans)
  case (Cons x xs)
  then obtain p ps where p: "boundary_plan g x = Some p" "plans = p # ps"
    "CollectStreamBoundaryPlans g xs (if pl_needFrontWait p then cnt + 1 else cnt) = Some (ps, cnt')"
    by (auto split: option.splits)
  have "pl_candidateNodeId p = INVALID_TASK_ID"
    using p(1) by (auto simp: boundary_plan_def default_plan_def split: option.splits)
  then show ?case using Cons.IH[OF p(3)] p(1,2) by (auto simp: nth_Cons split: nat.split)
qed simp

text \<open>
  C14 \<^bold>\<open>A main stream is found where there is one, and its streams then have room.\<close> For a scope of more than
  one stream, the selection fails only if there are no two streams of which one has a kernel behind
  the places its waits need and the other room to be the last of the chain, with room on all the rest.
  Where it succeeds, and the runtime gives memory, the waits and writes always fit: the loop over the
  streams does not fail.
\<close>

theorem GetMainAndSubStreamOrder_complete:
  assumes "CollectStreamBoundaryPlans g infos 0 = Some (plans, cnt)"
    and "GetMainAndSubStreamOrder g plans infos cnt = Inr r" and "length infos \<noteq> 1"
    and "\<forall>x\<in>set infos. ss_nodeSize x \<noteq> 0" and "working_acl A" and "model_ready rs"
  shows "case r of
      Inl status \<Rightarrow> \<forall>m e. \<not> stream_roles g cnt infos plans m e
    | Inr (mainNode, m, order, plans') \<Rightarrow> (\<exists>e. stream_roles g cnt infos plans m e) \<and>
        (\<exists>w. ProcessSubStreamSyncEvents A infos plans' lastNode order
           \<lparr> wk_params = replicate (length infos) [], wk_eventNodes = [], wk_needFrontWaitCount = cnt, wk_prev = m,
             wk_res = rs \<rparr> = Inr (True, w))"
proof -
  have len: "length plans = length infos" and inv: "\<forall>p\<in>set plans. pl_candidateNodeId p = INVALID_TASK_ID"
    using CollectStreamBoundaryPlans_Some[OF assms(1)] by simp_all
  have iff: "(\<exists>x. r = Inr x) \<longleftrightarrow> (\<exists>m e. stream_roles g cnt infos plans m e)"
    by (rule GetMainAndSubStreamOrder_choice[OF assms(2,3) len inv])
  from assms(2) len inv show ?thesis
  proof (cases rule: GetMainAndSubStreamOrder_cases)
    case (chosen plans' m e)
    have "stream_roles g cnt infos plans m e" using stream_roles_good_choice[OF len inv chosen(3)] chosen(4) by simp
    then show ?thesis
      using good_choice_syncs[OF chosen(4,2) assms(4,5,6), of lastNode cnt] unfolding chosen(5) by auto
  qed (use iff assms(3) in auto)
qed

definition constant_acl :: acl where
  "constant_acl = sample_acl\<lparr> rt_malloc := (\<lambda>h b. (ACL_SUCCESS, 4096)) \<rparr>"

end
