(* ===== verification/Sk_Handshake.thy ===== *)
theory Sk_Handshake
  imports Sk_Post_Sound "HOL-Library.Sublist"
begin

text \<open>
  The waits and writes of a postprocessed scope, run: a device on which every stream does its tasks in
  order. The kernel starts after the streams have arrived, the streams leave after it has ended, no run
  blocks, and the words of memory end as they began, so the model can be run again.
\<close>

section \<open>The device\<close>

text \<open>
  A write sets a word, a wait holds its stream until the word has the value. The main stream launches the
  fused kernel when its tasks are done; the kernel ends by doing the event nodes: a reset node clears its
  word, a notify node sets it. The kernel is one step of this device: the handshake is between its start
  and its end and the streams. What its cores do in between, with the events among the tasks of their
  queues, is the subject of the task builder's theories.
\<close>

record device =
  dv_mem :: "u64 \<Rightarrow> u64"
  dv_left :: "task_value list list"
  dv_launched :: bool

definition event_effect :: "sk_node \<Rightarrow> (u64 \<Rightarrow> u64) \<Rightarrow> u64 \<Rightarrow> u64" where
  "event_effect n mem = mem(event_addr n :=
     (if nd_nodeType n = NODE_RESET then SK_DEFAULT_RESET_VALUE else SK_DEFAULT_NOTIFY_VALUE))"

inductive device_step :: "nat \<Rightarrow> sk_node list \<Rightarrow> device \<Rightarrow> device \<Rightarrow> bool" for m evs where
  dev_write: "i < length (dv_left s) \<Longrightarrow> dv_left s ! i = ValueWrite a v # ts \<Longrightarrow>
    device_step m evs s (s\<lparr> dv_mem := (dv_mem s)(a := v), dv_left := (dv_left s)[i := ts] \<rparr>)"
| dev_wait: "i < length (dv_left s) \<Longrightarrow> dv_left s ! i = ValueWait a v WAIT_FLAG_EQ # ts \<Longrightarrow> dv_mem s a = v \<Longrightarrow>
    device_step m evs s (s\<lparr> dv_left := (dv_left s)[i := ts] \<rparr>)"
| dev_launch: "dv_left s ! m = [] \<Longrightarrow> \<not> dv_launched s \<Longrightarrow>
    device_step m evs s (s\<lparr> dv_mem := fold event_effect evs (dv_mem s), dv_launched := True \<rparr>)"

inductive_cases device_stepE: "device_step m evs s t"

definition device_start :: "(u64 \<Rightarrow> u64) \<Rightarrow> task_value list list \<Rightarrow> device" where
  "device_start mem params = \<lparr> dv_mem = mem, dv_left = params, dv_launched = False \<rparr>"

definition device_done :: "device \<Rightarrow> bool" where
  "device_done s \<longleftrightarrow> dv_launched s \<and> (\<forall>ts\<in>set (dv_left s). ts = [])"

text \<open>Every step uses up a task or the launch.\<close>

definition device_todo :: "device \<Rightarrow> nat" where
  "device_todo s = sum_list (map length (dv_left s)) + (if dv_launched s then 0 else 1)"

lemma sum_list_tail:
  assumes "i < length xs" and "xs ! i = t # ts"
  shows "sum_list (map length xs) = Suc (sum_list (map length (xs[i := ts])))"
  using assms
proof (induction xs arbitrary: i)
  case (Cons x xs)
  then show ?case by (cases i) auto
qed simp

lemma device_step_todo: "device_step m evs s t \<Longrightarrow> device_todo s = Suc (device_todo t)"
  by (erule device_stepE) (auto simp: device_todo_def sum_list_tail)

lemma device_steps_todo: "(device_step m evs ^^ k) s t \<Longrightarrow> device_todo s = k + device_todo t"
  by (induction k arbitrary: t) (auto dest!: device_step_todo)

section \<open>Chains\<close>

lemma next_of_Cons: "next_of (x # y # xs) i = (if i = x then Some y else next_of (y # xs) i)"
  by (simp add: next_of_def)

lemma next_of_Nil [simp]: "next_of [] i = None" "next_of [x] i = None"
  by (simp_all add: next_of_def)

lemma chain_forward:
  assumes "distinct (x # xs)" and "P x" and "\<And>i j. next_of (x # xs) i = Some j \<Longrightarrow> P i \<Longrightarrow> P j"
  shows "\<forall>i\<in>set (x # xs). P i"
  using assms
proof (induction xs arbitrary: x)
  case (Cons y ys)
  have y: "P y" by (rule Cons.prems(3)[of x y, OF _ Cons.prems(2)]) (simp add: next_of_Cons)
  have "P j" if n: "next_of (y # ys) i = Some j" "P i" for i j
  proof -
    have "i \<noteq> x" using next_of_range[OF n(1)] Cons.prems(1) by auto
    then show ?thesis using Cons.prems(3)[of i j] n by (simp add: next_of_Cons)
  qed
  from Cons.IH[OF _ y this] Cons.prems(1,2) show ?case by auto
qed simp

lemma chain_backward:
  assumes "distinct xs" and "\<And>i. i \<in> set xs \<Longrightarrow> (\<And>j. next_of xs i = Some j \<Longrightarrow> P j) \<Longrightarrow> P i"
  shows "\<forall>i\<in>set xs. P i"
  using assms
proof (induction xs)
  case (Cons x xs)
  have tl: "\<forall>i\<in>set xs. P i"
  proof (rule Cons.IH)
    fix i assume i: "i \<in> set xs" "\<And>j. next_of xs i = Some j \<Longrightarrow> P j"
    have "next_of (x # xs) i = next_of xs i"
      using Cons.prems(1) i(1) by (cases xs) (auto simp: next_of_Cons)
    show "P i"
    proof (rule Cons.prems(2))
      show "P j" if "next_of (x # xs) i = Some j" for j using i(2) that \<open>next_of (x # xs) i = next_of xs i\<close> by simp
    qed (use i(1) in simp)
  qed (use Cons.prems(1) in simp)
  have "P j" if "next_of (x # xs) x = Some j" for j
    using next_of_range[OF that] tl by auto
  moreover have "x \<in> set (x # xs)" by simp
  ultimately have "P x" by (intro Cons.prems(2)[of x]) assumption+
  with tl show ?case by simp
qed simp

section \<open>The words of the events\<close>

lemma event_effects_other: "x \<notin> event_addr ` set evs \<Longrightarrow> fold event_effect evs mem x = mem x"
  by (induction evs arbitrary: mem) (auto simp: event_effect_def)

lemma event_effects_at:
  "distinct (map event_addr evs) \<Longrightarrow> n \<in> set evs \<Longrightarrow> fold event_effect evs mem (event_addr n) =
     (if nd_nodeType n = NODE_RESET then SK_DEFAULT_RESET_VALUE else SK_DEFAULT_NOTIFY_VALUE)"
proof (induction evs arbitrary: mem)
  case (Cons e evs)
  show ?case
  proof (cases "n = e")
    case True
    then have "event_addr n \<notin> event_addr ` set evs" using Cons.prems(1) by simp
    with True show ?thesis by (simp add: event_effects_other) (simp add: event_effect_def)
  next
    case False
    with Cons show ?thesis by simp
  qed
qed simp

section \<open>The invariant\<close>

text \<open>
  \<open>arrived\<close>: the stream has done its write in front, \<open>passed\<close>: it has done the wait before it. The tasks
  left are a suffix of the tasks of the plan.
\<close>

definition backs :: "stream_plan list \<Rightarrow> nat list \<Rightarrow> nat list" where
  "backs plans D = filter (\<lambda>i. pl_needBackBlock (plans ! i)) D"

definition arrived :: "(nat \<Rightarrow> task_value list) \<Rightarrow> device \<Rightarrow> nat \<Rightarrow> bool" where
  "arrived leave s i \<longleftrightarrow> length (dv_left s ! i) \<le> length (leave i)"

definition passed :: "(nat \<Rightarrow> task_value list) \<Rightarrow> (nat \<Rightarrow> task_value list) \<Rightarrow> device \<Rightarrow> nat \<Rightarrow> bool" where
  "passed arrive leave s i \<longleftrightarrow> length (dv_left s ! i) \<le> length (arrive i) + length (leave i)"

definition device_inv :: "nat \<Rightarrow> stream_plan list \<Rightarrow> nat \<Rightarrow> nat list \<Rightarrow> (nat \<Rightarrow> u64) \<Rightarrow> (nat \<Rightarrow> u64) \<Rightarrow> (u64 \<Rightarrow> u64) \<Rightarrow>
    device \<Rightarrow> bool" where
  "device_inv n plans m D a b mem0 s \<longleftrightarrow>
     length (dv_left s) = n \<and>
     (\<forall>i<n. suffix (dv_left s ! i) (handshake plans m D a b i)) \<and>
     (\<forall>i\<in>set (fronts plans D). dv_mem s (a i) =
        (if arrived (leave_part plans D b) s i \<and> \<not> dv_launched s then 1 else 0)) \<and>
     (\<forall>i\<in>set (backs plans D). dv_mem s (b i) = (if dv_launched s \<and> dv_left s ! i \<noteq> [] then 1 else 0)) \<and>
     (\<forall>x. x \<notin> a ` set (fronts plans D) \<longrightarrow> x \<notin> b ` set (backs plans D) \<longrightarrow> dv_mem s x = mem0 x) \<and>
     (\<forall>i j. next_of (m # fronts plans D) i = Some j \<longrightarrow>
        passed (arrive_part plans D a) (leave_part plans D b) s i \<longrightarrow> arrived (leave_part plans D b) s j) \<and>
     (dv_launched s \<longrightarrow> dv_left s ! m = []) \<and>
     (\<not> dv_launched s \<longrightarrow> (\<forall>i\<in>set (backs plans D). 2 \<le> length (dv_left s ! i)))"

lemma handshake_head:
  assumes "suffix (t # ts) (handshake plans m D a b i)"
  obtains (await) j where "next_of (m # fronts plans D) i = Some j" "t = wait_for (a j)"
      "ts = arrive_part plans D a i @ leave_part plans D b i"
  | (arrive) "i \<in> set (fronts plans D)" "t = ValueWrite (a i) SK_DEFAULT_NOTIFY_VALUE" "ts = leave_part plans D b i"
  | (leave) "i \<in> set (backs plans D)" "t = wait_for (b i)" "ts = [ValueWrite (b i) SK_DEFAULT_RESET_VALUE]"
  | (reset) "i \<in> set (backs plans D)" "t = ValueWrite (b i) SK_DEFAULT_RESET_VALUE" "ts = []"
proof -
  have B: "leave_part plans D b i = (if i \<in> set (backs plans D)
      then [wait_for (b i), ValueWrite (b i) SK_DEFAULT_RESET_VALUE] else [])"
    by (simp add: leave_part_def backs_def)
  consider "suffix (t # ts) (leave_part plans D b i)"
    | "i \<in> set (fronts plans D)" "t # ts = ValueWrite (a i) SK_DEFAULT_NOTIFY_VALUE # leave_part plans D b i"
    | j where "next_of (m # fronts plans D) i = Some j" "t # ts = wait_for (a j) # arrive_part plans D a i @ leave_part plans D b i"
    using assms by (auto simp: handshake_def await_part_def arrive_part_def suffix_Cons split: option.splits if_splits)
  then show thesis
  proof cases
    case 1
    then show thesis using leave reset by (auto simp: B suffix_Cons split: if_splits)
  qed (use await arrive in auto)
qed

lemma stream_events_addr: "event_addr ` set (stream_events infos plans L a b i) =
    (if pl_needFrontWait (plans ! i) then {a i} else {}) \<union> (if pl_needBackBlock (plans ! i) then {b i} else {})"
  by (simp add: stream_events_def)

lemma stream_events_addrs:
  "event_addr ` set (concat (map (stream_events infos plans L a b) D)) = a ` set (fronts plans D) \<union> b ` set (backs plans D)"
  by (simp add: image_UN stream_events_addr) (auto simp: fronts_def backs_def split: if_splits)

lemma shared_addr:
  assumes "distinct (concat (map A D))" and "distinct D" and "i \<in> set D" "j \<in> set D" "x \<in> set (A i)" "x \<in> set (A j)"
  shows "i = j"
  using assms by (induction D) auto

lemma words_distinct:
  assumes addr: "distinct (map event_addr (concat (map (stream_events infos plans L a b) D)))" and D: "distinct D"
  shows "inj_on a (set (fronts plans D))" "inj_on b (set (backs plans D))"
    "i \<in> set (fronts plans D) \<Longrightarrow> j \<in> set (backs plans D) \<Longrightarrow> a i \<noteq> b j"
proof -
  let ?A = "\<lambda>i. map event_addr (stream_events infos plans L a b i)"
  have d: "distinct (concat (map ?A D))" using addr by (simp add: map_concat o_def)
  have F: "a i \<in> set (?A i)" "i \<in> set D" if "i \<in> set (fronts plans D)" for i
    using that by (auto simp: stream_events_def fronts_def)
  have B: "b i \<in> set (?A i)" "i \<in> set D" if "i \<in> set (backs plans D)" for i
    using that by (auto simp: stream_events_def backs_def)
  show "inj_on a (set (fronts plans D))"
    using shared_addr[OF d D] F by (metis inj_onI)
  show "inj_on b (set (backs plans D))"
    using shared_addr[OF d D] B by (metis inj_onI)
  show "a i \<noteq> b j" if i: "i \<in> set (fronts plans D)" and j: "j \<in> set (backs plans D)"
  proof
    assume eq: "a i = b j"
    then have "i = j" using shared_addr[OF d D] F[OF i] B[OF j] by metis
    moreover have "distinct (?A i)"
      using d F(2)[OF i] by (auto simp: distinct_concat_iff)
    moreover have "pl_needFrontWait (plans ! i)" "pl_needBackBlock (plans ! j)"
      using i j by (simp_all add: fronts_def backs_def)
    ultimately show False using eq by (simp add: stream_events_def)
  qed
qed

lemma arrive_length: "length (arrive_part plans D a i) = (if i \<in> set (fronts plans D) then 1 else 0)"
  by (simp add: arrive_part_def)

lemma leave_length: "length (leave_part plans D b i) = (if i \<in> set (backs plans D) then 2 else 0)"
  by (simp add: leave_part_def backs_def)

lemma device_invD:
  assumes "device_inv n plans m D a b mem0 s"
  shows "length (dv_left s) = n"
    and "i < n \<Longrightarrow> suffix (dv_left s ! i) (handshake plans m D a b i)"
    and "i \<in> set (fronts plans D) \<Longrightarrow>
      dv_mem s (a i) = (if arrived (leave_part plans D b) s i \<and> \<not> dv_launched s then 1 else 0)"
    and "i \<in> set (backs plans D) \<Longrightarrow> dv_mem s (b i) = (if dv_launched s \<and> dv_left s ! i \<noteq> [] then 1 else 0)"
    and "x \<notin> a ` set (fronts plans D) \<Longrightarrow> x \<notin> b ` set (backs plans D) \<Longrightarrow> dv_mem s x = mem0 x"
    and "next_of (m # fronts plans D) i = Some j \<Longrightarrow>
      passed (arrive_part plans D a) (leave_part plans D b) s i \<Longrightarrow> arrived (leave_part plans D b) s j"
    and "dv_launched s \<Longrightarrow> dv_left s ! m = []"
    and "\<not> dv_launched s \<Longrightarrow> i \<in> set (backs plans D) \<Longrightarrow> 2 \<le> length (dv_left s ! i)"
  using assms unfolding device_inv_def by simp_all

lemma arrived_passed: "arrived leave s i \<Longrightarrow> passed arrive leave s i"
  by (simp add: arrived_def passed_def)

text \<open>Once the kernel is launched, or the main stream is ready to, all streams have arrived.\<close>

lemma all_arrived:
  assumes inv: "device_inv n plans m D a b mem0 s" and D: "distinct (m # D)" and "dv_left s ! m = []"
    and "i \<in> set (fronts plans D)"
  shows "arrived (leave_part plans D b) s i"
proof -
  let ?P = "\<lambda>i. passed (arrive_part plans D a) (leave_part plans D b) s i \<and>
    (i \<noteq> m \<longrightarrow> arrived (leave_part plans D b) s i)"
  have "distinct (m # fronts plans D)" using D by (auto simp: fronts_def)
  moreover have "?P m" using assms(3) by (simp add: passed_def)
  moreover have "?P j" if "next_of (m # fronts plans D) i = Some j" "?P i" for i j
    using device_invD(6)[OF inv that(1)] that(2) arrived_passed by blast
  ultimately have "\<forall>i\<in>set (m # fronts plans D). ?P i" by (rule chain_forward)
  moreover have "m \<notin> set (fronts plans D)" using D by (auto simp: fronts_def)
  ultimately show ?thesis using assms(4) by auto
qed

lemma handshake_lengths:
  "length (handshake plans m D a b i) = (case next_of (m # fronts plans D) i of None \<Rightarrow> 0 | Some j \<Rightarrow> 1) +
     length (arrive_part plans D a i) + length (leave_part plans D b i)"
  by (simp add: handshake_def await_part_def split: option.split)

lemma device_inv_start:
  assumes D: "distinct (m # D)" "\<forall>i\<in>set (m # D). i < n"
    and "\<forall>x \<in> a ` set (fronts plans D) \<union> b ` set (backs plans D). mem0 x = 0"
  shows "device_inv n plans m D a b mem0 (device_start mem0 (map (handshake plans m D a b) [0..<n]))"
proof -
  let ?s = "device_start mem0 (map (handshake plans m D a b) [0..<n])"
  have left: "dv_left ?s ! i = handshake plans m D a b i" if "i < n" for i
    using that by (simp add: device_start_def)
  have lt: "i < n" if "i \<in> set (m # fronts plans D) \<or> i \<in> set (backs plans D)" for i
    using that D(2) by (auto simp: fronts_def backs_def)
  have "\<not> passed (arrive_part plans D a) (leave_part plans D b) ?s i"
    if "next_of (m # fronts plans D) i = Some j" for i j
  proof -
    have "dv_left ?s ! i = handshake plans m D a b i" using next_of_range[OF that] by (intro left lt) auto
    then show ?thesis using that by (simp add: passed_def handshake_lengths)
  qed
  moreover have "\<not> arrived (leave_part plans D b) ?s i" if "i \<in> set (fronts plans D)" for i
    using that left[OF lt[of i]] by (simp add: arrived_def handshake_lengths arrive_length)
  moreover have "2 \<le> length (dv_left ?s ! i)" if "i \<in> set (backs plans D)" for i
    using that left[OF lt[of i]] by (simp add: handshake_lengths leave_length)
  ultimately show ?thesis
    using assms(3) left by (simp add: device_inv_def) (simp add: device_start_def)
qed

section \<open>Steps keep the invariant\<close>

text \<open>A task is done: what is left to show is about its stream and about the memory.\<close>

lemma device_inv_task:
  fixes i :: nat and ts :: "task_value list"
  assumes inv: "device_inv n plans m D a b mem0 s" and i: "i < n" "dv_left s ! i = t # ts"
    and s': "s' = s\<lparr> dv_mem := mem, dv_left := (dv_left s)[i := ts] \<rparr>"
    and A: "\<And>k. k \<in> set (fronts plans D) \<Longrightarrow>
      mem (a k) = (if arrived (leave_part plans D b) s' k \<and> \<not> dv_launched s then 1 else 0)"
    and B: "\<And>k. k \<in> set (backs plans D) \<Longrightarrow> mem (b k) = (if dv_launched s \<and> dv_left s' ! k \<noteq> [] then 1 else 0)"
    and C: "\<And>x. x \<notin> a ` set (fronts plans D) \<Longrightarrow> x \<notin> b ` set (backs plans D) \<Longrightarrow> mem x = dv_mem s x"
    and E: "\<And>j. next_of (m # fronts plans D) i = Some j \<Longrightarrow>
      length ts \<le> length (arrive_part plans D a i) + length (leave_part plans D b i) \<Longrightarrow> arrived (leave_part plans D b) s j"
    and G: "\<not> dv_launched s \<Longrightarrow> i \<in> set (backs plans D) \<Longrightarrow> 2 \<le> length ts"
  shows "device_inv n plans m D a b mem0 s'"
proof -
  note invD = device_invD[OF inv]
  have left: "dv_left s' ! k = (if k = i then ts else dv_left s ! k)" for k
    using i invD(1) by (simp add: s' nth_list_update)
  have mono: "arrived (leave_part plans D b) s' k" if "arrived (leave_part plans D b) s k" for k
    using that i(2) by (auto simp: arrived_def left)
  show ?thesis
    unfolding device_inv_def
  proof (intro conjI allI ballI impI)
    show "length (dv_left s') = n" using invD(1) by (simp add: s')
    show "suffix (dv_left s' ! k) (handshake plans m D a b k)" if "k < n" for k
      using invD(2)[OF that] i(2) by (auto simp: left intro: suffix_ConsD)
    show "dv_mem s' (a k) = (if arrived (leave_part plans D b) s' k \<and> \<not> dv_launched s' then 1 else 0)"
      if "k \<in> set (fronts plans D)" for k using A[OF that] by (simp add: s')
    show "dv_mem s' (b k) = (if dv_launched s' \<and> dv_left s' ! k \<noteq> [] then 1 else 0)"
      if "k \<in> set (backs plans D)" for k using B[OF that] by (simp add: s')
    show "dv_mem s' x = mem0 x" if "x \<notin> a ` set (fronts plans D)" "x \<notin> b ` set (backs plans D)" for x
      using C[OF that] invD(5)[OF that] by (simp add: s')
    show "arrived (leave_part plans D b) s' j" if n: "next_of (m # fronts plans D) k = Some j"
      and p: "passed (arrive_part plans D a) (leave_part plans D b) s' k" for k j
    proof (rule mono)
      show "arrived (leave_part plans D b) s j"
      proof (cases "k = i")
        case True
        then show ?thesis using E n p by (simp add: passed_def left)
      next
        case False
        then show ?thesis using invD(6)[OF n] p by (simp add: passed_def left)
      qed
    qed
    show "dv_left s' ! m = []" if "dv_launched s'"
    proof -
      have "dv_left s ! m = []" using invD(7) that by (simp add: s')
      moreover from this have "m \<noteq> i" using i(2) by auto
      ultimately show ?thesis by (simp add: left)
    qed
    show "2 \<le> length (dv_left s' ! k)" if "\<not> dv_launched s'" "k \<in> set (backs plans D)" for k
    proof -
      have "\<not> dv_launched s" using that by (simp add: s')
      then show ?thesis using invD(8)[OF _ that(2)] G that(2) by (auto simp: left)
    qed
  qed
qed

lemma wait_for_eq [simp]: "ValueWait x v WAIT_FLAG_EQ = wait_for y \<longleftrightarrow> x = y \<and> v = 1"
  "ValueWrite x v = wait_for y \<longleftrightarrow> False"
  by (auto simp: wait_for_def SK_DEFAULT_WAIT_VALUE_def)

lemma device_inv_step:
  assumes inv: "device_inv n plans m D a b mem0 s" and step: "device_step m evs s s'"
    and D: "distinct (m # D)" and evs: "evs = concat (map (stream_events infos plans L a b) D)"
    and words: "distinct (map event_addr evs)"
  shows "device_inv n plans m D a b mem0 s'"
proof -
  note invD = device_invD[OF inv]
  have D': "distinct D" using D by simp
  note W = words_distinct[OF words[unfolded evs] D']
  let ?F = "set (fronts plans D)" and ?B = "set (backs plans D)"
  let ?arr = "arrived (leave_part plans D b)"
  have B_D: "length (leave_part plans D b i) = (if i \<in> ?B then 2 else 0)" for i by (rule leave_length)
  have mF: "m \<notin> ?F" "m \<notin> ?B" using D by (auto simp: fronts_def backs_def)
  from step show ?thesis
  proof cases
    case (dev_write i x v ts)
    have i: "i < n" using dev_write(2) invD(1) by simp
    have left: "dv_left s' ! k = (if k = i then ts else dv_left s ! k)" for k
      using i invD(1) by (simp add: dev_write(1) nth_list_update)
    show ?thesis
    proof (rule handshake_head[OF invD(2)[OF i, unfolded dev_write(3)]])
      assume h: "i \<in> ?F" "ValueWrite x v = ValueWrite (a i) SK_DEFAULT_NOTIFY_VALUE" "ts = leave_part plans D b i"
      have "\<not> ?arr s i" using dev_write(3) h(3) by (simp add: arrived_def)
      then have nl: "\<not> dv_launched s" using all_arrived[OF inv D invD(7) h(1)] by blast
      show ?thesis
      proof (rule device_inv_task[OF inv i dev_write(3) dev_write(1)])
        show "((dv_mem s)(x := v)) (a k) = (if ?arr s' k \<and> \<not> dv_launched s then 1 else 0)" if "k \<in> ?F" for k
          using invD(3)[OF that] h(2,3) nl inj_onD[OF W(1) _ that h(1)]
          by (auto simp: arrived_def left SK_DEFAULT_NOTIFY_VALUE_def)
        show "((dv_mem s)(x := v)) (b k) = (if dv_launched s \<and> dv_left s' ! k \<noteq> [] then 1 else 0)" if "k \<in> ?B" for k
          using invD(4)[OF that] W(3)[OF h(1) that] h(2) nl by auto
        show "?arr s j" if "next_of (m # fronts plans D) i = Some j" for j
          using invD(6)[OF that] dev_write(3) h by (simp add: passed_def arrive_length)
      qed (use h B_D in \<open>auto simp: image_iff\<close>)
    next
      assume h: "i \<in> ?B" "ValueWrite x v = ValueWrite (b i) SK_DEFAULT_RESET_VALUE" "ts = []"
      have l: "dv_launched s" using invD(8)[OF _ h(1)] dev_write(3) h(3) by fastforce
      show ?thesis
      proof (rule device_inv_task[OF inv i dev_write(3) dev_write(1)])
        show "((dv_mem s)(x := v)) (a k) = (if ?arr s' k \<and> \<not> dv_launched s then 1 else 0)" if "k \<in> ?F" for k
          using invD(3)[OF that] W(3)[OF that h(1)] h(2) l by auto
        show "((dv_mem s)(x := v)) (b k) = (if dv_launched s \<and> dv_left s' ! k \<noteq> [] then 1 else 0)" if "k \<in> ?B" for k
          using invD(4)[OF that] h(2,3) l inj_onD[OF W(2) _ that h(1)] by (auto simp: left SK_DEFAULT_RESET_VALUE_def)
        show "?arr s j" if "next_of (m # fronts plans D) i = Some j" for j
          by (rule all_arrived[OF inv D invD(7)[OF l]]) (use next_of_range[OF that] in simp)
      qed (use h l in \<open>auto simp: image_iff\<close>)
    qed (simp_all add: dev_write)
  next
    case (dev_wait i x v ts)
    have i: "i < n" using dev_wait(2) invD(1) by simp
    have s': "s' = s\<lparr> dv_mem := dv_mem s, dv_left := (dv_left s)[i := ts] \<rparr>" by (simp add: dev_wait(1))
    have left: "dv_left s' ! k = (if k = i then ts else dv_left s ! k)" for k
      using i invD(1) by (simp add: s' nth_list_update)
    show ?thesis
    proof (rule handshake_head[OF invD(2)[OF i, unfolded dev_wait(3)]])
      fix j
      assume h: "next_of (m # fronts plans D) i = Some j" "ValueWait x v WAIT_FLAG_EQ = wait_for (a j)"
        "ts = arrive_part plans D a i @ leave_part plans D b i"
      have j: "j \<in> ?F" and iF: "i = m \<or> i \<in> ?F" using next_of_range[OF h(1)] by auto
      have arr: "?arr s j" and nl: "\<not> dv_launched s"
        using invD(3)[OF j] h(2) dev_wait(4) by (auto split: if_splits)
      show ?thesis
      proof (rule device_inv_task[OF inv i dev_wait(3) s'])
        show "dv_mem s (a k) = (if ?arr s' k \<and> \<not> dv_launched s then 1 else 0)" if "k \<in> ?F" for k
          using invD(3)[OF that] that dev_wait(3) h(3) by (auto simp: arrived_def left arrive_length)
        show "?arr s j'" if "next_of (m # fronts plans D) i = Some j'" for j' using that h(1) arr by simp
      qed (use invD(4) nl h(3) B_D in auto)
    next
      assume h: "i \<in> ?B" "ValueWait x v WAIT_FLAG_EQ = wait_for (b i)" "ts = [ValueWrite (b i) SK_DEFAULT_RESET_VALUE]"
      have l: "dv_launched s" using invD(4)[OF h(1)] h(2) dev_wait(4) by (auto split: if_splits)
      show ?thesis
      proof (rule device_inv_task[OF inv i dev_wait(3) s'])
        show "dv_mem s (b k) = (if dv_launched s \<and> dv_left s' ! k \<noteq> [] then 1 else 0)" if "k \<in> ?B" for k
          using invD(4)[OF that] l h(3) dev_wait(3) by (auto simp: left)
        show "?arr s j" if "next_of (m # fronts plans D) i = Some j" for j
          by (rule all_arrived[OF inv D invD(7)[OF l]]) (use next_of_range[OF that] in simp)
      qed (use invD(3) l in auto)
    qed (simp_all add: dev_wait)
  next
    case dev_launch
    have at_a: "fold event_effect evs (dv_mem s) (a i) = 0" if "i \<in> ?F" for i
    proof -
      let ?e = "event_node RI_TASK_EVENT_RESET NODE_RESET (ss_streamIdx (infos ! i)) L (a i)"
      have "?e \<in> set evs" using that by (auto simp: evs stream_events_def fronts_def)
      from event_effects_at[OF words this, of "dv_mem s"] show ?thesis
        by (simp add: SK_DEFAULT_RESET_VALUE_def) (simp add: event_node_def Let_def)
    qed
    have at_b: "fold event_effect evs (dv_mem s) (b i) = 1" if "i \<in> ?B" for i
    proof -
      let ?e = "event_node RI_TASK_EVENT_RECORD NODE_NOTIFY (ss_streamIdx (infos ! i)) L (b i)"
      have "?e \<in> set evs" using that by (auto simp: evs stream_events_def backs_def)
      from event_effects_at[OF words this, of "dv_mem s"] show ?thesis
        by (simp add: SK_DEFAULT_NOTIFY_VALUE_def) (simp add: event_node_def Let_def)
    qed
    have other: "fold event_effect evs (dv_mem s) x = dv_mem s x" if "x \<notin> a ` ?F" "x \<notin> b ` ?B" for x
      by (rule event_effects_other) (use that in \<open>simp add: evs stream_events_addrs del: set_concat\<close>)
    have nonempty: "dv_left s ! i \<noteq> []" if "i \<in> ?B" for i using invD(8)[OF dev_launch(3) that] by auto
    have ext: "passed p l s' = passed p l s" "?arr s' = ?arr s" for p l
      by (simp_all add: fun_eq_iff passed_def arrived_def dev_launch(1))
    show ?thesis
      unfolding device_inv_def ext
      using invD at_a at_b other nonempty dev_launch(2) by (auto simp: dev_launch(1))
  qed
qed

section \<open>No run blocks, and the words are left as they were\<close>

lemma device_progress:
  assumes inv: "device_inv n plans m D a b mem0 s" and D: "distinct (m # D)" "\<forall>i\<in>set (m # D). i < n"
    and cover: "\<forall>i<n. i \<in> set (m # D)" and stuck: "\<not> device_done s"
  shows "\<exists>s'. device_step m evs s s'"
proof (rule ccontr)
  assume no: "\<nexists>s'. device_step m evs s s'"
  note invD = device_invD[OF inv]
  have no_write: "dv_left s ! i \<noteq> ValueWrite x v # ts" if "i < n" for i x v ts
    using no dev_write[of i s x v ts m evs] that invD(1) by auto
  have no_wait: "dv_mem s x \<noteq> SK_DEFAULT_WAIT_VALUE" if "i < n" "dv_left s ! i = wait_for x # ts" for i x ts
    using no dev_wait[of i s x SK_DEFAULT_WAIT_VALUE ts m evs] that invD(1) by (auto simp: wait_for_def)
  have lt: "i < n" if "i \<in> set (m # fronts plans D) \<or> i \<in> set (backs plans D)" for i
    using that D(2) by (auto simp: fronts_def backs_def)
  have mF: "m \<notin> set (fronts plans D)" "m \<notin> set (backs plans D)" using D(1) by (auto simp: fronts_def backs_def)
  show False
  proof (cases "dv_launched s")
    case False
    let ?P = "\<lambda>i. if i = m then dv_left s ! m = [] else arrived (leave_part plans D b) s i"
    have "\<forall>i\<in>set (m # fronts plans D). ?P i"
    proof (rule chain_backward)
      show "distinct (m # fronts plans D)" using D(1) by (auto simp: fronts_def)
      fix i assume i: "i \<in> set (m # fronts plans D)" and nx: "\<And>j. next_of (m # fronts plans D) i = Some j \<Longrightarrow> ?P j"
      have iN: "i < n" using lt i by blast
      show "?P i"
      proof (cases "dv_left s ! i")
        case Nil
        then show ?thesis by (auto simp: arrived_def)
      next
        case (Cons t ts)
        show ?thesis
        proof (rule handshake_head[OF invD(2)[OF iN, unfolded Cons]])
          fix j assume h: "next_of (m # fronts plans D) i = Some j" "t = wait_for (a j)"
          have j: "j \<in> set (fronts plans D)" using next_of_range[OF h(1)] by simp
          with nx[OF h(1)] mF have "arrived (leave_part plans D b) s j" by (auto split: if_splits)
          then have "dv_mem s (a j) = SK_DEFAULT_WAIT_VALUE"
            using invD(3)[OF j] False by (simp add: SK_DEFAULT_WAIT_VALUE_def)
          then show ?thesis using no_wait[OF iN] Cons h(2) by blast
        next
          assume "i \<in> set (backs plans D)" "ts = [ValueWrite (b i) SK_DEFAULT_RESET_VALUE]"
          then show ?thesis using mF Cons by (auto simp: arrived_def leave_length)
        qed (use no_write[OF iN] Cons in \<open>blast+\<close>)
      qed
    qed
    then have "dv_left s ! m = []" by (metis list.set_intros(1))
    then show False using no dev_launch[of s m evs] False by blast
  next
    case True
    have "dv_left s ! i = []" if i: "i < n" for i
    proof (cases "dv_left s ! i")
      case (Cons t ts)
      show ?thesis
      proof (rule handshake_head[OF invD(2)[OF i, unfolded Cons]])
        fix j assume h: "next_of (m # fronts plans D) i = Some j" "t = wait_for (a j)"
          "ts = arrive_part plans D a i @ leave_part plans D b i"
        have "i = m \<or> i \<in> set (fronts plans D)" using next_of_range[OF h(1)] by auto
        then show ?thesis
        proof
          assume "i = m" then show ?thesis using invD(7)[OF True] by simp
        next
          assume iF: "i \<in> set (fronts plans D)"
          then show ?thesis using all_arrived[OF inv D(1) invD(7)[OF True] iF] Cons h(3)
            by (simp add: arrived_def arrive_length)
        qed
      next
        assume h: "i \<in> set (backs plans D)" "t = wait_for (b i)"
        then have "dv_mem s (b i) = SK_DEFAULT_WAIT_VALUE"
          using invD(4)[OF h(1)] True Cons by (simp add: SK_DEFAULT_WAIT_VALUE_def)
        then show ?thesis using no_wait[OF i] Cons h(2) by blast
      qed (use no_write[OF i] Cons in \<open>blast+\<close>)
    qed simp
    then show False using stuck True invD(1) by (auto simp: device_done_def in_set_conv_nth)
  qed
qed

lemma device_done_mem:
  assumes inv: "device_inv n plans m D a b mem0 s" and D: "\<forall>i\<in>set D. i < n" and fin: "device_done s"
    and zero: "\<forall>x \<in> a ` set (fronts plans D) \<union> b ` set (backs plans D). mem0 x = 0"
  shows "dv_mem s = mem0"
proof
  note invD = device_invD[OF inv]
  fix x
  have l: "dv_launched s" and e: "dv_left s ! i = []" if "i \<in> set D" for i
    using fin D invD(1) that by (auto simp: device_done_def)
  show "dv_mem s x = mem0 x"
  proof (cases "x \<in> a ` set (fronts plans D) \<union> b ` set (backs plans D)")
    case False
    then show ?thesis using invD(5) by simp
  next
    case True
    have "dv_mem s x = 0"
      using True invD(3,4) fin e by (auto simp: device_done_def backs_def)
    then show ?thesis using zero True by simp
  qed
qed

section \<open>Fresh words\<close>

text \<open>What the documentation of the allocation promises: a new block is not one that is still held.\<close>

definition fresh_malloc :: "acl \<Rightarrow> bool" where
  "fresh_malloc A \<longleftrightarrow> (\<forall>h b a M. rt_malloc A h b = (ACL_SUCCESS, a) \<longrightarrow> ledger h = Some M \<longrightarrow> a \<notin># M)"

definition words_held :: "res_state \<Rightarrow> u64 list \<Rightarrow> bool" where
  "words_held st as \<longleftrightarrow> distinct as \<and> 0 \<notin> set as \<and> (\<exists>M. ledger (rs_log st) = Some M \<and> set as \<subseteq> set_mset M)"

lemma AllocForModel_addr:
  "AllocForModel A model out bytes st = (ACL_SUCCESS, out', st') \<Longrightarrow>
   rt_malloc A (rs_log st) bytes = (ACL_SUCCESS, the out')"
  by (auto simp: AllocForModel_def runtime_call_defs Let_def split: if_splits prod.splits option.splits)

lemma value_word_held:
  assumes fresh: "fresh_malloc A" and held: "words_held st as" and w: "value_word A st = (Some addr, st')"
  shows "words_held st' (as @ [addr])"
proof -
  from w have alloc: "AllocForModel A (rs_currentModel st) (Some 0) kDefaultValueMemoryBytes st = (ACL_SUCCESS, Some addr, st')"
    and nz: "addr \<noteq> 0"
    by (auto simp: value_word_def ValueMemory_def Let_def split: prod.splits if_splits)
  from held obtain M where M: "ledger (rs_log st) = Some M" "set as \<subseteq> set_mset M" "distinct as" "0 \<notin> set as"
    by (auto simp: words_held_def)
  have new: "addr \<notin># M"
    using fresh AllocForModel_addr[OF alloc] M(1) by (auto simp: fresh_malloc_def)
  from alloc have "ledger (rs_log st') = Some (add_mset addr M)"
    by (cases rule: AllocForModel_cases) (use M nz in auto)
  then show ?thesis using new M nz by (auto simp: words_held_def)
qed

section \<open>The result of postprocessing\<close>

text \<open>The node a number of steps after another one on its stream.\<close>

primrec node_at :: "sk_graph \<Rightarrow> node_id \<Rightarrow> nat \<Rightarrow> node_id option" where
  "node_at g i 0 = Some i"
| "node_at g i (Suc d) = (case GetNodeById g i of None \<Rightarrow> None | Some n \<Rightarrow> node_at g (nd_nextNodeId n) d)"

text \<open>The nodes of a stream from a node to the last one of the scope; \<open>None\<close> where one is missing.\<close>

primrec stream_walk :: "nat \<Rightarrow> sk_graph \<Rightarrow> node_id \<Rightarrow> node_id \<Rightarrow> node_id list option" where
  "stream_walk 0 g tail i = None"
| "stream_walk (Suc fuel) g tail i = (if i = INVALID_TASK_ID then Some [] else case GetNodeById g i of None \<Rightarrow> None
     | Some n \<Rightarrow> if i = tail then Some [i] else map_option ((#) i) (stream_walk fuel g tail (nd_nextNodeId n)))"

text \<open>A place on the stream that every complete walk over it passes. The invalid id is no node's.\<close>

definition on_walk :: "sk_graph \<Rightarrow> node_id \<Rightarrow> node_id \<Rightarrow> nat \<Rightarrow> node_id \<Rightarrow> bool" where
  "on_walk g tail i d k \<longleftrightarrow> node_at g i d = Some k \<and> (GetNodeById g INVALID_TASK_ID = None \<longrightarrow>
     (\<forall>fuel ids. stream_walk fuel g tail i = Some ids \<longrightarrow> d < length ids \<and> ids ! d = k))"

lemma on_walk_0:
  assumes "GetNodeById g i = Some n"
  shows "on_walk g tail i 0 i"
  unfolding on_walk_def
proof (intro conjI allI impI)
  fix fuel ids assume "stream_walk fuel g tail i = Some ids" "GetNodeById g INVALID_TASK_ID = None"
  then show "0 < length ids" "ids ! 0 = i" using assms by (cases fuel; auto split: if_splits)+
qed simp

lemma on_walk_Suc:
  assumes n: "GetNodeById g i = Some n" and "i \<noteq> tail" and w: "on_walk g tail (nd_nextNodeId n) d k"
  shows "on_walk g tail i (Suc d) k"
  unfolding on_walk_def
proof (intro conjI allI impI)
  show "node_at g i (Suc d) = Some k" using n w by (simp add: on_walk_def)
  fix fuel ids assume walk: "stream_walk fuel g tail i = Some ids" and inv: "GetNodeById g INVALID_TASK_ID = None"
  then obtain f js where "stream_walk f g tail (nd_nextNodeId n) = Some js" "ids = i # js"
    using assms by (cases fuel) (auto split: if_splits)
  then show "Suc d < length ids" "ids ! Suc d = k" using w inv by (auto simp: on_walk_def)
qed

lemma AdvanceNodeWithinScope_at:
  assumes g: "graph_ok g" and "AdvanceNodeWithinScope g (GetNodeById g i) tail k = Some n"
    and w: "on_walk g tail (nd_nodeId n) d j"
  shows "on_walk g tail i (k + d) j"
  using assms(2)
proof (induction k arbitrary: i)
  case 0
  then have "nd_nodeId n = i" using g by (cases "GetNodeById g i") (auto simp: graph_ok_def GetNodeById_def)
  then show ?case using w by simp
next
  case (Suc k)
  then obtain x where x: "GetNodeById g i = Some x" "nd_nodeId x \<noteq> tail"
    "AdvanceNodeWithinScope g (GetNodeById g (nd_nextNodeId x)) tail k = Some n"
    by (cases "GetNodeById g i") (auto split: if_splits)
  have "nd_nodeId x = i" using g x(1) by (auto simp: graph_ok_def GetNodeById_def)
  then show ?case using on_walk_Suc[OF x(1) _ Suc.IH[OF x(3)]] x(2) by simp
qed

lemma AdvanceNodeWithinScope_node:
  "graph_ok g \<Longrightarrow> AdvanceNodeWithinScope g p tail k = Some n \<Longrightarrow> (\<And>x. p = Some x \<Longrightarrow> GetNodeById g (nd_nodeId x) = Some x) \<Longrightarrow>
   GetNodeById g (nd_nodeId n) = Some n"
proof (induction k arbitrary: p)
  case 0
  then show ?case by (cases p) auto
next
  case (Suc k)
  then obtain x where x: "p = Some x" "AdvanceNodeWithinScope g (GetNodeById g (nd_nextNodeId x)) tail k = Some n"
    by (cases p) (auto split: if_splits)
  show ?case
    by (rule Suc.IH[OF Suc.prems(1) x(2)]) (use Suc.prems(1) in \<open>auto simp: graph_ok_def GetNodeById_def\<close>)
qed

lemma find_kernel_at:
  assumes "graph_ok g" and "find_kernel fuel g tail (GetNodeById g i) = Inr k" and "k \<noteq> INVALID_TASK_ID"
  shows "\<exists>d n. on_walk g tail i d k \<and> GetNodeById g k = Some n \<and> nd_nodeType n = NODE_KERNEL"
  using assms(2)
proof (induction fuel arbitrary: i)
  case (Suc fuel)
  then obtain n where n: "GetNodeById g i = Some n" using assms(3) by (cases "GetNodeById g i") auto
  then have id: "nd_nodeId n = i" using assms(1) by (auto simp: graph_ok_def GetNodeById_def)
  show ?case
  proof (cases "nd_nodeType n = NODE_KERNEL")
    case True
    then show ?thesis using Suc.prems n id on_walk_0[OF n] by (intro exI[of _ 0] exI[of _ n]) simp
  next
    case False
    then have nx: "find_kernel fuel g tail (GetNodeById g (nd_nextNodeId n)) = Inr k" "i \<noteq> tail"
      using Suc.prems n id assms(3) by (auto split: if_splits)
    from Suc.IH[OF nx(1)] obtain d m where "on_walk g tail (nd_nextNodeId n) d k"
      "GetNodeById g k = Some m" "nd_nodeType m = NODE_KERNEL" by blast
    then show ?thesis using on_walk_Suc[OF n nx(2)] by (intro exI[of _ "Suc d"] exI[of _ m]) simp
  qed
qed simp

lemma main_node_at:
  assumes g: "graph_ok g" and "main_node g cnt x p = Inr k" and "k \<noteq> INVALID_TASK_ID"
  shows "\<exists>d n. main_reserve cnt p \<le> d \<and> on_walk g (ss_tailNodeIdx x) (ss_headNodeIdx x) d k \<and>
    GetNodeById g k = Some n \<and> nd_nodeType n = NODE_KERNEL"
proof -
  let ?r = "main_reserve cnt p"
  have run: "find_kernel (walk_fuel g) g (ss_tailNodeIdx x)
      (AdvanceNodeWithinScope g (GetNodeById g (ss_headNodeIdx x)) (ss_tailNodeIdx x) ?r) = Inr k"
    using assms(2) by (simp add: main_node_def FindKernelNodeWithFrontReserve_def)
  then obtain n where n: "AdvanceNodeWithinScope g (GetNodeById g (ss_headNodeIdx x)) (ss_tailNodeIdx x) ?r = Some n"
    using assms(3) by (cases "AdvanceNodeWithinScope g (GetNodeById g (ss_headNodeIdx x)) (ss_tailNodeIdx x) ?r")
      (auto simp: walk_fuel_def)
  have id: "GetNodeById g (nd_nodeId n) = Some n"
    by (rule AdvanceNodeWithinScope_node[OF g n]) (use g in \<open>auto simp: graph_ok_def GetNodeById_def\<close>)
  obtain d m where "on_walk g (ss_tailNodeIdx x) (nd_nodeId n) d k" "GetNodeById g k = Some m" "nd_nodeType m = NODE_KERNEL"
    using find_kernel_at[OF g _ assms(3), of "walk_fuel g" "ss_tailNodeIdx x" "nd_nodeId n"] run n id by auto
  then show ?thesis using AdvanceNodeWithinScope_at[OF g n] by (intro exI[of _ "?r + d"] exI[of _ m]) simp
qed

lemma main_reserve_other:
  assumes "m < length plans" "j < length plans" "j \<noteq> m" "pl_needFrontWait (plans ! j)" "length plans < 2 ^ 32"
  shows "main_reserve (of_nat (length (filter pl_needFrontWait plans))) (plans ! m) = 1"
proof -
  let ?S = "{i. i < length plans \<and> pl_needFrontWait (plans ! i)}" and ?c = "length (filter pl_needFrontWait plans)"
  have c: "?c = card ?S" by (simp add: length_filter_conv_card)
  have b: "?c < 2 ^ 32" using assms(5) by (rule le_less_trans[OF length_filter_le])
  have fin: "finite ?S" by simp
  have more: "(if pl_needFrontWait (plans ! m) then 1 else 0) < ?c"
  proof (cases "pl_needFrontWait (plans ! m)")
    case True
    have "card {m, j} \<le> card ?S" by (rule card_mono[OF fin]) (use assms True in auto)
    then show ?thesis using assms(3) True c by simp
  next
    case False
    have "card {j} \<le> card ?S" by (rule card_mono[OF fin]) (use assms in auto)
    then show ?thesis using False c by simp
  qed
  have u: "unat (of_nat ?c :: u32) = ?c" using b by (simp add: unat_of_nat)
  have f: "unat (front_count (plans ! m)) = (if pl_needFrontWait (plans ! m) then 1 else 0)" by (simp add: front_count_def)
  have "front_count (plans ! m) < (of_nat ?c :: u32)" using more u f by (simp add: word_less_nat_alt)
  then have "front_count (plans ! m) \<le> (of_nat ?c :: u32)" "(of_nat ?c :: u32) \<noteq> front_count (plans ! m)"
    by auto
  then show ?thesis by (simp add: main_reserve_def Let_def word_gt_0)
qed

definition has_pre :: "sk_graph \<Rightarrow> stream_info \<Rightarrow> bool" where
  "has_pre g x \<longleftrightarrow> map_option nd_preNodeId (GetNodeById g (ss_headNodeIdx x)) \<noteq> Some INVALID_TASK_ID"

definition has_next :: "sk_graph \<Rightarrow> stream_info \<Rightarrow> bool" where
  "has_next g x \<longleftrightarrow> map_option nd_nextNodeId (GetNodeById g (ss_tailNodeIdx x)) \<noteq> Some INVALID_TASK_ID"

lemma boundary_plan_needs:
  "boundary_plan g x = Some p \<Longrightarrow> pl_needFrontWait p = has_pre g x \<and> pl_needBackBlock p = has_next g x"
  by (auto simp: boundary_plan_def has_pre_def has_next_def split: option.splits)

text \<open>What a successful run leaves: the plan of the waits and writes for a choice of the main stream.\<close>

definition post_plan :: "sk_graph \<Rightarrow> stream_info list \<Rightarrow> scope_ext \<Rightarrow> nat \<Rightarrow> nat list \<Rightarrow> stream_plan list \<Rightarrow>
    node_id \<Rightarrow> (nat \<Rightarrow> u64) \<Rightarrow> (nat \<Rightarrow> u64) \<Rightarrow> bool" where
  "post_plan g infos ext m order plans L a b \<longleftrightarrow>
     distinct (m # order) \<and> set (m # order) = {..<length infos} \<and> length plans = length infos \<and>
     (\<forall>j<length infos. pl_needFrontWait (plans ! j) = has_pre g (infos ! j) \<and>
        pl_needBackBlock (plans ! j) = has_next g (infos ! j)) \<and>
     ex_customParamsList ext = map (handshake plans m order a b) [0..<length infos] \<and>
     ex_eventNodes ext = concat (map (stream_events infos plans L a b) order) \<and>
     distinct (map event_addr (ex_eventNodes ext)) \<and> (\<forall>n\<in>set (ex_eventNodes ext). event_addr n \<noteq> 0) \<and>
     (\<forall>j<length infos. length (ex_customParamsList ext ! j) \<le> unat (ss_nodeSize (infos ! j))) \<and>
     (\<exists>d n. length (ex_customParamsList ext ! m) \<le> d \<and>
        on_walk g (ss_tailNodeIdx (infos ! m)) (ss_headNodeIdx (infos ! m)) d (ex_skMainNodeId ext) \<and>
        GetNodeById g (ex_skMainNodeId ext) = Some n \<and> nd_nodeType n = NODE_KERNEL)"

lemma PostProcess_success:
  assumes "PostProcess A sc g rs = Inr (True, sc', g', rs')"
  obtains filtered plans cnt mainNode m order plans' n w where
    "FilterCancelledNodes g (sc_nodes sc) = Inr filtered" and "filtered \<noteq> []"
    "CollectStreamBoundaryPlans g (sc_streamInfos sc) 0 = Some (plans, cnt)"
    "GetMainAndSubStreamOrder g plans (sc_streamInfos sc) cnt = Inr (Inr (mainNode, m, order, plans'))"
    "ProcessSubStreamSyncEvents A (sc_streamInfos sc) plans' n order
         \<lparr> wk_params = replicate (length (sc_streamInfos sc)) [], wk_eventNodes = [], wk_needFrontWaitCount = cnt,
           wk_prev = m, wk_res = rs \<rparr> = Inr (True, w)"
    "sc_ext sc' = \<lparr> ex_customParamsList = wk_params w, ex_filteredNodes = filtered, ex_eventNodes = wk_eventNodes w,
       ex_skMainNodeId = mainNode, ex_scopeName = '''', ex_processStatus = SPS_SUCCESS \<rparr>"
    "sc_nodes sc' = sc_nodes sc" "sc_streamInfos sc' = sc_streamInfos sc"
  using assms that
  by (auto simp: PostProcess_def Let_def FinalizePostProcess_def set_status_def default_ext_def
      split: if_splits option.splits sum.splits prod.splits)

lemma PostProcess_post_plan:
  assumes g: "graph_ok g" and fresh: "fresh_malloc A" and books: "books_kept rs"
    and size: "\<forall>x\<in>set (sc_streamInfos sc). ss_nodeSize x \<noteq> 0" and few: "length (sc_streamInfos sc) < 2 ^ 32"
    and run: "PostProcess A sc g rs = Inr (True, sc', g', rs')"
  shows "\<exists>m order plans L a b. post_plan g (sc_streamInfos sc) (sc_ext sc') m order plans L a b"
proof -
  let ?infos = "sc_streamInfos sc"
  from run obtain filtered plans cnt mainNode m order plans' L w where
    bound: "CollectStreamBoundaryPlans g ?infos 0 = Some (plans, cnt)"
    and choice: "GetMainAndSubStreamOrder g plans ?infos cnt = Inr (Inr (mainNode, m, order, plans'))"
    and sync: "ProcessSubStreamSyncEvents A ?infos plans' L order
         \<lparr> wk_params = replicate (length ?infos) [], wk_eventNodes = [], wk_needFrontWaitCount = cnt,
           wk_prev = m, wk_res = rs \<rparr> = Inr (True, w)"
    and ext: "sc_ext sc' = \<lparr> ex_customParamsList = wk_params w, ex_filteredNodes = filtered,
       ex_eventNodes = wk_eventNodes w, ex_skMainNodeId = mainNode, ex_scopeName = '''', ex_processStatus = SPS_SUCCESS \<rparr>"
    by (rule PostProcess_success)
  note plans = CollectStreamBoundaryPlans_Some[OF bound]
  have len: "length plans = length ?infos" and inv: "\<forall>p\<in>set plans. pl_candidateNodeId p = INVALID_TASK_ID"
    and each: "\<And>j. j < length ?infos \<Longrightarrow> boundary_plan g (?infos ! j) = Some (plans ! j)"
    and cnt: "cnt = of_nat (length (filter pl_needFrontWait plans))"
    using plans by simp_all
  show ?thesis
  proof (rule GetMainAndSubStreamOrder_cases[OF choice len inv])
    fix plans'' k
    assume one: "length ?infos = 1" "main_node g cnt (?infos ! 0) (plans ! 0) = Inr k" "k \<noteq> INVALID_TASK_ID"
      "plans'' = [plan_with k (plans ! 0)]" "Inr (mainNode, m, order, plans') = Inr (k, unat INVALID_STREAM_ID, [], plans'')"
    have w: "wk_params w = [[]]" "wk_eventNodes w = []" using sync one(1,5) by auto
    obtain d n where d: "on_walk g (ss_tailNodeIdx (?infos ! 0)) (ss_headNodeIdx (?infos ! 0)) d k" "GetNodeById g k = Some n"
      "nd_nodeType n = NODE_KERNEL" using main_node_at[OF g one(2,3)] by blast
    have "post_plan g ?infos (sc_ext sc') 0 [] plans'' L (\<lambda>_. 0) (\<lambda>_. 0)"
      using one d w each[of 0] len boundary_plan_needs[of g "?infos ! 0" "plans ! 0"]
      by (auto simp: post_plan_def ext handshake_def await_part_def arrive_part_def leave_part_def fronts_def)
    then show ?thesis by blast
  next
    fix plans'' m' e
    assume l1: "length ?infos \<noteq> 1" and len': "length plans'' = length ?infos"
      and nodes: "\<forall>j<length ?infos. \<exists>k. main_node g cnt (?infos ! j) (plans ! j) = Inr k \<and> plans'' ! j = plan_with k (plans ! j)"
      and good: "good_choice ?infos plans'' m' e"
      and "Inr (mainNode, m, order, plans') = Inr (pl_candidateNodeId (plans'' ! m'), m',
        BuildSubStreamOrder (candidates_of ?infos plans'') m' e, plans'')"
    then have eqs: "m = m'" "plans' = plans''" "order = BuildSubStreamOrder (candidates_of ?infos plans'') m' e"
      "mainNode = pl_candidateNodeId (plans'' ! m')" by auto
    have good: "good_choice ?infos plans' m e" using good eqs by simp
    note o = BuildSubStreamOrder_others[OF good]
    have order: "order = BuildSubStreamOrder (candidates_of ?infos plans') m e" using eqs by simp
    have mlt: "m < length ?infos" using good by (simp add: good_choice_def)
    have d: "distinct (m # order)" "set (m # order) = {..<length ?infos}" using o mlt unfolding order by auto
    let ?w0 = "\<lparr> wk_params = replicate (length ?infos) [], wk_eventNodes = [], wk_needFrontWaitCount = cnt,
           wk_prev = m, wk_res = rs \<rparr>"
    have start: "sync_inv ?infos plans' L m [] (\<lambda>_. 0) (\<lambda>_. 0) ?w0" by (rule sync_inv_start)
    have held: "words_held (wk_res ?w0) (map event_addr (wk_eventNodes ?w0))"
      using books by (simp add: words_held_def books_kept_def)
    have pre: "distinct (m # [] @ order)" "\<forall>i\<in>set (m # [] @ order). i < length ?infos" "length plans' = length ?infos"
      using d len' eqs by auto
    have "\<exists>a b. sync_inv ?infos plans' L m ([] @ order) a b w \<and> words_held (wk_res w) (map event_addr (wk_eventNodes w))"
      by (rule ProcessSubStreamSyncEvents_ok[where P = words_held, OF start pre sync _ held]) (use value_word_held[OF fresh] in \<open>auto simp: alloc_keeps_def\<close>)
    then obtain a b where inv': "sync_inv ?infos plans' L m order a b w"
      and words: "words_held (wk_res w) (map event_addr (wk_eventNodes w))" by auto
    have fits: "fits ?infos plans' m order" by (rule good_choice_fits[OF good _ size, of order "[]"]) (simp add: order)
    have par: "wk_params w = map (handshake plans' m order a b) [0..<length ?infos]"
      and evs: "wk_eventNodes w = concat (map (stream_events ?infos plans' L a b) order)"
      using inv' by (simp_all add: sync_inv_def)
    from nodes mlt eqs obtain k where k: "main_node g cnt (?infos ! m) (plans ! m) = Inr k" "plans' ! m = plan_with k (plans ! m)" by auto
    have needs: "pl_needFrontWait (plans' ! j) = pl_needFrontWait (plans ! j) \<and>
      pl_needBackBlock (plans' ! j) = pl_needBackBlock (plans ! j)" if "j < length ?infos" for j
      using nodes that eqs by (auto dest!: spec[of _ j])
    have nok: "k \<noteq> INVALID_TASK_ID" and main: "mainNode = k"
      using good k eqs inv len mlt by (auto simp: good_choice_def is_main_def plan_with_def split: if_splits)
    obtain dist n where at: "main_reserve cnt (plans ! m) \<le> dist" "on_walk g (ss_tailNodeIdx (?infos ! m)) (ss_headNodeIdx (?infos ! m)) dist k"
      "GetNodeById g k = Some n" "nd_nodeType n = NODE_KERNEL" using main_node_at[OF g k(1) nok] by blast
    have mo: "m \<notin> set order" using d(1) by simp
    have "length (handshake plans' m order a b m) \<le> main_reserve cnt (plans ! m)"
    proof (cases "next_of (m # fronts plans' order) m")
      case (Some j)
      have j: "j \<in> set order" "pl_needFrontWait (plans' ! j)" using next_of_range[OF Some] by (auto simp: set_fronts)
      have "j < length ?infos" "j \<noteq> m" using j(1) d by auto
      then have "main_reserve cnt (plans ! m) = 1"
        unfolding cnt using main_reserve_other[of m plans j] j(2) needs[of j] mlt len few by simp
      then show ?thesis using mo by (simp add: handshake_length)
    qed (simp add: handshake_length mo)
    then have "length (wk_params w ! m) \<le> dist" using at(1) mlt by (simp add: par)
    moreover have "pl_needFrontWait (plans' ! j) = has_pre g (?infos ! j) \<and> pl_needBackBlock (plans' ! j) = has_next g (?infos ! j)"
      if "j < length ?infos" for j using needs[OF that] boundary_plan_needs[OF each[OF that]] by simp
    moreover have "length (wk_params w ! j) \<le> unat (ss_nodeSize (?infos ! j))" if "j < length ?infos" for j
      using fits that by (simp add: par fits_def EnsureStreamCapacity_def)
    moreover have "length plans' = length ?infos" using eqs len' by simp
    ultimately have "post_plan g ?infos (sc_ext sc') m order plans' L a b"
      unfolding post_plan_def using d at main words par evs by (auto simp: ext words_held_def simp del: set_concat map_concat)
    then show ?thesis by blast
  qed simp_all
qed

section \<open>The handshake\<close>

lemma device_inv_run:
  assumes "(device_step m evs)\<^sup>*\<^sup>* s s'" and "device_inv n plans m D a b mem0 s"
    and "distinct (m # D)" and "evs = concat (map (stream_events infos plans L a b) D)" and "distinct (map event_addr evs)"
  shows "device_inv n plans m D a b mem0 s'"
  using assms(1,2) by (induction) (use device_inv_step[OF _ _ assms(3-5)] in blast)+

definition handshake_ok :: "sk_graph \<Rightarrow> stream_info list \<Rightarrow> nat \<Rightarrow> task_value list list \<Rightarrow> sk_node list \<Rightarrow> (u64 \<Rightarrow> u64) \<Rightarrow> device \<Rightarrow> bool" where
  "handshake_ok g infos m params evs mem s \<longleftrightarrow>
     (dv_launched s \<longrightarrow> (\<forall>i<length infos. i \<noteq> m \<longrightarrow> has_pre g (infos ! i) \<longrightarrow>
        (\<exists>x. ValueWrite x SK_DEFAULT_NOTIFY_VALUE \<in> set (params ! i)) \<and>
        (\<forall>x. ValueWrite x SK_DEFAULT_NOTIFY_VALUE \<notin> set (dv_left s ! i)))) \<and>
     (\<not> dv_launched s \<longrightarrow> (\<forall>i<length infos. i \<noteq> m \<longrightarrow> has_next g (infos ! i) \<longrightarrow> dv_left s ! i \<noteq> [])) \<and>
     (device_done s \<or> (\<exists>s'. device_step m evs s s')) \<and>
     (device_done s \<longrightarrow> dv_mem s = mem)"

lemma post_plan_handshake:
  assumes plan: "post_plan g infos ext m order plans L a b"
    and zero: "\<forall>n\<in>set (ex_eventNodes ext). mem (event_addr n) = 0"
    and run: "(device_step m (ex_eventNodes ext))\<^sup>*\<^sup>* (device_start mem (ex_customParamsList ext)) s"
  shows "handshake_ok g infos m (ex_customParamsList ext) (ex_eventNodes ext) mem s"
proof -
  let ?n = "length infos"
  have d: "distinct (m # order)" "set (m # order) = {..<?n}"
    and evs: "ex_eventNodes ext = concat (map (stream_events infos plans L a b) order)"
    and words: "distinct (map event_addr (ex_eventNodes ext))"
    and par: "ex_customParamsList ext = map (handshake plans m order a b) [0..<?n]"
    and needs: "\<And>j. j < ?n \<Longrightarrow> pl_needFrontWait (plans ! j) = has_pre g (infos ! j) \<and>
        pl_needBackBlock (plans ! j) = has_next g (infos ! j)"
    using plan unfolding post_plan_def by blast+
  have lt: "\<forall>i\<in>set (m # order). i < ?n" and cover: "\<forall>i<?n. i \<in> set (m # order)" using d(2) by auto
  have Z: "\<forall>x \<in> a ` set (fronts plans order) \<union> b ` set (backs plans order). mem x = 0"
    using zero stream_events_addrs[of infos plans L a b order] unfolding evs[symmetric] by (metis imageE)
  have inv: "device_inv ?n plans m order a b mem s"
    using device_inv_run[OF run _ d(1) evs words] device_inv_start[OF d(1) lt Z] by (simp add: par)
  note invD = device_invD[OF inv]
  have other: "i \<in> set order" if "i < ?n" "i \<noteq> m" for i using cover that by auto
  have "(\<exists>x. ValueWrite x SK_DEFAULT_NOTIFY_VALUE \<in> set (ex_customParamsList ext ! i)) \<and>
        (\<forall>x. ValueWrite x SK_DEFAULT_NOTIFY_VALUE \<notin> set (dv_left s ! i))"
    if l: "dv_launched s" and i: "i < ?n" "i \<noteq> m" "has_pre g (infos ! i)" for i
  proof -
    have F: "i \<in> set (fronts plans order)" using other needs i by (simp add: set_fronts)
    have "arrived (leave_part plans order b) s i" by (rule all_arrived[OF inv d(1) invD(7)[OF l] F])
    then have "suffix (dv_left s ! i) (leave_part plans order b i)"
      using invD(2)[OF i(1)] by (auto simp: arrived_def handshake_def suffix_append)
    then have "set (dv_left s ! i) \<subseteq> set (leave_part plans order b i)" by (rule set_mono_suffix)
    then show ?thesis
      using i(1) F by (auto simp: par handshake_def arrive_part_def leave_part_def wait_for_def
          SK_DEFAULT_NOTIFY_VALUE_def SK_DEFAULT_RESET_VALUE_def split: if_splits)
  qed
  moreover have "dv_left s ! i \<noteq> []" if "\<not> dv_launched s" "i < ?n" "i \<noteq> m" "has_next g (infos ! i)" for i
    using invD(8)[OF that(1), of i] other needs that by (auto simp: backs_def)
  moreover have "device_done s \<or> (\<exists>s'. device_step m (ex_eventNodes ext) s s')"
    using device_progress[OF inv d(1) lt cover] by blast
  moreover have "dv_mem s = mem" if "device_done s"
    using device_done_mem[OF inv _ that Z] lt by simp
  ultimately show ?thesis unfolding handshake_ok_def by blast
qed

text \<open>
  C13 \<^bold>\<open>The streams of a postprocessed scope wait for each other.\<close> If postprocessing succeeds, with an
  allocation that gives no block twice, one stream \<open>m\<close> holds the kernel that launches the fused kernel, behind
  the places its own waits take, and no stream gets more tasks than it has nodes. However the streams
  then interleave: the fused kernel starts only after every other stream with work before the scope has
  arrived; no other stream with work behind it has run through before the kernel is launched; no run
  blocks before all is done; a run takes as many steps as there are tasks, and one; and at the end every
  word of memory is as it was before, so that the model can run again.
\<close>

theorem PostProcess_handshake:
  assumes "graph_ok g" and "fresh_malloc A" and "books_kept rs"
    and "\<forall>x\<in>set (sc_streamInfos sc). ss_nodeSize x \<noteq> 0" and "length (sc_streamInfos sc) < 2 ^ 32"
    and "PostProcess A sc g rs = Inr (True, sc', g', rs')"
    and "\<forall>n\<in>set (ex_eventNodes (sc_ext sc')). mem (event_addr n) = 0"
  shows "\<exists>m<length (sc_streamInfos sc).
    (\<exists>d n. length (ex_customParamsList (sc_ext sc') ! m) \<le> d \<and>
       node_at g (ss_headNodeIdx (sc_streamInfos sc ! m)) d = Some (ex_skMainNodeId (sc_ext sc')) \<and>
       GetNodeById g (ex_skMainNodeId (sc_ext sc')) = Some n \<and> nd_nodeType n = NODE_KERNEL) \<and>
    length (ex_customParamsList (sc_ext sc')) = length (sc_streamInfos sc) \<and>
    (\<forall>j<length (sc_streamInfos sc).
       length (ex_customParamsList (sc_ext sc') ! j) \<le> unat (ss_nodeSize (sc_streamInfos sc ! j))) \<and>
    (\<forall>k s. (device_step m (ex_eventNodes (sc_ext sc')) ^^ k) (device_start mem (ex_customParamsList (sc_ext sc'))) s \<longrightarrow>
       k \<le> sum_list (map length (ex_customParamsList (sc_ext sc'))) + 1 \<and>
       handshake_ok g (sc_streamInfos sc) m (ex_customParamsList (sc_ext sc')) (ex_eventNodes (sc_ext sc')) mem s)"
proof -
  from PostProcess_post_plan[OF assms(1-6)] obtain m order plans L a b where
    plan: "post_plan g (sc_streamInfos sc) (sc_ext sc') m order plans L a b" by blast
  have steps: "k \<le> sum_list (map length (ex_customParamsList (sc_ext sc'))) + 1 \<and>
       handshake_ok g (sc_streamInfos sc) m (ex_customParamsList (sc_ext sc')) (ex_eventNodes (sc_ext sc')) mem s"
    if "(device_step m (ex_eventNodes (sc_ext sc')) ^^ k) (device_start mem (ex_customParamsList (sc_ext sc'))) s" for k s
    using device_steps_todo[OF that] post_plan_handshake[OF plan assms(7) relpowp_imp_rtranclp[OF that]]
    by (simp add: device_todo_def device_start_def)
  have "m < length (sc_streamInfos sc)" using plan by (auto simp: post_plan_def)
  moreover have "length (ex_customParamsList (sc_ext sc')) = length (sc_streamInfos sc)"
    using plan by (simp add: post_plan_def)
  ultimately show ?thesis using steps plan unfolding post_plan_def on_walk_def by blast
qed

text \<open>
  Two streams of which three nodes each are in the scope, with a task before the scope on both and one
  behind it on the second. The allocation gives no block twice.
\<close>

definition careful_acl :: acl where
  "careful_acl = sample_acl\<lparr> rt_malloc := (\<lambda>h b. let a = 4096 + 64 * of_nat (mallocs h) in
     case ledger h of None \<Rightarrow> (ACL_SUCCESS, a)
     | Some M \<Rightarrow> if a \<in># M then (ACL_ERROR_FAILURE, 0) else (ACL_SUCCESS, a)) \<rparr>"

lemma careful_acl_fresh: "fresh_malloc careful_acl"
  by (auto simp: fresh_malloc_def careful_acl_def Let_def split: if_splits)

definition two_streams :: sk_graph where
  "two_streams = sample_graph
    [sample_node DefaultNode NODE_DEFAULT INVALID_TASK_ID 1 2,
     (sample_node KernelNode NODE_KERNEL 1 2 3)\<lparr> nd_isFusible := True \<rparr>,
     (sample_node KernelNode NODE_KERNEL 2 3 4)\<lparr> nd_isFusible := True \<rparr>,
     (sample_node KernelNode NODE_KERNEL 3 4 INVALID_TASK_ID)\<lparr> nd_isFusible := True \<rparr>,
     sample_node DefaultNode NODE_DEFAULT INVALID_TASK_ID 11 12,
     (sample_node KernelNode NODE_KERNEL 11 12 13)\<lparr> nd_isFusible := True, nd_streamIdxInGraph := 1 \<rparr>,
     (sample_node KernelNode NODE_KERNEL 12 13 14)\<lparr> nd_isFusible := True, nd_streamIdxInGraph := 1 \<rparr>,
     (sample_node KernelNode NODE_KERNEL 13 14 15)\<lparr> nd_isFusible := True, nd_streamIdxInGraph := 1 \<rparr>,
     sample_node DefaultNode NODE_DEFAULT 14 15 INVALID_TASK_ID]"

definition two_stream_scope :: sk_scope where
  "two_stream_scope = (fst (new_scope 0))\<lparr> sc_nodes := [2, 3, 4, 12, 13, 14],
     sc_streamInfos := [\<lparr> ss_streamIdx = 0, ss_headNodeIdx = 2, ss_tailNodeIdx = 4, ss_nodeSize = 3 \<rparr>,
       \<lparr> ss_streamIdx = 1, ss_headNodeIdx = 12, ss_tailNodeIdx = 14, ss_nodeSize = 3 \<rparr>] \<rparr>"

lemma two_streams_run:
  "map_sum (\<lambda>_. ()) (\<lambda>(ok, sc, g, rs). (ok, ex_customParamsList (sc_ext sc), ex_skMainNodeId (sc_ext sc),
     map event_addr (ex_eventNodes (sc_ext sc)))) (PostProcess careful_acl two_stream_scope two_streams sample_run) =
   Inr (True, [[wait_for 4224], [ValueWrite 4224 1, wait_for 4288, ValueWrite 4288 0]], 3, [4224, 4288])"
  by code_simp

lemma two_streams_ok: "graph_ok two_streams"
  by (auto simp: graph_ok_def two_streams_def sample_graph_def sample_node_def new_node_def dom_def split: if_splits)

lemma sample_run_books: "books_kept sample_run"
  using res_steps_books[OF sample_run_steps books_kept_empty] .

lemma PostProcess_handshake_witness:
  "\<exists>sc' g' rs'. PostProcess careful_acl two_stream_scope two_streams sample_run = Inr (True, sc', g', rs') \<and>
    ex_customParamsList (sc_ext sc') = [[wait_for 4224], [ValueWrite 4224 1, wait_for 4288, ValueWrite 4288 0]] \<and>
    (\<exists>m<2. \<forall>k s. (device_step m (ex_eventNodes (sc_ext sc')) ^^ k) (device_start (\<lambda>_. 0) (ex_customParamsList (sc_ext sc'))) s \<longrightarrow>
       k \<le> sum_list (map length (ex_customParamsList (sc_ext sc'))) + 1 \<and>
       handshake_ok two_streams (sc_streamInfos two_stream_scope) m (ex_customParamsList (sc_ext sc'))
         (ex_eventNodes (sc_ext sc')) (\<lambda>_. 0) s)"
proof -
  obtain sc' g' rs' where run: "PostProcess careful_acl two_stream_scope two_streams sample_run = Inr (True, sc', g', rs')"
    and par: "ex_customParamsList (sc_ext sc') = [[wait_for 4224], [ValueWrite 4224 1, wait_for 4288, ValueWrite 4288 0]]"
    using two_streams_run by (cases "PostProcess careful_acl two_stream_scope two_streams sample_run") auto
  have infos: "\<forall>x\<in>set (sc_streamInfos two_stream_scope). ss_nodeSize x \<noteq> 0" "length (sc_streamInfos two_stream_scope) = 2"
    by (simp_all add: two_stream_scope_def)
  then have "length (sc_streamInfos two_stream_scope) < 2 ^ 32" by simp
  note all = PostProcess_handshake[OF two_streams_ok careful_acl_fresh sample_run_books infos(1) this run,
    of "\<lambda>_. 0", unfolded infos(2)]
  show ?thesis using all run par by blast
qed

definition two_infos :: "stream_info list" where
  "two_infos = sc_streamInfos two_stream_scope"

lemma two_streams_choice:
  "CollectStreamBoundaryPlans two_streams two_infos 0 =
     Some ([\<lparr> pl_needFrontWait = True, pl_needBackBlock = False, pl_candidateNodeId = INVALID_TASK_ID \<rparr>,
       \<lparr> pl_needFrontWait = True, pl_needBackBlock = True, pl_candidateNodeId = INVALID_TASK_ID \<rparr>], 2)"
  "GetMainAndSubStreamOrder two_streams
      [\<lparr> pl_needFrontWait = True, pl_needBackBlock = False, pl_candidateNodeId = INVALID_TASK_ID \<rparr>,
       \<lparr> pl_needFrontWait = True, pl_needBackBlock = True, pl_candidateNodeId = INVALID_TASK_ID \<rparr>] two_infos 2 =
     Inr (Inr (3, 0, [1], [\<lparr> pl_needFrontWait = True, pl_needBackBlock = False, pl_candidateNodeId = 3 \<rparr>,
       \<lparr> pl_needFrontWait = True, pl_needBackBlock = True, pl_candidateNodeId = 13 \<rparr>]))"
  by code_simp+

lemma GetMainAndSubStreamOrder_complete_witness:
  "\<exists>w. ProcessSubStreamSyncEvents constant_acl two_infos
     [\<lparr> pl_needFrontWait = True, pl_needBackBlock = False, pl_candidateNodeId = 3 \<rparr>,
      \<lparr> pl_needFrontWait = True, pl_needBackBlock = True, pl_candidateNodeId = 13 \<rparr>] 14 [1]
     \<lparr> wk_params = [[], []], wk_eventNodes = [], wk_needFrontWaitCount = 2, wk_prev = 0, wk_res = sample_run \<rparr> = Inr (True, w)"
proof -
  have infos: "length two_infos \<noteq> 1" "\<forall>x\<in>set two_infos. ss_nodeSize x \<noteq> 0" "replicate (length two_infos) [] = [[], []]"
    by (simp_all add: two_infos_def two_stream_scope_def)
  have "working_acl constant_acl" by (simp add: working_acl_def constant_acl_def sample_acl_def)
  moreover have "model_ready sample_run" unfolding model_ready_def by code_simp
  ultimately show ?thesis
    using GetMainAndSubStreamOrder_complete[OF two_streams_choice infos(1,2), of constant_acl sample_run 14]
    by (simp add: infos(3))
qed

end
