(* ===== verification/Sk_Update_Sound.thy ===== *)
theory Sk_Update_Sound
  imports Sk_Update Sk_Handshake
begin

text \<open>
  What writing the result back does to the model: the calls of a successful update are exactly those of
  the plan, and after postprocessing an update that meets no refusal succeeds.
\<close>

section \<open>One node\<close>

definition node_calls :: "acl \<Rightarrow> update_context \<Rightarrow> sk_node \<Rightarrow> acl_call list" where
  "node_calls A ctx n = (if nd_class n = DefaultNode then []
     else if has_custom ctx then [CallSetParams (nd_nodeId n) (the (uc_customParams ctx)) ACL_SUCCESS]
     else case uc_launchInfo ctx of
       Some li \<Rightarrow> if nd_class n = KernelNode \<and> li_skEntryFunc li \<noteq> 0
         then [CallSetParams (nd_nodeId n) (KernelTask (launch_of li (the (li_devArgs li)) (the (launch_cfg A n li)))) ACL_SUCCESS]
         else [CallDisable (nd_nodeId n) ACL_SUCCESS]
     | None \<Rightarrow> [CallDisable (nd_nodeId n) ACL_SUCCESS])"

text \<open>A node that was updated once: only the two marks differ.\<close>

definition updated_node :: "sk_node \<Rightarrow> sk_node \<Rightarrow> bool" where
  "updated_node n n' \<longleftrightarrow> \<not> nd_isUpdate n \<and> (\<exists>c. n' = n\<lparr> nd_isUpdate := True, nd_isInvalidated := c \<rparr>)"

definition logged :: "acl_call list \<Rightarrow> res_state \<Rightarrow> res_state" where
  "logged cs st = st\<lparr> rs_log := rev cs @ rs_log st \<rparr>"

lemma logged_simps [simp]: "logged [] st = st" "logged ds (logged cs st) = logged (cs @ ds) st"
  by (simp_all add: logged_def)

lemma logged_one: "log_call c st = logged [c] st"
  by (simp add: logged_def log_call_def)

lemma set_params_ok:
  "set_params A n t st = (True, n', st') \<Longrightarrow> n' = n \<and> st' = logged [CallSetParams (nd_nodeId n) t ACL_SUCCESS] st"
  by (auto simp: set_params_def aclmdlRITaskSetParams_def logged_one Let_def)

lemma invalidate_ok:
  "invalidate A n st = (True, n', st') \<Longrightarrow> nd_class n \<noteq> DefaultNode \<and> n' = n\<lparr> nd_isInvalidated := True \<rparr> \<and>
     st' = logged [CallDisable (nd_nodeId n) ACL_SUCCESS] st"
  by (auto simp: invalidate_def InValidateNode_def aclmdlRITaskDisable_def logged_one Let_def split: if_splits prod.splits)

lemma custom_update_ok:
  "custom_update A n t st = (True, n', st') \<Longrightarrow> custom_ok t \<and> n' = n \<and>
     st' = logged [CallSetParams (nd_nodeId n) t ACL_SUCCESS] st"
  by (auto simp: custom_update_def dest: set_params_ok split: if_splits)

lemma updated_node_simps:
  "\<not> nd_isUpdate n \<Longrightarrow> updated_node n (n\<lparr> nd_isUpdate := True \<rparr>)"
  "\<not> nd_isUpdate n \<Longrightarrow> updated_node n (n\<lparr> nd_isUpdate := True, nd_isInvalidated := c \<rparr>)"
  by (auto simp: updated_node_def intro: exI[of _ "nd_isInvalidated n"])

lemma NodeUpdate_success:
  assumes "NodeUpdate A ctx n st = Inr (True, n', st')"
  shows "updated_node n n' \<and> st' = logged (node_calls A ctx n) st"
proof (cases "nd_class n")
  case DefaultNode
  then show ?thesis using assms
    by (auto simp: NodeUpdate_def BaseUpdate_def node_calls_def Let_def updated_node_simps split: if_splits)
next
  case MemoryNode
  then have run: "MemoryUpdate A ctx n st = (True, n', st')" using assms by (simp add: NodeUpdate_def)
  then have fresh: "\<not> nd_isUpdate n" by (auto simp: MemoryUpdate_def BaseUpdate_def Let_def split: if_splits)
  show ?thesis
  proof (cases "has_custom ctx")
    case True
    then have "custom_update A (n\<lparr> nd_isUpdate := True \<rparr>) (the (uc_customParams ctx)) st = (True, n', st')"
      using run fresh by (simp add: MemoryUpdate_def BaseUpdate_def)
    from custom_update_ok[OF this] True MemoryNode fresh show ?thesis by (simp add: node_calls_def updated_node_simps)
  next
    case False
    then have "invalidate A (n\<lparr> nd_isUpdate := True \<rparr>) st = (True, n', st')"
      using run fresh by (simp add: MemoryUpdate_def BaseUpdate_def)
    from invalidate_ok[OF this] False MemoryNode fresh show ?thesis
      by (simp add: node_calls_def updated_node_simps split: option.split)
  qed
next
  case KernelNode
  then have run: "KernelUpdate A ctx n st = Inr (True, n', st')" using assms by (simp add: NodeUpdate_def)
  then have fresh: "\<not> nd_isUpdate n" by (auto simp: KernelUpdate_def BaseUpdate_def Let_def split: if_splits)
  let ?n = "n\<lparr> nd_isUpdate := True \<rparr>"
  have cfg: "launch_cfg A ?n li = launch_cfg A n li" for li by (simp add: launch_cfg_def)
  consider (custom) "has_custom ctx" "custom_update A ?n (the (uc_customParams ctx)) st = (True, n', st')"
    | (launch) li args c where "\<not> has_custom ctx" "uc_launchInfo ctx = Some li" "li_skEntryFunc li \<noteq> 0"
        "li_devArgs li = Some args" "launch_cfg A n li = Some c"
        "set_params A ?n (KernelTask (launch_of li args c)) st = (True, n', st')"
    | (off) "\<not> has_custom ctx" "\<forall>li. uc_launchInfo ctx = Some li \<longrightarrow> li_skEntryFunc li = 0" "invalidate A ?n st = (True, n', st')"
    using run fresh by (auto simp: KernelUpdate_def BaseUpdate_def Let_def cfg split: if_splits option.splits)
  then show ?thesis
  proof cases
    case custom
    from custom_update_ok[OF custom(2)] custom KernelNode fresh show ?thesis by (simp add: node_calls_def updated_node_simps)
  next
    case (launch li args c)
    from set_params_ok[OF launch(6)] launch KernelNode fresh show ?thesis by (simp add: node_calls_def updated_node_simps)
  next
    case off
    from invalidate_ok[OF off(3)] off KernelNode fresh show ?thesis
      by (auto simp: node_calls_def updated_node_simps split: option.split)
  qed
qed

section \<open>A stream\<close>

text \<open>The contexts the nodes of a walk get, and whether the launch is placed afterwards.\<close>

fun contexts :: "node_id \<Rightarrow> launch_info \<Rightarrow> task_value list \<Rightarrow> bool \<Rightarrow> node_id list \<Rightarrow> (node_id \<times> update_context) list \<times> bool" where
  "contexts mainNode li ps u [] = ([], u)"
| "contexts mainNode li ps u (i # is) = (let (c, u1) = node_context ps mainNode li u i;
     (cs, u2) = contexts mainNode li (List.tl ps) u1 is in ((i, c) # cs, u2))"

definition calls_of :: "acl \<Rightarrow> sk_graph \<Rightarrow> (node_id \<times> update_context) list \<Rightarrow> acl_call list" where
  "calls_of A g cs = concat (map (\<lambda>(i, ctx). node_calls A ctx (the (GetNodeById g i))) cs)"

text \<open>The nodes of a set are updated, the others are as before.\<close>

definition touched :: "node_id set \<Rightarrow> sk_graph \<Rightarrow> sk_graph \<Rightarrow> bool" where
  "touched S g g' \<longleftrightarrow> sg_nodeIds g' = sg_nodeIds g \<and> (\<forall>j. if j \<in> S
     then \<exists>n n'. GetNodeById g j = Some n \<and> GetNodeById g' j = Some n' \<and> updated_node n n'
     else GetNodeById g' j = GetNodeById g j)"

lemma touched_other: "touched S g g' \<Longrightarrow> j \<notin> S \<Longrightarrow> GetNodeById g' j = GetNodeById g j"
  by (simp add: touched_def)

lemma touched_refl [simp]: "touched {} g g"
  by (simp add: touched_def)

lemma touched_trans: "touched S g h \<Longrightarrow> touched T h k \<Longrightarrow> S \<inter> T = {} \<Longrightarrow> touched (S \<union> T) g k"
  unfolding touched_def by (intro conjI allI) (simp, (smt (verit, ccfv_threshold) Un_iff disjoint_iff)+)

lemma touched_upd: "GetNodeById g i = Some n \<Longrightarrow> updated_node n n' \<Longrightarrow> touched {i} g (upd_node i (\<lambda>_. n') g)"
  by (simp add: touched_def)

lemma touched_next:
  assumes "touched S g g'"
  shows "map_option nd_nextNodeId (GetNodeById g' i) = map_option nd_nextNodeId (GetNodeById g i)"
  using assms by (auto simp: touched_def updated_node_def dest!: spec[of _ i] split: if_splits)

lemma touched_walk: "touched S g g' \<Longrightarrow> stream_walk fuel g' tail i = stream_walk fuel g tail i"
proof (induction fuel arbitrary: i)
  case (Suc fuel)
  from touched_next[OF Suc.prems, of i] Suc show ?case by (auto split: option.split)
qed simp

lemma calls_of_touched:
  assumes "touched S g g'" and "\<forall>c\<in>set cs. fst c \<notin> S"
  shows "calls_of A g' cs = calls_of A g cs"
  using assms by (auto simp: calls_of_def touched_def intro!: arg_cong[where f = concat] map_cong)

lemma calls_of_simps [simp]: "calls_of A g [] = []"
  "calls_of A g (c # cs) = node_calls A (snd c) (the (GetNodeById g (fst c))) @ calls_of A g cs"
  "calls_of A g (cs @ ds) = calls_of A g cs @ calls_of A g ds"
  by (simp_all add: calls_of_def split: prod.split)

lemma fst_contexts: "map fst (fst (contexts mainNode li ps u ids)) = ids"
  by (induction ids arbitrary: ps u) (auto split: prod.split, metis fst_conv)

lemma update_stream_success:
  assumes "update_stream fuel A mainNode li tail params i (u, g, st) = Inr (True, u', g', st')"
    and "stream_walk fuel g tail i = Some ids" and "distinct ids"
  shows "u' = snd (contexts mainNode li params u ids) \<and> touched (set ids) g g' \<and>
    st' = logged (calls_of A g (fst (contexts mainNode li params u ids))) st"
  using assms
proof (induction fuel arbitrary: params i u g st ids)
  case (Suc fuel)
  show ?case
  proof (cases "i = INVALID_TASK_ID")
    case True
    then show ?thesis using Suc.prems by simp
  next
    case False
    then obtain n where n: "GetNodeById g i = Some n" using Suc.prems(2) by (auto split: option.splits)
    obtain c u1 where c: "node_context params mainNode li u i = (c, u1)" by fastforce
    from Suc.prems(1) False n c obtain n1 st1 where one: "NodeUpdate A c n st = Inr (True, n1, st1)"
      by (auto simp: Let_def split: if_splits)
    note up = NodeUpdate_success[OF one]
    let ?g1 = "upd_node i (\<lambda>_. n1) g"
    have t1: "touched {i} g ?g1" using touched_upd[OF n] up by simp
    show ?thesis
    proof (cases "i = tail")
      case True
      then have "ids = [i]" using Suc.prems(2) False n by simp
      moreover have "u' = u1 \<and> g' = ?g1 \<and> st' = st1" using Suc.prems(1) False n c one True by (simp add: Let_def)
      ultimately show ?thesis using c t1 up n by (simp add: Let_def)
    next
      case no: False
      from Suc.prems(2) False n no obtain js where js: "stream_walk fuel g tail (nd_nextNodeId n) = Some js" "ids = i # js"
        by auto
      have rest: "update_stream fuel A mainNode li tail (List.tl params) (nd_nextNodeId n) (u1, ?g1, st1) = Inr (True, u', g', st')"
        using Suc.prems(1) False n c one no by (simp add: Let_def)
      have w: "stream_walk fuel ?g1 tail (nd_nextNodeId n) = Some js" using touched_walk[OF t1] js(1) by simp
      have d: "distinct js" "i \<notin> set js" using Suc.prems(3) js(2) by auto
      obtain cs u2 where cs: "contexts mainNode li (List.tl params) u1 js = (cs, u2)" by fastforce
      note IH = Suc.IH[OF rest w d(1), unfolded cs]
      have "calls_of A ?g1 cs = calls_of A g cs"
      proof (rule calls_of_touched[OF t1])
        show "\<forall>c\<in>set cs. fst c \<notin> {i}"
          using fst_contexts[of mainNode li "List.tl params" u1 js] d(2) unfolding cs by (metis fst_conv image_eqI list.set_map singletonD)
      qed
      moreover have "touched (insert i (set js)) g g'"
        using touched_trans[OF t1, of "set js" g'] IH d(2) by simp
      ultimately show ?thesis using IH c cs up n js(2) by (simp add: Let_def)
    qed
  qed
qed simp

section \<open>The plan\<close>

text \<open>The first nodes of a stream take its waits and writes, the main node the launch, all others end.\<close>

fun plan :: "node_id \<Rightarrow> launch_info \<Rightarrow> task_value list \<Rightarrow> node_id list \<Rightarrow> (node_id \<times> update_context) list" where
  "plan mainNode li ps [] = []"
| "plan mainNode li (p # ps) (i # is) = (i, no_context\<lparr> uc_customParams := Some p \<rparr>) # plan mainNode li ps is"
| "plan mainNode li [] (i # is) =
     (i, if i = mainNode then no_context\<lparr> uc_launchInfo := Some li \<rparr> else no_context) # plan mainNode li [] is"

lemma fst_plan [simp]: "map fst (plan mainNode li ps ids) = ids"
  by (induction mainNode li ps ids rule: plan.induct) auto

lemma contexts_plan:
  assumes "distinct ids" and "u \<longrightarrow> mainNode \<notin> set (drop (length ps) ids)"
  shows "contexts mainNode li ps u ids = (plan mainNode li ps ids, u \<or> mainNode \<in> set (drop (length ps) ids))"
  using assms
proof (induction ids arbitrary: ps u)
  case (Cons i ids)
  show ?case
  proof (cases ps)
    case (Cons p ps')
    then show ?thesis using Cons.IH[of u ps'] Cons.prems by (simp add: node_context_def)
  next
    case Nil
    then have "(u \<or> i = mainNode) \<longrightarrow> mainNode \<notin> set (drop (length ([] :: task_value list)) ids)" using Cons.prems by auto
    from Cons.IH[OF _ this] Cons.prems Nil show ?thesis by (auto simp: node_context_def)
  qed
qed simp

lemma plan_launch: "mainNode \<in> set (drop (length ps) ids) \<Longrightarrow> distinct ids \<Longrightarrow>
    (mainNode, no_context\<lparr> uc_launchInfo := Some li \<rparr>) \<in> set (plan mainNode li ps ids)"
  by (induction mainNode li ps ids rule: plan.induct) auto

lemma plan_custom: "k < length ps \<Longrightarrow> k < length ids \<Longrightarrow>
    plan mainNode li ps ids ! k = (ids ! k, no_context\<lparr> uc_customParams := Some (ps ! k) \<rparr>)"
  by (induction mainNode li ps ids arbitrary: k rule: plan.induct) (auto simp: nth_Cons split: nat.split)

definition scope_plan :: "scope_ext \<Rightarrow> launch_info \<Rightarrow> nat \<Rightarrow> node_id list list \<Rightarrow> (node_id \<times> update_context) list" where
  "scope_plan ext li k ws = concat (map2 (plan (ex_skMainNodeId ext) li) (drop k (ex_customParamsList ext)) ws)"

definition main_left :: "scope_ext \<Rightarrow> nat \<Rightarrow> node_id list list \<Rightarrow> bool" where
  "main_left ext k ws \<longleftrightarrow>
     (\<exists>(ps, w) \<in> set (zip (drop k (ex_customParamsList ext)) ws). ex_skMainNodeId ext \<in> set (drop (length ps) w))"

lemma plan_step:
  assumes "k < length (ex_customParamsList ext)"
  shows "scope_plan ext li k (w # ws) = plan (ex_skMainNodeId ext) li (ex_customParamsList ext ! k) w @ scope_plan ext li (Suc k) ws"
    and "main_left ext k (w # ws) \<longleftrightarrow>
      ex_skMainNodeId ext \<in> set (drop (length (ex_customParamsList ext ! k)) w) \<or> main_left ext (Suc k) ws"
  using Cons_nth_drop_Suc[OF assms, symmetric] by (simp_all add: scope_plan_def main_left_def)

lemma fst_scope_plan: "fst ` set (scope_plan ext li k ws) \<subseteq> set (concat ws)"
proof
  fix i assume "i \<in> fst ` set (scope_plan ext li k ws)"
  then obtain ps w where "(ps, w) \<in> set (zip (drop k (ex_customParamsList ext)) ws)"
    "i \<in> fst ` set (plan (ex_skMainNodeId ext) li ps w)"
    by (auto simp: scope_plan_def)
  moreover have "fst ` set (plan (ex_skMainNodeId ext) li ps w) = set w" by (metis fst_plan list.set_map)
  ultimately show "i \<in> set (concat ws)" by (auto dest: set_zip_rightD)
qed

definition walks :: "sk_graph \<Rightarrow> stream_info list \<Rightarrow> node_id list list \<Rightarrow> bool" where
  "walks g infos ws \<longleftrightarrow> list_all2 (\<lambda>x w. stream_walk (walk_fuel g) g (ss_tailNodeIdx x) (ss_headNodeIdx x) = Some w) infos ws \<and>
     distinct (concat ws)"

lemma walks_Cons: "walks g (x # xs) vs \<longleftrightarrow> (\<exists>w ws. vs = w # ws \<and>
    stream_walk (walk_fuel g) g (ss_tailNodeIdx x) (ss_headNodeIdx x) = Some w \<and> walks g xs ws \<and>
    distinct w \<and> set w \<inter> set (concat ws) = {})"
  by (auto simp: walks_def list_all2_Cons1 distinct_append)

lemma touched_fuel: "touched S g g' \<Longrightarrow> walk_fuel g' = walk_fuel g"
  by (simp add: touched_def walk_fuel_def)

lemma touched_walks: "touched S g g' \<Longrightarrow> walks g' xs ws = walks g xs ws"
  by (simp add: walks_def touched_fuel touched_walk)

lemma update_streams_success:
  assumes "update_streams A ext li k infos (u, g, st) = Inr (True, u', g', st')" and "walks g infos ws"
    and "u \<longrightarrow> ex_skMainNodeId ext \<notin> set (concat ws)"
  shows "(u' \<longleftrightarrow> u \<or> main_left ext k ws) \<and> touched (set (concat ws)) g g' \<and> st' = logged (calls_of A g (scope_plan ext li k ws)) st"
  using assms
proof (induction infos arbitrary: k u g st ws)
  case Nil
  then show ?case by (simp add: walks_def main_left_def scope_plan_def)
next
  case (Cons x xs)
  let ?main = "ex_skMainNodeId ext" and ?ps = "ex_customParamsList ext ! k"
  obtain w vs where ws: "ws = w # vs" "stream_walk (walk_fuel g) g (ss_tailNodeIdx x) (ss_headNodeIdx x) = Some w"
    "walks g xs vs" "distinct w" "set w \<inter> set (concat vs) = {}" using Cons.prems(2) by (auto simp: walks_Cons)
  from Cons.prems(1) obtain u1 g1 st1 where k: "k < length (ex_customParamsList ext)"
    and one: "update_stream (walk_fuel g) A ?main li (ss_tailNodeIdx x) ?ps (ss_headNodeIdx x) (u, g, st) = Inr (True, u1, g1, st1)"
    and rest: "update_streams A ext li (Suc k) xs (u1, g1, st1) = Inr (True, u', g', st')"
    by (auto split: if_splits)
  have m: "u \<longrightarrow> ?main \<notin> set (drop (length ?ps) w)" using Cons.prems(3) ws(1) by (auto dest: in_set_dropD)
  note first = update_stream_success[OF one ws(2,4), unfolded contexts_plan[OF ws(4) m], simplified]
  have t: "touched (set w) g g1" and u1: "u1 \<longleftrightarrow> u \<or> ?main \<in> set (drop (length ?ps) w)"
    and st1: "st1 = logged (calls_of A g (plan ?main li ?ps w)) st" using first by auto
  have "u1 \<longrightarrow> ?main \<notin> set (concat vs)" using u1 Cons.prems(3) ws(1,5) by (auto dest!: in_set_dropD)
  from Cons.IH[OF rest _ this] touched_walks[OF t] ws(3)
  have IH: "(u' \<longleftrightarrow> u1 \<or> main_left ext (Suc k) vs)" "touched (set (concat vs)) g1 g'"
    "st' = logged (calls_of A g1 (scope_plan ext li (Suc k) vs)) st1" by simp_all
  have "calls_of A g1 (scope_plan ext li (Suc k) vs) = calls_of A g (scope_plan ext li (Suc k) vs)"
    by (rule calls_of_touched[OF t]) (use fst_scope_plan[of ext li "Suc k" vs] ws(5) in \<open>auto 0 3\<close>)
  moreover have "touched (set (concat ws)) g g'"
    using touched_trans[OF t IH(2) ws(5)] ws(1) by simp
  ultimately show ?case using IH u1 st1 ws(1) by (simp add: plan_step[OF k])
qed

section \<open>An update that meets no refusal succeeds\<close>

definition accepting :: "acl \<Rightarrow> bool" where
  "accepting A \<longleftrightarrow> (\<forall>h i t. rt_setParams A h i t = ACL_SUCCESS) \<and> (\<forall>h i. rt_disable A h i = ACL_SUCCESS)"

definition launchable :: "acl \<Rightarrow> launch_info \<Rightarrow> sk_node \<Rightarrow> bool" where
  "launchable A li n \<longleftrightarrow> li_devArgs li \<noteq> None \<and> launch_cfg A n li \<noteq> None"

definition context_ok :: "acl \<Rightarrow> sk_graph \<Rightarrow> node_id \<times> update_context \<Rightarrow> bool" where
  "context_ok A g c \<longleftrightarrow> (\<forall>t. uc_customParams (snd c) = Some t \<longrightarrow> custom_ok t) \<and>
     (\<forall>li n. uc_launchInfo (snd c) = Some li \<longrightarrow> GetNodeById g (fst c) = Some n \<longrightarrow> launchable A li n)"

lemma invalidate_accepts: "accepting A \<Longrightarrow> nd_class n \<noteq> DefaultNode \<Longrightarrow> fst (invalidate A n st)"
  by (simp add: invalidate_def InValidateNode_def aclmdlRITaskDisable_def accepting_def Let_def)

lemma set_params_accepts: "accepting A \<Longrightarrow> fst (set_params A n t st)"
  by (simp add: set_params_def aclmdlRITaskSetParams_def accepting_def Let_def)

lemma NodeUpdate_accepts:
  assumes A: "accepting A" and fresh: "\<not> nd_isUpdate n"
    and custom: "\<And>t. uc_customParams ctx = Some t \<Longrightarrow> custom_ok t"
    and launch: "\<And>li. uc_launchInfo ctx = Some li \<Longrightarrow> launchable A li n"
  shows "\<exists>n' st'. NodeUpdate A ctx n st = Inr (True, n', st')"
proof -
  have ex: "\<exists>n' st'. r = (True, n', st')" if "fst r" for r :: "bool \<times> sk_node \<times> res_state"
    using that by (cases r) auto
  have cfg: "launch_cfg A (n\<lparr> nd_isUpdate := True \<rparr>) li = launch_cfg A n li" for li by (simp add: launch_cfg_def)
  have cu: "fst (custom_update A m (the (uc_customParams ctx)) st)" if "has_custom ctx" for m
    using that custom set_params_accepts[OF A] by (auto simp: custom_update_def has_custom_def)
  show ?thesis
  proof (cases "nd_class n")
    case KernelNode
    then have inval: "fst (invalidate A (n\<lparr> nd_isUpdate := True \<rparr>) st)" by (intro invalidate_accepts[OF A]) simp
    show ?thesis
    proof (cases "has_custom ctx")
      case True
      then show ?thesis using ex[OF cu[OF True]] KernelNode fresh
        by (simp add: NodeUpdate_def KernelUpdate_def BaseUpdate_def)
    next
      case False
      show ?thesis
      proof (cases "uc_launchInfo ctx")
        case None
        then show ?thesis using ex[OF inval] KernelNode fresh False
          by (simp add: NodeUpdate_def KernelUpdate_def BaseUpdate_def)
      next
        case (Some li)
        from launch[OF Some] obtain args c where "li_devArgs li = Some args" "launch_cfg A n li = Some c"
          by (auto simp: launchable_def)
        then show ?thesis using Some ex[OF inval] ex[OF set_params_accepts[OF A]] KernelNode fresh False
          by (simp add: NodeUpdate_def KernelUpdate_def BaseUpdate_def cfg)
      qed
    qed
  next
    case MemoryNode
    then have "fst (invalidate A (n\<lparr> nd_isUpdate := True \<rparr>) st)" by (intro invalidate_accepts[OF A]) simp
    then show ?thesis
      using MemoryNode fresh ex[OF cu] ex by (auto simp: NodeUpdate_def MemoryUpdate_def BaseUpdate_def)
  qed (use fresh in \<open>simp add: NodeUpdate_def BaseUpdate_def\<close>)
qed

definition fresh_nodes :: "sk_graph \<Rightarrow> node_id set \<Rightarrow> bool" where
  "fresh_nodes g S \<longleftrightarrow> (\<forall>i\<in>S. \<forall>n. GetNodeById g i = Some n \<longrightarrow> \<not> nd_isUpdate n)"

lemma fresh_nodes_touched: "touched S g g' \<Longrightarrow> S \<inter> T = {} \<Longrightarrow> fresh_nodes g T \<Longrightarrow> fresh_nodes g' T"
  unfolding fresh_nodes_def by (metis disjoint_iff touched_other)

lemma context_ok_touched: "touched S g g' \<Longrightarrow> fst c \<notin> S \<Longrightarrow> context_ok A g' c = context_ok A g c"
  by (simp add: context_ok_def touched_def)

lemma update_stream_accepts:
  assumes A: "accepting A" and "stream_walk fuel g tail i = Some ids" and "distinct ids" and "fresh_nodes g (set ids)"
    and "\<forall>c\<in>set (fst (contexts mainNode li params u ids)). context_ok A g c"
  shows "\<exists>u' g' st'. update_stream fuel A mainNode li tail params i (u, g, st) = Inr (True, u', g', st')"
  using assms(2-)
proof (induction fuel arbitrary: params i u g st ids)
  case (Suc fuel)
  show ?case
  proof (cases "i = INVALID_TASK_ID")
    case False
    then obtain n where n: "GetNodeById g i = Some n" using Suc.prems(1) by (auto split: option.splits)
    obtain c u1 where c: "node_context params mainNode li u i = (c, u1)" by fastforce
    from Suc.prems(1) False n obtain js where js: "ids = i # js"
      "i \<noteq> tail \<Longrightarrow> stream_walk fuel g tail (nd_nextNodeId n) = Some js" by (auto split: if_splits)
    have ok: "context_ok A g (i, c)" and fresh: "\<not> nd_isUpdate n"
      using Suc.prems(3,4) n js(1) c by (auto simp: fresh_nodes_def Let_def split: prod.splits)
    obtain n1 st1 where one: "NodeUpdate A c n st = Inr (True, n1, st1)"
      using NodeUpdate_accepts[OF A fresh, of c st] ok n by (auto simp: context_ok_def)
    let ?g1 = "upd_node i (\<lambda>_. n1) g"
    have t1: "touched {i} g ?g1" using touched_upd[OF n] NodeUpdate_success[OF one] by simp
    show ?thesis
    proof (cases "i = tail")
      case True
      then show ?thesis using False n c one by (simp add: Let_def)
    next
      case no: False
      have w: "stream_walk fuel ?g1 tail (nd_nextNodeId n) = Some js" using touched_walk[OF t1] js(2)[OF no] by simp
      have d: "distinct js" "i \<notin> set js" using Suc.prems(2) js(1) by auto
      have fr: "fresh_nodes ?g1 (set js)"
        by (rule fresh_nodes_touched[OF t1]) (use Suc.prems(3) js(1) d(2) in \<open>auto simp: fresh_nodes_def\<close>)
      have "context_ok A ?g1 x" if "x \<in> set (fst (contexts mainNode li (List.tl params) u1 js))" for x
      proof -
        have "fst x \<in> set js"
          using that fst_contexts[of mainNode li "List.tl params" u1 js] by (metis image_eqI list.set_map)
        then have "fst x \<notin> {i}" using d(2) by auto
        moreover have "context_ok A g x" using that Suc.prems(4) js(1) c by (auto simp: Let_def split: prod.splits)
        ultimately show ?thesis using context_ok_touched[OF t1] by blast
      qed
      then obtain u' g' st' where "update_stream fuel A mainNode li tail (List.tl params) (nd_nextNodeId n) (u1, ?g1, st1) =
          Inr (True, u', g', st')"
        using Suc.IH[OF w d(1) fr, of "List.tl params" u1 st1] by blast
      then show ?thesis using False n c one no by (simp add: Let_def)
    qed
  qed simp
qed simp

lemma update_streams_accepts:
  assumes A: "accepting A" and "walks g infos ws" and "u \<longrightarrow> ex_skMainNodeId ext \<notin> set (concat ws)"
    and "k + length infos \<le> length (ex_customParamsList ext)"
    and "\<forall>j<length infos. length (ex_customParamsList ext ! (k + j)) \<le> unat (ss_nodeSize (infos ! j))"
    and "fresh_nodes g (set (concat ws))" and "\<forall>c\<in>set (scope_plan ext li k ws). context_ok A g c"
  shows "\<exists>u' g' st'. update_streams A ext li k infos (u, g, st) = Inr (True, u', g', st')"
  using assms(2-)
proof (induction infos arbitrary: k u g st ws)
  case (Cons x xs)
  let ?main = "ex_skMainNodeId ext" and ?ps = "ex_customParamsList ext ! k"
  obtain w vs where ws: "ws = w # vs" "stream_walk (walk_fuel g) g (ss_tailNodeIdx x) (ss_headNodeIdx x) = Some w"
    "walks g xs vs" "distinct w" "set w \<inter> set (concat vs) = {}" using Cons.prems(1) by (auto simp: walks_Cons)
  have k: "k < length (ex_customParamsList ext)" using Cons.prems(3) by simp
  have m: "u \<longrightarrow> ?main \<notin> set (drop (length ?ps) w)" using Cons.prems(2) ws(1) by (auto dest: in_set_dropD)
  have fr: "fresh_nodes g (set w)" using Cons.prems(5) ws(1) by (auto simp: fresh_nodes_def)
  have ctx: "\<forall>c\<in>set (fst (contexts ?main li ?ps u w)). context_ok A g c"
    using Cons.prems(6) ws(1) by (simp add: contexts_plan[OF ws(4) m] plan_step[OF k])
  obtain u1 g1 st1 where one:
    "update_stream (walk_fuel g) A ?main li (ss_tailNodeIdx x) ?ps (ss_headNodeIdx x) (u, g, st) = Inr (True, u1, g1, st1)"
    using update_stream_accepts[OF A ws(2,4) fr ctx] by blast
  note first = update_stream_success[OF one ws(2,4), unfolded contexts_plan[OF ws(4) m], simplified]
  have t: "touched (set w) g g1" and u1: "u1 \<longleftrightarrow> u \<or> ?main \<in> set (drop (length ?ps) w)" using first by auto
  have size: "\<not> unat (ss_nodeSize x) < length ?ps" using Cons.prems(4) by (auto dest!: spec[of _ 0])
  have "\<exists>u' g' st'. update_streams A ext li (Suc k) xs (u1, g1, st1) = Inr (True, u', g', st')"
  proof (rule Cons.IH)
    show "walks g1 xs vs" using touched_walks[OF t] ws(3) by simp
    show "u1 \<longrightarrow> ?main \<notin> set (concat vs)" using u1 Cons.prems(2) ws(1,5) by (auto dest!: in_set_dropD)
    show "Suc k + length xs \<le> length (ex_customParamsList ext)" using Cons.prems(3) by simp
    show "\<forall>j<length xs. length (ex_customParamsList ext ! (Suc k + j)) \<le> unat (ss_nodeSize (xs ! j))"
      using Cons.prems(4)[rule_format, of "Suc j" for j] by simp
    show "fresh_nodes g1 (set (concat vs))"
      by (rule fresh_nodes_touched[OF t ws(5)]) (use Cons.prems(5) ws(1) in \<open>auto simp: fresh_nodes_def\<close>)
    show "\<forall>c\<in>set (scope_plan ext li (Suc k) vs). context_ok A g1 c"
    proof
      fix c assume c: "c \<in> set (scope_plan ext li (Suc k) vs)"
      then have "fst c \<notin> set w" using fst_scope_plan[of ext li "Suc k" vs] ws(5) by (auto 0 3)
      then show "context_ok A g1 c" using context_ok_touched[OF t] Cons.prems(6) ws(1) c by (simp add: plan_step[OF k])
    qed
  qed
  then show ?case using one size by (simp add: atR_ok[OF k])
qed simp

section \<open>Postprocessing changes only addresses in the graph\<close>

definition addr_only :: "sk_graph \<Rightarrow> sk_graph \<Rightarrow> bool" where
  "addr_only g g' \<longleftrightarrow> sg_nodeIds g' = sg_nodeIds g \<and>
     (\<forall>i. GetNodeById g' i = GetNodeById g i \<or> (\<exists>a. GetNodeById g' i = map_option (set_addrValue a) (GetNodeById g i)))"

lemma set_addrValue_twice [simp]: "set_addrValue a (set_addrValue b n) = set_addrValue a n"
  by (simp add: set_addrValue_def)

lemma addr_only_refl [simp]: "addr_only g g"
  by (simp add: addr_only_def)

lemma map_set_addrValue: "map_option (set_addrValue a) (map_option (set_addrValue b) x) = map_option (set_addrValue a) x"
  by (cases x) simp_all

lemma addr_only_trans:
  assumes "addr_only g h" and "addr_only h k"
  shows "addr_only g k"
  unfolding addr_only_def
proof (intro conjI allI)
  show "sg_nodeIds k = sg_nodeIds g" using assms by (simp add: addr_only_def)
  fix i
  from assms have "GetNodeById h i = GetNodeById g i \<or> (\<exists>a. GetNodeById h i = map_option (set_addrValue a) (GetNodeById g i))"
    and "GetNodeById k i = GetNodeById h i \<or> (\<exists>a. GetNodeById k i = map_option (set_addrValue a) (GetNodeById h i))"
    by (simp_all add: addr_only_def)
  then show "GetNodeById k i = GetNodeById g i \<or> (\<exists>a. GetNodeById k i = map_option (set_addrValue a) (GetNodeById g i))"
    by (elim disjE exE) (simp_all add: map_set_addrValue, blast+)
qed

lemma addr_only_upd [simp]: "addr_only g (upd_node i (set_addrValue a) g)"
  by (auto simp: addr_only_def)

lemma addr_only_need [simp]: "addr_only g (fold need_update need h) = addr_only g h"
  by (induction need arbitrary: h) (simp_all add: need_update_def addr_only_def GetNodeById_def)

lemma UpdateEventNodeAddrs_addr:
  "all_ok (UpdateEventNodeAddr a) is (g, need) = (ok, g', need') \<Longrightarrow> addr_only g g'"
proof (rule all_ok_invariant[where P = "\<lambda>(h, _). addr_only g h", of "UpdateEventNodeAddr a" "is" "(g, need)" ok "(g', need')", simplified])
  show "case v of (h, _) \<Rightarrow> addr_only g h"
    if "case u of (h, _) \<Rightarrow> addr_only g h" "UpdateEventNodeAddr a x u = (c, v)" for x u c v
    using that addr_only_trans[OF _ addr_only_upd] by (auto simp: UpdateEventNodeAddr_def split: option.splits)
qed simp_all

lemma ApplyEventMemory_addr:
  assumes "ApplyEventMemoryForFilteredNodes A is ((g, need), rs) = Inr (ok, (g', need'), rs')"
  shows "addr_only g g'"
  using assms
proof (induction "is" arbitrary: g need rs)
  case (Cons i ids)
  then obtain n where n: "GetNodeById g i = Some n" by auto
  show ?case
  proof (cases "nd_nodeType n \<in> {NODE_NOTIFY, NODE_WAIT, NODE_RESET} \<and> \<not> HasAddrValue n")
    case True
    obtain b g1 need1 rs1 where one: "ApplyEventMemoryResource A n ((g, need), rs) = (b, (g1, need1), rs1)"
      by (metis prod.collapse)
    have "addr_only g g1"
      using one by (auto simp: ApplyEventMemoryResource_def Let_def simp del: all_ok.simps dest: UpdateEventNodeAddrs_addr
          split: option.splits prod.splits)
    moreover have "addr_only g1 g'"
      using Cons.prems n True one Cons.IH[of g1 need1 rs1] by (cases b) auto
    ultimately show ?thesis by (rule addr_only_trans)
  next
    case False
    then show ?thesis using Cons.prems n Cons.IH by auto
  qed
qed simp

lemma PostProcess_addr: "PostProcess A sc g rs = Inr (ok, sc', g', rs') \<Longrightarrow> addr_only g g'"
  by (auto 0 0 simp: PostProcess_def Let_def FinalizePostProcess_def ExpandUpdateNodes_def
      split: if_splits option.splits sum.splits prod.splits) (erule ApplyEventMemory_addr)+

lemma addr_only_node:
  assumes "addr_only g g'" and "GetNodeById g i = Some n"
  shows "\<exists>y. GetNodeById g' i = Some (n\<lparr> nd_syncInfos := y \<rparr>)"
proof -
  from assms have "GetNodeById g' i = Some n \<or> (\<exists>a. GetNodeById g' i = Some (set_addrValue a n))"
    by (auto simp: addr_only_def dest!: spec[of _ i])
  then show ?thesis
  proof
    assume "GetNodeById g' i = Some n"
    then show ?thesis by (intro exI[of _ "nd_syncInfos n"]) simp
  qed (auto simp: set_addrValue_def)
qed

lemma addr_only_None: "addr_only g g' \<Longrightarrow> GetNodeById g' i = None \<longleftrightarrow> GetNodeById g i = None"
  unfolding addr_only_def by (metis option.map_disc_iff)

lemma addr_only_walk: "addr_only g g' \<Longrightarrow> stream_walk fuel g' tail i = stream_walk fuel g tail i"
proof (induction fuel arbitrary: i)
  case (Suc fuel)
  show ?case
  proof (cases "GetNodeById g i")
    case None
    then show ?thesis using addr_only_None[OF Suc.prems, of i] by simp
  next
    case (Some n)
    from addr_only_node[OF Suc.prems Some] show ?thesis using Suc Some by auto
  qed
qed simp

lemma addr_only_fuel: "addr_only g g' \<Longrightarrow> walk_fuel g' = walk_fuel g"
  by (simp add: addr_only_def walk_fuel_def)

lemma addr_only_walks: "addr_only g g' \<Longrightarrow> walks g' infos ws = walks g infos ws"
  by (simp add: walks_def addr_only_walk addr_only_fuel del: stream_walk.simps)

section \<open>Exactly one launch\<close>

definition launches :: "(node_id \<times> update_context) list \<Rightarrow> (node_id \<times> update_context) list" where
  "launches cs = filter (\<lambda>c. uc_launchInfo (snd c) \<noteq> None) cs"

lemma launches_append [simp]: "launches (cs @ ds) = launches cs @ launches ds"
  by (simp add: launches_def)

lemma launches_none: "mainNode \<notin> set (drop (length ps) ids) \<Longrightarrow> launches (plan mainNode li ps ids) = []"
  by (induction mainNode li ps ids rule: plan.induct) (auto simp: launches_def no_context_def)

lemma launches_plan: "mainNode \<in> set (drop (length ps) ids) \<Longrightarrow> distinct ids \<Longrightarrow>
    launches (plan mainNode li ps ids) = [(mainNode, no_context\<lparr> uc_launchInfo := Some li \<rparr>)]"
proof (induction mainNode li ps ids rule: plan.induct)
  case (3 mainNode li i "is")
  then show ?case using launches_none[of mainNode "[]" "is" li]
    by (cases "i = mainNode") (auto simp: launches_def no_context_def)
qed (auto simp: launches_def no_context_def)

definition plans_of :: "node_id \<Rightarrow> launch_info \<Rightarrow> (task_value list \<times> node_id list) list \<Rightarrow> (node_id \<times> update_context) list" where
  "plans_of mainNode li ts = concat (map (\<lambda>(ps, w). plan mainNode li ps w) ts)"

lemma plans_of_none: "mainNode \<notin> set (concat (map snd ts)) \<Longrightarrow> launches (plans_of mainNode li ts) = []"
proof (induction ts)
  case (Cons t ts)
  then have "mainNode \<notin> set (drop (length (fst t)) (snd t))" by (auto dest: in_set_dropD)
  from launches_none[OF this] Cons show ?case by (simp add: plans_of_def split_def)
qed (simp add: plans_of_def launches_def)

lemma plans_of_one:
  assumes "\<exists>(ps, w)\<in>set ts. mainNode \<in> set (drop (length ps) w)" and "distinct (concat (map snd ts))"
  shows "launches (plans_of mainNode li ts) = [(mainNode, no_context\<lparr> uc_launchInfo := Some li \<rparr>)]"
  using assms
proof (induction ts)
  case (Cons t ts)
  obtain ps w where t: "t = (ps, w)" by (cases t)
  have split: "launches (plans_of mainNode li (t # ts)) = launches (plan mainNode li ps w) @ launches (plans_of mainNode li ts)"
    by (simp add: plans_of_def t)
  show ?case
  proof (cases "mainNode \<in> set (drop (length ps) w)")
    case True
    then have "mainNode \<notin> set (concat (map snd ts))" using Cons.prems(2) t by (auto dest!: in_set_dropD)
    then show ?thesis using True Cons.prems(2) t split by (simp add: plans_of_none launches_plan)
  next
    case False
    then show ?thesis using Cons t split by (auto simp: launches_none)
  qed
qed simp

lemma scope_plan_launches:
  assumes "main_left ext k ws" and "distinct (concat ws)" and "length ws \<le> length (ex_customParamsList ext) - k"
  shows "launches (scope_plan ext li k ws) = [(ex_skMainNodeId ext, no_context\<lparr> uc_launchInfo := Some li \<rparr>)]"
proof -
  let ?ts = "zip (drop k (ex_customParamsList ext)) ws"
  have "map snd ?ts = ws" using assms(3) by (simp add: map_snd_zip_take)
  then have "launches (plans_of (ex_skMainNodeId ext) li ?ts) = [(ex_skMainNodeId ext, no_context\<lparr> uc_launchInfo := Some li \<rparr>)]"
    using assms(1,2) by (intro plans_of_one) (auto simp: main_left_def)
  then show ?thesis by (simp add: scope_plan_def plans_of_def map2_map_map split_def)
qed

lemma update_streams_length:
  "update_streams A ext li k infos s = Inr (True, s') \<Longrightarrow> length infos \<le> length (ex_customParamsList ext) - k"
proof (induction infos arbitrary: k s)
  case (Cons x xs)
  then obtain s1 where "k < length (ex_customParamsList ext)" "update_streams A ext li (Suc k) xs s1 = Inr (True, s')"
    by (auto split: if_splits)
  then show ?case using Cons.IH by fastforce
qed simp

section \<open>The update of a scope\<close>

lemma GetNodeById_need [simp]: "GetNodeById (g\<lparr> sg_needUpdate := b \<rparr>) i = GetNodeById g i"
  by (simp add: GetNodeById_def)

lemma touched_need [simp]: "touched S g (h\<lparr> sg_needUpdate := b \<rparr>) = touched S g h"
  by (simp add: touched_def)

text \<open>What a successful update has done.\<close>

definition scope_updated :: "acl \<Rightarrow> sk_scope \<Rightarrow> launch_info \<Rightarrow> node_id list list \<Rightarrow> sk_graph \<times> res_state \<Rightarrow> sk_graph \<times> res_state \<Rightarrow> bool" where
  "scope_updated A sc li ws s s' \<longleftrightarrow>
     (let cs = scope_plan (sc_ext sc) li 0 ws in
       launches cs = [(ex_skMainNodeId (sc_ext sc), no_context\<lparr> uc_launchInfo := Some li \<rparr>)] \<and>
       touched (set (concat ws)) (fst s) (fst s') \<and> sg_needUpdate (fst s') \<and>
       snd s' = logged (calls_of A (fst s) cs) (snd s))"

lemma OptimizerUpdate_done:
  assumes "OptimizerUpdate A sc g li st = Inr (True, g', st')" and w: "walks g (sc_streamInfos sc) ws"
  shows "scope_updated A sc li ws (g, st) (g', st')"
proof -
  let ?ext = "sc_ext sc"
  from assms(1) obtain g1 where run: "update_streams A ?ext li 0 (sc_streamInfos sc) (False, g, st) = Inr (True, True, g1, st')"
    and g': "g' = g1\<lparr> sg_needUpdate := True \<rparr>" by (auto simp: OptimizerUpdate_def split: if_splits)
  have len: "length ws \<le> length (ex_customParamsList ?ext) - 0"
    using update_streams_length[OF run] w by (auto simp: walks_def dest: list_all2_lengthD)
  from update_streams_success[OF run w] have "main_left ?ext 0 ws" "touched (set (concat ws)) g g1"
    "st' = logged (calls_of A g (scope_plan ?ext li 0 ws)) st" by simp_all
  then show ?thesis using scope_plan_launches[OF _ _ len] w g' by (simp add: scope_updated_def walks_def)
qed

lemma post_plan_custom_ok:
  assumes "post_plan g infos ext m order plans L a b" and "j < length infos" and "t \<in> set (ex_customParamsList ext ! j)"
  shows "custom_ok t"
proof -
  have d: "distinct (m # order)" "set (m # order) = {..<length infos}"
    and evs: "ex_eventNodes ext = concat (map (stream_events infos plans L a b) order)"
    and nonzero: "\<forall>n\<in>set (ex_eventNodes ext). event_addr n \<noteq> 0"
    and par: "ex_customParamsList ext = map (handshake plans m order a b) [0..<length infos]"
    using assms(1) unfolding post_plan_def by blast+
  have ok: "x \<noteq> 0" if "x \<in> event_addr ` set (ex_eventNodes ext)" for x
    using that nonzero by (auto simp del: set_concat)
  have addrs: "event_addr ` set (ex_eventNodes ext) = a ` set (fronts plans order) \<union> b ` set (backs plans order)"
    unfolding evs by (rule stream_events_addrs)
  have A: "a i \<noteq> 0" if "i \<in> set (fronts plans order)" for i
    by (rule ok) (unfold addrs, use that in blast)
  have B: "b i \<noteq> 0" if "i \<in> set order" "pl_needBackBlock (plans ! i)" for i
    by (rule ok) (unfold addrs, use that in \<open>force simp: backs_def\<close>)
  have "j \<noteq> m \<Longrightarrow> j \<in> set order" using d(2) assms(2) by auto
  have W: "a i \<noteq> 0" if "next_of (m # fronts plans order) j = Some i" for i
    using next_of_range[OF that] A by auto
  from assms(2,3) show ?thesis using A B W
    by (auto simp: par handshake_def await_part_def arrive_part_def leave_part_def custom_ok_def wait_for_def
        split: option.splits if_splits)
qed

lemma plan_custom_in: "(i, ctx) \<in> set (plan mainNode li ps ids) \<Longrightarrow> uc_customParams ctx = Some t \<Longrightarrow> t \<in> set ps"
  by (induction mainNode li ps ids rule: plan.induct) (auto simp: no_context_def split: if_splits)

lemma plan_launch_in: "(i, ctx) \<in> set (plan mainNode li ps ids) \<Longrightarrow> uc_launchInfo ctx = Some li' \<Longrightarrow> li' = li \<and> i = mainNode"
  by (induction mainNode li ps ids rule: plan.induct) (auto simp: no_context_def split: if_splits)

lemma node_calls_addr: "node_calls A ctx (n\<lparr> nd_syncInfos := y \<rparr>) = node_calls A ctx n"
  by (simp add: node_calls_def launch_cfg_def cong: if_cong option.case_cong)

lemma calls_of_addr:
  assumes "addr_only g g'" and "\<forall>c\<in>set cs. GetNodeById g (fst c) \<noteq> None"
  shows "calls_of A g' cs = calls_of A g cs"
proof -
  have "node_calls A ctx (the (GetNodeById g' i)) = node_calls A ctx (the (GetNodeById g i))" if "(i, ctx) \<in> set cs" for i ctx
  proof -
    from that assms(2) obtain n where n: "GetNodeById g i = Some n" by fastforce
    from addr_only_node[OF assms(1) n] n show ?thesis by (auto simp: node_calls_addr)
  qed
  then show ?thesis by (auto simp: calls_of_def intro!: arg_cong[where f = concat] map_cong)
qed

lemma walk_nodes: "stream_walk fuel g tail i = Some ids \<Longrightarrow> j \<in> set ids \<Longrightarrow> GetNodeById g j \<noteq> None"
  by (induction fuel arbitrary: i ids) (auto split: if_splits option.splits)

lemma walks_nodes:
  assumes "walks g infos ws" and "j \<in> set (concat ws)"
  shows "GetNodeById g j \<noteq> None"
proof -
  from assms obtain k where "k < length ws" "j \<in> set (ws ! k)"
    by (metis (no_types, opaque_lifting) UN_E in_set_conv_nth set_concat)
  with assms(1) show ?thesis by (auto simp: walks_def list_all2_conv_all_nth simp del: not_None_eq dest: walk_nodes)
qed

lemma fresh_nodes_addr:
  assumes "addr_only g g'" and "fresh_nodes g S"
  shows "fresh_nodes g' S"
  unfolding fresh_nodes_def
proof (intro ballI allI impI)
  fix i n assume i: "i \<in> S" "GetNodeById g' i = Some n"
  then obtain k where k: "GetNodeById g i = Some k" using addr_only_None[OF assms(1), of i] by auto
  from addr_only_node[OF assms(1) k] i k assms(2) show "\<not> nd_isUpdate n" by (auto simp: fresh_nodes_def)
qed


text \<open>
  C17 \<^bold>\<open>An update does exactly what postprocessing has planned.\<close> If the update of a scope succeeds, no
  node of the scope had been updated before and all are now, no other node is changed, and the calls to
  the runtime are those of the plan in their order: the first nodes of each stream take its waits and
  writes, one node, the main one, takes the launch of the fused kernel, every other task is disabled
  (a default node is left alone). The graph is marked as changed.
\<close>

theorem OptimizerUpdate_calls:
  assumes "OptimizerUpdate A sc g li st = Inr (True, g', st')" and "walks g (sc_streamInfos sc) ws"
  shows "scope_updated A sc li ws (g, st) (g', st')"
  by (rule OptimizerUpdate_done[OF assms])

text \<open>
  C16 \<^bold>\<open>What postprocessing plans can be written back.\<close> After a successful postprocessing the update of
  the scope succeeds, if the runtime accepts the calls and the launch of the main kernel can be
  configured: every planned wait and write has an address, every stream has a node for each of its
  tasks, and the main node is met where it can still take the launch.
\<close>

theorem PostProcess_then_Update:
  assumes "graph_ok g" and "fresh_malloc A" and "books_kept rs"
    and "\<forall>x\<in>set (sc_streamInfos sc). ss_nodeSize x \<noteq> 0" and "length (sc_streamInfos sc) < 2 ^ 32"
    and "PostProcess A sc g rs = Inr (True, sc', g', rs')"
    and "GetNodeById g INVALID_TASK_ID = None" and "walks g (sc_streamInfos sc) ws" and "fresh_nodes g (set (concat ws))"
    and "accepting A'" and "\<forall>n. GetNodeById g' (ex_skMainNodeId (sc_ext sc')) = Some n \<longrightarrow> launchable A' li n"
  shows "\<exists>g'' st'. OptimizerUpdate A' sc' g' li st = Inr (True, g'', st') \<and>
    scope_updated A' sc' li ws (g', st) (g'', st')"
proof -
  let ?infos = "sc_streamInfos sc" and ?ext = "sc_ext sc'"
  have infos: "sc_streamInfos sc' = ?infos" using assms(6) by (rule PostProcess_success)
  from PostProcess_post_plan[OF assms(1-6)] obtain m order plans L a b where
    plan: "post_plan g ?infos ?ext m order plans L a b" by blast
  have addr: "addr_only g g'" by (rule PostProcess_addr[OF assms(6)])
  have w: "walks g' (sc_streamInfos sc') ws" using addr_only_walks[OF addr] assms(8) infos by simp
  have len: "length (ex_customParamsList ?ext) = length ?infos" "length ws = length ?infos"
    using plan w infos by (auto simp: post_plan_def walks_def dest: list_all2_lengthD)
  have ok: "context_ok A' g' c" if "c \<in> set (scope_plan ?ext li 0 ws)" for c
  proof -
    from that obtain j where j: "j < length ?infos"
      "c \<in> set (plan (ex_skMainNodeId ?ext) li (ex_customParamsList ?ext ! j) (ws ! j))"
      using len by (auto simp: scope_plan_def set_zip)
    obtain i ctx where c: "c = (i, ctx)" by fastforce
    have "custom_ok t" if "uc_customParams ctx = Some t" for t
      using post_plan_custom_ok[OF plan j(1)] plan_custom_in[OF j(2)[unfolded c] that] by blast
    moreover have "launchable A' li' n" if "uc_launchInfo ctx = Some li'" "GetNodeById g' i = Some n" for li' n
      using plan_launch_in[OF j(2)[unfolded c] that(1)] that(2) assms(11) by blast
    ultimately show ?thesis by (simp add: context_ok_def c)
  qed
  have small: "\<forall>j<length (sc_streamInfos sc'). length (ex_customParamsList ?ext ! (0 + j)) \<le> unat (ss_nodeSize (sc_streamInfos sc' ! j))"
    using plan unfolding infos post_plan_def add_0 by blast
  obtain u' g1 st1 where run: "update_streams A' ?ext li 0 (sc_streamInfos sc') (False, g', st) = Inr (True, u', g1, st1)"
    using update_streams_accepts[OF assms(10) w, of False ?ext 0 li st] len infos small ok
      fresh_nodes_addr[OF addr assms(9)] by auto
  have m: "m < length ?infos" using plan by (auto simp: post_plan_def)
  obtain d where d: "length (ex_customParamsList ?ext ! m) \<le> d"
    "on_walk g (ss_tailNodeIdx (?infos ! m)) (ss_headNodeIdx (?infos ! m)) d (ex_skMainNodeId ?ext)"
    using plan by (auto simp: post_plan_def)
  have "stream_walk (walk_fuel g) g (ss_tailNodeIdx (?infos ! m)) (ss_headNodeIdx (?infos ! m)) = Some (ws ! m)"
    using assms(8) m by (simp add: walks_def list_all2_conv_all_nth)
  then have "d < length (ws ! m)" "ws ! m ! d = ex_skMainNodeId ?ext" using d(2) assms(7) unfolding on_walk_def by blast+
  then have "ex_skMainNodeId ?ext \<in> set (drop (length (ex_customParamsList ?ext ! m)) (ws ! m))"
    using d(1) by (auto simp: in_set_conv_nth intro!: exI[of _ "d - length (ex_customParamsList ?ext ! m)"])
  then have "main_left ?ext 0 ws" using m len by (auto simp: main_left_def set_zip)
  then have "u'" using update_streams_success[OF run w] by simp
  then have "OptimizerUpdate A' sc' g' li st = Inr (True, g1\<lparr> sg_needUpdate := True \<rparr>, st1)"
    using run by (simp add: OptimizerUpdate_def)
  then show ?thesis using OptimizerUpdate_done[OF _ w] by blast
qed


definition sample_launch :: launch_info where
  "sample_launch = \<lparr> li_skEntryFunc = 77, li_numBlocks = 8, li_devArgs = Some (5, 64), li_cacheInfo = 0,
     li_cacheopInfoSize = 0, li_minAvailableUbufSize = 0, li_hasMinAvailableUbufSize = False \<rparr>"

lemma sample_accepting: "accepting sample_acl"
  by (simp add: accepting_def sample_acl_def)

lemma sample_launchable: "launchable A sample_launch n"
  by (simp add: launchable_def launch_cfg_def sample_launch_def)

lemma two_streams_walks: "walks two_streams (sc_streamInfos two_stream_scope) [[2, 3, 4], [12, 13, 14]]"
  unfolding walks_def by code_simp

lemma two_streams_fresh: "fresh_nodes two_streams S"
  by (auto simp: fresh_nodes_def two_streams_def sample_graph_def GetNodeById_def sample_node_def new_node_def split: if_splits)

lemma PostProcess_then_Update_witness:
  "\<exists>sc' g' rs' g'' st'. PostProcess careful_acl two_stream_scope two_streams sample_run = Inr (True, sc', g', rs') \<and>
     OptimizerUpdate sample_acl sc' g' sample_launch rs' = Inr (True, g'', st') \<and>
     scope_updated sample_acl sc' sample_launch [[2, 3, 4], [12, 13, 14]] (g', rs') (g'', st')"
proof -
  obtain sc' g' rs' where run: "PostProcess careful_acl two_stream_scope two_streams sample_run = Inr (True, sc', g', rs')"
    using two_streams_run by (cases "PostProcess careful_acl two_stream_scope two_streams sample_run") auto
  have infos: "\<forall>x\<in>set (sc_streamInfos two_stream_scope). ss_nodeSize x \<noteq> 0" "length (sc_streamInfos two_stream_scope) < 2 ^ 32"
    by (simp_all add: two_stream_scope_def)
  have inv: "GetNodeById two_streams INVALID_TASK_ID = None" by code_simp
  show ?thesis
    using PostProcess_then_Update[OF two_streams_ok careful_acl_fresh sample_run_books infos run inv two_streams_walks
        two_streams_fresh sample_accepting, of sample_launch rs'] run sample_launchable by blast
qed

text \<open>The same update on its own, with its calls.\<close>

definition planned_scope :: sk_scope where
  "planned_scope = two_stream_scope\<lparr> sc_ext := default_ext\<lparr> ex_skMainNodeId := 3,
     ex_customParamsList := [[wait_for 4224], [ValueWrite 4224 1, wait_for 4288, ValueWrite 4288 0]] \<rparr> \<rparr>"

lemma planned_scope_run: "map_sum (\<lambda>_. ()) (\<lambda>(ok, g2, st2). (ok, rev (rs_log st2)))
    (OptimizerUpdate sample_acl planned_scope two_streams sample_launch empty_res) =
  Inr (True, [CallSetParams 2 (wait_for 4224) ACL_SUCCESS,
      CallSetParams 3 (KernelTask (launch_of sample_launch (5, 64) None)) ACL_SUCCESS, CallDisable 4 ACL_SUCCESS,
      CallSetParams 12 (ValueWrite 4224 1) ACL_SUCCESS, CallSetParams 13 (wait_for 4288) ACL_SUCCESS,
      CallSetParams 14 (ValueWrite 4288 0) ACL_SUCCESS])"
  by code_simp

lemma OptimizerUpdate_calls_witness:
  "\<exists>g' st'. OptimizerUpdate sample_acl planned_scope two_streams sample_launch empty_res = Inr (True, g', st') \<and>
     scope_updated sample_acl planned_scope sample_launch [[2, 3, 4], [12, 13, 14]] (two_streams, empty_res) (g', st') \<and>
     length (rs_log st') = 6"
proof -
  obtain g' st' where run: "OptimizerUpdate sample_acl planned_scope two_streams sample_launch empty_res = Inr (True, g', st')"
    and l: "length (rev (rs_log st')) = 6"
    using planned_scope_run by (cases "OptimizerUpdate sample_acl planned_scope two_streams sample_launch empty_res") auto
  have "walks two_streams (sc_streamInfos planned_scope) [[2, 3, 4], [12, 13, 14]]"
    using two_streams_walks by (simp add: planned_scope_def)
  from OptimizerUpdate_calls[OF run this] run l show ?thesis by auto
qed

section \<open>The update of the graph\<close>

text \<open>The event nodes that no scope has updated, with the task each gets.\<close>

definition event_plan :: "sk_graph \<Rightarrow> node_id list \<Rightarrow> (node_id \<times> update_context) list" where
  "event_plan g is = map (\<lambda>i. (i, no_context\<lparr> uc_customParams := event_task (the (GetNodeById g i)) \<rparr>)) is"

definition not_updated :: "sk_graph \<Rightarrow> node_id list \<Rightarrow> node_id list" where
  "not_updated g is = filter (\<lambda>i. map_option nd_isUpdate (GetNodeById g i) = Some False) is"

lemma touched_disjoint: "touched S g g' \<Longrightarrow> S \<inter> set is = {} \<Longrightarrow> \<forall>i\<in>set is. GetNodeById g' i = GetNodeById g i"
  by (meson disjoint_iff touched_other)

lemma not_updated_touched: "touched S g g' \<Longrightarrow> S \<inter> set is = {} \<Longrightarrow> not_updated g' is = not_updated g is"
  unfolding not_updated_def by (rule filter_cong[OF refl]) (simp add: touched_disjoint)

lemma event_plan_touched: "touched S g g' \<Longrightarrow> S \<inter> set is = {} \<Longrightarrow> event_plan g' is = event_plan g is"
  unfolding event_plan_def by (rule map_cong[OF refl]) (simp add: touched_disjoint)

lemma update_events_success:
  assumes "update_events A is (g, st) = Inr (True, g', st')" and "distinct is"
  shows "touched (set (not_updated g is)) g g' \<and> st' = logged (calls_of A g (event_plan g (not_updated g is))) st"
  using assms
proof (induction "is" arbitrary: g st)
  case Nil
  then show ?case by (simp add: not_updated_def event_plan_def)
next
  case (Cons i js)
  from Cons.prems(1) obtain n where n: "GetNodeById g i = Some n" by (auto split: option.splits)
  show ?case
  proof (cases "nd_isUpdate n")
    case True
    then show ?thesis using Cons n by (simp add: not_updated_def)
  next
    case False
    then obtain t n1 st1 where t: "event_task n = Some t"
      and one: "NodeUpdate A (no_context\<lparr> uc_customParams := Some t \<rparr>) n st = Inr (True, n1, st1)"
      and rest: "update_events A js (upd_node i (\<lambda>_. n1) g, st1) = Inr (True, g', st')"
      using Cons.prems(1) n by (auto split: option.splits if_splits)
    note up = NodeUpdate_success[OF one]
    let ?g1 = "upd_node i (\<lambda>_. n1) g" and ?js = "not_updated g js"
    have t1: "touched {i} g ?g1" using touched_upd[OF n] up by simp
    have js: "{i} \<inter> set js = {}" "set ?js \<subseteq> set js" using Cons.prems(2) by (auto simp: not_updated_def)
    then have sub: "{i} \<inter> set ?js = {}" by auto
    have IH: "touched (set ?js) ?g1 g'" "st' = logged (calls_of A ?g1 (event_plan ?g1 ?js)) st1"
      using Cons.IH[OF rest] Cons.prems(2) not_updated_touched[OF t1 js(1)] by simp_all
    have "calls_of A ?g1 (event_plan g ?js) = calls_of A g (event_plan g ?js)"
      by (rule calls_of_touched[OF t1]) (use sub in \<open>auto simp: event_plan_def\<close>)
    then have "st' = logged (node_calls A (no_context\<lparr> uc_customParams := Some t \<rparr>) n @ calls_of A g (event_plan g ?js)) st"
      using IH(2) up event_plan_touched[OF t1 sub] by simp
    moreover have "not_updated g (i # js) = i # ?js" using n False by (simp add: not_updated_def)
    moreover have "event_plan g (i # ?js) = (i, no_context\<lparr> uc_customParams := Some t \<rparr>) # event_plan g ?js"
      using n t by (simp add: event_plan_def)
    ultimately show ?thesis using touched_trans[OF t1 IH(1) sub] n by simp
  qed
qed


lemma update_events_nodes:
  "update_events A is (g, st) = Inr (True, g', st') \<Longrightarrow> i \<in> set is \<Longrightarrow> \<exists>n. GetNodeById g i = Some n"
proof (induction "is" arbitrary: g st)
  case (Cons j js)
  show ?case
  proof (cases "i = j")
    case False
    from Cons.prems(1) obtain h st1 where h: "update_events A js (h, st1) = Inr (True, g', st')"
      "\<forall>k. GetNodeById h k = None \<longleftrightarrow> GetNodeById g k = None" by (auto split: option.splits if_splits)
    obtain n where "GetNodeById h i = Some n" using Cons.IH[OF h(1)] Cons.prems(2) False by auto
    then show ?thesis using h(2)[rule_format, of i] by simp
  qed (use Cons.prems in \<open>auto split: option.splits\<close>)
qed simp

lemma updated_node_mark: "updated_node n n' \<Longrightarrow> nd_isUpdate n'"
  by (auto simp: updated_node_def)

text \<open>
  C18 \<^bold>\<open>The update of the graph writes every event that is left, once.\<close> The nodes marked for an update are an
  unordered set; let \<open>order\<close> be any order in which it yields them. If the update reports success, then
  either nothing was marked and nothing is done, or every node that was marked is updated in the end;
  those that no scope had updated before got their address and value, each exactly once and in the order
  of the set, whatever it is; no other node was changed, and the model was updated once, after all of
  them. Which nodes are written and with which tasks is the same for every order.
\<close>

theorem GraphUpdate_success:
  assumes "GraphUpdate A order g st = Inr (ACL_SUCCESS, g', st')" and "distinct order"
    and "set order = sg_needUpdateNodes g"
  shows "if \<not> sg_needUpdate g \<and> sg_needUpdateNodes g = {} then g' = g \<and> st' = st
    else let is = not_updated g order in
      (\<forall>i\<in>sg_needUpdateNodes g. map_option nd_isUpdate (GetNodeById g' i) = Some True) \<and>
      touched (set is) g g' \<and> distinct is \<and>
      set is = {i\<in>sg_needUpdateNodes g. map_option nd_isUpdate (GetNodeById g i) = Some False} \<and>
      st' = logged (calls_of A g (event_plan g is) @ [CallModelUpdate ACL_SUCCESS]) st"
proof (cases "\<not> sg_needUpdate g \<and> sg_needUpdateNodes g = {}")
  case True
  then show ?thesis using assms(1) by (auto simp: GraphUpdate_def)
next
  case work: False
  from assms(1) work obtain st1 where run: "update_events A order (g, st) = Inr (True, g', st1)"
    and st': "st' = logged [CallModelUpdate ACL_SUCCESS] st1"
    by (auto simp: GraphUpdate_def aclmdlRIUpdate_def Let_def logged_one split: if_splits)
  note ran = update_events_success[OF run assms(2)]
  have "map_option nd_isUpdate (GetNodeById g' i) = Some True" if "i \<in> set order" for i
  proof (cases "i \<in> set (not_updated g order)")
    case True
    with ran obtain n n' where "GetNodeById g' i = Some n'" "updated_node n n'" unfolding touched_def by metis
    then show ?thesis by (simp add: updated_node_mark)
  next
    case False
    obtain n where "GetNodeById g i = Some n" using update_events_nodes[OF run \<open>i \<in> set order\<close>] by blast
    moreover from this have "nd_isUpdate n" using False that by (simp add: not_updated_def)
    ultimately show ?thesis using touched_other[OF conjunct1[OF ran] False] by simp
  qed
  moreover have "distinct (not_updated g order)" using assms(2) by (simp add: not_updated_def)
  moreover have "set (not_updated g order) =
      {i\<in>sg_needUpdateNodes g. map_option nd_isUpdate (GetNodeById g i) = Some False}"
    using assms(3) by (auto simp: not_updated_def)
  ultimately show ?thesis unfolding if_not_P[OF work] Let_def using ran st' assms(3) by simp
qed


text \<open>
  A kernel a scope has updated, and two notify nodes outside of it whose events have got a word; the set
  yields the second before the first.
\<close>

definition marked_graph :: sk_graph where
  "marked_graph = (sample_graph
    [(sample_node KernelNode NODE_KERNEL INVALID_TASK_ID 1 2)\<lparr> nd_isUpdate := True \<rparr>,
     set_addrValue 4096 (sample_node MemoryNode NODE_NOTIFY 1 2 3),
     set_addrValue 8192 (sample_node MemoryNode NODE_NOTIFY 2 3 INVALID_TASK_ID)])
       \<lparr> sg_needUpdate := True, sg_needUpdateNodes := {1, 2, 3} \<rparr>"

lemma marked_graph_run: "map_sum (\<lambda>_. ()) (\<lambda>(r, g', st'). (r, rs_log st')) (GraphUpdate sample_acl [3, 1, 2] marked_graph empty_res) =
    Inr (ACL_SUCCESS, [CallModelUpdate ACL_SUCCESS, CallSetParams 2 (ValueWrite 4096 1) ACL_SUCCESS,
      CallSetParams 3 (ValueWrite 8192 1) ACL_SUCCESS])"
  by code_simp

lemma GraphUpdate_success_witness:
  "\<exists>g' st'. GraphUpdate sample_acl [3, 1, 2] marked_graph empty_res = Inr (ACL_SUCCESS, g', st') \<and>
     touched {3, 2} marked_graph g' \<and> (\<forall>i\<in>{1, 2, 3}. map_option nd_isUpdate (GetNodeById g' i) = Some True) \<and>
     rs_log st' = [CallModelUpdate ACL_SUCCESS, CallSetParams 2 (ValueWrite 4096 1) ACL_SUCCESS,
       CallSetParams 3 (ValueWrite 8192 1) ACL_SUCCESS]"
proof -
  obtain g' st' where run: "GraphUpdate sample_acl [3, 1, 2] marked_graph empty_res = Inr (ACL_SUCCESS, g', st')"
    and l: "rs_log st' = [CallModelUpdate ACL_SUCCESS, CallSetParams 2 (ValueWrite 4096 1) ACL_SUCCESS,
      CallSetParams 3 (ValueWrite 8192 1) ACL_SUCCESS]"
    using marked_graph_run by (cases "GraphUpdate sample_acl [3, 1, 2] marked_graph empty_res") auto
  have need: "sg_needUpdate marked_graph" "sg_needUpdateNodes marked_graph = {1, 2, 3}"
    by (simp_all add: marked_graph_def)
  have upd: "not_updated marked_graph [3, 1, 2] = [3, 2]" by code_simp
  have order: "distinct [3, 1, 2 :: node_id]" "set [3, 1, 2] = sg_needUpdateNodes marked_graph"
    using need(2) by auto
  have "touched {3, 2} marked_graph g' \<and> (\<forall>i\<in>{1, 2, 3}. map_option nd_isUpdate (GetNodeById g' i) = Some True)"
  proof -
    have all: "\<forall>i\<in>sg_needUpdateNodes marked_graph. map_option nd_isUpdate (GetNodeById g' i) = Some True"
      "touched (set (not_updated marked_graph [3, 1, 2])) marked_graph g'"
      using GraphUpdate_success[OF run order] need(1) unfolding Let_def by auto
    show ?thesis using all(1) all(2)[unfolded upd] unfolding need(2) by simp
  qed
  then show ?thesis using run l by blast
qed

end
