(* ===== verification/Sk_Filter.thy ===== *)
theory Sk_Filter
  imports Sk_Post
begin

text \<open>
  Which nodes of a scope postprocessing cancels: a wait whose event is recorded inside the scope, the
  record of an event all of whose waits are inside, and its resets.
\<close>

section \<open>The balance of an event\<close>

definition node_of :: "sk_graph \<Rightarrow> node_id \<Rightarrow> sk_node" where
  "node_of g i = the (GetNodeById g i)"

definition notifies :: "event_id \<Rightarrow> sk_node \<Rightarrow> bool" where
  "notifies e n \<longleftrightarrow> nd_nodeType n = NODE_NOTIFY \<and> GetEventId n = e"

definition awaits :: "event_id \<Rightarrow> sk_node \<Rightarrow> bool" where
  "awaits e n \<longleftrightarrow> nd_nodeType n = NODE_WAIT \<and> GetEventId n = e"

abbreviation waits_of :: "sk_node \<Rightarrow> node_id list" where
  "waits_of n \<equiv> sy_correspondingWaitNodeIds (nd_syncInfos n)"

lemma known_foldR:
  "set ids \<subseteq> dom (sg_graphMap g) \<Longrightarrow>
   foldR (\<lambda>i s. bindR (derefR (GetNodeById g i)) (\<lambda>n. Inr (f i n s))) ids s = Inr (fold (\<lambda>i. f i (node_of g i)) ids s)"
proof (induction ids arbitrary: s)
  case (Cons i ids)
  then obtain n where "GetNodeById g i = Some n" by (auto simp: GetNodeById_def)
  then show ?case using Cons by (simp add: node_of_def)
qed simp

lemma event_count_step:
  "event_count (count_event n ec) e = event_count ec e +
     (if notifies e n then of_nat (length (waits_of n)) else 0) - (if awaits e n then 1 else 0)"
  by (auto simp: event_count_def count_event_def notifies_def awaits_def update_conv' split: option.split)

lemma event_count_fold:
  "event_count (fold count_event ns ec) e = event_count ec e +
     (\<Sum>n\<leftarrow>filter (notifies e) ns. of_nat (length (waits_of n))) - of_nat (length (filter (awaits e) ns))"
  by (induction ns arbitrary: ec) (auto simp: event_count_step algebra_simps)

lemma event_seen_fold:
  "map_of (fold count_event ns ec) e \<noteq> None \<longleftrightarrow> map_of ec e \<noteq> None \<or> (\<exists>n\<in>set ns. notifies e n \<or> awaits e n)"
  by (induction ns arbitrary: ec) (auto simp: count_event_def notifies_def awaits_def update_conv' split: if_splits)

text \<open>
  The constraints the code names: an event has at most one notify node in the scope, and its wait nodes
  in the scope are those it lists that are there. The lists are shorter than the range of a signed word.
\<close>

definition events_paired :: "sk_graph \<Rightarrow> node_id list \<Rightarrow> bool" where
  "events_paired g nodes \<longleftrightarrow> distinct nodes \<and> set nodes \<subseteq> dom (sg_graphMap g) \<and> length nodes < 2 ^ 63 \<and>
     (\<forall>i\<in>set nodes. \<forall>e. notifies e (node_of g i) \<longrightarrow>
        (\<forall>j\<in>set nodes. notifies e (node_of g j) \<longrightarrow> j = i) \<and>
        distinct (waits_of (node_of g i)) \<and> length (waits_of (node_of g i)) < 2 ^ 63 \<and>
        {j \<in> set nodes. awaits e (node_of g j)} = set (waits_of (node_of g i)) \<inter> set nodes)"

definition cancels :: "sk_graph \<Rightarrow> node_id list \<Rightarrow> node_id \<Rightarrow> bool" where
  "cancels g nodes i = (let n = node_of g i; e = GetEventId n in
     case nd_nodeType n of
       NODE_WAIT \<Rightarrow> \<exists>j\<in>set nodes. notifies e (node_of g j)
     | NODE_NOTIFY \<Rightarrow> set (waits_of n) \<subseteq> set nodes \<and> ShouldCancelNotify n
     | NODE_RESET \<Rightarrow> \<exists>j\<in>set nodes. notifies e (node_of g j) \<and> set (waits_of (node_of g j)) \<subseteq> set nodes
     | _ \<Rightarrow> False)"

definition balance :: "sk_graph \<Rightarrow> node_id list \<Rightarrow> event_counts" where
  "balance g nodes = fold count_event (map (node_of g) nodes) []"

lemma distinct_single: "set xs = {x} \<Longrightarrow> distinct xs \<Longrightarrow> xs = [x]"
  by (cases xs; cases "tl xs") auto

lemma event_count_Nil [simp]: "event_count [] e = 0"
  by (simp add: event_count_def)

lemma balance_with_notify:
  assumes p: "events_paired g nodes" and i: "i \<in> set nodes" "notifies e (node_of g i)"
  shows "event_count (balance g nodes) e = of_nat (length (filter (\<lambda>j. j \<notin> set nodes) (waits_of (node_of g i))))"
proof -
  let ?W = "waits_of (node_of g i)"
  have d: "distinct nodes" "distinct ?W"
    and w: "{j \<in> set nodes. awaits e (node_of g j)} = set ?W \<inter> set nodes"
    using p i by (auto simp: events_paired_def)
  have "filter (\<lambda>j. notifies e (node_of g j)) nodes = [i]"
  proof -
    have "set (filter (\<lambda>j. notifies e (node_of g j)) nodes) = {i}" using p i by (auto simp: events_paired_def)
    moreover have "distinct (filter (\<lambda>j. notifies e (node_of g j)) nodes)" using d by simp
    ultimately show ?thesis by (intro distinct_single)
  qed
  then have n: "filter (notifies e) (map (node_of g) nodes) = [node_of g i]"
    by (simp add: filter_map o_def)
  have "length (filter (awaits e) (map (node_of g) nodes)) = card {j \<in> set nodes. awaits e (node_of g j)}"
    using distinct_card[of "filter (\<lambda>j. awaits e (node_of g j)) nodes"] d(1) by (simp add: filter_map o_def)
  also have "\<dots> = length (filter (\<lambda>j. j \<in> set nodes) ?W)"
    using distinct_card[of "filter (\<lambda>j. j \<in> set nodes) ?W"] d(2) w by (simp add: Int_def)
  finally have ws: "length (filter (awaits e) (map (node_of g) nodes)) = length (filter (\<lambda>j. j \<in> set nodes) ?W)" .
  have "length ?W = length (filter (\<lambda>j. j \<in> set nodes) ?W) + length (filter (\<lambda>j. j \<notin> set nodes) ?W)"
    using sum_length_filter_compl[of "\<lambda>j. j \<in> set nodes" ?W] by simp
  then show ?thesis
    unfolding balance_def event_count_fold n ws by simp
qed

lemma balance_without_notify:
  assumes "\<forall>j\<in>set nodes. \<not> notifies e (node_of g j)"
  shows "event_count (balance g nodes) e = - of_nat (length (filter (\<lambda>j. awaits e (node_of g j)) nodes))"
proof -
  have "filter (notifies e) (map (node_of g) nodes) = []" using assms by (simp add: filter_empty_conv)
  then show ?thesis by (simp add: balance_def event_count_fold filter_map o_def)
qed

section \<open>The nodes that stay\<close>

lemma small_words:
  assumes "k < 2 ^ 63"
  shows "(of_nat k :: u64) = 0 \<longleftrightarrow> k = 0" "0 \<le>s (of_nat k :: u64)"
    "(- of_nat k :: u64) = 0 \<longleftrightarrow> k = 0" "0 \<le>s (- of_nat k :: u64) \<longleftrightarrow> k = 0"
proof -
  have u: "unat (of_nat k :: u64) = k" using assms by (simp add: unat_of_nat)
  then show z: "(of_nat k :: u64) = 0 \<longleftrightarrow> k = 0" by (metis unat_eq_zero)
  then show "(- of_nat k :: u64) = 0 \<longleftrightarrow> k = 0" by simp
  have "sint (of_nat k :: u64) = int k"
    using assms by (simp add: signed_of_nat signed_take_bit_int_eq_self)
  then show "0 \<le>s (of_nat k :: u64)" by (simp add: word_sle_eq)
  have "(- of_nat k :: u64) = word_of_int (- int k)" by simp
  also have "sint (word_of_int (- int k) :: u64) = - int k"
    using assms by (subst signed_of_int) (simp add: signed_take_bit_int_eq_self)
  finally show "0 \<le>s (- of_nat k :: u64) \<longleftrightarrow> k = 0" by (simp add: word_sle_eq)
qed

lemma is_cancelled_iff:
  assumes p: "events_paired g nodes" and i: "i \<in> set nodes"
  shows "is_cancelled (balance g nodes) (node_of g i) \<longleftrightarrow> cancels g nodes i"
proof -
  let ?n = "node_of g i"
  let ?e = "GetEventId ?n"
  have inside: "event_count (balance g nodes) ?e = 0 \<longleftrightarrow> set (waits_of (node_of g j)) \<subseteq> set nodes"
    "0 \<le>s event_count (balance g nodes) ?e" if j: "j \<in> set nodes" "notifies ?e (node_of g j)" for j
  proof -
    let ?out = "filter (\<lambda>k. k \<notin> set nodes) (waits_of (node_of g j))"
    have "length (waits_of (node_of g j)) < 2 ^ 63" using p j by (auto simp: events_paired_def)
    then have "length ?out < 2 ^ 63" by (rule le_less_trans[OF length_filter_le])
    note w = small_words[OF this] and b = balance_with_notify[OF p j]
    show "event_count (balance g nodes) ?e = 0 \<longleftrightarrow> set (waits_of (node_of g j)) \<subseteq> set nodes"
      unfolding b w(1) by (auto simp: filter_empty_conv)
    show "0 \<le>s event_count (balance g nodes) ?e" unfolding b by (rule w(2))
  qed
  have outside: "event_count (balance g nodes) ?e = 0 \<longleftrightarrow> \<not> (\<exists>k\<in>set nodes. awaits ?e (node_of g k))"
    "0 \<le>s event_count (balance g nodes) ?e \<longleftrightarrow> \<not> (\<exists>k\<in>set nodes. awaits ?e (node_of g k))"
    if "\<forall>j\<in>set nodes. \<not> notifies ?e (node_of g j)"
  proof -
    let ?ws = "filter (\<lambda>j. awaits ?e (node_of g j)) nodes"
    have "length nodes < 2 ^ 63" using p by (simp add: events_paired_def)
    then have "length ?ws < 2 ^ 63" by (rule le_less_trans[OF length_filter_le])
    note w = small_words[OF this] and b = balance_without_notify[OF that]
    show "event_count (balance g nodes) ?e = 0 \<longleftrightarrow> \<not> (\<exists>k\<in>set nodes. awaits ?e (node_of g k))"
      unfolding b w(3) by (auto simp: filter_empty_conv)
    show "0 \<le>s event_count (balance g nodes) ?e \<longleftrightarrow> \<not> (\<exists>k\<in>set nodes. awaits ?e (node_of g k))"
      unfolding b w(4) by (auto simp: filter_empty_conv)
  qed
  have seen: "map_of (balance g nodes) ?e \<noteq> None \<longleftrightarrow> (\<exists>k\<in>set nodes. notifies ?e (node_of g k) \<or> awaits ?e (node_of g k))"
    unfolding balance_def event_seen_fold by simp
  show ?thesis
  proof (cases "nd_nodeType ?n")
    case NODE_NOTIFY
    then have "notifies ?e ?n" by (simp add: notifies_def)
    from inside(1)[OF i this] NODE_NOTIFY show ?thesis by (simp add: is_cancelled_def cancels_def Let_def)
  next
    case NODE_WAIT
    then have "awaits ?e ?n" by (simp add: awaits_def)
    then show ?thesis using inside(2) outside(2) NODE_WAIT i by (auto simp: is_cancelled_def cancels_def Let_def)
  next
    case NODE_RESET
    then show ?thesis
      using inside(1) outside(1) seen by (auto simp: is_cancelled_def cancels_def Let_def)
  qed (simp_all add: is_cancelled_def cancels_def Let_def)
qed

lemma fold_snoc_filter: "fold (\<lambda>i out. if P i then out else out @ [i]) ids acc = acc @ filter (\<lambda>i. \<not> P i) ids"
  by (induction ids arbitrary: acc) auto

text \<open>
  C15 \<^bold>\<open>Cancelled events.\<close> Where every event has at most one notify node in the scope and lists its waits,
  the nodes that stay are, in their order, those that are no scope markers and not cancelled; cancelled
  are exactly the waits whose notify node is in the scope, the notify nodes all of whose waits are in the
  scope (unless they also write a value somebody else may read), and the resets of such events.
\<close>

theorem FilterCancelledNodes_spec:
  assumes "events_paired g nodes"
  shows "FilterCancelledNodes g nodes =
    Inr (filter (\<lambda>i. \<not> cancels g nodes i \<and> \<not> nd_isScopeNode (node_of g i)) nodes)"
proof -
  have k: "set nodes \<subseteq> dom (sg_graphMap g)" using assms by (simp add: events_paired_def)
  have f: "fold (\<lambda>i. count_event (node_of g i)) nodes [] = balance g nodes"
    by (simp add: balance_def fold_map o_def)
  have "filter (\<lambda>i. \<not> (is_cancelled (balance g nodes) (node_of g i) \<or> nd_isScopeNode (node_of g i))) nodes =
      filter (\<lambda>i. \<not> cancels g nodes i \<and> \<not> nd_isScopeNode (node_of g i)) nodes"
    by (rule filter_cong) (simp_all add: is_cancelled_iff[OF assms])
  then show ?thesis
    by (simp add: FilterCancelledNodes_def known_foldR[OF k] f fold_snoc_filter)
qed

text \<open>An event recorded and awaited in the scope, and one recorded outside.\<close>

definition event_pair :: sk_graph where
  "event_pair = sample_graph
    [(sample_node MemoryNode NODE_NOTIFY 0 1 2)\<lparr> nd_syncInfos := default_sync_infos
       \<lparr> sy_eventId := 7, sy_correspondingWaitNodeIds := [2] \<rparr> \<rparr>,
     (sample_node MemoryNode NODE_WAIT 1 2 3)\<lparr> nd_syncInfos := default_sync_infos\<lparr> sy_eventId := 7 \<rparr> \<rparr>,
     sample_node KernelNode NODE_KERNEL 2 3 4,
     (sample_node MemoryNode NODE_WAIT 3 4 5)\<lparr> nd_syncInfos := default_sync_infos\<lparr> sy_eventId := 8 \<rparr> \<rparr>,
     (sample_node MemoryNode NODE_RESET 4 5 0)\<lparr> nd_syncInfos := default_sync_infos\<lparr> sy_eventId := 7 \<rparr> \<rparr>]"

lemma event_pair_nodes:
  "GetNodeById event_pair 1 \<noteq> None \<and> GetNodeById event_pair 2 \<noteq> None \<and> GetNodeById event_pair 3 \<noteq> None \<and>
   GetNodeById event_pair 4 \<noteq> None \<and> GetNodeById event_pair 5 \<noteq> None"
  by code_simp

lemma event_pair_paired: "events_paired event_pair [1, 2, 3, 4, 5]"
proof -
  have "notifies e (node_of event_pair i) \<longleftrightarrow> i = 1 \<and> e = 7" "awaits e (node_of event_pair i) \<longleftrightarrow> i = 2 \<and> e = 7 \<or> i = 4 \<and> e = 8"
    if "i \<in> set [1, 2, 3, 4, 5]" for e i
    using that by (auto simp: notifies_def awaits_def node_of_def event_pair_def sample_node_def new_node_def GetEventId_def)
  moreover have "waits_of (node_of event_pair 1) = [2]" by code_simp
  ultimately show ?thesis using event_pair_nodes
    by (auto simp: events_paired_def GetNodeById_def)
qed

lemma FilterCancelledNodes_spec_witness:
  "FilterCancelledNodes event_pair [1, 2, 3, 4, 5] = Inr [3, 4] \<and>
   FilterCancelledNodes event_pair [1, 2, 3, 4, 5] = Inr (filter (\<lambda>i. \<not> cancels event_pair [1, 2, 3, 4, 5] i \<and>
     \<not> nd_isScopeNode (node_of event_pair i)) [1, 2, 3, 4, 5])"
  using FilterCancelledNodes_spec[OF event_pair_paired] by (intro conjI) code_simp

end
