(* ===== verification/Sk_Reorder.thy ===== *)
theory Sk_Reorder
  imports Sk_Splitter
begin

text \<open>
  The order in which the tasks of a scope are handed to the task builder (\<^verbatim>\<open>sk_optimizer.cpp\<close>): with the
  customised queue, a wait is put off until right before the next kernel of its stream. A task is the id of
  its node together with the node behind the pointer.
\<close>

section \<open>The code\<close>

type_synonym task = "node_id \<times> sk_node"

definition ShouldReorderWaitNodesForTaskBuild :: "split_options \<Rightarrow> bool" where
  "ShouldReorderWaitNodesForTaskBuild opts \<longleftrightarrow>
     (case op_autoOpParallel opts of None \<Rightarrow> False | Some v \<Rightarrow> heap_type_of (Some v) = CUSTOMIZE_QUEUE)"

abbreviation is_wait :: "task \<Rightarrow> bool" where
  "is_wait t \<equiv> nd_nodeType (snd t) = NODE_WAIT"

abbreviation is_kernel :: "task \<Rightarrow> bool" where
  "is_kernel t \<equiv> nd_nodeType (snd t) = NODE_KERNEL"

abbreviation task_stream :: "task \<Rightarrow> u32" where
  "task_stream t \<equiv> nd_streamIdxInGraph (snd t)"

text \<open>
  The loop from the back: the index of the next kernel of each stream, and for every wait the index it
  is put off to; \<open>None\<close> is the index behind the last task.
\<close>

fun wait_targets :: "nat \<Rightarrow> task list \<Rightarrow> (u32 \<rightharpoonup> nat) \<times> nat option list" where
  "wait_targets k [] = (Map.empty, [])"
| "wait_targets k (t # ts) = (let (nextKernel, targets) = wait_targets (Suc k) ts in
     if is_kernel t then (nextKernel(task_stream t \<mapsto> k), None # targets)
     else if is_wait t then (nextKernel, nextKernel (task_stream t) # targets)
     else (nextKernel, None # targets))"

text \<open>The waits that are put off, with their targets, and the tasks that are placed.\<close>

type_synonym reorder_state = "(task \<times> nat) list \<times> task list"

definition flushPendingWaitNodes :: "nat \<Rightarrow> reorder_state \<Rightarrow> reorder_state" where
  "flushPendingWaitNodes idx s = (let (pend, out) = s in
     (filter (\<lambda>p. idx < snd p) pend, out @ map fst (filter (\<lambda>p. \<not> idx < snd p) pend)))"

definition append_task :: "task \<Rightarrow> reorder_state \<Rightarrow> reorder_state" where
  "append_task t s = (fst s, snd s @ [t])"

fun place :: "nat \<Rightarrow> (task \<times> nat option) list \<Rightarrow> reorder_state \<Rightarrow> reorder_state" where
  "place idx [] s = s"
| "place idx ((t, target) # ts) s = place (Suc idx) ts
     (if is_wait t then (case target of
        None \<Rightarrow> append_task t (flushPendingWaitNodes idx s)
      | Some k \<Rightarrow> (fst s @ [(t, k)], snd s))
      else append_task t (flushPendingWaitNodes idx s))"

definition reorder_tasks :: "task list \<Rightarrow> task list" where
  "reorder_tasks ts =
     snd (flushPendingWaitNodes (length ts) (place 0 (zip ts (snd (wait_targets 0 ts))) ([], [])))"

fun tasks_of :: "sk_graph \<Rightarrow> node_id list \<Rightarrow> task list run" where
  "tasks_of g [] = Inr []"
| "tasks_of g (i # is) = bindR (derefR (GetNodeById g i)) (\<lambda>n.
     bindR (tasks_of g is) (\<lambda>ts. Inr ((i, n) # ts)))"

definition ReorderWaitNodesForTaskBuild :: "split_options \<Rightarrow> sk_graph \<Rightarrow> node_id list \<Rightarrow> node_id list run" where
  "ReorderWaitNodesForTaskBuild opts g is =
    (if \<not> ShouldReorderWaitNodesForTaskBuild opts then Inr is
     else bindR (tasks_of g is) (\<lambda>ts. Inr (map fst (reorder_tasks ts))))"

section \<open>The targets\<close>

text \<open>The index of the first kernel of a stream, counted from an index.\<close>

fun first_kernel :: "nat \<Rightarrow> u32 \<Rightarrow> task list \<Rightarrow> nat option" where
  "first_kernel k s [] = None"
| "first_kernel k s (t # ts) = (if is_kernel t \<and> task_stream t = s then Some k else first_kernel (Suc k) s ts)"

definition target_of :: "nat \<Rightarrow> task \<Rightarrow> task list \<Rightarrow> nat option" where
  "target_of k t ts = (if is_wait t then first_kernel (Suc k) (task_stream t) ts else None)"

fun targets_of :: "nat \<Rightarrow> task list \<Rightarrow> nat option list" where
  "targets_of k [] = []"
| "targets_of k (t # ts) = target_of k t ts # targets_of (Suc k) ts"

lemma wait_targets_eq: "wait_targets k ts = ((\<lambda>s. first_kernel k s ts), targets_of k ts)"
  by (induction k ts rule: wait_targets.induct) (auto simp: target_of_def)

lemma first_kernel_range: "first_kernel k s ts = Some j \<Longrightarrow> k \<le> j \<and> j < k + length ts"
proof (induction k s ts rule: first_kernel.induct)
  case (2 k s t ts)
  then show ?case by (cases "is_kernel t \<and> task_stream t = s") auto
qed simp

lemma length_targets [simp]: "length (targets_of k ts) = length ts"
  by (induction ts arbitrary: k) auto

text \<open>A wait that is put off is put off to the first kernel of its stream among the tasks to come.\<close>

definition pending_ok :: "nat \<Rightarrow> task list \<Rightarrow> (task \<times> nat) list \<Rightarrow> bool" where
  "pending_ok k ts pend \<longleftrightarrow> (\<forall>(t, j)\<in>set pend. is_wait t \<and> first_kernel k (task_stream t) ts = Some j)"

lemma first_kernel_here: "first_kernel k s (t # ts) = Some k \<longleftrightarrow> is_kernel t \<and> task_stream t = s"
  using first_kernel_range[of "Suc k" s ts k] by auto

definition ready :: "nat \<Rightarrow> (task \<times> nat) list \<Rightarrow> task list" where
  "ready k pend = map fst (filter (\<lambda>p. \<not> k < snd p) pend)"

definition waiting :: "nat \<Rightarrow> (task \<times> nat) list \<Rightarrow> (task \<times> nat) list" where
  "waiting k pend = filter (\<lambda>p. k < snd p) pend"

lemma flush_eq: "flushPendingWaitNodes k (pend, out) = (waiting k pend, out @ ready k pend)"
  by (simp add: flushPendingWaitNodes_def ready_def waiting_def)

lemma pending_ok_Cons:
  assumes "pending_ok k (t # ts) pend"
  shows "pending_ok (Suc k) ts (waiting k pend)"
    and "ready k pend = (if is_kernel t then map fst (filter (\<lambda>p. task_stream (fst p) = task_stream t) pend) else [])"
    and "\<not> is_kernel t \<Longrightarrow> waiting k pend = pend"
proof -
  have now: "(\<not> k < snd p) = (is_kernel t \<and> task_stream (fst p) = task_stream t)" if "p \<in> set pend" for p
    using assms that first_kernel_range[of "Suc k" "task_stream (fst p)" ts "snd p"]
    by (auto simp: pending_ok_def split: if_splits dest!: bspec)
  show "pending_ok (Suc k) ts (waiting k pend)"
    using assms by (force simp: pending_ok_def waiting_def split: if_splits)
  show "ready k pend = (if is_kernel t then map fst (filter (\<lambda>p. task_stream (fst p) = task_stream t) pend) else [])"
    using filter_cong[OF refl now, of pend] by (simp add: ready_def)
  show "waiting k pend = pend" if "\<not> is_kernel t"
    using now that unfolding waiting_def filter_id_conv by blast
qed

section \<open>The whole run\<close>

definition reorder_from :: "nat \<Rightarrow> task list \<Rightarrow> (task \<times> nat) list \<Rightarrow> task list \<Rightarrow> task list" where
  "reorder_from k ts pend out = snd (flushPendingWaitNodes (k + length ts) (place k (zip ts (targets_of k ts)) (pend, out)))"

lemma reorder_from_Nil [simp]: "reorder_from k [] pend out = out @ ready k pend"
  by (simp add: reorder_from_def flush_eq)

lemma reorder_from_Cons:
  "reorder_from k (t # ts) pend out = (case target_of k t ts of
     Some j \<Rightarrow> reorder_from (Suc k) ts (pend @ [(t, j)]) out
   | None \<Rightarrow> reorder_from (Suc k) ts (waiting k pend) (out @ ready k pend @ [t]))"
  by (auto simp: reorder_from_def target_of_def flush_eq append_task_def split: option.split)

lemma reorder_tasks_eq: "reorder_tasks ts = reorder_from 0 ts [] []"
  by (simp add: reorder_tasks_def reorder_from_def wait_targets_eq)

lemma target_wait: "target_of k t ts = Some j \<Longrightarrow> is_wait t \<and> first_kernel (Suc k) (task_stream t) ts = Some j"
  by (simp add: target_of_def split: if_splits)

lemma pending_ok_put_off:
  assumes "pending_ok k (t # ts) pend" and "target_of k t ts = Some j"
  shows "pending_ok (Suc k) ts (pend @ [(t, j)])"
proof -
  from target_wait[OF assms(2)] have "\<not> is_kernel t" and t: "is_wait t \<and> first_kernel (Suc k) (task_stream t) ts = Some j" by auto
  then have "pending_ok (Suc k) ts pend" using pending_ok_Cons[OF assms(1)] by simp
  then show ?thesis using t by (auto simp: pending_ok_def)
qed

lemma pending_ok_Nil: "pending_ok k [] pend \<longleftrightarrow> pend = []"
  by (cases pend) (auto simp: pending_ok_def)

lemma ready_waiting: "mset (map fst pend) = mset (ready k pend) + mset (map fst (waiting k pend))"
  by (induction pend) (auto simp: ready_def waiting_def)

lemma reorder_from_mset:
  "pending_ok k ts pend \<Longrightarrow> \<exists>zs. reorder_from k ts pend out = out @ zs \<and> mset zs = mset (map fst pend) + mset ts"
proof (induction ts arbitrary: k pend out)
  case Nil
  then show ?case by (simp add: pending_ok_Nil ready_def)
next
  case (Cons t ts)
  show ?case
  proof (cases "target_of k t ts")
    case None
    from Cons.IH[OF pending_ok_Cons(1)[OF Cons.prems], of "out @ ready k pend @ [t]"]
    obtain zs where "reorder_from k (t # ts) pend out = (out @ ready k pend @ [t]) @ zs"
      "mset zs = mset (map fst (waiting k pend)) + mset ts" using None by (auto simp: reorder_from_Cons)
    then show ?thesis using ready_waiting[of pend k] by (intro exI[of _ "ready k pend @ [t] @ zs"]) simp
  next
    case (Some j)
    from Cons.IH[OF pending_ok_put_off[OF Cons.prems Some], of out] Some show ?thesis by (simp add: reorder_from_Cons)
  qed
qed

lemma filter_fst: "filter P (map fst ps) = map fst (filter (P \<circ> fst) ps)"
  by (simp add: filter_map)

lemma reorder_from_others:
  "pending_ok k ts pend \<Longrightarrow> filter (\<lambda>t. \<not> is_wait t) (reorder_from k ts pend out) =
     filter (\<lambda>t. \<not> is_wait t) out @ filter (\<lambda>t. \<not> is_wait t) ts"
proof (induction ts arbitrary: k pend out)
  case Nil
  then show ?case by (simp add: pending_ok_Nil ready_def)
next
  case (Cons t ts)
  have "filter (\<lambda>t. \<not> is_wait t) (ready k pend) = []"
    using Cons.prems by (auto simp: ready_def filter_empty_conv pending_ok_def)
  then show ?case
    using Cons.IH[OF pending_ok_Cons(1)[OF Cons.prems]] Cons.IH[OF pending_ok_put_off[OF Cons.prems]]
    by (auto simp: reorder_from_Cons target_wait split: option.split)
qed

text \<open>The kernels and the waits of a stream.\<close>

definition on_queue :: "u32 \<Rightarrow> task \<Rightarrow> bool" where
  "on_queue s t \<longleftrightarrow> task_stream t = s \<and> (is_kernel t \<or> is_wait t)"

lemma ready_queue:
  assumes ok: "pending_ok k (t # ts) pend" and none: "target_of k t ts = None"
  shows "filter (on_queue s) (ready k pend @ [t]) @ filter (on_queue s) (map fst (waiting k pend)) =
    filter (on_queue s) (map fst pend) @ filter (on_queue s) [t]"
proof -
  have w: "\<forall>p\<in>set pend. is_wait (fst p)" using ok by (auto simp: pending_ok_def)
  show ?thesis
  proof (cases "is_kernel t")
    case True
    note r = pending_ok_Cons(2)[OF ok, unfolded if_P[OF True]]
    have wt: "waiting k pend = filter (\<lambda>p. task_stream (fst p) \<noteq> task_stream t) pend"
    proof -
      have "(k < snd p) = (task_stream (fst p) \<noteq> task_stream t)" if "p \<in> set pend" for p
        using ok that True first_kernel_range[of "Suc k" "task_stream (fst p)" ts "snd p"]
        by (auto simp: pending_ok_def split: if_splits dest!: bspec)
      from filter_cong[OF refl this, of pend] show ?thesis by (simp add: waiting_def)
    qed
    show ?thesis
    proof (cases "task_stream t = s")
      case same: True
      have "filter (on_queue s) (map fst (waiting k pend)) = []"
        using same by (auto simp: wt filter_empty_conv on_queue_def)
      moreover have "filter (on_queue s) (ready k pend) = filter (on_queue s) (map fst pend)"
        using same by (auto simp: r filter_fst on_queue_def intro!: arg_cong[where f = "map fst"] filter_cong)
      ultimately show ?thesis by simp
    next
      case False
      have "filter (on_queue s) (ready k pend) = []" "filter (on_queue s) [t] = []"
        using False by (auto simp: r filter_empty_conv on_queue_def)
      moreover have "filter (on_queue s) (map fst (waiting k pend)) = filter (on_queue s) (map fst pend)"
        using False by (auto simp: wt filter_fst on_queue_def intro!: arg_cong[where f = "map fst"] filter_cong)
      ultimately show ?thesis by simp
    qed
  next
    case False
    then have e: "ready k pend = []" "waiting k pend = pend" using pending_ok_Cons[OF ok] by auto
    show ?thesis
    proof (cases "on_queue s t")
      case True
      then have "is_wait t" "first_kernel (Suc k) s ts = None" using False none by (auto simp: on_queue_def target_of_def)
      then have "filter (on_queue s) (map fst pend) = []"
        using ok False by (auto simp: filter_empty_conv on_queue_def pending_ok_def)
      then show ?thesis using e by simp
    qed (simp add: e)
  qed
qed

lemma reorder_from_queue:
  "pending_ok k ts pend \<Longrightarrow> filter (on_queue s) (reorder_from k ts pend out) =
     filter (on_queue s) out @ filter (on_queue s) (map fst pend) @ filter (on_queue s) ts"
proof (induction ts arbitrary: k pend out)
  case Nil
  then show ?case by (simp add: pending_ok_Nil ready_def)
next
  case (Cons t ts)
  show ?case
  proof (cases "target_of k t ts")
    case None
    from Cons.IH[OF pending_ok_Cons(1)[OF Cons.prems], of "out @ ready k pend @ [t]"]
    show ?thesis using None ready_queue[OF Cons.prems None, of s] by (cases "on_queue s t") (simp_all add: reorder_from_Cons)
  next
    case (Some j)
    from Cons.IH[OF pending_ok_put_off[OF Cons.prems Some], of out] Some show ?thesis by (simp add: reorder_from_Cons)
  qed
qed

lemma reorder_from_later:
  "pending_ok k (as @ t # ts) pend \<Longrightarrow> \<not> is_wait t \<Longrightarrow>
   \<exists>ys zs. reorder_from k (as @ t # ts) pend out = ys @ t # zs \<and> set ts \<subseteq> set zs"
proof (induction "as" arbitrary: k pend out)
  case Nil
  then have none: "target_of k t ts = None" by (simp add: target_of_def)
  from reorder_from_mset[OF pending_ok_Cons(1)[OF Nil.prems(1)[simplified]], of "out @ ready k pend @ [t]"]
  obtain zs where zs: "reorder_from k (t # ts) pend out = (out @ ready k pend @ [t]) @ zs"
    "mset zs = mset (map fst (waiting k pend)) + mset ts" using none by (auto simp: reorder_from_Cons)
  then have "set ts \<subseteq> set zs" by (metis mset_subset_eq_add_right set_mset_mono set_mset_mset)
  with zs(1) show ?case by (intro exI[of _ "out @ ready k pend"] exI[of _ zs]) simp
next
  case (Cons a "as")
  have ok: "pending_ok k (a # as @ t # ts) pend" using Cons.prems(1) by simp
  show ?case
  proof (cases "target_of k a (as @ t # ts)")
    case None
    then show ?thesis
      using Cons.IH[OF pending_ok_Cons(1)[OF ok] Cons.prems(2)] by (simp add: reorder_from_Cons)
  next
    case (Some j)
    then show ?thesis
      using Cons.IH[OF pending_ok_put_off[OF ok Some] Cons.prems(2)] by (simp add: reorder_from_Cons)
  qed
qed

section \<open>Ids\<close>

lemma tasks_of_ok: "tasks_of g is = Inr ts \<Longrightarrow> map fst ts = is \<and> (\<forall>t\<in>set ts. GetNodeById g (fst t) = Some (snd t))"
proof (induction "is" arbitrary: ts)
  case (Cons i "is")
  then obtain n us where "GetNodeById g i = Some n" "tasks_of g is = Inr us" "ts = (i, n) # us" by auto
  with Cons.IH show ?case by simp
qed simp

lemma tasks_of_total: "\<forall>i\<in>set is. GetNodeById g i \<noteq> None \<Longrightarrow> \<exists>ts. tasks_of g is = Inr ts"
  by (induction "is") auto

text \<open>One id stands before another one.\<close>

definition before :: "'a \<Rightarrow> 'a \<Rightarrow> 'a list \<Rightarrow> bool" where
  "before x y l \<longleftrightarrow> (\<exists>a b c. l = a @ x # b @ y # c)"

definition wait_id :: "sk_graph \<Rightarrow> node_id \<Rightarrow> bool" where
  "wait_id g i \<longleftrightarrow> map_option nd_nodeType (GetNodeById g i) = Some NODE_WAIT"

definition queue_id :: "sk_graph \<Rightarrow> u32 \<Rightarrow> node_id \<Rightarrow> bool" where
  "queue_id g s i \<longleftrightarrow> map_option nd_streamIdxInGraph (GetNodeById g i) = Some s \<and>
     map_option nd_nodeType (GetNodeById g i) \<in> {Some NODE_KERNEL, Some NODE_WAIT}"

lemma filter_ids:
  assumes "\<And>t. t \<in> set ts \<Longrightarrow> P (fst t) \<longleftrightarrow> Q t"
  shows "filter P (map fst ts) = map fst (filter Q ts)"
  using filter_cong[OF refl assms, of ts] by (simp add: filter_map comp_def)

lemma wait_id_task: "GetNodeById g (fst t) = Some (snd t) \<Longrightarrow> wait_id g (fst t) \<longleftrightarrow> is_wait t"
  by (simp add: wait_id_def)

lemma queue_id_task: "GetNodeById g (fst t) = Some (snd t) \<Longrightarrow> queue_id g s (fst t) \<longleftrightarrow> on_queue s t"
  by (auto simp: queue_id_def on_queue_def)

text \<open>
  C24 \<^bold>\<open>Putting waits off keeps what the queues rely on.\<close> Handing the tasks of a scope to the builder neither
  loses nor doubles a task; everything but the waits keeps its order; on each stream the waits and the
  kernels keep theirs, so a kernel stays behind every wait it was behind; and a wait stays behind
  every notify that was before it.
\<close>

theorem ReorderWaitNodesForTaskBuild_spec:
  assumes "\<forall>i\<in>set is. GetNodeById g i \<noteq> None"
  shows "\<exists>js. ReorderWaitNodesForTaskBuild opts g is = Inr js \<and> mset js = mset is \<and>
    filter (\<lambda>i. \<not> wait_id g i) js = filter (\<lambda>i. \<not> wait_id g i) is \<and>
    (\<forall>s. filter (queue_id g s) js = filter (queue_id g s) is) \<and>
    (\<forall>x w. \<not> wait_id g x \<longrightarrow> before x w is \<longrightarrow> before x w js)"
proof (cases "ShouldReorderWaitNodesForTaskBuild opts")
  case True
  obtain ts where ts: "tasks_of g is = Inr ts" using tasks_of_total[OF assms] by blast
  let ?rs = "reorder_tasks ts"
  have ids: "map fst ts = is" and nodes: "\<forall>t\<in>set ts. GetNodeById g (fst t) = Some (snd t)"
    using tasks_of_ok[OF ts] by auto
  have ok: "pending_ok 0 ts []" by (simp add: pending_ok_def)
  have ms: "mset ?rs = mset ts" using reorder_from_mset[OF ok, of "[]"] by (auto simp: reorder_tasks_eq)
  then have st: "set ?rs = set ts" by (metis set_mset_mset)
  have w: "filter (\<lambda>i. \<not> wait_id g i) (map fst us) = map fst (filter (\<lambda>t. \<not> is_wait t) us)"
    and q: "filter (queue_id g s) (map fst us) = map fst (filter (on_queue s) us)" if "set us = set ts" for us s
    by (rule filter_ids; use nodes that in \<open>simp add: wait_id_task queue_id_task\<close>)+
  have "before x w (map fst ?rs)" if x: "\<not> wait_id g x" and b: "before x w is" for x w
  proof -
    from b obtain as t bs u cs where "ts = as @ t # bs @ u # cs" "fst t = x" "fst u = w"
      by (auto simp: before_def ids[symmetric] map_eq_append_conv map_eq_Cons_conv Cons_eq_map_conv append_eq_map_conv)
    moreover from this have "\<not> is_wait t" using x nodes wait_id_task by (metis in_set_conv_decomp)
    ultimately obtain ys zs where "?rs = ys @ t # zs" "u \<in> set zs"
      using reorder_from_later[of 0 "as" t "bs @ u # cs" "[]" "[]"] ok by (auto simp: reorder_tasks_eq)
    then show ?thesis using \<open>fst t = x\<close> \<open>fst u = w\<close> by (auto simp: before_def in_set_conv_decomp) blast
  qed
  moreover have "filter (\<lambda>i. \<not> wait_id g i) (map fst ?rs) = filter (\<lambda>i. \<not> wait_id g i) is"
    using reorder_from_others[OF ok, of "[]"] w[OF st] w[OF refl] by (simp add: ids reorder_tasks_eq)
  moreover have "filter (queue_id g s) (map fst ?rs) = filter (queue_id g s) is" for s
    using reorder_from_queue[OF ok, of s "[]"] q[OF st, of s] q[OF refl, of s] by (simp add: ids reorder_tasks_eq)
  moreover have "mset (map fst ?rs) = mset is" using ms ids by (metis mset_map)
  ultimately show ?thesis using True ts by (simp add: ReorderWaitNodesForTaskBuild_def)
qed (simp add: ReorderWaitNodesForTaskBuild_def)

text \<open>
  A wait and a notify behind it on one stream change places: the notify no longer waits. A second
  stream shows a wait that has no kernel behind it.
\<close>

definition reorder_graph :: sk_graph where
  "reorder_graph = sample_graph
    [sample_node MemoryNode NODE_WAIT INVALID_TASK_ID 1 2, sample_node MemoryNode NODE_NOTIFY 1 2 3,
     sample_node KernelNode NODE_KERNEL 2 3 INVALID_TASK_ID,
     (sample_node MemoryNode NODE_WAIT INVALID_TASK_ID 11 INVALID_TASK_ID)\<lparr> nd_streamIdxInGraph := 1 \<rparr>]"

definition queue_options :: split_options where
  "queue_options = \<lparr> op_autoOpParallel = Some 1, op_perOpMaxCore = False, op_taskBreakerBypass = False \<rparr>"

lemma reorder_graph_run: "ReorderWaitNodesForTaskBuild queue_options reorder_graph [1, 2, 11, 3] = Inr [2, 11, 1, 3]"
  by code_simp

lemma ReorderWaitNodesForTaskBuild_spec_witness:
  "\<exists>js. ReorderWaitNodesForTaskBuild queue_options reorder_graph [1, 2, 11, 3] = Inr js \<and> mset js = {#1, 2, 11, 3#} \<and>
     filter (queue_id reorder_graph 0) js = filter (queue_id reorder_graph 0) [1, 2, 11, 3] \<and> before 2 11 js"
proof -
  have "\<forall>i\<in>set [1, 2, 11, 3]. GetNodeById reorder_graph i \<noteq> None" by code_simp
  moreover have "\<not> wait_id reorder_graph 2" by code_simp
  moreover have "before 2 11 [1, 2, 11, 3 :: node_id]"
    unfolding before_def by (intro exI[of _ "[1]"] exI[of _ "[]"] exI[of _ "[3]"]) simp
  ultimately show ?thesis
    using ReorderWaitNodesForTaskBuild_spec[of "[1, 2, 11, 3]" reorder_graph queue_options] by fastforce
qed

end
