(* ===== verification/Sk_Sync.thy ===== *)
theory Sk_Sync
  imports Sk_Reorder
begin

text \<open>
  The first half of the task builder (\<^verbatim>\<open>sk_task_builder.cpp\<close>): on which of the two queues a task runs, the
  synchronisation between tasks on different queues, and the removal of what is redundant. The members
  of the builder that change are passed as arguments. A \<open>std::map\<close> from indices is a list of pairs in the
  order of the keys. The list of tasks is that of \<open>Sk_Reorder\<close>.
\<close>

section \<open>Queue types and directions\<close>

datatype sk_queue_type = AIC | AIV | MIX_1_1 | MIX_1_2 | QT_UNKNOWN

datatype sync_direction = DIR_NONE | CUB_TO_CUB | VEC_TO_VEC | CUB_TO_VEC | VEC_TO_CUB | MIX_TO_MIX | DIR_ALL_SYNC

definition ToQueueType :: "sk_kernel_type \<Rightarrow> sk_queue_type" where
  "ToQueueType t = (case t of AIC_ONLY \<Rightarrow> AIC | MIX_AIC_1_0 \<Rightarrow> AIC | AIV_ONLY \<Rightarrow> AIV | MIX_AIV_1_0 \<Rightarrow> AIV
     | MIX_AIC_1_1 \<Rightarrow> MIX_1_1 | MIX_AIC_1_2 \<Rightarrow> MIX_1_2 | _ \<Rightarrow> AIC)"

definition UsesAic :: "sk_queue_type \<Rightarrow> bool" where
  "UsesAic q \<longleftrightarrow> q = AIC \<or> q = MIX_1_1 \<or> q = MIX_1_2"

definition UsesAiv :: "sk_queue_type \<Rightarrow> bool" where
  "UsesAiv q \<longleftrightarrow> q = AIV \<or> q = MIX_1_1 \<or> q = MIX_1_2"

text \<open>One of the two; \<open>True\<close> is the cube queue throughout.\<close>

definition uses_queue :: "bool \<Rightarrow> sk_queue_type \<Rightarrow> bool" where
  "uses_queue c q = (if c then UsesAic q else UsesAiv q)"

definition queue_of :: "sk_node \<Rightarrow> sk_queue_type" where
  "queue_of n = ToQueueType (ki_kernelType (nd_kernelInfos n))"

definition ToEventQueueType :: "sk_queue_type \<Rightarrow> bool \<Rightarrow> bool \<Rightarrow> sk_queue_type" where
  "ToEventQueueType q aicAvailable aivAvailable = (let e = if q = AIC then AIC else AIV in
     if e = AIC \<and> \<not> aicAvailable then AIV else if e = AIV \<and> \<not> aivAvailable then AIC else e)"

definition InferFirstKernelEventQueueType :: "task list \<Rightarrow> bool \<Rightarrow> bool \<Rightarrow> sk_queue_type" where
  "InferFirstKernelEventQueueType tasks aicAvailable aivAvailable =
    (case List.find is_kernel tasks of None \<Rightarrow> QT_UNKNOWN
     | Some t \<Rightarrow> ToEventQueueType (queue_of (snd t)) aicAvailable aivAvailable)"

definition ResolveMixWaitEventQueueType :: "sk_node option \<Rightarrow> sk_node \<Rightarrow> sk_queue_type" where
  "ResolveMixWaitEventQueueType prevKernel mixKernel = (case prevKernel of None \<Rightarrow> AIV
   | Some p \<Rightarrow> (let q = queue_of p in
       if q \<noteq> AIC \<and> q \<noteq> AIV then AIV
       else let sameStream = nd_streamIdxInGraph p = nd_streamIdxInGraph mixKernel;
          hasDirectDep = nd_nodeId mixKernel \<in> nd_sendToNodeId p \<or> nd_nodeId p \<in> nd_receiveNodeId mixKernel
         in if sameStream \<or> hasDirectDep then q else if q = AIV then AIC else AIV))"

definition GenSyncDirection :: "sk_queue_type \<Rightarrow> sk_queue_type \<Rightarrow> sync_direction" where
  "GenSyncDirection preType currType =
    (if preType = MIX_1_1 \<or> preType = MIX_1_2 then
       if currType = MIX_1_1 \<or> currType = MIX_1_2 then MIX_TO_MIX
       else if currType = AIC then VEC_TO_CUB else CUB_TO_VEC
     else if preType = AIC then
       if currType = MIX_1_1 \<or> currType = MIX_1_2 then CUB_TO_VEC
       else if currType = AIC then CUB_TO_CUB else CUB_TO_VEC
     else if preType = AIV then
       if currType = MIX_1_1 \<or> currType = MIX_1_2 then VEC_TO_CUB
       else if currType = AIV then VEC_TO_VEC else VEC_TO_CUB
     else VEC_TO_CUB)"

definition CheckResourceStatus :: "task list \<Rightarrow> bool \<times> bool" where
  "CheckResourceStatus tasks = (let ks = filter is_kernel tasks in
     (\<exists>t\<in>set ks. UsesAic (queue_of (snd t)), \<exists>t\<in>set ks. UsesAiv (queue_of (snd t))))"

section \<open>The nearest kernel\<close>

datatype search_direction = SEARCH_PREV | SEARCH_NEXT

text \<open>From node ids to the ids of kernels; no null pointer is ever stored.\<close>

type_synonym kernel_cache = "node_id \<rightharpoonup> node_id"

definition ResolveCurrentKernel :: "node_id \<Rightarrow> sk_node \<Rightarrow> kernel_cache \<Rightarrow> node_id option" where
  "ResolveCurrentKernel i n cache = (case cache i of Some k \<Rightarrow> Some k
     | None \<Rightarrow> if nd_nodeType n = NODE_KERNEL then Some i else None)"

fun CacheTraversedNodes :: "sk_graph \<Rightarrow> node_id list \<Rightarrow> sk_node_type \<Rightarrow> node_id \<Rightarrow> kernel_cache \<Rightarrow> bool \<times> kernel_cache" where
  "CacheTraversedNodes g [] ty k cache = (True, cache)"
| "CacheTraversedNodes g (i # path) ty k cache = (case GetNodeById g i of None \<Rightarrow> (False, cache)
     | Some n \<Rightarrow> CacheTraversedNodes g path ty k
         (if nd_nodeType n = NODE_KERNEL \<or> nd_nodeType n = ty then cache(i \<mapsto> k) else cache))"

primrec search_kernel :: "nat \<Rightarrow> sk_graph \<Rightarrow> search_direction \<Rightarrow> sk_node_type \<Rightarrow> kernel_cache \<Rightarrow> node_id list \<Rightarrow> node_id \<Rightarrow>
    node_id option \<times> kernel_cache" where
  "search_kernel 0 g dir ty cache path i = (None, cache)"
| "search_kernel (Suc hops) g dir ty cache path i = (let path1 = path @ [i] in
     case GetNodeById g i of None \<Rightarrow> (None, cache)
     | Some n \<Rightarrow> (case ResolveCurrentKernel i n cache of
         Some k \<Rightarrow> (let (ok, cache1) = CacheTraversedNodes g path1 ty k cache in (if ok then Some k else None, cache1))
       | None \<Rightarrow> (let j = if dir = SEARCH_PREV then nd_preNodeId n else nd_nextNodeId n in
           if j = INVALID_TASK_ID \<or> j \<in> set path1 then (None, cache)
           else search_kernel hops g dir ty cache path1 j)))"

definition FindKernelNodeInDirection :: "node_id \<Rightarrow> sk_graph \<Rightarrow> search_direction \<Rightarrow> kernel_cache \<Rightarrow> node_id option \<times> kernel_cache" where
  "FindKernelNodeInDirection start g dir cache =
    (if start = INVALID_TASK_ID then (None, cache)
     else case GetNodeById g start of None \<Rightarrow> (None, cache)
     | Some n \<Rightarrow> search_kernel 100 g dir (nd_nodeType n) cache [] start)"

section \<open>The synchronisation of a task\<close>

type_synonym sync_map = "(nat \<times> sync_direction) list"

fun put_sync :: "nat \<Rightarrow> sync_direction \<Rightarrow> sync_map \<Rightarrow> sync_map" where
  "put_sync k d [] = [(k, d)]"
| "put_sync k d ((j, e) # m) = (if k < j then (k, d) # (j, e) # m
     else if k = j then (k, d) # m else (j, e) # put_sync k d m)"

definition erase_sync :: "nat \<Rightarrow> sync_map \<Rightarrow> sync_map" where
  "erase_sync k m = filter (\<lambda>p. fst p \<noteq> k) m"

record early_start_info =
  es_funcConfig :: u32
  es_relatedSetNode :: "sk_node option"
  es_relatedWaitNode :: "sk_node option"
  es_nextAicRelatedNode :: "sk_node option"
  es_nextAivRelatedNode :: "sk_node option"
  es_syncConfig :: u32

definition no_early_start :: early_start_info where
  "no_early_start = \<lparr> es_funcConfig = 0, es_relatedSetNode = None, es_relatedWaitNode = None,
     es_nextAicRelatedNode = None, es_nextAivRelatedNode = None, es_syncConfig = 0 \<rparr>"

record task_sync_info =
  ts_queueType :: sk_queue_type
  ts_cubSendInfo :: sync_map
  ts_cubRecvInfo :: sync_map
  ts_vecSendInfo :: sync_map
  ts_vecRecvInfo :: sync_map
  ts_crossSyncInfo :: sync_map
  ts_earlyStartInfo :: early_start_info

definition new_sync_info :: task_sync_info where
  "new_sync_info = \<lparr> ts_queueType = QT_UNKNOWN, ts_cubSendInfo = [], ts_cubRecvInfo = [], ts_vecSendInfo = [],
     ts_vecRecvInfo = [], ts_crossSyncInfo = [], ts_earlyStartInfo = no_early_start \<rparr>"

text \<open>\<open>static_cast<size_t>\<close> of the two queue types that are keys of the cross sync.\<close>

definition AIC_KEY :: nat where "AIC_KEY = 0"

definition AIV_KEY :: nat where "AIV_KEY = 1"

section \<open>Queue types of the tasks\<close>

text \<open>The queue of an event node next to a kernel, or the fallback.\<close>

definition event_queue :: "bool \<times> bool \<Rightarrow> sk_queue_type \<Rightarrow> (sk_node \<Rightarrow> sk_queue_type) \<Rightarrow> sk_graph \<Rightarrow> node_id option \<Rightarrow>
    sk_queue_type option run" where
  "event_queue avail fallback f g k = (case k of
     None \<Rightarrow> Inr (if fallback = QT_UNKNOWN then None else Some fallback)
   | Some i \<Rightarrow> bindR (derefR (GetNodeById g i)) (\<lambda>n. Inr (Some (ToEventQueueType (f n) (fst avail) (snd avail)))))"

definition cache_kernel :: "node_id \<Rightarrow> node_id option \<Rightarrow> kernel_cache \<Rightarrow> kernel_cache" where
  "cache_kernel i k cache = (case k of None \<Rightarrow> cache | Some kn \<Rightarrow> cache(i \<mapsto> kn))"

text \<open>The queue of one task; \<open>None\<close> is an error. The id of a task is that of its node.\<close>

definition task_queue :: "sk_graph \<Rightarrow> bool \<times> bool \<Rightarrow> sk_queue_type \<Rightarrow> sk_node option \<Rightarrow> kernel_cache \<Rightarrow> task \<Rightarrow>
    (sk_queue_type option \<times> kernel_cache) run" where
  "task_queue g avail fallback prev cache t = (let n = snd t in
    (case nd_nodeType n of
      NODE_KERNEL \<Rightarrow> Inr (Some (queue_of n), cache)
    | NODE_WAIT \<Rightarrow> (let (k, cache1) = FindKernelNodeInDirection (nd_nextNodeId n) g SEARCH_NEXT cache in
        bindR (event_queue avail fallback
          (\<lambda>kn. if queue_of kn \<noteq> AIC \<and> queue_of kn \<noteq> AIV then ResolveMixWaitEventQueueType prev kn else queue_of kn) g k)
        (\<lambda>q. Inr (q, cache_kernel (nd_nodeId n) k cache1)))
    | ty \<Rightarrow> if ty = NODE_NOTIFY \<or> ty = NODE_RESET
        then (let (k, cache1) = FindKernelNodeInDirection (nd_preNodeId n) g SEARCH_PREV cache in
          bindR (event_queue avail fallback queue_of g k) (\<lambda>q. Inr (q, cache_kernel (nd_nodeId n) k cache1)))
        else Inr (None, cache)))"

text \<open>The default hints; only the last task and the event nodes that write get none.\<close>

definition default_cross :: "sk_node_type \<Rightarrow> bool \<Rightarrow> sk_queue_type \<Rightarrow> sync_map option" where
  "default_cross ty isLast q = (if ty = NODE_NOTIFY \<or> ty = NODE_RESET \<or> isLast then Some []
     else case q of AIC \<Rightarrow> Some [(AIC_KEY, CUB_TO_CUB)] | AIV \<Rightarrow> Some [(AIV_KEY, VEC_TO_VEC)]
     | QT_UNKNOWN \<Rightarrow> None | _ \<Rightarrow> Some [(AIC_KEY, CUB_TO_CUB), (AIV_KEY, VEC_TO_VEC)])"

fun init_tasks :: "sk_graph \<Rightarrow> bool \<times> bool \<Rightarrow> sk_queue_type \<Rightarrow> sk_node option \<Rightarrow> kernel_cache \<Rightarrow> task list \<Rightarrow>
    task_sync_info list option run" where
  "init_tasks g avail fallback prev cache [] = Inr (Some [])"
| "init_tasks g avail fallback prev cache (t # ts) =
     bindR (task_queue g avail fallback prev cache t) (\<lambda>(q, cache1). case q of None \<Rightarrow> Inr None
     | Some q \<Rightarrow> (case default_cross (nd_nodeType (snd t)) (ts = []) q of None \<Rightarrow> Inr None
       | Some cross \<Rightarrow>
         bindR (init_tasks g avail fallback (if is_kernel t then Some (snd t) else prev) cache1 ts) (\<lambda>r.
           Inr (map_option ((#) (new_sync_info\<lparr> ts_queueType := q, ts_crossSyncInfo := cross \<rparr>)) r))))"

definition InitTaskSyncInfos :: "sk_graph \<Rightarrow> task list \<Rightarrow> task_sync_info list option run" where
  "InitTaskSyncInfos g tasks = (let avail = CheckResourceStatus tasks in
     if \<not> fst avail \<and> \<not> snd avail then Inr None
     else init_tasks g avail (InferFirstKernelEventQueueType tasks (fst avail) (snd avail)) None Map.empty tasks)"

section \<open>Insertion\<close>

text \<open>
  The two directions are mirror images in the code: \<open>cv\<close> selects the sends of the cube queue and the
  receives of the vector queue, its negation the others. Indices are those of tasks, so every
  access is in range (\<open>Sk_Sync_Sound.sync_ok\<close>).
\<close>

definition send_of :: "bool \<Rightarrow> task_sync_info \<Rightarrow> sync_map" where
  "send_of cv x = (if cv then ts_cubSendInfo x else ts_vecSendInfo x)"

definition recv_of :: "bool \<Rightarrow> task_sync_info \<Rightarrow> sync_map" where
  "recv_of cv x = (if cv then ts_vecRecvInfo x else ts_cubRecvInfo x)"

definition upd_send :: "bool \<Rightarrow> (sync_map \<Rightarrow> sync_map) \<Rightarrow> task_sync_info \<Rightarrow> task_sync_info" where
  "upd_send cv f x = (if cv then x\<lparr> ts_cubSendInfo := f (ts_cubSendInfo x) \<rparr> else x\<lparr> ts_vecSendInfo := f (ts_vecSendInfo x) \<rparr>)"

definition upd_recv :: "bool \<Rightarrow> (sync_map \<Rightarrow> sync_map) \<Rightarrow> task_sync_info \<Rightarrow> task_sync_info" where
  "upd_recv cv f x = (if cv then x\<lparr> ts_vecRecvInfo := f (ts_vecRecvInfo x) \<rparr> else x\<lparr> ts_cubRecvInfo := f (ts_cubRecvInfo x) \<rparr>)"

definition dir_of :: "bool \<Rightarrow> sync_direction" where
  "dir_of cv = (if cv then CUB_TO_VEC else VEC_TO_CUB)"

definition upd_info :: "nat \<Rightarrow> (task_sync_info \<Rightarrow> task_sync_info) \<Rightarrow> task_sync_info list \<Rightarrow> task_sync_info list" where
  "upd_info i f s = s[i := f (s ! i)]"

definition insert_edge :: "bool \<Rightarrow> nat \<Rightarrow> nat \<Rightarrow> task_sync_info list \<Rightarrow> task_sync_info list" where
  "insert_edge cv i j s = upd_info j (upd_recv cv (put_sync i (dir_of cv))) (upd_info i (upd_send cv (put_sync j (dir_of cv))) s)"

definition InsertSyncEvent :: "nat \<Rightarrow> nat \<Rightarrow> task_sync_info list \<Rightarrow> task_sync_info list" where
  "InsertSyncEvent i j s = (let d = GenSyncDirection (ts_queueType (s ! i)) (ts_queueType (s ! j)) in
     (if d = VEC_TO_CUB \<or> d = MIX_TO_MIX then insert_edge False i j else id)
     ((if d = CUB_TO_VEC \<or> d = MIX_TO_MIX then insert_edge True i j else id) s))"

section \<open>Extraction\<close>

text \<open>The map from ids to indices; a later task overwrites an earlier one with the same id.\<close>

fun index_of :: "nat \<Rightarrow> task list \<Rightarrow> node_id \<Rightarrow> nat option" where
  "index_of k [] i = None"
| "index_of k (t # ts) i = (case index_of (Suc k) ts i of Some j \<Rightarrow> Some j
     | None \<Rightarrow> if nd_nodeId (snd t) = i then Some k else None)"

definition stream_ops :: "task list \<Rightarrow> u32 \<Rightarrow> nat list" where
  "stream_ops tasks s = filter (\<lambda>i. task_stream (tasks ! i) = s) [0..<length tasks]"

definition stream_keys :: "task list \<Rightarrow> u32 list" where
  "stream_keys tasks = fold oset_insert (map task_stream tasks) []"

fun sync_chain :: "nat list \<Rightarrow> task_sync_info list \<Rightarrow> task_sync_info list" where
  "sync_chain (i # j # is) s = sync_chain (j # is) (InsertSyncEvent i j s)"
| "sync_chain _ s = s"

definition ExtractIntraStreamSync :: "task list \<Rightarrow> task_sync_info list \<Rightarrow> task_sync_info list" where
  "ExtractIntraStreamSync tasks s = fold (\<lambda>k. sync_chain (stream_ops tasks k)) (stream_keys tasks) s"

text \<open>
  The successors of a kernel are visited in the order of the tasks; the insertions commute. The
  nodes of the tasks are all in the map of indices, so the error for a missing one cannot occur.
\<close>

definition successors :: "task list \<Rightarrow> task \<Rightarrow> nat list" where
  "successors tasks t = map (\<lambda>u. the (index_of 0 tasks (nd_nodeId (snd u))))
     (filter (\<lambda>u. nd_nodeId (snd u) \<in> nd_sendToNodeId (snd t)) tasks)"

definition ExtractInterStreamSync :: "task list \<Rightarrow> task_sync_info list \<Rightarrow> task_sync_info list" where
  "ExtractInterStreamSync tasks s = fold (\<lambda>t s. if is_kernel t
     then fold (InsertSyncEvent (the (index_of 0 tasks (nd_nodeId (snd t))))) (successors tasks t) s else s) tasks s"

definition PrecomputeSyncRelationsFromGraph :: "sk_graph \<Rightarrow> task list \<Rightarrow> task_sync_info list option run" where
  "PrecomputeSyncRelationsFromGraph g tasks = bindR (InitTaskSyncInfos g tasks) (\<lambda>r.
     Inr (map_option (\<lambda>s. ExtractInterStreamSync tasks (ExtractIntraStreamSync tasks s)) r))"

section \<open>Removal\<close>

definition JudgeRemoveCrossSync :: "bool \<Rightarrow> nat \<Rightarrow> nat \<Rightarrow> task_sync_info list \<Rightarrow> bool" where
  "JudgeRemoveCrossSync cv i j s \<longleftrightarrow> (\<exists>j'\<in>set [0..<j]. \<exists>p\<in>set (recv_of cv (s ! j')).
     (snd p = dir_of cv \<or> snd p = MIX_TO_MIX) \<and> i < fst p)"

definition remove_direction :: "nat \<Rightarrow> sync_direction \<Rightarrow> sync_map \<Rightarrow> sync_map" where
  "remove_direction k d m = (if map_of m k = Some d then erase_sync k m else m)"

definition RemoveSyncInfo :: "nat \<Rightarrow> nat \<Rightarrow> bool \<Rightarrow> sync_direction \<Rightarrow> task_sync_info list \<Rightarrow> task_sync_info list" where
  "RemoveSyncInfo i j isRemoveRecv d s = upd_info i (if isRemoveRecv
     then upd_recv False (remove_direction j d) \<circ> upd_recv True (remove_direction j d)
     else upd_send True (remove_direction j d) \<circ> upd_send False (remove_direction j d)) s"

definition remove_edge :: "bool \<Rightarrow> nat \<Rightarrow> nat \<Rightarrow> task_sync_info list \<Rightarrow> task_sync_info list" where
  "remove_edge cv i j s = RemoveSyncInfo j i True (dir_of cv) (RemoveSyncInfo i j False (dir_of cv) s)"

definition keys_of :: "sync_direction \<Rightarrow> sync_map \<Rightarrow> nat list" where
  "keys_of d m = map fst (filter (\<lambda>p. snd p = d) m)"

definition crossed_step :: "bool \<Rightarrow> nat \<Rightarrow> task_sync_info list \<Rightarrow> task_sync_info list" where
  "crossed_step cv i s = fold (remove_edge cv i)
     (filter (\<lambda>j. JudgeRemoveCrossSync cv i j s) (keys_of (dir_of cv) (send_of cv (s ! i)))) s"

definition RemoveCrossedLineSync :: "task_sync_info list \<Rightarrow> task_sync_info list" where
  "RemoveCrossedLineSync s = (let n = [0..<length s] in fold (crossed_step False) n (fold (crossed_step True) n s))"

text \<open>The keys of a map are in order, so sorting them is the identity or the reversal.\<close>

definition multi_send_step :: "bool \<Rightarrow> nat \<Rightarrow> task_sync_info list \<Rightarrow> task_sync_info list" where
  "multi_send_step cv i s = (if 1 < length (send_of cv (s ! i))
     then fold (remove_edge cv i) (drop 1 (keys_of (dir_of cv) (send_of cv (s ! i)))) s else s)"

definition RemoveMultiSendSync :: "task_sync_info list \<Rightarrow> task_sync_info list" where
  "RemoveMultiSendSync s = (let n = [0..<length s] in fold (multi_send_step True) n (fold (multi_send_step False) n s))"

text \<open>The two halves of an edge are removed in the other order here.\<close>

definition remove_edge_recv :: "bool \<Rightarrow> nat \<Rightarrow> nat \<Rightarrow> task_sync_info list \<Rightarrow> task_sync_info list" where
  "remove_edge_recv cv j i s = RemoveSyncInfo i j False (dir_of cv) (RemoveSyncInfo j i True (dir_of cv) s)"

definition multi_recv_step :: "bool \<Rightarrow> nat \<Rightarrow> task_sync_info list \<Rightarrow> task_sync_info list" where
  "multi_recv_step cv j s = (if 1 < length (recv_of cv (s ! j))
     then fold (remove_edge_recv cv j) (drop 1 (rev (keys_of (dir_of cv) (recv_of cv (s ! j))))) s else s)"

definition RemoveMultiRecvSync :: "task_sync_info list \<Rightarrow> task_sync_info list" where
  "RemoveMultiRecvSync s = (let n = [0..<length s] in fold (multi_recv_step False) n (fold (multi_recv_step True) n s))"

text \<open>A wait drops the hint behind the last kernel on its queue, unless that kernel sends to the other queue.\<close>

definition PickCandidateKernelIdx :: "nat option \<Rightarrow> nat option \<Rightarrow> sk_queue_type \<Rightarrow> nat option" where
  "PickCandidateKernelIdx lastAic lastAiv q = (if q = AIC then lastAic else if q = AIV then lastAiv else None)"

definition drop_hint :: "nat \<Rightarrow> nat option \<Rightarrow> nat option \<Rightarrow> task_sync_info list \<Rightarrow> task_sync_info list" where
  "drop_hint k lastAic lastAiv s = (let q = ts_queueType (s ! k) in
     case PickCandidateKernelIdx lastAic lastAiv q of None \<Rightarrow> s
       | Some c \<Rightarrow> if q = AIC \<and> ts_cubSendInfo (s ! c) = []
           then upd_info c (\<lambda>x. x\<lparr> ts_crossSyncInfo := erase_sync AIC_KEY (ts_crossSyncInfo x) \<rparr>) s
         else if q = AIV \<and> ts_vecSendInfo (s ! c) = []
           then upd_info c (\<lambda>x. x\<lparr> ts_crossSyncInfo := erase_sync AIV_KEY (ts_crossSyncInfo x) \<rparr>) s
         else s)"

fun redundant_from :: "nat \<Rightarrow> task list \<Rightarrow> nat option \<Rightarrow> nat option \<Rightarrow> task_sync_info list \<Rightarrow> task_sync_info list" where
  "redundant_from k [] lastAic lastAiv s = s"
| "redundant_from k (t # ts) lastAic lastAiv s =
    (if is_kernel t then redundant_from (Suc k) ts
       (if UsesAic (ts_queueType (s ! k)) then Some k else lastAic)
       (if UsesAiv (ts_queueType (s ! k)) then Some k else lastAiv) s
     else redundant_from (Suc k) ts lastAic lastAiv (if is_wait t then drop_hint k lastAic lastAiv s else s))"

definition RemoveRedundantCrossSync :: "task list \<Rightarrow> task_sync_info list \<Rightarrow> task_sync_info list" where
  "RemoveRedundantCrossSync tasks = redundant_from 0 tasks None None"

definition OptimizeSyncRelations :: "task list \<Rightarrow> task_sync_info list \<Rightarrow> task_sync_info list" where
  "OptimizeSyncRelations tasks s =
     RemoveRedundantCrossSync tasks (RemoveMultiRecvSync (RemoveMultiSendSync (RemoveCrossedLineSync s)))"

section \<open>Groups of split kernels\<close>

text \<open>Kernels that are split by their mixed parts form groups of their own, with a full barrier between groups.\<close>

definition IsMixKernelTask :: "task \<Rightarrow> bool" where
  "IsMixKernelTask t \<longleftrightarrow> is_kernel t \<and> ki_needMixKernelSplit (nd_kernelInfos (snd t))"

fun split_groups :: "bool \<Rightarrow> task list \<Rightarrow> task list \<Rightarrow> task list list" where
  "split_groups inMix sub [] = (if sub = [] then [] else [sub])"
| "split_groups inMix sub (t # ts) = (let m = IsMixKernelTask t in
     if sub \<noteq> [] \<and> m \<noteq> inMix then sub # split_groups m [t] ts else split_groups m (sub @ [t]) ts)"

definition SplitTasksByMixGroups :: "task list \<Rightarrow> task list list" where
  "SplitTasksByMixGroups tasks = split_groups False [] tasks"

definition rebase_map :: "nat \<Rightarrow> sync_map \<Rightarrow> sync_map option" where
  "rebase_map off m = (if off = 0 \<or> m = [] then Some m
     else if \<exists>p\<in>set m. fst p > 2 ^ 64 - 1 - off then None else Some (map (\<lambda>p. (fst p + off, snd p)) m))"

definition RebaseTaskSyncInfo :: "nat \<Rightarrow> task_sync_info \<Rightarrow> task_sync_info option" where
  "RebaseTaskSyncInfo off x = Option.bind (rebase_map off (ts_vecRecvInfo x)) (\<lambda>vr.
     Option.bind (rebase_map off (ts_cubRecvInfo x)) (\<lambda>cr. Option.bind (rebase_map off (ts_vecSendInfo x)) (\<lambda>vs.
     Option.bind (rebase_map off (ts_cubSendInfo x)) (\<lambda>cs.
       Some (x\<lparr> ts_vecRecvInfo := vr, ts_cubRecvInfo := cr, ts_vecSendInfo := vs, ts_cubSendInfo := cs \<rparr>)))))"

definition AddBoundaryAllSync :: "task_sync_info list \<Rightarrow> task_sync_info list" where
  "AddBoundaryAllSync s = upd_info (length s - 1) (\<lambda>x. x\<lparr> ts_vecSendInfo := [], ts_cubSendInfo := [],
     ts_crossSyncInfo := [(AIC_KEY, DIR_ALL_SYNC)] \<rparr>) s"

fun rebase_all :: "nat \<Rightarrow> task_sync_info list \<Rightarrow> task_sync_info list option" where
  "rebase_all off [] = Some []"
| "rebase_all off (x # xs) = Option.bind (RebaseTaskSyncInfo off x) (\<lambda>y. map_option ((#) y) (rebase_all off xs))"

text \<open>One group; the slice of the snapshot is that of the group, since groups are consecutive.\<close>

definition ProcessSyncRelationSplitGroup :: "task list \<Rightarrow> nat \<Rightarrow> bool \<Rightarrow> task_sync_info list \<Rightarrow> task_sync_info list option" where
  "ProcessSyncRelationSplitGroup tasks off hasNext origin =
    (if tasks = [] \<or> off > length origin \<or> length tasks > length origin - off then None
     else let s = take (length tasks) (drop off origin);
        s1 = OptimizeSyncRelations tasks (ExtractInterStreamSync tasks (ExtractIntraStreamSync tasks s))
      in rebase_all off (if hasNext then AddBoundaryAllSync s1 else s1))"

fun process_groups :: "nat \<Rightarrow> task list list \<Rightarrow> task_sync_info list \<Rightarrow> task_sync_info list option" where
  "process_groups off [] origin = Some []"
| "process_groups off (ts # tss) origin = Option.bind (ProcessSyncRelationSplitGroup ts off (tss \<noteq> []) origin) (\<lambda>xs.
     map_option ((@) xs) (process_groups (off + length ts) tss origin))"

definition PrecomputeSyncRelationsByMixGroups :: "sk_graph \<Rightarrow> task list \<Rightarrow> task_sync_info list option run" where
  "PrecomputeSyncRelationsByMixGroups g tasks =
    (if tasks = [] then Inr None
     else bindR (InitTaskSyncInfos g tasks) (\<lambda>r. case r of None \<Rightarrow> Inr None
     | Some origin \<Rightarrow> Inr (if length origin \<noteq> length tasks then None
         else Option.bind (process_groups 0 (SplitTasksByMixGroups tasks) origin) (\<lambda>merged.
           if length merged \<noteq> length tasks then None else Some merged))))"

end
