(* ===== verification/Sk_Sync_Sound.thy ===== *)
theory Sk_Sync_Sound
  imports Sk_Sync
begin

text \<open>
  What the synchronisation of the task builder is: the insertions and removals as operations on two sets
  of edges, and the set of edges the removal leaves.
\<close>

section \<open>Maps\<close>

definition keys :: "sync_map \<Rightarrow> nat set" where
  "keys m = fst ` set m"

definition map_ok :: "sync_direction \<Rightarrow> sync_map \<Rightarrow> bool" where
  "map_ok d m \<longleftrightarrow> sorted_wrt (<) (map fst m) \<and> (\<forall>p\<in>set m. snd p = d)"

lemma keys_Nil [simp]: "keys [] = {}"
  by (simp add: keys_def)

lemma keys_put [simp]: "keys (put_sync k d m) = insert k (keys m)"
  by (induction k d m rule: put_sync.induct) (auto simp: keys_def)

lemma set_put: "set (put_sync k d m) \<subseteq> insert (k, d) (set m)"
  by (induction k d m rule: put_sync.induct) auto

lemma map_ok_put: "map_ok d m \<Longrightarrow> map_ok d (put_sync k d m)"
proof -
  assume m: "map_ok d m"
  have "sorted_wrt (<) (map fst (put_sync k d m))" if "sorted_wrt (<) (map fst m)"
    using that
  proof (induction k d m rule: put_sync.induct)
    case (2 k d j e m)
    have "fst ` set (put_sync k d m) = insert k (fst ` set m)" using keys_put[of k d m] by (simp add: keys_def)
    with 2 show ?case by (auto simp: less_trans)
  qed simp
  moreover have "\<forall>p\<in>set (put_sync k d m). snd p = d" using m set_put[of k d m] by (auto simp: map_ok_def)
  ultimately show ?thesis using m by (simp add: map_ok_def)
qed

lemma keys_erase [simp]: "keys (erase_sync k m) = keys m - {k}"
  by (auto simp: keys_def erase_sync_def)

lemma map_ok_erase: "map_ok d m \<Longrightarrow> map_ok d (erase_sync k m)"
  by (auto simp: map_ok_def erase_sync_def filter_map comp_def intro: sorted_wrt_filter[of _ "map fst m" "\<lambda>x. x \<noteq> k", simplified filter_map comp_def])

lemma map_of_ok: "map_ok d m \<Longrightarrow> map_of m k = (if k \<in> keys m then Some d else None)"
proof (induction m)
  case (Cons p m)
  then have "map_ok d m" by (simp add: map_ok_def)
  with Cons show ?case by (cases p) (auto simp: keys_def map_ok_def)
qed simp

lemma remove_direction_ok:
  assumes "map_ok d m"
  shows "map_ok d (remove_direction k e m)" and "keys (remove_direction k e m) = (if e = d then keys m - {k} else keys m)"
  using map_ok_erase[OF assms] assms by (auto simp: remove_direction_def map_of_ok)

lemma keys_of_ok: "map_ok d m \<Longrightarrow> keys_of d m = map fst m"
  by (auto simp: map_ok_def keys_of_def intro!: arg_cong[where f = "map fst"] filter_True)

section \<open>Edges\<close>

definition edges :: "bool \<Rightarrow> task_sync_info list \<Rightarrow> (nat \<times> nat) set" where
  "edges cv s = {(i, j). i < length s \<and> j \<in> keys (send_of cv (s ! i))}"

text \<open>Both ends of an edge are recorded, in maps that hold only their own direction.\<close>

definition sync_ok :: "task_sync_info list \<Rightarrow> bool" where
  "sync_ok s \<longleftrightarrow> (\<forall>cv. \<forall>i<length s. map_ok (dir_of cv) (send_of cv (s ! i)) \<and> map_ok (dir_of cv) (recv_of cv (s ! i)) \<and>
     keys (send_of cv (s ! i)) \<subseteq> {..<length s} \<and> keys (recv_of cv (s ! i)) = {k. (k, i) \<in> edges cv s})"

text \<open>What no insertion and no removal of an edge touches.\<close>

definition same_rest :: "task_sync_info list \<Rightarrow> task_sync_info list \<Rightarrow> bool" where
  "same_rest s s' \<longleftrightarrow> length s' = length s \<and> (\<forall>i<length s. ts_queueType (s' ! i) = ts_queueType (s ! i) \<and>
     ts_crossSyncInfo (s' ! i) = ts_crossSyncInfo (s ! i) \<and> ts_earlyStartInfo (s' ! i) = ts_earlyStartInfo (s ! i))"

lemma same_rest_refl [simp]: "same_rest s s"
  by (simp add: same_rest_def)

lemma same_rest_trans: "same_rest s t \<Longrightarrow> same_rest t u \<Longrightarrow> same_rest s u"
  by (simp add: same_rest_def)

lemma upd_simps [simp]:
  "send_of cv (upd_send cv f x) = f (send_of cv x)" "send_of (\<not> cv) (upd_send cv f x) = send_of (\<not> cv) x"
  "recv_of cv (upd_recv cv f x) = f (recv_of cv x)" "recv_of (\<not> cv) (upd_recv cv f x) = recv_of (\<not> cv) x"
  "recv_of c (upd_send cv f x) = recv_of c x" "send_of c (upd_recv cv f x) = send_of c x"
  "ts_queueType (upd_send cv f x) = ts_queueType x" "ts_queueType (upd_recv cv f x) = ts_queueType x"
  "ts_crossSyncInfo (upd_send cv f x) = ts_crossSyncInfo x" "ts_crossSyncInfo (upd_recv cv f x) = ts_crossSyncInfo x"
  "ts_earlyStartInfo (upd_send cv f x) = ts_earlyStartInfo x" "ts_earlyStartInfo (upd_recv cv f x) = ts_earlyStartInfo x"
  by (cases cv; cases c; simp add: send_of_def recv_of_def upd_send_def upd_recv_def)+

lemma upd_cases:
  "send_of c (upd_send cv f x) = (if c = cv then f (send_of c x) else send_of c x)"
  "recv_of c (upd_recv cv f x) = (if c = cv then f (recv_of c x) else recv_of c x)"
  by (cases cv; cases c; simp add: send_of_def recv_of_def upd_send_def upd_recv_def)+

lemma upd_info_simps [simp]: "length (upd_info i f s) = length s"
  "i < length s \<Longrightarrow> upd_info i f s ! j = (if i = j then f (s ! j) else s ! j)"
  by (auto simp: upd_info_def nth_list_update)

lemma dir_of_inj [simp]: "dir_of a = dir_of b \<longleftrightarrow> a = b"
  by (simp add: dir_of_def)

lemma insert_edge_ok:
  assumes s: "sync_ok s" and i: "i < length s" and j: "j < length s"
  shows "sync_ok (insert_edge cv i j s) \<and> same_rest s (insert_edge cv i j s) \<and>
    edges c (insert_edge cv i j s) = (if c = cv then insert (i, j) (edges c s) else edges c s)"
proof -
  let ?s = "insert_edge cv i j s"
  have snd: "send_of c (?s ! k) = (if k = i \<and> c = cv then put_sync j (dir_of cv) (send_of c (s ! k)) else send_of c (s ! k))" for c k
    using i j by (simp add: insert_edge_def upd_cases)
  have rcv: "recv_of c (?s ! k) = (if k = j \<and> c = cv then put_sync i (dir_of cv) (recv_of c (s ! k)) else recv_of c (s ! k))" for c k
    using i j by (simp add: insert_edge_def upd_cases)
  have len: "length ?s = length s" by (simp add: insert_edge_def)
  have "keys (send_of c (?s ! k)) = (if k = i \<and> c = cv then insert j (keys (send_of c (s ! k))) else keys (send_of c (s ! k)))" for c k
    by (simp add: snd)
  then have e: "edges c ?s = (if c = cv then insert (i, j) (edges c s) else edges c s)" for c
    using i by (cases "c = cv") (auto simp: edges_def len split: if_splits)
  moreover have "sync_ok ?s"
    using s i j unfolding sync_ok_def by (auto simp: len snd rcv e map_ok_put)
  moreover have "same_rest s ?s" using i j by (simp add: same_rest_def len) (simp add: insert_edge_def)
  ultimately show ?thesis by blast
qed

lemma edges_minus:
  assumes "length s' = length s"
    and "\<And>k. k < length s \<Longrightarrow> keys (send_of c (s' ! k)) = (if k = i \<and> b then keys (send_of c (s ! k)) - {j} else keys (send_of c (s ! k)))"
  shows "edges c s' = (if b then edges c s - {(i, j)} else edges c s)"
  using assms by (cases b) (auto simp: edges_def split: if_splits)

lemma remove_edge_general:
  assumes s: "sync_ok s" and i: "i < length s" and j: "j < length s" and len: "length s' = length s"
    and snd: "\<And>c k. send_of c (s' ! k) = (if k = i then remove_direction j (dir_of cv) (send_of c (s ! k)) else send_of c (s ! k))"
    and rcv: "\<And>c k. recv_of c (s' ! k) = (if k = j then remove_direction i (dir_of cv) (recv_of c (s ! k)) else recv_of c (s ! k))"
  shows "sync_ok s' \<and> edges c s' = (if c = cv then edges c s - {(i, j)} else edges c s)"
proof -
  have ok: "map_ok (dir_of c) (send_of c (s ! k))" "map_ok (dir_of c) (recv_of c (s ! k))"
    "keys (send_of c (s ! k)) \<subseteq> {..<length s}" "keys (recv_of c (s ! k)) = {l. (l, k) \<in> edges c s}" if "k < length s" for c k
    using s that unfolding sync_ok_def by blast+
  have rm: "keys (remove_direction l (dir_of cv) (send_of c (s ! k))) = (if c = cv then keys (send_of c (s ! k)) - {l} else keys (send_of c (s ! k)))"
    "map_ok (dir_of c) (remove_direction l (dir_of cv) (send_of c (s ! k)))"
    "keys (remove_direction l (dir_of cv) (recv_of c (s ! k))) = (if c = cv then keys (recv_of c (s ! k)) - {l} else keys (recv_of c (s ! k)))"
    "map_ok (dir_of c) (remove_direction l (dir_of cv) (recv_of c (s ! k)))" if "k < length s" for c k l
    using remove_direction_ok[OF ok(1)[OF that, of c]] remove_direction_ok[OF ok(2)[OF that, of c]] by auto
  have e: "edges c s' = (if c = cv then edges c s - {(i, j)} else edges c s)" for c
    by (rule edges_minus[OF len]) (simp add: snd rm)
  moreover have "map_ok (dir_of c) (send_of c (s' ! k)) \<and> map_ok (dir_of c) (recv_of c (s' ! k)) \<and>
     keys (send_of c (s' ! k)) \<subseteq> {..<length s'} \<and> keys (recv_of c (s' ! k)) = {l. (l, k) \<in> edges c s'}"
    if k: "k < length s'" for c k
    using ok[of k c] k i j by (cases "c = cv") (auto simp: len snd rcv rm e)
  ultimately show ?thesis by (simp add: sync_ok_def)
qed

lemma remove_edge_at:
  assumes i: "i < length s" and j: "j < length s"
  shows "length (remove_edge cv i j s) = length s" "length (remove_edge_recv cv j i s) = length s"
    "send_of c (remove_edge cv i j s ! k) = (if k = i then remove_direction j (dir_of cv) (send_of c (s ! k)) else send_of c (s ! k))"
    "recv_of c (remove_edge cv i j s ! k) = (if k = j then remove_direction i (dir_of cv) (recv_of c (s ! k)) else recv_of c (s ! k))"
    "send_of c (remove_edge_recv cv j i s ! k) = (if k = i then remove_direction j (dir_of cv) (send_of c (s ! k)) else send_of c (s ! k))"
    "recv_of c (remove_edge_recv cv j i s ! k) = (if k = j then remove_direction i (dir_of cv) (recv_of c (s ! k)) else recv_of c (s ! k))"
    "same_rest s (remove_edge cv i j s)" "same_rest s (remove_edge_recv cv j i s)"
  using i j by (cases c; simp add: remove_edge_def remove_edge_recv_def RemoveSyncInfo_def upd_cases same_rest_def)+

lemma remove_edge_ok:
  assumes "sync_ok s" and "i < length s" and "j < length s"
  shows "sync_ok (remove_edge cv i j s) \<and> same_rest s (remove_edge cv i j s) \<and>
      edges c (remove_edge cv i j s) = (if c = cv then edges c s - {(i, j)} else edges c s)"
    and "sync_ok (remove_edge_recv cv j i s) \<and> same_rest s (remove_edge_recv cv j i s) \<and>
      edges c (remove_edge_recv cv j i s) = (if c = cv then edges c s - {(i, j)} else edges c s)"
  using remove_edge_general[OF assms, of "remove_edge cv i j s" cv c] remove_edge_general[OF assms, of "remove_edge_recv cv j i s" cv c]
    remove_edge_at[OF assms(2,3)] by simp_all

section \<open>Removals\<close>

text \<open>A run that takes edges of one direction away and changes nothing else.\<close>

definition removes :: "bool \<Rightarrow> (nat \<times> nat) set \<Rightarrow> task_sync_info list \<Rightarrow> task_sync_info list \<Rightarrow> bool" where
  "removes cv X s s' \<longleftrightarrow> sync_ok s' \<and> same_rest s s' \<and> edges cv s' = edges cv s - X \<and> edges (\<not> cv) s' = edges (\<not> cv) s"

lemma removes_refl: "sync_ok s \<Longrightarrow> removes cv {} s s"
  by (simp add: removes_def)

lemma removes_trans: "removes cv X s t \<Longrightarrow> removes cv Y t u \<Longrightarrow> removes cv (X \<union> Y) s u"
  by (auto simp: removes_def dest: same_rest_trans)

lemma removes_len: "removes cv X s s' \<Longrightarrow> length s' = length s"
  by (simp add: removes_def same_rest_def)

lemma removes_one:
  assumes "sync_ok s" and "i < length s" and "j < length s"
  shows "removes cv {(i, j)} s (remove_edge cv i j s)" "removes cv {(i, j)} s (remove_edge_recv cv j i s)"
  using remove_edge_ok[OF assms, of cv cv] remove_edge_ok[OF assms, of cv "\<not> cv"] by (auto simp: removes_def)

lemma removes_fold:
  assumes step: "\<And>k s. sync_ok s \<Longrightarrow> length s = n \<Longrightarrow> k \<in> set ks \<Longrightarrow> removes cv {e k} s (f k s)"
    and "sync_ok s" and "length s = n"
  shows "removes cv (e ` set ks) s (fold f ks s)"
  using assms
proof (induction ks arbitrary: s)
  case (Cons k ks)
  have one: "removes cv {e k} s (f k s)" using Cons.prems by simp
  have "removes cv (e ` set ks) (f k s) (fold f ks (f k s))"
    by (rule Cons.IH) (use Cons.prems one in \<open>auto simp: removes_def same_rest_def\<close>)
  from removes_trans[OF one this] show ?case by simp
qed (simp add: removes_refl)

lemma removes_upt:
  assumes step: "\<And>i s. sync_ok s \<Longrightarrow> i < length s \<Longrightarrow> removes cv (R i (edges cv s)) s (f i s)"
    and free: "\<And>i E. R i (E - (\<Union>k<i. R k E)) = R i E"
    and "sync_ok s"
  shows "n \<le> length s \<Longrightarrow> removes cv (\<Union>k<n. R k (edges cv s)) s (fold f [0..<n] s)"
proof (induction n)
  case 0
  then show ?case using assms(3) by (simp add: removes_refl)
next
  case (Suc n)
  let ?t = "fold f [0..<n] s"
  have t: "removes cv (\<Union>k<n. R k (edges cv s)) s ?t" using Suc by simp
  then have ok: "sync_ok ?t" "n < length ?t" "edges cv ?t = edges cv s - (\<Union>k<n. R k (edges cv s))"
    using Suc.prems by (auto simp: removes_def same_rest_def)
  from step[OF ok(1,2)] have "removes cv (R n (edges cv s)) ?t (f n ?t)" by (simp add: ok(3) free)
  from removes_trans[OF t this] show ?case by (simp add: lessThan_Suc Un_commute)
qed

definition crossed :: "nat \<Rightarrow> (nat \<times> nat) set \<Rightarrow> (nat \<times> nat) set" where
  "crossed i E = {i} \<times> {j. (i, j) \<in> E \<and> (\<exists>a>i. \<exists>b<j. (a, b) \<in> E)}"

definition later_send :: "nat \<Rightarrow> (nat \<times> nat) set \<Rightarrow> (nat \<times> nat) set" where
  "later_send i E = {i} \<times> {j. (i, j) \<in> E \<and> (\<exists>b<j. (i, b) \<in> E)}"

definition earlier_recv :: "nat \<Rightarrow> (nat \<times> nat) set \<Rightarrow> (nat \<times> nat) set" where
  "earlier_recv j E = {i. (i, j) \<in> E \<and> (\<exists>a>i. (a, j) \<in> E)} \<times> {j}"

lemma sync_okD:
  assumes "sync_ok s" and "i < length s"
  shows "map_ok (dir_of cv) (send_of cv (s ! i))" "map_ok (dir_of cv) (recv_of cv (s ! i))"
    "keys (send_of cv (s ! i)) = {j. (i, j) \<in> edges cv s}" "keys (recv_of cv (s ! i)) = {k. (k, i) \<in> edges cv s}"
  using assms unfolding sync_ok_def by (auto simp: edges_def)

lemma edges_range: "sync_ok s \<Longrightarrow> (i, j) \<in> edges cv s \<Longrightarrow> i < length s \<and> j < length s"
  by (auto simp: sync_ok_def edges_def)

lemma Judge_iff:
  assumes s: "sync_ok s" and j: "j < length s"
  shows "JudgeRemoveCrossSync cv i j s \<longleftrightarrow> (\<exists>a>i. \<exists>b<j. (a, b) \<in> edges cv s)"
proof -
  have "(\<exists>p\<in>set (recv_of cv (s ! b)). (snd p = dir_of cv \<or> snd p = MIX_TO_MIX) \<and> i < fst p) \<longleftrightarrow> (\<exists>a. (a, b) \<in> edges cv s \<and> i < a)"
    if "b < j" for b
  proof -
    have b: "b < length s" using that j by simp
    note m = sync_okD(2)[OF s b, of cv] and k = sync_okD(4)[OF s b, of cv]
    have "(\<exists>p\<in>set (recv_of cv (s ! b)). (snd p = dir_of cv \<or> snd p = MIX_TO_MIX) \<and> i < fst p) \<longleftrightarrow> (\<exists>a\<in>keys (recv_of cv (s ! b)). i < a)"
      using m by (auto simp: map_ok_def keys_def)
    then show ?thesis by (auto simp: k)
  qed
  then have "JudgeRemoveCrossSync cv i j s \<longleftrightarrow> (\<exists>b<j. \<exists>a. (a, b) \<in> edges cv s \<and> i < a)"
    by (simp add: JudgeRemoveCrossSync_def Bex_def cong: conj_cong)
  then show ?thesis by blast
qed

lemma keys_of_send:
  assumes "sync_ok s" and "i < length s"
  shows "keys_of (dir_of cv) (send_of cv (s ! i)) = map fst (send_of cv (s ! i))"
    "set (map fst (send_of cv (s ! i))) = {j. (i, j) \<in> edges cv s}" "sorted_wrt (<) (map fst (send_of cv (s ! i)))"
    "keys_of (dir_of cv) (recv_of cv (s ! i)) = map fst (recv_of cv (s ! i))"
    "set (map fst (recv_of cv (s ! i))) = {k. (k, i) \<in> edges cv s}" "sorted_wrt (<) (map fst (recv_of cv (s ! i)))"
  using sync_okD[OF assms, of cv] by (simp_all add: keys_of_ok keys_def map_ok_def)

lemma removes_sends:
  assumes s: "sync_ok s" and i: "i < length s" and ks: "set ks \<subseteq> {j. (i, j) \<in> edges cv s}"
  shows "removes cv ({i} \<times> set ks) s (fold (remove_edge cv i) ks s)"
proof -
  have "removes cv ((\<lambda>j. (i, j)) ` set ks) s (fold (remove_edge cv i) ks s)"
  proof (rule removes_fold[OF _ s refl])
    fix k t assume "sync_ok t" "length t = length s" "k \<in> set ks"
    then show "removes cv {(i, k)} t (remove_edge cv i k t)"
      using i ks edges_range[OF s, of i k cv] by (intro removes_one(1)) auto
  qed
  moreover have "(\<lambda>j. (i, j)) ` set ks = {i} \<times> set ks" by auto
  ultimately show ?thesis by simp
qed

lemma removes_recvs:
  assumes s: "sync_ok s" and j: "j < length s" and ks: "set ks \<subseteq> {i. (i, j) \<in> edges cv s}"
  shows "removes cv (set ks \<times> {j}) s (fold (remove_edge_recv cv j) ks s)"
proof -
  have "removes cv ((\<lambda>i. (i, j)) ` set ks) s (fold (remove_edge_recv cv j) ks s)"
  proof (rule removes_fold[OF _ s refl])
    fix k t assume "sync_ok t" "length t = length s" "k \<in> set ks"
    then show "removes cv {(k, j)} t (remove_edge_recv cv j k t)"
      using j ks edges_range[OF s, of k j cv] by (intro removes_one(2)) auto
  qed
  moreover have "(\<lambda>i. (i, j)) ` set ks = set ks \<times> {j}" by auto
  ultimately show ?thesis by simp
qed

lemma crossed_step_removes:
  assumes s: "sync_ok s" and i: "i < length s"
  shows "removes cv (crossed i (edges cv s)) s (crossed_step cv i s)"
proof -
  let ?ks = "filter (\<lambda>j. JudgeRemoveCrossSync cv i j s) (map fst (send_of cv (s ! i)))"
  have ks: "set ?ks = {j. (i, j) \<in> edges cv s \<and> (\<exists>a>i. \<exists>b<j. (a, b) \<in> edges cv s)}"
    unfolding set_filter keys_of_send(2)[OF s i, of cv]
    using edges_range[OF s, of i _ cv] Judge_iff[OF s, of _ cv i] by blast
  have "removes cv ({i} \<times> set ?ks) s (fold (remove_edge cv i) ?ks s)"
    by (rule removes_sends[OF s i]) (unfold ks, blast)
  then show ?thesis unfolding ks crossed_def by (simp add: crossed_step_def keys_of_send(1)[OF s i])
qed

lemma tl_sorted: "sorted_wrt (<) (xs :: nat list) \<Longrightarrow> set (drop 1 xs) = {x \<in> set xs. \<exists>y\<in>set xs. y < x}"
  by (cases xs) (auto dest: less_asym)

lemma tl_rev_sorted: "sorted_wrt (<) (xs :: nat list) \<Longrightarrow> set (drop 1 (rev xs)) = {x \<in> set xs. \<exists>y\<in>set xs. x < y}"
  by (cases xs rule: rev_cases) (auto simp: sorted_wrt_append dest: less_asym)

lemma multi_send_removes:
  assumes s: "sync_ok s" and i: "i < length s"
  shows "removes cv (later_send i (edges cv s)) s (multi_send_step cv i s)"
proof -
  let ?ks = "drop 1 (map fst (send_of cv (s ! i)))"
  note m = keys_of_send[OF s i, of cv]
  have ks: "set ?ks = {j. (i, j) \<in> edges cv s \<and> (\<exists>b<j. (i, b) \<in> edges cv s)}"
    unfolding tl_sorted[OF m(3)] m(2) by blast
  have "removes cv ({i} \<times> set ?ks) s (fold (remove_edge cv i) ?ks s)"
    by (rule removes_sends[OF s i]) (unfold ks, blast)
  moreover have "fold (remove_edge cv i) ?ks s = multi_send_step cv i s" by (simp add: multi_send_step_def m(1))
  ultimately show ?thesis unfolding ks later_send_def by simp
qed

lemma multi_recv_removes:
  assumes s: "sync_ok s" and j: "j < length s"
  shows "removes cv (earlier_recv j (edges cv s)) s (multi_recv_step cv j s)"
proof -
  let ?ks = "drop 1 (rev (map fst (recv_of cv (s ! j))))"
  note m = keys_of_send[OF s j, of cv]
  have ks: "set ?ks = {i. (i, j) \<in> edges cv s \<and> (\<exists>a>i. (a, j) \<in> edges cv s)}"
    unfolding tl_rev_sorted[OF m(6)] m(5) by blast
  have "removes cv (set ?ks \<times> {j}) s (fold (remove_edge_recv cv j) ?ks s)"
    by (rule removes_recvs[OF s j]) (unfold ks, blast)
  moreover have "fold (remove_edge_recv cv j) ?ks s = multi_recv_step cv j s" by (simp add: multi_recv_step_def m(4))
  ultimately show ?thesis unfolding ks earlier_recv_def by simp
qed

section \<open>What is left\<close>

text \<open>An edge that starts later and ends earlier implies another one.\<close>

definition needed :: "(nat \<times> nat) set \<Rightarrow> (nat \<times> nat) set" where
  "needed E = {(i, j). (i, j) \<in> E \<and> (\<forall>a b. (a, b) \<in> E \<longrightarrow> i \<le> a \<longrightarrow> b \<le> j \<longrightarrow> a = i \<and> b = j)}"

definition uncrossed :: "(nat \<times> nat) set \<Rightarrow> (nat \<times> nat) set" where
  "uncrossed E = {(i, j). (i, j) \<in> E \<and> \<not> (\<exists>a>i. \<exists>b<j. (a, b) \<in> E)}"

definition first_send :: "(nat \<times> nat) set \<Rightarrow> (nat \<times> nat) set" where
  "first_send E = {(i, j). (i, j) \<in> E \<and> \<not> (\<exists>b<j. (i, b) \<in> E)}"

definition last_recv :: "(nat \<times> nat) set \<Rightarrow> (nat \<times> nat) set" where
  "last_recv E = {(i, j). (i, j) \<in> E \<and> \<not> (\<exists>a>i. (a, j) \<in> E)}"

lemma first_send_uncrossed: "(i, j) \<in> first_send (uncrossed E) \<longleftrightarrow> (i, j) \<in> E \<and> \<not> (\<exists>a\<ge>i. \<exists>b<j. (a, b) \<in> E)"
proof
  assume l: "(i, j) \<in> first_send (uncrossed E)"
  then have e: "(i, j) \<in> E" and u: "\<And>a b. i < a \<Longrightarrow> b < j \<Longrightarrow> (a, b) \<notin> E" by (auto simp: first_send_def uncrossed_def)
  have "(a, b) \<notin> E" if "i \<le> a" "b < j" for a b
  proof (cases "a = i")
    case True
    have "(i, b) \<notin> uncrossed E" using l that(2) by (auto simp: first_send_def)
    then show ?thesis using u that(2) True by (fastforce simp: uncrossed_def)
  qed (use that u in auto)
  with e show "(i, j) \<in> E \<and> \<not> (\<exists>a\<ge>i. \<exists>b<j. (a, b) \<in> E)" by blast
qed (auto simp: first_send_def uncrossed_def)

lemma needed_eq: "last_recv (first_send (uncrossed E)) = needed E"
proof -
  have "(i, j) \<in> last_recv (first_send (uncrossed E)) \<longleftrightarrow> (i, j) \<in> E \<and> (\<forall>a b. (a, b) \<in> E \<longrightarrow> i \<le> a \<longrightarrow> b \<le> j \<longrightarrow> a = i \<and> b = j)" for i j
  proof
    assume l: "(i, j) \<in> last_recv (first_send (uncrossed E))"
    then have e: "(i, j) \<in> E" and u: "\<And>a b. i \<le> a \<Longrightarrow> b < j \<Longrightarrow> (a, b) \<notin> E"
      and r: "\<And>a. i < a \<Longrightarrow> (a, j) \<notin> first_send (uncrossed E)"
      by (auto simp: last_recv_def first_send_uncrossed)
    have "a = i \<and> b = j" if "(a, b) \<in> E" "i \<le> a" "b \<le> j" for a b
    proof -
      have b: "b = j" using u[of a b] that by (metis le_neq_implies_less)
      have "\<not> i < a"
      proof
        assume "i < a"
        then obtain x y where "a \<le> x" "y < j" "(x, y) \<in> E" using r[OF \<open>i < a\<close>] \<open>(a, b) \<in> E\<close> b by (auto simp: first_send_uncrossed)
        then show False using u[of x y] \<open>i < a\<close> by simp
      qed
      then show ?thesis using that(2) b by simp
    qed
    with e show "(i, j) \<in> E \<and> (\<forall>a b. (a, b) \<in> E \<longrightarrow> i \<le> a \<longrightarrow> b \<le> j \<longrightarrow> a = i \<and> b = j)" by blast
  next
    assume l: "(i, j) \<in> E \<and> (\<forall>a b. (a, b) \<in> E \<longrightarrow> i \<le> a \<longrightarrow> b \<le> j \<longrightarrow> a = i \<and> b = j)"
    then have "(a, b) \<notin> E" if "i \<le> a" "b < j" for a b using that by fastforce
    moreover have "(a, j) \<notin> E" if "i < a" for a using that l by fastforce
    ultimately show "(i, j) \<in> last_recv (first_send (uncrossed E))" using l by (auto simp: last_recv_def first_send_uncrossed)
  qed
  then show ?thesis by (auto simp: needed_def)
qed

lemma both_directions:
  assumes s: "sync_ok s"
    and step: "\<And>c i s. sync_ok s \<Longrightarrow> i < length s \<Longrightarrow> removes c (R i (edges c s)) s (f c i s)"
    and free: "\<And>i E. R i (E - (\<Union>k<i. R k E)) = R i E"
  shows "sync_ok (fold (f (\<not> b)) [0..<length s] (fold (f b) [0..<length s] s)) \<and>
    same_rest s (fold (f (\<not> b)) [0..<length s] (fold (f b) [0..<length s] s)) \<and>
    edges c (fold (f (\<not> b)) [0..<length s] (fold (f b) [0..<length s] s)) = edges c s - (\<Union>k<length s. R k (edges c s))"
proof -
  let ?t = "fold (f b) [0..<length s] s" and ?u = "fold (f (\<not> b)) [0..<length s] (fold (f b) [0..<length s] s)"
  have t: "removes b (\<Union>k<length s. R k (edges b s)) s ?t" by (rule removes_upt[OF step free s]) simp_all
  then have ok: "sync_ok ?t" "length ?t = length s" "edges (\<not> b) ?t = edges (\<not> b) s" by (auto simp: removes_def same_rest_def)
  have u: "removes (\<not> b) (\<Union>k<length s. R k (edges (\<not> b) ?t)) ?t ?u"
    by (rule removes_upt[OF step free ok(1)]) (simp_all add: ok(2))
  then have "sync_ok ?u" "same_rest s ?u" using t by (auto simp: removes_def dest: same_rest_trans)
  moreover have "edges c ?u = edges c s - (\<Union>k<length s. R k (edges c s))"
    using t u ok(3) by (cases "c = b") (auto simp: removes_def)
  ultimately show ?thesis by blast
qed

lemma crossed_free: "crossed i (E - (\<Union>k<i. crossed k E)) = crossed i E"
proof -
  have "(a, b) \<in> E - (\<Union>k<i. crossed k E) \<longleftrightarrow> (a, b) \<in> E" if "i \<le> a" for a b
    using that by (auto simp: crossed_def)
  then show ?thesis by (simp add: crossed_def[of i] less_imp_le cong: conj_cong)
qed

lemma later_send_free: "later_send i (E - (\<Union>k<i. later_send k E)) = later_send i E"
  by (auto simp: later_send_def)

lemma earlier_recv_free: "earlier_recv i (E - (\<Union>k<i. earlier_recv k E)) = earlier_recv i E"
  by (auto simp: earlier_recv_def)

lemma edges_below: "sync_ok s \<Longrightarrow> (i, j) \<in> edges c s \<Longrightarrow> i < length s" "sync_ok s \<Longrightarrow> (i, j) \<in> edges c s \<Longrightarrow> j < length s"
  using edges_range by blast+

lemma RemoveCrossedLineSync_edges:
  assumes s: "sync_ok s"
  shows "sync_ok (RemoveCrossedLineSync s) \<and> same_rest s (RemoveCrossedLineSync s) \<and>
    edges c (RemoveCrossedLineSync s) = uncrossed (edges c s)"
  using both_directions[OF s crossed_step_removes crossed_free, of True c] edges_below(1)[OF s, of _ _ c]
  by (auto simp: RemoveCrossedLineSync_def Let_def uncrossed_def crossed_def)

lemma RemoveMultiSendSync_edges:
  assumes s: "sync_ok s"
  shows "sync_ok (RemoveMultiSendSync s) \<and> same_rest s (RemoveMultiSendSync s) \<and>
    edges c (RemoveMultiSendSync s) = first_send (edges c s)"
  using both_directions[OF s multi_send_removes later_send_free, of False c] edges_below(1)[OF s, of _ _ c]
  by (auto simp: RemoveMultiSendSync_def Let_def first_send_def later_send_def)

lemma RemoveMultiRecvSync_edges:
  assumes s: "sync_ok s"
  shows "sync_ok (RemoveMultiRecvSync s) \<and> same_rest s (RemoveMultiRecvSync s) \<and>
    edges c (RemoveMultiRecvSync s) = last_recv (edges c s)"
  using both_directions[OF s multi_recv_removes earlier_recv_free, of True c] edges_below(2)[OF s, of _ _ c]
  by (auto simp: RemoveMultiRecvSync_def Let_def last_recv_def earlier_recv_def)

text \<open>The last step touches only the cross sync.\<close>

definition same_maps :: "task_sync_info list \<Rightarrow> task_sync_info list \<Rightarrow> bool" where
  "same_maps s s' \<longleftrightarrow> length s' = length s \<and> (\<forall>i<length s. ts_queueType (s' ! i) = ts_queueType (s ! i) \<and>
     ts_earlyStartInfo (s' ! i) = ts_earlyStartInfo (s ! i) \<and>
     (\<forall>cv. send_of cv (s' ! i) = send_of cv (s ! i) \<and> recv_of cv (s' ! i) = recv_of cv (s ! i)))"

lemma same_maps_refl [simp]: "same_maps s s"
  by (simp add: same_maps_def)

lemma same_maps_trans: "same_maps s t \<Longrightarrow> same_maps t u \<Longrightarrow> same_maps s u"
  by (simp add: same_maps_def)

lemma same_maps_edges: "same_maps s s' \<Longrightarrow> edges cv s' = edges cv s"
  by (auto simp: same_maps_def edges_def)

lemma same_maps_ok: "same_maps s s' \<Longrightarrow> sync_ok s \<Longrightarrow> sync_ok s'"
  using same_maps_edges[of s s'] by (simp add: sync_ok_def) (simp add: same_maps_def)

lemma same_maps_upd: "same_maps s (upd_info c (\<lambda>x. x\<lparr> ts_crossSyncInfo := f x \<rparr>) s)"
  by (cases "c < length s") (auto simp: same_maps_def send_of_def recv_of_def, auto simp: upd_info_def)

lemma drop_hint_same: "same_maps s (drop_hint k la lv s)"
  by (simp add: drop_hint_def Let_def same_maps_upd split: option.split)

lemma redundant_same_maps: "same_maps s (redundant_from k ts la lv s)"
proof (induction ts arbitrary: k la lv s)
  case (Cons t ts)
  then show ?case using same_maps_trans[OF drop_hint_same Cons.IH] by (cases "nd_nodeType (snd t)") simp_all
qed simp

theorem OptimizeSyncRelations_edges:
  assumes s: "sync_ok s"
  shows "sync_ok (OptimizeSyncRelations tasks s) \<and> length (OptimizeSyncRelations tasks s) = length s \<and>
    (\<forall>i<length s. ts_queueType (OptimizeSyncRelations tasks s ! i) = ts_queueType (s ! i)) \<and>
    edges c (OptimizeSyncRelations tasks s) = needed (edges c s)"
proof -
  let ?a = "RemoveCrossedLineSync s" and ?b = "RemoveMultiSendSync (RemoveCrossedLineSync s)"
  let ?c = "RemoveMultiRecvSync ?b"
  note a = RemoveCrossedLineSync_edges[OF s]
  note b = RemoveMultiSendSync_edges[of ?a] note c = RemoveMultiRecvSync_edges[of ?b]
  have r: "same_maps ?c (OptimizeSyncRelations tasks s)"
    by (simp add: OptimizeSyncRelations_def RemoveRedundantCrossSync_def redundant_same_maps)
  have ok: "sync_ok ?c" "same_rest s ?c" using a b c by (blast dest: same_rest_trans)+
  have e: "edges c ?c = needed (edges c s)" using a b c by (simp add: needed_eq)
  have "edges c (OptimizeSyncRelations tasks s) = needed (edges c s)" using same_maps_edges[OF r, of c] e by simp
  moreover have "length (OptimizeSyncRelations tasks s) = length s \<and>
    (\<forall>i<length s. ts_queueType (OptimizeSyncRelations tasks s ! i) = ts_queueType (s ! i))"
    using r ok(2) by (simp add: same_maps_def same_rest_def)
  ultimately show ?thesis using same_maps_ok[OF r ok(1)] by blast
qed

end
