(* ===== verification/Sk_Extract_Sound.thy ===== *)
theory Sk_Extract_Sound
  imports Sk_Sync_Sound
begin

text \<open>
  What the synchronisation of the task builder starts from: the queues of the tasks, and the edges that
  the streams and the events call for.
\<close>

section \<open>The edges that are left\<close>

lemma needed_sub: "needed E \<subseteq> E"
  by (auto simp: needed_def)

lemma needed_mono:
  assumes "(i, j) \<in> needed E" and "(a, b) \<in> needed E"
  shows "i < a \<longleftrightarrow> j < b"
proof -
  have e: "(i, j) \<in> E" "(a, b) \<in> E" using assms needed_sub by blast+
  have d: "\<And>x y. (x, y) \<in> E \<Longrightarrow> i \<le> x \<Longrightarrow> y \<le> j \<Longrightarrow> x = i \<and> y = j" "\<And>x y. (x, y) \<in> E \<Longrightarrow> a \<le> x \<Longrightarrow> y \<le> b \<Longrightarrow> x = a \<and> y = b"
    using assms unfolding needed_def by blast+
  show ?thesis using d(1)[OF e(2)] d(2)[OF e(1)] by linarith
qed

text \<open>Every edge is implied by one that is left.\<close>

lemma needed_cover:
  assumes "finite E" and "(i, j) \<in> E"
  shows "\<exists>(a, b)\<in>needed E. i \<le> a \<and> b \<le> j"
proof -
  let ?S = "{p \<in> E. i \<le> fst p \<and> snd p \<le> j}" and ?f = "\<lambda>p. fst p + (j - snd p)"
  have S: "finite ?S" "?S \<noteq> {}" using assms by auto
  have "Max (?f ` ?S) \<in> ?f ` ?S" by (rule Max_in) (use S in auto)
  then obtain r where r: "r \<in> ?S" "Max (?f ` ?S) = ?f r" by blast
  obtain a b where ab: "r = (a, b)" by fastforce
  have m: "?f p \<le> ?f (a, b)" if "p \<in> ?S" for p
  proof -
    have "?f p \<le> Max (?f ` ?S)" by (rule Max_ge) (use S that in auto)
    then show ?thesis unfolding r(2) ab .
  qed
  note ab = r(1)[unfolded ab]
  have "x = a \<and> y = b" if e: "(x, y) \<in> E" "a \<le> x" "y \<le> b" for x y
  proof -
    have "(x, y) \<in> ?S" using e ab by auto
    from m[OF this] show ?thesis using e ab by auto
  qed
  then have "(a, b) \<in> needed E" using ab by (auto simp: needed_def)
  then show ?thesis using ab by auto
qed

text \<open>In the order of their beginnings the edges that are left are in the order of their ends.\<close>

lemma needed_list:
  assumes "finite E"
  obtains L where "set L = needed E" and "sorted_wrt (\<lambda>p r. fst p < fst r \<and> snd p < snd r) L"
proof -
  let ?N = "needed E" and ?g = "\<lambda>i. (i, SOME j. (i, j) \<in> needed E)"
  have fin: "finite ?N" using assms needed_sub finite_subset by blast
  have one: "j = b" if "(i, j) \<in> ?N" "(i, b) \<in> ?N" for i j b
    using needed_mono[OF that] needed_mono[OF that(2,1)] by simp
  have g: "?g i = (i, j)" if "(i, j) \<in> ?N" for i j
    using one someI[of "\<lambda>j. (i, j) \<in> ?N", OF that] that by blast
  let ?L = "map ?g (sorted_list_of_set (fst ` ?N))"
  have "?g (fst p) = p" if "p \<in> ?N" for p using g[of "fst p" "snd p"] that by simp
  then have "(\<lambda>p. ?g (fst p)) ` ?N = (\<lambda>p. p) ` ?N" by (rule image_cong[OF refl])
  then have "set ?L = ?N" using fin by (simp add: image_image)
  moreover have "sorted_wrt (\<lambda>p r. fst p < fst r \<and> snd p < snd r) ?L"
  proof -
    have mono: "fst (?g i) < fst (?g a) \<and> snd (?g i) < snd (?g a)" if ia: "i \<in> fst ` ?N" "a \<in> fst ` ?N" "i < a" for i a
    proof -
      obtain j b where "(i, j) \<in> ?N" "(a, b) \<in> ?N" using ia(1,2) by auto
      then show ?thesis using needed_mono ia(3) by (simp add: g)
    qed
    have sl: "sorted_wrt (<) (sorted_list_of_set (fst ` ?N))" by simp
    show ?thesis unfolding sorted_wrt_map by (rule sorted_wrt_mono_rel[OF mono sl]) (use fin in simp_all)
  qed
  ultimately show ?thesis by (rule that)
qed

text \<open>The pairs of positions that a set of edges orders.\<close>

definition ordered :: "(nat \<times> nat) set \<Rightarrow> (nat \<times> nat) set" where
  "ordered E = {(i, j). \<exists>(a, b)\<in>E. i \<le> a \<and> b \<le> j}"

lemma orderedI: "(a, b) \<in> E \<Longrightarrow> i \<le> a \<Longrightarrow> b \<le> j \<Longrightarrow> (i, j) \<in> ordered E"
  by (auto simp: ordered_def)

lemma ordered_needed: "finite E \<Longrightarrow> ordered (needed E) = ordered E"
proof -
  assume f: "finite E"
  have "(i, j) \<in> ordered (needed E)" if "(i, j) \<in> ordered E" for i j
  proof -
    from that obtain a b where ab: "(a, b) \<in> E" "i \<le> a" "b \<le> j" by (auto simp: ordered_def)
    from needed_cover[OF f ab(1)] obtain x y where "(x, y) \<in> needed E" "a \<le> x" "y \<le> b" by blast
    then show ?thesis using ab orderedI[of x y "needed E" i j] by simp
  qed
  moreover have "ordered (needed E) \<subseteq> ordered E" using needed_sub[of E] unfolding ordered_def by blast
  ultimately show ?thesis by auto
qed

lemma finite_edges: "sync_ok s \<Longrightarrow> finite (edges c s)"
proof -
  assume s: "sync_ok s"
  have "edges c s \<subseteq> {..<length s} \<times> {..<length s}" using edges_below[OF s] by auto
  then show ?thesis by (rule finite_subset) simp
qed

section \<open>Insertion\<close>

text \<open>The edges between queues that a set of dependencies calls for.\<close>

definition crossing :: "bool \<Rightarrow> (nat \<Rightarrow> sk_queue_type) \<Rightarrow> (nat \<times> nat) set \<Rightarrow> (nat \<times> nat) set" where
  "crossing c q D = {(i, j). (i, j) \<in> D \<and> uses_queue c (q i) \<and> uses_queue (\<not> c) (q j)}"

lemma crossing_Un: "crossing c q (D \<union> D') = crossing c q D \<union> crossing c q D'"
  by (auto simp: crossing_def)

definition typed :: "task_sync_info list \<Rightarrow> bool" where
  "typed s \<longleftrightarrow> (\<forall>i<length s. ts_queueType (s ! i) \<noteq> QT_UNKNOWN)"

text \<open>\<open>f\<close> inserts the edges of the dependencies \<open>D\<close> and changes nothing else.\<close>

definition inserts :: "nat \<Rightarrow> (nat \<times> nat) set \<Rightarrow> (task_sync_info list \<Rightarrow> task_sync_info list) \<Rightarrow> bool" where
  "inserts n D f \<longleftrightarrow> (\<forall>s. length s = n \<longrightarrow> sync_ok s \<longrightarrow> typed s \<longrightarrow> sync_ok (f s) \<and> same_rest s (f s) \<and>
     (\<forall>c. edges c (f s) = edges c s \<union> crossing c (\<lambda>i. ts_queueType (s ! i)) D))"

lemma insertsD:
  assumes "inserts n D f" and "length s = n" and "sync_ok s" and "typed s"
  shows "sync_ok (f s)" "same_rest s (f s)" "edges c (f s) = edges c s \<union> crossing c (\<lambda>i. ts_queueType (s ! i)) D"
  using assms unfolding inserts_def by blast+

lemma same_rest_typed: "same_rest s t \<Longrightarrow> typed s \<Longrightarrow> typed t"
  by (simp add: same_rest_def typed_def)

lemma crossing_cong:
  assumes "D \<subseteq> {..<n} \<times> {..<n}" and "\<And>i. i < n \<Longrightarrow> q i = r i"
  shows "crossing c q D = crossing c r D"
  using assms by (auto simp: crossing_def)

lemma inserts_id: "inserts n {} id"
  by (simp add: inserts_def crossing_def)

lemma inserts_comp:
  assumes f: "inserts n D f" and g: "inserts n D' g" and D': "D' \<subseteq> {..<n} \<times> {..<n}"
  shows "inserts n (D \<union> D') (\<lambda>s. g (f s))"
  unfolding inserts_def
proof (intro allI impI)
  fix s assume s: "length s = n" "sync_ok s" "typed s"
  note a = insertsD[OF f s]
  have l: "length (f s) = n" using a(2) s(1) by (simp add: same_rest_def)
  note b = insertsD[OF g l a(1) same_rest_typed[OF a(2) s(3)]]
  have "crossing c (\<lambda>i. ts_queueType (f s ! i)) D' = crossing c (\<lambda>i. ts_queueType (s ! i)) D'" for c
    by (rule crossing_cong[OF D']) (use a(2) s(1) in \<open>simp add: same_rest_def\<close>)
  then show "sync_ok (g (f s)) \<and> same_rest s (g (f s)) \<and> (\<forall>c. edges c (g (f s)) = edges c s \<union> crossing c (\<lambda>i. ts_queueType (s ! i)) (D \<union> D'))"
    using a(3) b same_rest_trans[OF a(2) b(2)] by (simp add: crossing_Un Un_assoc)
qed

lemma inserts_fold:
  assumes "\<And>x. x \<in> set xs \<Longrightarrow> inserts n (D x) (f x)" and "\<And>x. x \<in> set xs \<Longrightarrow> D x \<subseteq> {..<n} \<times> {..<n}"
  shows "inserts n (\<Union>x\<in>set xs. D x) (fold f xs)"
  using assms
proof (induction xs rule: rev_induct)
  case Nil
  then show ?case using inserts_id by (simp add: id_def)
next
  case (snoc x xs)
  have "inserts n ((\<Union>x\<in>set xs. D x) \<union> D x) (\<lambda>s. f x (fold f xs s))"
    by (rule inserts_comp) (use snoc in auto)
  then show ?case by (simp add: comp_def Un_commute)
qed

lemma direction_crosses:
  assumes "p \<noteq> QT_UNKNOWN" and "q \<noteq> QT_UNKNOWN"
  shows "(GenSyncDirection p q = dir_of c \<or> GenSyncDirection p q = MIX_TO_MIX) \<longleftrightarrow> uses_queue c p \<and> uses_queue (\<not> c) q"
  using assms by (cases p; cases q; cases c) (simp_all add: GenSyncDirection_def dir_of_def uses_queue_def UsesAic_def UsesAiv_def)

lemma InsertSyncEvent_inserts:
  assumes ij: "i < n" "j < n"
  shows "inserts n {(i, j)} (InsertSyncEvent i j)"
  unfolding inserts_def
proof (intro allI impI)
  fix s assume s: "length s = n" "sync_ok s" "typed s"
  let ?p = "ts_queueType (s ! i)" and ?q = "ts_queueType (s ! j)"
  have t: "?p \<noteq> QT_UNKNOWN" "?q \<noteq> QT_UNKNOWN" using s ij by (simp_all add: typed_def)
  define d where "d c = (GenSyncDirection ?p ?q = dir_of c \<or> GenSyncDirection ?p ?q = MIX_TO_MIX)" for c
  define u where "u = (if d True then insert_edge True i j s else s)"
  have r: "InsertSyncEvent i j s = (if d False then insert_edge False i j u else u)"
    by (auto simp: InsertSyncEvent_def Let_def d_def u_def dir_of_def)
  have u: "sync_ok u \<and> same_rest s u \<and> (\<forall>c. edges c u = (if c = True \<and> d True then insert (i, j) (edges c s) else edges c s))"
    using insert_edge_ok[OF s(2), of i j True] ij s by (auto simp: u_def)
  then have lu: "length u = n" using s(1) by (simp add: same_rest_def)
  have v: "sync_ok (InsertSyncEvent i j s) \<and> same_rest u (InsertSyncEvent i j s) \<and>
     (\<forall>c. edges c (InsertSyncEvent i j s) = (if c = False \<and> d False then insert (i, j) (edges c u) else edges c u))"
    using insert_edge_ok[of u i j False] u ij lu by (auto simp: r)
  have "edges c (InsertSyncEvent i j s) = edges c s \<union> crossing c (\<lambda>i. ts_queueType (s ! i)) {(i, j)}" for c
  proof -
    have "crossing c (\<lambda>i. ts_queueType (s ! i)) {(i, j)} = (if d c then {(i, j)} else {})"
      using direction_crosses[OF t, of c] by (auto simp: crossing_def d_def)
    then show ?thesis using u v by (cases c) auto
  qed
  then show "sync_ok (InsertSyncEvent i j s) \<and> same_rest s (InsertSyncEvent i j s) \<and>
    (\<forall>c. edges c (InsertSyncEvent i j s) = edges c s \<union> crossing c (\<lambda>i. ts_queueType (s ! i)) {(i, j)})"
    using u v same_rest_trans by blast
qed

section \<open>Extraction\<close>

definition next_pairs :: "nat list \<Rightarrow> (nat \<times> nat) set" where
  "next_pairs xs = set (zip xs (tl xs))"

lemma next_pairs_sub: "set xs \<subseteq> A \<Longrightarrow> next_pairs xs \<subseteq> A \<times> A"
proof -
  assume "set xs \<subseteq> A"
  moreover have "set (tl xs) \<subseteq> set xs" by (cases xs) auto
  ultimately show ?thesis unfolding next_pairs_def by (auto elim!: in_set_zipE)
qed

lemma next_pairs_simps [simp]: "next_pairs [] = {}" "next_pairs [i] = {}" "next_pairs (i # j # is) = insert (i, j) (next_pairs (j # is))"
  by (simp_all add: next_pairs_def)

lemma sync_chain_inserts: "set xs \<subseteq> {..<n} \<Longrightarrow> inserts n (next_pairs xs) (sync_chain xs)"
proof (induction xs rule: induct_list012)
  case (3 i j "is")
  have "inserts n ({(i, j)} \<union> next_pairs (j # is)) (\<lambda>s. sync_chain (j # is) (InsertSyncEvent i j s))"
  proof (rule inserts_comp[where f = "InsertSyncEvent i j" and g = "sync_chain (j # is)"])
    show "inserts n {(i, j)} (InsertSyncEvent i j)" by (rule InsertSyncEvent_inserts) (use 3 in auto)
    show "inserts n (next_pairs (j # is)) (sync_chain (j # is))" using 3 by simp
    show "next_pairs (j # is) \<subseteq> {..<n} \<times> {..<n}" by (rule next_pairs_sub) (use 3 in simp)
  qed
  moreover have "sync_chain (i # j # is) = (\<lambda>s. sync_chain (j # is) (InsertSyncEvent i j s))" by (rule ext) simp
  ultimately show ?case by simp
qed (use inserts_id in \<open>simp_all add: inserts_def\<close>)

lemma set_stream_ops: "set (stream_ops tasks k) = {i. i < length tasks \<and> task_stream (tasks ! i) = k}"
  by (auto simp: stream_ops_def)

text \<open>Consecutive tasks of a stream.\<close>

definition stream_next :: "task list \<Rightarrow> (nat \<times> nat) set" where
  "stream_next tasks = (\<Union>k\<in>set (map task_stream tasks). next_pairs (stream_ops tasks k))"

lemma set_stream_keys [simp]: "set (stream_keys tasks) = set (map task_stream tasks)"
proof -
  have "set (fold oset_insert ks acc) = set ks \<union> set acc" for ks :: "u32 list" and acc
    by (induction ks arbitrary: acc) auto
  then show ?thesis by (simp add: stream_keys_def)
qed

lemma ExtractIntra_inserts: "inserts (length tasks) (stream_next tasks) (ExtractIntraStreamSync tasks)"
proof -
  have sub: "set (stream_ops tasks k) \<subseteq> {..<length tasks}" for k by (auto simp: set_stream_ops)
  have "inserts (length tasks) (\<Union>k\<in>set (stream_keys tasks). next_pairs (stream_ops tasks k))
    (fold (\<lambda>k. sync_chain (stream_ops tasks k)) (stream_keys tasks))"
    by (rule inserts_fold[OF sync_chain_inserts[OF sub] next_pairs_sub[OF sub]])
  then show ?thesis unfolding stream_next_def set_stream_keys
    by (simp add: inserts_def ExtractIntraStreamSync_def)
qed

text \<open>Distinct ids.\<close>

definition distinct_ids :: "task list \<Rightarrow> bool" where
  "distinct_ids tasks \<longleftrightarrow> distinct (map (\<lambda>t. nd_nodeId (snd t)) tasks)"

lemma index_of_nth:
  "distinct_ids tasks \<Longrightarrow> i < length tasks \<Longrightarrow> index_of k tasks (nd_nodeId (snd (tasks ! i))) = Some (k + i)"
proof (induction tasks arbitrary: k i)
  case (Cons t ts)
  have none: "index_of k ts x = None" if "x \<notin> (\<lambda>t. nd_nodeId (snd t)) ` set ts" for k x
    using that by (induction ts arbitrary: k) auto
  show ?case
  proof (cases i)
    case 0
    then show ?thesis using Cons.prems none by (simp add: distinct_ids_def)
  next
    case (Suc j)
    then show ?thesis using Cons.prems Cons.IH[of j "Suc k"] by (simp add: distinct_ids_def)
  qed
qed simp

text \<open>A kernel and a task that it sends to.\<close>

definition event_next :: "task list \<Rightarrow> (nat \<times> nat) set" where
  "event_next tasks = {(i, j). i < length tasks \<and> j < length tasks \<and> is_kernel (tasks ! i) \<and>
     nd_nodeId (snd (tasks ! j)) \<in> nd_sendToNodeId (snd (tasks ! i))}"

lemma ExtractInter_inserts:
  assumes d: "distinct_ids tasks"
  shows "inserts (length tasks) (event_next tasks) (ExtractInterStreamSync tasks)"
proof -
  let ?n = "length tasks"
  let ?ix = "\<lambda>t. the (index_of 0 tasks (nd_nodeId (snd t)))"
  have ix: "?ix (tasks ! i) = i" if "i < ?n" for i using index_of_nth[OF d that, of 0] by simp
  have sc: "set (successors tasks t) = {j. j < ?n \<and> nd_nodeId (snd (tasks ! j)) \<in> nd_sendToNodeId (snd t)}" for t
    using ix by (force simp: successors_def in_set_conv_nth)
  let ?D = "\<lambda>t. if is_kernel t then {?ix t} \<times> set (successors tasks t) else {}"
  let ?f = "\<lambda>t s. if is_kernel t then fold (InsertSyncEvent (?ix t)) (successors tasks t) s else s"
  have D: "?D t \<subseteq> {..<?n} \<times> {..<?n}" if t: "t \<in> set tasks" for t
  proof -
    obtain i where "i < ?n" "t = tasks ! i" using t by (auto simp: in_set_conv_nth)
    then show ?thesis using ix sc by auto
  qed
  have "inserts ?n (?D t) (?f t)" if t: "t \<in> set tasks" for t
  proof (cases "is_kernel t")
    case True
    obtain i where i: "i < ?n" "t = tasks ! i" using t by (auto simp: in_set_conv_nth)
    have "inserts ?n (\<Union>j\<in>set (successors tasks t). {(?ix t, j)}) (fold (InsertSyncEvent (?ix t)) (successors tasks t))"
      by (rule inserts_fold) (use i ix sc in \<open>auto intro: InsertSyncEvent_inserts\<close>)
    moreover have "(\<Union>j\<in>set (successors tasks t). {(?ix t, j)}) = ?D t" using True by auto
    ultimately show ?thesis using True by (simp add: inserts_def)
  next
    case False
    then show ?thesis using inserts_id by (simp add: inserts_def)
  qed
  from inserts_fold[OF this D] have "inserts ?n (\<Union>t\<in>set tasks. ?D t) (fold ?f tasks)" .
  moreover have "(i, j) \<in> (\<Union>t\<in>set tasks. ?D t) \<longleftrightarrow> (i, j) \<in> event_next tasks" for i j
  proof
    assume "(i, j) \<in> (\<Union>t\<in>set tasks. ?D t)"
    then obtain t where t: "t \<in> set tasks" "is_kernel t" "i = ?ix t" "j \<in> set (successors tasks t)" by (auto split: if_splits)
    obtain k where "k < ?n" "t = tasks ! k" using t(1) by (auto simp: in_set_conv_nth)
    then show "(i, j) \<in> event_next tasks" using t(2-4) ix by (simp add: event_next_def sc)
  next
    assume e: "(i, j) \<in> event_next tasks"
    then have "tasks ! i \<in> set tasks" "(i, j) \<in> ?D (tasks ! i)" using ix by (auto simp: event_next_def sc)
    then show "(i, j) \<in> (\<Union>t\<in>set tasks. ?D t)" by blast
  qed
  then have "(\<Union>t\<in>set tasks. ?D t) = event_next tasks" by auto
  ultimately show ?thesis by (simp add: inserts_def ExtractInterStreamSync_def)
qed

text \<open>What is done in the order of the tasks: the next task of a stream, and the tasks that a kernel sends to.\<close>

definition next_of :: "task list \<Rightarrow> (nat \<times> nat) set" where
  "next_of tasks = stream_next tasks \<union> event_next tasks"

lemma stream_next_sub: "stream_next tasks \<subseteq> {..<length tasks} \<times> {..<length tasks}"
proof -
  have "next_pairs (stream_ops tasks k) \<subseteq> {..<length tasks} \<times> {..<length tasks}" for k
    by (rule next_pairs_sub) (auto simp: set_stream_ops)
  then show ?thesis unfolding stream_next_def by blast
qed

lemma Extract_inserts:
  assumes "distinct_ids tasks"
  shows "inserts (length tasks) (next_of tasks) (\<lambda>s. ExtractInterStreamSync tasks (ExtractIntraStreamSync tasks s))"
  unfolding next_of_def
  by (rule inserts_comp[OF ExtractIntra_inserts ExtractInter_inserts[OF assms]]) (auto simp: event_next_def)

text \<open>On a stream every later task is reached through consecutive ones.\<close>

lemma sorted_path:
  assumes "sorted_wrt (<) xs" and "i \<in> set xs" and "j \<in> set xs" and "i < j"
  shows "(i, j) \<in> (next_pairs xs)\<^sup>+"
  using assms
proof (induction xs arbitrary: i)
  case (Cons x xs)
  have np: "next_pairs xs \<subseteq> next_pairs (x # xs)"
    by (cases xs) auto
  show ?case
  proof (cases "i = x")
    case True
    then have j: "j \<in> set xs" using Cons.prems by auto
    then obtain y ys where xs: "xs = y # ys" by (cases xs) auto
    have xy: "(x, y) \<in> next_pairs (x # xs)" by (simp add: xs)
    show ?thesis
    proof (cases "j = y")
      case False
      have "y < j" using Cons.prems(1) j False by (auto simp: xs)
      then have "(y, j) \<in> (next_pairs xs)\<^sup>+" using Cons.IH Cons.prems(1) j by (simp add: xs)
      then have "(y, j) \<in> (next_pairs (x # xs))\<^sup>+" using trancl_mono[OF _ np] by blast
      with xy show ?thesis unfolding True by (rule trancl_into_trancl2)
    qed (use xy True in blast)
  next
    case False
    then have "i \<in> set xs" using Cons.prems by simp
    moreover have "j \<in> set xs" using Cons.prems calculation by auto
    ultimately have "(i, j) \<in> (next_pairs xs)\<^sup>+" using Cons by simp
    then show ?thesis using trancl_mono[OF _ np] by blast
  qed
qed simp

lemma sorted_stream_ops: "sorted_wrt (<) (stream_ops tasks k)"
  unfolding stream_ops_def by (intro sorted_wrt_filter) simp

lemma stream_next_lt: "(i, j) \<in> stream_next tasks \<Longrightarrow> i < j"
proof -
  assume "(i, j) \<in> stream_next tasks"
  then obtain k where ij: "(i, j) \<in> next_pairs (stream_ops tasks k)" by (auto simp: stream_next_def)
  have "i < j" if "sorted_wrt (<) xs" "(i, j) \<in> next_pairs xs" for xs
    using that by (induction xs rule: induct_list012) auto
  with ij sorted_stream_ops show ?thesis by blast
qed

lemma stream_path:
  assumes "i < j" and "j < length tasks" and "task_stream (tasks ! i) = task_stream (tasks ! j)"
  shows "(i, j) \<in> (next_of tasks)\<^sup>+"
proof -
  let ?k = "task_stream (tasks ! j)"
  have "(i, j) \<in> (next_pairs (stream_ops tasks ?k))\<^sup>+"
    by (rule sorted_path[OF sorted_stream_ops]) (use assms in \<open>simp_all add: set_stream_ops\<close>)
  moreover have "next_pairs (stream_ops tasks ?k) \<subseteq> next_of tasks"
    using assms(2) unfolding next_of_def stream_next_def by (auto intro!: bexI[of _ "tasks ! j"])
  ultimately show ?thesis using trancl_mono by blast
qed

section \<open>The queues of the tasks\<close>

text \<open>Only ids of stored nodes are kept.\<close>

definition cache_ok :: "sk_graph \<Rightarrow> kernel_cache \<Rightarrow> bool" where
  "cache_ok g cache \<longleftrightarrow> (\<forall>k\<in>ran cache. GetNodeById g k \<noteq> None)"

lemma cache_upd: "cache_ok g cache \<Longrightarrow> GetNodeById g k \<noteq> None \<Longrightarrow> cache_ok g (cache(i \<mapsto> k))"
  by (auto simp: cache_ok_def ran_def)

lemma CacheTraversedNodes_ok:
  "cache_ok g cache \<Longrightarrow> GetNodeById g k \<noteq> None \<Longrightarrow> cache_ok g (snd (CacheTraversedNodes g path ty k cache))"
  by (induction g path ty k cache rule: CacheTraversedNodes.induct) (auto simp: cache_upd split: option.split)

lemma search_kernel_ok:
  "search_kernel hops g dir ty cache path i = (r, cache') \<Longrightarrow> cache_ok g cache \<Longrightarrow>
     cache_ok g cache' \<and> (\<forall>k. r = Some k \<longrightarrow> GetNodeById g k \<noteq> None)"
proof (induction hops arbitrary: cache path i)
  case (Suc hops)
  show ?case
  proof (cases "GetNodeById g i")
    case None
    then show ?thesis using Suc.prems by auto
  next
    case (Some n)
    show ?thesis
    proof (cases "ResolveCurrentKernel i n cache")
      case None
      then show ?thesis using Suc Some by (auto simp: Let_def split: if_splits)
    next
      case k: (Some k)
      then have "GetNodeById g k \<noteq> None" using Suc.prems(2) Some
        by (auto simp: ResolveCurrentKernel_def cache_ok_def ran_def split: option.splits if_splits)
      then show ?thesis using Suc.prems CacheTraversedNodes_ok[of g cache k "path @ [i]" ty] Some k
        by (auto simp: Let_def split: prod.splits if_splits)
    qed
  qed
qed simp

lemma FindKernel_ok:
  assumes "FindKernelNodeInDirection start g dir cache = (r, cache')" and "cache_ok g cache"
  shows "cache_ok g cache'" "r = Some k \<Longrightarrow> GetNodeById g k \<noteq> None"
proof -
  have "cache_ok g cache' \<and> (\<forall>k. r = Some k \<longrightarrow> GetNodeById g k \<noteq> None)"
    using assms search_kernel_ok[of 100 g dir _ cache "[]" start r cache']
    by (auto simp: FindKernelNodeInDirection_def simp del: search_kernel.simps split: if_splits option.splits)
  then show "cache_ok g cache'" "r = Some k \<Longrightarrow> GetNodeById g k \<noteq> None" by blast+
qed

text \<open>A queue type for an event: one kind of cores, and one that some kernel uses.\<close>

definition event_type :: "bool \<times> bool \<Rightarrow> sk_queue_type \<Rightarrow> bool" where
  "event_type avail q \<longleftrightarrow> q = AIC \<and> fst avail \<or> q = AIV \<and> snd avail"

lemma ToEventQueueType_ok: "fst avail \<or> snd avail \<Longrightarrow> event_type avail (ToEventQueueType q (fst avail) (snd avail))"
  by (auto simp: ToEventQueueType_def event_type_def Let_def)

lemma event_queue_ok:
  assumes a: "fst avail \<or> snd avail" and f: "event_type avail fallback" and k: "\<And>i. k = Some i \<Longrightarrow> GetNodeById g i \<noteq> None"
  shows "\<exists>q. event_queue avail fallback h g k = Inr (Some q) \<and> event_type avail q"
proof (cases k)
  case None
  then show ?thesis using f by (auto simp: event_queue_def event_type_def)
next
  case (Some i)
  then obtain n where "GetNodeById g i = Some n" using k by auto
  then show ?thesis using Some ToEventQueueType_ok[OF a] by (simp add: event_queue_def)
qed

text \<open>The tasks the builder can handle.\<close>

definition supported :: "task \<Rightarrow> bool" where
  "supported t \<longleftrightarrow> nd_nodeType (snd t) \<in> {NODE_KERNEL, NODE_NOTIFY, NODE_WAIT, NODE_RESET}"

definition queue_ok :: "bool \<times> bool \<Rightarrow> task \<Rightarrow> sk_queue_type \<Rightarrow> bool" where
  "queue_ok avail t q \<longleftrightarrow> (if is_kernel t then q = queue_of (snd t) else event_type avail q)"

lemma task_queue_ok:
  assumes a: "fst avail \<or> snd avail" and f: "event_type avail fallback" and c: "cache_ok g cache" and t: "supported t"
  shows "\<exists>q cache'. task_queue g avail fallback prev cache t = Inr (Some q, cache') \<and> cache_ok g cache' \<and> queue_ok avail t q"
proof -
  have ev: "\<exists>q cache'. bindR (event_queue avail fallback h g k) (\<lambda>q. Inr (q, cache_kernel (nd_nodeId n) k cache1)) = Inr (Some q, cache') \<and>
      cache_ok g cache' \<and> event_type avail q" if "FindKernelNodeInDirection st g dir cache = (k, cache1)" for st dir k cache1 h n
  proof -
    note fk = FindKernel_ok[OF that c]
    obtain q where "event_queue avail fallback h g k = Inr (Some q)" "event_type avail q" using event_queue_ok[OF a f fk(2)] by blast
    moreover have "cache_ok g (cache_kernel (nd_nodeId n) k cache1)"
      using fk cache_upd by (auto simp: cache_kernel_def split: option.split)
    ultimately show ?thesis by simp
  qed
  show ?thesis
  proof (cases "nd_nodeType (snd t)")
    case NODE_KERNEL
    then show ?thesis using c by (simp add: task_queue_def queue_ok_def)
  next
    case NODE_WAIT
    obtain k cache1 where fk: "FindKernelNodeInDirection (nd_nextNodeId (snd t)) g SEARCH_NEXT cache = (k, cache1)" by fastforce
    from ev[OF fk] NODE_WAIT show ?thesis by (simp add: task_queue_def queue_ok_def fk)
  next
    case NODE_NOTIFY
    obtain k cache1 where fk: "FindKernelNodeInDirection (nd_preNodeId (snd t)) g SEARCH_PREV cache = (k, cache1)" by fastforce
    from ev[OF fk] NODE_NOTIFY show ?thesis by (simp add: task_queue_def queue_ok_def fk)
  next
    case NODE_RESET
    obtain k cache1 where fk: "FindKernelNodeInDirection (nd_preNodeId (snd t)) g SEARCH_PREV cache = (k, cache1)" by fastforce
    from ev[OF fk] NODE_RESET show ?thesis by (simp add: task_queue_def queue_ok_def fk)
  qed (use t in \<open>simp_all add: supported_def\<close>)
qed

text \<open>What the synchronisation of a task starts with: no edges and the default hints, none for the last task.\<close>

definition fresh_info :: "bool \<times> bool \<Rightarrow> task \<Rightarrow> bool \<Rightarrow> task_sync_info \<Rightarrow> bool" where
  "fresh_info avail t isLast x \<longleftrightarrow> queue_ok avail t (ts_queueType x) \<and> ts_queueType x \<noteq> QT_UNKNOWN \<and>
     ts_cubSendInfo x = [] \<and> ts_cubRecvInfo x = [] \<and> ts_vecSendInfo x = [] \<and> ts_vecRecvInfo x = [] \<and>
     default_cross (nd_nodeType (snd t)) isLast (ts_queueType x) = Some (ts_crossSyncInfo x)"

lemma queue_known: "queue_ok avail t q \<Longrightarrow> q \<noteq> QT_UNKNOWN"
  by (auto simp: queue_ok_def event_type_def queue_of_def ToQueueType_def split: if_splits sk_kernel_type.splits)

lemma init_tasks_ok:
  assumes "fst avail \<or> snd avail" and "event_type avail fallback" and "cache_ok g cache" and "\<forall>t\<in>set ts. supported t"
  shows "\<exists>xs. init_tasks g avail fallback prev cache ts = Inr (Some xs) \<and> length xs = length ts \<and>
    (\<forall>i<length ts. fresh_info avail (ts ! i) (Suc i = length ts) (xs ! i))"
  using assms(3,4)
proof (induction ts arbitrary: prev cache)
  case (Cons t ts)
  from task_queue_ok[OF assms(1,2) Cons.prems(1), of t prev] Cons.prems(2)
  obtain q cache' where q: "task_queue g avail fallback prev cache t = Inr (Some q, cache')" "cache_ok g cache'" "queue_ok avail t q" by auto
  from Cons.IH[OF q(2), of "if is_kernel t then Some (snd t) else prev"] Cons.prems(2)
  obtain xs where xs: "init_tasks g avail fallback (if is_kernel t then Some (snd t) else prev) cache' ts = Inr (Some xs)"
    "length xs = length ts" "\<forall>i<length ts. fresh_info avail (ts ! i) (Suc i = length ts) (xs ! i)" by auto
  have u: "q \<noteq> QT_UNKNOWN" by (rule queue_known[OF q(3)])
  then have "default_cross (nd_nodeType (snd t)) (ts = []) q \<noteq> None" by (cases q) (auto simp: default_cross_def)
  then obtain cr where cr: "default_cross (nd_nodeType (snd t)) (ts = []) q = Some cr" by blast
  let ?x = "new_sync_info\<lparr> ts_queueType := q, ts_crossSyncInfo := cr \<rparr>"
  have "init_tasks g avail fallback prev cache (t # ts) = Inr (Some (?x # xs))" using q(1) cr xs(1) by simp
  moreover have "fresh_info avail t (ts = []) ?x" using q(3) u cr by (simp add: fresh_info_def new_sync_info_def)
  moreover have "fresh_info avail ((t # ts) ! i) (Suc i = length (t # ts)) ((?x # xs) ! i)" if "i < length (t # ts)" for i
    using xs(3) that calculation(2) by (cases i) auto
  ultimately show ?case using xs(2) by auto
qed simp

lemma resources_known:
  assumes k: "\<exists>t\<in>set tasks. is_kernel t"
  defines "a \<equiv> CheckResourceStatus tasks"
  shows "fst a \<or> snd a" "event_type a (InferFirstKernelEventQueueType tasks (fst a) (snd a))"
proof -
  obtain t where t: "t \<in> set tasks" "is_kernel t" using k by blast
  have "UsesAic (queue_of (snd t)) \<or> UsesAiv (queue_of (snd t))"
    by (auto simp: queue_of_def ToQueueType_def UsesAic_def UsesAiv_def split: sk_kernel_type.split)
  then show a: "fst a \<or> snd a" unfolding a_def CheckResourceStatus_def Let_def fst_conv snd_conv set_filter using t by blast
  have "List.find is_kernel tasks \<noteq> None" unfolding find_None_iff using t by blast
  then show "event_type a (InferFirstKernelEventQueueType tasks (fst a) (snd a))"
    using ToEventQueueType_ok[OF a] by (auto simp: InferFirstKernelEventQueueType_def)
qed

text \<open>Without an error, and not more.\<close>

lemma InitTaskSyncInfos_ok:
  assumes k: "\<exists>t\<in>set tasks. is_kernel t" and s: "\<forall>t\<in>set tasks. supported t"
  shows "\<exists>xs. InitTaskSyncInfos g tasks = Inr (Some xs) \<and> length xs = length tasks \<and>
    (\<forall>i<length tasks. fresh_info (CheckResourceStatus tasks) (tasks ! i) (Suc i = length tasks) (xs ! i))"
proof -
  let ?a = "CheckResourceStatus tasks"
  note a = resources_known(1)[OF k] and f = resources_known(2)[OF k]
  have "cache_ok g Map.empty" by (simp add: cache_ok_def)
  from init_tasks_ok[OF a f this s] a show ?thesis by (auto simp: InitTaskSyncInfos_def Let_def)
qed

lemma fresh_sync:
  assumes "length xs = length tasks" and "\<forall>i<length tasks. fresh_info avail (tasks ! i) (Suc i = length tasks) (xs ! i)"
  shows "sync_ok xs" "typed xs" "edges c xs = {}"
proof -
  have e: "edges c xs = {}" for c using assms by (auto simp: edges_def send_of_def fresh_info_def)
  then show "edges c xs = {}" .
  show "sync_ok xs" using assms by (auto simp: sync_ok_def e map_ok_def send_of_def recv_of_def fresh_info_def)
  show "typed xs" using assms by (auto simp: typed_def fresh_info_def)
qed

text \<open>The edges the graph calls for are those of the dependencies between different queues.\<close>

theorem Precompute_edges:
  assumes "\<exists>t\<in>set tasks. is_kernel t" and "\<forall>t\<in>set tasks. supported t" and d: "distinct_ids tasks"
  shows "\<exists>s. PrecomputeSyncRelationsFromGraph g tasks = Inr (Some s) \<and> length s = length tasks \<and> sync_ok s \<and>
    (\<forall>i<length tasks. queue_ok (CheckResourceStatus tasks) (tasks ! i) (ts_queueType (s ! i)) \<and>
       default_cross (nd_nodeType (snd (tasks ! i))) (Suc i = length tasks) (ts_queueType (s ! i)) = Some (ts_crossSyncInfo (s ! i))) \<and>
    (\<forall>c. edges c s = crossing c (\<lambda>i. ts_queueType (s ! i)) (next_of tasks))"
proof -
  obtain xs where xs: "InitTaskSyncInfos g tasks = Inr (Some xs)" "length xs = length tasks"
    "\<forall>i<length tasks. fresh_info (CheckResourceStatus tasks) (tasks ! i) (Suc i = length tasks) (xs ! i)"
    using InitTaskSyncInfos_ok[OF assms(1,2)] by blast
  note fr = fresh_sync[OF xs(2,3)]
  let ?s = "ExtractInterStreamSync tasks (ExtractIntraStreamSync tasks xs)"
  note ins = insertsD[OF Extract_inserts[OF d] xs(2) fr(1,2)]
  have q: "length ?s = length tasks" "\<And>i. i < length tasks \<Longrightarrow> ts_queueType (?s ! i) = ts_queueType (xs ! i) \<and> ts_crossSyncInfo (?s ! i) = ts_crossSyncInfo (xs ! i)"
    using ins(2) xs(2) by (simp_all add: same_rest_def)
  have sub: "next_of tasks \<subseteq> {..<length tasks} \<times> {..<length tasks}"
    using stream_next_sub by (auto simp: next_of_def event_next_def)
  have "edges c ?s = crossing c (\<lambda>i. ts_queueType (?s ! i)) (next_of tasks)" for c
  proof -
    have "edges c ?s = crossing c (\<lambda>i. ts_queueType (xs ! i)) (next_of tasks)" using ins(3)[of c] fr(3) by simp
    also have "\<dots> = crossing c (\<lambda>i. ts_queueType (?s ! i)) (next_of tasks)" by (rule crossing_cong[OF sub]) (simp add: q(2))
    finally show ?thesis .
  qed
  then show ?thesis using ins(1) q xs by (auto simp: PrecomputeSyncRelationsFromGraph_def fresh_info_def)
qed

section \<open>Optimisation\<close>

text \<open>
  C23 \<^bold>\<open>Optimising the synchronisation loses no order and leaves nothing superfluous.\<close> Of the edges from one queue to the other the
  three passes keep just those that order what all of them ordered: the same pairs of tasks are ordered by an edge between them before and after, the ends still
  agree, and without any one of the edges that are left something would not be ordered any more.
\<close>

theorem OptimizeSyncRelations_order:
  assumes "sync_ok s"
  shows "sync_ok (OptimizeSyncRelations tasks s) \<and> ordered (edges c (OptimizeSyncRelations tasks s)) = ordered (edges c s) \<and>
    (\<nexists>e. e \<in> edges c (OptimizeSyncRelations tasks s) \<and> ordered (edges c (OptimizeSyncRelations tasks s) - {e}) = ordered (edges c s))"
proof -
  let ?E = "edges c (OptimizeSyncRelations tasks s)"
  note o = OptimizeSyncRelations_edges[OF assms, of tasks c]
  have e: "?E = needed (edges c s)" using o by blast
  have eq: "ordered ?E = ordered (edges c s)" unfolding e by (rule ordered_needed[OF finite_edges[OF assms]])
  have "ordered (?E - {(i, j)}) \<noteq> ordered (edges c s)" if "(i, j) \<in> ?E" for i j
  proof
    assume "ordered (?E - {(i, j)}) = ordered (edges c s)"
    moreover have "(i, j) \<in> ordered ?E" by (rule orderedI[OF that]) simp_all
    ultimately have "(i, j) \<in> ordered (?E - {(i, j)})" using eq by simp
    then obtain a b where ab: "(a, b) \<in> ?E" "(a, b) \<noteq> (i, j)" "i \<le> a" "b \<le> j" by (auto simp: ordered_def)
    moreover have "(a, b) \<in> edges c s" using ab(1) needed_sub unfolding e by blast
    ultimately show False using that unfolding e needed_def by blast
  qed
  then show ?thesis using o eq by auto
qed

text \<open>Two cube tasks before a vector task: the edge from the first one goes.\<close>

definition edge_infos :: "task_sync_info list" where
  "edge_infos = [new_sync_info\<lparr> ts_queueType := AIC, ts_cubSendInfo := [(2, CUB_TO_VEC)] \<rparr>,
     new_sync_info\<lparr> ts_queueType := AIC, ts_cubSendInfo := [(2, CUB_TO_VEC)] \<rparr>,
     new_sync_info\<lparr> ts_queueType := AIV, ts_vecRecvInfo := [(0, CUB_TO_VEC), (1, CUB_TO_VEC)] \<rparr>]"

lemma OptimizeSyncRelations_order_witness:
  "ordered (edges True (OptimizeSyncRelations [] edge_infos)) = ordered {(0, 2), (1, 2)} \<and>
     map ts_cubSendInfo (OptimizeSyncRelations [] edge_infos) = [[], [(2, CUB_TO_VEC)], []]"
proof -
  have three: "(\<forall>i<3. P i) \<longleftrightarrow> P 0 \<and> P 1 \<and> P (2::nat)" for P by (auto simp: numeral_3_eq_3 less_Suc_eq numeral_2_eq_2)
  have idx: "i < length edge_infos \<longleftrightarrow> i = 0 \<or> i = 1 \<or> i = 2" for i by (auto simp: edge_infos_def)
  have none: "keys (send_of False (edge_infos ! i)) = {}" if "i < length edge_infos" for i
    using that unfolding idx by (elim disjE) (simp_all add: edge_infos_def send_of_def keys_def new_sync_info_def)
  have "edges True edge_infos = {(0, 2), (1, 2)}"
    unfolding edges_def idx by (auto simp: edge_infos_def send_of_def keys_def new_sync_info_def)
  moreover have "edges False edge_infos = {}" unfolding edges_def using none by blast
  ultimately have e: "edges True edge_infos = {(0, 2), (1, 2)}" "edges False edge_infos = {}" by blast+
  have l: "length edge_infos = 3" by (simp add: edge_infos_def)
  have "sync_ok edge_infos" unfolding sync_ok_def l three all_bool_eq e
    by (auto simp: edge_infos_def map_ok_def send_of_def recv_of_def keys_def dir_of_def new_sync_info_def)
  then have "ordered (edges True (OptimizeSyncRelations [] edge_infos)) = ordered {(0, 2), (1, 2)}"
    using OptimizeSyncRelations_order[of edge_infos "[]" True] e(1) by simp
  moreover have "map ts_cubSendInfo (OptimizeSyncRelations [] edge_infos) = [[], [(2, CUB_TO_VEC)], []]" by code_simp
  ultimately show ?thesis by blast
qed

end
