(* ===== verification/Sk_Options.thy ===== *)
theory Sk_Options
  imports Prelude
begin

text \<open>
  Matching kernel names against the patterns of the options (\<^verbatim>\<open>sk_options_manager.cpp\<close>): the table the code
  fills row by row, and what a pattern means.
\<close>

section \<open>The code\<close>

definition isspace :: "char \<Rightarrow> bool" where
  "isspace c \<longleftrightarrow> (let k = of_char c :: nat in k = 32 \<or> 9 \<le> k \<and> k \<le> 13)"

definition isalnum :: "char \<Rightarrow> bool" where
  "isalnum c \<longleftrightarrow> (let k = of_char c :: nat in 48 \<le> k \<and> k \<le> 57 \<or> 65 \<le> k \<and> k \<le> 90 \<or> 97 \<le> k \<and> k \<le> 122)"

definition TrimString :: "string \<Rightarrow> string" where
  "TrimString s = rev (dropWhile isspace (rev (dropWhile isspace s)))"

definition IsValidRegexPattern :: "string \<Rightarrow> bool" where
  "IsValidRegexPattern p \<longleftrightarrow> p \<noteq> [] \<and> (\<forall>c\<in>set p. isalnum c \<or> c = CHR ''_'' \<or> c = CHR ''-'' \<or> c = CHR ''.'' \<or> c = CHR ''*'')"

definition char_matches :: "string \<Rightarrow> string \<Rightarrow> nat \<Rightarrow> nat \<Rightarrow> bool" where
  "char_matches s p i j \<longleftrightarrow> i \<noteq> 0 \<and> j \<noteq> 0 \<and> (p ! (j - 1) = CHR ''.'' \<or> s ! (i - 1) = p ! (j - 1))"

text \<open>One field from the row before and the part of the row that is filled.\<close>

definition match_field :: "string \<Rightarrow> string \<Rightarrow> nat \<Rightarrow> bool list \<Rightarrow> bool list \<Rightarrow> nat \<Rightarrow> bool" where
  "match_field s p i prev cur j =
    (if p ! (j - 1) = CHR ''*'' then 2 \<le> j \<and> (cur ! (j - 2) \<or> char_matches s p i (j - 1) \<and> prev ! j)
     else char_matches s p i j \<and> prev ! (j - 1))"

definition match_row :: "string \<Rightarrow> string \<Rightarrow> nat \<Rightarrow> bool list \<Rightarrow> bool list" where
  "match_row s p i prev = foldl (\<lambda>cur j. cur @ [match_field s p i prev cur j]) [i = 0] [1..<Suc (length p)]"

definition match_table :: "string \<Rightarrow> string \<Rightarrow> bool list" where
  "match_table s p = foldl (\<lambda>prev i. match_row s p i prev) [] [0..<Suc (length s)]"

definition MatchRegex :: "string \<Rightarrow> string \<Rightarrow> bool" where
  "MatchRegex pattern opName = (let p = TrimString pattern in
     if p = [] then False else if \<not> IsValidRegexPattern p then False else if p ! 0 = CHR ''*'' then False
     else match_table opName p ! length p)"

definition MatchKernelNameInList :: "string list \<Rightarrow> string \<Rightarrow> bool" where
  "MatchKernelNameInList kernelList kernelName \<longleftrightarrow> (\<exists>p\<in>set kernelList. MatchRegex p kernelName)"

definition JudgeUbufLockIgnoreKernel :: "string list \<Rightarrow> string \<Rightarrow> bool" where
  "JudgeUbufLockIgnoreKernel ignoredKernels opName \<longleftrightarrow> (\<exists>p\<in>set ignoredKernels. MatchRegex p opName)"

section \<open>What a pattern means\<close>

text \<open>A dot stands for every character; a star repeats what stands before it. A pattern is read from its end.\<close>

definition fits :: "char \<Rightarrow> char \<Rightarrow> bool" where
  "fits c x \<longleftrightarrow> c = CHR ''.'' \<or> x = c"

inductive pattern_of :: "string \<Rightarrow> string \<Rightarrow> bool" where
  empty: "pattern_of [] []"
| one: "c \<noteq> CHR ''*'' \<Longrightarrow> pattern_of p s \<Longrightarrow> fits c x \<Longrightarrow> pattern_of (p @ [c]) (s @ [x])"
| many: "pattern_of p s \<Longrightarrow> \<forall>x\<in>set xs. fits c x \<Longrightarrow> pattern_of (p @ [c, CHR ''*'']) (s @ xs)"

lemma pattern_Nil [simp]: "pattern_of [] s \<longleftrightarrow> s = []"
proof
  assume "pattern_of [] s"
  then show "s = []" by (cases rule: pattern_of.cases) auto
qed (simp add: pattern_of.empty)

lemma pattern_one:
  assumes "c \<noteq> CHR ''*''"
  shows "pattern_of (p @ [c]) s \<longleftrightarrow> (\<exists>t x. s = t @ [x] \<and> fits c x \<and> pattern_of p t)"
proof
  assume "pattern_of (p @ [c]) s"
  then show "\<exists>t x. s = t @ [x] \<and> fits c x \<and> pattern_of p t"
    by (cases rule: pattern_of.cases) (use assms in auto)
qed (auto intro: pattern_of.one[OF assms])

lemma pattern_star: "\<not> pattern_of [CHR ''*''] s"
proof
  assume "pattern_of [CHR ''*''] s"
  then show False by (cases rule: pattern_of.cases) auto
qed

lemma pattern_many_split:
  "pattern_of (p @ [c, CHR ''*'']) s \<longleftrightarrow> (\<exists>t xs. s = t @ xs \<and> pattern_of p t \<and> (\<forall>x\<in>set xs. fits c x))"
proof
  assume "pattern_of (p @ [c, CHR ''*'']) s"
  then show "\<exists>t xs. s = t @ xs \<and> pattern_of p t \<and> (\<forall>x\<in>set xs. fits c x)"
  proof (cases rule: pattern_of.cases)
    case (one c' p' s' x)
    then have "last (p @ [c, CHR ''*'']) = c'" by (metis last_snoc)
    then show ?thesis using one(3) by simp
  next
    case (many p' s' xs c')
    then show ?thesis by auto
  qed simp
qed (auto intro: pattern_of.many)

lemma pattern_many:
  "pattern_of (p @ [c, CHR ''*'']) s \<longleftrightarrow>
     pattern_of p s \<or> (\<exists>t x. s = t @ [x] \<and> fits c x \<and> pattern_of (p @ [c, CHR ''*'']) t)"
proof
  assume "pattern_of (p @ [c, CHR ''*'']) s"
  then obtain t xs where s: "s = t @ xs" "pattern_of p t" "\<forall>x\<in>set xs. fits c x" by (auto simp: pattern_many_split)
  show "pattern_of p s \<or> (\<exists>t x. s = t @ [x] \<and> fits c x \<and> pattern_of (p @ [c, CHR ''*'']) t)"
  proof (cases xs rule: rev_cases)
    case (snoc ys y)
    then have "pattern_of (p @ [c, CHR ''*'']) (t @ ys)" using s by (auto intro: pattern_of.many)
    then show ?thesis using s snoc by auto
  qed (use s in simp)
next
  assume "pattern_of p s \<or> (\<exists>t x. s = t @ [x] \<and> fits c x \<and> pattern_of (p @ [c, CHR ''*'']) t)"
  then show "pattern_of (p @ [c, CHR ''*'']) s"
  proof
    assume "pattern_of p s"
    then show ?thesis using pattern_of.many[of p s "[]" c] by simp
  next
    assume "\<exists>t x. s = t @ [x] \<and> fits c x \<and> pattern_of (p @ [c, CHR ''*'']) t"
    then obtain t x where a: "s = t @ [x]" "fits c x" "pattern_of (p @ [c, CHR ''*'']) t" by blast
    from a(3) obtain u xs where "t = u @ xs" "pattern_of p u" "\<forall>x\<in>set xs. fits c x" by (auto simp: pattern_many_split)
    then show ?thesis using a pattern_of.many[of p u "xs @ [x]" c] by auto
  qed
qed

section \<open>The table\<close>

lemma foldl_row:
  assumes "j \<le> length p"
  shows "length (foldl (\<lambda>cur j. cur @ [match_field s p i prev cur j]) [i = 0] [1..<Suc j]) = Suc j"
  using assms by (induction j) auto

text \<open>The row of the first \<open>i\<close> characters says which beginnings of the pattern match them.\<close>

definition row_ok :: "string \<Rightarrow> string \<Rightarrow> nat \<Rightarrow> bool list \<Rightarrow> bool" where
  "row_ok s p i row \<longleftrightarrow> length row = Suc (length p) \<and> (\<forall>j\<le>length p. row ! j = pattern_of (take j p) (take i s))"

lemma take_back: "0 < i \<Longrightarrow> i \<le> length s \<Longrightarrow> take i s = take (i - 1) s @ [s ! (i - 1)]"
  using take_Suc_conv_app_nth[of "i - 1" s] by (cases i) auto

lemma match_field_ok:
  assumes i: "i \<le> length s" and j: "0 < j" "j \<le> length p"
    and prev: "0 < i \<Longrightarrow> row_ok s p (i - 1) prev"
    and cur: "\<And>k. k < j \<Longrightarrow> cur ! k = pattern_of (take k p) (take i s)"
  shows "match_field s p i prev cur j = pattern_of (take j p) (take i s)"
proof (cases "p ! (j - 1) = CHR ''*''")
  case star: True
  show ?thesis
  proof (cases "2 \<le> j")
    case True
    let ?c = "p ! (j - 2)"
    have tj: "take j p = take (j - 2) p @ [?c, CHR ''*'']"
      using take_back[OF j(1,2)] take_back[of "j - 1" p] True j star by (simp add: numeral_2_eq_2)
    have m: "char_matches s p i (j - 1) \<longleftrightarrow> 0 < i \<and> fits ?c (s ! (i - 1))"
      using True by (auto simp: char_matches_def fits_def numeral_2_eq_2)
    have "prev ! j = pattern_of (take j p) (take (i - 1) s)" if "0 < i" using prev[OF that] j by (simp add: row_ok_def)
    moreover have "cur ! (j - 2) = pattern_of (take (j - 2) p) (take i s)" using cur j(1) True by simp
    ultimately have l: "match_field s p i prev cur j \<longleftrightarrow> pattern_of (take (j - 2) p) (take i s) \<or>
        (0 < i \<and> fits ?c (s ! (i - 1)) \<and> pattern_of (take j p) (take (i - 1) s))"
      unfolding match_field_def m using True star by auto
    show ?thesis
    proof (cases "0 < i")
      case True
      have "pattern_of (take j p) (take i s) \<longleftrightarrow> pattern_of (take (j - 2) p) (take i s) \<or>
          fits ?c (s ! (i - 1)) \<and> pattern_of (take j p) (take (i - 1) s)"
        unfolding tj by (subst pattern_many) (simp add: take_back[OF True i])
      then show ?thesis using l True by simp
    next
      case False
      have "pattern_of (take j p) (take i s) \<longleftrightarrow> pattern_of (take (j - 2) p) (take i s)"
        unfolding tj by (subst pattern_many) (use False in simp)
      then show ?thesis using l False by simp
    qed
  next
    case False
    then have "take j p = [CHR ''*'']" using take_back[OF j] star j(1) by simp
    then show ?thesis unfolding match_field_def using star False pattern_star by simp
  qed
next
  case False
  have tj: "take j p = take (j - 1) p @ [p ! (j - 1)]" by (rule take_back[OF j])
  have m: "char_matches s p i j \<longleftrightarrow> 0 < i \<and> fits (p ! (j - 1)) (s ! (i - 1))" using j(1) by (auto simp: char_matches_def fits_def)
  have pv: "prev ! (j - 1) = pattern_of (take (j - 1) p) (take (i - 1) s)" if "0 < i" using prev[OF that] j by (simp add: row_ok_def)
  show ?thesis
  proof (cases "0 < i")
    case True
    then show ?thesis unfolding match_field_def tj pattern_one[OF False] take_back[OF True i] using pv[OF True] m False by simp
  next
    case no: False
    then show ?thesis unfolding match_field_def tj pattern_one[OF False] using m False by simp
  qed
qed

lemma match_row_ok:
  assumes i: "i \<le> length s" and prev: "0 < i \<Longrightarrow> row_ok s p (i - 1) prev"
  shows "row_ok s p i (match_row s p i prev)"
proof -
  let ?r = "\<lambda>n. foldl (\<lambda>cur j. cur @ [match_field s p i prev cur j]) [i = 0] [1..<Suc n]"
  have "\<forall>j\<le>n. ?r n ! j = pattern_of (take j p) (take i s)" if "n \<le> length p" for n
    using that
  proof (induction n)
    case 0
    then show ?case using i by auto
  next
    case (Suc n)
    have len: "length (?r n) = Suc n" by (rule foldl_row) (use Suc.prems in simp)
    have old: "?r n ! j = pattern_of (take j p) (take i s)" if "j < Suc n" for j using Suc that by simp
    have "match_field s p i prev (?r n) (Suc n) = pattern_of (take (Suc n) p) (take i s)"
      by (rule match_field_ok[OF i _ _ prev old]) (use Suc.prems in auto)
    moreover have "?r (Suc n) = ?r n @ [match_field s p i prev (?r n) (Suc n)]" by simp
    ultimately have "?r (Suc n) ! j = pattern_of (take j p) (take i s)" if "j \<le> Suc n" for j
      using len old[of j] that by (cases "j = Suc n") (simp_all add: nth_append del: upt_Suc)
    then show ?case by blast
  qed
  moreover have "length (?r (length p)) = Suc (length p)" by (rule foldl_row) simp
  ultimately show ?thesis unfolding row_ok_def match_row_def by blast
qed

lemma match_table_ok: "row_ok s p (length s) (match_table s p)"
proof -
  have "row_ok s p i (foldl (\<lambda>prev i. match_row s p i prev) [] [0..<Suc i])" if "i \<le> length s" for i
    using that
  proof (induction i)
    case (Suc i)
    then show ?case using match_row_ok[OF Suc.prems, of p] by simp
  qed (simp add: match_row_ok)
  then show ?thesis by (simp add: match_table_def)
qed

text \<open>
  C40 \<^bold>\<open>The table decides the meaning of a pattern.\<close> A name matches a pattern exactly when the pattern, without
  the spaces around it, consists of the allowed characters, does not begin with a star, and
  describes the name: character by character, a dot for any character, a star for any number of repetitions of what is
  before it.
\<close>

theorem MatchRegex_iff:
  "MatchRegex pattern opName \<longleftrightarrow> IsValidRegexPattern (TrimString pattern) \<and> hd (TrimString pattern) \<noteq> CHR ''*'' \<and>
     pattern_of (TrimString pattern) opName"
  using match_table_ok[of opName "TrimString pattern"]
  by (auto simp: MatchRegex_def Let_def row_ok_def IsValidRegexPattern_def hd_conv_nth)

end
