(* ===== verification/Sk_Queue.thy ===== *)
theory Sk_Queue
  imports Sk_Sync Sk_Options Sk_Scope_Launch
begin

text \<open>
  The second half of the task builder (\<^verbatim>\<open>sk_task_builder.cpp\<close>): the entries of the two queues. A run is a fault,
  \<open>Inr None\<close> where the code reports an error and returns, or the value. The diagnostic records of the
  functions, logging and the printed queues are left out.
\<close>

section \<open>Runs that may report an error\<close>

definition bindO :: "'a option run \<Rightarrow> ('a \<Rightarrow> 'b option run) \<Rightarrow> 'b option run" where
  "bindO m f = bindR m (\<lambda>r. case r of None \<Rightarrow> Inr None | Some x \<Rightarrow> f x)"

lemma bindO_simps [simp]: "bindO (Inl e) f = Inl e" "bindO (Inr None) f = Inr None" "bindO (Inr (Some x)) f = f x"
  by (simp_all add: bindO_def)

lemma bindO_SomeE [elim!]:
  assumes "bindO m f = Inr (Some y)"
  obtains x where "m = Inr (Some x)" and "f x = Inr (Some y)"
  using assms by (auto simp: bindO_def split: option.splits)

lemma bindO_cong [fundef_cong]: "m = n \<Longrightarrow> (\<And>x. n = Inr (Some x) \<Longrightarrow> f x = g x) \<Longrightarrow> bindO m f = bindO n g"
  by (auto simp: bindO_def bindR_def split: sum.split option.split)

fun foldO :: "('a \<Rightarrow> 's \<Rightarrow> 's option run) \<Rightarrow> 'a list \<Rightarrow> 's \<Rightarrow> 's option run" where
  "foldO f [] s = Inr (Some s)"
| "foldO f (x # xs) s = bindO (f x s) (foldO f xs)"

section \<open>Entries and queues\<close>

datatype sk_task_type = TYPE_FUNC | TYPE_SYNC | TYPE_PRELOAD | TYPE_EVENT_NOTIFY | TYPE_EVENT_WAIT | TYPE_EVENT_RESET

definition TYPE_MAX :: nat where "TYPE_MAX = 6"

datatype sk_core_sync_type = ALL_SYNC | CROSS_SYNC_AIC_TO_AIC | CROSS_SYNC_AIV_TO_AIV | INTER_SYNC_SET_AIC_TO_AIV
  | INTER_SYNC_SET_AIV_TO_AIC | INTER_SYNC_WAIT_AIC_TO_AIV | INTER_SYNC_WAIT_AIV_TO_AIC | SYNC_NONE

text \<open>The numbers of the enumerators, as they are stored in the arguments of an entry.\<close>

definition sync_types :: "sk_core_sync_type list" where
  "sync_types = [ALL_SYNC, CROSS_SYNC_AIC_TO_AIC, CROSS_SYNC_AIV_TO_AIV, INTER_SYNC_SET_AIC_TO_AIV,
     INTER_SYNC_SET_AIV_TO_AIC, INTER_SYNC_WAIT_AIC_TO_AIV, INTER_SYNC_WAIT_AIV_TO_AIC, SYNC_NONE]"

fun sync_code :: "sk_core_sync_type \<Rightarrow> u64" where
  "sync_code ALL_SYNC = 0" | "sync_code CROSS_SYNC_AIC_TO_AIC = 1" | "sync_code CROSS_SYNC_AIV_TO_AIV = 2"
| "sync_code INTER_SYNC_SET_AIC_TO_AIV = 3" | "sync_code INTER_SYNC_SET_AIV_TO_AIC = 4"
| "sync_code INTER_SYNC_WAIT_AIC_TO_AIV = 5" | "sync_code INTER_SYNC_WAIT_AIV_TO_AIC = 6" | "sync_code SYNC_NONE = 7"

text \<open>The memory of a queue is zeroed; a kernel type of zero is none of the enumerators.\<close>

record task_info =
  ti_index :: u32
  ti_type :: sk_task_type
  ti_relatedType :: "sk_kernel_type option"
  ti_numBlocks :: "8 word"
  ti_entryCnt :: "8 word"
  ti_entry :: "u64 list"
  ti_debugOptions :: u64
  ti_extraInfo :: u64
  ti_args :: u64
  ti_argsSize :: u32
  ti_isSimtKernel :: bool

definition zero_task_info :: task_info where
  "zero_task_info = \<lparr> ti_index = 0, ti_type = TYPE_FUNC, ti_relatedType = None, ti_numBlocks = 0, ti_entryCnt = 0,
     ti_entry = replicate 4 0, ti_debugOptions = 0, ti_extraInfo = 0, ti_args = 0, ti_argsSize = 0, ti_isSimtKernel = False \<rparr>"

definition SetEventTaskArgs :: "u64 \<Rightarrow> u64 \<Rightarrow> u32 \<Rightarrow> task_info \<Rightarrow> task_info" where
  "SetEventTaskArgs addr value flag ti =
     ti\<lparr> ti_args := addr, ti_entry := (ti_entry ti)[0 := value], ti_extraInfo := ucast flag \<rparr>"

text \<open>The count of a queue is the length of the list; the entries behind it are zero.\<close>

record sk_task =
  st_numBlocks :: u32
  st_cap :: u32
  st_infos :: "task_info list"
  st_funcCnt :: u32
  st_nodeType :: sk_kernel_type

definition SIZEOF_TASK_INFO :: nat where "SIZEOF_TASK_INFO = 72"

definition SIZEOF_TASK_QUE :: nat where "SIZEOF_TASK_QUE = 8"

definition TaskInit :: "nat \<Rightarrow> sk_task option" where
  "TaskInit cap = (if cap > (2 ^ 64 - 1 - SIZEOF_TASK_QUE) div SIZEOF_TASK_INFO then None
     else Some \<lparr> st_numBlocks = 0, st_cap = of_nat cap, st_infos = [], st_funcCnt = 0, st_nodeType = KT_DEFAULT \<rparr>)"

definition TaskExpand :: "sk_task \<Rightarrow> sk_task option" where
  "TaskExpand t = (let ext = unat (st_cap t) * 2 in
     if ext \<le> unat (st_cap t) \<or> ext > 2 ^ 32 - 1 then None
     else if ext > (2 ^ 64 - 1 - SIZEOF_TASK_QUE) div SIZEOF_TASK_INFO then None
     else Some (t\<lparr> st_cap := of_nat ext \<rparr>))"

definition GetTaskQue :: "sk_task \<Rightarrow> sk_task option" where
  "GetTaskQue t = (case (if length (st_infos t) \<ge> unat (st_cap t) then TaskExpand t else Some t) of
     None \<Rightarrow> None | Some u \<Rightarrow> if length (st_infos u) < unat (st_cap u) then Some u else None)"

text \<open>Both queues, cube first.\<close>

type_synonym sk_queues = "sk_task \<times> sk_task"

definition upd_queue :: "bool \<Rightarrow> (sk_task \<Rightarrow> sk_task) \<Rightarrow> sk_queues \<Rightarrow> sk_queues" where
  "upd_queue cube f s = (if cube then (f (fst s), snd s) else (fst s, f (snd s)))"

definition queue_at :: "bool \<Rightarrow> sk_queues \<Rightarrow> sk_task" where
  "queue_at cube s = (if cube then fst s else snd s)"

text \<open>An entry behind the others, with what else changes in the task.\<close>

definition push_info :: "bool \<Rightarrow> task_info \<Rightarrow> (sk_task \<Rightarrow> sk_task) \<Rightarrow> sk_queues \<Rightarrow> sk_queues option run" where
  "push_info cube ti f s = Inr (case GetTaskQue (queue_at cube s) of None \<Rightarrow> None
     | Some t \<Rightarrow> Some (upd_queue cube (\<lambda>_. f (t\<lparr> st_infos := st_infos t @ [ti] \<rparr>)) s))"

section \<open>Options\<close>

text \<open>The options the builder reads, the runtime's answers, and the size of the arguments of a kernel's task.\<close>

record build_options =
  bo_debugSyncAll :: "u32 option"
  bo_crossCoreSyncCheck :: "u32 option"
  bo_preloadCode :: "u32 option"
  bo_splitMode :: "u32 option"
  bo_mixSplit :: "u32 option"
  bo_earlyStart :: "u32 option"
  bo_perOpMaxCore :: "u32 option"
  bo_setDynUbuf :: "u32 option"
  bo_opExecTrace :: "u32 option"
  bo_disableDcci :: "string list option"
  bo_dcciBeforeStart :: "string list option"
  bo_dcciAfterEnd :: "string list option"
  bo_profilingEnv :: "string option"
  bo_argsSize :: "node_id \<Rightarrow> u64"
  bo_deviceCores :: "int \<times> int"
  bo_arch :: sk_kernel_arch
  bo_entryFunc :: "string \<Rightarrow> u64"

definition option_is :: "u32 option \<Rightarrow> u32 \<Rightarrow> bool" where
  "option_is p v \<longleftrightarrow> p = Some v"

text \<open>\<open>EnableDebug\<close> of the options manager.\<close>

definition EnableDebug :: "build_options \<Rightarrow> bool" where
  "EnableDebug opts \<longleftrightarrow> option_is (bo_debugSyncAll opts) 1"

section \<open>Single entries\<close>

definition AddSyncTask :: "build_options \<Rightarrow> bool \<Rightarrow> nat \<Rightarrow> sk_core_sync_type \<Rightarrow> u32 \<Rightarrow> u32 \<Rightarrow> sk_kernel_type \<Rightarrow>
    sk_queues \<Rightarrow> sk_queues option run" where
  "AddSyncTask opts cube idx sync earlyStartConfig skipCoreCount relatedType =
     (let debugSyncAll = (case bo_debugSyncAll opts of None \<Rightarrow> 0 | Some v \<Rightarrow> v) in
      push_info cube (zero_task_info\<lparr> ti_index := of_nat idx, ti_type := TYPE_SYNC, ti_args := sync_code sync,
        ti_numBlocks := ucast skipCoreCount, ti_extraInfo := ucast (ucast earlyStartConfig :: 8 word),
        ti_relatedType := Some relatedType,
        ti_debugOptions := (if EnableDebug opts \<and> debugSyncAll = 1 then 2 else 0) \<rparr>) id)"

definition AddEventTask :: "bool \<Rightarrow> sk_node \<Rightarrow> u32 \<Rightarrow> sk_task_type \<Rightarrow> sk_queues \<Rightarrow> sk_queues option run" where
  "AddEventTask cube n idx taskType = (let sy = nd_syncInfos n;
     value = (if sy_memoryValue sy = UINT64_MAX then (case taskType of TYPE_EVENT_NOTIFY \<Rightarrow> 1 | TYPE_EVENT_WAIT \<Rightarrow> 1
                | TYPE_EVENT_RESET \<Rightarrow> 0 | _ \<Rightarrow> 0) else sy_memoryValue sy);
     flag = (if taskType \<noteq> TYPE_EVENT_WAIT \<or> sy_memoryWaitFlag sy = UINT32_MAX
             then if taskType = TYPE_EVENT_WAIT then 1 else 0 else sy_memoryWaitFlag sy)
    in push_info cube (SetEventTaskArgs (sy_addrValue sy) value flag
         (zero_task_info\<lparr> ti_index := idx, ti_type := taskType \<rparr>)) id)"

section \<open>Functions\<close>

definition MatchKernelOption :: "string list \<Rightarrow> string \<Rightarrow> bool" where
  "MatchKernelOption kernelList funcName \<longleftrightarrow> kernelList \<noteq> [] \<and> funcName \<noteq> [] \<and> MatchKernelNameInList kernelList funcName"

definition list_option :: "string list option \<Rightarrow> string list" where
  "list_option p = (case p of None \<Rightarrow> [] | Some l \<Rightarrow> l)"

definition bit_if :: "bool \<Rightarrow> u64 \<Rightarrow> u64 \<Rightarrow> u64" where
  "bit_if b m v = (if b then or v m else v)"

definition BuildFuncTaskDebugOptions :: "build_options \<Rightarrow> kernel_infos \<Rightarrow> u64" where
  "BuildFuncTaskDebugOptions opts ki = (let name = ki_funcName ki;
     disableDcciByCap = cb_disableDcci (ki_capBits ki);
     disableDcciByOption = MatchKernelOption (list_option (bo_disableDcci opts)) name;
     before = MatchKernelOption (list_option (bo_dcciBeforeStart opts)) name;
     after0 = MatchKernelOption (list_option (bo_dcciAfterEnd opts)) name;
     after = (after0 \<or> \<not> disableDcciByCap \<and> disableDcciByOption \<and> \<not> before \<and> \<not> after0);
     syncCheck = (case bo_crossCoreSyncCheck opts of None \<Rightarrow> 0 | Some v \<Rightarrow> v);
     d = bit_if (syncCheck = 1) 16 (bit_if after 8 (bit_if before 4 (bit_if (disableDcciByCap \<or> disableDcciByOption) 1 0)))
    in bit_if (and d 8 \<noteq> 0 \<or> and d 1 = 0) 32 d)"

text \<open>The counts are converted to \<open>int\<close>, and from there to 64 bits when they are stored.\<close>

definition GetPreFetchCnt :: "build_options \<Rightarrow> resolved_function_info \<Rightarrow> 32 word \<times> 32 word" where
  "GetPreFetchCnt opts r = (let v = (case bo_preloadCode opts of None \<Rightarrow> 1 | Some v \<Rightarrow> v) in
     if v = 0 then (16, 8) else if v = 2 then (0, 0)
     else (ucast (fst (rf_prefetchCnt r)), ucast (snd (rf_prefetchCnt r))))"

definition sel :: "bool \<Rightarrow> 'a \<times> 'a \<Rightarrow> 'a" where
  "sel cube p = (if cube then fst p else snd p)"

text \<open>One turn of the loop over the resolved functions.\<close>

definition add_func_entry :: "build_options \<Rightarrow> sk_node \<Rightarrow> bool \<Rightarrow> bool \<Rightarrow> nat \<Rightarrow> task_info \<Rightarrow> task_info option run" where
  "add_func_entry opts n cube preload i ti = bindR (atR (ki_resolvedFuncs (nd_kernelInfos n)) i) (\<lambda>r.
     let ti1 = (if preload then ti\<lparr> ti_args := scast (sel cube (GetPreFetchCnt opts r)),
                  ti_argsSize := ucast (bo_argsSize opts (nd_nodeId n)), ti_extraInfo := ki_devArgs (nd_kernelInfos n) \<rparr>
                else ti);
         addr = sel cube (rf_funcAddr r)
      in Inr (if addr = 0 then None
           else Some (ti1\<lparr> ti_entryCnt := ti_entryCnt ti1 + 1, ti_entry := (ti_entry ti1)[i := addr] \<rparr>)))"

text \<open>\<open>binCount\<close> is an \<open>int\<close>; the entry is an error for a node that is no kernel.\<close>

definition AddFuncTask :: "build_options \<Rightarrow> task_sync_info list \<Rightarrow> bool \<Rightarrow> sk_node \<Rightarrow> nat \<Rightarrow> int \<Rightarrow> sk_task_type \<Rightarrow> u32 \<Rightarrow>
    sk_queues \<Rightarrow> sk_queues option run" where
  "AddFuncTask opts infos cube n idx binCount taskType numBlocks s =
    (if GetTaskQue (queue_at cube s) = None then Inr None
     else if nd_nodeType n \<noteq> NODE_KERNEL then Inr None
     else let ki = nd_kernelInfos n;
        ti = zero_task_info\<lparr> ti_index := of_nat idx, ti_type := taskType, ti_relatedType := Some (ki_kernelType ki),
               ti_isSimtKernel := (taskType = TYPE_FUNC \<and> ki_isSimtOp ki), ti_numBlocks := ucast numBlocks \<rparr>
      in bindO (foldO (add_func_entry opts n cube (taskType = TYPE_PRELOAD)) [0..<nat binCount] ti) (\<lambda>ti1.
         if taskType = TYPE_FUNC
         then push_info cube (ti1\<lparr> ti_args := ki_devArgs ki,
                ti_extraInfo := (if idx < length infos then ucast (es_funcConfig (ts_earlyStartInfo (infos ! idx))) else 0),
                ti_argsSize := ucast (bo_argsSize opts (nd_nodeId n)),
                ti_debugOptions := or (ti_debugOptions ti1) (BuildFuncTaskDebugOptions opts ki) \<rparr>)
              (\<lambda>t. t\<lparr> st_numBlocks := max (st_numBlocks t) (ucast (ti_numBlocks ti1)), st_funcCnt := st_funcCnt t + 1 \<rparr>) s
         else push_info cube ti1 id s))"

definition DispatchFuncTask :: "build_options \<Rightarrow> task_sync_info list \<Rightarrow> sk_node \<Rightarrow> nat \<Rightarrow> int \<Rightarrow> sk_task_type \<Rightarrow> sk_queue_type \<Rightarrow>
    sk_queues \<Rightarrow> sk_queues option run" where
  "DispatchFuncTask opts infos n idx binCount taskType q s =
    (if nd_nodeType n \<noteq> NODE_KERNEL then Inr None
     else let blocks = ki_numBlocks (nd_kernelInfos n); add = (\<lambda>cube b. AddFuncTask opts infos cube n idx binCount taskType b)
      in case q of AIV \<Rightarrow> add False blocks s
       | AIC \<Rightarrow> add True blocks s
       | MIX_1_1 \<Rightarrow> bindO (add True blocks s) (add False blocks)
       | MIX_1_2 \<Rightarrow> bindO (bindO (add True blocks s) (add False (blocks * 2))) (\<lambda>(c, v).
           Inr (Some (c\<lparr> st_nodeType := MIX_AIC_1_2 \<rparr>, v\<lparr> st_nodeType := MIX_AIC_1_2 \<rparr>)))
       | QT_UNKNOWN \<Rightarrow> Inr None)"

definition DispatchEventTask :: "sk_node \<Rightarrow> u32 \<Rightarrow> sk_task_type \<Rightarrow> sk_queue_type \<Rightarrow> sk_queues \<Rightarrow> sk_queues option run" where
  "DispatchEventTask n idx taskType q s =
    (if nd_nodeType n \<noteq> NODE_NOTIFY \<and> nd_nodeType n \<noteq> NODE_WAIT \<and> nd_nodeType n \<noteq> NODE_RESET then Inr None
     else AddEventTask (q = AIC) n idx taskType s)"

section \<open>Synchronisation\<close>

definition GetSyncTypesForDirection :: "sync_direction \<Rightarrow> bool \<Rightarrow> sk_core_sync_type" where
  "GetSyncTypesForDirection dir isSend = (case dir of
     CUB_TO_VEC \<Rightarrow> if isSend then INTER_SYNC_SET_AIC_TO_AIV else INTER_SYNC_WAIT_AIC_TO_AIV
   | VEC_TO_CUB \<Rightarrow> if isSend then INTER_SYNC_SET_AIV_TO_AIC else INTER_SYNC_WAIT_AIV_TO_AIC
   | CUB_TO_CUB \<Rightarrow> CROSS_SYNC_AIC_TO_AIC | VEC_TO_VEC \<Rightarrow> CROSS_SYNC_AIV_TO_AIV
   | DIR_ALL_SYNC \<Rightarrow> ALL_SYNC | _ \<Rightarrow> SYNC_NONE)"

text \<open>The queues an entry is put into, the cube queue first; none for a type the dispatch rejects.\<close>

definition sync_targets :: "sk_core_sync_type \<Rightarrow> bool list option" where
  "sync_targets t = (case t of CROSS_SYNC_AIC_TO_AIC \<Rightarrow> Some [True] | CROSS_SYNC_AIV_TO_AIV \<Rightarrow> Some [False]
   | INTER_SYNC_SET_AIV_TO_AIC \<Rightarrow> Some [False] | INTER_SYNC_WAIT_AIV_TO_AIC \<Rightarrow> Some [True]
   | INTER_SYNC_SET_AIC_TO_AIV \<Rightarrow> Some [True] | INTER_SYNC_WAIT_AIC_TO_AIV \<Rightarrow> Some [False]
   | ALL_SYNC \<Rightarrow> Some [True, False] | SYNC_NONE \<Rightarrow> None)"

text \<open>The key of a pair indexes the list of the tasks, although that of a cross sync is a queue type.\<close>

definition dispatch_sync :: "build_options \<Rightarrow> task_sync_info list \<Rightarrow> nat \<Rightarrow> bool \<Rightarrow> nat \<times> sync_direction \<Rightarrow>
    sk_queues \<Rightarrow> sk_queues option run" where
  "dispatch_sync opts infos idx isSend p s = bindR (atR infos (fst p)) (\<lambda>peer.
     let t = GetSyncTypesForDirection (snd p) isSend in
     case sync_targets t of None \<Rightarrow> Inr None
     | Some qs \<Rightarrow> foldO (\<lambda>cube. AddSyncTask opts cube idx t 0 0 KT_DEFAULT) qs s)"

definition DispatchSyncTasks :: "build_options \<Rightarrow> task_sync_info list \<Rightarrow> nat \<Rightarrow> bool \<Rightarrow> sync_map \<Rightarrow> sk_queues \<Rightarrow> sk_queues option run" where
  "DispatchSyncTasks opts infos idx isSend m s = foldO (dispatch_sync opts infos idx isSend) m s"

section \<open>Early start\<close>

definition ES_AIC_TO_AIC_SET :: u32 where "ES_AIC_TO_AIC_SET = 1"
definition ES_AIC_TO_AIC_WAIT :: u32 where "ES_AIC_TO_AIC_WAIT = 2"
definition ES_AIC_TO_AIV_SET :: u32 where "ES_AIC_TO_AIV_SET = 4"
definition ES_AIV_TO_AIC_WAIT :: u32 where "ES_AIV_TO_AIC_WAIT = 8"
definition ES_AIV_TO_AIV_SET :: u32 where "ES_AIV_TO_AIV_SET = 16"
definition ES_AIV_TO_AIV_WAIT :: u32 where "ES_AIV_TO_AIV_WAIT = 32"
definition ES_AIV_TO_AIC_SET :: u32 where "ES_AIV_TO_AIC_SET = 64"
definition ES_AIC_TO_AIV_WAIT :: u32 where "ES_AIC_TO_AIV_WAIT = 128"
definition ES_SPLIT_CORE_CTRL :: u32 where "ES_SPLIT_CORE_CTRL = 32768"

definition ApplyFuncMask :: "u32 \<Rightarrow> early_start_info \<Rightarrow> early_start_info" where
  "ApplyFuncMask m e = e\<lparr> es_funcConfig := or (es_funcConfig e) m \<rparr>"

definition ApplySyncMask :: "u32 \<Rightarrow> early_start_info \<Rightarrow> early_start_info" where
  "ApplySyncMask m e = e\<lparr> es_syncConfig := or (es_syncConfig e) m \<rparr>"

definition CheckSyncMask :: "u32 \<Rightarrow> early_start_info \<Rightarrow> bool" where
  "CheckSyncMask m e \<longleftrightarrow> and (es_syncConfig e) m \<noteq> 0"

definition GetKernelNumBlocks :: "sk_node option \<Rightarrow> u32" where
  "GetKernelNumBlocks p = (case p of None \<Rightarrow> 0 | Some n \<Rightarrow> if nd_nodeType n = NODE_KERNEL then ki_numBlocks (nd_kernelInfos n) else 0)"

definition RelatedKernelType :: "sk_node option \<Rightarrow> sk_kernel_type" where
  "RelatedKernelType p = (case p of None \<Rightarrow> KT_DEFAULT
     | Some n \<Rightarrow> if nd_nodeType n = NODE_KERNEL then ki_kernelType (nd_kernelInfos n) else KT_DEFAULT)"

definition maskToSyncType :: "u32 \<Rightarrow> sk_core_sync_type option" where
  "maskToSyncType = map_of [(ES_AIC_TO_AIC_SET, CROSS_SYNC_AIC_TO_AIC), (ES_AIC_TO_AIC_WAIT, CROSS_SYNC_AIC_TO_AIC),
     (ES_AIV_TO_AIV_SET, CROSS_SYNC_AIV_TO_AIV), (ES_AIV_TO_AIV_WAIT, CROSS_SYNC_AIV_TO_AIV),
     (ES_AIC_TO_AIV_SET, INTER_SYNC_SET_AIC_TO_AIV), (ES_AIC_TO_AIV_WAIT, INTER_SYNC_WAIT_AIC_TO_AIV),
     (ES_AIV_TO_AIC_SET, INTER_SYNC_SET_AIV_TO_AIC), (ES_AIV_TO_AIC_WAIT, INTER_SYNC_WAIT_AIV_TO_AIC)]"

definition addEarlyStartSync :: "build_options \<Rightarrow> nat \<Rightarrow> early_start_info \<Rightarrow> bool \<Rightarrow> u32 \<Rightarrow> sk_node option \<Rightarrow>
    sk_queues \<Rightarrow> sk_queues option run" where
  "addEarlyStartSync opts idx e cube m related s =
    (if \<not> CheckSyncMask m e then Inr (Some s)
     else case maskToSyncType m of None \<Rightarrow> Inr None
     | Some t \<Rightarrow> let blocks = GetKernelNumBlocks related; rt = RelatedKernelType related;
          active = (if \<not> cube \<and> rt = MIX_AIC_1_2 then blocks * 2 else blocks)
        in AddSyncTask opts cube idx t m active rt s)"

definition DispatchEarlyStart :: "build_options \<Rightarrow> nat \<Rightarrow> early_start_info \<Rightarrow> bool \<Rightarrow> sk_queues \<Rightarrow> sk_queues option run" where
  "DispatchEarlyStart opts idx e isSend s = foldO (\<lambda>(cube, m, related). addEarlyStartSync opts idx e cube m related)
    (if \<not> isSend then [(True, ES_AIV_TO_AIC_WAIT, es_relatedWaitNode e), (False, ES_AIC_TO_AIV_WAIT, es_relatedWaitNode e)]
     else [(True, ES_AIC_TO_AIC_SET, es_relatedSetNode e), (True, ES_AIC_TO_AIC_WAIT, es_nextAicRelatedNode e),
       (True, ES_AIC_TO_AIV_SET, es_nextAicRelatedNode e), (False, ES_AIV_TO_AIV_SET, es_relatedSetNode e),
       (False, ES_AIV_TO_AIV_WAIT, es_nextAivRelatedNode e), (False, ES_AIV_TO_AIC_SET, es_nextAivRelatedNode e)]) s"

text \<open>The pass that moves synchronisation into the kernels that ask for it.\<close>

definition upd_early :: "(early_start_info \<Rightarrow> early_start_info) \<Rightarrow> task_sync_info \<Rightarrow> task_sync_info" where
  "upd_early f x = x\<lparr> ts_earlyStartInfo := f (ts_earlyStartInfo x) \<rparr>"

definition ApplySplitCoreControlMask :: "build_options \<Rightarrow> sk_node \<Rightarrow> task_sync_info \<Rightarrow> task_sync_info" where
  "ApplySplitCoreControlMask opts n x =
    (if bo_arch opts \<noteq> DAV_3510 then x else if nd_nodeType n \<noteq> NODE_KERNEL then x
     else upd_early (ApplyFuncMask ES_SPLIT_CORE_CTRL) x)"

definition HasAllSyncBarrier :: "task_sync_info \<Rightarrow> bool" where
  "HasAllSyncBarrier x \<longleftrightarrow> (\<exists>p\<in>set (ts_crossSyncInfo x). snd p = DIR_ALL_SYNC)"

text \<open>The masks of a queue and its hint.\<close>

definition es_masks :: "bool \<Rightarrow> nat \<times> sync_direction \<times> u32 \<times> u32 \<times> u32 \<times> u32" where
  "es_masks isAic = (if isAic
     then (AIC_KEY, CUB_TO_CUB, ES_AIC_TO_AIC_SET, ES_AIC_TO_AIC_WAIT, ES_AIC_TO_AIV_SET, ES_AIV_TO_AIC_WAIT)
     else (AIV_KEY, VEC_TO_VEC, ES_AIV_TO_AIV_SET, ES_AIV_TO_AIV_WAIT, ES_AIV_TO_AIC_SET, ES_AIC_TO_AIV_WAIT))"

text \<open>The kernel announces its own end.\<close>

definition early_set :: "bool \<Rightarrow> sk_node \<Rightarrow> nat \<Rightarrow> task_sync_info list \<Rightarrow> task_sync_info list" where
  "early_set isAic n cur s = (let (key, dir, setM, waitM, sendM, recvM) = es_masks isAic in
     if map_of (ts_crossSyncInfo (s ! cur)) key = Some dir
     then upd_info cur (\<lambda>x. (upd_early (\<lambda>e. ApplySyncMask waitM (ApplySyncMask setM (ApplyFuncMask setM
            (e\<lparr> es_relatedSetNode := Some n \<rparr>)))) x)\<lparr> ts_crossSyncInfo := erase_sync key (ts_crossSyncInfo x) \<rparr>) s
     else s)"

text \<open>The kernel waits itself for the task before it on its queue.\<close>

definition early_wait :: "bool \<Rightarrow> sk_node \<Rightarrow> nat \<Rightarrow> nat \<Rightarrow> task_sync_info list \<Rightarrow> task_sync_info list option" where
  "early_wait isAic n lst cur s = (let (key, dir, setM, waitM, sendM, recvM) = es_masks isAic in
     if length (send_of isAic (s ! lst)) > 1 \<or> length (recv_of (\<not> isAic) (s ! cur)) > 1 then None
     else let s1 = upd_info lst (upd_early (\<lambda>e. if isAic then e\<lparr> es_nextAicRelatedNode := Some n \<rparr>
            else e\<lparr> es_nextAivRelatedNode := Some n \<rparr>)) s;
        s2 = upd_info cur (upd_early (\<lambda>e. e\<lparr> es_relatedWaitNode := Some n \<rparr>)) s1;
        s3 = (if map_of (ts_crossSyncInfo (s2 ! lst)) key = Some dir
          then upd_info lst (\<lambda>x. x\<lparr> ts_crossSyncInfo := erase_sync key (ts_crossSyncInfo x) \<rparr>)
            (upd_info cur (upd_early (ApplyFuncMask waitM))
              (upd_info lst (upd_early (\<lambda>e. ApplySyncMask waitM (ApplySyncMask setM e))) s2))
          else if CheckSyncMask setM (ts_earlyStartInfo (s2 ! lst)) then upd_info cur (upd_early (ApplyFuncMask waitM)) s2
          else s2);
        s4 = (if send_of isAic (s3 ! lst) \<noteq> []
          then upd_info lst (upd_send isAic (\<lambda>_. []))
            (upd_info cur (upd_early (ApplyFuncMask sendM)) (upd_info lst (upd_early (ApplySyncMask sendM)) s3)) else s3);
        s5 = (if recv_of (\<not> isAic) (s4 ! cur) \<noteq> []
          then upd_info cur (upd_recv (\<not> isAic) (\<lambda>_. []) \<circ> upd_early (ApplyFuncMask recvM) \<circ> upd_early (ApplySyncMask recvM)) s4
          else s4)
       in Some s5)"

definition ApplyEarlyStartSyncForQueue :: "task list \<Rightarrow> bool \<Rightarrow> nat \<Rightarrow> nat option \<times> task_sync_info list \<Rightarrow>
    (nat option \<times> task_sync_info list) option" where
  "ApplyEarlyStartSyncForQueue tasks isAic cur st = (let n = snd (tasks ! cur); cap = ki_capBits (nd_kernelInfos n) in
     if nd_nodeType n \<noteq> NODE_KERNEL then Some (Some cur, snd st)
     else let s1 = (if cb_earlyStartSetFlag cap then early_set isAic n cur (snd st) else snd st) in
        case fst st of
          Some l \<Rightarrow> if cb_earlyStartWaitFlag cap then map_option (Pair (Some cur)) (early_wait isAic n l cur s1)
                    else Some (Some cur, s1)
        | None \<Rightarrow> Some (Some cur, s1))"

definition early_task :: "build_options \<Rightarrow> task list \<Rightarrow> nat \<Rightarrow> (nat option \<times> nat option) \<times> task_sync_info list \<Rightarrow>
    ((nat option \<times> nat option) \<times> task_sync_info list) option" where
  "early_task opts tasks i st = (let ((lastAic, lastAiv), s) = st; q = ts_queueType (s ! i) in
     Option.bind (if UsesAic q then ApplyEarlyStartSyncForQueue tasks True i (lastAic, s) else Some (lastAic, s)) (\<lambda>(lastAic, s).
     Option.bind (if UsesAiv q then ApplyEarlyStartSyncForQueue tasks False i (lastAiv, s) else Some (lastAiv, s)) (\<lambda>(lastAiv, s).
       let s1 = upd_info i (ApplySplitCoreControlMask opts (snd (tasks ! i))) s in
       Some (if HasAllSyncBarrier (s1 ! i) then (Some i, Some i) else (lastAic, lastAiv), s1))))"

definition ApplyEarlyStartSyncPass :: "build_options \<Rightarrow> task list \<Rightarrow> task_sync_info list \<Rightarrow> task_sync_info list option" where
  "ApplyEarlyStartSyncPass opts tasks s = map_option snd
     (foldl (\<lambda>r i. Option.bind r (early_task opts tasks i)) (Some ((None, None), s)) [0..<length tasks])"

section \<open>The queues of a kernel\<close>

definition event_task_type :: "sk_node_type \<Rightarrow> sk_task_type option" where
  "event_task_type t = (case t of NODE_NOTIFY \<Rightarrow> Some TYPE_EVENT_NOTIFY | NODE_WAIT \<Rightarrow> Some TYPE_EVENT_WAIT
     | NODE_RESET \<Rightarrow> Some TYPE_EVENT_RESET | _ \<Rightarrow> None)"

definition preload_task :: "build_options \<Rightarrow> task list \<Rightarrow> task_sync_info list \<Rightarrow> int \<Rightarrow> nat \<Rightarrow> sk_queues \<Rightarrow> sk_queues option run" where
  "preload_task opts tasks infos binCount i s =
    (if i < length tasks \<and> is_kernel (tasks ! i)
     then DispatchFuncTask opts infos (snd (tasks ! i)) i binCount TYPE_PRELOAD (ts_queueType (infos ! i)) s
     else Inr (Some s))"

definition work_task :: "build_options \<Rightarrow> task list \<Rightarrow> task_sync_info list \<Rightarrow> int \<Rightarrow> nat \<Rightarrow> sk_queues \<Rightarrow> sk_queues option run" where
  "work_task opts tasks infos binCount i s = (let n = snd (tasks ! i); q = ts_queueType (infos ! i) in
     if nd_nodeType n = NODE_KERNEL then DispatchFuncTask opts infos n i binCount TYPE_FUNC q s
     else case event_task_type (nd_nodeType n) of None \<Rightarrow> Inr None
       | Some ty \<Rightarrow> DispatchEventTask n (of_nat i) ty q s)"

text \<open>One turn of the loop of phase 4; one kernel is preloaded ahead.\<close>

definition dispatch_task :: "build_options \<Rightarrow> bool \<Rightarrow> task list \<Rightarrow> task_sync_info list \<Rightarrow> int \<Rightarrow> nat \<Rightarrow> sk_queues \<Rightarrow>
    sk_queues option run" where
  "dispatch_task opts earlyStart tasks infos binCount i s = (let x = infos ! i in
     bindO (if earlyStart then DispatchEarlyStart opts i (ts_earlyStartInfo x) False s else Inr (Some s)) (\<lambda>s.
     bindO (DispatchSyncTasks opts infos i False (ts_vecRecvInfo x) s) (\<lambda>s.
     bindO (DispatchSyncTasks opts infos i False (ts_cubRecvInfo x) s) (\<lambda>s.
     bindO (work_task opts tasks infos binCount i s) (\<lambda>s.
     bindO (preload_task opts tasks infos binCount (i + 1) s) (\<lambda>s.
     bindO (if earlyStart then DispatchEarlyStart opts i (ts_earlyStartInfo x) True s else Inr (Some s)) (\<lambda>s.
     bindO (DispatchSyncTasks opts infos i True (ts_crossSyncInfo x) s) (\<lambda>s.
     bindO (DispatchSyncTasks opts infos i True (ts_vecSendInfo x) s) (\<lambda>s.
       DispatchSyncTasks opts infos i True (ts_cubSendInfo x) s)))))))))"

text \<open>The first kernel is preloaded before the loop.\<close>

definition dispatch_all :: "build_options \<Rightarrow> bool \<Rightarrow> task list \<Rightarrow> task_sync_info list \<Rightarrow> int \<Rightarrow> sk_queues \<Rightarrow> sk_queues option run" where
  "dispatch_all opts earlyStart tasks infos binCount s =
     bindO (preload_task opts tasks infos binCount 0 s) (foldO (dispatch_task opts earlyStart tasks infos binCount) [0..<length tasks])"

text \<open>The events that postprocessing adds; the cache of kernels is threaded through.\<close>

definition custom_task :: "sk_graph \<Rightarrow> task list \<Rightarrow> sk_node \<Rightarrow> kernel_cache \<times> sk_queues \<Rightarrow> (kernel_cache \<times> sk_queues) option run" where
  "custom_task g tasks n st = (let (aic, aiv) = CheckResourceStatus tasks;
     (k, cache) = FindKernelNodeInDirection (nd_preNodeId n) g SEARCH_PREV (fst st)
    in bindO (event_queue (aic, aiv) (InferFirstKernelEventQueueType tasks aic aiv) queue_of g k) (\<lambda>q.
       case event_task_type (nd_nodeType n) of None \<Rightarrow> Inr None
       | Some ty \<Rightarrow> bindO (DispatchEventTask n UINT32_MAX ty q (snd st)) (\<lambda>s. Inr (Some (cache, s)))))"

text \<open>The synchronisation, from the graph to the last changes before the queues are built.\<close>

definition sync_all_info :: "task_sync_info \<Rightarrow> task_sync_info" where
  "sync_all_info x = x\<lparr> ts_vecRecvInfo := [], ts_cubRecvInfo := [], ts_vecSendInfo := [], ts_cubSendInfo := [],
     ts_crossSyncInfo := [(AIC_KEY, DIR_ALL_SYNC)], ts_earlyStartInfo := no_early_start \<rparr>"

definition build_infos :: "build_options \<Rightarrow> sk_graph \<Rightarrow> task list \<Rightarrow> bool \<Rightarrow> task_sync_info list option run" where
  "build_infos opts g tasks custom =
     bindO (if option_is (bo_mixSplit opts) 1 then PrecomputeSyncRelationsByMixGroups g tasks
            else bindO (PrecomputeSyncRelationsFromGraph g tasks) (\<lambda>s. Inr (Some (OptimizeSyncRelations tasks s)))) (\<lambda>s.
     bindO (Inr (if option_is (bo_earlyStart opts) 1 then ApplyEarlyStartSyncPass opts tasks s else Some s)) (\<lambda>s.
     let s1 = (if custom then upd_info (length s - 1) (\<lambda>x. x\<lparr> ts_crossSyncInfo := put_sync AIC_KEY DIR_ALL_SYNC (ts_crossSyncInfo x) \<rparr>) s else s);
         debugSyncAll = (case bo_debugSyncAll opts of None \<Rightarrow> False | Some v \<Rightarrow> v \<noteq> 0)
      in Inr (Some (if EnableDebug opts \<and> debugSyncAll then map sync_all_info s1 else s1))))"

text \<open>\<open>Build\<close> up to the two finished queues.\<close>

definition build_queues :: "build_options \<Rightarrow> sk_graph \<Rightarrow> task list \<Rightarrow> sk_node list \<Rightarrow> sk_queues option run" where
  "build_queues opts g tasks customTasks = (if tasks = [] then Inr None
     else case (TaskInit (length tasks * TYPE_MAX), TaskInit (length tasks * TYPE_MAX)) of
       (Some c, Some v) \<Rightarrow> bindO (build_infos opts g tasks (customTasks \<noteq> [])) (\<lambda>infos.
         let binCount = (case bo_splitMode opts of None \<Rightarrow> 4 | Some b \<Rightarrow> sint b) in
         bindO (dispatch_all opts (option_is (bo_earlyStart opts) 1) tasks infos binCount (c, v)) (\<lambda>s.
         bindO (foldO (custom_task g tasks) customTasks (Map.empty, s)) (\<lambda>st. Inr (Some (snd st)))))
     | _ \<Rightarrow> Inr None)"

end
