(* ===== verification/Sk_Cores.thy ===== *)
theory Sk_Cores
  imports Prelude
begin

text \<open>
  How the cores of a fused kernel run its two queues (\<^verbatim>\<open>kernel/sk_entry.asc\<close>). A group is a cube core with its
  vector cores, which are taken as one. Every cube core executes the whole cube queue and every
  vector core the whole vector queue, in order. The calls that synchronise cores belong to the
  device library: a flag of a group is set by one side and counted, and a wait of the other side takes one; a
  synchronisation of all cores of one kind lets none of them pass before all have arrived.
\<close>

section \<open>Steps\<close>

text \<open>The number is the index of a task.\<close>

datatype core_op = Work nat | SetF | WaitF | Meet

text \<open>
  What each core has still to do, and the flags each side of a group has set; a core is the number of its group and
  its kind, \<open>True\<close> for the cube core.
\<close>

type_synonym core = "nat \<times> bool"

type_synonym cores = "(core \<Rightarrow> core_op list) \<times> (core \<Rightarrow> nat)"

inductive core_step :: "nat \<Rightarrow> cores \<Rightarrow> cores \<Rightarrow> bool" for N where
  work: "g < N \<Longrightarrow> R (g, q) = Work i # xs \<Longrightarrow> core_step N (R, fl) (R((g, q) := xs), fl)"
| set: "g < N \<Longrightarrow> R (g, q) = SetF # xs \<Longrightarrow> core_step N (R, fl) (R((g, q) := xs), fl((g, q) := Suc (fl (g, q))))"
| wait: "g < N \<Longrightarrow> R (g, q) = WaitF # xs \<Longrightarrow> fl (g, \<not> q) = Suc n \<Longrightarrow>
    core_step N (R, fl) (R((g, q) := xs), fl((g, \<not> q) := n))"
| meet: "0 < N \<Longrightarrow> \<forall>g<N. \<exists>xs. R (g, q) = Meet # xs \<Longrightarrow>
    core_step N (R, fl) (\<lambda>(g, p). if p = q \<and> g < N then tl (R (g, p)) else R (g, p), fl)"

text \<open>A program with the times at which its operations belong.\<close>

type_synonym timed = "(nat \<times> core_op) list"

definition times_of :: "core_op \<Rightarrow> timed \<Rightarrow> nat list" where
  "times_of x t = map fst (filter (\<lambda>p. snd p = x) t)"

lemma times_of_simps [simp]: "times_of x [] = []" "times_of x (p # t) = (if snd p = x then fst p # times_of x t else times_of x t)"
  "times_of x (t @ u) = times_of x t @ times_of x u"
  by (simp_all add: times_of_def)

lemma times_of_iff: "k \<in> set (times_of x t) \<longleftrightarrow> (k, x) \<in> set t"
  by (force simp: times_of_def)

definition strict :: "timed \<Rightarrow> bool" where
  "strict t \<longleftrightarrow> sorted_wrt (<) (map fst t)"

lemma strict_append: "strict (t @ u) \<longleftrightarrow> strict t \<and> strict u \<and> (\<forall>p\<in>set t. \<forall>r\<in>set u. fst p < fst r)"
  by (simp add: strict_def sorted_wrt_append)

lemma strict_one: "strict t \<Longrightarrow> (k, x) \<in> set t \<Longrightarrow> (k, y) \<in> set t \<Longrightarrow> x = y"
  unfolding strict_def strict_sorted_iff by (blast intro: eq_key_imp_eq_value)

lemma times_strict: "strict t \<Longrightarrow> sorted_wrt (<) (times_of x t)"
  by (induction t) (force simp: strict_def times_of_iff)+

text \<open>The \<open>k\<close>th flag is set before the \<open>k\<close>th wait.\<close>

definition programs :: "(bool \<Rightarrow> timed) \<Rightarrow> bool" where
  "programs T \<longleftrightarrow> (\<forall>q. strict (T q) \<and> list_all2 (<) (times_of SetF (T q)) (times_of WaitF (T (\<not> q))))"

text \<open>\<open>C\<close> is what the cores have done.\<close>

definition agrees :: "nat \<Rightarrow> (bool \<Rightarrow> timed) \<Rightarrow> (core \<Rightarrow> timed) \<Rightarrow> (core \<Rightarrow> timed) \<Rightarrow> cores \<Rightarrow> bool" where
  "agrees N T C R s \<longleftrightarrow> (\<forall>g<N. \<forall>q. T q = C (g, q) @ R (g, q) \<and> fst s (g, q) = map snd (R (g, q)) \<and>
     snd s (g, q) + length (times_of WaitF (C (g, \<not> q))) = length (times_of SetF (C (g, q))) \<and>
     length (times_of Meet (C (g, q))) = length (times_of Meet (C (0, q))))"

definition core_start :: "(bool \<Rightarrow> timed) \<Rightarrow> cores" where
  "core_start T = (\<lambda>(g, q). map snd (T q), \<lambda>_. 0)"

lemma agrees_start: "agrees N T (\<lambda>_. []) (\<lambda>(g, q). T q) (core_start T)"
  by (simp add: agrees_def core_start_def)

lemma agreesD:
  assumes "agrees N T C R s" and "g < N"
  shows "T q = C (g, q) @ R (g, q)" "fst s (g, q) = map snd (R (g, q))"
    "snd s (g, q) + length (times_of WaitF (C (g, \<not> q))) = length (times_of SetF (C (g, q)))"
    "h < N \<Longrightarrow> length (times_of Meet (C (g, q))) = length (times_of Meet (C (h, q)))"
  using assms unfolding agrees_def by (blast, blast, blast, metis)

lemma agrees_one:
  assumes s: "agrees N T C R (r, fl)" and h: "R (g, q) = (k, x) # u" and x: "x \<noteq> Meet" and g: "g < N"
    and fl: "\<And>j p. fl' (j, p) + (if j = g \<and> p \<noteq> q \<and> x = WaitF then 1 else 0) = fl (j, p) + (if j = g \<and> p = q \<and> x = SetF then 1 else 0)"
  shows "agrees N T (C((g, q) := C (g, q) @ [(k, x)])) (R((g, q) := u)) (r((g, q) := map snd u), fl')"
  unfolding agrees_def
proof (intro allI impI)
  fix j p assume j: "j < N"
  have z: "0 < N" using j by simp
  note a = agreesD(1-3)[OF s j, of p, simplified fst_conv snd_conv] note a4 = agreesD(4)[OF s j z, of p] note f = fl[of j p]
  have m: "length (times_of Meet ((C((g, q) := C (g, q) @ [(k, x)])) c)) = length (times_of Meet (C c))" for c using x by simp
  have st: "length (times_of SetF ((C((g, q) := C (g, q) @ [(k, x)])) (j, p))) = length (times_of SetF (C (j, p))) + (if j = g \<and> p = q \<and> x = SetF then 1 else 0)"
    by simp
  have wt: "length (times_of WaitF ((C((g, q) := C (g, q) @ [(k, x)])) (j, \<not> p))) = length (times_of WaitF (C (j, \<not> p))) + (if j = g \<and> p \<noteq> q \<and> x = WaitF then 1 else 0)"
    by (cases p; cases q) simp_all
  have c: "T p = (C((g, q) := C (g, q) @ [(k, x)])) (j, p) @ (R((g, q) := u)) (j, p)" using a(1) h by simp
  have r: "(r((g, q) := map snd u)) (j, p) = map snd ((R((g, q) := u)) (j, p))" using a(2) by simp
  show "T p = (C((g, q) := C (g, q) @ [(k, x)])) (j, p) @ (R((g, q) := u)) (j, p) \<and>
    fst (r((g, q) := map snd u), fl') (j, p) = map snd ((R((g, q) := u)) (j, p)) \<and>
    snd (r((g, q) := map snd u), fl') (j, p) + length (times_of WaitF ((C((g, q) := C (g, q) @ [(k, x)])) (j, \<not> p))) =
      length (times_of SetF ((C((g, q) := C (g, q) @ [(k, x)])) (j, p))) \<and>
    length (times_of Meet ((C((g, q) := C (g, q) @ [(k, x)])) (j, p))) = length (times_of Meet ((C((g, q) := C (g, q) @ [(k, x)])) (0, p)))"
    unfolding m fst_conv snd_conv st wt using c r a(3) a4 f by linarith
qed

lemma remaining:
  assumes "agrees N T C R s" and "g < N" and "fst s (g, q) = x # xs"
  shows "\<exists>k u. R (g, q) = (k, x) # u \<and> xs = map snd u"
  using agreesD(2)[OF assms(1,2), of q] assms(3) by (auto simp: map_eq_Cons_conv)

lemma agrees_step:
  assumes "core_step N s s'" and "agrees N T C R s"
  shows "\<exists>C' R'. agrees N T C' R' s'"
  using assms
proof (induction rule: core_step.induct)
  case (work g r q i xs fl)
  from remaining[OF work(3,1), of q "Work i" xs] work(2) obtain k u where "R (g, q) = (k, Work i) # u" "xs = map snd u" by auto
  with agrees_one[OF work(3) this(1) _ work(1), of fl] show ?case by auto
next
  case (set g r q xs fl)
  from remaining[OF set(3,1), of q "SetF" xs] set(2) obtain k u where "R (g, q) = (k, SetF) # u" "xs = map snd u" by auto
  moreover have "\<And>j p. (fl((g, q) := Suc (fl (g, q)))) (j, p) + (if j = g \<and> p \<noteq> q \<and> SetF = WaitF then 1 else 0) =
    fl (j, p) + (if j = g \<and> p = q \<and> SetF = SetF then 1 else 0)" by simp
  ultimately show ?case using agrees_one[OF set(3) _ _ set(1)] by blast
next
  case (wait g r q xs fl n)
  from remaining[OF wait(4,1), of q "WaitF" xs] wait(2) obtain k u where "R (g, q) = (k, WaitF) # u" "xs = map snd u" by auto
  moreover have "\<And>j p. (fl((g, \<not> q) := n)) (j, p) + (if j = g \<and> p \<noteq> q \<and> WaitF = WaitF then 1 else 0) =
    fl (j, p) + (if j = g \<and> p = q \<and> WaitF = SetF then 1 else 0)" using wait(3) by auto
  ultimately show ?case using agrees_one[OF wait(4) _ _ wait(1)] by blast
next
  case (meet r q fl)
  have R: "\<exists>k u. R (g, q) = (k, Meet) # u" if "g < N" for g
    using meet(2) that remaining[OF meet(3) that, of q Meet] unfolding fst_conv by blast
  let ?C = "\<lambda>(g, p). if p = q \<and> g < N then C (g, p) @ take 1 (R (g, p)) else C (g, p)"
  let ?R = "\<lambda>(g, p). if p = q \<and> g < N then drop 1 (R (g, p)) else R (g, p)"
  have "agrees N T ?C ?R (\<lambda>(g, p). if p = q \<and> g < N then tl (r (g, p)) else r (g, p), fl)"
    unfolding agrees_def
  proof (intro allI impI)
    fix g p assume g: "g < N"
    obtain k u where u: "R (g, q) = (k, Meet) # u" using R[OF g] by blast
    obtain k0 u0 where u0: "R (0, q) = (k0, Meet) # u0" using R[of 0] g by auto
    note a = agreesD(1-3)[OF meet(3) g, of p, simplified fst_conv snd_conv] note a4 = agreesD(4)[OF meet(3) g meet(1), of p]
    have c: "length (times_of x (?C (g, p))) = length (times_of x (C (g, p))) + (if p = q \<and> x = Meet then 1 else 0)"
      "length (times_of x (?C (0, p))) = length (times_of x (C (0, p))) + (if p = q \<and> x = Meet then 1 else 0)" for x p
      using u u0 g meet(1) by auto
    show "T p = ?C (g, p) @ ?R (g, p) \<and>
      fst (\<lambda>(g, p). if p = q \<and> g < N then tl (r (g, p)) else r (g, p), fl) (g, p) = map snd (?R (g, p)) \<and>
      snd (\<lambda>(g, p). if p = q \<and> g < N then tl (r (g, p)) else r (g, p), fl) (g, p) + length (times_of WaitF (?C (g, \<not> p))) =
        length (times_of SetF (?C (g, p))) \<and>
      length (times_of Meet (?C (g, p))) = length (times_of Meet (?C (0, p)))"
      unfolding c using a a4 g append_take_drop_id[of 1 "R (g, p)"] by (auto simp: map_tl drop_Suc)
  qed
  then show ?case by blast
qed

lemma agrees_run: "(core_step N)\<^sup>*\<^sup>* s s' \<Longrightarrow> agrees N T C R s \<Longrightarrow> \<exists>C' R'. agrees N T C' R' s'"
  by (induction arbitrary: rule: rtranclp_induct) (blast dest: agrees_step)+

section \<open>Order\<close>

lemma done_before:
  assumes "strict (c @ r)" and "p \<in> set c" and "o' \<in> set (c @ r)" and "fst o' \<le> fst p"
  shows "o' \<in> set c"
  using assms by (force simp: strict_append)

lemma nth_prefix: "xs @ ys = zs \<Longrightarrow> k < length xs \<Longrightarrow> xs ! k = zs ! k"
  by (auto simp: nth_append)

lemma programsD:
  assumes "programs T"
  shows "strict (T q)" "length (times_of SetF (T q)) = length (times_of WaitF (T (\<not> q)))"
    "k < length (times_of WaitF (T (\<not> q))) \<Longrightarrow> times_of SetF (T q) ! k < times_of WaitF (T (\<not> q)) ! k"
  using assms unfolding programs_def list_all2_conv_all_nth by (blast, blast, metis)

text \<open>A core that has passed a wait: the core of the other kind of its group has passed the flag.\<close>

lemma waited:
  assumes p: "programs T" and s: "agrees N T C R s" and g: "g < N"
    and w: "k < length (times_of WaitF (T (\<not> q)))" "times_of WaitF (T (\<not> q)) ! k = t" and d: "(t, WaitF) \<in> set (C (g, \<not> q))"
  shows "(times_of SetF (T q) ! k, SetF) \<in> set (C (g, q))"
proof -
  note a = agreesD[OF s g] note pr = programsD[OF p]
  have ws: "times_of WaitF (C (g, \<not> q)) @ times_of WaitF (R (g, \<not> q)) = times_of WaitF (T (\<not> q))"
    and ss: "times_of SetF (C (g, q)) @ times_of SetF (R (g, q)) = times_of SetF (T q)" by (simp_all add: a(1))
  obtain l where l: "l < length (times_of WaitF (C (g, \<not> q)))" "times_of WaitF (C (g, \<not> q)) ! l = t"
    using d by (metis times_of_iff in_set_conv_nth)
  have "times_of WaitF (T (\<not> q)) ! l = t" using nth_prefix[OF ws l(1)] l(2) by simp
  moreover have "l < length (times_of WaitF (T (\<not> q)))" using l(1) arg_cong[OF ws, of length] by simp
  moreover have "distinct (times_of WaitF (T (\<not> q)))" using times_strict[OF pr(1)] by (simp add: strict_sorted_iff)
  ultimately have "l = k" using w nth_eq_iff_index_eq by metis
  then have "k < length (times_of SetF (C (g, q)))" using l(1) a(3)[of q] by simp
  then show ?thesis using nth_prefix[OF ss] times_of_iff nth_mem by metis
qed

lemma in_order:
  assumes p: "programs T" and s: "agrees N T C R s" and g: "g < N"
    and w: "k < length (times_of WaitF (T (\<not> q)))" "times_of WaitF (T (\<not> q)) ! k \<le> fst y"
    and y: "y \<in> set (C (g, \<not> q))" and x: "x \<in> set (T q)" "fst x \<le> times_of SetF (T q) ! k"
  shows "x \<in> set (C (g, q))"
proof -
  note a = agreesD[OF s g] note pr = programsD[OF p]
  let ?w = "(times_of WaitF (T (\<not> q)) ! k, WaitF)"
  have "?w \<in> set (T (\<not> q))" using w(1) times_of_iff nth_mem by metis
  then have "?w \<in> set (C (g, \<not> q))" using done_before[of "C (g, \<not> q)" "R (g, \<not> q)" y ?w] y pr(1)[of "\<not> q"] w(2) by (simp add: a(1))
  from waited[OF p s g w(1) refl this]
  show ?thesis using done_before[of "C (g, q)" "R (g, q)" _ x] pr(1)[of q] x by (simp add: a(1))
qed

text \<open>A core that has passed a meeting: all cores of its kind have.\<close>

lemma met:
  assumes p: "programs T" and s: "agrees N T C R s" and g: "g < N" "h < N"
    and m: "(t, Meet) \<in> set (T q)" "t \<le> fst y" and y: "y \<in> set (C (g, q))" and x: "x \<in> set (T q)" "fst x \<le> t"
  shows "x \<in> set (C (h, q))"
proof -
  note a = agreesD[OF s g(1)] note b = agreesD[OF s g(2)] note pr = programsD[OF p]
  have "(t, Meet) \<in> set (C (g, q))" using done_before[of "C (g, q)" "R (g, q)" y "(t, Meet)"] m y pr(1)[of q] by (simp add: a(1))
  then have "t \<in> set (times_of Meet (C (g, q)))" by (simp add: times_of_iff)
  then obtain k where k: "k < length (times_of Meet (C (g, q)))" "times_of Meet (C (g, q)) ! k = t" by (metis in_set_conv_nth)
  have "times_of Meet (C (g, q)) @ times_of Meet (R (g, q)) = times_of Meet (C (h, q)) @ times_of Meet (R (h, q))"
    using a(1)[of q] b(1)[of q] times_of_simps(3) by metis
  moreover have "k < length (times_of Meet (C (h, q)))" using k(1) a(4)[OF g(2), of q] by simp
  ultimately have "times_of Meet (C (h, q)) ! k = t" using k nth_prefix by metis
  then have "(t, Meet) \<in> set (C (h, q))" using \<open>k < length (times_of Meet (C (h, q)))\<close> times_of_iff nth_mem by metis
  then show ?thesis using done_before[of "C (h, q)" "R (h, q)" "(t, Meet)" x] pr(1)[of q] x by (simp add: b(1))
qed

section \<open>No run gets stuck\<close>

lemma head_least:
  assumes "strict (c @ p # r)" and "x \<in> set (p # r)"
  shows "fst p \<le> fst x"
  using assms by (auto simp: strict_append) (auto simp: strict_def)

text \<open>
  A step of cores some of whose work is held up, as that of a wait for an event: for \<open>(i, j)\<close> in \<open>E\<close> no core begins \<open>j\<close> as long
  as a core still has \<open>i\<close> before it.
\<close>

definition held_step :: "nat \<Rightarrow> (nat \<times> nat) set \<Rightarrow> cores \<Rightarrow> cores \<Rightarrow> bool" where
  "held_step N E s s' \<longleftrightarrow> core_step N s s' \<and> (\<forall>(i, j)\<in>E. \<forall>g<N. \<forall>q xs. fst s (g, q) = Work j # xs \<and> fst s' (g, q) = xs \<longrightarrow>
     (\<forall>h<N. \<forall>a. Work i \<notin> set (fst s (h, a))))"

lemma held_free:
  assumes "core_step N (r, f) (r', f')" and "\<And>g q j xs. g < N \<Longrightarrow> r (g, q) = Work j # xs \<Longrightarrow> r' (g, q) = r (g, q)"
  shows "held_step N E (r, f) (r', f')"
  using assms by (fastforce simp: held_step_def)

lemma held_work:
  assumes "g < N" and "r (g, q) = Work j # xs" and "\<And>i h a. (i, j) \<in> E \<Longrightarrow> h < N \<Longrightarrow> Work i \<notin> set (r (h, a))"
  shows "held_step N E (r, f) (r((g, q) := xs), f)"
proof -
  have k: "k = j" if "r c = Work k # ys" "(r((g, q) := xs)) c = ys" for k c ys
  proof -
    have "r c \<noteq> ys" using that(1) by (metis not_Cons_self2)
    then have "c = (g, q)" using that(2) by (metis fun_upd_other)
    then show ?thesis using that(1) assms(2) by simp
  qed
  show ?thesis unfolding held_step_def
  proof (intro conjI ballI allI impI, goal_cases)
    case 1
    show ?case by (rule core_step.work[where i = j]) (rule assms(1,2))+
  next
    case (2 p)
    obtain i l where p: "p = (i, l)" by fastforce
    show ?case unfolding p prod.case
    proof (intro allI impI notI)
      fix h b ys h' a assume h: "fst (r, f) (h, b) = Work l # ys \<and> fst (r((g, q) := xs), f) (h, b) = ys"
        and h': "h' < N" "Work i \<in> set (fst (r, f) (h', a))"
      have "l = j" by (rule k[of "(h, b)" l ys]) (use h in simp_all)
      then show False using assms(3)[of i h' a] 2 p h' by simp
    qed
  qed
qed

text \<open>What is held up belongs behind what it waits for.\<close>

definition forwards :: "(bool \<Rightarrow> timed) \<Rightarrow> (nat \<times> nat) set \<Rightarrow> bool" where
  "forwards T E \<longleftrightarrow> (\<forall>(i, j)\<in>E. \<forall>a b k l. (k, Work i) \<in> set (T a) \<and> (l, Work j) \<in> set (T b) \<longrightarrow> k < l)"

lemma blocked_before:
  assumes p: "programs T" and s: "agrees N T C R s" and g: "g < N" and h: "R (g, q) = (t, x) # xs"
    and E: "forwards T E" and st: "\<nexists>s'. held_step N E s s'"
  shows "\<exists>g' q' t' x' ys. g' < N \<and> R (g', q') = (t', x') # ys \<and> t' < t"
proof -
  note a = agreesD[OF s g] note pr = programsD[OF p]
  obtain r f where rf: "s = (r, f)" by fastforce
  have r: "r (g, q) = x # map snd xs" using a(2)[of q] h by (simp add: rf)
  have behind: "\<exists>t' x' ys. R (g', q') = (t', x') # ys \<and> t' \<le> fst z" if "z \<in> set (R (g', q'))" "g' < N" for z g' q'
  proof (cases "R (g', q')")
    case (Cons y ys)
    then show ?thesis using head_least[of "C (g', q')" y ys z] pr(1)[of q'] agreesD(1)[OF s that(2), of q'] that(1)
      by (cases y) auto
  qed (use that in simp)
  show ?thesis
  proof (cases x)
    case (Work i)
    then obtain i' j a where w: "(i', i) \<in> E" "j < N" "Work i' \<in> set (r (j, a))"
      using st held_work[OF g, of r q i "map snd xs" E f] r unfolding rf by blast
    then obtain k where k: "(k, Work i') \<in> set (R (j, a))" using agreesD(2)[OF s w(2), of a] by (auto simp: rf)
    have "(k, Work i') \<in> set (T a)" "(t, Work i) \<in> set (T q)"
      using k h Work agreesD(1)[OF s w(2), of a] a(1)[of q] by simp_all
    then have "k < t" using E w(1) unfolding forwards_def by blast
    with behind[OF k w(2)] w(2) show ?thesis by fastforce
  next
    case SetF
    have "held_step N E s (r((g, q) := map snd xs), f((g, q) := Suc (f (g, q))))" unfolding rf
      by (rule held_free[OF core_step.set[OF g]]) (use r SetF in auto)
    then show ?thesis using st by blast
  next
    case WaitF
    have "f (g, \<not> q) = 0"
    proof (cases "f (g, \<not> q)")
      case (Suc n)
      have "held_step N E s (r((g, q) := map snd xs), f((g, \<not> q) := n))" unfolding rf
        by (rule held_free[OF wait[OF g]]) (use r WaitF Suc in auto)
      then show ?thesis using st by blast
    qed simp
    then have n: "length (times_of SetF (C (g, \<not> q))) = length (times_of WaitF (C (g, q)))" using a(3)[of "\<not> q"] by (simp add: rf)
    let ?k = "length (times_of WaitF (C (g, q)))"
    have ws: "times_of WaitF (T q) = times_of WaitF (C (g, q)) @ t # times_of WaitF xs" using h WaitF by (simp add: a(1)[of q])
    have ss: "times_of SetF (T (\<not> q)) = times_of SetF (C (g, \<not> q)) @ times_of SetF (R (g, \<not> q))" by (simp add: a(1)[of "\<not> q"])
    have k: "?k < length (times_of WaitF (T q))" by (simp add: ws)
    have lt: "times_of SetF (T (\<not> q)) ! ?k < t" using pr(3)[of ?k "\<not> q"] k by (simp add: ws)
    have "?k < length (times_of SetF (T (\<not> q)))" using pr(2)[of "\<not> q"] k by simp
    then have "times_of SetF (T (\<not> q)) ! ?k \<in> set (times_of SetF (R (g, \<not> q)))" using n by (simp add: ss nth_append)
    then have "(times_of SetF (T (\<not> q)) ! ?k, SetF) \<in> set (R (g, \<not> q))" by (simp add: times_of_iff)
    from behind[OF this g] lt g show ?thesis by fastforce
  next
    case Meet
    have "\<not> (\<forall>h<N. \<exists>ys. r (h, q) = Meet # ys)"
    proof
      assume m: "\<forall>h<N. \<exists>ys. r (h, q) = Meet # ys"
      have "held_step N E s (\<lambda>(h, b). if b = q \<and> h < N then tl (r (h, b)) else r (h, b), f)" unfolding rf
        by (rule held_free[OF meet]) (use g m in auto)
      then show False using st by blast
    qed
    then obtain j where j: "j < N" "\<not> (\<exists>ys. r (j, q) = Meet # ys)" by blast
    have gm: "times_of Meet (T q) = times_of Meet (C (g, q)) @ t # times_of Meet xs" using h Meet by (simp add: a(1)[of q])
    have jm: "times_of Meet (T q) = times_of Meet (C (j, q)) @ times_of Meet (R (j, q))" by (simp add: agreesD(1)[OF s j(1), of q])
    have "length (times_of Meet (C (g, q))) = length (times_of Meet (C (j, q)))" using a(4)[OF j(1)] by simp
    then have "times_of Meet (R (j, q)) = t # times_of Meet xs" using gm jm by simp
    then have m: "(t, Meet) \<in> set (R (j, q))" by (simp add: times_of_iff[symmetric])
    from behind[OF m j(1)] obtain t' x' ys where y: "R (j, q) = (t', x') # ys" "t' \<le> t" by auto
    have "x' \<noteq> Meet" using j(2) agreesD(2)[OF s j(1), of q] y(1) by (auto simp: rf)
    then have "t' \<noteq> t" using strict_one[of "T q" t x' Meet] pr(1)[of q] m y(1) agreesD(1)[OF s j(1), of q] by auto
    then show ?thesis using y j(1) by (metis le_neq_implies_less)
  qed
qed

lemma not_stuck:
  assumes p: "programs T" and s: "agrees N T C R s" and g: "g < N" and h: "fst s (g, q) \<noteq> []"
    and E: "forwards T E"
  shows "\<exists>s'. held_step N E s s'"
proof (rule ccontr)
  assume st: "\<nexists>s'. held_step N E s s'"
  have False if "g < N" "R (g, q) = (t, x) # xs" for g q t x xs
    using that
  proof (induction t arbitrary: g q x xs rule: less_induct)
    case (less t)
    from blocked_before[OF p s less.prems E st] less.IH show ?case by blast
  qed
  moreover obtain y ys where "R (g, q) = y # ys" using h agreesD(2)[OF s g, of q] by (cases "R (g, q)") auto
  ultimately show False using g by (cases y) blast
qed

lemma flags_return:
  assumes p: "programs T" and s: "agrees N T C R s" and g: "g < N" and e: "\<forall>q. fst s (g, q) = []"
  shows "snd s (g, q) = 0"
proof -
  have "R (g, q) = []" for q using e agreesD(2)[OF s g, of q] by simp
  then have "C (g, q) = T q" for q using agreesD(1)[OF s g, of q] by simp
  then show ?thesis using agreesD(3)[OF s g, of q] programsD(2)[OF p, of q] by simp
qed

text \<open>The steps of a run are bounded by the operations.\<close>

definition left :: "nat \<Rightarrow> cores \<Rightarrow> nat" where
  "left N s = (\<Sum>c\<in>{..<N} \<times> UNIV. length (fst s c))"

lemma step_left:
  assumes "core_step N s s'"
  shows "left N s' < left N s"
proof -
  have "\<forall>c\<in>{..<N} \<times> UNIV. length (fst s' c) \<le> length (fst s c)" using assms
    by (induction rule: core_step.induct) auto
  moreover have "\<exists>c\<in>{..<N} \<times> UNIV. length (fst s' c) < length (fst s c)" using assms
  proof (induction rule: core_step.induct)
    case (work g r q i xs fl)
    then show ?case by (intro bexI[of _ "(g, q)"]) auto
  next
    case (set g r q xs fl)
    then show ?case by (intro bexI[of _ "(g, q)"]) auto
  next
    case (wait g r q xs fl n)
    then show ?case by (intro bexI[of _ "(g, q)"]) auto
  next
    case (meet r q fl)
    then obtain xs where "r (0, q) = Meet # xs" by blast
    then show ?case using meet(1) by (intro bexI[of _ "(0, q)"]) auto
  qed
  ultimately show ?thesis unfolding left_def by (intro sum_strict_mono_ex1) auto
qed

text \<open>A run that is not stopped ends with all programs executed.\<close>

lemma finishes:
  assumes p: "programs T"
  shows "\<exists>t. (core_step N)\<^sup>*\<^sup>* (core_start T) t \<and> (\<forall>g<N. \<forall>q. fst t (g, q) = [])"
proof -
  have "\<exists>t. (core_step N)\<^sup>*\<^sup>* s t \<and> (\<forall>g<N. \<forall>q. fst t (g, q) = [])" if "agrees N T C R s" for s C R
    using that
  proof (induction "left N s" arbitrary: s C R rule: less_induct)
    case less
    show ?case
    proof (cases "\<forall>g<N. \<forall>q. fst s (g, q) = []")
      case False
      then obtain g q where g: "g < N" "fst s (g, q) \<noteq> []" by blast
      have "forwards T {}" by (simp add: forwards_def)
      then obtain s' where s': "core_step N s s'" using not_stuck[OF p less.prems g] unfolding held_step_def by blast
      obtain C' R' where "agrees N T C' R' s'" using agrees_step[OF s' less.prems] by blast
      from less.hyps[OF step_left[OF s'] this] s' show ?thesis by (blast intro: converse_rtranclp_into_rtranclp)
    qed blast
  qed
  then show ?thesis using agrees_start by blast
qed

lemma no_step:
  assumes "\<forall>g<N. \<forall>q. fst t (g, q) = []"
  shows "\<not> core_step N t t'"
  using assms by (auto elim!: core_step.cases)

end
