(* ===== verification/Sk_Device.thy ===== *)
theory Sk_Device
  imports Sk_Queue Sk_Cores
begin

text \<open>
  What a core does with its queue (\<^verbatim>\<open>kernel/sk_entry.asc\<close>, the entries without early start), and which
  operations the queues that the task builder fills consist of.
\<close>

section \<open>Reading an entry\<close>

text \<open>\<open>mixed\<close>: the entry function runs on both kinds of cores; \<open>cube\<close>: the core is a cube core.\<close>

definition FullCoreSync :: "bool \<Rightarrow> core_op list" where
  "FullCoreSync mixed = (if mixed then [Meet, SetF, WaitF] else [Meet])"

definition AutoCoreSync :: "bool \<Rightarrow> bool \<Rightarrow> u64 \<Rightarrow> core_op list option" where
  "AutoCoreSync mixed cube v =
    (if v = sync_code CROSS_SYNC_AIC_TO_AIC then Some (if cube then [Meet] else [])
     else if v = sync_code CROSS_SYNC_AIV_TO_AIV then Some (if \<not> cube then [Meet] else [])
     else if v = sync_code INTER_SYNC_SET_AIC_TO_AIV then Some (if cube then [SetF] else [])
     else if v = sync_code INTER_SYNC_SET_AIV_TO_AIC then Some (if \<not> cube then [SetF] else [])
     else if v = sync_code INTER_SYNC_WAIT_AIC_TO_AIV then Some (if \<not> cube then [WaitF] else [])
     else if v = sync_code INTER_SYNC_WAIT_AIV_TO_AIC then Some (if cube then [WaitF] else [])
     else if v = sync_code ALL_SYNC then Some (FullCoreSync mixed) else None)"

text \<open>
  \<open>None\<close> is a trap. An entry that a core skips because of its number is work in which it does nothing; preloading and the records of the
  profiling and tracing entries leave no trace.
\<close>

definition core_ops :: "bool \<Rightarrow> bool \<Rightarrow> bool \<Rightarrow> task_info \<Rightarrow> core_op list option" where
  "core_ops debug mixed cube ti = (case ti_type ti of
     TYPE_PRELOAD \<Rightarrow> Some [] | TYPE_FUNC \<Rightarrow> Some [Work (unat (ti_index ti))]
   | TYPE_SYNC \<Rightarrow> if debug \<and> and (ti_debugOptions ti) 2 \<noteq> 0 then Some (FullCoreSync mixed) else AutoCoreSync mixed cube (ti_args ti)
   | _ \<Rightarrow> Some [Work (unat (ti_index ti))])"

fun read_queue :: "bool \<Rightarrow> bool \<Rightarrow> bool \<Rightarrow> task_info list \<Rightarrow> core_op list option" where
  "read_queue debug mixed cube [] = Some []"
| "read_queue debug mixed cube (t # ts) = Option.bind (core_ops debug mixed cube t) (\<lambda>xs.
     map_option ((@) xs) (read_queue debug mixed cube ts))"

lemma read_queue_append: "read_queue d m c xs = Some a \<Longrightarrow> read_queue d m c ys = Some b \<Longrightarrow> read_queue d m c (xs @ ys) = Some (a @ b)"
proof (induction xs arbitrary: a)
  case (Cons x xs)
  then show ?case by (cases "core_ops d m c x"; cases "read_queue d m c xs") auto
qed simp

section \<open>What a part of the builder adds\<close>

text \<open>There is room for \<open>k\<close> more entries in each queue.\<close>

definition room :: "nat \<Rightarrow> sk_queues \<Rightarrow> bool" where
  "room k s \<longleftrightarrow> (\<forall>q. 0 < st_cap (queue_at q s) \<and> length (st_infos (queue_at q s)) \<le> unat (st_cap (queue_at q s)) \<and>
     length (st_infos (queue_at q s)) + k \<le> 2 ^ 31)"

text \<open>\<open>f\<close> succeeds, uses at most \<open>c\<close> entries, and appends the operations \<open>F\<close>.\<close>

definition adds :: "bool \<times> bool \<Rightarrow> nat \<Rightarrow> (bool \<Rightarrow> core_op list) \<Rightarrow> (sk_queues \<Rightarrow> sk_queues option run) \<Rightarrow> bool" where
  "adds e c F f \<longleftrightarrow> (\<forall>k s. room (c + k) s \<longrightarrow> (\<exists>s'. f s = Inr (Some s') \<and> room k s' \<and>
     (\<forall>q xs. read_queue (fst e) (snd e) q (st_infos (queue_at q s)) = Some xs \<longrightarrow>
        read_queue (fst e) (snd e) q (st_infos (queue_at q s')) = Some (xs @ F q))))"

lemma roomD: "room k s \<Longrightarrow> 0 < st_cap (queue_at q s)" "room k s \<Longrightarrow> length (st_infos (queue_at q s)) \<le> unat (st_cap (queue_at q s))"
  "room k s \<Longrightarrow> length (st_infos (queue_at q s)) + k \<le> 2 ^ 31"
  unfolding room_def by blast+

lemma room_le: "room k s \<Longrightarrow> j \<le> k \<Longrightarrow> room j s"
  unfolding room_def by (meson add_left_mono le_trans)

lemma addsI:
  assumes "\<And>k s. room (c + k) s \<Longrightarrow> \<exists>s'. f s = Inr (Some s') \<and> room k s' \<and>
     (\<forall>q xs. read_queue (fst e) (snd e) q (st_infos (queue_at q s)) = Some xs \<longrightarrow>
        read_queue (fst e) (snd e) q (st_infos (queue_at q s')) = Some (xs @ F q))"
  shows "adds e c F f"
  using assms by (simp add: adds_def)

lemma addsD:
  assumes "adds e c F f" and "room (c + k) s"
  obtains s' where "f s = Inr (Some s')" and "room k s'"
    and "\<And>q xs. read_queue (fst e) (snd e) q (st_infos (queue_at q s)) = Some xs \<Longrightarrow>
        read_queue (fst e) (snd e) q (st_infos (queue_at q s')) = Some (xs @ F q)"
  using assms unfolding adds_def by meson

lemma adds_id: "adds e 0 (\<lambda>_. []) (\<lambda>s. Inr (Some s))"
  by (rule addsI) simp

lemma adds_bind:
  assumes f: "adds e c F f" and g: "adds e d G g"
  shows "adds e (c + d) (\<lambda>q. F q @ G q) (\<lambda>s. bindO (f s) g)"
proof (rule addsI)
  fix k s assume "room (c + d + k) s"
  then have "room (c + (d + k)) s" by (simp add: add.assoc)
  from addsD[OF f this] obtain t where t: "f s = Inr (Some t)" "room (d + k) t"
    and rt: "\<And>q xs. read_queue (fst e) (snd e) q (st_infos (queue_at q s)) = Some xs \<Longrightarrow>
        read_queue (fst e) (snd e) q (st_infos (queue_at q t)) = Some (xs @ F q)" by metis
  from addsD[OF g t(2)] obtain u where u: "g t = Inr (Some u)" "room k u"
    and ru: "\<And>q xs. read_queue (fst e) (snd e) q (st_infos (queue_at q t)) = Some xs \<Longrightarrow>
        read_queue (fst e) (snd e) q (st_infos (queue_at q u)) = Some (xs @ G q)" by metis
  show "\<exists>s'. bindO (f s) g = Inr (Some s') \<and> room k s' \<and>
     (\<forall>q xs. read_queue (fst e) (snd e) q (st_infos (queue_at q s)) = Some xs \<longrightarrow>
        read_queue (fst e) (snd e) q (st_infos (queue_at q s')) = Some (xs @ F q @ G q))"
    using t u ru[OF rt] by simp
qed

lemma adds_le: "adds e c F f \<Longrightarrow> c \<le> d \<Longrightarrow> adds e d F f"
proof (rule addsI)
  fix k s assume f: "adds e c F f" and "c \<le> d" and "room (d + k) s"
  then have r: "room (c + (d - c + k)) s" by simp
  show "\<exists>s'. f s = Inr (Some s') \<and> room k s' \<and>
     (\<forall>q xs. read_queue (fst e) (snd e) q (st_infos (queue_at q s)) = Some xs \<longrightarrow>
        read_queue (fst e) (snd e) q (st_infos (queue_at q s')) = Some (xs @ F q))"
    by (rule addsD[OF f r]) (blast dest: room_le[of _ _ k, OF _ le_add2])
qed

lemma adds_fold:
  assumes "\<And>x. x \<in> set xs \<Longrightarrow> adds e c (F x) (f x)"
  shows "adds e (c * length xs) (\<lambda>q. concat (map (\<lambda>x. F x q) xs)) (foldO f xs)"
  using assms
proof (induction xs)
  case Nil
  then show ?case using adds_id[of e] by (simp add: adds_def)
next
  case (Cons x xs)
  have "adds e (c + c * length xs) (\<lambda>q. F x q @ concat (map (\<lambda>x. F x q) xs)) (\<lambda>s. bindO (f x s) (foldO f xs))"
    by (rule adds_bind) (use Cons in auto)
  then show ?case by (simp add: adds_def)
qed

lemma adds_cong: "adds e c F f \<Longrightarrow> (\<And>s. f s = g s) \<Longrightarrow> (\<And>q. F q = G q) \<Longrightarrow> adds e c G g"
  by (simp add: adds_def)

section \<open>Entries\<close>

lemma queue_at_upd [simp]: "queue_at q (upd_queue c f s) = (if q = c then f (queue_at q s) else queue_at q s)"
  by (cases q; cases c) (simp_all add: queue_at_def upd_queue_def)

lemma unat_u32: "n < 2 ^ 32 \<Longrightarrow> unat (of_nat n :: u32) = n"
  by (simp add: unat_of_nat)

lemma GetTaskQue_room:
  assumes "0 < st_cap t" and "length (st_infos t) \<le> unat (st_cap t)" and "length (st_infos t) < 2 ^ 31"
  shows "\<exists>c. GetTaskQue t = Some (t\<lparr> st_cap := c \<rparr>) \<and> length (st_infos t) < unat c"
proof (cases "length (st_infos t) \<ge> unat (st_cap t)")
  case True
  let ?n = "unat (st_cap t)"
  have n: "0 < ?n" "?n < 2 ^ 31" using assms True by (simp_all add: word_less_nat_alt)
  obtain c where c: "c = (of_nat (?n * 2) :: u32)" by blast
  have u: "unat c = ?n * 2" unfolding c by (rule unat_u32) (use n in simp)
  have "TaskExpand t = Some (t\<lparr> st_cap := c \<rparr>)"
    using n by (simp add: TaskExpand_def Let_def SIZEOF_TASK_INFO_def SIZEOF_TASK_QUE_def c)
  then have "GetTaskQue t = Some (t\<lparr> st_cap := c \<rparr>)" using True assms(2) n by (simp add: GetTaskQue_def u)
  moreover have "length (st_infos t) < unat c" unfolding u using assms(2) n by simp
  ultimately show ?thesis by blast
next
  case False
  then show ?thesis by (intro exI[of _ "st_cap t"]) (simp add: GetTaskQue_def)
qed

lemma room_GetTaskQue: "room (Suc k) s \<Longrightarrow> GetTaskQue (queue_at q s) \<noteq> None"
  using GetTaskQue_room[OF roomD(1,2)[of "Suc k" s q]] roomD(3)[of "Suc k" s q] by fastforce

lemma adds_push:
  assumes f: "\<And>t. st_infos (f t) = st_infos t" "\<And>t. st_cap (f t) = st_cap t"
    and ti: "core_ops (fst e) (snd e) cube ti = Some xs"
  shows "adds e 1 (\<lambda>q. if q = cube then xs else []) (push_info cube ti f)"
proof (rule addsI)
  fix k s assume r: "room (1 + k) s"
  let ?t = "queue_at cube s"
  obtain c where c: "GetTaskQue ?t = Some (?t\<lparr> st_cap := c \<rparr>)" "length (st_infos ?t) < unat c"
    using GetTaskQue_room[OF roomD(1,2)[OF r, of cube]] roomD(3)[OF r, of cube] by fastforce
  let ?s = "upd_queue cube (\<lambda>_. f (?t\<lparr> st_cap := c, st_infos := st_infos ?t @ [ti] \<rparr>)) s"
  have p: "push_info cube ti f s = Inr (Some ?s)" using c(1) by (simp add: push_info_def)
  have "0 < c" using c(2) by (simp add: word_less_nat_alt)
  then have "room k ?s" unfolding room_def using roomD[OF r] c(2) by (auto simp: f Suc_le_eq intro: Suc_leD)
  moreover have "read_queue (fst e) (snd e) q (st_infos (queue_at q ?s)) = Some (zs @ (if q = cube then xs else []))"
    if "read_queue (fst e) (snd e) q (st_infos (queue_at q s)) = Some zs" for q zs
    using read_queue_append[OF that, of "[ti]" xs] that ti by (cases "q = cube") (simp_all add: f)
  ultimately show "\<exists>s'. push_info cube ti f s = Inr (Some s') \<and> room k s' \<and>
     (\<forall>q zs. read_queue (fst e) (snd e) q (st_infos (queue_at q s)) = Some zs \<longrightarrow>
        read_queue (fst e) (snd e) q (st_infos (queue_at q s')) = Some (zs @ (if q = cube then xs else [])))"
    using p by blast
qed

definition on :: "bool \<Rightarrow> core_op list \<Rightarrow> bool \<Rightarrow> core_op list" where
  "on cube xs q = (if q = cube then xs else [])"

text \<open>What a pair of a synchronisation map does in each queue.\<close>

definition dir_ops :: "bool \<Rightarrow> bool \<Rightarrow> sync_direction \<Rightarrow> bool \<Rightarrow> core_op list" where
  "dir_ops mixed isSend d = (case d of
     CUB_TO_VEC \<Rightarrow> if isSend then on True [SetF] else on False [WaitF]
   | VEC_TO_CUB \<Rightarrow> if isSend then on False [SetF] else on True [WaitF]
   | CUB_TO_CUB \<Rightarrow> on True [Meet] | VEC_TO_VEC \<Rightarrow> on False [Meet]
   | DIR_ALL_SYNC \<Rightarrow> (\<lambda>_. FullCoreSync mixed) | _ \<Rightarrow> (\<lambda>_. []))"

lemma adds_AddSyncTask:
  assumes "\<not> EnableDebug opts" and "AutoCoreSync (snd e) cube (sync_code t) = Some xs"
  shows "adds e 1 (on cube xs) (AddSyncTask opts cube idx t 0 0 KT_DEFAULT)"
  unfolding AddSyncTask_def Let_def on_def
  by (rule adds_push) (use assms in \<open>simp_all add: core_ops_def\<close>)

lemma foldO_single: "foldO f [x] s = f x s"
proof (cases "f x s")
  case (Inr r)
  then show ?thesis by (cases r) simp_all
qed simp

lemma adds_dispatch_sync:
  assumes d: "\<not> EnableDebug opts" and p: "fst p < length infos" "snd p \<notin> {DIR_NONE, MIX_TO_MIX}"
  shows "adds e 2 (dir_ops (snd e) isSend (snd p)) (dispatch_sync opts infos idx isSend p)"
proof -
  let ?t = "GetSyncTypesForDirection (snd p) isSend"
  note one = adds_AddSyncTask[OF d, of e]
  have nil: "dispatch_sync opts infos idx isSend p = (\<lambda>s. case sync_targets ?t of None \<Rightarrow> Inr None
      | Some qs \<Rightarrow> foldO (\<lambda>cube. AddSyncTask opts cube idx ?t 0 0 KT_DEFAULT) qs s)"
    using p(1) by (auto simp: dispatch_sync_def Let_def atR_def)
  show ?thesis
  proof (cases "snd p = DIR_ALL_SYNC")
    case True
    have "adds e (1 * length [True, False]) (\<lambda>q. concat (map (\<lambda>c. on c (FullCoreSync (snd e)) q) [True, False]))
        (foldO (\<lambda>cube. AddSyncTask opts cube idx ALL_SYNC 0 0 KT_DEFAULT) [True, False])"
      by (rule adds_fold, rule one) (simp add: AutoCoreSync_def)
    then have "adds e 2 (\<lambda>q. concat (map (\<lambda>c. on c (FullCoreSync (snd e)) q) [True, False]))
        (foldO (\<lambda>cube. AddSyncTask opts cube idx ALL_SYNC 0 0 KT_DEFAULT) [True, False])" by (simp add: numeral_2_eq_2)
    then show ?thesis unfolding nil
      by (rule adds_cong) (auto simp: True dir_ops_def on_def GetSyncTypesForDirection_def sync_targets_def)
  next
    case False
    then have "\<exists>c x. dir_ops (snd e) isSend (snd p) = on c [x] \<and> sync_targets ?t = Some [c] \<and>
      AutoCoreSync (snd e) c (sync_code ?t) = Some [x]"
      using p(2) unfolding ex_bool_eq by (cases "snd p"; cases isSend)
        (auto simp: dir_ops_def GetSyncTypesForDirection_def sync_targets_def AutoCoreSync_def)
    then obtain c x where f: "dir_ops (snd e) isSend (snd p) = on c [x]" "sync_targets ?t = Some [c]"
      "AutoCoreSync (snd e) c (sync_code ?t) = Some [x]" by blast
    have "adds e 1 (on c [x]) (AddSyncTask opts c idx ?t 0 0 KT_DEFAULT)" by (rule one[OF f(3)])
    then have "adds e 2 (on c [x]) (AddSyncTask opts c idx ?t 0 0 KT_DEFAULT)" by (rule adds_le) simp
    then show ?thesis unfolding nil f(1) f(2) option.case foldO_single .
  qed
qed

lemma adds_DispatchSyncTasks:
  assumes "\<not> EnableDebug opts" and "\<forall>p\<in>set m. fst p < length infos \<and> snd p \<notin> {DIR_NONE, MIX_TO_MIX}"
  shows "adds e (2 * length m) (\<lambda>q. concat (map (\<lambda>p. dir_ops (snd e) isSend (snd p) q) m)) (DispatchSyncTasks opts infos idx isSend m)"
proof -
  have "DispatchSyncTasks opts infos idx isSend m = foldO (dispatch_sync opts infos idx isSend) m"
    by (simp add: DispatchSyncTasks_def fun_eq_iff)
  moreover have "adds e (2 * length m) (\<lambda>q. concat (map (\<lambda>p. dir_ops (snd e) isSend (snd p) q) m)) (foldO (dispatch_sync opts infos idx isSend) m)"
    by (rule adds_fold, rule adds_dispatch_sync) (use assms in auto)
  ultimately show ?thesis by simp
qed

section \<open>Functions and events\<close>

text \<open>The functions the queue needs have addresses.\<close>

definition resolved_for :: "sk_node \<Rightarrow> int \<Rightarrow> bool \<Rightarrow> bool" where
  "resolved_for n binCount cube \<longleftrightarrow> (\<forall>i<nat binCount. i < length (ki_resolvedFuncs (nd_kernelInfos n)) \<and>
     sel cube (rf_funcAddr (ki_resolvedFuncs (nd_kernelInfos n) ! i)) \<noteq> 0)"

lemma add_func_entries:
  assumes "\<forall>i\<in>set is. i < length (ki_resolvedFuncs (nd_kernelInfos n)) \<and> sel cube (rf_funcAddr (ki_resolvedFuncs (nd_kernelInfos n) ! i)) \<noteq> 0"
  shows "\<exists>ti'. foldO (add_func_entry opts n cube preload) is ti = Inr (Some ti') \<and> ti_type ti' = ti_type ti \<and> ti_index ti' = ti_index ti"
  using assms
proof (induction "is" arbitrary: ti)
  case (Cons i "is")
  then obtain t where t: "add_func_entry opts n cube preload i ti = Inr (Some t)" "ti_type t = ti_type ti" "ti_index t = ti_index ti"
    by (auto simp: add_func_entry_def Let_def atR_def)
  from Cons.IH[of t] Cons.prems obtain u where "foldO (add_func_entry opts n cube preload) is t = Inr (Some u)"
    "ti_type u = ti_type t" "ti_index u = ti_index t" by auto
  then show ?case using t by simp
qed simp

lemma adds_AddFuncTask:
  assumes n: "nd_nodeType n = NODE_KERNEL" and r: "resolved_for n binCount cube" and ty: "ty \<in> {TYPE_FUNC, TYPE_PRELOAD}"
  shows "adds e 1 (on cube (if ty = TYPE_FUNC then [Work (unat (of_nat idx :: u32))] else [])) (AddFuncTask opts infos cube n idx binCount ty b)"
proof -
  let ?ti = "zero_task_info\<lparr> ti_index := of_nat idx, ti_type := ty, ti_relatedType := Some (ki_kernelType (nd_kernelInfos n)),
               ti_isSimtKernel := (ty = TYPE_FUNC \<and> ki_isSimtOp (nd_kernelInfos n)), ti_numBlocks := ucast b \<rparr>"
  obtain t where t: "foldO (add_func_entry opts n cube (ty = TYPE_PRELOAD)) [0..<nat binCount] ?ti = Inr (Some t)"
    "ti_type t = ty" "ti_index t = of_nat idx"
    using add_func_entries[of "[0..<nat binCount]" n cube opts "ty = TYPE_PRELOAD" ?ti] r by (auto simp: resolved_for_def)
  let ?push = "if ty = TYPE_FUNC then push_info cube (t\<lparr> ti_args := ki_devArgs (nd_kernelInfos n),
                ti_extraInfo := (if idx < length infos then ucast (es_funcConfig (ts_earlyStartInfo (infos ! idx))) else 0),
                ti_argsSize := ucast (bo_argsSize opts (nd_nodeId n)),
                ti_debugOptions := or (ti_debugOptions t) (BuildFuncTaskDebugOptions opts (nd_kernelInfos n)) \<rparr>)
              (\<lambda>u. u\<lparr> st_numBlocks := max (st_numBlocks u) (ucast (ti_numBlocks t)), st_funcCnt := st_funcCnt u + 1 \<rparr>)
         else push_info cube t id"
  have a: "adds e 1 (on cube (if ty = TYPE_FUNC then [Work (unat (of_nat idx :: u32))] else [])) ?push"
  proof (cases "ty = TYPE_FUNC")
    case True
    show ?thesis unfolding if_P[OF True] on_def by (rule adds_push) (use t(2,3) True in \<open>simp_all add: core_ops_def\<close>)
  next
    case False
    show ?thesis unfolding if_not_P[OF False] on_def by (rule adds_push) (use t(2,3) False ty in \<open>simp_all add: core_ops_def\<close>)
  qed
  show ?thesis
  proof (rule addsI)
    fix k s assume k: "room (1 + k) s"
    then obtain y where y: "GetTaskQue (queue_at cube s) = Some y" using room_GetTaskQue[of k s cube] by auto
    have eq: "AddFuncTask opts infos cube n idx binCount ty b s = ?push s"
      unfolding AddFuncTask_def Let_def t(1) bindO_simps y using n by simp
    show "\<exists>s'. AddFuncTask opts infos cube n idx binCount ty b s = Inr (Some s') \<and> room k s' \<and>
       (\<forall>q xs. read_queue (fst e) (snd e) q (st_infos (queue_at q s)) = Some xs \<longrightarrow>
          read_queue (fst e) (snd e) q (st_infos (queue_at q s')) =
            Some (xs @ on cube (if ty = TYPE_FUNC then [Work (unat (of_nat idx :: u32))] else []) q))"
      unfolding eq using a k unfolding adds_def by blast
  qed
qed

lemma adds_DispatchFuncTask:
  assumes n: "nd_nodeType n = NODE_KERNEL" and r: "\<forall>c. uses_queue c qt \<longrightarrow> resolved_for n binCount c" and ty: "ty \<in> {TYPE_FUNC, TYPE_PRELOAD}"
    and qt: "qt \<noteq> QT_UNKNOWN"
  shows "adds e 2 (\<lambda>q. if uses_queue q qt \<and> ty = TYPE_FUNC then [Work (unat (of_nat idx :: u32))] else []) (DispatchFuncTask opts infos n idx binCount ty qt)"
proof -
  let ?w = "if ty = TYPE_FUNC then [Work (unat (of_nat idx :: u32))] else []" and ?b = "ki_numBlocks (nd_kernelInfos n)"
  have one: "adds e 1 (on c ?w) (AddFuncTask opts infos c n idx binCount ty b)" if "uses_queue c qt" for c b
    by (rule adds_AddFuncTask[OF n _ ty]) (use r that in blast)
  have both: "adds e (1 + 1) (\<lambda>q. on True ?w q @ on False ?w q) (\<lambda>s. bindO (AddFuncTask opts infos True n idx binCount ty b s) (AddFuncTask opts infos False n idx binCount ty b'))"
    if "uses_queue True qt" "uses_queue False qt" for b b' by (rule adds_bind) (use one that in blast)+
  have mark: "adds e 0 (\<lambda>_. []) (\<lambda>(c, v). Inr (Some (c\<lparr> st_nodeType := MIX_AIC_1_2 \<rparr>, v\<lparr> st_nodeType := MIX_AIC_1_2 \<rparr>)))"
    by (rule addsI) (auto simp: room_def queue_at_def all_bool_eq split: if_splits)
  show ?thesis
  proof (cases qt)
    case AIC
    have "adds e 2 (on True ?w) (AddFuncTask opts infos True n idx binCount ty ?b)"
      by (rule adds_le[OF one]) (simp_all add: AIC uses_queue_def UsesAic_def)
    then show ?thesis by (rule adds_cong) (auto simp: DispatchFuncTask_def Let_def n AIC on_def uses_queue_def UsesAic_def UsesAiv_def)
  next
    case AIV
    have "adds e 2 (on False ?w) (AddFuncTask opts infos False n idx binCount ty ?b)"
      by (rule adds_le[OF one]) (simp_all add: AIV uses_queue_def UsesAiv_def)
    then show ?thesis by (rule adds_cong) (auto simp: DispatchFuncTask_def Let_def n AIV on_def uses_queue_def UsesAic_def UsesAiv_def)
  next
    case MIX_1_1
    then have "adds e 2 (\<lambda>q. on True ?w q @ on False ?w q) (\<lambda>s. bindO (AddFuncTask opts infos True n idx binCount ty ?b s) (AddFuncTask opts infos False n idx binCount ty ?b))"
      using both by (simp add: uses_queue_def UsesAic_def UsesAiv_def numeral_2_eq_2)
    then show ?thesis by (rule adds_cong) (auto simp: DispatchFuncTask_def Let_def n MIX_1_1 on_def uses_queue_def UsesAic_def UsesAiv_def)
  next
    case MIX_1_2
    have "adds e (1 + 1 + 0) (\<lambda>q. (on True ?w q @ on False ?w q) @ [])
        (\<lambda>s. bindO (bindO (AddFuncTask opts infos True n idx binCount ty ?b s) (AddFuncTask opts infos False n idx binCount ty (?b * 2)))
          (\<lambda>(c, v). Inr (Some (c\<lparr> st_nodeType := MIX_AIC_1_2 \<rparr>, v\<lparr> st_nodeType := MIX_AIC_1_2 \<rparr>))))"
      by (rule adds_bind[OF both mark]) (simp_all add: MIX_1_2 uses_queue_def UsesAic_def UsesAiv_def)
    then have "adds e 2 (\<lambda>q. (on True ?w q @ on False ?w q) @ [])
        (\<lambda>s. bindO (bindO (AddFuncTask opts infos True n idx binCount ty ?b s) (AddFuncTask opts infos False n idx binCount ty (?b * 2)))
          (\<lambda>(c, v). Inr (Some (c\<lparr> st_nodeType := MIX_AIC_1_2 \<rparr>, v\<lparr> st_nodeType := MIX_AIC_1_2 \<rparr>))))" by (simp add: numeral_2_eq_2)
    then show ?thesis by (rule adds_cong) (auto simp: DispatchFuncTask_def Let_def n MIX_1_2 on_def uses_queue_def UsesAic_def UsesAiv_def)
  qed (use qt in simp)
qed

lemma adds_DispatchEventTask:
  assumes "nd_nodeType n \<in> {NODE_NOTIFY, NODE_WAIT, NODE_RESET}" and "ty \<in> {TYPE_EVENT_NOTIFY, TYPE_EVENT_WAIT, TYPE_EVENT_RESET}"
  shows "adds e 1 (on (qt = AIC) [Work (unat idx)]) (DispatchEventTask n idx ty qt)"
proof -
  have "adds e 1 (on (qt = AIC) [Work (unat idx)]) (AddEventTask (qt = AIC) n idx ty)"
    unfolding AddEventTask_def Let_def on_def by (rule adds_push) (use assms in \<open>auto simp: core_ops_def SetEventTaskArgs_def\<close>)
  then show ?thesis by (rule adds_cong) (use assms in \<open>auto simp: DispatchEventTask_def\<close>)
qed

section \<open>The loop\<close>

text \<open>What the builder needs of a task and its synchronisation.\<close>

definition is_event :: "sk_node \<Rightarrow> bool" where
  "is_event n \<longleftrightarrow> nd_nodeType n \<in> {NODE_NOTIFY, NODE_WAIT, NODE_RESET}"

definition task_ready :: "task list \<Rightarrow> task_sync_info list \<Rightarrow> int \<Rightarrow> nat \<Rightarrow> bool" where
  "task_ready tasks infos binCount i \<longleftrightarrow> (let n = snd (tasks ! i); q = ts_queueType (infos ! i) in
     (if nd_nodeType n = NODE_KERNEL then q \<noteq> QT_UNKNOWN \<and> (\<forall>c. uses_queue c q \<longrightarrow> resolved_for n binCount c)
      else is_event n \<and> (q = AIC \<or> q = AIV)) \<and>
     (\<forall>m\<in>{ts_vecRecvInfo, ts_cubRecvInfo, ts_crossSyncInfo, ts_vecSendInfo, ts_cubSendInfo}. \<forall>p\<in>set (m (infos ! i)).
        fst p < length infos \<and> snd p \<notin> {DIR_NONE, MIX_TO_MIX}))"

definition map_ops :: "bool \<Rightarrow> bool \<Rightarrow> sync_map \<Rightarrow> bool \<Rightarrow> core_op list" where
  "map_ops mixed isSend m q = concat (map (\<lambda>p. dir_ops mixed isSend (snd p) q) m)"

definition task_ops :: "bool \<Rightarrow> nat \<Rightarrow> task_sync_info \<Rightarrow> bool \<Rightarrow> core_op list" where
  "task_ops mixed i x q = map_ops mixed False (ts_vecRecvInfo x) q @ map_ops mixed False (ts_cubRecvInfo x) q @
     (if uses_queue q (ts_queueType x) then [Work (unat (of_nat i :: u32))] else []) @ map_ops mixed True (ts_crossSyncInfo x) q @
     map_ops mixed True (ts_vecSendInfo x) q @ map_ops mixed True (ts_cubSendInfo x) q"

definition map_size :: "task_sync_info \<Rightarrow> nat" where
  "map_size x = length (ts_vecRecvInfo x) + length (ts_cubRecvInfo x) + length (ts_crossSyncInfo x) +
     length (ts_vecSendInfo x) + length (ts_cubSendInfo x)"

lemma adds_work_task:
  assumes "task_ready tasks infos binCount i"
  shows "adds e 2 (\<lambda>q. if uses_queue q (ts_queueType (infos ! i)) then [Work (unat (of_nat i :: u32))] else []) (work_task opts tasks infos binCount i)"
proof (cases "is_kernel (tasks ! i)")
  case True
  then have "adds e 2 (\<lambda>q. if uses_queue q (ts_queueType (infos ! i)) \<and> TYPE_FUNC = TYPE_FUNC then [Work (unat (of_nat i :: u32))] else [])
    (DispatchFuncTask opts infos (snd (tasks ! i)) i binCount TYPE_FUNC (ts_queueType (infos ! i)))"
    by (intro adds_DispatchFuncTask) (use assms in \<open>auto simp: task_ready_def Let_def\<close>)
  then show ?thesis by (rule adds_cong) (use True in \<open>simp_all add: work_task_def Let_def\<close>)
next
  case False
  then have ev: "is_event (snd (tasks ! i))" and q: "ts_queueType (infos ! i) = AIC \<or> ts_queueType (infos ! i) = AIV"
    using assms by (auto simp: task_ready_def Let_def)
  obtain ty where ty: "event_task_type (nd_nodeType (snd (tasks ! i))) = Some ty" "ty \<in> {TYPE_EVENT_NOTIFY, TYPE_EVENT_WAIT, TYPE_EVENT_RESET}"
    using ev by (auto simp: is_event_def event_task_type_def)
  have "adds e 1 (on (ts_queueType (infos ! i) = AIC) [Work (unat (of_nat i :: u32))])
    (DispatchEventTask (snd (tasks ! i)) (of_nat i) ty (ts_queueType (infos ! i)))"
    by (rule adds_DispatchEventTask[OF _ ty(2)]) (use ev in \<open>simp add: is_event_def\<close>)
  then have "adds e 2 (on (ts_queueType (infos ! i) = AIC) [Work (unat (of_nat i :: u32))])
    (DispatchEventTask (snd (tasks ! i)) (of_nat i) ty (ts_queueType (infos ! i)))" by (rule adds_le) simp
  then show ?thesis
    by (rule adds_cong) (use False ty(1) q in \<open>auto simp: work_task_def Let_def on_def uses_queue_def UsesAic_def UsesAiv_def\<close>)
qed

lemma adds_preload_task:
  assumes "\<forall>i<length tasks. task_ready tasks infos binCount i"
  shows "adds e 2 (\<lambda>_. []) (preload_task opts tasks infos binCount i)"
proof (cases "i < length tasks \<and> is_kernel (tasks ! i)")
  case True
  then have "adds e 2 (\<lambda>q. if uses_queue q (ts_queueType (infos ! i)) \<and> TYPE_PRELOAD = TYPE_FUNC then [Work (unat (of_nat i :: u32))] else [])
    (DispatchFuncTask opts infos (snd (tasks ! i)) i binCount TYPE_PRELOAD (ts_queueType (infos ! i)))"
    by (intro adds_DispatchFuncTask) (use assms True in \<open>auto simp: task_ready_def Let_def\<close>)
  then show ?thesis by (rule adds_cong) (use True in \<open>simp_all add: preload_task_def\<close>)
next
  case False
  have "adds e 2 (\<lambda>_. []) (\<lambda>s. Inr (Some s))" by (rule adds_le[OF adds_id]) simp
  then show ?thesis by (rule adds_cong) (unfold preload_task_def if_not_P[OF False], rule refl, rule refl)
qed

lemma adds_dispatch_task:
  assumes d: "\<not> EnableDebug opts" and r: "\<forall>i<length tasks. task_ready tasks infos binCount i" and i: "i < length tasks"
  shows "adds e (2 * map_size (infos ! i) + 4) (task_ops (snd e) i (infos ! i)) (dispatch_task opts False tasks infos binCount i)"
proof -
  let ?x = "infos ! i"
  have m: "adds e (2 * length (f ?x)) (map_ops (snd e) b (f ?x)) (DispatchSyncTasks opts infos i b (f ?x))"
    if "f \<in> {ts_vecRecvInfo, ts_cubRecvInfo, ts_crossSyncInfo, ts_vecSendInfo, ts_cubSendInfo}" for f b
  proof -
    have "\<forall>p\<in>set (f ?x). fst p < length infos \<and> snd p \<notin> {DIR_NONE, MIX_TO_MIX}"
      using r i that unfolding task_ready_def Let_def by blast
    from adds_DispatchSyncTasks[OF d this, of e b i] show ?thesis unfolding map_ops_def .
  qed
  have w: "adds e 2 (\<lambda>q. if uses_queue q (ts_queueType ?x) then [Work (unat (of_nat i :: u32))] else []) (work_task opts tasks infos binCount i)"
    by (rule adds_work_task) (use r i in blast)
  note p = adds_preload_task[OF r, of e opts "i + 1"]
  have v: "ts_vecRecvInfo \<in> {ts_vecRecvInfo, ts_cubRecvInfo, ts_crossSyncInfo, ts_vecSendInfo, ts_cubSendInfo}"
    and cu: "ts_cubRecvInfo \<in> {ts_vecRecvInfo, ts_cubRecvInfo, ts_crossSyncInfo, ts_vecSendInfo, ts_cubSendInfo}"
    and cr: "ts_crossSyncInfo \<in> {ts_vecRecvInfo, ts_cubRecvInfo, ts_crossSyncInfo, ts_vecSendInfo, ts_cubSendInfo}"
    and vs: "ts_vecSendInfo \<in> {ts_vecRecvInfo, ts_cubRecvInfo, ts_crossSyncInfo, ts_vecSendInfo, ts_cubSendInfo}"
    and cs: "ts_cubSendInfo \<in> {ts_vecRecvInfo, ts_cubRecvInfo, ts_crossSyncInfo, ts_vecSendInfo, ts_cubSendInfo}" by blast+
  note all = adds_bind[OF m[OF v, of False] adds_bind[OF m[OF cu, of False] adds_bind[OF w adds_bind[OF p
    adds_bind[OF m[OF cr, of True] adds_bind[OF m[OF vs, of True] m[OF cs, of True]]]]]]]
  show ?thesis
    by (rule adds_cong[OF adds_le[OF all]]) (simp_all add: dispatch_task_def Let_def task_ops_def map_size_def)
qed

lemma adds_dispatch_all:
  assumes d: "\<not> EnableDebug opts" and r: "\<forall>i<length tasks. task_ready tasks infos binCount i" and m: "\<forall>i<length tasks. map_size (infos ! i) \<le> c"
  shows "adds e (2 + (2 * c + 4) * length tasks) (\<lambda>q. concat (map (\<lambda>i. task_ops (snd e) i (infos ! i) q) [0..<length tasks]))
    (dispatch_all opts False tasks infos binCount)"
proof -
  have "adds e (2 * c + 4) (task_ops (snd e) i (infos ! i)) (dispatch_task opts False tasks infos binCount i)" if "i \<in> set [0..<length tasks]" for i
    by (rule adds_le[OF adds_dispatch_task[OF d r]]) (use m that in auto)
  from adds_fold[OF this, where xs = "[0..<length tasks]"]
  have "adds e ((2 * c + 4) * length tasks) (\<lambda>q. concat (map (\<lambda>i. task_ops (snd e) i (infos ! i) q) [0..<length tasks]))
     (foldO (dispatch_task opts False tasks infos binCount) [0..<length tasks])" by simp
  from adds_bind[OF adds_preload_task[OF r, of e opts 0] this] show ?thesis
    by (rule adds_cong) (simp_all add: dispatch_all_def)
qed

end
