(* ===== verification/Sk_Order.thy ===== *)
theory Sk_Order
  imports Sk_Extract_Sound Sk_Device
begin

text \<open>
  The two halves of the task builder together: the queues it builds keep the order of the streams and the
  events, whatever the interleaving of the cores, and no core gets stuck.
\<close>

section \<open>The hints\<close>

lemma drop_hint_cross: "\<exists>P. ts_crossSyncInfo (drop_hint k la lv s ! i) = filter P (ts_crossSyncInfo (s ! i))"
proof -
  have id: "\<exists>P. m = filter P m" for m :: sync_map by (rule exI[of _ "\<lambda>_. True"]) simp
  have er: "\<exists>P. ts_crossSyncInfo (upd_info c (\<lambda>x. x\<lparr> ts_crossSyncInfo := erase_sync key (ts_crossSyncInfo x) \<rparr>) s ! i) = filter P (ts_crossSyncInfo (s ! i))" for c key
  proof (cases "c < length s \<and> i = c")
    case True
    then show ?thesis by (auto simp: erase_sync_def)
  next
    case False
    then have "upd_info c (\<lambda>x. x\<lparr> ts_crossSyncInfo := erase_sync key (ts_crossSyncInfo x) \<rparr>) s ! i = s ! i"
      by (cases "c < length s") (auto simp: upd_info_def not_less list_update_beyond)
    then show ?thesis using id by simp
  qed
  show ?thesis using id er by (auto simp: drop_hint_def Let_def split: option.split)
qed

lemma redundant_cross: "\<exists>P. ts_crossSyncInfo (redundant_from k ts la lv s ! i) = filter P (ts_crossSyncInfo (s ! i))"
proof (induction ts arbitrary: k la lv s)
  case Nil
  show ?case by (rule exI[of _ "\<lambda>_. True"]) simp
next
  case (Cons t ts)
  have "\<exists>P. ts_crossSyncInfo (redundant_from (Suc k) ts la lv (drop_hint k la lv s) ! i) = filter P (ts_crossSyncInfo (s ! i))"
  proof -
    obtain P Q where "ts_crossSyncInfo (redundant_from (Suc k) ts la lv (drop_hint k la lv s) ! i) = filter P (ts_crossSyncInfo (drop_hint k la lv s ! i))"
      "ts_crossSyncInfo (drop_hint k la lv s ! i) = filter Q (ts_crossSyncInfo (s ! i))" using Cons.IH drop_hint_cross by metis
    then show ?thesis by (intro exI[of _ "\<lambda>x. Q x \<and> P x"]) simp
  qed
  then show ?case using Cons.IH by simp
qed

lemma Optimize_cross:
  assumes "sync_ok s" and "i < length s"
  shows "\<exists>P. ts_crossSyncInfo (OptimizeSyncRelations tasks s ! i) = filter P (ts_crossSyncInfo (s ! i))"
proof -
  have r: "same_rest s (RemoveMultiRecvSync (RemoveMultiSendSync (RemoveCrossedLineSync s)))"
    using RemoveCrossedLineSync_edges[OF assms(1)] RemoveMultiSendSync_edges RemoveMultiRecvSync_edges by (blast intro: same_rest_trans)
  then show ?thesis using redundant_cross[of 0 tasks None None "RemoveMultiRecvSync (RemoveMultiSendSync (RemoveCrossedLineSync s))" i] assms(2)
    by (simp add: OptimizeSyncRelations_def RemoveRedundantCrossSync_def same_rest_def)
qed

section \<open>What the queues are built from\<close>

definition default_hints :: sync_map where
  "default_hints = [(AIC_KEY, CUB_TO_CUB), (AIV_KEY, VEC_TO_VEC)]"

text \<open>\<open>D\<close> is what is done in order, \<open>custom\<close> whether events are added behind the tasks.\<close>

definition infos_ok :: "task list \<Rightarrow> bool \<Rightarrow> task_sync_info list \<Rightarrow> bool" where
  "infos_ok tasks custom I \<longleftrightarrow> length I = length tasks \<and> sync_ok I \<and>
     (\<forall>i<length tasks. queue_ok (CheckResourceStatus tasks) (tasks ! i) (ts_queueType (I ! i))) \<and>
     (\<forall>c. edges c I = needed (crossing c (\<lambda>i. ts_queueType (I ! i)) (next_of tasks))) \<and>
     (\<forall>i. Suc i < length tasks \<longrightarrow> (\<exists>P. ts_crossSyncInfo (I ! i) = filter P default_hints)) \<and>
     ts_crossSyncInfo (I ! (length tasks - 1)) = (if custom then [(AIC_KEY, DIR_ALL_SYNC)] else [])"

definition plain_build :: "build_options \<Rightarrow> bool" where
  "plain_build opts \<longleftrightarrow> \<not> option_is (bo_mixSplit opts) 1 \<and> \<not> option_is (bo_earlyStart opts) 1 \<and> \<not> EnableDebug opts"

text \<open>Tasks of a scope: kernels and events in an order in which kernels send forwards.\<close>

definition tasks_ok :: "task list \<Rightarrow> bool" where
  "tasks_ok tasks \<longleftrightarrow> (\<exists>t\<in>set tasks. is_kernel t) \<and> (\<forall>t\<in>set tasks. supported t) \<and> distinct_ids tasks \<and>
     (\<forall>(i, j)\<in>event_next tasks. i < j)"

lemma default_cross_filter: "default_cross ty isLast q = Some m \<Longrightarrow> \<exists>P. m = filter P default_hints"
proof -
  assume m: "default_cross ty isLast q = Some m"
  have f: "filter (\<lambda>_. False) default_hints = []" "filter (\<lambda>p. fst p = AIC_KEY) default_hints = [(AIC_KEY, CUB_TO_CUB)]"
    "filter (\<lambda>p. fst p = AIV_KEY) default_hints = [(AIV_KEY, VEC_TO_VEC)]" "filter (\<lambda>_. True) default_hints = default_hints"
    by (simp_all add: default_hints_def AIC_KEY_def AIV_KEY_def)
  have "m = [] \<or> m = [(AIC_KEY, CUB_TO_CUB)] \<or> m = [(AIV_KEY, VEC_TO_VEC)] \<or> m = default_hints"
    using m by (auto simp: default_cross_def default_hints_def split: if_splits sk_queue_type.splits)
  then show ?thesis by (elim disjE) (use f[symmetric] in blast)+
qed

lemma build_infos_ok:
  assumes p: "plain_build opts" and t: "tasks_ok tasks"
  shows "\<exists>I. build_infos opts g tasks custom = Inr (Some I) \<and> infos_ok tasks custom I"
proof -
  have k: "\<exists>t\<in>set tasks. is_kernel t" "\<forall>t\<in>set tasks. supported t" "distinct_ids tasks" using t by (simp_all add: tasks_ok_def)
  then have n: "0 < length tasks" by (cases tasks) auto
  obtain s where s: "PrecomputeSyncRelationsFromGraph g tasks = Inr (Some s)" "length s = length tasks" "sync_ok s"
    "\<forall>i<length tasks. queue_ok (CheckResourceStatus tasks) (tasks ! i) (ts_queueType (s ! i)) \<and>
       default_cross (nd_nodeType (snd (tasks ! i))) (Suc i = length tasks) (ts_queueType (s ! i)) = Some (ts_crossSyncInfo (s ! i))"
    "\<forall>c. edges c s = crossing c (\<lambda>i. ts_queueType (s ! i)) (next_of tasks)" using Precompute_edges[OF k] by blast
  let ?o = "OptimizeSyncRelations tasks s"
  let ?I = "if custom then upd_info (length ?o - 1) (\<lambda>x. x\<lparr> ts_crossSyncInfo := put_sync AIC_KEY DIR_ALL_SYNC (ts_crossSyncInfo x) \<rparr>) ?o else ?o"
  note o = OptimizeSyncRelations_edges[OF s(3), of tasks]
  have lo: "length ?o = length tasks" using o s(2) by simp
  have same: "same_maps ?o ?I" using same_maps_upd by simp
  have lI: "length ?I = length tasks" using lo by simp
  have qI: "ts_queueType (?I ! i) = ts_queueType (s ! i)" if "i < length tasks" for i
    using same that lo o s(2) by (simp add: same_maps_def)
  have sub: "next_of tasks \<subseteq> {..<length tasks} \<times> {..<length tasks}" using stream_next_sub by (auto simp: next_of_def event_next_def)
  have eI: "edges c ?I = needed (crossing c (\<lambda>i. ts_queueType (?I ! i)) (next_of tasks))" for c
  proof -
    have "edges c ?I = needed (crossing c (\<lambda>i. ts_queueType (s ! i)) (next_of tasks))" using same_maps_edges[OF same, of c] o s(5) by simp
    also have "crossing c (\<lambda>i. ts_queueType (s ! i)) (next_of tasks) = crossing c (\<lambda>i. ts_queueType (?I ! i)) (next_of tasks)"
      by (rule crossing_cong[OF sub]) (use qI in simp)
    finally show ?thesis .
  qed
  have cr: "\<exists>P. ts_crossSyncInfo (?o ! i) = filter P default_hints" if i: "i < length tasks" for i
  proof -
    obtain P where P: "ts_crossSyncInfo (?o ! i) = filter P (ts_crossSyncInfo (s ! i))" using Optimize_cross[OF s(3)] i s(2) by metis
    obtain Q where Q: "ts_crossSyncInfo (s ! i) = filter Q default_hints" using s(4) i default_cross_filter by metis
    show ?thesis unfolding P Q by (intro exI[of _ "\<lambda>x. Q x \<and> P x"]) simp
  qed
  have lst: "ts_crossSyncInfo (?o ! (length tasks - 1)) = []"
  proof -
    have "ts_crossSyncInfo (s ! (length tasks - 1)) = []" using s(4) n by (auto simp: default_cross_def dest!: spec[of _ "length tasks - 1"])
    then show ?thesis using Optimize_cross[OF s(3), of "length tasks - 1" tasks] s(2) n by auto
  qed
  have "infos_ok tasks custom ?I"
    unfolding infos_ok_def
  proof (intro conjI)
    show "length ?I = length tasks" by (rule lI)
    show "sync_ok ?I" using same_maps_ok[OF same] o by blast
    show "\<forall>i<length tasks. queue_ok (CheckResourceStatus tasks) (tasks ! i) (ts_queueType (?I ! i))" using s(4) qI by simp
    show "\<forall>c. edges c ?I = needed (crossing c (\<lambda>i. ts_queueType (?I ! i)) (next_of tasks))" using eI by blast
    show "\<forall>i. Suc i < length tasks \<longrightarrow> (\<exists>P. ts_crossSyncInfo (?I ! i) = filter P default_hints)"
      using cr lo by (auto simp: upd_info_def)
    show "ts_crossSyncInfo (?I ! (length tasks - 1)) = (if custom then [(AIC_KEY, DIR_ALL_SYNC)] else [])"
      using lst lo n by simp
  qed
  moreover have "build_infos opts g tasks custom = Inr (Some ?I)"
    using p s(1) by (simp add: build_infos_def plain_build_def Let_def)
  ultimately show ?thesis by blast
qed

section \<open>The programs with their times\<close>

definition timed_dir :: "bool \<Rightarrow> nat \<Rightarrow> bool \<Rightarrow> sync_direction \<Rightarrow> timed" where
  "timed_dir mixed i q d = (case d of
     CUB_TO_CUB \<Rightarrow> if q then [(8 * i + 2, Meet)] else [] | VEC_TO_VEC \<Rightarrow> if q then [] else [(8 * i + 2, Meet)]
   | DIR_ALL_SYNC \<Rightarrow> if mixed then [(8 * i + 3, Meet), (8 * i + 4, SetF), (8 * i + 5, WaitF)] else [(8 * i + 3, Meet)]
   | _ \<Rightarrow> [])"

definition timed_cross :: "bool \<Rightarrow> nat \<Rightarrow> sync_map \<Rightarrow> bool \<Rightarrow> timed" where
  "timed_cross mixed i m q = concat (map (\<lambda>p. timed_dir mixed i q (snd p)) m)"

definition timed_task :: "bool \<Rightarrow> nat \<Rightarrow> task_sync_info \<Rightarrow> bool \<Rightarrow> timed" where
  "timed_task mixed i x q = map (\<lambda>_. (8 * i, WaitF)) (recv_of (\<not> q) x) @
     (if uses_queue q (ts_queueType x) then [(8 * i + 1, Work i)] else []) @ timed_cross mixed i (ts_crossSyncInfo x) q @
     map (\<lambda>_. (8 * i + 6, SetF)) (send_of q x)"

definition timed_tasks :: "bool \<Rightarrow> task_sync_info list \<Rightarrow> bool \<Rightarrow> timed" where
  "timed_tasks mixed I q = concat (map (\<lambda>i. timed_task mixed i (I ! i) q) [0..<length I])"

lemma map_ops_Nil [simp]: "map_ops mixed b [] q = []"
  by (simp add: map_ops_def)

lemma map_ops_all: "\<forall>p\<in>set m. snd p = d \<Longrightarrow> map_ops mixed b m q = concat (map (\<lambda>_. dir_ops mixed b d q) m)"
  unfolding map_ops_def by (intro arg_cong[where f = concat] map_cong) auto

lemma snd_timed_cross:
  assumes "(\<exists>P. m = filter P default_hints) \<or> m = [(AIC_KEY, DIR_ALL_SYNC)]"
  shows "map snd (timed_cross mixed i m q) = map_ops mixed True m q"
proof -
  have "\<forall>p\<in>set m. snd p \<in> {CUB_TO_CUB, VEC_TO_VEC, DIR_ALL_SYNC}" using assms by (auto simp: default_hints_def split: if_splits)
  then show ?thesis unfolding timed_cross_def map_ops_def map_concat map_map
    by (intro arg_cong[where f = concat] map_cong) (auto simp: timed_dir_def dir_ops_def on_def FullCoreSync_def)
qed

lemma concat_const: "concat (map (\<lambda>_. [x]) ys) = map (\<lambda>_. x) ys" "concat (map (\<lambda>_. []) ys) = []"
  by (induction ys) auto

lemma snd_timed_task:
  assumes s: "sync_ok I" and i: "i < length I" "i < 2 ^ 32"
    and m: "(\<exists>P. ts_crossSyncInfo (I ! i) = filter P default_hints) \<or> ts_crossSyncInfo (I ! i) = [(AIC_KEY, DIR_ALL_SYNC)]"
  shows "map snd (timed_task mixed i (I ! i) q) = task_ops mixed i (I ! i) q"
proof -
  let ?x = "I ! i"
  have d: "\<forall>p\<in>set (ts_vecRecvInfo ?x). snd p = CUB_TO_VEC" "\<forall>p\<in>set (ts_cubRecvInfo ?x). snd p = VEC_TO_CUB"
    "\<forall>p\<in>set (ts_cubSendInfo ?x). snd p = CUB_TO_VEC" "\<forall>p\<in>set (ts_vecSendInfo ?x). snd p = VEC_TO_CUB"
    using sync_okD[OF s i(1), of True] sync_okD[OF s i(1), of False] by (auto simp: map_ok_def send_of_def recv_of_def dir_of_def)
  show ?thesis unfolding timed_task_def task_ops_def map_append snd_timed_cross[OF m] unat_u32[OF i(2)]
      map_ops_all[OF d(1)] map_ops_all[OF d(2)] map_ops_all[OF d(3)] map_ops_all[OF d(4)]
    by (cases q) (simp_all add: dir_ops_def on_def concat_const send_of_def recv_of_def comp_def)
qed

lemma infos_cross:
  assumes "infos_ok tasks custom I" and "i < length I"
  shows "(\<exists>P. ts_crossSyncInfo (I ! i) = filter P default_hints) \<or> ts_crossSyncInfo (I ! i) = [(AIC_KEY, DIR_ALL_SYNC)]"
proof (cases "Suc i = length tasks")
  case True
  have "filter (\<lambda>_. False) default_hints = []" by simp
  moreover have "ts_crossSyncInfo (I ! i) = (if custom then [(AIC_KEY, DIR_ALL_SYNC)] else [])"
    using assms(1) arg_cong[OF True, of "\<lambda>k. k - 1"] by (simp add: infos_ok_def)
  ultimately show ?thesis by (cases custom) (auto intro: exI[of _ "\<lambda>_. False"])
next
  case False
  then show ?thesis using assms by (auto simp: infos_ok_def)
qed

lemma snd_timed_tasks:
  assumes "infos_ok tasks custom I" and "length I \<le> 2 ^ 32"
  shows "map snd (timed_tasks mixed I q) = concat (map (\<lambda>i. task_ops mixed i (I ! i) q) [0..<length I])"
  unfolding timed_tasks_def map_concat map_map comp_def
proof (intro arg_cong[where f = concat] map_cong refl)
  fix i assume "i \<in> set [0..<length I]"
  then have i: "i < length I" by simp
  have "sync_ok I" using assms(1) by (simp add: infos_ok_def)
  from snd_timed_task[OF this i _ infos_cross[OF assms(1) i]] i assms(2)
  show "map snd (timed_task mixed i (I ! i) q) = task_ops mixed i (I ! i) q" by simp
qed

section \<open>Times\<close>

text \<open>The entries of a task lie within its eight units of time, in order.\<close>

lemma strict_cross:
  assumes "(\<exists>P. m = filter P default_hints) \<or> m = [(AIC_KEY, DIR_ALL_SYNC)]"
  shows "strict (timed_cross mixed i m q)" "p \<in> set (timed_cross mixed i m q) \<Longrightarrow> 8 * i + 2 \<le> fst p \<and> fst p \<le> 8 * i + 5"
  using assms by (auto simp: default_hints_def timed_cross_def timed_dir_def strict_def split: if_splits)

lemma short:
  assumes "map_ok d m" and "\<And>j k. j \<in> keys m \<Longrightarrow> k \<in> keys m \<Longrightarrow> j = k"
  shows "length m \<le> 1"
proof (cases m)
  case (Cons p r)
  then show ?thesis
  proof (cases r)
    case c: (Cons p' r')
    have "fst p < fst p'" using assms(1) by (simp add: map_ok_def Cons c)
    moreover have "fst p = fst p'" by (rule assms(2)) (simp_all add: keys_def Cons c)
    ultimately show ?thesis by simp
  qed simp
qed simp

lemma infos_short:
  assumes I: "infos_ok tasks custom I" and i: "i < length I"
  shows "length (send_of c (I ! i)) \<le> 1" "length (recv_of c (I ! i)) \<le> 1"
proof -
  have s: "sync_ok I" and e: "\<exists>E. edges c I = needed E" using I by (auto simp: infos_ok_def)
  obtain E where E: "edges c I = needed E" using e by blast
  note ok = sync_okD[OF s i, of c]
  have "keys (send_of c (I ! i)) = {j. (i, j) \<in> edges c I}" using i by (auto simp: edges_def)
  then have "j = k" if "j \<in> keys (send_of c (I ! i))" "k \<in> keys (send_of c (I ! i))" for j k
    using that needed_mono[of i j E i k] needed_mono[of i k E i j] by (simp add: E)
  then show "length (send_of c (I ! i)) \<le> 1" using short ok by blast
  have "j = k" if "j \<in> keys (recv_of c (I ! i))" "k \<in> keys (recv_of c (I ! i))" for j k
    using that ok needed_mono[of j i E k i] needed_mono[of k i E j i] by (simp add: E)
  then show "length (recv_of c (I ! i)) \<le> 1" using short ok by blast
qed

lemma strict_short: "length m \<le> 1 \<Longrightarrow> strict (map (\<lambda>_. p) m)"
  by (cases m) (auto simp: strict_def)

lemma strict_task:
  assumes I: "infos_ok tasks custom I" and i: "i < length I"
  shows "strict (timed_task mixed i (I ! i) q)" "p \<in> set (timed_task mixed i (I ! i) q) \<Longrightarrow> 8 * i \<le> fst p \<and> fst p < 8 * i + 8"
proof -
  note cr = strict_cross(1)[OF infos_cross[OF I i], where mixed = mixed and i = i and q = q]
    strict_cross(2)[OF infos_cross[OF I i], where mixed = mixed and i = i and q = q]
  show "strict (timed_task mixed i (I ! i) q)"
    using strict_short[OF infos_short(1)[OF I i]] strict_short[OF infos_short(2)[OF I i]] cr
    by (fastforce simp: timed_task_def strict_append strict_def[of "[_]"] strict_def[of "[]"])
  show "8 * i \<le> fst p \<and> fst p < 8 * i + 8" if "p \<in> set (timed_task mixed i (I ! i) q)"
    using that cr(2)[of p] by (auto simp: timed_task_def split: if_splits)
qed

lemma strict_concat:
  assumes "\<And>i. i < n \<Longrightarrow> strict (f i)" and "\<And>i p. i < n \<Longrightarrow> p \<in> set (f i) \<Longrightarrow> 8 * i \<le> fst p \<and> fst p < 8 * i + 8"
  shows "strict (concat (map f [0..<n])) \<and> (\<forall>p\<in>set (concat (map f [0..<n])). fst p < 8 * n)"
  using assms
proof (induction n)
  case (Suc n)
  then have IH: "strict (concat (map f [0..<n]))" "\<forall>p\<in>set (concat (map f [0..<n])). fst p < 8 * n" by auto
  have n: "strict (f n)" "\<And>p. p \<in> set (f n) \<Longrightarrow> 8 * n \<le> fst p \<and> fst p < 8 * n + 8" using Suc.prems by simp_all
  have "strict (concat (map f [0..<Suc n]))" using IH n by (fastforce simp: strict_append)
  moreover have "\<forall>p\<in>set (concat (map f [0..<Suc n])). fst p < 8 * Suc n" using IH(2) n(2) by fastforce
  ultimately show ?case by blast
qed (simp add: strict_def)

lemma strict_tasks:
  assumes "infos_ok tasks custom I"
  shows "strict (timed_tasks mixed I q)" "p \<in> set (timed_tasks mixed I q) \<Longrightarrow> fst p < 8 * length I"
  using strict_concat[of "length I" "\<lambda>i. timed_task mixed i (I ! i) q"] strict_task[OF assms]
  unfolding timed_tasks_def by blast+

section \<open>The flags match\<close>

definition kinds :: "task list \<Rightarrow> bool \<Rightarrow> bool" where
  "kinds tasks q = (if q then fst (CheckResourceStatus tasks) else snd (CheckResourceStatus tasks))"

definition mixed_of :: "task list \<Rightarrow> bool" where
  "mixed_of tasks \<longleftrightarrow> kinds tasks True \<and> kinds tasks False"

lemma uses_kinds:
  assumes "infos_ok tasks custom I" and "i < length tasks" and "uses_queue c (ts_queueType (I ! i))"
  shows "kinds tasks c"
proof -
  have q: "queue_ok (CheckResourceStatus tasks) (tasks ! i) (ts_queueType (I ! i))" using assms by (simp add: infos_ok_def)
  show ?thesis
  proof (cases "is_kernel (tasks ! i)")
    case True
    then have "tasks ! i \<in> set (filter is_kernel tasks)" "uses_queue c (queue_of (snd (tasks ! i)))" using assms q by (auto simp: queue_ok_def)
    then show ?thesis unfolding kinds_def CheckResourceStatus_def Let_def uses_queue_def
      by (cases c; simp only: if_True if_False fst_conv snd_conv) blast+
  next
    case False
    then show ?thesis using q assms(3)
      by (cases c) (auto simp: queue_ok_def event_type_def kinds_def uses_queue_def UsesAic_def UsesAiv_def)
  qed
qed

lemma task_uses: "infos_ok tasks custom I \<Longrightarrow> i < length tasks \<Longrightarrow> \<exists>c. uses_queue c (ts_queueType (I ! i))"
  using queue_known[of "CheckResourceStatus tasks" "tasks ! i" "ts_queueType (I ! i)"]
  unfolding infos_ok_def ex_bool_eq uses_queue_def by (cases "ts_queueType (I ! i)") (auto simp: UsesAic_def UsesAiv_def)

lemma next_forward: "tasks_ok tasks \<Longrightarrow> (i, j) \<in> next_of tasks \<Longrightarrow> i < j \<and> j < length tasks"
  using stream_next_lt stream_next_sub unfolding next_of_def tasks_ok_def event_next_def by blast

lemma edges_next:
  assumes "infos_ok tasks custom I"
  shows "edges c I = needed (crossing c (\<lambda>i. ts_queueType (I ! i)) (next_of tasks))" "(i, j) \<in> edges c I \<Longrightarrow> (i, j) \<in> next_of tasks"
    "(i, j) \<in> edges c I \<Longrightarrow> uses_queue c (ts_queueType (I ! i)) \<and> uses_queue (\<not> c) (ts_queueType (I ! j))"
  using assms needed_sub unfolding infos_ok_def crossing_def by blast+

text \<open>Which entries there are.\<close>

lemma all_sync_iff:
  assumes "infos_ok tasks custom I" and "i < length I"
  shows "(\<exists>k. (k, DIR_ALL_SYNC) \<in> set (ts_crossSyncInfo (I ! i))) \<longleftrightarrow> custom \<and> Suc i = length I"
proof (cases "Suc i = length tasks")
  case True
  then have "ts_crossSyncInfo (I ! i) = (if custom then [(AIC_KEY, DIR_ALL_SYNC)] else [])"
    using assms(1) unfolding infos_ok_def True[symmetric] diff_Suc_1 by blast
  then show ?thesis using assms(1) True by (simp add: infos_ok_def)
next
  case False
  then have "\<exists>P. ts_crossSyncInfo (I ! i) = filter P default_hints" using assms by (auto simp: infos_ok_def)
  then obtain P where "ts_crossSyncInfo (I ! i) = filter P default_hints" by blast
  then show ?thesis using assms(1) False by (auto simp: infos_ok_def default_hints_def)
qed

lemma in_cross:
  "(t, SetF) \<in> set (timed_cross mixed i m q) \<longleftrightarrow> mixed \<and> t = 8 * i + 4 \<and> (\<exists>k. (k, DIR_ALL_SYNC) \<in> set m)"
  "(t, WaitF) \<in> set (timed_cross mixed i m q) \<longleftrightarrow> mixed \<and> t = 8 * i + 5 \<and> (\<exists>k. (k, DIR_ALL_SYNC) \<in> set m)"
  "(t, Work k) \<notin> set (timed_cross mixed i m q)"
  "(j, DIR_ALL_SYNC) \<in> set m \<longrightarrow> (8 * i + 3, Meet) \<in> set (timed_cross mixed i m q)"
proof -
  have c: "(t, x) \<in> set (timed_cross mixed i m q) \<longleftrightarrow> (\<exists>p\<in>set m. (t, x) \<in> set (timed_dir mixed i q (snd p)))" for t x
    by (simp add: timed_cross_def)
  have d: "(t, SetF) \<in> set (timed_dir mixed i q d) \<longleftrightarrow> mixed \<and> t = 8 * i + 4 \<and> d = DIR_ALL_SYNC"
    "(t, WaitF) \<in> set (timed_dir mixed i q d) \<longleftrightarrow> mixed \<and> t = 8 * i + 5 \<and> d = DIR_ALL_SYNC"
    "(t, Work k) \<notin> set (timed_dir mixed i q d)" "(8 * i + 3, Meet) \<in> set (timed_dir mixed i q DIR_ALL_SYNC)" for d
    by (cases d; simp add: timed_dir_def)+
  show "(t, SetF) \<in> set (timed_cross mixed i m q) \<longleftrightarrow> mixed \<and> t = 8 * i + 4 \<and> (\<exists>k. (k, DIR_ALL_SYNC) \<in> set m)"
    unfolding c d by force
  show "(t, WaitF) \<in> set (timed_cross mixed i m q) \<longleftrightarrow> mixed \<and> t = 8 * i + 5 \<and> (\<exists>k. (k, DIR_ALL_SYNC) \<in> set m)"
    unfolding c d by force
  show "(t, Work k) \<notin> set (timed_cross mixed i m q)" unfolding c using d(3) by blast
  show "(j, DIR_ALL_SYNC) \<in> set m \<longrightarrow> (8 * i + 3, Meet) \<in> set (timed_cross mixed i m q)" unfolding c using d(4) by force
qed

lemma in_task:
  "(t, SetF) \<in> set (timed_task mixed i x q) \<longleftrightarrow> t = 8 * i + 6 \<and> send_of q x \<noteq> [] \<or> mixed \<and> t = 8 * i + 4 \<and> (\<exists>k. (k, DIR_ALL_SYNC) \<in> set (ts_crossSyncInfo x))"
  "(t, WaitF) \<in> set (timed_task mixed i x q) \<longleftrightarrow> t = 8 * i \<and> recv_of (\<not> q) x \<noteq> [] \<or> mixed \<and> t = 8 * i + 5 \<and> (\<exists>k. (k, DIR_ALL_SYNC) \<in> set (ts_crossSyncInfo x))"
  "(t, Work k) \<in> set (timed_task mixed i x q) \<longleftrightarrow> k = i \<and> t = 8 * i + 1 \<and> uses_queue q (ts_queueType x)"
proof -
  have m: "(t, y) \<in> set (map (\<lambda>_. (a, b)) xs) \<longleftrightarrow> t = a \<and> y = b \<and> xs \<noteq> []" for y a b and xs :: sync_map by (cases xs) auto
  show "(t, SetF) \<in> set (timed_task mixed i x q) \<longleftrightarrow> t = 8 * i + 6 \<and> send_of q x \<noteq> [] \<or> mixed \<and> t = 8 * i + 4 \<and> (\<exists>k. (k, DIR_ALL_SYNC) \<in> set (ts_crossSyncInfo x))"
    "(t, WaitF) \<in> set (timed_task mixed i x q) \<longleftrightarrow> t = 8 * i \<and> recv_of (\<not> q) x \<noteq> [] \<or> mixed \<and> t = 8 * i + 5 \<and> (\<exists>k. (k, DIR_ALL_SYNC) \<in> set (ts_crossSyncInfo x))"
    "(t, Work k) \<in> set (timed_task mixed i x q) \<longleftrightarrow> k = i \<and> t = 8 * i + 1 \<and> uses_queue q (ts_queueType x)"
    unfolding timed_task_def set_append Un_iff m in_cross(1,2) using in_cross(3)[of t k mixed i "ts_crossSyncInfo x" q] by auto
qed

lemma in_tasks: "p \<in> set (timed_tasks mixed I q) \<longleftrightarrow> (\<exists>i<length I. p \<in> set (timed_task mixed i (I ! i) q))"
  by (auto simp: timed_tasks_def)

lemma tasks_Work: "(t, Work k) \<in> set (timed_tasks mixed I q) \<longleftrightarrow> k < length I \<and> t = 8 * k + 1 \<and> uses_queue q (ts_queueType (I ! k))"
  unfolding in_tasks in_task by auto

lemma edges_ends:
  assumes "sync_ok I" and "i < length I"
  shows "send_of c (I ! i) \<noteq> [] \<longleftrightarrow> (\<exists>j. (i, j) \<in> edges c I)" "recv_of c (I ! i) \<noteq> [] \<longleftrightarrow> (\<exists>j. (j, i) \<in> edges c I)"
proof -
  have k: "keys m \<noteq> {} \<longleftrightarrow> m \<noteq> []" for m by (simp add: keys_def)
  note s = sync_okD(3,4)[OF assms, of c]
  show "send_of c (I ! i) \<noteq> [] \<longleftrightarrow> (\<exists>j. (i, j) \<in> edges c I)" unfolding k[symmetric] s by blast
  show "recv_of c (I ! i) \<noteq> [] \<longleftrightarrow> (\<exists>j. (j, i) \<in> edges c I)" unfolding k[symmetric] s by blast
qed

lemma last_time:
  assumes "0 < n"
  shows "(\<exists>i<n. P i \<or> a \<and> b \<and> Suc i = n \<and> t = 8 * i + d) \<longleftrightarrow> (\<exists>i<n. P i) \<or> a \<and> b \<and> t = 8 * (n - 1) + d"
proof -
  obtain m where m: "n = Suc m" using assms by (cases n) auto
  show ?thesis unfolding m by auto
qed

lemma tasks_SetF:
  assumes I: "infos_ok tasks custom I" and n: "0 < length I"
  shows "(t, SetF) \<in> set (timed_tasks mixed I q) \<longleftrightarrow>
    (\<exists>(x, y)\<in>edges q I. t = 8 * x + 6) \<or> mixed \<and> custom \<and> t = 8 * (length I - 1) + 4"
proof -
  have s: "sync_ok I" using I by (simp add: infos_ok_def)
  have "(t, SetF) \<in> set (timed_tasks mixed I q) \<longleftrightarrow> (\<exists>i<length I. t = 8 * i + 6 \<and> send_of q (I ! i) \<noteq> [] \<or> mixed \<and> custom \<and> Suc i = length I \<and> t = 8 * i + 4)"
    unfolding in_tasks in_task not_not by (rule ex_cong1) (use all_sync_iff[OF I] in blast)
  also have "\<dots> \<longleftrightarrow> (\<exists>i<length I. t = 8 * i + 6 \<and> (\<exists>j. (i, j) \<in> edges q I)) \<or> mixed \<and> custom \<and> t = 8 * (length I - 1) + 4"
    unfolding last_time[OF n] using edges_ends(1)[OF s] by blast
  also have "(\<exists>i<length I. t = 8 * i + 6 \<and> (\<exists>j. (i, j) \<in> edges q I)) \<longleftrightarrow> (\<exists>(x, y)\<in>edges q I. t = 8 * x + 6)"
    using edges_below(1)[OF s, of _ _ q] by fastforce
  finally show ?thesis .
qed

lemma tasks_WaitF:
  assumes I: "infos_ok tasks custom I" and n: "0 < length I"
  shows "(t, WaitF) \<in> set (timed_tasks mixed I (\<not> q)) \<longleftrightarrow>
    (\<exists>(x, y)\<in>edges q I. t = 8 * y) \<or> mixed \<and> custom \<and> t = 8 * (length I - 1) + 5"
proof -
  have s: "sync_ok I" using I by (simp add: infos_ok_def)
  have "(t, WaitF) \<in> set (timed_tasks mixed I (\<not> q)) \<longleftrightarrow> (\<exists>i<length I. t = 8 * i \<and> recv_of q (I ! i) \<noteq> [] \<or> mixed \<and> custom \<and> Suc i = length I \<and> t = 8 * i + 5)"
    unfolding in_tasks in_task not_not by (rule ex_cong1) (use all_sync_iff[OF I] in blast)
  also have "\<dots> \<longleftrightarrow> (\<exists>i<length I. t = 8 * i \<and> (\<exists>j. (j, i) \<in> edges q I)) \<or> mixed \<and> custom \<and> t = 8 * (length I - 1) + 5"
    unfolding last_time[OF n] using edges_ends(2)[OF s] by blast
  also have "(\<exists>i<length I. t = 8 * i \<and> (\<exists>j. (j, i) \<in> edges q I)) \<longleftrightarrow> (\<exists>(x, y)\<in>edges q I. t = 8 * y)"
    using edges_below(2)[OF s, of _ _ q] by fastforce
  finally show ?thesis .
qed

text \<open>The programs: the tasks, then the added events, which carry an index of their own.\<close>

definition CUSTOM_INDEX :: nat where "CUSTOM_INDEX = 2 ^ 32 - 1"

definition full :: "task list \<Rightarrow> task_sync_info list \<Rightarrow> (bool \<Rightarrow> nat) \<Rightarrow> bool \<Rightarrow> timed" where
  "full tasks I W q = (if kinds tasks q then timed_tasks (mixed_of tasks) I q @ map (\<lambda>k. (8 * length I + k, Work CUSTOM_INDEX)) [0..<W q] else [])"

lemma strict_full:
  assumes "infos_ok tasks custom I"
  shows "strict (full tasks I W q)"
proof -
  have "strict (map (\<lambda>k. (8 * length I + k, Work CUSTOM_INDEX)) [0..<W q])" by (simp add: strict_def comp_def sorted_wrt_map)
  then show ?thesis using strict_tasks[OF assms, where mixed = "mixed_of tasks" and q = q]
    by (fastforce simp: full_def strict_append strict_def[of "[]"])
qed

lemma in_full:
  "(t, SetF) \<in> set (full tasks I W q) \<longleftrightarrow> kinds tasks q \<and> (t, SetF) \<in> set (timed_tasks (mixed_of tasks) I q)"
  "(t, WaitF) \<in> set (full tasks I W q) \<longleftrightarrow> kinds tasks q \<and> (t, WaitF) \<in> set (timed_tasks (mixed_of tasks) I q)"
  by (auto simp: full_def)

lemma set_times: "set (times_of x t) = {k. (k, x) \<in> set t}"
  using times_of_iff by blast

lemma flag_times:
  assumes "\<And>x y. (x, y) \<in> E \<Longrightarrow> K" and "M \<Longrightarrow> K"
  shows "{t. K \<and> ((\<exists>(x, y)\<in>E. t = f (x, y)) \<or> M \<and> c \<and> t = d)} = f ` E \<union> set (if M \<and> c then [d] else [])"
proof (rule set_eqI)
  fix t
  have "t \<in> f ` E \<longleftrightarrow> (\<exists>(x, y)\<in>E. t = f (x, y))" by auto
  moreover have "(\<exists>(x, y)\<in>E. t = f (x, y)) \<longrightarrow> K" using assms(1) by blast
  moreover have "t \<in> set (if M \<and> c then [d] else []) \<longleftrightarrow> M \<and> c \<and> t = d" by auto
  ultimately show "t \<in> {t. K \<and> ((\<exists>(x, y)\<in>E. t = f (x, y)) \<or> M \<and> c \<and> t = d)} \<longleftrightarrow> t \<in> f ` E \<union> set (if M \<and> c then [d] else [])"
    using assms(2) by blast
qed

lemma sorted_flags:
  fixes f :: "'a \<Rightarrow> nat"
  assumes s: "sorted_wrt R L" and f: "\<And>p r. R p r \<Longrightarrow> f p < f r" and d: "\<And>p. p \<in> set L \<Longrightarrow> f p < d"
  shows "sorted_wrt (<) (map f L @ (if b then [d] else []))"
proof -
  have "sorted_wrt (\<lambda>p r. f p < f r) L" using s by (rule sorted_wrt_mono_rel[rotated]) (rule f)
  then show ?thesis using d by (simp add: sorted_wrt_append sorted_wrt_map)
qed

lemma full_flags:
  assumes I: "infos_ok tasks custom I" and n: "0 < length I" and L: "set L = edges q I" "sorted_wrt (\<lambda>p r. fst p < fst r \<and> snd p < snd r) L"
    and fwd: "\<forall>(i, j)\<in>edges q I. i < j \<and> j < length I"
  shows "times_of SetF (full tasks I W q) = map (\<lambda>p. 8 * fst p + 6) L @ (if mixed_of tasks \<and> custom then [8 * (length I - 1) + 4] else [])"
    "times_of WaitF (full tasks I W (\<not> q)) = map (\<lambda>p. 8 * snd p) L @ (if mixed_of tasks \<and> custom then [8 * (length I - 1) + 5] else [])"
proof -
  have l: "length I = length tasks" using I by (simp add: infos_ok_def)
  have fw: "i < j \<and> j < length I" if "(i, j) \<in> edges q I" for i j using fwd that by blast
  have k: "kinds tasks q" "kinds tasks (\<not> q)" if "(i, j) \<in> edges q I" for i j
    using edges_next(3)[OF I that] fw[OF that] uses_kinds[OF I, of i q] uses_kinds[OF I, of j "\<not> q"] l by simp_all
  have mk: "mixed_of tasks \<Longrightarrow> kinds tasks c" for c by (cases c) (simp_all add: mixed_of_def)
  show "times_of SetF (full tasks I W q) = map (\<lambda>p. 8 * fst p + 6) L @ (if mixed_of tasks \<and> custom then [8 * (length I - 1) + 4] else [])"
  proof (rule strict_sorted_equal)
    show "sorted_wrt (<) (times_of SetF (full tasks I W q))" by (rule times_strict[OF strict_full[OF I]])
    have "8 * fst p + 6 < 8 * (length I - 1) + 4" if "p \<in> set L" for p using fw[of "fst p" "snd p"] that by (auto simp: L(1))
    then show "sorted_wrt (<) (map (\<lambda>p. 8 * fst p + 6) L @ (if mixed_of tasks \<and> custom then [8 * (length I - 1) + 4] else []))"
      by (intro sorted_flags[OF L(2)]) auto
    show "set (times_of SetF (full tasks I W q)) = set (map (\<lambda>p. 8 * fst p + 6) L @ (if mixed_of tasks \<and> custom then [8 * (length I - 1) + 4] else []))"
      unfolding set_append set_map L(1) set_times in_full tasks_SetF[OF I n]
      using flag_times[of "edges q I" "kinds tasks q" "mixed_of tasks" "\<lambda>p. 8 * fst p + 6" custom "8 * (length I - 1) + 4", unfolded fst_conv snd_conv] k(1) mk
      by blast
  qed
  show "times_of WaitF (full tasks I W (\<not> q)) = map (\<lambda>p. 8 * snd p) L @ (if mixed_of tasks \<and> custom then [8 * (length I - 1) + 5] else [])"
  proof (rule strict_sorted_equal)
    show "sorted_wrt (<) (times_of WaitF (full tasks I W (\<not> q)))" by (rule times_strict[OF strict_full[OF I]])
    have "8 * snd p < 8 * (length I - 1) + 5" if "p \<in> set L" for p using fw[of "fst p" "snd p"] that by (auto simp: L(1))
    then show "sorted_wrt (<) (map (\<lambda>p. 8 * snd p) L @ (if mixed_of tasks \<and> custom then [8 * (length I - 1) + 5] else []))"
      by (intro sorted_flags[OF L(2)]) auto
    show "set (times_of WaitF (full tasks I W (\<not> q))) = set (map (\<lambda>p. 8 * snd p) L @ (if mixed_of tasks \<and> custom then [8 * (length I - 1) + 5] else []))"
      unfolding set_append set_map L(1) set_times in_full tasks_WaitF[OF I n]
      using flag_times[of "edges q I" "kinds tasks (\<not> q)" "mixed_of tasks" "\<lambda>p. 8 * snd p" custom "8 * (length I - 1) + 5", unfolded fst_conv snd_conv] k(2) mk
      by blast
  qed
qed

end
