(* ===== verification/Sk_Run.thy ===== *)
theory Sk_Run
  imports Sk_Order
begin

text \<open>
  Running the queues that the task builder fills (\<^verbatim>\<open>sk_task_builder.cpp\<close>, \<^verbatim>\<open>kernel/sk_entry.asc\<close>).
\<close>

section \<open>The flags of the two queues correspond\<close>

lemma full_programs:
  assumes I: "infos_ok tasks custom I" and t: "tasks_ok tasks" and n: "0 < length I"
  shows "programs (full tasks I W)"
proof -
  have l: "length I = length tasks" using I by (simp add: infos_ok_def)
  have "list_all2 (<) (times_of SetF (full tasks I W q)) (times_of WaitF (full tasks I W (\<not> q)))" for q
  proof -
    have "crossing q (\<lambda>i. ts_queueType (I ! i)) (next_of tasks) \<subseteq> {..<length tasks} \<times> {..<length tasks}"
      using next_forward[OF t] unfolding crossing_def by fastforce
    then have "finite (crossing q (\<lambda>i. ts_queueType (I ! i)) (next_of tasks))" by (rule finite_subset) simp
    from needed_list[OF this] obtain L where L: "set L = edges q I" "sorted_wrt (\<lambda>p r. fst p < fst r \<and> snd p < snd r) L"
      unfolding edges_next(1)[OF I, of q] by blast
    have fw: "\<forall>(i, j)\<in>edges q I. i < j \<and> j < length I" using edges_next(2)[OF I] next_forward[OF t] unfolding l by blast
    have "list_all2 (<) (map (\<lambda>p. 8 * fst p + 6) L) (map (\<lambda>p. 8 * snd p) L)"
      using fw by (fastforce simp: list_all2_map1 list_all2_map2 list_all2_same L(1)[symmetric])
    then show ?thesis unfolding full_flags[OF I n L fw] by (intro list_all2_appendI) auto
  qed
  then show ?thesis unfolding programs_def using strict_full[OF I] by blast
qed

section \<open>The added events\<close>

lemma unat_UINT32_MAX: "unat UINT32_MAX = CUSTOM_INDEX"
  unfolding UINT32_MAX_def CUSTOM_INDEX_def unat_eq_nat_uint uint_word_ariths by simp

lemma adds_custom:
  assumes k: "\<exists>t\<in>set tasks. is_kernel t" and c: "cache_ok g cache" and n: "is_event n" and r: "room (1 + m) s"
  shows "\<exists>cache' s' b. custom_task g tasks n (cache, s) = Inr (Some (cache', s')) \<and> cache_ok g cache' \<and> room m s' \<and> kinds tasks b \<and>
    (\<forall>q xs. read_queue (fst e) (snd e) q (st_infos (queue_at q s)) = Some xs \<longrightarrow>
       read_queue (fst e) (snd e) q (st_infos (queue_at q s')) = Some (xs @ on b [Work CUSTOM_INDEX] q))"
proof -
  let ?a = "CheckResourceStatus tasks"
  obtain a1 a2 where a: "?a = (a1, a2)" by fastforce
  obtain k' cache' where f: "FindKernelNodeInDirection (nd_preNodeId n) g SEARCH_PREV cache = (k', cache')" by fastforce
  note fk = FindKernel_ok[OF f c]
  obtain q where q: "event_queue ?a (InferFirstKernelEventQueueType tasks (fst ?a) (snd ?a)) queue_of g k' = Inr (Some q)" "event_type ?a q"
    using event_queue_ok[OF resources_known[OF k] fk(2)] by blast
  obtain ty where ty: "event_task_type (nd_nodeType n) = Some ty" "ty \<in> {TYPE_EVENT_NOTIFY, TYPE_EVENT_WAIT, TYPE_EVENT_RESET}"
    using n by (auto simp: is_event_def event_task_type_def)
  have ad: "adds e 1 (on (q = AIC) [Work CUSTOM_INDEX]) (DispatchEventTask n UINT32_MAX ty q)"
    unfolding unat_UINT32_MAX[symmetric] by (rule adds_DispatchEventTask[OF _ ty(2)]) (use n in \<open>simp add: is_event_def\<close>)
  from addsD[OF ad r] obtain s' where s': "DispatchEventTask n UINT32_MAX ty q s = Inr (Some s')" "room m s'"
    "\<And>p xs. read_queue (fst e) (snd e) p (st_infos (queue_at p s)) = Some xs \<Longrightarrow>
       read_queue (fst e) (snd e) p (st_infos (queue_at p s')) = Some (xs @ on (q = AIC) [Work CUSTOM_INDEX] p)" by metis
  have "kinds tasks (q = AIC)" using q(2) by (auto simp: event_type_def kinds_def)
  moreover have "custom_task g tasks n (cache, s) = Inr (Some (cache', s'))"
    using q(1) ty(1) s'(1) f by (simp add: custom_task_def a)
  ultimately show ?thesis using fk(1) s'(2,3) by blast
qed

lemma adds_customs:
  assumes k: "\<exists>t\<in>set tasks. is_kernel t"
  shows "cache_ok g cache \<Longrightarrow> \<forall>n\<in>set ns. is_event n \<Longrightarrow> room (length ns + m) s \<Longrightarrow>
    \<exists>cache' s' W. foldO (custom_task g tasks) ns (cache, s) = Inr (Some (cache', s')) \<and> room m s' \<and> W True + W False = length ns \<and>
      (\<forall>q. 0 < W q \<longrightarrow> kinds tasks q) \<and>
      (\<forall>q xs. read_queue (fst e) (snd e) q (st_infos (queue_at q s)) = Some xs \<longrightarrow>
        read_queue (fst e) (snd e) q (st_infos (queue_at q s')) = Some (xs @ replicate (W q) (Work CUSTOM_INDEX)))"
proof (induction ns arbitrary: cache s)
  case Nil
  then show ?case by (intro exI[of _ cache] exI[of _ s] exI[of _ "\<lambda>_. 0::nat"]) simp
next
  case (Cons n ns)
  have r: "room (1 + (length ns + m)) s" and n: "is_event n" "\<forall>n\<in>set ns. is_event n" using Cons.prems by simp_all
  from adds_custom[OF k Cons.prems(1) n(1) r, of e] obtain c1 s1 b where one: "custom_task g tasks n (cache, s) = Inr (Some (c1, s1))"
    "cache_ok g c1" "room (length ns + m) s1" "kinds tasks b"
    "\<And>q xs. read_queue (fst e) (snd e) q (st_infos (queue_at q s)) = Some xs \<Longrightarrow>
       read_queue (fst e) (snd e) q (st_infos (queue_at q s1)) = Some (xs @ on b [Work CUSTOM_INDEX] q)" by blast
  from Cons.IH[OF one(2) n(2) one(3)] obtain c2 s2 W where more: "foldO (custom_task g tasks) ns (c1, s1) = Inr (Some (c2, s2))" "room m s2"
    "W True + W False = length ns" "\<forall>q. 0 < W q \<longrightarrow> kinds tasks q"
    "\<And>q xs. read_queue (fst e) (snd e) q (st_infos (queue_at q s1)) = Some xs \<Longrightarrow>
        read_queue (fst e) (snd e) q (st_infos (queue_at q s2)) = Some (xs @ replicate (W q) (Work CUSTOM_INDEX))" by blast
  let ?W = "W(b := Suc (W b))"
  have "foldO (custom_task g tasks) (n # ns) (cache, s) = Inr (Some (c2, s2))" using one(1) more(1) by simp
  moreover have "?W True + ?W False = length (n # ns)" using more(3) by (cases b) simp_all
  moreover have "\<forall>q. 0 < ?W q \<longrightarrow> kinds tasks q" using more(4) one(4) by simp
  moreover have "read_queue (fst e) (snd e) q (st_infos (queue_at q s2)) = Some (xs @ replicate (?W q) (Work CUSTOM_INDEX))"
    if "read_queue (fst e) (snd e) q (st_infos (queue_at q s)) = Some xs" for q xs
    using more(5)[OF one(5)[OF that]] by (simp add: on_def)
  ultimately show ?case using more(2) by blast
qed

section \<open>Building\<close>

lemma infos_map_ok:
  assumes I: "infos_ok tasks custom I" and t: "tasks_ok tasks" and i: "i < length I"
    and m: "m \<in> {ts_vecRecvInfo, ts_cubRecvInfo, ts_crossSyncInfo, ts_vecSendInfo, ts_cubSendInfo}" and p: "p \<in> set (m (I ! i))"
  shows "fst p < length I \<and> snd p \<notin> {DIR_NONE, MIX_TO_MIX}"
proof -
  have s: "sync_ok I" and l: "length I = length tasks" using I by (simp_all add: infos_ok_def)
  have both: "fst p < length I \<and> snd p \<notin> {DIR_NONE, MIX_TO_MIX}" if "p \<in> set (send_of c (I ! i)) \<or> p \<in> set (recv_of c (I ! i))" for c
  proof -
    note o = sync_okD[OF s i, of c]
    have "fst p \<in> keys (send_of c (I ! i)) \<or> fst p \<in> keys (recv_of c (I ! i))" using that by (auto simp: keys_def)
    then have "fst p < length I" using o(3,4) edges_below[OF s, of _ _ c] by blast
    moreover have "snd p = dir_of c" using that o(1,2) by (auto simp: map_ok_def)
    ultimately show ?thesis by (simp add: dir_of_def)
  qed
  show ?thesis
  proof (cases "m = ts_crossSyncInfo")
    case True
    show ?thesis
    proof (cases "Suc i = length tasks")
      case True
      then have "ts_crossSyncInfo (I ! i) = (if custom then [(AIC_KEY, DIR_ALL_SYNC)] else [])"
        using I unfolding infos_ok_def True[symmetric] diff_Suc_1 by blast
      then show ?thesis using p i \<open>m = ts_crossSyncInfo\<close> by (auto simp: AIC_KEY_def split: if_splits)
    next
      case False
      then have "\<exists>P. ts_crossSyncInfo (I ! i) = filter P default_hints" and n: "1 < length I" using I i l by (auto simp: infos_ok_def)
      then have "p \<in> set default_hints" using p \<open>m = ts_crossSyncInfo\<close> by auto
      then show ?thesis using n by (auto simp: default_hints_def AIC_KEY_def AIV_KEY_def)
    qed
  next
    case False
    then show ?thesis using m p both[of True] both[of False] by (auto simp: send_of_def recv_of_def)
  qed
qed

text \<open>The functions of every kernel are resolved for the queues it is dispatched to.\<close>

definition resolved :: "int \<Rightarrow> task list \<Rightarrow> bool" where
  "resolved binCount tasks \<longleftrightarrow> (\<forall>t\<in>set tasks. is_kernel t \<longrightarrow> (\<forall>c. uses_queue c (queue_of (snd t)) \<longrightarrow> resolved_for (snd t) binCount c))"

lemma infos_ready:
  assumes I: "infos_ok tasks custom I" and t: "tasks_ok tasks" and r: "resolved b tasks" and i: "i < length tasks"
  shows "task_ready tasks I b i" "map_size (I ! i) \<le> 6"
proof -
  have l: "length I = length tasks" and q: "queue_ok (CheckResourceStatus tasks) (tasks ! i) (ts_queueType (I ! i))"
    using I i by (simp_all add: infos_ok_def)
  have m: "tasks ! i \<in> set tasks" "supported (tasks ! i)" using t i by (simp_all add: tasks_ok_def)
  have maps: "\<forall>m\<in>{ts_vecRecvInfo, ts_cubRecvInfo, ts_crossSyncInfo, ts_vecSendInfo, ts_cubSendInfo}. \<forall>p\<in>set (m (I ! i)).
      fst p < length I \<and> snd p \<notin> {DIR_NONE, MIX_TO_MIX}" using infos_map_ok[OF I t] i l by metis
  have "if is_kernel (tasks ! i) then ts_queueType (I ! i) \<noteq> QT_UNKNOWN \<and> (\<forall>c. uses_queue c (ts_queueType (I ! i)) \<longrightarrow> resolved_for (snd (tasks ! i)) b c)
      else is_event (snd (tasks ! i)) \<and> (ts_queueType (I ! i) = AIC \<or> ts_queueType (I ! i) = AIV)"
  proof (cases "is_kernel (tasks ! i)")
    case True
    then have "ts_queueType (I ! i) = queue_of (snd (tasks ! i))" using q by (simp add: queue_ok_def)
    then show ?thesis using True r m(1) queue_known[OF q] unfolding resolved_def by simp
  next
    case False
    then show ?thesis using q m(2) by (auto simp: queue_ok_def event_type_def supported_def is_event_def)
  qed
  then show "task_ready tasks I b i" using maps unfolding task_ready_def Let_def by simp
  have "length (ts_crossSyncInfo (I ! i)) \<le> 2"
    using infos_cross[OF I, of i] i l length_filter_le[of _ default_hints] by (auto simp: default_hints_def)
  then show "map_size (I ! i) \<le> 6"
    using infos_short[OF I, of i True] infos_short[OF I, of i False] i l by (simp add: map_size_def send_of_def recv_of_def)
qed

text \<open>What the build needs: kernels and events in order, resolved functions, and at most that many of them.\<close>

definition bin_count :: "build_options \<Rightarrow> int" where
  "bin_count opts = (case bo_splitMode opts of None \<Rightarrow> 4 | Some b \<Rightarrow> sint b)"

definition buildable :: "build_options \<Rightarrow> task list \<Rightarrow> sk_node list \<Rightarrow> bool" where
  "buildable opts tasks customs \<longleftrightarrow> plain_build opts \<and> tasks_ok tasks \<and> resolved (bin_count opts) tasks \<and>
     (\<forall>n\<in>set customs. is_event n) \<and> 16 * length tasks + 3 + length customs \<le> 2 ^ 31"

lemma TaskInit_room:
  assumes "0 < n" and "6 * n \<le> 2 ^ 31"
  shows "\<exists>t. TaskInit (n * TYPE_MAX) = Some t \<and> st_infos t = [] \<and> 0 < st_cap t"
proof -
  have "unat (of_nat (n * TYPE_MAX) :: u32) = n * TYPE_MAX" by (rule unat_u32) (use assms in \<open>simp add: TYPE_MAX_def\<close>)
  then have "0 < (of_nat (n * TYPE_MAX) :: u32)" using assms(1) by (simp add: word_less_nat_alt TYPE_MAX_def)
  moreover have "\<not> n * TYPE_MAX > (2 ^ 64 - 1 - SIZEOF_TASK_QUE) div SIZEOF_TASK_INFO"
    using assms(2) by (simp add: TYPE_MAX_def SIZEOF_TASK_QUE_def SIZEOF_TASK_INFO_def)
  ultimately show ?thesis unfolding TaskInit_def by simp
qed

text \<open>The build succeeds, and a core reads the programs above from its queue.\<close>

lemma build_runs:
  assumes b: "buildable opts tasks customs"
  shows "\<exists>s I W. build_queues opts g tasks customs = Inr (Some s) \<and> room 1 s \<and> build_infos opts g tasks (customs \<noteq> []) = Inr (Some I) \<and>
    infos_ok tasks (customs \<noteq> []) I \<and>
    W True + W False = length customs \<and> (\<forall>q. 0 < W q \<longrightarrow> kinds tasks q) \<and>
    (\<forall>q. kinds tasks q \<longrightarrow> read_queue False (mixed_of tasks) q (st_infos (queue_at q s)) = Some (map snd (full tasks I W q)))"
proof -
  have p: "plain_build opts" and t: "tasks_ok tasks" and r: "resolved (bin_count opts) tasks" and ev: "\<forall>n\<in>set customs. is_event n"
    and sz: "16 * length tasks + 3 + length customs \<le> 2 ^ 31" using b by (simp_all add: buildable_def)
  have k: "\<exists>t\<in>set tasks. is_kernel t" using t by (simp add: tasks_ok_def)
  then have n: "0 < length tasks" by (cases tasks) auto
  have dbg: "\<not> EnableDebug opts" and es: "\<not> option_is (bo_earlyStart opts) 1" using p by (simp_all add: plain_build_def)
  let ?e = "(False, mixed_of tasks)"
  obtain I where I: "build_infos opts g tasks (customs \<noteq> []) = Inr (Some I)" "infos_ok tasks (customs \<noteq> []) I"
    using build_infos_ok[OF p t] by blast
  have l: "length I = length tasks" using I(2) by (simp add: infos_ok_def)
  have sz6: "6 * length tasks \<le> 2 ^ 31" using sz by simp
  obtain c where c: "TaskInit (length tasks * TYPE_MAX) = Some c" "st_infos c = []" "0 < st_cap c" using TaskInit_room[OF n sz6] by blast
  note rd = infos_ready[OF I(2) t r]
  have ad: "adds ?e (2 + (2 * 6 + 4) * length tasks) (\<lambda>q. concat (map (\<lambda>i. task_ops (snd ?e) i (I ! i) q) [0..<length tasks]))
    (dispatch_all opts False tasks I (bin_count opts))"
    by (rule adds_dispatch_all[OF dbg]) (use rd in blast)+
  have room: "room (2 + (2 * 6 + 4) * length tasks + (length customs + 1)) (c, c)" using sz c(2,3) by (simp add: room_def queue_at_def)
  obtain s where s: "dispatch_all opts False tasks I (bin_count opts) (c, c) = Inr (Some s)" "room (length customs + 1) s"
    "\<And>q xs. read_queue (fst ?e) (snd ?e) q (st_infos (queue_at q (c, c))) = Some xs \<Longrightarrow> read_queue (fst ?e) (snd ?e) q (st_infos (queue_at q s)) =
       Some (xs @ concat (map (\<lambda>i. task_ops (snd ?e) i (I ! i) q) [0..<length tasks]))" by (rule addsD[OF ad room]) blast
  have rs: "read_queue False (mixed_of tasks) q (st_infos (queue_at q s)) = Some (map snd (timed_tasks (mixed_of tasks) I q))" for q
    using s(3)[of q "[]"] c(2) snd_timed_tasks[OF I(2), of "mixed_of tasks" q] sz l by (simp add: queue_at_def)
  have "cache_ok g Map.empty" by (simp add: cache_ok_def)
  from adds_customs[OF k this ev, of 1 s ?e] s(2) obtain c2 s2 W where cu: "foldO (custom_task g tasks) customs (Map.empty, s) = Inr (Some (c2, s2))"
    "room 1 s2" "W True + W False = length customs" "\<forall>q. 0 < W q \<longrightarrow> kinds tasks q"
    "\<And>q xs. read_queue (fst ?e) (snd ?e) q (st_infos (queue_at q s)) = Some xs \<Longrightarrow>
       read_queue (fst ?e) (snd ?e) q (st_infos (queue_at q s2)) = Some (xs @ replicate (W q) (Work CUSTOM_INDEX))" by auto
  have "build_queues opts g tasks customs = Inr (Some s2)"
    using n I(1) c(1) s(1) cu(1) es by (simp add: build_queues_def bin_count_def Let_def)
  moreover have "read_queue False (mixed_of tasks) q (st_infos (queue_at q s2)) = Some (map snd (full tasks I W q))" if "kinds tasks q" for q
    using cu(5)[of q, unfolded fst_conv snd_conv, OF rs] that by (simp add: full_def comp_def map_replicate_const)
  ultimately show ?thesis using I cu(2-4) by blast
qed

text \<open>
  \<^bold>\<open>The synchronisation of a kernel is well typed.\<close> For kernels and events whose dependencies point forwards it is computed without an error,
  whatever else the graph holds; every kernel has the queues of its type and every event one queue that some kernel uses, and every synchronisation
  names a task that exists in a direction that can be dispatched.
\<close>

theorem build_infos_typed:
  assumes "plain_build opts" and "tasks_ok tasks"
  shows "\<exists>I. build_infos opts g tasks custom = Inr (Some I) \<and> length I = length tasks \<and>
    (\<forall>i<length tasks. queue_ok (CheckResourceStatus tasks) (tasks ! i) (ts_queueType (I ! i)) \<and>
      (\<forall>m\<in>{ts_vecRecvInfo, ts_cubRecvInfo, ts_crossSyncInfo, ts_vecSendInfo, ts_cubSendInfo}. \<forall>p\<in>set (m (I ! i)).
         fst p < length tasks \<and> sync_targets (GetSyncTypesForDirection (snd p) True) \<noteq> None \<and>
         sync_targets (GetSyncTypesForDirection (snd p) False) \<noteq> None))"
proof -
  obtain I where I: "build_infos opts g tasks custom = Inr (Some I)" "infos_ok tasks custom I" using build_infos_ok[OF assms] by blast
  have l: "length I = length tasks" using I(2) by (simp add: infos_ok_def)
  have d: "d \<notin> {DIR_NONE, MIX_TO_MIX} \<Longrightarrow> sync_targets (GetSyncTypesForDirection d b) \<noteq> None" for d b
    by (cases d; cases b) (simp_all add: GetSyncTypesForDirection_def sync_targets_def)
  have "queue_ok (CheckResourceStatus tasks) (tasks ! i) (ts_queueType (I ! i))" if "i < length tasks" for i
    using I(2) that by (simp add: infos_ok_def)
  then show ?thesis using I(1) l infos_map_ok[OF I(2) assms(2)] d by metis
qed

section \<open>The cores run the queues\<close>

lemma trancl_mono_lt: "(i, j) \<in> D\<^sup>+ \<Longrightarrow> \<forall>(x, y)\<in>D. x < y \<Longrightarrow> i < (j :: nat)"
  by (induction rule: trancl_induct) force+

text \<open>
  A core of a kind no task needs has nothing to do: the entry function is then one for the other kind alone.
\<close>

definition loaded :: "task list \<Rightarrow> sk_queues \<Rightarrow> cores" where
  "loaded tasks s = (\<lambda>(g, q). if kinds tasks q
     then (case read_queue False (mixed_of tasks) q (st_infos (queue_at q s)) of None \<Rightarrow> [] | Some xs \<Rightarrow> xs) else [], \<lambda>_. 0)"

lemma loaded_start:
  assumes "\<forall>q. kinds tasks q \<longrightarrow> read_queue False (mixed_of tasks) q (st_infos (queue_at q s)) = Some (map snd (full tasks I W q))"
  shows "loaded tasks s = core_start (full tasks I W)"
  using assms by (auto simp: loaded_def core_start_def full_def fun_eq_iff)

text \<open>What a core has executed since a state.\<close>

definition executed :: "cores \<Rightarrow> cores \<Rightarrow> core \<Rightarrow> core_op list" where
  "executed s t c = take (length (fst s c) - length (fst t c)) (fst s c)"

lemma executed_agrees:
  assumes "agrees N T C R t" and "g < N"
  shows "executed (core_start T) t (g, q) = map snd (C (g, q))"
  using agreesD(1,2)[OF assms, of q] by (simp add: executed_def core_start_def)

lemma reach_agrees: "(core_step N)\<^sup>*\<^sup>* (core_start T) t \<Longrightarrow> \<exists>C R. agrees N T C R t"
  using agrees_run[OF _ agrees_start] .

text \<open>The tasks a program contains, each at its time.\<close>

lemma full_Work:
  assumes I: "infos_ok tasks custom I" and n: "length tasks < CUSTOM_INDEX" and i: "i < length tasks"
  shows "(t, Work i) \<in> set (full tasks I W q) \<longleftrightarrow> t = 8 * i + 1 \<and> uses_queue q (ts_queueType (I ! i))"
proof -
  have "length I = length tasks" using I by (simp add: infos_ok_def)
  then show ?thesis using i n uses_kinds[OF I i, of q] tasks_Work[of t i "mixed_of tasks" I q]
    by (cases "kinds tasks q") (auto simp: full_def)
qed

lemma in_timed: "x \<in> set (map snd t) \<longleftrightarrow> (\<exists>k. (k, x) \<in> set t)"
  by force

lemma count_times: "count_list (map snd t) x = length (times_of x t)"
  by (induction t) auto

text \<open>A way from a task of one queue to a task of the other crosses over.\<close>

lemma path_crosses:
  assumes "(i, j) \<in> D\<^sup>+" and up: "\<forall>(x, y)\<in>D. x < y" and all: "\<forall>(x, y)\<in>D. \<exists>c. uses_queue c (q y)"
    and i: "uses_queue a (q i)"
  shows "uses_queue (\<not> a) (q j) \<Longrightarrow> \<exists>x y. (x, y) \<in> crossing a q D \<and> i \<le> x \<and> y \<le> j"
  using assms(1)
proof (induction rule: trancl_induct)
  case (base y)
  then show ?case using i by (auto simp: crossing_def)
next
  case (step y z)
  have iy: "i < y" using trancl_mono_lt[OF step(1)] up by blast
  have yz: "y < z" using step(2) up by blast
  show ?case
  proof (cases "uses_queue (\<not> a) (q y)")
    case True
    then show ?thesis using step.IH yz by (meson le_trans less_imp_le)
  next
    case False
    have "\<exists>c. uses_queue c (q y)" using step(1) all by (cases rule: trancl.cases) auto
    then have "uses_queue a (q y)" using False by (cases a) (auto simp: ex_bool_eq)
    then have "(y, z) \<in> crossing a q D" using step by (simp add: crossing_def)
    then show ?thesis using iy by (meson less_imp_le order_refl)
  qed
qed

text \<open>A task before \<open>j\<close> and everything up to the next operation of its queue are done when \<open>j\<close> is.\<close>

lemma run_order:
  assumes I: "infos_ok tasks custom I" and t: "tasks_ok tasks" and n: "length tasks < CUSTOM_INDEX"
    and s: "agrees N (full tasks I W) C R st" and g: "g < N" and p: "(i, j) \<in> (next_of tasks)\<^sup>+"
    and d: "(k, Work j) \<in> set (C (g, b))" and i: "(m, Work i) \<in> set (full tasks I W a)"
    and z: "z \<in> set (full tasks I W a)" "\<forall>y\<in>set (full tasks I W a). m < fst y \<longrightarrow> fst z \<le> fst y"
  shows "z \<in> set (C (g, a))"
proof -
  let ?T = "full tasks I W" and ?q = "\<lambda>i. ts_queueType (I ! i)"
  have l: "length I = length tasks" using I by (simp add: infos_ok_def)
  have fw: "\<forall>(x, y)\<in>next_of tasks. x < y" "\<forall>(x, y)\<in>next_of tasks. y < length tasks" using next_forward[OF t] by auto
  have ij: "i < j" using trancl_mono_lt[OF p] fw(1) by blast
  have j: "j < length tasks" using p fw(2) by (cases rule: trancl.cases) auto
  then have lI: "0 < length I" using l by auto
  have pr: "programs ?T" by (rule full_programs[OF I t lI])
  note st = agreesD(1)[OF s g]
  have "(k, Work j) \<in> set (?T b)" using d by (simp add: st)
  then have k: "k = 8 * j + 1" "uses_queue b (?q j)" using full_Work[OF I n j, of k W b] by simp_all
  have m: "m = 8 * i + 1" "uses_queue a (?q i)" using i full_Work[OF I n, of i m W a] ij j by simp_all
  show ?thesis
  proof (cases "a = b")
    case True
    have "fst z \<le> k" using z(2) \<open>(k, Work j) \<in> set (?T b)\<close> True ij k(1) m(1) by fastforce
    then show ?thesis using done_before[of "C (g, b)" "R (g, b)" "(k, Work j)" z] d z(1) True programsD(1)[OF pr, of b]
      unfolding st by simp
  next
    case False
    then have b: "b = (\<not> a)" by blast
    have "\<forall>(x, y)\<in>next_of tasks. \<exists>c. uses_queue c (?q y)" using task_uses[OF I] fw(2) by blast
    from path_crosses[OF p fw(1) this m(2)] k(2) b obtain x y where xy: "(x, y) \<in> crossing a ?q (next_of tasks)" "i \<le> x" "y \<le> j" by blast
    have "crossing a ?q (next_of tasks) \<subseteq> {..<length tasks} \<times> {..<length tasks}"
      using next_forward[OF t] unfolding crossing_def by fastforce
    then have fin: "finite (crossing a ?q (next_of tasks))" by (rule finite_subset) simp
    from needed_cover[OF fin xy(1)] obtain u v where uv: "(u, v) \<in> edges a I" "x \<le> u" "v \<le> y"
      unfolding edges_next(1)[OF I, of a] by blast
    from needed_list[OF fin] obtain L where L: "set L = edges a I" "sorted_wrt (\<lambda>p r. fst p < fst r \<and> snd p < snd r) L"
      unfolding edges_next(1)[OF I, of a] by blast
    have "\<forall>(i, j)\<in>edges a I. i < j \<and> j < length I" using edges_next(2)[OF I] next_forward[OF t] unfolding l by blast
    note fl = full_flags[OF I lI L this, of W]
    have "(u, v) \<in> set L" using uv(1) L(1) by simp
    then obtain e where e: "e < length L" "L ! e = (u, v)" by (auto simp: in_set_conv_nth)
    have w: "e < length (times_of WaitF (?T (\<not> a)))" "times_of WaitF (?T (\<not> a)) ! e = 8 * v" "times_of SetF (?T a) ! e = 8 * u + 6"
      unfolding fl using e by (simp_all add: nth_append)
    have "8 * u + 6 \<in> set (times_of SetF (?T a))" using w fl(1) e by (metis nth_mem length_append length_map trans_less_add1)
    then have "fst z \<le> 8 * u + 6" using z(2) m(1) xy uv by (fastforce simp: times_of_iff)
    then show ?thesis by (intro in_order[OF pr s g w(1), where y = "(k, Work j)"]) (use w(2,3) d b k(1) xy uv z(1) in auto)
  qed
qed

lemma executed_Work:
  assumes "agrees N T C R st" and "g < N"
  shows "x \<in> set (executed (core_start T) st (g, q)) \<longleftrightarrow> (\<exists>k. (k, x) \<in> set (C (g, q)))"
  unfolding executed_agrees[OF assms] in_timed ..

lemma full_custom:
  assumes I: "infos_ok tasks custom I" and n: "length tasks < CUSTOM_INDEX" and k: "(k, Work CUSTOM_INDEX) \<in> set (full tasks I W b)"
  shows "8 * length tasks \<le> k \<and> kinds tasks b \<and> 0 < W b"
proof -
  have l: "length I = length tasks" using I by (simp add: infos_ok_def)
  have no: "(k, Work CUSTOM_INDEX) \<notin> set (timed_tasks (mixed_of tasks) I b)" unfolding tasks_Work using n l by simp
  have kb: "kinds tasks b"
  proof (rule ccontr)
    assume "\<not> kinds tasks b"
    then show False using k by (simp add: full_def)
  qed
  then have "(k, Work CUSTOM_INDEX) \<in> set (map (\<lambda>k. (8 * length I + k, Work CUSTOM_INDEX)) [0..<W b])" using k no by (simp add: full_def)
  then show ?thesis using kb l by auto
qed

lemma customs_last:
  assumes I: "infos_ok tasks True I" and t: "tasks_ok tasks" and n: "length tasks < CUSTOM_INDEX"
    and s: "agrees N (full tasks I W) C R st" and g: "g < N" "h < N"
    and d: "(k, Work CUSTOM_INDEX) \<in> set (C (g, b))" and i: "i < length tasks" "(m, Work i) \<in> set (full tasks I W a)"
  shows "(m, Work i) \<in> set (C (h, a))"
proof -
  let ?T = "full tasks I W" and ?n = "length tasks - 1"
  have l: "length I = length tasks" using I by (simp add: infos_ok_def)
  have lI: "0 < length I" and n1: "Suc ?n = length tasks" using i l by auto
  have pr: "programs ?T" by (rule full_programs[OF I t lI])
  have m: "m = 8 * i + 1" using full_Work[OF I n i(1)] i(2) by blast
  then have le: "m \<le> 8 * ?n + 1" using i(1) n1 by simp
  have kb: "kinds tasks q" if "(u, v) \<in> set (?T q)" for u v q using that by (simp add: full_def split: if_splits)
  have "(k, Work CUSTOM_INDEX) \<in> set (?T b)" using d agreesD(1)[OF s g(1), of b] by simp
  then have k: "8 * length tasks \<le> k" "kinds tasks b" using full_custom[OF I n] by blast+
  have ka: "kinds tasks a" using kb i(2) by blast
  have al: "\<exists>z. (z, DIR_ALL_SYNC) \<in> set (ts_crossSyncInfo (I ! ?n))" using all_sync_iff[OF I, of ?n] n1 l by simp
  have mt: "(8 * ?n + 3, Meet) \<in> set (?T q)" if "kinds tasks q" for q
  proof -
    have "(8 * ?n + 3, Meet) \<in> set (timed_task (mixed_of tasks) ?n (I ! ?n) q)" using al in_cross(4) by (auto simp: timed_task_def)
    then have "(8 * ?n + 3, Meet) \<in> set (timed_tasks (mixed_of tasks) I q)" unfolding in_tasks using n1 l by (intro exI[of _ ?n]) simp
    then show ?thesis using that by (simp add: full_def)
  qed
  show ?thesis
  proof (cases "a = b")
    case True
    show ?thesis by (rule met[OF pr s g mt[OF ka], where y = "(k, Work CUSTOM_INDEX)"]) (use d i k le n1 True in auto)
  next
    case False
    then have b: "b = (\<not> a)" by blast
    have mix: "mixed_of tasks" using k(2) ka b by (cases a) (simp_all add: mixed_of_def)
    have "crossing a (\<lambda>i. ts_queueType (I ! i)) (next_of tasks) \<subseteq> {..<length tasks} \<times> {..<length tasks}"
      using next_forward[OF t] unfolding crossing_def by fastforce
    then have fin: "finite (crossing a (\<lambda>i. ts_queueType (I ! i)) (next_of tasks))" by (rule finite_subset) simp
    from needed_list[OF fin] obtain L where L: "set L = edges a I" "sorted_wrt (\<lambda>p r. fst p < fst r \<and> snd p < snd r) L"
      unfolding edges_next(1)[OF I, of a] by blast
    have "\<forall>(i, j)\<in>edges a I. i < j \<and> j < length I" using edges_next(2)[OF I] next_forward[OF t] unfolding l by blast
    note fl = full_flags[OF I lI L this, of W]
    let ?e = "length L"
    have w: "?e < length (times_of WaitF (?T (\<not> a)))" "times_of WaitF (?T (\<not> a)) ! ?e = 8 * ?n + 5" "times_of SetF (?T a) ! ?e = 8 * ?n + 4"
      unfolding fl using mix l by (simp_all add: nth_append)
    have "(8 * ?n + 3, Meet) \<in> set (C (g, a))"
      by (rule in_order[OF pr s g(1) w(1), where y = "(k, Work CUSTOM_INDEX)"]) (use w(2,3) d b k n1 mt[OF ka] in auto)
    then show ?thesis by (rule met[OF pr s g mt[OF ka], rotated]) (use i le in auto)
  qed
qed

section \<open>Programs of the kernel\<close>

text \<open>
  Every task is in the right queues, once: the programs of the cores contain a kernel exactly once in each
  queue its type asks for, an event of the graph exactly once in one queue, and every added event once.
\<close>

definition queued_once :: "task list \<Rightarrow> sk_node list \<Rightarrow> sk_queues \<Rightarrow> bool" where
  "queued_once tasks customs s \<longleftrightarrow>
    (\<forall>h i. i < length tasks \<and> is_kernel (tasks ! i) \<longrightarrow>
       (\<forall>q. count_list (fst (loaded tasks s) (h, q)) (Work i) = (if uses_queue q (queue_of (snd (tasks ! i))) then 1 else 0))) \<and>
    (\<forall>h i. i < length tasks \<and> \<not> is_kernel (tasks ! i) \<longrightarrow>
       count_list (fst (loaded tasks s) (h, True)) (Work i) + count_list (fst (loaded tasks s) (h, False)) (Work i) = 1) \<and>
    (\<forall>h. count_list (fst (loaded tasks s) (h, True)) (Work CUSTOM_INDEX) + count_list (fst (loaded tasks s) (h, False)) (Work CUSTOM_INDEX)
       = length customs)"

lemma Build_dispatches_once:
  assumes "buildable opts tasks customs"
  shows "\<exists>s. build_queues opts g tasks customs = Inr (Some s) \<and> queued_once tasks customs s"
proof -
  obtain s I W where s: "build_queues opts g tasks customs = Inr (Some s)" "infos_ok tasks (customs \<noteq> []) I"
    "W True + W False = length customs" "\<forall>q. 0 < W q \<longrightarrow> kinds tasks q"
    "\<forall>q. kinds tasks q \<longrightarrow> read_queue False (mixed_of tasks) q (st_infos (queue_at q s)) = Some (map snd (full tasks I W q))"
    using build_runs[OF assms] by blast
  have n: "length tasks < CUSTOM_INDEX" using assms by (simp add: buildable_def CUSTOM_INDEX_def)
  have l: "length I = length tasks" using s(2) by (simp add: infos_ok_def)
  have ld: "fst (loaded tasks s) (h, q) = map snd (full tasks I W q)" for h q unfolding loaded_start[OF s(5)] core_start_def by simp
  have c: "count_list (fst (loaded tasks s) (h, q)) (Work i) = (if uses_queue q (ts_queueType (I ! i)) then 1 else 0)" if i: "i < length tasks" for h q i
  proof -
    have "times_of (Work i) (full tasks I W q) = (if uses_queue q (ts_queueType (I ! i)) then [8 * i + 1] else [])"
    proof (rule strict_sorted_equal)
      show "sorted_wrt (<) (times_of (Work i) (full tasks I W q))" by (rule times_strict[OF strict_full[OF s(2)]])
      show "set (times_of (Work i) (full tasks I W q)) = set (if uses_queue q (ts_queueType (I ! i)) then [8 * i + 1] else [])"
        unfolding set_times full_Work[OF s(2) n i] by auto
    qed simp
    then show ?thesis unfolding ld count_times by simp
  qed
  have cu: "count_list (fst (loaded tasks s) (h, q)) (Work CUSTOM_INDEX) = W q" for h q
  proof -
    have "times_of (Work CUSTOM_INDEX) (timed_tasks (mixed_of tasks) I q) = []"
      unfolding set_empty[symmetric] set_times tasks_Work using n l by simp
    moreover have "times_of (Work CUSTOM_INDEX) (map (\<lambda>k. (8 * length I + k, Work CUSTOM_INDEX)) ks) = map (\<lambda>k. 8 * length I + k) ks" for ks
      by (induction ks) simp_all
    ultimately show ?thesis unfolding ld count_times using s(4) by (auto simp: full_def)
  qed
  have q: "queue_ok (CheckResourceStatus tasks) (tasks ! i) (ts_queueType (I ! i))" if "i < length tasks" for i
    using s(2) that by (simp add: infos_ok_def)
  have "count_list (fst (loaded tasks s) (h, q)) (Work i) = (if uses_queue q (queue_of (snd (tasks ! i))) then 1 else 0)"
    if "i < length tasks" "is_kernel (tasks ! i)" for h q i
    using c[OF that(1)] q[OF that(1)] that(2) by (simp add: queue_ok_def)
  moreover have "count_list (fst (loaded tasks s) (h, True)) (Work i) + count_list (fst (loaded tasks s) (h, False)) (Work i) = 1"
    if "i < length tasks" "\<not> is_kernel (tasks ! i)" for h i
    unfolding c[OF that(1)] using q[OF that(1)] that(2) by (auto simp: queue_ok_def event_type_def uses_queue_def UsesAic_def UsesAiv_def)
  moreover have "count_list (fst (loaded tasks s) (h, True)) (Work CUSTOM_INDEX) + count_list (fst (loaded tasks s) (h, False)) (Work CUSTOM_INDEX)
      = length customs" for h unfolding cu by (rule s(3))
  ultimately show ?thesis using s(1) unfolding queued_once_def by blast
qed

text \<open>
  C9 \<^bold>\<open>The queues hold every task once and keep the order of the streams and the events.\<close> Without early start, split mixed kernels and the debug
  synchronisation, for at least one kernel, and kernels and events with resolved functions whose dependencies between kernels point forwards, the build succeeds. The
  program of a core has a kernel exactly once if the core is of a kind the kernel's type asks for and not otherwise, an event of the graph is
  exactly once in the program of one kind of core, and so is every added event. However the cores of the groups interleave: once a core of a
  group has executed a task \<open>j\<close>, every task \<open>i\<close> before it on its stream, every kernel that sends to it, and all that these in turn come behind,
  has been executed by every core of that group that has it in its queue.
\<close>

theorem Build_keeps_order:
  assumes "buildable opts tasks customs"
  shows "\<exists>s. build_queues opts g tasks customs = Inr (Some s) \<and> queued_once tasks customs s \<and>
    (\<forall>N st i j h a b. (core_step N)\<^sup>*\<^sup>* (loaded tasks s) st \<and> (i, j) \<in> (next_of tasks)\<^sup>+ \<and> h < N \<and>
       Work j \<in> set (executed (loaded tasks s) st (h, b)) \<and> Work i \<in> set (fst (loaded tasks s) (h, a)) \<longrightarrow>
       Work i \<in> set (executed (loaded tasks s) st (h, a)))"
proof -
  obtain s I W where s: "build_queues opts g tasks customs = Inr (Some s)" "infos_ok tasks (customs \<noteq> []) I"
    "\<forall>q. kinds tasks q \<longrightarrow> read_queue False (mixed_of tasks) q (st_infos (queue_at q s)) = Some (map snd (full tasks I W q))"
    using build_runs[OF assms] by blast
  have t: "tasks_ok tasks" and n: "length tasks < CUSTOM_INDEX" using assms by (simp_all add: buildable_def CUSTOM_INDEX_def)
  have "Work i \<in> set (executed (loaded tasks s) st (h, a))"
    if r: "(core_step N)\<^sup>*\<^sup>* (loaded tasks s) st" and p: "(i, j) \<in> (next_of tasks)\<^sup>+" and h: "h < N"
      and j: "Work j \<in> set (executed (loaded tasks s) st (h, b))" and i: "Work i \<in> set (fst (loaded tasks s) (h, a))"
    for N st i j h a b
  proof -
    obtain C R where ag: "agrees N (full tasks I W) C R st" using reach_agrees r unfolding loaded_start[OF s(3)] by blast
    have "\<exists>k. (k, Work i) \<in> set (full tasks I W a)" using i unfolding loaded_start[OF s(3)] core_start_def by force
    then obtain k where k: "(k, Work i) \<in> set (full tasks I W a)" by blast
    obtain k' where "(k', Work j) \<in> set (C (h, b))" using j unfolding loaded_start[OF s(3)] executed_Work[OF ag h] by blast
    from run_order[OF s(2) t n ag h p this k k] show ?thesis unfolding loaded_start[OF s(3)] executed_Work[OF ag h] by auto
  qed
  moreover have "queued_once tasks customs s" using Build_dispatches_once[OF assms, of g] s(1) by simp
  ultimately show ?thesis using s(1) by blast
qed


text \<open>
  C11 \<^bold>\<open>The added events come last.\<close> The events that postprocessing adds behind the tasks (the core that executes one skips to
  the index no task has) run only when every core of every group has executed every task in its queue.
\<close>

theorem Build_custom_events_last:
  assumes "buildable opts tasks customs"
  shows "\<exists>s. build_queues opts g tasks customs = Inr (Some s) \<and>
    (\<forall>N st i h h' a b. (core_step N)\<^sup>*\<^sup>* (loaded tasks s) st \<and> h < N \<and> h' < N \<and> i < length tasks \<and>
       Work CUSTOM_INDEX \<in> set (executed (loaded tasks s) st (h, b)) \<and> Work i \<in> set (fst (loaded tasks s) (h', a)) \<longrightarrow>
       Work i \<in> set (executed (loaded tasks s) st (h', a)))"
proof -
  obtain s I W where s: "build_queues opts g tasks customs = Inr (Some s)" "infos_ok tasks (customs \<noteq> []) I"
    "W True + W False = length customs"
    "\<forall>q. kinds tasks q \<longrightarrow> read_queue False (mixed_of tasks) q (st_infos (queue_at q s)) = Some (map snd (full tasks I W q))"
    using build_runs[OF assms] by blast
  have t: "tasks_ok tasks" and n: "length tasks < CUSTOM_INDEX" using assms by (simp_all add: buildable_def CUSTOM_INDEX_def)
  have "Work i \<in> set (executed (loaded tasks s) st (h', a))"
    if r: "(core_step N)\<^sup>*\<^sup>* (loaded tasks s) st" and h: "h < N" "h' < N" and i: "i < length tasks"
      and j: "Work CUSTOM_INDEX \<in> set (executed (loaded tasks s) st (h, b))" and ia: "Work i \<in> set (fst (loaded tasks s) (h', a))"
    for N st i h h' a b
  proof -
    obtain C R where ag: "agrees N (full tasks I W) C R st" using reach_agrees r unfolding loaded_start[OF s(4)] by blast
    obtain k where k: "(k, Work CUSTOM_INDEX) \<in> set (C (h, b))" using j unfolding loaded_start[OF s(4)] executed_Work[OF ag h(1)] by blast
    then have "(k, Work CUSTOM_INDEX) \<in> set (full tasks I W b)" using agreesD(1)[OF ag h(1), of b] by simp
    then have "0 < W b" using full_custom[OF s(2) n] by blast
    then have "customs \<noteq> []" using s(3) by (cases b) auto
    then have I: "infos_ok tasks True I" using s(2) by simp
    have "\<exists>k. (k, Work i) \<in> set (full tasks I W a)" using ia unfolding loaded_start[OF s(4)] core_start_def by force
    then show ?thesis using customs_last[OF I t n ag h k i] unfolding loaded_start[OF s(4)] executed_Work[OF ag h(2)] by blast
  qed
  then show ?thesis using s(1) by blast
qed

text \<open>
  A synchronisation behind a task holds up all groups: where the entry directly behind a task \<open>i\<close> of a queue
  synchronises the cores of that queue, no core executes a task that depends on \<open>i\<close> before the cores of all groups have executed \<open>i\<close>.
\<close>

theorem Build_meets:
  assumes "buildable opts tasks customs"
  shows "\<exists>s. build_queues opts g tasks customs = Inr (Some s) \<and>
    (\<forall>N st i j h h' a b xs ys. (core_step N)\<^sup>*\<^sup>* (loaded tasks s) st \<and> (i, j) \<in> (next_of tasks)\<^sup>+ \<and> h < N \<and> h' < N \<and>
       fst (loaded tasks s) (h, a) = xs @ Work i # Meet # ys \<and> Work j \<in> set (executed (loaded tasks s) st (h, b)) \<longrightarrow>
       Work i \<in> set (executed (loaded tasks s) st (h', a)))"
proof -
  obtain s I W where s: "build_queues opts g tasks customs = Inr (Some s)" "infos_ok tasks (customs \<noteq> []) I"
    "\<forall>q. kinds tasks q \<longrightarrow> read_queue False (mixed_of tasks) q (st_infos (queue_at q s)) = Some (map snd (full tasks I W q))"
    using build_runs[OF assms] by blast
  have t: "tasks_ok tasks" and n: "length tasks < CUSTOM_INDEX" using assms by (simp_all add: buildable_def CUSTOM_INDEX_def)
  have "length I = length tasks" using s(2) by (simp add: infos_ok_def)
  moreover have "tasks \<noteq> []" using t by (auto simp: tasks_ok_def)
  ultimately have pr: "programs (full tasks I W)" using full_programs[OF s(2) t] by simp
  have "Work i \<in> set (executed (loaded tasks s) st (h', a))"
    if r: "(core_step N)\<^sup>*\<^sup>* (loaded tasks s) st" and p: "(i, j) \<in> (next_of tasks)\<^sup>+" and h: "h < N" "h' < N"
      and q: "fst (loaded tasks s) (h, a) = xs @ Work i # Meet # ys" and j: "Work j \<in> set (executed (loaded tasks s) st (h, b))"
    for N st i j h h' a b xs ys
  proof -
    obtain C R where ag: "agrees N (full tasks I W) C R st" using reach_agrees r unfolding loaded_start[OF s(3)] by blast
    have "map snd (full tasks I W a) = xs @ Work i # Meet # ys" using q unfolding loaded_start[OF s(3)] core_start_def by simp
    then obtain us m m' vs where f: "full tasks I W a = us @ (m, Work i) # (m', Meet) # vs" by (auto simp: map_eq_append_conv map_eq_Cons_conv)
    have st: "strict (us @ (m, Work i) # (m', Meet) # vs)" using programsD(1)[OF pr, of a] f by simp
    have aft: "\<forall>y\<in>set (full tasks I W a). m < fst y \<longrightarrow> m' \<le> fst y" "m \<le> m'" using st unfolding f
      by (auto simp: strict_def sorted_wrt_append)
    obtain k where "(k, Work j) \<in> set (C (h, b))" using j unfolding loaded_start[OF s(3)] executed_Work[OF ag h(1)] by blast
    from run_order[OF s(2) t n ag h(1) p this, of m a "(m', Meet)"] aft have "(m', Meet) \<in> set (C (h, a))" by (simp add: f)
    from met[OF pr ag h _ _ this, of m' "(m, Work i)"] aft have "(m, Work i) \<in> set (C (h', a))" by (simp add: f)
    then show ?thesis unfolding loaded_start[OF s(3)] executed_Work[OF ag h(2)] by blast
  qed
  then show ?thesis using s(1) by blast
qed

section \<open>An example\<close>

text \<open>One stream: a cube kernel, a notify, a wait, a cube kernel and a vector kernel.\<close>

definition run_kernel :: "sk_kernel_type \<Rightarrow> node_id \<Rightarrow> node_id \<Rightarrow> node_id \<Rightarrow> sk_node" where
  "run_kernel ty pre i nxt = (let n = sample_node KernelNode NODE_KERNEL pre i nxt in
     n\<lparr> nd_kernelInfos := (nd_kernelInfos n)\<lparr> ki_kernelType := ty, ki_numBlocks := 2,
       ki_resolvedFuncs := replicate 4 (default_resolved_func\<lparr> rf_funcAddr := (64, 64) \<rparr>) \<rparr> \<rparr>)"

definition run_nodes :: "sk_node list" where
  "run_nodes = [run_kernel AIC_ONLY INVALID_TASK_ID 1 2, sample_node MemoryNode NODE_NOTIFY 1 2 3, sample_node MemoryNode NODE_WAIT 2 3 4,
     run_kernel AIC_ONLY 3 4 5, run_kernel AIV_ONLY 4 5 INVALID_TASK_ID]"

definition run_graph :: sk_graph where "run_graph = sample_graph run_nodes"

definition run_tasks :: "task list" where "run_tasks = map (\<lambda>n. (nd_nodeId n, n)) run_nodes"

definition run_options :: build_options where
  "run_options = \<lparr> bo_debugSyncAll = None, bo_crossCoreSyncCheck = None, bo_preloadCode = None, bo_splitMode = None, bo_mixSplit = None,
     bo_earlyStart = None, bo_perOpMaxCore = None, bo_setDynUbuf = None, bo_opExecTrace = None, bo_disableDcci = None,
     bo_dcciBeforeStart = None, bo_dcciAfterEnd = None, bo_profilingEnv = None, bo_argsSize = (\<lambda>_. 8), bo_deviceCores = (24, 48),
     bo_arch = DAV_2201, bo_entryFunc = (\<lambda>_. 4096) \<rparr>"

definition run_info :: "sk_queue_type \<Rightarrow> sync_map \<Rightarrow> sync_map \<Rightarrow> sync_map \<Rightarrow> task_sync_info" where
  "run_info q c ss rs = new_sync_info\<lparr> ts_queueType := q, ts_crossSyncInfo := c, ts_cubSendInfo := ss, ts_vecRecvInfo := rs \<rparr>"

definition run_infos :: "sync_map \<Rightarrow> sync_map \<Rightarrow> sync_map \<Rightarrow> task_sync_info list" where
  "run_infos c ss rs = [run_info AIC c [] [], run_info AIC [] [] [], run_info AIC [(0, CUB_TO_CUB)] [] [],
     run_info AIC [(0, CUB_TO_CUB)] ss [], run_info AIV [] [] rs]"

lemma run_sync:
  "InitTaskSyncInfos run_graph run_tasks = Inr (Some (run_infos [(0, CUB_TO_CUB)] [] []))"
  "ExtractIntraStreamSync run_tasks (run_infos [(0, CUB_TO_CUB)] [] []) = run_infos [(0, CUB_TO_CUB)] [(4, CUB_TO_VEC)] [(3, CUB_TO_VEC)]"
  "ExtractInterStreamSync run_tasks (run_infos [(0, CUB_TO_CUB)] [(4, CUB_TO_VEC)] [(3, CUB_TO_VEC)]) =
     run_infos [(0, CUB_TO_CUB)] [(4, CUB_TO_VEC)] [(3, CUB_TO_VEC)]"
  "RemoveCrossedLineSync (run_infos [(0, CUB_TO_CUB)] [(4, CUB_TO_VEC)] [(3, CUB_TO_VEC)]) =
     run_infos [(0, CUB_TO_CUB)] [(4, CUB_TO_VEC)] [(3, CUB_TO_VEC)]"
  "RemoveMultiSendSync (run_infos [(0, CUB_TO_CUB)] [(4, CUB_TO_VEC)] [(3, CUB_TO_VEC)]) =
     run_infos [(0, CUB_TO_CUB)] [(4, CUB_TO_VEC)] [(3, CUB_TO_VEC)]"
  "RemoveMultiRecvSync (run_infos [(0, CUB_TO_CUB)] [(4, CUB_TO_VEC)] [(3, CUB_TO_VEC)]) =
     run_infos [(0, CUB_TO_CUB)] [(4, CUB_TO_VEC)] [(3, CUB_TO_VEC)]"
  "RemoveRedundantCrossSync run_tasks (run_infos [(0, CUB_TO_CUB)] [(4, CUB_TO_VEC)] [(3, CUB_TO_VEC)]) =
     run_infos [] [(4, CUB_TO_VEC)] [(3, CUB_TO_VEC)]"
  by code_simp+

lemma run_build_infos: "build_infos run_options run_graph run_tasks False = Inr (Some (run_infos [] [(4, CUB_TO_VEC)] [(3, CUB_TO_VEC)]))"
  by (simp add: build_infos_def run_options_def option_is_def EnableDebug_def PrecomputeSyncRelationsFromGraph_def OptimizeSyncRelations_def run_sync)

lemma run_tasks_simps:
  "length run_tasks = 5" "is_kernel (run_tasks ! 0)" "\<forall>t\<in>set run_tasks. supported t" "\<forall>t\<in>set run_tasks. nd_sendToNodeId (snd t) = {}"
  "distinct_ids run_tasks" "CheckResourceStatus run_tasks = (True, True)" "map task_stream run_tasks = [0, 0, 0, 0, 0]"
  "list_all (\<lambda>t. nd_nodeType (snd t) = NODE_KERNEL \<longrightarrow> list_all (\<lambda>f. rf_funcAddr f = (64, 64)) (ki_resolvedFuncs (nd_kernelInfos (snd t))) \<and>
     length (ki_resolvedFuncs (nd_kernelInfos (snd t))) = 4) run_tasks"
  by code_simp+

lemma run_buildable: "list_all is_event customs \<Longrightarrow> length customs \<le> 100 \<Longrightarrow> buildable run_options run_tasks customs"
proof -
  assume c: "list_all is_event customs" "length customs \<le> 100"
  have "event_next run_tasks = {}" using run_tasks_simps(4) by (auto simp: event_next_def)
  moreover have "run_tasks ! 0 \<in> set run_tasks" using run_tasks_simps(1) by simp
  ultimately have "tasks_ok run_tasks" unfolding tasks_ok_def using run_tasks_simps(2,3,5) by blast
  moreover have "resolved 4 run_tasks"
    unfolding resolved_def
  proof (intro ballI impI allI)
    fix t c assume "t \<in> set run_tasks" "is_kernel t"
    then have f: "\<forall>f\<in>set (ki_resolvedFuncs (nd_kernelInfos (snd t))). rf_funcAddr f = (64, 64)"
      "length (ki_resolvedFuncs (nd_kernelInfos (snd t))) = 4" using run_tasks_simps(8) unfolding list_all_iff by blast+
    have "rf_funcAddr (ki_resolvedFuncs (nd_kernelInfos (snd t)) ! i) = (64, 64)" if "i < 4" for i using f that by simp
    then show "resolved_for (snd t) 4 c" using f(2) by (cases c) (auto simp: resolved_for_def sel_def)
  qed
  ultimately show ?thesis using c run_tasks_simps(1)
    by (simp add: buildable_def plain_build_def bin_count_def run_options_def option_is_def EnableDebug_def list_all_iff)
qed

lemma run_programs:
  "full run_tasks (run_infos [] [(4, CUB_TO_VEC)] [(3, CUB_TO_VEC)]) (\<lambda>_. 0) True =
     [(1, Work 0), (9, Work 1), (17, Work 2), (18, Meet), (25, Work 3), (26, Meet), (30, SetF)]"
  "full run_tasks (run_infos [] [(4, CUB_TO_VEC)] [(3, CUB_TO_VEC)]) (\<lambda>_. 0) False = [(32, WaitF), (33, Work 4)]"
proof -
  have u: "[0..<5] = [0, 1, 2, 3, 4]" by code_simp
  show "full run_tasks (run_infos [] [(4, CUB_TO_VEC)] [(3, CUB_TO_VEC)]) (\<lambda>_. 0) True =
     [(1, Work 0), (9, Work 1), (17, Work 2), (18, Meet), (25, Work 3), (26, Meet), (30, SetF)]"
    "full run_tasks (run_infos [] [(4, CUB_TO_VEC)] [(3, CUB_TO_VEC)]) (\<lambda>_. 0) False = [(32, WaitF), (33, Work 4)]"
    by (simp_all add: full_def kinds_def mixed_of_def run_tasks_simps timed_tasks_def timed_task_def timed_cross_def timed_dir_def run_infos_def
      run_info_def new_sync_info_def send_of_def recv_of_def uses_queue_def UsesAic_def UsesAiv_def u)
qed

lemma run_loaded:
  "\<exists>s. build_queues run_options run_graph run_tasks [] = Inr (Some s) \<and>
     loaded run_tasks s = core_start (full run_tasks (run_infos [] [(4, CUB_TO_VEC)] [(3, CUB_TO_VEC)]) (\<lambda>_. 0))"
proof -
  let ?I = "run_infos [] [(4, CUB_TO_VEC)] [(3, CUB_TO_VEC)]"
  obtain s W where s: "build_queues run_options run_graph run_tasks [] = Inr (Some s)" "W True + W False = (0 :: nat)"
    "\<forall>q. kinds run_tasks q \<longrightarrow> read_queue False (mixed_of run_tasks) q (st_infos (queue_at q s)) = Some (map snd (full run_tasks ?I W q))"
    using build_runs[OF run_buildable[of "[]"], of run_graph] run_build_infos by auto
  have "W = (\<lambda>_. 0)" using s(2) by (intro ext) (metis (full_types) add_is_0)
  then show ?thesis using loaded_start[OF s(3)] s(1) by blast
qed

text \<open>A complete run of a build, for two groups.\<close>

lemma complete_run:
  assumes "buildable opts tasks customs"
  shows "\<exists>s t. build_queues opts g tasks customs = Inr (Some s) \<and> (core_step 2)\<^sup>*\<^sup>* (loaded tasks s) t \<and>
    (\<forall>h<2. \<forall>q. fst t (h, q) = []) \<and> (\<forall>h<2. \<forall>q. executed (loaded tasks s) t (h, q) = fst (loaded tasks s) (h, q))"
proof -
  obtain s I W where s: "build_queues opts g tasks customs = Inr (Some s)" "infos_ok tasks (customs \<noteq> []) I"
    "\<forall>q. kinds tasks q \<longrightarrow> read_queue False (mixed_of tasks) q (st_infos (queue_at q s)) = Some (map snd (full tasks I W q))"
    using build_runs[OF assms] by blast
  have t: "tasks_ok tasks" using assms by (simp add: buildable_def)
  have "length I = length tasks" using s(2) by (simp add: infos_ok_def)
  moreover have "tasks \<noteq> []" using t by (auto simp: tasks_ok_def)
  ultimately have "programs (full tasks I W)" using full_programs[OF s(2) t] by simp
  from finishes[OF this, of 2] obtain u where u: "(core_step 2)\<^sup>*\<^sup>* (loaded tasks s) u" "\<forall>h<2. \<forall>q. fst u (h, q) = []"
    unfolding loaded_start[OF s(3)] by blast
  then have "\<forall>h<2. \<forall>q. executed (loaded tasks s) u (h, q) = fst (loaded tasks s) (h, q)" by (simp add: executed_def)
  then show ?thesis using s(1) u by blast
qed

lemma run_complete:
  "\<exists>s t. build_queues run_options run_graph run_tasks [] = Inr (Some s) \<and> (core_step 2)\<^sup>*\<^sup>* (loaded run_tasks s) t \<and>
     (\<forall>h<2. \<forall>q. fst t (h, q) = []) \<and> (\<forall>h<2. \<forall>q. executed (loaded run_tasks s) t (h, q) = fst (loaded run_tasks s) (h, q)) \<and>
     (\<forall>h. fst (loaded run_tasks s) (h, True) = [Work 0, Work 1, Work 2] @ Meet # [] @ Work 3 # Meet # [SetF]) \<and>
     (\<forall>h. fst (loaded run_tasks s) (h, False) = [WaitF, Work 4])"
proof -
  obtain s where "build_queues run_options run_graph run_tasks [] = Inr (Some s)"
    "loaded run_tasks s = core_start (full run_tasks (run_infos [] [(4, CUB_TO_VEC)] [(3, CUB_TO_VEC)]) (\<lambda>_. 0))" using run_loaded by blast
  then show ?thesis using complete_run[OF run_buildable[of "[]"], of run_graph] by (auto simp: core_start_def run_programs)
qed

lemma run_path: "i < j \<Longrightarrow> j < 5 \<Longrightarrow> (i, j) \<in> (next_of run_tasks)\<^sup>+"
proof -
  assume ij: "i < j" "j < 5"
  have "task_stream (run_tasks ! k) = 0" if "k < 5" for k
  proof -
    have "k \<in> {0, 1, 2, 3, 4}" using that by auto
    then show ?thesis using arg_cong[OF run_tasks_simps(7), of "\<lambda>m. m ! k"] run_tasks_simps(1) by auto
  qed
  then show ?thesis using ij run_tasks_simps(1) by (intro stream_path) simp_all
qed

text \<open>
  The core that raises the notify does so when it has finished its own part of the kernel; the other cores need not have, because
  the synchronisation behind the kernel was taken out in favour of the one behind the wait.
\<close>

lemma notify_before_kernel_done:
  "\<exists>s st. build_queues run_options run_graph run_tasks [] = Inr (Some s) \<and> (core_step 2)\<^sup>*\<^sup>* (loaded run_tasks s) st \<and>
     nd_nodeType (snd (run_tasks ! 1)) = NODE_NOTIFY \<and> (0, 1) \<in> (next_of run_tasks)\<^sup>+ \<and>
     Work 1 \<in> set (executed (loaded run_tasks s) st (0, True)) \<and> Work 0 \<in> set (fst st (1, True))"
proof -
  let ?xs = "[Work 2] @ Meet # [] @ Work 3 # Meet # [SetF]"
  obtain s where s: "build_queues run_options run_graph run_tasks [] = Inr (Some s)"
    "\<forall>h. fst (loaded run_tasks s) (h, True) = Work 0 # Work 1 # ?xs" using run_complete by auto
  let ?R = "fst (loaded run_tasks s)"
  have R: "?R (g, True) = Work 0 # Work 1 # ?xs" for g using s(2) by blast
  let ?st = "(?R((0, True) := ?xs), snd (loaded run_tasks s))"
  have a: "core_step 2 (?R, snd (loaded run_tasks s)) (?R((0, True) := Work 1 # ?xs), snd (loaded run_tasks s))"
    by (rule core_step.work[where i = 0]) (simp_all add: R)
  have b: "core_step 2 (?R((0, True) := Work 1 # ?xs), snd (loaded run_tasks s)) ((?R((0, True) := Work 1 # ?xs))((0, True) := ?xs), snd (loaded run_tasks s))"
    by (rule core_step.work[where i = 1]) simp_all
  have "(core_step 2)\<^sup>*\<^sup>* (loaded run_tasks s) ?st" using a b by (simp add: rtranclp.rtrancl_into_rtrancl converse_rtranclp_into_rtranclp)
  moreover have "Work 1 \<in> set (executed (loaded run_tasks s) ?st (0, True))" by (simp add: executed_def R)
  moreover have "Work 0 \<in> set (fst ?st (1, True))" by (simp add: R)
  moreover have "nd_nodeType (snd (run_tasks ! 1)) = NODE_NOTIFY" by code_simp
  ultimately show ?thesis using s(1) run_path[of 0 1] by (intro exI[of _ s] exI[of _ ?st]) simp
qed

lemma run_plain: "buildable run_options run_tasks []"
  by (rule run_buildable) simp_all

definition run_custom :: "sk_node list" where "run_custom = [sample_node MemoryNode NODE_NOTIFY 5 6 INVALID_TASK_ID]"

lemma run_custom_ok: "buildable run_options run_tasks run_custom"
  by (rule run_buildable) (simp_all add: run_custom_def is_event_def sample_node_def)

lemma Build_keeps_order_witness:
  "\<exists>s t. build_queues run_options run_graph run_tasks [] = Inr (Some s) \<and> (core_step 2)\<^sup>*\<^sup>* (loaded run_tasks s) t \<and>
     queued_once run_tasks [] s \<and>
     Work 4 \<in> set (executed (loaded run_tasks s) t (1, False)) \<and> Work 0 \<in> set (executed (loaded run_tasks s) t (1, True))"
proof -
  obtain s t where r: "build_queues run_options run_graph run_tasks [] = Inr (Some s)" "(core_step 2)\<^sup>*\<^sup>* (loaded run_tasks s) t"
    "\<forall>h<2. \<forall>q. fst t (h, q) = []" "\<forall>h<2. \<forall>q. executed (loaded run_tasks s) t (h, q) = fst (loaded run_tasks s) (h, q)"
    "\<forall>h. fst (loaded run_tasks s) (h, True) = [Work 0, Work 1, Work 2] @ Meet # [] @ Work 3 # Meet # [SetF]"
    "\<forall>h. fst (loaded run_tasks s) (h, False) = [WaitF, Work 4]" using run_complete by (elim exE conjE) (rule that)
  have w: "Work 4 \<in> set (executed (loaded run_tasks s) t (1, False))" using r(4,6) by simp
  have z: "Work 0 \<in> set (fst (loaded run_tasks s) (1, True))" using r(5) by simp
  from Build_keeps_order[OF run_plain, of run_graph] obtain s' where s': "build_queues run_options run_graph run_tasks [] = Inr (Some s')"
    "queued_once run_tasks [] s'"
    "\<forall>N st i j h a b. (core_step N)\<^sup>*\<^sup>* (loaded run_tasks s') st \<and> (i, j) \<in> (next_of run_tasks)\<^sup>+ \<and> h < N \<and>
       Work j \<in> set (executed (loaded run_tasks s') st (h, b)) \<and> Work i \<in> set (fst (loaded run_tasks s') (h, a)) \<longrightarrow>
       Work i \<in> set (executed (loaded run_tasks s') st (h, a))" by (elim exE conjE) (rule that)
  have "s' = s" using s'(1) r(1) by simp
  then have "Work 0 \<in> set (executed (loaded run_tasks s) t (1, True))"
    using s'(3)[rule_format, of 2 t 0 4 1 False True] r(2) w z run_path[of 0 4] by simp
  then show ?thesis using r(1,2) w s'(2) \<open>s' = s\<close> by blast
qed


lemma Build_meets_witness:
  "\<exists>s t. build_queues run_options run_graph run_tasks [] = Inr (Some s) \<and> (core_step 2)\<^sup>*\<^sup>* (loaded run_tasks s) t \<and>
     Work 4 \<in> set (executed (loaded run_tasks s) t (1, False)) \<and> Work 3 \<in> set (executed (loaded run_tasks s) t (0, True))"
proof -
  obtain s t where r: "build_queues run_options run_graph run_tasks [] = Inr (Some s)" "(core_step 2)\<^sup>*\<^sup>* (loaded run_tasks s) t"
    "\<forall>h<2. \<forall>q. fst t (h, q) = []" "\<forall>h<2. \<forall>q. executed (loaded run_tasks s) t (h, q) = fst (loaded run_tasks s) (h, q)"
    "\<forall>h. fst (loaded run_tasks s) (h, True) = [Work 0, Work 1, Work 2] @ Meet # [] @ Work 3 # Meet # [SetF]"
    "\<forall>h. fst (loaded run_tasks s) (h, False) = [WaitF, Work 4]" using run_complete by (elim exE conjE) (rule that)
  have w: "Work 4 \<in> set (executed (loaded run_tasks s) t (1, False))" using r(4,6) by simp
  have z: "fst (loaded run_tasks s) (1, True) = [Work 0, Work 1, Work 2, Meet] @ Work 3 # Meet # [SetF]" using r(5) by simp
  from Build_meets[OF run_plain, of run_graph] obtain s' where s': "build_queues run_options run_graph run_tasks [] = Inr (Some s')"
    "\<forall>N st i j h h' a b xs ys. (core_step N)\<^sup>*\<^sup>* (loaded run_tasks s') st \<and> (i, j) \<in> (next_of run_tasks)\<^sup>+ \<and> h < N \<and> h' < N \<and>
       fst (loaded run_tasks s') (h, a) = xs @ Work i # Meet # ys \<and> Work j \<in> set (executed (loaded run_tasks s') st (h, b)) \<longrightarrow>
       Work i \<in> set (executed (loaded run_tasks s') st (h', a))" by (elim exE conjE) (rule that)
  have "s' = s" using s'(1) r(1) by simp
  then have "Work 3 \<in> set (executed (loaded run_tasks s) t (0, True))"
    using s'(2)[rule_format, OF conjI, OF _ conjI, of 2 t 3 4 1 0 True "[Work 0, Work 1, Work 2, Meet]" "[SetF]" False] r(2) w z run_path[of 3 4] by simp
  then show ?thesis using r(1,2) w by blast
qed

lemma Build_custom_events_last_witness:
  "\<exists>s t b. build_queues run_options run_graph run_tasks run_custom = Inr (Some s) \<and> (core_step 2)\<^sup>*\<^sup>* (loaded run_tasks s) t \<and>
     Work CUSTOM_INDEX \<in> set (executed (loaded run_tasks s) t (0, b)) \<and> Work 0 \<in> set (executed (loaded run_tasks s) t (1, True))"
proof -
  obtain s I W where s: "build_queues run_options run_graph run_tasks run_custom = Inr (Some s)" "infos_ok run_tasks True I"
    "W True + W False = (1 :: nat)" "\<forall>q. 0 < W q \<longrightarrow> kinds run_tasks q"
    "\<forall>q. kinds run_tasks q \<longrightarrow> read_queue False (mixed_of run_tasks) q (st_infos (queue_at q s)) = Some (map snd (full run_tasks I W q))"
    using build_runs[OF run_custom_ok, of run_graph] by (auto simp: run_custom_def)
  have q: "queue_of (snd (run_tasks ! 0)) = AIC" by code_simp
  have "\<exists>b. 0 < W b" using s(3) unfolding ex_bool_eq by linarith
  then obtain b where "0 < W b" "kinds run_tasks b" using s(4) by blast
  then have "Work CUSTOM_INDEX \<in> set (fst (loaded run_tasks s) (0, b))" unfolding loaded_start[OF s(5)] core_start_def by (auto simp: full_def)
  moreover have "uses_queue True (ts_queueType (I ! 0))"
    using s(2) run_tasks_simps(1,2) q by (simp add: infos_ok_def queue_ok_def uses_queue_def UsesAic_def)
  then have "(1, Work 0) \<in> set (full run_tasks I W True)" using full_Work[OF s(2), of 0 1 W True] run_tasks_simps(1) by (simp add: CUSTOM_INDEX_def)
  then have "Work 0 \<in> set (fst (loaded run_tasks s) (1, True))" unfolding loaded_start[OF s(5)] core_start_def by force
  moreover obtain s2 t where t0: "build_queues run_options run_graph run_tasks run_custom = Inr (Some s2)" "(core_step 2)\<^sup>*\<^sup>* (loaded run_tasks s2) t"
    "\<forall>h<2. \<forall>q. executed (loaded run_tasks s2) t (h, q) = fst (loaded run_tasks s2) (h, q)"
    using complete_run[OF run_custom_ok, of run_graph] by (elim exE conjE) (rule that)
  have "s2 = s" using t0(1) s(1) by simp
  note t = t0(2,3)[unfolded this]
  ultimately have w: "Work CUSTOM_INDEX \<in> set (executed (loaded run_tasks s) t (0, b))" "Work 0 \<in> set (fst (loaded run_tasks s) (1, True))" by simp_all
  from Build_custom_events_last[OF run_custom_ok, of run_graph] obtain s' where s': "build_queues run_options run_graph run_tasks run_custom = Inr (Some s')"
    "\<forall>N st i h h' a b. (core_step N)\<^sup>*\<^sup>* (loaded run_tasks s') st \<and> h < N \<and> h' < N \<and> i < length run_tasks \<and>
       Work CUSTOM_INDEX \<in> set (executed (loaded run_tasks s') st (h, b)) \<and> Work i \<in> set (fst (loaded run_tasks s') (h', a)) \<longrightarrow>
       Work i \<in> set (executed (loaded run_tasks s') st (h', a))" by (elim exE conjE) (rule that)
  have "s' = s" using s'(1) s(1) by simp
  then have "Work 0 \<in> set (executed (loaded run_tasks s) t (1, True))"
    using s'(2)[rule_format, of 2 t 0 1 0 b True] t(1) w run_tasks_simps(1) by simp
  then show ?thesis using s(1) t(1) w by blast
qed

lemma build_infos_typed_witness:
  "\<exists>I. build_infos run_options run_graph run_tasks True = Inr (Some I) \<and> length I = 5 \<and>
     queue_ok (CheckResourceStatus run_tasks) (run_tasks ! 1) (ts_queueType (I ! 1))"
proof -
  have "plain_build run_options" "tasks_ok run_tasks" using run_plain by (simp_all add: buildable_def)
  from build_infos_typed[OF this, of run_graph True] show ?thesis using run_tasks_simps(1) by auto
qed

end
