(* ===== verification/Sk_Entry.thy ===== *)
theory Sk_Entry
  imports Sk_Queue
begin

text \<open>
  The last part of the task builder (\<^verbatim>\<open>sk_task_builder.cpp\<close>): which entry function runs the queues, on how many
  blocks, and where the parts of its argument lie. Constant code generation and the lookup of an entry function are arguments.
\<close>

section \<open>The unified buffer\<close>

text \<open>\<open>None\<close> is an error, \<open>Some None\<close> that no kernel asks for it.\<close>

fun min_ubuf :: "u64 option \<Rightarrow> u64 \<Rightarrow> task list \<Rightarrow> u64 option option" where
  "min_ubuf r m [] = Some r"
| "min_ubuf r m (t # ts) = (let ki = nd_kernelInfos (snd t) in
     if \<not> is_kernel t \<or> \<not> ki_isSimtOp ki then min_ubuf r m ts
     else if \<not> ki_hasDynUbufSize ki \<or> \<not> ki_hasAllocUbufSize ki then None
     else if ki_dynUbufSize ki > SK_TOTAL_UB_SIZE \<or> ki_allocUbufSize ki > SK_TOTAL_UB_SIZE - ki_dynUbufSize ki then None
     else let m1 = min m (SK_TOTAL_UB_SIZE - ki_dynUbufSize ki - ki_allocUbufSize ki) in min_ubuf (Some m1) m1 ts)"

definition GetMinSimtAvailableUbufSize :: "task list \<Rightarrow> u64 option option" where
  "GetMinSimtAvailableUbufSize tasks = min_ubuf None SK_TOTAL_UB_SIZE tasks"

section \<open>The name of the entry function\<close>

definition GetBaseEntryFuncName :: "sk_kernel_type \<Rightarrow> string" where
  "GetBaseEntryFuncName t = (case t of AIV_ONLY \<Rightarrow> ''sk_entry_aiv'' | AIC_ONLY \<Rightarrow> ''sk_entry_aic''
     | MIX_AIC_1_1 \<Rightarrow> ''sk_entry_mix11'' | MIX_AIC_1_2 \<Rightarrow> ''sk_entry_mix12'' | _ \<Rightarrow> ''sk_entry_aic'')"

definition FLAG_DEBUG :: "8 word" where "FLAG_DEBUG = 1"
definition FLAG_DUMP_PROFILING :: "8 word" where "FLAG_DUMP_PROFILING = 2"
definition FLAG_OP_TRACE :: "8 word" where "FLAG_OP_TRACE = 4"
definition FLAG_EARLY_START :: "8 word" where "FLAG_EARLY_START = 8"

definition BuildEntryFuncName :: "string \<Rightarrow> 8 word \<Rightarrow> string" where
  "BuildEntryFuncName base flags = base @ (if and flags FLAG_DEBUG \<noteq> 0 then ''_debug'' else '''') @
     (if and flags FLAG_DUMP_PROFILING \<noteq> 0 then ''_dump_profiling'' else '''') @
     (if and flags FLAG_OP_TRACE \<noteq> 0 then ''_op_trace'' else '''') @ (if and flags FLAG_EARLY_START \<noteq> 0 then ''_early_start'' else '''')"

text \<open>The flags the options set.\<close>

definition flag_if :: "bool \<Rightarrow> 8 word \<Rightarrow> 8 word \<Rightarrow> 8 word" where
  "flag_if b m v = (if b then or v m else v)"

definition entry_flags :: "build_options \<Rightarrow> 8 word" where
  "entry_flags opts = flag_if (option_is (bo_earlyStart opts) 1) FLAG_EARLY_START
     (flag_if (option_is (bo_opExecTrace opts) 1 \<or> option_is (bo_crossCoreSyncCheck opts) 1) FLAG_OP_TRACE
     (flag_if (bo_profilingEnv opts \<noteq> None \<and> bo_profilingEnv opts \<noteq> Some ''0'') FLAG_DUMP_PROFILING
     (flag_if (EnableDebug opts) FLAG_DEBUG 0)))"

section \<open>Blocks\<close>

definition ApplyPerOpMaxCoreNum :: "build_options \<Rightarrow> task list \<Rightarrow> sk_queues \<Rightarrow> bool \<times> sk_queues" where
  "ApplyPerOpMaxCoreNum opts tasks s =
    (if \<not> option_is (bo_perOpMaxCore opts) 1 then (False, s)
     else case tasks of [t] \<Rightarrow>
        if \<not> is_kernel t then (False, s)
        else let (maxCube, maxVec) = bo_deviceCores opts; ki = nd_kernelInfos (snd t) in
          if maxCube \<le> 0 \<or> maxVec \<le> 0 then (False, s)
          else let (c, v) = (if ki_isScheModeOn ki
              then let cube = (if ki_cubeNum ki = 0 \<and> ki_vecNum ki > 0 then (ki_vecNum ki + 1) div 2 else ki_cubeNum ki)
                   in (cube, cube * 2)
              else (word_of_int maxCube, word_of_int maxVec))
            in (True, upd_queue False (\<lambda>t. t\<lparr> st_numBlocks := v \<rparr>) (upd_queue True (\<lambda>t. t\<lparr> st_numBlocks := c \<rparr>) s))
     | _ \<Rightarrow> (False, s))"

record entry_info =
  en_numBlocks :: u32
  en_nodeCnt :: u32
  en_entryType :: sk_kernel_type
  en_func :: u64

definition set_blocks :: "u32 \<Rightarrow> u32 \<Rightarrow> sk_queues \<Rightarrow> sk_queues" where
  "set_blocks c v s = ((fst s)\<lparr> st_numBlocks := c \<rparr>, (snd s)\<lparr> st_numBlocks := v \<rparr>)"

text \<open>The block counts for a type of entry; for a mixed kernel 1:2 the larger demand decides.\<close>

definition mix12_blocks :: "sk_queues \<Rightarrow> u32 \<times> sk_queues" where
  "mix12_blocks s = (let b = max (st_numBlocks (fst s)) ((st_numBlocks (snd s) + 1) div 2) in (b, set_blocks b (b * 2) s))"

definition blocks_for :: "sk_kernel_type \<Rightarrow> sk_queues \<Rightarrow> u32 \<times> sk_queues" where
  "blocks_for ty s = (let c = st_numBlocks (fst s); v = st_numBlocks (snd s) in
     if ty = AIV_ONLY then (v, set_blocks 0 v s) else if ty = AIC_ONLY then (c, set_blocks c 0 s)
     else if ty = MIX_AIC_1_2 then mix12_blocks s else (c, set_blocks c c s))"

text \<open>The type that fits the functions of both queues.\<close>

definition entry_type :: "sk_queues \<Rightarrow> sk_kernel_type option" where
  "entry_type s = (let c = fst s; v = snd s in
     if st_funcCnt c = 0 \<and> st_funcCnt v > 0 then Some AIV_ONLY
     else if st_funcCnt c > 0 \<and> st_funcCnt v = 0 then Some AIC_ONLY
     else if st_funcCnt c > 0 \<and> st_funcCnt v > 0
     then if st_nodeType c = MIX_AIC_1_2 \<and> st_nodeType v = MIX_AIC_1_2 then Some MIX_AIC_1_2
          else if st_numBlocks v \<le> st_numBlocks c then Some MIX_AIC_1_1 else Some MIX_AIC_1_2
     else None)"

text \<open>
  The vector entries of kernels with one vector core per cube core run on twice the blocks if there are two; the access to the queue
  needs room for a further entry.
\<close>

definition double_entries :: "sk_queues \<Rightarrow> sk_queues run" where
  "double_entries s = bindR (derefR (GetTaskQue (snd s))) (\<lambda>v. Inr (fst s, v\<lparr> st_infos :=
     map (\<lambda>t. if ti_relatedType t = Some MIX_AIC_1_1 then t\<lparr> ti_numBlocks := ti_numBlocks t * 2 \<rparr> else t) (st_infos v) \<rparr>))"

text \<open>\<open>constant\<close> is the function that constant code generation returned, with its type.\<close>

definition GenEntryInfo :: "build_options \<Rightarrow> (u64 \<times> sk_kernel_type) option \<Rightarrow> sk_queues \<Rightarrow> bool \<Rightarrow>
    (entry_info \<times> sk_queues) option run" where
  "GenEntryInfo opts constant s useSimtEntry = (case (if useSimtEntry then None else constant) of
     Some (f, ty) \<Rightarrow> (let (b, s1) = blocks_for ty s in
       bindR (if ty = MIX_AIC_1_2 then double_entries s1 else Inr s1) (\<lambda>s2.
         Inr (Some (\<lparr> en_numBlocks = b, en_nodeCnt = 0, en_entryType = ty, en_func = f \<rparr>, s2))))
   | None \<Rightarrow> (case entry_type s of None \<Rightarrow> Inr None
     | Some ty \<Rightarrow> (let (b, s1) = blocks_for ty s; maxCore = option_is (bo_perOpMaxCore opts) 1;
          b1 = (if maxCore \<and> ty = AIV_ONLY then (b + 1) div 2 else b); ty1 = (if maxCore then MIX_AIC_1_2 else ty);
          f = bo_entryFunc opts (BuildEntryFuncName (GetBaseEntryFuncName ty1) (entry_flags opts) @ (if useSimtEntry then ''_simt'' else ''''))
        in if f = 0 then Inr None
           else bindR (if ty1 = MIX_AIC_1_2 then double_entries s1 else Inr s1) (\<lambda>s2.
             Inr (Some (\<lparr> en_numBlocks = b1, en_nodeCnt = 0, en_entryType = ty1, en_func = f \<rparr>, s2))))))"

section \<open>The argument of the entry function\<close>

definition AlignUp :: "u64 \<Rightarrow> u64 \<Rightarrow> u64" where
  "AlignUp value align = (if align = 0 then value else (value + align - 1) div align * align)"

definition SIZEOF_HEADER :: u64 where "SIZEOF_HEADER = 48"
definition SIZEOF_COUNTER :: u64 where "SIZEOF_COUNTER = 64"
definition SIZEOF_DFX :: u64 where "SIZEOF_DFX = 168"
definition SIZEOF_EVENT_CONFIG :: u64 where "SIZEOF_EVENT_CONFIG = 32"

record sk_header =
  hd_aicQueSize :: u32
  hd_aivQueSize :: u32
  hd_aicQueOffset :: u32
  hd_aivQueOffset :: u32
  hd_counterOffset :: u32
  hd_dfxOffset :: u32
  hd_eventConfigOffset :: u32
  hd_nodeCnt :: u32
  hd_totalSize :: u64

datatype arg_part = PartHeader | PartQueue bool nat | PartCounters | PartDfx | PartEventConfig

definition GetTaskQueSize :: "sk_task \<Rightarrow> u64" where
  "GetTaskQueSize t = of_nat (SIZEOF_TASK_QUE + length (st_infos t) * SIZEOF_TASK_INFO)"

text \<open>
  The header and the parts that are written, with offset and size; the queues are there four times. The copies of the
  library succeed, as each size is that of its part.
\<close>

definition GenEntryArgs :: "u32 \<Rightarrow> sk_queues \<Rightarrow> u32 \<Rightarrow> sk_header \<times> (arg_part \<times> u64 \<times> u64) list" where
  "GenEntryArgs eventCoreNum s dfxCount = (let aicSize = GetTaskQueSize (fst s); aivSize = GetTaskQueSize (snd s);
     counterSize = ucast eventCoreNum * SIZEOF_COUNTER; dfxSize = ucast dfxCount * SIZEOF_DFX;
     aicOff = SIZEOF_HEADER; aivOff = aicOff + aicSize * 4; counterOff = AlignUp (aivOff + aivSize * 4) 64;
     dfxOff = counterOff + counterSize; eventOff = dfxOff + dfxSize; total = eventOff + SIZEOF_EVENT_CONFIG
    in (\<lparr> hd_aicQueSize = ucast aicSize, hd_aivQueSize = ucast aivSize, hd_aicQueOffset = ucast aicOff, hd_aivQueOffset = ucast aivOff,
          hd_counterOffset = ucast counterOff, hd_dfxOffset = ucast dfxOff, hd_eventConfigOffset = ucast eventOff, hd_nodeCnt = dfxCount,
          hd_totalSize = total \<rparr>,
        (PartHeader, 0, SIZEOF_HEADER) # map (\<lambda>i. (PartQueue True i, aicOff + of_nat i * aicSize, aicSize)) [0..<4] @
        map (\<lambda>i. (PartQueue False i, aivOff + of_nat i * aivSize, aivSize)) [0..<4] @
        [(PartCounters, counterOff, counterSize), (PartDfx, ucast (ucast dfxOff :: u32), dfxSize), (PartEventConfig, eventOff, SIZEOF_EVENT_CONFIG)]))"

text \<open>Where a core finds its queue (\<^verbatim>\<open>kernel/sk_entry.asc\<close>); its number is taken modulo 256.\<close>

definition que_offset :: "sk_header \<Rightarrow> bool \<Rightarrow> u32 \<Rightarrow> u32" where
  "que_offset h cube coreId = (let k = ucast (ucast coreId :: 8 word) mod 4 in
     if cube then hd_aicQueOffset h + k * hd_aicQueSize h else hd_aivQueOffset h + k * hd_aivQueSize h)"

section \<open>The build\<close>

record entry_launch =
  la_entryInfo :: entry_info
  la_header :: sk_header
  la_queues :: sk_queues
  la_minAvailableUbufSize :: "u64 option"

text \<open>
  \<open>Build\<close>: the queues, the entry function, the argument. The diagnostic records and the printed queue do not appear.
\<close>

definition Build :: "build_options \<Rightarrow> (u64 \<times> sk_kernel_type) option \<Rightarrow> u32 \<Rightarrow> sk_graph \<Rightarrow> task list \<Rightarrow> sk_node list \<Rightarrow>
    entry_launch option run" where
  "Build opts constant eventCoreNum g tasks customTasks =
     bindO (build_queues opts g tasks customTasks) (\<lambda>s.
     let s1 = snd (ApplyPerOpMaxCoreNum opts tasks s) in
     bindO (Inr (if option_is (bo_setDynUbuf opts) 1 then GetMinSimtAvailableUbufSize tasks else Some None)) (\<lambda>ubuf.
     bindO (GenEntryInfo opts constant s1 (ubuf \<noteq> None)) (\<lambda>(e, s2).
       Inr (Some \<lparr> la_entryInfo = e\<lparr> en_nodeCnt := of_nat (length tasks) \<rparr>, la_header = fst (GenEntryArgs eventCoreNum s2 (of_nat (length tasks))),
         la_queues = s2, la_minAvailableUbufSize = ubuf \<rparr>))))"

end
