(* ===== verification/Sk_Entry_Sound.thy ===== *)
theory Sk_Entry_Sound
  imports Sk_Run Sk_Entry
begin

text \<open>
  Every block of every kernel finds a core that runs it, and every core its queue (\<^verbatim>\<open>sk_task_builder.cpp\<close>,
  \<^verbatim>\<open>kernel/sk_entry.asc\<close>).
\<close>

section \<open>What the entries of the queues are\<close>

definition is_func :: "task_info \<Rightarrow> bool" where
  "is_func ti \<longleftrightarrow> ti_type ti = TYPE_FUNC"

definition is_event_entry :: "task_info \<Rightarrow> bool" where
  "is_event_entry ti \<longleftrightarrow> ti_type ti \<in> {TYPE_EVENT_NOTIFY, TYPE_EVENT_WAIT, TYPE_EVENT_RESET}"

text \<open>The blocks a kernel asks for on the cores of a kind, as an entry stores them.\<close>

definition wanted :: "bool \<Rightarrow> sk_node \<Rightarrow> 8 word" where
  "wanted q n = (if \<not> q \<and> queue_of n = MIX_1_2 then ucast (ki_numBlocks (nd_kernelInfos n) * 2) else ucast (ki_numBlocks (nd_kernelInfos n)))"

definition entry_ok :: "task list \<Rightarrow> bool \<Rightarrow> task_info \<Rightarrow> bool" where
  "entry_ok tasks q ti \<longleftrightarrow>
     (is_func ti \<longrightarrow> unat (ti_index ti) < length tasks \<and> is_kernel (tasks ! unat (ti_index ti)) \<and>
        uses_queue q (queue_of (snd (tasks ! unat (ti_index ti)))) \<and>
        ti_relatedType ti = Some (ki_kernelType (nd_kernelInfos (snd (tasks ! unat (ti_index ti))))) \<and>
        ti_numBlocks ti = wanted q (snd (tasks ! unat (ti_index ti)))) \<and>
     (is_event_entry ti \<longrightarrow> unat (ti_index ti) = CUSTOM_INDEX \<or>
        unat (ti_index ti) < length tasks \<and> \<not> is_kernel (tasks ! unat (ti_index ti)))"

text \<open>The counts of a queue cover its functions; those of the cube queue also the vector parts of kernels of both kinds.\<close>

definition queue_inv :: "task list \<Rightarrow> sk_queues \<Rightarrow> bool" where
  "queue_inv tasks s \<longleftrightarrow> (\<forall>q. st_numBlocks (queue_at q s) \<le> 255 \<and> st_funcCnt (queue_at q s) = of_nat (length (filter is_func (st_infos (queue_at q s)))) \<and>
     (\<forall>ti\<in>set (st_infos (queue_at q s)). entry_ok tasks q ti \<and> (is_func ti \<longrightarrow> ucast (ti_numBlocks ti) \<le> st_numBlocks (queue_at q s)))) \<and>
     (\<forall>ti\<in>set (st_infos (queue_at False s)). is_func ti \<and> ti_relatedType ti = Some MIX_AIC_1_1 \<longrightarrow>
        ucast (ti_numBlocks ti) \<le> st_numBlocks (queue_at True s))"

definition keeps :: "('s \<Rightarrow> bool) \<Rightarrow> ('s \<Rightarrow> 's option run) \<Rightarrow> bool" where
  "keeps Q f \<longleftrightarrow> (\<forall>s s'. Q s \<longrightarrow> f s = Inr (Some s') \<longrightarrow> Q s')"

lemma keeps_id: "keeps Q (\<lambda>s. Inr (Some s))"
  by (simp add: keeps_def)

lemma keeps_error: "keeps Q (\<lambda>s. Inr None)"
  by (simp add: keeps_def)

lemma keeps_bind: "keeps Q f \<Longrightarrow> keeps Q g \<Longrightarrow> keeps Q (\<lambda>s. bindO (f s) g)"
  unfolding keeps_def by blast

lemma keeps_fold: "(\<And>x. x \<in> set xs \<Longrightarrow> keeps Q (f x)) \<Longrightarrow> keeps Q (foldO f xs)"
proof (induction xs)
  case (Cons x xs)
  then have "keeps Q (\<lambda>s. bindO (f x s) (foldO f xs))" by (intro keeps_bind) simp_all
  then show ?case by (simp add: keeps_def)
qed (simp add: keeps_def)

lemma push_effect:
  assumes "push_info cube ti f s = Inr (Some s')"
  obtains c where "s' = upd_queue cube (\<lambda>_. f ((queue_at cube s)\<lparr> st_cap := c, st_infos := st_infos (queue_at cube s) @ [ti] \<rparr>)) s"
proof -
  obtain t where t: "GetTaskQue (queue_at cube s) = Some t" and s': "s' = upd_queue cube (\<lambda>_. f (t\<lparr> st_infos := st_infos t @ [ti] \<rparr>)) s"
    using assms by (auto simp: push_info_def split: option.splits)
  have "\<exists>c. t = (queue_at cube s)\<lparr> st_cap := c \<rparr>"
    using t by (auto simp: GetTaskQue_def TaskExpand_def Let_def split: option.splits if_splits intro: exI[of _ "st_cap (queue_at cube s)"])
  then show thesis using s' that by auto
qed

text \<open>An entry that is no function.\<close>

lemma keeps_push:
  assumes "\<not> is_func ti" and "entry_ok tasks cube ti"
  shows "keeps (queue_inv tasks) (push_info cube ti id)"
  unfolding keeps_def
proof (intro allI impI)
  fix s s' assume q: "queue_inv tasks s" and p: "push_info cube ti id s = Inr (Some s')"
  obtain c where s': "s' = upd_queue cube (\<lambda>_. id ((queue_at cube s)\<lparr> st_cap := c, st_infos := st_infos (queue_at cube s) @ [ti] \<rparr>)) s"
    by (rule push_effect[OF p])
  have f: "st_numBlocks (queue_at q s') = st_numBlocks (queue_at q s)" "st_funcCnt (queue_at q s') = st_funcCnt (queue_at q s)"
    "st_infos (queue_at q s') = st_infos (queue_at q s) @ (if q = cube then [ti] else [])" for q by (simp_all add: s')
  show "queue_inv tasks s'" using q assms unfolding queue_inv_def f by auto
qed

lemma keeps_AddSyncTask: "keeps (queue_inv tasks) (AddSyncTask opts cube idx t m b rt)"
  unfolding AddSyncTask_def Let_def by (rule keeps_push) (simp_all add: is_func_def entry_ok_def is_event_entry_def)

lemma keeps_DispatchSyncTasks: "keeps (queue_inv tasks) (DispatchSyncTasks opts infos idx isSend m)"
proof -
  have "keeps (queue_inv tasks) (dispatch_sync opts infos idx isSend p)" for p
  proof -
    have f: "keeps (queue_inv tasks) (foldO (\<lambda>cube. AddSyncTask opts cube idx t 0 0 KT_DEFAULT) qs)" for t qs
      by (rule keeps_fold) (rule keeps_AddSyncTask)
    show ?thesis unfolding keeps_def dispatch_sync_def Let_def
      using f unfolding keeps_def by (auto simp: bindR_def split: sum.splits option.splits)
  qed
  then have "keeps (queue_inv tasks) (foldO (dispatch_sync opts infos idx isSend) m)" by (rule keeps_fold)
  then show ?thesis by (simp add: keeps_def DispatchSyncTasks_def)
qed

lemma keeps_DispatchEventTask:
  assumes "ty \<in> {TYPE_EVENT_NOTIFY, TYPE_EVENT_WAIT, TYPE_EVENT_RESET}"
    and "unat idx = CUSTOM_INDEX \<or> unat idx < length tasks \<and> \<not> is_kernel (tasks ! unat idx)"
  shows "keeps (queue_inv tasks) (DispatchEventTask n idx ty q)"
proof -
  have "keeps (queue_inv tasks) (AddEventTask (q = AIC) n idx ty)"
    unfolding AddEventTask_def Let_def by (rule keeps_push) (use assms in \<open>auto simp: is_func_def entry_ok_def is_event_entry_def SetEventTaskArgs_def\<close>)
  then show ?thesis by (simp add: keeps_def DispatchEventTask_def)
qed

section \<open>Functions\<close>

lemma add_func_keeps:
  "foldO (add_func_entry opts n cube preload) is ti = Inr (Some u) \<Longrightarrow> ti_type u = ti_type ti \<and> ti_index u = ti_index ti \<and>
     ti_relatedType u = ti_relatedType ti \<and> ti_numBlocks u = ti_numBlocks ti"
proof (induction "is" arbitrary: ti)
  case (Cons i "is")
  from Cons.prems obtain t where t: "add_func_entry opts n cube preload i ti = Inr (Some t)"
    "foldO (add_func_entry opts n cube preload) is t = Inr (Some u)" by auto
  have "ti_type t = ti_type ti \<and> ti_index t = ti_index ti \<and> ti_relatedType t = ti_relatedType ti \<and> ti_numBlocks t = ti_numBlocks ti"
    using t(1) by (auto simp: add_func_entry_def Let_def bindR_def split: sum.splits if_splits)
  then show ?case using Cons.IH[OF t(2)] by simp
qed simp

text \<open>What adding a function does: a preload leaves only an entry.\<close>

lemma AddFuncTask_effect:
  assumes "AddFuncTask opts infos cube n idx binCount ty b s = Inr (Some s')"
  obtains ti where "ti_type ti = ty" and "ti_index ti = of_nat idx" and "ti_relatedType ti = Some (ki_kernelType (nd_kernelInfos n))"
    and "ti_numBlocks ti = ucast b"
    and "queue_at (\<not> cube) s' = queue_at (\<not> cube) s" and "st_infos (queue_at cube s') = st_infos (queue_at cube s) @ [ti]"
    and "st_numBlocks (queue_at cube s') = (if ty = TYPE_FUNC then max (st_numBlocks (queue_at cube s)) (ucast (ti_numBlocks ti)) else st_numBlocks (queue_at cube s))"
    and "st_funcCnt (queue_at cube s') = (if ty = TYPE_FUNC then st_funcCnt (queue_at cube s) + 1 else st_funcCnt (queue_at cube s))"
proof -
  let ?ti = "zero_task_info\<lparr> ti_index := of_nat idx, ti_type := ty, ti_relatedType := Some (ki_kernelType (nd_kernelInfos n)),
               ti_isSimtKernel := (ty = TYPE_FUNC \<and> ki_isSimtOp (nd_kernelInfos n)), ti_numBlocks := ucast b \<rparr>"
  let ?push = "\<lambda>t. if ty = TYPE_FUNC then push_info cube (t\<lparr> ti_args := ki_devArgs (nd_kernelInfos n),
                ti_extraInfo := (if idx < length infos then ucast (es_funcConfig (ts_earlyStartInfo (infos ! idx))) else 0),
                ti_argsSize := ucast (bo_argsSize opts (nd_nodeId n)),
                ti_debugOptions := or (ti_debugOptions t) (BuildFuncTaskDebugOptions opts (nd_kernelInfos n)) \<rparr>)
              (\<lambda>u. u\<lparr> st_numBlocks := max (st_numBlocks u) (ucast (ti_numBlocks t)), st_funcCnt := st_funcCnt u + 1 \<rparr>)
         else push_info cube t id"
  obtain t where t: "foldO (add_func_entry opts n cube (ty = TYPE_PRELOAD)) [0..<nat binCount] ?ti = Inr (Some t)" "?push t s = Inr (Some s')"
    using assms unfolding AddFuncTask_def Let_def by (auto split: if_splits)
  note k = add_func_keeps[OF t(1)]
  show thesis
  proof (cases "ty = TYPE_FUNC")
    case True
    let ?t = "t\<lparr> ti_args := ki_devArgs (nd_kernelInfos n),
                ti_extraInfo := (if idx < length infos then ucast (es_funcConfig (ts_earlyStartInfo (infos ! idx))) else 0),
                ti_argsSize := ucast (bo_argsSize opts (nd_nodeId n)),
                ti_debugOptions := or (ti_debugOptions t) (BuildFuncTaskDebugOptions opts (nd_kernelInfos n)) \<rparr>"
    show thesis by (rule push_effect[OF t(2)[unfolded if_P[OF True]]], rule that[of ?t]) (use k True in simp_all)
  next
    case False
    show thesis by (rule push_effect[OF t(2)[unfolded if_not_P[OF False]]], rule that[of t]) (use k False in simp_all)
  qed
qed

lemma unat_up8: "unat (ucast (x :: 8 word) :: u32) = unat x"
proof -
  have "unat x < 2 ^ 8" using unsigned_less[of x, where ?'a = nat] by simp
  then show ?thesis by (simp add: unsigned_ucast_eq take_bit_nat_eq_self_iff)
qed

lemma AddFunc_inv:
  assumes q: "queue_inv tasks s" and a: "AddFuncTask opts infos cube n idx binCount ty b s = Inr (Some s')" and ty: "ty \<in> {TYPE_FUNC, TYPE_PRELOAD}"
    and i: "idx < length tasks" "idx < 2 ^ 32" "snd (tasks ! idx) = n" "is_kernel (tasks ! idx)" "uses_queue cube (queue_of n)"
    and b: "ucast b = wanted cube n"
    and cov: "\<not> cube \<longrightarrow> ki_kernelType (nd_kernelInfos n) = MIX_AIC_1_1 \<longrightarrow> ty = TYPE_FUNC \<longrightarrow> ucast (wanted False n) \<le> st_numBlocks (queue_at True s)"
  shows "queue_inv tasks s'" "ty = TYPE_FUNC \<Longrightarrow> ucast (wanted cube n) \<le> st_numBlocks (queue_at cube s')"
proof -
  obtain ti where t: "ti_type ti = ty" "ti_index ti = of_nat idx" "ti_relatedType ti = Some (ki_kernelType (nd_kernelInfos n))" "ti_numBlocks ti = ucast b"
    "queue_at (\<not> cube) s' = queue_at (\<not> cube) s" "st_infos (queue_at cube s') = st_infos (queue_at cube s) @ [ti]"
    "st_numBlocks (queue_at cube s') = (if ty = TYPE_FUNC then max (st_numBlocks (queue_at cube s)) (ucast (ti_numBlocks ti)) else st_numBlocks (queue_at cube s))"
    "st_funcCnt (queue_at cube s') = (if ty = TYPE_FUNC then st_funcCnt (queue_at cube s) + 1 else st_funcCnt (queue_at cube s))"
    by (rule AddFuncTask_effect[OF a])
  have u: "unat (ti_index ti) = idx" unfolding t(2) by (rule unat_u32[OF i(2)])
  have ok: "entry_ok tasks cube ti" unfolding entry_ok_def u t(3,4) b i(3) using i ty t(1) by (auto simp: is_event_entry_def)
  have fn: "is_func ti \<longleftrightarrow> ty = TYPE_FUNC" by (simp add: is_func_def t(1))
  have up: "st_numBlocks (queue_at q s) \<le> st_numBlocks (queue_at q s')" for q
    by (cases "q = cube") (use t(5,7) in \<open>auto simp: max_def\<close>)
  have new: "ty = TYPE_FUNC \<Longrightarrow> ucast (ti_numBlocks ti) \<le> st_numBlocks (queue_at cube s')" unfolding t(7) by simp
  then show "ty = TYPE_FUNC \<Longrightarrow> ucast (wanted cube n) \<le> st_numBlocks (queue_at cube s')" unfolding t(4) b .
  note qi = q[unfolded queue_inv_def]
  have small: "ucast x \<le> (255 :: u32)" for x :: "8 word"
    using unsigned_less[of x, where ?'a = nat] by (simp add: word_le_nat_alt unat_up8)
  have one: "st_numBlocks (queue_at p s') \<le> 255 \<and> st_funcCnt (queue_at p s') = of_nat (length (filter is_func (st_infos (queue_at p s')))) \<and>
     (\<forall>ti\<in>set (st_infos (queue_at p s')). entry_ok tasks p ti \<and> (is_func ti \<longrightarrow> ucast (ti_numBlocks ti) \<le> st_numBlocks (queue_at p s')))" for p
  proof (cases "p = cube")
    case True
    have "\<forall>ti\<in>set (st_infos (queue_at p s)). is_func ti \<longrightarrow> ucast (ti_numBlocks ti) \<le> st_numBlocks (queue_at p s')" using qi up order_trans by blast
    moreover have "st_numBlocks (queue_at cube s') \<le> 255" unfolding t(7) using qi small by simp
    ultimately show ?thesis using qi ok new fn unfolding True t(6) t(8) by (auto simp: add.commute)
  next
    case False
    then have "queue_at p s' = queue_at p s" using t(5) by (cases p; cases cube) simp_all
    then show ?thesis using qi by simp
  qed
  moreover have "\<forall>ti\<in>set (st_infos (queue_at False s')). is_func ti \<and> ti_relatedType ti = Some MIX_AIC_1_1 \<longrightarrow>
        ucast (ti_numBlocks ti) \<le> st_numBlocks (queue_at True s')"
  proof (cases cube)
    case True
    then have "queue_at False s' = queue_at False s" using t(5) by simp
    then show ?thesis using qi up[of True] order_trans by fastforce
  next
    case False
    then have "queue_at True s' = queue_at True s" "st_infos (queue_at False s') = st_infos (queue_at False s) @ [ti]" using t(5,6) by simp_all
    moreover have "ucast (ti_numBlocks ti) \<le> st_numBlocks (queue_at True s)" if "is_func ti" "ti_relatedType ti = Some MIX_AIC_1_1"
      using cov False that fn unfolding t(4) b by (simp add: t(3))
    ultimately show ?thesis using qi by auto
  qed
  ultimately show "queue_inv tasks s'" unfolding queue_inv_def by blast
qed

lemma queue_inv_mark: "queue_inv tasks (c, v) \<Longrightarrow> queue_inv tasks (c\<lparr> st_nodeType := x \<rparr>, v\<lparr> st_nodeType := x \<rparr>)"
  by (simp add: queue_inv_def queue_at_def all_bool_eq)

lemma keeps_DispatchFuncTask:
  assumes ty: "ty \<in> {TYPE_FUNC, TYPE_PRELOAD}" and i: "idx < length tasks" "idx < 2 ^ 32" "is_kernel (tasks ! idx)"
  shows "keeps (queue_inv tasks) (DispatchFuncTask opts infos (snd (tasks ! idx)) idx binCount ty (queue_of (snd (tasks ! idx))))"
  unfolding keeps_def
proof (intro allI impI)
  let ?n = "snd (tasks ! idx)" and ?b = "ki_numBlocks (nd_kernelInfos (snd (tasks ! idx)))"
  let ?add = "\<lambda>cube b. AddFuncTask opts infos cube ?n idx binCount ty b"
  fix s s' assume s: "queue_inv tasks s" and d: "DispatchFuncTask opts infos ?n idx binCount ty (queue_of ?n) s = Inr (Some s')"
  note inv = AddFunc_inv[OF _ _ ty i(1,2) refl i(3)]
  have mix: "ki_kernelType (nd_kernelInfos ?n) = MIX_AIC_1_1 \<longleftrightarrow> queue_of ?n = MIX_1_1"
    by (auto simp: queue_of_def ToQueueType_def split: sk_kernel_type.splits)
  have w: "wanted True ?n = ucast ?b" "queue_of ?n \<noteq> MIX_1_2 \<longrightarrow> wanted False ?n = ucast ?b" "queue_of ?n = MIX_1_2 \<longrightarrow> wanted False ?n = ucast (?b * 2)"
    by (simp_all add: wanted_def)
  have two: "queue_inv tasks u'" if "?add True ?b s = Inr (Some u)" "?add False b u = Inr (Some u')" "uses_queue True (queue_of ?n)"
    "uses_queue False (queue_of ?n)" "ucast b = wanted False ?n" for u u' b
  proof -
    note one = inv[OF s that(1,3) w(1)[symmetric]]
    have "ucast (wanted False ?n) \<le> st_numBlocks (queue_at True u)" if "ki_kernelType (nd_kernelInfos ?n) = MIX_AIC_1_1" "ty = TYPE_FUNC"
      using one(2) that w mix by simp
    then show ?thesis using inv(1)[OF one(1) that(2,4,5)] by simp
  qed
  show "queue_inv tasks s'"
  proof (cases "queue_of ?n")
    case AIC
    then show ?thesis using inv(1)[OF s, of opts infos True binCount ?b s'] d w(1) by (simp add: DispatchFuncTask_def Let_def uses_queue_def UsesAic_def split: if_splits)
  next
    case AIV
    then show ?thesis using inv(1)[OF s, of opts infos False binCount ?b s'] d w(2) mix
      by (simp add: DispatchFuncTask_def Let_def uses_queue_def UsesAiv_def split: if_splits)
  next
    case MIX_1_1
    then obtain u where "?add True ?b s = Inr (Some u)" "?add False ?b u = Inr (Some s')" using d by (auto simp: DispatchFuncTask_def Let_def split: if_splits)
    from two[OF this] show ?thesis using w(2) by (simp add: MIX_1_1 uses_queue_def UsesAic_def UsesAiv_def)
  next
    case MIX_1_2
    then obtain u c v where u: "?add True ?b s = Inr (Some u)" "?add False (?b * 2) u = Inr (Some (c, v))"
      "s' = (c\<lparr> st_nodeType := MIX_AIC_1_2 \<rparr>, v\<lparr> st_nodeType := MIX_AIC_1_2 \<rparr>)" using d by (auto simp: DispatchFuncTask_def Let_def split: if_splits)
    from two[OF u(1,2)] have "queue_inv tasks (c, v)" using w(3) by (simp add: MIX_1_2 uses_queue_def UsesAic_def UsesAiv_def)
    then show ?thesis unfolding u(3) by (rule queue_inv_mark)
  next
    case QT_UNKNOWN
    then show ?thesis using d by (simp add: DispatchFuncTask_def Let_def split: if_splits)
  qed
qed

section \<open>The whole build\<close>

lemma keeps_dispatch_all:
  assumes I: "infos_ok tasks custom I" and n: "length tasks \<le> 2 ^ 32" and m: "length tasks \<le> CUSTOM_INDEX" and t: "tasks_ok tasks"
  shows "keeps (queue_inv tasks) (dispatch_all opts False tasks I binCount)"
proof -
  have q: "ts_queueType (I ! i) = queue_of (snd (tasks ! i))" if "i < length tasks" "is_kernel (tasks ! i)" for i
    using I that by (simp add: infos_ok_def queue_ok_def)
  have pre: "keeps (queue_inv tasks) (preload_task opts tasks I binCount i)" for i
  proof (cases "i < length tasks \<and> is_kernel (tasks ! i)")
    case True
    then have "keeps (queue_inv tasks) (DispatchFuncTask opts I (snd (tasks ! i)) i binCount TYPE_PRELOAD (ts_queueType (I ! i)))"
      using n q[of i] keeps_DispatchFuncTask[of TYPE_PRELOAD i tasks opts I binCount] by simp
    then show ?thesis using True by (simp add: keeps_def preload_task_def)
  next
    case False
    show ?thesis unfolding keeps_def preload_task_def if_not_P[OF False] by simp
  qed
  have work: "keeps (queue_inv tasks) (work_task opts tasks I binCount i)" if i: "i < length tasks" for i
  proof (cases "is_kernel (tasks ! i)")
    case True
    then have "keeps (queue_inv tasks) (DispatchFuncTask opts I (snd (tasks ! i)) i binCount TYPE_FUNC (ts_queueType (I ! i)))"
      using i n q[of i] keeps_DispatchFuncTask[of TYPE_FUNC i tasks opts I binCount] by simp
    then show ?thesis using True by (simp add: keeps_def work_task_def Let_def)
  next
    case False
    have u: "unat (of_nat i :: u32) = i" by (rule unat_u32) (use i n in simp)
    have "keeps (queue_inv tasks) (DispatchEventTask (snd (tasks ! i)) (of_nat i) ty q)" if "event_task_type (nd_nodeType (snd (tasks ! i))) = Some ty" for ty q
      by (rule keeps_DispatchEventTask) (use that i False u in \<open>auto simp: event_task_type_def split: sk_node_type.splits\<close>)
    then show ?thesis using False by (auto simp: keeps_def work_task_def Let_def split: option.splits)
  qed
  note d = keeps_DispatchSyncTasks[of tasks opts I]
  have "keeps (queue_inv tasks) (dispatch_task opts False tasks I binCount i)" if "i \<in> set [0..<length tasks]" for i
    unfolding dispatch_task_def Let_def if_False by (intro keeps_bind keeps_id pre work d) (use that in simp)
  then show ?thesis unfolding dispatch_all_def by (intro keeps_bind pre keeps_fold)
qed

lemma custom_inv:
  assumes "queue_inv tasks (snd st)" and "custom_task g tasks n st = Inr (Some st')"
  shows "queue_inv tasks (snd st')"
proof -
  obtain q ty s where "event_task_type (nd_nodeType n) = Some ty" "DispatchEventTask n UINT32_MAX ty q (snd st) = Inr (Some s)" "snd st' = s"
    using assms(2) by (auto simp: custom_task_def Let_def split: prod.splits option.splits)
  moreover from this(1) have "ty \<in> {TYPE_EVENT_NOTIFY, TYPE_EVENT_WAIT, TYPE_EVENT_RESET}" by (auto simp: event_task_type_def split: sk_node_type.splits)
  ultimately show ?thesis using keeps_DispatchEventTask[of ty UINT32_MAX tasks n q] assms(1) unat_UINT32_MAX unfolding keeps_def by metis
qed

lemma build_queues_inv:
  assumes b: "buildable opts tasks customs" and s: "build_queues opts g tasks customs = Inr (Some s)"
  shows "queue_inv tasks s"
proof -
  obtain I where I: "build_infos opts g tasks (customs \<noteq> []) = Inr (Some I)" "infos_ok tasks (customs \<noteq> []) I" using build_runs[OF b, of g] by blast
  have n: "length tasks \<le> 2 ^ 32" "length tasks \<le> CUSTOM_INDEX" and t: "tasks_ok tasks" and es: "\<not> option_is (bo_earlyStart opts) 1"
    using b by (simp_all add: buildable_def CUSTOM_INDEX_def plain_build_def)
  obtain c where c: "TaskInit (length tasks * TYPE_MAX) = Some c" using s by (auto simp: build_queues_def split: if_splits option.splits)
  obtain u st where u: "dispatch_all opts False tasks I (bin_count opts) (c, c) = Inr (Some u)"
    "foldO (custom_task g tasks) customs (Map.empty, u) = Inr (Some st)" "s = snd st"
    using s c I(1) es unfolding build_queues_def bin_count_def Let_def by (auto split: if_splits)
  have "queue_inv tasks (c, c)" using c by (auto simp: TaskInit_def queue_inv_def queue_at_def all_bool_eq split: if_splits)
  then have "queue_inv tasks u" using keeps_dispatch_all[OF I(2) n t, of opts "bin_count opts"] u(1) unfolding keeps_def by blast
  moreover have "keeps (\<lambda>st. queue_inv tasks (snd st)) (foldO (custom_task g tasks) customs)"
    by (rule keeps_fold) (use custom_inv in \<open>unfold keeps_def, blast\<close>)
  ultimately show ?thesis using u(2,3) unfolding keeps_def by (metis snd_conv)
qed

section \<open>The entry function fits\<close>

lemma read_queue_mem:
  "read_queue d m c infos = Some xs \<Longrightarrow> x \<in> set xs \<Longrightarrow> \<exists>ti\<in>set infos. \<exists>ys. core_ops d m c ti = Some ys \<and> x \<in> set ys"
proof (induction infos arbitrary: xs)
  case (Cons t ts)
  then obtain a b where a: "core_ops d m c t = Some a" "read_queue d m c ts = Some b" "xs = a @ b"
    by (cases "core_ops d m c t"; cases "read_queue d m c ts") auto
  then show ?case using Cons.IH[OF a(2)] Cons.prems(2) by auto
qed simp

lemma Work_entry:
  assumes "core_ops False m c ti = Some ys" and "Work i \<in> set ys"
  shows "unat (ti_index ti) = i \<and> (is_func ti \<or> is_event_entry ti)"
  using assms by (cases "ti_type ti")
    (auto simp: core_ops_def is_func_def is_event_entry_def AutoCoreSync_def FullCoreSync_def split: if_splits)

lemma kinds_func:
  assumes b: "buildable opts tasks customs" and s: "build_queues opts g tasks customs = Inr (Some s)"
  shows "kinds tasks q \<longleftrightarrow> (\<exists>ti\<in>set (st_infos (queue_at q s)). is_func ti)" "kinds tasks q \<longleftrightarrow> st_funcCnt (queue_at q s) \<noteq> 0" "room 1 s"
    "\<exists>q. kinds tasks q"
proof -
  obtain I W where r: "room 1 s" "infos_ok tasks (customs \<noteq> []) I"
    "\<forall>q. kinds tasks q \<longrightarrow> read_queue False (mixed_of tasks) q (st_infos (queue_at q s)) = Some (map snd (full tasks I W q))"
    using build_runs[OF b, of g] s by auto
  show "room 1 s" by (rule r(1))
  have n: "length tasks < CUSTOM_INDEX" and t: "tasks_ok tasks" using b by (simp_all add: buildable_def CUSTOM_INDEX_def)
  note inv = build_queues_inv[OF b s, unfolded queue_inv_def]
  have qt: "ts_queueType (I ! i) = queue_of (snd (tasks ! i))" if "i < length tasks" "is_kernel (tasks ! i)" for i
    using r(2) that by (simp add: infos_ok_def queue_ok_def)
  show f: "kinds tasks q \<longleftrightarrow> (\<exists>ti\<in>set (st_infos (queue_at q s)). is_func ti)"
  proof
    assume k: "kinds tasks q"
    then obtain t where "t \<in> set tasks" "is_kernel t" "uses_queue q (queue_of (snd t))"
      unfolding kinds_def CheckResourceStatus_def Let_def uses_queue_def by (cases q) auto
    then obtain i where i: "i < length tasks" "is_kernel (tasks ! i)" "uses_queue q (queue_of (snd (tasks ! i)))" by (auto simp: in_set_conv_nth)
    then have "(8 * i + 1, Work i) \<in> set (full tasks I W q)" using full_Work[OF r(2) n i(1)] qt by simp
    then have "Work i \<in> set (map snd (full tasks I W q))" by force
    then obtain ti ys where ti: "ti \<in> set (st_infos (queue_at q s))" "core_ops False (mixed_of tasks) q ti = Some ys" "Work i \<in> set ys"
      using read_queue_mem r(3) k by blast
    have "entry_ok tasks q ti" using inv ti(1) by blast
    then have "is_func ti" using Work_entry[OF ti(2,3)] i(1,2) n by (auto simp: entry_ok_def)
    then show "\<exists>ti\<in>set (st_infos (queue_at q s)). is_func ti" using ti(1) by blast
  next
    assume "\<exists>ti\<in>set (st_infos (queue_at q s)). is_func ti"
    then obtain i where "i < length tasks" "is_kernel (tasks ! i)" "uses_queue q (queue_of (snd (tasks ! i)))" using inv unfolding entry_ok_def by blast
    then show "kinds tasks q" using uses_kinds[OF r(2)] qt by simp
  qed
  have l: "length (filter is_func (st_infos (queue_at q s))) < 2 ^ 32"
    using length_filter_le[of is_func "st_infos (queue_at q s)"] roomD(3)[OF r(1), of q]
    by (simp del: length_filter_le add: less_le_trans[of _ "2 ^ 31"])
  have "unat (st_funcCnt (queue_at q s)) = length (filter is_func (st_infos (queue_at q s)))" using unat_u32[OF l] inv by simp
  then have "st_funcCnt (queue_at q s) = 0 \<longleftrightarrow> filter is_func (st_infos (queue_at q s)) = []" by (metis length_0_conv unat_eq_0)
  then show "kinds tasks q \<longleftrightarrow> st_funcCnt (queue_at q s) \<noteq> 0" unfolding f by (simp add: filter_empty_conv)
  have "\<exists>t\<in>set tasks. is_kernel t" using t by (simp add: tasks_ok_def)
  from resources_known(1)[OF this] show "\<exists>q. kinds tasks q" unfolding kinds_def ex_bool_eq by simp
qed

text \<open>How many cores of a kind run the entry function.\<close>

definition launched :: "entry_info \<Rightarrow> bool \<Rightarrow> nat" where
  "launched e q = (case en_entryType e of AIC_ONLY \<Rightarrow> if q then unat (en_numBlocks e) else 0 | AIV_ONLY \<Rightarrow> if q then 0 else unat (en_numBlocks e)
     | MIX_AIC_1_2 \<Rightarrow> if q then unat (en_numBlocks e) else 2 * unat (en_numBlocks e) | _ \<Rightarrow> unat (en_numBlocks e))"

definition doubled :: "entry_info \<Rightarrow> bool \<Rightarrow> task_info \<Rightarrow> task_info" where
  "doubled e q t = (if \<not> q \<and> en_entryType e = MIX_AIC_1_2 \<and> ti_relatedType t = Some MIX_AIC_1_1 then t\<lparr> ti_numBlocks := ti_numBlocks t * 2 \<rparr> else t)"

lemma queue_at_blocks [simp]: "st_infos (queue_at q (set_blocks c v s)) = st_infos (queue_at q s)" "st_cap (queue_at q (set_blocks c v s)) = st_cap (queue_at q s)"
  by (simp_all add: queue_at_def set_blocks_def)

lemma double_entries_ok:
  assumes r: "room 1 s"
  shows "\<exists>s'. double_entries s = Inr s' \<and> (\<forall>q. st_infos (queue_at q s') =
    map (\<lambda>t. if \<not> q \<and> ti_relatedType t = Some MIX_AIC_1_1 then t\<lparr> ti_numBlocks := ti_numBlocks t * 2 \<rparr> else t) (st_infos (queue_at q s)))"
proof -
  obtain v where v: "GetTaskQue (snd s) = Some ((snd s)\<lparr> st_cap := v \<rparr>)"
    using GetTaskQue_room[of "snd s"] roomD[OF r, of False] by (auto simp: queue_at_def)
  show ?thesis unfolding double_entries_def v by (auto simp: queue_at_def all_bool_eq map_idI)
qed

lemma half_up: "x \<le> (255 :: u32) \<Longrightarrow> unat x \<le> 2 * unat ((x + 1) div 2)"
proof -
  assume x: "x \<le> 255"
  then have "unat (x + 1) = unat x + 1" by (simp add: unat_word_ariths word_le_nat_alt)
  then show ?thesis by (simp add: unat_div)
qed

lemma word_max: "unat (max a b :: u32) = max (unat a) (unat b)"
  by (simp add: max_def word_le_nat_alt)

text \<open>The entry function runs on the kinds of cores that have functions, and on enough of them for every entry.\<close>

lemma GenEntryInfo_fits:
  assumes inv: "queue_inv tasks s" and r: "room 1 s" and k: "\<And>q. kinds tasks q \<longleftrightarrow> st_funcCnt (queue_at q s) \<noteq> 0" "\<exists>q. kinds tasks q"
    and fu: "\<And>q. kinds tasks q \<longleftrightarrow> (\<exists>ti\<in>set (st_infos (queue_at q s)). is_func ti)"
    and m: "\<not> option_is (bo_perOpMaxCore opts) 1" and f: "\<forall>name. bo_entryFunc opts name \<noteq> 0"
  shows "\<exists>e s'. GenEntryInfo opts None s simt = Inr (Some (e, s')) \<and>
    en_entryType e \<in> (if mixed_of tasks then {MIX_AIC_1_1, MIX_AIC_1_2} else if kinds tasks True then {AIC_ONLY} else {AIV_ONLY}) \<and>
    (\<forall>q. st_infos (queue_at q s') = map (doubled e q) (st_infos (queue_at q s))) \<and>
    (\<forall>q. \<forall>ti\<in>set (st_infos (queue_at q s')). is_func ti \<longrightarrow> unat (ti_numBlocks ti) \<le> launched e q)"
proof -
  let ?c = "fst s" and ?v = "snd s"
  have kt: "kinds tasks True \<longleftrightarrow> st_funcCnt ?c > 0" "kinds tasks False \<longleftrightarrow> st_funcCnt ?v > 0"
    using k(1)[of True] k(1)[of False] by (simp_all add: queue_at_def word_neq_0_conv)
  have iv: "st_numBlocks ?c \<le> 255" "st_numBlocks ?v \<le> 255" using inv unfolding queue_inv_def queue_at_def by (metis (full_types))+
  have le: "unat (ti_numBlocks ti) \<le> unat (st_numBlocks (queue_at q s))" if "ti \<in> set (st_infos (queue_at q s))" "is_func ti" for ti q
  proof -
    have "ucast (ti_numBlocks ti) \<le> st_numBlocks (queue_at q s)" using inv that unfolding queue_inv_def by blast
    then show ?thesis by (simp add: word_le_nat_alt unat_up8)
  qed
  have le11: "unat (ti_numBlocks ti) \<le> unat (st_numBlocks ?c)"
    if "ti \<in> set (st_infos (queue_at False s))" "is_func ti" "ti_relatedType ti = Some MIX_AIC_1_1" for ti
  proof -
    have "ucast (ti_numBlocks ti) \<le> st_numBlocks (queue_at True s)" using inv that unfolding queue_inv_def by blast
    then show ?thesis by (simp add: word_le_nat_alt unat_up8 queue_at_def)
  qed
  have "\<exists>ty. entry_type s = Some ty \<and>
    ty \<in> (if mixed_of tasks then {MIX_AIC_1_1, MIX_AIC_1_2} else if kinds tasks True then {AIC_ONLY} else {AIV_ONLY}) \<and>
    (ty = MIX_AIC_1_1 \<longrightarrow> st_numBlocks ?v \<le> st_numBlocks ?c)"
  proof (cases "mixed_of tasks")
    case True
    then have "st_funcCnt ?c > 0" "st_funcCnt ?v > 0" using kt by (simp_all add: mixed_of_def)
    then show ?thesis using True by (auto simp: entry_type_def Let_def)
  next
    case False
    then show ?thesis using k(2) kt unfolding ex_bool_eq mixed_of_def entry_type_def Let_def by (auto simp: word_neq_0_conv)
  qed
  then obtain ty where ty: "entry_type s = Some ty"
    "ty \<in> (if mixed_of tasks then {MIX_AIC_1_1, MIX_AIC_1_2} else if kinds tasks True then {AIC_ONLY} else {AIV_ONLY})"
    "ty = MIX_AIC_1_1 \<Longrightarrow> st_numBlocks ?v \<le> st_numBlocks ?c" by blast
  obtain b s1 where b: "blocks_for ty s = (b, s1)" by (rule prod.exhaust)
  have s1: "\<exists>c v. s1 = set_blocks c v s" using b by (auto simp: blocks_for_def mix12_blocks_def Let_def split: if_splits)
  then have i1: "st_infos (queue_at q s1) = st_infos (queue_at q s)" and r1: "room 1 s1" for q using r by (auto simp: room_def)
  let ?f = "bo_entryFunc opts (BuildEntryFuncName (GetBaseEntryFuncName ty) (entry_flags opts) @ (if simt then ''_simt'' else ''''))"
  let ?e = "\<lparr> en_numBlocks = b, en_nodeCnt = 0, en_entryType = ty, en_func = ?f \<rparr>"
  have "\<exists>s2. (if ty = MIX_AIC_1_2 then double_entries s1 else Inr s1) = Inr s2 \<and> (\<forall>q. st_infos (queue_at q s2) = map (doubled ?e q) (st_infos (queue_at q s)))"
  proof (cases "ty = MIX_AIC_1_2")
    case True
    then show ?thesis using double_entries_ok[OF r1] by (simp add: i1 doubled_def[abs_def])
  next
    case False
    then show ?thesis by (simp add: i1 doubled_def[abs_def])
  qed
  then obtain s2 where s2: "(if ty = MIX_AIC_1_2 then double_entries s1 else Inr s1) = Inr s2"
    "\<forall>q. st_infos (queue_at q s2) = map (doubled ?e q) (st_infos (queue_at q s))" by blast
  have "GenEntryInfo opts None s simt = Inr (Some (?e, s2))"
    using ty(1) b s2(1) m f by (simp add: GenEntryInfo_def Let_def cong: if_cong)
  moreover have "unat (ti_numBlocks ti) \<le> launched ?e q" if ti: "ti \<in> set (st_infos (queue_at q s2))" "is_func ti" for q ti
  proof -
    obtain t where t: "t \<in> set (st_infos (queue_at q s))" "ti = doubled ?e q t" using ti(1) s2(2) by auto
    then have ft: "is_func t" using ti(2) by (simp add: doubled_def is_func_def split: if_splits)
    have kq: "kinds tasks q" using fu t(1) ft by blast
    consider "ty = AIC_ONLY" "q" | "ty = AIV_ONLY" "\<not> q" | "ty = MIX_AIC_1_1" | "ty = MIX_AIC_1_2"
      using ty(2) kq by (cases q) (auto simp: mixed_of_def split: if_splits)
    then show ?thesis
    proof cases
      case 1
      then have "b = st_numBlocks ?c" using b by (simp add: blocks_for_def Let_def)
      then show ?thesis using le[OF t(1) ft] t(2) 1 by (simp add: doubled_def launched_def queue_at_def)
    next
      case 2
      then have "b = st_numBlocks ?v" using b by (simp add: blocks_for_def Let_def)
      then show ?thesis using le[OF t(1) ft] t(2) 2 by (simp add: doubled_def launched_def queue_at_def)
    next
      case 3
      then have "b = st_numBlocks ?c" using b by (simp add: blocks_for_def Let_def)
      then show ?thesis using le[OF t(1) ft] t(2) 3 ty(3) by (cases q) (simp_all add: doubled_def launched_def queue_at_def word_le_nat_alt)
    next
      case 4
      then have "b = max (st_numBlocks ?c) ((st_numBlocks ?v + 1) div 2)" using b by (auto simp: blocks_for_def mix12_blocks_def Let_def)
      then have nb: "unat b = max (unat (st_numBlocks ?c)) (unat ((st_numBlocks ?v + 1) div 2))" by (simp only: word_max)
      show ?thesis
      proof (cases "\<not> q \<and> ti_relatedType t = Some MIX_AIC_1_1")
        case True
        then have "ti_numBlocks ti = ti_numBlocks t * 2" using t(2) 4 by (simp add: doubled_def)
        moreover have "unat (ti_numBlocks t * 2) \<le> unat (ti_numBlocks t) * 2" by (simp add: unat_word_ariths)
        moreover have "unat (ti_numBlocks t) \<le> unat b" using le11[of t] t(1) ft True nb by (cases q) (simp_all add: max.coboundedI1)
        ultimately show ?thesis using True 4 by (simp add: launched_def)
      next
        case False
        then have "ti = t" using t(2) 4 by (auto simp: doubled_def)
        then show ?thesis using le[OF t(1) ft] 4 nb half_up[OF iv(2)] by (cases q) (simp_all add: launched_def queue_at_def)
      qed
    qed
  qed
  ultimately show ?thesis using ty(2) s2(2) by (intro exI[of _ ?e] exI[of _ s2]) simp
qed

lemma core_ops_doubled: "core_ops d m c (doubled e q t) = core_ops d m c t"
  by (cases "ti_type t") (auto simp: doubled_def core_ops_def)

lemma read_queue_doubled: "read_queue d m c (map (doubled e q) ts) = read_queue d m c ts"
  by (induction ts) (simp_all add: core_ops_doubled)

text \<open>The blocks of a kernel are few enough for the eight bits an entry has for twice their number.\<close>

definition small_blocks :: "task list \<Rightarrow> bool" where
  "small_blocks tasks \<longleftrightarrow> (\<forall>t\<in>set tasks. is_kernel t \<longrightarrow> ki_numBlocks (nd_kernelInfos (snd t)) \<le> 127)"

lemma small_bytes:
  assumes "b \<le> (127 :: u32)"
  shows "unat (ucast b :: 8 word) = unat b" "unat (ucast (b * 2) :: 8 word) = unat b * 2" "unat ((ucast b :: 8 word) * 2) = unat b * 2"
proof -
  have n: "unat b \<le> 127" using assms by (simp add: word_le_nat_alt)
  have u: "unat (b * 2) = unat b * 2" using n by (simp add: unat_word_ariths)
  show one: "unat (ucast b :: 8 word) = unat b" using n by (simp add: unsigned_ucast_eq take_bit_nat_eq_self_iff)
  show "unat (ucast (b * 2) :: 8 word) = unat b * 2" using n by (simp add: unsigned_ucast_eq u take_bit_nat_eq_self_iff)
  show "unat ((ucast b :: 8 word) * 2) = unat b * 2" using n one by (simp add: unat_word_ariths)
qed

text \<open>
  C12 \<^bold>\<open>The kernel is launched on the right cores.\<close> Without constant code generation and the option for the largest number of cores, and if
  the entry functions and the sizes of the unified buffer are found: the build of such tasks yields a launch whose entry function runs on both kinds of
  cores exactly if the tasks use both, with the queues built before; and each function entry is for a kernel on a queue it uses, for as many
  blocks as the kernel has (twice as many vector blocks where two vector cores belong to a cube core), which are at most the cores that are launched.
\<close>

theorem Build_launches:
  assumes "buildable opts tasks customs" and "\<not> option_is (bo_perOpMaxCore opts) 1" and "\<forall>name. bo_entryFunc opts name \<noteq> 0"
    and "option_is (bo_setDynUbuf opts) 1 \<longrightarrow> GetMinSimtAvailableUbufSize tasks \<noteq> None" and "small_blocks tasks"
  shows "\<exists>s r. build_queues opts g tasks customs = Inr (Some s) \<and> Build opts None coreNum g tasks customs = Inr (Some r) \<and>
    en_entryType (la_entryInfo r) \<in> (if mixed_of tasks then {MIX_AIC_1_1, MIX_AIC_1_2} else if kinds tasks True then {AIC_ONLY} else {AIV_ONLY}) \<and>
    loaded tasks (la_queues r) = loaded tasks s \<and>
    (\<forall>q. \<forall>ti\<in>set (st_infos (queue_at q (la_queues r))). ti_type ti = TYPE_FUNC \<longrightarrow> (let n = snd (tasks ! unat (ti_index ti)) in
       uses_queue q (queue_of n) \<and> unat (ti_numBlocks ti) = unat (ki_numBlocks (nd_kernelInfos n)) *
         (if \<not> q \<and> (queue_of n = MIX_1_2 \<or> queue_of n = MIX_1_1 \<and> en_entryType (la_entryInfo r) = MIX_AIC_1_2) then 2 else 1) \<and>
       unat (ti_numBlocks ti) \<le> launched (la_entryInfo r) q))"
proof -
  obtain s where s: "build_queues opts g tasks customs = Inr (Some s)" using build_runs[OF assms(1)] by blast
  note kf = kinds_func[OF assms(1) s]
  obtain u where u: "(if option_is (bo_setDynUbuf opts) 1 then GetMinSimtAvailableUbufSize tasks else Some None) = Some u" using assms(4)
    by (cases "option_is (bo_setDynUbuf opts) 1"; cases "GetMinSimtAvailableUbufSize tasks") simp_all
  obtain e s' where e: "GenEntryInfo opts None s (u \<noteq> None) = Inr (Some (e, s'))"
    "en_entryType e \<in> (if mixed_of tasks then {MIX_AIC_1_1, MIX_AIC_1_2} else if kinds tasks True then {AIC_ONLY} else {AIV_ONLY})"
    "\<forall>q. st_infos (queue_at q s') = map (doubled e q) (st_infos (queue_at q s))"
    "\<forall>q. \<forall>ti\<in>set (st_infos (queue_at q s')). is_func ti \<longrightarrow> unat (ti_numBlocks ti) \<le> launched e q"
    using GenEntryInfo_fits[OF build_queues_inv[OF assms(1) s] kf(3,2,4,1) assms(2,3), of "u \<noteq> None"] by (elim exE conjE) (rule that)
  let ?e = "e\<lparr> en_nodeCnt := of_nat (length tasks) \<rparr>"
  let ?r = "\<lparr> la_entryInfo = ?e, la_header = fst (GenEntryArgs coreNum s' (of_nat (length tasks))), la_queues = s', la_minAvailableUbufSize = u \<rparr>"
  have "Build opts None coreNum g tasks customs = Inr (Some ?r)" using s u e(1) assms(2) by (simp add: Build_def ApplyPerOpMaxCoreNum_def Let_def)
  moreover have "loaded tasks s' = loaded tasks s" unfolding loaded_def e(3)[rule_format] read_queue_doubled ..
  moreover have "let n = snd (tasks ! unat (ti_index ti)) in
       uses_queue q (queue_of n) \<and> unat (ti_numBlocks ti) = unat (ki_numBlocks (nd_kernelInfos n)) *
         (if \<not> q \<and> (queue_of n = MIX_1_2 \<or> queue_of n = MIX_1_1 \<and> en_entryType ?e = MIX_AIC_1_2) then 2 else 1) \<and>
       unat (ti_numBlocks ti) \<le> launched ?e q"
    if ti: "ti \<in> set (st_infos (queue_at q s'))" "ti_type ti = TYPE_FUNC" for q ti
  proof -
    obtain t where t: "t \<in> set (st_infos (queue_at q s))" "ti = doubled e q t" using ti(1) e(3) by auto
    have ft: "is_func t" "is_func ti" using ti(2) t(2) by (simp_all add: doubled_def is_func_def split: if_splits)
    have ix: "ti_index ti = ti_index t" using t(2) by (simp add: doubled_def)
    let ?n = "snd (tasks ! unat (ti_index t))"
    have ok: "unat (ti_index t) < length tasks" "is_kernel (tasks ! unat (ti_index t))" "uses_queue q (queue_of ?n)"
      "ti_relatedType t = Some (ki_kernelType (nd_kernelInfos ?n))" "ti_numBlocks t = wanted q ?n"
      using build_queues_inv[OF assms(1) s] t(1) ft(1) unfolding queue_inv_def entry_ok_def by blast+
    have sm: "ki_numBlocks (nd_kernelInfos ?n) \<le> 127" using assms(5) ok(1,2) unfolding small_blocks_def by simp
    have mix: "ki_kernelType (nd_kernelInfos ?n) = MIX_AIC_1_1 \<longleftrightarrow> queue_of ?n = MIX_1_1"
      by (auto simp: queue_of_def ToQueueType_def split: sk_kernel_type.splits)
    have "unat (ti_numBlocks ti) = unat (ki_numBlocks (nd_kernelInfos ?n)) *
         (if \<not> q \<and> (queue_of ?n = MIX_1_2 \<or> queue_of ?n = MIX_1_1 \<and> en_entryType e = MIX_AIC_1_2) then 2 else 1)"
      using small_bytes[OF sm] t(2) ok(4,5) mix by (auto simp: doubled_def wanted_def)
    moreover have "unat (ti_numBlocks ti) \<le> launched e q" using e(4) ti(1) ft(2) by blast
    moreover have "launched ?e q = launched e q" by (cases "en_entryType e") (simp_all add: launched_def)
    ultimately show ?thesis using ok(3) unfolding Let_def ix by simp
  qed
  ultimately show ?thesis using s e(2) by (intro exI[of _ s] exI[of _ ?r]) simp
qed

lemma Build_launches_witness:
  "\<exists>r. Build run_options None 75 run_graph run_tasks run_custom = Inr (Some r) \<and>
     en_entryType (la_entryInfo r) \<in> {MIX_AIC_1_1, MIX_AIC_1_2}"
proof -
  have "list_all (\<lambda>t. is_kernel t \<longrightarrow> ki_numBlocks (nd_kernelInfos (snd t)) \<le> 127) run_tasks" by code_simp
  then have "small_blocks run_tasks" unfolding small_blocks_def list_all_iff .
  moreover have "mixed_of run_tasks" by (simp add: mixed_of_def kinds_def run_tasks_simps)
  ultimately show ?thesis using Build_launches[OF run_custom_ok, of run_graph 75]
    by (auto simp: run_options_def option_is_def)
qed

end
