(* ===== verification/Spec2Isabelle.thy ===== *)
theory Spec2Isabelle
  imports Sk_Reason Sk_Scope_Launch Sk_Elf Sk_Splitter_Sound Sk_Update_Sound Sk_Filter Sk_Entry_Sound
begin

text \<open>
  \<^bold>\<open>The program.\<close> The super kernel optimizer (\<^verbatim>\<open>src/super_kernel/src/aot\<close>) takes a recorded model of
  streams of tasks, reads it into a graph, decides which operators can run inside one fused kernel
  (a scope), makes sure that running them together cannot deadlock on events, and builds the tasks of
  the fused kernels. This library models the way from the recorded streams to the scopes, the waits and
  writes that replace their tasks, the queues the cores of a fused kernel execute, and the calls that write a scope back into the model.

  \<^bold>\<open>Conventions.\<close> A node pointer is the id under which the graph stores the node; an id without a
  node is the null pointer. Dereferencing it without a test, reading the top of an empty queue, an
  index out of range and a thrown exception are faults (\<open>Prelude.fault\<close>), a run is a fault or a value
  with the state it leaves. Ids, indices and counters are words of the width of the code; the
  \<open>bitset\<close> of scope flags is a set of indices. An unordered container is a list in the order in which
  it is iterated; where the result may depend on the order, it is a set, and the order of a loop an argument. Results of the
  runtime and options read elsewhere are parameters. Logging is left out.

  \<^bold>\<open>Parts and theories.\<close>
  \<^item> \<open>Prelude\<close>: words, constants (\<^verbatim>\<open>sk_types.h\<close>), runs, loops, ordered containers.
  \<^item> \<open>Sk_Node\<close>, \<open>Sk_Reason\<close> (\<^verbatim>\<open>sk_node.h\<close>, \<^verbatim>\<open>sk_node.cpp\<close>): the node record with its virtual
    accessors, and the texts of the reasons a node is not fused.
  \<^item> \<open>Sk_Node_Kernel\<close>, \<open>Sk_Node_Init\<close> (\<^verbatim>\<open>sk_node.cpp\<close>): initialising a node from its task: bind map,
    function resolution, kernel type, recognition of scope kernels.
  \<^item> \<open>Sk_Graph\<close>, \<open>Sk_Graph_Build\<close>, \<open>Sk_Graph_Events\<close>, \<open>Sk_Graph_Scope\<close>, \<open>Sk_Graph_Init\<close>
    (\<^verbatim>\<open>sk_graph.cpp\<close>): reading the streams, classifying memory nodes, linking events, edges between
    kernels, scope flags and original scopes, and their composition in \<open>InitSKGraph\<close>.
  \<^item> \<open>Sk_Scope\<close> (\<^verbatim>\<open>sk_scope_info.h\<close>, the shared part of \<^verbatim>\<open>sk_scope_split.cpp\<close>): scopes and their
    stream entries; \<open>Sk_Heap\<close> (\<^verbatim>\<open>sk_candidate_heap.cpp\<close>): the pool of candidates;
    \<open>Sk_Lock_Detector\<close> (\<^verbatim>\<open>sk_lock_detector.cpp\<close>): the deadlock detector.
  \<^item> \<open>Sk_Initial_Split\<close>, \<open>Sk_Passes\<close>, \<open>Sk_Node_Passes\<close>, \<open>Sk_Splitter\<close> (\<^verbatim>\<open>sk_scope_split.cpp\<close>):
    the passes of the scope split and the pipeline \<open>SplitGraph\<close>.
  \<^item> \<open>Sk_Runtime\<close>: the runtime as a record of functions of the history of calls, the history itself being
    the log of a state; \<open>Sk_Resource\<close> (\<^verbatim>\<open>sk_resource_manager.cpp\<close>, \<^verbatim>\<open>sk_model_context.cpp\<close>): the
    models' device memory, value words, callbacks; \<open>Sk_Scope_Launch\<close> (\<^verbatim>\<open>sk_scope_launch.cpp\<close>): the calls
    that mark scopes; \<open>Sk_Elf\<close> (\<^verbatim>\<open>sk_common.cpp\<close>): symbol tables of kernel binaries.
  \<^item> \<open>Sk_Post\<close> (\<^verbatim>\<open>sk_scope_postprocess.cpp\<close>): cancelled events, the choice of the main stream, the waits
    and writes between the streams; \<open>Sk_Update\<close> (\<^verbatim>\<open>sk_optimizer.cpp\<close>, \<^verbatim>\<open>sk_node.cpp\<close>, \<^verbatim>\<open>sk_graph.cpp\<close>):
    writing a scope and the events of the graph back.
  \<^item> \<open>Sk_Reorder\<close> (\<^verbatim>\<open>sk_optimizer.cpp\<close>): putting waits off before the tasks are built; \<open>Sk_Sync\<close>, \<open>Sk_Queue\<close>,
    \<open>Sk_Entry\<close> (\<^verbatim>\<open>sk_task_builder.cpp\<close>, \<^verbatim>\<open>sk_types.h\<close>): the synchronisation of the tasks, the two queues, and the entry function with the
    layout of its argument; \<open>Sk_Options\<close> (\<^verbatim>\<open>sk_options_manager.cpp\<close>): the patterns for kernel names.
  \<^item> \<open>Sk_Device\<close> (\<^verbatim>\<open>kernel/sk_entry.asc\<close>): what a core does for the entries of its queue; \<open>Sk_Cores\<close>: the cores as a step
    relation over flags and meetings, which are calls of the device library.
  \<^item> \<open>Sk_Post_Sound\<close>, \<open>Sk_Handshake\<close>, \<open>Sk_Filter\<close>, \<open>Sk_Update_Sound\<close>: the proofs about them;
    \<open>Sk_Handshake\<close> has the device as a step relation: streams that write and wait for words of memory,
    and the fused kernel, which starts when its stream reaches it.
  \<^item> \<open>Sk_Initial_Skip\<close>, \<open>Sk_Initial_Sound\<close>, \<open>Sk_Frame\<close>, \<open>Sk_Sche_Sound\<close>, \<open>Sk_Deadlock_Sound\<close>,
    \<open>Sk_Event_Sound\<close>, \<open>Sk_Default_Sound\<close>, \<open>Sk_Splitter_Sound\<close>: the proofs about the scope split.
  \<^item> \<open>Sk_Sync_Sound\<close>, \<open>Sk_Extract_Sound\<close>, \<open>Sk_Order\<close>, \<open>Sk_Run\<close>, \<open>Sk_Entry_Sound\<close>: the proofs about the task builder: the edges
    between the queues, the times at which operations belong, the runs of the cores, the launch.

  \<^bold>\<open>Interfaces.\<close> A pool of candidates, a backward search, a scope pass, a fair one, and a steady one, which leaves the
  detectors and the requirements of the operators as the pass found them, are locales;
  each is interpreted on the code's definitions: both kinds of pools in \<open>Sk_Heap\<close>, \<open>HasDeadlock\<close> in
  \<open>Sk_Lock_Detector\<close>, and every pass of the pipeline in the theory that proves it sound. The
  pipeline's theorems use only the contract of the passes and the cases of the last two.

  \<^bold>\<open>What is shown.\<close> Initialising a graph returns a well-formed, linked graph or throws, and exactly when
  it throws; every deadlock search and every question to the detector ends, keeps the books of the
  detector and certifies what it marks; the initial split and the whole pipeline end without a fault
  and return disjoint scopes of fusible nodes with their flags, in the order of the streams; complete
  splits hold only scopes that the detector of the last deadlock pass admits, with its device, its options and the operators' own
  requirements; single passes do exactly what they are for. The books
  of the device memory agree with the calls to the runtime whatever it answers, and what is lost are the blocks whose free failed. In every interleaving of
  the streams of a postprocessed scope the fused kernel starts when all its streams have arrived, none
  leaves before, nothing blocks and the words are zero again; and what is planned can be written back, with one
  launch. The queues built for a fused kernel hold every task once; in every interleaving of its cores the
  order of the streams and of the events between kernels is kept, nothing gets stuck, and the events added behind the tasks come last; the entry
  function is launched on enough cores of the right kinds. Optimising the synchronisation keeps the order of the edges and no
  edge that is not needed. The events of a graph are written back in whatever order an unordered set yields them. Concrete
  graphs show that the split can give up early, that an empty scope name makes initialisation
  throw, and that a notify can be raised before all cores have finished the kernel before it.

  \<^bold>\<open>Fuel.\<close> Recursion along streams has one unit of fuel more than the graph has nodes, because
  positions grow along a stream; the deadlock search as well, because each call marks a node; skipping
  has the number of nodes and of streams, building a scope a bound from both; splitting one scope has
  its length, since each cut takes a node away. For each, a theorem states that the fuel is enough.

  \<^bold>\<open>Not modelled.\<close> The parsing of options, constant code generation (an argument of the build), the diagnostic records, the public
  entry points, dumps and logging; early start is modelled where the queues are built, not on the device. For the streams the fused kernel is one
  step that runs its events and operators (\<open>Sk_Handshake\<close>); its inside is the matter of \<open>Sk_Cores\<close>, where executing an operator is a step of a
  core. Not modelled either: the JIT front end (Python) and the autofuse product, which shares nothing with the super kernel.
\<close>

end
